(* ===== verification/Depot_Prelude.thy ===== *)
theory Depot_Prelude
  imports
    Main
    "HOL-Library.Word"
    "HOL-Library.List_Lexorder"
    "HOL-Library.Char_ord"
begin

text \<open>
  Shared vocabulary of the development: the machine integers and the byte strings of the Rust
  sources, the string functions of Rust's standard library the code calls, the decimal
  formatting of \<open>format!\<close>, and the UTF-8 check behind \<open>String::from_utf8\<close>.

  A Rust \<open>String\<close> is a vector of bytes that is valid UTF-8, and \<open>str\<close> values are ordered
  bytewise. HOL's \<^typ>\<open>char\<close> is a byte, so both \<open>String\<close> and \<open>Vec<u8>\<close> are \<^typ>\<open>char list\<close>;
  the validity of a \<open>String\<close> is the predicate \<open>utf8_valid\<close>, and \<open>as_bytes\<close> is the identity.
\<close>

type_synonym u8 = char
type_synonym bytes = "char list"
type_synonym u16 = "16 word"
type_synonym u32 = "32 word"
type_synonym u64 = "64 word"

text \<open>An \<open>i64\<close> is a 64-bit word read with \<^const>\<open>sint\<close>.\<close>

type_synonym i64 = "64 word"

text \<open>A \<open>DateTime<Utc>\<close> is a number of nanoseconds since the Unix epoch.\<close>

type_synonym datetime = int

named_theorems str_simps \<open>string functions of the Rust standard library\<close>
named_theorems utf8_intros \<open>closure of UTF-8 validity\<close>
named_theorems key_ok_intros \<open>well-formedness of partition and sort keys\<close>

subsection \<open>Optional access to the last element\<close>

definition last_opt :: "'a list \<Rightarrow> 'a option" where
  "last_opt xs = (if xs = [] then None else Some (last xs))"

lemma last_opt_simps [simp]:
  "last_opt [] = None"
  "last_opt (xs @ [x]) = Some x"
  "last_opt xs = None \<longleftrightarrow> xs = []"
  by (auto simp: last_opt_def)

lemma last_opt_Some: "last_opt xs = Some x \<longleftrightarrow> xs \<noteq> [] \<and> last xs = x"
  by (auto simp: last_opt_def)

subsection \<open>Lexicographic order on byte strings\<close>

lemma list_less_Nil [simp]: "\<not> xs < ([] :: 'a :: order list)"
  by (simp add: list_less_def)

lemma list_Nil_less [simp]: "([] :: 'a :: order list) < xs \<longleftrightarrow> xs \<noteq> []"
  by (cases xs) (auto simp: list_less_def)

lemma list_Nil_le [simp]: "([] :: 'a :: order list) \<le> xs"
  by (cases xs) (auto simp: list_le_def)

lemma list_le_Nil [simp]: "xs \<le> ([] :: 'a :: order list) \<longleftrightarrow> xs = []"
  by (auto simp: list_le_def)

lemma list_Cons_less [simp]:
  "(x # xs) < (y # ys) \<longleftrightarrow> x < y \<or> x = y \<and> xs < (ys :: 'a :: order list)"
  by (auto simp: list_less_def)

lemma list_Cons_le [simp]:
  "(x # xs) \<le> (y # ys) \<longleftrightarrow> x < y \<or> x = y \<and> xs \<le> (ys :: 'a :: order list)"
  by (auto simp: list_le_def)

lemma list_append_less [simp]: "(ps @ xs) < (ps @ ys) \<longleftrightarrow> xs < (ys :: 'a :: order list)"
  by (induction ps) auto

lemma list_append_le [simp]: "(ps @ xs) \<le> (ps @ ys) \<longleftrightarrow> xs \<le> (ys :: 'a :: order list)"
  by (induction ps) auto

lemma list_le_append [simp]: "xs \<le> (xs @ ys :: 'a :: order list)"
  using list_append_le [of xs "[]" ys] by simp

lemma list_less_append [simp]: "xs < (xs @ ys :: 'a :: order list) \<longleftrightarrow> ys \<noteq> []"
  using list_append_less [of xs "[]" ys] by simp

lemma char_zero_le [simp]: "CHR 0x00 \<le> c"
  by (simp add: less_eq_char_def)

lemma char_less_zero [simp]: "\<not> c < CHR 0x00"
  by (simp add: less_char_def)

text \<open>Appending a NUL byte gives the immediate successor in the bytewise order.\<close>

lemma less_snoc_NUL: "ys < xs @ [CHR 0x00] \<longleftrightarrow> ys \<le> (xs :: bytes)"
proof (induction xs arbitrary: ys)
  case Nil
  show ?case by (cases ys) (auto simp: list_le_def)
next
  case (Cons x xs)
  show ?case by (cases ys) (auto simp: Cons.IH)
qed

lemma snoc_NUL_le: "xs @ [CHR 0x00] \<le> ys \<longleftrightarrow> (xs :: bytes) < ys"
  using less_snoc_NUL [of ys xs] by (auto simp: not_less [symmetric])

subsection \<open>Rust string functions\<close>

definition starts_with :: "'a list \<Rightarrow> 'a list \<Rightarrow> bool" where
  "starts_with s p \<longleftrightarrow> take (length p) s = p"

lemma starts_with_iff [str_simps]: "starts_with s p \<longleftrightarrow> (\<exists>r. s = p @ r)"
proof
  assume "starts_with s p"
  then have "s = p @ drop (length p) s"
    unfolding starts_with_def using append_take_drop_id [of "length p" s] by simp
  then show "\<exists>r. s = p @ r" ..
qed (auto simp: starts_with_def)

lemma starts_with_Nil [simp]: "starts_with s []"
  by (simp add: starts_with_def)

lemma starts_with_append [simp]: "starts_with (p @ r) p"
  by (simp add: starts_with_def)

lemma starts_with_Cons [simp]:
  "starts_with (y # s) (x # p) \<longleftrightarrow> y = x \<and> starts_with s p"
  "\<not> starts_with [] (x # p)"
  by (simp_all add: starts_with_def)

definition strip_prefix :: "string \<Rightarrow> string \<Rightarrow> string option" where
  "strip_prefix s p = (if starts_with s p then Some (drop (length p) s) else None)"

fun contains_str :: "string \<Rightarrow> string \<Rightarrow> bool" where
  "contains_str [] p = (p = [])"
| "contains_str (c # s) p = (starts_with (c # s) p \<or> contains_str s p)"

lemma contains_str_iff [str_simps]: "contains_str s p \<longleftrightarrow> (\<exists>a b. s = a @ p @ b)"
proof (induction s p rule: contains_str.induct)
  case (2 c s p)
  show ?case
  proof
    assume "contains_str (c # s) p"
    then consider "starts_with (c # s) p" | "contains_str s p" by auto
    then show "\<exists>a b. c # s = a @ p @ b"
    proof cases
      case 1
      then obtain r where "c # s = [] @ p @ r" by (auto simp: starts_with_iff)
      then show ?thesis by blast
    next
      case 2
      with "2.IH" obtain a b where "s = a @ p @ b" by blast
      then have "c # s = (c # a) @ p @ b" by simp
      then show ?thesis by blast
    qed
  next
    assume "\<exists>a b. c # s = a @ p @ b"
    then obtain a b where ab: "c # s = a @ p @ b" by blast
    show "contains_str (c # s) p"
    proof (cases a)
      case Nil
      with ab have "starts_with (c # s) p" by (auto simp: starts_with_iff)
      then show ?thesis by simp
    next
      case (Cons d a')
      with ab have "s = a' @ p @ b" by simp
      with "2.IH" show ?thesis by auto
    qed
  qed
qed simp

definition trim_start_matches :: "char \<Rightarrow> string \<Rightarrow> string" where
  "trim_start_matches c s = dropWhile (\<lambda>x. x = c) s"

definition trim_end_matches :: "char \<Rightarrow> string \<Rightarrow> string" where
  "trim_end_matches c s = rev (dropWhile (\<lambda>x. x = c) (rev s))"

definition trim_matches :: "char \<Rightarrow> string \<Rightarrow> string" where
  "trim_matches c s = trim_end_matches c (trim_start_matches c s)"

text \<open>\<open>str::rfind\<close>: the byte index of the last occurrence of a character.\<close>

definition rfind :: "char \<Rightarrow> string \<Rightarrow> nat option" where
  "rfind c s = (if c \<in> set s
     then Some (length s - Suc (length (takeWhile (\<lambda>x. x \<noteq> c) (rev s)))) else None)"

lemma rfind_None [simp]: "rfind c s = None \<longleftrightarrow> c \<notin> set s"
  by (simp add: rfind_def)

lemma rfind_append [simp]: "c \<notin> set b \<Longrightarrow> rfind c (a @ c # b) = Some (length a)"
proof -
  assume b: "c \<notin> set b"
  have "takeWhile (\<lambda>x. x \<noteq> c) (rev b @ c # rev a) = rev b"
    using b by (subst takeWhile_append2) auto
  then show ?thesis by (simp add: rfind_def)
qed

lemma rfind_SomeE:
  assumes "rfind c s = Some i"
  obtains a b where "s = a @ c # b" "c \<notin> set b" "i = length a"
proof -
  from assms have "c \<in> set s" by (simp add: rfind_def split: if_splits)
  then obtain a b where s: "s = a @ c # b" and b: "c \<notin> set b"
    by (auto dest: split_list_last)
  with assms have "i = length a" by simp
  with s b that show thesis by blast
qed

text \<open>\<open>s.rsplit(c).next()\<close>: the part after the last occurrence (all of \<open>s\<close> when there is none).\<close>

definition rsplit_next :: "char \<Rightarrow> string \<Rightarrow> string" where
  "rsplit_next c s = rev (takeWhile (\<lambda>x. x \<noteq> c) (rev s))"

lemma takeWhile_neq_absent: "c \<notin> set s \<Longrightarrow> takeWhile (\<lambda>x. x \<noteq> c) s = s"
  by (induction s) auto

lemma takeWhile_neq_append: "c \<notin> set a \<Longrightarrow> takeWhile (\<lambda>x. x \<noteq> c) (a @ c # b) = a"
  by (induction a) auto

lemma dropWhile_neq_append: "c \<notin> set a \<Longrightarrow> dropWhile (\<lambda>x. x \<noteq> c) (a @ c # b) = c # b"
  by (induction a) auto

lemma rsplit_next_append [simp]: "c \<notin> set b \<Longrightarrow> rsplit_next c (a @ c # b) = b"
  by (simp add: rsplit_next_def takeWhile_neq_append)

lemma rsplit_next_absent [simp]: "c \<notin> set s \<Longrightarrow> rsplit_next c s = s"
  by (simp add: rsplit_next_def takeWhile_neq_absent)

definition rsplit_once :: "char \<Rightarrow> string \<Rightarrow> (string \<times> string) option" where
  "rsplit_once c s = (case rfind c s of None \<Rightarrow> None
     | Some i \<Rightarrow> Some (take i s, drop (Suc i) s))"

lemma rsplit_once_append [simp]:
  "c \<notin> set b \<Longrightarrow> rsplit_once c (a @ c # b) = Some (a, b)"
  by (simp add: rsplit_once_def)

lemma rsplit_once_None [simp]: "c \<notin> set s \<Longrightarrow> rsplit_once c s = None"
  by (simp add: rsplit_once_def rfind_def)

definition split_once :: "char \<Rightarrow> string \<Rightarrow> (string \<times> string) option" where
  "split_once c s = (if c \<in> set s
     then Some (takeWhile (\<lambda>x. x \<noteq> c) s, tl (dropWhile (\<lambda>x. x \<noteq> c) s)) else None)"

lemma split_once_append [simp]:
  "c \<notin> set a \<Longrightarrow> split_once c (a @ c # b) = Some (a, b)"
  by (simp add: split_once_def takeWhile_neq_append dropWhile_neq_append)

subsection \<open>Decimal formatting\<close>

definition digit_char :: "nat \<Rightarrow> char" where
  "digit_char d = char_of (48 + d)"

fun decimal :: "nat \<Rightarrow> string" where
  "decimal n = (if n < 10 then [digit_char n] else decimal (n div 10) @ [digit_char (n mod 10)])"

declare decimal.simps [simp del]

text \<open>\<open>format!("{:020}", n)\<close>.\<close>

definition zero_pad :: "nat \<Rightarrow> nat \<Rightarrow> string" where
  "zero_pad w n = replicate (w - length (decimal n)) (digit_char 0) @ decimal n"

lemma of_char_digit_char [simp]: "d < 10 \<Longrightarrow> of_char (digit_char d) = 48 + d"
  by (simp add: digit_char_def)

lemma digit_char_inject: "d < 10 \<Longrightarrow> e < 10 \<Longrightarrow> digit_char d = digit_char e \<longleftrightarrow> d = e"
  by (metis add_left_cancel of_char_digit_char)

lemma digit_char_less: "d < 10 \<Longrightarrow> e < 10 \<Longrightarrow> digit_char d < digit_char e \<longleftrightarrow> d < e"
  by (simp add: less_char_def)

lemma decimal_not_Nil [simp]: "decimal n \<noteq> []"
  by (subst decimal.simps) simp

lemma decimal_digits: "c \<in> set (decimal n) \<Longrightarrow> \<exists>d<10. c = digit_char d"
proof (induction n arbitrary: c rule: decimal.induct)
  case (1 n)
  show ?case
  proof (cases "n < 10")
    case True
    with "1.prems" show ?thesis by (subst (asm) decimal.simps) auto
  next
    case False
    with "1.prems" consider "c \<in> set (decimal (n div 10))" | "c = digit_char (n mod 10)"
      by (subst (asm) decimal.simps) auto
    then show ?thesis
    proof cases
      case 1
      with "1.IH" [OF False] show ?thesis by blast
    next
      case 2
      then show ?thesis by (metis mod_less_divisor zero_less_numeral)
    qed
  qed
qed

lemma decimal_no_slash [simp]: "CHR ''/'' \<notin> set (decimal n)"
proof
  assume "CHR ''/'' \<in> set (decimal n)"
  then obtain d where d: "d < 10" "CHR ''/'' = digit_char d" using decimal_digits by blast
  then have "(of_char (CHR ''/'') :: nat) = 48 + d" by simp
  then show False by simp
qed

lemma decimal_no_NUL [simp]: "CHR 0x00 \<notin> set (decimal n)"
proof
  assume "CHR 0x00 \<in> set (decimal n)"
  then obtain d where d: "d < 10" "CHR 0x00 = digit_char d" using decimal_digits by blast
  then have "(of_char (CHR 0x00) :: nat) = 48 + d" by simp
  then show False by simp
qed

subsection \<open>Reading a decimal back\<close>

fun undecimal :: "string \<Rightarrow> nat" where
  "undecimal [] = 0"
| "undecimal (c # cs) = (of_char c - 48) * 10 ^ length cs + undecimal cs"

lemma undecimal_snoc: "undecimal (cs @ [c]) = undecimal cs * 10 + (of_char c - 48)"
  by (induction cs) (auto simp: algebra_simps)

lemma undecimal_decimal [simp]: "undecimal (decimal n) = n"
proof (induction n rule: decimal.induct)
  case (1 n)
  show ?case
  proof (cases "n < 10")
    case True
    then show ?thesis by (subst decimal.simps) simp
  next
    case False
    with "1.IH" show ?thesis by (subst decimal.simps) (simp add: undecimal_snoc)
  qed
qed

lemma decimal_inject [simp]: "decimal m = decimal n \<longleftrightarrow> m = n"
  by (metis undecimal_decimal)

lemma undecimal_zeros [simp]: "undecimal (replicate k (digit_char 0) @ cs) = undecimal cs"
  by (induction k) auto

lemma undecimal_zero_pad [simp]: "undecimal (zero_pad w n) = n"
  by (simp add: zero_pad_def)

lemma zero_pad_digits: "c \<in> set (zero_pad w n) \<Longrightarrow> \<exists>d<10. c = digit_char d"
  unfolding zero_pad_def by (auto dest: decimal_digits intro: exI [of _ 0])

lemma length_decimal: "n < 10 ^ k \<Longrightarrow> 0 < k \<Longrightarrow> length (decimal n) \<le> k"
proof (induction n arbitrary: k rule: decimal.induct)
  case (1 n)
  show ?case
  proof (cases "n < 10")
    case True
    with "1.prems" show ?thesis by (subst decimal.simps) simp
  next
    case False
    then obtain j where k: "k = Suc j" "0 < j"
      using "1.prems" by (cases k; cases "k - 1") auto
    with "1.prems" have "n div 10 < 10 ^ j" by (simp add: less_mult_imp_div_less mult.commute)
    with "1.IH" [OF False] k have "length (decimal (n div 10)) \<le> j" by blast
    with False k show ?thesis by (subst decimal.simps) simp
  qed
qed

lemma length_zero_pad: "n < 10 ^ w \<Longrightarrow> 0 < w \<Longrightarrow> length (zero_pad w n) = w"
  using length_decimal [of n w] by (simp add: zero_pad_def)

lemma undecimal_bound:
  "\<forall>c \<in> set cs. \<exists>d<10. c = digit_char d \<Longrightarrow> undecimal cs < 10 ^ length cs"
proof (induction cs)
  case (Cons c cs)
  then obtain d where d: "d < 10" "c = digit_char d" by auto
  from Cons have "undecimal cs < 10 ^ length cs" by simp
  with d have "undecimal (c # cs) < d * 10 ^ length cs + 10 ^ length cs" by simp
  also have "\<dots> = Suc d * 10 ^ length cs" by simp
  also have "\<dots> \<le> 10 * 10 ^ length cs" using d by (intro mult_right_mono) auto
  finally show ?case by simp
qed simp

text \<open>Digit strings of one length compare as the numbers they denote.\<close>

lemma digits_less_iff:
  assumes "length xs = length ys"
    and "\<forall>c \<in> set xs. \<exists>d<10. c = digit_char d"
    and "\<forall>c \<in> set ys. \<exists>d<10. c = digit_char d"
  shows "xs < ys \<longleftrightarrow> undecimal xs < undecimal ys"
  using assms
proof (induction xs ys rule: list_induct2)
  case (Cons x xs y ys)
  then obtain d e where d: "d < 10" "x = digit_char d" and e: "e < 10" "y = digit_char e"
    by auto
  from Cons have IH: "xs < ys \<longleftrightarrow> undecimal xs < undecimal ys" by simp
  from Cons have bx: "undecimal xs < 10 ^ length xs" and by': "undecimal ys < 10 ^ length xs"
    using undecimal_bound [of xs] undecimal_bound [of ys] by auto
  have lt: "a * p + u < b * p + v" if "a < b" "u < p" for a b u v p :: nat
  proof -
    have "a * p + u < Suc a * p" using that by simp
    also have "\<dots> \<le> b * p" using that by (intro mult_right_mono) auto
    finally show ?thesis by simp
  qed
  consider "d < e" | "d = e" | "e < d" by linarith
  then show ?case
  proof cases
    case 1
    with d e bx Cons.hyps show ?thesis
      using lt [of d e "undecimal xs" "10 ^ length xs" "undecimal ys"]
      by (simp add: digit_char_less)
  next
    case 2
    with d e IH Cons.hyps show ?thesis by simp
  next
    case 3
    with d e by' Cons.hyps show ?thesis
      using lt [of e d "undecimal ys" "10 ^ length xs" "undecimal xs"]
      by (simp add: digit_char_less digit_char_inject)
  qed
qed simp

subsection \<open>UTF-8 validity\<close>

abbreviation byte_in :: "nat \<Rightarrow> nat \<Rightarrow> char \<Rightarrow> bool" where
  "byte_in lo hi c \<equiv> lo \<le> of_char c \<and> of_char c \<le> (hi :: nat)"

text \<open>
  The well-formed byte sequences of the Unicode standard, as \<open>String::from_utf8\<close> checks them:
  the width of the scalar value at the front, and 0 when there is none.
\<close>

abbreviation ascii :: "char \<Rightarrow> bool" where
  "ascii c \<equiv> of_char c < (0x80 :: nat)"

abbreviation utf8_cont :: "char \<Rightarrow> bool" where
  "utf8_cont c \<equiv> byte_in 0x80 0xBF c"

definition utf8_width2 :: "char \<Rightarrow> bytes \<Rightarrow> bool" where
  "utf8_width2 a r \<longleftrightarrow> byte_in 0xC2 0xDF a \<and> 1 \<le> length r \<and> utf8_cont (r ! 0)"

definition utf8_width3 :: "char \<Rightarrow> bytes \<Rightarrow> bool" where
  "utf8_width3 a r \<longleftrightarrow> byte_in 0xE0 0xEF a \<and> 2 \<le> length r
     \<and> byte_in (if of_char a = (0xE0 :: nat) then 0xA0 else 0x80)
               (if of_char a = (0xED :: nat) then 0x9F else 0xBF) (r ! 0)
     \<and> utf8_cont (r ! 1)"

definition utf8_width4 :: "char \<Rightarrow> bytes \<Rightarrow> bool" where
  "utf8_width4 a r \<longleftrightarrow> byte_in 0xF0 0xF4 a \<and> 3 \<le> length r
     \<and> byte_in (if of_char a = (0xF0 :: nat) then 0x90 else 0x80)
               (if of_char a = (0xF4 :: nat) then 0x8F else 0xBF) (r ! 0)
     \<and> utf8_cont (r ! 1) \<and> utf8_cont (r ! 2)"

fun utf8_width :: "bytes \<Rightarrow> nat" where
  "utf8_width [] = 0"
| "utf8_width (a # r) =
    (if ascii a then 1
     else if utf8_width2 a r then 2
     else if utf8_width3 a r then 3
     else if utf8_width4 a r then 4
     else 0)"

function utf8_valid :: "bytes \<Rightarrow> bool" where
  "utf8_valid s = (if s = [] then True
     else if utf8_width s = 0 then False else utf8_valid (drop (utf8_width s) s))"
  by pat_completeness auto
termination by (relation "measure length") auto

declare utf8_valid.simps [simp del]

lemma utf8_valid_Nil [simp]: "utf8_valid []"
  by (subst utf8_valid.simps) simp

lemma utf8_valid_ascii [simp]: "ascii c \<Longrightarrow> utf8_valid (c # s) \<longleftrightarrow> utf8_valid s"
  by (subst utf8_valid.simps) simp

lemma utf8_width_le: "utf8_width s \<le> length s"
  by (cases s) (auto simp: utf8_width2_def utf8_width3_def utf8_width4_def)

lemma utf8_width2_append: "utf8_width2 a r \<Longrightarrow> utf8_width2 a (r @ t)"
  by (cases r) (simp_all add: utf8_width2_def)

lemma utf8_width3_append: "utf8_width3 a r \<Longrightarrow> utf8_width3 a (r @ t)"
  by (cases r; cases "tl r") (simp_all add: utf8_width3_def)

lemma utf8_width4_append: "utf8_width4 a r \<Longrightarrow> utf8_width4 a (r @ t)"
  by (cases r; cases "tl r"; cases "tl (tl r)") (simp_all add: utf8_width4_def)

lemma utf8_width_exclusive:
  "utf8_width3 a r \<Longrightarrow> \<not> utf8_width2 a r'"
  "utf8_width4 a r \<Longrightarrow> \<not> utf8_width2 a r'"
  "utf8_width4 a r \<Longrightarrow> \<not> utf8_width3 a r'"
  by (simp_all add: utf8_width2_def utf8_width3_def utf8_width4_def)

lemma utf8_width_append: "0 < utf8_width s \<Longrightarrow> utf8_width (s @ t) = utf8_width s"
  by (cases s)
    (auto split: if_splits
      dest: utf8_width_exclusive [of _ _ "_ @ t"] utf8_width2_append [of _ _ t]
        utf8_width3_append [of _ _ t] utf8_width4_append [of _ _ t])

lemma utf8_width2_take: "utf8_width2 a r \<Longrightarrow> utf8_width2 a (take 1 r)"
  by (cases r) (simp_all add: utf8_width2_def)

lemma utf8_width3_take: "utf8_width3 a r \<Longrightarrow> utf8_width3 a (take 2 r)"
  by (cases r; cases "tl r") (simp_all add: utf8_width3_def)

lemma utf8_width4_take: "utf8_width4 a r \<Longrightarrow> utf8_width4 a (take 3 r)"
  by (cases r; cases "tl r"; cases "tl (tl r)") (simp_all add: utf8_width4_def)

lemma utf8_width_take: "utf8_width (take (utf8_width s) s) = utf8_width s"
proof (cases s)
  case (Cons a r)
  have take_Suc: "take 2 (a # r) = a # take 1 r" "take 3 (a # r) = a # take 2 r"
    "take 4 (a # r) = a # take 3 r"
    by (simp_all add: take_Cons')
  show ?thesis
    using Cons take_Suc utf8_width2_take [of a r] utf8_width3_take [of a r] utf8_width4_take [of a r]
      utf8_width_exclusive [of a r]
    by auto
qed simp

lemma utf8_width_inner: "0 < i \<Longrightarrow> i < utf8_width s \<Longrightarrow> \<not> ascii (s ! i)"
proof (cases s)
  case (Cons a r)
  assume i: "0 < i" "i < utf8_width s"
  then obtain j where j: "i = Suc j" by (cases i) auto
  have "utf8_width s \<le> 4" using Cons by simp
  with i j consider "j = 0" | "j = 1" | "j = 2" by linarith
  then show ?thesis
    using i j Cons
    by cases (simp_all add: utf8_width2_def utf8_width3_def utf8_width4_def split: if_split_asm)
qed simp

lemma utf8_valid_append [utf8_intros]: "utf8_valid s \<Longrightarrow> utf8_valid t \<Longrightarrow> utf8_valid (s @ t)"
proof (induction s rule: utf8_valid.induct)
  case (1 s)
  show ?case
  proof (cases "s = []")
    case False
    with "1.prems" have w: "0 < utf8_width s" and v: "utf8_valid (drop (utf8_width s) s)"
      by (simp_all add: utf8_valid.simps [of s] split: if_splits)
    with "1.IH" False "1.prems" have "utf8_valid (drop (utf8_width s) s @ t)" by simp
    with w utf8_width_le [of s] show ?thesis
      by (subst utf8_valid.simps) (simp add: utf8_width_append)
  qed (simp add: "1.prems")
qed

lemma utf8_valid_ascii_list [utf8_intros]: "\<forall>c \<in> set s. ascii c \<Longrightarrow> utf8_valid s"
  by (induction s) auto

text \<open>
  An ASCII byte is never inside a multi-byte scalar value, so a valid string splits at it.
\<close>

lemma utf8_valid_split:
  "ascii c \<Longrightarrow> utf8_valid (s @ c # t) \<longleftrightarrow> utf8_valid s \<and> utf8_valid t"
proof (induction s rule: utf8_valid.induct)
  case (1 s)
  show ?case
  proof (cases "s = []")
    case False
    let ?w = "utf8_width (s @ c # t)"
    have le: "?w \<le> length s"
    proof (rule ccontr)
      assume "\<not> ?w \<le> length s"
      with False utf8_width_inner [of "length s" "s @ c # t"] "1.prems" show False by simp
    qed
    have w: "?w = utf8_width s"
    proof (cases "utf8_width s = 0")
      case True
      show ?thesis
      proof (rule ccontr)
        assume "?w \<noteq> utf8_width s"
        with True have "0 < ?w" by simp
        with le have "utf8_width (take ?w (s @ c # t)) = ?w"
          using utf8_width_take [of "s @ c # t"] by simp
        with le have "utf8_width (take ?w s) = ?w" by simp
        with \<open>0 < ?w\<close> have "utf8_width (take ?w s @ drop ?w s) = ?w"
          using utf8_width_append by metis
        with True \<open>0 < ?w\<close> show False by simp
      qed
    next
      case False
      then show ?thesis using utf8_width_append by simp
    qed
    show ?thesis
    proof (cases "utf8_width s = 0")
      case True
      with False w show ?thesis by (simp add: utf8_valid.simps [of s] utf8_valid.simps [of "s @ c # t"])
    next
      case nz: False
      with "1.IH" False "1.prems"
      have "utf8_valid (drop (utf8_width s) s @ c # t) \<longleftrightarrow> utf8_valid (drop (utf8_width s) s) \<and> utf8_valid t"
        by blast
      with False nz w le show ?thesis
        by (simp add: utf8_valid.simps [of s] utf8_valid.simps [of "s @ c # t"])
    qed
  qed (simp add: "1.prems")
qed

lemma utf8_valid_snoc: "ascii c \<Longrightarrow> utf8_valid (s @ [c]) \<longleftrightarrow> utf8_valid s"
  using utf8_valid_split [of c s "[]"] by simp

end
