(* ===== verification/Depot_Error.thy ===== *)
theory Depot_Error
  imports Depot_Prelude
begin

text \<open>
  The error type of the system (\<open>core/src/error.rs\<close>): its constructors, the retryability of a
  storage error, and the HTTP response an error becomes. A boxed error source is its display
  string.
\<close>

datatype retryability = Permanent | Transient

datatype depot_error =
    Storage string retryability
  | BadRequest string
  | Unauthorized string
  | Forbidden string
  | Conflict string
  | NotFound string
  | NotAllowed string
  | Upstream string
  | DataIntegrity string
  | Internal string

text \<open>\<open>Display\<close>, derived by the \<open>#[error("...")]\<close> attributes of the variants.\<close>

fun error_to_string :: "depot_error \<Rightarrow> string" where
  "error_to_string (Storage e r) = ''storage error: '' @ e"
| "error_to_string (BadRequest m) = m"
| "error_to_string (Unauthorized m) = m"
| "error_to_string (Forbidden m) = m"
| "error_to_string (Conflict m) = m"
| "error_to_string (NotFound m) = m"
| "error_to_string (NotAllowed m) = m"
| "error_to_string (Upstream m) = ''upstream error: '' @ m"
| "error_to_string (DataIntegrity m) = ''data integrity error: '' @ m"
| "error_to_string (Internal m) = ''internal error: '' @ m"

record error_body =
  eb_code :: string
  eb_message :: string

record response =
  rsp_status :: nat
  rsp_www_authenticate :: "string option"
  rsp_error :: "error_body option"

fun error_code :: "depot_error \<Rightarrow> string" where
  "error_code (Storage _ _) = ''STORAGE_ERROR''"
| "error_code (BadRequest _) = ''BAD_REQUEST''"
| "error_code (Unauthorized _) = ''UNAUTHORIZED''"
| "error_code (Forbidden _) = ''FORBIDDEN''"
| "error_code (Conflict _) = ''CONFLICT''"
| "error_code (NotFound _) = ''NOT_FOUND''"
| "error_code (NotAllowed _) = ''NOT_ALLOWED''"
| "error_code (Upstream _) = ''UPSTREAM_ERROR''"
| "error_code (DataIntegrity _) = ''DATA_INTEGRITY_ERROR''"
| "error_code (Internal _) = ''INTERNAL_ERROR''"

fun is_transient :: "depot_error \<Rightarrow> bool" where
  "is_transient (Storage _ Transient) = True"
| "is_transient _ = False"

definition storage_permanent :: "string \<Rightarrow> depot_error" where
  "storage_permanent e = Storage e Permanent"

definition storage_transient :: "string \<Rightarrow> depot_error" where
  "storage_transient e = Storage e Transient"

definition upstream :: "string \<Rightarrow> depot_error" where
  "upstream e = Upstream e"

fun error_status :: "depot_error \<Rightarrow> nat" where
  "error_status (Storage _ Transient) = 503"
| "error_status (Storage _ Permanent) = 500"
| "error_status (DataIntegrity _) = 500"
| "error_status (Internal _) = 500"
| "error_status (BadRequest _) = 400"
| "error_status (Unauthorized _) = 401"
| "error_status (Forbidden _) = 403"
| "error_status (Conflict _) = 409"
| "error_status (NotFound _) = 404"
| "error_status (NotAllowed _) = 405"
| "error_status (Upstream _) = 502"

definition error_into_response :: "depot_error \<Rightarrow> response" where
  "error_into_response e =
     \<lparr>rsp_status = error_status e, rsp_www_authenticate = None,
      rsp_error = Some \<lparr>eb_code = error_code e, eb_message = error_to_string e\<rparr>\<rparr>"

text \<open>
  The error kinds of \<open>std::io::ErrorKind\<close> that \<open>io_retryability\<close> tells apart; every other kind
  is \<open>OtherKind\<close>.
\<close>

datatype io_error_kind =
  ConnectionReset | ConnectionAborted | TimedOut | Interrupted | BrokenPipe | WouldBlock | OtherKind

fun io_retryability :: "io_error_kind \<Rightarrow> retryability" where
  "io_retryability ConnectionReset = Transient"
| "io_retryability ConnectionAborted = Transient"
| "io_retryability TimedOut = Transient"
| "io_retryability Interrupted = Transient"
| "io_retryability BrokenPipe = Transient"
| "io_retryability WouldBlock = Transient"
| "io_retryability OtherKind = Permanent"

text \<open>\<open>impl From<std::io::Error> for DepotError\<close>.\<close>

definition error_of_io :: "io_error_kind \<Rightarrow> string \<Rightarrow> depot_error" where
  "error_of_io k e = Storage e (io_retryability k)"

text \<open>\<open>impl_storage_error!\<close>: serde and msgpack errors are permanent storage errors.\<close>

definition error_of_serde :: "string \<Rightarrow> depot_error" where
  "error_of_serde e = Storage e Permanent"

lemma is_transient_iff: "is_transient e \<longleftrightarrow> (\<exists>m. e = Storage m Transient)"
  by (cases e rule: is_transient.cases) auto

lemma error_status_503: "error_status e = 503 \<longleftrightarrow> is_transient e"
  by (cases e rule: error_status.cases) auto

lemma error_status_range: "400 \<le> error_status e \<and> error_status e < 600"
  by (cases e rule: error_status.cases) auto

end
