(* ===== verification/Depot_Io.thy ===== *)
theory Depot_Io
  imports Depot_Error
begin

text \<open>
  The effect type of the asynchronous code: a computation over a state \<open>'s\<close> (the key-value
  backend and whatever else it reaches) returns \<open>None\<close> when it never returns, and otherwise a
  \<open>Result\<close> (\<^const>\<open>Inl\<close> the \<open>DepotError\<close>) with the state it leaves. \<open>io_bind\<close> is the
  \<open>?\<close> operator followed by the rest of the function.

  \<open>wp\<close> is total correctness: the computation returns and its result and state satisfy the
  postcondition. Every service lemma of the development is stated with it.
\<close>

type_synonym 'a result = "depot_error + 'a"
type_synonym ('s, 'a) io = "'s \<Rightarrow> ('a result \<times> 's) option"

definition io_return :: "'a \<Rightarrow> ('s, 'a) io" where
  "io_return a = (\<lambda>s. Some (Inr a, s))"

definition io_throw :: "depot_error \<Rightarrow> ('s, 'a) io" where
  "io_throw e = (\<lambda>s. Some (Inl e, s))"

definition io_bind :: "('s, 'a) io \<Rightarrow> ('a \<Rightarrow> ('s, 'b) io) \<Rightarrow> ('s, 'b) io" where
  "io_bind m f = (\<lambda>s. case m s of None \<Rightarrow> None
     | Some (Inl e, s') \<Rightarrow> Some (Inl e, s')
     | Some (Inr a, s') \<Rightarrow> f a s')"

text \<open>A computation whose \<open>Result\<close> is inspected or discarded by the caller instead of propagated.\<close>

definition io_try :: "('s, 'a) io \<Rightarrow> ('s, 'a result) io" where
  "io_try m = (\<lambda>s. case m s of None \<Rightarrow> None | Some (r, s') \<Rightarrow> Some (Inr r, s'))"

text \<open>A \<open>Result\<close> computed without effect, propagated with \<open>?\<close>.\<close>

definition io_of_result :: "'a result \<Rightarrow> ('s, 'a) io" where
  "io_of_result r = (\<lambda>s. Some (r, s))"

text \<open>Sequential traversals: a \<open>for\<close> loop with \<open>?\<close> in its body, without and with collected results.\<close>

fun io_for :: "'a list \<Rightarrow> ('a \<Rightarrow> ('s, unit) io) \<Rightarrow> ('s, unit) io" where
  "io_for [] f = io_return ()"
| "io_for (x # xs) f = io_bind (f x) (\<lambda>_. io_for xs f)"

fun io_map :: "('a \<Rightarrow> ('s, 'b) io) \<Rightarrow> 'a list \<Rightarrow> ('s, 'b list) io" where
  "io_map f [] = io_return []"
| "io_map f (x # xs) = io_bind (f x) (\<lambda>y. io_bind (io_map f xs) (\<lambda>ys. io_return (y # ys)))"

definition wp :: "('s, 'a) io \<Rightarrow> ('a result \<Rightarrow> 's \<Rightarrow> bool) \<Rightarrow> 's \<Rightarrow> bool" where
  "wp m Q s \<longleftrightarrow> (case m s of None \<Rightarrow> False | Some (r, s') \<Rightarrow> Q r s')"

named_theorems wp_simps \<open>weakest preconditions of the combinators\<close>

lemma wp_iff: "wp m Q s \<longleftrightarrow> (\<exists>r s'. m s = Some (r, s') \<and> Q r s')"
  by (auto simp: wp_def split: option.splits)

lemma wp_return [wp_simps, simp]: "wp (io_return a) Q s \<longleftrightarrow> Q (Inr a) s"
  by (simp add: wp_def io_return_def)

lemma wp_throw [wp_simps, simp]: "wp (io_throw e) Q s \<longleftrightarrow> Q (Inl e) s"
  by (simp add: wp_def io_throw_def)

lemma wp_of_result [wp_simps, simp]: "wp (io_of_result r) Q s \<longleftrightarrow> Q r s"
  by (simp add: wp_def io_of_result_def)

lemma wp_bind [wp_simps]:
  "wp (io_bind m f) Q s \<longleftrightarrow>
     wp m (\<lambda>r s'. case r of Inl e \<Rightarrow> Q (Inl e) s' | Inr a \<Rightarrow> wp (f a) Q s') s"
  by (auto simp: wp_def io_bind_def split: option.splits sum.splits prod.splits)

lemma wp_try [wp_simps]: "wp (io_try m) Q s \<longleftrightarrow> wp m (\<lambda>r. Q (Inr r)) s"
  by (auto simp: wp_def io_try_def split: option.splits prod.splits)

lemma wp_mono: "wp m P s \<Longrightarrow> (\<And>r s'. P r s' \<Longrightarrow> Q r s') \<Longrightarrow> wp m Q s"
  by (auto simp: wp_iff)

text \<open>Apply a known specification of the first computation of a sequence.\<close>

lemma wp_bindI:
  assumes "wp m P s"
    and "\<And>e s'. P (Inl e) s' \<Longrightarrow> Q (Inl e) s'"
    and "\<And>a s'. P (Inr a) s' \<Longrightarrow> wp (f a) Q s'"
  shows "wp (io_bind m f) Q s"
  unfolding wp_bind using assms(1) by (rule wp_mono) (auto split: sum.splits intro: assms)

lemma wp_tryI:
  assumes "wp m P s" and "\<And>r s'. P r s' \<Longrightarrow> Q (Inr r) s'"
  shows "wp (io_try m) Q s"
  unfolding wp_try using assms by (rule wp_mono)

lemma wp_det: "wp m P s \<Longrightarrow> wp m Q s \<Longrightarrow> wp m (\<lambda>r s'. P r s' \<and> Q r s') s"
  by (auto simp: wp_iff)

lemma wp_result: "wp m Q s \<Longrightarrow> m s = Some (r, s') \<Longrightarrow> Q r s'"
  by (simp add: wp_def)

text \<open>The run a specification speaks of.\<close>

lemma wp_run: "wp m P s \<Longrightarrow> wp m (\<lambda>r s'. P r s' \<and> m s = Some (r, s')) s"
  by (auto simp: wp_iff)

lemma wp_returns: "wp m Q s \<Longrightarrow> \<exists>r s'. m s = Some (r, s')"
  by (auto simp: wp_iff)

text \<open>
  A loop invariant for \<open>io_for\<close>: \<open>I xs s\<close> holds when the elements \<open>xs\<close> are done, \<open>E\<close> when the
  loop stopped on an error.
\<close>

lemma wp_for:
  assumes "I [] s"
    and "\<And>done x rest s. xs = done @ x # rest \<Longrightarrow> I done s \<Longrightarrow>
      wp (f x) (\<lambda>r s'. case r of Inl e \<Rightarrow> E e s' | Inr _ \<Rightarrow> I (done @ [x]) s') s"
  shows "wp (io_for xs f) (\<lambda>r s'. case r of Inl e \<Rightarrow> E e s' | Inr _ \<Rightarrow> I xs s') s"
proof -
  have "wp (io_for ys f) (\<lambda>r s'. case r of Inl e \<Rightarrow> E e s' | Inr _ \<Rightarrow> I xs s') s"
    if "xs = done @ ys" "I done s" for ys "done" s
    using that
  proof (induction ys arbitrary: "done" s)
    case (Cons y ys)
    show ?case
      unfolding io_for.simps
    proof (rule wp_bindI)
      show "wp (f y) (\<lambda>r s'. case r of Inl e \<Rightarrow> E e s' | Inr _ \<Rightarrow> I (done @ [y]) s') s"
        using assms(2) Cons.prems by blast
      fix a s' assume "case Inr a of Inl e \<Rightarrow> E e s' | Inr _ \<Rightarrow> I (done @ [y]) s'"
      then show "wp (io_for ys f) (\<lambda>r s'. case r of Inl e \<Rightarrow> E e s' | Inr _ \<Rightarrow> I xs s') s'"
        using Cons.IH [of "done @ [y]"] Cons.prems by simp
    qed simp
  qed simp
  from this [of "[]" xs] assms(1) show ?thesis by simp
qed

lemma wp_map:
  assumes "I [] [] s"
    and "\<And>done ys x rest s. xs = done @ x # rest \<Longrightarrow> I done ys s \<Longrightarrow>
      wp (f x) (\<lambda>r s'. case r of Inl e \<Rightarrow> E e s' | Inr y \<Rightarrow> I (done @ [x]) (ys @ [y]) s') s"
  shows "wp (io_map f xs) (\<lambda>r s'. case r of Inl e \<Rightarrow> E e s' | Inr ys \<Rightarrow> I xs ys s') s"
proof -
  have "wp (io_map f zs) (\<lambda>r s'. case r of Inl e \<Rightarrow> E e s' | Inr ws \<Rightarrow> I xs (ys @ ws) s') s"
    if "xs = done @ zs" "I done ys s" for zs "done" ys s
    using that
  proof (induction zs arbitrary: "done" ys s)
    case (Cons z zs)
    show ?case
      unfolding io_map.simps
    proof (rule wp_bindI)
      show "wp (f z) (\<lambda>r s'. case r of Inl e \<Rightarrow> E e s' | Inr y \<Rightarrow> I (done @ [z]) (ys @ [y]) s') s"
        using assms(2) Cons.prems by blast
      fix y s' assume "case Inr y of Inl e \<Rightarrow> E e s' | Inr y \<Rightarrow> I (done @ [z]) (ys @ [y]) s'"
      then have "wp (io_map f zs)
          (\<lambda>r s'. case r of Inl e \<Rightarrow> E e s' | Inr ws \<Rightarrow> I xs ((ys @ [y]) @ ws) s') s'"
        using Cons.IH [of "done @ [z]" "ys @ [y]"] Cons.prems by simp
      then show "wp (io_bind (io_map f zs) (\<lambda>ys. io_return (y # ys)))
          (\<lambda>r s'. case r of Inl e \<Rightarrow> E e s' | Inr ws \<Rightarrow> I xs (ys @ ws) s') s'"
        by (simp add: wp_bind) (erule wp_mono, simp split: sum.splits)
    qed simp
  qed simp
  from this [of "[]" xs "[]"] assms(1) show ?thesis unfolding append_Nil by blast
qed

section \<open>Recording a run\<close>

text \<open>
  \<open>logged f\<close> behaves like \<open>f\<close> and keeps, beside the state, the list of the calls of this run:
  each argument with the answer it got. It lets a property speak of the answers that the code
  itself throws away.
\<close>

definition logged :: "('x \<Rightarrow> ('s, 'a) io) \<Rightarrow> 'x \<Rightarrow> ('s \<times> ('x \<times> 'a result) list, 'a) io" where
  "logged f x = (\<lambda>(s, l). case f x s of None \<Rightarrow> None | Some (r, s') \<Rightarrow> Some (r, (s', l @ [(x, r)])))"

lemma wp_logged [wp_simps]: "wp (logged f x) Q (s, l) \<longleftrightarrow> wp (f x) (\<lambda>r s'. Q r (s', l @ [(x, r)])) s"
  by (auto simp: wp_def logged_def split: option.splits prod.splits)

end
