(* ===== verification/Depot_Keys.thy ===== *)
theory Depot_Keys
  imports Depot_Prelude
begin

text \<open>
  Table, partition-key and sort-key encoding (\<open>core/src/store/keys.rs\<close>), the parent directory of
  \<open>core/src/update.rs\<close>, and the string form of \<open>prefix_end\<close> in \<open>core/src/service/scan.rs\<close>. The
  BLAKE3 hash is a third-party crate: it is the argument \<open>H\<close>, the 32 bytes of the hash of a byte
  string.
\<close>

subsection \<open>Tables\<close>

abbreviation TABLE_REPOS :: string where "TABLE_REPOS \<equiv> ''repos''"
abbreviation TABLE_ARTIFACTS :: string where "TABLE_ARTIFACTS \<equiv> ''artifacts''"
abbreviation TABLE_BLOBS :: string where "TABLE_BLOBS \<equiv> ''blobs''"
abbreviation TABLE_USERS :: string where "TABLE_USERS \<equiv> ''users''"
abbreviation TABLE_ROLES :: string where "TABLE_ROLES \<equiv> ''roles''"
abbreviation TABLE_META :: string where "TABLE_META \<equiv> ''meta''"
abbreviation TABLE_STORES :: string where "TABLE_STORES \<equiv> ''stores''"
abbreviation TABLE_DIR_ENTRIES :: string where "TABLE_DIR_ENTRIES \<equiv> ''dir_entries''"
abbreviation TABLE_UPLOAD_SESSIONS :: string where "TABLE_UPLOAD_SESSIONS \<equiv> ''upload_sessions''"
abbreviation TABLE_LEASES :: string where "TABLE_LEASES \<equiv> ''leases''"
abbreviation TABLE_TASKS :: string where "TABLE_TASKS \<equiv> ''tasks''"
abbreviation TABLE_TASK_EVENTS :: string where "TABLE_TASK_EVENTS \<equiv> ''task_events''"

definition ALL_TABLES :: "string list" where
  "ALL_TABLES = [TABLE_REPOS, TABLE_ARTIFACTS, TABLE_BLOBS, TABLE_USERS, TABLE_ROLES, TABLE_META,
     TABLE_STORES, TABLE_DIR_ENTRIES, TABLE_UPLOAD_SESSIONS, TABLE_LEASES, TABLE_TASKS,
     TABLE_TASK_EVENTS]"

text \<open>\<open>KeyTriple\<close>: table, partition key, sort key.\<close>

type_synonym key_triple = "string \<times> string \<times> string"

text \<open>A hash function: the bytes of the hash of a byte string.\<close>

type_synonym hasher = "bytes \<Rightarrow> bytes"

subsection \<open>Shards\<close>

definition NUM_SHARDS :: nat where
  "NUM_SHARDS = 256"

text \<open>\<open>u16::from_be_bytes\<close>.\<close>

definition u16_from_be_bytes :: "u8 \<Rightarrow> u8 \<Rightarrow> nat" where
  "u16_from_be_bytes b0 b1 = 256 * of_char b0 + of_char b1"

definition shard_of :: "hasher \<Rightarrow> string \<Rightarrow> nat" where
  "shard_of H sk = (let h = H sk in u16_from_be_bytes (h ! 0) (h ! 1) mod NUM_SHARDS)"

text \<open>\<open>write!(buf, "{}/{}", scope, shard)\<close>.\<close>

definition shard_pk :: "string \<Rightarrow> nat \<Rightarrow> string" where
  "shard_pk scope shard = scope @ ''/'' @ decimal shard"

definition sharded_pk :: "hasher \<Rightarrow> string \<Rightarrow> string \<Rightarrow> string" where
  "sharded_pk H scope sk = shard_pk scope (shard_of H sk)"

definition all_sharded_pks :: "string \<Rightarrow> string list" where
  "all_sharded_pks scope = map (shard_pk scope) [0..<NUM_SHARDS]"

definition SINGLE_PK :: string where
  "SINGLE_PK = ''0''"

subsection \<open>Path normalization\<close>

fun collapse_slashes :: "bool \<Rightarrow> string \<Rightarrow> string \<Rightarrow> string" where
  "collapse_slashes prev_slash out [] = out"
| "collapse_slashes prev_slash out (ch # rest) =
    (if ch = CHR ''/''
     then collapse_slashes True (if prev_slash then out else out @ [CHR ''/'']) rest
     else collapse_slashes False (out @ [ch]) rest)"

definition normalize_path :: "string \<Rightarrow> string" where
  "normalize_path path =
    (let trimmed = trim_matches CHR ''/'' path
     in if \<not> contains_str trimmed ''//'' then trimmed else collapse_slashes False [] trimmed)"

subsection \<open>Sharded keys\<close>

definition artifact_key :: "hasher \<Rightarrow> string \<Rightarrow> string \<Rightarrow> key_triple" where
  "artifact_key H repo path =
    (let clean = normalize_path path in (TABLE_ARTIFACTS, sharded_pk H repo clean, clean))"

definition artifact_shard_pk :: "string \<Rightarrow> nat \<Rightarrow> string" where
  "artifact_shard_pk repo shard = shard_pk repo shard"

definition blob_key :: "hasher \<Rightarrow> string \<Rightarrow> string \<Rightarrow> key_triple" where
  "blob_key H store hash = (TABLE_BLOBS, sharded_pk H store hash, hash)"

definition blob_shard_pk :: "string \<Rightarrow> nat \<Rightarrow> string" where
  "blob_shard_pk store shard = shard_pk store shard"

subsection \<open>Tree keys\<close>

definition ROOT_PARENT :: string where
  "ROOT_PARENT = ''_root''"

definition TREE_SK_SEP :: char where
  "TREE_SK_SEP = CHR 0x00"

definition tree_parent :: "string \<Rightarrow> string" where
  "tree_parent path = (if path = [] then ROOT_PARENT
     else case rfind CHR ''/'' path of Some pos \<Rightarrow> take pos path | None \<Rightarrow> [])"

definition tree_name :: "string \<Rightarrow> string" where
  "tree_name path = (if path = [] then [] else rsplit_next CHR ''/'' path)"

definition tree_sort_key :: "string \<Rightarrow> string" where
  "tree_sort_key path = tree_parent path @ [TREE_SK_SEP] @ tree_name path"

definition tree_sk_name :: "string \<Rightarrow> string" where
  "tree_sk_name sk = (case rsplit_once TREE_SK_SEP sk of Some (_, name) \<Rightarrow> name | None \<Rightarrow> sk)"

definition tree_entry_key :: "hasher \<Rightarrow> string \<Rightarrow> string \<Rightarrow> key_triple" where
  "tree_entry_key H repo path =
    (let clean = normalize_path path
     in (TABLE_DIR_ENTRIES, sharded_pk H repo (tree_parent clean), tree_sort_key clean))"

definition tree_children_pk :: "hasher \<Rightarrow> string \<Rightarrow> string \<Rightarrow> string" where
  "tree_children_pk H repo parent_path = sharded_pk H repo parent_path"

definition tree_children_sk_prefix :: "string \<Rightarrow> string" where
  "tree_children_sk_prefix parent_path = parent_path @ [TREE_SK_SEP]"

definition tree_shard_pk :: "string \<Rightarrow> nat \<Rightarrow> string" where
  "tree_shard_pk repo shard = shard_pk repo shard"

text \<open>\<open>parent_dir\<close> of \<open>core/src/update.rs\<close>.\<close>

definition parent_dir :: "string \<Rightarrow> string" where
  "parent_dir path = (case rfind CHR ''/'' path of Some pos \<Rightarrow> take pos path | None \<Rightarrow> [])"

subsection \<open>Unsharded keys\<close>

definition repo_key :: "string \<Rightarrow> key_triple" where
  "repo_key name = (TABLE_REPOS, SINGLE_PK, name)"

definition user_key :: "string \<Rightarrow> key_triple" where
  "user_key username = (TABLE_USERS, SINGLE_PK, username)"

definition role_key :: "string \<Rightarrow> key_triple" where
  "role_key name = (TABLE_ROLES, SINGLE_PK, name)"

definition meta_key :: "string \<Rightarrow> key_triple" where
  "meta_key key = (TABLE_META, SINGLE_PK, key)"

definition store_key :: "string \<Rightarrow> key_triple" where
  "store_key name = (TABLE_STORES, SINGLE_PK, name)"

definition store_stats_key :: "string \<Rightarrow> key_triple" where
  "store_stats_key name = (TABLE_META, SINGLE_PK, ''store_stats/'' @ name)"

definition upload_session_key :: "string \<Rightarrow> key_triple" where
  "upload_session_key uuid = (TABLE_UPLOAD_SESSIONS, SINGLE_PK, uuid)"

definition lease_key :: "string \<Rightarrow> key_triple" where
  "lease_key name = (TABLE_LEASES, SINGLE_PK, name)"

definition task_key :: "string \<Rightarrow> key_triple" where
  "task_key task_id = (TABLE_TASKS, SINGLE_PK, task_id)"

definition seq_sk :: "u64 \<Rightarrow> string" where
  "seq_sk seq = zero_pad 20 (unat seq)"

definition task_event_key :: "string \<Rightarrow> u64 \<Rightarrow> key_triple" where
  "task_event_key task_id seq = (TABLE_TASK_EVENTS, task_id, seq_sk seq)"

definition task_event_pk :: "string \<Rightarrow> string" where
  "task_event_pk task_id = task_id"

subsection \<open>Prefix ranges\<close>

text \<open>The loop of \<open>prefix_end\<close> works from the back; the model reverses the bytes first.\<close>

fun prefix_end_rev :: "bytes \<Rightarrow> bytes option" where
  "prefix_end_rev [] = None"
| "prefix_end_rev (l # rest) =
    (if of_char l < (0xFF :: nat) then Some (rev (char_of (Suc (of_char l)) # rest))
     else prefix_end_rev rest)"

definition prefix_end :: "bytes \<Rightarrow> bytes option" where
  "prefix_end prefix = prefix_end_rev (rev prefix)"

text \<open>\<open>scan.rs\<close>: the same bound as a \<open>String\<close>, absent when it is not valid UTF-8.\<close>

definition prefix_end_str :: "string \<Rightarrow> string option" where
  "prefix_end_str prefix = (case prefix_end prefix of None \<Rightarrow> None
     | Some b \<Rightarrow> if utf8_valid b then Some b else None)"

section \<open>Shards and partitions\<close>

lemma shard_of_less [simp]: "shard_of H sk < 256"
  by (simp add: shard_of_def NUM_SHARDS_def Let_def)

text \<open>Only the second byte of the hash decides the shard: 256 divides the weight of the first.\<close>

lemma shard_of_second_byte: "shard_of H sk = of_char (H sk ! 1)"
proof -
  show ?thesis
    using nat_of_char_less_256 [of "H sk ! 1"]
    by (simp add: shard_of_def NUM_SHARDS_def u16_from_be_bytes_def Let_def)
qed

lemma rsplit_once_shard_pk: "rsplit_once CHR ''/'' (shard_pk a i) = Some (a, decimal i)"
  by (simp add: shard_pk_def)

lemma shard_pk_inject [simp]: "shard_pk a i = shard_pk b j \<longleftrightarrow> a = b \<and> i = j"
proof
  assume "shard_pk a i = shard_pk b j"
  then have "rsplit_once CHR ''/'' (shard_pk a i) = rsplit_once CHR ''/'' (shard_pk b j)"
    by (rule arg_cong)
  then show "a = b \<and> i = j" by (simp add: rsplit_once_shard_pk)
qed simp

lemma sharded_pk_in_all: "sharded_pk H scope sk \<in> set (all_sharded_pks scope)"
  by (simp add: sharded_pk_def all_sharded_pks_def NUM_SHARDS_def)

lemma distinct_all_sharded_pks: "distinct (all_sharded_pks scope)"
  by (auto simp: all_sharded_pks_def distinct_map inj_on_def)

section \<open>Normalized paths\<close>

text \<open>The segments of a path, and the path made of segments: the reference for \<open>normalize_path\<close>.\<close>

fun split_on :: "char \<Rightarrow> string \<Rightarrow> string list" where
  "split_on c [] = [[]]"
| "split_on c (x # s) = (if x = c then [] # split_on c s
     else (x # hd (split_on c s)) # tl (split_on c s))"

fun join_with :: "char \<Rightarrow> string list \<Rightarrow> string" where
  "join_with c [] = []"
| "join_with c [w] = w"
| "join_with c (w # v # ws) = w @ c # join_with c (v # ws)"

definition segments :: "string \<Rightarrow> string list" where
  "segments s = filter (\<lambda>w. w \<noteq> []) (split_on CHR ''/'' s)"

definition canonical :: "string \<Rightarrow> bool" where
  "canonical s \<longleftrightarrow> \<not> contains_str s ''//''
     \<and> (s \<noteq> [] \<longrightarrow> hd s \<noteq> CHR ''/'' \<and> last s \<noteq> CHR ''/'')"

lemma split_on_not_Nil [simp]: "split_on c s \<noteq> []"
  by (cases s) auto

lemma split_on_append: "split_on c (a @ c # b) = split_on c a @ split_on c b"
  by (induction a) (auto simp: hd_append)

lemma split_on_absent: "c \<notin> set a \<Longrightarrow> split_on c a = [a]"
  by (induction a) auto

lemma segments_append: "segments (a @ CHR ''/'' # b) = segments a @ segments b"
  by (simp add: segments_def split_on_append)

lemma segments_Nil [simp]: "segments [] = []"
  by (simp add: segments_def)

lemma segments_absent: "CHR ''/'' \<notin> set a \<Longrightarrow> a \<noteq> [] \<Longrightarrow> segments a = [a]"
  by (simp add: segments_def split_on_absent)

lemma segments_slash_Cons [simp]: "segments (CHR ''/'' # b) = segments b"
  using segments_append [of "[]" b] by simp

lemma segments_snoc_slash [simp]: "segments (a @ [CHR ''/'']) = segments a"
  using segments_append [of a "[]"] by simp

lemma segments_trim_start: "segments (trim_start_matches CHR ''/'' s) = segments s"
  unfolding trim_start_matches_def by (induction s) auto

lemma trim_end_snoc:
  "trim_end_matches c (s @ [x]) = (if x = c then trim_end_matches c s else s @ [x])"
  by (simp add: trim_end_matches_def)

lemma segments_trim_end: "segments (trim_end_matches CHR ''/'' s) = segments s"
  by (induction s rule: rev_induct) (auto simp: trim_end_snoc trim_end_matches_def)

lemma segments_trim: "segments (trim_matches CHR ''/'' s) = segments s"
  by (simp add: trim_matches_def segments_trim_start segments_trim_end)

lemma segments_collapse:
  "(prev \<longrightarrow> (\<exists>o'. out = o' @ [CHR ''/''])) \<Longrightarrow>
    segments (collapse_slashes prev out s) = segments (out @ s)"
proof (induction prev out s rule: collapse_slashes.induct)
  case (2 prev out ch rest)
  show ?case
  proof (cases "ch = CHR ''/'' \<and> prev")
    case True
    then obtain o' where o': "out = o' @ [CHR ''/'']" using "2.prems" by blast
    have "segments (collapse_slashes True out rest) = segments (out @ rest)"
      using "2.IH"(1) True o' by simp
    also have "\<dots> = segments (out @ ch # rest)"
      using True o' segments_append [of o' rest] segments_append [of o' "CHR ''/'' # rest"] by simp
    finally show ?thesis using True by simp
  next
    case False
    with "2.IH" show ?thesis by auto
  qed
qed simp

lemma segments_normalize_path [simp]: "segments (normalize_path p) = segments p"
  by (simp add: normalize_path_def Let_def segments_trim segments_collapse)

subsection \<open>The result of normalization is canonical\<close>

lemma contains_str_snoc_slash:
  "contains_str (s @ [x]) ''//'' \<longleftrightarrow>
     contains_str s ''//'' \<or> x = CHR ''/'' \<and> (\<exists>s'. s = s' @ [CHR ''/''])"
proof
  assume "contains_str (s @ [x]) ''//''"
  then obtain a b where ab: "s @ [x] = a @ ''//'' @ b" by (auto simp: contains_str_iff)
  show "contains_str s ''//'' \<or> x = CHR ''/'' \<and> (\<exists>s'. s = s' @ [CHR ''/''])"
  proof (cases b rule: rev_cases)
    case Nil
    with ab have "s @ [x] = (a @ [CHR ''/'']) @ [CHR ''/'']" by simp
    then show ?thesis by blast
  next
    case (snoc b' y)
    with ab have "s @ [x] = (a @ ''//'' @ b') @ [y]" by simp
    then have "s = a @ ''//'' @ b'" by blast
    then show ?thesis unfolding contains_str_iff by blast
  qed
next
  assume "contains_str s ''//'' \<or> x = CHR ''/'' \<and> (\<exists>s'. s = s' @ [CHR ''/''])"
  then show "contains_str (s @ [x]) ''//''"
  proof
    assume "contains_str s ''//''"
    then obtain a b where "s = a @ ''//'' @ b" by (auto simp: contains_str_iff)
    then have "s @ [x] = a @ ''//'' @ (b @ [x])" by simp
    then show ?thesis unfolding contains_str_iff by blast
  next
    assume "x = CHR ''/'' \<and> (\<exists>s'. s = s' @ [CHR ''/''])"
    then obtain s' where "s @ [x] = s' @ ''//'' @ []" by auto
    then show ?thesis unfolding contains_str_iff by blast
  qed
qed

lemma collapse_no_double:
  "\<not> contains_str out ''//'' \<Longrightarrow> prev \<longleftrightarrow> (\<exists>o'. out = o' @ [CHR ''/'']) \<Longrightarrow>
    \<not> contains_str (collapse_slashes prev out s) ''//''"
proof (induction prev out s rule: collapse_slashes.induct)
  case (2 prev out ch rest)
  then show ?case
    by (cases "ch = CHR ''/''") (auto simp: contains_str_snoc_slash)
qed simp

lemma collapse_last:
  "s \<noteq> [] \<Longrightarrow> last s \<noteq> CHR ''/'' \<Longrightarrow>
    collapse_slashes prev out s \<noteq> [] \<and> last (collapse_slashes prev out s) = last s"
proof (induction s arbitrary: prev out)
  case (Cons ch rest)
  then show ?case by (cases "rest = []") auto
qed simp

lemma collapse_prefix: "\<exists>r. collapse_slashes prev out s = out @ r"
proof (induction prev out s rule: collapse_slashes.induct)
  case (2 prev out ch rest)
  then show ?case by (cases "ch = CHR ''/''"; cases prev) auto
qed simp

lemma collapse_hd: "s \<noteq> [] \<Longrightarrow> hd s \<noteq> CHR ''/'' \<Longrightarrow> hd (collapse_slashes False [] s) = hd s"
proof (cases s)
  case (Cons ch rest)
  assume "hd s \<noteq> CHR ''/''"
  with Cons obtain r where "collapse_slashes False [] s = [ch] @ r"
    using collapse_prefix [of False "[ch]" rest] by auto
  with Cons show ?thesis by simp
qed simp

lemma trim_start_hd:
  "trim_start_matches c s \<noteq> [] \<Longrightarrow> hd (trim_start_matches c s) \<noteq> c"
  unfolding trim_start_matches_def by (induction s) auto

lemma trim_end_last: "trim_end_matches c s \<noteq> [] \<Longrightarrow> last (trim_end_matches c s) \<noteq> c"
  by (induction s rule: rev_induct) (auto simp: trim_end_snoc trim_end_matches_def)

lemma trim_end_hd: "trim_end_matches c s \<noteq> [] \<Longrightarrow> hd (trim_end_matches c s) = hd s"
proof (induction s rule: rev_induct)
  case (snoc x s)
  then show ?case
    by (cases "s = []") (auto simp: trim_end_snoc trim_end_matches_def hd_append split: if_splits)
qed (simp add: trim_end_matches_def)

lemma trim_matches_ends:
  assumes "trim_matches c s \<noteq> []"
  shows "hd (trim_matches c s) \<noteq> c" "last (trim_matches c s) \<noteq> c"
proof -
  let ?t = "trim_start_matches c s"
  from assms have e: "trim_end_matches c ?t \<noteq> []" by (simp add: trim_matches_def)
  then have "?t \<noteq> []" by (auto simp: trim_end_matches_def)
  with e show "hd (trim_matches c s) \<noteq> c"
    by (simp add: trim_matches_def trim_end_hd trim_start_hd)
  from e show "last (trim_matches c s) \<noteq> c"
    by (simp add: trim_matches_def trim_end_last)
qed

lemma canonical_normalize_path: "canonical (normalize_path p)"
proof -
  let ?t = "trim_matches CHR ''/'' p"
  show ?thesis
  proof (cases "contains_str ?t ''//''")
    case False
    then show ?thesis
      by (auto simp: normalize_path_def canonical_def Let_def dest: trim_matches_ends)
  next
    case True
    then have ne: "?t \<noteq> []" by auto
    note ends = trim_matches_ends [OF ne]
    from True have "normalize_path p = collapse_slashes False [] ?t"
      by (simp add: normalize_path_def Let_def)
    moreover have "\<not> contains_str (collapse_slashes False [] ?t) ''//''"
      by (rule collapse_no_double) auto
    ultimately show ?thesis
      using collapse_last [OF ne ends(2)] collapse_hd [OF ne ends(1)] ends
      by (simp add: canonical_def)
  qed
qed

subsection \<open>A canonical path is its segments\<close>

lemma canonical_Nil [simp]: "canonical []"
  by (simp add: canonical_def)

lemma canonical_split:
  assumes "canonical (a @ CHR ''/'' # b)"
  shows "a \<noteq> []" "b \<noteq> []" "canonical a" "canonical b"
proof -
  have nd: "\<not> contains_str (a @ CHR ''/'' # b) ''//''"
    and h: "hd (a @ CHR ''/'' # b) \<noteq> CHR ''/''" and l: "last (a @ CHR ''/'' # b) \<noteq> CHR ''/''"
    using assms by (auto simp: canonical_def)
  from h show a: "a \<noteq> []" by auto
  from l show b: "b \<noteq> []" by auto
  have "last a \<noteq> CHR ''/''"
  proof
    assume "last a = CHR ''/''"
    with a have "a @ CHR ''/'' # b = butlast a @ ''//'' @ b"
      by (metis append_Cons append_Nil append_assoc append_butlast_last_id)
    with nd show False unfolding contains_str_iff by blast
  qed
  moreover have "\<not> contains_str a ''//''"
  proof
    assume "contains_str a ''//''"
    then obtain x y where "a = x @ ''//'' @ y" unfolding contains_str_iff by blast
    then have "a @ CHR ''/'' # b = x @ ''//'' @ (y @ CHR ''/'' # b)" by simp
    with nd show False unfolding contains_str_iff by blast
  qed
  ultimately show "canonical a" using a h by (simp add: canonical_def)
  have "hd b \<noteq> CHR ''/''"
  proof
    assume "hd b = CHR ''/''"
    with b have "a @ CHR ''/'' # b = a @ ''//'' @ tl b" by (cases b) auto
    with nd show False unfolding contains_str_iff by blast
  qed
  moreover have "\<not> contains_str b ''//''"
  proof
    assume "contains_str b ''//''"
    then obtain x y where "b = x @ ''//'' @ y" unfolding contains_str_iff by blast
    then have "a @ CHR ''/'' # b = (a @ CHR ''/'' # x) @ ''//'' @ y" by simp
    with nd show False unfolding contains_str_iff by blast
  qed
  ultimately show "canonical b" using b l by (simp add: canonical_def)
qed

lemma join_with_Cons: "ws \<noteq> [] \<Longrightarrow> join_with c (w # ws) = w @ c # join_with c ws"
  by (cases ws) auto

lemma canonical_eq_join: "canonical s \<Longrightarrow> s = join_with CHR ''/'' (segments s)"
proof (induction "length s" arbitrary: s rule: less_induct)
  case less
  show ?case
  proof (cases "CHR ''/'' \<in> set s")
    case False
    then show ?thesis by (cases "s = []") (simp_all add: segments_absent)
  next
    case True
    then obtain a b where s: "s = a @ CHR ''/'' # b" and na: "CHR ''/'' \<notin> set a"
      by (metis split_list_first)
    from less.prems s canonical_split [of a b] have a: "a \<noteq> []" and b: "b \<noteq> []" "canonical b"
      by auto
    from less.hyps [of b] s b have IH: "b = join_with CHR ''/'' (segments b)" by simp
    with b have "segments b \<noteq> []" by auto
    with s na a IH [symmetric] show ?thesis
      by (simp add: segments_append segments_absent join_with_Cons)
  qed
qed

lemma canonical_segments_inject:
  "canonical s \<Longrightarrow> canonical t \<Longrightarrow> segments s = segments t \<longleftrightarrow> s = t"
  by (metis canonical_eq_join)

lemma normalize_path_canonical [simp]: "canonical s \<Longrightarrow> normalize_path s = s"
  using canonical_segments_inject [OF canonical_normalize_path, of s s] by simp

section \<open>Prefix ranges\<close>

lemma char_succ_less: "of_char l < (255 :: nat) \<Longrightarrow> c < char_of (Suc (of_char l)) \<longleftrightarrow> c \<le> l"
  by (auto simp: less_char_def less_eq_char_def)

lemma char_max_le: "\<not> of_char l < (255 :: nat) \<Longrightarrow> l \<le> c \<longleftrightarrow> c = l"
proof -
  assume l: "\<not> of_char l < (255 :: nat)"
  have "of_char c < (256 :: nat)" "of_char l < (256 :: nat)" by (rule nat_of_char_less_256)+
  with l have "of_char l = (255 :: nat)" "of_char c \<le> (255 :: nat)" by linarith+
  then have "of_char l \<le> (of_char c :: nat) \<longleftrightarrow> of_char c = (of_char l :: nat)" by linarith
  then show ?thesis by (simp add: less_eq_char_def)
qed

lemma prefix_succ_range:
  assumes "of_char l < (255 :: nat)"
  shows "q @ [l] \<le> k \<and> k < q @ [char_of (Suc (of_char l))] \<longleftrightarrow> starts_with k (q @ [l])"
proof (induction q arbitrary: k)
  case Nil
  show ?case
  proof (cases k)
    case (Cons c k')
    have "c < char_of (Suc (of_char l)) \<longleftrightarrow> c \<le> l" using char_succ_less [OF assms] by simp
    with Cons show ?thesis by auto
  qed simp
next
  case (Cons x q)
  show ?case
  proof (cases k)
    case (Cons y k')
    with Cons.IH [of k'] show ?thesis by auto
  qed simp
qed

lemma prefix_end_Nil [simp]: "prefix_end [] = None"
  by (simp add: prefix_end_def)

lemma prefix_end_snoc:
  "prefix_end (q @ [l]) =
     (if of_char l < (255 :: nat) then Some (q @ [char_of (Suc (of_char l))]) else prefix_end q)"
  by (simp add: prefix_end_def)

lemma starts_with_snoc_max:
  assumes "\<not> of_char l < (255 :: nat)" and "starts_with k q"
  shows "q @ [l] \<le> k \<longleftrightarrow> starts_with k (q @ [l])"
proof -
  from assms(2) obtain r where k: "k = q @ r" by (auto simp: starts_with_iff)
  have "[l] \<le> r \<longleftrightarrow> starts_with r [l]"
  proof (cases r)
    case (Cons c r')
    have "l \<le> c \<longleftrightarrow> c = l" by (rule char_max_le [OF assms(1)])
    with Cons show ?thesis by (auto simp: starts_with_def)
  qed (simp add: starts_with_def)
  moreover have "starts_with (q @ r) (q @ [l]) \<longleftrightarrow> starts_with r [l]"
    by (simp add: starts_with_def)
  ultimately show ?thesis using k by simp
qed

lemma starts_with_prefix: "starts_with k (q @ r) \<Longrightarrow> starts_with k q"
  by (auto simp: starts_with_iff)

lemma prefix_end_range:
  "starts_with k p \<longleftrightarrow> p \<le> k \<and> (case prefix_end p of None \<Rightarrow> True | Some e \<Rightarrow> k < e)"
proof (induction p rule: rev_induct)
  case (snoc l q)
  show ?case
  proof (cases "of_char l < (255 :: nat)")
    case True
    then show ?thesis using prefix_succ_range [of l q k] by (auto simp: prefix_end_snoc)
  next
    case False
    have le: "q \<le> q @ [l]" by simp
    show ?thesis
    proof (cases "starts_with k q")
      case True
      with snoc.IH have "case prefix_end q of None \<Rightarrow> True | Some e \<Rightarrow> k < e" by simp
      with False True starts_with_snoc_max show ?thesis by (simp add: prefix_end_snoc)
    next
      case nq: False
      then have "\<not> starts_with k (q @ [l])" using starts_with_prefix by blast
      moreover have "q \<le> k" if "q @ [l] \<le> k" using order_trans [OF le that] .
      ultimately show ?thesis using nq snoc.IH False by (auto simp: prefix_end_snoc)
    qed
  qed
qed simp

lemma prefix_end_str_range:
  "starts_with k p \<Longrightarrow> p \<le> k \<and> (case prefix_end_str p of None \<Rightarrow> True | Some e \<Rightarrow> k < e)"
  using prefix_end_range [of k p] by (auto simp: prefix_end_str_def split: option.splits if_splits)

section \<open>Well-formed keys\<close>

text \<open>
  A partition key without a NUL byte and a sort key that is a valid string: what the backends
  rely on.
\<close>

definition pk_ok :: "string \<Rightarrow> bool" where
  "pk_ok pk \<longleftrightarrow> CHR 0x00 \<notin> set pk"

definition sk_ok :: "string \<Rightarrow> bool" where
  "sk_ok sk \<longleftrightarrow> utf8_valid sk"

lemma pk_ok_shard_pk [key_ok_intros, simp]: "pk_ok scope \<Longrightarrow> pk_ok (shard_pk scope i)"
  by (simp add: pk_ok_def shard_pk_def)

lemma pk_ok_sharded_pk [key_ok_intros, simp]: "pk_ok scope \<Longrightarrow> pk_ok (sharded_pk H scope sk)"
  by (simp add: sharded_pk_def)

lemma pk_ok_shard_pks [key_ok_intros, simp]:
  "pk_ok scope \<Longrightarrow> pk_ok (artifact_shard_pk scope i)"
  "pk_ok scope \<Longrightarrow> pk_ok (blob_shard_pk scope i)"
  "pk_ok scope \<Longrightarrow> pk_ok (tree_shard_pk scope i)"
  by (simp_all add: artifact_shard_pk_def blob_shard_pk_def tree_shard_pk_def)

lemma pk_ok_single [key_ok_intros, simp]: "pk_ok SINGLE_PK"
  by (simp add: pk_ok_def SINGLE_PK_def)

lemma sk_ok_Nil [simp]: "sk_ok []"
  by (simp add: sk_ok_def)

lemma sk_ok_append [key_ok_intros, simp]: "sk_ok a \<Longrightarrow> sk_ok b \<Longrightarrow> sk_ok (a @ b)"
  by (simp add: sk_ok_def utf8_valid_append)

lemma sk_ok_snoc_NUL [simp]: "sk_ok (a @ [CHR 0x00]) \<longleftrightarrow> sk_ok a"
  by (simp add: sk_ok_def utf8_valid_snoc)

lemma utf8_trim_start: "utf8_valid s \<Longrightarrow> utf8_valid (trim_start_matches CHR ''/'' s)"
  unfolding trim_start_matches_def by (induction s) auto

lemma utf8_trim_end: "utf8_valid s \<Longrightarrow> utf8_valid (trim_end_matches CHR ''/'' s)"
proof (induction s rule: rev_induct)
  case (snoc x s)
  then show ?case using utf8_valid_snoc [of "CHR ''/''" s] by (auto simp: trim_end_snoc)
qed (simp add: trim_end_matches_def)

text \<open>Collapsing slashes only removes ASCII bytes: induction over the scalar values.\<close>

lemma collapse_plain:
  "CHR ''/'' \<notin> set w \<Longrightarrow> w \<noteq> [] \<Longrightarrow>
    collapse_slashes prev out (w @ s) = collapse_slashes False (out @ w) s"
proof (induction w arbitrary: prev out)
  case (Cons x w)
  then show ?case by (cases "w = []") auto
qed simp

lemma utf8_width_no_slash:
  assumes "\<not> ascii (hd s)" and "0 < utf8_width s"
  shows "CHR ''/'' \<notin> set (take (utf8_width s) s)"
proof
  assume "CHR ''/'' \<in> set (take (utf8_width s) s)"
  then obtain i where i: "i < utf8_width s" "i < length s" "s ! i = CHR ''/''"
    by (auto simp: in_set_conv_nth)
  have "s \<noteq> []" using assms(2) by auto
  with i assms(1) have "0 < i" by (cases i) (auto simp: hd_conv_nth)
  with i utf8_width_inner [of i s] show False by simp
qed

lemma utf8_width_take_valid: "0 < utf8_width s \<Longrightarrow> utf8_valid (take (utf8_width s) s)"
  using utf8_width_take [of s] utf8_width_le [of s]
  by (subst utf8_valid.simps) (auto simp: utf8_valid.simps)

lemma utf8_collapse:
  "utf8_valid out \<Longrightarrow> utf8_valid s \<Longrightarrow> utf8_valid (collapse_slashes prev out s)"
proof (induction s arbitrary: prev out rule: utf8_valid.induct)
  case (1 s)
  show ?case
  proof (cases s)
    case Nil
    with "1.prems" show ?thesis by simp
  next
    case (Cons a r)
    let ?w = "utf8_width s"
    have "s \<noteq> []" using Cons by simp
    with "1.prems"(2) have w: "0 < ?w" and v: "utf8_valid (drop ?w s)"
      by (simp_all add: utf8_valid.simps [of s] split: if_splits)
    note IH = "1.IH" [OF _ _ _ v]
    show ?thesis
    proof (cases "ascii a")
      case True
      then have w1: "?w = 1" using Cons by simp
      have snoc: "utf8_valid (out @ [a])"
        using True "1.prems"(1) by (simp add: utf8_valid_snoc)
      show ?thesis
        using IH [of "out @ [a]"] IH [of out] snoc "1.prems"(1) w1 Cons w by auto
    next
      case False
      have "utf8_valid (out @ take ?w s)"
        by (rule utf8_valid_append [OF "1.prems"(1) utf8_width_take_valid [OF w]])
      then have "utf8_valid (collapse_slashes False (out @ take ?w s) (drop ?w s))"
        using IH w Cons by simp
      moreover have "collapse_slashes prev out (take ?w s @ drop ?w s) =
          collapse_slashes False (out @ take ?w s) (drop ?w s)"
        using False w Cons utf8_width_no_slash [of s] by (intro collapse_plain) auto
      ultimately show ?thesis by simp
    qed
  qed
qed

lemma sk_ok_normalize_path [key_ok_intros, simp]: "sk_ok p \<Longrightarrow> sk_ok (normalize_path p)"
  by (simp add: sk_ok_def normalize_path_def trim_matches_def Let_def utf8_trim_start
      utf8_trim_end utf8_collapse)

lemma parent_name_cases:
  assumes "p \<noteq> []"
  obtains (top) "CHR ''/'' \<notin> set p" "tree_parent p = []" "tree_name p = p"
  | (nested) a b where "p = a @ CHR ''/'' # b" "CHR ''/'' \<notin> set b" "tree_parent p = a" "tree_name p = b"
proof (cases "CHR ''/'' \<in> set p")
  case False
  then show thesis using top assms
    by (simp add: tree_parent_def tree_name_def option.case_eq_if rfind_def)
next
  case True
  then obtain a b where "p = a @ CHR ''/'' # b" "CHR ''/'' \<notin> set b"
    by (metis split_list_last)
  then show thesis using nested by (simp add: tree_parent_def tree_name_def)
qed

lemma sk_ok_parent_name:
  assumes "sk_ok p" shows "sk_ok (tree_parent p)" "sk_ok (tree_name p)"
proof -
  have root: "sk_ok ROOT_PARENT"
    unfolding sk_ok_def ROOT_PARENT_def by (rule utf8_valid_ascii_list) simp
  have "sk_ok (tree_parent p) \<and> sk_ok (tree_name p)"
  proof (cases "p = []")
    case True
    with root show ?thesis by (simp add: tree_parent_def tree_name_def)
  next
    case False
    then show ?thesis
    proof (cases rule: parent_name_cases)
      case top
      with assms show ?thesis by simp
    next
      case (nested a b)
      with assms show ?thesis by (simp add: sk_ok_def utf8_valid_split)
    qed
  qed
  then show "sk_ok (tree_parent p)" "sk_ok (tree_name p)" by auto
qed

lemma sk_ok_tree_sort_key [key_ok_intros, simp]: "sk_ok p \<Longrightarrow> sk_ok (tree_sort_key p)"
  using sk_ok_parent_name [of p] unfolding tree_sort_key_def TREE_SK_SEP_def
  by (metis append_assoc sk_ok_append sk_ok_snoc_NUL)

section \<open>Tree keys\<close>

lemma canonical_name_not_Nil: "canonical p \<Longrightarrow> p \<noteq> [] \<Longrightarrow> tree_name p \<noteq> []"
  by (cases rule: parent_name_cases [of p]) (auto dest: canonical_split)

lemma tree_parent_name_inject:
  assumes "canonical p" "canonical q" "tree_parent p = tree_parent q" "tree_name p = tree_name q"
  shows "p = q"
proof (cases "p = [] \<or> q = []")
  case True
  have "tree_name [] = []" by (simp add: tree_name_def)
  with True assms canonical_name_not_Nil show ?thesis by metis
next
  case False
  then have p: "p \<noteq> []" and q: "q \<noteq> []" by auto
  have whole: "r = (if tree_parent r = [] then tree_name r else tree_parent r @ CHR ''/'' # tree_name r)"
    if "r \<noteq> []" "canonical r" for r
    using that(1)
  proof (cases rule: parent_name_cases)
    case (nested a b)
    with that(2) canonical_split(1) [of a b] show ?thesis by simp
  qed simp
  show ?thesis using whole [OF p assms(1)] whole [OF q assms(2)] assms(3,4) by metis
qed

lemma NUL_free_parent_name:
  assumes "CHR 0x00 \<notin> set p"
  shows "CHR 0x00 \<notin> set (tree_parent p)" "CHR 0x00 \<notin> set (tree_name p)"
proof -
  show "CHR 0x00 \<notin> set (tree_parent p)"
    using assms
    by (cases "p = []") (auto simp: tree_parent_def ROOT_PARENT_def dest: in_set_takeD split: option.splits)
  show "CHR 0x00 \<notin> set (tree_name p)"
    using assms by (auto simp: tree_name_def rsplit_next_def dest: set_takeWhileD)
qed

lemma append_NUL_inject:
  "CHR 0x00 \<notin> set a \<Longrightarrow> CHR 0x00 \<notin> set b \<Longrightarrow>
    a @ CHR 0x00 # x = b @ CHR 0x00 # y \<longleftrightarrow> a = b \<and> x = y"
  using split_once_append [of "CHR 0x00" a x] split_once_append [of "CHR 0x00" b y]
  by (metis option.inject prod.inject)

lemma tree_sort_key_inject:
  assumes "canonical p" "canonical q" "CHR 0x00 \<notin> set p" "CHR 0x00 \<notin> set q"
  shows "tree_sort_key p = tree_sort_key q \<longleftrightarrow> p = q"
  using assms NUL_free_parent_name [OF assms(3)] NUL_free_parent_name [OF assms(4)]
    tree_parent_name_inject [OF assms(1,2)]
  by (auto simp: tree_sort_key_def TREE_SK_SEP_def append_NUL_inject)

lemma tree_sk_name_sort_key:
  "CHR 0x00 \<notin> set p \<Longrightarrow> tree_sk_name (tree_sort_key p) = tree_name p"
  using NUL_free_parent_name [of p]
  by (simp add: tree_sk_name_def tree_sort_key_def TREE_SK_SEP_def)

lemma tree_children_prefix_iff:
  assumes "CHR 0x00 \<notin> set p" "CHR 0x00 \<notin> set d"
  shows "starts_with (tree_sort_key p) (tree_children_sk_prefix d) \<longleftrightarrow> tree_parent p = d"
proof -
  have "(\<exists>r. tree_parent p @ CHR 0x00 # tree_name p = d @ CHR 0x00 # r) \<longleftrightarrow> tree_parent p = d"
    using assms(2) NUL_free_parent_name [OF assms(1)] by (auto simp: append_NUL_inject)
  then show ?thesis
    by (simp add: starts_with_iff tree_sort_key_def tree_children_sk_prefix_def TREE_SK_SEP_def)
qed

section \<open>Event sequence keys\<close>

lemma seq_sk_less: "seq_sk a < seq_sk b \<longleftrightarrow> a < b"
proof -
  have bound: "unat w < 10 ^ 20" for w :: u64
    using unsigned_less [of w, where ?'a = nat] by simp
  have "length (seq_sk a) = 20" "length (seq_sk b) = 20"
    using bound by (simp_all add: seq_sk_def length_zero_pad)
  then have "seq_sk a < seq_sk b \<longleftrightarrow> undecimal (seq_sk a) < undecimal (seq_sk b)"
    by (intro digits_less_iff) (auto simp: seq_sk_def dest: zero_pad_digits)
  then show ?thesis by (simp add: seq_sk_def word_less_nat_alt)
qed

lemma seq_sk_inject [simp]: "seq_sk a = seq_sk b \<longleftrightarrow> a = b"
  by (metis seq_sk_def undecimal_zero_pad word_unat_eq_iff)

lemma sk_ok_seq_sk [key_ok_intros, simp]: "sk_ok (seq_sk n)"
  unfolding sk_ok_def seq_sk_def
  by (rule utf8_valid_ascii_list) (use zero_pad_digits in fastforce)

end
