(* ===== verification/Kv_Interface.thy ===== *)
theory Kv_Interface
  imports Depot_Io Depot_Keys
begin

text \<open>
  The \<open>KvStore\<close> trait (\<open>core/src/store/kv/trait_def.rs\<close>). A trait object \<open>&dyn KvStore\<close> is a
  record of its methods over the backend's state \<open>'s\<close>; the trait's default methods are the
  \<open>default_...\<close> definitions, and a backend's record uses them where its \<open>impl\<close> does not
  override them.

  The locale \<open>kv_store\<close> states the documented contract of the trait through a view of the state,
  the map from table, partition key and sort key to a value and its version. Every method
  returns; a method that reports an error may have changed the keys it names and nothing else.
\<close>

record scan_result =
  sr_items :: "(string \<times> bytes) list"
  sr_done :: bool

record 's kv =
  kv_get :: "string \<Rightarrow> string \<Rightarrow> string \<Rightarrow> ('s, bytes option) io"
  kv_get_versioned :: "string \<Rightarrow> string \<Rightarrow> string \<Rightarrow> ('s, (bytes \<times> u64) option) io"
  kv_put :: "string \<Rightarrow> string \<Rightarrow> string \<Rightarrow> bytes \<Rightarrow> ('s, unit) io"
  kv_put_if_version :: "string \<Rightarrow> string \<Rightarrow> string \<Rightarrow> bytes \<Rightarrow> u64 option \<Rightarrow> ('s, bool) io"
  kv_put_if_absent :: "string \<Rightarrow> string \<Rightarrow> string \<Rightarrow> bytes \<Rightarrow> ('s, bool) io"
  kv_delete :: "string \<Rightarrow> string \<Rightarrow> string \<Rightarrow> ('s, bool) io"
  kv_delete_if_version :: "string \<Rightarrow> string \<Rightarrow> string \<Rightarrow> u64 \<Rightarrow> ('s, bool) io"
  kv_delete_returning :: "string \<Rightarrow> string \<Rightarrow> string \<Rightarrow> ('s, bytes option) io"
  kv_scan_prefix :: "string \<Rightarrow> string \<Rightarrow> string \<Rightarrow> nat \<Rightarrow> ('s, scan_result) io"
  kv_scan_range :: "string \<Rightarrow> string \<Rightarrow> string \<Rightarrow> string option \<Rightarrow> nat \<Rightarrow> ('s, scan_result) io"
  kv_get_consistent :: "string \<Rightarrow> string \<Rightarrow> string \<Rightarrow> ('s, bytes option) io"
  kv_delete_batch :: "string \<Rightarrow> (string \<times> string) list \<Rightarrow> ('s, bool list) io"
  kv_put_batch :: "string \<Rightarrow> (string \<times> string \<times> bytes) list \<Rightarrow> ('s, unit) io"
  kv_is_single_node :: bool
  kv_compact :: "('s, bool) io"

subsection \<open>Default methods of the trait\<close>

definition default_put_if_absent ::
    "(string \<Rightarrow> string \<Rightarrow> string \<Rightarrow> bytes \<Rightarrow> u64 option \<Rightarrow> ('s, bool) io) \<Rightarrow>
     string \<Rightarrow> string \<Rightarrow> string \<Rightarrow> bytes \<Rightarrow> ('s, bool) io" where
  "default_put_if_absent put_if_version table pk sk value = put_if_version table pk sk value None"

definition default_get_consistent ::
    "(string \<Rightarrow> string \<Rightarrow> string \<Rightarrow> ('s, bytes option) io) \<Rightarrow>
     string \<Rightarrow> string \<Rightarrow> string \<Rightarrow> ('s, bytes option) io" where
  "default_get_consistent get table pk sk = get table pk sk"

definition default_delete_batch ::
    "(string \<Rightarrow> string \<Rightarrow> string \<Rightarrow> ('s, bool) io) \<Rightarrow>
     string \<Rightarrow> (string \<times> string) list \<Rightarrow> ('s, bool list) io" where
  "default_delete_batch delete table keys = io_map (\<lambda>(pk, sk). delete table pk sk) keys"

definition default_put_batch ::
    "(string \<Rightarrow> string \<Rightarrow> string \<Rightarrow> bytes \<Rightarrow> ('s, unit) io) \<Rightarrow>
     string \<Rightarrow> (string \<times> string \<times> bytes) list \<Rightarrow> ('s, unit) io" where
  "default_put_batch put table entries = io_for entries (\<lambda>(pk, sk, value). put table pk sk value)"

definition default_is_single_node :: bool where
  "default_is_single_node = False"

definition default_compact :: "('s, bool) io" where
  "default_compact = io_return False"

subsection \<open>The view of a backend's state\<close>

type_synonym kv_view = "string \<Rightarrow> string \<Rightarrow> string \<Rightarrow> (bytes \<times> u64) option"

definition view_upd :: "kv_view \<Rightarrow> string \<Rightarrow> string \<Rightarrow> string \<Rightarrow> (bytes \<times> u64) option \<Rightarrow> kv_view" where
  "view_upd v t pk sk x = (\<lambda>t' pk' sk'. if t' = t \<and> pk' = pk \<and> sk' = sk then x else v t' pk' sk')"

definition next_version :: "(bytes \<times> u64) option \<Rightarrow> u64" where
  "next_version x = (case x of None \<Rightarrow> 1 | Some (_, n) \<Rightarrow> n + 1)"

abbreviation view_put :: "kv_view \<Rightarrow> string \<Rightarrow> string \<Rightarrow> string \<Rightarrow> bytes \<Rightarrow> kv_view" where
  "view_put v t pk sk b \<equiv> view_upd v t pk sk (Some (b, next_version (v t pk sk)))"

abbreviation view_del :: "kv_view \<Rightarrow> string \<Rightarrow> string \<Rightarrow> string \<Rightarrow> kv_view" where
  "view_del v t pk sk \<equiv> view_upd v t pk sk None"

text \<open>The two views agree outside a set of keys.\<close>

definition view_frame :: "(string \<times> string \<times> string) set \<Rightarrow> kv_view \<Rightarrow> kv_view \<Rightarrow> bool" where
  "view_frame K v v' \<longleftrightarrow> (\<forall>t pk sk. (t, pk, sk) \<notin> K \<longrightarrow> v' t pk sk = v t pk sk)"

text \<open>Batches, one key after the other.\<close>

fun view_del_all :: "kv_view \<Rightarrow> string \<Rightarrow> (string \<times> string) list \<Rightarrow> kv_view" where
  "view_del_all v t [] = v"
| "view_del_all v t ((pk, sk) # ks) = view_del_all (view_del v t pk sk) t ks"

fun view_del_hits :: "kv_view \<Rightarrow> string \<Rightarrow> (string \<times> string) list \<Rightarrow> bool list" where
  "view_del_hits v t [] = []"
| "view_del_hits v t ((pk, sk) # ks) = (v t pk sk \<noteq> None) # view_del_hits (view_del v t pk sk) t ks"

fun view_put_all :: "kv_view \<Rightarrow> string \<Rightarrow> (string \<times> string \<times> bytes) list \<Rightarrow> kv_view" where
  "view_put_all v t [] = v"
| "view_put_all v t ((pk, sk, b) # es) = view_put_all (view_put v t pk sk b) t es"

text \<open>The entries of a partition whose sort keys satisfy a predicate, in sort-key order.\<close>

definition entries_where ::
    "(string \<Rightarrow> (bytes \<times> u64) option) \<Rightarrow> (string \<Rightarrow> bool) \<Rightarrow> (string \<times> bytes) list" where
  "entries_where m P = map (\<lambda>k. (k, fst (the (m k)))) (sorted_list_of_set {k \<in> dom m. P k})"

definition in_range :: "string \<Rightarrow> string option \<Rightarrow> string \<Rightarrow> bool" where
  "in_range lo hi k \<longleftrightarrow> lo \<le> k \<and> (case hi of None \<Rightarrow> True | Some h \<Rightarrow> k < h)"

section \<open>Facts on views\<close>

lemma view_upd_apply [simp]:
  "view_upd v t pk sk x t' pk' sk' = (if t' = t \<and> pk' = pk \<and> sk' = sk then x else v t' pk' sk')"
  by (simp add: view_upd_def)

lemma view_frame_refl [simp]: "view_frame K v v"
  by (simp add: view_frame_def)

lemma view_frame_trans: "view_frame K u v \<Longrightarrow> view_frame K v w \<Longrightarrow> view_frame K u w"
  by (simp add: view_frame_def)

lemma view_frame_mono: "view_frame K u v \<Longrightarrow> K \<subseteq> L \<Longrightarrow> view_frame L u v"
  by (auto simp: view_frame_def)

lemma view_frame_upd [simp]: "(t, pk, sk) \<in> K \<Longrightarrow> view_frame K v (view_upd v t pk sk x)"
  by (auto simp: view_frame_def)

lemma view_frameD: "view_frame K v v' \<Longrightarrow> (t, pk, sk) \<notin> K \<Longrightarrow> v' t pk sk = v t pk sk"
  by (simp add: view_frame_def)

lemma view_del_all_apply:
  "view_del_all v t ks t' pk sk = (if t' = t \<and> (pk, sk) \<in> set ks then None else v t' pk sk)"
proof (induction ks arbitrary: v)
  case (Cons k ks)
  then show ?case by (cases k) auto
qed simp

lemma view_del_hits_length [simp]: "length (view_del_hits v t ks) = length ks"
proof (induction ks arbitrary: v)
  case (Cons k ks)
  then show ?case by (cases k) simp
qed simp

lemma view_del_hits_distinct:
  "distinct ks \<Longrightarrow> view_del_hits v t ks = map (\<lambda>(pk, sk). v t pk sk \<noteq> None) ks"
proof (induction ks arbitrary: v)
  case (Cons k ks)
  obtain pk sk where k: "k = (pk, sk)" by (cases k)
  from Cons.prems k have "map (\<lambda>(pk', sk'). view_del v t pk sk t pk' sk' \<noteq> None) ks =
      map (\<lambda>(pk, sk). v t pk sk \<noteq> None) ks"
    by (intro map_cong) auto
  moreover have "view_del_hits (view_del v t pk sk) t ks =
      map (\<lambda>(pk', sk'). view_del v t pk sk t pk' sk' \<noteq> None) ks"
    by (rule Cons.IH) (use Cons.prems in simp)
  ultimately have "view_del_hits (view_del v t pk sk) t ks =
      map (\<lambda>(pk, sk). v t pk sk \<noteq> None) ks" by (rule trans [rotated])
  with k show ?case by simp
qed simp

lemma view_put_all_notin:
  "(\<forall>b. (pk, sk, b) \<notin> set es) \<or> t' \<noteq> t \<Longrightarrow> view_put_all v t es t' pk sk = v t' pk sk"
proof (induction es arbitrary: v)
  case (Cons e es)
  then show ?case by (cases e) auto
qed simp

lemma view_put_all_in:
  "distinct (map (\<lambda>(pk, sk, b). (pk, sk)) es) \<Longrightarrow> (pk, sk, b) \<in> set es \<Longrightarrow>
    view_put_all v t es t pk sk = Some (b, next_version (v t pk sk))"
proof (induction es arbitrary: v)
  case (Cons e es)
  obtain pk' sk' b' where e: "e = (pk', sk', b')" by (cases e)
  show ?case
  proof (cases "(pk, sk) = (pk', sk')")
    case True
    then have "\<forall>c. (pk, sk, c) \<notin> set es" using Cons.prems(1) e by force
    moreover from True e this Cons.prems(2) have "b = b'" by auto
    ultimately show ?thesis using True e by (simp add: view_put_all_notin)
  next
    case False
    have "view_put_all (view_put v t pk' sk' b') t es t pk sk =
        Some (b, next_version (view_put v t pk' sk' b' t pk sk))"
      by (rule Cons.IH) (use Cons.prems e False in auto)
    with e False show ?thesis by auto
  qed
qed simp

lemma finite_view_upd:
  "finite (dom (v t' pk')) \<Longrightarrow> finite (dom (view_upd v t pk sk x t' pk'))"
proof -
  assume fin: "finite (dom (v t' pk'))"
  have "dom (view_upd v t pk sk x t' pk') \<subseteq> insert sk (dom (v t' pk'))" by (auto split: if_splits)
  then show ?thesis using fin by (meson finite.insertI finite_subset)
qed

subsection \<open>Ordered entries\<close>

lemma set_entries_where:
  "finite (dom m) \<Longrightarrow> set (entries_where m P) = {(k, b). P k \<and> (\<exists>n. m k = Some (b, n))}"
  by (force simp: entries_where_def dom_def image_iff)

lemma entries_where_fst: "finite (dom m) \<Longrightarrow> x \<in> set (entries_where m P) \<Longrightarrow> P (fst x)"
  by (cases x) (simp add: set_entries_where)

lemma map_fst_entries_where:
  "map fst (entries_where m P) = sorted_list_of_set {k \<in> dom m. P k}"
  by (simp add: entries_where_def comp_def)

lemma sorted_entries_where [simp]: "sorted_wrt (<) (map fst (entries_where m P))"
  by (simp add: map_fst_entries_where)

lemma distinct_entries_where [simp]: "distinct (map fst (entries_where m P))"
  by (simp add: map_fst_entries_where)

lemma sorted_fst_le_last:
  fixes ys :: "('a :: linorder \<times> 'b) list"
  shows "sorted_wrt (<) (map fst ys) \<Longrightarrow> (k, b) \<in> set ys \<Longrightarrow> k \<le> fst (last ys)"
proof (induction ys)
  case (Cons y ys)
  show ?case
  proof (cases "ys = []")
    case False
    have "fst y < fst (last ys)" using Cons.prems(1) last_in_set [OF False] by simp
    then show ?thesis using False Cons.IH Cons.prems by (cases "(k, b) = y") (auto intro: less_imp_le)
  qed (use Cons.prems in auto)
qed simp

text \<open>Strictly sorted association lists with the same elements are equal.\<close>

lemma strict_sorted_assoc_eq:
  fixes xs ys :: "('a :: linorder \<times> 'b) list"
  assumes "sorted_wrt (<) (map fst xs)" "sorted_wrt (<) (map fst ys)" "set xs = set ys"
  shows "xs = ys"
proof -
  have sets: "set (map fst ys) = set (map fst xs)" using assms(3) by simp
  have keys: "map fst xs = map fst ys"
    by (rule strict_sorted_equal [OF assms(1,2) sets, symmetric])
  have dist: "distinct (map fst xs)" using assms(1) unfolding strict_sorted_iff by simp
  show ?thesis
  proof (rule nth_equalityI)
    show len: "length xs = length ys" using keys map_eq_imp_length_eq by blast
    fix i assume i: "i < length xs"
    have "xs ! i \<in> set ys" using i assms(3) nth_mem by blast
    then obtain j where j: "j < length ys" "ys ! j = xs ! i" by (auto simp: in_set_conv_nth)
    have "map fst xs ! j = map fst xs ! i"
      using i j len keys by (metis nth_map)
    then have "j = i" using nth_eq_iff_index_eq [OF dist, of j i] i j len by simp
    with j show "xs ! i = ys ! i" by simp
  qed
qed

lemma entries_whereI:
  assumes "finite (dom m)" "sorted_wrt (<) (map fst xs)"
    and "\<And>k b. (k, b) \<in> set xs \<longleftrightarrow> P k \<and> (\<exists>n. m k = Some (b, n))"
  shows "xs = entries_where m P"
  by (rule strict_sorted_assoc_eq) (use assms in \<open>auto simp: set_entries_where\<close>)

lemma entries_where_cong:
  "m = m' \<Longrightarrow> (\<And>k. m' k \<noteq> None \<Longrightarrow> P k = Q k) \<Longrightarrow> entries_where m P = entries_where m' Q"
proof -
  assume m: "m = m'" and PQ: "\<And>k. m' k \<noteq> None \<Longrightarrow> P k = Q k"
  then have "{k \<in> dom m. P k} = {k \<in> dom m'. Q k}" by (auto simp: dom_def)
  with m show ?thesis by (simp add: entries_where_def)
qed

text \<open>A list that holds the smallest entries of a partition begins the list of all of them.\<close>

lemma entries_where_prefix:
  assumes "finite (dom m)" "sorted_wrt (<) (map fst ys)"
    and sound: "\<And>k b. (k, b) \<in> set ys \<Longrightarrow> P k \<and> (\<exists>n. m k = Some (b, n))"
    and rest: "\<And>k b n. m k = Some (b, n) \<Longrightarrow> P k \<Longrightarrow>
      (k, b) \<in> set ys \<or> trunc \<and> (\<forall>y \<in> set ys. fst y < k)"
  shows "\<exists>zs. entries_where m P = ys @ zs \<and> (\<not> trunc \<longrightarrow> zs = [])"
proof -
  let ?Z = "entries_where m (\<lambda>k. P k \<and> k \<notin> fst ` set ys)"
  note set_Z = set_entries_where [OF assms(1)]
  have later: "trunc \<and> (\<forall>y \<in> set ys. fst y < k)" if "(k, b) \<in> set ?Z" for k b
    using that rest unfolding set_Z by force
  have "sorted_wrt (<) (map fst (ys @ ?Z))"
    unfolding map_append sorted_wrt_append set_map
    using assms(2) later by auto force
  moreover have "set (ys @ ?Z) = set (entries_where m P)"
  proof (intro set_eqI)
    fix x :: "string \<times> bytes"
    obtain k b where x: "x = (k, b)" by (cases x)
    have "k \<in> fst ` set ys \<Longrightarrow> m k = Some (b, n) \<Longrightarrow> (k, b) \<in> set ys" for n
      using sound by force
    then show "x \<in> set (ys @ ?Z) \<longleftrightarrow> x \<in> set (entries_where m P)"
      using sound unfolding x set_append Un_iff set_Z by blast
  qed
  ultimately have "ys @ ?Z = entries_where m P" by (intro strict_sorted_assoc_eq) auto
  moreover have "?Z = []" if "\<not> trunc"
    using later that by (metis ex_in_conv prod.collapse set_empty)
  ultimately show ?thesis by metis
qed

section \<open>The contract of a backend\<close>

text \<open>
  What a reading method and a writing method leave behind: \<open>Q\<close> is what a successful result says,
  \<open>K\<close> the keys a failed write may have touched.
\<close>

definition kv_read ::
    "('s \<Rightarrow> bool) \<Rightarrow> ('s \<Rightarrow> kv_view) \<Rightarrow> 's \<Rightarrow> ('a \<Rightarrow> bool) \<Rightarrow> 'a result \<Rightarrow> 's \<Rightarrow> bool" where
  "kv_read invar view s Q r s' \<longleftrightarrow> invar s' \<and> view s' = view s \<and> (\<forall>a. r = Inr a \<longrightarrow> Q a)"

definition kv_write ::
    "('s \<Rightarrow> bool) \<Rightarrow> ('s \<Rightarrow> kv_view) \<Rightarrow> 's \<Rightarrow> (string \<times> string \<times> string) set \<Rightarrow>
     ('a \<Rightarrow> kv_view \<Rightarrow> bool) \<Rightarrow> 'a result \<Rightarrow> 's \<Rightarrow> bool" where
  "kv_write invar view s K Q r s' \<longleftrightarrow> invar s' \<and>
     (case r of Inl e \<Rightarrow> view_frame K (view s) (view s') | Inr a \<Rightarrow> Q a (view s'))"

lemma kv_read_simps [simp]:
  "kv_read invar view s Q (Inl e) s' \<longleftrightarrow> invar s' \<and> view s' = view s"
  "kv_read invar view s Q (Inr a) s' \<longleftrightarrow> invar s' \<and> view s' = view s \<and> Q a"
  by (auto simp: kv_read_def)

lemma kv_write_simps [simp]:
  "kv_write invar view s K Q (Inl e) s' \<longleftrightarrow> invar s' \<and> view_frame K (view s) (view s')"
  "kv_write invar view s K Q (Inr a) s' \<longleftrightarrow> invar s' \<and> Q a (view s')"
  by (auto simp: kv_write_def)

locale kv_store =
  fixes kv :: "'s kv" and invar :: "'s \<Rightarrow> bool" and view :: "'s \<Rightarrow> kv_view"
  assumes view_ok: "invar s \<Longrightarrow> view s t pk sk \<noteq> None \<Longrightarrow> pk_ok pk \<and> sk_ok sk"
    and view_finite: "invar s \<Longrightarrow> finite (dom (view s t pk))"
    and get_spec: "invar s \<Longrightarrow> pk_ok pk \<Longrightarrow>
      wp (kv_get kv t pk sk) (kv_read invar view s (\<lambda>v. v = map_option fst (view s t pk sk))) s"
    and get_versioned_spec: "invar s \<Longrightarrow> pk_ok pk \<Longrightarrow>
      wp (kv_get_versioned kv t pk sk) (kv_read invar view s (\<lambda>v. v = view s t pk sk)) s"
    and put_spec: "invar s \<Longrightarrow> pk_ok pk \<Longrightarrow> sk_ok sk \<Longrightarrow>
      wp (kv_put kv t pk sk b)
        (kv_write invar view s {(t, pk, sk)} (\<lambda>_ v. v = view_put (view s) t pk sk b)) s"
    and put_if_version_spec: "invar s \<Longrightarrow> pk_ok pk \<Longrightarrow> sk_ok sk \<Longrightarrow>
      wp (kv_put_if_version kv t pk sk b exp)
        (kv_write invar view s {(t, pk, sk)} (\<lambda>ok v.
          ok = (exp = map_option snd (view s t pk sk)) \<and>
          v = (if ok then view_put (view s) t pk sk b else view s))) s"
    and put_if_absent_spec: "invar s \<Longrightarrow> pk_ok pk \<Longrightarrow> sk_ok sk \<Longrightarrow>
      wp (kv_put_if_absent kv t pk sk b)
        (kv_write invar view s {(t, pk, sk)} (\<lambda>ok v.
          ok = (view s t pk sk = None) \<and>
          v = (if ok then view_put (view s) t pk sk b else view s))) s"
    and delete_spec: "invar s \<Longrightarrow> pk_ok pk \<Longrightarrow>
      wp (kv_delete kv t pk sk)
        (kv_write invar view s {(t, pk, sk)} (\<lambda>hit v.
          hit = (view s t pk sk \<noteq> None) \<and> v = view_del (view s) t pk sk)) s"
    and delete_if_version_spec: "invar s \<Longrightarrow> pk_ok pk \<Longrightarrow>
      wp (kv_delete_if_version kv t pk sk n)
        (kv_write invar view s {(t, pk, sk)} (\<lambda>ok v.
          ok = (map_option snd (view s t pk sk) = Some n) \<and>
          v = (if ok then view_del (view s) t pk sk else view s))) s"
    and delete_returning_spec: "invar s \<Longrightarrow> pk_ok pk \<Longrightarrow>
      wp (kv_delete_returning kv t pk sk)
        (kv_write invar view s {(t, pk, sk)} (\<lambda>old v.
          old = map_option fst (view s t pk sk) \<and> v = view_del (view s) t pk sk)) s"
    and scan_prefix_spec: "invar s \<Longrightarrow> pk_ok pk \<Longrightarrow>
      wp (kv_scan_prefix kv t pk p limit) (kv_read invar view s (\<lambda>res.
          sr_items res = take limit (entries_where (view s t pk) (\<lambda>k. starts_with k p)) \<and>
          (sr_done res \<longrightarrow> length (entries_where (view s t pk) (\<lambda>k. starts_with k p)) \<le> limit))) s"
    and scan_range_spec: "invar s \<Longrightarrow> pk_ok pk \<Longrightarrow>
      wp (kv_scan_range kv t pk lo hi limit) (kv_read invar view s (\<lambda>res.
          sr_items res = take limit (entries_where (view s t pk) (in_range lo hi)) \<and>
          (sr_done res \<longrightarrow> length (entries_where (view s t pk) (in_range lo hi)) \<le> limit))) s"
    and scan_prefix_full: "invar s \<Longrightarrow> pk_ok pk \<Longrightarrow> wp (kv_scan_prefix kv t pk p limit)
      (\<lambda>r s'. \<forall>res. r = Inr res \<longrightarrow> \<not> sr_done res \<longrightarrow> limit \<le> length (sr_items res)) s"
    and scan_range_full: "invar s \<Longrightarrow> pk_ok pk \<Longrightarrow> wp (kv_scan_range kv t pk lo hi limit)
      (\<lambda>r s'. \<forall>res. r = Inr res \<longrightarrow> \<not> sr_done res \<longrightarrow> limit \<le> length (sr_items res)) s"
    and get_consistent_spec: "invar s \<Longrightarrow> pk_ok pk \<Longrightarrow>
      wp (kv_get_consistent kv t pk sk)
        (kv_read invar view s (\<lambda>v. v = map_option fst (view s t pk sk))) s"
    and delete_batch_spec: "invar s \<Longrightarrow> \<forall>(pk, sk) \<in> set ks. pk_ok pk \<Longrightarrow>
      wp (kv_delete_batch kv t ks)
        (kv_write invar view s {(t, pk, sk) | pk sk. (pk, sk) \<in> set ks} (\<lambda>hits v.
          hits = view_del_hits (view s) t ks \<and> v = view_del_all (view s) t ks)) s"
    and put_batch_spec: "invar s \<Longrightarrow> \<forall>(pk, sk, b) \<in> set es. pk_ok pk \<and> sk_ok sk \<Longrightarrow>
      wp (kv_put_batch kv t es)
        (kv_write invar view s {(t, pk, sk) | pk sk b. (pk, sk, b) \<in> set es} (\<lambda>_ v.
          v = view_put_all (view s) t es)) s"
    and compact_spec: "invar s \<Longrightarrow> wp (kv_compact kv) (kv_read invar view s (\<lambda>_. True)) s"

end
