(* ===== verification/Depot_Records.thy ===== *)
theory Depot_Records
  imports Depot_Prelude
begin

text \<open>
  The persisted records (\<open>core/src/store/kv/records.rs\<close>), the format metadata they carry
  (\<open>core/src/store/kv/metadata.rs\<close>) and the task types (\<open>core/src/task.rs\<close>). A Rust struct is a
  \<^theory_text>\<open>record\<close> whose fields keep the source's names behind a short prefix, an enum a
  \<^theory_text>\<open>datatype\<close>; \<open>usize\<close> counters of progress reports are \<^typ>\<open>nat\<close>. The accessors with
  a default (\<open>effective_etag\<close>, \<open>repodata_depth\<close>, \<open>content_disposition\<close>, ...) are the ones old
  schema versions rely on.
\<close>

definition CURRENT_RECORD_VERSION :: u32 where
  "CURRENT_RECORD_VERSION = 5"

subsection \<open>Format metadata\<close>

record apt_package_meta =
  apt_package :: string
  apt_version :: string
  apt_architecture :: string
  apt_distribution :: string
  apt_component :: string
  apt_maintainer :: string
  apt_depends :: string
  apt_section :: string
  apt_priority :: string
  apt_installed_size :: string
  apt_description :: string
  apt_sha256 :: string
  apt_control :: string

record pypi_package_meta =
  pypi_name :: string
  pypi_version :: string
  pypi_filename :: string
  pypi_filetype :: string
  pypi_sha256 :: string
  pypi_requires_python :: "string option"
  pypi_summary :: "string option"
  pypi_upstream_url :: "string option"

record go_module_meta =
  go_module :: string
  go_version :: string
  go_file_type :: string
  go_sha256 :: string
  go_upstream_url :: "string option"

record helm_chart_meta =
  helm_name :: string
  helm_version :: string
  helm_app_version :: string
  helm_description :: string
  helm_api_version :: string
  helm_chart_type :: string
  helm_keywords :: "string list"
  helm_home :: string
  helm_sources :: "string list"
  helm_icon :: string
  helm_deprecated :: bool
  helm_sha256 :: string

record crate_dep =
  dep_name :: string
  dep_req :: string
  dep_features :: "string list"
  dep_optional :: bool
  dep_default_features :: bool
  dep_target :: "string option"
  dep_kind :: string
  dep_registry :: "string option"
  dep_package :: "string option"

record crate_version_meta =
  crate_name :: string
  crate_vers :: string
  crate_deps :: "crate_dep list"
  crate_cksum :: string
  crate_features :: string
  crate_features2 :: "string option"
  crate_yanked :: bool
  crate_links :: "string option"
  crate_rust_version :: "string option"

record rpm_dep =
  rdep_name :: string
  rdep_flags :: string
  rdep_epoch :: string
  rdep_ver :: string
  rdep_rel :: string

record rpm_file_entry =
  rfile_path :: string
  rfile_file_type :: string

record rpm_changelog =
  rlog_author :: string
  rlog_timestamp :: u64
  rlog_text :: string

record rpm_package_meta =
  rpm_name :: string
  rpm_epoch :: u32
  rpm_version :: string
  rpm_release :: string
  rpm_arch :: string
  rpm_summary :: string
  rpm_description :: string
  rpm_url :: string
  rpm_license :: string
  rpm_vendor :: string
  rpm_group :: string
  rpm_buildhost :: string
  rpm_buildtime :: u64
  rpm_packager :: string
  rpm_installed_size :: u64
  rpm_archive_size :: u64
  rpm_sha256 :: string
  rpm_requires :: "rpm_dep list"
  rpm_provides :: "rpm_dep list"
  rpm_conflicts :: "rpm_dep list"
  rpm_obsoletes :: "rpm_dep list"
  rpm_files :: "rpm_file_entry list"
  rpm_changelogs :: "rpm_changelog list"

record npm_package_meta =
  npm_name :: string
  npm_version :: string
  npm_filename :: string
  npm_sha1 :: string
  npm_sha512 :: string
  npm_upstream_url :: "string option"

record pypi_project_link =
  link_filename :: string
  link_version :: string
  link_upstream_url :: string
  link_sha256 :: "string option"
  link_requires_python :: "string option"

record pypi_project_index =
  index_links :: "pypi_project_link list"

subsection \<open>Blob stores\<close>

record file_store =
  fs_root :: string
  fs_sync :: bool
  fs_io_size :: nat
  fs_direct_io :: bool

record s3_store =
  s3_bucket :: string
  s3_endpoint :: "string option"
  s3_region :: string
  s3_prefix :: "string option"
  s3_access_key :: "string option"
  s3_secret_key :: "string option"
  s3_max_retries :: u32
  s3_connect_timeout_secs :: u64
  s3_read_timeout_secs :: u64
  s3_retry_mode :: string

datatype store_kind = FileStore file_store | S3Store s3_store

fun store_kind_type_name :: "store_kind \<Rightarrow> string" where
  "store_kind_type_name (FileStore _) = ''file''"
| "store_kind_type_name (S3Store _) = ''s3''"

record store_record =
  st_schema_version :: u32
  st_name :: string
  st_kind :: store_kind
  st_created_at :: datetime

record store_stats_record =
  ss_blob_count :: u64
  ss_total_bytes :: u64
  ss_updated_at :: datetime

subsection \<open>Artifacts\<close>

datatype artifact_kind =
    RawKind
  | DockerBlob string
  | DockerManifest string
  | DockerTag string string
  | AptPackage apt_package_meta
  | AptMetadata
  | PypiPackage pypi_package_meta
  | GoModule go_module_meta
  | HelmChart helm_chart_meta
  | HelmMetadata
  | CargoCrate crate_version_meta
  | YumPackage rpm_package_meta
  | YumMetadata
  | NpmPackage npm_package_meta
  | NpmMetadata

record artifact_record =
  ar_schema_version :: u32
  ar_id :: string
  ar_size :: u64
  ar_content_type :: string
  ar_created_at :: datetime
  ar_updated_at :: datetime
  ar_last_accessed_at :: datetime
  ar_path :: string
  ar_kind :: artifact_kind
  ar_internal :: bool
  ar_blob_id :: "string option"
  ar_content_hash :: "string option"
  ar_etag :: "string option"

text \<open>\<open>opt.as_deref().filter(|e| !e.is_empty())\<close>.\<close>

definition nonempty_opt :: "string option \<Rightarrow> string option" where
  "nonempty_opt x = (case x of Some e \<Rightarrow> if e = [] then None else Some e | None \<Rightarrow> None)"

definition effective_etag :: "artifact_record \<Rightarrow> string option" where
  "effective_etag r = (case nonempty_opt (ar_etag r) of Some e \<Rightarrow> Some e
     | None \<Rightarrow> (case nonempty_opt (ar_content_hash r) of Some h \<Rightarrow> Some h
       | None \<Rightarrow> nonempty_opt (ar_blob_id r)))"

subsection \<open>Directory tree\<close>

record dir_entry =
  de_schema_version :: u32
  de_artifact_count :: u64
  de_total_bytes :: u64
  de_last_modified_at :: datetime
  de_last_accessed_at :: datetime

record tree_file =
  tf_size :: u64
  tf_content_type :: string
  tf_artifact_kind :: artifact_kind
  tf_blob_id :: "string option"
  tf_content_hash :: "string option"
  tf_created_at :: datetime

text \<open>\<open>Dir { artifact_count, total_bytes }\<close> or \<open>File { ... }\<close>.\<close>

datatype tree_entry_kind = Dir u64 u64 | File tree_file

record tree_entry =
  te_kind :: tree_entry_kind
  te_last_modified_at :: datetime
  te_last_accessed_at :: datetime

record repo_stats =
  rs_artifact_count :: u64
  rs_total_bytes :: u64

subsection \<open>Blobs, uploads, leases\<close>

record blob_record =
  br_schema_version :: u32
  br_blob_id :: string
  br_hash :: string
  br_size :: u64
  br_created_at :: datetime
  br_store :: string

record upload_session_record =
  us_uuid :: string
  us_repo :: string
  us_image :: "string option"
  us_blob_id :: string
  us_store :: string
  us_size :: u64
  us_chunk_blob_ids :: "string list"
  us_created_at :: datetime
  us_updated_at :: datetime

record lease_record =
  lr_holder :: string
  lr_renewed_at :: datetime
  lr_ttl_secs :: u64

subsection \<open>Tasks\<close>

record task_progress =
  tp_total_repos :: nat
  tp_completed_repos :: nat
  tp_total_blobs :: nat
  tp_checked_blobs :: nat
  tp_failed_blobs :: nat
  tp_bytes_read :: u64
  tp_total_bytes :: u64
  tp_total_artifacts :: nat
  tp_checked_artifacts :: nat
  tp_phase :: string

datatype task_status = Pending | Running | Completed | Failed | Cancelled

datatype task_kind =
    Check
  | BlobGc
  | RepoClean string
  | RebuildDirEntries
  | BulkDelete string string
  | RepoClone string string

record check_finding =
  cf_repo :: "string option"
  cf_path :: string
  cf_expected_hash :: string
  cf_actual_hash :: "string option"
  cf_error :: "string option"
  cf_fixed :: bool

record check_result =
  cr_total_blobs :: nat
  cr_passed :: nat
  cr_mismatched :: nat
  cr_missing :: nat
  cr_errors :: nat
  cr_findings :: "check_finding list"
  cr_bytes_read :: u64
  cr_dry_run :: bool
  cr_fixed :: nat

record gc_result =
  gr_drained_repos :: u64
  gr_cleaned_upload_sessions :: u64
  gr_scanned_artifacts :: u64
  gr_expired_artifacts :: u64
  gr_docker_deleted :: u64
  gr_scanned_blobs :: u64
  gr_deleted_dedup_refs :: u64
  gr_orphaned_blobs_deleted :: u64
  gr_orphaned_blob_bytes_deleted :: u64
  gr_elapsed_ns :: u64
  gr_dry_run :: bool

record repo_clean_result =
  rc_repo :: string
  rc_scanned_artifacts :: u64
  rc_expired_artifacts :: u64
  rc_docker_deleted :: u64
  rc_elapsed_ns :: u64

record rebuild_dir_entries_result =
  rd_repos :: nat
  rd_entries_updated :: u64
  rd_stores_updated :: nat
  rd_elapsed_ns :: u64

record repo_clone_result =
  rl_source :: string
  rl_target :: string
  rl_copied_artifacts :: u64
  rl_copied_entries :: u64
  rl_elapsed_ns :: u64

record bulk_delete_result =
  bd_repo :: string
  bd_prefix :: string
  bd_deleted_artifacts :: u64
  bd_deleted_bytes :: u64
  bd_elapsed_ns :: u64

datatype task_result =
    CheckOut check_result
  | BlobGcOut gc_result
  | RepoCleanOut repo_clean_result
  | RebuildDirEntriesOut rebuild_dir_entries_result
  | BulkDeleteOut bulk_delete_result
  | RepoCloneOut repo_clone_result

record task_log_entry =
  tl_timestamp :: datetime
  tl_message :: string

record task_record =
  tr_schema_version :: u32
  tr_id :: string
  tr_kind :: task_kind
  tr_status :: task_status
  tr_created_at :: datetime
  tr_started_at :: "datetime option"
  tr_completed_at :: "datetime option"
  tr_updated_at :: datetime
  tr_progress :: task_progress
  tr_result :: "task_result option"
  tr_error :: "string option"
  tr_summary :: string
  tr_owner_instance_id :: string
  tr_deleting :: bool
  tr_event_seq :: u64

record task_event_record =
  tev_schema_version :: u32
  tev_task_id :: string
  tev_seq :: u64
  tev_timestamp :: datetime
  tev_message :: string

subsection \<open>Repositories\<close>

record upstream_auth =
  ua_username :: string
  ua_password :: "string option"

datatype repo_type = HostedType | CacheType | ProxyType

datatype artifact_format = RawF | DockerF | PyPIF | AptF | GolangF | HelmF | CargoF | YumF | NpmF

text \<open>
  \<open>Cache { upstream_url, cache_ttl_secs, upstream_auth }\<close> and
  \<open>Proxy { members, write_member }\<close>.
\<close>

datatype repo_kind =
    Hosted
  | Cache string u64 "upstream_auth option"
  | Proxy "string list" "string option"

fun repo_kind_type :: "repo_kind \<Rightarrow> repo_type" where
  "repo_kind_type Hosted = HostedType"
| "repo_kind_type (Cache _ _ _) = CacheType"
| "repo_kind_type (Proxy _ _) = ProxyType"

datatype content_disposition = Attachment | Inline

text \<open>
  \<open>Raw { content_disposition }\<close>, \<open>Docker { listen, cleanup_untagged_manifests }\<close>,
  \<open>Apt { apt_components }\<close>, \<open>Yum { repodata_depth }\<close>; the others have no fields.
\<close>

datatype format_config =
    RawConfig "content_disposition option"
  | DockerConfig "string option" "bool option"
  | PyPIConfig
  | AptConfig "string list option"
  | GolangConfig
  | HelmConfig
  | CargoConfig
  | YumConfig "u32 option"
  | NpmConfig

fun fc_artifact_format :: "format_config \<Rightarrow> artifact_format" where
  "fc_artifact_format (RawConfig _) = RawF"
| "fc_artifact_format (DockerConfig _ _) = DockerF"
| "fc_artifact_format PyPIConfig = PyPIF"
| "fc_artifact_format (AptConfig _) = AptF"
| "fc_artifact_format GolangConfig = GolangF"
| "fc_artifact_format HelmConfig = HelmF"
| "fc_artifact_format CargoConfig = CargoF"
| "fc_artifact_format (YumConfig _) = YumF"
| "fc_artifact_format NpmConfig = NpmF"

fun fc_listen :: "format_config \<Rightarrow> string option" where
  "fc_listen (DockerConfig listen _) = listen"
| "fc_listen _ = None"

fun fc_cleanup_untagged_manifests :: "format_config \<Rightarrow> bool" where
  "fc_cleanup_untagged_manifests (DockerConfig _ (Some True)) = True"
| "fc_cleanup_untagged_manifests _ = False"

fun fc_repodata_depth :: "format_config \<Rightarrow> u32" where
  "fc_repodata_depth (YumConfig d) = (case d of Some n \<Rightarrow> n | None \<Rightarrow> 0)"
| "fc_repodata_depth _ = 0"

fun fc_content_disposition :: "format_config \<Rightarrow> content_disposition" where
  "fc_content_disposition (RawConfig c) = (case c of Some d \<Rightarrow> d | None \<Rightarrow> Attachment)"
| "fc_content_disposition _ = Attachment"

record repo_config =
  rp_schema_version :: u32
  rp_name :: string
  rp_kind :: repo_kind
  rp_format_config :: format_config
  rp_store :: string
  rp_created_at :: datetime
  rp_cleanup_max_unaccessed_days :: "u64 option"
  rp_cleanup_max_age_days :: "u64 option"
  rp_deleting :: bool

definition rp_repo_type :: "repo_config \<Rightarrow> repo_type" where
  "rp_repo_type c = repo_kind_type (rp_kind c)"

definition rp_format :: "repo_config \<Rightarrow> artifact_format" where
  "rp_format c = fc_artifact_format (rp_format_config c)"

fun repo_type_display :: "repo_type \<Rightarrow> string" where
  "repo_type_display HostedType = ''hosted''"
| "repo_type_display CacheType = ''cache''"
| "repo_type_display ProxyType = ''proxy''"

fun artifact_format_display :: "artifact_format \<Rightarrow> string" where
  "artifact_format_display RawF = ''raw''"
| "artifact_format_display DockerF = ''docker''"
| "artifact_format_display PyPIF = ''pypi''"
| "artifact_format_display AptF = ''apt''"
| "artifact_format_display GolangF = ''golang''"
| "artifact_format_display HelmF = ''helm''"
| "artifact_format_display CargoF = ''cargo''"
| "artifact_format_display YumF = ''yum''"
| "artifact_format_display NpmF = ''npm''"

subsection \<open>Users and roles\<close>

record user_record =
  ur_schema_version :: u32
  ur_username :: string
  ur_password_hash :: string
  ur_roles :: "string list"
  ur_auth_source :: string
  ur_token_secret :: bytes
  ur_must_change_password :: bool
  ur_created_at :: datetime
  ur_updated_at :: datetime

datatype capability = Read | Write | Delete

record capability_grant =
  cg_capability :: capability
  cg_repo :: string

record role_record =
  ro_schema_version :: u32
  ro_name :: string
  ro_description :: string
  ro_capabilities :: "capability_grant list"
  ro_created_at :: datetime
  ro_updated_at :: datetime

subsection \<open>Pagination\<close>

record pagination =
  pg_cursor :: "string option"
  pg_offset :: nat
  pg_limit :: nat

definition default_pagination :: pagination where
  "default_pagination = \<lparr>pg_cursor = None, pg_offset = 0, pg_limit = 1000\<rparr>"

record 'a paginated_result =
  pr_items :: "'a list"
  pr_next_cursor :: "string option"

end
