(* ===== verification/Service_Scan.thy ===== *)
theory Service_Scan
  imports Kv_Interface Depot_Records
begin

text \<open>
  The typed helpers (\<open>core/src/service/typed.rs\<close>) and the batched partition scan
  (\<open>core/src/service/scan.rs\<close>).

  MessagePack encoding is the third-party \<open>rmp_serde\<close>: a record type's encoding is a parameter
  \<open>'r codec\<close>, the results of \<open>to_vec_named\<close>, \<open>to_vec\<close> and \<open>from_slice\<close>. The predicate
  \<open>codec_ok\<close> is the round trip serde promises: what was encoded decodes to itself.
\<close>

record 'r codec =
  cd_enc_named :: "'r \<Rightarrow> string + bytes"
  cd_enc :: "'r \<Rightarrow> string + bytes"
  cd_dec :: "bytes \<Rightarrow> string + 'r"

definition codec_ok :: "'r codec \<Rightarrow> bool" where
  "codec_ok c \<longleftrightarrow> (\<forall>r b. cd_enc_named c r = Inr b \<or> cd_enc c r = Inr b \<longrightarrow> cd_dec c b = Inr r)"

text \<open>The encodings of the persisted types.\<close>

record codecs =
  cs_artifact :: "artifact_record codec"
  cs_tree :: "tree_entry codec"
  cs_repo :: "repo_config codec"
  cs_blob :: "blob_record codec"
  cs_store :: "store_record codec"
  cs_store_stats :: "store_stats_record codec"
  cs_upload :: "upload_session_record codec"
  cs_user :: "user_record codec"
  cs_role :: "role_record codec"
  cs_task :: "task_record codec"
  cs_task_event :: "task_event_record codec"
  cs_lease :: "lease_record codec"
  cs_time :: "datetime codec"

text \<open>A codec given by a finite table, for concrete inputs.\<close>

definition table_codec :: "('r \<times> bytes) list \<Rightarrow> 'r codec" where
  "table_codec tbl =
    (let enc = (\<lambda>r. case map_of tbl r of Some b \<Rightarrow> Inr b | None \<Rightarrow> Inl ''unencodable'')
     in \<lparr>cd_enc_named = enc, cd_enc = enc,
         cd_dec = (\<lambda>b. case map_of (map (\<lambda>(r, b). (b, r)) tbl) b of
           Some r \<Rightarrow> Inr r | None \<Rightarrow> Inl ''undecodable'')\<rparr>)"

definition serde :: "(string + 'a) \<Rightarrow> 'a result" where
  "serde r = (case r of Inl e \<Rightarrow> Inl (error_of_serde e) | Inr a \<Rightarrow> Inr a)"

definition encode :: "'r codec \<Rightarrow> 'r \<Rightarrow> bytes result" where
  "encode c r = serde (cd_enc c r)"

definition encode_named :: "'r codec \<Rightarrow> 'r \<Rightarrow> bytes result" where
  "encode_named c r = serde (cd_enc_named c r)"

definition decode :: "'r codec \<Rightarrow> bytes \<Rightarrow> 'r result" where
  "decode c b = serde (cd_dec c b)"

subsection \<open>Typed access\<close>

definition typed_get ::
    "'s kv \<Rightarrow> 'r codec \<Rightarrow> string \<Rightarrow> string \<Rightarrow> string \<Rightarrow> ('s, 'r option) io" where
  "typed_get kv c table pk sk =
    io_bind (kv_get kv table pk sk) (\<lambda>v. case v of
      Some bytes \<Rightarrow> io_bind (io_of_result (decode c bytes)) (\<lambda>r. io_return (Some r))
    | None \<Rightarrow> io_return None)"

definition typed_put ::
    "'s kv \<Rightarrow> 'r codec \<Rightarrow> string \<Rightarrow> string \<Rightarrow> string \<Rightarrow> 'r \<Rightarrow> ('s, unit) io" where
  "typed_put kv c table pk sk record =
    io_bind (io_of_result (encode_named c record)) (\<lambda>bytes. kv_put kv table pk sk bytes)"

definition typed_get_versioned ::
    "'s kv \<Rightarrow> 'r codec \<Rightarrow> string \<Rightarrow> string \<Rightarrow> string \<Rightarrow> ('s, ('r \<times> u64) option) io" where
  "typed_get_versioned kv c table pk sk =
    io_bind (kv_get_versioned kv table pk sk) (\<lambda>v. case v of
      Some (bytes, version) \<Rightarrow> io_bind (io_of_result (decode c bytes)) (\<lambda>r. io_return (Some (r, version)))
    | None \<Rightarrow> io_return None)"

definition typed_put_if_absent ::
    "'s kv \<Rightarrow> 'r codec \<Rightarrow> string \<Rightarrow> string \<Rightarrow> string \<Rightarrow> 'r \<Rightarrow> ('s, bool) io" where
  "typed_put_if_absent kv c table pk sk record =
    io_bind (io_of_result (encode_named c record)) (\<lambda>bytes. kv_put_if_absent kv table pk sk bytes)"

text \<open>\<open>.map(decode).collect::<Result<Vec<_>>>()\<close>.\<close>

fun decode_all :: "'r codec \<Rightarrow> (string \<times> bytes) list \<Rightarrow> 'r list result" where
  "decode_all c [] = Inr []"
| "decode_all c ((_, v) # items) = (case decode c v of
     Inl e \<Rightarrow> Inl e
   | Inr r \<Rightarrow> (case decode_all c items of Inl e \<Rightarrow> Inl e | Inr rs \<Rightarrow> Inr (r # rs)))"

definition typed_list ::
    "'s kv \<Rightarrow> 'r codec \<Rightarrow> string \<Rightarrow> string \<Rightarrow> string \<Rightarrow> nat \<Rightarrow> ('s, 'r list) io" where
  "typed_list kv c table pk sk_prefix limit =
    io_bind (kv_scan_prefix kv table pk sk_prefix limit)
      (\<lambda>result. io_of_result (decode_all c (sr_items result)))"

subsection \<open>Batched scans\<close>

definition SCAN_BATCH_SIZE :: nat where
  "SCAN_BATCH_SIZE = 1000"

definition ADMIN_ENTITY_CAP :: nat where
  "ADMIN_ENTITY_CAP = 10000"

definition per_shard_batch :: "nat \<Rightarrow> nat" where
  "per_shard_batch limit = max (limit div NUM_SHARDS + 1) 4 * 2"

text \<open>
  The callback of \<open>for_each_in_partition\<close> mutates the variables it captures: it is a function of
  their current value \<open>acc\<close> that fails, or says whether to go on with the new value. \<open>visit\<close> is the
  inner loop over one batch; its flag says that the whole scan returns.
\<close>

type_synonym 'a callback = "string \<Rightarrow> bytes \<Rightarrow> 'a \<Rightarrow> (bool \<times> 'a) result"

fun visit :: "string \<Rightarrow> 'a callback \<Rightarrow> (string \<times> bytes) list \<Rightarrow> 'a \<Rightarrow> ('a \<times> bool) result" where
  "visit sk_prefix callback [] acc = Inr (acc, False)"
| "visit sk_prefix callback ((sk, value) # items) acc =
    (if sk_prefix \<noteq> [] \<and> \<not> starts_with sk sk_prefix then Inr (acc, True)
     else case callback sk value acc of
         Inl e \<Rightarrow> Inl e
       | Inr (go_on, acc') \<Rightarrow>
           if \<not> go_on then Inr (acc', True) else visit sk_prefix callback items acc')"

partial_function (option) for_each_loop ::
    "'s kv \<Rightarrow> string \<Rightarrow> string \<Rightarrow> string \<Rightarrow> string option \<Rightarrow> nat \<Rightarrow> 'a callback \<Rightarrow>
     string option \<Rightarrow> 'a \<Rightarrow> 's \<Rightarrow> ('a result \<times> 's) option" where
  "for_each_loop kv table pk sk_prefix sk_end batch_size callback cursor acc s =
    (case kv_scan_range kv table pk (case cursor of Some c \<Rightarrow> c | None \<Rightarrow> sk_prefix) sk_end batch_size s of
       None \<Rightarrow> None
     | Some (Inl e, s') \<Rightarrow> Some (Inl e, s')
     | Some (Inr result, s') \<Rightarrow>
        (case visit sk_prefix callback (sr_items result) acc of
           Inl e \<Rightarrow> Some (Inl e, s')
         | Inr (acc', stop) \<Rightarrow>
            if stop \<or> sr_done result then Some (Inr acc', s')
            else (case last_opt (sr_items result) of
                None \<Rightarrow> Some (Inr acc', s')
              | Some (last_sk, _) \<Rightarrow>
                  for_each_loop kv table pk sk_prefix sk_end batch_size callback
                    (Some (last_sk @ [CHR 0x00])) acc' s')))"

definition for_each_in_partition ::
    "'s kv \<Rightarrow> string \<Rightarrow> string \<Rightarrow> string \<Rightarrow> nat \<Rightarrow> 'a callback \<Rightarrow> 'a \<Rightarrow> ('s, 'a) io" where
  "for_each_in_partition kv table pk sk_prefix batch_size callback acc =
    for_each_loop kv table pk sk_prefix (prefix_end_str sk_prefix) batch_size callback None acc"

text \<open>
  The loop that empties a partition, which \<open>drain_deleting_repo\<close> has for artifacts and for directory
  entries and \<open>drain_task_events\<close> for events; the flag says whether the copy also stops when the
  scan reports the end.
\<close>

partial_function (option) drain_loop ::
    "'s kv \<Rightarrow> bool \<Rightarrow> string \<Rightarrow> string \<Rightarrow> 's \<Rightarrow> (unit result \<times> 's) option" where
  "drain_loop kv stop_when_done table pk s =
    (case kv_scan_prefix kv table pk [] SCAN_BATCH_SIZE s of
       None \<Rightarrow> None
     | Some (Inl e, s1) \<Rightarrow> Some (Inl e, s1)
     | Some (Inr result, s1) \<Rightarrow>
        if sr_items result = [] then Some (Inr (), s1)
        else case kv_delete_batch kv table (map (\<lambda>(sk, _). (pk, sk)) (sr_items result)) s1 of
            None \<Rightarrow> None
          | Some (Inl e, s2) \<Rightarrow> Some (Inl e, s2)
          | Some (Inr _, s2) \<Rightarrow>
              if stop_when_done \<and> sr_done result then Some (Inr (), s2)
              else drain_loop kv stop_when_done table pk s2)"

section \<open>Typed access\<close>

lemma serde_simps [simp]: "serde (Inl e) = Inl (error_of_serde e)" "serde (Inr a) = Inr a"
  by (simp_all add: serde_def)

lemma wp_bind_ok: "r = Inr b \<Longrightarrow> wp (io_bind (io_of_result r) f) Q s \<longleftrightarrow> wp (f b) Q s"
  by (simp add: wp_simps)

lemma wp_bind_err: "r = Inl e \<Longrightarrow> wp (io_bind (io_of_result r) f) Q s \<longleftrightarrow> Q (Inl e) s"
  by (simp add: wp_simps)

lemma wp_try_bindI:
  assumes "wp m P s" and "\<And>r s'. P r s' \<Longrightarrow> wp (f r) Q s'"
  shows "wp (io_bind (io_try m) f) Q s"
  unfolding wp_bind wp_try using assms by (auto elim!: wp_mono)

lemma decode_encode:
  "codec_ok c \<Longrightarrow> encode c r = Inr b \<Longrightarrow> decode c b = Inr r"
  "codec_ok c \<Longrightarrow> encode_named c r = Inr b \<Longrightarrow> decode c b = Inr r"
  by (auto simp: codec_ok_def encode_def encode_named_def decode_def serde_def split: sum.splits)

lemma codec_ok_table: "distinct (map snd tbl) \<Longrightarrow> codec_ok (table_codec tbl)"
proof -
  assume d: "distinct (map snd tbl)"
  have "map_of (map (\<lambda>(r, b). (b, r)) tbl) b = Some r" if "map_of tbl r = Some b" for r b
    using d that
    by (intro map_of_is_SomeI) (auto simp: comp_def case_prod_unfold image_iff dest!: map_of_SomeD intro!: bexI [of _ "(r, b)"])
  then show ?thesis by (auto simp: codec_ok_def table_codec_def Let_def split: option.splits)
qed

text \<open>The record a key holds, as a reader of type \<open>'r\<close> sees it.\<close>

definition stored :: "'r codec \<Rightarrow> (bytes \<times> u64) option \<Rightarrow> 'r option \<Rightarrow> bool" where
  "stored c v r \<longleftrightarrow> (case v of None \<Rightarrow> r = None | Some (b, _) \<Rightarrow> (\<exists>x. decode c b = Inr x \<and> r = Some x))"

lemma stored_encode: "codec_ok c \<Longrightarrow> encode c r = Inr b \<Longrightarrow> stored c (Some (b, n)) (Some r)"
  by (simp add: stored_def decode_encode)

lemma stored_unique: "stored c x r \<Longrightarrow> stored c x r' \<Longrightarrow> r = r'"
  by (auto simp: stored_def split: option.splits)

lemma stored_simps [simp]:
  "stored c None r \<longleftrightarrow> r = None"
  "stored c (Some (b, n)) r \<longleftrightarrow> (\<exists>x. decode c b = Inr x \<and> r = Some x)"
  by (simp_all add: stored_def)

text \<open>A scan whose callback sees every entry of a list.\<close>

fun scan_fold :: "'a callback \<Rightarrow> (string \<times> bytes) list \<Rightarrow> 'a \<Rightarrow> 'a result" where
  "scan_fold callback [] acc = Inr acc"
| "scan_fold callback ((sk, value) # items) acc =
    (case callback sk value acc of
       Inl e \<Rightarrow> Inl e
     | Inr (go_on, acc') \<Rightarrow> if \<not> go_on then Inr acc' else scan_fold callback items acc')"

lemma visit_append:
  "visit p cb (xs @ ys) acc = (case visit p cb xs acc of
     Inl e \<Rightarrow> Inl e | Inr (acc', stop) \<Rightarrow> if stop then Inr (acc', True) else visit p cb ys acc')"
  by (induction p cb xs acc rule: visit.induct) (auto split: sum.splits)

lemma visit_scan_fold:
  assumes "\<forall>(k, _) \<in> set xs. starts_with k p" "\<forall>(k, _) \<in> set ys. \<not> starts_with k p" "p \<noteq> [] \<or> ys = []"
  shows "(case visit p cb (xs @ ys) acc of Inl e \<Rightarrow> Inl e | Inr (a, _) \<Rightarrow> Inr a) = scan_fold cb xs acc"
  using assms
proof (induction xs arbitrary: acc)
  case Nil
  then show ?case by (cases ys) auto
next
  case (Cons x xs)
  then show ?case by (cases x) (auto split: sum.splits)
qed

text \<open>The keys of a prefix come first among those from the prefix on.\<close>

lemma entries_prefix_range:
  assumes "finite (dom m)"
  shows "\<exists>zs. entries_where m (in_range p (prefix_end_str p)) =
      entries_where m (\<lambda>k. starts_with k p) @ zs \<and>
    (\<forall>(k, _) \<in> set zs. \<not> starts_with k p) \<and> (p \<noteq> [] \<or> zs = [])"
proof -
  let ?P = "in_range p (prefix_end_str p)" and ?ys = "entries_where m (\<lambda>k. starts_with k p)"
  have sub: "starts_with k p \<Longrightarrow> ?P k" for k
    using prefix_end_str_range [of k p] by (auto simp: in_range_def)
  have after: "y < k" if "starts_with y p" "\<not> starts_with k p" "?P k" for y k
  proof -
    from that(2,3) obtain e where e: "prefix_end p = Some e" "e \<le> k"
      using prefix_end_range [of k p] by (auto simp: in_range_def not_less split: option.splits)
    with that(1) prefix_end_range [of y p] show ?thesis by auto
  qed
  have "\<exists>zs. entries_where m ?P = ?ys @ zs \<and> (\<not> True \<longrightarrow> zs = [])"
    by (rule entries_where_prefix [OF assms sorted_entries_where])
      (use sub after in \<open>auto simp: set_entries_where [OF assms]\<close>)
  then obtain zs where zs: "entries_where m ?P = ?ys @ zs" by blast
  have no: "\<not> starts_with k p" if k: "(k, b) \<in> set zs" for k b
  proof
    assume "starts_with k p"
    moreover have "(k, b) \<in> set (entries_where m ?P)" using zs k by simp
    ultimately have "(k, b) \<in> set ?ys" by (simp add: set_entries_where [OF assms])
    then have "k \<in> set (map fst ?ys)" "k \<in> set (map fst zs)"
      using k image_eqI [of k fst "(k, b)"] by simp_all
    moreover have "distinct (map fst ?ys @ map fst zs)"
      using distinct_entries_where [of m ?P] unfolding zs map_append .
    ultimately show False unfolding distinct_append by blast
  qed
  moreover have "zs = []" if "p = []"
    using no [of "fst (hd zs)" "snd (hd zs)"] that by (cases zs) auto
  ultimately show ?thesis using zs by blast
qed

text \<open>Going on after the last key of a batch leaves exactly the entries not yet seen.\<close>

lemma entries_after_batch:
  assumes fin: "finite (dom m)" and ne: "take n (entries_where m (in_range lo hi)) \<noteq> []"
  shows "entries_where m (in_range (fst (last (take n (entries_where m (in_range lo hi)))) @ [CHR 0x00]) hi) =
    drop n (entries_where m (in_range lo hi))"
proof (rule sym, rule entries_whereI [OF fin])
  let ?R = "entries_where m (in_range lo hi)"
  let ?l = "fst (last (take n ?R))"
  have sorted: "sorted_wrt (<) (map fst (take n ?R) @ map fst (drop n ?R))"
    using sorted_entries_where [of m "in_range lo hi"] by (metis append_take_drop_id map_append)
  then show "sorted_wrt (<) (map fst (drop n ?R))" unfolding sorted_wrt_append by blast
  have last: "last (take n ?R) \<in> set (take n ?R)" using ne by (rule last_in_set)
  have lo: "lo \<le> ?l"
    using entries_where_fst [OF fin in_set_takeD [OF last]] by (simp add: in_range_def)
  fix k b
  have in_R: "(k, b) \<in> set ?R \<longleftrightarrow> (k, b) \<in> set (take n ?R) \<or> (k, b) \<in> set (drop n ?R)"
    by (metis Un_iff append_take_drop_id set_append)
  have after: "?l < k" if "(k, b) \<in> set (drop n ?R)"
    using sorted last that unfolding sorted_wrt_append by force
  have before: "k \<le> ?l" if "(k, b) \<in> set (take n ?R)"
    using sorted_fst_le_last [OF _ that] sorted unfolding sorted_wrt_append by simp
  show "(k, b) \<in> set (drop n ?R) \<longleftrightarrow> in_range (?l @ [CHR 0x00]) hi k \<and> (\<exists>v. m k = Some (b, v))"
  proof
    assume d: "(k, b) \<in> set (drop n ?R)"
    with in_R after show "in_range (?l @ [CHR 0x00]) hi k \<and> (\<exists>v. m k = Some (b, v))"
      by (auto simp: set_entries_where [OF fin] in_range_def snoc_NUL_le)
  next
    assume k: "in_range (?l @ [CHR 0x00]) hi k \<and> (\<exists>v. m k = Some (b, v))"
    then have "?l < k" by (simp add: in_range_def snoc_NUL_le)
    moreover from this lo k have "(k, b) \<in> set ?R"
      by (auto simp: set_entries_where [OF fin] in_range_def)
    ultimately show "(k, b) \<in> set (drop n ?R)" using in_R before by auto
  qed
qed

section \<open>Services over a lawful backend\<close>

context kv_store
begin

lemma delete_batch_frame:
  assumes "invar s" "\<forall>(pk, sk) \<in> set ks. pk_ok pk"
  shows "wp (kv_delete_batch kv t ks) (\<lambda>r s'. invar s' \<and>
    view_frame {(t, pk, sk) | pk sk. (pk, sk) \<in> set ks} (view s) (view s')) s"
proof (rule wp_mono [OF delete_batch_spec [OF assms]], goal_cases)
  case (1 r s')
  have "view_frame {(t, pk, sk) | pk sk. (pk, sk) \<in> set ks} (view s) (view_del_all (view s) t ks)"
    unfolding view_frame_def view_del_all_apply by auto
  with 1 show ?case by (cases r) auto
qed

lemma typed_get_spec:
  assumes "invar s" "pk_ok pk"
  shows "wp (typed_get kv c t pk sk) (kv_read invar view s (\<lambda>r. stored c (view s t pk sk) r)) s"
  unfolding typed_get_def
  by (rule wp_bindI [OF get_spec [OF assms]])
    (auto simp: wp_simps stored_def split: option.splits sum.splits)

lemma typed_get_versioned_spec:
  assumes "invar s" "pk_ok pk"
  shows "wp (typed_get_versioned kv c t pk sk) (kv_read invar view s (\<lambda>r.
    case view s t pk sk of None \<Rightarrow> r = None
    | Some (b, n) \<Rightarrow> \<exists>x. decode c b = Inr x \<and> r = Some (x, n))) s"
  unfolding typed_get_versioned_def
  by (rule wp_bindI [OF get_versioned_spec [OF assms]])
    (auto simp: wp_simps split: option.splits sum.splits)

lemma typed_put_spec:
  assumes "invar s" "pk_ok pk" "sk_ok sk"
  shows "wp (typed_put kv c t pk sk r) (kv_write invar view s {(t, pk, sk)} (\<lambda>_ v.
    \<exists>b. encode_named c r = Inr b \<and> v = view_put (view s) t pk sk b)) s"
  unfolding typed_put_def
  using put_spec [OF assms] assms(1)
  by (cases "encode_named c r") (auto simp: wp_simps kv_write_def elim!: wp_mono split: sum.splits)

lemma typed_put_if_absent_spec:
  assumes "invar s" "pk_ok pk" "sk_ok sk"
  shows "wp (typed_put_if_absent kv c t pk sk r) (kv_write invar view s {(t, pk, sk)} (\<lambda>ok v.
    \<exists>b. encode_named c r = Inr b \<and> ok = (view s t pk sk = None) \<and>
      v = (if ok then view_put (view s) t pk sk b else view s))) s"
  unfolding typed_put_if_absent_def
  using put_if_absent_spec [OF assms] assms(1)
  by (cases "encode_named c r") (auto simp: wp_simps kv_write_def elim!: wp_mono split: sum.splits)

lemma typed_list_spec:
  assumes "invar s" "pk_ok pk"
  shows "wp (typed_list kv c t pk p limit) (kv_read invar view s (\<lambda>rs.
    decode_all c (take limit (entries_where (view s t pk) (\<lambda>k. starts_with k p))) = Inr rs)) s"
  unfolding typed_list_def
  by (rule wp_bindI [OF scan_prefix_spec [OF assms]]) (auto simp: kv_read_def)

lemma for_each_loop_spec:
  assumes pk: "pk_ok pk" and batch: "0 < batch"
  shows "invar s \<Longrightarrow> view s = v \<Longrightarrow>
    lo = (case cursor of Some c \<Rightarrow> c | None \<Rightarrow> p) \<Longrightarrow>
    R = entries_where (v t pk) (in_range lo hi) \<Longrightarrow>
    \<exists>r s'. for_each_loop kv t pk p hi batch cb cursor acc s = Some (r, s') \<and> invar s' \<and> view s' = v \<and>
      (\<forall>a. r = Inr a \<longrightarrow> (\<exists>stop. visit p cb R acc = Inr (a, stop)))"
proof (induction "length R" arbitrary: R cursor lo acc s rule: less_induct)
  case less
  have fin: "finite (dom (v t pk))" using view_finite [OF less.prems(1)] less.prems(2) by blast
  obtain r s1 where scan: "kv_scan_range kv t pk lo hi batch s = Some (r, s1)"
    and r: "kv_read invar view s (\<lambda>res. sr_items res = take batch R \<and> (sr_done res \<longrightarrow> length R \<le> batch)) r s1"
    using scan_range_spec [OF less.prems(1) pk, of t lo hi batch] less.prems
    by (auto simp: wp_iff)
  note unfold = for_each_loop.simps [of kv t pk p hi batch cb cursor acc s, folded less.prems(3), unfolded scan]
  show ?case
  proof (cases r)
    case (Inl e)
    with r unfold less.prems show ?thesis by simp
  next
    case (Inr res)
    with r less.prems have inv: "invar s1" "view s1 = v" and items: "sr_items res = take batch R"
      and "done": "sr_done res \<Longrightarrow> length R \<le> batch" by auto
    have R: "visit p cb R acc = visit p cb (take batch R @ drop batch R) acc" by simp
    show ?thesis
    proof (cases "visit p cb (take batch R) acc")
      case (Inl e)
      with Inr unfold inv items show ?thesis by simp
    next
      case v: (Inr x)
      obtain a stop where x: "x = (a, stop)" by (cases x)
      have whole: "visit p cb R acc = (if stop then Inr (a, True) else visit p cb (drop batch R) a)"
        unfolding R visit_append v x by simp
      consider "stop \<or> sr_done res" | "take batch R = []" "\<not> stop" "\<not> sr_done res"
        | "take batch R \<noteq> []" "\<not> stop" "\<not> sr_done res" by blast
      then show ?thesis
      proof cases
        case 1
        with Inr unfold inv items v x whole "done" show ?thesis by auto
      next
        case 2
        with batch have "R = []" by simp
        with 2 Inr unfold inv items v x whole show ?thesis by auto
      next
        case 3
        let ?c = "fst (last (take batch R)) @ [CHR 0x00]"
        have next_R: "entries_where (v t pk) (in_range ?c hi) = drop batch R"
          using entries_after_batch [OF fin] 3(1) less.prems(4) by blast
        have "length (drop batch R) < length R" using 3(1) batch by (cases R) auto
        from less.hyps [OF this inv _ next_R [symmetric], of "Some ?c" a]
        obtain r s' where "for_each_loop kv t pk p hi batch cb (Some ?c) a s1 = Some (r, s')"
          "invar s'" "view s' = v" "\<forall>a'. r = Inr a' \<longrightarrow> (\<exists>stop. visit p cb (drop batch R) a = Inr (a', stop))"
          by auto
        moreover obtain lv where "last_opt (take batch R) = Some (fst (last (take batch R)), lv)"
          using 3(1) by (metis last_opt_Some prod.collapse)
        ultimately show ?thesis using 3 Inr unfold items v x whole by auto
      qed
    qed
  qed
qed

lemma for_each_spec:
  assumes "invar s" "pk_ok pk" "0 < batch"
  shows "wp (for_each_in_partition kv t pk p batch cb acc) (kv_read invar view s (\<lambda>a.
    scan_fold cb (entries_where (view s t pk) (\<lambda>k. starts_with k p)) acc = Inr a)) s"
proof -
  let ?m = "view s t pk"
  obtain zs where zs: "entries_where ?m (in_range p (prefix_end_str p)) =
      entries_where ?m (\<lambda>k. starts_with k p) @ zs"
    "\<forall>(k, _) \<in> set zs. \<not> starts_with k p" "p \<noteq> [] \<or> zs = []"
    using entries_prefix_range [OF view_finite [OF assms(1)], of t pk p] by blast
  have pre: "\<forall>(k, _) \<in> set (entries_where ?m (\<lambda>k. starts_with k p)). starts_with k p"
    using entries_where_fst [OF view_finite [OF assms(1)]] by fastforce
  have "\<exists>r s'. for_each_loop kv t pk p (prefix_end_str p) batch cb None acc s = Some (r, s') \<and>
      invar s' \<and> view s' = view s \<and> (\<forall>a. r = Inr a \<longrightarrow>
        (\<exists>stop. visit p cb (entries_where ?m (in_range p (prefix_end_str p))) acc = Inr (a, stop)))"
    by (rule for_each_loop_spec [OF assms(2,3,1) refl, where lo = p]) simp_all
  then obtain r s' where "for_each_in_partition kv t pk p batch cb acc s = Some (r, s')"
    "invar s'" "view s' = view s"
    "\<forall>a. r = Inr a \<longrightarrow> (\<exists>stop. visit p cb (entries_where ?m (in_range p (prefix_end_str p))) acc = Inr (a, stop))"
    by (auto simp: for_each_in_partition_def)
  then show ?thesis
    using visit_scan_fold [OF pre zs(2,3), of cb acc] unfolding zs(1)
    by (auto simp: wp_def kv_read_def)
qed

text \<open>Emptying a partition returns, and on success nothing of the partition is left.\<close>

lemma delete_prefix_batch:
  fixes n :: nat
  assumes inv: "invar s1" "view s1 = view s" and pk: "pk_ok pk"
    and R: "R = entries_where (view s t pk) (\<lambda>_. True)"
  defines "ks \<equiv> map (\<lambda>(sk, _). (pk, sk)) (take n R)"
  shows "wp (kv_delete_batch kv t ks) (\<lambda>r s2. invar s2 \<and> view_frame {(t, pk, sk) | sk. True} (view s) (view s2) \<and>
    (\<forall>hits. r = Inr hits \<longrightarrow> entries_where (view s2 t pk) (\<lambda>_. True) = drop n R)) s1"
proof (rule wp_mono [OF wp_det [OF delete_batch_spec [of s1 ks t] delete_batch_frame [of s1 ks t]]], goal_cases)
  case (5 r s2)
  then have s2: "invar s2" and frame: "view_frame {(t, pk', sk) | pk' sk. (pk', sk) \<in> set ks} (view s) (view s2)"
    and del: "\<And>hits. r = Inr hits \<Longrightarrow> view s2 = view_del_all (view s) t ks"
    using inv by auto
  have fin: "finite (dom (view s t pk))" using view_finite [OF inv(1), of t pk] inv(2) by simp
  have split: "sorted_wrt (<) (map fst (take n R) @ map fst (drop n R))"
    unfolding R using sorted_entries_where by (metis append_take_drop_id map_append)
  have "drop n R = entries_where (view s2 t pk) (\<lambda>_. True)" if r: "r = Inr hits" for hits
  proof (rule entries_whereI [OF view_finite [OF s2]])
    show "sorted_wrt (<) (map fst (drop n R))" using split unfolding sorted_wrt_append by blast
    fix k b
    have "k \<notin> fst ` set (take n R)" if "(k, b) \<in> set (drop n R)"
      using split that unfolding sorted_wrt_append by force
    moreover have "(k, b) \<in> set R \<longleftrightarrow> (\<exists>m. view s t pk k = Some (b, m))"
      unfolding R by (simp add: set_entries_where [OF fin])
    moreover have "(k, b) \<in> set R \<longleftrightarrow> (k, b) \<in> set (take n R) \<or> (k, b) \<in> set (drop n R)"
      by (metis Un_iff append_take_drop_id set_append)
    moreover have "(pk, k) \<in> set ks \<longleftrightarrow> k \<in> fst ` set (take n R)" unfolding ks_def by force
    ultimately show "(k, b) \<in> set (drop n R) \<longleftrightarrow> True \<and> (\<exists>m. view s2 t pk k = Some (b, m))"
      unfolding del [OF r] view_del_all_apply by (auto simp: image_iff)
  qed
  moreover have "view_frame {(t, pk, sk) | sk. True} (view s) (view s2)"
    by (rule view_frame_mono [OF frame]) (auto simp: ks_def)
  ultimately show ?case using s2 by simp
qed (use inv pk in \<open>auto simp: ks_def\<close>)

lemma drain_loop_spec:
  assumes pk: "pk_ok pk"
  shows "invar s \<Longrightarrow> wp (drain_loop kv fl t pk) (\<lambda>r s'. invar s' \<and>
    view_frame {(t, pk, sk) | sk. True} (view s) (view s') \<and>
    (r = Inr () \<longrightarrow> (\<forall>sk. view s' t pk sk = None))) s"
proof (induction "length (entries_where (view s t pk) (\<lambda>_. True))" arbitrary: s rule: less_induct)
  case less
  define R where "R = entries_where (view s t pk) (\<lambda>_. True)"
  let ?K = "{(t, pk, sk) | sk. True}"
  have empty: "view s' t pk sk = None" if "invar s'" "entries_where (view s' t pk) (\<lambda>_. True) = []" for s' sk
    using set_entries_where [OF view_finite [OF that(1)], of t pk "\<lambda>_. True"] that(2)
    by (cases "view s' t pk sk") auto
  obtain r s1 where scan: "kv_scan_prefix kv t pk [] SCAN_BATCH_SIZE s = Some (r, s1)"
    and r: "kv_read invar view s (\<lambda>res. sr_items res = take SCAN_BATCH_SIZE R \<and>
      (sr_done res \<longrightarrow> length R \<le> SCAN_BATCH_SIZE)) r s1"
    using scan_prefix_spec [OF less.prems pk, of t "[]" SCAN_BATCH_SIZE] by (auto simp: wp_iff R_def)
  note unfold = drain_loop.simps [of kv fl t pk s, unfolded scan]
  show ?case
  proof (cases r)
    case (Inl e)
    with r unfold show ?thesis by (simp add: wp_iff)
  next
    case (Inr res)
    with r have s1: "invar s1" "view s1 = view s" and items: "sr_items res = take SCAN_BATCH_SIZE R"
      and "done": "sr_done res \<Longrightarrow> length R \<le> SCAN_BATCH_SIZE" by auto
    let ?ks = "map (\<lambda>(sk, _). (pk, sk)) (take SCAN_BATCH_SIZE R)"
    obtain r2 s2 where del: "kv_delete_batch kv t ?ks s1 = Some (r2, s2)"
      and s2: "invar s2" "view_frame ?K (view s) (view s2)"
        "\<And>hits. r2 = Inr hits \<Longrightarrow> entries_where (view s2 t pk) (\<lambda>_. True) = drop SCAN_BATCH_SIZE R"
      using delete_prefix_batch [OF s1 pk R_def, of SCAN_BATCH_SIZE] by (auto simp: wp_iff)
    consider "R = []" | e where "R \<noteq> []" "r2 = Inl e" | hits where "R \<noteq> []" "r2 = Inr hits" "fl \<and> sr_done res"
      | hits where "R \<noteq> []" "r2 = Inr hits" "\<not> (fl \<and> sr_done res)" by (cases r2) auto
    then show ?thesis
    proof cases
      case 1
      then show ?thesis using unfold Inr items s1 empty [OF s1(1)] R_def by (auto simp: wp_iff)
    next
      case 2
      then show ?thesis using unfold Inr items del s2 by (auto simp: wp_iff SCAN_BATCH_SIZE_def)
    next
      case 3
      with "done" s2(3) have "entries_where (view s2 t pk) (\<lambda>_. True) = []" by simp
      with 3 show ?thesis using unfold Inr items del s2 empty by (auto simp: wp_iff SCAN_BATCH_SIZE_def)
    next
      case 4
      have "length (entries_where (view s2 t pk) (\<lambda>_. True)) < length R"
        using 4(1) s2(3) [OF 4(2)] by (cases R) (auto simp: SCAN_BATCH_SIZE_def)
      from less.hyps [OF this [unfolded R_def] s2(1)] show ?thesis
        using 4 unfold Inr items del s2(2)
        by (auto simp: wp_def SCAN_BATCH_SIZE_def intro: view_frame_trans split: option.splits)
    qed
  qed
qed

text \<open>Scanning several partitions of a table, whatever the order.\<close>

lemma scan_partitions_spec:
  assumes inv: "invar s" and pk: "\<forall>x \<in> set xs. pk_ok (pkf x)" and batch: "0 < batch"
  shows "wp (io_map (\<lambda>x. for_each_in_partition kv t (pkf x) p batch cb acc) xs)
    (kv_read invar view s (\<lambda>ys. list_all2 (\<lambda>x y.
      scan_fold cb (entries_where (view s t (pkf x)) (\<lambda>k. starts_with k p)) acc = Inr y) xs ys)) s"
proof -
  let ?P = "\<lambda>x y. scan_fold cb (entries_where (view s t (pkf x)) (\<lambda>k. starts_with k p)) acc = Inr y"
  have "wp (io_map (\<lambda>x. for_each_in_partition kv t (pkf x) p batch cb acc) xs)
    (\<lambda>r s'. case r of Inl e \<Rightarrow> invar s' \<and> view s' = view s
      | Inr ys \<Rightarrow> invar s' \<and> view s' = view s \<and> list_all2 ?P xs ys) s"
  proof (rule wp_map [where I = "\<lambda>done ys s'. invar s' \<and> view s' = view s \<and> list_all2 ?P done ys"], goal_cases)
    case (2 "done" ys x rest u)
    then have u: "invar u" "view u = view s" and x: "pk_ok (pkf x)" using pk by auto
    show ?case
      by (rule wp_mono [OF for_each_spec [OF u(1) x batch]])
        (use 2 u in \<open>auto simp: kv_read_def list_all2_appendI split: sum.splits\<close>)
  qed (use inv in simp)
  then show ?thesis by (rule wp_mono) (auto simp: kv_read_def split: sum.splits)
qed

end

text \<open>The order in which concurrently scanned shards finish.\<close>

definition shard_order :: "nat list \<Rightarrow> bool" where
  "shard_order order \<longleftrightarrow> distinct order \<and> set order = {..<NUM_SHARDS}"

lemma shard_order_upt: "shard_order [0..<NUM_SHARDS]"
  by (auto simp: shard_order_def)

end
