(* ===== verification/Service_Artifact.thy ===== *)
theory Service_Artifact
  imports Service_Scan
begin

text \<open>
  Artifact records and their browse-tree entries (\<open>core/src/service/artifact.rs\<close>), without the
  paginated listings, which are in \<open>Service_Pagination\<close>.

  The uuid and the time a function draws are arguments. In \<open>put_artifact\<close> other tasks may run
  between the read and the conditional write: \<open>env i\<close> is what they do to the store in attempt
  \<open>i\<close>. The shards of \<open>fold_all_artifacts\<close> are scanned concurrently; \<open>order\<close> lists them in the
  order in which they finish.
\<close>

subsection \<open>Browse-tree entries of artifacts\<close>

definition tree_entry_of :: "artifact_record \<Rightarrow> tree_entry" where
  "tree_entry_of record = \<lparr>
     te_kind = File \<lparr>
       tf_size = ar_size record,
       tf_content_type = ar_content_type record,
       tf_artifact_kind = ar_kind record,
       tf_blob_id = ar_blob_id record,
       tf_content_hash = ar_content_hash record,
       tf_created_at = ar_created_at record\<rparr>,
     te_last_modified_at = ar_updated_at record,
     te_last_accessed_at = ar_last_accessed_at record\<rparr>"

definition upsert_tree_file ::
    "hasher \<Rightarrow> 's kv \<Rightarrow> codecs \<Rightarrow> string \<Rightarrow> string \<Rightarrow> artifact_record \<Rightarrow> ('s, unit) io" where
  "upsert_tree_file H kv C repo path record =
    (case encode (cs_tree C) (tree_entry_of record) of
       Inl _ \<Rightarrow> io_return ()
     | Inr bytes \<Rightarrow> (case tree_entry_key H repo path of (table, pk, sk) \<Rightarrow>
         io_bind (io_try (kv_put kv table pk sk bytes)) (\<lambda>_. io_return ())))"

definition delete_tree_file :: "hasher \<Rightarrow> 's kv \<Rightarrow> string \<Rightarrow> string \<Rightarrow> ('s, unit) io" where
  "delete_tree_file H kv repo path =
    (case tree_entry_key H repo path of (table, pk, sk) \<Rightarrow>
       io_bind (io_try (kv_delete kv table pk sk)) (\<lambda>_. io_return ()))"

subsection \<open>Artifact records\<close>

definition PUT_ARTIFACT_MAX_RETRIES :: nat where
  "PUT_ARTIFACT_MAX_RETRIES = 3"

definition UNIX_EPOCH :: datetime where
  "UNIX_EPOCH = 0"

text \<open>The record as it is written: an id, an access time, the path as given.\<close>

definition prepare_artifact :: "string \<Rightarrow> string \<Rightarrow> artifact_record \<Rightarrow> artifact_record" where
  "prepare_artifact uuid path record =
    (let r1 = (if ar_id record = [] then record\<lparr>ar_id := uuid\<rparr> else record);
         r2 = (if ar_last_accessed_at r1 = UNIX_EPOCH
               then r1\<lparr>ar_last_accessed_at := ar_created_at r1\<rparr> else r1)
     in r2\<lparr>ar_path := path\<rparr>)"

definition interfere :: "(nat \<Rightarrow> 's \<Rightarrow> 's) \<Rightarrow> nat \<Rightarrow> ('s, unit) io" where
  "interfere env i = (\<lambda>s. Some (Inr (), env i s))"

definition put_artifact_conflict :: "string \<Rightarrow> string \<Rightarrow> depot_error" where
  "put_artifact_conflict repo path = Conflict (''put_artifact failed after '' @
     decimal PUT_ARTIFACT_MAX_RETRIES @ '' retries due to concurrent writes: '' @ repo @ ''/'' @ path)"

fun put_artifact_loop ::
    "hasher \<Rightarrow> 's kv \<Rightarrow> codecs \<Rightarrow> (nat \<Rightarrow> 's \<Rightarrow> 's) \<Rightarrow> (nat \<Rightarrow> string) \<Rightarrow> string \<Rightarrow> string \<Rightarrow>
     artifact_record \<Rightarrow> nat \<Rightarrow> nat \<Rightarrow> ('s, artifact_record option) io" where
  "put_artifact_loop H kv C env uuid repo path record attempt 0 =
     io_throw (put_artifact_conflict repo path)"
| "put_artifact_loop H kv C env uuid repo path record attempt (Suc n) =
    (case artifact_key H repo path of (table, pk, sk) \<Rightarrow>
     io_bind (typed_get_versioned kv (cs_artifact C) table pk sk) (\<lambda>cur.
       let old_record = map_option fst cur;
           expected_version = map_option snd cur;
           new = prepare_artifact (uuid attempt) path record
       in io_bind (io_of_result (encode (cs_artifact C) new)) (\<lambda>bytes.
          io_bind (interfere env attempt) (\<lambda>_.
          io_bind (kv_put_if_version kv table pk sk bytes expected_version) (\<lambda>ok.
            if ok then io_bind (upsert_tree_file H kv C repo path new) (\<lambda>_. io_return old_record)
            else put_artifact_loop H kv C env uuid repo path record (Suc attempt) n)))))"

definition put_artifact ::
    "hasher \<Rightarrow> 's kv \<Rightarrow> codecs \<Rightarrow> (nat \<Rightarrow> 's \<Rightarrow> 's) \<Rightarrow> (nat \<Rightarrow> string) \<Rightarrow> string \<Rightarrow> string \<Rightarrow>
     artifact_record \<Rightarrow> ('s, artifact_record option) io" where
  "put_artifact H kv C env uuid repo path record =
    (if path = [] then io_throw (BadRequest ''empty artifact path'')
     else put_artifact_loop H kv C env uuid repo path record 0 PUT_ARTIFACT_MAX_RETRIES)"

definition put_artifact_if_absent ::
    "hasher \<Rightarrow> 's kv \<Rightarrow> codecs \<Rightarrow> string \<Rightarrow> string \<Rightarrow> string \<Rightarrow> artifact_record \<Rightarrow> ('s, bool) io" where
  "put_artifact_if_absent H kv C uuid repo path record =
    (case artifact_key H repo path of (table, pk, sk) \<Rightarrow>
     let new = prepare_artifact uuid path record
     in io_bind (io_of_result (encode (cs_artifact C) new)) (\<lambda>bytes.
        io_bind (kv_put_if_absent kv table pk sk bytes) (\<lambda>written.
        if written then io_bind (upsert_tree_file H kv C repo path new) (\<lambda>_. io_return written)
        else io_return written)))"

definition get_artifact ::
    "hasher \<Rightarrow> 's kv \<Rightarrow> codecs \<Rightarrow> string \<Rightarrow> string \<Rightarrow> ('s, artifact_record option) io" where
  "get_artifact H kv C repo path =
    (case artifact_key H repo path of (table, pk, sk) \<Rightarrow> typed_get kv (cs_artifact C) table pk sk)"

definition delete_artifact ::
    "hasher \<Rightarrow> 's kv \<Rightarrow> codecs \<Rightarrow> string \<Rightarrow> string \<Rightarrow> ('s, artifact_record option) io" where
  "delete_artifact H kv C repo path =
    (case artifact_key H repo path of (table, pk, sk) \<Rightarrow>
     io_bind (kv_delete_returning kv table pk sk) (\<lambda>old. case old of
       Some bytes \<Rightarrow> io_bind (delete_tree_file H kv repo path) (\<lambda>_.
         io_bind (io_of_result (decode (cs_artifact C) bytes)) (\<lambda>r. io_return (Some r)))
     | None \<Rightarrow> io_return None))"

text \<open>
  The paired bulk delete. The comparison of the two hit lists only feeds a metric and a warning and
  is left out.
\<close>

definition delete_artifacts_paired_batch ::
    "hasher \<Rightarrow> 's kv \<Rightarrow> string \<Rightarrow> string list \<Rightarrow> ('s, unit) io" where
  "delete_artifacts_paired_batch H kv repo paths =
    (if paths = [] then io_return ()
     else
       let artifact_keys = map (\<lambda>path. snd (artifact_key H repo path)) paths;
           tree_keys = map (\<lambda>path. snd (tree_entry_key H repo path)) paths
       in io_bind (kv_delete_batch kv TABLE_ARTIFACTS artifact_keys) (\<lambda>record_hits.
          io_bind (io_try (kv_delete_batch kv TABLE_DIR_ENTRIES tree_keys)) (\<lambda>_. io_return ())))"

subsection \<open>Access tracking\<close>

text \<open>\<open>chrono::Duration::num_seconds\<close> rounds towards zero.\<close>

definition num_seconds :: "int \<Rightarrow> int" where
  "num_seconds d = (if d < 0 then - ((- d) div 1000000000) else d div 1000000000)"

definition touch_artifact ::
    "hasher \<Rightarrow> 's kv \<Rightarrow> codecs \<Rightarrow> string \<Rightarrow> string \<Rightarrow> datetime \<Rightarrow> ('s, unit) io" where
  "touch_artifact H kv C repo path now =
    (case tree_entry_key H repo path of (_, pk, sk) \<Rightarrow>
     io_bind (kv_get_versioned kv TABLE_DIR_ENTRIES pk sk) (\<lambda>cur. case cur of
       None \<Rightarrow> io_return ()
     | Some (bytes, version) \<Rightarrow>
        io_bind (io_of_result (decode (cs_tree C) bytes)) (\<lambda>te.
          if num_seconds (now - te_last_accessed_at te) < 60 then io_return ()
          else io_bind (io_of_result (encode (cs_tree C) (te\<lparr>te_last_accessed_at := now\<rparr>))) (\<lambda>new_bytes.
            io_bind (kv_put_if_version kv TABLE_DIR_ENTRIES pk sk new_bytes (Some version))
              (\<lambda>_. io_return ())))))"

subsection \<open>Folding over the shards\<close>

definition reduce_states :: "('a \<Rightarrow> 'a \<Rightarrow> 'a) \<Rightarrow> 'a \<Rightarrow> 'a list \<Rightarrow> 'a" where
  "reduce_states merge init states = (case states of [] \<Rightarrow> init | x # xs \<Rightarrow> foldl merge x xs)"

definition fold_callback :: "'r codec \<Rightarrow> ('a \<Rightarrow> string \<Rightarrow> 'r \<Rightarrow> 'a result) \<Rightarrow> 'a callback" where
  "fold_callback c f sk v state =
    (case decode c v of
       Inl e \<Rightarrow> Inl e
     | Inr record \<Rightarrow> (case f state sk record of Inl e \<Rightarrow> Inl e | Inr state' \<Rightarrow> Inr (True, state')))"

definition fold_all_artifacts ::
    "'s kv \<Rightarrow> codecs \<Rightarrow> nat list \<Rightarrow> string \<Rightarrow> string \<Rightarrow> 'a \<Rightarrow>
     ('a \<Rightarrow> string \<Rightarrow> artifact_record \<Rightarrow> 'a result) \<Rightarrow> ('a \<Rightarrow> 'a \<Rightarrow> 'a) \<Rightarrow> ('s, 'a) io" where
  "fold_all_artifacts kv C order repo prefix init f merge =
    io_bind (io_map (\<lambda>shard.
        for_each_in_partition kv TABLE_ARTIFACTS (artifact_shard_pk repo shard) prefix SCAN_BATCH_SIZE
          (fold_callback (cs_artifact C) f) init) order)
      (\<lambda>shard_states. io_return (reduce_states merge init shard_states))"

section \<open>Specifications\<close>

abbreviation art_at :: "hasher \<Rightarrow> string \<Rightarrow> string \<Rightarrow> kv_view \<Rightarrow> (bytes \<times> u64) option" where
  "art_at H repo path v \<equiv>
     v TABLE_ARTIFACTS (sharded_pk H repo (normalize_path path)) (normalize_path path)"

abbreviation tree_at :: "hasher \<Rightarrow> string \<Rightarrow> string \<Rightarrow> kv_view \<Rightarrow> (bytes \<times> u64) option" where
  "tree_at H repo path v \<equiv>
     v TABLE_DIR_ENTRIES (sharded_pk H repo (tree_parent (normalize_path path)))
       (tree_sort_key (normalize_path path))"

abbreviation put_art :: "hasher \<Rightarrow> string \<Rightarrow> string \<Rightarrow> bytes \<Rightarrow> kv_view \<Rightarrow> kv_view" where
  "put_art H repo path b v \<equiv>
     view_put v TABLE_ARTIFACTS (sharded_pk H repo (normalize_path path)) (normalize_path path) b"

abbreviation put_tree :: "hasher \<Rightarrow> string \<Rightarrow> string \<Rightarrow> bytes \<Rightarrow> kv_view \<Rightarrow> kv_view" where
  "put_tree H repo path b v \<equiv>
     view_put v TABLE_DIR_ENTRIES (sharded_pk H repo (tree_parent (normalize_path path)))
       (tree_sort_key (normalize_path path)) b"

text \<open>The backend reports an error for a write to this key.\<close>

definition put_fails :: "'s kv \<Rightarrow> string \<times> string \<times> string \<Rightarrow> bool" where
  "put_fails kv key = (case key of (t, pk, sk) \<Rightarrow>
     \<exists>b s e s'. kv_put kv t pk sk b s = Some (Inl e, s'))"

text \<open>
  What \<open>upsert_tree_file\<close> leaves: the entry of the record, or, when the record cannot be encoded or
  the backend fails, possibly something else at that one key.
\<close>

definition tree_upserted ::
    "hasher \<Rightarrow> 's kv \<Rightarrow> codecs \<Rightarrow> string \<Rightarrow> string \<Rightarrow> artifact_record \<Rightarrow> kv_view \<Rightarrow> kv_view \<Rightarrow> bool" where
  "tree_upserted H kv C repo path record v v' \<longleftrightarrow>
     (\<exists>b. encode (cs_tree C) (tree_entry_of record) = Inr b \<and> v' = put_tree H repo path b v) \<or>
     (isl (encode (cs_tree C) (tree_entry_of record)) \<or> put_fails kv (tree_entry_key H repo path)) \<and>
       view_frame {tree_entry_key H repo path} v v'"

lemma tree_upserted_frame:
  "tree_upserted H kv C repo path record v v' \<Longrightarrow> view_frame {tree_entry_key H repo path} v v'"
  by (auto simp: tree_upserted_def tree_entry_key_def Let_def)

lemma tables_distinct [simp]: "TABLE_ARTIFACTS \<noteq> TABLE_DIR_ENTRIES" "TABLE_DIR_ENTRIES \<noteq> TABLE_ARTIFACTS"
  by simp_all

lemma tree_upserted_art:
  "tree_upserted H kv C repo path record v v' \<Longrightarrow> v' TABLE_ARTIFACTS pk sk = v TABLE_ARTIFACTS pk sk"
  by (drule tree_upserted_frame) (simp add: view_frame_def tree_entry_key_def Let_def)

text \<open>
  The states in which the attempts of one call begin: the first in the state of the call, the next
  where the conditional write of the one before was refused.
\<close>

inductive attempt_at ::
    "hasher \<Rightarrow> 's kv \<Rightarrow> codecs \<Rightarrow> (nat \<Rightarrow> 's \<Rightarrow> 's) \<Rightarrow> (nat \<Rightarrow> string) \<Rightarrow> string \<Rightarrow> string \<Rightarrow>
     artifact_record \<Rightarrow> 's \<Rightarrow> nat \<Rightarrow> 's \<Rightarrow> bool"
  for H :: hasher and kv :: "'s kv" and C :: codecs and env :: "nat \<Rightarrow> 's \<Rightarrow> 's" and uuid :: "nat \<Rightarrow> string"
    and repo :: string and path :: string and new :: artifact_record and s :: 's where
  attempt_first: "attempt_at H kv C env uuid repo path new s 0 s"
| attempt_retry: "attempt_at H kv C env uuid repo path new s i u \<Longrightarrow>
    artifact_key H repo path = (t, pk, sk) \<Longrightarrow>
    typed_get_versioned kv (cs_artifact C) t pk sk u = Some (Inr cur, u1) \<Longrightarrow>
    encode (cs_artifact C) (prepare_artifact (uuid i) path new) = Inr b \<Longrightarrow>
    kv_put_if_version kv t pk sk b (map_option snd cur) (env i u1) = Some (Inr False, u2) \<Longrightarrow>
    attempt_at H kv C env uuid repo path new s (Suc i) u2"

text \<open>
  Attempt \<open>i\<close> of the call in \<open>s\<close> replaced the record \<open>old\<close>: it began in \<open>u\<close> and read \<open>old\<close>, the
  others took the store from \<open>u1\<close> to \<open>env i u1\<close> and left the key as it was read, and the write
  went on top of that.
\<close>

definition replaced_in_attempt ::
    "hasher \<Rightarrow> 's kv \<Rightarrow> codecs \<Rightarrow> ('s \<Rightarrow> kv_view) \<Rightarrow> (nat \<Rightarrow> 's \<Rightarrow> 's) \<Rightarrow> (nat \<Rightarrow> string) \<Rightarrow>
     string \<Rightarrow> string \<Rightarrow> artifact_record \<Rightarrow> 's \<Rightarrow> nat \<Rightarrow> artifact_record option \<Rightarrow> 's \<Rightarrow> bool" where
  "replaced_in_attempt H kv C view env uuid repo path record s i old s' \<longleftrightarrow>
    (\<exists>u t pk sk cur u1 b.
      attempt_at H kv C env uuid repo path record s i u \<and>
      artifact_key H repo path = (t, pk, sk) \<and>
      typed_get_versioned kv (cs_artifact C) t pk sk u = Some (Inr cur, u1) \<and> old = map_option fst cur \<and>
      art_at H repo path (view (env i u1)) = art_at H repo path (view u1) \<and>
      stored (cs_artifact C) (art_at H repo path (view (env i u1))) old \<and>
      encode (cs_artifact C) (prepare_artifact (uuid i) path record) = Inr b \<and>
      tree_upserted H kv C repo path (prepare_artifact (uuid i) path record)
        (put_art H repo path b (view (env i u1))) (view s'))"

text \<open>
  What the others do between a read and the write after it does not bring a version back under
  which another record was stored.
\<close>

definition versions_fresh ::
    "hasher \<Rightarrow> ('s \<Rightarrow> bool) \<Rightarrow> ('s \<Rightarrow> kv_view) \<Rightarrow> (nat \<Rightarrow> 's \<Rightarrow> 's) \<Rightarrow> string \<Rightarrow> string \<Rightarrow> bool" where
  "versions_fresh H invar view env repo path \<longleftrightarrow> (\<forall>i u. invar u \<longrightarrow>
     map_option snd (art_at H repo path (view (env i u))) = map_option snd (art_at H repo path (view u)) \<longrightarrow>
     art_at H repo path (view (env i u)) = art_at H repo path (view u))"

lemma wp_interfere [wp_simps]: "wp (interfere env i) Q s \<longleftrightarrow> Q (Inr ()) (env i s)"
  by (simp add: wp_def interfere_def)

context kv_store
begin

lemma upsert_tree_file_spec:
  assumes "invar s" "pk_ok repo" "sk_ok path"
  shows "wp (upsert_tree_file H kv C repo path record)
    (\<lambda>r s'. r = Inr () \<and> invar s' \<and> tree_upserted H kv C repo path record (view s) (view s')) s"
proof (cases "encode (cs_tree C) (tree_entry_of record)")
  case (Inl e)
  with assms show ?thesis by (simp add: upsert_tree_file_def tree_upserted_def)
next
  case (Inr b)
  let ?pk = "sharded_pk H repo (tree_parent (normalize_path path))"
  let ?sk = "tree_sort_key (normalize_path path)"
  have key: "tree_entry_key H repo path = (TABLE_DIR_ENTRIES, ?pk, ?sk)"
    by (simp add: tree_entry_key_def Let_def)
  from put_spec [OF assms(1), of ?pk ?sk TABLE_DIR_ENTRIES b] assms
  obtain r s' where run: "kv_put kv TABLE_DIR_ENTRIES ?pk ?sk b s = Some (r, s')"
    and post: "kv_write invar view s {(TABLE_DIR_ENTRIES, ?pk, ?sk)}
      (\<lambda>_ v. v = put_tree H repo path b (view s)) r s'"
    by (auto simp: wp_iff)
  have "upsert_tree_file H kv C repo path record s = Some (Inr (), s')"
    unfolding upsert_tree_file_def Inr key by (simp add: io_bind_def io_try_def io_return_def run)
  moreover have "tree_upserted H kv C repo path record (view s) (view s')"
  proof (cases r)
    case (Inl e)
    with run have "put_fails kv (tree_entry_key H repo path)" unfolding key put_fails_def by auto
    with Inl post show ?thesis unfolding tree_upserted_def key by simp
  next
    case r: (Inr u)
    with post Inr show ?thesis unfolding tree_upserted_def by simp
  qed
  ultimately show ?thesis using post by (simp add: wp_iff kv_write_def)
qed

lemma delete_tree_file_spec:
  assumes "invar s" "pk_ok repo" "sk_ok path"
  shows "wp (delete_tree_file H kv repo path)
    (\<lambda>r s'. r = Inr () \<and> invar s' \<and> view_frame {tree_entry_key H repo path} (view s) (view s')) s"
proof -
  let ?pk = "sharded_pk H repo (tree_parent (normalize_path path))"
  let ?sk = "tree_sort_key (normalize_path path)"
  have key: "tree_entry_key H repo path = (TABLE_DIR_ENTRIES, ?pk, ?sk)"
    by (simp add: tree_entry_key_def Let_def)
  from delete_spec [OF assms(1), of ?pk TABLE_DIR_ENTRIES ?sk] assms show ?thesis
    unfolding delete_tree_file_def key
    by (auto simp: wp_simps kv_write_def elim!: wp_mono split: sum.splits)
qed

lemma put_artifact_loop_cas:
  assumes repo: "pk_ok repo" and path: "sk_ok path"
    and env: "\<And>i s. invar s \<Longrightarrow> invar (env i s)" and fresh: "versions_fresh H invar view env repo path"
  shows "invar s \<Longrightarrow> attempt_at H kv C env uuid repo path record s0 attempt s \<Longrightarrow>
    wp (put_artifact_loop H kv C env uuid repo path record attempt n) (\<lambda>r s'. invar s' \<and>
    (\<forall>old. r = Inr old \<longrightarrow> (\<exists>i. attempt \<le> i \<and> i < attempt + n \<and>
      replaced_in_attempt H kv C view env uuid repo path record s0 i old s'))) s"
proof (induction n arbitrary: attempt s)
  case 0
  then show ?case by simp
next
  case (Suc n)
  let ?pk = "sharded_pk H repo (normalize_path path)" and ?sk = "normalize_path path"
  let ?new = "prepare_artifact (uuid attempt) path record"
  have key: "artifact_key H repo path = (TABLE_ARTIFACTS, ?pk, ?sk)" by (simp add: artifact_key_def Let_def)
  have ok: "pk_ok ?pk" "sk_ok ?sk" using repo path by simp_all
  show ?case
    unfolding put_artifact_loop.simps key prod.case Let_def
  proof (rule wp_bindI [OF wp_run [OF typed_get_versioned_spec [OF Suc.prems(1) ok(1)]]])
    fix cur u
    assume a: "kv_read invar view s (\<lambda>r. case art_at H repo path (view s) of None \<Rightarrow> r = None
      | Some (b, n) \<Rightarrow> \<exists>x. decode (cs_artifact C) b = Inr x \<and> r = Some (x, n)) (Inr cur) u \<and>
      typed_get_versioned kv (cs_artifact C) TABLE_ARTIFACTS ?pk ?sk s = Some (Inr cur, u)"
    then have run: "typed_get_versioned kv (cs_artifact C) TABLE_ARTIFACTS ?pk ?sk s = Some (Inr cur, u)" by blast
    from a have u: "invar u"
      and cur: "stored (cs_artifact C) (art_at H repo path (view u)) (map_option fst cur)"
        "map_option snd cur = map_option snd (art_at H repo path (view u))"
      by (auto simp: stored_def split: option.splits)
    let ?Q = "\<lambda>r s'. invar s' \<and> (\<forall>old. r = Inr old \<longrightarrow> (\<exists>i. attempt \<le> i \<and> i < attempt + Suc n \<and>
      replaced_in_attempt H kv C view env uuid repo path record s0 i old s'))"
    have w: "invar (env attempt u)" by (rule env [OF u])
    have more: "wp (put_artifact_loop H kv C env uuid repo path record (Suc attempt) n) ?Q s'"
      if "invar s'" "attempt_at H kv C env uuid repo path record s0 (Suc attempt) s'" for s'
      by (rule wp_mono [OF Suc.IH [OF that]]) (auto intro: Suc_leD)
    have done': "wp (io_bind (upsert_tree_file H kv C repo path ?new) (\<lambda>_. io_return (map_option fst cur))) ?Q w'"
      if "invar w'" "encode (cs_artifact C) ?new = Inr b"
        "view w' = put_art H repo path b (view (env attempt u))"
        "map_option snd cur = map_option snd (art_at H repo path (view (env attempt u)))" for b w'
    proof (rule wp_bindI [OF upsert_tree_file_spec [OF that(1) repo path]])
      fix a s'
      assume "Inr a = Inr () \<and> invar s' \<and> tree_upserted H kv C repo path ?new (view w') (view s')"
      then have s': "invar s'" "tree_upserted H kv C repo path ?new (put_art H repo path b (view (env attempt u))) (view s')"
        using that(3) by simp_all
      have same: "art_at H repo path (view (env attempt u)) = art_at H repo path (view u)"
        using fresh u cur(2) that(4) unfolding versions_fresh_def by metis
      have "replaced_in_attempt H kv C view env uuid repo path record s0 attempt (map_option fst cur) s'"
        unfolding replaced_in_attempt_def
        by (rule exI [of _ s], rule exI [of _ TABLE_ARTIFACTS], rule exI [of _ ?pk], rule exI [of _ ?sk],
            rule exI [of _ cur], rule exI [of _ u], rule exI [of _ b])
          (use Suc.prems(2) key run same cur(1) that(2) s'(2) in \<open>simp only: refl simp_thms\<close>)
      with s'(1) show "wp (io_return (map_option fst cur)) ?Q s'" by auto
    qed simp
    show "wp (io_bind (io_of_result (encode (cs_artifact C) ?new)) (\<lambda>bytes.
        io_bind (interfere env attempt) (\<lambda>_.
        io_bind (kv_put_if_version kv TABLE_ARTIFACTS ?pk ?sk bytes (map_option snd cur)) (\<lambda>ok.
          if ok then io_bind (upsert_tree_file H kv C repo path ?new) (\<lambda>_. io_return (map_option fst cur))
          else put_artifact_loop H kv C env uuid repo path record (Suc attempt) n)))) ?Q u"
    proof (cases "encode (cs_artifact C) ?new")
      case (Inl e)
      with u show ?thesis by (simp add: wp_simps)
    next
      case (Inr b)
      show ?thesis
        unfolding Inr wp_bind [of "io_of_result _"] wp_of_result sum.case wp_bind [of "interfere _ _"]
          wp_interfere
      proof (rule wp_bindI [OF wp_run [OF put_if_version_spec [OF w ok]]], goal_cases)
        case (1 e s')
        then show ?case by simp
      next
        case (2 ok s')
        show ?case
        proof (cases ok)
          case True
          with 2 done' [OF _ Inr] show ?thesis by auto
        next
          case False
          with 2 have "attempt_at H kv C env uuid repo path record s0 (Suc attempt) s'"
            by (intro attempt_retry [OF Suc.prems(2) key run Inr]) simp
          with 2 False more show ?thesis by auto
        qed
      qed
    qed
  qed auto
qed

text \<open>Without interference the first attempt decides.\<close>

lemma put_artifact_spec:
  assumes inv: "invar s" and repo: "pk_ok repo" and path: "sk_ok path" "path \<noteq> []"
  shows "wp (put_artifact H kv C (\<lambda>_ s. s) uuid repo path record)
    (kv_write invar view s {artifact_key H repo path, tree_entry_key H repo path} (\<lambda>old v.
      \<exists>b. encode (cs_artifact C) (prepare_artifact (uuid 0) path record) = Inr b \<and>
        stored (cs_artifact C) (art_at H repo path (view s)) old \<and>
        tree_upserted H kv C repo path (prepare_artifact (uuid 0) path record)
          (put_art H repo path b (view s)) v)) s"
proof -
  let ?pk = "sharded_pk H repo (normalize_path path)" and ?sk = "normalize_path path"
  let ?new = "prepare_artifact (uuid 0) path record"
  let ?K = "{artifact_key H repo path, tree_entry_key H repo path}"
  let ?Q = "kv_write invar view s ?K (\<lambda>old v.
      \<exists>b. encode (cs_artifact C) ?new = Inr b \<and> stored (cs_artifact C) (art_at H repo path (view s)) old \<and>
        tree_upserted H kv C repo path ?new (put_art H repo path b (view s)) v)"
  have key: "artifact_key H repo path = (TABLE_ARTIFACTS, ?pk, ?sk)" by (simp add: artifact_key_def Let_def)
  have ok: "pk_ok ?pk" "sk_ok ?sk" using repo path by simp_all
  have retries: "PUT_ARTIFACT_MAX_RETRIES = Suc 2" by (simp add: PUT_ARTIFACT_MAX_RETRIES_def)
  show ?thesis
    unfolding put_artifact_def if_not_P [OF path(2)] retries put_artifact_loop.simps key prod.case Let_def
    unfolding key [symmetric]
  proof (rule wp_bindI [OF typed_get_versioned_spec [OF inv ok(1)]])
    fix cur u
    assume "kv_read invar view s (\<lambda>r. case art_at H repo path (view s) of None \<Rightarrow> r = None
      | Some (b, n) \<Rightarrow> \<exists>x. decode (cs_artifact C) b = Inr x \<and> r = Some (x, n)) (Inr cur) u"
    then have u: "invar u" "view u = view s"
      and cur: "stored (cs_artifact C) (art_at H repo path (view s)) (map_option fst cur)"
        "map_option snd cur = map_option snd (art_at H repo path (view s))"
      by (auto simp: stored_def split: option.splits)
    have final: "wp (io_bind (upsert_tree_file H kv C repo path ?new) (\<lambda>_. io_return (map_option fst cur))) ?Q w"
      if w: "invar w" "view w = put_art H repo path b (view s)" "encode (cs_artifact C) ?new = Inr b" for w b
      by (rule wp_bindI [OF upsert_tree_file_spec [OF w(1) repo path(1)]]) (use w cur in auto)
    have fail: "view_frame ?K (view s) v" if "view_frame {artifact_key H repo path} (view s) v" for v
      using that by (rule view_frame_mono) simp
    show "wp (io_bind (io_of_result (encode (cs_artifact C) ?new)) (\<lambda>bytes.
        io_bind (interfere (\<lambda>_ s. s) 0) (\<lambda>_.
        io_bind (kv_put_if_version kv TABLE_ARTIFACTS ?pk ?sk bytes (map_option snd cur)) (\<lambda>ok.
          if ok then io_bind (upsert_tree_file H kv C repo path ?new) (\<lambda>_. io_return (map_option fst cur))
          else put_artifact_loop H kv C (\<lambda>_ s. s) uuid repo path record (Suc 0) 2)))) ?Q u"
    proof (cases "encode (cs_artifact C) ?new")
      case (Inl e)
      with u show ?thesis by (simp add: wp_simps)
    next
      case (Inr b)
      show ?thesis
        unfolding wp_bind_ok [OF Inr] wp_bind [of "interfere _ _"] wp_interfere sum.case
      proof (rule wp_bindI [OF put_if_version_spec [OF u(1) ok]], goal_cases)
        case (1 e w)
        then show ?case using fail u by (simp add: key)
      next
        case (2 done' w)
        then have "invar w" "done'" "view w = put_art H repo path b (view s)" using cur u by auto
        with final [OF _ _ Inr] show ?case by simp
      qed
    qed
  qed auto
qed

lemma put_artifact_if_absent_spec:
  assumes inv: "invar s" and repo: "pk_ok repo" and path: "sk_ok path"
  shows "wp (put_artifact_if_absent H kv C uuid repo path record)
    (kv_write invar view s {artifact_key H repo path, tree_entry_key H repo path} (\<lambda>written v.
      \<exists>b. encode (cs_artifact C) (prepare_artifact uuid path record) = Inr b \<and>
        written = (art_at H repo path (view s) = None) \<and>
        (if written then tree_upserted H kv C repo path (prepare_artifact uuid path record)
          (put_art H repo path b (view s)) v else v = view s))) s"
proof -
  let ?pk = "sharded_pk H repo (normalize_path path)" and ?sk = "normalize_path path"
  let ?new = "prepare_artifact uuid path record"
  have key: "artifact_key H repo path = (TABLE_ARTIFACTS, ?pk, ?sk)" by (simp add: artifact_key_def Let_def)
  have ok: "pk_ok ?pk" "sk_ok ?sk" using repo path by simp_all
  show ?thesis
  proof (cases "encode (cs_artifact C) ?new")
    case (Inl e)
    with inv show ?thesis by (simp add: put_artifact_if_absent_def key Let_def wp_simps)
  next
    case (Inr b)
    have final: "wp (io_bind (upsert_tree_file H kv C repo path ?new) (\<lambda>_. io_return True))
        (\<lambda>r s'. r = Inr True \<and> invar s' \<and> tree_upserted H kv C repo path ?new (view w) (view s')) w"
      if "invar w" for w
      by (rule wp_bindI [OF upsert_tree_file_spec [OF that repo path]]) auto
    have fail: "view_frame {artifact_key H repo path, tree_entry_key H repo path} (view s) v"
      if "view_frame {(TABLE_ARTIFACTS, ?pk, ?sk)} (view s) v" for v
      using that by (rule view_frame_mono) (simp add: key)
    show ?thesis
      unfolding put_artifact_if_absent_def key prod.case Let_def Inr wp_bind [of "io_of_result _"]
        wp_of_result sum.case
      unfolding key [symmetric]
      by (rule wp_bindI [OF put_if_absent_spec [OF inv ok]])
        (use fail in \<open>auto intro!: wp_mono [OF final] simp: inv\<close>)
  qed
qed

lemma get_artifact_spec:
  assumes "invar s" "pk_ok repo"
  shows "wp (get_artifact H kv C repo path)
    (kv_read invar view s (\<lambda>r. stored (cs_artifact C) (art_at H repo path (view s)) r)) s"
  using typed_get_spec [OF assms(1), of "sharded_pk H repo (normalize_path path)"] assms(2)
  by (simp add: get_artifact_def artifact_key_def Let_def)

lemma delete_artifact_spec:
  assumes inv: "invar s" and repo: "pk_ok repo" and path: "sk_ok path"
  shows "wp (delete_artifact H kv C repo path)
    (\<lambda>r s'. invar s' \<and> view_frame {artifact_key H repo path, tree_entry_key H repo path} (view s) (view s') \<and>
      (\<forall>old. r = Inr old \<longrightarrow> stored (cs_artifact C) (art_at H repo path (view s)) old \<and>
        art_at H repo path (view s') = None)) s"
proof -
  let ?pk = "sharded_pk H repo (normalize_path path)" and ?sk = "normalize_path path"
  let ?K = "{artifact_key H repo path, tree_entry_key H repo path}"
  have key: "artifact_key H repo path = (TABLE_ARTIFACTS, ?pk, ?sk)" by (simp add: artifact_key_def Let_def)
  have tkey: "fst (tree_entry_key H repo path) = TABLE_DIR_ENTRIES" by (simp add: tree_entry_key_def Let_def)
  have ok: "pk_ok ?pk" using repo by simp
  have tree: "wp (delete_tree_file H kv repo path) (\<lambda>r s'. r = Inr () \<and> invar s' \<and>
      view_frame ?K (view s) (view s') \<and> art_at H repo path (view s') = None) w"
    if "invar w" "view w = view_del (view s) TABLE_ARTIFACTS ?pk ?sk" for w
  proof (rule wp_mono [OF delete_tree_file_spec [OF that(1) repo path]], elim conjE, intro conjI)
    fix r s'
    assume fr: "view_frame {tree_entry_key H repo path} (view w) (view s')"
    have "view_frame ?K (view s) (view w)" unfolding that(2) by (rule view_frame_upd) (simp add: key)
    then show "view_frame ?K (view s) (view s')"
      by (rule view_frame_trans) (rule view_frame_mono [OF fr], simp)
    have "(TABLE_ARTIFACTS, ?pk, ?sk) \<notin> {tree_entry_key H repo path}" using tkey by (auto dest: arg_cong [of _ _ fst])
    from view_frameD [OF fr this] show "art_at H repo path (view s') = None" using that(2) by simp
  qed
  show ?thesis
    unfolding delete_artifact_def key prod.case
    unfolding key [symmetric]
  proof (rule wp_bindI [OF delete_returning_spec [OF inv ok]])
    fix old w
    assume "kv_write invar view s {(TABLE_ARTIFACTS, ?pk, ?sk)} (\<lambda>old v.
        old = map_option fst (art_at H repo path (view s)) \<and>
        v = view_del (view s) TABLE_ARTIFACTS ?pk ?sk) (Inr old) w"
    then have w: "invar w" "view w = view_del (view s) TABLE_ARTIFACTS ?pk ?sk"
      and old: "old = map_option fst (art_at H repo path (view s))" by auto
    show "wp (case old of Some bytes \<Rightarrow> io_bind (delete_tree_file H kv repo path) (\<lambda>_.
        io_bind (io_of_result (decode (cs_artifact C) bytes)) (\<lambda>r. io_return (Some r)))
        | None \<Rightarrow> io_return None) (\<lambda>r s'. invar s' \<and> view_frame ?K (view s) (view s') \<and>
        (\<forall>old. r = Inr old \<longrightarrow> stored (cs_artifact C) (art_at H repo path (view s)) old \<and>
          art_at H repo path (view s') = None)) w"
    proof (cases old)
      case None
      with old w show ?thesis by (auto simp: key)
    next
      case (Some bytes)
      with old obtain n where art: "art_at H repo path (view s) = Some (bytes, n)"
        by (cases "art_at H repo path (view s)") auto
      show ?thesis
        unfolding Some option.case
        by (rule wp_bindI [OF tree [OF w]]) (auto simp: wp_simps art split: sum.splits)
    qed
  qed (auto elim: view_frame_mono simp: key)
qed

lemma delete_artifacts_paired_batch_spec:
  assumes inv: "invar s" and repo: "pk_ok repo"
  shows "wp (delete_artifacts_paired_batch H kv repo paths) (\<lambda>r s'. invar s' \<and>
    (case r of
       Inl e \<Rightarrow> view_frame (artifact_key H repo ` set paths) (view s) (view s')
     | Inr _ \<Rightarrow> (\<forall>path \<in> set paths. art_at H repo path (view s') = None) \<and>
         view_frame (artifact_key H repo ` set paths \<union> tree_entry_key H repo ` set paths)
           (view s) (view s'))) s"
proof (cases "paths = []")
  case True
  with inv show ?thesis by (simp add: delete_artifacts_paired_batch_def)
next
  case False
  let ?aks = "map (\<lambda>path. snd (artifact_key H repo path)) paths"
  let ?tks = "map (\<lambda>path. snd (tree_entry_key H repo path)) paths"
  let ?A = "artifact_key H repo ` set paths" and ?T = "tree_entry_key H repo ` set paths"
  have A: "{(TABLE_ARTIFACTS, pk, sk) | pk sk. (pk, sk) \<in> set ?aks} = ?A"
    by (force simp: artifact_key_def Let_def)
  have T: "{(TABLE_DIR_ENTRIES, pk, sk) | pk sk. (pk, sk) \<in> set ?tks} = ?T"
    by (force simp: tree_entry_key_def Let_def)
  have ok: "\<forall>(pk, sk) \<in> set ?aks. pk_ok pk" "\<forall>(pk, sk) \<in> set ?tks. pk_ok pk"
    using repo by (auto simp: artifact_key_def tree_entry_key_def Let_def)
  show ?thesis
    unfolding delete_artifacts_paired_batch_def if_not_P [OF False] Let_def
  proof (rule wp_bindI [OF delete_batch_spec [OF inv ok(1)]], goal_cases)
    case (1 e w)
    then show ?case unfolding A by simp
  next
    case (2 hits w)
    then have w: "invar w" "view w = view_del_all (view s) TABLE_ARTIFACTS ?aks" by auto
    have fw: "view_frame ?A (view s) (view w)"
      unfolding view_frame_def w(2) view_del_all_apply using A by auto
    have gone: "art_at H repo path (view w) = None" if "path \<in> set paths" for path
      unfolding w(2) view_del_all_apply using that by (force simp: artifact_key_def Let_def)
    have no_tree: "(TABLE_ARTIFACTS, pk, sk) \<notin> ?T" for pk sk
      by (auto simp: tree_entry_key_def Let_def)
    show ?case
    proof (rule wp_try_bindI [OF delete_batch_frame [OF w(1) ok(2)]], goal_cases)
      case (1 r w')
      then have w': "invar w'" "view_frame ?T (view w) (view w')" unfolding T by simp_all
      have "art_at H repo path (view w') = None" if "path \<in> set paths" for path
        using gone [OF that] view_frameD [OF w'(2)] no_tree by simp
      moreover have "view_frame (?A \<union> ?T) (view s) (view w')"
        using view_frame_mono [OF fw, of "?A \<union> ?T"] view_frame_mono [OF w'(2), of "?A \<union> ?T"]
        by (auto intro: view_frame_trans)
      ultimately show ?case using w'(1) by simp
    qed
  qed
qed

lemma touch_artifact_spec:
  assumes inv: "invar s" and repo: "pk_ok repo" and path: "sk_ok path"
  shows "wp (touch_artifact H kv C repo path now)
    (kv_write invar view s {tree_entry_key H repo path} (\<lambda>_ v.
      v = view s \<or> (\<exists>b n te b'. tree_at H repo path (view s) = Some (b, n) \<and>
        decode (cs_tree C) b = Inr te \<and> 60 \<le> num_seconds (now - te_last_accessed_at te) \<and>
        encode (cs_tree C) (te\<lparr>te_last_accessed_at := now\<rparr>) = Inr b' \<and>
        v = put_tree H repo path b' (view s)))) s"
proof -
  let ?pk = "sharded_pk H repo (tree_parent (normalize_path path))"
  let ?sk = "tree_sort_key (normalize_path path)"
  have key: "tree_entry_key H repo path = (TABLE_DIR_ENTRIES, ?pk, ?sk)"
    by (simp add: tree_entry_key_def Let_def)
  have ok: "pk_ok ?pk" "sk_ok ?sk" using repo path by simp_all
  show ?thesis
    unfolding touch_artifact_def key prod.case
    unfolding key [symmetric]
  proof (rule wp_bindI [OF get_versioned_spec [OF inv ok(1)]], goal_cases)
    case (2 cur u)
    then have u: "invar u" "view u = view s" "cur = tree_at H repo path (view s)" by auto
    show ?case
    proof (cases cur)
      case None
      with u show ?thesis by simp
    next
      case (Some c)
      obtain b n where c: "c = (b, n)" by (cases c)
      have at: "tree_at H repo path (view u) = Some (b, n)" using u Some c by simp
      show ?thesis
      proof (cases "decode (cs_tree C) b")
        case (Inl e)
        then show ?thesis unfolding Some c option.case prod.case wp_bind_err [OF Inl] using u by simp
      next
        case te: (Inr te)
        let ?te = "te\<lparr>te_last_accessed_at := now\<rparr>"
        show ?thesis
        proof (cases "num_seconds (now - te_last_accessed_at te) < 60 \<or> isl (encode (cs_tree C) ?te)")
          case True
          then show ?thesis
            unfolding Some c option.case prod.case wp_bind_ok [OF te] using u
            by (auto simp: wp_simps isl_def)
        next
          case False
          then obtain b' where b': "encode (cs_tree C) ?te = Inr b'" by (auto simp: isl_def split: sum.splits) (metis sum.exhaust)
          have late: "\<not> num_seconds (now - te_last_accessed_at te) < 60" using False by blast
          show ?thesis
            unfolding Some c option.case prod.case wp_bind_ok [OF te] if_not_P [OF late] wp_bind_ok [OF b']
          proof (rule wp_bindI [OF put_if_version_spec [OF u(1) ok]], goal_cases)
            case (1 e w)
            then show ?case using u by (simp add: key)
          next
            case (2 done' w)
            then show ?case using u at te b' late by (auto simp: not_less)
          qed
        qed
      qed
    qed
  qed auto
qed

end

subsection \<open>Folds\<close>

text \<open>A fold that adds up a value per record, seen through \<open>h\<close>, and a merge that adds the sums.\<close>

definition adds :: "('a \<Rightarrow> 'm :: comm_monoid_add) \<Rightarrow> ('a \<Rightarrow> string \<Rightarrow> 'r \<Rightarrow> 'a result) \<Rightarrow> (string \<Rightarrow> 'r \<Rightarrow> 'm) \<Rightarrow> bool" where
  "adds h f g \<longleftrightarrow> (\<forall>state k r. \<exists>state'. f state k r = Inr state' \<and> h state' = h state + g k r)"

definition merges :: "('a \<Rightarrow> 'm :: comm_monoid_add) \<Rightarrow> 'a \<Rightarrow> ('a \<Rightarrow> 'a \<Rightarrow> 'a) \<Rightarrow> bool" where
  "merges h init merge \<longleftrightarrow> h init = 0 \<and> (\<forall>a b. h (merge a b) = h a + h b)"

definition decoded_sum ::
    "'r codec \<Rightarrow> (string \<Rightarrow> 'r \<Rightarrow> 'm :: comm_monoid_add) \<Rightarrow> (string \<times> bytes) list \<Rightarrow> 'm" where
  "decoded_sum c g xs = (\<Sum>(k, b) \<leftarrow> xs. g k (projr (decode c b)))"

lemma scan_fold_adds:
  "adds h f g \<Longrightarrow> scan_fold (fold_callback c f) xs acc = Inr y \<Longrightarrow> h y = h acc + decoded_sum c g xs"
proof (induction xs arbitrary: acc)
  case Nil
  then show ?case by (simp add: decoded_sum_def)
next
  case (Cons x xs)
  obtain k b where x: "x = (k, b)" by (cases x)
  have "fold_callback c f k b acc = (case decode c b of Inl e \<Rightarrow> Inl e
      | Inr r \<Rightarrow> (case f acc k r of Inl e \<Rightarrow> Inl e | Inr state \<Rightarrow> Inr (True, state)))"
    by (simp add: fold_callback_def)
  with Cons.prems(2) x obtain r state where r: "decode c b = Inr r" "f acc k r = Inr state"
    "scan_fold (fold_callback c f) xs state = Inr y"
    by (auto split: sum.splits)
  from r(2) Cons.prems(1) have "h state = h acc + g k r" unfolding adds_def by (metis sum.inject(2))
  with Cons.IH [OF Cons.prems(1) r(3)] r(1) x show ?case by (simp add: decoded_sum_def add.assoc)
qed

lemma reduce_states_merges: "merges h init merge \<Longrightarrow> h (reduce_states merge init states) = sum_list (map h states)"
proof -
  assume m: "merges h init merge"
  have "h (foldl merge x xs) = h x + sum_list (map h xs)" for x xs
    using m by (induction xs arbitrary: x) (simp_all add: merges_def add.assoc)
  with m show ?thesis by (cases states) (simp_all add: reduce_states_def merges_def)
qed

lemma list_all2_map_eq: "list_all2 (\<lambda>x y. h y = F x) xs ys \<Longrightarrow> map h ys = map F xs"
  by (induction rule: list_all2_induct) auto

lemma sum_over_shards:
  assumes "shard_order order" "list_all2 (\<lambda>x y. h y = F x) order ys"
  shows "sum_list (map h ys) = (\<Sum>x<NUM_SHARDS. F x :: 'a :: comm_monoid_add)"
  using assms(1) sum_list_distinct_conv_sum_set [of order F] list_all2_map_eq [OF assms(2)]
  by (simp add: shard_order_def)

context kv_store
begin

lemma fold_all_artifacts_spec:
  assumes inv: "invar s" and repo: "pk_ok repo" and order: "shard_order order"
    and f: "adds h f g" "merges h init merge"
  shows "wp (fold_all_artifacts kv C order repo p init f merge) (kv_read invar view s (\<lambda>a.
    h a = (\<Sum>shard<NUM_SHARDS. decoded_sum (cs_artifact C) g
      (entries_where (view s TABLE_ARTIFACTS (artifact_shard_pk repo shard)) (\<lambda>k. starts_with k p))))) s"
proof -
  have pk: "\<forall>x \<in> set order. pk_ok (artifact_shard_pk repo x)" using repo by simp
  have batch: "0 < SCAN_BATCH_SIZE" by (simp add: SCAN_BATCH_SIZE_def)
  have init: "h init = 0" using f(2) by (simp add: merges_def)
  show ?thesis
    unfolding fold_all_artifacts_def
  proof (rule wp_bindI [OF scan_partitions_spec [OF inv pk batch]], goal_cases)
    case (2 ys w)
    then have "list_all2 (\<lambda>x y. h y = decoded_sum (cs_artifact C) g
        (entries_where (view s TABLE_ARTIFACTS (artifact_shard_pk repo x)) (\<lambda>k. starts_with k p))) order ys"
      by (auto elim!: list_all2_mono dest!: scan_fold_adds [OF f(1)] simp: init)
    from sum_over_shards [OF order this] 2 show ?case by (simp add: reduce_states_merges [OF f(2)])
  qed simp
qed

end

end
