(* ===== verification/Service_Admin.thy ===== *)
theory Service_Admin
  imports Service_Artifact
begin

text \<open>
  Application metadata, stores, users, roles and tasks (\<open>core/src/service/meta.rs\<close>, \<open>store.rs\<close>,
  \<open>user.rs\<close>, \<open>task.rs\<close>). The recomputation of the store counters, \<open>reconcile_store_stats\<close>, is in
  \<open>Service_Blob\<close>.
\<close>

subsection \<open>Metadata\<close>

definition get_meta :: "'s kv \<Rightarrow> string \<Rightarrow> ('s, bytes option) io" where
  "get_meta kv key = (case meta_key key of (table, pk, sk) \<Rightarrow> kv_get kv table pk sk)"

definition put_meta :: "'s kv \<Rightarrow> string \<Rightarrow> bytes \<Rightarrow> ('s, unit) io" where
  "put_meta kv key value = (case meta_key key of (table, pk, sk) \<Rightarrow> kv_put kv table pk sk value)"

definition delete_meta :: "'s kv \<Rightarrow> string \<Rightarrow> ('s, unit) io" where
  "delete_meta kv key = (case meta_key key of (table, pk, sk) \<Rightarrow>
     io_bind (kv_delete kv table pk sk) (\<lambda>_. io_return ()))"

definition get_gc_last_started_at :: "'s kv \<Rightarrow> codecs \<Rightarrow> ('s, datetime option) io" where
  "get_gc_last_started_at kv C =
    io_bind (get_meta kv ''gc_last_started_at'') (\<lambda>v. case v of
      Some data \<Rightarrow> io_return (case cd_dec (cs_time C) data of Inr t \<Rightarrow> Some t | Inl _ \<Rightarrow> None)
    | None \<Rightarrow> io_return None)"

definition set_gc_last_started_at :: "'s kv \<Rightarrow> codecs \<Rightarrow> datetime \<Rightarrow> ('s, unit) io" where
  "set_gc_last_started_at kv C time =
    (case cd_enc (cs_time C) time of
       Inl e \<Rightarrow> io_throw (Internal (''Failed to serialize gc_last_started_at: '' @ e))
     | Inr data \<Rightarrow> put_meta kv ''gc_last_started_at'' data)"

subsection \<open>Stores\<close>

definition put_store :: "'s kv \<Rightarrow> codecs \<Rightarrow> store_record \<Rightarrow> ('s, unit) io" where
  "put_store kv C record = (case store_key (st_name record) of (table, pk, sk) \<Rightarrow>
     typed_put kv (cs_store C) table pk sk record)"

definition get_store :: "'s kv \<Rightarrow> codecs \<Rightarrow> string \<Rightarrow> ('s, store_record option) io" where
  "get_store kv C name = (case store_key name of (table, pk, sk) \<Rightarrow> typed_get kv (cs_store C) table pk sk)"

definition list_stores :: "'s kv \<Rightarrow> codecs \<Rightarrow> ('s, store_record list) io" where
  "list_stores kv C = typed_list kv (cs_store C) TABLE_STORES SINGLE_PK [] ADMIN_ENTITY_CAP"

definition delete_store :: "'s kv \<Rightarrow> string \<Rightarrow> ('s, bool) io" where
  "delete_store kv name = (case store_key name of (table, pk, sk) \<Rightarrow> kv_delete kv table pk sk)"

definition put_store_stats :: "'s kv \<Rightarrow> codecs \<Rightarrow> string \<Rightarrow> store_stats_record \<Rightarrow> ('s, unit) io" where
  "put_store_stats kv C name stats = (case store_stats_key name of (table, pk, sk) \<Rightarrow>
     typed_put kv (cs_store_stats C) table pk sk stats)"

definition get_store_stats :: "'s kv \<Rightarrow> codecs \<Rightarrow> string \<Rightarrow> ('s, store_stats_record option) io" where
  "get_store_stats kv C name = (case store_stats_key name of (table, pk, sk) \<Rightarrow>
     typed_get kv (cs_store_stats C) table pk sk)"

definition delete_store_stats :: "'s kv \<Rightarrow> string \<Rightarrow> ('s, bool) io" where
  "delete_store_stats kv name = (case store_stats_key name of (table, pk, sk) \<Rightarrow> kv_delete kv table pk sk)"

subsection \<open>Users and roles\<close>

definition put_user :: "'s kv \<Rightarrow> codecs \<Rightarrow> user_record \<Rightarrow> ('s, unit) io" where
  "put_user kv C record = (case user_key (ur_username record) of (table, pk, sk) \<Rightarrow>
     typed_put kv (cs_user C) table pk sk record)"

definition get_user :: "'s kv \<Rightarrow> codecs \<Rightarrow> string \<Rightarrow> ('s, user_record option) io" where
  "get_user kv C username = (case user_key username of (table, pk, sk) \<Rightarrow> typed_get kv (cs_user C) table pk sk)"

definition list_users :: "'s kv \<Rightarrow> codecs \<Rightarrow> ('s, user_record list) io" where
  "list_users kv C = typed_list kv (cs_user C) TABLE_USERS SINGLE_PK [] ADMIN_ENTITY_CAP"

definition delete_user :: "'s kv \<Rightarrow> string \<Rightarrow> ('s, bool) io" where
  "delete_user kv username = (case user_key username of (table, pk, sk) \<Rightarrow> kv_delete kv table pk sk)"

definition put_role :: "'s kv \<Rightarrow> codecs \<Rightarrow> role_record \<Rightarrow> ('s, unit) io" where
  "put_role kv C record = (case role_key (ro_name record) of (table, pk, sk) \<Rightarrow>
     typed_put kv (cs_role C) table pk sk record)"

definition get_role :: "'s kv \<Rightarrow> codecs \<Rightarrow> string \<Rightarrow> ('s, role_record option) io" where
  "get_role kv C name = (case role_key name of (table, pk, sk) \<Rightarrow> typed_get kv (cs_role C) table pk sk)"

definition list_roles :: "'s kv \<Rightarrow> codecs \<Rightarrow> ('s, role_record list) io" where
  "list_roles kv C = typed_list kv (cs_role C) TABLE_ROLES SINGLE_PK [] ADMIN_ENTITY_CAP"

definition delete_role :: "'s kv \<Rightarrow> string \<Rightarrow> ('s, bool) io" where
  "delete_role kv name = (case role_key name of (table, pk, sk) \<Rightarrow> kv_delete kv table pk sk)"

text \<open>A role that is missing or cannot be read is left out.\<close>

fun collect_roles :: "'s kv \<Rightarrow> codecs \<Rightarrow> string list \<Rightarrow> ('s, role_record list) io" where
  "collect_roles kv C [] = io_return []"
| "collect_roles kv C (role_name # names) =
    io_bind (io_try (get_role kv C role_name)) (\<lambda>r.
    io_bind (collect_roles kv C names) (\<lambda>roles.
    io_return (case r of Inr (Some role) \<Rightarrow> role # roles | _ \<Rightarrow> roles)))"

definition get_user_with_roles ::
    "'s kv \<Rightarrow> codecs \<Rightarrow> string \<Rightarrow> ('s, (user_record \<times> role_record list) option) io" where
  "get_user_with_roles kv C username =
    io_bind (get_user kv C username) (\<lambda>u. case u of
      None \<Rightarrow> io_return None
    | Some user \<Rightarrow> io_bind (collect_roles kv C (ur_roles user)) (\<lambda>roles. io_return (Some (user, roles))))"

subsection \<open>Tasks\<close>

definition put_task_summary :: "'s kv \<Rightarrow> codecs \<Rightarrow> task_record \<Rightarrow> ('s, unit) io" where
  "put_task_summary kv C record =
    (let rec = record\<lparr>tr_schema_version := CURRENT_RECORD_VERSION\<rparr>
     in case task_key (tr_id rec) of (table, pk, sk) \<Rightarrow> typed_put kv (cs_task C) table pk sk rec)"

definition get_task_summary :: "'s kv \<Rightarrow> codecs \<Rightarrow> string \<Rightarrow> ('s, task_record option) io" where
  "get_task_summary kv C task_id = (case task_key task_id of (table, pk, sk) \<Rightarrow>
     io_bind (kv_get kv table pk sk) (\<lambda>v. case v of
       Some bytes \<Rightarrow> io_bind (io_of_result (decode (cs_task C) bytes)) (\<lambda>r. io_return (Some r))
     | None \<Rightarrow> io_return None))"

definition get_task_summary_versioned ::
    "'s kv \<Rightarrow> codecs \<Rightarrow> string \<Rightarrow> ('s, (task_record \<times> u64) option) io" where
  "get_task_summary_versioned kv C task_id = (case task_key task_id of (table, pk, sk) \<Rightarrow>
     io_bind (kv_get_versioned kv table pk sk) (\<lambda>v. case v of
       Some (bytes, version) \<Rightarrow>
         io_bind (io_of_result (decode (cs_task C) bytes)) (\<lambda>r. io_return (Some (r, version)))
     | None \<Rightarrow> io_return None))"

definition put_task_summary_if_unchanged ::
    "'s kv \<Rightarrow> codecs \<Rightarrow> task_record \<Rightarrow> u64 \<Rightarrow> ('s, bool) io" where
  "put_task_summary_if_unchanged kv C record expected_version =
    (let rec = record\<lparr>tr_schema_version := CURRENT_RECORD_VERSION\<rparr>
     in case task_key (tr_id rec) of (table, pk, sk) \<Rightarrow>
        io_bind (io_of_result (encode_named (cs_task C) rec)) (\<lambda>bytes.
          kv_put_if_version kv table pk sk bytes (Some expected_version)))"

definition list_tasks :: "'s kv \<Rightarrow> codecs \<Rightarrow> ('s, task_record list) io" where
  "list_tasks kv C = typed_list kv (cs_task C) TABLE_TASKS SINGLE_PK [] 10000"

definition delete_task_summary :: "'s kv \<Rightarrow> string \<Rightarrow> ('s, bool) io" where
  "delete_task_summary kv task_id = (case task_key task_id of (table, pk, sk) \<Rightarrow> kv_delete kv table pk sk)"

definition task_event :: "datetime \<Rightarrow> string \<Rightarrow> u64 \<Rightarrow> string \<Rightarrow> task_event_record" where
  "task_event now task_id seq message = \<lparr>
     tev_schema_version = CURRENT_RECORD_VERSION, tev_task_id = task_id, tev_seq = seq,
     tev_timestamp = now, tev_message = message\<rparr>"

definition append_task_event ::
    "'s kv \<Rightarrow> codecs \<Rightarrow> datetime \<Rightarrow> string \<Rightarrow> u64 \<Rightarrow> string \<Rightarrow> ('s, bool) io" where
  "append_task_event kv C now task_id seq message =
    (case task_event_key task_id seq of (table, pk, sk) \<Rightarrow>
       typed_put_if_absent kv (cs_task_event C) table pk sk (task_event now task_id seq message))"

definition list_task_events_since ::
    "'s kv \<Rightarrow> codecs \<Rightarrow> string \<Rightarrow> u64 \<Rightarrow> nat \<Rightarrow> ('s, task_event_record list) io" where
  "list_task_events_since kv C task_id from_seq limit =
    io_bind (kv_scan_range kv TABLE_TASK_EVENTS (task_event_pk task_id) (seq_sk from_seq) None limit)
      (\<lambda>scan. io_of_result (decode_all (cs_task_event C) (sr_items scan)))"

definition drain_task_events :: "'s kv \<Rightarrow> string \<Rightarrow> ('s, unit) io" where
  "drain_task_events kv task_id = drain_loop kv True TABLE_TASK_EVENTS (task_event_pk task_id)"

section \<open>Specifications\<close>

lemma decode_all_map:
  "decode_all c xs = Inr rs \<longleftrightarrow> list_all2 (\<lambda>(_, b) r. decode c b = Inr r) xs rs"
proof (induction xs arbitrary: rs)
  case Nil
  then show ?case by auto
next
  case (Cons x xs)
  obtain k b where x: "x = (k, b)" by (cases x)
  show ?case
    by (cases rs) (auto simp: x Cons.IH [symmetric] split: sum.splits)
qed

lemma stored_None: "stored c v r \<Longrightarrow> v = None \<longleftrightarrow> r = None"
  by (auto simp: stored_def split: option.splits)

text \<open>The event log of a task: its partition holds the event of each sequence number, and nothing else.\<close>

definition event_log :: "codecs \<Rightarrow> string \<Rightarrow> kv_view \<Rightarrow> (u64 \<Rightarrow> task_event_record option) \<Rightarrow> bool" where
  "event_log C task_id v log \<longleftrightarrow>
     (\<forall>sk. v TABLE_TASK_EVENTS task_id sk \<noteq> None \<longrightarrow> (\<exists>n. sk = seq_sk n)) \<and>
     (\<forall>n. stored (cs_task_event C) (v TABLE_TASK_EVENTS task_id (seq_sk n)) (log n))"

lemma event_log_None: "event_log C task_id v log \<Longrightarrow>
    v TABLE_TASK_EVENTS task_id (seq_sk n) = None \<longleftrightarrow> log n = None"
  unfolding event_log_def by (blast dest: stored_None)

lemma event_log_put:
  assumes "event_log C task_id v log" "codec_ok (cs_task_event C)"
    and "encode_named (cs_task_event C) ev = Inr b"
  shows "event_log C task_id (view_put v TABLE_TASK_EVENTS task_id (seq_sk n) b) (log(n \<mapsto> ev))"
  using assms by (auto simp: event_log_def seq_sk_inject stored_encode decode_encode)

lemma sorted_map_seq_sk:
  assumes "finite (S :: u64 set)"
  shows "sorted_list_of_set (seq_sk ` S) = map seq_sk (sorted_list_of_set S)"
proof (rule strict_sorted_equal)
  show "sorted_wrt (<) (map seq_sk (sorted_list_of_set S))"
    by (simp add: sorted_wrt_map seq_sk_less)
  show "sorted_wrt (<) (sorted_list_of_set (seq_sk ` S))" by simp
  show "set (sorted_list_of_set (seq_sk ` S)) = set (map seq_sk (sorted_list_of_set S))"
    using assms by simp
qed

lemma seq_sk_le: "seq_sk a \<le> seq_sk b \<longleftrightarrow> a \<le> b"
  using seq_sk_less [of b a] by (simp add: not_less [symmetric])

lemma event_log_scan:
  assumes log: "event_log C task_id v log"
    and dec: "decode_all (cs_task_event C) (take limit
      (entries_where (v TABLE_TASK_EVENTS task_id) (in_range (seq_sk from) None))) = Inr evs"
  shows "evs = map (\<lambda>n. the (log n)) (take limit (sorted_list_of_set {n. from \<le> n \<and> log n \<noteq> None}))"
proof -
  let ?m = "v TABLE_TASK_EVENTS task_id" and ?S = "{n. from \<le> n \<and> log n \<noteq> None}"
  have some: "?m (seq_sk n) \<noteq> None \<longleftrightarrow> log n \<noteq> None" for n
    using event_log_None [OF log] by simp
  have "{k \<in> dom ?m. in_range (seq_sk from) None k} = seq_sk ` ?S"
  proof (intro set_eqI iffI)
    fix k assume k: "k \<in> {k \<in> dom ?m. in_range (seq_sk from) None k}"
    then obtain n where n: "k = seq_sk n" using log unfolding event_log_def by blast
    with k some have "n \<in> ?S" by (auto simp: in_range_def seq_sk_le)
    with n show "k \<in> seq_sk ` ?S" by blast
  qed (use some in \<open>auto simp: in_range_def seq_sk_le\<close>)
  then have ents: "entries_where ?m (in_range (seq_sk from) None) =
      map (\<lambda>n. (seq_sk n, fst (the (?m (seq_sk n))))) (sorted_list_of_set ?S)"
    unfolding entries_where_def by (simp add: sorted_map_seq_sk comp_def)
  have dec_n: "decode (cs_task_event C) (fst (the (?m (seq_sk n)))) = Inr (the (log n))" if "n \<in> ?S" for n
  proof -
    have "stored (cs_task_event C) (?m (seq_sk n)) (log n)" using log unfolding event_log_def by blast
    with that show ?thesis unfolding stored_def by (auto split: option.splits)
  qed
  let ?ns = "take limit (sorted_list_of_set ?S)"
  have all2: "list_all2 (\<lambda>(_, b) r. decode (cs_task_event C) b = Inr r)
      (map (\<lambda>n. (seq_sk n, fst (the (?m (seq_sk n))))) ?ns) evs"
    using dec unfolding decode_all_map ents take_map .
  then have len: "length evs = length ?ns" by (simp add: list_all2_lengthD [symmetric])
  show ?thesis
  proof (rule nth_equalityI)
    show "length evs = length (map (\<lambda>n. the (log n)) ?ns)" using len by simp
    fix i assume "i < length evs"
    then have i: "i < length ?ns" using len by simp
    have "?ns ! i \<in> ?S" using in_set_takeD [OF nth_mem [OF i]] by simp
    with list_all2_nthD [OF all2, of i] i dec_n show "evs ! i = map (\<lambda>n. the (log n)) ?ns ! i"
      by simp
  qed
qed

context kv_store
begin

lemma append_task_event_spec:
  assumes inv: "invar s" and id: "pk_ok task_id" and codec: "codec_ok (cs_task_event C)"
    and log: "event_log C task_id (view s) log"
  shows "wp (append_task_event kv C now task_id seq message)
    (kv_write invar view s {task_event_key task_id seq} (\<lambda>ok v.
      ok = (log seq = None) \<and>
      event_log C task_id v (if ok then log(seq \<mapsto> task_event now task_id seq message) else log))) s"
proof -
  note none = event_log_None [OF log, of seq]
  show ?thesis
    unfolding append_task_event_def task_event_key_def prod.case
  proof (rule wp_mono [OF typed_put_if_absent_spec [OF inv id sk_ok_seq_sk]], goal_cases)
    case (1 r s')
    show ?case
    proof (cases r)
      case (Inl e)
      with 1 show ?thesis by simp
    next
      case (Inr ok)
      with 1 obtain b where b: "encode_named (cs_task_event C) (task_event now task_id seq message) = Inr b"
        "ok = (log seq = None)" "view s' = (if ok
           then view_put (view s) TABLE_TASK_EVENTS task_id (seq_sk seq) b else view s)" "invar s'"
        using none by auto
      then show ?thesis using Inr log event_log_put [OF log codec b(1), of seq] by (cases ok) simp_all
    qed
  qed
qed

lemma list_task_events_since_spec:
  assumes "invar s" "pk_ok task_id" "event_log C task_id (view s) log"
  shows "wp (list_task_events_since kv C task_id from_seq limit) (kv_read invar view s (\<lambda>evs.
    evs = map (\<lambda>n. the (log n)) (take limit (sorted_list_of_set {n. from_seq \<le> n \<and> log n \<noteq> None})))) s"
  unfolding list_task_events_since_def task_event_pk_def
proof (rule wp_bindI [OF scan_range_spec [OF assms(1,2)]], goal_cases)
  case (2 res s')
  then show ?case using event_log_scan [OF assms(3)] by (auto simp: kv_read_def)
qed simp

lemma drain_task_events_spec:
  assumes "invar s" "pk_ok task_id"
  shows "wp (drain_task_events kv task_id) (\<lambda>r s'. invar s' \<and>
    view_frame {(TABLE_TASK_EVENTS, task_id, sk) | sk. True} (view s) (view s') \<and>
    (r = Inr () \<longrightarrow> event_log C task_id (view s') (\<lambda>_. None))) s"
  unfolding drain_task_events_def task_event_pk_def
  by (rule wp_mono [OF drain_loop_spec [OF assms(2,1)]]) (auto simp: event_log_def)

lemma collect_roles_spec:
  "invar s \<Longrightarrow> wp (collect_roles kv C names) (kv_read invar view s (\<lambda>roles.
    \<forall>role \<in> set roles. \<exists>name \<in> set names.
      stored (cs_role C) (view s TABLE_ROLES SINGLE_PK name) (Some role))) s"
proof (induction names arbitrary: s)
  case (Cons name names)
  show ?case
    unfolding collect_roles.simps get_role_def role_key_def prod.case
  proof (rule wp_try_bindI [OF typed_get_spec [OF Cons.prems pk_ok_single]], goal_cases)
    case (1 r s1)
    then have s1: "invar s1" "view s1 = view s"
      and r: "\<And>x. r = Inr x \<Longrightarrow> stored (cs_role C) (view s TABLE_ROLES SINGLE_PK name) x"
      by (auto simp: kv_read_def)
    show ?case
    proof (rule wp_bindI [OF Cons.IH [OF s1(1)]], goal_cases)
      case (2 roles s2)
      then show ?case using s1 r by (auto split: sum.splits option.splits)
    qed (use s1 in simp)
  qed
qed simp

lemma get_user_with_roles_spec:
  assumes "invar s"
  shows "wp (get_user_with_roles kv C username) (kv_read invar view s (\<lambda>r. case r of
      None \<Rightarrow> view s TABLE_USERS SINGLE_PK username = None
    | Some (user, roles) \<Rightarrow> stored (cs_user C) (view s TABLE_USERS SINGLE_PK username) (Some user) \<and>
        (\<forall>role \<in> set roles. \<exists>name \<in> set (ur_roles user).
          stored (cs_role C) (view s TABLE_ROLES SINGLE_PK name) (Some role)))) s"
  unfolding get_user_with_roles_def get_user_def user_key_def prod.case
proof (rule wp_bindI [OF typed_get_spec [OF assms pk_ok_single]], goal_cases)
  case (2 u s1)
  then have s1: "invar s1" "view s1 = view s" "stored (cs_user C) (view s TABLE_USERS SINGLE_PK username) u"
    by auto
  show ?case
  proof (cases u)
    case None
    with s1 show ?thesis by (auto simp: stored_def split: option.splits)
  next
    case (Some user)
    show ?thesis
      unfolding Some option.case
      by (rule wp_bindI [OF collect_roles_spec [OF s1(1)]]) (use s1 Some in auto)
  qed
qed simp

end

end
