(* ===== verification/Update_Channel.thy ===== *)
theory Update_Channel
  imports Depot_Io Depot_Keys
begin

text \<open>
  The events of the background update worker and the sending side (\<open>core/src/update.rs\<close>). The
  state a service function runs on is a \<open>world\<close>: the key-value backend, the blob store, and the
  channels' queues. Sending to a dir or store channel waits while the channel is full, so the model
  appends; once the receiver is gone the event is dropped. The atime channel drops when it is full.
\<close>

record dir_delta =
  dd_repo :: string
  dd_pk :: string
  dd_dir_path :: string
  dd_count_delta :: i64
  dd_bytes_delta :: i64
  dd_timestamp :: datetime

record store_delta =
  sd_store :: string
  sd_count_delta :: i64
  sd_bytes_delta :: i64

record atime_event =
  ae_repo :: string
  ae_path :: string
  ae_timestamp :: datetime

record ('s, 'b) world =
  w_kv :: 's
  w_blobs :: 'b
  w_open :: bool
  w_atime_capacity :: nat
  w_dir :: "dir_delta list"
  w_store :: "store_delta list"
  w_atime :: "atime_event list"

definition on_kv :: "('s, 'a) io \<Rightarrow> (('s, 'b) world, 'a) io" where
  "on_kv m = (\<lambda>w. case m (w_kv w) of None \<Rightarrow> None | Some (r, s') \<Rightarrow> Some (r, w\<lparr>w_kv := s'\<rparr>))"

definition on_blobs :: "('b, 'a) io \<Rightarrow> (('s, 'b) world, 'a) io" where
  "on_blobs m = (\<lambda>w. case m (w_blobs w) of None \<Rightarrow> None | Some (r, b') \<Rightarrow> Some (r, w\<lparr>w_blobs := b'\<rparr>))"

definition touch :: "string \<Rightarrow> string \<Rightarrow> datetime \<Rightarrow> (('s, 'b) world, unit) io" where
  "touch repo path now = (\<lambda>w. Some (Inr (),
     if w_open w \<and> length (w_atime w) < w_atime_capacity w
     then w\<lparr>w_atime := w_atime w @ [\<lparr>ae_repo = repo, ae_path = path, ae_timestamp = now\<rparr>]\<rparr> else w))"

definition store_changed :: "string \<Rightarrow> i64 \<Rightarrow> i64 \<Rightarrow> (('s, 'b) world, unit) io" where
  "store_changed store count_delta bytes_delta = (\<lambda>w. Some (Inr (),
     if w_open w
     then w\<lparr>w_store := w_store w @
       [\<lparr>sd_store = store, sd_count_delta = count_delta, sd_bytes_delta = bytes_delta\<rparr>]\<rparr> else w))"

definition dir_changed ::
    "hasher \<Rightarrow> datetime \<Rightarrow> string \<Rightarrow> string \<Rightarrow> i64 \<Rightarrow> i64 \<Rightarrow> (('s, 'b) world, unit) io" where
  "dir_changed H now repo path count_delta bytes_delta = (\<lambda>w.
    let clean = normalize_path path;
        dir_path = parent_dir clean;
        pk = sharded_pk H repo (tree_parent dir_path)
    in Some (Inr (),
      if w_open w
      then w\<lparr>w_dir := w_dir w @ [\<lparr>dd_repo = repo, dd_pk = pk, dd_dir_path = dir_path,
        dd_count_delta = count_delta, dd_bytes_delta = bytes_delta, dd_timestamp = now\<rparr>]\<rparr> else w))"

lemma wp_on_kv: "wp (on_kv m) Q w \<longleftrightarrow> wp m (\<lambda>r s'. Q r (w\<lparr>w_kv := s'\<rparr>)) (w_kv w)"
  by (auto simp: wp_def on_kv_def split: option.splits)

lemma wp_on_blobs: "wp (on_blobs m) Q w \<longleftrightarrow> wp m (\<lambda>r b'. Q r (w\<lparr>w_blobs := b'\<rparr>)) (w_blobs w)"
  by (auto simp: wp_def on_blobs_def split: option.splits)

lemma wp_store_changed:
  "wp (store_changed store c b) Q w \<longleftrightarrow> Q (Inr ()) (if w_open w
     then w\<lparr>w_store := w_store w @ [\<lparr>sd_store = store, sd_count_delta = c, sd_bytes_delta = b\<rparr>]\<rparr> else w)"
  by (simp add: wp_def store_changed_def)

end
