(* ===== verification/Service_Blob.thy ===== *)
theory Service_Blob
  imports Service_Admin Update_Channel "HOL-Library.Multiset"
begin

text \<open>
  Blob records and content deduplication (\<open>core/src/service/blob.rs\<close>), the recomputation of the
  store counters (\<open>reconcile_store_stats\<close> of \<open>store.rs\<close>) and upload sessions (\<open>upload.rs\<close>).

  A blob store is behind the trait \<open>BlobStore\<close>: its \<open>delete\<close> is the argument \<open>blob_delete\<close>, a
  computation on the blob part of the world. In \<open>put_dedup_record\<close> other tasks may run between the
  failed insert and the read (\<open>env\<close>). \<open>perm\<close> is the order in which concurrent scans finish.
\<close>

subsection \<open>Records\<close>

definition put_blob :: "hasher \<Rightarrow> 's kv \<Rightarrow> codecs \<Rightarrow> string \<Rightarrow> blob_record \<Rightarrow> ('s, unit) io" where
  "put_blob H kv C store record =
    (let rec = record\<lparr>br_store := store\<rparr>
     in case blob_key H store (br_hash rec) of (table, pk, sk) \<Rightarrow> typed_put kv (cs_blob C) table pk sk rec)"

definition get_blob :: "hasher \<Rightarrow> 's kv \<Rightarrow> codecs \<Rightarrow> string \<Rightarrow> string \<Rightarrow> ('s, blob_record option) io" where
  "get_blob H kv C store hash =
    (case blob_key H store hash of (table, pk, sk) \<Rightarrow> typed_get kv (cs_blob C) table pk sk)"

definition put_dedup_record ::
    "hasher \<Rightarrow> 's kv \<Rightarrow> codecs \<Rightarrow> ('s \<Rightarrow> 's) \<Rightarrow> string \<Rightarrow> blob_record \<Rightarrow> ('s, string option) io" where
  "put_dedup_record H kv C env store record =
    (let rec = record\<lparr>br_store := store\<rparr>
     in case blob_key H store (br_hash rec) of (table, pk, sk) \<Rightarrow>
        io_bind (io_of_result (encode (cs_blob C) rec)) (\<lambda>bytes.
        io_bind (kv_put_if_absent kv table pk sk bytes) (\<lambda>won.
        if won then io_return None
        else io_bind (interfere (\<lambda>_. env) 0) (\<lambda>_.
          io_bind (typed_get kv (cs_blob C) table pk sk) (\<lambda>existing. case existing of
            Some existing_rec \<Rightarrow> io_return (Some (br_blob_id existing_rec))
          | None \<Rightarrow> io_bind (kv_put kv table pk sk bytes) (\<lambda>_. io_return None))))))"

text \<open>What the claiming functions do with the answer: drop our duplicate, use the existing id.\<close>

definition reuse_or_keep ::
    "(string \<Rightarrow> ('b, unit) io) \<Rightarrow> blob_record \<Rightarrow> string option \<Rightarrow> (('s, 'b) world, string) io" where
  "reuse_or_keep blob_delete record answer =
    (case answer of
       Some existing_blob_id \<Rightarrow>
         if existing_blob_id \<noteq> br_blob_id record
         then io_bind (io_try (on_blobs (blob_delete (br_blob_id record)))) (\<lambda>_. io_return existing_blob_id)
         else io_return (br_blob_id record)
     | None \<Rightarrow> io_return (br_blob_id record))"

definition claim_or_reuse_blob ::
    "hasher \<Rightarrow> 's kv \<Rightarrow> codecs \<Rightarrow> ('s \<Rightarrow> 's) \<Rightarrow> (string \<Rightarrow> ('b, unit) io) \<Rightarrow> string \<Rightarrow> blob_record \<Rightarrow>
     (('s, 'b) world, string) io" where
  "claim_or_reuse_blob H kv C env blob_delete store record =
    io_bind (on_kv (put_dedup_record H kv C env store record)) (reuse_or_keep blob_delete record)"

definition delete_blob :: "hasher \<Rightarrow> 's kv \<Rightarrow> string \<Rightarrow> string \<Rightarrow> ('s, bool) io" where
  "delete_blob H kv store hash = (case blob_key H store hash of (table, pk, sk) \<Rightarrow> kv_delete kv table pk sk)"

definition delete_blob_counted ::
    "hasher \<Rightarrow> 's kv \<Rightarrow> codecs \<Rightarrow> string \<Rightarrow> string \<Rightarrow> (('s, 'b) world, bool) io" where
  "delete_blob_counted H kv C store hash =
    io_bind (on_kv (get_blob H kv C store hash)) (\<lambda>r.
      let size = map_option br_size r
      in io_bind (on_kv (delete_blob H kv store hash)) (\<lambda>deleted.
         if deleted
         then (case size of
             Some sz \<Rightarrow> io_bind (store_changed store (- 1) (- sz)) (\<lambda>_. io_return deleted)
           | None \<Rightarrow> io_return deleted)
         else io_return deleted))"

definition put_dedup_record_counted ::
    "hasher \<Rightarrow> 's kv \<Rightarrow> codecs \<Rightarrow> ('s \<Rightarrow> 's) \<Rightarrow> string \<Rightarrow> blob_record \<Rightarrow> (('s, 'b) world, string option) io" where
  "put_dedup_record_counted H kv C env store record =
    io_bind (on_kv (put_dedup_record H kv C env store record)) (\<lambda>existing.
      if existing = None then io_bind (store_changed store 1 (br_size record)) (\<lambda>_. io_return existing)
      else io_return existing)"

definition claim_or_reuse_blob_counted ::
    "hasher \<Rightarrow> 's kv \<Rightarrow> codecs \<Rightarrow> ('s \<Rightarrow> 's) \<Rightarrow> (string \<Rightarrow> ('b, unit) io) \<Rightarrow> string \<Rightarrow> blob_record \<Rightarrow>
     (('s, 'b) world, string) io" where
  "claim_or_reuse_blob_counted H kv C env blob_delete store record =
    io_bind (put_dedup_record_counted H kv C env store record) (reuse_or_keep blob_delete record)"

subsection \<open>Folds and listings\<close>

definition fold_all_blobs ::
    "'s kv \<Rightarrow> codecs \<Rightarrow> (string list \<Rightarrow> string list) \<Rightarrow> 'a \<Rightarrow> ('a \<Rightarrow> blob_record \<Rightarrow> 'a result) \<Rightarrow>
     ('a \<Rightarrow> 'a \<Rightarrow> 'a) \<Rightarrow> ('s, 'a) io" where
  "fold_all_blobs kv C perm init f merge =
    io_bind (list_stores kv C) (\<lambda>stores.
      let pks = concat (map (\<lambda>s. map (blob_shard_pk (st_name s)) [0..<NUM_SHARDS]) stores)
      in io_bind (io_map (\<lambda>pk. for_each_in_partition kv TABLE_BLOBS pk [] SCAN_BATCH_SIZE
             (fold_callback (cs_blob C) (\<lambda>state _ rec. f state rec)) init) (perm pks))
           (\<lambda>shard_states. io_return (reduce_states merge init shard_states)))"

definition push_record :: "'r list \<Rightarrow> string \<Rightarrow> 'r \<Rightarrow> 'r list result" where
  "push_record blobs sk record = Inr (blobs @ [record])"

definition list_blobs_for_store ::
    "'s kv \<Rightarrow> codecs \<Rightarrow> nat list \<Rightarrow> string \<Rightarrow> nat \<Rightarrow> nat \<Rightarrow> ('s, blob_record list \<times> nat) io" where
  "list_blobs_for_store kv C order store offset limit =
    io_bind (io_map (\<lambda>shard. for_each_in_partition kv TABLE_BLOBS (blob_shard_pk store shard) [] SCAN_BATCH_SIZE
        (fold_callback (cs_blob C) push_record) []) order) (\<lambda>shard_vecs.
      let all = sort_key br_hash (concat shard_vecs)
      in io_return (take limit (drop offset all), length all))"

definition count_blobs_for_store :: "'s kv \<Rightarrow> nat list \<Rightarrow> string \<Rightarrow> ('s, nat) io" where
  "count_blobs_for_store kv order store =
    io_bind (io_map (\<lambda>shard. for_each_in_partition kv TABLE_BLOBS (blob_shard_pk store shard) [] SCAN_BATCH_SIZE
        (\<lambda>_ _ count. Inr (True, count + 1)) (0 :: nat)) order) (\<lambda>counts. io_return (sum_list counts))"

text \<open>\<open>HashMap<String, (u64, u64)>\<close>: the tallies per store.\<close>

definition tally :: "(string \<rightharpoonup> u64 \<times> u64) \<Rightarrow> string \<Rightarrow> u64 \<times> u64" where
  "tally m store = (case m store of Some e \<Rightarrow> e | None \<Rightarrow> (0, 0))"

definition tally_fold :: "(string \<rightharpoonup> u64 \<times> u64) \<Rightarrow> blob_record \<Rightarrow> (string \<rightharpoonup> u64 \<times> u64) result" where
  "tally_fold acc rec = Inr (acc(br_store rec \<mapsto>
     (fst (tally acc (br_store rec)) + 1, snd (tally acc (br_store rec)) + br_size rec)))"

definition tally_merge ::
    "(string \<rightharpoonup> u64 \<times> u64) \<Rightarrow> (string \<rightharpoonup> u64 \<times> u64) \<Rightarrow> (string \<rightharpoonup> u64 \<times> u64)" where
  "tally_merge a b = (\<lambda>store. case b store of None \<Rightarrow> a store
     | Some (c, bytes) \<Rightarrow> Some (fst (tally a store) + c, snd (tally a store) + bytes))"

fun write_store_stats ::
    "'s kv \<Rightarrow> codecs \<Rightarrow> datetime \<Rightarrow> (string \<rightharpoonup> u64 \<times> u64) \<Rightarrow> store_record list \<Rightarrow>
     ('s, (string \<times> store_stats_record) list) io" where
  "write_store_stats kv C now tallies [] = io_return []"
| "write_store_stats kv C now tallies (store # stores) =
    (let stats = \<lparr>ss_blob_count = fst (tally tallies (st_name store)),
                  ss_total_bytes = snd (tally tallies (st_name store)), ss_updated_at = now\<rparr>
     in io_bind (put_store_stats kv C (st_name store) stats) (\<lambda>_.
        io_bind (write_store_stats kv C now tallies stores) (\<lambda>out.
        io_return ((st_name store, stats) # out))))"

definition reconcile_store_stats ::
    "'s kv \<Rightarrow> codecs \<Rightarrow> (string list \<Rightarrow> string list) \<Rightarrow> datetime \<Rightarrow>
     ('s, (string \<times> store_stats_record) list) io" where
  "reconcile_store_stats kv C perm now =
    io_bind (fold_all_blobs kv C perm Map.empty tally_fold tally_merge) (\<lambda>tallies.
    io_bind (list_stores kv C) (\<lambda>stores. write_store_stats kv C now tallies stores))"

subsection \<open>Upload sessions\<close>

definition put_upload_session :: "'s kv \<Rightarrow> codecs \<Rightarrow> upload_session_record \<Rightarrow> ('s, unit) io" where
  "put_upload_session kv C record = (case upload_session_key (us_uuid record) of (table, pk, sk) \<Rightarrow>
     typed_put kv (cs_upload C) table pk sk record)"

definition get_upload_session :: "'s kv \<Rightarrow> codecs \<Rightarrow> string \<Rightarrow> ('s, upload_session_record option) io" where
  "get_upload_session kv C uuid = (case upload_session_key uuid of (table, pk, sk) \<Rightarrow>
     typed_get kv (cs_upload C) table pk sk)"

definition get_upload_session_versioned ::
    "'s kv \<Rightarrow> codecs \<Rightarrow> string \<Rightarrow> ('s, (upload_session_record \<times> u64) option) io" where
  "get_upload_session_versioned kv C uuid = (case upload_session_key uuid of (table, pk, sk) \<Rightarrow>
     typed_get_versioned kv (cs_upload C) table pk sk)"

definition put_upload_session_if_version ::
    "'s kv \<Rightarrow> codecs \<Rightarrow> upload_session_record \<Rightarrow> u64 \<Rightarrow> ('s, bool) io" where
  "put_upload_session_if_version kv C record expected_version =
    (case upload_session_key (us_uuid record) of (table, pk, sk) \<Rightarrow>
       io_bind (io_of_result (encode (cs_upload C) record)) (\<lambda>bytes.
         kv_put_if_version kv table pk sk bytes (Some expected_version)))"

definition delete_upload_session :: "'s kv \<Rightarrow> string \<Rightarrow> ('s, unit) io" where
  "delete_upload_session kv uuid = (case upload_session_key uuid of (table, pk, sk) \<Rightarrow>
     io_bind (kv_delete kv table pk sk) (\<lambda>_. io_return ()))"

definition list_upload_sessions :: "'s kv \<Rightarrow> codecs \<Rightarrow> ('s, upload_session_record list) io" where
  "list_upload_sessions kv C = typed_list kv (cs_upload C) TABLE_UPLOAD_SESSIONS SINGLE_PK [] ADMIN_ENTITY_CAP"

text \<open>
  The clean-up. \<open>registry\<close> is \<open>StoreRegistry::get\<close>: whether a store of this name is registered,
  and then its \<open>delete\<close>; errors of \<open>delete\<close> are ignored.
\<close>

definition delete_session_blobs ::
    "(string \<Rightarrow> (string \<Rightarrow> ('b, unit) io) option) \<Rightarrow> upload_session_record \<Rightarrow> (('s, 'b) world, unit) io" where
  "delete_session_blobs registry session =
    (case registry (us_store session) of
       None \<Rightarrow> io_return ()
     | Some blob_delete \<Rightarrow>
        io_for (us_chunk_blob_ids session @ [us_blob_id session])
          (\<lambda>blob. io_bind (io_try (on_blobs (blob_delete blob))) (\<lambda>_. io_return ())))"

definition cleanup_upload_sessions ::
    "'s kv \<Rightarrow> codecs \<Rightarrow> (string \<Rightarrow> (string \<Rightarrow> ('b, unit) io) option) \<Rightarrow> datetime \<Rightarrow> int \<Rightarrow>
     (('s, 'b) world, nat) io" where
  "cleanup_upload_sessions kv C registry now max_age =
    io_bind (on_kv (list_upload_sessions kv C)) (\<lambda>sessions.
      let cutoff = now - max_age;
          expired = filter (\<lambda>s. us_updated_at s < cutoff) sessions;
          del_keys = map (\<lambda>s. snd (upload_session_key (us_uuid s))) expired
      in io_bind (io_for expired (delete_session_blobs registry)) (\<lambda>_.
         if del_keys \<noteq> []
         then io_bind (on_kv (kv_delete_batch kv TABLE_UPLOAD_SESSIONS del_keys)) (\<lambda>_. io_return (length expired))
         else io_return (length expired)))"

section \<open>Deduplication\<close>

abbreviation blob_at :: "hasher \<Rightarrow> string \<Rightarrow> string \<Rightarrow> kv_view \<Rightarrow> (bytes \<times> u64) option" where
  "blob_at H store hash v \<equiv> v TABLE_BLOBS (sharded_pk H store hash) hash"

text \<open>The id the caller is told to use: its own when the answer is \<open>None\<close>.\<close>

definition answer_id :: "blob_record \<Rightarrow> string option \<Rightarrow> string" where
  "answer_id record answer = (case answer of None \<Rightarrow> br_blob_id record | Some i \<Rightarrow> i)"

text \<open>The hash is mapped to a record with this id.\<close>

definition hash_claimed ::
    "hasher \<Rightarrow> codecs \<Rightarrow> string \<Rightarrow> string \<Rightarrow> string \<Rightarrow> kv_view \<Rightarrow> bool" where
  "hash_claimed H C store hash blob_id v \<longleftrightarrow>
     (\<exists>x. stored (cs_blob C) (blob_at H store hash v) (Some x) \<and> br_blob_id x = blob_id)"

lemma hash_claimed_put:
  assumes "codec_ok (cs_blob C)" "encode (cs_blob C) (record\<lparr>br_store := store\<rparr>) = Inr b"
    and "blob_at H store hash v = Some (b, n)"
  shows "hash_claimed H C store hash (br_blob_id record) v"
  using assms by (auto simp: hash_claimed_def stored_def decode_encode)

lemma put_dedup_record_unfold:
  "put_dedup_record H kv C env store record =
    io_bind (io_of_result (encode (cs_blob C) (record\<lparr>br_store := store\<rparr>))) (\<lambda>bytes.
    io_bind (kv_put_if_absent kv TABLE_BLOBS (sharded_pk H store (br_hash record)) (br_hash record) bytes)
      (\<lambda>won. if won then io_return None
        else io_bind (interfere (\<lambda>_. env) 0) (\<lambda>_.
          io_bind (typed_get kv (cs_blob C) TABLE_BLOBS (sharded_pk H store (br_hash record)) (br_hash record))
            (\<lambda>existing. case existing of
              Some existing_rec \<Rightarrow> io_return (Some (br_blob_id existing_rec))
            | None \<Rightarrow> io_bind (kv_put kv TABLE_BLOBS (sharded_pk H store (br_hash record)) (br_hash record) bytes)
                (\<lambda>_. io_return None)))))"
proof -
  have h: "br_hash (record\<lparr>br_store := store\<rparr>) = br_hash record" by simp
  show ?thesis unfolding put_dedup_record_def Let_def blob_key_def prod.case h ..
qed

context kv_store
begin

lemma put_dedup_record_spec:
  assumes inv: "invar s" and ok: "pk_ok store" "sk_ok (br_hash record)"
    and codec: "codec_ok (cs_blob C)" and env: "\<And>s. invar s \<Longrightarrow> invar (env s)"
  shows "wp (put_dedup_record H kv C env store record) (\<lambda>r s'. invar s' \<and>
    (\<forall>ans. r = Inr ans \<longrightarrow> hash_claimed H C store (br_hash record) (answer_id record ans) (view s'))) s"
proof (cases "encode (cs_blob C) (record\<lparr>br_store := store\<rparr>)")
  case (Inl e)
  with inv show ?thesis by (simp add: put_dedup_record_unfold wp_simps)
next
  case (Inr b)
  let ?pk = "sharded_pk H store (br_hash record)" and ?sk = "br_hash record"
  have pk: "pk_ok ?pk" using ok by simp
  note claimed = hash_claimed_put [OF codec Inr, where H = H and hash = "br_hash record"]
  show ?thesis
    unfolding put_dedup_record_unfold wp_bind_ok [OF Inr]
  proof (rule wp_bindI [OF put_if_absent_spec [OF inv pk ok(2)]], goal_cases)
    case (2 won s1)
    show ?case
    proof (cases won)
      case True
      with 2 show ?thesis by (auto simp: answer_id_def intro: claimed)
    next
      case False
      have s2: "invar (env s1)" using 2 env by simp
      show ?thesis
        unfolding if_not_P [OF False] wp_bind [of "interfere _ _"] wp_interfere sum.case
      proof (rule wp_bindI [OF typed_get_spec [OF s2 pk]], goal_cases)
        case (2 existing s3)
        then have s3: "invar s3" "stored (cs_blob C) (blob_at H store (br_hash record) (view s3)) existing" by auto
        show ?case
        proof (cases existing)
          case None
          show ?thesis
            unfolding None option.case
            by (rule wp_bindI [OF put_spec [OF s3(1) pk ok(2)]]) (auto simp: answer_id_def intro: claimed)
        next
          case (Some x)
          with s3 show ?thesis by (auto simp: answer_id_def hash_claimed_def)
        qed
      qed simp
    qed
  qed simp
qed

text \<open>Without interference a record is created exactly when the hash was not claimed.\<close>

lemma put_dedup_record_seq:
  assumes inv: "invar s" and ok: "pk_ok store" "sk_ok (br_hash record)"
  shows "wp (put_dedup_record H kv C (\<lambda>s. s) store record)
    (kv_write invar view s {blob_key H store (br_hash record)} (\<lambda>ans v.
      (ans = None \<longleftrightarrow> blob_at H store (br_hash record) (view s) = None) \<and>
      (if ans = None then \<exists>b. encode (cs_blob C) (record\<lparr>br_store := store\<rparr>) = Inr b \<and>
         v = view_put (view s) TABLE_BLOBS (sharded_pk H store (br_hash record)) (br_hash record) b
       else v = view s))) s"
proof (cases "encode (cs_blob C) (record\<lparr>br_store := store\<rparr>)")
  case (Inl e)
  with inv show ?thesis by (simp add: put_dedup_record_unfold wp_simps)
next
  case (Inr b)
  let ?pk = "sharded_pk H store (br_hash record)" and ?sk = "br_hash record"
  have pk: "pk_ok ?pk" using ok by simp
  show ?thesis
    unfolding put_dedup_record_unfold wp_bind_ok [OF Inr] blob_key_def
  proof (rule wp_bindI [OF put_if_absent_spec [OF inv pk ok(2)]], goal_cases)
    case (2 won s1)
    show ?case
    proof (cases won)
      case True
      with 2 Inr show ?thesis by auto
    next
      case False
      with 2 have s1: "invar s1" "view s1 = view s" "blob_at H store ?sk (view s) \<noteq> None" by auto
      show ?thesis
        unfolding if_not_P [OF False] wp_bind [of "interfere _ _"] wp_interfere sum.case
        by (rule wp_bindI [OF typed_get_spec [OF s1(1) pk]])
          (use s1 in \<open>auto split: option.splits dest: stored_None\<close>)
    qed
  qed simp
qed

lemma put_dedup_record_counted_spec:
  assumes inv: "invar (w_kv w)" and ok: "pk_ok store" "sk_ok (br_hash record)"
    and codec: "codec_ok (cs_blob C)" and run: "w_open w"
  shows "wp (put_dedup_record_counted H kv C (\<lambda>s. s) store record) (\<lambda>r w'. invar (w_kv w') \<and>
    w_blobs w' = w_blobs w \<and>
    (case r of Inl _ \<Rightarrow> w_store w' = w_store w
     | Inr ans \<Rightarrow> hash_claimed H C store (br_hash record) (answer_id record ans) (view (w_kv w')) \<and>
        w_store w' = w_store w @ (if blob_at H store (br_hash record) (view (w_kv w)) = None
          then [\<lparr>sd_store = store, sd_count_delta = 1, sd_bytes_delta = br_size record\<rparr>] else []))) w"
proof -
  have "wp (put_dedup_record H kv C (\<lambda>s. s) store record) (\<lambda>r s'.
      (invar s' \<and> (\<forall>ans. r = Inr ans \<longrightarrow> hash_claimed H C store (br_hash record) (answer_id record ans) (view s'))) \<and>
      kv_write invar view (w_kv w) {blob_key H store (br_hash record)} (\<lambda>ans v.
      (ans = None \<longleftrightarrow> blob_at H store (br_hash record) (view (w_kv w)) = None) \<and>
      (if ans = None then \<exists>b. encode (cs_blob C) (record\<lparr>br_store := store\<rparr>) = Inr b \<and>
         v = view_put (view (w_kv w)) TABLE_BLOBS (sharded_pk H store (br_hash record)) (br_hash record) b
       else v = view (w_kv w))) r s') (w_kv w)"
    by (rule wp_det [OF put_dedup_record_spec [OF inv ok codec] put_dedup_record_seq [OF inv ok]])
  then show ?thesis
    unfolding put_dedup_record_counted_def wp_bind wp_on_kv
  proof (rule wp_mono, goal_cases)
    case (1 r s')
    show ?case
    proof (cases r)
      case (Inl e)
      with 1 show ?thesis by simp
    next
      case (Inr ans)
      with 1 run show ?thesis by (cases ans) (auto simp: wp_simps wp_store_changed)
    qed
  qed
qed

text \<open>
  After a claim the hash is mapped to the id that is returned; the caller's own file is deleted only
  when another id is returned, and the store counter is credited only for a new record.
\<close>

lemma claim_or_reuse_blob_counted_spec:
  fixes w :: "('s, 'b) world"
  assumes inv: "invar (w_kv w)" and ok: "pk_ok store" "sk_ok (br_hash record)"
    and codec: "codec_ok (cs_blob C)" and run: "w_open w"
    and blobs: "\<And>i b. \<exists>r b'. blob_delete i b = Some (r, b')"
  shows "wp (claim_or_reuse_blob_counted H kv C (\<lambda>s. s) blob_delete store record) (\<lambda>r w'.
    invar (w_kv w') \<and> (\<forall>blob_id. r = Inr blob_id \<longrightarrow>
      hash_claimed H C store (br_hash record) blob_id (view (w_kv w')) \<and>
      (blob_id = br_blob_id record \<longrightarrow> w_blobs w' = w_blobs w) \<and>
      w_store w' = w_store w @ (if blob_at H store (br_hash record) (view (w_kv w)) = None
        then [\<lparr>sd_store = store, sd_count_delta = 1, sd_bytes_delta = br_size record\<rparr>] else []))) w"
  unfolding claim_or_reuse_blob_counted_def
proof (rule wp_bindI [OF put_dedup_record_counted_spec [OF inv ok codec run]], goal_cases)
  case (2 ans w1)
  have del: "wp (io_bind (io_try (on_blobs (blob_delete i))) (\<lambda>_. io_return x))
      (\<lambda>r w'. r = Inr x \<and> w_kv w' = w_kv w1 \<and> w_store w' = w_store w1) w1" for i x
    using blobs [of i "w_blobs w1"] by (auto simp: wp_bind wp_try wp_on_blobs) (auto simp: wp_def)
  show ?case
  proof (cases "ans = None \<or> ans = Some (br_blob_id record)")
    case True
    with 2 show ?thesis by (auto simp: reuse_or_keep_def answer_id_def)
  next
    case False
    then obtain i where i: "ans = Some i" "i \<noteq> br_blob_id record" by auto
    show ?thesis
      unfolding reuse_or_keep_def i option.case if_P [OF i(2)]
      by (rule wp_mono [OF del]) (use 2 i in \<open>auto simp: answer_id_def\<close>)
  qed
qed simp

subsection \<open>Folds over the blob table\<close>

lemma list_stores_spec:
  assumes "invar s"
  shows "wp (list_stores kv C) (kv_read invar view s (\<lambda>stores.
    decode_all (cs_store C) (take ADMIN_ENTITY_CAP (entries_where (view s TABLE_STORES SINGLE_PK) (\<lambda>_. True))) = Inr stores)) s"
  using typed_list_spec [OF assms pk_ok_single, of "cs_store C" TABLE_STORES "[]" ADMIN_ENTITY_CAP]
  by (simp add: list_stores_def)

lemma fold_partitions_spec:
  assumes inv: "invar s" and pks: "\<forall>pk \<in> set pks. pk_ok pk" and f: "adds h f g" "merges h init merge"
  shows "wp (io_bind (io_map (\<lambda>pk. for_each_in_partition kv t pk p SCAN_BATCH_SIZE (fold_callback c f) init) pks)
      (\<lambda>states. io_return (reduce_states merge init states)))
    (kv_read invar view s (\<lambda>a. h a = (\<Sum>pk \<leftarrow> pks.
      decoded_sum c g (entries_where (view s t pk) (\<lambda>k. starts_with k p))))) s"
proof -
  have batch: "0 < SCAN_BATCH_SIZE" by (simp add: SCAN_BATCH_SIZE_def)
  have init: "h init = 0" using f(2) by (simp add: merges_def)
  show ?thesis
  proof (rule wp_bindI [OF scan_partitions_spec [OF inv pks batch]], goal_cases)
    case (2 ys w)
    then have "list_all2 (\<lambda>pk y. h y = decoded_sum c g (entries_where (view s t pk) (\<lambda>k. starts_with k p))) pks ys"
      by (auto elim!: list_all2_mono dest!: scan_fold_adds [OF f(1)] simp: init)
    from list_all2_map_eq [OF this] 2 show ?case by (simp add: reduce_states_merges [OF f(2)])
  qed simp
qed

end

definition blob_pks :: "store_record list \<Rightarrow> string list" where
  "blob_pks stores = concat (map (\<lambda>s. map (blob_shard_pk (st_name s)) [0..<NUM_SHARDS]) stores)"

text \<open>The number and the bytes of the blob records of a store, over the partitions of all stores.\<close>

definition counted_blobs :: "codecs \<Rightarrow> kv_view \<Rightarrow> store_record list \<Rightarrow> string \<Rightarrow> u64" where
  "counted_blobs C v stores name = (\<Sum>pk \<leftarrow> blob_pks stores.
     decoded_sum (cs_blob C) (\<lambda>_ r. if br_store r = name then 1 else 0) (entries_where (v TABLE_BLOBS pk) (\<lambda>_. True)))"

definition counted_bytes :: "codecs \<Rightarrow> kv_view \<Rightarrow> store_record list \<Rightarrow> string \<Rightarrow> u64" where
  "counted_bytes C v stores name = (\<Sum>pk \<leftarrow> blob_pks stores.
     decoded_sum (cs_blob C) (\<lambda>_ r. if br_store r = name then br_size r else 0) (entries_where (v TABLE_BLOBS pk) (\<lambda>_. True)))"

definition counted_stats :: "codecs \<Rightarrow> kv_view \<Rightarrow> datetime \<Rightarrow> store_record list \<Rightarrow> string \<Rightarrow> store_stats_record" where
  "counted_stats C v now stores name = \<lparr>ss_blob_count = counted_blobs C v stores name,
     ss_total_bytes = counted_bytes C v stores name, ss_updated_at = now\<rparr>"

definition stored_stores :: "codecs \<Rightarrow> kv_view \<Rightarrow> store_record list result" where
  "stored_stores C v =
     decode_all (cs_store C) (take ADMIN_ENTITY_CAP (entries_where (v TABLE_STORES SINGLE_PK) (\<lambda>_. True)))"

lemma tally_adds:
  "adds (\<lambda>m. fst (tally m name)) (\<lambda>state _ rec. tally_fold state rec) (\<lambda>_ r. if br_store r = name then 1 else 0)"
  "adds (\<lambda>m. snd (tally m name)) (\<lambda>state _ rec. tally_fold state rec) (\<lambda>_ r. if br_store r = name then br_size r else 0)"
  by (auto simp: adds_def tally_fold_def tally_def)

lemma tally_merges:
  "merges (\<lambda>m. fst (tally m name)) Map.empty tally_merge"
  "merges (\<lambda>m. snd (tally m name)) Map.empty tally_merge"
  by (auto simp: merges_def tally_merge_def tally_def split: option.splits)

lemma sum_list_mset_eq: "mset xs = mset ys \<Longrightarrow> (\<Sum>x \<leftarrow> xs. F x) = (\<Sum>y \<leftarrow> ys. F y :: 'a :: comm_monoid_add)"
  by (metis mset_map sum_mset_sum_list)

text \<open>The counters a tally gives, and that they are stored.\<close>

definition tallied_stats :: "datetime \<Rightarrow> (string \<rightharpoonup> u64 \<times> u64) \<Rightarrow> string \<Rightarrow> store_stats_record" where
  "tallied_stats now tallies name = \<lparr>ss_blob_count = fst (tally tallies name),
     ss_total_bytes = snd (tally tallies name), ss_updated_at = now\<rparr>"

definition stats_written :: "codecs \<Rightarrow> kv_view \<Rightarrow> string \<Rightarrow> store_stats_record \<Rightarrow> bool" where
  "stats_written C v name stats \<longleftrightarrow> (\<exists>b n. encode_named (cs_store_stats C) stats = Inr b \<and>
     v TABLE_META SINGLE_PK (''store_stats/'' @ name) = Some (b, n))"

context kv_store
begin

lemma fold_all_blobs_spec:
  assumes inv: "invar s" and names: "\<And>stores r. stored_stores C (view s) = Inr stores \<Longrightarrow> r \<in> set stores \<Longrightarrow> pk_ok (st_name r)"
    and perm: "\<And>xs. mset (perm xs) = mset xs"
    and f: "adds h (\<lambda>state _ rec. f state rec) g" "merges h init merge"
  shows "wp (fold_all_blobs kv C perm init f merge) (kv_read invar view s (\<lambda>a. \<exists>stores.
    stored_stores C (view s) = Inr stores \<and> h a = (\<Sum>pk \<leftarrow> blob_pks stores.
      decoded_sum (cs_blob C) g (entries_where (view s TABLE_BLOBS pk) (\<lambda>_. True))))) s"
  unfolding fold_all_blobs_def
proof (rule wp_bindI [OF list_stores_spec [OF inv]], goal_cases)
  case (2 stores s1)
  then have s1: "invar s1" "view s1 = view s" and st: "stored_stores C (view s) = Inr stores"
    by (auto simp: stored_stores_def)
  have pks: "\<forall>pk \<in> set (perm (blob_pks stores)). pk_ok pk"
  proof -
    have "set (perm (blob_pks stores)) = set (blob_pks stores)"
      using perm by (metis set_mset_mset)
    then show ?thesis
      using names [OF st] by (auto simp: blob_pks_def)
  qed
  show ?case
    unfolding Let_def blob_pks_def [symmetric]
    by (rule wp_mono [OF fold_partitions_spec [OF s1(1) pks f]])
      (auto simp: kv_read_def s1 st sum_list_mset_eq [OF perm])
qed simp

lemma put_store_stats_spec:
  assumes "invar s" "sk_ok name"
  shows "wp (put_store_stats kv C name stats) (kv_write invar view s {store_stats_key name} (\<lambda>_ v.
    \<exists>b. encode_named (cs_store_stats C) stats = Inr b \<and>
      v = view_put (view s) TABLE_META SINGLE_PK (''store_stats/'' @ name) b)) s"
proof -
  have "sk_ok (''store_stats/'' @ name)"
    by (rule sk_ok_append) (simp_all add: sk_ok_def assms(2) [unfolded sk_ok_def])
  from typed_put_spec [OF assms(1) pk_ok_single this] show ?thesis
    by (simp add: put_store_stats_def store_stats_key_def)
qed

lemma write_store_stats_spec:
  assumes "invar s" "\<forall>st \<in> set stores. sk_ok (st_name st)"
  shows "wp (write_store_stats kv C now tallies stores) (\<lambda>r s'. invar s' \<and>
    view_frame (store_stats_key ` st_name ` set stores) (view s) (view s') \<and>
    (\<forall>out. r = Inr out \<longrightarrow> out = map (\<lambda>st. (st_name st, tallied_stats now tallies (st_name st))) stores \<and>
      (\<forall>st \<in> set stores. stats_written C (view s') (st_name st) (tallied_stats now tallies (st_name st))))) s"
  using assms
proof (induction stores arbitrary: s)
  case (Cons st stores)
  let ?K = "store_stats_key ` st_name ` set (st # stores)"
  let ?x = "tallied_stats now tallies"
  have ok: "sk_ok (st_name st)" using Cons.prems by simp
  show ?case
    unfolding write_store_stats.simps Let_def tallied_stats_def [symmetric]
  proof (rule wp_bindI [OF put_store_stats_spec [OF Cons.prems(1) ok]], goal_cases)
    case (1 e s1)
    then show ?case by (auto elim: view_frame_mono)
  next
    case (2 u s1)
    then obtain b where b: "encode_named (cs_store_stats C) (?x (st_name st)) = Inr b"
      and s1: "invar s1" "view s1 = view_put (view s) TABLE_META SINGLE_PK (''store_stats/'' @ st_name st) b"
      by auto
    have fr: "view_frame ?K (view s) (view s1)"
      unfolding s1(2) by (rule view_frame_upd) (simp add: store_stats_key_def)
    have here: "stats_written C (view s1) (st_name st) (?x (st_name st))"
      unfolding s1(2) stats_written_def using b by simp
    show ?case
    proof (rule wp_bindI [OF Cons.IH [OF s1(1)]], goal_cases)
      case 1
      then show ?case using Cons.prems by simp
    next
      case (2 e s2)
      then have "view_frame ?K (view s1) (view s2)" by (auto elim: view_frame_mono)
      with 2 fr show ?case by (auto intro: view_frame_trans)
    next
      case (3 out s2)
      then have s2: "invar s2" and f2: "view_frame (store_stats_key ` st_name ` set stores) (view s1) (view s2)"
        and out: "out = map (\<lambda>st. (st_name st, ?x (st_name st))) stores"
        and rest: "\<forall>st \<in> set stores. stats_written C (view s2) (st_name st) (?x (st_name st))" by auto
      have "stats_written C (view s2) (st_name st) (?x (st_name st))"
      proof (cases "st_name st \<in> st_name ` set stores")
        case True
        with rest show ?thesis by auto
      next
        case False
        then have "view s2 TABLE_META SINGLE_PK (''store_stats/'' @ st_name st) =
            view s1 TABLE_META SINGLE_PK (''store_stats/'' @ st_name st)"
          by (intro view_frameD [OF f2]) (auto simp: store_stats_key_def)
        with here show ?thesis by (simp add: stats_written_def)
      qed
      moreover have "view_frame ?K (view s1) (view s2)" using f2 by (auto elim: view_frame_mono)
      ultimately show ?case using s2 out rest fr by (auto intro: view_frame_trans)
    qed
  qed
qed simp

text \<open>The recomputed counters: the blob records of every store, counted once each.\<close>

lemma reconcile_store_stats_spec:
  assumes inv: "invar s"
    and names: "\<And>stores r. stored_stores C (view s) = Inr stores \<Longrightarrow> r \<in> set stores \<Longrightarrow>
      pk_ok (st_name r) \<and> sk_ok (st_name r)"
    and perm: "\<And>xs. mset (perm xs) = mset xs"
  shows "wp (reconcile_store_stats kv C perm now) (\<lambda>r s'. invar s' \<and>
    (\<forall>out. r = Inr out \<longrightarrow> (\<exists>stores. stored_stores C (view s) = Inr stores \<and>
      out = map (\<lambda>st. (st_name st, counted_stats C (view s) now stores (st_name st))) stores \<and>
      view_frame (store_stats_key ` st_name ` set stores) (view s) (view s') \<and>
      (\<forall>st \<in> set stores. stats_written C (view s') (st_name st)
         (counted_stats C (view s) now stores (st_name st)))))) s"
proof -
  have nm: "\<And>stores r. stored_stores C (view s) = Inr stores \<Longrightarrow> r \<in> set stores \<Longrightarrow> pk_ok (st_name r)"
    using names by blast
  have cnt: "wp (fold_all_blobs kv C perm Map.empty tally_fold tally_merge) (kv_read invar view s (\<lambda>a. \<exists>stores.
      stored_stores C (view s) = Inr stores \<and> fst (tally a name) = counted_blobs C (view s) stores name)) s" for name
    unfolding counted_blobs_def
    by (rule fold_all_blobs_spec [OF inv _ perm tally_adds(1) tally_merges(1)]) (rule nm)
  have byt: "wp (fold_all_blobs kv C perm Map.empty tally_fold tally_merge) (kv_read invar view s (\<lambda>a. \<exists>stores.
      stored_stores C (view s) = Inr stores \<and> snd (tally a name) = counted_bytes C (view s) stores name)) s" for name
    unfolding counted_bytes_def
    by (rule fold_all_blobs_spec [OF inv _ perm tally_adds(2) tally_merges(2)]) (rule nm)
  have "wp (fold_all_blobs kv C perm Map.empty tally_fold tally_merge) (kv_read invar view s (\<lambda>a.
      \<forall>name. \<exists>stores. stored_stores C (view s) = Inr stores \<and>
        tally a name = (counted_blobs C (view s) stores name, counted_bytes C (view s) stores name))) s"
  proof -
    obtain r s' where run: "fold_all_blobs kv C perm Map.empty tally_fold tally_merge s = Some (r, s')"
      using wp_returns [OF cnt] by blast
    have "kv_read invar view s (\<lambda>a. \<exists>stores. stored_stores C (view s) = Inr stores \<and>
        tally a name = (counted_blobs C (view s) stores name, counted_bytes C (view s) stores name)) r s'" for name
      using wp_result [OF cnt run, of name] wp_result [OF byt run, of name]
      by (auto simp: kv_read_def counted_blobs_def counted_bytes_def prod_eq_iff)
    with run show ?thesis by (auto simp: wp_iff kv_read_def)
  qed
  then show ?thesis
    unfolding reconcile_store_stats_def
  proof (rule wp_bindI, goal_cases)
    case (2 tallies s1)
    then have s1: "invar s1" "view s1 = view s" and tl: "\<And>name. \<exists>stores. stored_stores C (view s) = Inr stores \<and>
        tally tallies name = (counted_blobs C (view s) stores name, counted_bytes C (view s) stores name)" by auto
    show ?case
    proof (rule wp_bindI [OF list_stores_spec [OF s1(1)]], goal_cases)
      case (2 stores s2)
      then have s2: "invar s2" "view s2 = view s" and st: "stored_stores C (view s) = Inr stores"
        using s1 by (auto simp: stored_stores_def)
      have "tallied_stats now tallies name = counted_stats C (view s) now stores name" for name
        using tl [of name] st by (auto simp: tallied_stats_def counted_stats_def)
      moreover have "\<forall>r \<in> set stores. sk_ok (st_name r)" using names [OF st] by blast
      ultimately show ?case
        using write_store_stats_spec [OF s2(1), of stores C now tallies] s2(2) st
        by (auto elim!: wp_mono)
    qed simp
  qed simp
qed

end

end
