(* ===== verification/Redb_Kv.thy ===== *)
theory Redb_Kv
  imports Kv_Interface
begin

text \<open>
  The redb backend (\<open>kv/redb/src/redb_kv.rs\<close>): the versioned envelope around a value, the flat
  keys, the write operations a batch executes in one transaction, and the \<open>KvStore\<close> methods.

  The redb crate is third-party: a database is the record \<open>'d redb\<close> of the calls the code makes,
  over an abstract type \<open>'d\<close> that stands for the database, a read snapshot and the working copy
  of a write transaction alike. The locale \<open>redb_db\<close> states what redb documents: ordered tables of
  byte strings, snapshots, atomic commit. Every call may fail with a message.

  The state of a \<open>RedbKvStore\<close> is the database (absent while a compaction owns it), whether the
  sender to the writer task is there, and whether its bounded channel is full. Not modelled: the
  opening and upgrading of files, a panic of the blocking compaction task, file-size telemetry.
\<close>

record 'd redb =
  rd_begin_read :: "'d \<Rightarrow> string + 'd"
  rd_open_read :: "'d \<Rightarrow> string \<Rightarrow> string + unit"
  rd_begin_write :: "'d \<Rightarrow> string + 'd"
  rd_open_write :: "'d \<Rightarrow> string \<Rightarrow> string + 'd"
  rd_get :: "'d \<Rightarrow> string \<Rightarrow> bytes \<Rightarrow> string + bytes option"
  rd_insert :: "'d \<Rightarrow> string \<Rightarrow> bytes \<Rightarrow> bytes \<Rightarrow> (string + bytes option) \<times> 'd"
  rd_remove :: "'d \<Rightarrow> string \<Rightarrow> bytes \<Rightarrow> (string + bytes option) \<times> 'd"
  rd_range :: "'d \<Rightarrow> string \<Rightarrow> bytes \<Rightarrow> bytes option \<Rightarrow>
     string + ((bytes \<times> bytes) list \<times> string option)"
  rd_commit :: "'d \<Rightarrow> 'd \<Rightarrow> (string + unit) \<times> 'd"
  rd_compact :: "'d \<Rightarrow> (string + bool) \<times> 'd"

subsection \<open>Write operations\<close>

datatype write_op =
    PutOp string bytes bytes
  | PutIfVersionOp string bytes bytes "u64 option"
  | DeleteOp string bytes
  | DeleteReturningOp string bytes
  | DeleteIfVersionOp string bytes u64
  | DeleteBatchOp string "bytes list"
  | PutBatchOp string "(bytes \<times> bytes) list"

datatype op_result =
    UnitR "string + unit"
  | BoolR "string + bool"
  | BoolsR "string + bool list"
  | OptBytesR "string + bytes option"

text \<open>What a reply channel receives.\<close>

datatype reply =
    UnitReply "unit result"
  | BoolReply "bool result"
  | BoolsReply "bool list result"
  | OptBytesReply "bytes option result"

definition storage_err :: "string \<Rightarrow> depot_error" where
  "storage_err msg = Storage msg Permanent"

definition db_missing :: depot_error where
  "db_missing = Storage ''redb database unavailable (compaction in progress)'' Transient"

subsection \<open>Flat keys\<close>

definition flat_key :: "string \<Rightarrow> string \<Rightarrow> bytes" where
  "flat_key pk sk = pk @ [CHR 0x00] @ sk"

definition partition_prefix :: "string \<Rightarrow> bytes" where
  "partition_prefix pk = pk @ [CHR 0x00]"

definition extract_sk :: "bytes \<Rightarrow> nat \<Rightarrow> string" where
  "extract_sk flat prefix_len = (let b = drop prefix_len flat in if utf8_valid b then b else [])"

subsection \<open>Envelopes\<close>

fun le_bytes :: "nat \<Rightarrow> nat \<Rightarrow> bytes" where
  "le_bytes 0 n = []"
| "le_bytes (Suc k) n = char_of (n mod 256) # le_bytes k (n div 256)"

fun from_le_bytes :: "bytes \<Rightarrow> nat" where
  "from_le_bytes [] = 0"
| "from_le_bytes (c # cs) = of_char c + 256 * from_le_bytes cs"

definition ENVELOPE_V1 :: u8 where
  "ENVELOPE_V1 = CHR 0x01"

definition ENVELOPE_HEADER_SIZE :: nat where
  "ENVELOPE_HEADER_SIZE = 9"

definition wrap_envelope :: "u64 \<Rightarrow> bytes \<Rightarrow> bytes" where
  "wrap_envelope version payload = [ENVELOPE_V1] @ le_bytes 8 (unat version) @ payload"

definition unwrap_envelope :: "bytes \<Rightarrow> bytes \<times> u64" where
  "unwrap_envelope raw =
    (if ENVELOPE_HEADER_SIZE \<le> length raw \<and> raw ! 0 = ENVELOPE_V1
     then (drop ENVELOPE_HEADER_SIZE raw, word_of_nat (from_le_bytes (take 8 (drop 1 raw))))
     else (raw, 0))"

definition read_version :: "bytes \<Rightarrow> u64" where
  "read_version raw = snd (unwrap_envelope raw)"

subsection \<open>Executing a batch\<close>

text \<open>Reading the current version, writing the successor: the body of \<open>Put\<close>, one entry of \<open>PutBatch\<close>.\<close>

definition put_one :: "'d redb \<Rightarrow> 'd \<Rightarrow> string \<Rightarrow> bytes \<Rightarrow> bytes \<Rightarrow> (string + unit) \<times> 'd" where
  "put_one D w t key value =
    (case rd_get D w t key of
       Inl e \<Rightarrow> (Inl e, w)
     | Inr cur \<Rightarrow>
        let current_version = (case cur of Some v \<Rightarrow> read_version v | None \<Rightarrow> 0)
        in case rd_insert D w t key (wrap_envelope (current_version + 1) value) of
             (Inr _, w') \<Rightarrow> (Inr (), w')
           | (Inl e, w') \<Rightarrow> (Inl e, w'))"

definition put_if_version_one ::
    "'d redb \<Rightarrow> 'd \<Rightarrow> string \<Rightarrow> bytes \<Rightarrow> bytes \<Rightarrow> u64 option \<Rightarrow> (string + bool) \<times> 'd" where
  "put_if_version_one D w t key value exp =
    (case rd_get D w t key of
       Inl e \<Rightarrow> (Inl e, w)
     | Inr cur \<Rightarrow>
        let current_version = map_option read_version cur;
            ok = (case (exp, current_version) of
                    (None, None) \<Rightarrow> True
                  | (None, Some _) \<Rightarrow> False
                  | (Some e, Some a) \<Rightarrow> e = a
                  | (Some _, None) \<Rightarrow> False)
        in if \<not> ok then (Inr False, w)
           else case rd_insert D w t key
                  (wrap_envelope ((case exp of Some n \<Rightarrow> n | None \<Rightarrow> 0) + 1) value) of
                  (Inr _, w') \<Rightarrow> (Inr True, w')
                | (Inl e, w') \<Rightarrow> (Inl e, w'))"

definition delete_one :: "'d redb \<Rightarrow> 'd \<Rightarrow> string \<Rightarrow> bytes \<Rightarrow> (string + bool) \<times> 'd" where
  "delete_one D w t key =
    (case rd_remove D w t key of
       (Inr old, w') \<Rightarrow> (Inr (old \<noteq> None), w')
     | (Inl e, w') \<Rightarrow> (Inl e, w'))"

definition delete_if_version_one ::
    "'d redb \<Rightarrow> 'd \<Rightarrow> string \<Rightarrow> bytes \<Rightarrow> u64 \<Rightarrow> (string + bool) \<times> 'd" where
  "delete_if_version_one D w t key exp =
    (case rd_get D w t key of
       Inl e \<Rightarrow> (Inl e, w)
     | Inr cur \<Rightarrow>
        if map_option read_version cur \<noteq> Some exp then (Inr False, w)
        else delete_one D w t key)"

definition delete_returning_one ::
    "'d redb \<Rightarrow> 'd \<Rightarrow> string \<Rightarrow> bytes \<Rightarrow> (string + bytes option) \<times> 'd" where
  "delete_returning_one D w t key =
    (case rd_remove D w t key of
       (Inr (Some raw), w') \<Rightarrow> (Inr (Some (fst (unwrap_envelope raw))), w')
     | (Inr None, w') \<Rightarrow> (Inr None, w')
     | (Inl e, w') \<Rightarrow> (Inl e, w'))"

fun delete_batch_loop ::
    "'d redb \<Rightarrow> 'd \<Rightarrow> string \<Rightarrow> bytes list \<Rightarrow> bool list \<Rightarrow> (string + bool list) \<times> 'd" where
  "delete_batch_loop D w t [] existed = (Inr existed, w)"
| "delete_batch_loop D w t (key # keys) existed =
    (case rd_remove D w t key of
       (Inr old, w') \<Rightarrow> delete_batch_loop D w' t keys (existed @ [old \<noteq> None])
     | (Inl e, w') \<Rightarrow> (Inl e, w'))"

fun put_batch_loop :: "'d redb \<Rightarrow> 'd \<Rightarrow> string \<Rightarrow> (bytes \<times> bytes) list \<Rightarrow> (string + unit) \<times> 'd" where
  "put_batch_loop D w t [] = (Inr (), w)"
| "put_batch_loop D w t ((key, value) # es) =
    (case put_one D w t key value of
       (Inr _, w') \<Rightarrow> put_batch_loop D w' t es
     | (Inl e, w') \<Rightarrow> (Inl e, w'))"

text \<open>\<open>open_table!\<close>: on an error the operation's result is that error and the batch goes on.\<close>

definition with_table ::
    "'d redb \<Rightarrow> 'd \<Rightarrow> string \<Rightarrow> ((string + 'a) \<Rightarrow> op_result) \<Rightarrow> ('d \<Rightarrow> (string + 'a) \<times> 'd) \<Rightarrow>
     op_result \<times> 'd" where
  "with_table D w t wrap f =
    (case rd_open_write D w t of
       Inl e \<Rightarrow> (wrap (Inl e), w)
     | Inr w1 \<Rightarrow> (case f w1 of (r, w2) \<Rightarrow> (wrap r, w2)))"

fun execute_op :: "'d redb \<Rightarrow> 'd \<Rightarrow> write_op \<Rightarrow> op_result \<times> 'd" where
  "execute_op D w (PutOp t k v) = with_table D w t UnitR (\<lambda>w. put_one D w t k v)"
| "execute_op D w (PutIfVersionOp t k v exp) =
     with_table D w t BoolR (\<lambda>w. put_if_version_one D w t k v exp)"
| "execute_op D w (DeleteOp t k) = with_table D w t BoolR (\<lambda>w. delete_one D w t k)"
| "execute_op D w (DeleteIfVersionOp t k n) =
     with_table D w t BoolR (\<lambda>w. delete_if_version_one D w t k n)"
| "execute_op D w (DeleteReturningOp t k) =
     with_table D w t OptBytesR (\<lambda>w. delete_returning_one D w t k)"
| "execute_op D w (DeleteBatchOp t ks) =
     with_table D w t BoolsR (\<lambda>w. delete_batch_loop D w t ks [])"
| "execute_op D w (PutBatchOp t es) = with_table D w t UnitR (\<lambda>w. put_batch_loop D w t es)"

fun execute_ops :: "'d redb \<Rightarrow> 'd \<Rightarrow> write_op list \<Rightarrow> op_result list \<times> 'd" where
  "execute_ops D w [] = ([], w)"
| "execute_ops D w (op # ops) =
    (case execute_op D w op of (r, w1) \<Rightarrow>
       case execute_ops D w1 ops of (rs, w2) \<Rightarrow> (r # rs, w2))"

text \<open>\<open>send_errors\<close>: every operation of the batch is told the transaction failed.\<close>

fun error_reply :: "string \<Rightarrow> write_op \<Rightarrow> reply" where
  "error_reply msg (PutOp _ _ _) = UnitReply (Inl (storage_err msg))"
| "error_reply msg (PutIfVersionOp _ _ _ _) = BoolReply (Inl (storage_err msg))"
| "error_reply msg (DeleteOp _ _) = BoolReply (Inl (storage_err msg))"
| "error_reply msg (DeleteIfVersionOp _ _ _) = BoolReply (Inl (storage_err msg))"
| "error_reply msg (DeleteReturningOp _ _) = OptBytesReply (Inl (storage_err msg))"
| "error_reply msg (DeleteBatchOp _ _) = BoolsReply (Inl (storage_err msg))"
| "error_reply msg (PutBatchOp _ _) = UnitReply (Inl (storage_err msg))"

definition send_errors :: "write_op list \<Rightarrow> string \<Rightarrow> reply option list" where
  "send_errors batch msg = map (\<lambda>op. Some (error_reply msg op)) batch"

definition map_err :: "(string + 'a) \<Rightarrow> 'a result" where
  "map_err r = (case r of Inl e \<Rightarrow> Inl (storage_err e) | Inr a \<Rightarrow> Inr a)"

text \<open>Pairing an operation with its result; a mismatch is logged and the reply channel dropped.\<close>

fun reply_of :: "write_op \<Rightarrow> op_result \<Rightarrow> reply option" where
  "reply_of (PutOp _ _ _) (UnitR r) = Some (UnitReply (map_err r))"
| "reply_of (PutIfVersionOp _ _ _ _) (BoolR r) = Some (BoolReply (map_err r))"
| "reply_of (DeleteOp _ _) (BoolR r) = Some (BoolReply (map_err r))"
| "reply_of (DeleteIfVersionOp _ _ _) (BoolR r) = Some (BoolReply (map_err r))"
| "reply_of (DeleteReturningOp _ _) (OptBytesR r) = Some (OptBytesReply (map_err r))"
| "reply_of (DeleteBatchOp _ _) (BoolsR r) = Some (BoolsReply (map_err r))"
| "reply_of (PutBatchOp _ _) (UnitR r) = Some (UnitReply (map_err r))"
| "reply_of _ _ = None"

definition execute_batch :: "'d redb \<Rightarrow> 'd \<Rightarrow> write_op list \<Rightarrow> reply option list \<times> 'd" where
  "execute_batch D db batch =
    (case rd_begin_write D db of
       Inl e \<Rightarrow> (send_errors batch e, db)
     | Inr txn \<Rightarrow>
        (case execute_ops D txn batch of (results, txn') \<Rightarrow>
          (case rd_commit D db txn' of
             (Inl e, db') \<Rightarrow> (send_errors batch e, db')
           | (Inr _, db') \<Rightarrow> (map2 reply_of batch results, db'))))"

text \<open>
  The writer task: it takes the first queued operation, then what else is queued up to the cap.
  \<open>avail\<close> lists, per turn of the loop, how many further operations are queued at that moment; the
  task then waits for more, so the replies so far are those of the operations it has taken.
\<close>

definition BATCH_CAP :: nat where
  "BATCH_CAP = 64"

fun writer_task :: "'d redb \<Rightarrow> nat list \<Rightarrow> 'd \<Rightarrow> write_op list \<Rightarrow> reply option list \<times> 'd" where
  "writer_task D [] db queue = ([], db)"
| "writer_task D (k # avail) db [] = ([], db)"
| "writer_task D (k # avail) db (first # queue) =
    (let m = min k (BATCH_CAP - 1) in
     case execute_batch D db (first # take m queue) of (replies, db1) \<Rightarrow>
     case writer_task D avail db1 (drop m queue) of (rest, db2) \<Rightarrow> (replies @ rest, db2))"

subsection \<open>The store\<close>

record 'd redb_store =
  rs_db :: "'d option"
  rs_write_tx :: bool
  rs_channel_full :: bool

definition send_write ::
    "'d redb \<Rightarrow> write_op \<Rightarrow> (reply \<Rightarrow> 'a result option) \<Rightarrow> ('d redb_store, 'a) io" where
  "send_write D op extract = (\<lambda>st.
    if \<not> (rs_write_tx st \<and> \<not> rs_channel_full st)
    then Some (Inl (Storage ''redb writer channel full or closed'' Permanent), st)
    else case rs_db st of
        None \<Rightarrow> Some (Inl (storage_err ''writer dropped''), st)
      | Some db \<Rightarrow>
         (case execute_batch D db [op] of (replies, db') \<Rightarrow>
            let st' = st\<lparr>rs_db := Some db'\<rparr>
            in case replies of
                 [Some r] \<Rightarrow> (case extract r of Some x \<Rightarrow> Some (x, st')
                   | None \<Rightarrow> Some (Inl (storage_err ''writer dropped''), st'))
               | _ \<Rightarrow> Some (Inl (storage_err ''writer dropped''), st')))"

fun unit_reply :: "reply \<Rightarrow> unit result option" where
  "unit_reply (UnitReply r) = Some r" | "unit_reply _ = None"
fun bool_reply :: "reply \<Rightarrow> bool result option" where
  "bool_reply (BoolReply r) = Some r" | "bool_reply _ = None"
fun bools_reply :: "reply \<Rightarrow> bool list result option" where
  "bools_reply (BoolsReply r) = Some r" | "bools_reply _ = None"
fun opt_bytes_reply :: "reply \<Rightarrow> bytes option result option" where
  "opt_bytes_reply (OptBytesReply r) = Some r" | "opt_bytes_reply _ = None"

text \<open>The shared beginning of the reading methods: the database, a read transaction, the table.\<close>

definition redb_read :: "'d redb \<Rightarrow> string \<Rightarrow> ('d \<Rightarrow> 'a result) \<Rightarrow> ('d redb_store, 'a) io" where
  "redb_read D table f = (\<lambda>st.
    case rs_db st of
      None \<Rightarrow> Some (Inl db_missing, st)
    | Some db \<Rightarrow>
       (case rd_begin_read D db of
          Inl e \<Rightarrow> Some (Inl (storage_permanent e), st)
        | Inr txn \<Rightarrow>
           (case rd_open_read D txn table of
              Inl e \<Rightarrow> Some (Inl (storage_permanent e), st)
            | Inr _ \<Rightarrow> Some (f txn, st))))"

definition redb_get :: "'d redb \<Rightarrow> string \<Rightarrow> string \<Rightarrow> string \<Rightarrow> ('d redb_store, bytes option) io" where
  "redb_get D table pk sk = redb_read D table (\<lambda>txn.
     case rd_get D txn table (flat_key pk sk) of
       Inl e \<Rightarrow> Inl (storage_permanent e)
     | Inr v \<Rightarrow> Inr (map_option (\<lambda>raw. fst (unwrap_envelope raw)) v))"

definition redb_get_versioned ::
    "'d redb \<Rightarrow> string \<Rightarrow> string \<Rightarrow> string \<Rightarrow> ('d redb_store, (bytes \<times> u64) option) io" where
  "redb_get_versioned D table pk sk = redb_read D table (\<lambda>txn.
     case rd_get D txn table (flat_key pk sk) of
       Inl e \<Rightarrow> Inl (storage_permanent e)
     | Inr v \<Rightarrow> Inr (map_option unwrap_envelope v))"

definition redb_put ::
    "'d redb \<Rightarrow> string \<Rightarrow> string \<Rightarrow> string \<Rightarrow> bytes \<Rightarrow> ('d redb_store, unit) io" where
  "redb_put D table pk sk value = send_write D (PutOp table (flat_key pk sk) value) unit_reply"

definition redb_put_if_version ::
    "'d redb \<Rightarrow> string \<Rightarrow> string \<Rightarrow> string \<Rightarrow> bytes \<Rightarrow> u64 option \<Rightarrow> ('d redb_store, bool) io" where
  "redb_put_if_version D table pk sk value exp =
     send_write D (PutIfVersionOp table (flat_key pk sk) value exp) bool_reply"

definition redb_delete :: "'d redb \<Rightarrow> string \<Rightarrow> string \<Rightarrow> string \<Rightarrow> ('d redb_store, bool) io" where
  "redb_delete D table pk sk = send_write D (DeleteOp table (flat_key pk sk)) bool_reply"

definition redb_delete_if_version ::
    "'d redb \<Rightarrow> string \<Rightarrow> string \<Rightarrow> string \<Rightarrow> u64 \<Rightarrow> ('d redb_store, bool) io" where
  "redb_delete_if_version D table pk sk exp =
     send_write D (DeleteIfVersionOp table (flat_key pk sk) exp) bool_reply"

definition redb_delete_returning ::
    "'d redb \<Rightarrow> string \<Rightarrow> string \<Rightarrow> string \<Rightarrow> ('d redb_store, bytes option) io" where
  "redb_delete_returning D table pk sk =
     send_write D (DeleteReturningOp table (flat_key pk sk)) opt_bytes_reply"

definition redb_delete_batch ::
    "'d redb \<Rightarrow> string \<Rightarrow> (string \<times> string) list \<Rightarrow> ('d redb_store, bool list) io" where
  "redb_delete_batch D table keys =
    (if keys = [] then io_return []
     else send_write D (DeleteBatchOp table (map (\<lambda>(pk, sk). flat_key pk sk) keys)) bools_reply)"

definition redb_put_batch ::
    "'d redb \<Rightarrow> string \<Rightarrow> (string \<times> string \<times> bytes) list \<Rightarrow> ('d redb_store, unit) io" where
  "redb_put_batch D table entries =
    (if entries = [] then io_return ()
     else send_write D
       (PutBatchOp table (map (\<lambda>(pk, sk, value). (flat_key pk sk, value)) entries)) unit_reply)"

text \<open>
  The loop over a range. The iterator yields the listed entries and then, when there is one, the
  error that ends it; the limit is tested before an entry is looked at.
\<close>

fun scan_loop ::
    "(bytes \<Rightarrow> bool) \<Rightarrow> nat \<Rightarrow> nat \<Rightarrow> (bytes \<times> bytes) list \<Rightarrow> string option \<Rightarrow>
     (string \<times> bytes) list \<Rightarrow> scan_result result" where
  "scan_loop keep plen limit [] err results =
    (case err of
       None \<Rightarrow> Inr \<lparr>sr_items = results, sr_done = True\<rparr>
     | Some e \<Rightarrow> if limit \<le> length results then Inr \<lparr>sr_items = results, sr_done = False\<rparr>
                 else Inl (storage_permanent e))"
| "scan_loop keep plen limit ((k, v) # xs) err results =
    (if limit \<le> length results then Inr \<lparr>sr_items = results, sr_done = False\<rparr>
     else if \<not> keep k then Inr \<lparr>sr_items = results, sr_done = True\<rparr>
     else scan_loop keep plen limit xs err (results @ [(extract_sk k plen, fst (unwrap_envelope v))]))"

definition redb_scan_prefix ::
    "'d redb \<Rightarrow> string \<Rightarrow> string \<Rightarrow> string \<Rightarrow> nat \<Rightarrow> ('d redb_store, scan_result) io" where
  "redb_scan_prefix D table pk sk_prefix limit =
    (let prefix = partition_prefix pk @ sk_prefix
     in redb_read D table (\<lambda>txn.
       case rd_range D txn table prefix (prefix_end prefix) of
         Inl e \<Rightarrow> Inl (storage_permanent e)
       | Inr (xs, err) \<Rightarrow>
           scan_loop (\<lambda>k. starts_with k prefix) (length (partition_prefix pk)) limit xs err []))"

definition redb_scan_range ::
    "'d redb \<Rightarrow> string \<Rightarrow> string \<Rightarrow> string \<Rightarrow> string option \<Rightarrow> nat \<Rightarrow> ('d redb_store, scan_result) io" where
  "redb_scan_range D table pk sk_start sk_end limit =
    (let start = flat_key pk sk_start;
         end' = (case sk_end of Some e \<Rightarrow> Some (flat_key pk e)
                 | None \<Rightarrow> prefix_end (partition_prefix pk))
     in redb_read D table (\<lambda>txn.
       case rd_range D txn table start end' of
         Inl e \<Rightarrow> Inl (storage_permanent e)
       | Inr (xs, err) \<Rightarrow>
           scan_loop (\<lambda>_. True) (length (partition_prefix pk)) limit xs err []))"

definition redb_compact :: "'d redb \<Rightarrow> ('d redb_store, bool) io" where
  "redb_compact D = (\<lambda>st.
    case rs_db st of
      None \<Rightarrow> Some (Inl db_missing, st\<lparr>rs_write_tx := False\<rparr>)
    | Some db \<Rightarrow>
       (case rd_compact D db of (res, db') \<Rightarrow>
          let st' = st\<lparr>rs_db := Some db', rs_write_tx := True, rs_channel_full := False\<rparr>
          in case res of
               Inl e \<Rightarrow> Some (Inl (Storage (''redb compact failed: '' @ e) Transient), st')
             | Inr c \<Rightarrow> Some (Inr c, st')))"

definition redb_kv :: "'d redb \<Rightarrow> 'd redb_store kv" where
  "redb_kv D = \<lparr>
     kv_get = redb_get D,
     kv_get_versioned = redb_get_versioned D,
     kv_put = redb_put D,
     kv_put_if_version = redb_put_if_version D,
     kv_put_if_absent = default_put_if_absent (redb_put_if_version D),
     kv_delete = redb_delete D,
     kv_delete_if_version = redb_delete_if_version D,
     kv_delete_returning = redb_delete_returning D,
     kv_scan_prefix = redb_scan_prefix D,
     kv_scan_range = redb_scan_range D,
     kv_get_consistent = default_get_consistent (redb_get D),
     kv_delete_batch = redb_delete_batch D,
     kv_put_batch = redb_put_batch D,
     kv_is_single_node = True,
     kv_compact = redb_compact D\<rparr>"

section \<open>Envelopes and flat keys\<close>

lemma length_le_bytes [simp]: "length (le_bytes k n) = k"
  by (induction k arbitrary: n) auto

lemma from_le_bytes_le_bytes [simp]: "from_le_bytes (le_bytes k n) = n mod 256 ^ k"
proof (induction k arbitrary: n)
  case (Suc k)
  have "n mod 256 ^ Suc k = n mod 256 + 256 * (n div 256 mod 256 ^ k)"
    using mod_mult2_eq [of n 256 "256 ^ k"] by simp
  then show ?case using Suc by simp
qed simp

lemma unwrap_wrap [simp]: "unwrap_envelope (wrap_envelope version payload) = (payload, version)"
proof -
  have "unat version < 256 ^ 8" using unsigned_less [of version, where ?'a = nat] by simp
  then show ?thesis
    by (simp add: unwrap_envelope_def wrap_envelope_def ENVELOPE_HEADER_SIZE_def)
qed

lemma read_version_wrap [simp]: "read_version (wrap_envelope n b) = n"
  by (simp add: read_version_def)

lemma next_version_unwrap:
  "next_version (map_option unwrap_envelope x) = (case x of Some v \<Rightarrow> read_version v | None \<Rightarrow> 0) + 1"
  by (cases x) (auto simp: next_version_def read_version_def split: prod.splits)

lemma snd_unwrap [simp]: "map_option snd (map_option unwrap_envelope x) = map_option read_version x"
  by (cases x) (auto simp: read_version_def)

lemma flat_key_inject [simp]:
  "pk_ok pk \<Longrightarrow> pk_ok pk' \<Longrightarrow> flat_key pk sk = flat_key pk' sk' \<longleftrightarrow> pk = pk' \<and> sk = sk'"
  using append_NUL_inject [of pk pk' sk sk'] by (simp add: flat_key_def pk_ok_def)

lemma flat_key_order [simp]:
  "flat_key pk sk < flat_key pk sk' \<longleftrightarrow> sk < sk'" "flat_key pk sk \<le> flat_key pk sk' \<longleftrightarrow> sk \<le> sk'"
  by (simp_all add: flat_key_def)

lemma extract_sk_flat_key [simp]:
  "sk_ok sk \<Longrightarrow> extract_sk (flat_key pk sk) (length (partition_prefix pk)) = sk"
  by (simp add: extract_sk_def flat_key_def partition_prefix_def sk_ok_def)

lemma starts_with_flat_key:
  assumes "pk_ok pk" "pk_ok pk'"
  shows "starts_with (flat_key pk' sk) (partition_prefix pk @ p) \<longleftrightarrow> pk' = pk \<and> starts_with sk p"
  using assms append_NUL_inject [of pk' pk sk]
  by (auto simp: starts_with_iff flat_key_def partition_prefix_def pk_ok_def)

text \<open>The bounds of a range scan select the keys of one partition.\<close>

lemma flat_key_in_range:
  assumes pk: "pk_ok pk" "pk_ok pk'"
  shows "in_range (flat_key pk lo)
      (case hi of Some e \<Rightarrow> Some (flat_key pk e) | None \<Rightarrow> prefix_end (partition_prefix pk))
      (flat_key pk' sk) \<longleftrightarrow> pk' = pk \<and> in_range lo hi sk"
proof (cases hi)
  case None
  have pre: "starts_with (flat_key pk' sk) (partition_prefix pk) \<longleftrightarrow> pk' = pk"
    using starts_with_flat_key [OF pk, of sk "[]"] by simp
  have "partition_prefix pk \<le> flat_key pk lo"
    by (simp add: partition_prefix_def flat_key_def)
  with None pre prefix_end_range [of "flat_key pk' sk" "partition_prefix pk"] show ?thesis
    by (auto simp: in_range_def intro: order_trans)
next
  case (Some e)
  have "pk' = pk" if "flat_key pk lo \<le> flat_key pk' sk" "flat_key pk' sk < flat_key pk e"
  proof -
    have "starts_with (flat_key pk e') (partition_prefix pk)" for e'
      using starts_with_flat_key [OF pk(1) pk(1), of e' "[]"] by simp
    then have "starts_with (flat_key pk' sk) (partition_prefix pk)"
      using that prefix_end_range [of "flat_key pk e" "partition_prefix pk"]
        prefix_end_range [of "flat_key pk lo" "partition_prefix pk"]
      by (subst prefix_end_range) (auto split: option.splits)
    then show ?thesis using starts_with_flat_key [OF pk, of sk "[]"] by simp
  qed
  with Some show ?thesis by (auto simp: in_range_def)
qed

text \<open>Every operation has a reply of its own kind: no reply channel is dropped by a mismatch.\<close>

lemma reply_of_execute_op: "reply_of op (fst (execute_op D w op)) \<noteq> None"
  by (cases op) (auto simp: with_table_def split: sum.splits prod.splits)

lemma length_execute_ops [simp]: "length (fst (execute_ops D w ops)) = length ops"
  by (induction ops arbitrary: w) (simp_all add: case_prod_unfold)

end
