(* ===== verification/Redb_Contract.thy ===== *)
theory Redb_Contract
  imports Redb_Kv
begin

text \<open>
  The redb backend keeps the contract of the \<open>KvStore\<close> trait. The locale \<open>redb_db\<close> states what the
  redb crate documents, through the tables \<open>tab d\<close> a database, snapshot or transaction shows; the
  write operations refine a specification over such tables, and the tables are read as a view
  through the flat keys and the envelopes.
\<close>

type_synonym tables = "string \<Rightarrow> bytes \<Rightarrow> bytes option"

definition raw_upd :: "tables \<Rightarrow> string \<Rightarrow> bytes \<Rightarrow> bytes option \<Rightarrow> tables" where
  "raw_upd m t k x = (\<lambda>t' k'. if t' = t \<and> k' = k then x else m t' k')"

lemma raw_upd_apply:
  "raw_upd m t k x t' k' = (if t' = t \<and> k' = k then x else m t' k')"
  by (simp add: raw_upd_def)

locale redb_db =
  fixes D :: "'d redb" and tab :: "'d \<Rightarrow> tables"
  assumes finite_tab: "finite (dom (tab d t))"
    and begin_read: "rd_begin_read D d = Inr d' \<Longrightarrow> tab d' = tab d"
    and begin_write: "rd_begin_write D d = Inr w \<Longrightarrow> tab w = tab d"
    and open_write: "rd_open_write D w t = Inr w' \<Longrightarrow> tab w' = tab w"
    and get_ok: "rd_get D w t k = Inr cur \<Longrightarrow> tab w t k = cur"
    and insert_ok: "rd_insert D w t k v = (Inr old, w') \<Longrightarrow> tab w' = raw_upd (tab w) t k (Some v)"
    and insert_err: "rd_insert D w t k v = (Inl e, w') \<Longrightarrow>
      tab w' = tab w \<or> tab w' = raw_upd (tab w) t k (Some v)"
    and remove_ok: "rd_remove D w t k = (Inr old, w') \<Longrightarrow>
      tab w t k = old \<and> tab w' = raw_upd (tab w) t k None"
    and remove_err: "rd_remove D w t k = (Inl e, w') \<Longrightarrow>
      tab w' = tab w \<or> tab w' = raw_upd (tab w) t k None"
    and range_ok: "rd_range D d t lo hi = Inr (xs, err) \<Longrightarrow>
      sorted_wrt (<) (map fst xs) \<and>
      (\<forall>(k, v) \<in> set xs. in_range lo hi k \<and> tab d t k = Some v) \<and>
      (\<forall>k v. in_range lo hi k \<longrightarrow> tab d t k = Some v \<longrightarrow>
         (k, v) \<in> set xs \<or> err \<noteq> None \<and> (\<forall>(k', _) \<in> set xs. k' < k))"
    and commit_ok: "rd_commit D d w = (Inr u, d') \<Longrightarrow> tab d' = tab w"
    and commit_err: "rd_commit D d w = (Inl e, d') \<Longrightarrow> tab d' = tab d \<or> tab d' = tab w"
    and compact_keeps: "rd_compact D d = (cr, d') \<Longrightarrow> tab d' = tab d"

subsection \<open>Write operations on tables\<close>

definition raw_put :: "tables \<Rightarrow> string \<Rightarrow> bytes \<Rightarrow> bytes \<Rightarrow> tables" where
  "raw_put m t k v = raw_upd m t k
     (Some (wrap_envelope ((case m t k of Some r \<Rightarrow> read_version r | None \<Rightarrow> 0) + 1) v))"

fun raw_put_all :: "tables \<Rightarrow> string \<Rightarrow> (bytes \<times> bytes) list \<Rightarrow> tables" where
  "raw_put_all m t [] = m"
| "raw_put_all m t ((k, v) # es) = raw_put_all (raw_put m t k v) t es"

fun raw_del_all :: "tables \<Rightarrow> string \<Rightarrow> bytes list \<Rightarrow> tables" where
  "raw_del_all m t [] = m"
| "raw_del_all m t (k # ks) = raw_del_all (raw_upd m t k None) t ks"

fun raw_del_hits :: "tables \<Rightarrow> string \<Rightarrow> bytes list \<Rightarrow> bool list" where
  "raw_del_hits m t [] = []"
| "raw_del_hits m t (k # ks) = (m t k \<noteq> None) # raw_del_hits (raw_upd m t k None) t ks"

text \<open>What an operation answers and does when no storage call fails.\<close>

fun spec_op :: "tables \<Rightarrow> write_op \<Rightarrow> op_result \<times> tables" where
  "spec_op m (PutOp t k v) = (UnitR (Inr ()), raw_put m t k v)"
| "spec_op m (PutIfVersionOp t k v exp) =
     (if exp = map_option read_version (m t k) then (BoolR (Inr True), raw_put m t k v)
      else (BoolR (Inr False), m))"
| "spec_op m (DeleteOp t k) = (BoolR (Inr (m t k \<noteq> None)), raw_upd m t k None)"
| "spec_op m (DeleteIfVersionOp t k n) =
     (if map_option read_version (m t k) = Some n then (BoolR (Inr True), raw_upd m t k None)
      else (BoolR (Inr False), m))"
| "spec_op m (DeleteReturningOp t k) =
     (OptBytesR (Inr (map_option (\<lambda>r. fst (unwrap_envelope r)) (m t k))), raw_upd m t k None)"
| "spec_op m (DeleteBatchOp t ks) = (BoolsR (Inr (raw_del_hits m t ks)), raw_del_all m t ks)"
| "spec_op m (PutBatchOp t es) = (UnitR (Inr ()), raw_put_all m t es)"

fun op_failed :: "op_result \<Rightarrow> bool" where
  "op_failed (UnitR r) = isl r"
| "op_failed (BoolR r) = isl r"
| "op_failed (BoolsR r) = isl r"
| "op_failed (OptBytesR r) = isl r"

fun reply_failed :: "reply \<Rightarrow> bool" where
  "reply_failed (UnitReply r) = isl r"
| "reply_failed (BoolReply r) = isl r"
| "reply_failed (BoolsReply r) = isl r"
| "reply_failed (OptBytesReply r) = isl r"

text \<open>The keys an operation names, and those it may create.\<close>

fun op_keys :: "write_op \<Rightarrow> (string \<times> bytes) set" where
  "op_keys (PutOp t k v) = {(t, k)}"
| "op_keys (PutIfVersionOp t k v exp) = {(t, k)}"
| "op_keys (DeleteOp t k) = {(t, k)}"
| "op_keys (DeleteIfVersionOp t k n) = {(t, k)}"
| "op_keys (DeleteReturningOp t k) = {(t, k)}"
| "op_keys (DeleteBatchOp t ks) = Pair t ` set ks"
| "op_keys (PutBatchOp t es) = Pair t ` fst ` set es"

fun op_creates :: "write_op \<Rightarrow> (string \<times> bytes) set" where
  "op_creates (PutOp t k v) = {(t, k)}"
| "op_creates (PutIfVersionOp t k v exp) = {(t, k)}"
| "op_creates (PutBatchOp t es) = Pair t ` fst ` set es"
| "op_creates _ = {}"

definition raw_frame ::
    "(string \<times> bytes) set \<Rightarrow> (string \<times> bytes) set \<Rightarrow> tables \<Rightarrow> tables \<Rightarrow> bool" where
  "raw_frame K C m m' \<longleftrightarrow> (\<forall>t k. (t, k) \<notin> K \<longrightarrow> m' t k = m t k) \<and>
     (\<forall>t k. m' t k \<noteq> None \<longrightarrow> m t k \<noteq> None \<or> (t, k) \<in> C)"

lemma reply_failed_error [simp]: "reply_failed (error_reply e op)"
  by (cases op) simp_all

lemma raw_frame_refl [simp]: "raw_frame K C m m"
  by (simp add: raw_frame_def)

lemma raw_frame_upd [simp]:
  "(t, k) \<in> K \<Longrightarrow> x = None \<or> (t, k) \<in> C \<Longrightarrow> raw_frame K C m (raw_upd m t k x)"
  by (auto simp: raw_frame_def raw_upd_apply)

lemma raw_frame_put [simp]: "(t, k) \<in> K \<Longrightarrow> (t, k) \<in> C \<Longrightarrow> raw_frame K C m (raw_put m t k v)"
  by (simp add: raw_put_def)

lemma raw_frame_trans: "raw_frame K C m m1 \<Longrightarrow> raw_frame K C m1 m2 \<Longrightarrow> raw_frame K C m m2"
  unfolding raw_frame_def by metis

lemma raw_frame_mono:
  "raw_frame K C m m' \<Longrightarrow> K \<subseteq> L \<Longrightarrow> C \<subseteq> E \<Longrightarrow> raw_frame L E m m'"
  unfolding raw_frame_def by blast

lemma raw_frame_del_all: "Pair t ` set ks \<subseteq> K \<Longrightarrow> raw_frame K C m (raw_del_all m t ks)"
  by (induction ks arbitrary: m) (auto intro: raw_frame_trans [OF raw_frame_upd])

lemma raw_frame_put_all:
  "Pair t ` fst ` set es \<subseteq> K \<Longrightarrow> Pair t ` fst ` set es \<subseteq> C \<Longrightarrow>
    raw_frame K C m (raw_put_all m t es)"
proof (induction es arbitrary: m)
  case (Cons e es)
  then show ?case by (cases e) (auto intro: raw_frame_trans [OF raw_frame_put])
qed simp

lemma raw_frame_spec: "raw_frame (op_keys op) (op_creates op) m (snd (spec_op m op))"
  by (cases op) (simp_all add: raw_frame_del_all raw_frame_put_all)

fun spec_ops :: "tables \<Rightarrow> write_op list \<Rightarrow> op_result list \<times> tables" where
  "spec_ops m [] = ([], m)"
| "spec_ops m (op # ops) =
    (case spec_op m op of (r, m1) \<Rightarrow> case spec_ops m1 ops of (rs, m2) \<Rightarrow> (r # rs, m2))"

text \<open>An outcome of an operation: the specified one, or an error that touched its own keys only.\<close>

definition op_outcome :: "tables \<Rightarrow> write_op \<Rightarrow> op_result \<Rightarrow> tables \<Rightarrow> bool" where
  "op_outcome m op r m' \<longleftrightarrow> (r, m') = spec_op m op \<or>
     op_failed r \<and> raw_frame (op_keys op) (op_creates op) m m'"

context redb_db
begin

lemma put_one_spec:
  assumes "put_one D w t k v = (r, w')"
  shows "r = Inr () \<and> tab w' = raw_put (tab w) t k v \<or>
    isl r \<and> (tab w' = tab w \<or> tab w' = raw_put (tab w) t k v)"
  using assms
  by (auto simp: put_one_def raw_put_def split: sum.splits prod.splits
      dest!: get_ok insert_ok insert_err)

lemma put_if_version_one_spec:
  assumes "put_if_version_one D w t k v exp = (r, w')"
  shows "(if exp = map_option read_version (tab w t k)
      then r = Inr True \<and> tab w' = raw_put (tab w) t k v else r = Inr False \<and> tab w' = tab w) \<or>
    isl r \<and> (tab w' = tab w \<or> tab w' = raw_put (tab w) t k v)"
proof (cases "rd_get D w t k")
  case (Inl e)
  with assms show ?thesis by (auto simp: put_if_version_one_def)
next
  case (Inr cur)
  note cur = get_ok [OF Inr]
  show ?thesis
  proof (cases "exp = map_option read_version cur")
    case False
    with assms Inr cur show ?thesis
      by (cases exp; cases cur) (auto simp: put_if_version_one_def)
  next
    case True
    then have "(case exp of Some n \<Rightarrow> n | None \<Rightarrow> 0) =
        (case cur of Some r \<Rightarrow> read_version r | None \<Rightarrow> 0)"
      by (cases cur) auto
    with assms Inr True
    have "(case rd_insert D w t k
             (wrap_envelope ((case cur of Some r \<Rightarrow> read_version r | None \<Rightarrow> 0) + 1) v) of
             (Inr _, w') \<Rightarrow> (Inr True, w') | (Inl e, w') \<Rightarrow> (Inl e, w')) = (r, w')"
      by (cases cur) (auto simp: put_if_version_one_def)
    with True cur show ?thesis
      by (auto simp: raw_put_def split: sum.splits prod.splits dest!: insert_ok insert_err)
  qed
qed

lemma delete_batch_loop_spec:
  "delete_batch_loop D w t ks acc = (r, w') \<Longrightarrow>
    (r = Inr (acc @ raw_del_hits (tab w) t ks) \<and> tab w' = raw_del_all (tab w) t ks) \<or>
    isl r \<and> raw_frame (Pair t ` set ks) {} (tab w) (tab w')"
proof (induction ks arbitrary: w acc)
  case (Cons k ks)
  show ?case
  proof (cases "rd_remove D w t k")
    case (Pair x w1)
    show ?thesis
    proof (cases x)
      case (Inl e)
      with Pair have "raw_frame (Pair t ` set (k # ks)) {} (tab w) (tab w1)"
        by (auto dest!: remove_err)
      moreover from Inl Pair Cons.prems have "r = Inl e" "w' = w1" by auto
      ultimately show ?thesis by simp
    next
      case (Inr old)
      with Pair remove_ok [of w t k old w1]
      have old: "old = tab w t k" "tab w1 = raw_upd (tab w) t k None" by auto
      from Cons.prems Pair Inr
      have "delete_batch_loop D w1 t ks (acc @ [old \<noteq> None]) = (r, w')" by simp
      from Cons.IH [OF this] show ?thesis
      proof (elim disjE conjE)
        assume "isl r" "raw_frame (Pair t ` set ks) {} (tab w1) (tab w')"
        moreover from this(2) old(2) have "raw_frame (Pair t ` set (k # ks)) {} (tab w) (tab w')"
          by (auto intro: raw_frame_trans [OF raw_frame_upd raw_frame_mono])
        ultimately show ?thesis by simp
      qed (simp add: old)
    qed
  qed
qed simp

lemma put_batch_loop_spec:
  "put_batch_loop D w t es = (r, w') \<Longrightarrow>
    (r = Inr () \<and> tab w' = raw_put_all (tab w) t es) \<or>
    isl r \<and> raw_frame (Pair t ` fst ` set es) (Pair t ` fst ` set es) (tab w) (tab w')"
proof (induction es arbitrary: w)
  case (Cons e es)
  obtain k v where e: "e = (k, v)" by (cases e)
  obtain x w1 where one: "put_one D w t k v = (x, w1)" by fastforce
  let ?K = "Pair t ` fst ` set (e # es)"
  have f1: "raw_frame ?K ?K (tab w) (tab w1)"
    using put_one_spec [OF one] e by (auto simp del: image_insert simp: image_iff)
  show ?case
  proof (cases x)
    case (Inl err)
    with one e f1 Cons.prems show ?thesis by auto
  next
    case (Inr u)
    with put_one_spec [OF one] have w1: "tab w1 = raw_put (tab w) t k v" by auto
    from Cons.prems one e Inr have "put_batch_loop D w1 t es = (r, w')" by simp
    from Cons.IH [OF this] show ?thesis
    proof (elim disjE conjE)
      assume "isl r" "raw_frame (Pair t ` fst ` set es) (Pair t ` fst ` set es) (tab w1) (tab w')"
      then have "raw_frame ?K ?K (tab w1) (tab w')" by (auto elim!: raw_frame_mono)
      with f1 \<open>isl r\<close> show ?thesis by (auto intro: raw_frame_trans)
    qed (simp add: e w1)
  qed
qed simp

lemma with_table_spec:
  assumes "with_table D w t wrap f = (r, w')"
    and "\<And>w1 x w2. tab w1 = tab w \<Longrightarrow> f w1 = (x, w2) \<Longrightarrow> Q (wrap x) (tab w2)"
    and "\<And>e. Q (wrap (Inl e)) (tab w)"
  shows "Q r (tab w')"
  using assms by (auto simp: with_table_def split: sum.splits prod.splits dest: open_write)

lemma execute_op_spec:
  assumes "execute_op D w op = (r, w')"
  shows "op_outcome (tab w) op r (tab w')"
proof (cases op)
  case (PutOp t k v)
  show ?thesis
    by (rule with_table_spec [OF assms [unfolded PutOp execute_op.simps]])
      (auto simp: PutOp op_outcome_def dest!: put_one_spec)
next
  case (PutIfVersionOp t k v exp)
  show ?thesis
    by (rule with_table_spec [OF assms [unfolded PutIfVersionOp execute_op.simps]])
      (auto simp: PutIfVersionOp op_outcome_def dest!: put_if_version_one_spec split: if_splits)
next
  case (DeleteOp t k)
  show ?thesis
    by (rule with_table_spec [OF assms [unfolded DeleteOp execute_op.simps]])
      (auto simp: DeleteOp op_outcome_def delete_one_def
        split: sum.splits prod.splits dest!: remove_ok remove_err)
next
  case (DeleteIfVersionOp t k n)
  show ?thesis
    by (rule with_table_spec [OF assms [unfolded DeleteIfVersionOp execute_op.simps]])
      (auto simp: DeleteIfVersionOp op_outcome_def delete_if_version_one_def delete_one_def
        split: sum.splits prod.splits if_splits dest!: get_ok remove_ok remove_err)
next
  case (DeleteReturningOp t k)
  show ?thesis
    by (rule with_table_spec [OF assms [unfolded DeleteReturningOp execute_op.simps]])
      (auto simp: DeleteReturningOp op_outcome_def delete_returning_one_def
        split: sum.splits prod.splits option.splits dest!: remove_ok remove_err)
next
  case (DeleteBatchOp t ks)
  show ?thesis
    by (rule with_table_spec [OF assms [unfolded DeleteBatchOp execute_op.simps]])
      (auto simp: DeleteBatchOp op_outcome_def dest!: delete_batch_loop_spec)
next
  case (PutBatchOp t es)
  show ?thesis
    by (rule with_table_spec [OF assms [unfolded PutBatchOp execute_op.simps]])
      (auto simp: PutBatchOp op_outcome_def dest!: put_batch_loop_spec)
qed

lemma execute_ops_spec:
  "execute_ops D w ops = (rs, w') \<Longrightarrow> \<forall>r \<in> set rs. \<not> op_failed r \<Longrightarrow>
    (rs, tab w') = spec_ops (tab w) ops"
proof (induction ops arbitrary: w rs w')
  case (Cons op ops)
  obtain r w1 where one: "execute_op D w op = (r, w1)" by fastforce
  obtain rs' w2 where rest: "execute_ops D w1 ops = (rs', w2)" by fastforce
  from Cons.prems one rest have rs: "rs = r # rs'" "w' = w2" by auto
  with Cons.prems execute_op_spec [OF one] have "(r, tab w1) = spec_op (tab w) op"
    by (simp add: op_outcome_def)
  moreover from Cons.IH [OF rest] rs Cons.prems(2)
  have "spec_ops (tab w1) ops = (rs', tab w2)" by simp
  ultimately show ?case using rs by (simp flip: \<open>(r, tab w1) = spec_op (tab w) op\<close>)
qed simp

text \<open>A batch of one operation, as the writer task executes it.\<close>

lemma execute_batch_one:
  assumes "execute_batch D db [op] = (reps, db')"
  shows "\<exists>rep. reps = [Some rep] \<and> raw_frame (op_keys op) (op_creates op) (tab db) (tab db') \<and>
    (\<not> reply_failed rep \<longrightarrow>
      reply_of op (fst (spec_op (tab db) op)) = Some rep \<and> tab db' = snd (spec_op (tab db) op))"
proof (cases "rd_begin_write D db")
  case (Inl e)
  with assms show ?thesis by (auto simp: execute_batch_def send_errors_def)
next
  case (Inr w)
  obtain r w1 where one: "execute_op D w op = (r, w1)" by fastforce
  have out: "op_outcome (tab db) op r (tab w1)"
    using execute_op_spec [OF one] begin_write [OF Inr] by simp
  then have frame: "raw_frame (op_keys op) (op_creates op) (tab db) (tab w1)"
    unfolding op_outcome_def using raw_frame_spec [of op "tab db"] by (metis snd_conv)
  obtain c db1 where com: "rd_commit D db w1 = (c, db1)" by fastforce
  show ?thesis
  proof (cases c)
    case (Inl e)
    have "raw_frame (op_keys op) (op_creates op) (tab db) (tab db1)"
      using commit_err [OF com [unfolded Inl]] frame by auto
    with assms Inr one com Inl show ?thesis by (auto simp: execute_batch_def send_errors_def)
  next
    case (Inr u)
    have tab: "tab db1 = tab w1" by (rule commit_ok [OF com [unfolded Inr]])
    obtain rep where rep: "reply_of op r = Some rep"
      using reply_of_execute_op [of op D w] one by auto
    from assms \<open>rd_begin_write D db = Inr w\<close> one com Inr rep
    have "reps = [Some rep]" "db' = db1" by (auto simp: execute_batch_def)
    moreover have "\<not> op_failed r" if "\<not> reply_failed rep"
      using rep that by (cases op; cases r) (auto simp: map_err_def split: sum.splits)
    ultimately show ?thesis using out frame tab rep by (auto simp: op_outcome_def prod_eq_iff)
  qed
qed

text \<open>A batch all of whose operations succeed is the operations one after the other.\<close>

lemma execute_batch_sequential:
  assumes "execute_batch D db batch = (reps, db')"
    and "\<forall>x \<in> set reps. \<exists>rep. x = Some rep \<and> \<not> reply_failed rep"
  shows "reps = map2 reply_of batch (fst (spec_ops (tab db) batch)) \<and>
    tab db' = snd (spec_ops (tab db) batch)"
proof (cases "batch = []")
  case True
  with assms(1) show ?thesis
    by (auto simp: execute_batch_def send_errors_def split: sum.splits prod.splits
        dest!: begin_write commit_ok commit_err)
next
  case False
  have no_err: "reps \<noteq> send_errors batch e" for e
  proof
    assume "reps = send_errors batch e"
    moreover from False have "hd batch \<in> set batch" by simp
    ultimately obtain op where "Some (error_reply e op) \<in> set reps"
      by (auto simp: send_errors_def)
    with assms(2) show False by auto
  qed
  obtain w where w: "rd_begin_write D db = Inr w"
    using assms(1) no_err by (auto simp: execute_batch_def split: sum.splits)
  obtain rs w1 where ops: "execute_ops D w batch = (rs, w1)" by fastforce
  obtain u where com: "rd_commit D db w1 = (Inr u, db')" and reps: "reps = map2 reply_of batch rs"
    using assms(1) no_err w ops by (auto simp: execute_batch_def split: sum.splits prod.splits)
  have len: "length rs = length batch" using length_execute_ops [of D w batch] ops by simp
  have "\<not> op_failed r" if r: "r \<in> set rs" for r
  proof -
    from r len obtain i where i: "i < length batch" "r = rs ! i" by (auto simp: in_set_conv_nth)
    then have "reps ! i = reply_of (batch ! i) r" "i < length reps"
      using reps len by simp_all
    then have "reply_of (batch ! i) r \<in> set reps" by (metis nth_mem)
    with assms(2) obtain rep where "reply_of (batch ! i) r = Some rep" "\<not> reply_failed rep"
      by metis
    then show ?thesis by (cases "batch ! i"; cases r) (auto simp: map_err_def split: sum.splits)
  qed
  then have "(rs, tab w1) = spec_ops (tab db) batch"
    using execute_ops_spec [OF ops] begin_write [OF w] by simp
  with commit_ok [OF com] reps show ?thesis by (metis fst_conv snd_conv)
qed

end

lemma spec_ops_append:
  "spec_ops m (xs @ ys) = (case spec_ops m xs of (rs, m1) \<Rightarrow> case spec_ops m1 ys of (rs', m2) \<Rightarrow> (rs @ rs', m2))"
  by (induction xs arbitrary: m) (auto split: prod.splits)

lemma length_spec_ops [simp]: "length (fst (spec_ops m xs)) = length xs"
  by (induction xs arbitrary: m) (simp_all add: case_prod_unfold)

lemma replies_append:
  "map2 reply_of xs (fst (spec_ops m xs)) @ map2 reply_of ys (fst (spec_ops (snd (spec_ops m xs)) ys)) =
    map2 reply_of (xs @ ys) (fst (spec_ops m (xs @ ys)))"
  "snd (spec_ops (snd (spec_ops m xs)) ys) = snd (spec_ops m (xs @ ys))"
  by (simp_all add: spec_ops_append case_prod_unfold)

lemma length_execute_batch:
  assumes "execute_batch D db batch = (reps, db')"
  shows "length reps = length batch"
proof -
  have "length rs = length batch" if "execute_ops D w batch = (rs, w')" for w rs w'
    using length_execute_ops [of D w batch] that by simp
  then show ?thesis
    using assms by (auto simp: execute_batch_def send_errors_def split: sum.splits prod.splits)
qed

context redb_db
begin

text \<open>However the writer task cuts the queue into batches, the operations take effect in queue order.\<close>

lemma writer_task_sequential:
  "writer_task D avail db queue = (reps, db') \<Longrightarrow>
    \<forall>x \<in> set reps. \<exists>rep. x = Some rep \<and> \<not> reply_failed rep \<Longrightarrow>
    length reps \<le> length queue \<and>
    reps = map2 reply_of (take (length reps) queue) (fst (spec_ops (tab db) (take (length reps) queue))) \<and>
    tab db' = snd (spec_ops (tab db) (take (length reps) queue))"
proof (induction avail arbitrary: db queue reps)
  case (Cons k avail)
  show ?case
  proof (cases queue)
    case Nil
    with Cons.prems show ?thesis by simp
  next
    case (Cons first q)
    define m where "m = min k (BATCH_CAP - 1)"
    obtain r1 db1 where b: "execute_batch D db (first # take m q) = (r1, db1)" by fastforce
    obtain r2 db2 where rest: "writer_task D avail db1 (drop m q) = (r2, db2)" by fastforce
    from Cons.prems(1) b rest have reps: "reps = r1 @ r2" "db' = db2"
      by (auto simp: Let_def m_def Cons)
    have one: "r1 = map2 reply_of (first # take m q) (fst (spec_ops (tab db) (first # take m q)))"
      "tab db1 = snd (spec_ops (tab db) (first # take m q))"
      using execute_batch_sequential [OF b] Cons.prems(2) reps by auto
    have two: "length r2 \<le> length (drop m q)"
      "r2 = map2 reply_of (take (length r2) (drop m q)) (fst (spec_ops (tab db1) (take (length r2) (drop m q))))"
      "tab db2 = snd (spec_ops (tab db1) (take (length r2) (drop m q)))"
      using Cons.IH [of db1 "drop m q" r2] rest reps Cons.prems(2) by simp_all
    have len: "length r1 = length (first # take m q)" by (rule length_execute_batch [OF b])
    have "take (length reps) queue = (first # take m q) @ take (length r2) (drop m q)"
    proof (cases "m \<le> length q")
      case True
      then show ?thesis by (simp add: reps len Cons take_add)
    next
      case False
      with two(1) have "r2 = []" by simp
      with False show ?thesis by (simp add: reps len Cons)
    qed
    moreover have "length reps \<le> length queue" using len two(1) reps Cons by auto
    ultimately show ?thesis
      using one two reps replies_append [where xs = "first # take m q" and m = "tab db"
          and ys = "take (length r2) (drop m q)"]
      by metis
  qed
qed simp

end

subsection \<open>Tables as a view\<close>

definition decode_view :: "tables \<Rightarrow> kv_view" where
  "decode_view m t pk sk =
    (if pk_ok pk then map_option unwrap_envelope (m t (flat_key pk sk)) else None)"

definition keys_ok :: "tables \<Rightarrow> bool" where
  "keys_ok m \<longleftrightarrow> (\<forall>t k. m t k \<noteq> None \<longrightarrow> (\<exists>pk sk. pk_ok pk \<and> sk_ok sk \<and> k = flat_key pk sk))"

lemma decode_view_upd:
  "pk_ok pk \<Longrightarrow> decode_view (raw_upd m t (flat_key pk sk) x) =
    view_upd (decode_view m) t pk sk (map_option unwrap_envelope x)"
  by (intro ext) (auto simp: decode_view_def raw_upd_def)

lemma decode_view_put:
  "pk_ok pk \<Longrightarrow> decode_view (raw_put m t (flat_key pk sk) b) = view_put (decode_view m) t pk sk b"
  by (simp add: raw_put_def decode_view_upd next_version_unwrap [symmetric])
    (simp add: decode_view_def)

lemma decode_view_apply [simp]:
  "pk_ok pk \<Longrightarrow> decode_view m t pk sk = map_option unwrap_envelope (m t (flat_key pk sk))"
  by (simp add: decode_view_def)

lemma decode_view_del_all:
  "\<forall>(pk, sk) \<in> set ks. pk_ok pk \<Longrightarrow>
    decode_view (raw_del_all m t (map (\<lambda>(pk, sk). flat_key pk sk) ks)) = view_del_all (decode_view m) t ks"
proof (induction ks arbitrary: m)
  case (Cons k ks)
  obtain pk sk where k: "k = (pk, sk)" by (cases k)
  have "decode_view (raw_del_all (raw_upd m t (flat_key pk sk) None) t
      (map (\<lambda>(pk, sk). flat_key pk sk) ks)) =
    view_del_all (decode_view (raw_upd m t (flat_key pk sk) None)) t ks"
    by (rule Cons.IH) (use Cons.prems in simp)
  with k Cons.prems show ?case by (simp add: decode_view_upd)
qed simp

lemma decode_view_del_hits:
  "\<forall>(pk, sk) \<in> set ks. pk_ok pk \<Longrightarrow>
    raw_del_hits m t (map (\<lambda>(pk, sk). flat_key pk sk) ks) = view_del_hits (decode_view m) t ks"
proof (induction ks arbitrary: m)
  case (Cons k ks)
  obtain pk sk where k: "k = (pk, sk)" by (cases k)
  have "raw_del_hits (raw_upd m t (flat_key pk sk) None) t (map (\<lambda>(pk, sk). flat_key pk sk) ks) =
    view_del_hits (decode_view (raw_upd m t (flat_key pk sk) None)) t ks"
    by (rule Cons.IH) (use Cons.prems in simp)
  with k Cons.prems show ?case by (simp add: decode_view_upd)
qed simp

lemma decode_view_put_all:
  "\<forall>(pk, sk, b) \<in> set es. pk_ok pk \<and> sk_ok sk \<Longrightarrow>
    decode_view (raw_put_all m t (map (\<lambda>(pk, sk, b). (flat_key pk sk, b)) es)) =
    view_put_all (decode_view m) t es"
proof (induction es arbitrary: m)
  case (Cons e es)
  obtain pk sk b where e: "e = (pk, sk, b)" by (cases e)
  have "decode_view (raw_put_all (raw_put m t (flat_key pk sk) b) t
      (map (\<lambda>(pk, sk, b). (flat_key pk sk, b)) es)) =
    view_put_all (decode_view (raw_put m t (flat_key pk sk) b)) t es"
    by (rule Cons.IH) (use Cons.prems in simp)
  with e Cons.prems show ?case by (simp add: decode_view_put del: decode_view_apply)
qed simp

text \<open>A frame on the flat keys is a frame on the view, and keeps the keys well formed.\<close>

lemma decode_view_frame:
  assumes "raw_frame K C m m'" and "\<And>t pk sk. (t, flat_key pk sk) \<in> K \<Longrightarrow> pk_ok pk \<Longrightarrow> (t, pk, sk) \<in> L"
  shows "view_frame L (decode_view m) (decode_view m')"
  unfolding view_frame_def
proof (intro allI impI)
  fix t pk sk assume "(t, pk, sk) \<notin> L"
  with assms have "m' t (flat_key pk sk) = m t (flat_key pk sk)" if "pk_ok pk"
    using that unfolding raw_frame_def by blast
  then show "decode_view m' t pk sk = decode_view m t pk sk" by (simp add: decode_view_def)
qed

lemma keys_ok_frame:
  assumes "raw_frame K C m m'" "keys_ok m"
    and "\<And>t k. (t, k) \<in> C \<Longrightarrow> \<exists>pk sk. pk_ok pk \<and> sk_ok sk \<and> k = flat_key pk sk"
  shows "keys_ok m'"
  unfolding keys_ok_def
proof (intro allI impI)
  fix t k assume "m' t k \<noteq> None"
  with assms(1) have "m t k \<noteq> None \<or> (t, k) \<in> C" unfolding raw_frame_def by blast
  with assms(2,3) show "\<exists>pk sk. pk_ok pk \<and> sk_ok sk \<and> k = flat_key pk sk"
    unfolding keys_ok_def by blast
qed

text \<open>The state of the store: while a compaction owns the database there is nothing to see.\<close>

definition redb_tables :: "('d \<Rightarrow> tables) \<Rightarrow> 'd redb_store \<Rightarrow> tables" where
  "redb_tables tab st = (case rs_db st of None \<Rightarrow> \<lambda>_ _. None | Some d \<Rightarrow> tab d)"

definition redb_view :: "('d \<Rightarrow> tables) \<Rightarrow> 'd redb_store \<Rightarrow> kv_view" where
  "redb_view tab st = decode_view (redb_tables tab st)"

definition redb_invar :: "('d \<Rightarrow> tables) \<Rightarrow> 'd redb_store \<Rightarrow> bool" where
  "redb_invar tab st \<longleftrightarrow> keys_ok (redb_tables tab st)"

definition extract_ok :: "(reply \<Rightarrow> 'a result option) \<Rightarrow> bool" where
  "extract_ok ex \<longleftrightarrow> (\<forall>rep a. ex rep = Some (Inr a) \<longrightarrow> \<not> reply_failed rep)"

lemma extract_ok_replies [simp]:
  "extract_ok unit_reply" "extract_ok bool_reply" "extract_ok bools_reply" "extract_ok opt_bytes_reply"
  unfolding extract_ok_def
  by (metis isl_def Inl_Inr_False option.inject option.distinct(1) reply.exhaust reply_failed.simps
      unit_reply.simps bool_reply.simps bools_reply.simps opt_bytes_reply.simps)+

text \<open>The items a scan makes of the entries a range yields.\<close>

definition sk_items :: "string \<Rightarrow> (bytes \<times> bytes) list \<Rightarrow> (string \<times> bytes) list" where
  "sk_items pk xs = map
     (\<lambda>(k, v). (extract_sk k (length (partition_prefix pk)), fst (unwrap_envelope v))) xs"

context redb_db
begin

text \<open>One write request, from the channel to its reply.\<close>

lemma send_write_spec:
  assumes "extract_ok ex"
  shows "wp (send_write D op ex) (\<lambda>r st'.
    raw_frame (op_keys op) (op_creates op) (redb_tables tab st) (redb_tables tab st') \<and>
    (\<forall>a. r = Inr a \<longrightarrow> redb_tables tab st' = snd (spec_op (redb_tables tab st) op) \<and>
      (\<exists>rep. reply_of op (fst (spec_op (redb_tables tab st) op)) = Some rep \<and>
        ex rep = Some (Inr a)))) st"
proof (cases "rs_db st")
  case None
  then show ?thesis by (simp add: send_write_def wp_def)
next
  case (Some db)
  obtain reps db' where b: "execute_batch D db [op] = (reps, db')" by fastforce
  from execute_batch_one [OF b] obtain rep where "reps = [Some rep]"
    "raw_frame (op_keys op) (op_creates op) (tab db) (tab db')"
    "\<not> reply_failed rep \<Longrightarrow> reply_of op (fst (spec_op (tab db) op)) = Some rep \<and>
      tab db' = snd (spec_op (tab db) op)"
    by blast
  with Some b assms show ?thesis
    by (auto simp: send_write_def wp_def redb_tables_def extract_ok_def Let_def split: option.splits)
qed

lemma send_write_kv:
  fixes Q :: "'a \<Rightarrow> kv_view \<Rightarrow> bool"
  assumes "extract_ok ex" "redb_invar tab st"
    and "\<And>t k. (t, k) \<in> op_creates op \<Longrightarrow> \<exists>pk sk. pk_ok pk \<and> sk_ok sk \<and> k = flat_key pk sk"
    and "\<And>t pk sk. (t, flat_key pk sk) \<in> op_keys op \<Longrightarrow> pk_ok pk \<Longrightarrow> (t, pk, sk) \<in> L"
    and "\<And>a rep. reply_of op (fst (spec_op (redb_tables tab st) op)) = Some rep \<Longrightarrow>
      ex rep = Some (Inr a) \<Longrightarrow> Q a (decode_view (snd (spec_op (redb_tables tab st) op)))"
  shows "wp (send_write D op ex) (kv_write (redb_invar tab) (redb_view tab) st L Q) st"
proof (rule wp_mono [OF send_write_spec [OF assms(1), of op st]], elim conjE)
  fix r :: "'a result" and st'
  assume frame: "raw_frame (op_keys op) (op_creates op) (redb_tables tab st) (redb_tables tab st')"
    and ok: "\<forall>a. r = Inr a \<longrightarrow> redb_tables tab st' = snd (spec_op (redb_tables tab st) op) \<and>
      (\<exists>rep. reply_of op (fst (spec_op (redb_tables tab st) op)) = Some rep \<and> ex rep = Some (Inr a))"
  have "redb_invar tab st'"
    using keys_ok_frame [OF frame] assms(2,3) unfolding redb_invar_def by blast
  moreover have "view_frame L (redb_view tab st) (redb_view tab st')"
    using decode_view_frame [OF frame] assms(4) unfolding redb_view_def by blast
  moreover have "Q a (redb_view tab st')" if "r = Inr a" for a
    using ok that assms(5) unfolding redb_view_def by auto
  ultimately show "kv_write (redb_invar tab) (redb_view tab) st L Q r st'"
    by (cases r) auto
qed

lemma redb_read_spec:
  assumes "redb_invar tab st"
    and "\<And>d a. redb_tables tab st = tab d \<Longrightarrow> f d = Inr a \<Longrightarrow> Q a"
  shows "wp (redb_read D t f) (kv_read (redb_invar tab) (redb_view tab) st Q) st"
  using assms(1) assms(2)
  by (auto simp: redb_read_def wp_def kv_read_def redb_tables_def dest!: begin_read
      split: option.splits sum.splits) metis+

subsubsection \<open>Scans\<close>

lemma scan_loop_spec:
  assumes "\<forall>(k, v) \<in> set xs. keep k" "length acc \<le> limit"
    "scan_loop keep plen limit xs err acc = Inr res"
  defines "ys \<equiv> acc @ map (\<lambda>(k, v). (extract_sk k plen, fst (unwrap_envelope v))) xs"
  shows "sr_items res = take limit ys \<and> (err = None \<or> limit \<le> length ys) \<and>
    (sr_done res \<longrightarrow> err = None \<and> length ys \<le> limit)"
  using assms(1-3) unfolding ys_def
proof (induction xs arbitrary: acc)
  case Nil
  then show ?case by (auto split: option.splits if_splits)
next
  case (Cons x xs)
  show ?case
  proof (cases "limit \<le> length acc")
    case True
    with Cons.prems show ?thesis by (cases x) auto
  next
    case False
    obtain k v where x: "x = (k, v)" by (cases x)
    from Cons.IH [of "acc @ [(extract_sk k plen, fst (unwrap_envelope v))]"] Cons.prems False x
    show ?thesis by (auto simp: Suc_le_eq)
  qed
qed

lemma scan_loop_full:
  "scan_loop keep plen limit xs err acc = Inr res \<Longrightarrow> \<not> sr_done res \<Longrightarrow> limit \<le> length (sr_items res)"
  by (induction keep plen limit xs err acc rule: scan_loop.induct) (auto split: option.splits if_splits)

lemma redb_scan_full:
  "wp (redb_scan_prefix D t pk p limit)
    (\<lambda>r s'. \<forall>res. r = Inr res \<longrightarrow> \<not> sr_done res \<longrightarrow> limit \<le> length (sr_items res)) s"
  "wp (redb_scan_range D t pk lo hi limit)
    (\<lambda>r s'. \<forall>res. r = Inr res \<longrightarrow> \<not> sr_done res \<longrightarrow> limit \<le> length (sr_items res)) s"
  by (auto simp: wp_def redb_scan_prefix_def redb_scan_range_def redb_read_def Let_def
      split: option.splits sum.splits dest: scan_loop_full)

lemma finite_decode_view: "pk_ok pk \<Longrightarrow> finite (dom (decode_view (tab d) t pk))"
proof -
  assume pk: "pk_ok pk"
  then have "dom (decode_view (tab d) t pk) = (\<lambda>sk. flat_key pk sk) -` dom (tab d t)"
    by (auto simp: dom_def)
  moreover have "inj (\<lambda>sk. flat_key pk sk)" by (auto simp: inj_def flat_key_def)
  ultimately show ?thesis using finite_tab [of d t] by (simp add: finite_vimageI)
qed

lemma set_sk_items:
  assumes "\<forall>(k, v) \<in> set xs. \<exists>sk. k = flat_key pk sk \<and> sk_ok sk"
  shows "(sk, b) \<in> set (sk_items pk xs) \<longleftrightarrow>
    (\<exists>v. (flat_key pk sk, v) \<in> set xs \<and> sk_ok sk \<and> b = fst (unwrap_envelope v))"
proof
  assume "(sk, b) \<in> set (sk_items pk xs)"
  then obtain k v where kv: "(k, v) \<in> set xs" "b = fst (unwrap_envelope v)"
    "sk = extract_sk k (length (partition_prefix pk))" by (auto simp: sk_items_def)
  with bspec [OF assms kv(1)]
  show "\<exists>v. (flat_key pk sk, v) \<in> set xs \<and> sk_ok sk \<and> b = fst (unwrap_envelope v)" by auto
next
  assume "\<exists>v. (flat_key pk sk, v) \<in> set xs \<and> sk_ok sk \<and> b = fst (unwrap_envelope v)"
  then show "(sk, b) \<in> set (sk_items pk xs)" by (force simp: sk_items_def image_iff)
qed

lemma sorted_sk_items:
  assumes "sorted_wrt (<) (map fst xs)"
    and "\<forall>(k, v) \<in> set xs. \<exists>sk. k = flat_key pk sk \<and> sk_ok sk"
  shows "sorted_wrt (<) (map fst (sk_items pk xs))"
  using assms
proof (induction xs)
  case (Cons x xs)
  obtain k v where x: "x = (k, v)" by (cases x)
  with Cons.prems(2) obtain sk where sk: "k = flat_key pk sk" "sk_ok sk" by auto
  have keys: "\<forall>(k, v) \<in> set xs. \<exists>sk. k = flat_key pk sk \<and> sk_ok sk"
    using Cons.prems(2) by simp
  have "sk < sk'" if "(sk', b) \<in> set (sk_items pk xs)" for sk' b
  proof -
    from that obtain v' where "(flat_key pk sk', v') \<in> set xs" unfolding set_sk_items [OF keys] by blast
    with Cons.prems(1) x sk have "flat_key pk sk < flat_key pk sk'" by force
    then show ?thesis by simp
  qed
  moreover have "sk_items pk (x # xs) = (sk, fst (unwrap_envelope v)) # sk_items pk xs"
    using x sk by (simp add: sk_items_def)
  moreover have "sorted_wrt (<) (map fst (sk_items pk xs))" using Cons.IH Cons.prems(1) keys by simp
  ultimately show ?case by force
qed (simp add: sk_items_def)

text \<open>
  What the iterator of a range yields for the keys of one partition: the entries of the view in
  order, possibly cut short by an error.
\<close>

lemma range_entries:
  assumes inv: "keys_ok (tab d)" and pk: "pk_ok pk"
    and rng: "rd_range D d t lo hi = Inr (xs, err)"
    and keys: "\<And>pk' sk. pk_ok pk' \<Longrightarrow> in_range lo hi (flat_key pk' sk) \<longleftrightarrow> pk' = pk \<and> P sk"
  shows "\<exists>zs. entries_where (decode_view (tab d) t pk) P = sk_items pk xs @ zs \<and> (err = None \<longrightarrow> zs = [])"
proof -
  note complete = range_ok [OF rng, THEN conjunct2, THEN conjunct2, rule_format]
  note rng = range_ok [OF rng]
  have mem: "in_range lo hi k \<and> tab d t k = Some v" if "(k, v) \<in> set xs" for k v
    using rng that by blast
  have keyP: "\<exists>sk. k = flat_key pk sk \<and> sk_ok sk \<and> P sk" if "(k, v) \<in> set xs" for k v
  proof -
    from mem [OF that] have k: "in_range lo hi k" "tab d t k \<noteq> None" by auto
    then obtain pk' sk where "pk_ok pk'" "sk_ok sk" "k = flat_key pk' sk"
      using inv unfolding keys_ok_def by blast
    with k keys show ?thesis by blast
  qed
  then have key: "\<forall>(k, v) \<in> set xs. \<exists>sk. k = flat_key pk sk \<and> sk_ok sk" by blast
  have rest: "(k, b) \<in> set (sk_items pk xs) \<or> err \<noteq> None \<and> (\<forall>y \<in> set (sk_items pk xs). fst y < k)"
    if m: "decode_view (tab d) t pk k = Some (b, n)" "P k" for k b n
  proof -
    from m pk obtain v where v: "tab d t (flat_key pk k) = Some v" "b = fst (unwrap_envelope v)"
      by (metis decode_view_apply fst_conv map_option_eq_Some)
    then obtain pk' sk where "pk_ok pk'" "sk_ok sk" "flat_key pk k = flat_key pk' sk"
      using inv unfolding keys_ok_def by blast
    with pk have "sk_ok k" by simp
    have "in_range lo hi (flat_key pk k)" using keys [OF pk] m(2) by blast
    then consider "(flat_key pk k, v) \<in> set xs"
      | "err \<noteq> None" "\<forall>(k', _) \<in> set xs. k' < flat_key pk k"
      using complete [OF _ v(1)] by metis
    then show ?thesis
    proof cases
      case 1
      with v(2) \<open>sk_ok k\<close> show ?thesis unfolding set_sk_items [OF key] by blast
    next
      case 2
      have "sk' < k" if "(sk', b') \<in> set (sk_items pk xs)" for sk' b'
        using that 2(2) unfolding set_sk_items [OF key] by force
      with 2(1) show ?thesis by force
    qed
  qed
  have sound: "P k \<and> (\<exists>n. decode_view (tab d) t pk k = Some (b, n))"
    if kb: "(k, b) \<in> set (sk_items pk xs)" for k b
  proof -
    from kb obtain v where v: "(flat_key pk k, v) \<in> set xs" "b = fst (unwrap_envelope v)"
      unfolding set_sk_items [OF key] by blast
    with keyP [OF v(1)] mem [OF v(1)] pk show ?thesis by (auto simp: prod_eq_iff flat_key_def)
  qed
  have "\<exists>zs. entries_where (decode_view (tab d) t pk) P = sk_items pk xs @ zs \<and> (\<not> err \<noteq> None \<longrightarrow> zs = [])"
    by (rule entries_where_prefix [OF finite_decode_view [OF pk]
          sorted_sk_items [OF conjunct1 [OF rng] key] sound rest])
  then show ?thesis by simp
qed

lemma scan_spec:
  assumes inv: "redb_invar tab st" and pk: "pk_ok pk"
    and keys: "\<And>pk' sk. pk_ok pk' \<Longrightarrow> in_range lo hi (flat_key pk' sk) \<longleftrightarrow> pk' = pk \<and> P sk"
    and keep: "\<And>k. in_range lo hi k \<Longrightarrow> keep k"
  shows "wp (redb_read D t (\<lambda>txn. case rd_range D txn t lo hi of
        Inl e \<Rightarrow> Inl (storage_permanent e)
      | Inr (xs, err) \<Rightarrow> scan_loop keep (length (partition_prefix pk)) limit xs err []))
    (kv_read (redb_invar tab) (redb_view tab) st (\<lambda>res.
      sr_items res = take limit (entries_where (redb_view tab st t pk) P) \<and>
      (sr_done res \<longrightarrow> length (entries_where (redb_view tab st t pk) P) \<le> limit))) st"
proof (rule redb_read_spec [OF inv])
  fix d res
  assume d: "redb_tables tab st = tab d"
    and "(case rd_range D d t lo hi of Inl e \<Rightarrow> Inl (storage_permanent e)
      | Inr (xs, err) \<Rightarrow> scan_loop keep (length (partition_prefix pk)) limit xs err []) = Inr res"
  then obtain xs err where rng: "rd_range D d t lo hi = Inr (xs, err)"
    and loop: "scan_loop keep (length (partition_prefix pk)) limit xs err [] = Inr res"
    by (auto split: sum.splits)
  have "\<forall>(k, v) \<in> set xs. keep k" using range_ok [OF rng, THEN conjunct2, THEN conjunct1] keep by blast
  from scan_loop_spec [OF this _ loop]
  have "sr_items res = take limit (sk_items pk xs)" "err = None \<or> limit \<le> length (sk_items pk xs)"
    "sr_done res \<Longrightarrow> err = None \<and> length (sk_items pk xs) \<le> limit"
    by (auto simp: sk_items_def)
  moreover have "keys_ok (tab d)" using inv d by (simp add: redb_invar_def)
  from range_entries [OF this pk rng keys] obtain zs
    where "entries_where (decode_view (tab d) t pk) P = sk_items pk xs @ zs" "err = None \<Longrightarrow> zs = []"
    by blast
  ultimately show "sr_items res = take limit (entries_where (redb_view tab st t pk) P) \<and>
      (sr_done res \<longrightarrow> length (entries_where (redb_view tab st t pk) P) \<le> limit)"
    by (auto simp: redb_view_def d)
qed

lemma prefix_keys:
  "pk_ok pk \<Longrightarrow> pk_ok pk' \<Longrightarrow>
    in_range (partition_prefix pk @ p) (prefix_end (partition_prefix pk @ p)) (flat_key pk' sk) \<longleftrightarrow>
    pk' = pk \<and> starts_with sk p"
  unfolding in_range_def prefix_end_range [symmetric] by (rule starts_with_flat_key)

lemma redb_kv_sels [simp]:
  "kv_get (redb_kv D) = redb_get D" "kv_get_versioned (redb_kv D) = redb_get_versioned D"
  "kv_put (redb_kv D) = redb_put D" "kv_put_if_version (redb_kv D) = redb_put_if_version D"
  "kv_put_if_absent (redb_kv D) = default_put_if_absent (redb_put_if_version D)"
  "kv_delete (redb_kv D) = redb_delete D" "kv_delete_if_version (redb_kv D) = redb_delete_if_version D"
  "kv_delete_returning (redb_kv D) = redb_delete_returning D"
  "kv_scan_prefix (redb_kv D) = redb_scan_prefix D" "kv_scan_range (redb_kv D) = redb_scan_range D"
  "kv_get_consistent (redb_kv D) = default_get_consistent (redb_get D)"
  "kv_delete_batch (redb_kv D) = redb_delete_batch D" "kv_put_batch (redb_kv D) = redb_put_batch D"
  "kv_compact (redb_kv D) = redb_compact D"
  by (simp_all add: redb_kv_def)

lemma redb_put_if_version_spec:
  assumes "redb_invar tab s" "pk_ok pk" "sk_ok sk"
  shows "wp (redb_put_if_version D t pk sk b exp)
    (kv_write (redb_invar tab) (redb_view tab) s {(t, pk, sk)} (\<lambda>ok v.
      ok = (exp = map_option snd (redb_view tab s t pk sk)) \<and>
      v = (if ok then view_put (redb_view tab s) t pk sk b else redb_view tab s))) s"
  unfolding redb_put_if_version_def
proof (rule send_write_kv [OF _ assms(1)])
  fix a rep
  assume "reply_of (PutIfVersionOp t (flat_key pk sk) b exp)
      (fst (spec_op (redb_tables tab s) (PutIfVersionOp t (flat_key pk sk) b exp))) = Some rep"
    and "bool_reply rep = Some (Inr a)"
  with assms(2)
  show "a = (exp = map_option snd (redb_view tab s t pk sk)) \<and>
      decode_view (snd (spec_op (redb_tables tab s) (PutIfVersionOp t (flat_key pk sk) b exp))) =
      (if a then view_put (redb_view tab s) t pk sk b else redb_view tab s)"
    by (auto simp: redb_view_def decode_view_put map_err_def split: if_splits
        simp del: decode_view_apply simp add: decode_view_apply [where sk = sk])
qed (use assms in auto)

lemma redb_get_versioned_spec:
  assumes "redb_invar tab s" "pk_ok pk"
  shows "wp (redb_get_versioned D t pk sk)
    (kv_read (redb_invar tab) (redb_view tab) s (\<lambda>v. v = redb_view tab s t pk sk)) s"
  unfolding redb_get_versioned_def
  by (rule redb_read_spec [OF assms(1)])
    (use assms in \<open>auto simp: redb_view_def split: sum.splits dest!: get_ok\<close>)

lemma redb_get_spec:
  assumes "redb_invar tab s" "pk_ok pk"
  shows "wp (redb_get D t pk sk)
    (kv_read (redb_invar tab) (redb_view tab) s (\<lambda>v. v = map_option fst (redb_view tab s t pk sk))) s"
  unfolding redb_get_def
  by (rule redb_read_spec [OF assms(1)])
    (use assms in \<open>auto simp: redb_view_def option.map_comp comp_def split: sum.splits dest!: get_ok\<close>)

lemma redb_put_spec:
  assumes "redb_invar tab s" "pk_ok pk" "sk_ok sk"
  shows "wp (redb_put D t pk sk b)
    (kv_write (redb_invar tab) (redb_view tab) s {(t, pk, sk)}
      (\<lambda>_ v. v = view_put (redb_view tab s) t pk sk b)) s"
  unfolding redb_put_def
  by (rule send_write_kv [OF _ assms(1)])
    (use assms in \<open>auto simp: redb_view_def decode_view_put simp del: decode_view_apply\<close>)

lemma redb_delete_spec:
  assumes "redb_invar tab s" "pk_ok pk"
  shows "wp (redb_delete D t pk sk)
    (kv_write (redb_invar tab) (redb_view tab) s {(t, pk, sk)} (\<lambda>hit v.
      hit = (redb_view tab s t pk sk \<noteq> None) \<and> v = view_del (redb_view tab s) t pk sk)) s"
  unfolding redb_delete_def
  by (rule send_write_kv [OF _ assms(1)])
    (use assms in \<open>auto simp: redb_view_def decode_view_upd map_err_def\<close>)

lemma redb_delete_if_version_spec:
  assumes "redb_invar tab s" "pk_ok pk"
  shows "wp (redb_delete_if_version D t pk sk n)
    (kv_write (redb_invar tab) (redb_view tab) s {(t, pk, sk)} (\<lambda>ok v.
      ok = (map_option snd (redb_view tab s t pk sk) = Some n) \<and>
      v = (if ok then view_del (redb_view tab s) t pk sk else redb_view tab s))) s"
  unfolding redb_delete_if_version_def
  by (rule send_write_kv [OF _ assms(1)])
    (use assms in \<open>auto simp: redb_view_def decode_view_upd map_err_def read_version_def split: if_splits\<close>)

lemma redb_delete_returning_spec:
  assumes "redb_invar tab s" "pk_ok pk"
  shows "wp (redb_delete_returning D t pk sk)
    (kv_write (redb_invar tab) (redb_view tab) s {(t, pk, sk)} (\<lambda>old v.
      old = map_option fst (redb_view tab s t pk sk) \<and> v = view_del (redb_view tab s) t pk sk)) s"
  unfolding redb_delete_returning_def
  by (rule send_write_kv [OF _ assms(1)])
    (use assms in \<open>auto simp: redb_view_def decode_view_upd map_err_def option.map_comp comp_def\<close>)

lemma redb_delete_batch_spec:
  assumes "redb_invar tab s" "\<forall>(pk, sk) \<in> set ks. pk_ok pk"
  shows "wp (redb_delete_batch D t ks)
    (kv_write (redb_invar tab) (redb_view tab) s {(t, pk, sk) | pk sk. (pk, sk) \<in> set ks}
      (\<lambda>hits v. hits = view_del_hits (redb_view tab s) t ks \<and>
        v = view_del_all (redb_view tab s) t ks)) s"
proof (cases "ks = []")
  case True
  with assms(1) show ?thesis by (simp add: redb_delete_batch_def)
next
  case False
  then show ?thesis
    unfolding redb_delete_batch_def if_not_P [OF False]
    by (intro send_write_kv [OF _ assms(1)])
      (use assms(2) in \<open>fastforce simp: redb_view_def map_err_def
        decode_view_del_all [OF assms(2)] decode_view_del_hits [OF assms(2)]\<close>)+
qed

lemma redb_put_batch_spec:
  assumes "redb_invar tab s" "\<forall>(pk, sk, b) \<in> set es. pk_ok pk \<and> sk_ok sk"
  shows "wp (redb_put_batch D t es)
    (kv_write (redb_invar tab) (redb_view tab) s {(t, pk, sk) | pk sk b. (pk, sk, b) \<in> set es}
      (\<lambda>_ v. v = view_put_all (redb_view tab s) t es)) s"
proof (cases "es = []")
  case True
  with assms(1) show ?thesis by (simp add: redb_put_batch_def)
next
  case False
  then show ?thesis
    unfolding redb_put_batch_def if_not_P [OF False]
    by (intro send_write_kv [OF _ assms(1)])
      (use assms(2) in \<open>fastforce simp: redb_view_def decode_view_put_all [OF assms(2)]\<close>)+
qed

lemma redb_scan_prefix_spec:
  assumes "redb_invar tab s" "pk_ok pk"
  shows "wp (redb_scan_prefix D t pk p limit)
    (kv_read (redb_invar tab) (redb_view tab) s (\<lambda>res.
      sr_items res = take limit (entries_where (redb_view tab s t pk) (\<lambda>k. starts_with k p)) \<and>
      (sr_done res \<longrightarrow>
        length (entries_where (redb_view tab s t pk) (\<lambda>k. starts_with k p)) \<le> limit))) s"
  unfolding redb_scan_prefix_def Let_def
  by (rule scan_spec [OF assms prefix_keys [OF assms(2)]])
    (simp_all add: in_range_def prefix_end_range)

lemma redb_scan_range_spec:
  assumes "redb_invar tab s" "pk_ok pk"
  shows "wp (redb_scan_range D t pk lo hi limit)
    (kv_read (redb_invar tab) (redb_view tab) s (\<lambda>res.
      sr_items res = take limit (entries_where (redb_view tab s t pk) (in_range lo hi)) \<and>
      (sr_done res \<longrightarrow> length (entries_where (redb_view tab s t pk) (in_range lo hi)) \<le> limit))) s"
  unfolding redb_scan_range_def Let_def
  by (rule scan_spec [OF assms]) (use flat_key_in_range [OF assms(2)] in auto)

lemma redb_compact_spec:
  "redb_invar tab s \<Longrightarrow>
    wp (redb_compact D) (kv_read (redb_invar tab) (redb_view tab) s (\<lambda>_. True)) s"
  by (auto simp: redb_compact_def wp_def redb_invar_def redb_view_def redb_tables_def Let_def
      split: option.splits prod.splits sum.splits dest!: compact_keeps)

lemmas redb_specs =
  redb_get_spec redb_get_versioned_spec redb_put_spec redb_put_if_version_spec redb_delete_spec
  redb_delete_if_version_spec redb_delete_returning_spec redb_delete_batch_spec redb_put_batch_spec
  redb_scan_prefix_spec redb_scan_range_spec redb_compact_spec

lemma redb_view_keys:
  "redb_invar tab s \<Longrightarrow> redb_view tab s t pk sk \<noteq> None \<Longrightarrow> pk_ok pk \<and> sk_ok sk"
  by (auto simp: redb_invar_def redb_view_def decode_view_def keys_ok_def split: if_splits)
    (metis flat_key_inject)

lemma redb_view_finite: "finite (dom (redb_view tab s t pk))"
proof (cases "rs_db s")
  case None
  then show ?thesis by (simp add: redb_view_def redb_tables_def decode_view_def dom_def)
next
  case (Some d)
  then show ?thesis
    using finite_decode_view [of pk d t]
    by (cases "pk_ok pk") (simp_all add: redb_view_def redb_tables_def decode_view_def dom_def)
qed

end

sublocale redb_db \<subseteq> kv_store "redb_kv D" "redb_invar tab" "redb_view tab"
proof
  fix s t pk sk b
  assume inv: "redb_invar tab s" and ok: "pk_ok pk" "sk_ok sk"
  show "wp (kv_put_if_absent (redb_kv D) t pk sk b)
    (kv_write (redb_invar tab) (redb_view tab) s {(t, pk, sk)} (\<lambda>ok v.
      ok = (redb_view tab s t pk sk = None) \<and>
      v = (if ok then view_put (redb_view tab s) t pk sk b else redb_view tab s))) s"
    unfolding redb_kv_sels default_put_if_absent_def
    by (rule wp_mono [OF redb_put_if_version_spec [OF inv ok]]) (auto simp: kv_write_def split: sum.splits)
qed (simp_all only: redb_kv_sels default_get_consistent_def redb_specs redb_scan_full redb_view_finite,
    auto dest: redb_view_keys)

context redb_db
begin

lemma redb_kv_lawful: "kv_store (redb_kv D) (redb_invar tab) (redb_view tab)"
  by (rule kv_store_axioms)

end

end
