(* ===== verification/Redb_Memory.thy ===== *)
theory Redb_Memory
  imports Redb_Contract "HOL-Library.AList"
begin

text \<open>
  An in-memory redb: the tables as one association list, no failing call. It shows that the laws of
  \<open>redb_db\<close> can hold together, and gives the witnesses of the development a database on which the
  model of the program computes.
\<close>

type_synonym mem_db = "((string \<times> bytes) \<times> bytes) list"

definition mem_tab :: "mem_db \<Rightarrow> tables" where
  "mem_tab d t k = map_of d (t, k)"

definition mem_range :: "mem_db \<Rightarrow> string \<Rightarrow> bytes \<Rightarrow> bytes option \<Rightarrow> (bytes \<times> bytes) list" where
  "mem_range d t lo hi = sort_key fst
     (map (\<lambda>((t, k), v). (k, v)) (filter (\<lambda>((t', k), v). t' = t \<and> in_range lo hi k) (AList.clearjunk d)))"

definition mem_redb :: "mem_db redb" where
  "mem_redb = \<lparr>
     rd_begin_read = (\<lambda>d. Inr d),
     rd_open_read = (\<lambda>d t. Inr ()),
     rd_begin_write = (\<lambda>d. Inr d),
     rd_open_write = (\<lambda>d t. Inr d),
     rd_get = (\<lambda>d t k. Inr (map_of d (t, k))),
     rd_insert = (\<lambda>d t k v. (Inr (map_of d (t, k)), AList.update (t, k) v d)),
     rd_remove = (\<lambda>d t k. (Inr (map_of d (t, k)), AList.delete (t, k) d)),
     rd_range = (\<lambda>d t lo hi. Inr (mem_range d t lo hi, None)),
     rd_commit = (\<lambda>d w. (Inr (), w)),
     rd_compact = (\<lambda>d. (Inr False, d))\<rparr>"

definition mem_store :: "mem_db \<Rightarrow> mem_db redb_store" where
  "mem_store d = \<lparr>rs_db = Some d, rs_write_tx = True, rs_channel_full = False\<rparr>"

abbreviation mem_kv :: "mem_db redb_store kv" where
  "mem_kv \<equiv> redb_kv mem_redb"

lemma finite_mem_tab: "finite (dom (mem_tab d t))"
proof -
  have "dom (mem_tab d t) \<subseteq> (\<lambda>((t, k), v). k) ` set d"
    by (force simp: mem_tab_def dom_def dest: map_of_SomeD)
  then show ?thesis by (rule finite_subset) simp
qed

lemma mem_range_iff: "(k, v) \<in> set (mem_range d t lo hi) \<longleftrightarrow> in_range lo hi k \<and> mem_tab d t k = Some v"
proof -
  have "((t, k), v) \<in> set (AList.clearjunk d) \<longleftrightarrow> mem_tab d t k = Some v"
    unfolding mem_tab_def
    by (metis distinct_clearjunk map_of_clearjunk map_of_eq_Some_iff)
  then show ?thesis by (auto simp: mem_range_def image_iff split: prod.splits)
qed

lemma mem_range_sorted: "sorted_wrt (<) (map fst (mem_range d t lo hi))"
proof -
  let ?xs = "filter (\<lambda>((t', k), v). t' = t \<and> in_range lo hi k) (AList.clearjunk d)"
  have "distinct (map fst ?xs)" by (simp add: distinct_map_filter distinct_clearjunk)
  moreover have "map fst ?xs = map (Pair t) (map (\<lambda>((t, k), v). k) ?xs)" by auto
  ultimately have "distinct (map (\<lambda>((t, k), v). k) ?xs)" by (metis distinct_map)
  moreover have "map fst (map (\<lambda>((t, k), v). (k, v)) ?xs) = map (\<lambda>((t, k), v). k) ?xs"
    by (auto split: prod.splits)
  ultimately show ?thesis
    unfolding mem_range_def strict_sorted_iff
    by (metis (no_types, lifting) distinct_map set_sort distinct_sort sorted_sort_key)
qed

interpretation mem: redb_db mem_redb mem_tab
proof
  show "finite (dom (mem_tab d t))" for d t by (rule finite_mem_tab)
qed (auto simp: mem_redb_def mem_tab_def raw_upd_def fun_eq_iff update_conv' delete_conv'
    mem_range_iff [unfolded mem_tab_def] mem_range_sorted)

lemma mem_invar_empty: "redb_invar mem_tab (mem_store [])"
  by (simp add: redb_invar_def keys_ok_def redb_tables_def mem_store_def mem_tab_def)

lemma mem_view_empty: "redb_view mem_tab (mem_store []) t pk sk = None"
  by (simp add: redb_view_def decode_view_def redb_tables_def mem_store_def mem_tab_def)

end
