(* ===== verification/Sharded_Redb.thy ===== *)
theory Sharded_Redb
  imports Redb_Memory
begin

text \<open>
  The sharded redb backend (\<open>kv/redb/src/sharded_redb.rs\<close>): a power of two of redb stores, a
  partition key routed by the low bits of its hash. The state is the list of the shards' states;
  indexing outside the list panics, which the model reads as not returning. The parallel compaction
  touches disjoint shards and is the shards' compactions in order. Opening and closing are file
  handling and not modelled.
\<close>

unbundle bit_operations_syntax

subsection \<open>Definitions\<close>

definition on_shard :: "nat \<Rightarrow> ('s, 'a) io \<Rightarrow> ('s list, 'a) io" where
  "on_shard i m = (\<lambda>ss. if i < length ss
     then (case m (ss ! i) of None \<Rightarrow> None | Some (r, s') \<Rightarrow> Some (r, ss[i := s']))
     else None)"

definition shard_index :: "hasher \<Rightarrow> nat \<Rightarrow> string \<Rightarrow> nat" where
  "shard_index H msk pk = (from_le_bytes (take 8 (H pk)) AND msk)"

text \<open>The loop that fills \<open>per_shard\<close> with the original positions.\<close>

fun group_by_shard :: "nat list list \<Rightarrow> nat \<Rightarrow> nat list \<Rightarrow> nat list list option" where
  "group_by_shard per_shard i [] = Some per_shard"
| "group_by_shard per_shard i (x # xs) =
    (if x < length per_shard
     then group_by_shard (per_shard[x := per_shard ! x @ [i]]) (Suc i) xs else None)"

fun store_results :: "bool list \<Rightarrow> nat list \<Rightarrow> bool list \<Rightarrow> bool list" where
  "store_results (r # rs) (i # ids) output = store_results rs ids (output[i := r])"
| "store_results _ _ output = output"

fun delete_shards ::
    "'s kv \<Rightarrow> string \<Rightarrow> (string \<times> string) list \<Rightarrow> nat \<Rightarrow> nat list list \<Rightarrow> bool list \<Rightarrow>
     ('s list, bool list) io" where
  "delete_shards shard table keys j [] output = io_return output"
| "delete_shards shard table keys j (ids # rest) output =
    (if ids = [] then delete_shards shard table keys (Suc j) rest output
     else io_bind (on_shard j (kv_delete_batch shard table (map (\<lambda>i. keys ! i) ids)))
       (\<lambda>results. delete_shards shard table keys (Suc j) rest (store_results results ids output)))"

definition sharded_delete_batch ::
    "hasher \<Rightarrow> nat \<Rightarrow> 's kv \<Rightarrow> string \<Rightarrow> (string \<times> string) list \<Rightarrow> ('s list, bool list) io" where
  "sharded_delete_batch H msk shard table keys =
    (if keys = [] then io_return []
     else
       let first_shard = shard_index H msk (fst (keys ! 0))
       in if list_all (\<lambda>(pk, _). shard_index H msk pk = first_shard) keys
          then on_shard first_shard (kv_delete_batch shard table keys)
          else (\<lambda>ss. case group_by_shard (replicate (length ss) []) 0
                       (map (\<lambda>(pk, _). shard_index H msk pk) keys) of
                  None \<Rightarrow> None
                | Some per_shard \<Rightarrow>
                    delete_shards shard table keys 0 per_shard (replicate (length keys) False) ss))"

fun put_shards ::
    "'s kv \<Rightarrow> string \<Rightarrow> (string \<times> string \<times> bytes) list \<Rightarrow> nat \<Rightarrow> nat list list \<Rightarrow> ('s list, unit) io" where
  "put_shards shard table entries j [] = io_return ()"
| "put_shards shard table entries j (ids # rest) =
    (if ids = [] then put_shards shard table entries (Suc j) rest
     else io_bind (on_shard j (kv_put_batch shard table (map (\<lambda>i. entries ! i) ids)))
       (\<lambda>_. put_shards shard table entries (Suc j) rest))"

definition sharded_put_batch ::
    "hasher \<Rightarrow> nat \<Rightarrow> 's kv \<Rightarrow> string \<Rightarrow> (string \<times> string \<times> bytes) list \<Rightarrow> ('s list, unit) io" where
  "sharded_put_batch H msk shard table entries =
    (if entries = [] then io_return ()
     else
       let first_shard = shard_index H msk (fst (entries ! 0))
       in if list_all (\<lambda>(pk, _, _). shard_index H msk pk = first_shard) entries
          then on_shard first_shard (kv_put_batch shard table entries)
          else (\<lambda>ss. case group_by_shard (replicate (length ss) []) 0
                       (map (\<lambda>(pk, _, _). shard_index H msk pk) entries) of
                  None \<Rightarrow> None
                | Some per_shard \<Rightarrow> put_shards shard table entries 0 per_shard ss))"

fun compact_shards :: "'s kv \<Rightarrow> 's list \<Rightarrow> bool \<Rightarrow> (bool \<times> 's list) option" where
  "compact_shards shard [] any = Some (any, [])"
| "compact_shards shard (s # ss) any =
    (case kv_compact shard s of
       None \<Rightarrow> None
     | Some (r, s') \<Rightarrow>
        (case compact_shards shard ss (case r of Inr c \<Rightarrow> any \<or> c | Inl _ \<Rightarrow> any) of
           None \<Rightarrow> None
         | Some (a, ss') \<Rightarrow> Some (a, s' # ss')))"

definition sharded_compact :: "'s kv \<Rightarrow> ('s list, bool) io" where
  "sharded_compact shard = (\<lambda>ss. case compact_shards shard ss False of
     None \<Rightarrow> None | Some (any, ss') \<Rightarrow> Some (Inr any, ss'))"

definition sharded_kv :: "hasher \<Rightarrow> nat \<Rightarrow> 's kv \<Rightarrow> 's list kv" where
  "sharded_kv H msk shard =
    \<lparr>kv_get = (\<lambda>t pk sk. on_shard (shard_index H msk pk) (kv_get shard t pk sk)),
     kv_get_versioned = (\<lambda>t pk sk. on_shard (shard_index H msk pk) (kv_get_versioned shard t pk sk)),
     kv_put = (\<lambda>t pk sk v. on_shard (shard_index H msk pk) (kv_put shard t pk sk v)),
     kv_put_if_version = (\<lambda>t pk sk v exp.
       on_shard (shard_index H msk pk) (kv_put_if_version shard t pk sk v exp)),
     kv_put_if_absent = default_put_if_absent (\<lambda>t pk sk v exp.
       on_shard (shard_index H msk pk) (kv_put_if_version shard t pk sk v exp)),
     kv_delete = (\<lambda>t pk sk. on_shard (shard_index H msk pk) (kv_delete shard t pk sk)),
     kv_delete_if_version = (\<lambda>t pk sk exp.
       on_shard (shard_index H msk pk) (kv_delete_if_version shard t pk sk exp)),
     kv_delete_returning = (\<lambda>t pk sk.
       on_shard (shard_index H msk pk) (kv_delete_returning shard t pk sk)),
     kv_scan_prefix = (\<lambda>t pk p limit.
       on_shard (shard_index H msk pk) (kv_scan_prefix shard t pk p limit)),
     kv_scan_range = (\<lambda>t pk lo hi limit.
       on_shard (shard_index H msk pk) (kv_scan_range shard t pk lo hi limit)),
     kv_get_consistent = default_get_consistent (\<lambda>t pk sk.
       on_shard (shard_index H msk pk) (kv_get shard t pk sk)),
     kv_delete_batch = sharded_delete_batch H msk shard,
     kv_put_batch = sharded_put_batch H msk shard,
     kv_is_single_node = True,
     kv_compact = sharded_compact shard\<rparr>"

section \<open>Routing and grouping\<close>

lemma shard_index_less: "shard_index H (2 ^ k - 1) pk < 2 ^ k"
  using take_bit_nat_less_exp [of k "from_le_bytes (take 8 (H pk))"]
  by (simp add: shard_index_def take_bit_eq_mask mask_eq_exp_minus_1)

lemma group_by_shard_spec:
  assumes "\<forall>x \<in> set xs. x < length per"
  shows "group_by_shard per i xs =
    Some (map (\<lambda>j. per ! j @ map (\<lambda>p. i + p) (filter (\<lambda>p. xs ! p = j) [0..<length xs])) [0..<length per])"
  using assms
proof (induction xs arbitrary: per i)
  case Nil
  then show ?case by (simp add: map_nth)
next
  case (Cons x xs)
  have "filter (\<lambda>p. (x # xs) ! p = j) [0..<length (x # xs)] =
      (if x = j then [0] else []) @ map Suc (filter (\<lambda>p. xs ! p = j) [0..<length xs])" for j
    by (simp add: upt_rec [of 0] map_Suc_upt [symmetric] filter_map comp_def del: upt_Suc)
  with Cons show ?case by (auto simp: comp_def intro!: nth_equalityI)
qed

definition positions :: "nat list \<Rightarrow> nat \<Rightarrow> nat list" where
  "positions xs j = filter (\<lambda>p. xs ! p = j) [0..<length xs]"

lemma group_positions:
  "\<forall>x \<in> set xs. x < n \<Longrightarrow>
    group_by_shard (replicate n []) 0 xs = Some (map (positions xs) [0..<n])"
  by (simp add: group_by_shard_spec positions_def)

lemma in_positions [simp]: "p \<in> set (positions xs j) \<longleftrightarrow> p < length xs \<and> xs ! p = j"
  by (auto simp: positions_def)

lemma distinct_positions [simp]: "distinct (positions xs j)"
  by (simp add: positions_def)

lemma sorted_positions: "sorted_wrt (<) (positions xs j)"
  unfolding positions_def by (rule sorted_wrt_filter) simp

lemma map_positions: "map (\<lambda>p. ys ! p) (positions (map f ys) j) = filter (\<lambda>y. f y = j) ys"
proof -
  have "map (\<lambda>p. ys ! p) (positions (map f ys) j) =
      map (\<lambda>p. ys ! p) (filter (\<lambda>p. f (ys ! p) = j) [0..<length ys])"
    unfolding positions_def by (intro arg_cong [where f = "map _"] filter_cong) auto
  also have "\<dots> = filter (\<lambda>y. f y = j) (map (\<lambda>p. ys ! p) [0..<length ys])"
    by (simp add: filter_map comp_def)
  finally show ?thesis by (simp add: map_nth)
qed

lemma store_results_nth:
  "length rs = length ids \<Longrightarrow> distinct ids \<Longrightarrow> \<forall>i \<in> set ids. i < length out \<Longrightarrow>
    length (store_results rs ids out) = length out \<and>
    (\<forall>q < length ids. store_results rs ids out ! (ids ! q) = rs ! q) \<and>
    (\<forall>p. p \<notin> set ids \<longrightarrow> store_results rs ids out ! p = out ! p)"
proof (induction rs ids out rule: store_results.induct)
  case (1 r rs i ids out)
  then show ?case by (auto simp: less_Suc_eq_0_disj)
qed auto

text \<open>Batches key by key: what a batch does to one key depends on the entries of its shard only.\<close>

lemma view_del_hits_nth:
  "p < length ks \<Longrightarrow> view_del_hits v t ks ! p \<longleftrightarrow>
    v t (fst (ks ! p)) (snd (ks ! p)) \<noteq> None \<and> ks ! p \<notin> set (take p ks)"
proof (induction ks arbitrary: v p)
  case (Cons k ks)
  obtain pk sk where k: "k = (pk, sk)" by (cases k)
  show ?case
  proof (cases p)
    case (Suc q)
    then have "view_del_hits (view_del v t pk sk) t ks ! q \<longleftrightarrow>
      view_del v t pk sk t (fst (ks ! q)) (snd (ks ! q)) \<noteq> None \<and> ks ! q \<notin> set (take q ks)"
      using Cons.prems by (intro Cons.IH) simp
    moreover have "view_del v t pk sk t (fst x) (snd x) \<noteq> None \<longleftrightarrow>
        v t (fst x) (snd x) \<noteq> None \<and> x \<noteq> (pk, sk)" for x
      by (cases x) simp
    ultimately show ?thesis unfolding k Suc by auto
  qed (simp add: k)
qed simp

lemma view_put_all_apply:
  "view_put_all v t es t' pk sk = (if t' = t
     then fold (\<lambda>(p, s, b) x. if p = pk \<and> s = sk then Some (b, next_version x) else x) es (v t pk sk)
     else v t' pk sk)"
proof (induction es arbitrary: v)
  case (Cons e es)
  obtain p s b where e: "e = (p, s, b)" by (cases e)
  show ?case unfolding e view_put_all.simps Cons.IH by auto
qed simp

lemma view_put_all_filter:
  "view_put_all v t es t' pk sk = view_put_all v t (filter (\<lambda>(p, _, _). f p = f pk) es) t' pk sk"
proof -
  have "fold (\<lambda>(p, s, b) x. if p = pk \<and> s = sk then Some (b, next_version x) else x) es y =
    fold (\<lambda>(p, s, b) x. if p = pk \<and> s = sk then Some (b, next_version x) else x)
      (filter (\<lambda>(p, _, _). f p = f pk) es) y" for y
    by (induction es arbitrary: y) (auto split: prod.splits)
  then show ?thesis by (simp add: view_put_all_apply)
qed

text \<open>The position of a key in its shard's sub-batch repeats earlier keys as in the whole batch.\<close>

lemma take_positions:
  assumes "q < length (positions xs j)"
  shows "set (take q (positions xs j)) = {p. p < positions xs j ! q \<and> xs ! p = j}"
proof -
  let ?ps = "positions xs j"
  have bound: "?ps ! q < length xs"
    using nth_mem [OF assms] by simp
  have before: "p \<in> set (take q ?ps) \<longleftrightarrow> p < ?ps ! q" if "p \<in> set ?ps" for p
  proof -
    from that obtain i where i: "i < length ?ps" "p = ?ps ! i" by (auto simp: in_set_conv_nth)
    have "?ps ! i < ?ps ! q \<longleftrightarrow> i < q"
      using sorted_wrt_nth_less [OF sorted_positions, of i q xs j]
        sorted_wrt_nth_less [OF sorted_positions, of q i xs j] i assms
      by (metis linorder_neqE_nat order_less_asym order_less_irrefl)
    moreover have "p \<in> set (take q ?ps) \<longleftrightarrow> i < q"
    proof
      assume "p \<in> set (take q ?ps)"
      then obtain m where "m < q" "?ps ! m = p" by (auto simp: in_set_conv_nth)
      with i assms show "i < q" by (metis distinct_positions nth_eq_iff_index_eq order.strict_trans)
    next
      assume "i < q"
      with i assms show "p \<in> set (take q ?ps)" by (auto simp: in_set_conv_nth intro!: exI [of _ i])
    qed
    ultimately show ?thesis using i by simp
  qed
  show ?thesis
  proof (intro set_eqI iffI)
    fix p assume "p \<in> set (take q ?ps)"
    with before in_set_takeD [OF this] show "p \<in> {p. p < ?ps ! q \<and> xs ! p = j}" by simp
  next
    fix p assume "p \<in> {p. p < ?ps ! q \<and> xs ! p = j}"
    with bound before [of p] show "p \<in> set (take q ?ps)" by simp
  qed
qed

lemma sub_batch_hits:
  fixes f :: "string \<Rightarrow> nat" and ks :: "(string \<times> string) list"
  defines "xs \<equiv> map (\<lambda>(pk, _). f pk) ks"
  assumes q: "q < length (positions xs j)"
    and same: "\<And>pk sk. f pk = j \<Longrightarrow> w t pk sk = v t pk sk"
  shows "view_del_hits w t (map (\<lambda>p. ks ! p) (positions xs j)) ! q =
    view_del_hits v t ks ! (positions xs j ! q)"
proof -
  let ?ps = "positions xs j"
  have p: "?ps ! q < length ks" "f (fst (ks ! (?ps ! q))) = j"
    using nth_mem [OF q] by (auto simp: xs_def case_prod_unfold)
  have "ks ! (?ps ! q) \<in> (\<lambda>p. ks ! p) ` set (take q ?ps) \<longleftrightarrow> ks ! (?ps ! q) \<in> set (take (?ps ! q) ks)"
  proof
    assume "ks ! (?ps ! q) \<in> set (take (?ps ! q) ks)"
    then obtain m where m: "m < ?ps ! q" "ks ! m = ks ! (?ps ! q)"
      using p by (auto simp: in_set_conv_nth)
    with p have "xs ! m = j" by (simp add: xs_def case_prod_unfold)
    with m show "ks ! (?ps ! q) \<in> (\<lambda>p. ks ! p) ` set (take q ?ps)"
      unfolding take_positions [OF q] by (intro image_eqI [of _ _ m]) simp_all
  qed (use p in \<open>auto simp: take_positions [OF q] in_set_conv_nth\<close>)
  with p q same show ?thesis by (simp add: view_del_hits_nth take_map)
qed

section \<open>The contract\<close>

definition sharded_invar :: "nat \<Rightarrow> ('s \<Rightarrow> bool) \<Rightarrow> 's list \<Rightarrow> bool" where
  "sharded_invar n invar ss \<longleftrightarrow> length ss = n \<and> list_all invar ss"

definition sharded_view :: "(string \<Rightarrow> nat) \<Rightarrow> ('s \<Rightarrow> kv_view) \<Rightarrow> 's list \<Rightarrow> kv_view" where
  "sharded_view f view ss t pk sk = view (ss ! f pk) t pk sk"

lemma if_wpI: "wp f Q s \<Longrightarrow> (c \<Longrightarrow> wp e Q s) \<Longrightarrow> wp (if c then e else f) Q s"
  by simp

lemma wp_on_shard:
  "i < length ss \<Longrightarrow> wp (on_shard i m) Q ss \<longleftrightarrow> wp m (\<lambda>r s'. Q r (ss[i := s'])) (ss ! i)"
  by (auto simp: on_shard_def wp_def split: option.splits)

lemma sharded_invar_upd:
  "sharded_invar n invar ss \<Longrightarrow> invar s' \<Longrightarrow> sharded_invar n invar (ss[i := s'])"
  by (auto simp: sharded_invar_def list_all_iff dest!: set_update_subset_insert [THEN subsetD])

lemma sharded_view_upd:
  "i < length ss \<Longrightarrow> sharded_view f view (ss[i := s']) =
    (\<lambda>t pk sk. if f pk = i then view s' t pk sk else sharded_view f view ss t pk sk)"
  by (auto simp: sharded_view_def fun_eq_iff)

lemma on_shard_read:
  assumes "sharded_invar n invar ss" "f pk < n"
    and "invar (ss ! f pk) \<Longrightarrow> wp m (kv_read invar view (ss ! f pk) Q) (ss ! f pk)"
  shows "wp (on_shard (f pk) m) (kv_read (sharded_invar n invar) (sharded_view f view) ss Q) ss"
proof -
  have len: "f pk < length ss" and inv: "invar (ss ! f pk)"
    using assms by (auto simp: sharded_invar_def list_all_length)
  have "sharded_view f view (ss[f pk := s']) = sharded_view f view ss"
    if "view s' = view (ss ! f pk)" for s'
    using that len by (auto simp: sharded_view_def fun_eq_iff nth_list_update)
  then show ?thesis
    unfolding wp_on_shard [OF len]
    using assms(3) [OF inv] sharded_invar_upd [OF assms(1)] by (auto simp: kv_read_def elim!: wp_mono)
qed

lemma on_shard_write:
  assumes "sharded_invar n invar ss" "i < n"
    and "invar (ss ! i) \<Longrightarrow> wp m (kv_write invar view (ss ! i) K Q) (ss ! i)"
    and "\<And>a v. Q a v \<Longrightarrow> R a (\<lambda>t pk sk. if f pk = i then v t pk sk else sharded_view f view ss t pk sk)"
  shows "wp (on_shard i m) (kv_write (sharded_invar n invar) (sharded_view f view) ss K R) ss"
proof -
  have len: "i < length ss" and inv: "invar (ss ! i)"
    using assms by (auto simp: sharded_invar_def list_all_length)
  have "view_frame K (sharded_view f view ss) (sharded_view f view (ss[i := s']))"
    if "view_frame K (view (ss ! i)) (view s')" for s'
    using that len by (auto simp: sharded_view_def view_frame_def nth_list_update)
  then show ?thesis
    unfolding wp_on_shard [OF len] kv_write_def
    using assms(3) [OF inv, unfolded kv_write_def] sharded_invar_upd [OF assms(1)]
    by (auto simp: sharded_view_upd [OF len] assms(4) split: sum.splits elim!: wp_mono)
qed

locale shards = kv_store shard invar view
  for shard :: "'s kv" and invar :: "'s \<Rightarrow> bool" and view :: "'s \<Rightarrow> kv_view" +
  fixes H :: hasher and b :: nat and msk :: nat
  assumes msk: "msk = 2 ^ b - 1"
begin

abbreviation idx :: "string \<Rightarrow> nat" where
  "idx \<equiv> shard_index H msk"

abbreviation n :: nat where
  "n \<equiv> 2 ^ b"

abbreviation all_ok :: "'s list \<Rightarrow> bool" where
  "all_ok \<equiv> sharded_invar n invar"

abbreviation all_view :: "'s list \<Rightarrow> kv_view" where
  "all_view \<equiv> sharded_view idx view"

lemma idx_less: "idx pk < n"
  unfolding msk by (rule shard_index_less)

text \<open>One shard's part of a batch is done: the shards before \<open>j\<close> have the new views.\<close>

definition progress :: "'s list \<Rightarrow> (nat \<Rightarrow> kv_view) \<Rightarrow> nat \<Rightarrow> 's list \<Rightarrow> bool" where
  "progress ss0 new j ss \<longleftrightarrow> all_ok ss \<and>
     (\<forall>i<n. view (ss ! i) = (if i < j then new i else view (ss0 ! i)))"

lemma progress_step:
  assumes "progress ss0 new j ss" "j < n"
    and "invar (ss ! j) \<Longrightarrow> view (ss ! j) = view (ss0 ! j) \<Longrightarrow>
      wp m (kv_write invar view (ss ! j) K (\<lambda>a v. v = new j \<and> Q a)) (ss ! j)"
  shows "wp (on_shard j m) (\<lambda>r ss'. all_ok ss' \<and> (case r of
      Inl e \<Rightarrow> (\<forall>i<n. if i < j then view (ss' ! i) = new i
        else view_frame K (view (ss0 ! i)) (view (ss' ! i)))
    | Inr a \<Rightarrow> progress ss0 new (Suc j) ss' \<and> Q a)) ss"
proof -
  have ok: "all_ok ss" and len: "j < length ss" and views: "\<forall>i<n. view (ss ! i) = (if i < j then new i else view (ss0 ! i))"
    using assms by (auto simp: progress_def sharded_invar_def)
  then have "invar (ss ! j)" "view (ss ! j) = view (ss0 ! j)"
    using assms(2) by (auto simp: sharded_invar_def list_all_length)
  from assms(3) [OF this] this show ?thesis
    unfolding wp_on_shard [OF len] using views ok len assms(2)
    by (auto simp: kv_write_def progress_def nth_list_update sharded_invar_upd less_Suc_eq
        split: sum.splits elim!: wp_mono)
qed

lemma progress_done:
  "progress ss0 new n ss \<Longrightarrow> all_view ss t pk sk = new (idx pk) t pk sk"
  using idx_less [of pk] by (simp add: progress_def sharded_view_def)

lemma progress_frame:
  assumes "\<forall>i<n. if i < j then view (ss ! i) = new i else view_frame K (view (ss0 ! i)) (view (ss ! i))"
    and "\<And>i. view_frame K (view (ss0 ! i)) (new i)"
  shows "view_frame K (all_view ss0) (all_view ss)"
proof -
  have "view_frame K (view (ss0 ! i)) (view (ss ! i))" if "i < n" for i
    using assms that by (auto split: if_splits)
  then show ?thesis using idx_less by (simp add: view_frame_def sharded_view_def)
qed

lemma put_shards_spec:
  fixes es :: "(string \<times> string \<times> bytes) list" and t :: string
  defines "xs \<equiv> map (\<lambda>(pk, _, _). idx pk) es"
  defines "new \<equiv> \<lambda>ss0 i. view_put_all (view (ss0 ! i)) t (filter (\<lambda>(pk, _, _). idx pk = i) es)"
  defines "K \<equiv> {(t, pk, sk) | pk sk b. (pk, sk, b) \<in> set es}"
  assumes ok: "\<forall>(pk, sk, b) \<in> set es. pk_ok pk \<and> sk_ok sk"
  shows "j \<le> n \<Longrightarrow> progress ss0 (new ss0) j ss \<Longrightarrow>
    wp (put_shards shard t es j (map (positions xs) [j..<n])) (\<lambda>r ss'. all_ok ss' \<and> (case r of
      Inl e \<Rightarrow> view_frame K (all_view ss0) (all_view ss')
    | Inr _ \<Rightarrow> progress ss0 (new ss0) n ss')) ss"
proof (induction "n - j" arbitrary: j ss)
  case 0
  then show ?case by (simp add: progress_def)
next
  case (Suc m)
  then have j: "j < n" by simp
  let ?sub = "filter (\<lambda>(pk, _, _). idx pk = j) es"
  have sub: "map (\<lambda>i. es ! i) (positions xs j) = ?sub"
    using map_positions [of es "\<lambda>(pk, _, _). idx pk" j] by (simp add: xs_def case_prod_unfold)
  have frame: "view_frame K (view (ss0 ! i)) (new ss0 i)" for i
    unfolding view_frame_def new_def K_def by (auto intro!: view_put_all_notin)
  have IH: "progress ss0 (new ss0) (Suc j) ss' \<Longrightarrow>
    wp (put_shards shard t es (Suc j) (map (positions xs) [Suc j..<n])) (\<lambda>r ss'. all_ok ss' \<and> (case r of
      Inl e \<Rightarrow> view_frame K (all_view ss0) (all_view ss')
    | Inr _ \<Rightarrow> progress ss0 (new ss0) n ss')) ss'" for ss'
    using Suc.hyps(1) [of "Suc j" ss'] Suc.hyps(2) j by simp
  show ?case
  proof (cases "positions xs j = []")
    case True
    with sub have "?sub = []" by simp
    then have "progress ss0 (new ss0) (Suc j) ss"
      using Suc.prems(2) by (auto simp: progress_def new_def less_Suc_eq)
    with IH True j show ?thesis by (simp add: upt_conv_Cons)
  next
    case False
    have "wp (kv_put_batch shard t ?sub)
        (kv_write invar view (ss ! j) K (\<lambda>a v. v = new ss0 j \<and> True)) (ss ! j)"
      if "invar (ss ! j)" "view (ss ! j) = view (ss0 ! j)"
      by (rule wp_mono [OF put_batch_spec [OF that(1)]])
        (use ok in \<open>auto simp: kv_write_def new_def that(2) K_def split: sum.splits elim!: view_frame_mono\<close>)
    note step = progress_step [OF Suc.prems(2) j this]
    have split: "map (positions xs) [j..<n] = positions xs j # map (positions xs) [Suc j..<n]"
      using j by (simp add: upt_conv_Cons)
    show ?thesis
      unfolding split put_shards.simps if_not_P [OF False] sub
      by (rule wp_bindI [OF step]) (use IH progress_frame [OF _ frame] in auto)
  qed
qed

lemma view_put_all_shard:
  "view_put_all (view (ss ! idx pk)) t (filter (\<lambda>(p, _, _). idx p = idx pk) es) t' pk sk =
    view_put_all (all_view ss) t es t' pk sk"
  unfolding view_put_all_filter [of "all_view ss" t es t' pk sk idx]
  by (simp add: view_put_all_apply sharded_view_def)

lemma put_one_shard:
  assumes inv: "all_ok ss" and i: "i < n"
    and ok: "\<forall>(pk, sk, b) \<in> set es. pk_ok pk \<and> sk_ok sk" "\<forall>(pk, sk, b) \<in> set es. idx pk = i"
  shows "wp (on_shard i (kv_put_batch shard t es))
    (kv_write all_ok all_view ss {(t, pk, sk) | pk sk b. (pk, sk, b) \<in> set es}
      (\<lambda>_ v. v = view_put_all (all_view ss) t es)) ss"
proof (rule on_shard_write [OF inv i put_batch_spec [OF _ ok(1)]])
  fix v assume v: "v = view_put_all (view (ss ! i)) t es"
  have "filter (\<lambda>(p, _, _). idx p = i) es = es" "j \<noteq> i \<Longrightarrow> filter (\<lambda>(p, _, _). idx p = j) es = []" for j
    using ok(2) by (auto simp: filter_id_conv filter_empty_conv)
  then show "(\<lambda>t pk sk. if idx pk = i then v t pk sk else all_view ss t pk sk) =
      view_put_all (all_view ss) t es"
    unfolding v by (auto simp: fun_eq_iff view_put_all_shard [symmetric] sharded_view_def)
qed

lemma sharded_put_batch_spec:
  assumes inv: "all_ok ss" and ok: "\<forall>(pk, sk, b) \<in> set es. pk_ok pk \<and> sk_ok sk"
  shows "wp (sharded_put_batch H msk shard t es)
    (kv_write all_ok all_view ss {(t, pk, sk) | pk sk b. (pk, sk, b) \<in> set es}
      (\<lambda>_ v. v = view_put_all (all_view ss) t es)) ss"
proof -
  let ?xs = "map (\<lambda>(pk, _, _). idx pk) es"
  have idx: "\<forall>x \<in> set ?xs. x < n" using idx_less by auto
  have "progress ss (\<lambda>i. view_put_all (view (ss ! i)) t (filter (\<lambda>(pk, _, _). idx pk = i) es)) 0 ss"
    using inv by (simp add: progress_def)
  from put_shards_spec [OF ok _ this]
  have "wp (put_shards shard t es 0 (map (positions ?xs) [0..<n]))
      (kv_write all_ok all_view ss {(t, pk, sk) | pk sk b. (pk, sk, b) \<in> set es}
      (\<lambda>_ v. v = view_put_all (all_view ss) t es)) ss"
    by (rule wp_mono) (auto simp: kv_write_def progress_done view_put_all_shard fun_eq_iff split: sum.splits)
  moreover have "group_by_shard (replicate (length ss) []) 0 ?xs = Some (map (positions ?xs) [0..<n])"
    using group_positions [OF idx] inv by (simp add: sharded_invar_def)
  ultimately have slow: "wp (\<lambda>ss. case group_by_shard (replicate (length ss) []) 0 ?xs of None \<Rightarrow> None
      | Some per_shard \<Rightarrow> put_shards shard t es 0 per_shard ss)
      (kv_write all_ok all_view ss {(t, pk, sk) | pk sk b. (pk, sk, b) \<in> set es}
      (\<lambda>_ v. v = view_put_all (all_view ss) t es)) ss"
    by (simp add: wp_def)
  have fast: "wp (on_shard (idx (fst (es ! 0))) (kv_put_batch shard t es))
      (kv_write all_ok all_view ss {(t, pk, sk) | pk sk b. (pk, sk, b) \<in> set es}
      (\<lambda>_ v. v = view_put_all (all_view ss) t es)) ss"
    if "list_all (\<lambda>(pk, _, _). idx pk = idx (fst (es ! 0))) es"
    by (rule put_one_shard [OF inv idx_less ok]) (use that in \<open>simp add: list_all_iff case_prod_unfold\<close>)
  show ?thesis
  proof (cases "es = []")
    case True
    with inv show ?thesis by (simp add: sharded_put_batch_def)
  next
    case False
    show ?thesis
      unfolding sharded_put_batch_def if_not_P [OF False] Let_def using slow fast by (rule if_wpI)
  qed
qed

text \<open>The outputs of the shards done so far are in place.\<close>

definition hits_done :: "(string \<times> string) list \<Rightarrow> bool list \<Rightarrow> nat \<Rightarrow> bool list \<Rightarrow> bool" where
  "hits_done keys hits j out \<longleftrightarrow> length out = length keys \<and>
     (\<forall>p < length keys. idx (fst (keys ! p)) < j \<longrightarrow> out ! p = hits ! p)"

lemma hits_done_step:
  fixes keys :: "(string \<times> string) list"
  defines "xs \<equiv> map (\<lambda>(pk, _). idx pk) keys"
  assumes out: "hits_done keys (view_del_hits (all_view ss0) t keys) j out"
    and res: "res = view_del_hits (view (ss0 ! j)) t (map (\<lambda>i. keys ! i) (positions xs j))"
  shows "hits_done keys (view_del_hits (all_view ss0) t keys) (Suc j)
    (store_results res (positions xs j) out)"
proof -
  let ?ps = "positions xs j" and ?H = "view_del_hits (all_view ss0) t keys"
  have out': "length (store_results res ?ps out) = length out"
    "\<And>q. q < length ?ps \<Longrightarrow> store_results res ?ps out ! (?ps ! q) = res ! q"
    "\<And>p. p \<notin> set ?ps \<Longrightarrow> store_results res ?ps out ! p = out ! p"
    using store_results_nth [of res ?ps out] out by (auto simp: res hits_done_def xs_def)
  have "store_results res ?ps out ! p = ?H ! p"
    if p: "p < length keys" "idx (fst (keys ! p)) < Suc j" for p
  proof (cases "p \<in> set ?ps")
    case True
    then obtain q where q: "q < length ?ps" "p = ?ps ! q" by (auto simp: in_set_conv_nth)
    with sub_batch_hits [of q idx keys j "view (ss0 ! j)" t "all_view ss0"] out'(2) res
    show ?thesis by (simp add: xs_def sharded_view_def)
  next
    case False
    with p have "idx (fst (keys ! p)) < j" by (auto simp: xs_def case_prod_unfold)
    with p False out out'(3) show ?thesis by (simp add: hits_done_def)
  qed
  with out out'(1) show ?thesis by (simp add: hits_done_def)
qed

lemma delete_shards_spec:
  fixes keys :: "(string \<times> string) list" and t :: string
  defines "xs \<equiv> map (\<lambda>(pk, _). idx pk) keys"
  defines "new \<equiv> \<lambda>ss0 i. view_del_all (view (ss0 ! i)) t (map (\<lambda>i. keys ! i) (positions xs i))"
  defines "K \<equiv> {(t, pk, sk) | pk sk. (pk, sk) \<in> set keys}"
  assumes ok: "\<forall>(pk, sk) \<in> set keys. pk_ok pk"
  shows "j \<le> n \<Longrightarrow> progress ss0 (new ss0) j ss \<Longrightarrow>
    hits_done keys (view_del_hits (all_view ss0) t keys) j out \<Longrightarrow>
    wp (delete_shards shard t keys j (map (positions xs) [j..<n]) out) (\<lambda>r ss'. all_ok ss' \<and> (case r of
      Inl e \<Rightarrow> view_frame K (all_view ss0) (all_view ss')
    | Inr out' \<Rightarrow> progress ss0 (new ss0) n ss' \<and>
        hits_done keys (view_del_hits (all_view ss0) t keys) n out')) ss"
proof (induction "n - j" arbitrary: j ss out)
  case 0
  then show ?case by (simp add: progress_def)
next
  case (Suc m)
  then have j: "j < n" by simp
  let ?sub = "map (\<lambda>i. keys ! i) (positions xs j)"
  have sub: "set ?sub \<subseteq> set keys" by (auto simp: xs_def)
  have frame: "view_frame K (view (ss0 ! i)) (new ss0 i)" for i
    unfolding view_frame_def new_def K_def view_del_all_apply by (auto simp: xs_def)
  have sub_ok: "\<forall>(pk, sk) \<in> set ?sub. pk_ok pk" using ok sub by blast
  have sub_K: "{(t, pk, sk) | pk sk. (pk, sk) \<in> set ?sub} \<subseteq> K" using sub unfolding K_def by blast
  note IH = Suc.hyps(1) [of "Suc j"]
  show ?case
  proof (cases "positions xs j = []")
    case True
    then have "progress ss0 (new ss0) (Suc j) ss"
      using Suc.prems(2) by (auto simp: progress_def new_def less_Suc_eq)
    moreover have "hits_done keys (view_del_hits (all_view ss0) t keys) (Suc j) out"
      using hits_done_step [OF Suc.prems(3) refl] True unfolding xs_def [symmetric] by simp
    ultimately show ?thesis using IH True j Suc.hyps(2) by (simp add: upt_conv_Cons)
  next
    case False
    have "wp (kv_delete_batch shard t ?sub) (kv_write invar view (ss ! j) K (\<lambda>a v.
        v = new ss0 j \<and> a = view_del_hits (view (ss0 ! j)) t ?sub)) (ss ! j)"
      if "invar (ss ! j)" "view (ss ! j) = view (ss0 ! j)"
      by (rule wp_mono [OF delete_batch_spec [OF that(1) sub_ok]])
        (auto simp: kv_write_def new_def that(2) split: sum.splits intro: view_frame_mono [OF _ sub_K])
    note step = progress_step [OF Suc.prems(2) j this]
    have split: "map (positions xs) [j..<n] = positions xs j # map (positions xs) [Suc j..<n]"
      using j by (simp add: upt_conv_Cons)
    show ?thesis
      unfolding split delete_shards.simps if_not_P [OF False]
    proof (rule wp_bindI [OF step])
      fix res ss'
      assume "all_ok ss' \<and> (case Inr res of Inl e \<Rightarrow> (\<forall>i<n. if i < j then view (ss' ! i) = new ss0 i
          else view_frame K (view (ss0 ! i)) (view (ss' ! i)))
        | Inr a \<Rightarrow> progress ss0 (new ss0) (Suc j) ss' \<and> a = view_del_hits (view (ss0 ! j)) t ?sub)"
      then show "wp (delete_shards shard t keys (Suc j) (map (positions xs) [Suc j..<n])
          (store_results res (positions xs j) out)) (\<lambda>r ss'. all_ok ss' \<and> (case r of
            Inl e \<Rightarrow> view_frame K (all_view ss0) (all_view ss')
          | Inr out' \<Rightarrow> progress ss0 (new ss0) n ss' \<and>
              hits_done keys (view_del_hits (all_view ss0) t keys) n out')) ss'"
        using IH Suc.hyps(2) j hits_done_step [OF Suc.prems(3)] unfolding xs_def by auto
    qed (use progress_frame [OF _ frame] in auto)
  qed
qed

lemma view_del_all_shard:
  "view_del_all (view (ss ! idx pk)) t
      (map (\<lambda>i. keys ! i) (positions (map (\<lambda>(pk, _). idx pk) keys) (idx pk))) t' pk sk =
    view_del_all (all_view ss) t keys t' pk sk"
proof -
  have "(pk, sk) \<in> set (map (\<lambda>i. keys ! i) (positions (map (\<lambda>(pk, _). idx pk) keys) (idx pk))) \<longleftrightarrow>
      (pk, sk) \<in> set keys"
    unfolding map_positions [of keys "\<lambda>(pk, _). idx pk"] by auto
  then show ?thesis by (simp only: view_del_all_apply sharded_view_def)
qed

lemma delete_one_shard:
  assumes inv: "all_ok ss" and i: "i < n"
    and ok: "\<forall>(pk, sk) \<in> set ks. pk_ok pk" "\<forall>(pk, sk) \<in> set ks. idx pk = i"
  shows "wp (on_shard i (kv_delete_batch shard t ks))
    (kv_write all_ok all_view ss {(t, pk, sk) | pk sk. (pk, sk) \<in> set ks}
      (\<lambda>hits v. hits = view_del_hits (all_view ss) t ks \<and> v = view_del_all (all_view ss) t ks)) ss"
proof (rule on_shard_write [OF inv i delete_batch_spec [OF _ ok(1)]])
  fix hits v
  assume hv: "hits = view_del_hits (view (ss ! i)) t ks \<and> v = view_del_all (view (ss ! i)) t ks"
  have "idx (fst (ks ! p)) = i" if "p < length ks" for p
    using ok(2) nth_mem [OF that] by (auto simp: case_prod_unfold)
  with hv have "hits = view_del_hits (all_view ss) t ks"
    by (auto simp: list_eq_iff_nth_eq view_del_hits_nth sharded_view_def)
  moreover have "(\<lambda>t pk sk. if idx pk = i then v t pk sk else all_view ss t pk sk) =
      view_del_all (all_view ss) t ks"
    using ok(2) hv by (intro ext) (auto simp: view_del_all_apply sharded_view_def)
  ultimately show "hits = view_del_hits (all_view ss) t ks \<and>
      (\<lambda>t pk sk. if idx pk = i then v t pk sk else all_view ss t pk sk) =
      view_del_all (all_view ss) t ks" by blast
qed

lemma sharded_delete_batch_spec:
  assumes inv: "all_ok ss" and ok: "\<forall>(pk, sk) \<in> set ks. pk_ok pk"
  shows "wp (sharded_delete_batch H msk shard t ks)
    (kv_write all_ok all_view ss {(t, pk, sk) | pk sk. (pk, sk) \<in> set ks}
      (\<lambda>hits v. hits = view_del_hits (all_view ss) t ks \<and> v = view_del_all (all_view ss) t ks)) ss"
proof -
  let ?xs = "map (\<lambda>(pk, _). idx pk) ks"
  let ?Q = "kv_write all_ok all_view ss {(t, pk, sk) | pk sk. (pk, sk) \<in> set ks}
      (\<lambda>hits v. hits = view_del_hits (all_view ss) t ks \<and> v = view_del_all (all_view ss) t ks)"
  have idx: "\<forall>x \<in> set ?xs. x < n" using idx_less by auto
  have start: "progress ss (\<lambda>i. view_del_all (view (ss ! i)) t (map (\<lambda>i. ks ! i) (positions ?xs i))) 0 ss"
    "hits_done ks (view_del_hits (all_view ss) t ks) 0 (replicate (length ks) False)"
    using inv by (simp_all add: progress_def hits_done_def)
  have "hits = view_del_hits (all_view ss) t ks" if "hits_done ks (view_del_hits (all_view ss) t ks) n hits" for hits
    using that idx_less by (auto simp: hits_done_def list_eq_iff_nth_eq)
  then have "wp (delete_shards shard t ks 0 (map (positions ?xs) [0..<n]) (replicate (length ks) False)) ?Q ss"
    by (intro wp_mono [OF delete_shards_spec [OF ok _ start]])
      (auto simp: kv_write_def progress_done view_del_all_shard fun_eq_iff split: sum.splits)
  moreover have "group_by_shard (replicate (length ss) []) 0 ?xs = Some (map (positions ?xs) [0..<n])"
    using group_positions [OF idx] inv by (simp add: sharded_invar_def)
  ultimately have slow: "wp (\<lambda>ss. case group_by_shard (replicate (length ss) []) 0 ?xs of None \<Rightarrow> None
      | Some per_shard \<Rightarrow> delete_shards shard t ks 0 per_shard (replicate (length ks) False) ss) ?Q ss"
    by (simp add: wp_def)
  have fast: "wp (on_shard (idx (fst (ks ! 0))) (kv_delete_batch shard t ks)) ?Q ss"
    if "list_all (\<lambda>(pk, _). idx pk = idx (fst (ks ! 0))) ks"
    by (rule delete_one_shard [OF inv idx_less ok]) (use that in \<open>simp add: list_all_iff case_prod_unfold\<close>)
  show ?thesis
  proof (cases "ks = []")
    case True
    with inv show ?thesis by (simp add: sharded_delete_batch_def)
  next
    case False
    show ?thesis
      unfolding sharded_delete_batch_def if_not_P [OF False] Let_def using slow fast by (rule if_wpI)
  qed
qed

lemma compact_shards_spec:
  "list_all invar ss \<Longrightarrow> \<exists>a ss'. compact_shards shard ss any = Some (a, ss') \<and>
    length ss' = length ss \<and> list_all invar ss' \<and> map view ss' = map view ss"
proof (induction ss arbitrary: any)
  case (Cons s ss)
  from Cons.prems compact_spec [of s] obtain r s' where
    "kv_compact shard s = Some (r, s')" "invar s'" "view s' = view s"
    by (auto simp: wp_iff kv_read_def)
  moreover from Cons.prems Cons.IH [of "case r of Inr c \<Rightarrow> any \<or> c | Inl _ \<Rightarrow> any"] obtain a ss'
    where "compact_shards shard ss (case r of Inr c \<Rightarrow> any \<or> c | Inl _ \<Rightarrow> any) = Some (a, ss')"
      "length ss' = length ss" "list_all invar ss'" "map view ss' = map view ss" by auto
  ultimately show ?case by simp
qed simp

lemma sharded_compact_spec:
  assumes "all_ok ss"
  shows "wp (sharded_compact shard) (kv_read all_ok all_view ss (\<lambda>_. True)) ss"
proof -
  from assms compact_shards_spec [of ss False] obtain a ss' where
    c: "compact_shards shard ss False = Some (a, ss')" "length ss' = length ss" "list_all invar ss'"
      "map view ss' = map view ss" by (auto simp: sharded_invar_def)
  then have "view (ss' ! i) = view (ss ! i)" if "i < n" for i
    using that assms by (metis nth_map sharded_invar_def)
  then have "all_view ss' = all_view ss" using idx_less by (simp add: sharded_view_def fun_eq_iff)
  with c assms show ?thesis by (simp add: sharded_compact_def wp_def sharded_invar_def)
qed

end

lemma sharded_kv_sels [simp]:
  "kv_get (sharded_kv H msk shard) = (\<lambda>t pk sk. on_shard (shard_index H msk pk) (kv_get shard t pk sk))"
  "kv_get_versioned (sharded_kv H msk shard) =
    (\<lambda>t pk sk. on_shard (shard_index H msk pk) (kv_get_versioned shard t pk sk))"
  "kv_put (sharded_kv H msk shard) =
    (\<lambda>t pk sk v. on_shard (shard_index H msk pk) (kv_put shard t pk sk v))"
  "kv_put_if_version (sharded_kv H msk shard) =
    (\<lambda>t pk sk v exp. on_shard (shard_index H msk pk) (kv_put_if_version shard t pk sk v exp))"
  "kv_put_if_absent (sharded_kv H msk shard) =
    (\<lambda>t pk sk v. on_shard (shard_index H msk pk) (kv_put_if_version shard t pk sk v None))"
  "kv_delete (sharded_kv H msk shard) =
    (\<lambda>t pk sk. on_shard (shard_index H msk pk) (kv_delete shard t pk sk))"
  "kv_delete_if_version (sharded_kv H msk shard) =
    (\<lambda>t pk sk exp. on_shard (shard_index H msk pk) (kv_delete_if_version shard t pk sk exp))"
  "kv_delete_returning (sharded_kv H msk shard) =
    (\<lambda>t pk sk. on_shard (shard_index H msk pk) (kv_delete_returning shard t pk sk))"
  "kv_scan_prefix (sharded_kv H msk shard) =
    (\<lambda>t pk p limit. on_shard (shard_index H msk pk) (kv_scan_prefix shard t pk p limit))"
  "kv_scan_range (sharded_kv H msk shard) =
    (\<lambda>t pk lo hi limit. on_shard (shard_index H msk pk) (kv_scan_range shard t pk lo hi limit))"
  "kv_get_consistent (sharded_kv H msk shard) =
    (\<lambda>t pk sk. on_shard (shard_index H msk pk) (kv_get shard t pk sk))"
  "kv_delete_batch (sharded_kv H msk shard) = sharded_delete_batch H msk shard"
  "kv_put_batch (sharded_kv H msk shard) = sharded_put_batch H msk shard"
  "kv_compact (sharded_kv H msk shard) = sharded_compact shard"
  by (simp_all add: sharded_kv_def default_put_if_absent_def default_get_consistent_def fun_eq_iff)

context shards
begin

lemma all_view_upd:
  "(\<lambda>t' pk' sk'. if idx pk' = idx pk then view_upd (view (ss ! idx pk)) t pk sk x t' pk' sk'
      else all_view ss t' pk' sk') = view_upd (all_view ss) t pk sk x"
  "(\<lambda>t' pk' sk'. if idx pk' = idx pk then view (ss ! idx pk) t' pk' sk' else all_view ss t' pk' sk') =
    all_view ss"
  by (auto simp: fun_eq_iff sharded_view_def)

lemma all_view_at: "view (ss ! idx pk) t pk sk = all_view ss t pk sk"
  by (simp add: sharded_view_def)

lemma all_view_pk: "view (ss ! idx pk) t pk = all_view ss t pk"
  by (simp add: sharded_view_def fun_eq_iff)

lemma all_view_finite: "all_ok ss \<Longrightarrow> finite (dom (all_view ss t pk))"
  using view_finite [of "ss ! idx pk" t pk] idx_less [of pk]
  by (simp add: all_view_pk sharded_invar_def list_all_length)

lemma all_view_keys: "all_ok ss \<Longrightarrow> all_view ss t pk sk \<noteq> None \<Longrightarrow> pk_ok pk \<and> sk_ok sk"
  using view_ok [of "ss ! idx pk" t pk sk] idx_less [of pk]
  by (simp add: sharded_view_def sharded_invar_def list_all_length)

lemma all_view_put:
  "(\<lambda>t' pk' sk'. if idx pk' = idx pk then view_put (view (ss ! idx pk)) t pk sk x t' pk' sk'
      else all_view ss t' pk' sk') = view_put (all_view ss) t pk sk x"
  unfolding all_view_upd(1) all_view_at ..

lemma sharded_put_if_version_spec:
  assumes "all_ok s" "pk_ok pk" "sk_ok sk"
  shows "wp (on_shard (idx pk) (kv_put_if_version shard t pk sk v exp))
    (kv_write all_ok all_view s {(t, pk, sk)} (\<lambda>ok w.
      ok = (exp = map_option snd (all_view s t pk sk)) \<and>
      w = (if ok then view_put (all_view s) t pk sk v else all_view s))) s"
  by (rule on_shard_write [OF assms(1) idx_less put_if_version_spec [OF _ assms(2,3)]])
    (simp_all add: all_view_at all_view_put all_view_upd(2) del: view_upd_apply)

end

sublocale shards \<subseteq> sharded: kv_store "sharded_kv H msk shard" "sharded_invar (2 ^ b) invar"
    "sharded_view (shard_index H msk) view"
proof (unfold_locales, unfold sharded_kv_sels)
  fix s t pk sk v
  assume inv: "all_ok s" and ok: "pk_ok pk" "sk_ok sk"
  show "wp (on_shard (idx pk) (kv_put_if_version shard t pk sk v None))
    (kv_write all_ok all_view s {(t, pk, sk)} (\<lambda>ok w.
      ok = (all_view s t pk sk = None) \<and>
      w = (if ok then view_put (all_view s) t pk sk v else all_view s))) s"
    by (rule wp_mono [OF sharded_put_if_version_spec [OF inv ok]]) (auto simp: kv_write_def split: sum.splits)
  show "wp (on_shard (idx pk) (kv_put shard t pk sk v))
    (kv_write all_ok all_view s {(t, pk, sk)} (\<lambda>_ w. w = view_put (all_view s) t pk sk v)) s"
    by (rule on_shard_write [OF inv idx_less put_spec [OF _ ok]])
      (simp_all add: all_view_put del: view_upd_apply)
next
  fix s t pk sk
  assume inv: "all_ok s" and ok: "pk_ok pk"
  show get: "wp (on_shard (idx pk) (kv_get shard t pk sk))
    (kv_read all_ok all_view s (\<lambda>v. v = map_option fst (all_view s t pk sk))) s"
    by (rule on_shard_read [OF inv idx_less]) (simp only: all_view_at [symmetric] get_spec [OF _ ok])
  show "wp (on_shard (idx pk) (kv_get shard t pk sk))
    (kv_read all_ok all_view s (\<lambda>v. v = map_option fst (all_view s t pk sk))) s" by (rule get)
  show "wp (on_shard (idx pk) (kv_get_versioned shard t pk sk))
    (kv_read all_ok all_view s (\<lambda>v. v = all_view s t pk sk)) s"
    by (rule on_shard_read [OF inv idx_less]) (simp only: all_view_at [symmetric] get_versioned_spec [OF _ ok])
  show "wp (on_shard (idx pk) (kv_delete shard t pk sk))
    (kv_write all_ok all_view s {(t, pk, sk)} (\<lambda>hit w.
      hit = (all_view s t pk sk \<noteq> None) \<and> w = view_del (all_view s) t pk sk)) s"
    by (rule on_shard_write [OF inv idx_less delete_spec [OF _ ok]])
      (simp_all add: all_view_at all_view_upd del: view_upd_apply)
  show "wp (on_shard (idx pk) (kv_delete_returning shard t pk sk))
    (kv_write all_ok all_view s {(t, pk, sk)} (\<lambda>old w.
      old = map_option fst (all_view s t pk sk) \<and> w = view_del (all_view s) t pk sk)) s"
    by (rule on_shard_write [OF inv idx_less delete_returning_spec [OF _ ok]])
      (simp_all add: all_view_at all_view_upd del: view_upd_apply)
  show "wp (on_shard (idx pk) (kv_delete_if_version shard t pk sk n))
    (kv_write all_ok all_view s {(t, pk, sk)} (\<lambda>ok w.
      ok = (map_option snd (all_view s t pk sk) = Some n) \<and>
      w = (if ok then view_del (all_view s) t pk sk else all_view s))) s" for n
    by (rule on_shard_write [OF inv idx_less delete_if_version_spec [OF _ ok]])
      (auto simp: all_view_at all_view_upd simp del: view_upd_apply)
next
  fix s t pk limit
  assume inv: "all_ok s" and ok: "pk_ok pk"
  show "wp (on_shard (idx pk) (kv_scan_prefix shard t pk p limit)) (kv_read all_ok all_view s (\<lambda>res.
      sr_items res = take limit (entries_where (all_view s t pk) (\<lambda>k. starts_with k p)) \<and>
      (sr_done res \<longrightarrow> length (entries_where (all_view s t pk) (\<lambda>k. starts_with k p)) \<le> limit))) s" for p
    by (rule on_shard_read [OF inv idx_less]) (simp only: all_view_pk [symmetric] scan_prefix_spec [OF _ ok])
  show "wp (on_shard (idx pk) (kv_scan_range shard t pk lo hi limit)) (kv_read all_ok all_view s (\<lambda>res.
      sr_items res = take limit (entries_where (all_view s t pk) (in_range lo hi)) \<and>
      (sr_done res \<longrightarrow> length (entries_where (all_view s t pk) (in_range lo hi)) \<le> limit))) s" for lo hi
    by (rule on_shard_read [OF inv idx_less]) (simp only: all_view_pk [symmetric] scan_range_spec [OF _ ok])
  show "wp (on_shard (idx pk) (kv_scan_prefix shard t pk p limit))
      (\<lambda>r s'. \<forall>res. r = Inr res \<longrightarrow> \<not> sr_done res \<longrightarrow> limit \<le> length (sr_items res)) s" for p
    using inv idx_less [of pk] scan_prefix_full [OF _ ok]
    by (subst wp_on_shard) (auto simp: sharded_invar_def list_all_length)
  show "wp (on_shard (idx pk) (kv_scan_range shard t pk lo hi limit))
      (\<lambda>r s'. \<forall>res. r = Inr res \<longrightarrow> \<not> sr_done res \<longrightarrow> limit \<le> length (sr_items res)) s" for lo hi
    using inv idx_less [of pk] scan_range_full [OF _ ok]
    by (subst wp_on_shard) (auto simp: sharded_invar_def list_all_length)
qed (blast intro: sharded_put_if_version_spec sharded_delete_batch_spec sharded_put_batch_spec
    sharded_compact_spec all_view_finite dest: all_view_keys)+

context shards
begin

lemma sharded_kv_lawful:
  "kv_store (sharded_kv H msk shard) (sharded_invar (2 ^ b) invar) (sharded_view (shard_index H msk) view)"
  by (rule sharded.kv_store_axioms)

end

interpretation mem_sharded: shards mem_kv "redb_invar mem_tab" "redb_view mem_tab" H b "2 ^ b - 1"
  for H b
  by unfold_locales simp

end
