(* ===== verification/Service_Repo.thy ===== *)
theory Service_Repo
  imports Service_Artifact
begin

text \<open>
  Repository configurations (\<open>core/src/service/repo.rs\<close>): reads and writes, the propagation of a
  stale flag to the proxies above a repository, marking for deletion, cloning, and the background
  removal of a deleted repository.

  The order in which concurrent shard tasks run is an argument, as is what each of them sees of the
  cancellation token. The callback \<open>on_batch\<close> of a copy updates the variables it captures, the
  accumulator of the model.
\<close>

definition put_repo :: "'s kv \<Rightarrow> codecs \<Rightarrow> repo_config \<Rightarrow> ('s, unit) io" where
  "put_repo kv C config = (case repo_key (rp_name config) of (table, pk, sk) \<Rightarrow>
     typed_put kv (cs_repo C) table pk sk config)"

definition get_repo_raw :: "'s kv \<Rightarrow> codecs \<Rightarrow> string \<Rightarrow> ('s, repo_config option) io" where
  "get_repo_raw kv C name = (case repo_key name of (table, pk, sk) \<Rightarrow> typed_get kv (cs_repo C) table pk sk)"

definition get_repo :: "'s kv \<Rightarrow> codecs \<Rightarrow> string \<Rightarrow> ('s, repo_config option) io" where
  "get_repo kv C name = io_bind (get_repo_raw kv C name) (\<lambda>r. case r of
     Some config \<Rightarrow> if rp_deleting config then io_return None else io_return (Some config)
   | None \<Rightarrow> io_return None)"

definition list_repos_raw :: "'s kv \<Rightarrow> codecs \<Rightarrow> ('s, repo_config list) io" where
  "list_repos_raw kv C = typed_list kv (cs_repo C) TABLE_REPOS SINGLE_PK [] ADMIN_ENTITY_CAP"

definition list_repos :: "'s kv \<Rightarrow> codecs \<Rightarrow> ('s, repo_config list) io" where
  "list_repos kv C = io_bind (typed_list kv (cs_repo C) TABLE_REPOS SINGLE_PK [] ADMIN_ENTITY_CAP)
     (\<lambda>repos. io_return (filter (\<lambda>r. \<not> rp_deleting r) repos))"

subsection \<open>Staleness\<close>

fun stale_kind_for_format :: "artifact_format \<Rightarrow> artifact_kind" where
  "stale_kind_for_format AptF = AptMetadata"
| "stale_kind_for_format YumF = YumMetadata"
| "stale_kind_for_format HelmF = HelmMetadata"
| "stale_kind_for_format NpmF = NpmMetadata"
| "stale_kind_for_format _ = RawKind"

definition stale_flag :: "datetime \<Rightarrow> artifact_format \<Rightarrow> artifact_record" where
  "stale_flag now format = \<lparr>
     ar_schema_version = CURRENT_RECORD_VERSION, ar_id = [], ar_size = 0, ar_content_type = ''text/plain'',
     ar_created_at = now, ar_updated_at = now, ar_last_accessed_at = now, ar_path = [],
     ar_kind = stale_kind_for_format format, ar_internal = True,
     ar_blob_id = None, ar_content_hash = None, ar_etag = None\<rparr>"

text \<open>
  \<open>member_to_proxies\<close>: the proxies of the format that have the member, one entry per occurrence, in
  the order of the repositories; an absent key of the map is the empty list.
\<close>

definition member_to_proxies :: "repo_config list \<Rightarrow> artifact_format \<Rightarrow> string \<Rightarrow> string list" where
  "member_to_proxies repos format member = concat (map (\<lambda>config.
     if rp_format config \<noteq> format then []
     else case rp_kind config of
         Proxy members _ \<Rightarrow> map (\<lambda>_. rp_name config) (filter (\<lambda>m. m = member) members)
       | _ \<Rightarrow> []) repos)"

text \<open>One repository: flag its parents that were not visited yet and queue them.\<close>

fun flag_parents ::
    "(string \<Rightarrow> ('s, bool) io) \<Rightarrow> string list \<Rightarrow> string set \<Rightarrow> string list \<Rightarrow> ('s, string set \<times> string list) io" where
  "flag_parents put [] visited queue = io_return (visited, queue)"
| "flag_parents put (parent # parents) visited queue =
    (if parent \<in> visited then flag_parents put parents visited queue
     else io_bind (io_try (put parent)) (\<lambda>_.
       flag_parents put parents (insert parent visited) (queue @ [parent])))"

fun bfs_level ::
    "(string \<Rightarrow> string list) \<Rightarrow> (string \<Rightarrow> ('s, bool) io) \<Rightarrow> nat \<Rightarrow> string set \<Rightarrow> string list \<Rightarrow>
     ('s, string set \<times> string list) io" where
  "bfs_level parents put 0 visited queue = io_return (visited, queue)"
| "bfs_level parents put (Suc n) visited [] = io_return (visited, [])"
| "bfs_level parents put (Suc n) visited (name # queue) =
    io_bind (flag_parents put (parents name) visited queue)
      (\<lambda>(visited', queue'). bfs_level parents put n visited' queue')"

fun bfs_levels ::
    "(string \<Rightarrow> string list) \<Rightarrow> (string \<Rightarrow> ('s, bool) io) \<Rightarrow> nat \<Rightarrow> string set \<Rightarrow> string list \<Rightarrow>
     ('s, string set) io" where
  "bfs_levels parents put 0 visited queue = io_return visited"
| "bfs_levels parents put (Suc depth) visited queue =
    (if queue = [] then io_return visited
     else io_bind (bfs_level parents put (length queue) visited queue)
       (\<lambda>(visited', queue'). bfs_levels parents put depth visited' queue'))"

definition MAX_STALE_DEPTH :: nat where
  "MAX_STALE_DEPTH = 8"

definition propagate_staleness ::
    "hasher \<Rightarrow> 's kv \<Rightarrow> codecs \<Rightarrow> datetime \<Rightarrow> (string \<Rightarrow> string) \<Rightarrow> string \<Rightarrow> artifact_format \<Rightarrow> string \<Rightarrow>
     ('s, unit) io" where
  "propagate_staleness H kv C now uuid source_repo format stale_path =
    io_bind (list_repos kv C) (\<lambda>repos.
    io_bind (bfs_levels (member_to_proxies repos format)
        (\<lambda>parent. put_artifact_if_absent H kv C (uuid parent) parent stale_path (stale_flag now format))
        MAX_STALE_DEPTH {} [source_repo]) (\<lambda>_. io_return ()))"

subsection \<open>Deletion\<close>

definition delete_repo :: "'s kv \<Rightarrow> codecs \<Rightarrow> (nat \<Rightarrow> 's \<Rightarrow> 's) \<Rightarrow> string \<Rightarrow> ('s, bool) io" where
  "delete_repo kv C env name = (case repo_key name of (table, pk, sk) \<Rightarrow>
    io_bind (typed_get_versioned kv (cs_repo C) table pk sk) (\<lambda>cur. case cur of
      None \<Rightarrow> io_return False
    | Some (config, version) \<Rightarrow>
        if rp_deleting config then io_return True
        else io_bind (io_of_result (encode (cs_repo C) (config\<lparr>rp_deleting := True\<rparr>))) (\<lambda>new_bytes.
          io_bind (interfere env 0) (\<lambda>_.
          kv_put_if_version kv table pk sk new_bytes (Some version)))))"

definition drain_deleting_repo :: "'s kv \<Rightarrow> nat list \<Rightarrow> nat list \<Rightarrow> string \<Rightarrow> ('s, unit) io" where
  "drain_deleting_repo kv order1 order2 name =
    io_bind (io_for order1 (\<lambda>shard. drain_loop kv False TABLE_ARTIFACTS (artifact_shard_pk name shard))) (\<lambda>_.
    io_bind (io_for order2 (\<lambda>shard. drain_loop kv False TABLE_DIR_ENTRIES (tree_shard_pk name shard))) (\<lambda>_.
    case repo_key name of (table, pk, sk) \<Rightarrow> io_bind (kv_delete kv table pk sk) (\<lambda>_. io_return ())))"

subsection \<open>Cloning\<close>

record clone_stats =
  cl_copied_artifacts :: u64
  cl_copied_entries :: u64

partial_function (option) copy_loop ::
    "'s kv \<Rightarrow> string \<Rightarrow> string \<Rightarrow> string \<Rightarrow> (u64 \<Rightarrow> 'a \<Rightarrow> 'a) \<Rightarrow> string option \<Rightarrow> 'a \<Rightarrow> 's \<Rightarrow>
     ('a result \<times> 's) option" where
  "copy_loop kv table src_pk dst_pk on_batch cursor acc s =
    (case kv_scan_range kv table src_pk (case cursor of Some c \<Rightarrow> c | None \<Rightarrow> []) None SCAN_BATCH_SIZE s of
       None \<Rightarrow> None
     | Some (Inl e, s1) \<Rightarrow> Some (Inl e, s1)
     | Some (Inr batch, s1) \<Rightarrow>
        if sr_items batch = [] then Some (Inr acc, s1)
        else case kv_put_batch kv table (map (\<lambda>(sk, v). (dst_pk, sk, v)) (sr_items batch)) s1 of
            None \<Rightarrow> None
          | Some (Inl e, s2) \<Rightarrow> Some (Inl e, s2)
          | Some (Inr _, s2) \<Rightarrow>
             let acc' = on_batch (word_of_nat (length (sr_items batch))) acc
             in if sr_done batch then Some (Inr acc', s2)
                else copy_loop kv table src_pk dst_pk on_batch
                  (case last_opt (sr_items batch) of
                     Some (last_sk, _) \<Rightarrow> Some (last_sk @ [CHR 0x00]) | None \<Rightarrow> cursor) acc' s2)"

definition copy_partition ::
    "'s kv \<Rightarrow> string \<Rightarrow> string \<Rightarrow> string \<Rightarrow> (u64 \<Rightarrow> 'a \<Rightarrow> 'a) \<Rightarrow> 'a \<Rightarrow> ('s, 'a) io" where
  "copy_partition kv table src_pk dst_pk on_batch acc = copy_loop kv table src_pk dst_pk on_batch None acc"

text \<open>Copying the shards that do not see the token cancelled, in the order in which they run.\<close>

fun copy_shards ::
    "'s kv \<Rightarrow> string \<Rightarrow> (nat \<Rightarrow> string) \<Rightarrow> (nat \<Rightarrow> string) \<Rightarrow> (nat \<Rightarrow> bool) \<Rightarrow> (u64 \<Rightarrow> 'a \<Rightarrow> 'a) \<Rightarrow>
     nat list \<Rightarrow> 'a \<Rightarrow> ('s, 'a) io" where
  "copy_shards kv table src dst cancelled on_batch [] acc = io_return acc"
| "copy_shards kv table src dst cancelled on_batch (shard # shards) acc =
    io_bind (if cancelled shard then io_return acc
       else copy_partition kv table (src shard) (dst shard) on_batch acc)
      (\<lambda>acc'. copy_shards kv table src dst cancelled on_batch shards acc')"

definition count_artifacts :: "u64 \<Rightarrow> u64 \<times> task_progress option \<Rightarrow> u64 \<times> task_progress option" where
  "count_artifacts n acc = (case acc of (counter, progress) \<Rightarrow>
     let total = counter + n
     in (total, map_option (\<lambda>p. p\<lparr>tp_checked_artifacts := unat total\<rparr>) progress))"

definition count_entries :: "u64 \<Rightarrow> u64 \<times> task_progress option \<Rightarrow> u64 \<times> task_progress option" where
  "count_entries n acc = (case acc of (counter, progress) \<Rightarrow> (counter + n, progress))"

text \<open>The result carries the progress the watch channel shows at the end.\<close>

definition clone_repo ::
    "'s kv \<Rightarrow> codecs \<Rightarrow> datetime \<Rightarrow> nat list \<Rightarrow> nat list \<Rightarrow> (nat \<Rightarrow> bool) \<Rightarrow> bool \<Rightarrow> (nat \<Rightarrow> bool) \<Rightarrow>
     task_progress option \<Rightarrow> repo_config \<Rightarrow> string \<Rightarrow> u64 \<Rightarrow>
     ('s, clone_stats option \<times> task_progress option) io" where
  "clone_repo kv C now order1 order2 cancelled1 cancelled cancelled2 progress source new_name total_artifacts =
    (let new_config = source\<lparr>rp_name := new_name, rp_created_at := now, rp_deleting := False\<rparr>
     in case repo_key new_name of (table, pk, sk) \<Rightarrow>
     io_bind (typed_put_if_absent kv (cs_repo C) table pk sk new_config) (\<lambda>created.
     if \<not> created then io_return (None, progress)
     else
       let progress1 = map_option (\<lambda>p. p\<lparr>tp_total_artifacts := unat total_artifacts,
             tp_phase := ''Copying artifacts''\<rparr>) progress
       in io_bind (copy_shards kv TABLE_ARTIFACTS (artifact_shard_pk (rp_name source)) (artifact_shard_pk new_name)
            cancelled1 count_artifacts order1 (0, progress1)) (\<lambda>(copied_artifacts, progress2).
          if cancelled then io_throw (Internal ''Clone cancelled'')
          else
            let progress3 = map_option (\<lambda>p. p\<lparr>tp_phase := ''Copying directory entries''\<rparr>) progress2
            in io_bind (copy_shards kv TABLE_DIR_ENTRIES (tree_shard_pk (rp_name source)) (tree_shard_pk new_name)
                 cancelled2 count_entries order2 (0, progress3)) (\<lambda>(copied_entries, progress4).
               io_return (Some \<lparr>cl_copied_artifacts = copied_artifacts, cl_copied_entries = copied_entries\<rparr>,
                 progress4)))))"

section \<open>Staleness reaches the ancestors\<close>

text \<open>The repositories above a set of repositories, up to a number of levels.\<close>

fun ancestors :: "(string \<Rightarrow> string list) \<Rightarrow> nat \<Rightarrow> string set \<Rightarrow> string set" where
  "ancestors parents 0 X = {}"
| "ancestors parents (Suc n) X =
    (let Y = (\<Union>x \<in> X. set (parents x)) in Y \<union> ancestors parents n Y)"

lemma ancestors_Un: "ancestors parents n (X \<union> Y) = ancestors parents n X \<union> ancestors parents n Y"
  by (induction n arbitrary: X Y) (auto simp: Let_def UN_Un)

lemma ancestors_mono: "X \<subseteq> Y \<Longrightarrow> ancestors parents n X \<subseteq> ancestors parents n Y"
  by (metis ancestors_Un subset_Un_eq Un_upper1)

lemma ancestors_Suc_le: "ancestors parents n X \<subseteq> ancestors parents (Suc n) X"
proof (induction n arbitrary: X)
  case (Suc n)
  then show ?case by (force simp: Let_def)
qed simp

text \<open>
  When the parents of everything visited but the queue are visited, what is above the visited part
  is visited or above the queue.
\<close>

lemma ancestors_closed:
  assumes closed: "\<And>x. x \<in> V \<Longrightarrow> x \<notin> Q \<Longrightarrow> set (parents x) \<subseteq> visited" and sub: "visited \<subseteq> V"
  shows "ancestors parents d V \<subseteq> visited \<union> ancestors parents d Q"
proof (induction d)
  case (Suc d)
  let ?P = "\<lambda>X. \<Union>x \<in> X. set (parents x)"
  have P: "?P V \<subseteq> visited \<union> ?P Q" using closed by blast
  have "ancestors parents d visited \<subseteq> visited \<union> ancestors parents d Q"
    using Suc.IH ancestors_mono [OF sub] by blast
  then have "ancestors parents d (?P V) \<subseteq> visited \<union> ancestors parents d Q \<union> ancestors parents d (?P Q)"
    using ancestors_mono [OF P] unfolding ancestors_Un by blast
  then show ?case
    using P ancestors_Suc_le [of parents d Q] by (auto simp: Let_def)
qed simp

text \<open>
  The traversal does not depend on what the writes do. \<open>flagged\<close> is any property of the state that a
  write to a repository establishes and later writes keep.
\<close>

definition flags :: "string set \<Rightarrow> (string \<Rightarrow> ('s, bool) io) \<Rightarrow> ('s \<Rightarrow> bool) \<Rightarrow> (string \<Rightarrow> 's \<Rightarrow> bool) \<Rightarrow> bool" where
  "flags A put I flagged \<longleftrightarrow> (\<forall>p \<in> A. \<forall>s. I s \<longrightarrow> wp (put p) (\<lambda>_ s'. I s' \<and> flagged p s' \<and>
     (\<forall>q. flagged q s \<longrightarrow> flagged q s')) s)"

lemma flag_parents_spec:
  assumes flags: "flags A put I flagged"
  shows "set ps \<subseteq> A \<Longrightarrow> I s \<Longrightarrow> \<forall>p \<in> visited. flagged p s \<Longrightarrow>
    wp (flag_parents put ps visited queue) (\<lambda>r s'. I s' \<and> (\<exists>new. r = Inr (visited \<union> set ps, queue @ new) \<and>
      set new = set ps - visited \<and> (\<forall>p \<in> visited \<union> set ps. flagged p s'))) s"
proof (induction ps arbitrary: visited queue s)
  case (Cons p ps)
  show ?case
  proof (cases "p \<in> visited")
    case True
    then have "visited \<union> set (p # ps) = visited \<union> set ps" "set (p # ps) - visited = set ps - visited" by auto
    with Cons.IH [OF _ Cons.prems(2,3), of queue] Cons.prems(1) True show ?thesis by simp
  next
    case False
    have put: "wp (put p) (\<lambda>_ s'. I s' \<and> flagged p s' \<and> (\<forall>q. flagged q s \<longrightarrow> flagged q s')) s"
      using flags Cons.prems(1,2) by (simp add: flags_def)
    have IH: "wp (flag_parents put ps (insert p visited) (queue @ [p]))
        (\<lambda>r s'. I s' \<and> (\<exists>new. r = Inr (visited \<union> set (p # ps), queue @ new) \<and>
          set new = set (p # ps) - visited \<and> (\<forall>q \<in> visited \<union> set (p # ps). flagged q s'))) s1"
      if "I s1" "flagged p s1" "\<forall>q. flagged q s \<longrightarrow> flagged q s1" for s1
    proof (rule wp_mono [OF Cons.IH], goal_cases)
      case (4 r s')
      then obtain new where "r = Inr (insert p visited \<union> set ps, (queue @ [p]) @ new)"
        "set new = set ps - insert p visited" "\<forall>q \<in> insert p visited \<union> set ps. flagged q s'" "I s'" by blast
      then show ?case using False by (intro conjI exI [of _ "p # new"]) auto
    qed (use that Cons.prems in auto)
    show ?thesis
      unfolding flag_parents.simps if_not_P [OF False]
      by (rule wp_try_bindI [OF put]) (use IH in blast)
  qed
qed simp

lemma bfs_level_spec:
  assumes flags: "flags A put I flagged" and A: "\<And>x. set (parents x) \<subseteq> A"
  shows "I s \<Longrightarrow> \<forall>p \<in> visited. flagged p s \<Longrightarrow>
    wp (bfs_level parents put (length level) visited (level @ queue)) (\<lambda>r s'. I s' \<and>
      (\<exists>new. r = Inr (visited \<union> (\<Union>x \<in> set level. set (parents x)), queue @ new) \<and>
        set new = (\<Union>x \<in> set level. set (parents x)) - visited \<and>
        (\<forall>p \<in> visited \<union> (\<Union>x \<in> set level. set (parents x)). flagged p s'))) s"
proof (induction level arbitrary: visited queue s)
  case (Cons x level)
  let ?P = "\<Union>y \<in> set level. set (parents y)"
  show ?case
    unfolding append_Cons list.size(4) add_Suc_right add_0_right bfs_level.simps One_nat_def
  proof (rule wp_bindI [OF flag_parents_spec [OF flags A Cons.prems]], goal_cases)
    case (2 a s1)
    then obtain new where a: "a = (visited \<union> set (parents x), (level @ queue) @ new)" and s1: "I s1"
      and fl: "\<forall>p \<in> visited \<union> set (parents x). flagged p s1"
      and new: "set new = set (parents x) - visited" by auto
    have IH: "wp (bfs_level parents put (length level) (visited \<union> set (parents x)) (level @ (queue @ new)))
      (\<lambda>r s'. I s' \<and> (\<exists>new'. r = Inr (visited \<union> set (parents x) \<union> ?P, (queue @ new) @ new') \<and>
        set new' = ?P - (visited \<union> set (parents x)) \<and> (\<forall>p \<in> visited \<union> set (parents x) \<union> ?P. flagged p s'))) s1"
      by (rule Cons.IH [OF s1 fl])
    show ?case
      unfolding a prod.case append_assoc
    proof (rule wp_mono [OF IH], goal_cases)
      case (1 r s')
      then obtain new' where "I s'" "r = Inr (visited \<union> set (parents x) \<union> ?P, (queue @ new) @ new')"
        "set new' = ?P - (visited \<union> set (parents x))" "\<forall>p \<in> visited \<union> set (parents x) \<union> ?P. flagged p s'"
        by blast
      then show ?case using new by (intro conjI exI [of _ "new @ new'"]) auto
    qed
  qed auto
qed simp

lemma bfs_levels_spec:
  assumes flags: "flags A put I flagged" and A: "\<And>x. set (parents x) \<subseteq> A"
  shows "I s \<Longrightarrow> \<forall>p \<in> visited. flagged p s \<Longrightarrow>
    (\<And>x. x \<in> insert src visited \<Longrightarrow> x \<notin> set queue \<Longrightarrow> set (parents x) \<subseteq> visited) \<Longrightarrow>
    wp (bfs_levels parents put depth visited queue) (\<lambda>r s'. I s' \<and>
      r = Inr (visited \<union> ancestors parents depth (set queue)) \<and>
      (\<forall>p \<in> visited \<union> ancestors parents depth (set queue). flagged p s')) s"
proof (induction depth arbitrary: visited queue s)
  case (Suc depth)
  show ?case
  proof (cases "queue = []")
    case True
    have "ancestors parents n {} = {}" for n by (induction n) simp_all
    with True Suc.prems show ?thesis by (simp add: Let_def)
  next
    case False
    let ?P = "\<Union>x \<in> set queue. set (parents x)"
    have lvl: "wp (bfs_level parents put (length queue) visited (queue @ [])) (\<lambda>r s'. I s' \<and>
      (\<exists>new. r = Inr (visited \<union> ?P, [] @ new) \<and> set new = ?P - visited \<and> (\<forall>p \<in> visited \<union> ?P. flagged p s'))) s"
      by (rule bfs_level_spec [OF flags A Suc.prems(1,2)])
    show ?thesis
      unfolding bfs_levels.simps if_not_P [OF False]
    proof (rule wp_bindI [OF lvl [unfolded append_Nil2 append_Nil]], goal_cases)
      case (2 a s1)
      then obtain new where a: "a = (visited \<union> ?P, new)" and s1: "I s1"
        and fl: "\<forall>p \<in> visited \<union> ?P. flagged p s1" and new: "set new = ?P - visited" by auto
      have closed: "set (parents x) \<subseteq> visited \<union> ?P" if "x \<in> insert src (visited \<union> ?P)" "x \<notin> set new" for x
        using that Suc.prems(3) [of x] new by blast
      have "ancestors parents depth ?P \<subseteq> ancestors parents depth (insert src (visited \<union> ?P))"
        by (rule ancestors_mono) blast
      also have "\<dots> \<subseteq> (visited \<union> ?P) \<union> ancestors parents depth (set new)"
        by (rule ancestors_closed [OF closed]) auto
      finally have eq: "visited \<union> ?P \<union> ancestors parents depth (set new) =
          visited \<union> ancestors parents (Suc depth) (set queue)"
        using new ancestors_mono [of "set new" ?P parents depth] by (auto simp: Let_def)
      show ?case unfolding a prod.case eq [symmetric] by (rule Suc.IH [OF s1 fl closed])
    qed auto
  qed
qed simp

text \<open>
  The traversal with its writes recorded takes the same course. What a recorded write says: when it
  answered, the record that was at the path is still there, or the flag is.
\<close>

lemma flag_parents_logged:
  "flag_parents (logged put) ps visited queue (s, l) = Some (r, (s', l')) \<Longrightarrow>
    flag_parents put ps visited queue s = Some (r, s')"
proof (induction ps arbitrary: visited queue s l)
  case (Cons p ps)
  then show ?case
    by (cases "p \<in> visited") (auto simp: io_bind_def io_try_def logged_def split: option.splits prod.splits)
qed (simp add: io_return_def)

lemma bfs_level_logged:
  "bfs_level parents (logged put) n visited queue (s, l) = Some (r, (s', l')) \<Longrightarrow>
    bfs_level parents put n visited queue s = Some (r, s')"
proof (induction n arbitrary: visited queue s l)
  case (Suc n)
  show ?case
  proof (cases queue)
    case (Cons x xs)
    with Suc.prems show ?thesis
      by (auto simp: io_bind_def split: option.splits sum.splits prod.splits
        dest!: flag_parents_logged Suc.IH)
  qed (use Suc.prems in \<open>simp add: io_return_def\<close>)
qed (simp add: io_return_def)

lemma bfs_levels_logged:
  "bfs_levels parents (logged put) d visited queue (s, l) = Some (r, (s', l')) \<Longrightarrow>
    bfs_levels parents put d visited queue s = Some (r, s')"
proof (induction d arbitrary: visited queue s l)
  case (Suc d)
  show ?case
  proof (cases "queue = []")
    case False
    with Suc.prems show ?thesis
      by (auto simp: io_bind_def split: option.splits sum.splits prod.splits
        dest!: bfs_level_logged Suc.IH)
  qed (use Suc.prems in \<open>simp add: io_return_def\<close>)
qed (simp add: io_return_def)

definition flag_written ::
    "hasher \<Rightarrow> codecs \<Rightarrow> (string \<Rightarrow> string) \<Rightarrow> artifact_record \<Rightarrow> string \<Rightarrow> string \<Rightarrow> kv_view \<Rightarrow> kv_view \<Rightarrow> bool" where
  "flag_written H C uuid flag path repo v v' \<longleftrightarrow>
    (\<exists>b. encode (cs_artifact C) (prepare_artifact (uuid repo) path flag) = Inr b \<and>
      art_at H repo path v' = (case art_at H repo path v of None \<Rightarrow> Some (b, 1) | Some x \<Rightarrow> Some x))"

definition log_sound ::
    "hasher \<Rightarrow> codecs \<Rightarrow> (string \<Rightarrow> string) \<Rightarrow> artifact_record \<Rightarrow> string \<Rightarrow> kv_view \<Rightarrow>
     (string \<times> bool result) list \<Rightarrow> kv_view \<Rightarrow> bool" where
  "log_sound H C uuid flag path v log v' \<longleftrightarrow> (\<forall>q.
    (q \<notin> fst ` set log \<longrightarrow> art_at H q path v' = art_at H q path v) \<and>
    (q \<in> fst ` set log \<longrightarrow> (\<forall>r. (q, r) \<in> set log \<longrightarrow> \<not> isl r) \<longrightarrow> flag_written H C uuid flag path q v v'))"

lemma log_sound_snoc:
  assumes "log_sound H C uuid flag path v log v1"
    and other: "\<And>q. q \<noteq> p \<Longrightarrow> art_at H q path v2 = art_at H q path v1"
    and here: "\<not> isl r \<Longrightarrow> flag_written H C uuid flag path p v1 v2"
  shows "log_sound H C uuid flag path v (log @ [(p, r)]) v2"
  unfolding log_sound_def
proof (intro allI conjI impI)
  fix q assume "q \<notin> fst ` set (log @ [(p, r)])"
  then show "art_at H q path v2 = art_at H q path v" using assms(1) other by (auto simp: log_sound_def)
next
  fix q assume q: "q \<in> fst ` set (log @ [(p, r)])" "\<forall>r'. (q, r') \<in> set (log @ [(p, r)]) \<longrightarrow> \<not> isl r'"
  show "flag_written H C uuid flag path q v v2"
  proof (cases "q = p")
    case False
    then have "flag_written H C uuid flag path q v v1" using assms(1) q by (auto simp: log_sound_def)
    with False show ?thesis by (simp add: flag_written_def other)
  next
    case True
    then have h: "flag_written H C uuid flag path p v1 v2" using here q(2) by auto
    show ?thesis
    proof (cases "p \<in> fst ` set log")
      case True
      with assms(1) q(2) \<open>q = p\<close> have "flag_written H C uuid flag path p v v1" by (auto simp: log_sound_def)
      with h \<open>q = p\<close> show ?thesis by (auto simp: flag_written_def split: option.splits)
    next
      case False
      with assms(1) have "art_at H p path v1 = art_at H p path v" by (auto simp: log_sound_def)
      with h \<open>q = p\<close> show ?thesis by (simp add: flag_written_def)
    qed
  qed
qed

lemma wp_bind_run:
  "m s = Some (r, s1) \<Longrightarrow> wp (io_bind m f) Q s \<longleftrightarrow> (case r of Inl e \<Rightarrow> Q (Inl e) s1 | Inr a \<Rightarrow> wp (f a) Q s1)"
  by (auto simp: wp_def io_bind_def split: sum.splits)

context kv_store
begin

lemma put_artifact_if_absent_flags:
  assumes inv: "invar s" and repo: "pk_ok repo" and path: "sk_ok path"
  shows "wp (put_artifact_if_absent H kv C (uuid repo) repo path flag) (\<lambda>r s'. invar s' \<and>
    (\<forall>q. q \<noteq> repo \<longrightarrow> art_at H q path (view s') = art_at H q path (view s)) \<and>
    (\<not> isl r \<longrightarrow> flag_written H C uuid flag path repo (view s) (view s'))) s"
proof (rule wp_mono [OF put_artifact_if_absent_spec [OF inv repo path]], goal_cases)
  case (1 r s')
  let ?K = "{artifact_key H repo path, tree_entry_key H repo path}"
  have other: "(TABLE_ARTIFACTS, sharded_pk H q (normalize_path path), normalize_path path) \<notin> ?K" if "q \<noteq> repo" for q
    using that by (simp add: artifact_key_def tree_entry_key_def Let_def sharded_pk_def)
  show ?case
  proof (cases r)
    case (Inl e)
    with 1 have "invar s'" "view_frame ?K (view s) (view s')" by simp_all
    then show ?thesis using Inl other by (simp add: view_frame_def)
  next
    case (Inr w)
    from 1 [unfolded Inr kv_write_simps] obtain b where s': "invar s'"
      and b: "encode (cs_artifact C) (prepare_artifact (uuid repo) path flag) = Inr b"
      and w: "w = (art_at H repo path (view s) = None)"
      and post: "if w then tree_upserted H kv C repo path (prepare_artifact (uuid repo) path flag)
          (put_art H repo path b (view s)) (view s') else view s' = view s" by blast
    have "art_at H q path (view s') = (if q = repo \<and> w then Some (b, 1) else art_at H q path (view s))" for q
    proof (cases w)
      case True
      with post have "tree_upserted H kv C repo path (prepare_artifact (uuid repo) path flag)
          (put_art H repo path b (view s)) (view s')" by simp
      from tree_upserted_art [OF this] show ?thesis
        using True w by (simp add: next_version_def sharded_pk_def)
    qed (use post in simp)
    then show ?thesis using s' b w by (simp add: flag_written_def split: option.split)
  qed
qed

lemma list_repos_spec:
  assumes "invar s"
  shows "wp (list_repos kv C) (kv_read invar view s (\<lambda>repos. \<exists>all.
    decode_all (cs_repo C) (take ADMIN_ENTITY_CAP (entries_where (view s TABLE_REPOS SINGLE_PK) (\<lambda>_. True))) = Inr all \<and>
    repos = filter (\<lambda>r. \<not> rp_deleting r) all)) s"
  unfolding list_repos_def
  by (rule wp_bindI [OF typed_list_spec [OF assms]]) auto

lemma propagate_staleness_spec:
  assumes inv: "invar s" and path: "sk_ok stale_path"
    and names: "\<And>all r. decode_all (cs_repo C) (take ADMIN_ENTITY_CAP
      (entries_where (view s TABLE_REPOS SINGLE_PK) (\<lambda>_. True))) = Inr all \<Longrightarrow> r \<in> set all \<Longrightarrow> pk_ok (rp_name r)"
  shows "wp (propagate_staleness H kv C now uuid source_repo format stale_path) (\<lambda>r s'. invar s' \<and>
    (case r of Inl e \<Rightarrow> view s' = view s
     | Inr _ \<Rightarrow> (\<exists>repos s1 visited log. list_repos kv C s = Some (Inr repos, s1) \<and>
        bfs_levels (member_to_proxies repos format)
          (logged (\<lambda>p. put_artifact_if_absent H kv C (uuid p) p stale_path (stale_flag now format)))
          MAX_STALE_DEPTH {} [source_repo] (s1, []) = Some (Inr visited, (s', log)) \<and>
        (\<forall>p \<in> ancestors (member_to_proxies repos format) MAX_STALE_DEPTH {source_repo}. p \<in> fst ` set log) \<and>
        log_sound H C uuid (stale_flag now format) stale_path (view s) log (view s')))) s"
  unfolding propagate_staleness_def
proof (rule wp_bindI [OF wp_run [OF list_repos_spec [OF inv]]], goal_cases)
  case (2 repos s1)
  then obtain all where s1: "invar s1" "view s1 = view s" and
    all: "decode_all (cs_repo C) (take ADMIN_ENTITY_CAP
      (entries_where (view s TABLE_REPOS SINGLE_PK) (\<lambda>_. True))) = Inr all"
    and repos: "repos = filter (\<lambda>r. \<not> rp_deleting r) all"
    and run: "list_repos kv C s = Some (Inr repos, s1)" by auto
  let ?put = "\<lambda>p. put_artifact_if_absent H kv C (uuid p) p stale_path (stale_flag now format)"
  let ?parents = "member_to_proxies repos format"
  let ?I = "\<lambda>(s', log). invar s' \<and> log_sound H C uuid (stale_flag now format) stale_path (view s) log (view s')"
  let ?flagged = "\<lambda>p (s' :: 'a, log :: (string \<times> bool result) list). p \<in> fst ` set log"
  have "set (?parents x) \<subseteq> rp_name ` set repos" for x
    by (auto simp: member_to_proxies_def split: repo_kind.splits if_splits)
  then have A: "set (?parents x) \<subseteq> {p. pk_ok p}" for x
    using names [OF all] repos by fastforce
  have "wp (logged ?put p) (\<lambda>_ s'. ?I s' \<and> ?flagged p s' \<and> (\<forall>q. ?flagged q (u, l) \<longrightarrow> ?flagged q s')) (u, l)"
    if "pk_ok p" "invar u" "log_sound H C uuid (stale_flag now format) stale_path (view s) l (view u)" for p u l
    unfolding wp_logged
    by (rule wp_mono [OF put_artifact_if_absent_flags [OF that(2,1) path, of H C uuid]])
      (use log_sound_snoc [OF that(3)] in force)
  then have fl: "flags {p. pk_ok p} (logged ?put) ?I ?flagged"
    unfolding flags_def by blast
  have "wp (bfs_levels ?parents (logged ?put) MAX_STALE_DEPTH {} [source_repo]) (\<lambda>r s'. ?I s' \<and>
      r = Inr ({} \<union> ancestors ?parents MAX_STALE_DEPTH (set [source_repo])) \<and>
      (\<forall>p \<in> {} \<union> ancestors ?parents MAX_STALE_DEPTH (set [source_repo]). ?flagged p s')) (s1, [])"
    by (rule bfs_levels_spec [OF fl A, where src = source_repo]) (use s1 in \<open>auto simp: log_sound_def\<close>)
  then obtain visited s' log where logged: "bfs_levels ?parents (logged ?put) MAX_STALE_DEPTH {} [source_repo] (s1, []) =
      Some (Inr visited, (s', log))"
    and post: "invar s'" "log_sound H C uuid (stale_flag now format) stale_path (view s) log (view s')"
      "\<forall>p \<in> ancestors ?parents MAX_STALE_DEPTH {source_repo}. p \<in> fst ` set log"
    by (auto simp: wp_iff)
  from post run logged show ?case
    unfolding wp_bind_run [of "bfs_levels _ _ _ _ _", OF bfs_levels_logged [OF logged]] sum.case wp_return
    by blast
qed auto

text \<open>Marking a repository: the whole configuration is kept but for the mark.\<close>

lemma delete_repo_spec:
  assumes inv: "invar s" and name: "sk_ok name"
  shows "wp (delete_repo kv C (\<lambda>_ s. s) name) (kv_write invar view s {repo_key name} (\<lambda>ok v.
    case view s TABLE_REPOS SINGLE_PK name of
      None \<Rightarrow> \<not> ok \<and> v = view s
    | Some (b, n) \<Rightarrow> ok \<and> (\<exists>config. decode (cs_repo C) b = Inr config \<and>
        (if rp_deleting config then v = view s
         else \<exists>b'. encode (cs_repo C) (config\<lparr>rp_deleting := True\<rparr>) = Inr b' \<and>
           v = view_put (view s) TABLE_REPOS SINGLE_PK name b')))) s"
  unfolding delete_repo_def repo_key_def prod.case
proof (rule wp_bindI [OF typed_get_versioned_spec [OF inv pk_ok_single]], goal_cases)
  case (2 cur s1)
  then have s1: "invar s1" "view s1 = view s" by auto
  show ?case
  proof (cases cur)
    case None
    with 2 s1 show ?thesis by (auto split: option.splits)
  next
    case (Some cv)
    obtain config version where cv: "cv = (config, version)" by (cases cv)
    from 2 Some cv obtain b where b: "view s TABLE_REPOS SINGLE_PK name = Some (b, version)" "decode (cs_repo C) b = Inr config"
      by (auto split: option.splits)
    show ?thesis
    proof (cases "rp_deleting config")
      case True
      with s1 b show ?thesis by (simp add: Some cv)
    next
      case False
      show ?thesis
      proof (cases "encode (cs_repo C) (config\<lparr>rp_deleting := True\<rparr>)")
        case (Inl e)
        with s1 False show ?thesis by (simp add: Some cv wp_simps)
      next
        case (Inr b')
        have "wp (kv_put_if_version kv TABLE_REPOS SINGLE_PK name b' (Some version)) (kv_write invar view s1
          {(TABLE_REPOS, SINGLE_PK, name)} (\<lambda>ok v. ok = (Some version = map_option snd (view s1 TABLE_REPOS SINGLE_PK name)) \<and>
            v = (if ok then view_put (view s1) TABLE_REPOS SINGLE_PK name b' else view s1))) s1"
          by (rule put_if_version_spec [OF s1(1) pk_ok_single name])
        then show ?thesis
          unfolding Some cv option.case prod.case if_not_P [OF False] wp_bind_ok [OF Inr] wp_bind [of "interfere _ _"]
            wp_interfere sum.case
          by (rule wp_mono) (use s1 b False Inr in \<open>auto simp: kv_write_def split: sum.splits\<close>)
      qed
    qed
  qed
qed simp

end

text \<open>The keys a repository owns.\<close>

definition repo_keys :: "string \<Rightarrow> (string \<times> string \<times> string) set" where
  "repo_keys name = insert (repo_key name)
     ({(TABLE_ARTIFACTS, artifact_shard_pk name shard, sk) | shard sk. True} \<union>
      {(TABLE_DIR_ENTRIES, tree_shard_pk name shard, sk) | shard sk. True})"

context kv_store
begin

text \<open>Emptying the shards of a repository.\<close>

lemma drain_shards_spec:
  assumes inv: "invar s" and pk: "\<And>shard. pk_ok (pkf shard)"
  shows "wp (io_for order (\<lambda>shard. drain_loop kv fl t (pkf shard))) (\<lambda>r s'. invar s' \<and>
    view_frame {(t, pkf shard, sk) | shard sk. True} (view s) (view s') \<and>
    (r = Inr () \<longrightarrow> (\<forall>shard \<in> set order. \<forall>sk. view s' t (pkf shard) sk = None))) s"
proof -
  let ?K = "{(t, pkf shard, sk) | shard sk. True}"
  let ?I = "\<lambda>done s'. invar s' \<and> view_frame ?K (view s) (view s') \<and>
    (\<forall>shard \<in> set done. \<forall>sk. view s' t (pkf shard) sk = None)"
  have "wp (io_for order (\<lambda>shard. drain_loop kv fl t (pkf shard))) (\<lambda>r s'. case r of
      Inl e \<Rightarrow> invar s' \<and> view_frame ?K (view s) (view s') | Inr _ \<Rightarrow> ?I order s') s"
  proof (rule wp_for [where I = ?I], goal_cases)
    case (2 "done" shard rest s1)
    show ?case
    proof (rule wp_mono [OF drain_loop_spec [OF pk]], goal_cases)
      case 1
      then show ?case using 2 by simp
    next
      case (2 r s2)
      have fr: "view_frame ?K (view s1) (view s2)"
        by (rule view_frame_mono [of "{(t, pkf shard, sk) | sk. True}"]) (use 2 in auto)
      have "view s2 t (pkf shard') sk = None" if "shard' \<in> set done" "r = Inr ()" for shard' sk
      proof (cases "pkf shard' = pkf shard")
        case False
        then have "view s2 t (pkf shard') sk = view s1 t (pkf shard') sk"
          using 2 by (auto intro: view_frameD)
        then show ?thesis using that \<open>?I done s1\<close> by simp
      qed (use 2 that in simp)
      with 2 fr \<open>?I done s1\<close> show ?case by (auto intro: view_frame_trans split: sum.splits)
    qed
  qed (use inv in simp)
  then show ?thesis by (rule wp_mono) (auto split: sum.splits)
qed

lemma drain_deleting_repo_spec:
  assumes inv: "invar s" and name: "pk_ok name"
    and orders: "shard_order order1" "shard_order order2"
  shows "wp (drain_deleting_repo kv order1 order2 name) (\<lambda>r s'. invar s' \<and>
    view_frame (repo_keys name) (view s) (view s') \<and>
    (r = Inr () \<longrightarrow> view s' TABLE_REPOS SINGLE_PK name = None \<and> (\<forall>shard < NUM_SHARDS. \<forall>sk.
      view s' TABLE_ARTIFACTS (artifact_shard_pk name shard) sk = None \<and>
      view s' TABLE_DIR_ENTRIES (tree_shard_pk name shard) sk = None))) s"
  unfolding drain_deleting_repo_def
proof (rule wp_bindI [OF drain_shards_spec [OF inv]], goal_cases)
  case 1
  then show ?case using name by simp
next
  case (2 e s1)
  then show ?case by (auto simp: repo_keys_def elim: view_frame_mono)
next
  case (3 u s1)
  have s1: "invar s1" "view_frame (repo_keys name) (view s) (view s1)"
    and a1: "\<And>shard sk. shard < NUM_SHARDS \<Longrightarrow> view s1 TABLE_ARTIFACTS (artifact_shard_pk name shard) sk = None"
    using 3 orders(1) by (auto simp: shard_order_def repo_keys_def elim: view_frame_mono)
  show ?case
  proof (rule wp_bindI [OF drain_shards_spec [OF s1(1)]], goal_cases)
    case 1
    then show ?case using name by simp
  next
    case (2 e s2)
    then have "view_frame (repo_keys name) (view s1) (view s2)" by (auto simp: repo_keys_def elim: view_frame_mono)
    with 2 s1 show ?case by (auto intro: view_frame_trans)
  next
    case (3 u s2)
    have s2: "invar s2" "view_frame (repo_keys name) (view s1) (view s2)"
      and d2: "\<And>shard sk. shard < NUM_SHARDS \<Longrightarrow> view s2 TABLE_DIR_ENTRIES (tree_shard_pk name shard) sk = None"
      and f2: "view_frame {(TABLE_DIR_ENTRIES, tree_shard_pk name shard, sk) | shard sk. True} (view s1) (view s2)"
      using 3 orders(2) by (auto simp: shard_order_def repo_keys_def elim: view_frame_mono)
    have a2: "view s2 TABLE_ARTIFACTS (artifact_shard_pk name shard) sk = None" if "shard < NUM_SHARDS" for shard sk
      using view_frameD [OF f2, of TABLE_ARTIFACTS "artifact_shard_pk name shard" sk] a1 [OF that] by simp
    have fr: "view_frame (repo_keys name) (view s) (view s2)" using s1(2) s2(2) by (rule view_frame_trans)
    show ?case
      unfolding repo_key_def prod.case
    proof (rule wp_bindI [OF delete_spec [OF s2(1) pk_ok_single]], goal_cases)
      case (1 e s3)
      then have "view_frame (repo_keys name) (view s2) (view s3)"
        by (auto simp: repo_keys_def repo_key_def elim: view_frame_mono)
      with 1 fr show ?case by (auto intro: view_frame_trans)
    next
      case (2 hit s3)
      then have s3: "invar s3" "view s3 = view_del (view s2) TABLE_REPOS SINGLE_PK name" by auto
      have "view_frame (repo_keys name) (view s2) (view s3)"
        unfolding s3(2) by (rule view_frame_upd) (simp add: repo_keys_def repo_key_def)
      with fr have "view_frame (repo_keys name) (view s) (view s3)" by (rule view_frame_trans)
      with s3 a2 d2 show ?case by simp
    qed
  qed
qed

end

section \<open>Cloning\<close>

text \<open>The entries of a partition as a batch for another one.\<close>

definition retarget :: "string \<Rightarrow> (string \<times> bytes) list \<Rightarrow> (string \<times> string \<times> bytes) list" where
  "retarget dst items = map (\<lambda>(sk, v). (dst, sk, v)) items"

lemma view_put_all_append: "view_put_all v t (xs @ ys) = view_put_all (view_put_all v t xs) t ys"
  by (induction v t xs rule: view_put_all.induct) (simp_all del: view_upd_apply)

lemma retarget_append [simp]: "retarget dst (xs @ ys) = retarget dst xs @ retarget dst ys"
  by (simp add: retarget_def)

lemma view_put_all_retarget_other:
  "t' \<noteq> t \<or> pk \<noteq> dst \<Longrightarrow> view_put_all v t (retarget dst items) t' pk sk = v t' pk sk"
  by (rule view_put_all_notin) (auto simp: retarget_def)

lemma view_frame_retarget: "view_frame {(t, dst, sk) | sk. True} v (view_put_all v t (retarget dst items))"
  by (auto simp: view_frame_def intro!: view_put_all_retarget_other)

text \<open>The bytes of a partition after a copy: those of the source where it has the key.\<close>

lemma view_put_all_retarget_entries:
  assumes "finite (dom m)"
  shows "map_option fst (view_put_all v t (retarget dst (entries_where m (\<lambda>_. True))) t dst sk) =
    (case m sk of Some (b, _) \<Rightarrow> Some b | None \<Rightarrow> map_option fst (v t dst sk))"
proof (cases "m sk")
  case None
  then have "(sk, b) \<notin> set (entries_where m (\<lambda>_. True))" for b
    by (simp add: set_entries_where [OF assms])
  then have "view_put_all v t (retarget dst (entries_where m (\<lambda>_. True))) t dst sk = v t dst sk"
    by (intro view_put_all_notin) (auto simp: retarget_def)
  with None show ?thesis by simp
next
  case (Some x)
  obtain b n where x: "x = (b, n)" by (cases x)
  have "(sk, b) \<in> set (entries_where m (\<lambda>_. True))" using Some x by (auto simp: set_entries_where [OF assms])
  moreover have "distinct (map (\<lambda>(pk, sk, b). (pk, sk)) (retarget dst (entries_where m (\<lambda>_. True))))"
  proof -
    have "map (\<lambda>(pk, sk, b). (pk, sk)) (retarget dst (entries_where m (\<lambda>_. True))) =
        map (Pair dst) (map fst (entries_where m (\<lambda>_. True)))"
      by (auto simp: retarget_def)
    moreover have "distinct (map (Pair dst) (map fst (entries_where m (\<lambda>_. True))))"
      unfolding distinct_map [of "Pair dst"] by (simp add: inj_on_def)
    ultimately show ?thesis by (simp only:)
  qed
  ultimately have "view_put_all v t (retarget dst (entries_where m (\<lambda>_. True))) t dst sk =
      Some (b, next_version (v t dst sk))"
    by (intro view_put_all_in) (auto simp: retarget_def image_iff)
  with Some x show ?thesis by simp
qed

context kv_store
begin

lemma copy_loop_spec:
  assumes pk: "pk_ok src" "pk_ok dst" "src \<noteq> dst"
    and count: "\<And>n acc. h (on_batch n acc) = h acc + n"
  shows "invar s \<Longrightarrow> view s t src = m \<Longrightarrow> lo = (case cursor of Some c \<Rightarrow> c | None \<Rightarrow> []) \<Longrightarrow>
    R = entries_where m (in_range lo None) \<Longrightarrow>
    wp (copy_loop kv t src dst on_batch cursor acc) (\<lambda>r s'. invar s' \<and>
      view_frame {(t, dst, sk) | sk. True} (view s) (view s') \<and>
      (\<forall>a. r = Inr a \<longrightarrow> view s' = view_put_all (view s) t (retarget dst R) \<and>
        h a = h acc + (word_of_nat (length R) :: u64))) s"
proof (induction "length R" arbitrary: R cursor lo acc s rule: less_induct)
  case less
  let ?K = "{(t, dst, sk) | sk. True}" and ?B = "take SCAN_BATCH_SIZE R"
  have fin: "finite (dom m)" using view_finite [OF less.prems(1), of t src] less.prems(2) by simp
  obtain r s1 where scan: "kv_scan_range kv t src lo None SCAN_BATCH_SIZE s = Some (r, s1)"
    and r: "kv_read invar view s (\<lambda>res. sr_items res = ?B \<and> (sr_done res \<longrightarrow> length R \<le> SCAN_BATCH_SIZE)) r s1"
    using scan_range_spec [OF less.prems(1) pk(1), of t lo None SCAN_BATCH_SIZE] less.prems by (auto simp: wp_iff)
  note unfold = copy_loop.simps [of kv t src dst on_batch cursor acc s, folded less.prems(3), unfolded scan]
  show ?case
  proof (cases r)
    case (Inl e)
    with r unfold show ?thesis by (simp add: wp_def)
  next
    case (Inr batch)
    with r have s1: "invar s1" "view s1 = view s" and items: "sr_items batch = ?B"
      and fin_batch: "sr_done batch \<Longrightarrow> length R \<le> SCAN_BATCH_SIZE" by auto
    show ?thesis
    proof (cases "R = []")
      case True
      with unfold Inr items s1 show ?thesis by (simp add: wp_def retarget_def)
    next
      case False
      then have ne: "?B \<noteq> []" by (simp add: SCAN_BATCH_SIZE_def)
      have ok: "\<forall>(pk', sk, b) \<in> set (retarget dst ?B). pk_ok pk' \<and> sk_ok sk"
      proof -
        have "sk_ok k" if "(k, b) \<in> set R" for k b
          using that view_ok [OF less.prems(1), of t src k] less.prems(2,4)
          by (auto simp: set_entries_where [OF fin])
        then show ?thesis using pk(2) by (auto simp: retarget_def dest!: in_set_takeD)
      qed
      obtain r2 s2 where put: "kv_put_batch kv t (retarget dst ?B) s1 = Some (r2, s2)"
        and r2: "kv_write invar view s1 {(t, pk, sk) | pk sk b. (pk, sk, b) \<in> set (retarget dst ?B)}
          (\<lambda>_ v. v = view_put_all (view s1) t (retarget dst ?B)) r2 s2"
        using put_batch_spec [OF s1(1) ok, of t] by (auto simp: wp_iff)
      note step = unfold [unfolded Inr, simplified, unfolded items, folded retarget_def, unfolded put]
      show ?thesis
      proof (cases r2)
        case (Inl e)
        have "view_frame ?K (view s) (view s2)"
          using r2 Inl s1 by (auto simp: retarget_def elim!: view_frame_mono)
        with Inl step r2 ne show ?thesis by (simp add: wp_def)
      next
        case ok2: (Inr u)
        with r2 s1 have s2: "invar s2" "view s2 = view_put_all (view s) t (retarget dst ?B)" by auto
        have fr: "view_frame ?K (view s) (view s2)" unfolding s2(2) by (rule view_frame_retarget)
        let ?acc = "on_batch (word_of_nat (length ?B)) acc"
        show ?thesis
        proof (cases "sr_done batch")
          case True
          with fin_batch have "?B = R" by simp
          with step ok2 True s2 fr ne count show ?thesis by (simp add: wp_def)
        next
          case more: False
          let ?c = "fst (last ?B) @ [CHR 0x00]"
          have src2: "view s2 t src = m"
            unfolding s2(2) using view_put_all_retarget_other [of t t src dst] pk(3) less.prems(2) by (auto simp: fun_eq_iff)
          have rest: "drop SCAN_BATCH_SIZE R = entries_where m (in_range ?c None)"
            using entries_after_batch [OF fin] ne less.prems(4) by simp
          have short: "length (drop SCAN_BATCH_SIZE R) < length R" using False by (cases R) (auto simp: SCAN_BATCH_SIZE_def)
          obtain lv where last: "last_opt ?B = Some (fst (last ?B), lv)"
            using ne by (metis last_opt_Some prod.collapse)
          have IH: "wp (copy_loop kv t src dst on_batch (Some ?c) ?acc) (\<lambda>r s'. invar s' \<and>
            view_frame ?K (view s2) (view s') \<and> (\<forall>a. r = Inr a \<longrightarrow>
              view s' = view_put_all (view s2) t (retarget dst (drop SCAN_BATCH_SIZE R)) \<and>
              h a = h ?acc + (word_of_nat (length (drop SCAN_BATCH_SIZE R)) :: u64))) s2"
            by (rule less.hyps [OF short s2(1) src2 _ rest]) simp
          have "view_put_all (view s2) t (retarget dst (drop SCAN_BATCH_SIZE R)) = view_put_all (view s) t (retarget dst R)"
            unfolding s2(2) view_put_all_append [symmetric] retarget_append [symmetric] by simp
          moreover have "h ?acc + (word_of_nat (length (drop SCAN_BATCH_SIZE R)) :: u64) = h acc + word_of_nat (length R)"
            unfolding count add.assoc of_nat_add [symmetric]
            by (metis append_take_drop_id length_append)
          ultimately have "wp (copy_loop kv t src dst on_batch (Some ?c) ?acc) (\<lambda>r s'. invar s' \<and>
            view_frame ?K (view s) (view s') \<and> (\<forall>a. r = Inr a \<longrightarrow>
              view s' = view_put_all (view s) t (retarget dst R) \<and> h a = h acc + word_of_nat (length R))) s2"
            using IH fr by (auto elim!: wp_mono intro: view_frame_trans)
          then show ?thesis using step ok2 more ne last by (simp add: wp_def)
        qed
      qed
    qed
  qed
qed

lemma copy_partition_spec:
  assumes pk: "pk_ok src" "pk_ok dst" "src \<noteq> dst" and count: "\<And>n acc. h (on_batch n acc) = h acc + n"
    and inv: "invar s"
  shows "wp (copy_partition kv t src dst on_batch acc) (\<lambda>r s'. invar s' \<and>
    view_frame {(t, dst, sk) | sk. True} (view s) (view s') \<and>
    (\<forall>a. r = Inr a \<longrightarrow> (\<forall>sk. map_option fst (view s' t dst sk) = (case view s t src sk of
        Some (b, _) \<Rightarrow> Some b | None \<Rightarrow> map_option fst (view s t dst sk))) \<and>
      h a = h acc + (word_of_nat (length (entries_where (view s t src) (\<lambda>_. True))) :: u64))) s"
proof -
  let ?m = "view s t src"
  have all: "entries_where ?m (in_range [] None) = entries_where ?m (\<lambda>_. True)"
    by (rule entries_where_cong) (simp_all add: in_range_def)
  have "wp (copy_loop kv t src dst on_batch None acc) (\<lambda>r s'. invar s' \<and>
      view_frame {(t, dst, sk) | sk. True} (view s) (view s') \<and>
      (\<forall>a. r = Inr a \<longrightarrow> view s' = view_put_all (view s) t (retarget dst (entries_where ?m (\<lambda>_. True))) \<and>
        h a = h acc + (word_of_nat (length (entries_where ?m (\<lambda>_. True))) :: u64))) s"
    by (rule copy_loop_spec [OF pk count inv refl, where lo = "[]"]) (simp_all add: all)
  then show ?thesis
    unfolding copy_partition_def
    by (rule wp_mono) (use view_put_all_retarget_entries [OF view_finite [OF inv]] in auto)
qed

end

text \<open>
  A set of shards copied: in each, the bytes of the source where it has the key and otherwise what
  the destination had; every other key is untouched.
\<close>

definition copied_shards ::
    "kv_view \<Rightarrow> kv_view \<Rightarrow> string \<Rightarrow> (nat \<Rightarrow> string) \<Rightarrow> (nat \<Rightarrow> string) \<Rightarrow> nat set \<Rightarrow> bool" where
  "copied_shards v v' t src dst S \<longleftrightarrow> view_frame {(t, dst i, sk) | i sk. i \<in> S} v v' \<and>
     (\<forall>i \<in> S. \<forall>sk. map_option fst (v' t (dst i) sk) = (case v t (src i) sk of
        Some (b, _) \<Rightarrow> Some b | None \<Rightarrow> map_option fst (v t (dst i) sk)))"

lemma copied_shards_insert:
  assumes one: "view_frame {(t, dst i, sk) | sk. True} v v1"
      "\<forall>sk. map_option fst (v1 t (dst i) sk) = (case v t (src i) sk of
        Some (b, _) \<Rightarrow> Some b | None \<Rightarrow> map_option fst (v t (dst i) sk))"
    and rest: "copied_shards v1 v2 t src dst S" and i: "i \<notin> S"
    and apart: "\<And>i j. src i \<noteq> dst j" "inj dst"
  shows "copied_shards v v2 t src dst (insert i S)"
proof -
  have v1: "v1 t (src j) sk = v t (src j) sk" "j \<noteq> i \<Longrightarrow> v1 t (dst j) sk = v t (dst j) sk" for j sk
    using apart(1) injD [OF apart(2)] by (auto intro!: view_frameD [OF one(1)])
  have v2: "v2 t (dst i) sk = v1 t (dst i) sk" for sk
    using rest i injD [OF apart(2)] by (auto simp: copied_shards_def intro!: view_frameD)
  have "view_frame {(t, dst j, sk) | j sk. j \<in> insert i S} v v2"
  proof (rule view_frame_trans)
    show "view_frame {(t, dst j, sk) | j sk. j \<in> insert i S} v v1" by (rule view_frame_mono [OF one(1)]) auto
    show "view_frame {(t, dst j, sk) | j sk. j \<in> insert i S} v1 v2"
      by (rule view_frame_mono [of "{(t, dst i, sk) | i sk. i \<in> S}"]) (use rest in \<open>auto simp: copied_shards_def\<close>)
  qed
  moreover have "map_option fst (v2 t (dst j) sk) = (case v t (src j) sk of
        Some (b, _) \<Rightarrow> Some b | None \<Rightarrow> map_option fst (v t (dst j) sk))" if "j \<in> insert i S" for j sk
  proof (cases "j = i")
    case True
    show ?thesis using one(2) v2 unfolding True by simp
  next
    case False
    with that have "j \<in> S" by simp
    with rest have "map_option fst (v2 t (dst j) sk) = (case v1 t (src j) sk of
        Some (b, _) \<Rightarrow> Some b | None \<Rightarrow> map_option fst (v1 t (dst j) sk))"
      unfolding copied_shards_def by blast
    then show ?thesis unfolding v1(1) v1(2) [OF False] .
  qed
  ultimately show ?thesis unfolding copied_shards_def by blast
qed

context kv_store
begin

lemma copy_shards_spec:
  fixes h :: "'a \<Rightarrow> u64"
  assumes pk: "\<And>i. pk_ok (src i)" "\<And>i. pk_ok (dst i)"
    and apart: "\<And>i j. src i \<noteq> dst j" "inj dst"
    and count: "\<And>n acc. h (on_batch n acc) = h acc + n"
  shows "invar s \<Longrightarrow> distinct order \<Longrightarrow>
    wp (copy_shards kv t src dst cancelled on_batch order acc) (\<lambda>r s'. invar s' \<and>
      view_frame {(t, dst i, sk) | i sk. True} (view s) (view s') \<and>
      (\<forall>a. r = Inr a \<longrightarrow> copied_shards (view s) (view s') t src dst {i \<in> set order. \<not> cancelled i} \<and>
        h a = h acc + (\<Sum>i \<leftarrow> filter (\<lambda>i. \<not> cancelled i) order.
          word_of_nat (length (entries_where (view s t (src i)) (\<lambda>_. True)))))) s"
proof (induction order arbitrary: s acc)
  case Nil
  then show ?case by (simp add: copied_shards_def)
next
  case (Cons i order)
  let ?K = "{(t, dst i, sk) | i sk. True}"
  show ?case
  proof (cases "cancelled i")
    case True
    then have "{j \<in> set (i # order). \<not> cancelled j} = {j \<in> set order. \<not> cancelled j}" by auto
    with True Cons.IH [of s acc] Cons.prems show ?thesis by (simp add: wp_bind del: set_simps)
  next
    case False
    note one = copy_partition_spec [where src = "src i" and dst = "dst i" and t = t and acc = acc and h = h,
        OF pk(1) pk(2) apart(1) count Cons.prems(1)]
    show ?thesis
      unfolding copy_shards.simps if_not_P [OF False]
    proof (rule wp_bindI [OF one], goal_cases)
      case (1 e s1)
      have "view_frame ?K (view s) (view s1)"
        by (rule view_frame_mono [of "{(t, dst i, sk) | sk. True}"]) (use 1 in auto)
      with 1 show ?case by simp
    next
      case (2 acc1 s1)
      then have s1: "invar s1" and fr1: "view_frame {(t, dst i, sk) | sk. True} (view s) (view s1)"
        and cp1: "\<forall>sk. map_option fst (view s1 t (dst i) sk) = (case view s t (src i) sk of
          Some (b, _) \<Rightarrow> Some b | None \<Rightarrow> map_option fst (view s t (dst i) sk))"
        and h1: "h acc1 = h acc + word_of_nat (length (entries_where (view s t (src i)) (\<lambda>_. True)))" by auto
      have src: "view s1 t (src j) = view s t (src j)" for j
        using apart(1) by (intro ext view_frameD [OF fr1]) auto
      have K: "view_frame ?K (view s) (view s1)"
        by (rule view_frame_mono [OF fr1]) auto
      have S: "{j \<in> set (i # order). \<not> cancelled j} = insert i {j \<in> set order. \<not> cancelled j}" using False by auto
      have ins: "copied_shards (view s) v2 t src dst {j \<in> set (i # order). \<not> cancelled j}"
        if "copied_shards (view s1) v2 t src dst {j \<in> set order. \<not> cancelled j}" for v2
        unfolding S by (rule copied_shards_insert [OF fr1 cp1 that _ apart]) (use Cons.prems in auto)
      show ?case
        by (rule wp_mono [OF Cons.IH [OF s1]])
          (use Cons.prems K ins False h1 in \<open>auto simp: src add.assoc intro: view_frame_trans\<close>)
    qed
  qed
qed

end

text \<open>The bytes of one shard are those of another where that has the key.\<close>

definition shard_cloned :: "kv_view \<Rightarrow> kv_view \<Rightarrow> string \<Rightarrow> string \<Rightarrow> string \<Rightarrow> bool" where
  "shard_cloned v v' t src dst \<longleftrightarrow> (\<forall>sk. map_option fst (v' t dst sk) =
     (case v t src sk of Some (b, _) \<Rightarrow> Some b | None \<Rightarrow> map_option fst (v t dst sk)))"

lemma copied_shards_iff:
  "copied_shards v v' t src dst S \<longleftrightarrow> view_frame {(t, dst i, sk) | i sk. i \<in> S} v v' \<and>
     (\<forall>i \<in> S. shard_cloned v v' t (src i) (dst i))"
  by (simp add: copied_shards_def shard_cloned_def)

lemma shard_cloned_cong:
  "(\<And>sk. v t src sk = w t src sk) \<Longrightarrow> (\<And>sk. v t dst sk = w t dst sk) \<Longrightarrow>
    (\<And>sk. v' t dst sk = w' t dst sk) \<Longrightarrow> shard_cloned v v' t src dst \<longleftrightarrow> shard_cloned w w' t src dst"
  by (simp add: shard_cloned_def cong: option.case_cong)

text \<open>A key holds the encoding of a record.\<close>

definition stored_as :: "'r codec \<Rightarrow> (bytes \<times> u64) option \<Rightarrow> 'r \<Rightarrow> bool" where
  "stored_as c x r \<longleftrightarrow> (\<exists>b n. x = Some (b, n) \<and> encode_named c r = Inr b)"

text \<open>What a successful clone leaves.\<close>

definition repo_cloned ::
    "codecs \<Rightarrow> datetime \<Rightarrow> (nat \<Rightarrow> bool) \<Rightarrow> repo_config \<Rightarrow> string \<Rightarrow> clone_stats \<Rightarrow> kv_view \<Rightarrow> kv_view \<Rightarrow> bool" where
  "repo_cloned C now cancelled2 source new_name stats v v' \<longleftrightarrow>
     stored_as (cs_repo C) (v' TABLE_REPOS SINGLE_PK new_name)
       (source\<lparr>rp_name := new_name, rp_created_at := now, rp_deleting := False\<rparr>) \<and>
     (\<forall>i < NUM_SHARDS. shard_cloned v v' TABLE_ARTIFACTS (artifact_shard_pk (rp_name source) i) (artifact_shard_pk new_name i)) \<and>
     (\<forall>i < NUM_SHARDS. \<not> cancelled2 i \<longrightarrow>
       shard_cloned v v' TABLE_DIR_ENTRIES (tree_shard_pk (rp_name source) i) (tree_shard_pk new_name i)) \<and>
     cl_copied_artifacts stats = (\<Sum>i < NUM_SHARDS.
       word_of_nat (length (entries_where (v TABLE_ARTIFACTS (artifact_shard_pk (rp_name source) i)) (\<lambda>_. True))))"

context kv_store
begin

lemma clone_repo_spec:
  assumes inv: "invar s" and names: "pk_ok (rp_name source)" "pk_ok new_name" "sk_ok new_name" "rp_name source \<noteq> new_name"
    and orders: "shard_order order1" "shard_order order2"
    and monotone: "\<And>i. cancelled1 i \<Longrightarrow> cancelled"
  shows "wp (clone_repo kv C now order1 order2 cancelled1 cancelled cancelled2 progress source new_name total_artifacts)
    (\<lambda>r s'. invar s' \<and> view_frame (repo_keys new_name) (view s) (view s') \<and>
      (\<forall>res prog. r = Inr (res, prog) \<longrightarrow> (case res of
         None \<Rightarrow> view s TABLE_REPOS SINGLE_PK new_name \<noteq> None \<and> view s' = view s
       | Some stats \<Rightarrow> view s TABLE_REPOS SINGLE_PK new_name = None \<and> \<not> cancelled \<and>
           repo_cloned C now cancelled2 source new_name stats (view s) (view s')))) s"
  unfolding clone_repo_def Let_def repo_key_def prod.case
proof (rule wp_bindI [OF typed_put_if_absent_spec [OF inv pk_ok_single names(3)]], goal_cases)
  case (1 e s1)
  then show ?case by (auto simp: repo_keys_def repo_key_def elim!: view_frame_mono)
next
  case (2 created s1)
  let ?new = "source\<lparr>rp_name := new_name, rp_created_at := now, rp_deleting := False\<rparr>"
  let ?as = "artifact_shard_pk (rp_name source)" and ?ad = "artifact_shard_pk new_name"
  let ?ds = "tree_shard_pk (rp_name source)" and ?dd = "tree_shard_pk new_name"
  let ?K = "repo_keys new_name"
  have apart: "\<And>i j. ?as i \<noteq> ?ad j" "inj ?ad" "\<And>i j. ?ds i \<noteq> ?dd j" "inj ?dd"
    using names(4) by (auto simp: artifact_shard_pk_def tree_shard_pk_def inj_def)
  have pks: "\<And>i. pk_ok (?as i)" "\<And>i. pk_ok (?ad i)" "\<And>i. pk_ok (?ds i)" "\<And>i. pk_ok (?dd i)" using names by simp_all
  from 2 obtain b where s1: "invar s1" and b: "encode_named (cs_repo C) ?new = Inr b"
    and created: "created = (view s TABLE_REPOS SINGLE_PK new_name = None)"
    and v1: "view s1 = (if created then view_put (view s) TABLE_REPOS SINGLE_PK new_name b else view s)" by auto
  show ?case
  proof (cases created)
    case False
    then have "view s1 = view s" using v1 by simp
    with False s1 created show ?thesis by auto
  next
    case True
    have fr1: "view_frame ?K (view s) (view s1)"
      unfolding v1 if_P [OF True] by (rule view_frame_upd) (simp add: repo_keys_def repo_key_def)
    have arts1: "view s1 TABLE_ARTIFACTS pk sk = view s TABLE_ARTIFACTS pk sk"
      "view s1 TABLE_DIR_ENTRIES pk sk = view s TABLE_DIR_ENTRIES pk sk" for pk sk
      unfolding v1 if_P [OF True] by simp_all
    have ents1: "view s1 TABLE_ARTIFACTS pk = view s TABLE_ARTIFACTS pk" for pk using arts1(1) by (intro ext)
    have cnt1: "\<And>n acc. fst (count_artifacts n acc) = fst acc + n" by (simp add: count_artifacts_def Let_def split: prod.splits)
    have cnt2: "\<And>n acc. fst (count_entries n acc) = fst acc + n" by (simp add: count_entries_def split: prod.splits)
    have d1: "distinct order1" "distinct order2" "set order1 = {..<NUM_SHARDS}" "set order2 = {..<NUM_SHARDS}"
      using orders by (simp_all add: shard_order_def)
    show ?thesis
      unfolding not_not if_not_P [of "\<not> created", unfolded not_not, OF True]
    proof (rule wp_bindI [OF copy_shards_spec [where h = fst, OF pks(1,2) apart(1,2) cnt1 s1 d1(1)]], goal_cases)
      case (1 e s2)
      then have "view_frame ?K (view s1) (view s2)" by (auto simp: repo_keys_def elim!: view_frame_mono)
      with 1 fr1 show ?case by (auto intro: view_frame_trans)
    next
      case (2 acc s2)
      then have s2: "invar s2" and c2: "copied_shards (view s1) (view s2) TABLE_ARTIFACTS ?as ?ad {i \<in> set order1. \<not> cancelled1 i}"
        and n2: "fst acc = (\<Sum>i \<leftarrow> filter (\<lambda>i. \<not> cancelled1 i) order1.
          word_of_nat (length (entries_where (view s TABLE_ARTIFACTS (?as i)) (\<lambda>_. True))))"
        by (auto simp: ents1)
      have "view_frame ?K (view s1) (view s2)" using 2 by (auto simp: repo_keys_def elim!: view_frame_mono)
      with fr1 have fr2: "view_frame ?K (view s) (view s2)" by (rule view_frame_trans)
      obtain copied prog where acc: "acc = (copied, prog)" by (cases acc)
      show ?case
      proof (cases cancelled)
        case True
        with s2 fr2 show ?thesis by (simp add: acc)
      next
        case go: False
        have all1: "filter (\<lambda>i. \<not> cancelled1 i) order1 = order1" "{i \<in> set order1. \<not> cancelled1 i} = {..<NUM_SHARDS}"
          using go monotone d1(3) by (auto simp: filter_id_conv)
        have copied: "copied = (\<Sum>i < NUM_SHARDS. word_of_nat (length (entries_where (view s TABLE_ARTIFACTS (?as i)) (\<lambda>_. True))))"
          using n2 acc d1(1,3) unfolding all1 by (simp add: sum_list_distinct_conv_sum_set)
        have f2: "view_frame {(TABLE_ARTIFACTS, ?ad i, sk) | i sk. i \<in> {i \<in> set order1. \<not> cancelled1 i}} (view s1) (view s2)"
          using c2 unfolding copied_shards_iff by blast
        have dirs2: "view s2 TABLE_DIR_ENTRIES pk sk = view s TABLE_DIR_ENTRIES pk sk"
          "view s2 TABLE_REPOS pk sk = view s1 TABLE_REPOS pk sk" for pk sk
          using view_frameD [OF f2, of TABLE_DIR_ENTRIES pk sk] view_frameD [OF f2, of TABLE_REPOS pk sk] arts1(2) by simp_all
        show ?thesis
          unfolding acc prod.case if_not_P [OF go]
        proof (rule wp_bindI [OF copy_shards_spec [where h = fst, OF pks(3,4) apart(3,4) cnt2 s2 d1(2)]], goal_cases)
          case (1 e s3)
          then have "view_frame ?K (view s2) (view s3)" by (auto simp: repo_keys_def elim!: view_frame_mono)
          with 1 fr2 show ?case by (auto intro: view_frame_trans)
        next
          case (2 acc3 s3)
          then have s3: "invar s3" and c3: "copied_shards (view s2) (view s3) TABLE_DIR_ENTRIES ?ds ?dd {i \<in> set order2. \<not> cancelled2 i}" by auto
          have "view_frame ?K (view s2) (view s3)" using 2 by (auto simp: repo_keys_def elim!: view_frame_mono)
          with fr2 have fr3: "view_frame ?K (view s) (view s3)" by (rule view_frame_trans)
          have f3: "view_frame {(TABLE_DIR_ENTRIES, ?dd i, sk) | i sk. i \<in> {i \<in> set order2. \<not> cancelled2 i}} (view s2) (view s3)"
            using c3 unfolding copied_shards_iff by blast
          have other3: "view s3 TABLE_ARTIFACTS pk sk = view s2 TABLE_ARTIFACTS pk sk"
            "view s3 TABLE_REPOS pk sk = view s2 TABLE_REPOS pk sk" for pk sk
            using view_frameD [OF f3, of TABLE_ARTIFACTS pk sk] view_frameD [OF f3, of TABLE_REPOS pk sk] by simp_all
          have "shard_cloned (view s) (view s3) TABLE_ARTIFACTS (?as i) (?ad i)" if "i < NUM_SHARDS" for i
          proof -
            have "shard_cloned (view s1) (view s2) TABLE_ARTIFACTS (?as i) (?ad i)"
              using c2 that unfolding all1 copied_shards_iff by blast
            then show ?thesis by (subst shard_cloned_cong [of _ _ _ "view s1" _ _ "view s2"]) (simp_all add: arts1 other3)
          qed
          moreover have "shard_cloned (view s) (view s3) TABLE_DIR_ENTRIES (?ds i) (?dd i)"
            if "i < NUM_SHARDS" "\<not> cancelled2 i" for i
          proof -
            have "shard_cloned (view s2) (view s3) TABLE_DIR_ENTRIES (?ds i) (?dd i)"
              using c3 that d1(4) unfolding copied_shards_iff by blast
            then show ?thesis by (subst shard_cloned_cong [of _ _ _ "view s2" _ _ "view s3"]) (simp_all add: dirs2)
          qed
          moreover have "stored_as (cs_repo C) (view s3 TABLE_REPOS SINGLE_PK new_name) ?new"
            using b by (simp add: stored_as_def other3 dirs2 v1 True)
          ultimately show ?case
            using s3 fr3 created True go copied by (simp add: repo_cloned_def split: prod.splits)
        qed
      qed
    qed
  qed
qed

end

end
