(* ===== verification/Service_Directory.thy ===== *)
theory Service_Directory
  imports Service_Repo
begin

text \<open>
  Directory entries of the browse tree and repository statistics
  (\<open>core/src/service/directory.rs\<close>). The recursion over the members of a proxy carries the set of
  names it has seen; the partial function returns because each level adds a name of the finite
  repository table.
\<close>

definition dir_entry_of :: "u64 \<Rightarrow> u64 \<Rightarrow> tree_entry \<Rightarrow> dir_entry" where
  "dir_entry_of artifact_count total_bytes te = \<lparr>de_schema_version = CURRENT_RECORD_VERSION,
     de_artifact_count = artifact_count, de_total_bytes = total_bytes,
     de_last_modified_at = te_last_modified_at te, de_last_accessed_at = te_last_accessed_at te\<rparr>"

definition get_dir :: "hasher \<Rightarrow> 's kv \<Rightarrow> codecs \<Rightarrow> string \<Rightarrow> string \<Rightarrow> ('s, dir_entry option) io" where
  "get_dir H kv C repo dir_path =
    (let clean = trim_matches CHR ''/'' dir_path
     in case tree_entry_key H repo clean of (_, pk, sk) \<Rightarrow>
        io_bind (kv_get kv TABLE_DIR_ENTRIES pk sk) (\<lambda>v. case v of
          Some bytes \<Rightarrow> io_bind (io_of_result (decode (cs_tree C) bytes)) (\<lambda>te. case te_kind te of
              Dir artifact_count total_bytes \<Rightarrow> io_return (Some (dir_entry_of artifact_count total_bytes te))
            | File _ \<Rightarrow> io_return None)
        | None \<Rightarrow> io_return None))"

definition child_callback ::
    "codecs \<Rightarrow> ((string \<times> dir_entry) list \<times> (string \<times> tree_entry) list) callback" where
  "child_callback C sk value acc =
    (case decode (cs_tree C) value of
       Inl e \<Rightarrow> Inl e
     | Inr te \<Rightarrow> (case acc of (dirs, files) \<Rightarrow> (case te_kind te of
           Dir artifact_count total_bytes \<Rightarrow>
             Inr (True, (dirs @ [(tree_sk_name sk, dir_entry_of artifact_count total_bytes te)], files))
         | File _ \<Rightarrow> Inr (True, (dirs, files @ [(tree_sk_name sk, te)])))))"

definition list_children ::
    "hasher \<Rightarrow> 's kv \<Rightarrow> codecs \<Rightarrow> string \<Rightarrow> string \<Rightarrow>
     ('s, (string \<times> dir_entry) list \<times> (string \<times> tree_entry) list) io" where
  "list_children H kv C repo prefix =
    (let clean = trim_end_matches CHR ''/'' prefix
     in io_bind (for_each_in_partition kv TABLE_DIR_ENTRIES (tree_children_pk H repo clean)
          (tree_children_sk_prefix clean) SCAN_BATCH_SIZE (child_callback C) ([], []))
          (\<lambda>(dirs, files). io_return (sort_key fst dirs, sort_key fst files)))"

subsection \<open>Statistics\<close>

definition default_stats :: repo_stats where
  "default_stats = \<lparr>rs_artifact_count = 0, rs_total_bytes = 0\<rparr>"

definition add_stats :: "repo_stats \<Rightarrow> dir_entry \<Rightarrow> repo_stats" where
  "add_stats tot de = tot\<lparr>rs_artifact_count := rs_artifact_count tot + de_artifact_count de,
     rs_total_bytes := rs_total_bytes tot + de_total_bytes de\<rparr>"

partial_function (option) aggregate_proxy_stats ::
    "hasher \<Rightarrow> 's kv \<Rightarrow> codecs \<Rightarrow> string list \<Rightarrow> repo_stats \<Rightarrow> string set \<Rightarrow> 's \<Rightarrow>
     ((repo_stats \<times> string set) result \<times> 's) option" where
  "aggregate_proxy_stats H kv C members tot visited s =
    (case members of
       [] \<Rightarrow> Some (Inr (tot, visited), s)
     | member_name # rest \<Rightarrow>
        if member_name \<in> visited then aggregate_proxy_stats H kv C rest tot visited s
        else case get_repo kv C member_name s of
            None \<Rightarrow> None
          | Some (Inl e, s1) \<Rightarrow> Some (Inl e, s1)
          | Some (Inr None, s1) \<Rightarrow> aggregate_proxy_stats H kv C rest tot (insert member_name visited) s1
          | Some (Inr (Some config), s1) \<Rightarrow>
             (case rp_kind config of
                Proxy nested _ \<Rightarrow>
                  Option.bind (aggregate_proxy_stats H kv C nested tot (insert member_name visited) s1)
                    (\<lambda>(r, s2). case r of
                       Inl e \<Rightarrow> Some (Inl e, s2)
                     | Inr (tot2, visited2) \<Rightarrow> aggregate_proxy_stats H kv C rest tot2 visited2 s2)
              | _ \<Rightarrow>
                  (case get_dir H kv C member_name [] s1 of
                     None \<Rightarrow> None
                   | Some (Inl e, s2) \<Rightarrow> Some (Inl e, s2)
                   | Some (Inr de, s2) \<Rightarrow>
                       aggregate_proxy_stats H kv C rest
                         (case de of Some d \<Rightarrow> add_stats tot d | None \<Rightarrow> tot)
                         (insert member_name visited) s2)))"

definition get_repo_stats :: "hasher \<Rightarrow> 's kv \<Rightarrow> codecs \<Rightarrow> repo_config \<Rightarrow> ('s, repo_stats) io" where
  "get_repo_stats H kv C config =
    (case rp_kind config of
       Proxy members _ \<Rightarrow>
         io_bind (aggregate_proxy_stats H kv C members default_stats {}) (\<lambda>(tot, _). io_return tot)
     | _ \<Rightarrow>
         io_bind (get_dir H kv C (rp_name config) []) (\<lambda>d. case d of
           Some de \<Rightarrow> io_return \<lparr>rs_artifact_count = de_artifact_count de, rs_total_bytes = de_total_bytes de\<rparr>
         | None \<Rightarrow> io_return default_stats))"

section \<open>Specifications\<close>

text \<open>The directory entry a tree key holds; a file entry is none.\<close>

definition dir_of :: "tree_entry \<Rightarrow> dir_entry option" where
  "dir_of te = (case te_kind te of Dir c b \<Rightarrow> Some (dir_entry_of c b te) | File _ \<Rightarrow> None)"

definition stored_dir :: "codecs \<Rightarrow> (bytes \<times> u64) option \<Rightarrow> dir_entry option \<Rightarrow> bool" where
  "stored_dir C x d \<longleftrightarrow> (\<exists>te. stored (cs_tree C) x te \<and> d = Option.bind te dir_of)"

text \<open>The repository a name resolves to: its configuration, unless it is being deleted.\<close>

definition stored_repo :: "codecs \<Rightarrow> kv_view \<Rightarrow> string \<Rightarrow> repo_config option \<Rightarrow> bool" where
  "stored_repo C v name r \<longleftrightarrow> (\<exists>raw. stored (cs_repo C) (v TABLE_REPOS SINGLE_PK name) raw \<and>
     r = Option.bind raw (\<lambda>c. if rp_deleting c then None else Some c))"

lemma stored_dir_unique: "stored_dir C x d \<Longrightarrow> stored_dir C x d' \<Longrightarrow> d = d'"
  unfolding stored_dir_def using stored_unique by blast

lemma stored_repo_unique: "stored_repo C v name r \<Longrightarrow> stored_repo C v name r' \<Longrightarrow> r = r'"
  unfolding stored_repo_def using stored_unique by blast

lemma stored_repo_dom: "stored_repo C v name (Some c) \<Longrightarrow> name \<in> dom (v TABLE_REPOS SINGLE_PK)"
  by (auto simp: stored_repo_def stored_def dom_def split: option.splits)

context kv_store
begin

lemma get_repo_spec:
  assumes "invar s"
  shows "wp (get_repo kv C name) (kv_read invar view s (stored_repo C (view s) name)) s"
  unfolding get_repo_def get_repo_raw_def repo_key_def prod.case
  by (rule wp_bindI [OF typed_get_spec [OF assms pk_ok_single]])
    (auto simp: stored_repo_def split: option.splits intro!: exI)

lemma get_dir_spec:
  assumes "invar s" "pk_ok repo"
  shows "wp (get_dir H kv C repo d) (kv_read invar view s (\<lambda>r.
    stored_dir C (tree_at H repo (trim_matches CHR ''/'' d) (view s)) r)) s"
proof -
  let ?p = "trim_matches CHR ''/'' d"
  have pk: "pk_ok (sharded_pk H repo (tree_parent (normalize_path ?p)))" using assms(2) by simp
  show ?thesis
    unfolding get_dir_def tree_entry_key_def Let_def prod.case
  proof (rule wp_bindI [OF get_spec [OF assms(1) pk]], goal_cases)
    case (2 v s1)
    then have s1: "invar s1" "view s1 = view s" and v: "v = map_option fst (tree_at H repo ?p (view s))" by auto
    show ?case
    proof (cases "tree_at H repo ?p (view s)")
      case None
      with s1 v show ?thesis by (auto simp: stored_dir_def)
    next
      case (Some x)
      obtain b n where x: "x = (b, n)" by (cases x)
      show ?thesis
      proof (cases "decode (cs_tree C) b")
        case (Inl e)
        with Some x v s1 show ?thesis by (simp add: wp_simps)
      next
        case (Inr te)
        with Some x v s1 show ?thesis
          by (cases "te_kind te") (auto simp: wp_simps stored_dir_def dir_of_def)
      qed
    qed
  qed simp
qed

end

subsection \<open>Statistics of proxies\<close>

definition repo_at :: "codecs \<Rightarrow> kv_view \<Rightarrow> string \<Rightarrow> repo_config option" where
  "repo_at C v name = (case v TABLE_REPOS SINGLE_PK name of None \<Rightarrow> None
     | Some (b, _) \<Rightarrow> (case decode (cs_repo C) b of Inl _ \<Rightarrow> None
         | Inr c \<Rightarrow> if rp_deleting c then None else Some c))"

definition root_dir_at :: "hasher \<Rightarrow> codecs \<Rightarrow> kv_view \<Rightarrow> string \<Rightarrow> dir_entry option" where
  "root_dir_at H C v name = (case tree_at H name [] v of None \<Rightarrow> None
     | Some (b, _) \<Rightarrow> (case decode (cs_tree C) b of Inl _ \<Rightarrow> None | Inr te \<Rightarrow> dir_of te))"

lemma stored_repo_at: "stored_repo C v name r \<Longrightarrow> r = repo_at C v name"
  by (auto simp: stored_repo_def stored_def repo_at_def split: option.splits)

lemma stored_root_dir_at: "stored_dir C (tree_at H name [] v) d \<Longrightarrow> d = root_dir_at H C v name"
  by (auto simp: stored_dir_def stored_def root_dir_at_def split: option.splits)

text \<open>What a repository that is not a proxy contributes: the counters of its root directory.\<close>

definition leaf_dir :: "hasher \<Rightarrow> codecs \<Rightarrow> kv_view \<Rightarrow> string \<Rightarrow> dir_entry option" where
  "leaf_dir H C v name = (case repo_at C v name of
     None \<Rightarrow> None
   | Some c \<Rightarrow> (case rp_kind c of Proxy _ _ \<Rightarrow> None | _ \<Rightarrow> root_dir_at H C v name))"

definition leaf_sum :: "hasher \<Rightarrow> codecs \<Rightarrow> kv_view \<Rightarrow> (dir_entry \<Rightarrow> u64) \<Rightarrow> string set \<Rightarrow> u64" where
  "leaf_sum H C v f names = (\<Sum>n \<in> names. case leaf_dir H C v n of None \<Rightarrow> 0 | Some d \<Rightarrow> f d)"

inductive_set proxy_reach :: "codecs \<Rightarrow> kv_view \<Rightarrow> string list \<Rightarrow> string set"
  for C :: codecs and v :: kv_view and members :: "string list" where
  reach_member: "m \<in> set members \<Longrightarrow> m \<in> proxy_reach C v members"
| reach_nested: "n \<in> proxy_reach C v members \<Longrightarrow> repo_at C v n = Some c \<Longrightarrow> rp_kind c = Proxy nested w \<Longrightarrow>
    m \<in> set nested \<Longrightarrow> m \<in> proxy_reach C v members"

lemma proxy_reach_mono:
  assumes "set ms \<subseteq> proxy_reach C v ms'"
  shows "proxy_reach C v ms \<subseteq> proxy_reach C v ms'"
proof
  fix x assume "x \<in> proxy_reach C v ms"
  then show "x \<in> proxy_reach C v ms'"
    using assms by (induction rule: proxy_reach.induct) (auto intro: proxy_reach.intros)
qed

lemma proxy_reach_head: "m \<in> proxy_reach C v (m # ms)"
  by (simp add: reach_member)

lemma proxy_reach_Cons: "proxy_reach C v ms \<subseteq> proxy_reach C v (m # ms)"
  by (rule proxy_reach_mono) (auto intro: reach_member)

text \<open>The names a run of the recursion adds, and the totals it adds for them.\<close>

definition aggregates ::
    "hasher \<Rightarrow> codecs \<Rightarrow> kv_view \<Rightarrow> string list \<Rightarrow> repo_stats \<times> string set \<Rightarrow> repo_stats \<times> string set \<Rightarrow> bool" where
  "aggregates H C v members before after \<longleftrightarrow> (case before of (tot, visited) \<Rightarrow> case after of (tot', visited') \<Rightarrow>
     finite visited' \<and> visited \<union> set members \<subseteq> visited' \<and> visited' - visited \<subseteq> proxy_reach C v members \<and>
     (\<forall>n \<in> visited' - visited. \<forall>c nested w. repo_at C v n = Some c \<longrightarrow> rp_kind c = Proxy nested w \<longrightarrow>
        set nested \<subseteq> visited') \<and>
     rs_artifact_count tot' = rs_artifact_count tot + leaf_sum H C v de_artifact_count (visited' - visited) \<and>
     rs_total_bytes tot' = rs_total_bytes tot + leaf_sum H C v de_total_bytes (visited' - visited))"

lemma leaf_sum_diff:
  "finite W \<Longrightarrow> insert m V \<subseteq> W \<Longrightarrow> m \<notin> V \<Longrightarrow>
    leaf_sum H C v f (W - V) = (case leaf_dir H C v m of None \<Rightarrow> 0 | Some d \<Rightarrow> f d) + leaf_sum H C v f (W - insert m V)"
proof -
  assume W: "finite W" "insert m V \<subseteq> W" "m \<notin> V"
  then have "W - V = insert m (W - insert m V)" by auto
  then show ?thesis using W(1) unfolding leaf_sum_def by (metis (no_types, lifting) DiffD2 finite_Diff insertI1 sum.insert)
qed

lemma leaf_sum_split:
  "finite W \<Longrightarrow> V \<subseteq> U \<Longrightarrow> U \<subseteq> W \<Longrightarrow> leaf_sum H C v f (W - V) = leaf_sum H C v f (U - V) + leaf_sum H C v f (W - U)"
proof -
  assume W: "finite W" "V \<subseteq> U" "U \<subseteq> W"
  then have split: "W - V = (U - V) \<union> (W - U)" by auto
  have "finite (U - V)" "finite (W - U)" "(U - V) \<inter> (W - U) = {}" using W finite_subset [OF W(3,1)] by auto
  then show ?thesis unfolding leaf_sum_def split by (rule sum.union_disjoint)
qed

lemma aggregates_leaf:
  assumes "m \<notin> visited" "\<And>c nested w. repo_at C v m = Some c \<Longrightarrow> rp_kind c \<noteq> Proxy nested w"
    and "tot1 = (case leaf_dir H C v m of Some d \<Rightarrow> add_stats tot d | None \<Rightarrow> tot)"
    and "aggregates H C v ms (tot1, insert m visited) (tot', visited')"
  shows "aggregates H C v (m # ms) (tot, visited) (tot', visited')"
proof -
  note ag = assms(4) [unfolded aggregates_def prod.case]
  have "visited' - visited \<subseteq> proxy_reach C v (m # ms)"
    using ag proxy_reach_Cons [of C v ms m] proxy_reach_head [of m C v ms] by auto
  moreover have "leaf_sum H C v f (visited' - visited) =
      (case leaf_dir H C v m of None \<Rightarrow> 0 | Some d \<Rightarrow> f d) + leaf_sum H C v f (visited' - insert m visited)" for f
    by (rule leaf_sum_diff) (use ag assms(1) in auto)
  moreover have "\<forall>n \<in> visited' - visited. \<forall>c nested w. repo_at C v n = Some c \<longrightarrow> rp_kind c = Proxy nested w \<longrightarrow>
        set nested \<subseteq> visited'" using ag assms(2) by blast
  ultimately show ?thesis
    using ag assms(3) unfolding aggregates_def prod.case
    by (cases "leaf_dir H C v m") (auto simp: add_stats_def)
qed

lemma aggregates_proxy:
  assumes "m \<notin> visited" "repo_at C v m = Some c" "rp_kind c = Proxy nested w"
    and "aggregates H C v nested (tot, insert m visited) (tot2, visited2)"
    and "aggregates H C v ms (tot2, visited2) (tot', visited')"
  shows "aggregates H C v (m # ms) (tot, visited) (tot', visited')"
proof -
  note ag1 = assms(4) [unfolded aggregates_def prod.case] and ag2 = assms(5) [unfolded aggregates_def prod.case]
  have m: "m \<in> proxy_reach C v (m # ms)" by (rule proxy_reach_head)
  have r: "proxy_reach C v ms \<subseteq> proxy_reach C v (m # ms)" "proxy_reach C v nested \<subseteq> proxy_reach C v (m # ms)"
    by (rule proxy_reach_Cons, rule proxy_reach_mono, rule subsetI, rule reach_nested [OF m assms(2,3)])
  have "visited2 - insert m visited \<subseteq> proxy_reach C v nested" "visited' - visited2 \<subseteq> proxy_reach C v ms"
    using ag1 ag2 by simp_all
  with r m have "visited' - visited \<subseteq> proxy_reach C v (m # ms)" by (auto simp: subset_iff)
  moreover have "\<forall>n \<in> visited' - visited. \<forall>c nested w. repo_at C v n = Some c \<longrightarrow> rp_kind c = Proxy nested w \<longrightarrow>
        set nested \<subseteq> visited'"
  proof (intro ballI allI impI)
    fix n c' nested' w' assume n: "n \<in> visited' - visited" and c': "repo_at C v n = Some c'" "rp_kind c' = Proxy nested' w'"
    consider "n = m" | "n \<in> visited2 - insert m visited" | "n \<in> visited' - visited2" using n by blast
    then show "set nested' \<subseteq> visited'"
    proof cases
      case 1
      then have "nested' = nested" using c' assms(2,3) by simp
      moreover have "set nested \<subseteq> visited2" "visited2 \<subseteq> visited'" using ag1 ag2 by simp_all
      ultimately show ?thesis by simp
    next
      case 2
      have "visited2 \<subseteq> visited'" using ag2 by simp
      moreover have "set nested' \<subseteq> visited2"
        using ag1 [THEN conjunct2, THEN conjunct2, THEN conjunct2, THEN conjunct1] 2 c' by blast
      ultimately show ?thesis by simp
    next
      case 3
      then show ?thesis using ag2 [THEN conjunct2, THEN conjunct2, THEN conjunct2, THEN conjunct1] c' by blast
    qed
  qed
  moreover have "leaf_sum H C v f (visited' - visited) =
      leaf_sum H C v f (visited2 - insert m visited) + leaf_sum H C v f (visited' - visited2)" for f
  proof -
    have "leaf_dir H C v m = None" using assms(2,3) by (simp add: leaf_dir_def)
    then have "leaf_sum H C v f (visited' - visited) = leaf_sum H C v f (visited' - insert m visited)"
      using leaf_sum_diff [of visited' m visited H C v f] ag1 ag2 assms(1) by auto
    also have "\<dots> = leaf_sum H C v f (visited2 - insert m visited) + leaf_sum H C v f (visited' - visited2)"
      by (rule leaf_sum_split) (use ag1 ag2 in auto)
    finally show ?thesis .
  qed
  ultimately show ?thesis
    using ag1 ag2 unfolding aggregates_def prod.case by (auto simp: add.assoc)
qed

lemma aggregates_skip:
  assumes "m \<in> visited" "aggregates H C v ms (tot, visited) (tot', visited')"
  shows "aggregates H C v (m # ms) (tot, visited) (tot', visited')"
  using assms proxy_reach_Cons [of C v ms m] unfolding aggregates_def prod.case by auto

context kv_store
begin

lemma aggregate_proxy_stats_run:
  assumes names: "\<And>n. v TABLE_REPOS SINGLE_PK n \<noteq> None \<Longrightarrow> pk_ok n"
  shows "card (dom (v TABLE_REPOS SINGLE_PK) - visited) \<le> k \<Longrightarrow> invar s \<Longrightarrow> view s = v \<Longrightarrow> finite visited \<Longrightarrow>
    wp (aggregate_proxy_stats H kv C members tot visited)
      (kv_read invar view s (aggregates H C v members (tot, visited))) s"
proof (induction k arbitrary: members tot visited s rule: less_induct)
  case (less k)
  let ?N = "dom (v TABLE_REPOS SINGLE_PK)"
  show ?case
    using less.prems
  proof (induction members arbitrary: tot visited s)
    case Nil
    then show ?case by (simp add: wp_def aggregate_proxy_stats.simps [of H kv C "[]"] aggregates_def leaf_sum_def)
  next
    case (Cons m ms)
    have finN: "finite ?N" using view_finite [OF Cons.prems(2), of TABLE_REPOS SINGLE_PK] Cons.prems(3) by simp
    note unf = aggregate_proxy_stats.simps [of H kv C "m # ms" tot visited s]
    show ?case
    proof (cases "m \<in> visited")
      case True
      have "wp (aggregate_proxy_stats H kv C ms tot visited) (kv_read invar view s (aggregates H C v ms (tot, visited))) s"
        by (rule Cons.IH) (use Cons.prems in auto)
      then show ?thesis
        using True unf aggregates_skip [OF True, of H C v ms tot]
        by (auto simp: wp_def kv_read_def split: option.splits)
    next
      case False
      obtain r s1 where run: "get_repo kv C m s = Some (r, s1)"
        and r: "kv_read invar view s (stored_repo C (view s) m) r s1"
        using get_repo_spec [OF Cons.prems(2), of C m] by (auto simp: wp_iff)
      have s1: "invar s1" "view s1 = v" using r Cons.prems(3) by (auto simp: kv_read_def)
      note step = unf [unfolded list.case if_not_P [OF False] run option.case prod.case]
      have "card (?N - insert m visited) \<le> card (?N - visited)" using finN by (intro card_mono) auto
      then have smaller: "card (?N - insert m visited) \<le> k" "finite (insert m visited)"
        using Cons.prems(1,4) by auto
      have rest: "wp (aggregate_proxy_stats H kv C ms tot1 (insert m visited))
          (kv_read invar view s (aggregates H C v (m # ms) (tot, visited))) s2"
        if "invar s2" "view s2 = v" "tot1 = (case leaf_dir H C v m of Some d \<Rightarrow> add_stats tot d | None \<Rightarrow> tot)"
          "\<And>c nested w. repo_at C v m = Some c \<Longrightarrow> rp_kind c \<noteq> Proxy nested w" for tot1 s2
        by (rule wp_mono [OF Cons.IH [OF smaller(1) that(1,2) smaller(2)]])
          (use that Cons.prems(3) in \<open>auto simp: kv_read_def intro: aggregates_leaf [OF False]\<close>)
      show ?thesis
      proof (cases r)
        case (Inl e)
        with step s1 Cons.prems(3) show ?thesis by (simp add: wp_def)
      next
        case (Inr found)
        with r Cons.prems(3) have found: "stored_repo C v m found" "found = repo_at C v m"
          by (auto intro: stored_repo_at)
        show ?thesis
        proof (cases found)
          case None
          then have "wp (aggregate_proxy_stats H kv C ms tot (insert m visited))
              (kv_read invar view s (aggregates H C v (m # ms) (tot, visited))) s1"
            by (intro rest) (use s1 found in \<open>auto simp: leaf_dir_def\<close>)
          with step Inr None show ?thesis by (simp add: wp_def)
        next
          case (Some config)
          have m: "m \<in> ?N" using stored_repo_dom [of C v m config] found(1) Some by simp
          show ?thesis
          proof (cases "\<exists>nested w. rp_kind config = Proxy nested w")
            case True
            then obtain nested w where px: "rp_kind config = Proxy nested w" by blast
            have lt: "card (?N - insert m visited) < k"
            proof -
              have "?N - insert m visited \<subset> ?N - visited" using m False by auto
              then have "card (?N - insert m visited) < card (?N - visited)" using finN by (intro psubset_card_mono) auto
              then show ?thesis using Cons.prems(1) by simp
            qed
            obtain r2 s2 where run2: "aggregate_proxy_stats H kv C nested tot (insert m visited) s1 = Some (r2, s2)"
              and r2: "kv_read invar view s1 (aggregates H C v nested (tot, insert m visited)) r2 s2"
              using less.IH [OF lt order.refl s1 smaller(2), of nested tot] by (auto simp: wp_iff)
            show ?thesis
            proof (cases r2)
              case (Inl e)
              with step Inr Some px run2 r2 s1 Cons.prems(3) show ?thesis by (simp add: wp_def)
            next
              case ok: (Inr a)
              obtain tot2 visited2 where a: "a = (tot2, visited2)" by (cases a)
              have ag: "aggregates H C v nested (tot, insert m visited) (tot2, visited2)" "invar s2" "view s2 = v"
                using r2 ok a s1 by auto
              then have v2: "finite visited2" "insert m visited \<subseteq> visited2" by (auto simp: aggregates_def)
              have "card (?N - visited2) \<le> card (?N - insert m visited)" using finN v2 by (intro card_mono) auto
              with smaller(1) have le: "card (?N - visited2) \<le> k" by simp
              have "wp (aggregate_proxy_stats H kv C ms tot2 visited2)
                  (kv_read invar view s (aggregates H C v (m # ms) (tot, visited))) s2"
              proof (rule wp_mono [OF Cons.IH [OF le ag(2,3) v2(1)]], goal_cases)
                case (1 r s')
                have "repo_at C v m = Some config" using found(2) Some by simp
                note px = aggregates_proxy [OF False this px ag(1)]
                show ?case using 1 px Cons.prems(3) ag(3) unfolding kv_read_def split_paired_all by auto
              qed
              with step Inr Some px run2 ok a show ?thesis by (simp add: wp_def)
            qed
          next
            case notproxy: False
            have "pk_ok m" using names [of m] m by auto
            then obtain r2 s2 where run2: "get_dir H kv C m [] s1 = Some (r2, s2)"
              and r2: "kv_read invar view s1 (\<lambda>d. stored_dir C (tree_at H m [] v) d) r2 s2"
              using get_dir_spec [OF s1(1), of m H C "[]"] s1(2) by (auto simp: wp_iff trim_matches_def trim_start_matches_def trim_end_matches_def)
            have kind: "(case rp_kind config of Proxy nested w \<Rightarrow> f nested w | Hosted \<Rightarrow> g | Cache a b c \<Rightarrow> g) = g" for f g
              using notproxy by (cases "rp_kind config") auto
            note step2 = step [unfolded Inr Some sum.case option.case kind run2 prod.case]
            show ?thesis
            proof (cases r2)
              case (Inl e)
              with step2 r2 s1 Cons.prems(3) show ?thesis by (simp add: wp_def)
            next
              case ok: (Inr d)
              have d: "d = root_dir_at H C v m" "invar s2" "view s2 = v"
                using r2 ok s1 by (auto intro: stored_root_dir_at)
              have "leaf_dir H C v m = d"
                unfolding leaf_dir_def found(2) [symmetric] Some option.case d(1)
                using notproxy by (cases "rp_kind config") auto
              then have "wp (aggregate_proxy_stats H kv C ms (case d of Some x \<Rightarrow> add_stats tot x | None \<Rightarrow> tot) (insert m visited))
                (kv_read invar view s (aggregates H C v (m # ms) (tot, visited))) s2"
                by (intro rest) (use d found(2) Some notproxy in auto)
              with step2 ok show ?thesis by (simp add: wp_def)
            qed
          qed
        qed
      qed
    qed
  qed
qed

end

lemma aggregates_reach:
  assumes "aggregates H C v members (tot, {}) (tot', visited')"
  shows "visited' = proxy_reach C v members"
proof
  note ag = assms [unfolded aggregates_def prod.case]
  show "visited' \<subseteq> proxy_reach C v members" using ag by simp
  have closed: "\<forall>n \<in> visited'. \<forall>c nested w. repo_at C v n = Some c \<longrightarrow> rp_kind c = Proxy nested w \<longrightarrow> set nested \<subseteq> visited'"
    using ag by simp
  show "proxy_reach C v members \<subseteq> visited'"
  proof
    fix x assume "x \<in> proxy_reach C v members"
    then show "x \<in> visited'"
    proof induction
      case (reach_member m)
      then show ?case using ag by auto
    next
      case (reach_nested n c nested w m)
      then show ?case using closed by blast
    qed
  qed
qed

context kv_store
begin

lemma get_repo_stats_spec:
  assumes inv: "invar s" and names: "\<And>n. view s TABLE_REPOS SINGLE_PK n \<noteq> None \<Longrightarrow> pk_ok n"
    and proxy: "rp_kind config = Proxy members w"
  shows "wp (get_repo_stats H kv C config) (kv_read invar view s (\<lambda>stats.
    finite (proxy_reach C (view s) members) \<and>
    rs_artifact_count stats = leaf_sum H C (view s) de_artifact_count (proxy_reach C (view s) members) \<and>
    rs_total_bytes stats = leaf_sum H C (view s) de_total_bytes (proxy_reach C (view s) members))) s"
proof -
  have "wp (aggregate_proxy_stats H kv C members default_stats {})
      (kv_read invar view s (aggregates H C (view s) members (default_stats, {}))) s"
    by (rule aggregate_proxy_stats_run [OF _ order.refl inv refl]) (use names in auto)
  then show ?thesis
    unfolding get_repo_stats_def proxy repo_kind.case
  proof (rule wp_bindI, goal_cases)
    case (2 a s1)
    obtain tot visited where a: "a = (tot, visited)" by (cases a)
    have ag: "aggregates H C (view s) members (default_stats, {}) (tot, visited)" using 2 a by simp
    have "visited = proxy_reach C (view s) members" by (rule aggregates_reach [OF ag])
    then show ?case using 2 ag a by (simp add: aggregates_def default_stats_def)
  qed simp
qed

end

section \<open>Listing a directory\<close>

text \<open>The directories and the files among decoded tree entries, under their names.\<close>

definition child_dirs :: "(string \<times> bytes) list \<Rightarrow> tree_entry list \<Rightarrow> (string \<times> dir_entry) list" where
  "child_dirs items tes = concat (map2 (\<lambda>(sk, _) te. case dir_of te of
     Some d \<Rightarrow> [(tree_sk_name sk, d)] | None \<Rightarrow> []) items tes)"

definition child_files :: "(string \<times> bytes) list \<Rightarrow> tree_entry list \<Rightarrow> (string \<times> tree_entry) list" where
  "child_files items tes = concat (map2 (\<lambda>(sk, _) te. case dir_of te of
     Some d \<Rightarrow> [] | None \<Rightarrow> [(tree_sk_name sk, te)]) items tes)"

lemma scan_fold_children:
  "scan_fold (child_callback C) items (dirs, files) = Inr (dirs', files') \<Longrightarrow>
    \<exists>tes. decode_all (cs_tree C) items = Inr tes \<and> dirs' = dirs @ child_dirs items tes \<and>
      files' = files @ child_files items tes"
proof (induction items arbitrary: dirs files)
  case Nil
  then show ?case by (simp add: child_dirs_def child_files_def)
next
  case (Cons item items)
  obtain sk b where item: "item = (sk, b)" by (cases item)
  from Cons.prems obtain te where te: "decode (cs_tree C) b = Inr te"
    by (auto simp: item child_callback_def [of C sk b] split: sum.splits)
  show ?case
  proof (cases "te_kind te")
    case (Dir c n)
    with Cons.prems te have "scan_fold (child_callback C) items
        (dirs @ [(tree_sk_name sk, dir_entry_of c n te)], files) = Inr (dirs', files')"
      by (simp add: item child_callback_def [of C sk b])
    from Cons.IH [OF this] Dir te show ?thesis
      by (auto simp: item child_dirs_def child_files_def dir_of_def)
  next
    case (File f)
    with Cons.prems te have "scan_fold (child_callback C) items
        (dirs, files @ [(tree_sk_name sk, te)]) = Inr (dirs', files')"
      by (simp add: item child_callback_def [of C sk b])
    from Cons.IH [OF this] File te show ?thesis
      by (auto simp: item child_dirs_def child_files_def dir_of_def)
  qed
qed

context kv_store
begin

lemma list_children_spec:
  assumes inv: "invar s" and repo: "pk_ok repo"
  defines "d \<equiv> \<lambda>p. trim_end_matches CHR ''/'' p"
  shows "wp (list_children H kv C repo prefix) (kv_read invar view s (\<lambda>(dirs, files). \<exists>tes.
    let items = entries_where (view s TABLE_DIR_ENTRIES (tree_children_pk H repo (d prefix)))
          (\<lambda>k. starts_with k (tree_children_sk_prefix (d prefix)))
    in decode_all (cs_tree C) items = Inr tes \<and>
      dirs = sort_key fst (child_dirs items tes) \<and> files = sort_key fst (child_files items tes))) s"
proof -
  have pk: "pk_ok (tree_children_pk H repo (d prefix))" using repo by (simp add: tree_children_pk_def)
  show ?thesis
    unfolding list_children_def Let_def d_def [symmetric]
  proof (rule wp_bindI [OF for_each_spec [OF inv pk]], goal_cases)
    case (3 a s1)
    obtain dirs files where a: "a = (dirs, files)" by (cases a)
    show ?case using 3 a scan_fold_children [of C _ "[]" "[]" dirs files] by auto
  qed (simp_all add: SCAN_BATCH_SIZE_def)
qed

end

end
