(* ===== verification/Service_Pagination.thy ===== *)
theory Service_Pagination
  imports Service_Artifact "HOL-Library.Product_Lexorder" "HOL-Library.Multiset"
begin

text \<open>
  Pagination over the shards of a table (\<open>core/src/service/pagination.rs\<close>) and the listings of
  artifacts (\<open>list_artifacts\<close> and \<open>search_artifacts\<close> of \<open>artifact.rs\<close>).

  \<open>BinaryHeap\<close> is its list of entries; \<open>heap_pop\<close> takes the smallest (the code wraps entries in
  \<open>Reverse\<close>). Base64 is a third-party crate and the Unicode tables behind \<open>to_lowercase\<close> and
  \<open>from_utf8_lossy\<close> are not part of the program: they are the fields of the parameter \<open>text\<close>.
\<close>

record text_ops =
  tx_lower :: "string \<Rightarrow> string"
  tx_b64_encode :: "bytes \<Rightarrow> string"
  tx_b64_decode :: "string \<Rightarrow> bytes option"
  tx_utf8_lossy :: "bytes \<Rightarrow> string"

record shard_stream =
  sh_pk :: string
  sh_sk_prefix :: string
  sh_sk_end :: "string option"
  sh_buffer :: "(string \<times> bytes) list"
  sh_buf_idx :: nat
  sh_next_start :: string
  sh_exhausted :: bool
  sh_filter :: "string option"
  sh_batch_size :: nat

definition new_stream :: "string \<Rightarrow> string \<Rightarrow> string \<Rightarrow> string option \<Rightarrow> nat \<Rightarrow> shard_stream" where
  "new_stream pk sk_prefix scan_start filt batch_size = \<lparr>
     sh_pk = pk, sh_sk_prefix = sk_prefix, sh_sk_end = prefix_end_str sk_prefix, sh_buffer = [],
     sh_buf_idx = 0, sh_next_start = scan_start, sh_exhausted = False, sh_filter = filt,
     sh_batch_size = batch_size\<rparr>"

text \<open>The loop over one batch: the entries kept, and whether it ran past the prefix.\<close>

fun filter_batch ::
    "text_ops \<Rightarrow> string \<Rightarrow> string option \<Rightarrow> (string \<times> bytes) list \<Rightarrow> (string \<times> bytes) list \<times> bool" where
  "filter_batch T sk_prefix filt [] = ([], False)"
| "filter_batch T sk_prefix filt ((sk, v) # items) =
    (if sk_prefix \<noteq> [] \<and> \<not> starts_with sk sk_prefix then ([], True)
     else if (case filt of Some query \<Rightarrow> \<not> contains_str (tx_lower T sk) query | None \<Rightarrow> False)
       then filter_batch T sk_prefix filt items
     else case filter_batch T sk_prefix filt items of (kept, past) \<Rightarrow> ((sk, v) # kept, past))"

partial_function (option) ensure_buffered ::
    "text_ops \<Rightarrow> 's kv \<Rightarrow> string \<Rightarrow> shard_stream \<Rightarrow> 's \<Rightarrow> (shard_stream result \<times> 's) option" where
  "ensure_buffered T kv table st s =
    (if sh_buf_idx st < length (sh_buffer st) \<or> sh_exhausted st then Some (Inr st, s)
     else case kv_scan_range kv table (sh_pk st) (sh_next_start st) (sh_sk_end st) (sh_batch_size st) s of
         None \<Rightarrow> None
       | Some (Inl e, s') \<Rightarrow> Some (Inl e, s')
       | Some (Inr result, s') \<Rightarrow>
          (case filter_batch T (sh_sk_prefix st) (sh_filter st) (sr_items result) of (filtered, past_prefix) \<Rightarrow>
             ensure_buffered T kv table
               (st\<lparr>sh_next_start := (case last_opt (sr_items result) of
                      Some (last_sk, _) \<Rightarrow> last_sk @ [CHR 0x00] | None \<Rightarrow> sh_next_start st),
                   sh_buffer := filtered, sh_buf_idx := 0, sh_exhausted := sr_done result \<or> past_prefix\<rparr>) s'))"

definition peek :: "shard_stream \<Rightarrow> (string \<times> bytes) option" where
  "peek st = (if sh_buf_idx st < length (sh_buffer st) then Some (sh_buffer st ! sh_buf_idx st) else None)"

definition advance :: "shard_stream \<Rightarrow> shard_stream" where
  "advance st = st\<lparr>sh_buf_idx := sh_buf_idx st + 1\<rparr>"

subsection \<open>The merge\<close>

type_synonym heap_entry = "string \<times> nat"

definition heap_pop :: "heap_entry list \<Rightarrow> (heap_entry \<times> heap_entry list) option" where
  "heap_pop heap = (if heap = [] then None
     else let entry = Min (set heap) in Some (entry, remove1 entry heap))"

definition heap_push :: "shard_stream \<Rightarrow> nat \<Rightarrow> heap_entry list \<Rightarrow> heap_entry list" where
  "heap_push st i heap = (case peek st of Some (sk, _) \<Rightarrow> (sk, i) # heap | None \<Rightarrow> heap)"

fun build_heap :: "nat \<Rightarrow> shard_stream list \<Rightarrow> heap_entry list" where
  "build_heap i [] = []"
| "build_heap i (st # streams) = heap_push st i (build_heap (Suc i) streams)"

partial_function (option) merge_loop ::
    "text_ops \<Rightarrow> 's kv \<Rightarrow> 'r codec \<Rightarrow> string \<Rightarrow> string option \<Rightarrow> nat \<Rightarrow> nat \<Rightarrow> shard_stream list \<Rightarrow>
     heap_entry list \<Rightarrow> (string \<times> 'r) list \<Rightarrow> nat \<Rightarrow> 's \<Rightarrow> ((string \<times> 'r) list result \<times> 's) option" where
  "merge_loop T kv c table cursor_path skip limit streams heap results skipped s =
    (case heap_pop heap of
       None \<Rightarrow> Some (Inr results, s)
     | Some ((_, idx), heap1) \<Rightarrow>
        (case peek (streams ! idx) of
           None \<Rightarrow> merge_loop T kv c table cursor_path skip limit streams heap1 results skipped s
         | Some (path, value) \<Rightarrow>
            (case ensure_buffered T kv table (advance (streams ! idx)) s of
               None \<Rightarrow> None
             | Some (Inl e, s1) \<Rightarrow> Some (Inl e, s1)
             | Some (Inr st1, s1) \<Rightarrow>
                let streams1 = streams[idx := st1];
                    heap2 = heap_push st1 idx heap1
                in if (case cursor_path of Some cp \<Rightarrow> path \<le> cp | None \<Rightarrow> False)
                   then merge_loop T kv c table cursor_path skip limit streams1 heap2 results skipped s1
                   else if skipped < skip
                   then merge_loop T kv c table cursor_path skip limit streams1 heap2 results (skipped + 1) s1
                   else case decode c value of
                       Inl e \<Rightarrow> Some (Inl e, s1)
                     | Inr record \<Rightarrow>
                        let results1 = results @ [(path, record)]
                        in if length results1 > limit then Some (Inr results1, s1)
                           else merge_loop T kv c table cursor_path skip limit streams1 heap2 results1 skipped s1)))"

definition k_way_merge ::
    "text_ops \<Rightarrow> 's kv \<Rightarrow> 'r codec \<Rightarrow> string \<Rightarrow> shard_stream list \<Rightarrow> string option \<Rightarrow> nat \<Rightarrow> nat \<Rightarrow>
     ('s, (string \<times> 'r) list) io" where
  "k_way_merge T kv c table streams cursor_path skip limit =
    io_bind (io_map (ensure_buffered T kv table) streams)
      (\<lambda>primed. merge_loop T kv c table cursor_path skip limit primed (build_heap 0 primed) [] 0)"

definition decode_cursor :: "text_ops \<Rightarrow> string option \<Rightarrow> string option" where
  "decode_cursor T cursor = map_option (\<lambda>c. tx_utf8_lossy T
     (case tx_b64_decode T c of Some b \<Rightarrow> b | None \<Rightarrow> [])) cursor"

definition paginate_results :: "text_ops \<Rightarrow> (string \<times> 'a) list \<Rightarrow> nat \<Rightarrow> (string \<times> 'a) paginated_result" where
  "paginate_results T items limit = \<lparr>
     pr_items = take limit items,
     pr_next_cursor = (if limit - 1 < length items \<and> length items > limit
       then Some (tx_b64_encode T (fst (items ! (limit - 1)))) else None)\<rparr>"

subsection \<open>Listings\<close>

definition list_streams :: "string \<Rightarrow> string \<Rightarrow> string option \<Rightarrow> nat \<Rightarrow> shard_stream list" where
  "list_streams repo prefix cursor_path per_shard = map (\<lambda>shard.
     new_stream (artifact_shard_pk repo shard) prefix
       (case cursor_path of Some cp \<Rightarrow> if prefix < cp then cp else prefix | None \<Rightarrow> prefix)
       None per_shard) [0..<NUM_SHARDS]"

definition list_artifacts ::
    "text_ops \<Rightarrow> 's kv \<Rightarrow> codecs \<Rightarrow> string \<Rightarrow> string \<Rightarrow> pagination \<Rightarrow>
     ('s, (string \<times> artifact_record) paginated_result) io" where
  "list_artifacts T kv C repo prefix pagination =
    (let cursor_path = decode_cursor T (pg_cursor pagination);
         per_shard = per_shard_batch (pg_limit pagination);
         streams = list_streams repo prefix cursor_path per_shard;
         skip = (if cursor_path \<noteq> None then 0 else pg_offset pagination)
     in io_bind (k_way_merge T kv (cs_artifact C) TABLE_ARTIFACTS streams cursor_path skip (pg_limit pagination))
          (\<lambda>items. io_return (paginate_results T items (pg_limit pagination))))"

definition search_streams :: "string \<Rightarrow> string \<Rightarrow> string option \<Rightarrow> nat \<Rightarrow> shard_stream list" where
  "search_streams repo query_lower cursor_path per_shard = map (\<lambda>shard.
     new_stream (artifact_shard_pk repo shard) [] (case cursor_path of Some cp \<Rightarrow> cp | None \<Rightarrow> [])
       (Some query_lower) per_shard) [0..<NUM_SHARDS]"

definition search_artifacts ::
    "text_ops \<Rightarrow> 's kv \<Rightarrow> codecs \<Rightarrow> string \<Rightarrow> string \<Rightarrow> pagination \<Rightarrow>
     ('s, (string \<times> artifact_record) paginated_result) io" where
  "search_artifacts T kv C repo query pagination =
    (let query_lower = tx_lower T query;
         cursor_path = decode_cursor T (pg_cursor pagination);
         per_shard = per_shard_batch (pg_limit pagination);
         streams = search_streams repo query_lower cursor_path per_shard;
         skip = (if cursor_path \<noteq> None then 0 else pg_offset pagination)
     in io_bind (k_way_merge T kv (cs_artifact C) TABLE_ARTIFACTS streams cursor_path skip (pg_limit pagination))
          (\<lambda>items. io_return (paginate_results T items (pg_limit pagination))))"

section \<open>Streams\<close>

text \<open>The keys a stream delivers, and what it still has to deliver from a partition \<open>m\<close>.\<close>

definition wanted :: "text_ops \<Rightarrow> shard_stream \<Rightarrow> string \<Rightarrow> bool" where
  "wanted T st k \<longleftrightarrow> starts_with k (sh_sk_prefix st) \<and>
     (case sh_filter st of Some query \<Rightarrow> contains_str (tx_lower T k) query | None \<Rightarrow> True)"

definition pending ::
    "text_ops \<Rightarrow> (string \<Rightarrow> (bytes \<times> u64) option) \<Rightarrow> shard_stream \<Rightarrow> (string \<times> bytes) list" where
  "pending T m st = drop (sh_buf_idx st) (sh_buffer st) @
     (if sh_exhausted st then [] else entries_where m (\<lambda>k. sh_next_start st \<le> k \<and> wanted T st k))"

definition stream_ok :: "shard_stream \<Rightarrow> bool" where
  "stream_ok st \<longleftrightarrow> sh_sk_prefix st \<le> sh_next_start st \<and> 0 < sh_batch_size st \<and>
     sh_sk_end st = prefix_end_str (sh_sk_prefix st) \<and> pk_ok (sh_pk st)"

definition same_source :: "shard_stream \<Rightarrow> shard_stream \<Rightarrow> bool" where
  "same_source st st' \<longleftrightarrow> sh_pk st' = sh_pk st \<and> sh_sk_prefix st' = sh_sk_prefix st \<and> sh_filter st' = sh_filter st"

lemma same_source_trans: "same_source a b \<Longrightarrow> same_source b c \<Longrightarrow> same_source a c"
  by (simp add: same_source_def)

text \<open>Once past the prefix, always past it.\<close>

lemma past_prefix_mono:
  fixes p :: string
  shows "p \<le> k \<Longrightarrow> \<not> starts_with k p \<Longrightarrow> k \<le> k' \<Longrightarrow> \<not> starts_with k' p"
  using prefix_end_range [of k p] prefix_end_range [of k' p] by (auto split: option.splits)

lemma filter_batch_spec:
  assumes "sorted_wrt (<) (map fst items)" "\<forall>x \<in> set items. sh_sk_prefix st \<le> fst x"
  shows "filter_batch T (sh_sk_prefix st) (sh_filter st) items =
    (filter (\<lambda>x. wanted T st (fst x)) items, \<exists>x \<in> set items. \<not> starts_with (fst x) (sh_sk_prefix st))"
  using assms
proof (induction items)
  case (Cons x items)
  obtain k b where x: "x = (k, b)" by (cases x)
  show ?case
  proof (cases "starts_with k (sh_sk_prefix st)")
    case True
    with Cons x show ?thesis by (auto simp: wanted_def split: option.splits)
  next
    case False
    then have ne: "sh_sk_prefix st \<noteq> []" by auto
    have "\<not> starts_with (fst y) (sh_sk_prefix st)" if "y \<in> set items" for y
      by (rule past_prefix_mono [OF _ False]) (use Cons.prems x that in \<open>auto intro: less_imp_le\<close>)
    then have "filter (\<lambda>x. wanted T st (fst x)) items = []" by (auto simp: wanted_def filter_empty_conv)
    with False ne x show ?thesis by (simp add: wanted_def)
  qed
qed simp

lemma filter_entries_where:
  assumes "finite (dom m)"
  shows "filter (\<lambda>x. Q (fst x)) (entries_where m P) = entries_where m (\<lambda>k. P k \<and> Q k)"
proof (rule entries_whereI [OF assms])
  have "sorted_wrt (<) (filter Q (map fst (entries_where m P)))" by (rule sorted_wrt_filter) simp
  then show "sorted_wrt (<) (map fst (filter (\<lambda>x. Q (fst x)) (entries_where m P)))"
    by (simp add: filter_map comp_def)
qed (auto simp: set_entries_where [OF assms])

text \<open>A batch of the range: the part of the entries it holds, and those it leaves.\<close>

lemma wanted_range:
  assumes fin: "finite (dom m)" and ok: "stream_ok st"
  shows "entries_where m (\<lambda>k. sh_next_start st \<le> k \<and> wanted T st k) =
    filter (\<lambda>x. wanted T st (fst x)) (entries_where m (in_range (sh_next_start st) (sh_sk_end st)))"
  unfolding filter_entries_where [OF fin]
proof (rule entries_where_cong [OF refl])
  fix k
  have "starts_with k (sh_sk_prefix st) \<Longrightarrow> (case sh_sk_end st of None \<Rightarrow> True | Some e \<Rightarrow> k < e)"
    using prefix_end_str_range [of k "sh_sk_prefix st"] ok by (simp add: stream_ok_def)
  then show "(sh_next_start st \<le> k \<and> wanted T st k) =
      (in_range (sh_next_start st) (sh_sk_end st) k \<and> wanted T st k)"
    by (auto simp: in_range_def wanted_def)
qed

context kv_store
begin

lemma ensure_buffered_spec:
  "invar s \<Longrightarrow> stream_ok st \<Longrightarrow> view s t (sh_pk st) = m \<Longrightarrow>
    R = entries_where m (in_range (sh_next_start st) (sh_sk_end st)) \<Longrightarrow>
    wp (ensure_buffered T kv t st) (kv_read invar view s (\<lambda>st'. stream_ok st' \<and> same_source st st' \<and>
      pending T m st' = pending T m st \<and> peek st' = (case pending T m st of [] \<Rightarrow> None | x # _ \<Rightarrow> Some x))) s"
proof (induction "if sh_exhausted st then 0 else Suc (length R)" arbitrary: st s R rule: less_induct)
  case less
  have fin: "finite (dom m)" using view_finite [OF less.prems(1), of t "sh_pk st"] less.prems(3) by simp
  show ?case
  proof (cases "sh_buf_idx st < length (sh_buffer st) \<or> sh_exhausted st")
    case True
    then have "pending T m st = (case peek st of None \<Rightarrow> [] | Some x \<Rightarrow> x # drop (Suc (sh_buf_idx st)) (sh_buffer st) @
        (if sh_exhausted st then [] else entries_where m (\<lambda>k. sh_next_start st \<le> k \<and> wanted T st k)))"
      by (auto simp: pending_def peek_def Cons_nth_drop_Suc [symmetric])
    then have "peek st = (case pending T m st of [] \<Rightarrow> None | x # _ \<Rightarrow> Some x)" by (cases "peek st") auto
    with True less.prems show ?thesis
      by (simp add: wp_def ensure_buffered.simps [of T kv t st] same_source_def)
  next
    case False
    then have nobuf: "drop (sh_buf_idx st) (sh_buffer st) = []" and live: "\<not> sh_exhausted st" by auto
    have pk: "pk_ok (sh_pk st)" and batch: "0 < sh_batch_size st" and pre: "sh_sk_prefix st \<le> sh_next_start st"
      using less.prems(2) by (simp_all add: stream_ok_def)
    let ?B = "take (sh_batch_size st) R"
    obtain r s1 where scan: "kv_scan_range kv t (sh_pk st) (sh_next_start st) (sh_sk_end st) (sh_batch_size st) s = Some (r, s1)"
      and r: "kv_read invar view s (\<lambda>res. sr_items res = ?B \<and> (sr_done res \<longrightarrow> length R \<le> sh_batch_size st)) r s1"
      and full: "\<forall>res. r = Inr res \<longrightarrow> \<not> sr_done res \<longrightarrow> sh_batch_size st \<le> length (sr_items res)"
      using wp_det [OF scan_range_spec [OF less.prems(1) pk] scan_range_full [OF less.prems(1) pk],
          of t "sh_next_start st" "sh_sk_end st" "sh_batch_size st"] less.prems(3,4)
      by (auto simp: wp_iff)
    note unf = ensure_buffered.simps [of T kv t st s, unfolded if_not_P [OF False] scan option.case prod.case]
    show ?thesis
    proof (cases r)
      case (Inl e)
      with unf r show ?thesis by (simp add: wp_def)
    next
      case (Inr res)
      then have s1: "invar s1" "view s1 = view s" and items: "sr_items res = ?B"
        and done_le: "sr_done res \<Longrightarrow> length R \<le> sh_batch_size st"
        and more_full: "\<not> sr_done res \<Longrightarrow> sh_batch_size st \<le> length ?B" using r full by auto
      have sorted: "sorted_wrt (<) (map fst ?B @ map fst (drop (sh_batch_size st) R))"
        using sorted_entries_where [of m] less.prems(4) by (metis append_take_drop_id map_append)
      have lo: "sh_sk_prefix st \<le> fst x" if "x \<in> set R" for x
        using that entries_where_fst [OF fin] pre less.prems(4) by (fastforce simp: in_range_def)
      have fb: "filter_batch T (sh_sk_prefix st) (sh_filter st) ?B = (filter (\<lambda>x. wanted T st (fst x)) ?B,
          \<exists>x \<in> set ?B. \<not> starts_with (fst x) (sh_sk_prefix st))"
        by (rule filter_batch_spec) (use sorted lo in \<open>auto simp: sorted_wrt_append dest: in_set_takeD\<close>)
      define past where "past \<longleftrightarrow> (\<exists>x \<in> set ?B. \<not> starts_with (fst x) (sh_sk_prefix st))"
      define nxt where "nxt = (case last_opt ?B of Some (last_sk, _) \<Rightarrow> last_sk @ [CHR 0x00] | None \<Rightarrow> sh_next_start st)"
      define st1 where "st1 = st\<lparr>sh_next_start := nxt, sh_buffer := filter (\<lambda>x. wanted T st (fst x)) ?B,
        sh_buf_idx := 0, sh_exhausted := sr_done res \<or> past\<rparr>"
      have run: "wp (ensure_buffered T kv t st) Q s \<longleftrightarrow> wp (ensure_buffered T kv t st1) Q s1" for Q
        unfolding wp_def unf Inr sum.case items fb prod.case st1_def nxt_def past_def ..
      have w1: "wanted T st1 = wanted T st" by (simp add: st1_def wanted_def fun_eq_iff)
      have nxt_rest: "entries_where m (in_range nxt (sh_sk_end st)) = drop (sh_batch_size st) R" if "\<not> sr_done res"
      proof -
        have "?B \<noteq> []" using more_full [OF that] batch by auto
        then have "nxt = fst (last ?B) @ [CHR 0x00]"
          unfolding nxt_def by (metis (no_types, lifting) last_opt_Some option.simps(5) case_prod_unfold)
        then show ?thesis using entries_after_batch [OF fin] \<open>?B \<noteq> []\<close> less.prems(4) by simp
      qed
      have ok1: "stream_ok st1"
      proof -
        have "sh_sk_prefix st \<le> nxt"
        proof (cases "?B = []")
          case False
          then have "last ?B \<in> set R" using last_in_set in_set_takeD by fast
          from lo [OF this] have "sh_sk_prefix st \<le> fst (last ?B) @ [CHR 0x00]" by (rule order_trans) simp
          moreover have "nxt = fst (last ?B) @ [CHR 0x00]" using False
            unfolding nxt_def by (metis (no_types, lifting) last_opt_Some option.simps(5) case_prod_unfold)
          ultimately show ?thesis by simp
        next
          case True
          show ?thesis unfolding nxt_def True using pre by simp
        qed
        with less.prems(2) show ?thesis by (simp add: stream_ok_def st1_def)
      qed
      have pend: "pending T m st1 = pending T m st"
      proof -
        have "pending T m st = filter (\<lambda>x. wanted T st (fst x)) (?B @ drop (sh_batch_size st) R)"
          unfolding pending_def nobuf using live less.prems(4) wanted_range [OF fin less.prems(2)] by simp
        also have "\<dots> = filter (\<lambda>x. wanted T st (fst x)) ?B @ filter (\<lambda>x. wanted T st (fst x)) (drop (sh_batch_size st) R)"
          by (rule filter_append)
        also have "filter (\<lambda>x. wanted T st (fst x)) (drop (sh_batch_size st) R) =
            (if sh_exhausted st1 then [] else entries_where m (\<lambda>k. sh_next_start st1 \<le> k \<and> wanted T st1 k))"
        proof -
          consider "sr_done res" | "\<not> sr_done res" "past" | "\<not> sr_done res" "\<not> past" by blast
          then show ?thesis
          proof cases
            case 1
            then show ?thesis using done_le by (simp add: st1_def)
          next
            case 2
            then obtain x where x: "x \<in> set ?B" "\<not> starts_with (fst x) (sh_sk_prefix st)" unfolding past_def by blast
            have "\<not> starts_with (fst y) (sh_sk_prefix st)" if "y \<in> set (drop (sh_batch_size st) R)" for y
              by (rule past_prefix_mono [OF lo x(2)])
                (use x(1) that sorted in \<open>auto simp: sorted_wrt_append dest: in_set_takeD intro: less_imp_le\<close>)
            then show ?thesis using 2 by (auto simp: st1_def wanted_def filter_empty_conv)
          next
            case 3
            then have "\<not> sh_exhausted st1" "sh_next_start st1 = nxt" "sh_sk_end st1 = sh_sk_end st" by (simp_all add: st1_def)
            then show ?thesis using wanted_range [OF fin ok1, of T] nxt_rest [OF 3(1)] w1 by simp
          qed
        qed
        finally show ?thesis by (simp add: pending_def st1_def)
      qed
      have smaller: "(if sh_exhausted st1 then 0 else Suc (length (entries_where m (in_range (sh_next_start st1) (sh_sk_end st1)))))
          < (if sh_exhausted st then 0 else Suc (length R))"
      proof (cases "sh_exhausted st1")
        case True
        then show ?thesis using live by simp
      next
        case nex: False
        then have more: "\<not> sr_done res" by (simp add: st1_def)
        have "length ?B \<noteq> 0" using more_full [OF more] batch by simp
        then show ?thesis using nxt_rest [OF more] live nex batch by (simp add: st1_def)
      qed
      have src: "sh_pk st1 = sh_pk st" "same_source st st1" by (simp_all add: st1_def same_source_def)
      have "view s1 t (sh_pk st1) = m" using src(1) s1(2) less.prems(3) by simp
      note IH = less.hyps [OF smaller s1(1) ok1 this refl, unfolded pend]
      show ?thesis
        unfolding run
        by (rule wp_mono [OF IH]) (simp add: kv_read_def s1(2) same_source_trans [OF src(2)])
    qed
  qed
qed

end

section \<open>Merging\<close>

text \<open>The reference for the merge: all pending entries, sorted by key and then by stream.\<close>

definition tagged :: "(string \<times> bytes) list list \<Rightarrow> (heap_entry \<times> bytes) list" where
  "tagged Ps = concat (map (\<lambda>i. map (\<lambda>(sk, b). ((sk, i), b)) (Ps ! i)) [0..<length Ps])"

definition merged :: "(string \<times> bytes) list list \<Rightarrow> (string \<times> bytes) list" where
  "merged Ps = map (\<lambda>((sk, i), b). (sk, b)) (sort_key fst (tagged Ps))"

definition head :: "'a list \<Rightarrow> 'a option" where
  "head xs = (case xs of [] \<Rightarrow> None | x # _ \<Rightarrow> Some x)"

definition sorted_streams :: "(string \<times> bytes) list list \<Rightarrow> bool" where
  "sorted_streams Ps \<longleftrightarrow> (\<forall>P \<in> set Ps. sorted_wrt (<) (map fst P))"

definition heap_ok :: "heap_entry list \<Rightarrow> (string \<times> bytes) list list \<Rightarrow> bool" where
  "heap_ok heap Ps \<longleftrightarrow> distinct heap \<and>
     set heap = {(fst (hd (Ps ! i)), i) | i. i < length Ps \<and> Ps ! i \<noteq> []}"

lemma set_tagged: "((sk, i), b) \<in> set (tagged Ps) \<longleftrightarrow> i < length Ps \<and> (sk, b) \<in> set (Ps ! i)"
proof
  assume "i < length Ps \<and> (sk, b) \<in> set (Ps ! i)"
  then have "((sk, i), b) \<in> set (map (\<lambda>(sk, b). ((sk, i), b)) (Ps ! i))" "i \<in> set [0..<length Ps]" by force+
  then show "((sk, i), b) \<in> set (tagged Ps)"
    unfolding tagged_def set_concat set_map [of "\<lambda>i. map (\<lambda>(sk, b). ((sk, i), b)) (Ps ! i)"]
    by (intro UN_I [of "map (\<lambda>(sk, b). ((sk, i), b)) (Ps ! i)"] imageI)
qed (auto simp: tagged_def)

lemma length_merged: "length (merged Ps) = sum_list (map length Ps)"
proof -
  have "map (\<lambda>i. length (Ps ! i)) [0..<length Ps] = map length Ps"
    by (rule nth_equalityI) simp_all
  then show ?thesis by (simp add: merged_def tagged_def length_concat comp_def)
qed

lemma distinct_concat_tags:
  "(\<And>i. i \<in> set is \<Longrightarrow> distinct (f i)) \<Longrightarrow> distinct is \<Longrightarrow>
    distinct (concat (map (\<lambda>i. map (\<lambda>sk. (sk, i)) (f i)) is))"
  by (induction "is") (auto simp: distinct_map inj_on_def)

lemma sorted_tagged:
  assumes "sorted_streams Ps"
  shows "sorted_wrt (<) (map fst (sort_key fst (tagged Ps)))"
proof -
  have "map fst (tagged Ps) = concat (map (\<lambda>i. map (\<lambda>sk. (sk, i)) (map fst (Ps ! i))) [0..<length Ps])"
    by (simp add: tagged_def map_concat comp_def case_prod_unfold)
  moreover have "distinct (map fst (Ps ! i))" if "i \<in> set [0..<length Ps]" for i
    using assms that unfolding sorted_streams_def by (auto dest!: nth_mem simp: strict_sorted_iff)
  ultimately have "distinct (map fst (tagged Ps))"
    using distinct_concat_tags [of "[0..<length Ps]" "\<lambda>i. map fst (Ps ! i)"] by simp
  then have "distinct (map fst (sort_key fst (tagged Ps)))"
    by (metis distinct_map distinct_sort set_sort)
  then show ?thesis by (simp add: strict_sorted_iff)
qed

lemma merged_step:
  assumes sorted: "sorted_streams Ps" and heap: "heap_ok heap Ps" "heap \<noteq> []"
    and min: "Min (set heap) = (sk, i)"
  obtains b R where "i < length Ps" "Ps ! i = (sk, b) # R" "merged Ps = (sk, b) # merged (Ps[i := R])"
    "sorted_streams (Ps[i := R])"
proof -
  have "(sk, i) \<in> set heap" using Min_in [of "set heap"] heap(2) min by simp
  then have i: "i < length Ps" "Ps ! i \<noteq> []" "sk = fst (hd (Ps ! i))"
    using heap(1) by (auto simp: heap_ok_def)
  then obtain b R where P: "Ps ! i = (sk, b) # R" by (cases "Ps ! i") (auto split: prod.splits)
  have Pi: "sorted_wrt (<) (map fst (Ps ! j))" if "j < length Ps" for j
    using sorted that by (simp add: sorted_streams_def)
  have R: "sorted_wrt (<) (map fst R)" "\<And>x. x \<in> set R \<Longrightarrow> sk < fst x" using Pi [OF i(1)] P by auto
  have sorted': "sorted_streams (Ps[i := R])"
    using sorted R(1) by (auto simp: sorted_streams_def dest!: set_update_subset_insert [THEN subsetD])
  have least: "(sk, i) < (sk', j)" if j: "j < length Ps" and x: "(sk', b') \<in> set (Ps[i := R] ! j)" for sk' b' j
  proof (cases "j = i")
    case True
    then show ?thesis using x i(1) R(2) by (auto simp: less_prod_def)
  next
    case False
    with x j have x: "(sk', b') \<in> set (Ps ! j)" by simp
    then have "(fst (hd (Ps ! j)), j) \<in> set heap" using heap(1) j by (auto simp: heap_ok_def)
    then have "(sk, i) \<le> (fst (hd (Ps ! j)), j)" using min by (metis List.finite_set Min_le)
    moreover have "fst (hd (Ps ! j)) \<le> sk'" using Pi [OF j] x by (cases "Ps ! j") (auto intro: less_imp_le)
    ultimately show ?thesis using False by (auto simp: less_eq_prod_def less_prod_def)
  qed
  have "sort_key fst (tagged Ps) = ((sk, i), b) # sort_key fst (tagged (Ps[i := R]))"
  proof (rule strict_sorted_assoc_eq)
    show "sorted_wrt (<) (map fst (sort_key fst (tagged Ps)))" by (rule sorted_tagged [OF sorted])
    have "\<forall>x \<in> set (tagged (Ps[i := R])). (sk, i) < fst x"
    proof
      fix x assume x: "x \<in> set (tagged (Ps[i := R]))"
      obtain sk' j b' where "x = ((sk', j), b')" by (metis prod.collapse)
      with x least [of j sk' b'] show "(sk, i) < fst x" by (simp add: set_tagged)
    qed
    then show "sorted_wrt (<) (map fst (((sk, i), b) # sort_key fst (tagged (Ps[i := R]))))"
      using sorted_tagged [OF sorted'] by simp
    show "set (sort_key fst (tagged Ps)) = set (((sk, i), b) # sort_key fst (tagged (Ps[i := R])))"
    proof (intro set_eqI)
      fix x :: "heap_entry \<times> bytes"
      obtain sk' j b' where x: "x = ((sk', j), b')" by (metis prod.collapse)
      show "x \<in> set (sort_key fst (tagged Ps)) \<longleftrightarrow> x \<in> set (((sk, i), b) # sort_key fst (tagged (Ps[i := R])))"
        unfolding x set_sort list.simps insert_iff set_tagged length_list_update
        using i(1) P by (cases "j = i") auto
    qed
  qed
  then have "merged Ps = (sk, b) # merged (Ps[i := R])" by (simp add: merged_def)
  then show thesis using that i(1) P sorted' by blast
qed

lemma heap_ok_step:
  assumes heap: "heap_ok heap Ps" and i: "i < length Ps" "Ps ! i = (sk, b) # R"
    and mem: "(sk, i) \<in> set heap" and pk: "peek st = head R"
  shows "heap_ok (heap_push st i (remove1 (sk, i) heap)) (Ps[i := R])"
proof -
  let ?H = "\<lambda>Ps. {(fst (hd (Ps ! j)), j) | j. j < length Ps \<and> Ps ! j \<noteq> []}"
  have set: "set (remove1 (sk, i) heap) = ?H Ps - {(sk, i)}" and dist: "distinct (remove1 (sk, i) heap)"
    using heap by (auto simp: heap_ok_def set_remove1_eq)
  have others: "?H Ps - {(sk, i)} = {(fst (hd (Ps ! j)), j) | j. j < length Ps \<and> j \<noteq> i \<and> Ps ! j \<noteq> []}"
    using i by auto
  have new: "?H (Ps[i := R]) = (case R of [] \<Rightarrow> {} | x # _ \<Rightarrow> {(fst x, i)}) \<union>
      {(fst (hd (Ps ! j)), j) | j. j < length Ps \<and> j \<noteq> i \<and> Ps ! j \<noteq> []}"
    using i(1) by (auto simp: nth_list_update split: list.splits if_splits)
  show ?thesis
  proof (cases R)
    case Nil
    then show ?thesis using pk set dist new others by (simp add: heap_ok_def heap_push_def head_def)
  next
    case (Cons x xs)
    obtain k c where x: "x = (k, c)" by (cases x)
    have "heap_push st i (remove1 (sk, i) heap) = (k, i) # remove1 (sk, i) heap"
      using pk Cons x by (simp add: heap_push_def head_def)
    moreover have "(k, i) \<notin> set (remove1 (sk, i) heap)" unfolding set others by auto
    ultimately show ?thesis using set dist new others Cons x by (simp add: heap_ok_def)
  qed
qed

lemma heap_ok_empty: "heap_ok [] Ps \<Longrightarrow> merged Ps = []"
proof -
  assume "heap_ok [] Ps"
  then have "\<forall>P \<in> set Ps. P = []" by (auto simp: heap_ok_def in_set_conv_nth)
  then have "sum_list (map length Ps) = 0" by simp
  then have "length (merged Ps) = 0" unfolding length_merged .
  then show ?thesis by simp
qed

text \<open>Decoding a list of entries into a page.\<close>

definition after_cursor :: "string option \<Rightarrow> string \<times> bytes \<Rightarrow> bool" where
  "after_cursor cursor x \<longleftrightarrow> (case cursor of Some cp \<Rightarrow> \<not> fst x \<le> cp | None \<Rightarrow> True)"

definition decoded_page :: "'r codec \<Rightarrow> (string \<times> bytes) list \<Rightarrow> (string \<times> 'r) list \<Rightarrow> bool" where
  "decoded_page c xs page \<longleftrightarrow> list_all2 (\<lambda>(k, b) (k', r). k' = k \<and> decode c b = Inr r) xs page"

lemma decoded_page_simps [simp]:
  "decoded_page c [] page \<longleftrightarrow> page = []"
  "decoded_page c ((k, b) # xs) page \<longleftrightarrow> (\<exists>r page'. page = (k, r) # page' \<and> decode c b = Inr r \<and> decoded_page c xs page')"
  by (auto simp: decoded_page_def list_all2_Cons1)

lemma pending_advance:
  "peek st = Some x \<Longrightarrow> pending T m (advance st) = tl (pending T m st)"
  by (simp add: pending_def peek_def advance_def wanted_def Cons_nth_drop_Suc [symmetric] split: if_splits)

text \<open>The streams are primed: each shows the head of what it has pending.\<close>

definition streams_at ::
    "text_ops \<Rightarrow> kv_view \<Rightarrow> string \<Rightarrow> shard_stream list \<Rightarrow> (string \<times> bytes) list list \<Rightarrow> bool" where
  "streams_at T v t streams Ps \<longleftrightarrow> length streams = length Ps \<and> (\<forall>i < length Ps. stream_ok (streams ! i) \<and>
     pending T (v t (sh_pk (streams ! i))) (streams ! i) = Ps ! i \<and> peek (streams ! i) = head (Ps ! i))"

context kv_store
begin

lemma merge_loop_spec:
  "invar s \<Longrightarrow> view s = v \<Longrightarrow> streams_at T v t streams Ps \<Longrightarrow> sorted_streams Ps \<Longrightarrow> heap_ok heap Ps \<Longrightarrow>
    length results \<le> limit \<Longrightarrow> skipped \<le> skip \<Longrightarrow>
    wp (merge_loop T kv c t cursor skip limit streams heap results skipped) (kv_read invar view s (\<lambda>res.
      \<exists>page. res = results @ page \<and> decoded_page c (take (Suc limit - length results)
        (drop (skip - skipped) (filter (after_cursor cursor) (merged Ps)))) page)) s"
proof (induction "length (merged Ps)" arbitrary: Ps streams heap results skipped s rule: less_induct)
  case less
  note unf = merge_loop.simps [of T kv c t cursor skip limit streams heap results skipped s]
  show ?case
  proof (cases "heap = []")
    case True
    with less.prems heap_ok_empty [of Ps] unf show ?thesis by (simp add: wp_def heap_pop_def)
  next
    case False
    obtain sk i where min: "Min (set heap) = (sk, i)" by (metis prod.collapse)
    have mem: "(sk, i) \<in> set heap" using Min_in [of "set heap"] False min by simp
    obtain b R where i: "i < length Ps" "Ps ! i = (sk, b) # R"
      and M: "merged Ps = (sk, b) # merged (Ps[i := R])" and sorted': "sorted_streams (Ps[i := R])"
      by (rule merged_step [OF less.prems(4,5) False min])
    define heap1 where "heap1 = remove1 (sk, i) heap"
    have pop: "heap_pop heap = Some ((sk, i), heap1)" using False min by (simp add: heap_pop_def heap1_def Let_def)
    let ?st = "streams ! i"
    have st: "stream_ok ?st" "pending T (v t (sh_pk ?st)) ?st = (sk, b) # R" "peek ?st = Some (sk, b)"
      and len: "length streams = length Ps"
      using less.prems(3) i by (auto simp: streams_at_def head_def)
    have adv: "stream_ok (advance ?st)" "pending T (v t (sh_pk ?st)) (advance ?st) = R" "sh_pk (advance ?st) = sh_pk ?st"
      using st pending_advance [OF st(3), of T "v t (sh_pk ?st)"] by (auto simp: stream_ok_def advance_def)
    have "wp (ensure_buffered T kv t (advance ?st)) (kv_read invar view s (\<lambda>st'. stream_ok st' \<and> same_source (advance ?st) st' \<and>
        pending T (v t (sh_pk ?st)) st' = pending T (v t (sh_pk ?st)) (advance ?st) \<and>
        peek st' = (case pending T (v t (sh_pk ?st)) (advance ?st) of [] \<Rightarrow> None | x # _ \<Rightarrow> Some x))) s"
      by (rule ensure_buffered_spec [OF less.prems(1) adv(1) _ refl]) (use less.prems(2) adv(3) in simp)
    then obtain r s1 where run: "ensure_buffered T kv t (advance ?st) s = Some (r, s1)"
      and r: "kv_read invar view s (\<lambda>st'. stream_ok st' \<and> same_source (advance ?st) st' \<and>
        pending T (v t (sh_pk ?st)) st' = R \<and> peek st' = head R) r s1"
      unfolding adv(2) head_def by (auto simp: wp_iff)
    note step = unf [unfolded pop option.case prod.case st(3) run]
    show ?thesis
    proof (cases r)
      case (Inl e)
      with step r show ?thesis by (simp add: wp_def)
    next
      case (Inr st1)
      with r less.prems(2) have s1: "invar s1" "view s1 = v" and st1: "stream_ok st1" "same_source (advance ?st) st1"
        "pending T (v t (sh_pk ?st)) st1 = R" "peek st1 = head R" by auto
      have pk1: "sh_pk st1 = sh_pk ?st" using st1(2) adv(3) by (simp add: same_source_def)
      define streams1 where "streams1 = streams[i := st1]"
      define heap2 where "heap2 = heap_push st1 i heap1"
      have at1: "streams_at T v t streams1 (Ps[i := R])"
        using less.prems(3) st1 pk1 len i(1) by (auto simp: streams_at_def streams1_def nth_list_update)
      have ok2: "heap_ok heap2 (Ps[i := R])"
        unfolding heap2_def heap1_def by (rule heap_ok_step [OF less.prems(5) i mem st1(4)])
      have shorter: "length (merged (Ps[i := R])) < length (merged Ps)" unfolding M by simp
      note IH = less.hyps [OF shorter s1(1,2) at1 sorted' ok2]
      note step1 = step [unfolded Inr sum.case Let_def, folded streams1_def heap2_def]
      show ?thesis
      proof (cases "after_cursor cursor (sk, b)")
        case False
        then have le: "(case cursor of Some cp \<Rightarrow> sk \<le> cp | None \<Rightarrow> False)"
          by (auto simp: after_cursor_def split: option.splits)
        show ?thesis
          unfolding wp_def step1 if_P [OF le] M
          using IH [OF less.prems(6,7)] False s1(2) less.prems(2) by (auto simp: wp_def kv_read_def split: option.splits)
      next
        case after: True
        then have nle: "\<not> (case cursor of Some cp \<Rightarrow> sk \<le> cp | None \<Rightarrow> False)"
          by (auto simp: after_cursor_def split: option.splits)
        note step2 = step1 [unfolded if_not_P [OF nle]]
        show ?thesis
        proof (cases "skipped < skip")
          case True
          then have "drop (skip - skipped) (x # xs) = drop (skip - (skipped + 1)) xs" for x :: "string \<times> bytes" and xs
            by (simp add: Suc_diff_Suc drop_Cons')
          with True IH [OF less.prems(6), of "skipped + 1"] after s1(2) less.prems(2) M show ?thesis
            by (auto simp: wp_def step2 kv_read_def split: option.splits)
        next
          case noskip: False
          then have sk0: "skip - skipped = 0" using less.prems(7) by simp
          have take1: "take (Suc limit - length results) (filter (after_cursor cursor) (merged Ps)) =
              (sk, b) # take (limit - length results) (filter (after_cursor cursor) (merged (Ps[i := R])))"
            using after less.prems(6) by (simp add: M Suc_diff_le)
          show ?thesis
          proof (cases "decode c b")
            case (Inl e)
            with step2 noskip s1 less.prems(2) show ?thesis by (simp add: wp_def)
          next
            case rec: (Inr rcd)
            note step3 = step2 [unfolded if_not_P [OF noskip] rec sum.case]
            show ?thesis
            proof (cases "limit < length (results @ [(sk, rcd)])")
              case True
              then have "limit - length results = 0" by simp
              with True step3 s1 less.prems(2) rec show ?thesis unfolding sk0 drop_0 take1 by (simp add: wp_def)
            next
              case more: False
              have "wp (merge_loop T kv c t cursor skip limit streams1 heap2 (results @ [(sk, rcd)]) skipped)
                (kv_read invar view s1 (\<lambda>res. \<exists>page. res = (results @ [(sk, rcd)]) @ page \<and>
                  decoded_page c (take (Suc limit - length (results @ [(sk, rcd)]))
                    (drop (skip - skipped) (filter (after_cursor cursor) (merged (Ps[i := R]))))) page)) s1"
                by (rule IH) (use more less.prems(7) in auto)
              with more step3 s1(2) less.prems(2) rec show ?thesis
                unfolding sk0 drop_0 take1 by (auto simp: wp_def kv_read_def split: option.splits)
            qed
          qed
        qed
      qed
    qed
  qed
qed

end

lemma build_heap_spec:
  "distinct (build_heap k sts) \<and>
    set (build_heap k sts) = {(fst x, k + i) | i x. i < length sts \<and> peek (sts ! i) = Some x}"
proof (induction sts arbitrary: k)
  case (Cons st sts)
  have idx: "{(fst x, k + i) | i x. i < length (st # sts) \<and> peek ((st # sts) ! i) = Some x} =
      {(fst x, k) | x. peek st = Some x} \<union> {(fst x, Suc k + i) | i x. i < length sts \<and> peek (sts ! i) = Some x}"
    (is "?L = ?R")
  proof (intro set_eqI iffI)
    fix y assume "y \<in> ?L"
    then obtain i x where y: "y = (fst x, k + i)" "i < length (st # sts)" "peek ((st # sts) ! i) = Some x" by blast
    show "y \<in> ?R"
    proof (cases i)
      case 0
      then show ?thesis using y by (intro UnI1 CollectI exI [of _ x]) simp
    next
      case (Suc j)
      then show ?thesis using y by (intro UnI2 CollectI exI [of _ j] exI [of _ x]) simp
    qed
  next
    fix y assume "y \<in> ?R"
    then show "y \<in> ?L"
    proof
      assume "y \<in> {(fst x, k) | x. peek st = Some x}"
      then show ?thesis by force
    next
      assume "y \<in> {(fst x, Suc k + i) | i x. i < length sts \<and> peek (sts ! i) = Some x}"
      then obtain i x where "y = (fst x, k + Suc i)" "i < length sts" "peek (sts ! i) = Some x" by auto
      then show ?thesis by (intro CollectI exI [of _ "Suc i"] exI [of _ x]) simp
    qed
  qed
  from Cons.IH [of "Suc k"] show ?case
    unfolding idx by (auto simp: heap_push_def split: option.splits)
qed simp

lemma heap_ok_build:
  assumes "streams_at T v t primed Ps"
  shows "heap_ok (build_heap 0 primed) Ps"
proof -
  have pk: "peek (primed ! i) = Some x \<longleftrightarrow> Ps ! i \<noteq> [] \<and> x = hd (Ps ! i)" if "i < length Ps" for i x
    using assms that by (cases "Ps ! i") (auto simp: streams_at_def head_def)
  have len: "length primed = length Ps" using assms by (simp add: streams_at_def)
  have "{(fst x, 0 + i) | i x. i < length primed \<and> peek (primed ! i) = Some x} =
      {(fst (hd (Ps ! i)), i) | i. i < length Ps \<and> Ps ! i \<noteq> []}"
    unfolding len by (intro set_eqI) (simp only: mem_Collect_eq add_0, metis pk)
  then show ?thesis
    using build_heap_spec [of 0 primed] unfolding heap_ok_def by simp
qed

lemma pending_new_stream:
  "pending T m (new_stream pk p start f batch) = entries_where m (\<lambda>k. start \<le> k \<and>
     starts_with k p \<and> (case f of Some query \<Rightarrow> contains_str (tx_lower T k) query | None \<Rightarrow> True))"
  by (simp add: pending_def new_stream_def wanted_def)

lemma new_stream_pk [simp]: "sh_pk (new_stream pk p start f batch) = pk"
  by (simp add: new_stream_def)

context kv_store
begin

lemma prime_spec:
  assumes inv: "invar s" and ok: "\<forall>st \<in> set streams. stream_ok st"
  shows "wp (io_map (ensure_buffered T kv t) streams) (kv_read invar view s (\<lambda>primed.
    streams_at T (view s) t primed (map (\<lambda>st. pending T (view s t (sh_pk st)) st) streams))) s"
proof -
  let ?I = "\<lambda>done primed s'. invar s' \<and> view s' = view s \<and>
    streams_at T (view s) t primed (map (\<lambda>st. pending T (view s t (sh_pk st)) st) done)"
  have "wp (io_map (ensure_buffered T kv t) streams) (\<lambda>r s'. case r of
      Inl e \<Rightarrow> invar s' \<and> view s' = view s | Inr primed \<Rightarrow> ?I streams primed s') s"
  proof (rule wp_map [where I = ?I], goal_cases)
    case (2 "done" primed st rest s1)
    then have s1: "invar s1" "view s1 = view s" and st: "stream_ok st" using ok by auto
    have "wp (ensure_buffered T kv t st) (kv_read invar view s1 (\<lambda>st'. stream_ok st' \<and> same_source st st' \<and>
      pending T (view s t (sh_pk st)) st' = pending T (view s t (sh_pk st)) st \<and>
      peek st' = (case pending T (view s t (sh_pk st)) st of [] \<Rightarrow> None | x # _ \<Rightarrow> Some x))) s1"
      by (rule ensure_buffered_spec [OF s1(1) st _ refl]) (use s1 in simp)
    then show ?case
    proof (rule wp_mono, goal_cases)
      case (1 r s2)
      show ?case
      proof (cases r)
        case (Inr st')
        with 1 have st': "stream_ok st'" "sh_pk st' = sh_pk st"
          "pending T (view s t (sh_pk st)) st' = pending T (view s t (sh_pk st)) st"
          "peek st' = head (pending T (view s t (sh_pk st)) st)"
          by (auto simp: same_source_def head_def)
        have "streams_at T (view s) t (primed @ [st']) (map (\<lambda>st. pending T (view s t (sh_pk st)) st) (done @ [st]))"
          using st' \<open>?I done primed s1\<close> by (auto simp: streams_at_def nth_append less_Suc_eq)
        then show ?thesis using 1 Inr s1 by simp
      qed (use 1 s1 in simp)
    qed
  qed (use inv in \<open>simp add: streams_at_def\<close>)
  then show ?thesis by (rule wp_mono) (auto simp: kv_read_def split: sum.splits)
qed

lemma k_way_merge_spec:
  assumes inv: "invar s" and ok: "\<forall>st \<in> set streams. stream_ok st"
    and Ps: "Ps = map (\<lambda>st. pending T (view s t (sh_pk st)) st) streams" "sorted_streams Ps"
  shows "wp (k_way_merge T kv c t streams cursor skip limit) (kv_read invar view s (\<lambda>page.
    decoded_page c (take (Suc limit) (drop skip (filter (after_cursor cursor) (merged Ps)))) page)) s"
  unfolding k_way_merge_def
proof (rule wp_bindI [OF prime_spec [OF inv ok]], goal_cases)
  case (2 primed s1)
  then have s1: "invar s1" "view s1 = view s" and at: "streams_at T (view s) t primed Ps" unfolding Ps(1) by auto
  have "wp (merge_loop T kv c t cursor skip limit primed (build_heap 0 primed) [] 0) (kv_read invar view s1 (\<lambda>page.
      decoded_page c (take (Suc limit) (drop skip (filter (after_cursor cursor) (merged Ps)))) page)) s1"
    using merge_loop_spec [OF s1 at Ps(2) heap_ok_build [OF at], of "[]" limit 0 skip c cursor] by simp
  then show ?case by (rule wp_mono) (use s1 in \<open>auto simp: kv_read_def\<close>)
qed simp

end

section \<open>Listings\<close>

text \<open>
  The reference of a listing: the artifacts of the repository whose path satisfies \<open>P\<close>, over all
  shards, in the order of their paths.
\<close>

definition listing :: "kv_view \<Rightarrow> string \<Rightarrow> (string \<Rightarrow> bool) \<Rightarrow> (string \<times> bytes) list" where
  "listing v repo P = merged (map (\<lambda>shard. entries_where (v TABLE_ARTIFACTS (artifact_shard_pk repo shard)) P) [0..<NUM_SHARDS])"

definition past_cursor :: "string option \<Rightarrow> string \<Rightarrow> bool" where
  "past_cursor cursor k \<longleftrightarrow> (case cursor of Some cp \<Rightarrow> cp < k | None \<Rightarrow> True)"

definition query_matches :: "text_ops \<Rightarrow> string \<Rightarrow> string \<Rightarrow> bool" where
  "query_matches T query k \<longleftrightarrow> contains_str (tx_lower T k) (tx_lower T query)"

lemma after_cursor_eq: "after_cursor cursor = (\<lambda>x. past_cursor cursor (fst x))"
  by (rule ext) (auto simp: after_cursor_def past_cursor_def split: option.splits)

lemma filter_tagged:
  "filter (\<lambda>x. Q (fst (fst x))) (tagged Ps) = tagged (map (filter (\<lambda>x. Q (fst x))) Ps)"
  by (simp add: tagged_def filter_concat filter_map comp_def case_prod_unfold)
    (rule arg_cong [where f = concat], simp)

lemma filter_merged: "filter (\<lambda>x. Q (fst x)) (merged Ps) = merged (map (filter (\<lambda>x. Q (fst x))) Ps)"
proof -
  have "filter (\<lambda>x. Q (fst x)) (merged Ps) =
      map (\<lambda>((sk, i), b). (sk, b)) (filter (\<lambda>x. Q (fst (fst x))) (sort_key fst (tagged Ps)))"
    by (simp add: merged_def filter_map comp_def case_prod_unfold)
  also have "\<dots> = merged (map (filter (\<lambda>x. Q (fst x))) Ps)"
    by (simp add: filter_sort filter_tagged merged_def)
  finally show ?thesis .
qed

lemma filter_listing:
  assumes "\<And>shard. finite (dom (v TABLE_ARTIFACTS (artifact_shard_pk repo shard)))"
  shows "filter (\<lambda>x. Q (fst x)) (listing v repo P) = listing v repo (\<lambda>k. P k \<and> Q k)"
  unfolding listing_def filter_merged by (simp add: comp_def filter_entries_where [OF assms])

lemma listing_cong: "(\<And>k. P k = Q k) \<Longrightarrow> listing v repo P = listing v repo Q"
  by (metis ext)

lemma sorted_listing_streams:
  "sorted_streams (map (\<lambda>shard. entries_where (f shard) P) shards)"
  by (auto simp: sorted_streams_def)

lemma set_merged: "(k, b) \<in> set (merged Ps) \<longleftrightarrow> (\<exists>i < length Ps. (k, b) \<in> set (Ps ! i))"
proof -
  have "(k, b) \<in> set (merged Ps) \<longleftrightarrow> (\<exists>i. ((k, i), b) \<in> set (tagged Ps))"
    unfolding merged_def set_map set_sort by force
  then show ?thesis by (auto simp: set_tagged)
qed

lemma set_listing:
  assumes "\<And>shard. finite (dom (v TABLE_ARTIFACTS (artifact_shard_pk repo shard)))"
  shows "(k, b) \<in> set (listing v repo P) \<longleftrightarrow>
    (\<exists>shard. shard < NUM_SHARDS \<and> P k \<and> (\<exists>n. v TABLE_ARTIFACTS (artifact_shard_pk repo shard) k = Some (b, n)))"
  by (auto simp: listing_def set_merged set_entries_where [OF assms])

text \<open>No path is listed twice when every artifact lies in the shard of its path.\<close>

definition well_sharded :: "hasher \<Rightarrow> kv_view \<Rightarrow> string \<Rightarrow> bool" where
  "well_sharded H v repo \<longleftrightarrow> (\<forall>shard < NUM_SHARDS. \<forall>k.
     v TABLE_ARTIFACTS (artifact_shard_pk repo shard) k \<noteq> None \<longrightarrow> shard = shard_of H k)"

lemma sorted_merged:
  assumes "sorted_streams Ps"
    and uniq: "\<And>i j k. i < length Ps \<Longrightarrow> j < length Ps \<Longrightarrow> k \<in> fst ` set (Ps ! i) \<Longrightarrow> k \<in> fst ` set (Ps ! j) \<Longrightarrow> i = j"
  shows "sorted_wrt (<) (map fst (merged Ps))"
proof -
  let ?S = "sort_key fst (tagged Ps)"
  have mono: "sorted_wrt (\<lambda>x y. fst x < fst y) ?S"
    using sorted_tagged [OF assms(1)] by (simp add: sorted_wrt_map)
  have "sorted_wrt (\<lambda>x y. fst (fst x) < fst (fst y)) ?S"
  proof (rule sorted_wrt_mono_rel [OF _ mono])
    fix x y assume xy: "x \<in> set ?S" "y \<in> set ?S" "fst x < fst y"
    obtain k i b where x: "x = ((k, i), b)" by (metis prod.collapse)
    obtain k' j b' where y: "y = ((k', j), b')" by (metis prod.collapse)
    have "i < length Ps" "k \<in> fst ` set (Ps ! i)" "j < length Ps" "k' \<in> fst ` set (Ps ! j)"
      using xy(1,2) by (auto simp: x y set_tagged image_iff intro: bexI [rotated])
    then have "k = k' \<Longrightarrow> i = j" using uniq by blast
    then show "fst (fst x) < fst (fst y)" using xy(3) by (auto simp: x y less_prod_def intro: le_neq_trans)
  qed
  then show ?thesis by (simp add: merged_def sorted_wrt_map comp_def case_prod_unfold)
qed

lemma sorted_listing:
  assumes "well_sharded H v repo" and fin: "\<And>shard. finite (dom (v TABLE_ARTIFACTS (artifact_shard_pk repo shard)))"
  shows "sorted_wrt (<) (map fst (listing v repo P))"
  unfolding listing_def
proof (rule sorted_merged [OF sorted_listing_streams], goal_cases)
  case (1 i j k)
  then have ij: "i < NUM_SHARDS" "j < NUM_SHARDS" by simp_all
  have "v TABLE_ARTIFACTS (artifact_shard_pk repo i) k \<noteq> None" "v TABLE_ARTIFACTS (artifact_shard_pk repo j) k \<noteq> None"
    using 1(3,4) ij by (auto simp: set_entries_where [OF fin])
  then have "i = shard_of H k" "j = shard_of H k" using assms(1) ij unfolding well_sharded_def by blast+
  then show ?case by simp
qed

lemma drop_sorted:
  fixes xs :: "('a :: linorder \<times> 'b) list"
  assumes "sorted_wrt (<) (map fst xs)" "0 < n" "n \<le> length xs"
  shows "filter (\<lambda>x. fst (xs ! (n - 1)) < fst x) xs = drop n xs"
proof -
  let ?Q = "\<lambda>x. fst (xs ! (n - 1)) < fst x"
  have lt: "fst (xs ! i) < fst (xs ! j)" if "i < j" "j < length xs" for i j
    using assms(1) that by (simp add: sorted_wrt_iff_nth_less)
  have "filter ?Q (take n xs) = []"
  proof (unfold filter_empty_conv, intro ballI)
    fix x assume "x \<in> set (take n xs)"
    then obtain i where "i < n" "x = xs ! i" using assms(3) by (auto simp: in_set_conv_nth)
    then show "\<not> ?Q x" using lt [of i "n - 1"] assms(2,3) by (cases "i = n - 1") (auto simp: not_less less_imp_le)
  qed
  moreover have "filter ?Q (drop n xs) = drop n xs"
  proof (unfold filter_id_conv, intro ballI)
    fix x assume "x \<in> set (drop n xs)"
    then obtain i where "i < length xs - n" "x = xs ! (n + i)" by (auto simp: in_set_conv_nth)
    then show "?Q x" using lt [of "n - 1" "n + i"] assms(2) by simp
  qed
  moreover have "filter ?Q xs = filter ?Q (take n xs) @ filter ?Q (drop n xs)"
    by (metis append_take_drop_id filter_append)
  ultimately show ?thesis by simp
qed

section \<open>Pages\<close>

text \<open>
  What a page of the entries \<open>A\<close> is: the first \<open>limit\<close> of them, decoded, and a cursor exactly when
  some are left.
\<close>

definition is_page ::
    "text_ops \<Rightarrow> 'r codec \<Rightarrow> (string \<times> bytes) list \<Rightarrow> nat \<Rightarrow> (string \<times> 'r) paginated_result \<Rightarrow> bool" where
  "is_page T c A limit pr \<longleftrightarrow> decoded_page c (take limit A) (pr_items pr) \<and>
     pr_next_cursor pr = (if length A \<le> limit then None else Some (tx_b64_encode T (fst (A ! (limit - 1)))))"

lemma decoded_page_length: "decoded_page c xs page \<Longrightarrow> length page = length xs"
  by (auto simp: decoded_page_def dest: list_all2_lengthD)

lemma decoded_page_nth: "decoded_page c xs page \<Longrightarrow> i < length xs \<Longrightarrow> fst (page ! i) = fst (xs ! i)"
  unfolding decoded_page_def by (drule (1) list_all2_nthD) (auto split: prod.splits)

lemma decoded_page_take: "decoded_page c xs page \<Longrightarrow> decoded_page c (take n xs) (take n page)"
  by (simp add: decoded_page_def list_all2_takeI)

lemma paginate_results_page:
  assumes "decoded_page c (take (Suc limit) A) page" "0 < limit"
  shows "is_page T c A limit (paginate_results T page limit)"
proof -
  have len: "length page = min (length A) (Suc limit)" using decoded_page_length [OF assms(1)] by simp
  have "decoded_page c (take limit A) (take limit page)"
    using decoded_page_take [OF assms(1), of limit] by (simp add: min_def)
  moreover have "fst (page ! (limit - 1)) = fst (A ! (limit - 1))" if "limit < length A"
    using decoded_page_nth [OF assms(1), of "limit - 1"] that assms(2) by simp
  ultimately show ?thesis using len assms(2) by (auto simp: is_page_def paginate_results_def)
qed

context kv_store
begin

lemma listing_page:
  assumes inv: "invar s" and ok: "\<forall>st \<in> set streams. stream_ok st" and limit: "0 < limit"
    and Ps: "map (\<lambda>st. pending T (view s TABLE_ARTIFACTS (sh_pk st)) st) streams =
      map (\<lambda>shard. entries_where (view s TABLE_ARTIFACTS (artifact_shard_pk repo shard)) Q) [0..<NUM_SHARDS]"
    and P: "\<And>k. (Q k \<and> past_cursor cursor k) = P k"
  shows "wp (io_bind (k_way_merge T kv c TABLE_ARTIFACTS streams cursor skip limit)
      (\<lambda>items. io_return (paginate_results T items limit)))
    (kv_read invar view s (is_page T c (drop skip (listing (view s) repo P)) limit)) s"
proof -
  have "filter (after_cursor cursor) (listing (view s) repo Q) = listing (view s) repo P"
    unfolding after_cursor_eq using filter_listing [of "view s" repo "past_cursor cursor" Q] view_finite [OF inv] P
    by (simp cong: listing_cong)
  then have A: "filter (after_cursor cursor) (merged (map (\<lambda>shard.
      entries_where (view s TABLE_ARTIFACTS (artifact_shard_pk repo shard)) Q) [0..<NUM_SHARDS])) = listing (view s) repo P"
    by (simp add: listing_def)
  note merge = k_way_merge_spec [OF inv ok Ps [symmetric] sorted_listing_streams, of c cursor skip limit, unfolded A]
  show ?thesis
    by (rule wp_bindI [OF merge]) (use paginate_results_page [OF _ limit] in \<open>auto simp: kv_read_def\<close>)
qed

lemma list_artifacts_spec:
  assumes inv: "invar s" and repo: "pk_ok repo" and limit: "0 < pg_limit pg"
    and cursor: "cursor = decode_cursor T (pg_cursor pg)"
  shows "wp (list_artifacts T kv C repo prefix pg) (kv_read invar view s (
    is_page T (cs_artifact C) (drop (if pg_cursor pg \<noteq> None then 0 else pg_offset pg)
      (listing (view s) repo (\<lambda>k. starts_with k prefix \<and> past_cursor cursor k))) (pg_limit pg))) s"
proof -
  have cur: "(cursor \<noteq> None) = (pg_cursor pg \<noteq> None)" by (simp add: cursor decode_cursor_def)
  let ?start = "case cursor of Some cp \<Rightarrow> if prefix < cp then cp else prefix | None \<Rightarrow> prefix"
  show ?thesis
    unfolding list_artifacts_def Let_def cursor [symmetric] cur
  proof (rule listing_page [OF inv _ limit, where Q = "\<lambda>k. ?start \<le> k \<and> starts_with k prefix"])
    show "\<forall>st \<in> set (list_streams repo prefix cursor (per_shard_batch (pg_limit pg))). stream_ok st"
      using repo by (auto simp: list_streams_def stream_ok_def new_stream_def per_shard_batch_def split: option.splits)
    show "map (\<lambda>st. pending T (view s TABLE_ARTIFACTS (sh_pk st)) st) (list_streams repo prefix cursor (per_shard_batch (pg_limit pg))) =
      map (\<lambda>shard. entries_where (view s TABLE_ARTIFACTS (artifact_shard_pk repo shard))
        (\<lambda>k. ?start \<le> k \<and> starts_with k prefix)) [0..<NUM_SHARDS]"
      by (simp add: list_streams_def comp_def pending_new_stream)
  qed (auto simp: past_cursor_def starts_with_iff split: option.splits)
qed

lemma search_artifacts_spec:
  assumes inv: "invar s" and repo: "pk_ok repo" and limit: "0 < pg_limit pg"
    and cursor: "cursor = decode_cursor T (pg_cursor pg)"
  shows "wp (search_artifacts T kv C repo query pg) (kv_read invar view s (
    is_page T (cs_artifact C) (drop (if pg_cursor pg \<noteq> None then 0 else pg_offset pg)
      (listing (view s) repo (\<lambda>k. query_matches T query k \<and> past_cursor cursor k))) (pg_limit pg))) s"
proof -
  have cur: "(cursor \<noteq> None) = (pg_cursor pg \<noteq> None)" by (simp add: cursor decode_cursor_def)
  let ?Q = "\<lambda>k. (case cursor of Some cp \<Rightarrow> cp | None \<Rightarrow> []) \<le> k \<and> query_matches T query k"
  show ?thesis
    unfolding search_artifacts_def Let_def cursor [symmetric] cur
  proof (rule listing_page [OF inv _ limit, where Q = ?Q])
    show "\<forall>st \<in> set (search_streams repo (tx_lower T query) cursor (per_shard_batch (pg_limit pg))). stream_ok st"
      using repo by (auto simp: search_streams_def stream_ok_def new_stream_def per_shard_batch_def split: option.splits)
    show "map (\<lambda>st. pending T (view s TABLE_ARTIFACTS (sh_pk st)) st)
        (search_streams repo (tx_lower T query) cursor (per_shard_batch (pg_limit pg))) =
      map (\<lambda>shard. entries_where (view s TABLE_ARTIFACTS (artifact_shard_pk repo shard)) ?Q) [0..<NUM_SHARDS]"
      by (simp add: search_streams_def comp_def pending_new_stream query_matches_def)
  qed (auto simp: past_cursor_def split: option.splits)
qed

end

text \<open>
  The cursor of a page resumes the listing where the page ended: nothing is skipped and nothing is
  listed twice.
\<close>

lemma next_page:
  assumes page: "is_page T c (drop skip (listing v repo (\<lambda>k. P k \<and> past_cursor cursor k))) limit pr"
    and limit: "0 < limit" and nc: "pr_next_cursor pr = Some nc"
    and sharded: "well_sharded H v repo" and fin: "\<And>shard. finite (dom (v TABLE_ARTIFACTS (artifact_shard_pk repo shard)))"
    and codec: "\<And>shard k. v TABLE_ARTIFACTS (artifact_shard_pk repo shard) k \<noteq> None \<Longrightarrow>
      tx_b64_decode T (tx_b64_encode T k) = Some k \<and> tx_utf8_lossy T k = k"
  shows "listing v repo (\<lambda>k. P k \<and> past_cursor (decode_cursor T (Some nc)) k) =
    drop (skip + limit) (listing v repo (\<lambda>k. P k \<and> past_cursor cursor k))"
proof -
  let ?A = "listing v repo (\<lambda>k. P k \<and> past_cursor cursor k)"
  define key where "key = fst (?A ! (skip + limit - 1))"
  from page nc have len: "skip + limit < length ?A" and enc: "nc = tx_b64_encode T key"
    using limit by (auto simp: is_page_def key_def add_diff_assoc split: if_splits)
  have "?A ! (skip + limit - 1) \<in> set ?A" using len by simp
  then obtain b where "(key, b) \<in> set ?A" unfolding key_def by (metis prod.collapse)
  then have "\<exists>shard. shard < NUM_SHARDS \<and> (P key \<and> past_cursor cursor key) \<and>
      (\<exists>n. v TABLE_ARTIFACTS (artifact_shard_pk repo shard) key = Some (b, n))"
    by (rule iffD1 [OF set_listing [of v repo, OF fin]])
  then obtain shard where k: "P key \<and> past_cursor cursor key" "v TABLE_ARTIFACTS (artifact_shard_pk repo shard) key \<noteq> None"
    by auto
  have dec: "decode_cursor T (Some nc) = Some key" using codec [OF k(2)] by (simp add: decode_cursor_def enc)
  have "listing v repo (\<lambda>k. P k \<and> past_cursor (Some key) k) = listing v repo (\<lambda>k. (P k \<and> past_cursor cursor k) \<and> key < k)"
    using k(1) by (intro listing_cong) (auto simp: past_cursor_def split: option.splits)
  also have "\<dots> = filter (\<lambda>x. key < fst x) ?A" by (rule filter_listing [of v repo, OF fin, symmetric])
  also have "\<dots> = drop (skip + limit) ?A"
    unfolding key_def by (rule drop_sorted [OF sorted_listing [OF sharded, OF fin]]) (use limit len in auto)
  finally show ?thesis unfolding dec .
qed

end
