(* ===== verification/Kv_Wrappers.thy ===== *)
theory Kv_Wrappers
  imports Kv_Interface
begin

text \<open>
  The wrappers the server puts around a backend: encryption of values
  (\<open>server/src/server/store/encrypted.rs\<close>) and metrics (\<open>instrumented.rs\<close>). Both are
  backends again, over any backend that keeps the \<open>KvStore\<close> contract.

  AES-GCM is a third-party crate: a \<open>cipher\<close> is its encryption and decryption under the derived key
  and the supply of random nonces, of which a number counts those drawn. \<open>cipher_ok\<close> states that
  decryption inverts encryption and that nonces have 12 bytes. The metrics registry is the number of
  operations in flight and the totals per operation and outcome; timings are left out.
\<close>

subsection \<open>Encryption\<close>

record cipher =
  ci_encrypt :: "bytes \<Rightarrow> bytes \<Rightarrow> bytes option"
  ci_decrypt :: "bytes \<Rightarrow> bytes \<Rightarrow> bytes option"
  ci_nonce :: "nat \<Rightarrow> bytes"

definition cipher_ok :: "cipher \<Rightarrow> bool" where
  "cipher_ok E \<longleftrightarrow> (\<forall>n p c. ci_encrypt E n p = Some c \<longrightarrow> ci_decrypt E n c = Some p) \<and>
     (\<forall>i. length (ci_nonce E i) = 12)"

type_synonym 's enc_state = "nat \<times> 's"

definition encrypt :: "cipher \<Rightarrow> bytes \<Rightarrow> ('s enc_state, bytes) io" where
  "encrypt E plaintext = (\<lambda>(n, s). case ci_encrypt E (ci_nonce E n) plaintext of
     Some ciphertext \<Rightarrow> Some (Inr (ci_nonce E n @ ciphertext), (Suc n, s))
   | None \<Rightarrow> Some (Inl (Internal ''KV encryption failed''), (Suc n, s)))"

definition decrypt :: "cipher \<Rightarrow> bytes \<Rightarrow> bytes result" where
  "decrypt E blob =
    (if length blob < 12 then Inl (Internal ''KV value too short to contain nonce'')
     else case ci_decrypt E (take 12 blob) (drop 12 blob) of
         Some plaintext \<Rightarrow> Inr plaintext
       | None \<Rightarrow> Inl (Internal ''KV decryption failed (wrong server_secret?)''))"

definition inner_op :: "('s, 'a) io \<Rightarrow> ('s enc_state, 'a) io" where
  "inner_op m = (\<lambda>(n, s). case m s of None \<Rightarrow> None | Some (r, s') \<Rightarrow> Some (r, (n, s')))"

definition decrypt_opt :: "cipher \<Rightarrow> bytes option \<Rightarrow> ('s enc_state, bytes option) io" where
  "decrypt_opt E v = (case v of
     Some blob \<Rightarrow> io_bind (io_of_result (decrypt E blob)) (\<lambda>p. io_return (Some p))
   | None \<Rightarrow> io_return None)"

fun decrypt_items :: "cipher \<Rightarrow> (string \<times> bytes) list \<Rightarrow> (string \<times> bytes) list result" where
  "decrypt_items E [] = Inr []"
| "decrypt_items E ((sk, blob) # items) = (case decrypt E blob of
     Inl e \<Rightarrow> Inl e
   | Inr p \<Rightarrow> (case decrypt_items E items of Inl e \<Rightarrow> Inl e | Inr ps \<Rightarrow> Inr ((sk, p) # ps)))"

definition decrypt_scan :: "cipher \<Rightarrow> ('s, scan_result) io \<Rightarrow> ('s enc_state, scan_result) io" where
  "decrypt_scan E scan = io_bind (inner_op scan) (\<lambda>result.
     io_bind (io_of_result (decrypt_items E (sr_items result)))
       (\<lambda>items. io_return (result\<lparr>sr_items := items\<rparr>)))"

definition enc_get_versioned :: "cipher \<Rightarrow> 's kv \<Rightarrow> string \<Rightarrow> string \<Rightarrow> string \<Rightarrow> ('s enc_state, (bytes \<times> u64) option) io" where
  "enc_get_versioned E inner table pk sk =
    io_bind (inner_op (kv_get_versioned inner table pk sk)) (\<lambda>v. case v of
      Some (blob, version) \<Rightarrow> io_bind (io_of_result (decrypt E blob)) (\<lambda>p. io_return (Some (p, version)))
    | None \<Rightarrow> io_return None)"

definition enc_put :: "cipher \<Rightarrow> 's kv \<Rightarrow> string \<Rightarrow> string \<Rightarrow> string \<Rightarrow> bytes \<Rightarrow> ('s enc_state, unit) io" where
  "enc_put E inner table pk sk value =
    io_bind (encrypt E value) (\<lambda>encrypted. inner_op (kv_put inner table pk sk encrypted))"

definition enc_put_if_version ::
    "cipher \<Rightarrow> 's kv \<Rightarrow> string \<Rightarrow> string \<Rightarrow> string \<Rightarrow> bytes \<Rightarrow> u64 option \<Rightarrow> ('s enc_state, bool) io" where
  "enc_put_if_version E inner table pk sk value expected_version =
    io_bind (encrypt E value) (\<lambda>encrypted. inner_op (kv_put_if_version inner table pk sk encrypted expected_version))"

definition enc_put_batch ::
    "cipher \<Rightarrow> 's kv \<Rightarrow> string \<Rightarrow> (string \<times> string \<times> bytes) list \<Rightarrow> ('s enc_state, unit) io" where
  "enc_put_batch E inner table entries =
    io_bind (io_map (\<lambda>(pk, sk, v). io_bind (encrypt E v) (\<lambda>enc. io_return (pk, sk, enc))) entries)
      (\<lambda>encrypted. inner_op (kv_put_batch inner table encrypted))"

definition encrypted_kv :: "cipher \<Rightarrow> 's kv \<Rightarrow> 's enc_state kv" where
  "encrypted_kv E inner = \<lparr>
     kv_get = (\<lambda>table pk sk. io_bind (inner_op (kv_get inner table pk sk)) (decrypt_opt E)),
     kv_get_versioned = enc_get_versioned E inner,
     kv_put = enc_put E inner,
     kv_put_if_version = enc_put_if_version E inner,
     kv_put_if_absent = default_put_if_absent (enc_put_if_version E inner),
     kv_delete = (\<lambda>table pk sk. inner_op (kv_delete inner table pk sk)),
     kv_delete_if_version = (\<lambda>table pk sk v. inner_op (kv_delete_if_version inner table pk sk v)),
     kv_delete_returning = (\<lambda>table pk sk. io_bind (inner_op (kv_delete_returning inner table pk sk)) (decrypt_opt E)),
     kv_scan_prefix = (\<lambda>table pk p limit. decrypt_scan E (kv_scan_prefix inner table pk p limit)),
     kv_scan_range = (\<lambda>table pk lo hi limit. decrypt_scan E (kv_scan_range inner table pk lo hi limit)),
     kv_get_consistent = (\<lambda>table pk sk. io_bind (inner_op (kv_get_consistent inner table pk sk)) (decrypt_opt E)),
     kv_delete_batch = (\<lambda>table keys. inner_op (kv_delete_batch inner table keys)),
     kv_put_batch = enc_put_batch E inner,
     kv_is_single_node = kv_is_single_node inner,
     kv_compact = inner_op (kv_compact inner)\<rparr>"

text \<open>The canary that tells a wrong key at startup.\<close>

abbreviation CANARY_PLAINTEXT :: string where "CANARY_PLAINTEXT \<equiv> ''depot-encryption-canary-ok''"

abbreviation EM_DASH :: string where "EM_DASH \<equiv> [CHR 0xE2, CHR 0x80, CHR 0x94]"

definition write_canary :: "cipher \<Rightarrow> 's kv \<Rightarrow> ('s enc_state, unit) io" where
  "write_canary E inner =
    kv_put (encrypted_kv E inner) ''meta'' ''SINGLE_PK'' ''__encryption_canary'' CANARY_PLAINTEXT"

definition verify_canary :: "cipher \<Rightarrow> 's kv \<Rightarrow> ('s enc_state, bool) io" where
  "verify_canary E inner = (\<lambda>s.
    case kv_get (encrypted_kv E inner) ''meta'' ''SINGLE_PK'' ''__encryption_canary'' s of
      None \<Rightarrow> None
    | Some (Inr (Some plaintext), s') \<Rightarrow>
        if plaintext = CANARY_PLAINTEXT then Some (Inr True, s')
        else Some (Inl (Internal (''encryption canary mismatch '' @ EM_DASH @ '' server_secret may be wrong'')), s')
    | Some (Inr None, s') \<Rightarrow> Some (Inr False, s')
    | Some (Inl e, s') \<Rightarrow> Some (Inl (Internal (''cannot decrypt KV store '' @ EM_DASH @
        '' server_secret does not match the key used to encrypt existing data ('' @ error_to_string e @ '')'')), s'))"

subsection \<open>Metrics\<close>

record metrics =
  mt_in_flight :: int
  mt_total :: "string \<Rightarrow> bool \<Rightarrow> nat"

type_synonym 's metered = "'s \<times> metrics"

definition start_kv :: "metrics \<Rightarrow> metrics" where
  "start_kv m = m\<lparr>mt_in_flight := mt_in_flight m + 1\<rparr>"

definition record_kv :: "string \<Rightarrow> bool \<Rightarrow> metrics \<Rightarrow> metrics" where
  "record_kv op ok m = m\<lparr>mt_in_flight := mt_in_flight m - 1,
     mt_total := (mt_total m)(op := (mt_total m op)(ok := mt_total m op ok + 1))\<rparr>"

definition metered :: "string \<Rightarrow> ('s, 'a) io \<Rightarrow> ('s metered, 'a) io" where
  "metered op inner = (\<lambda>(s, m). let m1 = start_kv m in case inner s of
     None \<Rightarrow> None
   | Some (result, s') \<Rightarrow> Some (result, (s', record_kv op (\<not> isl result) m1)))"

definition instrumented_put_if_version ::
    "'s kv \<Rightarrow> string \<Rightarrow> string \<Rightarrow> string \<Rightarrow> bytes \<Rightarrow> u64 option \<Rightarrow> ('s metered, bool) io" where
  "instrumented_put_if_version inner table pk sk value expected_version =
    metered ''put_if_version'' (kv_put_if_version inner table pk sk value expected_version)"

definition instrumented_kv :: "'s kv \<Rightarrow> 's metered kv" where
  "instrumented_kv inner = \<lparr>
     kv_get = (\<lambda>table pk sk. metered ''get'' (kv_get inner table pk sk)),
     kv_get_versioned = (\<lambda>table pk sk. metered ''get_versioned'' (kv_get_versioned inner table pk sk)),
     kv_put = (\<lambda>table pk sk v. metered ''put'' (kv_put inner table pk sk v)),
     kv_put_if_version = instrumented_put_if_version inner,
     kv_put_if_absent = default_put_if_absent (instrumented_put_if_version inner),
     kv_delete = (\<lambda>table pk sk. metered ''delete'' (kv_delete inner table pk sk)),
     kv_delete_if_version = (\<lambda>table pk sk v. metered ''delete_if_version'' (kv_delete_if_version inner table pk sk v)),
     kv_delete_returning = (\<lambda>table pk sk. metered ''delete_returning'' (kv_delete_returning inner table pk sk)),
     kv_scan_prefix = (\<lambda>table pk p limit. metered ''scan_prefix'' (kv_scan_prefix inner table pk p limit)),
     kv_scan_range = (\<lambda>table pk lo hi limit. metered ''scan_range'' (kv_scan_range inner table pk lo hi limit)),
     kv_get_consistent = (\<lambda>table pk sk. metered ''get_consistent'' (kv_get_consistent inner table pk sk)),
     kv_delete_batch = (\<lambda>table keys. metered ''delete_batch'' (kv_delete_batch inner table keys)),
     kv_put_batch = (\<lambda>table entries. metered ''put_batch'' (kv_put_batch inner table entries)),
     kv_is_single_node = kv_is_single_node inner,
     kv_compact = metered ''compact'' (kv_compact inner)\<rparr>"

section \<open>Metrics keep the contract\<close>

lemma wp_metered [wp_simps]:
  "wp (metered op m) Q x \<longleftrightarrow> wp m (\<lambda>r s'. Q r (s', record_kv op (\<not> isl r) (start_kv (snd x)))) (fst x)"
  by (cases x) (auto simp: wp_def metered_def Let_def split: option.splits)

lemma kv_read_fst [simp]:
  "kv_read (\<lambda>x. invar (fst x)) (\<lambda>x. view (fst x)) x P r (s', m) \<longleftrightarrow> kv_read invar view (fst x) P r s'"
  by (simp add: kv_read_def)

lemma kv_write_fst [simp]:
  "kv_write (\<lambda>x. invar (fst x)) (\<lambda>x. view (fst x)) x K P r (s', m) \<longleftrightarrow> kv_write invar view (fst x) K P r s'"
  by (cases r) simp_all

text \<open>No operation leaves the gauge changed, and each counts once.\<close>

lemma metered_counts:
  "metered op m x = Some (r, x') \<Longrightarrow> mt_in_flight (snd x') = mt_in_flight (snd x) \<and>
    mt_total (snd x') op (\<not> isl r) = mt_total (snd x) op (\<not> isl r) + 1"
  by (cases x) (auto simp: metered_def Let_def record_kv_def start_kv_def split: option.splits)

context kv_store
begin

lemma put_if_version_None_spec:
  assumes "invar s" "pk_ok pk" "sk_ok sk"
  shows "wp (kv_put_if_version kv t pk sk b None) (kv_write invar view s {(t, pk, sk)} (\<lambda>ok v.
    ok = (view s t pk sk = None) \<and> v = (if ok then view_put (view s) t pk sk b else view s))) s"
  by (rule wp_mono [OF put_if_version_spec [OF assms, of t b None]]) (auto simp: kv_write_def split: sum.splits)

lemmas kv_laws = get_spec get_versioned_spec put_spec put_if_version_spec put_if_version_None_spec delete_spec
  delete_if_version_spec delete_returning_spec scan_prefix_spec scan_range_spec scan_prefix_full
  scan_range_full get_consistent_spec delete_batch_spec put_batch_spec compact_spec

lemma instrumented_kv_lawful:
  "kv_store (instrumented_kv kv) (\<lambda>x. invar (fst x)) (\<lambda>x. view (fst x))"
proof (rule kv_store.intro, unfold instrumented_kv_def kv.simps instrumented_put_if_version_def
      default_put_if_absent_def wp_metered kv_read_fst kv_write_fst)
qed (rule view_ok view_finite kv_laws; assumption)+

end

section \<open>Encryption keeps the contract\<close>

text \<open>What a reader with the key sees; a value that does not decrypt shows as empty, and reading it fails.\<close>

definition plain :: "cipher \<Rightarrow> bytes \<Rightarrow> bytes" where
  "plain E b = (case decrypt E b of Inr p \<Rightarrow> p | Inl _ \<Rightarrow> [])"

definition plain_cell :: "cipher \<Rightarrow> (bytes \<times> u64) option \<Rightarrow> (bytes \<times> u64) option" where
  "plain_cell E = map_option (\<lambda>(b, n). (plain E b, n))"

definition dec_view :: "cipher \<Rightarrow> kv_view \<Rightarrow> kv_view" where
  "dec_view E v = (\<lambda>t pk sk. plain_cell E (v t pk sk))"

lemma plain_cell_simps [simp]:
  "plain_cell E None = None" "plain_cell E (Some (b, n)) = Some (plain E b, n)"
  "plain_cell E x = None \<longleftrightarrow> x = None"
  "map_option snd (plain_cell E x) = map_option snd x"
  "next_version (plain_cell E x) = next_version x"
  by (cases x; auto simp: plain_cell_def next_version_def)+

lemma dec_view_upd: "dec_view E (view_upd v t pk sk x) = view_upd (dec_view E v) t pk sk (plain_cell E x)"
  by (intro ext) (simp add: dec_view_def)

lemma dec_view_apply: "dec_view E v t pk sk = plain_cell E (v t pk sk)"
  by (simp add: dec_view_def)

lemma dec_view_frame: "view_frame K v v' \<Longrightarrow> view_frame K (dec_view E v) (dec_view E v')"
  by (simp add: view_frame_def dec_view_def)

lemma dec_view_del_all: "dec_view E (view_del_all v t ks) = view_del_all (dec_view E v) t ks"
  by (induction ks arbitrary: v) (auto simp: dec_view_upd simp del: view_upd_apply)

lemma dec_view_del_hits: "view_del_hits (dec_view E v) t ks = view_del_hits v t ks"
proof (induction ks arbitrary: v)
  case (Cons k ks)
  obtain pk sk where k: "k = (pk, sk)" by (cases k)
  have "view_del (dec_view E v) t pk sk = dec_view E (view_del v t pk sk)" by (simp only: dec_view_upd plain_cell_simps)
  then show ?case
    using Cons.IH [of "view_del v t pk sk"] by (simp only: k view_del_hits.simps dec_view_apply [of E v t pk sk] plain_cell_simps)
qed simp

lemma dom_dec_view: "dom (dec_view E v t pk) = dom (v t pk)"
  by (auto simp: dec_view_def dom_def)

lemma entries_dec_view:
  assumes "finite (dom (v t pk))"
  shows "entries_where (dec_view E v t pk) P = map (\<lambda>(k, b). (k, plain E b)) (entries_where (v t pk) P)"
proof -
  have "(k, fst (the (dec_view E v t pk k))) = (k, plain E (fst (the (v t pk k))))" if "k \<in> dom (v t pk)" for k
    using that by (auto simp: dec_view_apply)
  then show ?thesis using assms by (auto simp: entries_where_def dom_dec_view)
qed

lemma decrypt_items_plain: "decrypt_items E items = Inr ps \<Longrightarrow> ps = map (\<lambda>(k, b). (k, plain E b)) items"
  by (induction items arbitrary: ps) (auto simp: plain_def split: sum.splits)

lemma decrypt_encrypt:
  "cipher_ok E \<Longrightarrow> ci_encrypt E (ci_nonce E n) p = Some c \<Longrightarrow> plain E (ci_nonce E n @ c) = p"
  by (simp add: cipher_ok_def decrypt_def plain_def)

lemma wp_inner_op [wp_simps]: "wp (inner_op m) Q x \<longleftrightarrow> wp m (\<lambda>r s'. Q r (fst x, s')) (snd x)"
  by (cases x) (auto simp: wp_def inner_op_def split: option.splits)

lemma wp_encrypt:
  assumes "cipher_ok E" "\<And>e n. Q (Inl e) (n, snd x)" "\<And>b n. plain E b = p \<Longrightarrow> Q (Inr b) (n, snd x)"
  shows "wp (encrypt E p) Q x"
  using decrypt_encrypt [OF assms(1)] assms(2,3)
  by (cases x) (auto simp: wp_def encrypt_def split: option.splits)

lemma wp_decrypt_opt:
  "Q (Inr (map_option (plain E) v)) x \<Longrightarrow> (\<And>e. Q (Inl e) x) \<Longrightarrow> wp (decrypt_opt E v) Q x"
  by (cases v) (auto simp: decrypt_opt_def wp_simps plain_def split: sum.splits)

abbreviation enc_invar :: "('s \<Rightarrow> bool) \<Rightarrow> 's enc_state \<Rightarrow> bool" where
  "enc_invar invar \<equiv> \<lambda>x. invar (snd x)"

abbreviation enc_view :: "cipher \<Rightarrow> ('s \<Rightarrow> kv_view) \<Rightarrow> 's enc_state \<Rightarrow> kv_view" where
  "enc_view E view \<equiv> \<lambda>x. dec_view E (view (snd x))"

lemma kv_read_dec:
  "kv_read invar view (snd x) P r s' \<Longrightarrow> (\<And>a. P a \<Longrightarrow> Q a) \<Longrightarrow>
    kv_read (enc_invar invar) (enc_view E view) x Q r (n, s')"
  by (simp add: kv_read_def)

lemma kv_write_dec:
  "kv_write invar view (snd x) K P r s' \<Longrightarrow> (\<And>a. P a (view s') \<Longrightarrow> Q a (dec_view E (view s'))) \<Longrightarrow>
    kv_write (enc_invar invar) (enc_view E view) x K Q r (n, s')"
  by (cases r) (auto intro: dec_view_frame)

text \<open>The batch of encrypted values.\<close>

definition same_entries :: "cipher \<Rightarrow> (string \<times> string \<times> bytes) list \<Rightarrow> (string \<times> string \<times> bytes) list \<Rightarrow> bool" where
  "same_entries E es encs \<longleftrightarrow> list_all2 (\<lambda>(pk, sk, v) (pk', sk', b). pk' = pk \<and> sk' = sk \<and> plain E b = v) es encs"

lemma same_entries_Cons:
  "same_entries E ((pk, sk, v) # es) ((pk', sk', b) # encs) \<longleftrightarrow>
    pk' = pk \<and> sk' = sk \<and> plain E b = v \<and> same_entries E es encs"
  by (simp add: same_entries_def)

lemma same_entries_keys:
  assumes "same_entries E es encs"
  shows "map (\<lambda>(pk, sk, b). (pk, sk)) encs = map (\<lambda>(pk, sk, b). (pk, sk)) es"
  using assms unfolding same_entries_def by (induction rule: list_all2_induct) auto

lemma dec_view_put_all: "same_entries E es encs \<Longrightarrow> dec_view E (view_put_all v t encs) = view_put_all (dec_view E v) t es"
proof (induction es arbitrary: encs v)
  case (Cons e es)
  obtain pk sk b where e: "e = (pk, sk, b)" by (cases e)
  from Cons.prems obtain c rest where encs: "encs = (pk, sk, c) # rest" "plain E c = b" "same_entries E es rest"
    by (cases encs) (auto simp: same_entries_def e)
  show ?case
    unfolding e encs(1) view_put_all.simps Cons.IH [OF encs(3)] dec_view_upd
    by (simp only: plain_cell_simps dec_view_apply [of E v t pk sk] encs(2))
qed (simp add: same_entries_def)

lemma encrypt_entries_spec:
  assumes "cipher_ok E"
  shows "wp (io_map (\<lambda>(pk, sk, v). io_bind (encrypt E v) (\<lambda>enc. io_return (pk, sk, enc))) es)
    (\<lambda>r x'. snd x' = snd x \<and> (\<forall>encs. r = Inr encs \<longrightarrow> same_entries E es encs)) x"
proof -
  have "wp (io_map (\<lambda>(pk, sk, v). io_bind (encrypt E v) (\<lambda>enc. io_return (pk, sk, enc))) es)
    (\<lambda>r x'. case r of Inl e \<Rightarrow> snd x' = snd x | Inr encs \<Rightarrow> snd x' = snd x \<and> same_entries E es encs) x"
  proof (rule wp_map [where I = "\<lambda>done encs x'. snd x' = snd x \<and> same_entries E done encs"], goal_cases)
    case (2 "done" encs e rest x1)
    obtain pk sk b where e: "e = (pk, sk, b)" by (cases e)
    show ?case
      unfolding e prod.case
      by (rule wp_bindI [OF wp_encrypt [OF assms, where Q = "\<lambda>r x'. snd x' = snd x \<and> (\<forall>c. r = Inr c \<longrightarrow> plain E c = b)"]])
        (use 2 in \<open>auto simp: same_entries_def list_all2_appendI\<close>)
  qed (simp add: same_entries_def)
  then show ?thesis by (rule wp_mono) (auto split: sum.splits)
qed

context kv_store
begin

lemma enc_get_opt:
  assumes "wp m (kv_read invar view (snd x) (\<lambda>v. v = map_option fst (view (snd x) t pk sk))) (snd x)"
  shows "wp (io_bind (inner_op m) (decrypt_opt E)) (kv_read (enc_invar invar) (enc_view E view) x
    (\<lambda>v. v = map_option fst (enc_view E view x t pk sk))) x"
proof -
  have "wp (inner_op m) (\<lambda>r x'. kv_read invar view (snd x) (\<lambda>v. v = map_option fst (view (snd x) t pk sk)) r (snd x')) x"
    unfolding wp_inner_op using assms by simp
  then show ?thesis
  proof (rule wp_bindI, goal_cases)
    case (2 v x1)
    have "map_option (plain E) v = map_option fst (plain_cell E (view (snd x) t pk sk))"
      using 2 by (cases "view (snd x) t pk sk") auto
    with 2 show ?case by (intro wp_decrypt_opt) (simp_all add: kv_read_def dec_view_apply)
  qed (simp add: kv_read_def)
qed

lemma enc_get_versioned_spec:
  assumes "invar (snd x)" "pk_ok pk"
  shows "wp (enc_get_versioned E kv t pk sk) (kv_read (enc_invar invar) (enc_view E view) x
    (\<lambda>v. v = enc_view E view x t pk sk)) x"
proof -
  have "wp (inner_op (kv_get_versioned kv t pk sk))
      (\<lambda>r x'. kv_read invar view (snd x) (\<lambda>v. v = view (snd x) t pk sk) r (snd x')) x"
    unfolding wp_inner_op using get_versioned_spec [OF assms, of t sk] by simp
  then show ?thesis
    unfolding enc_get_versioned_def
  proof (rule wp_bindI, goal_cases)
    case (2 v x1)
    then have v: "v = view (snd x) t pk sk" by simp
    show ?case
      using 2 unfolding kv_read_def dec_view_apply [of E "view (snd x)" t pk sk] v [symmetric]
      by (cases v) (auto simp: wp_simps kv_read_def plain_def split: sum.splits)
  qed (simp add: kv_read_def)
qed

lemma enc_write:
  assumes ok: "cipher_ok E"
    and w: "\<And>b. wp (m b) (kv_write invar view (snd x) K (P b)) (snd x)" and inv: "invar (snd x)"
    and up: "\<And>b a v'. plain E b = value \<Longrightarrow> P b a v' \<Longrightarrow> Q a (dec_view E v')"
  shows "wp (io_bind (encrypt E value) (\<lambda>b. inner_op (m b)))
    (kv_write (enc_invar invar) (enc_view E view) x K Q) x"
proof -
  have "wp (encrypt E value) (\<lambda>r x'. snd x' = snd x \<and> (\<forall>b. r = Inr b \<longrightarrow> plain E b = value)) x"
    by (rule wp_encrypt [OF ok]) simp_all
  then show ?thesis
  proof (rule wp_bindI, goal_cases)
    case (2 b x1)
    then show ?case
      unfolding wp_inner_op using w [of b] up [of b] by (auto elim!: wp_mono kv_write_dec)
  qed (use inv in auto)
qed

lemma enc_put_spec:
  assumes "cipher_ok E" "invar (snd x)" "pk_ok pk" "sk_ok sk"
  shows "wp (enc_put E kv t pk sk b) (kv_write (enc_invar invar) (enc_view E view) x {(t, pk, sk)}
    (\<lambda>_ v. v = view_put (enc_view E view x) t pk sk b)) x"
  unfolding enc_put_def
  by (rule enc_write [OF assms(1) put_spec [OF assms(2-4)] assms(2)])
    (simp only: dec_view_upd plain_cell_simps dec_view_apply [of E "view (snd x)" t pk sk])

lemma enc_put_if_version_spec:
  assumes "cipher_ok E" "invar (snd x)" "pk_ok pk" "sk_ok sk"
  shows "wp (enc_put_if_version E kv t pk sk b exp) (kv_write (enc_invar invar) (enc_view E view) x {(t, pk, sk)}
    (\<lambda>ok v. ok = (exp = map_option snd (enc_view E view x t pk sk)) \<and>
      v = (if ok then view_put (enc_view E view x) t pk sk b else enc_view E view x))) x"
  unfolding enc_put_if_version_def
proof (rule enc_write [OF assms(1) put_if_version_spec [OF assms(2-4)] assms(2)], goal_cases)
  case (1 c a v')
  then show ?case
    by (cases a) (simp_all only: dec_view_upd plain_cell_simps dec_view_apply [of E "view (snd x)" t pk sk] if_True if_False)
qed

lemma enc_scan:
  assumes inv: "invar (snd x)" and scan: "wp m (kv_read invar view (snd x) (\<lambda>res.
      sr_items res = take limit (entries_where (view (snd x) t pk) P) \<and>
      (sr_done res \<longrightarrow> length (entries_where (view (snd x) t pk) P) \<le> limit))) (snd x)"
  shows "wp (decrypt_scan E m) (kv_read (enc_invar invar) (enc_view E view) x (\<lambda>res.
      sr_items res = take limit (entries_where (enc_view E view x t pk) P) \<and>
      (sr_done res \<longrightarrow> length (entries_where (enc_view E view x t pk) P) \<le> limit))) x"
proof -
  have ents: "entries_where (enc_view E view x t pk) P = map (\<lambda>(k, b). (k, plain E b)) (entries_where (view (snd x) t pk) P)"
    by (rule entries_dec_view [OF view_finite [OF inv]])
  have "wp (inner_op m) (\<lambda>r x'. kv_read invar view (snd x) (\<lambda>res.
      sr_items res = take limit (entries_where (view (snd x) t pk) P) \<and>
      (sr_done res \<longrightarrow> length (entries_where (view (snd x) t pk) P) \<le> limit)) r (snd x')) x"
    unfolding wp_inner_op using scan by simp
  then show ?thesis
    unfolding decrypt_scan_def ents
  proof (rule wp_bindI, goal_cases)
    case (2 res x1)
    show ?case
    proof (cases "decrypt_items E (sr_items res)")
      case (Inr ps)
      then have "ps = map (\<lambda>(k, b). (k, plain E b)) (sr_items res)" by (rule decrypt_items_plain)
      with 2 Inr show ?thesis by (simp add: wp_simps kv_read_def take_map)
    qed (use 2 in \<open>simp add: wp_simps kv_read_def\<close>)
  qed (simp add: kv_read_def)
qed

lemma enc_scan_full:
  assumes "wp m (\<lambda>r s'. \<forall>res. r = Inr res \<longrightarrow> \<not> sr_done res \<longrightarrow> limit \<le> length (sr_items res)) (snd x)"
  shows "wp (decrypt_scan E m) (\<lambda>r s'. \<forall>res. r = Inr res \<longrightarrow> \<not> sr_done res \<longrightarrow> limit \<le> length (sr_items res)) x"
proof -
  have "wp (inner_op m) (\<lambda>r x'. \<forall>res. r = Inr res \<longrightarrow> \<not> sr_done res \<longrightarrow> limit \<le> length (sr_items res)) x"
    unfolding wp_inner_op using assms by simp
  then show ?thesis
    unfolding decrypt_scan_def
  proof (rule wp_bindI, goal_cases)
    case (2 res x1)
    show ?case
    proof (cases "decrypt_items E (sr_items res)")
      case (Inr ps)
      then have "length ps = length (sr_items res)" using decrypt_items_plain by fastforce
      with 2 Inr show ?thesis by (simp add: wp_simps)
    qed (simp add: wp_simps)
  qed simp
qed

lemma enc_delete_returning_spec:
  assumes "invar (snd x)" "pk_ok pk"
  shows "wp (io_bind (inner_op (kv_delete_returning kv t pk sk)) (decrypt_opt E))
    (kv_write (enc_invar invar) (enc_view E view) x {(t, pk, sk)} (\<lambda>old v.
      old = map_option fst (enc_view E view x t pk sk) \<and> v = view_del (enc_view E view x) t pk sk)) x"
proof -
  have "wp (inner_op (kv_delete_returning kv t pk sk)) (\<lambda>r x'. kv_write invar view (snd x) {(t, pk, sk)} (\<lambda>old v.
      old = map_option fst (view (snd x) t pk sk) \<and> v = view_del (view (snd x)) t pk sk) r (snd x')) x"
    unfolding wp_inner_op using delete_returning_spec [OF assms, of t sk] by simp
  then show ?thesis
  proof (rule wp_bindI, goal_cases)
    case (2 v x1)
    have "map_option (plain E) v = map_option fst (plain_cell E (view (snd x) t pk sk))"
      using 2 by (cases "view (snd x) t pk sk") auto
    moreover have "dec_view E (view (snd x1)) = view_del (dec_view E (view (snd x))) t pk sk"
      using 2 by (simp only: kv_write_simps dec_view_upd plain_cell_simps)
    moreover have "view_frame {(t, pk, sk)} (dec_view E (view (snd x))) (dec_view E (view (snd x1)))"
      using 2 by (intro dec_view_frame) simp
    ultimately show ?case
      using 2 by (intro wp_decrypt_opt) (simp_all only: kv_write_simps dec_view_apply [of E "view (snd x)" t pk sk] simp_thms)
  qed (auto intro: dec_view_frame)
qed

lemma enc_put_batch_spec:
  assumes ok: "cipher_ok E" and inv: "invar (snd x)" and keys: "\<forall>(pk, sk, b) \<in> set es. pk_ok pk \<and> sk_ok sk"
  shows "wp (enc_put_batch E kv t es) (kv_write (enc_invar invar) (enc_view E view) x
    {(t, pk, sk) | pk sk b. (pk, sk, b) \<in> set es} (\<lambda>_ v. v = view_put_all (enc_view E view x) t es)) x"
  unfolding enc_put_batch_def
proof (rule wp_bindI [OF encrypt_entries_spec [OF ok]], goal_cases)
  case (2 encs x1)
  then have x1: "snd x1 = snd x" and same: "same_entries E es encs" by simp_all
  have keys': "set (map (\<lambda>(pk, sk, b). (pk, sk)) encs) = set (map (\<lambda>(pk, sk, b). (pk, sk)) es)"
    using same_entries_keys [OF same] by simp
  have "pk_ok pk \<and> sk_ok sk" if e: "(pk, sk, b) \<in> set encs" for pk sk b
  proof -
    have "(pk, sk) \<in> set (map (\<lambda>(pk, sk, b). (pk, sk)) encs)" using e by force
    then obtain c where "(pk, sk, c) \<in> set es" unfolding keys' by auto
    then show ?thesis using keys by auto
  qed
  then have ok': "\<forall>(pk, sk, b) \<in> set encs. pk_ok pk \<and> sk_ok sk" by auto
  have "{(t, pk, sk) | pk sk b. (pk, sk, b) \<in> set encs} = (\<lambda>k. (t, fst k, snd k)) ` set (map (\<lambda>(pk, sk, b). (pk, sk)) encs)"
    by force
  also have "\<dots> = {(t, pk, sk) | pk sk b. (pk, sk, b) \<in> set es}" unfolding keys' by force
  finally have K: "{(t, pk, sk) | pk sk b. (pk, sk, b) \<in> set encs} = {(t, pk, sk) | pk sk b. (pk, sk, b) \<in> set es}" .
  show ?case
    unfolding wp_inner_op x1
    by (rule wp_mono [OF put_batch_spec [OF inv ok', of t, unfolded K]], erule kv_write_dec)
      (simp add: dec_view_put_all [OF same])
qed (use inv in auto)

lemma enc_lift_write:
  assumes "wp m (kv_write invar view (snd x) K P) (snd x)"
    and "\<And>a v'. P a v' \<Longrightarrow> Q a (dec_view E v')"
  shows "wp (inner_op m) (kv_write (enc_invar invar) (enc_view E view) x K Q) x"
  unfolding wp_inner_op by (rule wp_mono [OF assms(1)], erule kv_write_dec) (rule assms(2))

lemma encrypted_kv_lawful:
  assumes ok: "cipher_ok E"
  shows "kv_store (encrypted_kv E kv) (enc_invar invar) (enc_view E view)"
proof (rule kv_store.intro, unfold encrypted_kv_def kv.simps default_put_if_absent_def, goal_cases)
  case (1 s t pk sk)
  then show ?case using view_ok [of "snd s" t pk sk] by (simp add: dec_view_apply [of E "view (snd s)" t pk sk])
next
  case (2 s t pk)
  then show ?case using view_finite by (simp add: dom_dec_view)
next
  case (7 s pk sk t b)
  show ?case
    by (rule wp_mono [OF enc_put_if_version_spec [OF ok 7, of t b None]]) (auto simp: kv_write_def split: sum.splits)
next
  case (8 s pk t sk)
  show ?case
    by (rule enc_lift_write [OF delete_spec [OF 8]])
      (simp only: dec_view_upd plain_cell_simps dec_view_apply [of E "view (snd s)" t pk sk] simp_thms)
next
  case (9 s pk t sk n)
  show ?case
    by (rule enc_lift_write [OF delete_if_version_spec [OF 9]])
      (simp only: dec_view_upd plain_cell_simps dec_view_apply [of E "view (snd s)" t pk sk] simp_thms split: if_splits)
next
  case (16 s ks t)
  show ?case
    by (rule enc_lift_write [OF delete_batch_spec [OF 16]]) (simp only: dec_view_del_all dec_view_del_hits simp_thms)
next
  case (18 s)
  show ?case unfolding wp_inner_op by (rule wp_mono [OF compact_spec [OF 18]]) (erule kv_read_dec)
next
  case (3 s pk t sk)
  show ?case by (rule enc_get_opt [OF get_spec [OF 3]])
next
  case (11 s pk t p limit)
  show ?case by (rule enc_scan [OF 11(1) scan_prefix_spec [OF 11]])
next
  case (12 s pk t lo hi limit)
  show ?case by (rule enc_scan [OF 12(1) scan_range_spec [OF 12]])
next
  case (13 s pk t p limit)
  show ?case by (rule enc_scan_full [OF scan_prefix_full [OF 13]])
next
  case (14 s pk t lo hi limit)
  show ?case by (rule enc_scan_full [OF scan_range_full [OF 14]])
next
  case (15 s pk t sk)
  show ?case by (rule enc_get_opt [OF get_consistent_spec [OF 15]])
qed (rule enc_get_versioned_spec enc_put_spec [OF ok] enc_put_if_version_spec [OF ok]
    enc_delete_returning_spec enc_put_batch_spec [OF ok]; assumption)+

end

end
