(* ===== verification/Cluster.thy ===== *)
theory Cluster
  imports Service_Admin
begin

text \<open>
  Cluster coordination (\<open>server/src/server/worker/cluster.rs\<close>): the registry of live instances and
  the distributed leases.

  Clock readings \<open>Utc::now()\<close> are arguments. \<open>env\<close> is what other instances do between the read of a
  lease and the conditional write. Instance records have a codec of their own, the parameter \<open>ci\<close>.
  An \<open>anyhow\<close> error of serde is the \<open>DepotError\<close> it converts to.

  The second half is any number of instances that share the store: a step relation whose steps run
  the two halves of \<open>try_acquire_lease\<close>, up to its conditional write and that write, and
  \<open>release_lease\<close>.
\<close>

definition HEARTBEAT_TIMEOUT_SECS :: int where
  "HEARTBEAT_TIMEOUT_SECS = 90"

record instance_record =
  in_instance_id :: string
  in_started_at :: datetime
  in_last_heartbeat :: datetime
  in_hostname :: string

definition instance_meta_key :: "string \<Rightarrow> string" where
  "instance_meta_key i = ''instance/'' @ i"

definition get_meta_record :: "'s kv \<Rightarrow> 'r codec \<Rightarrow> string \<Rightarrow> ('s, 'r option) io" where
  "get_meta_record kv c key = (case meta_key key of (table, pk, sk) \<Rightarrow> typed_get kv c table pk sk)"

definition put_meta_record :: "'s kv \<Rightarrow> 'r codec \<Rightarrow> string \<Rightarrow> 'r \<Rightarrow> ('s, unit) io" where
  "put_meta_record kv c key record = (case meta_key key of (table, pk, sk) \<Rightarrow> typed_put kv c table pk sk record)"

subsection \<open>Instances\<close>

definition register_instance ::
    "'s kv \<Rightarrow> instance_record codec \<Rightarrow> datetime \<Rightarrow> string \<Rightarrow> string \<Rightarrow> ('s, unit) io" where
  "register_instance kv ci now instance_id hostname =
    put_meta_record kv ci (instance_meta_key instance_id)
      \<lparr>in_instance_id = instance_id, in_started_at = now, in_last_heartbeat = now, in_hostname = hostname\<rparr>"

definition refresh_heartbeat ::
    "'s kv \<Rightarrow> instance_record codec \<Rightarrow> datetime \<Rightarrow> string \<Rightarrow> ('s, unit) io" where
  "refresh_heartbeat kv ci now instance_id =
    (let key = instance_meta_key instance_id
     in io_bind (get_meta_record kv ci key) (\<lambda>existing. case existing of
          Some record \<Rightarrow> put_meta_record kv ci key (record\<lparr>in_last_heartbeat := now\<rparr>)
        | None \<Rightarrow> io_return ()))"

definition deregister_instance :: "'s kv \<Rightarrow> string \<Rightarrow> ('s, unit) io" where
  "deregister_instance kv instance_id = delete_meta kv (instance_meta_key instance_id)"

text \<open>\<open>chrono::Duration::seconds\<close>.\<close>

definition seconds :: "int \<Rightarrow> int" where
  "seconds n = n * 1000000000"

fun keep_live :: "instance_record codec \<Rightarrow> datetime \<Rightarrow> (string \<times> bytes) list \<Rightarrow> instance_record list" where
  "keep_live ci cutoff [] = []"
| "keep_live ci cutoff ((_, value) # items) = (case cd_dec ci value of
     Inr record \<Rightarrow> if in_last_heartbeat record \<ge> cutoff then record # keep_live ci cutoff items
       else keep_live ci cutoff items
   | Inl _ \<Rightarrow> keep_live ci cutoff items)"

definition list_live_instances ::
    "'s kv \<Rightarrow> instance_record codec \<Rightarrow> datetime \<Rightarrow> ('s, instance_record list) io" where
  "list_live_instances kv ci now = (case meta_key ''instance/'' of (table, pk, sk_prefix) \<Rightarrow>
    io_bind (kv_scan_prefix kv table pk sk_prefix 1000) (\<lambda>result.
      io_return (keep_live ci (now - seconds HEARTBEAT_TIMEOUT_SECS) (sr_items result))))"

text \<open>The heartbeat loop over what the \<open>select!\<close> sees: ticks at given times, then a cancellation.\<close>

datatype heartbeat_event = Tick datetime | Cancelled

fun run_heartbeat_loop ::
    "'s kv \<Rightarrow> instance_record codec \<Rightarrow> string \<Rightarrow> heartbeat_event list \<Rightarrow> ('s, unit) io" where
  "run_heartbeat_loop kv ci instance_id [] = io_return ()"
| "run_heartbeat_loop kv ci instance_id (Cancelled # events) = io_return ()"
| "run_heartbeat_loop kv ci instance_id (Tick now # events) =
    io_bind (io_try (refresh_heartbeat kv ci now instance_id))
      (\<lambda>_. run_heartbeat_loop kv ci instance_id events)"

subsection \<open>Leases\<close>

definition LEASE_GC :: string where
  "LEASE_GC = ''gc''"

text \<open>\<open>ttl_secs as i64\<close> reads the 64 bits as a signed number.\<close>

definition lease_expired :: "datetime \<Rightarrow> lease_record \<Rightarrow> bool" where
  "lease_expired now record \<longleftrightarrow> now > lr_renewed_at record + seconds (sint (lr_ttl_secs record))"

text \<open>
  The call up to its write: the encoded record and the version it must find, or nothing when another
  instance holds a valid lease. Then the write, conditional on that version, or on the absence of the
  key.
\<close>

definition lease_read ::
    "'s kv \<Rightarrow> codecs \<Rightarrow> datetime \<Rightarrow> string \<Rightarrow> string \<Rightarrow> u64 \<Rightarrow> ('s, (bytes \<times> u64 option) option) io" where
  "lease_read kv C now name instance_id ttl_secs =
    (case lease_key name of (table, pk, sk) \<Rightarrow>
     io_bind (kv_get_versioned kv table pk sk) (\<lambda>found. case found of
       Some (bytes, version) \<Rightarrow>
        io_bind (io_of_result (decode (cs_lease C) bytes)) (\<lambda>record.
          if lr_holder record = instance_id \<or> lease_expired now record
          then let new_record = \<lparr>lr_holder = instance_id, lr_renewed_at = now, lr_ttl_secs = ttl_secs\<rparr>
            in io_bind (io_of_result (encode (cs_lease C) new_record)) (\<lambda>new_bytes.
               io_return (Some (new_bytes, Some version)))
          else io_return None)
     | None \<Rightarrow>
        let record = \<lparr>lr_holder = instance_id, lr_renewed_at = now, lr_ttl_secs = ttl_secs\<rparr>
        in io_bind (io_of_result (encode (cs_lease C) record)) (\<lambda>bytes. io_return (Some (bytes, None)))))"

definition lease_write :: "'s kv \<Rightarrow> string \<Rightarrow> bytes \<times> u64 option \<Rightarrow> ('s, bool) io" where
  "lease_write kv name plan =
    (case lease_key name of (table, pk, sk) \<Rightarrow> case plan of
       (new_bytes, Some version) \<Rightarrow> kv_put_if_version kv table pk sk new_bytes (Some version)
     | (bytes, None) \<Rightarrow> kv_put_if_absent kv table pk sk bytes)"

definition try_acquire_lease ::
    "'s kv \<Rightarrow> codecs \<Rightarrow> (nat \<Rightarrow> 's \<Rightarrow> 's) \<Rightarrow> datetime \<Rightarrow> string \<Rightarrow> string \<Rightarrow> u64 \<Rightarrow> ('s, bool) io" where
  "try_acquire_lease kv C env now name instance_id ttl_secs =
    io_bind (lease_read kv C now name instance_id ttl_secs) (\<lambda>plan. case plan of
       None \<Rightarrow> io_return False
     | Some p \<Rightarrow> io_bind (interfere env 0) (\<lambda>_. lease_write kv name p))"

definition release_lease ::
    "'s kv \<Rightarrow> codecs \<Rightarrow> (nat \<Rightarrow> 's \<Rightarrow> 's) \<Rightarrow> string \<Rightarrow> string \<Rightarrow> ('s, bool) io" where
  "release_lease kv C env name instance_id =
    (case lease_key name of (table, pk, sk) \<Rightarrow>
     io_bind (kv_get_versioned kv table pk sk) (\<lambda>found. case found of
       Some (bytes, _) \<Rightarrow>
        io_bind (io_of_result (decode (cs_lease C) bytes)) (\<lambda>record.
          if lr_holder record = instance_id
          then io_bind (interfere env 0) (\<lambda>_. io_bind (kv_delete kv table pk sk) (\<lambda>_. io_return True))
          else io_return False)
     | None \<Rightarrow> io_return False))"

record lease_guard =
  lg_name :: string
  lg_instance_id :: string
  lg_released :: bool

definition lease_guard_new :: "string \<Rightarrow> string \<Rightarrow> lease_guard" where
  "lease_guard_new name instance_id = \<lparr>lg_name = name, lg_instance_id = instance_id, lg_released = False\<rparr>"

text \<open>\<open>release\<close> marks the guard before the call, so that a failed release is not repeated.\<close>

definition lease_guard_release ::
    "'s kv \<Rightarrow> codecs \<Rightarrow> (nat \<Rightarrow> 's \<Rightarrow> 's) \<Rightarrow> lease_guard \<Rightarrow> 's \<Rightarrow> (unit result \<times> lease_guard \<times> 's) option" where
  "lease_guard_release kv C env g s =
    (if lg_released g then Some (Inr (), g, s)
     else case release_lease kv C env (lg_name g) (lg_instance_id g) s of
         None \<Rightarrow> None
       | Some (r, s') \<Rightarrow> Some (map_sum (\<lambda>e. e) (\<lambda>_. ()) r, g\<lparr>lg_released := True\<rparr>, s'))"

text \<open>\<open>Drop\<close>: best effort when a runtime is there.\<close>

definition lease_guard_drop ::
    "'s kv \<Rightarrow> codecs \<Rightarrow> (nat \<Rightarrow> 's \<Rightarrow> 's) \<Rightarrow> bool \<Rightarrow> lease_guard \<Rightarrow> ('s, unit) io" where
  "lease_guard_drop kv C env runtime g =
    (if \<not> lg_released g \<and> runtime
     then io_bind (io_try (release_lease kv C env (lg_name g) (lg_instance_id g))) (\<lambda>_. io_return ())
     else io_return ())"

section \<open>Behaviour of the calls\<close>

text \<open>
  What an acquiring instance decides from the lease it has read: nothing, or a record to write and
  the version the write must find.
\<close>

definition lease_plan ::
    "datetime \<Rightarrow> string \<Rightarrow> u64 \<Rightarrow> (lease_record \<times> u64) option \<Rightarrow> (lease_record \<times> u64 option) option" where
  "lease_plan now instance_id ttl found =
    (case found of
       None \<Rightarrow> Some (\<lparr>lr_holder = instance_id, lr_renewed_at = now, lr_ttl_secs = ttl\<rparr>, None)
     | Some (record, version) \<Rightarrow>
         if lr_holder record = instance_id \<or> lease_expired now record
         then Some (\<lparr>lr_holder = instance_id, lr_renewed_at = now, lr_ttl_secs = ttl\<rparr>, Some version)
         else None)"

definition lease_at :: "string \<Rightarrow> kv_view \<Rightarrow> (bytes \<times> u64) option" where
  "lease_at name v = v TABLE_LEASES SINGLE_PK name"

definition lease_found :: "codecs \<Rightarrow> (bytes \<times> u64) option \<Rightarrow> (lease_record \<times> u64) option \<Rightarrow> bool" where
  "lease_found C x found \<longleftrightarrow> (case x of None \<Rightarrow> found = None
     | Some (b, n) \<Rightarrow> (\<exists>r. decode (cs_lease C) b = Inr r \<and> found = Some (r, n)))"

text \<open>
  An acquisition: nothing is written when a valid lease of another instance was read; otherwise the
  planned record is written exactly when the version is still the one read.
\<close>

definition lease_written ::
    "codecs \<Rightarrow> string \<Rightarrow> lease_record \<Rightarrow> u64 option \<Rightarrow> bool \<Rightarrow> kv_view \<Rightarrow> kv_view \<Rightarrow> bool" where
  "lease_written C name new exp ok v v' \<longleftrightarrow> ok = (exp = map_option snd (lease_at name v)) \<and>
     (\<exists>b. encode (cs_lease C) new = Inr b \<and>
       v' = (if ok then view_put v TABLE_LEASES SINGLE_PK name b else v))"

definition lease_attempt ::
    "codecs \<Rightarrow> ('s \<Rightarrow> bool) \<Rightarrow> ('s \<Rightarrow> kv_view) \<Rightarrow> (nat \<Rightarrow> 's \<Rightarrow> 's) \<Rightarrow> datetime \<Rightarrow> string \<Rightarrow> string \<Rightarrow> u64 \<Rightarrow>
     kv_view \<Rightarrow> bool \<Rightarrow> kv_view \<Rightarrow> bool" where
  "lease_attempt C invar view env now name instance_id ttl v ok v' \<longleftrightarrow>
     (\<exists>found. lease_found C (lease_at name v) found \<and>
       (case lease_plan now instance_id ttl found of
          None \<Rightarrow> \<not> ok \<and> v' = v
        | Some (new, exp) \<Rightarrow> (\<exists>s0. invar s0 \<and> view s0 = v \<and>
            lease_written C name new exp ok (view (env 0 s0)) v')))"

lemma lease_attempt_writeI:
  "lease_found C (lease_at name v) found \<Longrightarrow> lease_plan now instance_id ttl found = Some (new, exp) \<Longrightarrow>
    invar s0 \<Longrightarrow> view s0 = v \<Longrightarrow> lease_written C name new exp ok (view (env 0 s0)) v' \<Longrightarrow>
    lease_attempt C invar view env now name instance_id ttl v ok v'"
  unfolding lease_attempt_def by (intro exI [of _ found]) auto

context kv_store
begin

lemma lease_read_spec:
  assumes inv: "invar s"
  shows "wp (lease_read kv C now name i ttl) (kv_read invar view s (\<lambda>plan. \<exists>found.
    lease_found C (lease_at name (view s)) found \<and> (case lease_plan now i ttl found of
       None \<Rightarrow> plan = None
     | Some (new, exp) \<Rightarrow> \<exists>b. encode (cs_lease C) new = Inr b \<and> plan = Some (b, exp)))) s"
  unfolding lease_read_def lease_key_def prod.case
proof (rule wp_bindI [OF get_versioned_spec [OF inv pk_ok_single]], goal_cases)
  case (2 x s0)
  then have s0: "invar s0" "view s0 = view s" and x: "x = lease_at name (view s)" by (auto simp: lease_at_def)
  let ?new = "\<lparr>lr_holder = i, lr_renewed_at = now, lr_ttl_secs = ttl\<rparr>"
  show ?case
  proof (cases x)
    case None
    then show ?thesis
      unfolding x [symmetric] by (cases "encode (cs_lease C) ?new") (simp_all add: s0 wp_simps lease_found_def lease_plan_def Let_def)
  next
    case (Some p)
    obtain b n where p: "p = (b, n)" by (cases p)
    show ?thesis
    proof (cases "decode (cs_lease C) b")
      case (Inl e)
      then show ?thesis by (simp add: Some p s0 wp_simps)
    next
      case dec: (Inr rcd)
      have f: "lease_found C (lease_at name (view s)) (Some (rcd, n))"
        unfolding x [symmetric] Some p by (auto simp: lease_found_def dec)
      then show ?thesis
        unfolding Some p option.case prod.case wp_bind_ok [OF dec]
        by (cases "encode (cs_lease C) ?new")
          (auto simp: s0 wp_simps Let_def lease_plan_def intro!: exI [of _ "Some (rcd, n)"])
    qed
  qed
qed (use inv in simp)

lemma lease_write_spec:
  assumes inv: "invar s" and name: "sk_ok name"
  shows "wp (lease_write kv name (b, exp)) (kv_write invar view s {lease_key name} (\<lambda>ok v.
    ok = (exp = map_option snd (lease_at name (view s))) \<and>
    v = (if ok then view_put (view s) TABLE_LEASES SINGLE_PK name b else view s))) s"
proof (cases exp)
  case (Some n)
  show ?thesis
    unfolding lease_write_def lease_key_def Some prod.case option.case lease_at_def
    by (rule put_if_version_spec [OF inv pk_ok_single name])
next
  case None
  show ?thesis
    unfolding lease_write_def lease_key_def None prod.case option.case lease_at_def
    by (rule wp_mono [OF put_if_absent_spec [OF inv pk_ok_single name]])
      (auto simp: kv_write_def split: sum.splits)
qed

lemma try_acquire_lease_spec:
  assumes inv: "invar s" and name: "sk_ok name" and env: "\<And>i s. invar s \<Longrightarrow> invar (env i s)"
  shows "wp (try_acquire_lease kv C env now name instance_id ttl) (\<lambda>r s'. invar s' \<and>
    (\<forall>ok. r = Inr ok \<longrightarrow> lease_attempt C invar view env now name instance_id ttl (view s) ok (view s'))) s"
  unfolding try_acquire_lease_def
proof (rule wp_bindI [OF lease_read_spec [OF inv]], goal_cases)
  case (2 plan s0)
  then obtain found where s0: "invar s0" "view s0 = view s" and f: "lease_found C (lease_at name (view s)) found"
    and plan: "case lease_plan now instance_id ttl found of None \<Rightarrow> plan = None
     | Some (new, exp) \<Rightarrow> \<exists>b. encode (cs_lease C) new = Inr b \<and> plan = Some (b, exp)" by auto
  show ?case
  proof (cases "lease_plan now instance_id ttl found")
    case None
    with plan f s0 show ?thesis by (auto simp: lease_attempt_def)
  next
    case (Some ne)
    obtain new exp where ne: "ne = (new, exp)" by (cases ne)
    from plan [unfolded Some ne] obtain b where b: "encode (cs_lease C) new = Inr b" "plan = Some (b, exp)" by auto
    note u = env [OF s0(1), of 0]
    show ?thesis
      unfolding b(2) option.case wp_bind [of "interfere _ _"] wp_interfere sum.case
    proof (rule wp_mono [OF lease_write_spec [OF u name]], intro conjI allI impI)
      fix r s' assume w: "kv_write invar view (env 0 s0) {lease_key name} (\<lambda>ok v.
        ok = (exp = map_option snd (lease_at name (view (env 0 s0)))) \<and>
        v = (if ok then view_put (view (env 0 s0)) TABLE_LEASES SINGLE_PK name b else view (env 0 s0))) r s'"
      show "invar s'" using w by (simp add: kv_write_def)
      fix ok assume "r = Inr ok"
      with w b(1) have "lease_written C name new exp ok (view (env 0 s0)) (view s')"
        by (simp add: lease_written_def)
      then show "lease_attempt C invar view env now name instance_id ttl (view s) ok (view s')"
        by (rule lease_attempt_writeI [where view = view and invar = invar and ?s0.0 = s0, OF f Some [unfolded ne] s0])
    qed
  qed
qed simp

lemma release_lease_spec:
  assumes inv: "invar s" and env: "\<And>s. env 0 s = s"
  shows "wp (release_lease kv C env name instance_id) (kv_write invar view s {lease_key name} (\<lambda>ok v.
    \<exists>found. lease_found C (lease_at name (view s)) found \<and>
      ok = (\<exists>r n. found = Some (r, n) \<and> lr_holder r = instance_id) \<and>
      v = (if ok then view_del (view s) TABLE_LEASES SINGLE_PK name else view s))) s"
  unfolding release_lease_def lease_key_def prod.case
proof (rule wp_bindI [OF get_versioned_spec [OF inv pk_ok_single]], goal_cases)
  case (2 x s0)
  then have s0: "invar s0" "view s0 = view s" and x: "x = lease_at name (view s)" by (auto simp: lease_at_def)
  show ?case
  proof (cases x)
    case None
    then show ?thesis using x s0 by (simp add: lease_found_def)
  next
    case (Some p)
    obtain b n where p: "p = (b, n)" by (cases p)
    show ?thesis
      unfolding Some p option.case prod.case
    proof (cases "decode (cs_lease C) b", goal_cases)
      case dec: (2 rcd)
      have f: "lease_found C (lease_at name (view s)) (Some (rcd, n))"
        unfolding x [symmetric] Some p by (auto simp: lease_found_def dec)
      have found: "lease_found C (lease_at name (view s)) y \<longleftrightarrow> y = Some (rcd, n)" for y
        unfolding x [symmetric] Some p by (auto simp: lease_found_def dec)
      show ?case
      proof (cases "lr_holder rcd = instance_id")
        case True
        have del: "wp (io_bind (kv_delete kv TABLE_LEASES SINGLE_PK name) (\<lambda>_. io_return True))
            (kv_write invar view s {(TABLE_LEASES, SINGLE_PK, name)} (\<lambda>ok v. \<exists>found. lease_found C (lease_at name (view s)) found \<and>
              ok = (\<exists>r n. found = Some (r, n) \<and> lr_holder r = instance_id) \<and>
              v = (if ok then view_del (view s) TABLE_LEASES SINGLE_PK name else view s))) s0"
          by (rule wp_bindI [OF delete_spec [OF s0(1) pk_ok_single]])
            (use True f s0 in \<open>simp_all add: found\<close>)
        then show ?thesis
          unfolding wp_bind_ok [OF dec] if_P [OF True] wp_bind [of "interfere _ _"] wp_interfere env by simp
      next
        case False
        then show ?thesis unfolding wp_bind_ok [OF dec] if_not_P [OF False] by (simp add: s0 found)
      qed
    qed (use s0 in \<open>simp add: wp_simps\<close>)
  qed
qed simp

end

section \<open>Instances that share the store\<close>

text \<open>
  A lease that another instance holds is not deleted by a release, whether the call succeeds or not.
\<close>

context kv_store
begin

lemma release_foreign:
  assumes inv: "invar s" and found: "lease_at name (view s) = Some (b, n)" "decode (cs_lease C) b = Inr r" "lr_holder r \<noteq> i"
  shows "wp (release_lease kv C env name i) (\<lambda>_ s'. view s' = view s) s"
  unfolding release_lease_def lease_key_def prod.case
proof (rule wp_bindI [OF get_versioned_spec [OF inv pk_ok_single]], goal_cases)
  case (2 x s0)
  then have "view s0 = view s" "x = Some (b, n)" using found(1) by (auto simp: lease_at_def)
  then show ?case using found(3) by (simp add: wp_bind_ok [OF found(2)])
qed simp

end

text \<open>
  One lease and any number of instances that share a clock and a store. Beside the store a state has
  the time, for every instance the acquisition it is in the middle of (the time it read, its ttl and
  what it is about to write), and the record of its last call if that acquired the lease: an instance
  whose last call answered anything but yes, or that has released, holds nothing.

  The steps run the code: an acquisition up to its write, the write, a release. Others may change the
  store anywhere but at the lease, and an instance may crash. A write that reports an error has been
  made at the key of the lease or not at all, and a version about to wrap around is excluded. The flag
  says whether a release may come between the two halves of an acquisition.
\<close>

abbreviation lease_of :: "string \<Rightarrow> datetime \<Rightarrow> u64 \<Rightarrow> lease_record" where
  "lease_of i t ttl \<equiv> \<lparr>lr_holder = i, lr_renewed_at = t, lr_ttl_secs = ttl\<rparr>"

record 's lease_sys =
  ls_store :: 's
  ls_now :: datetime
  ls_pending :: "string \<Rightarrow> (datetime \<times> u64 \<times> bytes \<times> u64 option) option"
  ls_held :: "string \<Rightarrow> lease_record option"

definition after_read ::
    "'s lease_sys \<Rightarrow> string \<Rightarrow> datetime \<Rightarrow> u64 \<Rightarrow> (bytes \<times> u64 option) option result \<Rightarrow> 's \<Rightarrow> 's lease_sys" where
  "after_read L i t ttl r s' = (case r of
     Inr (Some plan) \<Rightarrow> L\<lparr>ls_store := s', ls_pending := (ls_pending L)(i \<mapsto> (t, ttl, plan))\<rparr>
   | _ \<Rightarrow> L\<lparr>ls_store := s', ls_held := (ls_held L)(i := None)\<rparr>)"

definition after_write :: "'s lease_sys \<Rightarrow> string \<Rightarrow> datetime \<Rightarrow> u64 \<Rightarrow> bool result \<Rightarrow> 's \<Rightarrow> 's lease_sys" where
  "after_write L i t ttl r s' = L\<lparr>ls_store := s', ls_pending := (ls_pending L)(i := None),
     ls_held := (ls_held L)(i := if r = Inr True then Some (lease_of i t ttl) else None)\<rparr>"

definition after_release :: "'s lease_sys \<Rightarrow> string \<Rightarrow> 's \<Rightarrow> 's lease_sys" where
  "after_release L i s' = L\<lparr>ls_store := s', ls_held := (ls_held L)(i := None)\<rparr>"

abbreviation lease_cell :: "('s \<Rightarrow> kv_view) \<Rightarrow> string \<Rightarrow> 's \<Rightarrow> (bytes \<times> u64) option" where
  "lease_cell view name s \<equiv> lease_at name (view s)"

inductive lease_step ::
    "bool \<Rightarrow> 's kv \<Rightarrow> ('s \<Rightarrow> bool) \<Rightarrow> ('s \<Rightarrow> kv_view) \<Rightarrow> codecs \<Rightarrow> string \<Rightarrow> 's lease_sys \<Rightarrow> 's lease_sys \<Rightarrow> bool"
  for overlap :: bool and kv :: "'s kv" and invar :: "'s \<Rightarrow> bool" and view :: "'s \<Rightarrow> kv_view" and C :: codecs
    and name :: string where
  tick: "0 \<le> d \<Longrightarrow> lease_step overlap kv invar view C name L (L\<lparr>ls_now := ls_now L + d\<rparr>)"
| elsewhere: "invar s' \<Longrightarrow> lease_cell view name s' = lease_cell view name (ls_store L) \<Longrightarrow>
    lease_step overlap kv invar view C name L (L\<lparr>ls_store := s'\<rparr>)"
| crash: "lease_step overlap kv invar view C name L
    (L\<lparr>ls_pending := (ls_pending L)(i := None), ls_held := (ls_held L)(i := None)\<rparr>)"
| acquire_read: "ls_pending L i = None \<Longrightarrow> t \<le> ls_now L \<Longrightarrow>
    lease_read kv C t name i ttl (ls_store L) = Some (r, s') \<Longrightarrow>
    lease_step overlap kv invar view C name L (after_read L i t ttl r s')"
| acquire_write: "ls_pending L i = Some (t, ttl, b, exp) \<Longrightarrow> exp \<noteq> Some (- 1) \<Longrightarrow>
    lease_write kv name (b, exp) (ls_store L) = Some (r, s') \<Longrightarrow>
    (isl r \<Longrightarrow> lease_cell view name s' = lease_cell view name (ls_store L) \<or>
       exp = map_option snd (lease_cell view name (ls_store L)) \<and>
       lease_cell view name s' = Some (b, next_version (lease_cell view name (ls_store L)))) \<Longrightarrow>
    lease_step overlap kv invar view C name L (after_write L i t ttl r s')"
| release: "(overlap \<or> (\<forall>j. ls_pending L j = None)) \<Longrightarrow>
    release_lease kv C (\<lambda>_ s. s) name i (ls_store L) = Some (r, s') \<Longrightarrow>
    lease_step overlap kv invar view C name L (after_release L i s')"

definition lease_init :: "'s \<Rightarrow> datetime \<Rightarrow> 's lease_sys" where
  "lease_init s now = \<lparr>ls_store = s, ls_now = now, ls_pending = (\<lambda>_. None), ls_held = (\<lambda>_. None)\<rparr>"

definition holds_lease :: "'s lease_sys \<Rightarrow> string \<Rightarrow> bool" where
  "holds_lease L i \<longleftrightarrow> (\<exists>r. ls_held L i = Some r \<and> \<not> lease_expired (ls_now L) r)"

text \<open>The invariant: a live holder's record is the stored one; a pending write knows what its version stands for.\<close>

definition held_ok :: "lease_record codec \<Rightarrow> datetime \<Rightarrow> (string \<Rightarrow> lease_record option) \<Rightarrow> (bytes \<times> u64) option \<Rightarrow> bool" where
  "held_ok c now held cell \<longleftrightarrow> (\<forall>i r. held i = Some r \<longrightarrow> \<not> lease_expired now r \<longrightarrow>
     lr_holder r = i \<and> (\<exists>b n. cell = Some (b, n) \<and> decode c b = Inr r))"

definition op_ok ::
    "lease_record codec \<Rightarrow> datetime \<Rightarrow> (bytes \<times> u64) option \<Rightarrow> string \<Rightarrow> datetime \<times> u64 \<times> bytes \<times> u64 option \<Rightarrow> bool" where
  "op_ok c now cell i x \<longleftrightarrow> (case x of (t, ttl, b, exp) \<Rightarrow> t \<le> now \<and> encode c (lease_of i t ttl) = Inr b \<and>
     (\<forall>n. exp = Some n \<longrightarrow> (\<exists>b' m. cell = Some (b', m) \<and> n \<le> m \<and>
        (m = n \<longrightarrow> (\<exists>r. decode c b' = Inr r \<and> (lr_holder r = i \<or> lease_expired t r))))))"

definition pending_ok ::
    "lease_record codec \<Rightarrow> datetime \<Rightarrow> (string \<Rightarrow> (datetime \<times> u64 \<times> bytes \<times> u64 option) option) \<Rightarrow> (bytes \<times> u64) option \<Rightarrow> bool" where
  "pending_ok c now pending cell \<longleftrightarrow> (\<forall>i x. pending i = Some x \<longrightarrow> op_ok c now cell i x)"

lemma lease_expired_mono: "lease_expired t r \<Longrightarrow> t \<le> t' \<Longrightarrow> lease_expired t' r"
  by (simp add: lease_expired_def)

lemma word_less_succ: "(n :: 'a :: len word) \<noteq> - 1 \<Longrightarrow> n < n + 1"
  using unatSuc [of n] by (simp add: word_less_nat_alt add.commute eq_neg_iff_add_eq_0)

lemma lease_planD:
  assumes "lease_plan now i ttl found = Some (new, exp)"
  shows "new = lease_of i now ttl \<and> exp = map_option snd found \<and>
    (case found of None \<Rightarrow> True | Some (r, n) \<Rightarrow> lr_holder r = i \<or> lease_expired now r)"
  using assms by (auto simp: lease_plan_def split: option.splits if_splits)

lemma held_ok_drop: "held_ok c now held cell \<Longrightarrow> held_ok c now (held(i := None)) cell"
  by (simp add: held_ok_def)

lemma pending_ok_drop: "pending_ok c now pending cell \<Longrightarrow> pending_ok c now (pending(i := None)) cell"
  by (simp add: pending_ok_def)

lemma held_ok_later: "held_ok c now held cell \<Longrightarrow> now \<le> now' \<Longrightarrow> held_ok c now' held cell"
  unfolding held_ok_def using lease_expired_mono by blast

lemma pending_ok_later: "pending_ok c now pending cell \<Longrightarrow> now \<le> now' \<Longrightarrow> pending_ok c now' pending cell"
  by (fastforce simp: pending_ok_def op_ok_def)

text \<open>The version a pending write expects is the stored one: then every other instance's lease is over.\<close>

lemma others_expired:
  assumes held: "held_ok c now held cell" and op: "op_ok c now cell i (t, ttl, b, exp)"
    and match: "exp = map_option snd cell" and j: "j \<noteq> i" "held j = Some r"
  shows "lease_expired now r"
proof (rule ccontr)
  assume live: "\<not> lease_expired now r"
  with held j(2) obtain b' n where r: "lr_holder r = j" "cell = Some (b', n)" "decode c b' = Inr r"
    unfolding held_ok_def by blast
  with op match j(1) have "lease_expired t r" "t \<le> now" by (auto simp: op_ok_def)
  then show False using lease_expired_mono live by blast
qed

lemma written_ok:
  assumes codec: "codec_ok c" and held: "held_ok c now held cell" and pend: "pending_ok c now pending cell"
    and i: "pending i = Some (t, ttl, b, exp)" and match: "exp = map_option snd cell" "exp \<noteq> Some (- 1)"
    and h: "h = Some (lease_of i t ttl) \<or> h = None"
  shows "held_ok c now (held(i := h)) (Some (b, next_version cell)) \<and>
    pending_ok c now (pending(i := None)) (Some (b, next_version cell))"
proof
  have op: "op_ok c now cell i (t, ttl, b, exp)" using pend i by (simp add: pending_ok_def)
  then have "encode c (lease_of i t ttl) = Inr b" by (simp add: op_ok_def)
  then have dec: "decode c b = Inr (lease_of i t ttl)" by (rule decode_encode [OF codec])
  show "held_ok c now (held(i := h)) (Some (b, next_version cell))"
    using others_expired [OF held op match(1)] h by (auto simp: held_ok_def dec)
  have less: "m < next_version cell" if "cell = Some (b', m)" for b' m
    using match that word_less_succ [of m] by (simp add: next_version_def)
  have "op_ok c now (Some (b, next_version cell)) j x" if "op_ok c now cell j x" for j x
    using that less by (fastforce simp: op_ok_def split: prod.splits)
  then show "pending_ok c now (pending(i := None)) (Some (b, next_version cell))"
    using pend by (simp add: pending_ok_def)
qed

context kv_store
begin

definition lease_inv :: "codecs \<Rightarrow> string \<Rightarrow> 's lease_sys \<Rightarrow> bool" where
  "lease_inv C name L \<longleftrightarrow> invar (ls_store L) \<and>
     held_ok (cs_lease C) (ls_now L) (ls_held L) (lease_cell view name (ls_store L)) \<and>
     pending_ok (cs_lease C) (ls_now L) (ls_pending L) (lease_cell view name (ls_store L))"

lemma lease_inv_read:
  assumes inv: "lease_inv C name L" and t: "t \<le> ls_now L"
    and run: "lease_read kv C t name i ttl (ls_store L) = Some (r, s')"
  shows "lease_inv C name (after_read L i t ttl r s')"
proof -
  let ?c = "lease_cell view name (ls_store L)"
  have L: "invar (ls_store L)" "held_ok (cs_lease C) (ls_now L) (ls_held L) ?c"
    "pending_ok (cs_lease C) (ls_now L) (ls_pending L) ?c" using inv by (simp_all add: lease_inv_def)
  note post = wp_result [OF lease_read_spec [OF L(1)] run]
  have s': "invar s'" "view s' = view (ls_store L)" using post by (simp_all add: kv_read_def)
  have idle: "lease_inv C name (L\<lparr>ls_store := s', ls_held := (ls_held L)(i := None)\<rparr>)"
    using L s' held_ok_drop [OF L(2)] by (simp add: lease_inv_def)
  show ?thesis
  proof (cases "\<exists>plan. r = Inr (Some plan)")
    case False
    then have "after_read L i t ttl r s' = L\<lparr>ls_store := s', ls_held := (ls_held L)(i := None)\<rparr>"
      by (auto simp: after_read_def split: sum.splits option.splits)
    with idle show ?thesis by simp
  next
    case True
    then obtain b exp where r: "r = Inr (Some (b, exp))" by auto
    with post obtain found where f: "lease_found C ?c found"
      and plan: "case lease_plan t i ttl found of None \<Rightarrow> Some (b, exp) = None
       | Some (new, exp') \<Rightarrow> \<exists>b'. encode (cs_lease C) new = Inr b' \<and> Some (b, exp) = Some (b', exp')"
      by (auto simp: kv_read_def)
    then obtain new where p: "lease_plan t i ttl found = Some (new, exp)" and b: "encode (cs_lease C) new = Inr b"
      by (auto split: option.splits)
    have "op_ok (cs_lease C) (ls_now L) ?c i (t, ttl, b, exp)"
      using lease_planD [OF p] b t f by (auto simp: op_ok_def lease_found_def split: option.splits)
    then have "pending_ok (cs_lease C) (ls_now L) ((ls_pending L)(i \<mapsto> (t, ttl, b, exp))) ?c"
      using L(3) by (simp add: pending_ok_def)
    then show ?thesis using L s' by (simp add: r after_read_def lease_inv_def)
  qed
qed

lemma lease_inv_write:
  assumes inv: "lease_inv C name L" and codec: "codec_ok (cs_lease C)" and name: "sk_ok name"
    and i: "ls_pending L i = Some (t, ttl, b, exp)" "exp \<noteq> Some (- 1)"
    and run: "lease_write kv name (b, exp) (ls_store L) = Some (r, s')"
    and err: "isl r \<Longrightarrow> lease_cell view name s' = lease_cell view name (ls_store L) \<or>
       exp = map_option snd (lease_cell view name (ls_store L)) \<and>
       lease_cell view name s' = Some (b, next_version (lease_cell view name (ls_store L)))"
  shows "lease_inv C name (after_write L i t ttl r s')"
proof -
  let ?c = "lease_cell view name (ls_store L)"
  have L: "invar (ls_store L)" "held_ok (cs_lease C) (ls_now L) (ls_held L) ?c"
    "pending_ok (cs_lease C) (ls_now L) (ls_pending L) ?c" using inv by (simp_all add: lease_inv_def)
  note post = wp_result [OF lease_write_spec [OF L(1) name] run]
  have s': "invar s'" using post by (auto simp: kv_write_def)
  have "lease_cell view name s' = ?c \<and> r \<noteq> Inr True \<or>
      exp = map_option snd ?c \<and> lease_cell view name s' = Some (b, next_version ?c)"
    using post err by (cases r) (auto simp: lease_at_def)
  then show ?thesis
  proof
    assume "lease_cell view name s' = ?c \<and> r \<noteq> Inr True"
    then show ?thesis
      using s' held_ok_drop [OF L(2)] pending_ok_drop [OF L(3)] by (simp add: lease_inv_def after_write_def)
  next
    assume w: "exp = map_option snd ?c \<and> lease_cell view name s' = Some (b, next_version ?c)"
    from written_ok [OF codec L(2,3) i(1) conjunct1 [OF w] i(2), of "if r = Inr True then Some (lease_of i t ttl) else None"]
    show ?thesis using s' w by (simp add: lease_inv_def after_write_def)
  qed
qed

lemma lease_inv_release:
  assumes inv: "lease_inv C name L" and idle: "\<forall>j. ls_pending L j = None"
    and run: "release_lease kv C (\<lambda>_ s. s) name i (ls_store L) = Some (r, s')"
  shows "lease_inv C name (after_release L i s')"
proof -
  let ?c = "lease_cell view name (ls_store L)"
  have L: "invar (ls_store L)" "held_ok (cs_lease C) (ls_now L) (ls_held L) ?c" using inv by (simp_all add: lease_inv_def)
  note post = wp_result [OF release_lease_spec [OF L(1), of "\<lambda>_ s. s"] run]
  have s': "invar s'" using post by (auto simp: kv_write_def)
  have "held_ok (cs_lease C) (ls_now L) ((ls_held L)(i := None)) (lease_cell view name s')"
    unfolding held_ok_def
  proof (intro allI impI)
    fix j x assume j: "((ls_held L)(i := None)) j = Some x" and live: "\<not> lease_expired (ls_now L) x"
    then have ji: "j \<noteq> i" "ls_held L j = Some x" by (auto split: if_splits)
    with L(2) live obtain b n where c: "lr_holder x = j" "?c = Some (b, n)" "decode (cs_lease C) b = Inr x"
      unfolding held_ok_def by blast
    have "view s' = view (ls_store L)"
      by (rule wp_result [OF release_foreign [OF L(1) c(2,3)] run]) (use c(1) ji(1) in simp)
    with c show "lr_holder x = j \<and> (\<exists>b n. lease_cell view name s' = Some (b, n) \<and> decode (cs_lease C) b = Inr x)" by simp
  qed
  then show ?thesis using s' idle by (simp add: lease_inv_def after_release_def pending_ok_def)
qed

lemma lease_step_inv:
  assumes step: "lease_step False kv invar view C name L L'" and inv: "lease_inv C name L"
    and codec: "codec_ok (cs_lease C)" and name: "sk_ok name"
  shows "lease_inv C name L'"
  using step
proof cases
  case (tick d)
  then have "ls_now L \<le> ls_now L + d" by simp
  note later = held_ok_later [OF _ this] pending_ok_later [OF _ this]
  show ?thesis using inv unfolding lease_inv_def tick(1) by (auto intro: later)
next
  case (elsewhere s')
  then show ?thesis using inv by (simp add: lease_inv_def)
next
  case (crash i)
  then show ?thesis using inv held_ok_drop pending_ok_drop by (simp add: lease_inv_def)
next
  case (acquire_read i t ttl r s')
  then show ?thesis using lease_inv_read [OF inv] by simp
next
  case (acquire_write i t ttl b exp r s')
  then show ?thesis using lease_inv_write [OF inv codec name] by simp
next
  case (release i r s')
  then show ?thesis using lease_inv_release [OF inv] by simp
qed

lemma lease_exclusive:
  assumes run: "(lease_step False kv invar view C name)\<^sup>*\<^sup>* (lease_init s now) L" and inv: "invar s"
    and codec: "codec_ok (cs_lease C)" and name: "sk_ok name"
    and holds: "holds_lease L i" "holds_lease L j"
  shows "i = j"
proof -
  from run have "lease_inv C name L"
  proof (induction rule: rtranclp_induct)
    case base
    show ?case using inv by (simp add: lease_inv_def lease_init_def held_ok_def pending_ok_def)
  next
    case (step L L')
    then show ?case using lease_step_inv [OF _ _ codec name] by blast
  qed
  then have held: "held_ok (cs_lease C) (ls_now L) (ls_held L) (lease_cell view name (ls_store L))"
    by (simp add: lease_inv_def)
  from holds obtain r r' where "ls_held L i = Some r" "\<not> lease_expired (ls_now L) r"
    "ls_held L j = Some r'" "\<not> lease_expired (ls_now L) r'" by (auto simp: holds_lease_def)
  with held show ?thesis unfolding held_ok_def by (metis Inr_inject Pair_inject option.inject)
qed

end

end
