(* ===== verification/Inflight.thy ===== *)
theory Inflight
  imports Depot_Prelude
begin

text \<open>
  Deduplication of concurrent upstream fetches (\<open>core/src/inflight.rs\<close>).

  A \<open>Notify\<close> is a number, fresh for each claim. \<open>hash\<close> stands for the standard library's
  \<open>DefaultHasher\<close>. A shard's snapshot is loaded and swapped atomically; the second half of
  \<open>try_claim\<close> and the removal in \<open>drop\<close> run under the shard's lock, so each is one step. Waking is a
  step of its own: \<open>notify_waiters\<close> wakes the tasks that are waiting and stores nothing for later.
\<close>

definition SHARD_COUNT :: nat where
  "SHARD_COUNT = 64"

type_synonym shard_map = "nat \<Rightarrow> string \<rightharpoonup> nat"

definition inflight_shard :: "(string \<Rightarrow> nat) \<Rightarrow> string \<Rightarrow> nat" where
  "inflight_shard hash key = hash key mod SHARD_COUNT"

record inflight_map =
  im_shards :: shard_map
  im_next :: nat

definition inflight_new :: inflight_map where
  "inflight_new = \<lparr>im_shards = (\<lambda>_. Map.empty), im_next = 0\<rparr>"

definition claim_lookup :: "(string \<Rightarrow> nat) \<Rightarrow> inflight_map \<Rightarrow> string \<Rightarrow> nat option" where
  "claim_lookup hash M key = im_shards M (inflight_shard hash key) key"

text \<open>The slow path: \<open>Inl\<close> the notify of the claim in force, \<open>Inr\<close> that of the new guard.\<close>

definition claim_locked :: "(string \<Rightarrow> nat) \<Rightarrow> inflight_map \<Rightarrow> string \<Rightarrow> (nat + nat) \<times> inflight_map" where
  "claim_locked hash M key =
    (case claim_lookup hash M key of
       Some notify \<Rightarrow> (Inl notify, M)
     | None \<Rightarrow>
        let idx = inflight_shard hash key;
            notify = im_next M;
            new = (im_shards M idx)(key \<mapsto> notify)
        in (Inr notify, \<lparr>im_shards = (im_shards M)(idx := new), im_next = notify + 1\<rparr>))"

text \<open>\<open>try_claim\<close> with the snapshot the lock-free read saw and the map at the locked part.\<close>

definition try_claim :: "(string \<Rightarrow> nat) \<Rightarrow> inflight_map \<Rightarrow> inflight_map \<Rightarrow> string \<Rightarrow> (nat + nat) \<times> inflight_map" where
  "try_claim hash snapshot M key =
    (case claim_lookup hash snapshot key of
       Some notify \<Rightarrow> (Inl notify, M)
     | None \<Rightarrow> claim_locked hash M key)"

definition guard_remove :: "(string \<Rightarrow> nat) \<Rightarrow> inflight_map \<Rightarrow> string \<Rightarrow> inflight_map" where
  "guard_remove hash M key =
    (let idx = inflight_shard hash key
     in M\<lparr>im_shards := (im_shards M)(idx := (im_shards M idx)(key := None))\<rparr>)"

section \<open>Tasks\<close>

text \<open>
  What a task is doing: it may have missed on the lock-free read, lead a fetch, be between the
  removal and the wake-up of \<open>drop\<close>, hold a notify it was given, await it, or have been woken.
\<close>

datatype phase = Idle | Claiming string | Leading string nat | Dropping nat | Given nat | Awaiting nat | Woken

record inflight_sys =
  is_map :: inflight_map
  is_tasks :: "nat \<Rightarrow> phase"

definition wake :: "nat \<Rightarrow> phase \<Rightarrow> phase" where
  "wake n p = (if p = Awaiting n then Woken else p)"

inductive inflight_step :: "(string \<Rightarrow> nat) \<Rightarrow> inflight_sys \<Rightarrow> inflight_sys \<Rightarrow> bool" for hash where
  fast_hit: "is_tasks S t = Idle \<Longrightarrow> claim_lookup hash (is_map S) key = Some n \<Longrightarrow>
    inflight_step hash S (S\<lparr>is_tasks := (is_tasks S)(t := Given n)\<rparr>)"
| fast_miss: "is_tasks S t = Idle \<Longrightarrow> claim_lookup hash (is_map S) key = None \<Longrightarrow>
    inflight_step hash S (S\<lparr>is_tasks := (is_tasks S)(t := Claiming key)\<rparr>)"
| slow_hit: "is_tasks S t = Claiming key \<Longrightarrow> claim_locked hash (is_map S) key = (Inl n, M) \<Longrightarrow>
    inflight_step hash S \<lparr>is_map = M, is_tasks = (is_tasks S)(t := Given n)\<rparr>"
| slow_win: "is_tasks S t = Claiming key \<Longrightarrow> claim_locked hash (is_map S) key = (Inr n, M) \<Longrightarrow>
    inflight_step hash S \<lparr>is_map = M, is_tasks = (is_tasks S)(t := Leading key n)\<rparr>"
| drop_remove: "is_tasks S t = Leading key n \<Longrightarrow>
    inflight_step hash S \<lparr>is_map = guard_remove hash (is_map S) key, is_tasks = (is_tasks S)(t := Dropping n)\<rparr>"
| drop_notify: "is_tasks S t = Dropping n \<Longrightarrow>
    inflight_step hash S (S\<lparr>is_tasks := (\<lambda>u. wake n (is_tasks S u))(t := Idle)\<rparr>)"
| await: "is_tasks S t = Given n \<Longrightarrow>
    inflight_step hash S (S\<lparr>is_tasks := (is_tasks S)(t := Awaiting n)\<rparr>)"
| resume: "is_tasks S t = Woken \<Longrightarrow>
    inflight_step hash S (S\<lparr>is_tasks := (is_tasks S)(t := Idle)\<rparr>)"

definition inflight_init :: inflight_sys where
  "inflight_init = \<lparr>is_map = inflight_new, is_tasks = (\<lambda>_. Idle)\<rparr>"

text \<open>The invariant: the map holds exactly the notifies of the leaders, and a notify has one owner.\<close>

fun owns :: "nat \<Rightarrow> phase \<Rightarrow> bool" where
  "owns n (Leading key m) \<longleftrightarrow> m = n"
| "owns n (Dropping m) \<longleftrightarrow> m = n"
| "owns n p \<longleftrightarrow> False"

fun mentions :: "nat \<Rightarrow> phase \<Rightarrow> bool" where
  "mentions n (Given m) \<longleftrightarrow> m = n"
| "mentions n (Awaiting m) \<longleftrightarrow> m = n"
| "mentions n p \<longleftrightarrow> owns n p"

definition inflight_ok :: "(string \<Rightarrow> nat) \<Rightarrow> inflight_sys \<Rightarrow> bool" where
  "inflight_ok hash S \<longleftrightarrow>
     (\<forall>key n. claim_lookup hash (is_map S) key = Some n \<longleftrightarrow> (\<exists>t. is_tasks S t = Leading key n)) \<and>
     (\<forall>t u n. owns n (is_tasks S t) \<longrightarrow> owns n (is_tasks S u) \<longrightarrow> t = u) \<and>
     (\<forall>t n. mentions n (is_tasks S t) \<longrightarrow> n < im_next (is_map S))"

lemma claim_lookup_insert:
  "claim_lookup hash \<lparr>im_shards = (im_shards M)(inflight_shard hash key := (im_shards M (inflight_shard hash key))(key \<mapsto> n)), im_next = m\<rparr> k =
    (if k = key then Some n else claim_lookup hash M k)"
  by (auto simp: claim_lookup_def)

lemma claim_lookup_remove:
  "claim_lookup hash (guard_remove hash M key) k = (if k = key then None else claim_lookup hash M k)"
  by (auto simp: claim_lookup_def guard_remove_def Let_def)

lemma claim_lockedE:
  assumes "claim_locked hash M key = (r, M')"
  obtains n where "claim_lookup hash M key = Some n" "r = Inl n" "M' = M"
  | "claim_lookup hash M key = None" "r = Inr (im_next M)" "im_next M' = im_next M + 1"
    "\<And>k. claim_lookup hash M' k = (if k = key then Some (im_next M) else claim_lookup hash M k)"
  using assms claim_lookup_insert [of hash M key "im_next M" "im_next M + 1"]
  by (auto simp: claim_locked_def Let_def split: option.splits)

lemma wake_simps [simp]:
  "wake n p = Leading key m \<longleftrightarrow> p = Leading key m"
  "owns m (wake n p) \<longleftrightarrow> owns m p"
  by (auto simp: wake_def)

lemma mentions_wake: "mentions m (wake n p) \<Longrightarrow> mentions m p"
  by (auto simp: wake_def split: if_splits)

lemma owns_mentions: "owns n p \<Longrightarrow> mentions n p"
  by (cases p) auto

lemma with_tasks: "S\<lparr>is_tasks := f\<rparr> = \<lparr>is_map = is_map S, is_tasks = f\<rparr>" for S :: inflight_sys
  by (cases S) simp

lemma inflight_ok_update:
  assumes ok: "inflight_ok hash S"
    and leading: "\<And>key n. claim_lookup hash M key = Some n \<longleftrightarrow> p = Leading key n \<or> (\<exists>u. u \<noteq> t \<and> is_tasks S u = Leading key n)"
    and owner: "\<And>n u. owns n p \<Longrightarrow> u \<noteq> t \<Longrightarrow> \<not> owns n (is_tasks S u)"
    and fresh: "\<And>n. mentions n p \<Longrightarrow> n < im_next M" "im_next (is_map S) \<le> im_next M"
  shows "inflight_ok hash \<lparr>is_map = M, is_tasks = (is_tasks S)(t := p)\<rparr>"
proof -
  have "mentions n (is_tasks S u) \<Longrightarrow> n < im_next M" for u n
    using ok fresh(2) by (fastforce simp: inflight_ok_def)
  moreover have "owns n (is_tasks S u) \<Longrightarrow> owns n (is_tasks S v) \<Longrightarrow> u = v" for u v n
    using ok by (auto simp: inflight_ok_def)
  ultimately show ?thesis
    using leading owner fresh(1) by (auto simp: inflight_ok_def)
qed

lemma inflight_ok_keep:
  assumes ok: "inflight_ok hash S" and t: "\<And>n. \<not> owns n (is_tasks S t)" and p: "\<And>n. \<not> owns n p"
    and fresh: "\<And>n. mentions n p \<Longrightarrow> n < im_next (is_map S)"
  shows "inflight_ok hash (S\<lparr>is_tasks := (is_tasks S)(t := p)\<rparr>)"
proof -
  have lead: "is_tasks S t \<noteq> Leading key n" "p \<noteq> Leading key n" for key n using t [of n] p [of n] by auto
  have "inflight_ok hash \<lparr>is_map = is_map S, is_tasks = (is_tasks S)(t := p)\<rparr>"
  proof (intro inflight_ok_update [OF ok], goal_cases)
    case (1 key m)
    have "claim_lookup hash (is_map S) key = Some m \<longleftrightarrow> (\<exists>u. is_tasks S u = Leading key m)"
      using ok by (simp add: inflight_ok_def)
    then show ?case using lead by metis
  qed (use p fresh in auto)
  then show ?thesis by (simp add: with_tasks)
qed

lemma inflight_ok_step:
  assumes step: "inflight_step hash S S'" and ok: "inflight_ok hash S"
  shows "inflight_ok hash S'"
  using step
proof cases
  case (fast_hit t key n)
  then obtain u where "is_tasks S u = Leading key n" using ok by (auto simp: inflight_ok_def)
  then have "mentions n (is_tasks S u)" by simp
  then have "n < im_next (is_map S)" using ok by (auto simp: inflight_ok_def)
  with fast_hit ok show ?thesis by (auto intro: inflight_ok_keep)
next
  case (slow_hit t key n M)
  then have M: "M = is_map S" "claim_lookup hash (is_map S) key = Some n" by (auto elim: claim_lockedE)
  then obtain u where "is_tasks S u = Leading key n" using ok by (auto simp: inflight_ok_def)
  then have "mentions n (is_tasks S u)" by simp
  then have "n < im_next (is_map S)" using ok by (auto simp: inflight_ok_def)
  with slow_hit ok have "inflight_ok hash (S\<lparr>is_tasks := (is_tasks S)(t := Given n)\<rparr>)" by (auto intro: inflight_ok_keep)
  then show ?thesis unfolding slow_hit(1) M by (simp add: with_tasks)
next
  case (slow_win t key n M)
  from slow_win(3) have M: "claim_lookup hash (is_map S) key = None" "n = im_next (is_map S)" "im_next M = n + 1"
    "\<And>k. claim_lookup hash M k = (if k = key then Some n else claim_lookup hash (is_map S) k)"
    by (auto elim: claim_lockedE)
  have new: "\<not> owns n (is_tasks S u)" for u
  proof
    assume "owns n (is_tasks S u)"
    then have "n < im_next (is_map S)" using ok owns_mentions [of n "is_tasks S u"] by (auto simp: inflight_ok_def)
    then show False using M(2) by simp
  qed
  show ?thesis
    unfolding slow_win(1)
  proof (rule inflight_ok_update [OF ok], goal_cases)
    case (1 k m)
    have "(claim_lookup hash (is_map S) k = Some m) = (\<exists>u. u \<noteq> t \<and> is_tasks S u = Leading k m)"
      using ok slow_win(2) by (metis inflight_ok_def phase.distinct(13))
    then show ?case using M(1,4) by auto
  qed (use M new in auto)
next
  case (drop_remove t key n)
  have look: "(claim_lookup hash (is_map S) k = Some m) = (\<exists>u. is_tasks S u = Leading k m)" for k m
    using ok by (auto simp: inflight_ok_def)
  have own: "owns m (is_tasks S u) \<Longrightarrow> owns m (is_tasks S v) \<Longrightarrow> u = v" for u v m
    using ok by (auto simp: inflight_ok_def)
  have t: "is_tasks S u = Leading key m \<Longrightarrow> u = t" for u m
  proof -
    assume u: "is_tasks S u = Leading key m"
    then have "m = n" using look [of key m] look [of key n] drop_remove(2) by auto
    with u show "u = t" using own [of n u t] drop_remove(2) by simp
  qed
  show ?thesis
    unfolding drop_remove(1)
  proof (rule inflight_ok_update [OF ok], goal_cases)
    case (1 k m)
    show ?case
    proof (cases "k = key")
      case True
      then show ?thesis using t [of _ m] by (auto simp: claim_lookup_remove)
    next
      case False
      then have "is_tasks S t \<noteq> Leading k m" using drop_remove(2) by simp
      then have "(\<exists>u. is_tasks S u = Leading k m) = (\<exists>u. u \<noteq> t \<and> is_tasks S u = Leading k m)" by metis
      with False look [of k m] show ?thesis by (simp add: claim_lookup_remove)
    qed
  next
    case (2 m u)
    then show ?case using own [of n u t] drop_remove(2) by auto
  next
    case (3 m)
    have "mentions n (is_tasks S t)" using drop_remove(2) by simp
    then show ?case using ok 3 by (auto simp: inflight_ok_def guard_remove_def Let_def)
  qed (simp add: guard_remove_def Let_def)
next
  case (drop_notify t n)
  have t: "\<not> owns m (is_tasks S u)" if "m = n" "u \<noteq> t" for m u
    using ok that drop_notify(2) by (auto simp: inflight_ok_def)
  let ?T = "S\<lparr>is_tasks := \<lambda>u. wake n (is_tasks S u)\<rparr>"
  have "inflight_ok hash ?T"
    using ok by (auto simp: inflight_ok_def dest: mentions_wake)
  then have "inflight_ok hash \<lparr>is_map = is_map ?T, is_tasks = (is_tasks ?T)(t := Idle)\<rparr>"
  proof (rule inflight_ok_update, goal_cases)
    case (1 key m)
    have "claim_lookup hash (is_map S) key = Some m \<longleftrightarrow> (\<exists>u. is_tasks S u = Leading key m)"
      using ok by (simp add: inflight_ok_def)
    moreover have "is_tasks S t \<noteq> Leading key m" using drop_notify(2) by simp
    then have "(\<exists>u. is_tasks S u = Leading key m) = (\<exists>u. u \<noteq> t \<and> is_tasks S u = Leading key m)" by metis
    ultimately show ?case by simp
  qed simp_all
  then show ?thesis unfolding drop_notify(1) by (simp add: with_tasks)
next
  case (await t n)
  then have "mentions n (is_tasks S t)" by simp
  then have "n < im_next (is_map S)" using ok by (auto simp: inflight_ok_def)
  with await ok show ?thesis by (auto intro: inflight_ok_keep)
qed (use ok in \<open>auto intro!: inflight_ok_keep\<close>)

lemma inflight_run_ok: "(inflight_step hash)\<^sup>*\<^sup>* inflight_init S \<Longrightarrow> inflight_ok hash S"
proof (induction rule: rtranclp_induct)
  case base
  show ?case by (simp add: inflight_ok_def inflight_init_def inflight_new_def claim_lookup_def)
qed (rule inflight_ok_step)

lemma inflight_one_leader:
  assumes "(inflight_step hash)\<^sup>*\<^sup>* inflight_init S" "is_tasks S t = Leading key n" "is_tasks S u = Leading key m"
  shows "t = u \<and> claim_lookup hash (is_map S) key = Some n"
proof -
  have ok: "inflight_ok hash S" by (rule inflight_run_ok [OF assms(1)])
  then have look: "claim_lookup hash (is_map S) key = Some n" "claim_lookup hash (is_map S) key = Some m"
    using assms(2,3) by (auto simp: inflight_ok_def)
  then have "owns n (is_tasks S t)" "owns n (is_tasks S u)" using assms(2,3) by auto
  with ok look show ?thesis by (auto simp: inflight_ok_def)
qed

section \<open>The lost wake-up\<close>

text \<open>
  A task that was given a notify but awaits it only after its owner has dropped the guard is never
  woken: \<open>notify_waiters\<close> keeps no permit, and a new claim makes a new notify.
\<close>

definition forgotten :: "nat \<Rightarrow> nat \<Rightarrow> inflight_sys \<Rightarrow> bool" where
  "forgotten t n S \<longleftrightarrow> is_tasks S t = Awaiting n \<and> n < im_next (is_map S) \<and> (\<forall>u. \<not> owns n (is_tasks S u))"

lemma forgotten_step:
  assumes "inflight_step hash S S'" "forgotten t n S"
  shows "forgotten t n S'"
  using assms(1)
proof cases
  case (slow_win u key m M)
  from slow_win(3) have "m = im_next (is_map S)" "im_next M = m + 1" by (auto elim: claim_lockedE)
  with slow_win assms(2) show ?thesis by (auto simp: forgotten_def)
next
  case (slow_hit u key m M)
  then have "M = is_map S" by (auto elim: claim_lockedE)
  with slow_hit assms(2) show ?thesis by (auto simp: forgotten_def)
next
  case (drop_notify u m)
  have "\<not> owns n (is_tasks S u)" using assms(2) by (simp add: forgotten_def)
  then have "m \<noteq> n" using drop_notify(2) by auto
  with drop_notify assms(2) show ?thesis by (auto simp: forgotten_def wake_def)
next
  case (drop_remove u key m)
  have "\<not> owns n (is_tasks S u)" using assms(2) by (simp add: forgotten_def)
  then have "m \<noteq> n" using drop_remove(2) by auto
  with drop_remove assms(2) show ?thesis by (auto simp: forgotten_def guard_remove_def Let_def)
qed (use assms(2) in \<open>auto simp: forgotten_def guard_remove_def Let_def\<close>)

lemma forgotten_forever: "(inflight_step hash)\<^sup>*\<^sup>* S S' \<Longrightarrow> forgotten t n S \<Longrightarrow> forgotten t n S'"
  by (induction rule: rtranclp_induct) (auto intro: forgotten_step)

lemma lost_wakeup:
  "\<exists>S. (inflight_step hash)\<^sup>*\<^sup>* inflight_init S \<and> forgotten 1 0 S"
proof -
  let ?i = "inflight_shard hash ''k''"
  let ?sys = "\<lambda>M f. \<lparr>is_map = M, is_tasks = f\<rparr>" and ?idle = "\<lambda>_ :: nat. Idle"
  define M1 where "M1 = \<lparr>im_shards = (\<lambda>_. Map.empty)(?i := Map.empty(''k'' \<mapsto> 0)), im_next = 1\<rparr>"
  have look: "claim_lookup hash inflight_new ''k'' = None" "claim_lookup hash M1 ''k'' = Some 0"
    by (simp_all add: claim_lookup_def inflight_new_def M1_def)
  have lock: "claim_locked hash inflight_new ''k'' = (Inr 0, M1)"
    using look(1) by (simp add: claim_locked_def Let_def M1_def inflight_new_def)
  have 1: "inflight_step hash inflight_init (?sys inflight_new (?idle(0 := Claiming ''k'')))"
    using fast_miss [of inflight_init 0 hash "''k''"] look(1) by (simp add: inflight_init_def)
  have 2: "inflight_step hash (?sys inflight_new (?idle(0 := Claiming ''k''))) (?sys M1 (?idle(0 := Leading ''k'' 0)))"
    using slow_win [of "?sys inflight_new (?idle(0 := Claiming ''k''))" 0 "''k''" hash 0 M1] lock by simp
  have 3: "inflight_step hash (?sys M1 (?idle(0 := Leading ''k'' 0))) (?sys M1 (?idle(0 := Leading ''k'' 0, 1 := Given 0)))"
    using fast_hit [of "?sys M1 (?idle(0 := Leading ''k'' 0))" 1 hash "''k''" 0] look(2) by simp
  let ?M2 = "guard_remove hash M1 ''k''"
  have 4: "inflight_step hash (?sys M1 (?idle(0 := Leading ''k'' 0, 1 := Given 0))) (?sys ?M2 (?idle(0 := Dropping 0, 1 := Given 0)))"
    using drop_remove [of "?sys M1 (?idle(0 := Leading ''k'' 0, 1 := Given 0))" 0 "''k''" 0 hash] by (simp add: fun_upd_twist)
  have 5: "inflight_step hash (?sys ?M2 (?idle(0 := Dropping 0, 1 := Given 0))) (?sys ?M2 (?idle(1 := Given 0)))"
  proof -
    have "(\<lambda>u. wake 0 ((?idle(0 := Dropping 0, 1 := Given 0)) u))(0 := Idle) = ?idle(1 := Given 0)"
      by (auto simp: wake_def)
    then show ?thesis using drop_notify [of "?sys ?M2 (?idle(0 := Dropping 0, 1 := Given 0))" 0 0 hash] by simp
  qed
  have 6: "inflight_step hash (?sys ?M2 (?idle(1 := Given 0))) (?sys ?M2 (?idle(1 := Awaiting 0)))"
    using await [of "?sys ?M2 (?idle(1 := Given 0))" 1 0 hash] by simp
  have "(inflight_step hash)\<^sup>*\<^sup>* inflight_init (?sys ?M2 (?idle(1 := Awaiting 0)))"
    by (rule converse_rtranclp_into_rtranclp, rule 1, rule converse_rtranclp_into_rtranclp, rule 2,
        rule converse_rtranclp_into_rtranclp, rule 3, rule converse_rtranclp_into_rtranclp, rule 4,
        rule converse_rtranclp_into_rtranclp, rule 5, rule r_into_rtranclp, rule 6)
  moreover have "forgotten 1 0 (?sys ?M2 (?idle(1 := Awaiting 0)))"
    by (simp add: forgotten_def M1_def guard_remove_def Let_def)
  ultimately show ?thesis by blast
qed

end
