(* ===== verification/Auth.thy ===== *)
theory Auth
  imports Depot_Io Depot_Records
begin

text \<open>
  The authentication helpers shared by the crates (\<open>core/src/auth.rs\<close>).

  Base64 decoding is a parameter. \<close>

subsection \<open>Credentials\<close>

definition decode_basic_auth :: "(string \<Rightarrow> bytes option) \<Rightarrow> string \<Rightarrow> (string \<times> string) option" where
  "decode_basic_auth b64_decode header_value =
    (case strip_prefix header_value ''Basic '' of
       None \<Rightarrow> None
     | Some encoded \<Rightarrow> (case b64_decode encoded of
         None \<Rightarrow> None
       | Some decoded \<Rightarrow> if utf8_valid decoded then split_once CHR '':'' decoded else None))"

subsection \<open>Grants\<close>

fun any_grant :: "capability_grant list \<Rightarrow> string \<Rightarrow> capability \<Rightarrow> bool" where
  "any_grant [] repo required = False"
| "any_grant (grant # grants) repo required =
    (if cg_capability grant = required \<and> (cg_repo grant = ''*'' \<or> cg_repo grant = repo) then True
     else any_grant grants repo required)"

fun check_grants :: "role_record list \<Rightarrow> string \<Rightarrow> capability \<Rightarrow> unit result" where
  "check_grants [] repo required = Inl (Forbidden ''access denied'')"
| "check_grants (role # roles) repo required =
    (if any_grant (ro_capabilities role) repo required then Inr () else check_grants roles repo required)"

subsection \<open>Responses\<close>

definition unauthorized_response :: "bool \<Rightarrow> response" where
  "unauthorized_response suppress_www_authenticate =
    (if suppress_www_authenticate
     then \<lparr>rsp_status = 401, rsp_www_authenticate = None, rsp_error = None\<rparr>
     else \<lparr>rsp_status = 401,
       rsp_www_authenticate = Some (''Basic realm='' @ [CHR 0x22] @ ''Artifact Depot'' @ [CHR 0x22]), rsp_error = None\<rparr>)"

definition map_permission_error :: "depot_error \<Rightarrow> string \<Rightarrow> response" where
  "map_permission_error err username =
    (if (case err of Forbidden _ \<Rightarrow> True | _ \<Rightarrow> False) \<and> username = ''anonymous''
     then unauthorized_response False else error_into_response err)"

section \<open>Facts\<close>

lemma any_grant_iff:
  "any_grant grants repo required \<longleftrightarrow>
    (\<exists>g \<in> set grants. cg_capability g = required \<and> (cg_repo g = ''*'' \<or> cg_repo g = repo))"
  by (induction grants) auto

lemma check_grants_iff:
  "check_grants roles repo required = (if \<exists>role \<in> set roles. \<exists>g \<in> set (ro_capabilities role).
      cg_capability g = required \<and> (cg_repo g = ''*'' \<or> cg_repo g = repo)
    then Inr () else Inl (Forbidden ''access denied''))"
  by (induction roles) (auto simp: any_grant_iff)

lemma split_once_iff: "split_once c s = Some (a, b) \<longleftrightarrow> c \<notin> set a \<and> s = a @ c # b"
proof
  assume split: "split_once c s = Some (a, b)"
  then have "c \<in> set s" by (auto simp: split_once_def split: if_splits)
  then obtain a' b' where s: "s = a' @ c # b'" "c \<notin> set a'" by (metis split_list_first)
  then show "c \<notin> set a \<and> s = a @ c # b" using split split_once_append [of c a' b'] by simp
qed (auto simp: split_once_append)

lemma decode_basic_auth_iff:
  "decode_basic_auth b64_decode header = Some (user, pass) \<longleftrightarrow>
    (\<exists>enc. header = ''Basic '' @ enc \<and> b64_decode enc = Some (user @ '':'' @ pass) \<and>
      utf8_valid (user @ '':'' @ pass) \<and> CHR '':'' \<notin> set user)"
  by (auto simp: decode_basic_auth_def strip_prefix_def split_once_iff starts_with_iff split: option.splits if_splits)

end
