(* ===== verification/Update_Worker.thy ===== *)
theory Update_Worker
  imports Update_Channel Service_Artifact Service_Admin "HOL-Library.AList" "HOL-Library.Multiset"
begin

text \<open>
  The background update worker (\<open>server/src/server/worker/update.rs\<close>): coalescing of directory,
  store and access-time events, their application, and the propagation of directory deltas to the
  root. The rebuild of the tree is in \<open>Tree_Rebuild\<close>.

  A \<open>HashMap\<close> is an association list; the order in which it is drained is the parameter \<open>ord\<close>.
  A batch is applied one delta after the other: the keys of a batch are distinct. \<open>i64\<close> additions
  wrap, as in a release build.
\<close>

subsection \<open>Coalescing\<close>

type_synonym dir_delta_map = "((string \<times> string) \<times> dir_delta) list"

definition merge_dir_delta :: "dir_delta_map \<Rightarrow> dir_delta \<Rightarrow> dir_delta_map" where
  "merge_dir_delta m delta =
    (let key = (dd_pk delta, dd_dir_path delta)
     in AList.update key (case map_of m key of
          Some existing \<Rightarrow> existing\<lparr>dd_count_delta := dd_count_delta existing + dd_count_delta delta,
            dd_bytes_delta := dd_bytes_delta existing + dd_bytes_delta delta,
            dd_timestamp := (if dd_timestamp delta > dd_timestamp existing
              then dd_timestamp delta else dd_timestamp existing)\<rparr>
        | None \<Rightarrow> delta) m)"

definition merge_all :: "dir_delta_map \<Rightarrow> dir_delta list \<Rightarrow> dir_delta_map" where
  "merge_all m deltas = foldl merge_dir_delta m deltas"

text \<open>Draining a channel: the queue is emptied.\<close>

definition drain_dir_deltas :: "dir_delta list \<Rightarrow> dir_delta_map" where
  "drain_dir_deltas queue = merge_all [] queue"

type_synonym store_totals = "(string \<times> (i64 \<times> i64)) list"

definition add_store_delta :: "store_totals \<Rightarrow> string \<Rightarrow> i64 \<Rightarrow> i64 \<Rightarrow> store_totals" where
  "add_store_delta pending store count_delta bytes_delta =
    (let (c, b) = (case map_of pending store of Some cb \<Rightarrow> cb | None \<Rightarrow> (0, 0))
     in AList.update store (c + count_delta, b + bytes_delta) pending)"

definition drain_store_deltas :: "store_delta list \<Rightarrow> store_totals \<Rightarrow> store_totals" where
  "drain_store_deltas queue pending =
    filter (\<lambda>(_, c, b). c \<noteq> 0 \<or> b \<noteq> 0)
      (foldl (\<lambda>p d. add_store_delta p (sd_store d) (sd_count_delta d) (sd_bytes_delta d)) pending queue)"

type_synonym atime_map = "((string \<times> string) \<times> datetime) list"

definition merge_atime :: "atime_map \<Rightarrow> atime_event \<Rightarrow> atime_map" where
  "merge_atime m ev =
    (let key = (ae_repo ev, ae_path ev)
     in AList.update key (case map_of m key of
          Some ts \<Rightarrow> if ae_timestamp ev > ts then ae_timestamp ev else ts
        | None \<Rightarrow> ae_timestamp ev) m)"

definition drain_atime :: "atime_event list \<Rightarrow> atime_map" where
  "drain_atime queue = foldl merge_atime [] queue"

subsection \<open>Directory deltas\<close>

definition make_parent_delta :: "hasher \<Rightarrow> dir_delta \<Rightarrow> dir_delta" where
  "make_parent_delta H delta =
    (let parent = parent_dir (dd_dir_path delta)
     in \<lparr>dd_repo = dd_repo delta, dd_pk = sharded_pk H (dd_repo delta) (tree_parent parent), dd_dir_path = parent,
         dd_count_delta = dd_count_delta delta, dd_bytes_delta = dd_bytes_delta delta,
         dd_timestamp = dd_timestamp delta\<rparr>)"

text \<open>\<open>x.max(0) as u64\<close> for an \<open>i64\<close>.\<close>

definition at_least_zero :: "i64 \<Rightarrow> u64" where
  "at_least_zero x = (if sint x < 0 then 0 else x)"

text \<open>The existing directory: its counters, its times and its version.\<close>

definition apply_to_dir ::
    "'s kv \<Rightarrow> codecs \<Rightarrow> dir_delta \<Rightarrow> string \<Rightarrow> (u64 \<times> u64 \<times> datetime \<times> datetime \<times> u64) option \<Rightarrow> ('s, bool) io" where
  "apply_to_dir kv C delta sk existing =
    (let (existing_count, existing_bytes, existing_modified, existing_accessed, version) =
           (case existing of Some (c, b, m, a, v) \<Rightarrow> (c, b, m, a, Some v)
            | None \<Rightarrow> (0, 0, UNIX_EPOCH, UNIX_EPOCH, None));
         is_new = (version = None)
     in if is_new \<and> sint (dd_count_delta delta) \<le> 0 then io_return False
        else
         let new_count = (if is_new then dd_count_delta delta else at_least_zero (existing_count + dd_count_delta delta));
             new_bytes = (if is_new then at_least_zero (dd_bytes_delta delta)
               else at_least_zero (existing_bytes + dd_bytes_delta delta));
             new_modified = (if is_new then dd_timestamp delta else max existing_modified (dd_timestamp delta));
             new_accessed = (if is_new then dd_timestamp delta else max existing_accessed (dd_timestamp delta))
         in if new_count = 0
            then (case version of
                Some v \<Rightarrow> kv_delete_if_version kv TABLE_DIR_ENTRIES (dd_pk delta) sk v
              | None \<Rightarrow> io_return False)
            else io_bind (io_of_result (encode (cs_tree C) \<lparr>te_kind = Dir new_count new_bytes,
                te_last_modified_at = new_modified, te_last_accessed_at = new_accessed\<rparr>)) (\<lambda>new_value.
              kv_put_if_version kv TABLE_DIR_ENTRIES (dd_pk delta) sk new_value version))"

definition apply_dir_delta :: "'s kv \<Rightarrow> codecs \<Rightarrow> dir_delta \<Rightarrow> ('s, bool) io" where
  "apply_dir_delta kv C delta =
    (let sk = tree_sort_key (dd_dir_path delta)
     in io_bind (kv_get_versioned kv TABLE_DIR_ENTRIES (dd_pk delta) sk) (\<lambda>versioned. case versioned of
          Some (bytes, v) \<Rightarrow> io_bind (io_of_result (decode (cs_tree C) bytes)) (\<lambda>te. case te_kind te of
              Dir artifact_count total_bytes \<Rightarrow> apply_to_dir kv C delta sk
                (Some (artifact_count, total_bytes, te_last_modified_at te, te_last_accessed_at te, v))
            | File _ \<Rightarrow> io_return False)
        | None \<Rightarrow> apply_to_dir kv C delta sk None))"

record dir_batch_result =
  br_parents :: "dir_delta list"
  br_retries :: "dir_delta list"

datatype outcome = ParentOutcome dir_delta | RetryOutcome dir_delta

definition dir_outcome :: "hasher \<Rightarrow> dir_delta \<Rightarrow> bool result \<Rightarrow> outcome option" where
  "dir_outcome H delta r = (case r of
     Inr True \<Rightarrow> if dd_dir_path delta \<noteq> [] then Some (ParentOutcome (make_parent_delta H delta)) else None
   | Inr False \<Rightarrow> Some (RetryOutcome delta)
   | Inl _ \<Rightarrow> Some (RetryOutcome delta))"

definition parents_of :: "outcome option list \<Rightarrow> dir_delta list" where
  "parents_of outcomes = concat (map (\<lambda>out. case out of Some (ParentOutcome d) \<Rightarrow> [d] | _ \<Rightarrow> []) outcomes)"

definition retries_of :: "outcome option list \<Rightarrow> dir_delta list" where
  "retries_of outcomes = concat (map (\<lambda>out. case out of Some (RetryOutcome d) \<Rightarrow> [d] | _ \<Rightarrow> []) outcomes)"

definition apply_dir_batch :: "hasher \<Rightarrow> 's kv \<Rightarrow> codecs \<Rightarrow> dir_delta list \<Rightarrow> ('s, dir_batch_result) io" where
  "apply_dir_batch H kv C deltas =
    io_bind (io_map (\<lambda>delta. io_bind (io_try (apply_dir_delta kv C delta)) (\<lambda>r. io_return (dir_outcome H delta r))) deltas)
      (\<lambda>outcomes. io_return \<lparr>br_parents = parents_of outcomes, br_retries = retries_of outcomes\<rparr>)"

subsection \<open>Flushing access times and store counters\<close>

definition ATIME_FLUSH_BATCH :: nat where
  "ATIME_FLUSH_BATCH = 50"

text \<open>The chunks of \<open>ATIME_FLUSH_BATCH\<close> are visited one after the other, so the items are.\<close>

definition flush_atime :: "hasher \<Rightarrow> 's kv \<Rightarrow> codecs \<Rightarrow> atime_map \<Rightarrow> ('s, unit) io" where
  "flush_atime H kv C items =
    io_for items (\<lambda>((repo, path), ts). io_bind (io_try (touch_artifact H kv C repo path ts)) (\<lambda>_. io_return ()))"

definition STORE_STATS_FLUSH_MAX_RETRIES :: nat where
  "STORE_STATS_FLUSH_MAX_RETRIES = 3"

definition new_store_stats :: "datetime \<Rightarrow> store_stats_record option \<Rightarrow> i64 \<Rightarrow> i64 \<Rightarrow> store_stats_record" where
  "new_store_stats now existing count_delta bytes_delta =
    (let (old_count, old_bytes) = (case existing of Some r \<Rightarrow> (ss_blob_count r, ss_total_bytes r) | None \<Rightarrow> (0, 0))
     in \<lparr>ss_blob_count = at_least_zero (old_count + count_delta),
         ss_total_bytes = at_least_zero (old_bytes + bytes_delta), ss_updated_at = now\<rparr>)"

text \<open>The attempts for one store: whether the delta was applied. \<open>env\<close> is what others do before each write.\<close>

fun flush_store_attempts ::
    "'s kv \<Rightarrow> codecs \<Rightarrow> (nat \<Rightarrow> 's \<Rightarrow> 's) \<Rightarrow> datetime \<Rightarrow> string \<Rightarrow> i64 \<Rightarrow> i64 \<Rightarrow> nat \<Rightarrow> 's \<Rightarrow> (bool \<times> 's) option" where
  "flush_store_attempts kv C env now store c b 0 s = Some (False, s)"
| "flush_store_attempts kv C env now store c b (Suc n) s =
    (case store_stats_key store of (table, pk, sk) \<Rightarrow>
     case kv_get_versioned kv table pk sk s of
       None \<Rightarrow> None
     | Some (Inl e, s1) \<Rightarrow> Some (False, s1)
     | Some (Inr versioned, s1) \<Rightarrow>
        let (existing, version) = (case versioned of
              Some (bytes, v) \<Rightarrow> (case cd_dec (cs_store_stats C) bytes of Inr rcd \<Rightarrow> (Some rcd, Some v) | Inl _ \<Rightarrow> (None, None))
            | None \<Rightarrow> (None, None))
        in case cd_enc (cs_store_stats C) (new_store_stats now existing c b) of
            Inl _ \<Rightarrow> Some (False, s1)
          | Inr new_bytes \<Rightarrow>
             (case kv_put_if_version kv table pk sk new_bytes version (env n s1) of
                None \<Rightarrow> None
              | Some (Inr True, s2) \<Rightarrow> Some (True, s2)
              | Some (Inr False, s2) \<Rightarrow> flush_store_attempts kv C env now store c b n s2
              | Some (Inl e, s2) \<Rightarrow> Some (False, s2)))"

fun flush_store_stats ::
    "'s kv \<Rightarrow> codecs \<Rightarrow> (nat \<Rightarrow> 's \<Rightarrow> 's) \<Rightarrow> datetime \<Rightarrow> store_totals \<Rightarrow> store_totals \<Rightarrow> 's \<Rightarrow> (store_totals \<times> 's) option" where
  "flush_store_stats kv C env now [] pending s = Some (pending, s)"
| "flush_store_stats kv C env now ((store, c, b) # deltas) pending s =
    (case flush_store_attempts kv C env now store c b STORE_STATS_FLUSH_MAX_RETRIES s of
       None \<Rightarrow> None
     | Some (applied, s1) \<Rightarrow>
        flush_store_stats kv C env now deltas
          (if applied then pending else add_store_delta pending store c b) s1)"

subsection \<open>The worker loop\<close>

record ('s, 'b) worker =
  wk_world :: "('s, 'b) world"
  wk_stashed_dir :: "dir_delta option"
  wk_stashed_atime :: "atime_event option"
  wk_propagation :: dir_delta_map
  wk_pending_store :: store_totals

definition with_kv :: "('s, 'b) worker \<Rightarrow> 's \<Rightarrow> ('s, 'b) worker" where
  "with_kv w s = w\<lparr>wk_world := (wk_world w)\<lparr>w_kv := s\<rparr>\<rparr>"

text \<open>Everything queued for the directories: the channel, the stashed event, the propagation buffer.\<close>

definition collect_dir :: "('s, 'b) worker \<Rightarrow> dir_delta_map" where
  "collect_dir w = merge_all (merge_all (drain_dir_deltas (w_dir (wk_world w)))
     (case wk_stashed_dir w of Some ev \<Rightarrow> [ev] | None \<Rightarrow> [])) (map snd (wk_propagation w))"

definition dir_work ::
    "hasher \<Rightarrow> 's kv \<Rightarrow> codecs \<Rightarrow> (dir_delta list \<Rightarrow> dir_delta list) \<Rightarrow> ('s, 'b) worker \<Rightarrow>
     (bool \<times> ('s, 'b) worker) option" where
  "dir_work H kv C ord w =
    (let coalesced = collect_dir w;
         w1 = w\<lparr>wk_world := (wk_world w)\<lparr>w_dir := []\<rparr>, wk_stashed_dir := None, wk_propagation := []\<rparr>
     in if coalesced = [] then Some (False, w1)
        else case apply_dir_batch H kv C (ord (map snd coalesced)) (w_kv (wk_world w1)) of
            None \<Rightarrow> None
          | Some (r, s1) \<Rightarrow> Some (True, (with_kv w1 s1)\<lparr>wk_propagation := (case r of
                Inr batch \<Rightarrow> merge_all (merge_all [] (br_parents batch)) (br_retries batch)
              | Inl _ \<Rightarrow> [])\<rparr>))"

definition atime_work ::
    "hasher \<Rightarrow> 's kv \<Rightarrow> codecs \<Rightarrow> ('s, 'b) worker \<Rightarrow> (bool \<times> ('s, 'b) worker) option" where
  "atime_work H kv C w =
    (let events = drain_atime (w_atime (wk_world w));
         events1 = (case wk_stashed_atime w of Some ev \<Rightarrow> merge_atime events ev | None \<Rightarrow> events);
         w1 = w\<lparr>wk_world := (wk_world w)\<lparr>w_atime := []\<rparr>, wk_stashed_atime := None\<rparr>
     in if events1 = [] then Some (False, w1)
        else case flush_atime H kv C events1 (w_kv (wk_world w1)) of
            None \<Rightarrow> None
          | Some (_, s1) \<Rightarrow> Some (True, with_kv w1 s1))"

definition store_work ::
    "'s kv \<Rightarrow> codecs \<Rightarrow> (nat \<Rightarrow> 's \<Rightarrow> 's) \<Rightarrow> datetime \<Rightarrow> ('s, 'b) worker \<Rightarrow> (bool \<times> ('s, 'b) worker) option" where
  "store_work kv C env now w =
    (let deltas = drain_store_deltas (w_store (wk_world w)) (wk_pending_store w);
         w1 = w\<lparr>wk_world := (wk_world w)\<lparr>w_store := []\<rparr>, wk_pending_store := []\<rparr>
     in if deltas = [] then Some (False, w1)
        else case flush_store_stats kv C env now deltas [] (w_kv (wk_world w1)) of
            None \<Rightarrow> None
          | Some (pending, s1) \<Rightarrow> Some (True, (with_kv w1 s1)\<lparr>wk_pending_store := pending\<rparr>))"

text \<open>One pass of \<open>while did_work\<close>.\<close>

definition worker_pass ::
    "hasher \<Rightarrow> 's kv \<Rightarrow> codecs \<Rightarrow> (nat \<Rightarrow> 's \<Rightarrow> 's) \<Rightarrow> datetime \<Rightarrow> (dir_delta list \<Rightarrow> dir_delta list) \<Rightarrow>
     ('s, 'b) worker \<Rightarrow> (bool \<times> ('s, 'b) worker) option" where
  "worker_pass H kv C env now ord w =
    (case dir_work H kv C ord w of None \<Rightarrow> None | Some (did1, w1) \<Rightarrow>
     case atime_work H kv C w1 of None \<Rightarrow> None | Some (did2, w2) \<Rightarrow>
     case store_work kv C env now w2 of None \<Rightarrow> None | Some (did3, w3) \<Rightarrow>
       Some (did1 \<or> did2 \<or> did3, w3))"

partial_function (option) worker_drain ::
    "hasher \<Rightarrow> 's kv \<Rightarrow> codecs \<Rightarrow> (nat \<Rightarrow> 's \<Rightarrow> 's) \<Rightarrow> datetime \<Rightarrow> (dir_delta list \<Rightarrow> dir_delta list) \<Rightarrow>
     ('s, 'b) worker \<Rightarrow> ('s, 'b) worker option" where
  "worker_drain H kv C env now ord w =
    (case worker_pass H kv C env now ord w of
       None \<Rightarrow> None
     | Some (did_work, w1) \<Rightarrow> if did_work then worker_drain H kv C env now ord w1 else Some w1)"

text \<open>
  The propagation at shutdown: level by level until nothing is left. \<open>app\<close> is
  \<open>apply_dir_delta\<close>, whose errors and conflicts are ignored here.
\<close>

fun flush_level ::
    "(dir_delta \<Rightarrow> ('s, bool) io) \<Rightarrow> hasher \<Rightarrow> dir_delta list \<Rightarrow> dir_delta_map \<Rightarrow> 's \<Rightarrow> (dir_delta_map \<times> 's) option" where
  "flush_level app H [] acc s = Some (acc, s)"
| "flush_level app H (delta # deltas) acc s =
    (case app delta s of
       None \<Rightarrow> None
     | Some (r, s1) \<Rightarrow>
        flush_level app H deltas
          (if r = Inr True \<and> dd_dir_path delta \<noteq> [] then merge_dir_delta acc (make_parent_delta H delta) else acc) s1)"

partial_function (option) flush_levels ::
    "(dir_delta \<Rightarrow> ('s, bool) io) \<Rightarrow> hasher \<Rightarrow> (dir_delta list \<Rightarrow> dir_delta list) \<Rightarrow> dir_delta_map \<Rightarrow> 's \<Rightarrow> 's option" where
  "flush_levels app H ord coalesced s =
    (if coalesced = [] then Some s
     else case flush_level app H (ord (map snd coalesced)) [] s of
         None \<Rightarrow> None
       | Some (next, s1) \<Rightarrow> flush_levels app H ord next s1)"

definition worker_shutdown ::
    "hasher \<Rightarrow> 's kv \<Rightarrow> codecs \<Rightarrow> (nat \<Rightarrow> 's \<Rightarrow> 's) \<Rightarrow> datetime \<Rightarrow> (dir_delta list \<Rightarrow> dir_delta list) \<Rightarrow>
     ('s, 'b) worker \<Rightarrow> ('s, 'b) worker option" where
  "worker_shutdown H kv C env now ord w =
    (let w1 = w\<lparr>wk_world := (wk_world w)\<lparr>w_dir := []\<rparr>, wk_stashed_dir := None, wk_propagation := []\<rparr>
     in case flush_levels (apply_dir_delta kv C) H ord (collect_dir w) (w_kv (wk_world w1)) of
         None \<Rightarrow> None
       | Some s1 \<Rightarrow>
          (case atime_work H kv C ((with_kv w1 s1)\<lparr>wk_stashed_atime := None\<rparr>) of
             None \<Rightarrow> None
           | Some (_, w2) \<Rightarrow> (case store_work kv C env now w2 of None \<Rightarrow> None | Some (_, w3) \<Rightarrow> Some w3)))"

text \<open>The outer loop over what \<open>select!\<close> sees: a cancellation, a received event, or the timer.\<close>

datatype worker_event = CancelEvent | DirEvent "dir_delta option" | AtimeEventIn "atime_event option" | StatsTick

fun worker_select :: "'s kv \<Rightarrow> codecs \<Rightarrow> (nat \<Rightarrow> 's \<Rightarrow> 's) \<Rightarrow> datetime \<Rightarrow> worker_event \<Rightarrow> ('s, 'b) worker \<Rightarrow> ('s, 'b) worker option" where
  "worker_select kv C env now (DirEvent ev) w = Some (w\<lparr>wk_stashed_dir := ev\<rparr>)"
| "worker_select kv C env now (AtimeEventIn ev) w = Some (w\<lparr>wk_stashed_atime := ev\<rparr>)"
| "worker_select kv C env now StatsTick w = map_option snd (store_work kv C env now w)"
| "worker_select kv C env now CancelEvent w = Some w"

fun run_update_worker ::
    "hasher \<Rightarrow> 's kv \<Rightarrow> codecs \<Rightarrow> (nat \<Rightarrow> 's \<Rightarrow> 's) \<Rightarrow> datetime \<Rightarrow> (dir_delta list \<Rightarrow> dir_delta list) \<Rightarrow>
     worker_event list \<Rightarrow> ('s, 'b) worker \<Rightarrow> ('s, 'b) worker option" where
  "run_update_worker H kv C env now ord [] w = worker_drain H kv C env now ord w"
| "run_update_worker H kv C env now ord (ev # events) w =
    (case worker_drain H kv C env now ord w of
       None \<Rightarrow> None
     | Some w1 \<Rightarrow>
        if ev = CancelEvent then worker_shutdown H kv C env now ord w1
        else (case worker_select kv C env now ev w1 of
            None \<Rightarrow> None
          | Some w2 \<Rightarrow> run_update_worker H kv C env now ord events w2))"

section \<open>Coalescing keeps the totals\<close>

abbreviation delta_key :: "dir_delta \<Rightarrow> string \<times> string" where
  "delta_key d \<equiv> (dd_pk d, dd_dir_path d)"

text \<open>The map is well formed: one entry per key, under its own key.\<close>

definition deltas_ok :: "dir_delta_map \<Rightarrow> bool" where
  "deltas_ok m \<longleftrightarrow> distinct (map fst m) \<and> (\<forall>(k, d) \<in> set m. k = delta_key d)"

lemma deltas_ok_Nil [simp]: "deltas_ok []"
  by (simp add: deltas_ok_def)

lemma map_of_deltas_ok: "deltas_ok m \<Longrightarrow> map_of m k = Some d \<Longrightarrow> delta_key d = k"
  by (auto simp: deltas_ok_def dest!: map_of_SomeD)

lemma set_update_sub: "set (AList.update k v m) \<subseteq> insert (k, v) (set m)"
  by (induction m) auto

text \<open>The entry of a key after merging: totals and the latest time.\<close>

definition join_delta :: "dir_delta option \<Rightarrow> dir_delta \<Rightarrow> dir_delta" where
  "join_delta e d = (case e of None \<Rightarrow> d | Some e \<Rightarrow> e\<lparr>dd_count_delta := dd_count_delta e + dd_count_delta d,
     dd_bytes_delta := dd_bytes_delta e + dd_bytes_delta d, dd_timestamp := max (dd_timestamp e) (dd_timestamp d)\<rparr>)"

lemma merge_dir_delta_join:
  "merge_dir_delta m d = AList.update (delta_key d) (join_delta (map_of m (delta_key d)) d) m"
  by (cases "map_of m (delta_key d)") (auto simp: merge_dir_delta_def Let_def join_delta_def max_def)

lemma join_delta_key:
  assumes "deltas_ok m"
  shows "delta_key (join_delta (map_of m (delta_key d)) d) = delta_key d"
proof (cases "map_of m (delta_key d)")
  case (Some e)
  then have "delta_key e = delta_key d" by (rule map_of_deltas_ok [OF assms])
  then show ?thesis unfolding Some by (simp add: join_delta_def)
qed (simp add: join_delta_def)

lemma merge_dir_delta_ok:
  assumes "deltas_ok m"
  shows "deltas_ok (merge_dir_delta m d)"
proof -
  let ?e = "join_delta (map_of m (delta_key d)) d"
  have "k = delta_key e" if ke: "(k, e) \<in> set (AList.update (delta_key d) ?e m)" for k e
  proof -
    have "(k, e) = (delta_key d, ?e) \<or> (k, e) \<in> set m" using set_update_sub ke by fast
    then show ?thesis
    proof
      assume "(k, e) = (delta_key d, ?e)"
      then show ?thesis using join_delta_key [OF assms, of d] by (metis Pair_inject)
    qed (use assms in \<open>auto simp: deltas_ok_def\<close>)
  qed
  moreover have "distinct (map fst (AList.update (delta_key d) ?e m))"
    using assms by (simp add: deltas_ok_def distinct_update)
  ultimately show ?thesis unfolding merge_dir_delta_join deltas_ok_def by blast
qed

lemma merge_all_ok: "deltas_ok m \<Longrightarrow> deltas_ok (merge_all m ds)"
  unfolding merge_all_def by (induction ds arbitrary: m) (simp_all add: merge_dir_delta_ok)

lemma map_of_merge:
  "map_of (merge_dir_delta m d) k = (if k = delta_key d then Some (join_delta (map_of m k) d) else map_of m k)"
  by (simp add: merge_dir_delta_join update_conv)

definition coalesced :: "dir_delta list \<Rightarrow> string \<times> string \<Rightarrow> dir_delta option \<Rightarrow> bool" where
  "coalesced ds k x \<longleftrightarrow> (let es = filter (\<lambda>d. delta_key d = k) ds in case x of
     None \<Rightarrow> es = []
   | Some e \<Rightarrow> es \<noteq> [] \<and> dd_count_delta e = sum_list (map dd_count_delta es) \<and>
       dd_bytes_delta e = sum_list (map dd_bytes_delta es) \<and>
       dd_timestamp e = Max (dd_timestamp ` set es))"

lemma coalesced_snoc:
  assumes "coalesced ds (delta_key d) x"
  shows "coalesced (ds @ [d]) (delta_key d) (Some (join_delta x d))"
proof (cases x)
  case (Some e)
  define es where "es = filter (\<lambda>d'. delta_key d' = delta_key d) ds"
  have es: "filter (\<lambda>d'. delta_key d' = delta_key d) (ds @ [d]) = es @ [d]" by (simp add: es_def)
  have e: "es \<noteq> []" "dd_count_delta e = sum_list (map dd_count_delta es)"
    "dd_bytes_delta e = sum_list (map dd_bytes_delta es)" "dd_timestamp e = Max (dd_timestamp ` set es)"
    using assms Some unfolding coalesced_def es_def [symmetric] by (simp_all add: Let_def)
  have "Max (dd_timestamp ` set (es @ [d])) = max (dd_timestamp e) (dd_timestamp d)"
    using e(1,4) by (simp add: max.commute)
  then show ?thesis
    unfolding coalesced_def es Let_def Some join_delta_def by (simp add: e(2,3))
qed (use assms in \<open>simp add: coalesced_def Let_def join_delta_def\<close>)

lemma drain_coalesces: "coalesced ds k (map_of (drain_dir_deltas ds) k)"
  unfolding drain_dir_deltas_def merge_all_def
proof (induction ds rule: rev_induct)
  case (snoc d ds)
  show ?case
  proof (cases "k = delta_key d")
    case True
    then show ?thesis using coalesced_snoc [of ds d] snoc by (simp add: map_of_merge)
  next
    case False
    then have "delta_key d \<noteq> k" by simp
    then show ?thesis using snoc False by (simp add: map_of_merge coalesced_def Let_def)
  qed
qed (simp add: coalesced_def)

lemma sum_list_perm:
  fixes h :: "'a \<Rightarrow> i64"
  assumes "mset xs = mset ys" shows "sum_list (map h xs) = sum_list (map h ys)"
proof -
  have "mset (map h xs) = mset (map h ys)" unfolding mset_map assms ..
  from arg_cong [OF this, of sum_mset] show ?thesis by (simp only: sum_mset_sum_list)
qed

lemma coalesced_perm:
  assumes "mset ds = mset es"
  shows "coalesced ds k x = coalesced es k x"
proof -
  define xs ys where "xs = filter (\<lambda>d. delta_key d = k) ds" and "ys = filter (\<lambda>d. delta_key d = k) es"
  have m: "mset xs = mset ys" using assms by (simp add: xs_def ys_def)
  have "length xs = length ys" by (rule mset_eq_length [OF m])
  then have empty: "(xs = []) = (ys = [])" by auto
  show ?thesis
    unfolding coalesced_def Let_def xs_def [symmetric] ys_def [symmetric]
      sum_list_perm [OF m] mset_eq_setD [OF m] empty ..
qed

section \<open>Propagation to the root\<close>

text \<open>The directories a delta of directory \<open>p\<close> counts for.\<close>

lemma parent_dir_shorter: "p \<noteq> [] \<Longrightarrow> length (parent_dir p) < length p"
  by (auto simp: parent_dir_def elim: rfind_SomeE split: option.splits)

lemma sk_ok_parent_dir: "sk_ok p \<Longrightarrow> sk_ok (parent_dir p)"
  using sk_ok_parent_name(1) [of p]
  by (cases "p = []") (simp_all add: parent_dir_def tree_parent_def sk_ok_def rfind_def split: option.splits)

function path_chain :: "string \<Rightarrow> string list" where
  "path_chain p = p # (if p = [] then [] else path_chain (parent_dir p))"
  by auto
termination by (relation "measure length") (auto simp: parent_dir_shorter)

declare path_chain.simps [simp del]

definition chain_keys :: "hasher \<Rightarrow> dir_delta \<Rightarrow> (string \<times> string) set" where
  "chain_keys H d = (\<lambda>q. (sharded_pk H (dd_repo d) (tree_parent q), q)) ` set (path_chain (dd_dir_path d))"

definition delta_ok :: "hasher \<Rightarrow> dir_delta \<Rightarrow> bool" where
  "delta_ok H d \<longleftrightarrow> dd_pk d = sharded_pk H (dd_repo d) (tree_parent (dd_dir_path d))"

definition contributes :: "hasher \<Rightarrow> string \<times> string \<Rightarrow> dir_delta \<Rightarrow> i64" where
  "contributes H k d = (if k \<in> chain_keys H d then dd_count_delta d else 0)"

lemma chain_keys_step:
  "delta_ok H d \<Longrightarrow> chain_keys H d = insert (delta_key d)
    (if dd_dir_path d = [] then {} else chain_keys H (make_parent_delta H d))"
  by (auto simp: chain_keys_def delta_ok_def make_parent_delta_def Let_def path_chain.simps [of "dd_dir_path d"])

lemma path_chain_length: "q \<in> set (path_chain p) \<Longrightarrow> length q \<le> length p"
proof (induction p rule: path_chain.induct)
  case (1 p)
  then show ?case
    using parent_dir_shorter [of p] by (auto simp: path_chain.simps [of p] split: if_splits)
qed

lemma contributes_step:
  assumes "delta_ok H d"
  shows "contributes H k d = (if k = delta_key d then dd_count_delta d else 0) +
    (if dd_dir_path d = [] then 0 else contributes H k (make_parent_delta H d))"
proof -
  have "delta_key d \<notin> chain_keys H (make_parent_delta H d)" if "dd_dir_path d \<noteq> []"
    using path_chain_length [of "dd_dir_path d" "parent_dir (dd_dir_path d)"] parent_dir_shorter [OF that]
    by (auto simp: chain_keys_def make_parent_delta_def Let_def)
  then show ?thesis
    by (auto simp: contributes_def chain_keys_step [OF assms] make_parent_delta_def Let_def)
qed

lemma make_parent_delta_ok [simp]: "delta_ok H (make_parent_delta H d)"
  by (simp add: delta_ok_def make_parent_delta_def Let_def)

text \<open>Merging adds up what the deltas contribute.\<close>

lemma sum_update:
  fixes F :: "'v \<Rightarrow> 'a :: ab_group_add"
  shows "distinct (map fst m) \<Longrightarrow> sum_list (map (\<lambda>x. F (snd x)) (AList.update k v m)) =
    sum_list (map (\<lambda>x. F (snd x)) m) + F v - (case map_of m k of None \<Rightarrow> 0 | Some e \<Rightarrow> F e)"
proof (induction m)
  case (Cons p m)
  then show ?case by (cases p) (auto simp: algebra_simps split: option.splits dest: map_of_SomeD)
qed simp

lemma sharded_pk_repo: "sharded_pk H r x = sharded_pk H r' y \<Longrightarrow> r = r'"
  by (simp add: sharded_pk_def)

lemma sum_merge:
  assumes m: "deltas_ok m" "\<forall>(k, d) \<in> set m. delta_ok H d" and d: "delta_ok H d"
  shows "sum_list (map (\<lambda>x. contributes H k (snd x)) (merge_dir_delta m d)) =
    sum_list (map (\<lambda>x. contributes H k (snd x)) m) + contributes H k d"
proof -
  have dist: "distinct (map fst m)" using m(1) by (simp add: deltas_ok_def)
  show ?thesis
  proof (cases "map_of m (delta_key d)")
    case None
    then show ?thesis unfolding merge_dir_delta_join sum_update [OF dist] by (simp add: join_delta_def)
  next
    case (Some e)
    have e: "delta_key e = delta_key d" by (rule map_of_deltas_ok [OF m(1) Some])
    have "delta_ok H e" using m(2) Some by (auto dest: map_of_SomeD)
    then have "dd_repo e = dd_repo d" using e d by (auto simp: delta_ok_def intro: sharded_pk_repo)
    then have keys: "chain_keys H e = chain_keys H d" using e by (simp add: chain_keys_def)
    have "chain_keys H (join_delta (Some e) d) = chain_keys H e" by (simp add: chain_keys_def join_delta_def)
    then have "contributes H k (join_delta (Some e) d) = contributes H k e + contributes H k d"
      using keys by (simp add: contributes_def join_delta_def)
    then show ?thesis unfolding merge_dir_delta_join sum_update [OF dist] Some by (simp add: algebra_simps)
  qed
qed

lemma merge_dir_delta_delta_ok:
  assumes m: "deltas_ok m" "\<forall>(k, d) \<in> set m. delta_ok H d" and d: "delta_ok H d"
  shows "\<forall>(k, d) \<in> set (merge_dir_delta m d). delta_ok H d"
proof -
  have "delta_ok H (join_delta (map_of m (delta_key d)) d)"
    using m d by (cases "map_of m (delta_key d)") (auto simp: join_delta_def delta_ok_def dest: map_of_SomeD)
  then show ?thesis
    using m(2) set_update_sub [of "delta_key d" "join_delta (map_of m (delta_key d)) d" m]
    unfolding merge_dir_delta_join by blast
qed

text \<open>Each level is one directory shorter, so the propagation ends whenever every application returns.\<close>

definition paths_below :: "nat \<Rightarrow> dir_delta_map \<Rightarrow> bool" where
  "paths_below n m \<longleftrightarrow> (\<forall>(k, d) \<in> set m. length (dd_dir_path d) < n)"

lemma paths_below_merge:
  assumes "paths_below n m" "length (dd_dir_path d) < n"
  shows "paths_below n (merge_dir_delta m d)"
proof -
  have "length (dd_dir_path (join_delta (map_of m (delta_key d)) d)) < n"
    using assms by (cases "map_of m (delta_key d)") (auto simp: join_delta_def paths_below_def dest: map_of_SomeD)
  then show ?thesis
    using assms(1) set_update_sub [of "delta_key d" "join_delta (map_of m (delta_key d)) d" m]
    unfolding merge_dir_delta_join paths_below_def by blast
qed

definition deltas_all :: "(dir_delta \<Rightarrow> bool) \<Rightarrow> dir_delta_map \<Rightarrow> bool" where
  "deltas_all P m \<longleftrightarrow> (\<forall>(k, d) \<in> set m. P d)"

definition delta_closed :: "hasher \<Rightarrow> (dir_delta \<Rightarrow> bool) \<Rightarrow> bool" where
  "delta_closed H P \<longleftrightarrow> (\<forall>d. P d \<longrightarrow> P (make_parent_delta H d)) \<and> (\<forall>e d. P e \<longrightarrow> P (join_delta (Some e) d))"

lemma deltas_all_merge:
  assumes "delta_closed H P" "deltas_all P m" "P d"
  shows "deltas_all P (merge_dir_delta m d)"
proof -
  have "P (join_delta (map_of m (delta_key d)) d)"
  proof (cases "map_of m (delta_key d)")
    case None
    then show ?thesis using assms(3) by (simp add: join_delta_def)
  next
    case (Some e)
    then have "P e" using assms(2) by (auto simp: deltas_all_def dest: map_of_SomeD)
    then show ?thesis using Some assms(1) by (simp add: delta_closed_def)
  qed
  then show ?thesis
    using assms(2) set_update_sub [of "delta_key d" "join_delta (map_of m (delta_key d)) d" m]
    unfolding merge_dir_delta_join deltas_all_def by blast
qed

lemma flush_level_below:
  "paths_below n acc \<Longrightarrow> \<forall>d \<in> set deltas. length (dd_dir_path d) \<le> n \<Longrightarrow>
    flush_level app H deltas acc s = Some (acc', s') \<Longrightarrow> paths_below n acc'"
proof (induction deltas arbitrary: acc s)
  case (Cons d deltas)
  from Cons.prems(3) obtain r s1 where r: "app d s = Some (r, s1)" by (auto split: option.splits)
  let ?acc = "if r = Inr True \<and> dd_dir_path d \<noteq> [] then merge_dir_delta acc (make_parent_delta H d) else acc"
  have "paths_below n ?acc"
    using Cons.prems(1,2) parent_dir_shorter [of "dd_dir_path d"]
    by (auto simp: make_parent_delta_def Let_def intro!: paths_below_merge)
  then show ?case using Cons.IH [of ?acc s1] Cons.prems(2,3) r by simp
qed simp

lemma flush_level_returns:
  assumes app: "\<forall>d s. P d \<longrightarrow> I s \<longrightarrow> (\<exists>r s'. app d s = Some (r, s') \<and> I s')" and closed: "delta_closed H P"
  shows "paths_below n acc \<Longrightarrow> deltas_all P acc \<Longrightarrow> \<forall>d \<in> set deltas. P d \<and> length (dd_dir_path d) \<le> n \<Longrightarrow> I s \<Longrightarrow>
    \<exists>acc' s'. flush_level app H deltas acc s = Some (acc', s') \<and> paths_below n acc' \<and> deltas_all P acc' \<and> I s'"
proof (induction deltas arbitrary: acc s)
  case (Cons d deltas)
  have d: "P d" "length (dd_dir_path d) \<le> n" and par: "P (make_parent_delta H d)"
    using Cons.prems(3) closed by (auto simp: delta_closed_def)
  obtain r s1 where r: "app d s = Some (r, s1)" "I s1" using app d(1) Cons.prems(4) by blast
  let ?acc = "if r = Inr True \<and> dd_dir_path d \<noteq> [] then merge_dir_delta acc (make_parent_delta H d) else acc"
  have "paths_below n ?acc"
    using Cons.prems(1) d(2) parent_dir_shorter [of "dd_dir_path d"]
    by (auto simp: make_parent_delta_def Let_def intro!: paths_below_merge)
  moreover have "deltas_all P ?acc" using Cons.prems(2) deltas_all_merge [OF closed _ par] by simp
  ultimately show ?case using Cons.IH [of ?acc s1] Cons.prems(3) r by simp
qed simp

lemma flush_levels_returns:
  assumes app: "\<forall>d s. P d \<longrightarrow> I s \<longrightarrow> (\<exists>r s'. app d s = Some (r, s') \<and> I s')" and closed: "delta_closed H P"
    and ord: "\<forall>xs. mset (ord xs) = mset xs"
  shows "paths_below n m \<Longrightarrow> deltas_all P m \<Longrightarrow> I s \<Longrightarrow> \<exists>s'. flush_levels app H ord m s = Some s' \<and> I s'"
proof (induction n arbitrary: m s)
  case 0
  then have "m = []" by (cases m) (auto simp: paths_below_def)
  then show ?case using 0 by (simp add: flush_levels.simps)
next
  case (Suc n)
  show ?case
  proof (cases "m = []")
    case False
    have "set (ord (map snd m)) = set (map snd m)" using ord by (metis mset_eq_setD)
    then have "\<forall>d \<in> set (ord (map snd m)). P d \<and> length (dd_dir_path d) \<le> n"
      using Suc.prems by (fastforce simp: paths_below_def deltas_all_def)
    then obtain acc' s1 where "flush_level app H (ord (map snd m)) [] s = Some (acc', s1)" "paths_below n acc'"
        "deltas_all P acc'" "I s1"
      using flush_level_returns [OF app closed, of n "[]" "ord (map snd m)" s] Suc.prems(3)
      by (auto simp: paths_below_def deltas_all_def)
    with Suc.IH [of acc' s1] False show ?thesis by (simp add: flush_levels.simps [of app H ord m s])
  qed (use Suc in \<open>simp add: flush_levels.simps\<close>)
qed

text \<open>
  What the propagation adds up to. Of the recorded applications, one that answered true counts for
  its directory and passes its delta on to the parent; any other is dropped, with what the delta would
  have contributed to its directory and to those above.
\<close>

type_synonym delta_log = "(dir_delta \<times> bool result) list"

definition accounted :: "hasher \<Rightarrow> string \<times> string \<Rightarrow> dir_delta \<times> bool result \<Rightarrow> i64" where
  "accounted H k x = (case x of (d, r) \<Rightarrow>
     if r = Inr True then (if delta_key d = k then dd_count_delta d else 0) else contributes H k d)"

definition log_total :: "hasher \<Rightarrow> string \<times> string \<Rightarrow> delta_log \<Rightarrow> i64" where
  "log_total H k log = sum_list (map (accounted H k) log)"

definition map_ok :: "hasher \<Rightarrow> dir_delta_map \<Rightarrow> bool" where
  "map_ok H m \<longleftrightarrow> deltas_ok m \<and> (\<forall>(k, d) \<in> set m. delta_ok H d)"

definition contribution :: "hasher \<Rightarrow> string \<times> string \<Rightarrow> dir_delta_map \<Rightarrow> i64" where
  "contribution H k m = sum_list (map (\<lambda>x. contributes H k (snd x)) m)"

lemma map_ok_merge: "map_ok H m \<Longrightarrow> delta_ok H d \<Longrightarrow> map_ok H (merge_dir_delta m d) \<and>
    contribution H k (merge_dir_delta m d) = contribution H k m + contributes H k d"
  using merge_dir_delta_ok [of m d] merge_dir_delta_delta_ok [of m H d] sum_merge [of m H d k]
  by (simp add: map_ok_def contribution_def)

lemma flush_level_adds:
  "map_ok H acc \<Longrightarrow> \<forall>d \<in> set deltas. delta_ok H d \<Longrightarrow>
    flush_level (logged app) H deltas acc (s, l) = Some (acc', (s', l')) \<Longrightarrow>
    flush_level app H deltas acc s = Some (acc', s') \<and> map_ok H acc' \<and> (\<forall>k. log_total H k l' + contribution H k acc' =
      log_total H k l + contribution H k acc + sum_list (map (contributes H k) deltas))"
proof (induction deltas arbitrary: acc s l)
  case (Cons d deltas)
  from Cons.prems(3) obtain r s1 where r: "app d s = Some (r, s1)"
    by (auto simp: logged_def split: option.splits prod.splits)
  let ?acc = "if r = Inr True \<and> dd_dir_path d \<noteq> [] then merge_dir_delta acc (make_parent_delta H d) else acc"
  have acc: "map_ok H ?acc" "contribution H k ?acc = contribution H k acc +
      (if r = Inr True \<and> dd_dir_path d \<noteq> [] then contributes H k (make_parent_delta H d) else 0)" for k
    using map_ok_merge [OF Cons.prems(1), of "make_parent_delta H d" k] Cons.prems(1) by simp_all
  have IH: "flush_level app H deltas ?acc s1 = Some (acc', s') \<and> map_ok H acc' \<and> (\<forall>k. log_total H k l' + contribution H k acc' =
      log_total H k (l @ [(d, r)]) + contribution H k ?acc + sum_list (map (contributes H k) deltas))"
    by (rule Cons.IH [OF acc(1)]) (use Cons.prems(2,3) r in \<open>simp_all add: logged_def\<close>)
  have "accounted H k (d, r) + (if r = Inr True \<and> dd_dir_path d \<noteq> [] then contributes H k (make_parent_delta H d) else 0) =
      contributes H k d" for k
    using contributes_step [of H d k] Cons.prems(2) by (auto simp: accounted_def)
  then have "log_total H k (l @ [(d, r)]) + contribution H k ?acc = log_total H k l + contribution H k acc + contributes H k d" for k
    unfolding acc(2) log_total_def by (simp add: algebra_simps)
  then show ?case using IH r by (simp add: algebra_simps)
qed simp

lemma contribution_ord:
  assumes "\<forall>xs. mset (ord xs) = mset xs"
  shows "sum_list (map (contributes H k) (ord (map snd m))) = contribution H k m"
proof -
  have "mset (map (contributes H k) (ord (map snd m))) = mset (map (\<lambda>x. contributes H k (snd x)) m)"
    unfolding mset_map [of _ "ord _"] using assms by (simp add: image_mset.compositionality comp_def)
  then show ?thesis unfolding contribution_def by (metis sum_mset_sum_list)
qed

lemma flush_levels_adds:
  assumes ord: "\<forall>xs. mset (ord xs) = mset xs"
  shows "paths_below n m \<Longrightarrow> map_ok H m \<Longrightarrow> flush_levels (logged app) H ord m (s, l) = Some (s', l') \<Longrightarrow>
    flush_levels app H ord m s = Some s' \<and> (\<forall>k. log_total H k l' = log_total H k l + contribution H k m)"
proof (induction n arbitrary: m s l)
  case 0
  then have "m = []" by (cases m) (auto simp: paths_below_def)
  then show ?case using 0 by (simp add: flush_levels.simps contribution_def)
next
  case (Suc n)
  show ?case
  proof (cases "m = []")
    case False
    have set: "set (ord (map snd m)) = set (map snd m)" using ord by (metis mset_eq_setD)
    then have below: "\<forall>d \<in> set (ord (map snd m)). length (dd_dir_path d) \<le> n"
      using Suc.prems(1) by (fastforce simp: paths_below_def)
    have ok: "\<forall>d \<in> set (ord (map snd m)). delta_ok H d" using set Suc.prems(2) by (auto simp: map_ok_def)
    from Suc.prems(3) False obtain acc' s1 l1 where
      run: "flush_level (logged app) H (ord (map snd m)) [] (s, l) = Some (acc', (s1, l1))"
      and rest: "flush_levels (logged app) H ord acc' (s1, l1) = Some (s', l')"
      by (auto simp: flush_levels.simps [of "logged app" H ord m "(s, l)"] split: option.splits)
    have "map_ok H []" by (simp add: map_ok_def)
    note lvl = flush_level_adds [OF this ok run, unfolded contribution_ord [OF ord]]
    have "paths_below n acc'"
      by (rule flush_level_below [OF _ _ run]) (use below in \<open>simp_all add: paths_below_def\<close>)
    from Suc.IH [OF this _ rest] lvl show ?thesis
      using False by (simp add: flush_levels.simps [of app H ord m s] contribution_def)
  qed (use Suc in \<open>simp add: flush_levels.simps contribution_def\<close>)
qed

section \<open>Applying a delta\<close>

text \<open>
  What a delta does to a directory's key: \<open>None\<close> when it cannot be applied, otherwise the entry it
  leaves, if any.
\<close>

definition dir_after :: "dir_delta \<Rightarrow> tree_entry option \<Rightarrow> tree_entry option option" where
  "dir_after d te = (case te of
     None \<Rightarrow> if sint (dd_count_delta d) \<le> 0 then None
       else Some (Some \<lparr>te_kind = Dir (dd_count_delta d) (at_least_zero (dd_bytes_delta d)),
         te_last_modified_at = dd_timestamp d, te_last_accessed_at = dd_timestamp d\<rparr>)
   | Some te \<Rightarrow> (case te_kind te of
       File _ \<Rightarrow> None
     | Dir cnt bts \<Rightarrow>
        let cnt' = at_least_zero (cnt + dd_count_delta d)
        in Some (if cnt' = 0 then None
             else Some \<lparr>te_kind = Dir cnt' (at_least_zero (bts + dd_bytes_delta d)),
               te_last_modified_at = max (te_last_modified_at te) (dd_timestamp d),
               te_last_accessed_at = max (te_last_accessed_at te) (dd_timestamp d)\<rparr>)))"

abbreviation dir_cell :: "dir_delta \<Rightarrow> kv_view \<Rightarrow> (bytes \<times> u64) option" where
  "dir_cell d v \<equiv> v TABLE_DIR_ENTRIES (dd_pk d) (tree_sort_key (dd_dir_path d))"

abbreviation delta_cell_key :: "dir_delta \<Rightarrow> string \<times> string \<times> string" where
  "delta_cell_key d \<equiv> (TABLE_DIR_ENTRIES, dd_pk d, tree_sort_key (dd_dir_path d))"

definition delta_applied :: "codecs \<Rightarrow> dir_delta \<Rightarrow> kv_view \<Rightarrow> bool \<Rightarrow> kv_view \<Rightarrow> bool" where
  "delta_applied C d v ok v' \<longleftrightarrow> (\<exists>te. stored (cs_tree C) (dir_cell d v) te \<and> (case dir_after d te of
     None \<Rightarrow> \<not> ok \<and> v' = v
   | Some None \<Rightarrow> ok \<and> v' = view_del v TABLE_DIR_ENTRIES (dd_pk d) (tree_sort_key (dd_dir_path d))
   | Some (Some te') \<Rightarrow> ok \<and> (\<exists>b. encode (cs_tree C) te' = Inr b \<and>
       v' = view_put v TABLE_DIR_ENTRIES (dd_pk d) (tree_sort_key (dd_dir_path d)) b)))"

text \<open>
  The entry at a key after the recorded applications: those to that key, one after the other.
\<close>

definition entry_after :: "delta_log \<Rightarrow> string \<times> string \<Rightarrow> tree_entry option \<Rightarrow> tree_entry option" where
  "entry_after log K te = foldl (\<lambda>x (d, r). case dir_after d x of None \<Rightarrow> x | Some y \<Rightarrow> y) te
     (filter (\<lambda>(d, r). (dd_pk d, tree_sort_key (dd_dir_path d)) = K) log)"

definition applied_log :: "codecs \<Rightarrow> delta_log \<Rightarrow> kv_view \<Rightarrow> kv_view \<Rightarrow> bool" where
  "applied_log C log v v' \<longleftrightarrow>
    (\<forall>pk sk te. (\<forall>(d, r) \<in> set log. (dd_pk d, tree_sort_key (dd_dir_path d)) = (pk, sk) \<longrightarrow> \<not> isl r) \<longrightarrow>
       stored (cs_tree C) (v TABLE_DIR_ENTRIES pk sk) te \<longrightarrow>
       stored (cs_tree C) (v' TABLE_DIR_ENTRIES pk sk) (entry_after log (pk, sk) te)) \<and>
    (\<forall>t pk sk. t \<noteq> TABLE_DIR_ENTRIES \<longrightarrow> v' t pk sk = v t pk sk)"

lemma applied_log_snoc:
  assumes log: "applied_log C log v0 v" and codec: "codec_ok (cs_tree C)"
    and step: "case r of Inl e \<Rightarrow> view_frame {delta_cell_key d} v v' | Inr ok \<Rightarrow> delta_applied C d v ok v'"
  shows "applied_log C (log @ [(d, r)]) v0 v'"
proof -
  let ?K = "(dd_pk d, tree_sort_key (dd_dir_path d))"
  have fr: "view_frame {delta_cell_key d} v v'"
  proof (cases r)
    case (Inr ok)
    with step obtain te where "case dir_after d te of None \<Rightarrow> \<not> ok \<and> v' = v
       | Some None \<Rightarrow> ok \<and> v' = view_del v TABLE_DIR_ENTRIES (dd_pk d) (tree_sort_key (dd_dir_path d))
       | Some (Some te') \<Rightarrow> ok \<and> (\<exists>b. encode (cs_tree C) te' = Inr b \<and>
           v' = view_put v TABLE_DIR_ENTRIES (dd_pk d) (tree_sort_key (dd_dir_path d)) b)"
      by (auto simp: delta_applied_def)
    then show ?thesis by (cases "dir_after d te") (auto split: option.splits)
  qed (use step in simp)
  have here: "stored (cs_tree C) (dir_cell d v') (case dir_after d te of None \<Rightarrow> te | Some y \<Rightarrow> y)"
    if r: "r = Inr ok" and te: "stored (cs_tree C) (dir_cell d v) te" for ok te
  proof -
    from step r obtain te' where te': "stored (cs_tree C) (dir_cell d v) te'"
      and cases: "case dir_after d te' of None \<Rightarrow> \<not> ok \<and> v' = v
       | Some None \<Rightarrow> ok \<and> v' = view_del v TABLE_DIR_ENTRIES (dd_pk d) (tree_sort_key (dd_dir_path d))
       | Some (Some te') \<Rightarrow> ok \<and> (\<exists>b. encode (cs_tree C) te' = Inr b \<and>
           v' = view_put v TABLE_DIR_ENTRIES (dd_pk d) (tree_sort_key (dd_dir_path d)) b)"
      by (auto simp: delta_applied_def)
    have "te' = te" by (rule stored_unique [OF te' te])
    with cases te show ?thesis
      by (auto simp: decode_encode [OF codec] split: option.splits)
  qed
  have "stored (cs_tree C) (v' TABLE_DIR_ENTRIES pk sk) (entry_after (log @ [(d, r)]) (pk, sk) te)"
    if ok: "\<forall>(d', r') \<in> set (log @ [(d, r)]). (dd_pk d', tree_sort_key (dd_dir_path d')) = (pk, sk) \<longrightarrow> \<not> isl r'"
      and te: "stored (cs_tree C) (v0 TABLE_DIR_ENTRIES pk sk) te" for pk sk te
  proof -
    have old: "stored (cs_tree C) (v TABLE_DIR_ENTRIES pk sk) (entry_after log (pk, sk) te)"
      using log ok te unfolding applied_log_def by (auto simp: split_beta)
    show ?thesis
    proof (cases "?K = (pk, sk)")
      case True
      with ok obtain x where "r = Inr x" by (cases r) auto
      with here [OF this] old True show ?thesis by (simp add: entry_after_def)
    next
      case False
      then have "v' TABLE_DIR_ENTRIES pk sk = v TABLE_DIR_ENTRIES pk sk" using fr by (auto simp: view_frame_def)
      with old False show ?thesis by (auto simp: entry_after_def)
    qed
  qed
  moreover have "v' t pk sk = v0 t pk sk" if "t \<noteq> TABLE_DIR_ENTRIES" for t pk sk
    using log fr that by (simp add: applied_log_def view_frame_def)
  ultimately show ?thesis unfolding applied_log_def by blast
qed

text \<open>
  Well-formed deltas: in the partition of their own path, with keys the backends accept. The
  propagation at shutdown keeps them so, and ends on every lawful backend.
\<close>

definition delta_wf :: "hasher \<Rightarrow> dir_delta \<Rightarrow> bool" where
  "delta_wf H d \<longleftrightarrow> delta_ok H d \<and> pk_ok (dd_repo d) \<and> sk_ok (dd_dir_path d)"

lemma delta_wf_closed: "delta_closed H (delta_wf H)"
  by (auto simp: delta_closed_def delta_wf_def delta_ok_def make_parent_delta_def join_delta_def Let_def sk_ok_parent_dir)

text \<open>
  A delta that no amount of retrying applies: its directory is missing and it does not add files, or
  an artifact sits at its key. Such a delta is put back into the propagation buffer.
\<close>

definition stuck_delta :: "codecs \<Rightarrow> kv_view \<Rightarrow> dir_delta \<Rightarrow> bool" where
  "stuck_delta C v d \<longleftrightarrow> pk_ok (dd_pk d) \<and> sk_ok (dd_dir_path d) \<and>
    (\<exists>te. stored (cs_tree C) (dir_cell d v) te \<and> dir_after d te = None)"

definition stuck_worker :: "('s \<Rightarrow> bool) \<Rightarrow> ('s \<Rightarrow> kv_view) \<Rightarrow> codecs \<Rightarrow> dir_delta \<Rightarrow> ('s, 'b) worker \<Rightarrow> bool" where
  "stuck_worker invar view C d w \<longleftrightarrow> invar (w_kv (wk_world w)) \<and> stuck_delta C (view (w_kv (wk_world w))) d \<and>
    w_dir (wk_world w) = [] \<and> w_atime (wk_world w) = [] \<and> w_store (wk_world w) = [] \<and>
    wk_stashed_dir w = None \<and> wk_stashed_atime w = None \<and>
    wk_propagation w = [(delta_key d, d)] \<and> wk_pending_store w = []"

lemma positive_delta: "\<not> sint (x :: i64) \<le> 0 \<Longrightarrow> x \<noteq> 0"
  by auto

context kv_store
begin

lemma put_dir_spec:
  assumes inv: "invar s" and pk: "pk_ok pk" and sk: "sk_ok sk" and ver: "version = map_option snd (view s t pk sk)"
  shows "wp (io_bind (io_of_result (encode c te)) (\<lambda>b. kv_put_if_version kv t pk sk b version))
    (kv_write invar view s {(t, pk, sk)} (\<lambda>ok v. ok \<and> (\<exists>b. encode c te = Inr b \<and> v = view_put (view s) t pk sk b))) s"
proof (cases "encode c te")
  case (Inr b)
  show ?thesis
    unfolding wp_bind_ok [OF Inr]
    by (rule wp_mono [OF put_if_version_spec [OF inv pk sk]]) (auto simp: kv_write_def ver Inr split: sum.splits)
qed (use inv in \<open>simp add: wp_simps\<close>)

lemma apply_dir_delta_spec:
  assumes inv: "invar s" and pk: "pk_ok (dd_pk d)" and path: "sk_ok (dd_dir_path d)"
  shows "wp (apply_dir_delta kv C d) (kv_write invar view s {delta_cell_key d} (delta_applied C d (view s))) s"
  unfolding apply_dir_delta_def Let_def
proof (rule wp_bindI [OF get_versioned_spec [OF inv pk]], goal_cases)
  case (2 x s0)
  then have s0: "invar s0" "view s0 = view s" and x: "x = dir_cell d (view s)" by auto
  have sk: "sk_ok (tree_sort_key (dd_dir_path d))" using path by simp
  note put = put_dir_spec [OF s0(1) pk sk, of _ TABLE_DIR_ENTRIES "cs_tree C", unfolded s0(2)]
  show ?case
  proof (cases x)
    case None
    then have none: "dir_cell d (view s) = None" using x by simp
    show ?thesis
    proof (cases "sint (dd_count_delta d) \<le> 0")
      case True
      then show ?thesis
        unfolding None option.case apply_to_dir_def Let_def prod.case
        by (simp add: s0 delta_applied_def none dir_after_def)
    next
      case False
      show ?thesis
        unfolding None option.case apply_to_dir_def Let_def prod.case
        by (simp only: False positive_delta [OF False] simp_thms if_False if_True option.case,
            rule wp_mono [OF put], simp add: none)
          (use False in \<open>auto simp: kv_write_def delta_applied_def none dir_after_def s0 split: sum.splits\<close>)
    qed
  next
    case (Some p)
    obtain b n where p: "p = (b, n)" by (cases p)
    have cell: "dir_cell d (view s) = Some (b, n)" using x Some p by simp
    show ?thesis
    proof (cases "decode (cs_tree C) b")
      case (Inl e)
      then show ?thesis unfolding Some p option.case prod.case wp_bind_err [OF Inl] by (simp add: s0)
    next
      case dec: (Inr te)
      have st: "stored (cs_tree C) (dir_cell d (view s)) (Some te)" by (simp add: cell dec)
      show ?thesis
        unfolding Some p option.case prod.case wp_bind_ok [OF dec]
      proof (cases "te_kind te", goal_cases)
        case entry: (2 f)
        then show ?case using st by (auto simp: s0 delta_applied_def dir_after_def)
      next
        case subdir: (1 cnt bts)
        let ?c = "at_least_zero (cnt + dd_count_delta d)"
        show ?case
        proof (cases "?c = 0")
          case True
          then have after: "dir_after d (Some te) = Some None" using subdir by (simp add: dir_after_def)
          show ?thesis
            unfolding subdir tree_entry_kind.case apply_to_dir_def Let_def option.case prod.case
            by (simp only: True simp_thms if_False if_True option.case option.distinct,
                rule wp_mono [OF delete_if_version_spec [OF s0(1) pk]])
              (use st after in \<open>auto simp: kv_write_def s0 cell delta_applied_def dec split: sum.splits\<close>)
        next
          case False
          then obtain te' where after: "dir_after d (Some te) = Some (Some te')"
            and te': "te' = \<lparr>te_kind = Dir ?c (at_least_zero (bts + dd_bytes_delta d)),
               te_last_modified_at = max (te_last_modified_at te) (dd_timestamp d),
               te_last_accessed_at = max (te_last_accessed_at te) (dd_timestamp d)\<rparr>"
            using subdir by (simp add: dir_after_def Let_def)
          show ?thesis
            unfolding subdir tree_entry_kind.case apply_to_dir_def Let_def option.case prod.case
            by (simp only: False simp_thms if_False if_True option.case option.distinct te' [symmetric],
                rule wp_mono [OF put], simp add: cell)
              (use st after in \<open>auto simp: kv_write_def s0 cell delta_applied_def dec split: sum.splits\<close>)
        qed
      qed
    qed
  qed
qed simp

lemma apply_dir_delta_returns:
  assumes "delta_wf H d" "invar s"
  shows "wp (apply_dir_delta kv C d) (\<lambda>r s'. invar s' \<and>
    (case r of Inl e \<Rightarrow> view_frame {delta_cell_key d} (view s) (view s') | Inr ok \<Rightarrow> delta_applied C d (view s) ok (view s'))) s"
proof -
  have "pk_ok (dd_pk d)" "sk_ok (dd_dir_path d)" using assms(1) by (auto simp: delta_wf_def delta_ok_def)
  from apply_dir_delta_spec [OF assms(2) this, of C] show ?thesis
    by (rule wp_mono) (simp add: kv_write_def)
qed

lemma paths_bounded: "paths_below (Suc (Max (insert 0 ((\<lambda>x. length (dd_dir_path (snd x))) ` set m)))) m"
  by (force simp: paths_below_def less_Suc_eq_le intro: Max_ge)

lemma propagation_returns:
  assumes "invar s" "deltas_all (delta_wf H) m" "\<forall>xs. mset (ord xs) = mset xs"
  shows "\<exists>s'. flush_levels (apply_dir_delta kv C) H ord m s = Some s' \<and> invar s'"
proof (rule flush_levels_returns [where P = "delta_wf H" and I = invar, OF _ delta_wf_closed assms(3) paths_bounded assms(2,1)])
  show "\<forall>d s. delta_wf H d \<longrightarrow> invar s \<longrightarrow> (\<exists>r s'. apply_dir_delta kv C d s = Some (r, s') \<and> invar s')"
    using apply_dir_delta_returns unfolding wp_iff by blast
qed

lemma propagation_logged:
  assumes inv: "invar s" and wf: "deltas_all (delta_wf H) m" "deltas_ok m" and ord: "\<forall>xs. mset (ord xs) = mset xs"
    and codec: "codec_ok (cs_tree C)"
  shows "\<exists>s' log. flush_levels (logged (apply_dir_delta kv C)) H ord m (s, []) = Some (s', log) \<and>
    flush_levels (apply_dir_delta kv C) H ord m s = Some s' \<and> invar s' \<and>
    applied_log C log (view s) (view s') \<and> (\<forall>k. log_total H k log = contribution H k m)"
proof -
  let ?I = "\<lambda>(s', log). invar s' \<and> applied_log C log (view s) (view s')"
  have step: "\<exists>r x'. logged (apply_dir_delta kv C) d x = Some (r, x') \<and> ?I x'" if d: "delta_wf H d" and Ix: "?I x" for d x
  proof -
    obtain u l where x: "x = (u, l)" "invar u" "applied_log C l (view s) (view u)" using Ix by (cases x) simp
    from apply_dir_delta_returns [OF d x(2), of C] obtain r u' where "apply_dir_delta kv C d u = Some (r, u')" "invar u'"
      "case r of Inl e \<Rightarrow> view_frame {delta_cell_key d} (view u) (view u') | Inr ok \<Rightarrow> delta_applied C d (view u) ok (view u')"
      unfolding wp_iff by blast
    with applied_log_snoc [OF x(3) codec] show ?thesis unfolding x(1) logged_def by simp
  qed
  have start: "?I (s, [])" using inv by (simp add: applied_log_def entry_after_def)
  have "\<exists>x'. flush_levels (logged (apply_dir_delta kv C)) H ord m (s, []) = Some x' \<and> ?I x'"
    by (rule flush_levels_returns [where P = "delta_wf H" and I = ?I, OF _ delta_wf_closed ord paths_bounded wf(1) start])
      (use step in blast)
  then obtain s' log where run: "flush_levels (logged (apply_dir_delta kv C)) H ord m (s, []) = Some (s', log)"
    and post: "invar s'" "applied_log C log (view s) (view s')" by auto
  have "map_ok H m" using wf by (auto simp: map_ok_def deltas_all_def delta_wf_def)
  from flush_levels_adds [OF ord paths_bounded this run] post run show ?thesis
    by (simp add: log_total_def)
qed

lemma stuck_delta_applied:
  assumes "invar s" and "stuck_delta C (view s) d"
  shows "wp (apply_dir_delta kv C d) (\<lambda>r s'. invar s' \<and> view s' = view s \<and> r \<noteq> Inr True) s"
proof -
  obtain te where pk: "pk_ok (dd_pk d)" and te: "stored (cs_tree C) (dir_cell d (view s)) te" "dir_after d te = None"
    using assms(2) by (auto simp: stuck_delta_def)
  show ?thesis
    unfolding apply_dir_delta_def Let_def
  proof (rule wp_bindI [OF get_versioned_spec [OF assms(1) pk]], goal_cases)
    case (2 x s0)
    then have s0: "invar s0" "view s0 = view s" and x: "x = dir_cell d (view s)" by auto
    show ?case
    proof (cases te)
      case None
      with te(1) x have "x = None" by (simp add: stored_def split: option.splits)
      moreover have "sint (dd_count_delta d) \<le> 0" using te(2) None by (simp add: dir_after_def split: if_splits)
      ultimately show ?thesis by (simp add: apply_to_dir_def Let_def s0)
    next
      case (Some e)
      with te(1) x obtain b n where cell: "x = Some (b, n)" and dec: "decode (cs_tree C) b = Inr e"
        by (auto simp: stored_def split: option.splits)
      from te(2) Some have "\<exists>f. te_kind e = File f"
        by (auto simp: dir_after_def Let_def split: tree_entry_kind.splits)
      then show ?thesis unfolding cell option.case prod.case wp_bind_ok [OF dec] by (auto simp: s0)
    qed
  qed simp
qed

lemma stuck_worker_pass:
  assumes "stuck_worker invar view C d w" and ord: "\<forall>xs. mset (ord xs) = mset xs"
  shows "\<exists>w'. worker_pass H kv C env now ord w = Some (True, w') \<and> stuck_worker invar view C d w'"
proof -
  have inv: "invar (w_kv (wk_world w))" and st: "stuck_delta C (view (w_kv (wk_world w))) d"
    using assms(1) by (auto simp: stuck_worker_def)
  obtain r s1 where run: "apply_dir_delta kv C d (w_kv (wk_world w)) = Some (r, s1)"
    and s1: "invar s1" "view s1 = view (w_kv (wk_world w))" "r \<noteq> Inr True"
    using stuck_delta_applied [OF inv st] by (auto simp: wp_iff)
  have single: "ord [d] = [d]" using ord [rule_format, of "[d]"] by simp
  have coll: "collect_dir w = [(delta_key d, d)]"
    using assms(1) by (simp add: stuck_worker_def collect_dir_def drain_dir_deltas_def merge_all_def merge_dir_delta_def)
  have "dir_outcome H d r = Some (RetryOutcome d)"
    using s1(3) by (auto simp: dir_outcome_def split: sum.splits bool.splits)
  then have batch: "apply_dir_batch H kv C [d] (w_kv (wk_world w)) = Some (Inr \<lparr>br_parents = [], br_retries = [d]\<rparr>, s1)"
    by (simp add: apply_dir_batch_def io_bind_def io_try_def io_return_def run parents_of_def retries_of_def)
  show ?thesis
    using assms(1) s1 batch single
    by (simp add: worker_pass_def dir_work_def coll atime_work_def store_work_def Let_def stuck_worker_def with_kv_def
        drain_atime_def drain_store_deltas_def merge_all_def merge_dir_delta_def)
qed

lemma stuck_worker_never_returns:
  assumes "stuck_worker invar view C d w" and ord: "\<forall>xs. mset (ord xs) = mset xs"
  shows "worker_drain H kv C env now ord w = None"
proof -
  have "H' = H \<longrightarrow> kv' = kv \<longrightarrow> C' = C \<longrightarrow> ord' = ord \<longrightarrow> \<not> stuck_worker invar view C d w"
    if "worker_drain H' kv' C' env' now' ord' w = Some w'" for H' kv' C' env' now' ord' w w'
  proof (rule worker_drain.raw_induct [OF _ that], intro impI notI, goal_cases)
    case (1 drain H' kv' C' env' now' ord' w w')
    then obtain w1 where "worker_pass H kv C env' now' ord w = Some (True, w1)" "stuck_worker invar view C d w1"
      using stuck_worker_pass [OF _ ord] by blast
    with 1 show False by auto
  qed
  from this [of H kv C env now ord w] assms(1) show ?thesis by (cases "worker_drain H kv C env now ord w") auto
qed

end

end
