(* ===== verification/Blob_Store.thy ===== *)
theory Blob_Store
  imports Depot_Io Depot_Keys
begin

text \<open>
  The blob store trait (\<open>core/src/store/blob.rs\<close>): its methods as a record over the state \<open>'b\<close> of
  a backend, its default methods, and the contract the callers rely on as a locale. A scan is the
  list of the items its stream yields, each a blob id with its size or an error. Streaming readers
  are represented by the bytes they deliver, and a \<open>BlobWriter\<close> by the id of the blob it writes.
\<close>

type_synonym blob_item = "(string \<times> u64) result"

record 'b blob_store =
  bs_put :: "string \<Rightarrow> bytes \<Rightarrow> ('b, u64) io"
  bs_get :: "string \<Rightarrow> ('b, bytes option) io"
  bs_open_read :: "string \<Rightarrow> ('b, (bytes \<times> u64) option) io"
  bs_exists :: "string \<Rightarrow> ('b, bool) io"
  bs_delete :: "string \<Rightarrow> ('b, unit) io"
  bs_scan_all_blobs :: "('b, blob_item list) io"
  bs_scan_shard_count :: nat
  bs_scan_blobs_sharded :: "nat \<Rightarrow> ('b, blob_item list) io"
  bs_create_writer :: "string \<Rightarrow> u64 option \<Rightarrow> ('b, unit) io"
  bs_write_chunk :: "string \<Rightarrow> bytes \<Rightarrow> ('b, unit) io"
  bs_finish :: "string \<Rightarrow> ('b, u64) io"
  bs_abort :: "string \<Rightarrow> ('b, unit) io"

definition default_scan_shard_count :: nat where
  "default_scan_shard_count = 1"

definition default_scan_blobs_sharded :: "('b, blob_item list) io \<Rightarrow> nat \<Rightarrow> ('b, blob_item list) io" where
  "default_scan_blobs_sharded scan_all_blobs shard =
    (if shard = 0 then scan_all_blobs else io_return [])"

section \<open>The contract\<close>

text \<open>
  A backend state is seen as the blobs it holds and the bytes given so far to each open writer. An
  operation on the blob \<open>i\<close> leaves every other blob and writer alone.
\<close>

type_synonym blob_view = "(string \<rightharpoonup> bytes) \<times> (string \<rightharpoonup> bytes)"

abbreviation blobs_of :: "blob_view \<Rightarrow> (string \<rightharpoonup> bytes)" where
  "blobs_of v \<equiv> fst v"

abbreviation writes_of :: "blob_view \<Rightarrow> (string \<rightharpoonup> bytes)" where
  "writes_of v \<equiv> snd v"

definition blob_frame :: "string set \<Rightarrow> blob_view \<Rightarrow> blob_view \<Rightarrow> bool" where
  "blob_frame I v v' \<longleftrightarrow> (\<forall>j. j \<notin> I \<longrightarrow> blobs_of v' j = blobs_of v j \<and> writes_of v' j = writes_of v j)"

definition blob_read ::
    "('b \<Rightarrow> bool) \<Rightarrow> ('b \<Rightarrow> blob_view) \<Rightarrow> 'b \<Rightarrow> ('a \<Rightarrow> bool) \<Rightarrow> 'a result \<Rightarrow> 'b \<Rightarrow> bool" where
  "blob_read binvar bview b Q r b' \<longleftrightarrow> binvar b' \<and> bview b' = bview b \<and> (\<forall>a. r = Inr a \<longrightarrow> Q a)"

definition blob_write ::
    "('b \<Rightarrow> bool) \<Rightarrow> ('b \<Rightarrow> blob_view) \<Rightarrow> 'b \<Rightarrow> string \<Rightarrow> ('a \<Rightarrow> blob_view \<Rightarrow> bool) \<Rightarrow>
     'a result \<Rightarrow> 'b \<Rightarrow> bool" where
  "blob_write binvar bview b i Q r b' \<longleftrightarrow>
     binvar b' \<and> blob_frame {i} (bview b) (bview b') \<and> (\<forall>a. r = Inr a \<longrightarrow> Q a (bview b'))"

lemma blob_frame_refl [simp]: "blob_frame I v v"
  by (simp add: blob_frame_def)

lemma blob_frame_trans: "blob_frame I u v \<Longrightarrow> blob_frame I v w \<Longrightarrow> blob_frame I u w"
  by (simp add: blob_frame_def)

lemma blob_frame_mono: "blob_frame I u v \<Longrightarrow> I \<subseteq> J \<Longrightarrow> blob_frame J u v"
  by (auto simp: blob_frame_def)

lemma blob_frameD: "blob_frame I v v' \<Longrightarrow> j \<notin> I \<Longrightarrow> blobs_of v' j = blobs_of v j"
  by (simp add: blob_frame_def)

lemma blob_read_simps [simp]:
  "blob_read binvar bview b Q (Inl e) b' \<longleftrightarrow> binvar b' \<and> bview b' = bview b"
  "blob_read binvar bview b Q (Inr a) b' \<longleftrightarrow> binvar b' \<and> bview b' = bview b \<and> Q a"
  by (auto simp: blob_read_def)

lemma blob_write_simps [simp]:
  "blob_write binvar bview b i Q (Inl e) b' \<longleftrightarrow> binvar b' \<and> blob_frame {i} (bview b) (bview b')"
  "blob_write binvar bview b i Q (Inr a) b' \<longleftrightarrow> binvar b' \<and> blob_frame {i} (bview b) (bview b') \<and> Q a (bview b')"
  by (auto simp: blob_write_def)

text \<open>
  A scan yields no blob twice and only blobs that are there (a backend may skip what it cannot read).
\<close>

definition scanned :: "blob_item list \<Rightarrow> (string \<times> u64) list" where
  "scanned items = concat (map (\<lambda>x. case x of Inr p \<Rightarrow> [p] | Inl _ \<Rightarrow> []) items)"

definition scan_sound :: "(string \<rightharpoonup> bytes) \<Rightarrow> blob_item list \<Rightarrow> bool" where
  "scan_sound v items \<longleftrightarrow> distinct (map fst (scanned items)) \<and> fst ` set (scanned items) \<subseteq> dom v"

locale blob_backend =
  fixes bs :: "'b blob_store" and binvar :: "'b \<Rightarrow> bool" and bview :: "'b \<Rightarrow> blob_view"
    and ok_id :: "string \<Rightarrow> bool"
  assumes present_ok: "binvar b \<Longrightarrow> blobs_of (bview b) i \<noteq> None \<Longrightarrow> ok_id i"
    and put_spec: "binvar b \<Longrightarrow> ok_id i \<Longrightarrow> wp (bs_put bs i d)
      (blob_write binvar bview b i (\<lambda>n v. n = of_nat (length d) \<and> blobs_of v i = Some d)) b"
    and get_spec: "binvar b \<Longrightarrow> ok_id i \<Longrightarrow> wp (bs_get bs i) (blob_read binvar bview b (\<lambda>x. x = blobs_of (bview b) i)) b"
    and open_read_spec: "binvar b \<Longrightarrow> ok_id i \<Longrightarrow> wp (bs_open_read bs i)
      (blob_read binvar bview b (\<lambda>x. x = map_option (\<lambda>d. (d, of_nat (length d))) (blobs_of (bview b) i))) b"
    and exists_spec: "binvar b \<Longrightarrow> ok_id i \<Longrightarrow> wp (bs_exists bs i)
      (blob_read binvar bview b (\<lambda>x. x = (blobs_of (bview b) i \<noteq> None))) b"
    and delete_spec: "binvar b \<Longrightarrow> ok_id i \<Longrightarrow> wp (bs_delete bs i)
      (blob_write binvar bview b i (\<lambda>_ v. blobs_of v i = None)) b"
    and scan_all_spec: "binvar b \<Longrightarrow> wp (bs_scan_all_blobs bs) (blob_read binvar bview b (scan_sound (blobs_of (bview b)))) b"
    and scan_sharded_spec: "binvar b \<Longrightarrow> shard < bs_scan_shard_count bs \<Longrightarrow>
      wp (bs_scan_blobs_sharded bs shard) (blob_read binvar bview b (scan_sound (blobs_of (bview b)))) b"
    and create_writer_spec: "binvar b \<Longrightarrow> ok_id i \<Longrightarrow> wp (bs_create_writer bs i hint)
      (blob_write binvar bview b i (\<lambda>_ v. writes_of v i = Some [])) b"
    and write_chunk_spec: "binvar b \<Longrightarrow> ok_id i \<Longrightarrow> writes_of (bview b) i = Some d \<Longrightarrow> wp (bs_write_chunk bs i chunk)
      (blob_write binvar bview b i (\<lambda>_ v. writes_of v i = Some (d @ chunk))) b"
    and finish_spec: "binvar b \<Longrightarrow> ok_id i \<Longrightarrow> writes_of (bview b) i = Some d \<Longrightarrow> wp (bs_finish bs i)
      (blob_write binvar bview b i (\<lambda>n v. n = of_nat (length d) \<and> blobs_of v i = Some d)) b"
    and abort_spec: "binvar b \<Longrightarrow> ok_id i \<Longrightarrow> wp (bs_abort bs i) (blob_write binvar bview b i (\<lambda>_ v. True)) b"

end
