(* ===== verification/Store_Registry.thy ===== *)
theory Store_Registry
  imports Blob_Store
begin

text \<open>
  The registry of named blob stores (\<open>core/src/store_registry.rs\<close>) and \<open>resolve_blob_store\<close>
  (\<open>server/src/server/infra/store_registry.rs\<close>). Reading is one atomic load. Adding and removing load
  the map, change a copy and store it back; the two halves of such an update are separate steps, so
  that other updates can come in between.
\<close>

type_synonym 'b registry = "string \<rightharpoonup> 'b blob_store"

definition registry_new :: "'b registry" where
  "registry_new = Map.empty"

definition registry_get :: "'b registry \<Rightarrow> string \<Rightarrow> 'b blob_store option" where
  "registry_get reg name = reg name"

text \<open>What an update computes from the map it loaded: the map to store, or nothing to do.\<close>

definition registry_add :: "string \<Rightarrow> 'b blob_store \<Rightarrow> 'b registry \<Rightarrow> 'b registry option" where
  "registry_add name store loaded = Some (loaded(name \<mapsto> store))"

definition registry_remove :: "string \<Rightarrow> 'b registry \<Rightarrow> 'b registry option" where
  "registry_remove name loaded = (if loaded name = None then None else Some (loaded(name := None)))"

text \<open>The answer of a removal, and the names.\<close>

definition registry_removed :: "string \<Rightarrow> 'b registry \<Rightarrow> bool" where
  "registry_removed name loaded \<longleftrightarrow> registry_remove name loaded \<noteq> None"

definition registry_list_names :: "'b registry \<Rightarrow> string set" where
  "registry_list_names reg = dom reg"

definition registry_store :: "'b registry option \<Rightarrow> 'b registry \<Rightarrow> 'b registry" where
  "registry_store new reg = (case new of None \<Rightarrow> reg | Some m \<Rightarrow> m)"

text \<open>An update that nobody interrupts, and two that both load before either stores.\<close>

definition registry_update :: "('b registry \<Rightarrow> 'b registry option) \<Rightarrow> 'b registry \<Rightarrow> 'b registry" where
  "registry_update f reg = registry_store (f reg) reg"

definition registry_race ::
    "('b registry \<Rightarrow> 'b registry option) \<Rightarrow> ('b registry \<Rightarrow> 'b registry option) \<Rightarrow> 'b registry \<Rightarrow> 'b registry" where
  "registry_race f g reg = registry_store (g reg) (registry_store (f reg) reg)"

definition resolve_blob_store :: "'b registry \<Rightarrow> string \<Rightarrow> 'b blob_store result" where
  "resolve_blob_store reg name = (case registry_get reg name of
     Some store \<Rightarrow> Inr store
   | None \<Rightarrow> Inl (NotFound (''blob store '' @ [CHR 0x27] @ name @ [CHR 0x27] @ '' not found'')))"

lemma registry_add_get [simp]:
  "registry_get (registry_update (registry_add name store) reg) n = (if n = name then Some store else registry_get reg n)"
  by (simp add: registry_get_def registry_update_def registry_store_def registry_add_def)

lemma registry_remove_get [simp]:
  "registry_get (registry_update (registry_remove name) reg) n = (if n = name then None else registry_get reg n)"
  by (simp add: registry_get_def registry_update_def registry_store_def registry_remove_def)

text \<open>An addition that another one overtakes is lost.\<close>

lemma registry_add_lost:
  "a \<noteq> b \<Longrightarrow> registry_get (registry_race (registry_add a s) (registry_add b t) reg) a = registry_get reg a"
  by (simp add: registry_get_def registry_race_def registry_store_def registry_add_def)

end
