(* ===== verification/Disk.thy ===== *)
theory Disk
  imports Depot_Io "HOL-Library.AList"
begin

text \<open>
  The file system below the file blob store: what the calls of \<open>std::fs\<close>, \<open>std::path\<close> and
  \<open>std::os::unix::fs::FileExt\<close> the store makes do to a disk.

  A disk is the list of its nodes by path, in the order in which directories list them. Paths are
  taken literally: two spellings of the same file (doubled slashes, \<open>..\<close>, links) are different
  paths here. Every call may fail: \<open>dk_fault n\<close> is the error of the \<open>n\<close>-th call with the number of
  bytes a failing write has written; \<open>dk_stat_fault\<close> is the same for the calls that only look at
  a node. A positioned read may return fewer bytes than asked for, though at least one while there
  are any.
\<close>

datatype node = DirNode | Reg bytes

datatype os_error = OsNotFound string | OsError io_error_kind string

fun error_of_os :: "os_error \<Rightarrow> depot_error" where
  "error_of_os (OsNotFound m) = error_of_io OtherKind m"
| "error_of_os (OsError k m) = error_of_io k m"

fun is_not_found :: "os_error \<Rightarrow> bool" where
  "is_not_found (OsNotFound _) = True"
| "is_not_found (OsError _ _) = False"

text \<open>
  The disk, with what the store objects keep beside it: the writers that are open, by path, and the
  pooled buffers, by the root of their store.
\<close>

datatype writer =
    BufferedWriter (bw_buf: bytes) (bw_pos: nat) (bw_size: u64) (bw_sync: bool)
  | DirectWriter (dw_buf: bytes) (dw_len: nat) (dw_offset: nat) (dw_total: u64) (dw_sync: bool)

record disk =
  dk_nodes :: "(string \<times> node) list"
  dk_calls :: nat
  dk_fault :: "nat \<Rightarrow> (os_error \<times> nat) option"
  dk_stat_fault :: "nat \<Rightarrow> bool"
  dk_short :: "nat \<Rightarrow> nat"
  dk_junk :: "nat \<Rightarrow> u8"
  dk_pools :: "string \<Rightarrow> bytes list"
  dk_writers :: "string \<rightharpoonup> writer"

type_synonym 'a os = "disk \<Rightarrow> (os_error + 'a) \<times> disk"

definition node_at :: "disk \<Rightarrow> string \<Rightarrow> node option" where
  "node_at s p = map_of (dk_nodes s) p"

definition set_node :: "string \<Rightarrow> node \<Rightarrow> disk \<Rightarrow> disk" where
  "set_node p n s = s\<lparr>dk_nodes := AList.update p n (dk_nodes s)\<rparr>"

definition del_node :: "string \<Rightarrow> disk \<Rightarrow> disk" where
  "del_node p s = s\<lparr>dk_nodes := AList.delete p (dk_nodes s)\<rparr>"

definition tick :: "disk \<Rightarrow> disk" where
  "tick s = s\<lparr>dk_calls := dk_calls s + 1\<rparr>"

text \<open>One call of the operating system; \<open>partial k\<close> is what a call failing after \<open>k\<close> bytes leaves.\<close>

definition os_call :: "(nat \<Rightarrow> disk \<Rightarrow> disk) \<Rightarrow> 'a os \<Rightarrow> 'a os" where
  "os_call partial f s = (case dk_fault s (dk_calls s) of
     Some (e, k) \<Rightarrow> (Inl e, partial k (tick s))
   | None \<Rightarrow> f (tick s))"

text \<open>A call whose \<open>io::Error\<close> is propagated with \<open>?\<close>.\<close>

definition os :: "'a os \<Rightarrow> (disk, 'a) io" where
  "os f s = (case f s of (Inl e, s') \<Rightarrow> Some (Inl (error_of_os e), s') | (Inr a, s') \<Rightarrow> Some (Inr a, s'))"

section \<open>Paths\<close>

text \<open>\<open>PathBuf::push\<close>, \<open>Path::parent\<close> and \<open>str::get(a..b)\<close>.\<close>

definition path_push :: "string \<Rightarrow> string \<Rightarrow> string" where
  "path_push base s = (if starts_with s ''/'' then s
     else if base = [] \<or> last base = CHR ''/'' then base @ s
     else base @ ''/'' @ s)"

definition path_parent :: "string \<Rightarrow> string option" where
  "path_parent p = (case rsplit_once CHR ''/'' p of
     None \<Rightarrow> if p = [] then None else Some []
   | Some (d, _) \<Rightarrow> Some (if d = [] then ''/'' else d))"

definition char_boundary :: "string \<Rightarrow> nat \<Rightarrow> bool" where
  "char_boundary s i \<longleftrightarrow> i = 0 \<or> i = length s \<or> i < length s \<and> \<not> utf8_cont (s ! i)"

definition str_get :: "string \<Rightarrow> nat \<Rightarrow> nat \<Rightarrow> string option" where
  "str_get s a b = (if a \<le> b \<and> b \<le> length s \<and> char_boundary s a \<and> char_boundary s b
     then Some (take (b - a) (drop a s)) else None)"

text \<open>The path itself and its ancestors below the root of the file system, the outermost first.\<close>

definition path_ancestors :: "string \<Rightarrow> string list" where
  "path_ancestors p = map (\<lambda>i. take i p) (filter (\<lambda>i. p ! i = CHR ''/'') [1..<length p]) @ [p]"

text \<open>The name of a node as an entry of a directory.\<close>

definition child_name :: "string \<Rightarrow> string \<Rightarrow> string option" where
  "child_name dir p = (case strip_prefix p (dir @ ''/'') of
     Some name \<Rightarrow> if name \<noteq> [] \<and> CHR ''/'' \<notin> set name then Some name else None
   | None \<Rightarrow> None)"

section \<open>Calls\<close>

definition is_dir_node :: "node option \<Rightarrow> bool" where
  "is_dir_node n \<longleftrightarrow> n = Some DirNode"

text \<open>\<open>Path::exists\<close> and \<open>Path::is_dir\<close>: false when the node cannot be examined.\<close>

definition path_exists :: "string \<Rightarrow> disk \<Rightarrow> bool \<times> disk" where
  "path_exists p s = (\<not> dk_stat_fault s (dk_calls s) \<and> node_at s p \<noteq> None, tick s)"

definition path_is_dir :: "string \<Rightarrow> disk \<Rightarrow> bool \<times> disk" where
  "path_is_dir p s = (\<not> dk_stat_fault s (dk_calls s) \<and> node_at s p = Some DirNode, tick s)"

definition make_dirs :: "string list \<Rightarrow> disk \<Rightarrow> disk" where
  "make_dirs ds s = foldl (\<lambda>s d. if node_at s d = None then set_node d DirNode s else s) s ds"

definition create_dir_all :: "string \<Rightarrow> unit os" where
  "create_dir_all p = os_call (\<lambda>k. make_dirs (take k (path_ancestors p))) (\<lambda>s.
     if \<exists>d \<in> set (path_ancestors p). case node_at s d of Some (Reg _) \<Rightarrow> True | _ \<Rightarrow> False
     then (Inl (OsError OtherKind ''not a directory''), s)
     else (Inr (), make_dirs (path_ancestors p) s))"

text \<open>Opening a file for writing creates or truncates it; the directory must be there.\<close>

definition file_create :: "string \<Rightarrow> unit os" where
  "file_create p = os_call (\<lambda>_ s. s) (\<lambda>s. case node_at s p of
     Some DirNode \<Rightarrow> (Inl (OsError OtherKind ''is a directory''), s)
   | Some (Reg _) \<Rightarrow> (Inr (), set_node p (Reg []) s)
   | None \<Rightarrow> if (case path_parent p of Some d \<Rightarrow> node_at s d = Some DirNode | None \<Rightarrow> False)
       then (Inr (), set_node p (Reg []) s)
       else (Inl (OsNotFound ''no such directory''), s))"

definition file_open :: "string \<Rightarrow> unit os" where
  "file_open p = os_call (\<lambda>_ s. s) (\<lambda>s. case node_at s p of
     None \<Rightarrow> (Inl (OsNotFound ''no such file''), s)
   | Some _ \<Rightarrow> (Inr (), s))"

definition file_len :: "string \<Rightarrow> nat os" where
  "file_len p = os_call (\<lambda>_ s. s) (\<lambda>s. case node_at s p of
     None \<Rightarrow> (Inl (OsNotFound ''no such file''), s)
   | Some DirNode \<Rightarrow> (Inr 4096, s)
   | Some (Reg d) \<Rightarrow> (Inr (length d), s))"

text \<open>
  Writes go to the node of the path the file was opened at; a file removed in between keeps
  accepting them without a trace. A write past the end fills the gap with zeros; offsets are signed
  64-bit numbers, and a write beyond them fails.
\<close>

definition zeros :: "nat \<Rightarrow> bytes" where
  "zeros n = replicate n (CHR 0x00)"

definition patch :: "bytes \<Rightarrow> nat \<Rightarrow> bytes \<Rightarrow> bytes" where
  "patch content off src = take off content @ zeros (off - length content) @ src @ drop (off + length src) content"

definition on_file :: "(bytes \<Rightarrow> bytes) \<Rightarrow> string \<Rightarrow> disk \<Rightarrow> disk" where
  "on_file f p s = (case node_at s p of Some (Reg d) \<Rightarrow> set_node p (Reg (f d)) s | _ \<Rightarrow> s)"

definition write_all_at :: "string \<Rightarrow> bytes \<Rightarrow> nat \<Rightarrow> unit os" where
  "write_all_at p src off = os_call (\<lambda>k. on_file (\<lambda>d. patch d off (take k src)) p)
     (\<lambda>s. if 2 ^ 63 \<le> off + length src then (Inl (OsError OtherKind ''file too large''), s)
        else (Inr (), on_file (\<lambda>d. patch d off src) p s))"

definition set_len :: "string \<Rightarrow> nat \<Rightarrow> unit os" where
  "set_len p n = os_call (\<lambda>_ s. s) (\<lambda>s. (Inr (), on_file (\<lambda>d. take n d @ zeros (n - length d)) p s))"

definition sync_all :: "string \<Rightarrow> unit os" where
  "sync_all p = os_call (\<lambda>_ s. s) (\<lambda>s. (Inr (), s))"

definition read_at :: "string \<Rightarrow> nat \<Rightarrow> nat \<Rightarrow> bytes os" where
  "read_at p len off = os_call (\<lambda>_ s. s) (\<lambda>s. case node_at s p of
     Some (Reg d) \<Rightarrow> (Inr (take (Suc (dk_short s (dk_calls s))) (take len (drop off d))), s)
   | _ \<Rightarrow> (Inl (OsError OtherKind ''is a directory''), s))"

definition fs_read :: "string \<Rightarrow> bytes os" where
  "fs_read p = os_call (\<lambda>_ s. s) (\<lambda>s. case node_at s p of
     None \<Rightarrow> (Inl (OsNotFound ''no such file''), s)
   | Some DirNode \<Rightarrow> (Inl (OsError OtherKind ''is a directory''), s)
   | Some (Reg d) \<Rightarrow> (Inr d, s))"

definition remove_file :: "string \<Rightarrow> unit os" where
  "remove_file p = os_call (\<lambda>_ s. s) (\<lambda>s. case node_at s p of
     None \<Rightarrow> (Inl (OsNotFound ''no such file''), s)
   | Some DirNode \<Rightarrow> (Inl (OsError OtherKind ''is a directory''), s)
   | Some (Reg _) \<Rightarrow> (Inr (), del_node p s))"

definition read_dir :: "string \<Rightarrow> string list os" where
  "read_dir p = os_call (\<lambda>_ s. s) (\<lambda>s. let dir = trim_end_matches CHR ''/'' p in
     case node_at s dir of
       None \<Rightarrow> (Inl (OsNotFound ''no such directory''), s)
     | Some (Reg _) \<Rightarrow> (Inl (OsError OtherKind ''not a directory''), s)
     | Some DirNode \<Rightarrow> (Inr (List.map_filter (\<lambda>(q, _). child_name dir q) (dk_nodes s)), s))"

end
