(* ===== verification/File_Blob.thy ===== *)
theory File_Blob
  imports Blob_Store Disk
begin

text \<open>
  The file blob store (\<open>blob/file/src/file_blob.rs\<close>, \<open>direct_io.rs\<close>) over the disk of \<open>Disk\<close>: blob
  paths, both write paths (buffered, and \<open>O_DIRECT\<close> through pooled aligned buffers), both read
  paths, deletion, the directory walk behind the scans, browsing and the health check.

  The store is known by its root; its pool of buffers and its open writers are kept in the disk
  state under the root and under the path of the blob. How many bytes a buffering writer of tokio
  hands on at a write is the function \<open>bufw\<close> of the amount already buffered and the new bytes. The
  buffered reader delivers the file, and the direct reader what its loop reads.
\<close>

record file_blob_store =
  fb_root :: string
  fb_sync :: bool
  fb_io_size :: nat
  fb_direct :: bool

section \<open>Aligned buffers\<close>

definition ALIGN :: u64 where
  "ALIGN = 4096"

definition round_up_align :: "u64 \<Rightarrow> u64" where
  "round_up_align n = and (n + 4095) (not 4095)"

definition round_up :: "u64 \<Rightarrow> u64" where
  "round_up n = and (n + ALIGN - 1) (not (ALIGN - 1))"

definition MAX_POOLED :: nat where
  "MAX_POOLED = 32"

definition aligned_buf_new :: "nat \<Rightarrow> disk \<Rightarrow> bytes option" where
  "aligned_buf_new n s = (if n = 0 \<or> 2 ^ 63 - unat ALIGN < n then None else Some (map (dk_junk s) [0..<n]))"

definition set_pool :: "string \<Rightarrow> bytes list \<Rightarrow> disk \<Rightarrow> disk" where
  "set_pool root bufs s = s\<lparr>dk_pools := (dk_pools s)(root := bufs)\<rparr>"

definition pool_get :: "file_blob_store \<Rightarrow> bytes os" where
  "pool_get fb s = (case last_opt (dk_pools s (fb_root fb)) of
     Some buf \<Rightarrow> (Inr buf, set_pool (fb_root fb) (butlast (dk_pools s (fb_root fb))) s)
   | None \<Rightarrow> (case aligned_buf_new (fb_io_size fb) s of
       Some buf \<Rightarrow> (Inr buf, s)
     | None \<Rightarrow> (Inl (OsError OtherKind ''failed to allocate aligned buf''), s)))"

definition pool_put :: "file_blob_store \<Rightarrow> bytes \<Rightarrow> disk \<Rightarrow> disk" where
  "pool_put fb buf s = (let pool = dk_pools s (fb_root fb) in
     if length pool < MAX_POOLED then set_pool (fb_root fb) (pool @ [buf]) s else s)"

text \<open>Assignments to a slice: copy into the front part, and zero a part if it is in range.\<close>

definition overwrite :: "bytes \<Rightarrow> nat \<Rightarrow> bytes \<Rightarrow> bytes" where
  "overwrite buf at src = take at buf @ src @ drop (at + length src) buf"

definition fill_zero :: "bytes \<Rightarrow> nat \<Rightarrow> nat \<Rightarrow> bytes" where
  "fill_zero buf a b = (if a \<le> b \<and> b \<le> length buf then overwrite buf a (zeros (b - a)) else buf)"

section \<open>Paths\<close>

definition DIR_DEPTH :: nat where
  "DIR_DEPTH = 2"

fun push_prefixes :: "string \<Rightarrow> nat list \<Rightarrow> string \<Rightarrow> string result" where
  "push_prefixes blob_id [] path = Inr path"
| "push_prefixes blob_id (i # is) path = (case str_get blob_id (i * 2) (i * 2 + 2) of
     None \<Rightarrow> Inl (DataIntegrity (''blob_id too short: '' @ blob_id))
   | Some prefix \<Rightarrow> push_prefixes blob_id is (path_push path prefix))"

definition blob_id_to_path :: "string \<Rightarrow> string \<Rightarrow> string result" where
  "blob_id_to_path root blob_id =
    (if length blob_id < DIR_DEPTH * 2 then Inl (DataIntegrity (''blob_id too short: '' @ blob_id))
     else case push_prefixes blob_id [0..<DIR_DEPTH] root of
       Inl e \<Rightarrow> Inl e
     | Inr path \<Rightarrow> Inr (path_push path blob_id))"

definition blob_path :: "file_blob_store \<Rightarrow> string \<Rightarrow> string option" where
  "blob_path fb blob_id = (case blob_id_to_path (fb_root fb) blob_id of Inl _ \<Rightarrow> None | Inr p \<Rightarrow> Some p)"

definition create_parent :: "string \<Rightarrow> (disk, unit) io" where
  "create_parent path = (case path_parent path of Some d \<Rightarrow> os (create_dir_all d) | None \<Rightarrow> io_return ())"

section \<open>Creation of the store\<close>

definition probe_direct_io :: "string \<Rightarrow> disk \<Rightarrow> bool \<times> disk" where
  "probe_direct_io root s = (let probe = path_push root ''.directio_probe'' in
     case file_create probe s of
       (r, s1) \<Rightarrow> (\<not> isl r, snd (remove_file probe s1)))"

definition file_blob_new :: "string \<Rightarrow> bool \<Rightarrow> nat \<Rightarrow> bool \<Rightarrow> (disk, file_blob_store) io" where
  "file_blob_new root sync io_size direct_io = io_bind (os (create_dir_all root)) (\<lambda>_ s.
     case (if direct_io then probe_direct_io root s else (False, s)) of
       (direct, s1) \<Rightarrow> Some (Inr \<lparr>fb_root = root, fb_sync = sync, fb_io_size = io_size, fb_direct = direct\<rparr>, s1))"

section \<open>Writing\<close>

text \<open>
  One round of the loop of \<open>put\<close>: a chunk is copied to the front of an aligned buffer, whatever was
  there before, and written up to the next multiple of the alignment with zeros behind it.
\<close>

definition put_chunk :: "file_blob_store \<Rightarrow> string \<Rightarrow> bytes \<Rightarrow> nat \<Rightarrow> nat \<Rightarrow> (disk, unit) io" where
  "put_chunk fb path data offset chunk = io_bind (os (pool_get fb)) (\<lambda>buf.
     let src = take chunk (drop offset data) in
     if length buf < chunk then io_throw (Internal ''put: buf slice OOB'')
     else let buf1 = overwrite buf 0 src;
              write_size = unat (round_up_align (of_nat chunk));
              buf2 = fill_zero buf1 chunk write_size in
       if length buf2 < write_size then io_throw (Internal ''put: write slice OOB'')
       else io_bind (os (write_all_at path (take write_size buf2) offset)) (\<lambda>_ s. Some (Inr (), pool_put fb buf2 s)))"

partial_function (option) put_loop ::
    "file_blob_store \<Rightarrow> string \<Rightarrow> bytes \<Rightarrow> nat \<Rightarrow> disk \<Rightarrow> (unit result \<times> disk) option" where
  "put_loop fb path data offset s =
    (if offset < length data then
       let chunk = min (length data - offset) (fb_io_size fb) in
       case put_chunk fb path data offset chunk s of
         None \<Rightarrow> None
       | Some (Inl e, s1) \<Rightarrow> Some (Inl e, s1)
       | Some (Inr _, s1) \<Rightarrow> put_loop fb path data (offset + chunk) s1
     else Some (Inr (), s))"

definition sync_if :: "bool \<Rightarrow> string \<Rightarrow> (disk, unit) io" where
  "sync_if sync path = (if sync then os (sync_all path) else io_return ())"

definition file_put :: "file_blob_store \<Rightarrow> string \<Rightarrow> bytes \<Rightarrow> (disk, u64) io" where
  "file_put fb blob_id data = io_bind (io_of_result (blob_id_to_path (fb_root fb) blob_id)) (\<lambda>path.
     io_bind (create_parent path) (\<lambda>_.
     io_bind (os (file_create path)) (\<lambda>_.
     if fb_direct fb then
       io_bind (put_loop fb path data 0) (\<lambda>_.
       io_bind (os (set_len path (length data))) (\<lambda>_.
       io_bind (sync_if (fb_sync fb) path) (\<lambda>_. io_return (of_nat (length data)))))
     else
       io_bind (os (write_all_at path data 0)) (\<lambda>_.
       io_bind (sync_if (fb_sync fb) path) (\<lambda>_. io_return (of_nat (length data)))))))"

section \<open>Reading\<close>

definition get_chunk :: "file_blob_store \<Rightarrow> string \<Rightarrow> nat \<Rightarrow> nat \<Rightarrow> (disk, bytes) io" where
  "get_chunk fb path file_size offset =
    (let remaining = file_size - offset; chunk = min remaining (fb_io_size fb);
         read_size = unat (round_up_align (of_nat chunk)) in
     io_bind (os (pool_get fb)) (\<lambda>buf.
     if length buf < read_size then io_throw (Internal ''get: read buf slice OOB'')
     else io_bind (os (read_at path read_size offset)) (\<lambda>got s.
       Some (Inr (take remaining got), pool_put fb (overwrite buf 0 got) s))))"

text \<open>The loop of \<open>get\<close>; it does not end when the file has become shorter than \<open>file_size\<close>.\<close>

partial_function (option) get_loop ::
    "file_blob_store \<Rightarrow> string \<Rightarrow> nat \<Rightarrow> nat \<Rightarrow> bytes \<Rightarrow> disk \<Rightarrow> (bytes result \<times> disk) option" where
  "get_loop fb path file_size offset out s =
    (if offset < file_size then
       case get_chunk fb path file_size offset s of
         None \<Rightarrow> None
       | Some (Inl e, s1) \<Rightarrow> Some (Inl e, s1)
       | Some (Inr got, s1) \<Rightarrow> get_loop fb path file_size (offset + length got) (overwrite out offset got) s1
     else Some (Inr out, s))"

text \<open>An open whose \<open>NotFound\<close> means \<open>None\<close> and whose other errors are returned.\<close>

definition open_or_none :: "string \<Rightarrow> (disk, bool) io" where
  "open_or_none path s = (case file_open path s of
     (Inr _, s1) \<Rightarrow> Some (Inr True, s1)
   | (Inl e, s1) \<Rightarrow> if is_not_found e then Some (Inr False, s1) else Some (Inl (error_of_os e), s1))"

definition read_some :: "string \<Rightarrow> (disk, bytes option) io" where
  "read_some path = io_bind (os (fs_read path)) (\<lambda>d. io_return (Some d))"

definition file_get :: "file_blob_store \<Rightarrow> string \<Rightarrow> (disk, bytes option) io" where
  "file_get fb blob_id = io_bind (io_of_result (blob_id_to_path (fb_root fb) blob_id)) (\<lambda>path.
     if fb_direct fb then
       io_bind (open_or_none path) (\<lambda>found.
       if \<not> found then io_return None
       else (\<lambda>s. case file_open path s of
         (Inl _, s1) \<Rightarrow> read_some path s1
       | (Inr _, s1) \<Rightarrow> io_bind (os (file_len path)) (\<lambda>file_size.
           io_bind (get_loop fb path file_size 0 (zeros file_size)) (\<lambda>result. io_return (Some result))) s1))
     else (\<lambda>s. case path_exists path s of
         (False, s1) \<Rightarrow> Some (Inr None, s1)
       | (True, s1) \<Rightarrow> read_some path s1))"

text \<open>
  The direct reader. \<open>rd_fill\<close> is one visit of the states \<open>Buffered\<close> (exhausted) and \<open>Reading\<close> of
  \<open>poll_read\<close>: it reads the next block; \<open>None\<close> is the state \<open>Done\<close>.
\<close>

record direct_reader =
  dr_path :: string
  dr_size :: nat
  dr_offset :: nat
  dr_buf :: bytes
  dr_pos :: nat
  dr_len :: nat
  dr_done :: bool

definition direct_reader_new :: "string \<Rightarrow> nat \<Rightarrow> bytes \<Rightarrow> direct_reader" where
  "direct_reader_new path file_size buf = \<lparr>dr_path = path, dr_size = file_size, dr_offset = 0, dr_buf = buf,
     dr_pos = 0, dr_len = 0, dr_done = (file_size = 0)\<rparr>"

definition reader_fill :: "file_blob_store \<Rightarrow> direct_reader \<Rightarrow> (disk, direct_reader) io" where
  "reader_fill fb rd =
    (let remaining = dr_size rd - dr_offset rd;
         read_size = unat (round_up (of_nat (min remaining (fb_io_size fb)))) in
     io_bind (os (pool_get fb)) (\<lambda>buf.
     if length buf < read_size then os (\<lambda>s. (Inl (OsError OtherKind ''buf too small''), s))
     else io_bind (os (read_at (dr_path rd) read_size (dr_offset rd))) (\<lambda>got s.
       let valid = min (length got) remaining in
       Some (Inr (rd\<lparr>dr_buf := overwrite buf 0 got, dr_pos := 0, dr_len := valid, dr_offset := dr_offset rd + valid\<rparr>),
         pool_put fb (dr_buf rd) s))))"

partial_function (option) poll_read ::
    "file_blob_store \<Rightarrow> nat \<Rightarrow> direct_reader \<Rightarrow> disk \<Rightarrow> ((bytes \<times> direct_reader) result \<times> disk) option" where
  "poll_read fb room rd s =
    (if dr_done rd then Some (Inr ([], rd), s)
     else if dr_pos rd < dr_len rd then
       let avail = take (dr_len rd - dr_pos rd) (drop (dr_pos rd) (dr_buf rd)); n = min (length avail) room in
       Some (Inr (take n avail, rd\<lparr>dr_pos := dr_pos rd + n\<rparr>), s)
     else if dr_size rd \<le> dr_offset rd then Some (Inr ([], rd\<lparr>dr_done := True\<rparr>), s)
     else case reader_fill fb rd s of
         None \<Rightarrow> None
       | Some (Inl e, s1) \<Rightarrow> Some (Inl e, s1)
       | Some (Inr rd', s1) \<Rightarrow> poll_read fb room rd' s1)"

text \<open>Reading to the end with a buffer of \<open>room\<close> bytes: an empty read is the end of the stream.\<close>

partial_function (option) read_to_end ::
    "file_blob_store \<Rightarrow> nat \<Rightarrow> direct_reader \<Rightarrow> bytes \<Rightarrow> disk \<Rightarrow> (bytes result \<times> disk) option" where
  "read_to_end fb room rd out s = (case poll_read fb room rd s of
     None \<Rightarrow> None
   | Some (Inl e, s1) \<Rightarrow> Some (Inl e, s1)
   | Some (Inr (got, rd'), s1) \<Rightarrow> if got = [] then Some (Inr out, s1) else read_to_end fb room rd' (out @ got) s1)"

definition file_open_read :: "file_blob_store \<Rightarrow> nat \<Rightarrow> string \<Rightarrow> (disk, (bytes \<times> u64) option) io" where
  "file_open_read fb room blob_id = io_bind (io_of_result (blob_id_to_path (fb_root fb) blob_id)) (\<lambda>path.
     io_bind (open_or_none path) (\<lambda>found.
     if \<not> found then io_return None
     else io_bind (os (file_len path)) (\<lambda>file_size.
       if fb_direct fb then
         io_bind (os (pool_get fb)) (\<lambda>buf.
         io_bind (read_to_end fb room (direct_reader_new path file_size buf) []) (\<lambda>d. io_return (Some (d, of_nat file_size))))
       else io_bind (os (fs_read path)) (\<lambda>d. io_return (Some (d, of_nat file_size))))))"

section \<open>Existence and deletion\<close>

definition file_exists :: "file_blob_store \<Rightarrow> string \<Rightarrow> (disk, bool) io" where
  "file_exists fb blob_id = io_bind (io_of_result (blob_id_to_path (fb_root fb) blob_id)) (\<lambda>path s.
     case path_exists path s of (b, s1) \<Rightarrow> Some (Inr b, s1))"

definition file_delete :: "file_blob_store \<Rightarrow> string \<Rightarrow> (disk, unit) io" where
  "file_delete fb blob_id = io_bind (io_of_result (blob_id_to_path (fb_root fb) blob_id)) (\<lambda>path s.
     case path_exists path s of
       (True, s1) \<Rightarrow> os (remove_file path) s1
     | (False, s1) \<Rightarrow> Some (Inr (), s1))"

section \<open>Streaming writers\<close>

definition get_writer :: "string \<Rightarrow> (disk, writer) io" where
  "get_writer path s = (case dk_writers s path of
     Some wr \<Rightarrow> Some (Inr wr, s)
   | None \<Rightarrow> Some (Inl (Internal ''no writer''), s))"

definition set_writer :: "string \<Rightarrow> writer option \<Rightarrow> (disk, unit) io" where
  "set_writer path wr s = Some (Inr (), s\<lparr>dk_writers := (dk_writers s)(path := wr)\<rparr>)"

definition file_create_writer :: "file_blob_store \<Rightarrow> string \<Rightarrow> u64 option \<Rightarrow> (disk, unit) io" where
  "file_create_writer fb blob_id hint = io_bind (io_of_result (blob_id_to_path (fb_root fb) blob_id)) (\<lambda>path.
     io_bind (create_parent path) (\<lambda>_.
     io_bind (os (file_create path)) (\<lambda>_.
     if fb_direct fb then
       io_bind (os (pool_get fb)) (\<lambda>buf. set_writer path (Some (DirectWriter buf 0 0 0 (fb_sync fb))))
     else set_writer path (Some (BufferedWriter [] 0 0 (fb_sync fb))))))"

text \<open>
  \<open>write_all\<close> on the buffering writer: of what is buffered and the new bytes, a first part goes to the
  file.
\<close>

definition buffered_write :: "(nat \<Rightarrow> nat \<Rightarrow> bytes \<Rightarrow> nat) \<Rightarrow> file_blob_store \<Rightarrow> string \<Rightarrow> bytes \<Rightarrow> nat \<Rightarrow> u64 \<Rightarrow> bool \<Rightarrow> bytes \<Rightarrow>
    (disk, unit) io" where
  "buffered_write bufw fb path buf pos tot sync data =
    (let n = bufw (fb_io_size fb) (length buf) data; now = take n (buf @ data) in
     io_bind (os (write_all_at path now pos)) (\<lambda>_.
     set_writer path (Some (BufferedWriter (drop n (buf @ data)) (pos + length now) (tot + of_nat (length data)) sync))))"

text \<open>\<open>flush_full\<close>: the full buffer is replaced by one of the pool and written.\<close>

definition flush_full :: "file_blob_store \<Rightarrow> string \<Rightarrow> bytes \<Rightarrow> nat \<Rightarrow> (disk, bytes) io" where
  "flush_full fb path buf offset = io_bind (os (pool_get fb)) (\<lambda>buf'.
     if length buf < fb_io_size fb then os (\<lambda>s. (Inl (OsError OtherKind ''flush buf slice OOB''), s))
     else io_bind (os (write_all_at path (take (fb_io_size fb) buf) offset)) (\<lambda>_. io_return buf'))"

text \<open>
  The loop of \<open>write_chunk\<close> over the bytes left; it returns the buffer, its fill and the file offset.
  It does not end with a full buffer at its start, which \<open>flush_full\<close> excludes unless blocks are empty.
\<close>

partial_function (option) direct_write_loop ::
    "file_blob_store \<Rightarrow> string \<Rightarrow> bytes \<Rightarrow> bytes \<Rightarrow> nat \<Rightarrow> nat \<Rightarrow> disk \<Rightarrow> ((bytes \<times> nat \<times> nat) result \<times> disk) option" where
  "direct_write_loop fb path data buf len offset s =
    (if data = [] then Some (Inr (buf, len, offset), s)
     else let n = min (length data) (fb_io_size fb - len) in
       if length buf < len + n then Some (Inl (Internal ''write_chunk buf slice OOB''), s)
       else let buf1 = overwrite buf len (take n data) in
         if len + n = fb_io_size fb then
           (case flush_full fb path buf1 offset s of
              None \<Rightarrow> None
            | Some (Inl e, s1) \<Rightarrow> Some (Inl e, s1)
            | Some (Inr buf2, s1) \<Rightarrow> direct_write_loop fb path (drop n data) buf2 0 (offset + fb_io_size fb) s1)
         else direct_write_loop fb path (drop n data) buf1 (len + n) offset s)"

text \<open>A failing loop leaves the writer as far as it got; its total is counted before the loop.\<close>

definition direct_write :: "file_blob_store \<Rightarrow> string \<Rightarrow> bytes \<Rightarrow> nat \<Rightarrow> nat \<Rightarrow> u64 \<Rightarrow> bool \<Rightarrow> bytes \<Rightarrow> (disk, unit) io" where
  "direct_write fb path buf len offset tot sync data =
    io_bind (set_writer path (Some (DirectWriter buf len offset (tot + of_nat (length data)) sync))) (\<lambda>_.
    io_bind (direct_write_loop fb path data buf len offset) (\<lambda>(buf', len', offset').
    set_writer path (Some (DirectWriter buf' len' offset' (tot + of_nat (length data)) sync))))"

definition file_write_chunk :: "(nat \<Rightarrow> nat \<Rightarrow> bytes \<Rightarrow> nat) \<Rightarrow> file_blob_store \<Rightarrow> string \<Rightarrow> bytes \<Rightarrow> (disk, unit) io" where
  "file_write_chunk bufw fb blob_id data = io_bind (io_of_result (blob_id_to_path (fb_root fb) blob_id)) (\<lambda>path.
     io_bind (get_writer path) (\<lambda>wr. case wr of
       BufferedWriter buf pos tot sync \<Rightarrow> buffered_write bufw fb path buf pos tot sync data
     | DirectWriter buf len offset tot sync \<Rightarrow> direct_write fb path buf len offset tot sync data))"

definition direct_finish :: "file_blob_store \<Rightarrow> string \<Rightarrow> bytes \<Rightarrow> nat \<Rightarrow> nat \<Rightarrow> u64 \<Rightarrow> bool \<Rightarrow> (disk, u64) io" where
  "direct_finish fb path buf len offset tot sync = io_bind
     (if 0 < len then
        (let write_size = unat (round_up (of_nat len)); buf1 = fill_zero buf len write_size in
         io_bind (os (pool_get fb)) (\<lambda>buf'.
         if length buf1 < write_size then os (\<lambda>s. (Inl (OsError OtherKind ''finish buf slice OOB''), s))
         else io_bind (os (write_all_at path (take write_size buf1) offset)) (\<lambda>_. io_return buf')))
      else io_return buf) (\<lambda>buf'.
     io_bind (os (set_len path (unat tot))) (\<lambda>_.
     io_bind (sync_if sync path) (\<lambda>_.
     io_bind (os (pool_get fb)) (\<lambda>_ s. Some (Inr tot, pool_put fb buf' s)))))"

definition file_finish :: "file_blob_store \<Rightarrow> string \<Rightarrow> (disk, u64) io" where
  "file_finish fb blob_id = io_bind (io_of_result (blob_id_to_path (fb_root fb) blob_id)) (\<lambda>path.
     io_bind (get_writer path) (\<lambda>wr.
     io_bind (set_writer path None) (\<lambda>_. case wr of
       BufferedWriter buf pos tot sync \<Rightarrow>
         io_bind (os (write_all_at path buf pos)) (\<lambda>_.
         io_bind (if sync then io_bind (os (file_open path)) (\<lambda>_. os (sync_all path)) else io_return ()) (\<lambda>_.
         io_return tot))
     | DirectWriter buf len offset tot sync \<Rightarrow> direct_finish fb path buf len offset tot sync)))"

definition file_abort :: "file_blob_store \<Rightarrow> string \<Rightarrow> (disk, unit) io" where
  "file_abort fb blob_id = io_bind (io_of_result (blob_id_to_path (fb_root fb) blob_id)) (\<lambda>path.
     io_bind (get_writer path) (\<lambda>wr.
     io_bind (set_writer path None) (\<lambda>_ s. Some (Inr (), snd (remove_file path
       (case wr of BufferedWriter _ _ _ _ \<Rightarrow> s | DirectWriter buf _ _ _ _ \<Rightarrow> pool_put fb buf s))))))"

section \<open>Scans\<close>

fun collect :: "('a \<Rightarrow> disk \<Rightarrow> 'b list \<times> disk) \<Rightarrow> 'a list \<Rightarrow> disk \<Rightarrow> 'b list \<times> disk" where
  "collect f [] s = ([], s)"
| "collect f (x # xs) s = (case f x s of (ys, s1) \<Rightarrow> case collect f xs s1 of (zs, s2) \<Rightarrow> (ys @ zs, s2))"

definition has_prefixes :: "string list \<Rightarrow> string \<Rightarrow> bool" where
  "has_prefixes prefixes blob_id \<longleftrightarrow>
     (\<forall>(i, prefix) \<in> set (enumerate 0 prefixes). str_get blob_id (i * 2) (i * 2 + 2) = Some prefix)"

definition walk_leaf :: "string \<Rightarrow> string list \<Rightarrow> string \<Rightarrow> disk \<Rightarrow> blob_item list \<times> disk" where
  "walk_leaf dir prefixes fname s =
    (if \<not> has_prefixes prefixes fname then ([], s)
     else case file_len (path_push dir fname) s of
       (r, s1) \<Rightarrow> ([Inr (fname, case r of Inl _ \<Rightarrow> 0 | Inr n \<Rightarrow> of_nat n)], s1))"

primrec walk_blob_level :: "nat \<Rightarrow> string \<Rightarrow> string list \<Rightarrow> disk \<Rightarrow> blob_item list \<times> disk" where
  "walk_blob_level 0 = (\<lambda>dir prefixes s. case read_dir dir s of
     (Inl _, s1) \<Rightarrow> ([], s1)
   | (Inr names, s1) \<Rightarrow> collect (walk_leaf dir prefixes) names s1)"
| "walk_blob_level (Suc depth) = (\<lambda>dir prefixes s. case read_dir dir s of
     (Inl _, s1) \<Rightarrow> ([], s1)
   | (Inr names, s1) \<Rightarrow> collect (\<lambda>name s2.
       if length name \<noteq> 2 then ([], s2)
       else case path_is_dir (path_push dir name) s2 of
         (False, s3) \<Rightarrow> ([], s3)
       | (True, s3) \<Rightarrow> walk_blob_level depth (path_push dir name) (prefixes @ [name]) s3) names s1)"

definition file_scan_all_blobs :: "file_blob_store \<Rightarrow> (disk, blob_item list) io" where
  "file_scan_all_blobs fb s = (case walk_blob_level 2 (fb_root fb) [] s of (items, s1) \<Rightarrow> Some (Inr items, s1))"

definition hex_digit :: "nat \<Rightarrow> char" where
  "hex_digit d = ''0123456789abcdef'' ! d"

fun hex :: "nat \<Rightarrow> string" where
  "hex n = (if n < 16 then [hex_digit n] else hex (n div 16) @ [hex_digit (n mod 16)])"

declare hex.simps [simp del]

definition hex2 :: "nat \<Rightarrow> string" where
  "hex2 n = (let s = hex n in replicate (2 - length s) (CHR ''0'') @ s)"

definition file_scan_shard_count :: nat where
  "file_scan_shard_count = 256"

definition file_scan_blobs_sharded :: "file_blob_store \<Rightarrow> nat \<Rightarrow> (disk, blob_item list) io" where
  "file_scan_blobs_sharded fb shard s = (let prefix = hex2 shard; shard_dir = path_push (fb_root fb) prefix in
     case path_is_dir shard_dir s of
       (False, s1) \<Rightarrow> Some (Inr [], s1)
     | (True, s1) \<Rightarrow> (case walk_blob_level 1 shard_dir [prefix] s1 of (items, s2) \<Rightarrow> Some (Inr items, s2)))"

section \<open>Browsing and the health check\<close>

record browse_entry =
  be_name :: string
  be_is_dir :: bool
  be_size :: "u64 option"

definition browse_one :: "string \<Rightarrow> string \<Rightarrow> disk \<Rightarrow> browse_entry \<times> disk" where
  "browse_one base name s = (case file_len (path_push base name) s of
     (Inl _, s1) \<Rightarrow> (\<lparr>be_name = name, be_is_dir = False, be_size = None\<rparr>, s1)
   | (Inr n, s1) \<Rightarrow> (let is_dir = (node_at s1 (path_push base name) = Some DirNode) in
       (\<lparr>be_name = name, be_is_dir = is_dir, be_size = (if is_dir then None else Some (of_nat n))\<rparr>, s1)))"

fun browse_all :: "string \<Rightarrow> string list \<Rightarrow> disk \<Rightarrow> browse_entry list \<times> disk" where
  "browse_all base [] s = ([], s)"
| "browse_all base (n # ns) s = (case browse_one base n s of (e, s1) \<Rightarrow>
     case browse_all base ns s1 of (es, s2) \<Rightarrow> (e # es, s2))"

definition browse_sort :: "browse_entry list \<Rightarrow> browse_entry list" where
  "browse_sort es = sort_key be_name (filter be_is_dir es) @ sort_key be_name (filter (\<lambda>e. \<not> be_is_dir e) es)"

definition file_browse_prefix :: "file_blob_store \<Rightarrow> string \<Rightarrow> (disk, browse_entry list) io" where
  "file_browse_prefix fb prefix s =
    (let base = path_push (fb_root fb) (trim_start_matches CHR ''/'' prefix) in
     case read_dir base s of
       (Inl e, s1) \<Rightarrow> if is_not_found e then Some (Inr [], s1) else Some (Inl (error_of_os e), s1)
     | (Inr names, s1) \<Rightarrow> (case browse_all base names s1 of (es, s2) \<Rightarrow> Some (Inr (browse_sort es), s2)))"

definition map_health :: "string \<Rightarrow> (disk, 'a) io \<Rightarrow> (disk, 'a) io" where
  "map_health what m s = (case m s of
     None \<Rightarrow> None
   | Some (Inl e, s1) \<Rightarrow> Some (Inl (Internal (''health_check '' @ what @ '': '' @ error_to_string e)), s1)
   | Some (Inr a, s1) \<Rightarrow> Some (Inr a, s1))"

definition health_check_inner :: "file_blob_store \<Rightarrow> string \<Rightarrow> bytes \<Rightarrow> (disk, unit) io" where
  "health_check_inner fb check_id test_data = io_bind (map_health ''get'' (file_get fb check_id)) (\<lambda>got.
     case got of
       None \<Rightarrow> io_throw (Internal ''health_check get: blob not found after successful put'')
     | Some d \<Rightarrow> if d \<noteq> test_data then io_throw (Internal ''health_check get: returned unexpected data'')
       else (case (str_get check_id 0 2, str_get check_id 2 4) of
         (Some d1, Some d2) \<Rightarrow>
           io_bind (map_health ''list'' (file_browse_prefix fb (d1 @ ''/'' @ d2 @ ''/''))) (\<lambda>entries.
           if \<not> list_ex (\<lambda>e. be_name e = check_id) entries
           then io_throw (Internal (''health_check list: blob not found in directory listing ('' @
             decimal (length entries) @ '' entries)''))
           else io_bind (map_health ''delete'' (file_delete fb check_id)) (\<lambda>_.
             io_bind (map_health ''delete verify'' (file_exists fb check_id)) (\<lambda>there.
             if there then io_throw (Internal ''health_check delete verify: blob still exists'')
             else io_return ())))
       | _ \<Rightarrow> io_throw (Internal ''health_check list: blob id too short for directory layout'')))"

definition file_health_check :: "file_blob_store \<Rightarrow> string \<Rightarrow> (disk, unit) io" where
  "file_health_check fb uuid = (let check_id = ''_depot_health_'' @ uuid; test_data = ''depot-health-check'' in
     io_bind (map_health ''put'' (file_put fb check_id test_data)) (\<lambda>_.
     io_bind (io_try (health_check_inner fb check_id test_data)) (\<lambda>inner.
     if isl inner then io_bind (io_try (file_delete fb check_id)) (\<lambda>_. io_of_result inner)
     else io_of_result inner)))"

definition file_blob_ops :: "(nat \<Rightarrow> nat \<Rightarrow> bytes \<Rightarrow> nat) \<Rightarrow> nat \<Rightarrow> file_blob_store \<Rightarrow> disk blob_store" where
  "file_blob_ops bufw room fb = \<lparr>
     bs_put = file_put fb, bs_get = file_get fb, bs_open_read = file_open_read fb room, bs_exists = file_exists fb,
     bs_delete = file_delete fb, bs_scan_all_blobs = file_scan_all_blobs fb,
     bs_scan_shard_count = file_scan_shard_count, bs_scan_blobs_sharded = file_scan_blobs_sharded fb,
     bs_create_writer = file_create_writer fb, bs_write_chunk = file_write_chunk bufw fb, bs_finish = file_finish fb,
     bs_abort = file_abort fb\<rparr>"

end
