(* ===== verification/File_Layout.thy ===== *)
theory File_Layout
  imports File_Blob
begin

text \<open>
  Reasoning about the file blob store: what the calls of the file system do to the nodes of a disk,
  the layout of blob paths, the invariant of a disk with the stores at given roots, the blobs and the
  open writers a store sees, and what an operation on one blob may touch.
\<close>

section \<open>Nodes\<close>

named_theorems disk_simps \<open>what the calls do to the nodes and the writers\<close>

lemma node_at_simps [simp, disk_simps]:
  "node_at (set_node p n s) q = (if q = p then Some n else node_at s q)"
  "node_at (del_node p s) q = (if q = p then None else node_at s q)"
  "node_at (tick s) q = node_at s q"
  "node_at (pool_put fb buf s) q = node_at s q"
  "node_at (set_pool r bufs s) q = node_at s q"
  "node_at (s\<lparr>dk_writers := ws\<rparr>) q = node_at s q"
  by (simp_all add: node_at_def set_node_def del_node_def tick_def pool_put_def set_pool_def Let_def
      update_conv' delete_conv')

lemma node_at_on_file [simp, disk_simps]: "node_at (on_file f p s) q = (if q = p then
    (case node_at s p of Some (Reg d) \<Rightarrow> Some (Reg (f d)) | n \<Rightarrow> n) else node_at s q)"
  by (simp add: on_file_def split: option.splits node.splits)

lemma node_at_make_dirs [simp, disk_simps]:
  "node_at (make_dirs ds s) q = (if q \<in> set ds \<and> node_at s q = None then Some DirNode else node_at s q)"
proof -
  let ?f = "\<lambda>s d. if node_at s d = None then set_node d DirNode s else s"
  have "node_at (foldl ?f s ds) q = (if q \<in> set ds \<and> node_at s q = None then Some DirNode else node_at s q)"
    by (induction ds arbitrary: s) auto
  then show ?thesis by (simp add: make_dirs_def)
qed

text \<open>What stays the same under every call: how the disk fails, and that paths are listed once.\<close>

definition conf :: "disk \<Rightarrow> (nat \<Rightarrow> (os_error \<times> nat) option) \<times> (nat \<Rightarrow> bool)" where
  "conf s = (dk_fault s, dk_stat_fault s)"

definition paths_once :: "disk \<Rightarrow> bool" where
  "paths_once s \<longleftrightarrow> distinct (map fst (dk_nodes s))"

lemma conf_simps [simp, disk_simps]:
  "conf (set_node p n s) = conf s" "conf (del_node p s) = conf s" "conf (tick s) = conf s"
  "conf (pool_put fb buf s) = conf s" "conf (set_pool r bufs s) = conf s" "conf (s\<lparr>dk_writers := ws\<rparr>) = conf s"
  by (simp_all add: conf_def set_node_def del_node_def tick_def pool_put_def set_pool_def Let_def)

lemma paths_once_simps [simp, disk_simps]:
  "paths_once (tick s) = paths_once s" "paths_once (pool_put fb buf s) = paths_once s"
  "paths_once (set_pool r bufs s) = paths_once s" "paths_once (s\<lparr>dk_writers := ws\<rparr>) = paths_once s"
  by (simp_all add: paths_once_def tick_def pool_put_def set_pool_def Let_def)

lemma paths_once_step [simp, intro]:
  "paths_once s \<Longrightarrow> paths_once (set_node p n s)" "paths_once s \<Longrightarrow> paths_once (del_node p s)"
  by (simp_all add: paths_once_def set_node_def del_node_def distinct_update distinct_delete)

lemma writers_simps [simp, disk_simps]:
  "dk_writers (set_node p n s) = dk_writers s" "dk_writers (del_node p s) = dk_writers s" "dk_writers (tick s) = dk_writers s"
  "dk_writers (pool_put fb buf s) = dk_writers s" "dk_writers (set_pool r bufs s) = dk_writers s"
  by (simp_all add: set_node_def del_node_def tick_def pool_put_def set_pool_def Let_def)

lemma on_file_simps [simp, disk_simps]:
  "conf (on_file f p s) = conf s" "dk_writers (on_file f p s) = dk_writers s"
  "paths_once s \<Longrightarrow> paths_once (on_file f p s)"
  by (simp_all add: on_file_def split: option.splits node.splits)

lemma make_dirs_simps [simp, disk_simps]:
  "conf (make_dirs ds s) = conf s" "dk_writers (make_dirs ds s) = dk_writers s"
  "paths_once s \<Longrightarrow> paths_once (make_dirs ds s)"
proof -
  let ?f = "\<lambda>s d. if node_at s d = None then set_node d DirNode s else s"
  have "conf (foldl ?f s ds) = conf s \<and> dk_writers (foldl ?f s ds) = dk_writers s \<and> (paths_once s \<longrightarrow> paths_once (foldl ?f s ds))"
    by (induction ds arbitrary: s) auto
  then show "conf (make_dirs ds s) = conf s" "dk_writers (make_dirs ds s) = dk_writers s"
    "paths_once s \<Longrightarrow> paths_once (make_dirs ds s)"
    by (simp_all add: make_dirs_def)
qed

section \<open>Calls as steps\<close>

lemma wp_os [wp_simps]: "wp (os f) Q s \<longleftrightarrow> (case f s of (Inl e, s') \<Rightarrow> Q (Inl (error_of_os e)) s' | (Inr a, s') \<Rightarrow> Q (Inr a) s')"
  by (auto simp: wp_def os_def split: prod.splits sum.splits)

lemma wp_os_call:
  assumes "\<And>e k. Q (Inl e) (partial k (tick s))" and "wp (os f) Q (tick s)"
  shows "wp (os (os_call partial f)) Q s"
  using assms by (auto simp: wp_os os_call_def split: option.splits)

lemma wp_step: "wp (\<lambda>s. Some (r s, f s)) Q s \<longleftrightarrow> Q (r s) (f s)"
  by (simp add: wp_def)

text \<open>A call that only looks.\<close>

definition looked :: "disk \<Rightarrow> disk \<Rightarrow> bool" where
  "looked s s' \<longleftrightarrow> conf s' = conf s \<and> node_at s' = node_at s \<and> dk_writers s' = dk_writers s \<and> (paths_once s \<longrightarrow> paths_once s')"

lemma looked_refl [simp]: "looked s s"
  by (simp add: looked_def)

lemma looked_trans: "looked s s1 \<Longrightarrow> looked s1 s2 \<Longrightarrow> looked s s2"
  by (simp add: looked_def)

lemma looked_tick [simp]: "looked s (tick s)" "looked s (pool_put fb buf s)" "looked s (set_pool r bufs s)"
  by (simp_all add: looked_def fun_eq_iff)

lemma looked_step: "looked s s1 \<Longrightarrow> looked s (tick s1)" "looked s s1 \<Longrightarrow> looked s (pool_put fb buf s1)"
  by (auto elim: looked_trans)

lemma pool_get_spec: "wp (os (pool_get fb)) (\<lambda>r. looked s) s"
  by (auto simp: wp_os pool_get_def split: option.splits)

lemma read_at_spec: "node_at s p = Some (Reg d) \<Longrightarrow>
    wp (os (read_at p len off)) (\<lambda>r s'. looked s s' \<and>
      (\<forall>got. r = Inr got \<longrightarrow> (\<exists>k. got = take (Suc k) (take len (drop off d))))) s"
  unfolding read_at_def by (rule wp_os_call) (auto simp: wp_os)

lemma read_at_looked: "wp (os (read_at p len off)) (\<lambda>r. looked s) s"
  unfolding read_at_def by (rule wp_os_call) (auto simp: wp_os split: option.splits node.splits)

lemma file_len_spec: "wp (os (file_len p)) (\<lambda>r s'. looked s s' \<and> (\<forall>d n. node_at s p = Some (Reg d) \<longrightarrow> r = Inr n \<longrightarrow> n = length d)) s"
  unfolding file_len_def by (rule wp_os_call) (auto simp: wp_os split: option.splits node.splits)

lemma fs_read_spec: "wp (os (fs_read p)) (\<lambda>r s'. looked s s' \<and> (\<forall>x. r = Inr x \<longrightarrow> node_at s p = Some (Reg x))) s"
  unfolding fs_read_def by (rule wp_os_call) (auto simp: wp_os split: option.splits node.splits)

lemma sync_if_spec: "wp (sync_if b p) (\<lambda>r. looked s) s"
proof (cases b)
  case True
  have "wp (os (sync_all p)) (\<lambda>r. looked s) s"
    unfolding sync_all_def by (rule wp_os_call) (auto simp: wp_os)
  then show ?thesis using True by (simp add: sync_if_def)
qed (simp add: sync_if_def)

text \<open>
  The failures of the disk considered here: examining a node works, and a failing call on a file that
  is there does not report it missing.
\<close>

definition fair :: "disk \<Rightarrow> bool" where
  "fair s \<longleftrightarrow> (\<forall>n. \<not> dk_stat_fault s n) \<and> (\<forall>n e k. dk_fault s n = Some (e, k) \<longrightarrow> \<not> is_not_found e)"

lemma fair_conf: "conf s' = conf s \<Longrightarrow> fair s' = fair s"
  by (simp add: fair_def conf_def)

lemma looked_fair: "looked s s' \<Longrightarrow> fair s' = fair s"
  by (rule fair_conf) (simp add: looked_def)

lemma open_or_none_spec:
  "fair s \<Longrightarrow> wp (open_or_none p) (\<lambda>r s'. looked s s' \<and> (\<forall>b. r = Inr b \<longrightarrow> b = (node_at s p \<noteq> None))) s"
  by (auto simp: open_or_none_def wp_def file_open_def os_call_def fair_def split: option.splits)

lemma path_exists_fair: "fair s \<Longrightarrow> path_exists p s = (node_at s p \<noteq> None, tick s)"
  by (simp add: path_exists_def fair_def)

section \<open>Alignment\<close>

lemma round_up_eq: "round_up = round_up_align"
proof
  show "round_up n = round_up_align n" for n
    by (simp add: round_up_def round_up_align_def ALIGN_def add.commute)
qed

text \<open>Rounding up never rounds below, as long as the sum does not wrap.\<close>

lemma round_up_ge:
  assumes "n + 4095 < 2 ^ 64"
  shows "n \<le> unat (round_up_align (of_nat n))"
proof -
  define x :: u64 where "x = of_nat n + 4095"
  have m: "(4095 :: u64) = mask 12" by (simp add: mask_eq_decr_exp)
  have x: "unat x = n + 4095"
    using assms by (simp add: x_def unat_word_ariths(1) unat_of_nat take_bit_eq_mod)
  have "x - take_bit 12 x = and x (not (take_bit 12 x))"
    by (rule disjunctive_diff_eq_and_not) (auto simp: bit_eq_iff bit_simps)
  also have "\<dots> = and x (not (mask 12))"
    by (auto simp: bit_eq_iff bit_simps)
  finally have eq: "round_up_align (of_nat n) = x - take_bit 12 x"
    by (simp add: round_up_align_def x_def m)
  have le: "unat (take_bit 12 x) \<le> 4095"
    unfolding unsigned_take_bit_eq by (simp add: take_bit_eq_mod)
  then have "unat (x - take_bit 12 x) = unat x - unat (take_bit 12 x)"
    using x by (intro unat_sub) (simp add: word_le_nat_alt)
  then show ?thesis using eq x le by simp
qed

section \<open>Blob paths\<close>

definition bpath :: "string \<Rightarrow> string \<Rightarrow> string" where
  "bpath r i = r @ ''/'' @ take 2 i @ ''/'' @ take 2 (drop 2 i) @ ''/'' @ i"

text \<open>A blob id as the store can hold it; \<open>file_id_ok\<close> excludes the ids whose path leaves the root.\<close>

definition shaped :: "string \<Rightarrow> bool" where
  "shaped i \<longleftrightarrow> 4 \<le> length i \<and> CHR ''/'' \<notin> set i \<and> char_boundary i 2 \<and> char_boundary i 4"

definition file_id_ok :: "string \<Rightarrow> bool" where
  "file_id_ok i \<longleftrightarrow> shaped i \<and> take 2 i \<noteq> ''..'' \<and> take 2 (drop 2 i) \<noteq> ''..'' \<and> CHR 0x00 \<notin> set i"

definition root_ok :: "string \<Rightarrow> bool" where
  "root_ok r \<longleftrightarrow> r \<noteq> [] \<and> last r \<noteq> CHR ''/''"

lemma path_push_plain: "root_ok r \<Longrightarrow> CHR ''/'' \<notin> set s \<Longrightarrow> path_push r s = r @ ''/'' @ s"
  by (cases s) (auto simp: path_push_def root_ok_def)

lemma root_ok_push [simp]: "root_ok (r @ CHR ''/'' # s) \<longleftrightarrow> s \<noteq> [] \<and> last s \<noteq> CHR ''/''"
  by (auto simp: root_ok_def)

lemma last_neq: "c \<notin> set s \<Longrightarrow> s \<noteq> [] \<Longrightarrow> last s \<noteq> c"
  by (metis last_in_set)

lemma not_in_take: "c \<notin> set s \<Longrightarrow> c \<notin> set (take n s)" "c \<notin> set s \<Longrightarrow> c \<notin> set (drop n s)"
  by (auto dest: in_set_takeD in_set_dropD)

lemma path_of_id:
  assumes "root_ok r" "shaped i"
  shows "blob_id_to_path r i = Inr (bpath r i)"
proof -
  have i: "4 \<le> length i" "CHR ''/'' \<notin> set i" "char_boundary i 2" "char_boundary i 4" using assms(2) by (auto simp: shaped_def)
  have g: "str_get i 0 2 = Some (take 2 i)" "str_get i 2 4 = Some (take 2 (drop 2 i))"
    using i by (simp_all add: str_get_def char_boundary_def)
  let ?a = "take 2 i" and ?b = "take 2 (drop 2 i)"
  have n: "?a \<noteq> []" "?b \<noteq> []" "CHR ''/'' \<notin> set ?a" "CHR ''/'' \<notin> set ?b"
    using i by (auto dest: in_set_takeD in_set_dropD)
  have p1: "path_push r ?a = r @ CHR ''/'' # ?a" using path_push_plain [OF assms(1) n(3)] by simp
  have r1: "root_ok (r @ CHR ''/'' # ?a)" using n last_neq [OF n(3)] by simp
  have p2: "path_push (r @ CHR ''/'' # ?a) ?b = r @ CHR ''/'' # ?a @ CHR ''/'' # ?b" using path_push_plain [OF r1 n(4)] by simp
  have r2: "root_ok (r @ CHR ''/'' # ?a @ CHR ''/'' # ?b)" using n last_neq [OF n(4)] by (simp add: root_ok_def)
  have p3: "path_push (r @ CHR ''/'' # ?a @ CHR ''/'' # ?b) i = bpath r i"
    using path_push_plain [OF r2 i(2)] by (simp add: bpath_def)
  have e: "[0..<DIR_DEPTH] = [0, 1]" by (simp add: DIR_DEPTH_def upt_rec)
  have "push_prefixes i [0, 1] r = Inr (r @ CHR ''/'' # ?a @ CHR ''/'' # ?b)"
    using g p1 p2 by (simp flip: numeral_2_eq_2)
  then show ?thesis
    unfolding blob_id_to_path_def e using i p3 by (simp add: DIR_DEPTH_def)
qed

lemma bpath_inject: "shaped i \<Longrightarrow> shaped j \<Longrightarrow> bpath r i = bpath r' j \<longleftrightarrow> r = r' \<and> i = j"
proof
  assume sh: "shaped i" "shaped j" and eq: "bpath r i = bpath r' j"
  have sp: "rsplit_next CHR ''/'' (bpath r i) = i" if "shaped i" for r i
    using that rsplit_next_append [of "CHR ''/''" i "r @ ''/'' @ take 2 i @ ''/'' @ take 2 (drop 2 i)"] 
    by (simp add: bpath_def shaped_def)
  have "i = j" using sp [OF sh(1), of r] sp [OF sh(2), of r'] eq by simp
  then show "r = r' \<and> i = j" using eq by (simp add: bpath_def)
qed simp

text \<open>The two directories above a blob.\<close>

definition bdirs :: "string \<Rightarrow> string \<Rightarrow> string list" where
  "bdirs r i = [r @ ''/'' @ take 2 i, r @ ''/'' @ take 2 i @ ''/'' @ take 2 (drop 2 i)]"

lemma parent_bpath: "root_ok r \<Longrightarrow> shaped i \<Longrightarrow> path_parent (bpath r i) = Some (last (bdirs r i))"
proof -
  assume "root_ok r" "shaped i"
  then have "rsplit_once CHR ''/'' (bpath r i) = Some (r @ ''/'' @ take 2 i @ ''/'' @ take 2 (drop 2 i), i)"
    using rsplit_once_append [of "CHR ''/''" i "r @ ''/'' @ take 2 i @ ''/'' @ take 2 (drop 2 i)"]
    by (simp add: bpath_def shaped_def)
  then show ?thesis by (simp add: path_parent_def bdirs_def)
qed

lemma path_ancestors_push:
  assumes "a \<noteq> []" "CHR ''/'' \<notin> set b"
  shows "path_ancestors (a @ CHR ''/'' # b) = path_ancestors a @ [a @ CHR ''/'' # b]"
proof -
  let ?p = "a @ CHR ''/'' # b" and ?c = "CHR ''/''"
  have "[1..<length ?p] = [1..<length a] @ [length a] @ [Suc (length a)..<length ?p]"
    using assms(1) by (metis (no_types, lifting) One_nat_def Suc_leI append_Cons append_Nil le_add1 length_append
        length_greater_0_conv lessI list.size(4) add_Suc_right upt_add_eq_append upt_conv_Cons upt_rec less_add_Suc1)
  moreover have "filter (\<lambda>i. ?p ! i = ?c) [Suc (length a)..<length ?p] = []"
  proof -
    have "?p ! i \<noteq> ?c" if "Suc (length a) \<le> i" "i < length ?p" for i
    proof -
      have "?p ! i = b ! (i - Suc (length a))" using that by (simp add: nth_append)
      moreover have "b ! (i - Suc (length a)) \<in> set b" using that by (intro nth_mem) simp
      ultimately show ?thesis using assms(2) by metis
    qed
    then show ?thesis by (auto simp: filter_empty_conv simp del: upt_Suc)
  qed
  moreover have "filter (\<lambda>i. ?p ! i = ?c) [1..<length a] = filter (\<lambda>i. a ! i = ?c) [1..<length a]"
    by (rule filter_cong) (auto simp: nth_append)
  ultimately show ?thesis
    by (auto simp: path_ancestors_def nth_append)
qed

lemma path_ancestors_bdirs: "root_ok r \<Longrightarrow> shaped i \<Longrightarrow> path_ancestors (last (bdirs r i)) = path_ancestors r @ bdirs r i"
proof -
  assume r: "root_ok r" and i: "shaped i"
  have n: "CHR ''/'' \<notin> set (take 2 i)" "CHR ''/'' \<notin> set (take 2 (drop 2 i))"
    using i by (auto simp: shaped_def dest: in_set_takeD in_set_dropD)
  have "r \<noteq> []" using r by (simp add: root_ok_def)
  then show ?thesis
    using path_ancestors_push [OF _ n(1), of r] path_ancestors_push [OF _ n(2), of "r @ CHR ''/'' # take 2 i"]
    by (simp add: bdirs_def)
qed

lemma bdirs_not_bpath: "d \<in> set (bdirs r i) \<Longrightarrow> shaped i \<Longrightarrow> shaped j \<Longrightarrow> d \<noteq> bpath r' j"
proof
  assume d: "d \<in> set (bdirs r i)" and i: "shaped i" and j: "shaped j" and eq: "d = bpath r' j"
  have n: "CHR ''/'' \<notin> set (take 2 i)" "CHR ''/'' \<notin> set (take 2 (drop 2 i))"
    using i by (auto simp: shaped_def dest: in_set_takeD in_set_dropD)
  have "rsplit_next CHR ''/'' d \<in> {take 2 i, take 2 (drop 2 i)}"
    using d rsplit_next_append [OF n(1), of r] rsplit_next_append [OF n(2), of "r @ CHR ''/'' # take 2 i"]
    by (auto simp: bdirs_def)
  moreover have "rsplit_next CHR ''/'' d = j"
    using j rsplit_next_append [of "CHR ''/''" j "r' @ ''/'' @ take 2 j @ ''/'' @ take 2 (drop 2 j)"]
    by (simp add: eq bpath_def shaped_def)
  ultimately have "length j \<le> 2" by auto
  then show False using j by (simp add: shaped_def)
qed

section \<open>The invariant and the view\<close>

text \<open>
  The stores have the roots \<open>R\<close>. Their roots are directories, and what stands at a blob path of one
  of them is a file with a proper id.
\<close>

definition disk_ok :: "string set \<Rightarrow> disk \<Rightarrow> bool" where
  "disk_ok R s \<longleftrightarrow> paths_once s \<and> fair s \<and> (\<forall>r \<in> R. \<forall>d \<in> set (path_ancestors r). node_at s d = Some DirNode) \<and>
     (\<forall>r \<in> R. \<forall>i n. shaped i \<longrightarrow> node_at s (bpath r i) = Some n \<longrightarrow> file_id_ok i \<and> n \<noteq> DirNode)"

definition file_at :: "disk \<Rightarrow> string \<Rightarrow> bytes option" where
  "file_at s p = (case node_at s p of Some (Reg d) \<Rightarrow> Some d | _ \<Rightarrow> None)"

text \<open>What an open writer has been given: the part in the file and the part in its buffer.\<close>

fun written :: "nat \<Rightarrow> writer \<Rightarrow> bytes \<Rightarrow> bytes option" where
  "written io_size (BufferedWriter buf pos tot sync) c =
     (if pos = length c \<and> tot = of_nat (length (c @ buf)) then Some (c @ buf) else None)"
| "written io_size (DirectWriter buf len offset tot sync) c =
     (if offset = length c \<and> len \<le> length buf \<and> len < io_size \<and> tot = of_nat (length c + len) \<and> length c < 2 ^ 63
      then Some (c @ take len buf) else None)"

definition written_at :: "nat \<Rightarrow> disk \<Rightarrow> string \<Rightarrow> bytes option" where
  "written_at io_size s p = (case (dk_writers s p, file_at s p) of (Some wr, Some c) \<Rightarrow> written io_size wr c | _ \<Rightarrow> None)"

definition file_view :: "file_blob_store \<Rightarrow> disk \<Rightarrow> blob_view" where
  "file_view fb s =
    ((\<lambda>i. if file_id_ok i then file_at s (bpath (fb_root fb) i) else None),
     (\<lambda>i. if file_id_ok i then written_at (fb_io_size fb) s (bpath (fb_root fb) i) else None))"

lemma blobs_of_file_view [simp]:
  "blobs_of (file_view fb s) i = (if file_id_ok i then file_at s (bpath (fb_root fb) i) else None)"
  "writes_of (file_view fb s) i = (if file_id_ok i then written_at (fb_io_size fb) s (bpath (fb_root fb) i) else None)"
  by (simp_all add: file_view_def)

lemma id_ok_shaped: "file_id_ok i \<Longrightarrow> shaped i"
  by (simp add: file_id_ok_def)

lemma disk_ok_blob: "disk_ok R s \<Longrightarrow> r \<in> R \<Longrightarrow> shaped i \<Longrightarrow> node_at s (bpath r i) = Some n \<Longrightarrow> file_id_ok i \<and> n \<noteq> DirNode"
  unfolding disk_ok_def by blast

lemma disk_okD:
  assumes "disk_ok R s" "r \<in> R"
  shows "node_at s r = Some DirNode" "shaped i \<Longrightarrow> node_at s (bpath r i) \<noteq> Some DirNode"
    "shaped i \<Longrightarrow> node_at s (bpath r i) = Some n \<Longrightarrow> file_id_ok i"
proof -
  show "node_at s r = Some DirNode" using assms by (simp add: disk_ok_def path_ancestors_def)
  show "shaped i \<Longrightarrow> node_at s (bpath r i) \<noteq> Some DirNode" using disk_ok_blob [OF assms] by blast
  show "shaped i \<Longrightarrow> node_at s (bpath r i) = Some n \<Longrightarrow> file_id_ok i" using disk_ok_blob [OF assms] by blast
qed

lemma looked_ok: "looked s s' \<Longrightarrow> disk_ok R s \<Longrightarrow> disk_ok R s' \<and> file_view fb s' = file_view fb s"
  using looked_fair [of s s']
  by (auto simp: looked_def disk_ok_def file_view_def file_at_def written_at_def cong: option.case_cong)

text \<open>
  An operation on the blob \<open>i\<close> of the store at \<open>r\<close> may make the two directories above it, and change
  the file at its path and its writer.
\<close>

definition node_step :: "string \<Rightarrow> string \<Rightarrow> string \<Rightarrow> node option \<Rightarrow> node option \<Rightarrow> bool" where
  "node_step r i q a b \<longleftrightarrow> a = b \<or> q \<in> set (bdirs r i) \<and> a = None \<and> b = Some DirNode \<or>
     q = bpath r i \<and> a \<noteq> Some DirNode \<and> b \<noteq> Some DirNode"

definition touched :: "string \<Rightarrow> string \<Rightarrow> disk \<Rightarrow> disk \<Rightarrow> bool" where
  "touched r i s s' \<longleftrightarrow> conf s' = conf s \<and> (paths_once s \<longrightarrow> paths_once s') \<and>
     (\<forall>q. node_step r i q (node_at s q) (node_at s' q)) \<and> (\<forall>q. q \<noteq> bpath r i \<longrightarrow> dk_writers s' q = dk_writers s q)"

lemma looked_touched: "looked s s' \<Longrightarrow> touched r i s s'"
  by (simp add: looked_def touched_def node_step_def)

lemma node_step_trans: "shaped i \<Longrightarrow> node_step r i q a b \<Longrightarrow> node_step r i q b c \<Longrightarrow> node_step r i q a c"
  using bdirs_not_bpath [of q r i i r] by (auto simp: node_step_def)

lemma touched_trans: "shaped i \<Longrightarrow> touched r i s s1 \<Longrightarrow> touched r i s1 s2 \<Longrightarrow> touched r i s s2"
  unfolding touched_def by (simp, blast intro: node_step_trans)

lemma touched_looked: "shaped i \<Longrightarrow> touched r i s s1 \<Longrightarrow> looked s1 s2 \<Longrightarrow> touched r i s s2"
  by (rule touched_trans [OF _ _ looked_touched])

lemma touched_refl [simp]: "touched r i s s"
  by (rule looked_touched) simp

lemma touched_file_at:
  assumes "touched r i s s'" "shaped i" "shaped j" "(r', j) \<noteq> (r, i)"
  shows "file_at s' (bpath r' j) = file_at s (bpath r' j)" "dk_writers s' (bpath r' j) = dk_writers s (bpath r' j)"
proof -
  have "bpath r' j \<noteq> bpath r i" using assms(2-4) by (auto simp: bpath_inject)
  moreover have "bpath r' j \<notin> set (bdirs r i)" using bdirs_not_bpath [of "bpath r' j" r i j r'] assms by blast
  moreover have "node_step r i (bpath r' j) (node_at s (bpath r' j)) (node_at s' (bpath r' j))"
    using assms(1) by (simp add: touched_def)
  ultimately have "node_at s' (bpath r' j) = node_at s (bpath r' j)" by (auto simp: node_step_def)
  then show "file_at s' (bpath r' j) = file_at s (bpath r' j)" by (simp add: file_at_def)
  show "dk_writers s' (bpath r' j) = dk_writers s (bpath r' j)"
    using assms(1) \<open>bpath r' j \<noteq> bpath r i\<close> by (simp add: touched_def)
qed

lemma touched_view:
  assumes t: "touched (fb_root fb) i s s'" and i: "shaped i"
  shows "blob_frame {i} (file_view fb s) (file_view fb s')"
    and "fb_root fb' \<noteq> fb_root fb \<Longrightarrow> file_view fb' s' = file_view fb' s"
proof -
  have "file_at s' (bpath r' j) = file_at s (bpath r' j)" "written_at n s' (bpath r' j) = written_at n s (bpath r' j)"
    if "file_id_ok j" "(r', j) \<noteq> (fb_root fb, i)" for r' j n
    using touched_file_at [OF t i id_ok_shaped [OF that(1)] that(2)] by (simp_all add: written_at_def)
  then show "blob_frame {i} (file_view fb s) (file_view fb s')"
    and "fb_root fb' \<noteq> fb_root fb \<Longrightarrow> file_view fb' s' = file_view fb' s"
    by (auto simp: blob_frame_def file_view_def fun_eq_iff)
qed

lemma touched_ok:
  assumes t: "touched r i s s'" and ok: "disk_ok R s" and r: "r \<in> R" and i: "file_id_ok i"
  shows "disk_ok R s'"
proof -
  note sh = id_ok_shaped [OF i]
  have st: "node_step r i q (node_at s q) (node_at s' q)" for q using t by (simp add: touched_def)
  have "node_at s' d = Some DirNode" if "r' \<in> R" "d \<in> set (path_ancestors r')" for r' d
  proof -
    have "node_at s d = Some DirNode" using ok that by (simp add: disk_ok_def)
    then show ?thesis using st [of d] by (auto simp: node_step_def)
  qed
  moreover have "file_id_ok j \<and> n \<noteq> DirNode" if "r' \<in> R" "shaped j" "node_at s' (bpath r' j) = Some n" for r' j n
  proof (cases "bpath r' j = bpath r i")
    case True
    then have "j = i" using that(2) sh by (simp add: bpath_inject)
    moreover have "n \<noteq> DirNode" using st [of "bpath r i"] that(3) disk_okD(2) [OF ok r sh] True bdirs_not_bpath [OF _ sh sh, of "bpath r i" r r]
      by (auto simp: node_step_def)
    ultimately show ?thesis using i by simp
  next
    case False
    then have "node_at s' (bpath r' j) = node_at s (bpath r' j)"
      using st [of "bpath r' j"] bdirs_not_bpath [OF _ sh that(2), of "bpath r' j" r r'] by (auto simp: node_step_def)
    then show ?thesis using disk_ok_blob [OF ok that(1,2)] that(3) by metis
  qed
  ultimately show ?thesis
    using ok t fair_conf [of s' s] unfolding disk_ok_def touched_def by blast
qed

end
