(* ===== verification/File_Contract.thy ===== *)
theory File_Contract
  imports File_Layout
begin

text \<open>
  The file blob store keeps the contract of the blob stores: the loops of the direct reads and
  writes transfer exactly the bytes asked for, whatever was in the pooled buffers and however long
  the reads of the system are, and the directory walk finds only blobs of the store, each once.
\<close>

definition fb_ok :: "file_blob_store \<Rightarrow> bool" where
  "fb_ok fb \<longleftrightarrow> root_ok (fb_root fb) \<and> 0 < fb_io_size fb \<and> fb_io_size fb < 2 ^ 63"

section \<open>Calls on the file of a blob\<close>

text \<open>What a call on the file of a blob does: it may touch the blob, and keeps its writer.\<close>

definition on_blob :: "string \<Rightarrow> string \<Rightarrow> ('a \<Rightarrow> disk \<Rightarrow> bool) \<Rightarrow> disk \<Rightarrow> 'a result \<Rightarrow> disk \<Rightarrow> bool" where
  "on_blob r i Q s res s' \<longleftrightarrow> touched r i s s' \<and> dk_writers s' = dk_writers s \<and> (\<forall>a. res = Inr a \<longrightarrow> Q a s')"

lemma on_blob_simps [simp]:
  "on_blob r i Q s (Inl e) s' \<longleftrightarrow> touched r i s s' \<and> dk_writers s' = dk_writers s"
  "on_blob r i Q s (Inr a) s' \<longleftrightarrow> touched r i s s' \<and> dk_writers s' = dk_writers s \<and> Q a s'"
  by (auto simp: on_blob_def)

lemma on_blob_looked: "looked s s' \<Longrightarrow> (\<And>a. res = Inr a \<Longrightarrow> Q a s') \<Longrightarrow> on_blob r i Q s res s'"
  by (auto simp: on_blob_def looked_touched) (simp add: looked_def)

lemma on_blob_bind:
  assumes i: "shaped i" and m: "wp m (on_blob r i P s) s"
    and f: "\<And>a s1. touched r i s s1 \<Longrightarrow> dk_writers s1 = dk_writers s \<Longrightarrow> P a s1 \<Longrightarrow> wp (f a) (on_blob r i Q s1) s1"
  shows "wp (io_bind m f) (on_blob r i Q s) s"
proof (rule wp_bindI [OF m], goal_cases)
  case (2 a s1)
  then show ?case
    by (intro wp_mono [OF f]) (auto simp: on_blob_def intro: touched_trans [OF i])
qed simp

lemma touched_nodes:
  assumes "conf s' = conf s" "paths_once s \<longrightarrow> paths_once s'" "dk_writers s' = dk_writers s"
    and "\<And>q. node_step r i q (node_at s q) (node_at s' q)"
  shows "touched r i s s'"
  using assms by (simp add: touched_def)

lemma touched_on_file: "touched r i s (on_file f (bpath r i) s)"
  by (rule touched_nodes) (auto simp: node_step_def split: option.splits node.splits)

lemma file_at_on_file [simp]: "file_at (on_file f p s) p = map_option f (file_at s p)"
  by (auto simp: file_at_def split: option.splits node.splits)

lemma file_at_simps [simp]: "file_at (tick s) p = file_at s p" "file_at (pool_put fb buf s) p = file_at s p"
  "file_at (s\<lparr>dk_writers := ws\<rparr>) p = file_at s p"
  by (simp_all add: file_at_def)

lemma file_at_looked: "looked s s' \<Longrightarrow> file_at s' p = file_at s p"
  by (simp add: looked_def file_at_def)

lemma write_all_at_spec:
  "wp (os (write_all_at (bpath r i) src off))
    (on_blob r i (\<lambda>_ s'. file_at s' (bpath r i) = map_option (\<lambda>c. patch c off src) (file_at s (bpath r i)) \<and>
      off + length src < 2 ^ 63) s) s"
proof -
  have t: "touched r i s (on_file f (bpath r i) (tick s))" for f
    using touched_on_file [of r i "tick s" f] by (simp add: touched_def)
  show ?thesis
    unfolding write_all_at_def by (rule wp_os_call) (simp_all add: wp_os t looked_touched)
qed

lemma set_len_spec:
  "wp (os (set_len (bpath r i) n))
    (on_blob r i (\<lambda>_ s'. file_at s' (bpath r i) = map_option (\<lambda>c. take n c @ zeros (n - length c)) (file_at s (bpath r i))) s) s"
proof -
  have t: "touched r i s (on_file f (bpath r i) (tick s))" for f
    using touched_on_file [of r i "tick s" f] by (simp add: touched_def)
  show ?thesis
    unfolding set_len_def by (rule wp_os_call) (simp_all add: wp_os t looked_touched)
qed

lemma pool_get_blob: "wp (os (pool_get fb)) (on_blob r i (\<lambda>_ s'. file_at s' p = file_at s p) s) s"
  by (rule wp_mono [OF pool_get_spec]) (auto intro: on_blob_looked file_at_looked)

lemma sync_if_blob: "wp (sync_if b q) (on_blob r i (\<lambda>_ s'. file_at s' p = file_at s p) s) s"
  by (rule wp_mono [OF sync_if_spec]) (auto intro: on_blob_looked file_at_looked)

lemma create_parent_spec:
  assumes r: "root_ok r" and i: "shaped i" and ok: "disk_ok R s" "r \<in> R"
  shows "wp (create_parent (bpath r i)) (on_blob r i (\<lambda>_ s'. True) s) s"
proof -
  have made: "touched r i s (make_dirs ds (tick s))" if "set ds \<subseteq> set (path_ancestors r @ bdirs r i)" for ds
  proof (rule touched_nodes)
    fix q
    have "node_at s q = Some DirNode" if "q \<in> set (path_ancestors r)" using ok that by (simp add: disk_ok_def)
    then show "node_step r i q (node_at s q) (node_at (make_dirs ds (tick s)) q)"
      using that by (auto simp: node_step_def)
  qed simp_all
  then have t: "touched r i s (make_dirs (take k (path_ancestors r @ bdirs r i)) (tick s))"
    "touched r i s (make_dirs (path_ancestors r @ bdirs r i) (tick s))" for k
    using made [OF set_take_subset] made [OF subset_refl] by blast+
  have "wp (os (create_dir_all (last (bdirs r i)))) (on_blob r i (\<lambda>_ s'. True) s) s"
    unfolding create_dir_all_def path_ancestors_bdirs [OF r i]
    by (rule wp_os_call) (use t in \<open>auto simp: wp_os looked_touched split: if_splits\<close>)
  then show ?thesis by (simp add: create_parent_def parent_bpath [OF r i])
qed

lemma file_create_spec:
  "wp (os (file_create (bpath r i))) (on_blob r i (\<lambda>_ s'. file_at s' (bpath r i) = Some []) s) s"
proof -
  have "touched r i s (set_node (bpath r i) (Reg []) (tick s))" if "node_at s (bpath r i) \<noteq> Some DirNode"
    by (rule touched_nodes) (use that in \<open>auto simp: node_step_def\<close>)
  then show ?thesis
    unfolding file_create_def
    by (intro wp_os_call) (auto simp: wp_os looked_touched file_at_def split: option.splits node.splits)
qed

section \<open>Direct writes\<close>

lemma overwrite_0 [simp]: "overwrite buf 0 src = src @ drop (length src) buf"
  by (simp add: overwrite_def)

lemma length_overwrite: "at + length src \<le> length buf \<Longrightarrow> length (overwrite buf at src) = length buf"
  by (simp add: overwrite_def)

lemma take_overwrite: "n \<le> at \<Longrightarrow> at \<le> length buf \<Longrightarrow> take n (overwrite buf at src) = take n buf"
  by (simp add: overwrite_def)

lemma length_zeros [simp]: "length (zeros n) = n"
  by (simp add: zeros_def)

lemma take_fill_zero: "n \<le> a \<Longrightarrow> take n (fill_zero buf a b) = take n buf"
  by (simp add: fill_zero_def take_overwrite)

lemma length_fill_zero [simp]: "length (fill_zero buf a b) = length buf"
  by (simp add: fill_zero_def length_overwrite)

lemma take_patch: "off \<le> length c \<Longrightarrow> n \<le> length w \<Longrightarrow> take (off + n) (patch c off w) = take off c @ take n w"
  by (simp add: patch_def zeros_def)

lemma length_patch: "length (patch c off w) = max (length c) (off + length w)"
  by (auto simp: patch_def)

text \<open>The first \<open>n\<close> bytes of the data are in the file.\<close>

definition filled :: "string \<Rightarrow> bytes \<Rightarrow> nat \<Rightarrow> disk \<Rightarrow> bool" where
  "filled p data n s \<longleftrightarrow> (\<exists>c. file_at s p = Some c \<and> n \<le> length c \<and> take n c = take n data)"

lemma filled_patch:
  assumes "filled p data off s" "file_at s' p = map_option (\<lambda>c. patch c off w) (file_at s p)"
    and "n \<le> length w" "take n w = take n (drop off data)" 
  shows "filled p data (off + n) s'"
proof -
  obtain c where c: "file_at s p = Some c" "off \<le> length c" "take off c = take off data"
    using assms(1) by (auto simp: filled_def)
  then show ?thesis
    using assms(2-4) take_patch [OF c(2) assms(3)] by (auto simp: filled_def length_patch take_add)
qed

lemma put_chunk_spec:
  assumes i: "shaped i" and f: "filled (bpath r i) data off s"
    and chunk: "chunk \<le> length data - off" "chunk + 4095 < 2 ^ 64"
  shows "wp (put_chunk fb (bpath r i) data off chunk) (on_blob r i (\<lambda>_. filled (bpath r i) data (off + chunk)) s) s"
  unfolding put_chunk_def
proof (rule on_blob_bind [OF i pool_get_blob [of _ _ _ "bpath r i"]], goal_cases)
  case (1 buf s1)
  let ?src = "take chunk (drop off data)" and ?ws = "unat (round_up_align (of_nat chunk))"
  let ?buf = "fill_zero (overwrite buf 0 ?src) chunk ?ws"
  have src: "length ?src = chunk" using chunk by simp
  have ws: "chunk \<le> ?ws" using round_up_ge chunk(2) by blast
  have f1: "filled (bpath r i) data off s1" using f 1(3) by (simp add: filled_def)
  show ?case
  proof (cases "length buf < chunk \<or> length ?buf < ?ws")
    case True
    then show ?thesis by (auto simp: Let_def)
  next
    case False
    have w: "wp (os (write_all_at (bpath r i) (take ?ws ?buf) off)) (on_blob r i (\<lambda>_. filled (bpath r i) data (off + chunk)) s1) s1"
    proof (rule wp_mono [OF write_all_at_spec], goal_cases)
      case (1 x s2)
      have "take chunk (take ?ws ?buf) = ?src"
        using ws src False by (simp add: take_fill_zero min_absorb1)
      moreover have "chunk \<le> length (take ?ws ?buf)" using False ws by simp
      ultimately show ?case
        using 1 filled_patch [OF f1, of s2 "take ?ws ?buf" chunk] by (auto simp: on_blob_def)
    qed
    have "wp (io_bind (os (write_all_at (bpath r i) (take ?ws ?buf) off)) (\<lambda>_ s. Some (Inr (), pool_put fb ?buf s)))
        (on_blob r i (\<lambda>_. filled (bpath r i) data (off + chunk)) s1) s1"
      by (rule on_blob_bind [OF i w]) (simp add: wp_step looked_touched filled_def)
    then show ?thesis using False by (simp add: Let_def)
  qed
qed

lemma put_loop_spec:
  assumes i: "shaped i" and io: "0 < fb_io_size fb" "fb_io_size fb < 2 ^ 63"
    and f: "filled (bpath r i) data off s"
  shows "wp (put_loop fb (bpath r i) data off) (on_blob r i (\<lambda>_. filled (bpath r i) data (length data)) s) s"
  using f
proof (induction "length data - off" arbitrary: off s rule: less_induct)
  case less
  let ?P = "on_blob r i (\<lambda>_. filled (bpath r i) data (length data))"
  show ?case
  proof (cases "off < length data")
    case False
    then have "filled (bpath r i) data (length data) s"
      using less.prems by (auto simp: filled_def)
    then show ?thesis using False by (subst wp_def) (simp add: put_loop.simps)
  next
    case True
    define chunk where "chunk = min (length data - off) (fb_io_size fb)"
    have c: "chunk \<le> length data - off" "chunk + 4095 < 2 ^ 64" "0 < chunk" using True io by (auto simp: chunk_def)
    have step: "wp (io_bind (put_chunk fb (bpath r i) data off chunk) (\<lambda>_. put_loop fb (bpath r i) data (off + chunk))) (?P s) s"
    proof (rule on_blob_bind [OF i put_chunk_spec [OF i less.prems c(1,2)]], goal_cases)
      case (1 u s1)
      show ?case by (rule less.hyps [OF _ 1(3)]) (use c True in simp)
    qed
    have eq: "put_loop fb (bpath r i) data off s = io_bind (put_chunk fb (bpath r i) data off chunk) (\<lambda>_. put_loop fb (bpath r i) data (off + chunk)) s"
      using True by (subst put_loop.simps) (simp add: chunk_def io_bind_def Let_def)
    show ?thesis using step unfolding wp_def eq .
  qed
qed

section \<open>The contract as blob reads and writes\<close>

text \<open>A store among those of the disk.\<close>

definition mounted :: "file_blob_store \<Rightarrow> string set \<Rightarrow> disk \<Rightarrow> bool" where
  "mounted fb R s \<longleftrightarrow> disk_ok R s \<and> fb_root fb \<in> R"

text \<open>The disk is in order, and what may fail on it is what could fail at the start.\<close>

definition disk_as :: "disk \<Rightarrow> string set \<Rightarrow> disk \<Rightarrow> bool" where
  "disk_as s R s' \<longleftrightarrow> disk_ok R s' \<and> conf s' = conf s"

lemma blob_writeI:
  assumes "wp m (\<lambda>res s'. touched (fb_root fb) i s s' \<and> (\<forall>a. res = Inr a \<longrightarrow> Q a (file_view fb s'))) s"
    and "disk_ok R s" "fb_root fb \<in> R" "file_id_ok i"
  shows "wp m (blob_write (disk_as s R) (file_view fb) s i Q) s"
proof (rule wp_mono [OF assms(1)], goal_cases)
  case (1 res s')
  then show ?case
    using touched_ok [of "fb_root fb" i s s', OF _ assms(2-4)] touched_view(1) [of fb i s s', OF _ id_ok_shaped [OF assms(4)]]
    by (simp add: blob_write_def disk_as_def touched_def)
qed

lemma blob_readI:
  assumes "wp m (\<lambda>res s'. looked s s' \<and> (\<forall>a. res = Inr a \<longrightarrow> Q a)) s" and "disk_ok R s"
  shows "wp m (blob_read (disk_as s R) (file_view fb) s Q) s"
proof (rule wp_mono [OF assms(1)], goal_cases)
  case (1 res s')
  then show ?case using looked_ok [of s s', OF _ assms(2)] by (simp add: blob_read_def disk_as_def looked_def)
qed

text \<open>Every operation starts by finding the path.\<close>

lemma wp_path: "root_ok r \<Longrightarrow> shaped i \<Longrightarrow>
    wp (io_bind (io_of_result (blob_id_to_path r i)) f) Q s \<longleftrightarrow> wp (f (bpath r i)) Q s"
  by (simp add: wp_bind path_of_id)

lemma file_put_spec:
  assumes fb: "fb_ok fb" and ok: "disk_ok R s" "fb_root fb \<in> R" and i: "file_id_ok i"
  shows "wp (file_put fb i d) (blob_write (disk_as s R) (file_view fb) s i (\<lambda>n v. n = of_nat (length d) \<and> blobs_of v i = Some d)) s"
proof (rule blob_writeI [OF _ ok i])
  let ?r = "fb_root fb" and ?p = "bpath (fb_root fb) i"
  have r: "root_ok ?r" and io: "0 < fb_io_size fb" "fb_io_size fb < 2 ^ 63" using fb by (auto simp: fb_ok_def)
  note sh = id_ok_shaped [OF i]
  let ?Q = "on_blob ?r i (\<lambda>n s'. n = of_nat (length d) \<and> file_at s' ?p = Some d)"
  have fin: "wp (io_bind (sync_if (fb_sync fb) ?p) (\<lambda>_. io_return (of_nat (length d)))) (?Q s1) s1" if "file_at s1 ?p = Some d" for s1
    by (rule on_blob_bind [OF sh sync_if_blob [of _ _ _ _ ?p]]) (use that in simp)
  have direct: "wp (io_bind (put_loop fb ?p d 0) (\<lambda>_. io_bind (os (set_len ?p (length d))) (\<lambda>_.
      io_bind (sync_if (fb_sync fb) ?p) (\<lambda>_. io_return (of_nat (length d)))))) (?Q s1) s1" if "file_at s1 ?p = Some []" for s1
  proof (rule on_blob_bind [OF sh put_loop_spec [OF sh io]], goal_cases)
    case 1 show ?case using that by (simp add: filled_def)
  next
    case (2 u s2)
    show ?case
      by (rule on_blob_bind [OF sh set_len_spec], rule fin) (use 2(3) in \<open>auto simp: filled_def zeros_def\<close>)
  qed
  have buffered: "wp (io_bind (os (write_all_at ?p d 0)) (\<lambda>_.
      io_bind (sync_if (fb_sync fb) ?p) (\<lambda>_. io_return (of_nat (length d))))) (?Q s1) s1" if "file_at s1 ?p = Some []" for s1
    by (rule on_blob_bind [OF sh write_all_at_spec], rule fin) (use that in \<open>simp add: patch_def zeros_def\<close>)
  have "wp (file_put fb i d) (?Q s) s"
    unfolding file_put_def wp_path [OF r sh]
  proof (rule on_blob_bind [OF sh create_parent_spec [OF r sh ok]], goal_cases)
    case (1 a s1)
    show ?case
    proof (rule on_blob_bind [OF sh file_create_spec], goal_cases)
      case (1 u s2)
      then show ?case by (cases "fb_direct fb") (simp_all only: if_True if_False direct buffered)
    qed
  qed
  then show "wp (file_put fb i d) (\<lambda>res s'. touched ?r i s s' \<and>
      (\<forall>n. res = Inr n \<longrightarrow> n = of_nat (length d) \<and> blobs_of (file_view fb s') i = Some d)) s"
    by (rule wp_mono) (use i in \<open>auto simp: on_blob_def\<close>)
qed

section \<open>Direct reads\<close>

text \<open>A computation that only looks, with its result.\<close>

definition look :: "('a \<Rightarrow> bool) \<Rightarrow> disk \<Rightarrow> 'a result \<Rightarrow> disk \<Rightarrow> bool" where
  "look Q s res s' \<longleftrightarrow> looked s s' \<and> (\<forall>a. res = Inr a \<longrightarrow> Q a)"

lemma look_simps [simp]: "look Q s (Inl e) s' \<longleftrightarrow> looked s s'" "look Q s (Inr a) s' \<longleftrightarrow> looked s s' \<and> Q a"
  by (auto simp: look_def)

lemma look_bind:
  assumes m: "wp m (look P s) s" and f: "\<And>a s1. looked s s1 \<Longrightarrow> P a \<Longrightarrow> wp (f a) (look Q s1) s1"
  shows "wp (io_bind m f) (look Q s) s"
proof (rule wp_bindI [OF m], goal_cases)
  case (2 a s1)
  then show ?case by (intro wp_mono [OF f]) (auto simp: look_def intro: looked_trans)
qed simp

lemma pool_get_look: "wp (os (pool_get fb)) (look (\<lambda>_. True) s) s"
  by (rule wp_mono [OF pool_get_spec]) (simp add: look_def)

lemma read_at_look: "file_at s p = Some d \<Longrightarrow> wp (os (read_at p len off)) (look (\<lambda>got. \<exists>k. got = take (Suc k) (take len (drop off d))) s) s"
  by (rule wp_mono [OF read_at_spec]) (auto simp: look_def file_at_def split: option.splits node.splits)

text \<open>A block read at an offset inside the file is a non-empty part of it.\<close>

definition block_of :: "bytes \<Rightarrow> nat \<Rightarrow> bytes \<Rightarrow> bool" where
  "block_of d off got \<longleftrightarrow> got \<noteq> [] \<and> got = take (length got) (drop off d) \<and> off + length got \<le> length d"

lemma block_read:
  assumes "off < length d" "0 < n"
  shows "block_of d off (take (length d - off) (take (Suc k) (take n (drop off d))))"
proof -
  let ?m = "min (length d - off) (min (Suc k) n)"
  have "take (length d - off) (take (Suc k) (take n (drop off d))) = take ?m (drop off d)"
    by (simp add: min.assoc)
  moreover have "0 < ?m" "?m \<le> length d - off" using assms by auto
  ultimately show ?thesis using assms by (auto simp: block_of_def)
qed

lemma get_chunk_spec:
  assumes f: "file_at s p = Some d" and off: "off < length d" and io: "0 < fb_io_size fb" "fb_io_size fb < 2 ^ 63"
  shows "wp (get_chunk fb p (length d) off) (look (block_of d off) s) s"
proof -
  let ?chunk = "min (length d - off) (fb_io_size fb)"
  let ?n = "unat (round_up_align (of_nat ?chunk))"
  have "?chunk \<le> ?n" using io by (intro round_up_ge) auto
  then have n: "0 < ?n" using off io by linarith
  show ?thesis
    unfolding get_chunk_def Let_def
  proof (rule look_bind [OF pool_get_look], goal_cases)
    case (1 buf s1)
    have f1: "file_at s1 p = Some d" using f 1 by (simp add: file_at_looked)
    show ?case
    proof (cases "length buf < ?n")
      case False
      show ?thesis
        unfolding if_not_P [OF False]
        by (rule look_bind [OF read_at_look [OF f1]]) (use block_read [OF off n] in \<open>auto simp: wp_step\<close>)
    qed simp
  qed
qed

lemma overwrite_block:
  "block_of d off got \<Longrightarrow> off \<le> length d \<Longrightarrow>
    overwrite (take off d @ zeros (length d - off)) off got = take (off + length got) d @ zeros (length d - (off + length got))"
  by (simp add: overwrite_def block_of_def zeros_def take_add)

lemma get_loop_spec:
  assumes io: "0 < fb_io_size fb" "fb_io_size fb < 2 ^ 63"
    and "file_at s p = Some d" "off \<le> length d"
  shows "wp (get_loop fb p (length d) off (take off d @ zeros (length d - off))) (look (\<lambda>x. x = d) s) s"
  using assms(3,4)
proof (induction "length d - off" arbitrary: off s rule: less_induct)
  case less
  show ?case
  proof (cases "off < length d")
    case False
    then show ?thesis using less.prems by (subst wp_def) (simp add: get_loop.simps zeros_def)
  next
    case True
    let ?out = "take off d @ zeros (length d - off)"
    let ?next = "\<lambda>got. get_loop fb p (length d) (off + length got) (overwrite ?out off got)"
    have "wp (io_bind (get_chunk fb p (length d) off) ?next) (look (\<lambda>x. x = d) s) s"
    proof (rule look_bind [OF get_chunk_spec [OF less.prems(1) True io]], goal_cases)
      case (1 got s1)
      have len: "off + length got \<le> length d" "0 < length got" using 1(2) by (auto simp: block_of_def)
      show ?case
        unfolding overwrite_block [OF 1(2) less.prems(2)]
      proof (rule less.hyps)
        show "length d - (off + length got) < length d - off" using len True by linarith
        show "file_at s1 p = Some d" using less.prems(1) by (simp add: file_at_looked [OF 1(1)])
      qed (rule len(1))
    qed
    then show ?thesis
      unfolding wp_def using True by (subst get_loop.simps) (simp add: io_bind_def)
  qed
qed

lemma read_some_spec: "wp (read_some p) (look (\<lambda>x. x = file_at s p) s) s"
proof -
  have "wp (os (fs_read p)) (look (\<lambda>d. file_at s p = Some d) s) s"
    by (rule wp_mono [OF fs_read_spec]) (auto simp: look_def file_at_def)
  then show ?thesis
    unfolding read_some_def by (rule look_bind) simp
qed

lemma file_open_looked: "file_open p s = (r, s') \<Longrightarrow> looked s s'"
  by (auto simp: file_open_def os_call_def split: option.splits)

text \<open>A directory is never read: its first block is an error.\<close>

lemma get_chunk_dir:
  assumes "node_at s p = Some DirNode"
  shows "wp (get_chunk fb p n off) (look (\<lambda>_. False) s) s"
  unfolding get_chunk_def Let_def
proof (rule look_bind [OF pool_get_look], goal_cases)
  case (1 buf s1)
  have "wp (os (read_at p m off)) (look (\<lambda>_. False) s1) s1" for m
    unfolding read_at_def by (rule wp_os_call) (use assms 1 in \<open>auto simp: wp_os looked_def\<close>)
  then show ?case by (auto intro: look_bind)
qed

lemma get_opened:
  assumes fb: "fb_ok fb" and there: "node_at s p \<noteq> None"
  shows "wp (io_bind (os (file_len p)) (\<lambda>n. io_bind (get_loop fb p n 0 (zeros n)) (\<lambda>r. io_return (Some r))))
    (look (\<lambda>x. x = file_at s p) s) s"
proof (cases "the (node_at s p)")
  case DirNode
  have len: "wp (os (file_len p)) (look (\<lambda>n. n = 4096) s) s"
    unfolding file_len_def by (rule wp_os_call) (use there DirNode in \<open>auto simp: wp_os\<close>)
  show ?thesis
  proof (rule look_bind [OF len], goal_cases)
    case (1 n s1)
    have n1: "node_at s1 p = Some DirNode" using there DirNode 1(1) by (auto simp: looked_def)
    have "wp (get_loop fb p 4096 0 (zeros 4096)) (look (\<lambda>_. False) s1) s1"
      using get_chunk_dir [OF n1, of fb 4096 0]
      by (auto simp: wp_iff get_loop.simps [of fb p 4096 0] look_def split: sum.splits)
    then show ?case unfolding 1(2) by (rule look_bind) simp
  qed
next
  case (Reg d)
  then have f: "file_at s p = Some d" using there by (auto simp: file_at_def)
  have len: "wp (os (file_len p)) (look (\<lambda>n. n = length d) s) s"
    by (rule wp_mono [OF file_len_spec]) (use f in \<open>auto simp: look_def file_at_def split: option.splits node.splits\<close>)
  show ?thesis
  proof (rule look_bind [OF len], goal_cases)
    case (1 n s1)
    have "file_at s1 p = Some d" using f 1(1) by (simp add: file_at_looked)
    then have "wp (get_loop fb p n 0 (zeros n)) (look (\<lambda>x. x = d) s1) s1"
      using get_loop_spec [of fb s1 p d 0] fb 1(2) by (simp add: fb_ok_def)
    then show ?case by (rule look_bind) (use f in simp)
  qed
qed

lemma file_get_look:
  assumes fb: "fb_ok fb" and fair: "fair s"
  shows "wp (file_get fb i) (look (\<lambda>x. \<exists>p. blob_id_to_path (fb_root fb) i = Inr p \<and> x = file_at s p) s) s"
proof (cases "blob_id_to_path (fb_root fb) i")
  case (Inl e)
  then show ?thesis by (simp add: file_get_def wp_bind)
next
  case (Inr p)
  have buffered: "wp (\<lambda>s. case path_exists p s of (False, s1) \<Rightarrow> Some (Inr None, s1) | (True, s1) \<Rightarrow> read_some p s1) (look (\<lambda>x. x = file_at s p) s) s"
  proof (cases "node_at s p = None")
    case True
    then show ?thesis using fair by (simp add: wp_def path_exists_fair file_at_def)
  next
    case False
    have "wp (read_some p) (look (\<lambda>x. x = file_at s p) s) (tick s)"
      by (rule wp_mono [OF read_some_spec]) (auto simp: look_def elim: looked_trans [OF looked_tick(1)])
    then show ?thesis using fair False by (simp add: wp_def path_exists_fair)
  qed
  have reopened: "wp (\<lambda>s. case file_open p s of
         (Inl _, s1) \<Rightarrow> read_some p s1
       | (Inr _, s1) \<Rightarrow> io_bind (os (file_len p)) (\<lambda>n. io_bind (get_loop fb p n 0 (zeros n)) (\<lambda>r. io_return (Some r))) s1)
      (look (\<lambda>x. x = file_at s p) s1) s1" if "node_at s1 p \<noteq> None" "file_at s1 p = file_at s p" for s1
  proof -
    obtain r s2 where o: "file_open p s1 = (r, s2)" by (cases "file_open p s1")
    then have l: "looked s1 s2" by (rule file_open_looked)
    then have n: "node_at s2 p \<noteq> None" "file_at s2 p = file_at s p" using that by (simp_all add: looked_def file_at_def)
    have "wp (case r of Inl _ \<Rightarrow> read_some p | Inr _ \<Rightarrow> io_bind (os (file_len p)) (\<lambda>n. io_bind (get_loop fb p n 0 (zeros n)) (\<lambda>r. io_return (Some r))))
        (look (\<lambda>x. x = file_at s p) s2) s2"
      using read_some_spec [of p s2] get_opened [OF fb n(1)] n(2) by (simp split: sum.splits)
    then have "wp (case r of Inl _ \<Rightarrow> read_some p | Inr _ \<Rightarrow> io_bind (os (file_len p)) (\<lambda>n. io_bind (get_loop fb p n 0 (zeros n)) (\<lambda>r. io_return (Some r))))
        (look (\<lambda>x. x = file_at s p) s1) s2"
      by (rule wp_mono) (auto simp: look_def elim: looked_trans [OF l])
    then show ?thesis by (simp add: wp_def o split: sum.splits)
  qed
  have opened: "wp (open_or_none p) (look (\<lambda>b. b = (node_at s p \<noteq> None)) s) s"
    by (rule wp_mono [OF open_or_none_spec [OF fair]]) (simp add: look_def)
  have direct: "wp (io_bind (open_or_none p) (\<lambda>found. if \<not> found then io_return None
       else (\<lambda>s. case file_open p s of
         (Inl _, s1) \<Rightarrow> read_some p s1
       | (Inr _, s1) \<Rightarrow> io_bind (os (file_len p)) (\<lambda>n. io_bind (get_loop fb p n 0 (zeros n)) (\<lambda>r. io_return (Some r))) s1)))
      (look (\<lambda>x. x = file_at s p) s) s"
  proof (rule look_bind [OF opened], goal_cases)
    case (1 found s1)
    show ?case
    proof (cases found)
      case True
      have "node_at s1 p \<noteq> None" using 1 True by (simp add: looked_def)
      from reopened [OF this file_at_looked [OF 1(1)]] show ?thesis using True by simp
    next
      case False
      then show ?thesis using 1 by (simp add: file_at_def)
    qed
  qed
  have "wp (file_get fb i) (look (\<lambda>x. x = file_at s p) s) s"
    unfolding file_get_def using direct buffered by (cases "fb_direct fb") (simp_all add: wp_bind Inr)
  then show ?thesis by (rule wp_mono) (use Inr in \<open>auto simp: look_def\<close>)
qed

lemma file_get_spec:
  assumes fb: "fb_ok fb" and ok: "disk_ok R s" and i: "file_id_ok i"
  shows "wp (file_get fb i) (blob_read (disk_as s R) (file_view fb) s (\<lambda>x. x = blobs_of (file_view fb s) i)) s"
proof (rule blob_readI [OF _ ok])
  have "fair s" "root_ok (fb_root fb)" using ok fb by (simp_all add: disk_ok_def fb_ok_def)
  then show "wp (file_get fb i) (\<lambda>res s'. looked s s' \<and> (\<forall>a. res = Inr a \<longrightarrow> a = blobs_of (file_view fb s) i)) s"
    by (intro wp_mono [OF file_get_look [OF fb]]) (use i path_of_id [OF _ id_ok_shaped [OF i]] in \<open>auto simp: look_def\<close>)
qed

text \<open>A reader that is \<open>dr_pos\<close> bytes into a block of the file ending at \<open>dr_offset\<close>.\<close>

definition reader_at :: "direct_reader \<Rightarrow> nat" where
  "reader_at rd = dr_offset rd - dr_len rd + dr_pos rd"

definition reader_ok :: "string \<Rightarrow> bytes \<Rightarrow> direct_reader \<Rightarrow> bool" where
  "reader_ok p d rd \<longleftrightarrow> dr_path rd = p \<and> dr_size rd = length d \<and> dr_offset rd \<le> length d \<and> dr_len rd \<le> dr_offset rd \<and>
     dr_pos rd \<le> dr_len rd \<and> take (dr_len rd) (dr_buf rd) = take (dr_len rd) (drop (dr_offset rd - dr_len rd) d) \<and>
     (dr_done rd \<longrightarrow> reader_at rd = length d)"

lemma reader_new_ok: "reader_ok p d (direct_reader_new p (length d) buf)"
  by (simp add: reader_ok_def direct_reader_new_def reader_at_def)

lemma reader_fill_spec:
  assumes rd: "reader_ok p d rd" and f: "file_at s p = Some d"
    and more: "dr_len rd \<le> dr_pos rd" "dr_offset rd < length d" and io: "0 < fb_io_size fb" "fb_io_size fb < 2 ^ 63"
  shows "wp (reader_fill fb rd) (look (\<lambda>rd'. reader_ok p d rd' \<and> reader_at rd' = reader_at rd \<and> dr_done rd' = dr_done rd \<and>
    dr_pos rd' < dr_len rd') s) s"
proof -
  let ?off = "dr_offset rd" and ?chunk = "min (dr_size rd - dr_offset rd) (fb_io_size fb)"
  let ?n = "unat (round_up (of_nat ?chunk))"
  have "?chunk \<le> ?n" unfolding round_up_eq using io by (intro round_up_ge) auto
  then have n: "0 < ?n" using more io rd by (auto simp: reader_ok_def)
  have p: "dr_path rd = p" "dr_size rd = length d" using rd by (simp_all add: reader_ok_def)
  show ?thesis
    unfolding reader_fill_def Let_def
  proof (rule look_bind [OF pool_get_look], goal_cases)
    case (1 buf s1)
    have f1: "file_at s1 (dr_path rd) = Some d" using f p 1 by (simp add: file_at_looked)
    show ?case
    proof (cases "length buf < ?n")
      case True
      then show ?thesis by (simp add: wp_os)
    next
      case False
      show ?thesis
        unfolding if_not_P [OF False]
      proof (rule look_bind [OF read_at_look [OF f1]], goal_cases)
        case (1 got s2)
        then obtain k where got: "got = take (Suc k) (take ?n (drop ?off d))" by blast
        define m where "m = min (length got) (length d - ?off)"
        have blk: "block_of d ?off (take (length d - ?off) got)"
          unfolding got by (rule block_read [OF more(2) n])
        have len: "length (take (length d - ?off) got) = m" by (simp add: m_def min.commute)
        have m: "0 < m" "?off + m \<le> length d" using blk len by (auto simp: block_of_def)
        have x: "take m got = take (length d - ?off) got" by (auto simp: m_def min_def)
        have "take m got = take m (drop ?off d)"
          using blk unfolding block_of_def len x by blast
        moreover have "take m (overwrite buf 0 got) = take m got" by (simp add: m_def)
        ultimately have buf: "take m (overwrite buf 0 got) = take m (drop ?off d)" by simp
        define rd' where "rd' = rd\<lparr>dr_buf := overwrite buf 0 got, dr_pos := 0, dr_len := m, dr_offset := ?off + m\<rparr>"
        have sel: "dr_path rd' = p" "dr_size rd' = length d" "dr_offset rd' = ?off + m" "dr_len rd' = m" "dr_pos rd' = 0"
          "dr_buf rd' = overwrite buf 0 got" "dr_done rd' = dr_done rd"
          using p by (simp_all add: rd'_def)
        have at: "reader_at rd' = reader_at rd"
          using rd more(1) by (simp add: reader_at_def sel reader_ok_def)
        have "reader_ok p d rd'"
          unfolding reader_ok_def at sel using m buf rd by (simp add: reader_ok_def)
        then have "look (\<lambda>rd'. reader_ok p d rd' \<and> reader_at rd' = reader_at rd \<and> dr_done rd' = dr_done rd \<and>
            dr_pos rd' < dr_len rd') s2 (Inr rd') (pool_put fb (dr_buf rd) s2)"
          using at m sel by simp
        then show ?case by (simp add: wp_step rd'_def m_def p)
      qed
    qed
  qed
qed

text \<open>Serving from a block that is not used up.\<close>

definition poll_served :: "string \<Rightarrow> bytes \<Rightarrow> direct_reader \<Rightarrow> bytes \<times> direct_reader \<Rightarrow> bool" where
  "poll_served p d rd res \<longleftrightarrow> (case res of (got, rd') \<Rightarrow> reader_ok p d rd' \<and> reader_at rd' = reader_at rd + length got \<and>
     got = take (length got) (drop (reader_at rd) d) \<and> reader_at rd' \<le> length d \<and> (got = [] \<longrightarrow> reader_at rd = length d))"

lemma poll_serve:
  assumes rd: "reader_ok p d rd" and more: "\<not> dr_done rd" "dr_pos rd < dr_len rd" and room: "0 < room"
  shows "wp (poll_read fb room rd) (look (poll_served p d rd) s) s"
proof -
  define avail where "avail = take (dr_len rd - dr_pos rd) (drop (dr_pos rd) (dr_buf rd))"
  define n where "n = min (length avail) room"
  have buf: "take (dr_len rd) (dr_buf rd) = take (dr_len rd) (drop (dr_offset rd - dr_len rd) d)"
    and b: "dr_len rd \<le> dr_offset rd" "dr_offset rd \<le> length d" using rd by (simp_all add: reader_ok_def)
  have "avail = drop (dr_pos rd) (take (dr_len rd) (dr_buf rd))" by (simp add: avail_def drop_take)
  also have "\<dots> = take (dr_len rd - dr_pos rd) (drop (reader_at rd) d)"
    unfolding buf by (simp add: drop_take reader_at_def add.commute)
  finally have avail: "avail = take (dr_len rd - dr_pos rd) (drop (reader_at rd) d)" .
  have at: "reader_at rd + (dr_len rd - dr_pos rd) = dr_offset rd"
    using b more by (simp add: reader_at_def)
  then have len: "length avail = dr_len rd - dr_pos rd" using b by (simp add: avail)
  then have n: "0 < n" "n \<le> dr_len rd - dr_pos rd" "n \<le> length avail" using more room by (auto simp: n_def)
  have got: "take n avail = take n (drop (reader_at rd) d)" using n by (simp add: avail min_absorb1)
  have "poll_served p d rd (take n avail, rd\<lparr>dr_pos := dr_pos rd + n\<rparr>)"
    using rd more n at b got len by (auto simp: poll_served_def reader_ok_def reader_at_def)
  then show ?thesis
    using more by (subst wp_def) (simp add: poll_read.simps Let_def avail_def [symmetric] n_def [symmetric])
qed

lemma poll_read_spec:
  assumes rd: "reader_ok p d rd" and f: "file_at s p = Some d" and room: "0 < room" and io: "0 < fb_io_size fb" "fb_io_size fb < 2 ^ 63"
  shows "wp (poll_read fb room rd) (look (poll_served p d rd) s) s"
proof -
  consider "dr_done rd" | "\<not> dr_done rd" "dr_pos rd < dr_len rd"
    | "\<not> dr_done rd" "dr_len rd \<le> dr_pos rd" "dr_size rd \<le> dr_offset rd"
    | "\<not> dr_done rd" "dr_len rd \<le> dr_pos rd" "dr_offset rd < dr_size rd" by linarith
  then show ?thesis
  proof cases
    case 1
    then show ?thesis using rd by (subst wp_def) (simp add: poll_read.simps poll_served_def reader_ok_def)
  next
    case 2
    then show ?thesis by (rule poll_serve [OF rd _ _ room])
  next
    case 3
    then have "reader_at rd = length d" using rd by (auto simp: reader_ok_def reader_at_def)
    then show ?thesis using rd 3 by (subst wp_def) (simp add: poll_read.simps poll_served_def reader_ok_def reader_at_def)
  next
    case 4
    have off: "dr_offset rd < length d" using 4 rd by (simp add: reader_ok_def)
    have "wp (io_bind (reader_fill fb rd) (poll_read fb room)) (look (poll_served p d rd) s) s"
    proof (rule look_bind [OF reader_fill_spec [OF rd f 4(2) off io]], goal_cases)
      case (1 rd' s1)
      then have "wp (poll_read fb room rd') (look (poll_served p d rd') s1) s1" using 4 by (intro poll_serve room) auto
      then show ?case by (rule wp_mono) (use 1 in \<open>auto simp: look_def poll_served_def\<close>)
    qed
    moreover have "poll_read fb room rd s = io_bind (reader_fill fb rd) (poll_read fb room) s"
      using 4 by (subst poll_read.simps) (simp add: io_bind_def)
    ultimately show ?thesis by (simp add: wp_def)
  qed
qed

lemma read_to_end_spec:
  assumes room: "0 < room" and io: "0 < fb_io_size fb" "fb_io_size fb < 2 ^ 63"
    and "reader_ok p d rd" "file_at s p = Some d" "out = take (reader_at rd) d" "reader_at rd \<le> length d"
  shows "wp (read_to_end fb room rd out) (look (\<lambda>x. x = d) s) s"
  using assms(4-)
proof (induction "length d - reader_at rd" arbitrary: rd out s rule: less_induct)
  case less
  let ?next = "\<lambda>(got, rd'). if got = [] then io_return out else read_to_end fb room rd' (out @ got)"
  have "wp (io_bind (poll_read fb room rd) ?next) (look (\<lambda>x. x = d) s) s"
  proof (rule look_bind [OF poll_read_spec [OF less.prems(1,2) room io]], goal_cases)
    case (1 res s1)
    obtain got rd' where res: "res = (got, rd')" by (cases res)
    show ?case
    proof (cases "got = []")
      case True
      then show ?thesis using 1(2) less.prems by (simp add: res poll_served_def)
    next
      case False
      have sv: "reader_ok p d rd'" "reader_at rd' = reader_at rd + length got"
        "got = take (length got) (drop (reader_at rd) d)" "reader_at rd' \<le> length d"
        using 1(2) by (simp_all add: res poll_served_def)
      have "wp (read_to_end fb room rd' (out @ got)) (look (\<lambda>x. x = d) s1) s1"
      proof (rule less.hyps [OF _ sv(1) _ _ sv(4)])
        have "0 < length got" using False by simp
        then show "length d - reader_at rd' < length d - reader_at rd" using sv(2,4) by linarith
        show "file_at s1 p = Some d" using less.prems(2) by (simp add: file_at_looked [OF 1(1)])
        show "out @ got = take (reader_at rd') d" using less.prems(3) sv(2,3) by (simp add: take_add)
      qed
      then show ?thesis using False by (simp add: res)
    qed
  qed
  moreover have "read_to_end fb room rd out s = io_bind (poll_read fb room rd) ?next s"
    by (subst read_to_end.simps) (auto simp: io_bind_def io_return_def split: option.splits sum.splits prod.splits)
  ultimately show ?case by (simp add: wp_def)
qed

lemma open_none_or_some:
  assumes i: "file_id_ok i" and ok: "disk_ok R s" "r \<in> R"
  shows "node_at s (bpath r i) = map_option Reg (file_at s (bpath r i))"
  using disk_okD(2) [OF ok id_ok_shaped [OF i]] by (auto simp: file_at_def split: option.splits node.splits)

lemma file_open_read_spec:
  assumes fb: "fb_ok fb" and ok: "disk_ok R s" "fb_root fb \<in> R" and i: "file_id_ok i" and room: "0 < room"
  shows "wp (file_open_read fb room i)
    (blob_read (disk_as s R) (file_view fb) s (\<lambda>x. x = map_option (\<lambda>d. (d, of_nat (length d))) (blobs_of (file_view fb s) i))) s"
proof (rule blob_readI [OF _ ok(1)])
  let ?p = "bpath (fb_root fb) i"
  let ?res = "map_option (\<lambda>d. (d, of_nat (length d) :: u64)) (file_at s ?p)"
  have r: "root_ok (fb_root fb)" and io: "0 < fb_io_size fb" "fb_io_size fb < 2 ^ 63" using fb by (auto simp: fb_ok_def)
  note node = open_none_or_some [OF i ok]
  have fair: "fair s" using ok by (simp add: disk_ok_def)
  have opened: "wp (open_or_none ?p) (look (\<lambda>b. b = (node_at s ?p \<noteq> None)) s) s"
    by (rule wp_mono [OF open_or_none_spec [OF fair]]) (simp add: look_def)
  have "wp (file_open_read fb room i) (look (\<lambda>x. x = ?res) s) s"
    unfolding file_open_read_def wp_path [OF r id_ok_shaped [OF i]]
  proof (rule look_bind [OF opened], goal_cases)
    case (1 found s1)
    show ?case
    proof (cases "file_at s ?p")
      case None
      then show ?thesis using 1 node by simp
    next
      case (Some d)
      have f1: "file_at s1 ?p = Some d" using Some by (simp add: file_at_looked [OF 1(1)])
      have len: "wp (os (file_len ?p)) (look (\<lambda>n. n = length d) s1) s1"
        by (rule wp_mono [OF file_len_spec]) (use f1 in \<open>auto simp: look_def file_at_def split: option.splits node.splits\<close>)
      have "wp (io_bind (os (file_len ?p)) (\<lambda>n. if fb_direct fb then
            io_bind (os (pool_get fb)) (\<lambda>buf. io_bind (read_to_end fb room (direct_reader_new ?p n buf) []) (\<lambda>d. io_return (Some (d, of_nat n))))
          else io_bind (os (fs_read ?p)) (\<lambda>d. io_return (Some (d, of_nat n))))) (look (\<lambda>x. x = ?res) s1) s1"
      proof (rule look_bind [OF len], goal_cases)
        case (1 n s2)
        have f2: "file_at s2 ?p = Some d" using f1 by (simp add: file_at_looked [OF 1(1)])
        have buffered: "wp (io_bind (os (fs_read ?p)) (\<lambda>d. io_return (Some (d, of_nat n)))) (look (\<lambda>x. x = ?res) s2) s2"
        proof -
          have "wp (os (fs_read ?p)) (look (\<lambda>x. x = d) s2) s2"
            by (rule wp_mono [OF fs_read_spec]) (use f2 in \<open>auto simp: look_def file_at_def\<close>)
          then show ?thesis by (rule look_bind) (use Some 1 in simp)
        qed
        have direct: "wp (io_bind (os (pool_get fb)) (\<lambda>buf. io_bind (read_to_end fb room (direct_reader_new ?p n buf) [])
            (\<lambda>d. io_return (Some (d, of_nat n))))) (look (\<lambda>x. x = ?res) s2) s2"
        proof (rule look_bind [OF pool_get_look])
          fix buf s3
          assume l: "looked s2 s3"
          have "wp (read_to_end fb room (direct_reader_new ?p n buf) []) (look (\<lambda>x. x = d) s3) s3"
            unfolding 1(2)
            by (rule read_to_end_spec [OF room io reader_new_ok]) (use f2 in \<open>auto simp: file_at_looked [OF l] reader_at_def direct_reader_new_def\<close>)
          then show "wp (io_bind (read_to_end fb room (direct_reader_new ?p n buf) []) (\<lambda>d. io_return (Some (d, of_nat n)))) (look (\<lambda>x. x = ?res) s3) s3"
            by (rule look_bind) (use Some 1 in simp)
        qed
        show ?case by (cases "fb_direct fb") (simp_all only: if_True if_False direct buffered)
      qed
      then show ?thesis using 1 node Some by simp
    qed
  qed
  then show "wp (file_open_read fb room i) (\<lambda>res s'. looked s s' \<and>
      (\<forall>x. res = Inr x \<longrightarrow> x = map_option (\<lambda>d. (d, of_nat (length d))) (blobs_of (file_view fb s) i))) s"
    by (rule wp_mono) (use i in \<open>auto simp: look_def\<close>)
qed

section \<open>Existence and deletion\<close>

lemma file_exists_spec:
  assumes fb: "fb_ok fb" and ok: "disk_ok R s" "fb_root fb \<in> R" and i: "file_id_ok i"
  shows "wp (file_exists fb i) (blob_read (disk_as s R) (file_view fb) s (\<lambda>x. x = (blobs_of (file_view fb s) i \<noteq> None))) s"
proof (rule blob_readI [OF _ ok(1)])
  have "root_ok (fb_root fb)" "fair s" using fb ok by (simp_all add: fb_ok_def disk_ok_def)
  then show "wp (file_exists fb i) (\<lambda>res s'. looked s s' \<and> (\<forall>a. res = Inr a \<longrightarrow> a = (blobs_of (file_view fb s) i \<noteq> None))) s"
    using i open_none_or_some [OF i ok] unfolding file_exists_def
    by (simp add: wp_path id_ok_shaped) (simp add: wp_def path_exists_fair)
qed

lemma remove_file_spec:
  "wp (os (remove_file (bpath r i))) (on_blob r i (\<lambda>_ s'. file_at s' (bpath r i) = None) s) s"
proof -
  have "touched r i s (del_node (bpath r i) (tick s))" if "node_at s (bpath r i) \<noteq> Some DirNode"
    by (rule touched_nodes) (use that in \<open>auto simp: node_step_def\<close>)
  then show ?thesis
    unfolding remove_file_def
    by (intro wp_os_call) (auto simp: wp_os looked_touched file_at_def split: option.splits node.splits)
qed

lemma file_delete_touched:
  assumes fb: "fb_ok fb" and ok: "disk_ok R s" and i: "file_id_ok i"
  shows "wp (file_delete fb i) (\<lambda>res s'. touched (fb_root fb) i s s' \<and>
    (\<forall>a. res = Inr a \<longrightarrow> blobs_of (file_view fb s') i = None)) s"
proof -
  let ?r = "fb_root fb" and ?p = "bpath (fb_root fb) i"
  have r: "root_ok ?r" and fair: "fair s" using fb ok by (simp_all add: fb_ok_def disk_ok_def)
  note sh = id_ok_shaped [OF i]
  have "wp (\<lambda>s. case path_exists ?p s of (True, s1) \<Rightarrow> os (remove_file ?p) s1 | (False, s1) \<Rightarrow> Some (Inr (), s1))
      (\<lambda>res s'. touched ?r i s s' \<and> (\<forall>a. res = Inr a \<longrightarrow> file_at s' ?p = None)) s"
  proof (cases "node_at s ?p = None")
    case True
    then show ?thesis using fair by (simp add: wp_def path_exists_fair looked_touched file_at_def)
  next
    case False
    have "wp (os (remove_file ?p)) (\<lambda>res s'. touched ?r i s s' \<and> (\<forall>a. res = Inr a \<longrightarrow> file_at s' ?p = None)) (tick s)"
      by (rule wp_mono [OF remove_file_spec]) (auto simp: on_blob_def intro: touched_trans [OF sh looked_touched [OF looked_tick(1)]])
    then show ?thesis using fair False by (simp add: wp_def path_exists_fair)
  qed
  then show ?thesis
    using i unfolding file_delete_def wp_path [OF r sh] by simp
qed

lemma file_delete_spec:
  assumes fb: "fb_ok fb" and ok: "disk_ok R s" "fb_root fb \<in> R" and i: "file_id_ok i"
  shows "wp (file_delete fb i) (blob_write (disk_as s R) (file_view fb) s i (\<lambda>_ v. blobs_of v i = None)) s"
  by (rule blob_writeI [OF file_delete_touched [OF fb ok(1) i] ok i])

end
