(* ===== verification/File_Writers.thy ===== *)
theory File_Writers
  imports File_Contract
begin

text \<open>
  The streaming writers of the file blob store: at any time the file and the buffer of a writer
  together hold exactly the bytes it was given, in whatever chunks they came and however the
  buffering hands them on, and finishing leaves them as the blob.
\<close>

section \<open>Setting a writer\<close>

lemma set_writer_touched: "touched r i s (s\<lparr>dk_writers := (dk_writers s)(bpath r i := wr)\<rparr>)"
  by (simp add: touched_def node_step_def)

lemma wp_set_writer: "wp (set_writer p wr) Q s \<longleftrightarrow> Q (Inr ()) (s\<lparr>dk_writers := (dk_writers s)(p := wr)\<rparr>)"
  by (simp add: set_writer_def wp_def)

text \<open>A computation on a blob that may also change its writer.\<close>

definition on_writer :: "string \<Rightarrow> string \<Rightarrow> ('a \<Rightarrow> disk \<Rightarrow> bool) \<Rightarrow> disk \<Rightarrow> 'a result \<Rightarrow> disk \<Rightarrow> bool" where
  "on_writer r i Q s res s' \<longleftrightarrow> touched r i s s' \<and> (\<forall>a. res = Inr a \<longrightarrow> Q a s')"

lemma on_writer_simps [simp]:
  "on_writer r i Q s (Inl e) s' \<longleftrightarrow> touched r i s s'"
  "on_writer r i Q s (Inr a) s' \<longleftrightarrow> touched r i s s' \<and> Q a s'"
  by (auto simp: on_writer_def)

lemma on_writer_bind:
  assumes i: "shaped i" and m: "wp m (on_writer r i P s) s"
    and f: "\<And>a s1. touched r i s s1 \<Longrightarrow> P a s1 \<Longrightarrow> wp (f a) (on_writer r i Q s1) s1"
  shows "wp (io_bind m f) (on_writer r i Q s) s"
proof (rule wp_bindI [OF m], goal_cases)
  case (2 a s1)
  then show ?case
    by (intro wp_mono [OF f]) (auto simp: on_writer_def intro: touched_trans [OF i])
qed simp

lemma on_blob_writer: "wp m (on_blob r i P s) s \<Longrightarrow> wp m (on_writer r i P s) s"
  by (erule wp_mono) (auto simp: on_blob_def on_writer_def)

lemma blob_write_of_writer:
  assumes m: "wp m (on_writer (fb_root fb) i (\<lambda>a s'. Q a (file_view fb s')) s) s"
    and "disk_ok R s" "fb_root fb \<in> R" "file_id_ok i"
  shows "wp m (blob_write (disk_as s R) (file_view fb) s i Q) s"
  by (rule blob_writeI [OF _ assms(2-4)], rule wp_mono [OF m]) (simp add: on_writer_def)

section \<open>Opening\<close>

lemma file_create_writer_spec:
  assumes fb: "fb_ok fb" and ok: "disk_ok R s" "fb_root fb \<in> R" and i: "file_id_ok i"
  shows "wp (file_create_writer fb i hint) (blob_write (disk_as s R) (file_view fb) s i (\<lambda>_ v. writes_of v i = Some [])) s"
proof (rule blob_write_of_writer [OF _ ok i])
  let ?r = "fb_root fb" and ?p = "bpath (fb_root fb) i"
  let ?Q = "\<lambda>_ s'. writes_of (file_view fb s') i = Some []"
  have r: "root_ok ?r" and io: "0 < fb_io_size fb" using fb by (auto simp: fb_ok_def)
  note sh = id_ok_shaped [OF i]
  have put: "wp (set_writer ?p (Some wr)) (on_writer ?r i ?Q s2) s2"
    if "file_at s2 ?p = Some []" "written (fb_io_size fb) wr [] = Some []" for wr s2
    unfolding wp_set_writer using that i by (simp add: set_writer_touched written_at_def)
  show "wp (file_create_writer fb i hint) (on_writer ?r i ?Q s) s"
    unfolding file_create_writer_def wp_path [OF r sh]
  proof (rule on_writer_bind [OF sh on_blob_writer [OF create_parent_spec [OF r sh ok]]])
    fix s1
    show "wp (io_bind (os (file_create ?p)) (\<lambda>_. if fb_direct fb then
         io_bind (os (pool_get fb)) (\<lambda>buf. set_writer ?p (Some (DirectWriter buf 0 0 0 (fb_sync fb))))
       else set_writer ?p (Some (BufferedWriter [] 0 0 (fb_sync fb))))) (on_writer ?r i ?Q s1) s1"
    proof (rule on_writer_bind [OF sh on_blob_writer [OF file_create_spec]])
      fix s2
      assume f: "file_at s2 ?p = Some []"
      have "wp (io_bind (os (pool_get fb)) (\<lambda>buf. set_writer ?p (Some (DirectWriter buf 0 0 0 (fb_sync fb))))) (on_writer ?r i ?Q s2) s2"
      proof (rule on_writer_bind [OF sh on_blob_writer [OF pool_get_blob [of _ _ _ ?p]]])
        fix buf s3
        assume "file_at s3 ?p = file_at s2 ?p"
        then show "wp (set_writer ?p (Some (DirectWriter buf 0 0 0 (fb_sync fb)))) (on_writer ?r i ?Q s3) s3"
          using f io by (intro put) auto
      qed
      moreover have "wp (set_writer ?p (Some (BufferedWriter [] 0 0 (fb_sync fb)))) (on_writer ?r i ?Q s2) s2"
        by (rule put [OF f]) simp
      ultimately show "wp (if fb_direct fb then
         io_bind (os (pool_get fb)) (\<lambda>buf. set_writer ?p (Some (DirectWriter buf 0 0 0 (fb_sync fb))))
       else set_writer ?p (Some (BufferedWriter [] 0 0 (fb_sync fb)))) (on_writer ?r i ?Q s2) s2"
        by simp
    qed
  qed
qed

section \<open>Writing\<close>

lemma patch_end: "patch c (length c) src = c @ src"
  by (simp add: patch_def zeros_def)

lemma buffered_write_spec:
  assumes i: "shaped i" and f: "file_at s (bpath r i) = Some c" and w: "written n (BufferedWriter buf pos tot sync) c = Some d"
  shows "wp (buffered_write bufw fb (bpath r i) buf pos tot sync data)
    (on_writer r i (\<lambda>_ s'. written_at n s' (bpath r i) = Some (d @ data)) s) s"
proof -
  let ?p = "bpath r i" and ?k = "bufw (fb_io_size fb) (length buf) data"
  have c: "pos = length c" "d = c @ buf" "tot = of_nat (length (c @ buf))" using w by (auto split: if_splits)
  have all: "take ?k (buf @ data) @ drop ?k (buf @ data) = buf @ data" by (rule append_take_drop_id)
  show ?thesis
    unfolding buffered_write_def Let_def
  proof (rule on_writer_bind [OF i on_blob_writer [OF write_all_at_spec]], goal_cases)
    case (1 u s1)
    let ?now = "take ?k (buf @ data)" and ?rest = "drop ?k (buf @ data)"
    have f1: "file_at s1 ?p = Some (c @ ?now)" using 1 f by (simp add: c(1) patch_end)
    have pos: "pos + length ?now = length (c @ ?now)" by (simp add: c(1))
    have joined: "(c @ ?now) @ ?rest = c @ buf @ data" by (simp only: append_assoc all)
    have "tot + of_nat (length data) = (of_nat (length ((c @ ?now) @ ?rest)) :: u64)"
      unfolding joined c(3) by simp
    then have "written n (BufferedWriter ?rest (pos + length ?now) (tot + of_nat (length data)) sync) (c @ ?now) = Some (d @ data)"
      unfolding written.simps pos joined c(2) by (simp only: simp_thms if_True append_assoc)
    then show ?case
      unfolding wp_set_writer using f1 by (simp add: set_writer_touched written_at_def)
  qed
qed

text \<open>The direct writer: the blocks in the file and the front of the buffer.\<close>

definition direct_at :: "nat \<Rightarrow> string \<Rightarrow> disk \<Rightarrow> bytes \<Rightarrow> nat \<Rightarrow> nat \<Rightarrow> bytes \<Rightarrow> bool" where
  "direct_at io p s buf len off d \<longleftrightarrow> (\<exists>c. file_at s p = Some c \<and> off = length c \<and> len \<le> length buf \<and> len < io \<and>
     length c < 2 ^ 63 \<and> d = c @ take len buf)"

lemma flush_full_spec:
  assumes i: "shaped i" and f: "file_at s (bpath r i) = Some c"
  shows "wp (flush_full fb (bpath r i) buf (length c)) (on_blob r i (\<lambda>_ s'. file_at s' (bpath r i) = Some (c @ take (fb_io_size fb) buf) \<and>
    fb_io_size fb \<le> length buf \<and> length c + fb_io_size fb < 2 ^ 63) s) s"
  unfolding flush_full_def
proof (rule on_blob_bind [OF i pool_get_blob [of _ _ _ "bpath r i"]], goal_cases)
  case (1 buf' s1)
  show ?case
  proof (cases "length buf < fb_io_size fb")
    case True
    then show ?thesis by (simp add: wp_os)
  next
    case False
    show ?thesis
      unfolding if_not_P [OF False]
      by (rule on_blob_bind [OF i write_all_at_spec]) (use False f 1 in \<open>auto simp: patch_end\<close>)
  qed
qed

lemma direct_write_loop_spec:
  assumes i: "shaped i" and io: "0 < fb_io_size fb"
    and "direct_at (fb_io_size fb) (bpath r i) s buf len off d"
  shows "wp (direct_write_loop fb (bpath r i) data buf len off)
    (on_blob r i (\<lambda>(buf', len', off') s'. direct_at (fb_io_size fb) (bpath r i) s' buf' len' off' (d @ data)) s) s"
  using assms(3)
proof (induction "length data" arbitrary: data buf len off d s rule: less_induct)
  case less
  let ?io = "fb_io_size fb" and ?p = "bpath r i"
  let ?post = "\<lambda>d s. on_blob r i (\<lambda>(buf', len', off') s'. direct_at ?io ?p s' buf' len' off' d) s"
  obtain c where c: "file_at s ?p = Some c" "off = length c" "len \<le> length buf" "len < ?io" "length c < 2 ^ 63" "d = c @ take len buf"
    using less.prems by (auto simp: direct_at_def)
  define n where "n = min (length data) (?io - len)"
  define buf1 where "buf1 = overwrite buf len (take n data)"
  show ?case
  proof (cases "data = []")
    case True
    then show ?thesis using less.prems by (subst wp_def) (simp add: direct_write_loop.simps)
  next
    case False
    then have n: "0 < n" "n \<le> length data" "len + n \<le> ?io" using c(4) by (auto simp: n_def)
    have dec: "length (drop n data) < length data" using n by simp
    show ?thesis
    proof (cases "length buf < len + n")
      case True
      then show ?thesis using False by (subst wp_def) (simp add: direct_write_loop.simps n_def [symmetric])
    next
      case fits: False
      have b: "take (len + n) buf1 = take len buf @ take n data" "length buf1 = length buf"
        using fits n c(3) by (simp_all add: buf1_def overwrite_def min_absorb1)
      have data: "(d @ take n data) @ drop n data = d @ data" by simp
      show ?thesis
      proof (cases "len + n = ?io")
        case True
        have "wp (io_bind (flush_full fb ?p buf1 off) (\<lambda>buf2. direct_write_loop fb ?p (drop n data) buf2 0 (off + ?io))) (?post (d @ data) s) s"
          unfolding c(2)
        proof (rule on_blob_bind [OF i flush_full_spec [OF i c(1)]], goal_cases)
          case (1 buf2 s1)
          have "direct_at ?io ?p s1 buf2 0 (length c + ?io) (d @ take n data)"
            using 1(3) io b True fits c(6) n(2) by (simp add: direct_at_def min_absorb2)
          from less.hyps [OF dec this] show ?case by (simp only: data)
        qed
        moreover have "direct_write_loop fb ?p data buf len off s =
            io_bind (flush_full fb ?p buf1 off) (\<lambda>buf2. direct_write_loop fb ?p (drop n data) buf2 0 (off + ?io)) s"
          using False fits True
          by (subst direct_write_loop.simps) (simp add: n_def [symmetric] buf1_def [symmetric] io_bind_def Let_def)
        ultimately show ?thesis by (simp add: wp_def)
      next
        case part: False
        have "direct_at ?io ?p s buf1 (len + n) off (d @ take n data)"
          using c b n part fits by (auto simp: direct_at_def)
        from less.hyps [OF dec this] have "wp (direct_write_loop fb ?p (drop n data) buf1 (len + n) off) (?post (d @ data) s) s"
          by (simp only: data)
        moreover have "direct_write_loop fb ?p data buf len off s = direct_write_loop fb ?p (drop n data) buf1 (len + n) off s"
          using False fits part by (subst direct_write_loop.simps) (simp add: n_def [symmetric] buf1_def [symmetric] Let_def)
        ultimately show ?thesis by (simp add: wp_def)
      qed
    qed
  qed
qed

lemma direct_at_length: "direct_at io p s buf len off d \<Longrightarrow> length d = off + len"
  by (auto simp: direct_at_def)

lemma direct_write_spec:
  assumes i: "shaped i" and io: "0 < fb_io_size fb" and f: "file_at s (bpath r i) = Some c"
    and w: "written (fb_io_size fb) (DirectWriter buf len off tot sync) c = Some d"
  shows "wp (direct_write fb (bpath r i) buf len off tot sync data)
    (on_writer r i (\<lambda>_ s'. written_at (fb_io_size fb) s' (bpath r i) = Some (d @ data)) s) s"
proof -
  let ?p = "bpath r i" and ?io = "fb_io_size fb"
  have at: "direct_at ?io ?p s1 buf len off d" and tot: "tot = of_nat (length d)" if "file_at s1 ?p = Some c" for s1
    using w that by (auto simp: direct_at_def split: if_splits)
  have set1: "wp (set_writer ?p (Some wr)) (on_writer r i (\<lambda>_ s'. file_at s' ?p = Some c) s) s" for wr
    unfolding wp_set_writer using f by (simp add: set_writer_touched)
  show ?thesis
    unfolding direct_write_def
  proof (rule on_writer_bind [OF i set1], goal_cases)
    case (1 u s1)
    show ?case
    proof (rule on_writer_bind [OF i on_blob_writer [OF direct_write_loop_spec [OF i io at [OF 1(2)], of data]]], goal_cases)
      case (1 res s2)
      obtain buf' len' off' where res: "res = (buf', len', off')" by (cases res)
      have d: "direct_at ?io ?p s2 buf' len' off' (d @ data)" using 1(2) by (simp add: res)
      have "tot + of_nat (length data) = (of_nat (off' + len') :: u64)"
        using tot [OF f] direct_at_length [OF d] by (metis length_append of_nat_add)
      then show ?case
        unfolding res prod.case wp_set_writer using d by (auto simp: set_writer_touched written_at_def direct_at_def)
    qed
  qed
qed

lemma written_atD:
  assumes "writes_of (file_view fb s) i = Some d"
  obtains wr c where "dk_writers s (bpath (fb_root fb) i) = Some wr" "file_at s (bpath (fb_root fb) i) = Some c"
    "written (fb_io_size fb) wr c = Some d"
  using assms by (auto simp: written_at_def split: if_splits option.splits)

lemma file_write_chunk_spec:
  assumes fb: "fb_ok fb" and ok: "disk_ok R s" "fb_root fb \<in> R" and i: "file_id_ok i" and d: "writes_of (file_view fb s) i = Some d"
  shows "wp (file_write_chunk bufw fb i chunk) (blob_write (disk_as s R) (file_view fb) s i (\<lambda>_ v. writes_of v i = Some (d @ chunk))) s"
proof (rule blob_write_of_writer [OF _ ok i])
  let ?p = "bpath (fb_root fb) i"
  have r: "root_ok (fb_root fb)" and io: "0 < fb_io_size fb" using fb by (auto simp: fb_ok_def)
  note sh = id_ok_shaped [OF i]
  obtain wr c where wr: "dk_writers s ?p = Some wr" "file_at s ?p = Some c" "written (fb_io_size fb) wr c = Some d"
    using written_atD [OF d] .
  have "wp (case wr of BufferedWriter buf pos tot sync \<Rightarrow> buffered_write bufw fb ?p buf pos tot sync chunk
       | DirectWriter buf len offset tot sync \<Rightarrow> direct_write fb ?p buf len offset tot sync chunk)
      (on_writer (fb_root fb) i (\<lambda>_ s'. written_at (fb_io_size fb) s' ?p = Some (d @ chunk)) s) s"
    using buffered_write_spec [OF sh wr(2)] direct_write_spec [OF sh io wr(2)] wr(3) by (cases wr) (auto simp only: writer.case)
  then show "wp (file_write_chunk bufw fb i chunk) (on_writer (fb_root fb) i (\<lambda>_ s'. writes_of (file_view fb s') i = Some (d @ chunk)) s) s"
    unfolding file_write_chunk_def wp_path [OF r sh] using i wr(1) by (simp add: wp_bind) (simp add: wp_def get_writer_def)
qed

section \<open>Finishing\<close>

lemma round_up_nat_ge: "n < 2 ^ 63 \<Longrightarrow> n \<le> unat (round_up (of_nat n))"
  unfolding round_up_eq by (rule round_up_ge) simp

lemma direct_finish_spec:
  assumes i: "shaped i" and io: "fb_io_size fb < 2 ^ 63" and f: "file_at s (bpath r i) = Some c"
    and w: "written (fb_io_size fb) (DirectWriter buf len off tot sync) c = Some d"
  shows "wp (direct_finish fb (bpath r i) buf len off tot sync)
    (on_blob r i (\<lambda>n s'. n = of_nat (length d) \<and> file_at s' (bpath r i) = Some d) s) s"
proof -
  let ?p = "bpath r i" and ?ws = "unat (round_up (of_nat len))"
  let ?buf = "fill_zero buf len ?ws"
  have c: "off = length c" "len \<le> length buf" "len < fb_io_size fb" "tot = of_nat (length c + len)" "length c < 2 ^ 63" "d = c @ take len buf"
    using w by (auto split: if_splits)
  have "length c + len < 2 ^ 64" using c(3,5) io by simp
  then have tot: "unat tot = length d"
    unfolding c(4,6) using c(2) by (simp add: unat_of_nat take_bit_eq_mod del: of_nat_add)
  have totw: "tot = of_nat (length d)" using c(2) unfolding c(4,6) by simp
  have ws: "len \<le> ?ws" using c(3) io by (intro round_up_nat_ge) simp
  let ?last = "if 0 < len then (let write_size = ?ws; buf1 = fill_zero buf len write_size in
         io_bind (os (pool_get fb)) (\<lambda>buf'.
         if length buf1 < write_size then os (\<lambda>s. (Inl (OsError OtherKind ''finish buf slice OOB''), s))
         else io_bind (os (write_all_at ?p (take write_size buf1) off)) (\<lambda>_. io_return buf')))
      else io_return buf"
  have last: "wp ?last (on_blob r i (\<lambda>_ s'. \<exists>e. file_at s' ?p = Some e \<and> take (length d) e = d \<and> length d \<le> length e) s) s"
  proof (cases "0 < len")
    case False
    then show ?thesis using f c(6) by simp
  next
    case True
    show ?thesis
      unfolding if_P [OF True] Let_def
    proof (rule on_blob_bind [OF i pool_get_blob [of _ _ _ ?p]])
      fix buf' s1
      assume "file_at s1 ?p = file_at s ?p"
      then have f1: "file_at s1 ?p = Some c" using f by simp
      show "wp (if length ?buf < ?ws then os (\<lambda>s. (Inl (OsError OtherKind ''finish buf slice OOB''), s))
          else io_bind (os (write_all_at ?p (take ?ws ?buf) off)) (\<lambda>_. io_return buf'))
          (on_blob r i (\<lambda>_ s'. \<exists>e. file_at s' ?p = Some e \<and> take (length d) e = d \<and> length d \<le> length e) s1) s1"
      proof (cases "length ?buf < ?ws")
        case True
        then show ?thesis by (simp add: wp_os)
      next
        case False
        have d: "d = c @ take len (take ?ws ?buf)" using ws c(6) by (simp add: take_fill_zero min_absorb1)
        then have "take (length d) (c @ take ?ws ?buf) = d" using False ws c(2) by (simp add: min_absorb1)
        then show ?thesis
          unfolding if_not_P [OF False]
          by (intro on_blob_bind [OF i write_all_at_spec]) (use False ws c(2,6) f1 in \<open>auto simp: c(1) patch_end\<close>)
      qed
    qed
  qed
  show ?thesis
    unfolding direct_finish_def
  proof (rule on_blob_bind [OF i last])
    fix buf' s1
    assume "\<exists>e. file_at s1 ?p = Some e \<and> take (length d) e = d \<and> length d \<le> length e"
    then obtain e where e: "file_at s1 ?p = Some e" "take (length d) e = d" "length d \<le> length e" by blast
    show "wp (io_bind (os (set_len ?p (unat tot))) (\<lambda>_. io_bind (sync_if sync ?p) (\<lambda>_.
        io_bind (os (pool_get fb)) (\<lambda>_ s. Some (Inr tot, pool_put fb buf' s)))))
        (on_blob r i (\<lambda>n s'. n = of_nat (length d) \<and> file_at s' ?p = Some d) s1) s1"
    proof (rule on_blob_bind [OF i set_len_spec])
      fix u s2
      assume "file_at s2 ?p = map_option (\<lambda>c. take (unat tot) c @ zeros (unat tot - length c)) (file_at s1 ?p)"
      then have f2: "file_at s2 ?p = Some d" using e by (simp add: tot zeros_def)
      show "wp (io_bind (sync_if sync ?p) (\<lambda>_. io_bind (os (pool_get fb)) (\<lambda>_ s. Some (Inr tot, pool_put fb buf' s))))
          (on_blob r i (\<lambda>n s'. n = of_nat (length d) \<and> file_at s' ?p = Some d) s2) s2"
      proof (rule on_blob_bind [OF i sync_if_blob [of _ _ _ _ ?p]])
        fix v s3
        assume f3: "file_at s3 ?p = file_at s2 ?p"
        show "wp (io_bind (os (pool_get fb)) (\<lambda>_ s. Some (Inr tot, pool_put fb buf' s)))
            (on_blob r i (\<lambda>n s'. n = of_nat (length d) \<and> file_at s' ?p = Some d) s3) s3"
          by (rule on_blob_bind [OF i pool_get_blob [of _ _ _ ?p]]) (use f2 f3 totw in \<open>auto simp: wp_step looked_touched\<close>)
      qed
    qed
  qed
qed

lemma buffered_finish_spec:
  assumes i: "shaped i" and f: "file_at s (bpath r i) = Some c"
    and w: "written n (BufferedWriter buf pos tot sync) c = Some d"
  shows "wp (io_bind (os (write_all_at (bpath r i) buf pos)) (\<lambda>_.
         io_bind (if sync then io_bind (os (file_open (bpath r i))) (\<lambda>_. os (sync_all (bpath r i))) else io_return ()) (\<lambda>_.
         io_return tot)))
    (on_blob r i (\<lambda>n s'. n = of_nat (length d) \<and> file_at s' (bpath r i) = Some d) s) s"
proof -
  let ?p = "bpath r i"
  have c: "pos = length c" "d = c @ buf" "tot = of_nat (length d)" using w by (auto split: if_splits)
  have opn: "wp (os (file_open ?p)) (on_blob r i (\<lambda>_ s'. file_at s' ?p = file_at s1 ?p) s1) s1" for s1
    unfolding file_open_def by (rule wp_os_call) (auto simp: wp_os looked_touched split: option.splits)
  have syn: "wp (os (sync_all ?p)) (on_blob r i (\<lambda>_ s'. file_at s' ?p = file_at s1 ?p) s1) s1" for s1
    using sync_if_blob [of True ?p r i ?p s1] by (simp add: sync_if_def)
  show ?thesis
  proof (rule on_blob_bind [OF i write_all_at_spec])
    fix u s1
    assume "file_at s1 ?p = map_option (\<lambda>c. patch c pos buf) (file_at s ?p) \<and> pos + length buf < 2 ^ 63"
    then have f1: "file_at s1 ?p = Some d" using f by (simp add: c(1,2) patch_end)
    have "wp (io_bind (os (file_open ?p)) (\<lambda>_. os (sync_all ?p))) (on_blob r i (\<lambda>_ s'. file_at s' ?p = Some d) s1) s1"
      by (rule on_blob_bind [OF i opn], rule wp_mono [OF syn]) (use f1 in \<open>auto simp: on_blob_def\<close>)
    then have "wp (if sync then io_bind (os (file_open ?p)) (\<lambda>_. os (sync_all ?p)) else io_return ()) (on_blob r i (\<lambda>_ s'. file_at s' ?p = Some d) s1) s1"
      using f1 by simp
    then show "wp (io_bind (if sync then io_bind (os (file_open ?p)) (\<lambda>_. os (sync_all ?p)) else io_return ()) (\<lambda>_. io_return tot))
        (on_blob r i (\<lambda>n s'. n = of_nat (length d) \<and> file_at s' ?p = Some d) s1) s1"
      by (rule on_blob_bind [OF i]) (simp add: c(3))
  qed
qed

lemma file_finish_spec:
  assumes fb: "fb_ok fb" and ok: "disk_ok R s" "fb_root fb \<in> R" and i: "file_id_ok i" and d: "writes_of (file_view fb s) i = Some d"
  shows "wp (file_finish fb i) (blob_write (disk_as s R) (file_view fb) s i (\<lambda>n v. n = of_nat (length d) \<and> blobs_of v i = Some d)) s"
proof (rule blob_write_of_writer [OF _ ok i])
  let ?r = "fb_root fb" and ?p = "bpath (fb_root fb) i"
  have r: "root_ok ?r" and io: "fb_io_size fb < 2 ^ 63" using fb by (auto simp: fb_ok_def)
  note sh = id_ok_shaped [OF i]
  obtain wr c where wr: "dk_writers s ?p = Some wr" "file_at s ?p = Some c" "written (fb_io_size fb) wr c = Some d"
    using written_atD [OF d] .
  let ?Q = "\<lambda>n s'. n = of_nat (length d) \<and> file_at s' ?p = Some d"
  let ?fin = "case wr of
       BufferedWriter buf pos tot sync \<Rightarrow>
         io_bind (os (write_all_at ?p buf pos)) (\<lambda>_.
         io_bind (if sync then io_bind (os (file_open ?p)) (\<lambda>_. os (sync_all ?p)) else io_return ()) (\<lambda>_.
         io_return tot))
     | DirectWriter buf len offset tot sync \<Rightarrow> direct_finish fb ?p buf len offset tot sync"
  have fin: "wp ?fin (on_blob ?r i ?Q s1) s1" if "file_at s1 ?p = Some c" for s1
    using buffered_finish_spec [OF sh that] direct_finish_spec [OF sh io that] wr(3) by (cases wr) (simp_all only: writer.case)
  have "wp (io_bind (set_writer ?p None) (\<lambda>_. ?fin)) (on_writer ?r i ?Q s) s"
  proof (rule on_writer_bind [OF sh])
    show "wp (set_writer ?p None) (on_writer ?r i (\<lambda>_ s'. file_at s' ?p = Some c) s) s"
      unfolding wp_set_writer using wr(2) by (simp add: set_writer_touched)
  qed (rule on_blob_writer [OF fin])
  then have "wp (file_finish fb i) (on_writer ?r i ?Q s) s"
    unfolding file_finish_def wp_path [OF r sh] using wr(1) by (simp add: wp_bind [of "get_writer ?p"]) (simp add: wp_def get_writer_def)
  then show "wp (file_finish fb i) (on_writer ?r i (\<lambda>n s'. n = of_nat (length d) \<and> blobs_of (file_view fb s') i = Some d) s) s"
    by (rule wp_mono) (use i in \<open>auto simp: on_writer_def\<close>)
qed

lemma file_abort_spec:
  assumes fb: "fb_ok fb" and ok: "disk_ok R s" "fb_root fb \<in> R" and i: "file_id_ok i"
  shows "wp (file_abort fb i) (blob_write (disk_as s R) (file_view fb) s i (\<lambda>_ v. True)) s"
proof (rule blob_write_of_writer [OF _ ok i])
  let ?r = "fb_root fb" and ?p = "bpath (fb_root fb) i"
  have r: "root_ok ?r" using fb by (simp add: fb_ok_def)
  note sh = id_ok_shaped [OF i]
  have rm: "touched ?r i s1 (snd (remove_file ?p s1))" for s1
    using remove_file_spec [of ?r i s1] by (auto simp: wp_os on_blob_def split: prod.splits sum.splits)
  have rest: "wp (\<lambda>s. Some (Inr (), snd (remove_file ?p (case wr of BufferedWriter _ _ _ _ \<Rightarrow> s | DirectWriter buf _ _ _ _ \<Rightarrow> pool_put fb buf s))))
      (on_writer ?r i (\<lambda>_ _. True) s1) s1" for wr s1
    using touched_trans [OF sh looked_touched [OF looked_tick(2)] rm] rm
    by (auto simp: wp_step split: writer.splits)
  show "wp (file_abort fb i) (on_writer ?r i (\<lambda>_ _. True) s) s"
    unfolding file_abort_def wp_path [OF r sh]
  proof (rule on_writer_bind [OF sh])
    show "wp (get_writer ?p) (on_writer ?r i (\<lambda>_ _. True) s) s" by (simp add: wp_def get_writer_def split: option.splits)
    show "wp (io_bind (set_writer ?p None) (\<lambda>_ s. Some (Inr (), snd (remove_file ?p
       (case wr of BufferedWriter _ _ _ _ \<Rightarrow> s | DirectWriter buf _ _ _ _ \<Rightarrow> pool_put fb buf s))))) (on_writer ?r i (\<lambda>_ _. True) s1) s1" for wr s1
      by (rule on_writer_bind [OF sh _ rest, of _ "\<lambda>_ _. True"]) (simp add: wp_set_writer set_writer_touched)
  qed
qed

end
