(* ===== verification/File_Scan.thy ===== *)
theory File_Scan
  imports File_Writers
begin

text \<open>
  The directory walk behind the scans of the file blob store: what it yields are blobs of the store,
  each once; and the contract of the blob stores, put together.
\<close>

section \<open>Directories\<close>

lemma child_name_iff: "child_name dir p = Some n \<longleftrightarrow> p = dir @ ''/'' @ n \<and> n \<noteq> [] \<and> CHR ''/'' \<notin> set n"
  by (auto simp: child_name_def strip_prefix_def starts_with_iff split: option.splits if_splits)

lemma trim_root: "root_ok r \<Longrightarrow> trim_end_matches CHR ''/'' r = r"
  by (cases r rule: rev_cases) (auto simp: trim_end_matches_def root_ok_def)

lemma distinct_map_filter_inj:
  assumes "distinct xs" "\<And>x y n. x \<in> set xs \<Longrightarrow> y \<in> set xs \<Longrightarrow> f x = Some n \<Longrightarrow> f y = Some n \<Longrightarrow> x = y"
  shows "distinct (List.map_filter f xs)"
  using assms
proof (induction xs)
  case Nil
  then show ?case by (simp add: List.map_filter_simps)
next
  case (Cons x xs)
  have "n \<notin> set (List.map_filter f xs)" if "f x = Some n" for n
  proof
    assume "n \<in> set (List.map_filter f xs)"
    then obtain y where y: "y \<in> set xs" "f y = Some n" by (auto simp: List.map_filter_def)
    then have "x = y" using Cons.prems(2) [of x y n] that by simp
    then show False using y(1) Cons.prems(1) by simp
  qed
  then show ?case using Cons by (auto simp: List.map_filter_simps split: option.splits)
qed

text \<open>The listing of a directory: its nodes' names, each once.\<close>

definition names_in :: "string \<Rightarrow> disk \<Rightarrow> string list \<Rightarrow> bool" where
  "names_in dir s names \<longleftrightarrow> distinct names \<and>
     (\<forall>n. n \<in> set names \<longleftrightarrow> n \<noteq> [] \<and> CHR ''/'' \<notin> set n \<and> node_at s (dir @ ''/'' @ n) \<noteq> None)"

lemma names_in_nodes:
  assumes "paths_once s"
  shows "names_in dir s (List.map_filter (\<lambda>(q, _). child_name dir q) (dk_nodes s))"
proof -
  let ?f = "\<lambda>(q :: string, _ :: node). child_name dir q" and ?xs = "dk_nodes s"
  have "distinct ?xs" "\<And>q m n. (q, m) \<in> set ?xs \<Longrightarrow> (q, n) \<in> set ?xs \<Longrightarrow> m = n"
    using assms unfolding paths_once_def by (auto simp: distinct_map eq_key_imp_eq_value)
  then have "distinct (List.map_filter ?f ?xs)"
    by (intro distinct_map_filter_inj) (auto simp: child_name_iff)
  moreover have "n \<in> set (List.map_filter ?f ?xs) \<longleftrightarrow> n \<noteq> [] \<and> CHR ''/'' \<notin> set n \<and> node_at s (dir @ ''/'' @ n) \<noteq> None" for n
  proof -
    have "n \<in> set (List.map_filter ?f ?xs) \<longleftrightarrow> (\<exists>x \<in> set ?xs. ?f x = Some n)"
      by (force simp: List.map_filter_def)
    also have "\<dots> \<longleftrightarrow> n \<noteq> [] \<and> CHR ''/'' \<notin> set n \<and> dir @ ''/'' @ n \<in> fst ` set ?xs"
      by (force simp: child_name_iff)
    finally show ?thesis by (auto simp: node_at_def map_of_eq_None_iff)
  qed
  ultimately show ?thesis by (simp add: names_in_def)
qed

lemma read_dir_spec:
  assumes "root_ok dir" "paths_once s" "read_dir dir s = (res, s')"
  shows "looked s s' \<and> (\<forall>names. res = Inr names \<longrightarrow> names_in dir s names)"
proof -
  have names: "names_in dir s (List.map_filter (\<lambda>(q, _). child_name dir q) (dk_nodes (tick s)))"
    using names_in_nodes [of "tick s" dir] assms(2) by (simp add: names_in_def)
  show ?thesis
  proof (cases "dk_fault s (dk_calls s)")
    case None
    show ?thesis
    proof (cases "node_at s dir")
      case None
      with \<open>dk_fault s (dk_calls s) = None\<close> show ?thesis using assms(3) by (auto simp: read_dir_def os_call_def trim_root [OF assms(1)])
    next
      case (Some n)
      with \<open>dk_fault s (dk_calls s) = None\<close> names show ?thesis
        using assms(3) by (cases n) (auto simp: read_dir_def os_call_def trim_root [OF assms(1)])
    qed
  next
    case (Some f)
    then show ?thesis using assms(3) by (cases f) (auto simp: read_dir_def os_call_def)
  qed
qed

section \<open>Collecting\<close>

lemma collect_dirs_spec:
  assumes "\<And>x s1. x \<in> set xs \<Longrightarrow> looked s s1 \<Longrightarrow> \<exists>ys s2. f x s1 = (ys, s2) \<and> looked s1 s2 \<and> P x ys"
  shows "\<exists>yss s'. collect f xs s = (concat yss, s') \<and> looked s s' \<and> list_all2 P xs yss"
  using assms
proof (induction xs arbitrary: s)
  case Nil
  show ?case by (intro exI [of _ "[]"]) simp
next
  case (Cons x xs)
  obtain ys s2 where x: "f x s = (ys, s2)" "looked s s2" "P x ys" using Cons.prems [of x s] by auto
  have "\<exists>yss s'. collect f xs s2 = (concat yss, s') \<and> looked s2 s' \<and> list_all2 P xs yss"
    by (rule Cons.IH) (use Cons.prems looked_trans [OF x(2)] in auto)
  then obtain yss s' where "collect f xs s2 = (concat yss, s')" "looked s2 s'" "list_all2 P xs yss" by blast
  then show ?case using x looked_trans [OF x(2)] by (intro exI [of _ "ys # yss"]) auto
qed

definition ids :: "blob_item list \<Rightarrow> string list" where
  "ids items = map fst (scanned items)"

lemma ids_simps [simp]: "ids [] = []" "ids (Inr p # xs) = fst p # ids xs" "ids (xs @ ys) = ids xs @ ids ys"
  by (simp_all add: ids_def scanned_def)

lemma ids_concat: "set (ids (concat yss)) = (\<Union>ys \<in> set yss. set (ids ys))"
  by (induction yss) auto

lemma list_all2_inE: "list_all2 P xs yss \<Longrightarrow> ys \<in> set yss \<Longrightarrow> \<exists>x \<in> set xs. P x ys"
  by (induction rule: list_all2_induct) auto

text \<open>Parts that belong to different names are disjoint.\<close>

lemma distinct_parts:
  assumes "list_all2 (\<lambda>x ys. distinct (ids ys) \<and> (\<forall>i \<in> set (ids ys). tag i = Some x)) xs yss" "distinct xs"
  shows "distinct (ids (concat yss))"
  using assms
proof (induction rule: list_all2_induct)
  case (Cons x xs ys yss)
  have "tag i \<noteq> Some x" if i: "i \<in> set (ids (concat yss))" for i
  proof -
    obtain zs where zs: "zs \<in> set yss" "i \<in> set (ids zs)" using i unfolding ids_concat by blast
    then obtain y where "y \<in> set xs" "tag i = Some y" using list_all2_inE [OF Cons.hyps(2) zs(1)] zs(2) by blast
    then show ?thesis using Cons.prems by auto
  qed
  then show ?case using Cons by auto
qed simp

section \<open>The walk\<close>

definition joined :: "string \<Rightarrow> string list \<Rightarrow> string" where
  "joined r ps = foldl (\<lambda>d p. d @ ''/'' @ p) r ps"

lemma joined_simps [simp]: "joined r [] = r" "joined r (ps @ [p]) = joined r ps @ ''/'' @ p"
  by (simp_all add: joined_def)

lemma has_prefixes_append:
  "has_prefixes (ps @ qs) i \<Longrightarrow> has_prefixes ps i"
  "has_prefixes (ps @ q # qs) i \<Longrightarrow> str_get i (length ps * 2) (length ps * 2 + 2) = Some q"
  by (auto simp: has_prefixes_def enumerate_append_eq)

text \<open>
  What a walk of the given depth below the directories \<open>ps\<close> yields: names without repetition, each of
  a node two by two characters further down, with the directories' names at its front.
\<close>

definition walked :: "string \<Rightarrow> string list \<Rightarrow> nat \<Rightarrow> disk \<Rightarrow> blob_item list \<Rightarrow> bool" where
  "walked r ps depth s items \<longleftrightarrow> distinct (ids items) \<and> (\<forall>i \<in> set (ids items). CHR ''/'' \<notin> set i \<and>
     (\<exists>qs. length qs = depth \<and> (\<forall>q \<in> set qs. length q = 2) \<and> has_prefixes (ps @ qs) i \<and>
       node_at s (joined r (ps @ qs) @ ''/'' @ i) \<noteq> None))"

lemma walked_Nil [simp]: "walked r ps depth s []"
  by (simp add: walked_def)

lemma walked_looked: "looked s s1 \<Longrightarrow> walked r ps depth s1 items = walked r ps depth s items"
  by (simp add: walked_def looked_def)

lemma file_len_looked: "file_len p s = (r, s') \<Longrightarrow> looked s s'"
  by (auto simp: file_len_def os_call_def split: option.splits node.splits)

lemma walk_leaf_spec:
  "\<exists>ys s2. walk_leaf dir ps n s = (ys, s2) \<and> looked s s2 \<and> (ys = [] \<or> (\<exists>k. ys = [Inr (n, k)]) \<and> has_prefixes ps n)"
  using file_len_looked [of "path_push dir n" s]
  by (cases "file_len (path_push dir n) s") (auto simp: walk_leaf_def)

lemma walk_spec:
  assumes "root_ok (joined r ps)" "paths_once s"
  shows "\<exists>items s'. walk_blob_level depth (joined r ps) ps s = (items, s') \<and> looked s s' \<and> walked r ps depth s items"
  using assms
proof (induction depth arbitrary: ps s)
  case 0
  let ?dir = "joined r ps"
  obtain res s1 where rd: "read_dir ?dir s = (res, s1)" by (cases "read_dir ?dir s")
  note l = read_dir_spec [OF 0 rd]
  show ?case
  proof (cases res)
    case (Inl e)
    then show ?thesis using rd l by simp
  next
    case (Inr names)
    then have n: "names_in ?dir s names" using l by simp
    let ?P = "\<lambda>n ys. ys = [] \<or> (\<exists>k. ys = [Inr (n, k)]) \<and> has_prefixes ps n"
    obtain yss s' where c: "collect (walk_leaf ?dir ps) names s1 = (concat yss, s')" "looked s1 s'" "list_all2 ?P names yss"
      using collect_dirs_spec [of names s1 "walk_leaf ?dir ps" ?P] walk_leaf_spec by blast
    have "list_all2 (\<lambda>x ys. distinct (ids ys) \<and> (\<forall>i \<in> set (ids ys). Some i = Some x)) names yss"
      by (rule list_all2_mono [OF c(3)]) auto
    then have d: "distinct (ids (concat yss))" using distinct_parts [of Some] n by (simp add: names_in_def)
    have "i \<in> set names \<and> has_prefixes ps i" if i: "i \<in> set (ids (concat yss))" for i
    proof -
      obtain ys where ys: "ys \<in> set yss" "i \<in> set (ids ys)" using i unfolding ids_concat by blast
      then obtain n where "n \<in> set names" "?P n ys" using list_all2_inE [OF c(3) ys(1)] by blast
      then show ?thesis using ys(2) by auto
    qed
    then have "walked r ps 0 s (concat yss)" using d n by (auto simp: walked_def names_in_def)
    then show ?thesis using rd Inr c(1) looked_trans [OF conjunct1 [OF l] c(2)] by simp
  qed
next
  case (Suc depth)
  let ?dir = "joined r ps"
  obtain res s1 where rd: "read_dir ?dir s = (res, s1)" by (cases "read_dir ?dir s")
  note l = read_dir_spec [OF Suc.prems rd]
  show ?case
  proof (cases res)
    case (Inl e)
    then show ?thesis using rd l by simp
  next
    case (Inr names)
    then have n: "names_in ?dir s names" using l by simp
    let ?f = "\<lambda>name s2. if length name \<noteq> 2 then ([], s2)
       else case path_is_dir (path_push ?dir name) s2 of
         (False, s3) \<Rightarrow> ([], s3)
       | (True, s3) \<Rightarrow> walk_blob_level depth (path_push ?dir name) (ps @ [name]) s3"
    let ?P = "\<lambda>y ys. ys = [] \<or> length y = 2 \<and> walked r (ps @ [y]) depth s ys"
    have step: "\<exists>ys s3. ?f y s2 = (ys, s3) \<and> looked s2 s3 \<and> ?P y ys" if y: "y \<in> set names" "looked s1 s2" for y s2
    proof (cases "length y = 2 \<and> node_at s2 (path_push ?dir y) = Some DirNode \<and> \<not> dk_stat_fault s2 (dk_calls s2)")
      case False
      then show ?thesis by (auto simp: path_is_dir_def)
    next
      case True
      have slash: "CHR ''/'' \<notin> set y" "y \<noteq> []" using y(1) n True by (auto simp: names_in_def)
      have push: "path_push ?dir y = joined r (ps @ [y])" using path_push_plain [OF Suc.prems(1) slash(1)] by simp
      have ok: "root_ok (joined r (ps @ [y]))" using slash last_neq [OF slash(1)] by simp
      have ss: "looked s (tick s2)" using l y(2) by (auto intro: looked_trans)
      then have once: "paths_once (tick s2)" using Suc.prems(2) by (simp add: looked_def)
      obtain items s' where w: "walk_blob_level depth (joined r (ps @ [y])) (ps @ [y]) (tick s2) = (items, s')" "looked (tick s2) s'"
          "walked r (ps @ [y]) depth (tick s2) items"
        using Suc.IH [OF ok once] by blast
      have "walked r (ps @ [y]) depth s items" using w(3) walked_looked [OF ss] by simp
      then show ?thesis using True w(1,2) push looked_trans [OF looked_tick(1) w(2)] by (simp add: path_is_dir_def)
    qed
    obtain yss s' where c: "collect ?f names s1 = (concat yss, s')" "looked s1 s'" "list_all2 ?P names yss"
      using collect_dirs_spec [of names s1 ?f ?P, OF step] by blast
    let ?tag = "\<lambda>i. str_get i (length ps * 2) (length ps * 2 + 2)"
    have "list_all2 (\<lambda>x ys. distinct (ids ys) \<and> (\<forall>i \<in> set (ids ys). ?tag i = Some x)) names yss"
      by (rule list_all2_mono [OF c(3)]) (auto simp: walked_def dest: has_prefixes_append(2) [simplified])
    then have d: "distinct (ids (concat yss))" using distinct_parts [of ?tag] n by (simp add: names_in_def)
    have "CHR ''/'' \<notin> set i \<and> (\<exists>qs. length qs = Suc depth \<and> (\<forall>q \<in> set qs. length q = 2) \<and> has_prefixes (ps @ qs) i \<and>
        node_at s (joined r (ps @ qs) @ ''/'' @ i) \<noteq> None)" if i: "i \<in> set (ids (concat yss))" for i
    proof -
      obtain ys where ys: "ys \<in> set yss" "i \<in> set (ids ys)" using i unfolding ids_concat by blast
      then obtain y where y: "?P y ys" using list_all2_inE [OF c(3) ys(1)] by blast
      then obtain qs where "length y = 2" "CHR ''/'' \<notin> set i" "length qs = depth" "\<forall>q \<in> set qs. length q = 2" "has_prefixes ((ps @ [y]) @ qs) i"
        "node_at s (joined r ((ps @ [y]) @ qs) @ ''/'' @ i) \<noteq> None" using ys(2) unfolding walked_def by auto
      then show ?thesis by (intro conjI exI [of _ "y # qs"]) auto
    qed
    then have "walked r ps (Suc depth) s (concat yss)" using d unfolding walked_def by blast
    then show ?thesis using rd Inr c(1) looked_trans [OF conjunct1 [OF l] c(2)] by simp
  qed
qed

section \<open>Scans\<close>

lemma str_get_length: "str_get i a b = Some q \<Longrightarrow> b \<le> length i \<and> q = take (b - a) (drop a i) \<and> char_boundary i b"
  by (simp add: str_get_def split: if_splits)

lemma two_prefixes:
  assumes "has_prefixes [p, q] i" "CHR ''/'' \<notin> set i"
  shows "shaped i \<and> p = take 2 i \<and> q = take 2 (drop 2 i)"
proof -
  have "str_get i 0 2 = Some p" "str_get i 2 4 = Some q" using assms(1) by (simp_all add: has_prefixes_def eval_nat_numeral)
  then show ?thesis using assms(2) by (auto simp: shaped_def dest!: str_get_length)
qed

lemma joined_bpath: "shaped i \<Longrightarrow> joined r [take 2 i, take 2 (drop 2 i)] @ ''/'' @ i = bpath r i"
  by (simp add: joined_def bpath_def)

lemma walked_sound:
  assumes w: "walked (fb_root fb) ps depth s items" and depth: "length ps + depth = 2" and ok: "disk_ok R s" "fb_root fb \<in> R"
  shows "scan_sound (blobs_of (file_view fb s)) items"
proof -
  have "i \<in> dom (blobs_of (file_view fb s))" if i: "i \<in> set (ids items)" for i
  proof -
    obtain qs where qs: "CHR ''/'' \<notin> set i" "length qs = depth" "has_prefixes (ps @ qs) i"
      "node_at s (joined (fb_root fb) (ps @ qs) @ ''/'' @ i) \<noteq> None"
      using w i unfolding walked_def by blast
    obtain p q where pq: "ps @ qs = [p, q]"
    proof -
      have "length (ps @ qs) = Suc (Suc 0)" using qs(2) depth by simp
      then show ?thesis using that unfolding length_Suc_conv by blast
    qed
    then have sh: "shaped i" "node_at s (bpath (fb_root fb) i) \<noteq> None"
      using two_prefixes [of p q i] qs joined_bpath [of i "fb_root fb"] by auto
    then obtain n where n: "node_at s (bpath (fb_root fb) i) = Some n" by blast
    then have "file_id_ok i" "n \<noteq> DirNode" using disk_ok_blob [OF ok sh(1) n] by simp_all
    then show ?thesis using n by (cases n) (auto simp: file_at_def dom_def)
  qed
  then show ?thesis using w by (auto simp: scan_sound_def walked_def ids_def)
qed

lemma file_scan_all_spec:
  assumes fb: "fb_ok fb" and ok: "disk_ok R s" "fb_root fb \<in> R"
  shows "wp (file_scan_all_blobs fb) (blob_read (disk_as s R) (file_view fb) s (scan_sound (blobs_of (file_view fb s)))) s"
proof (rule blob_readI [OF _ ok(1)])
  have "root_ok (joined (fb_root fb) [])" "paths_once s" using fb ok by (simp_all add: fb_ok_def disk_ok_def)
  from walk_spec [OF this, of 2] show "wp (file_scan_all_blobs fb)
      (\<lambda>res s'. looked s s' \<and> (\<forall>a. res = Inr a \<longrightarrow> scan_sound (blobs_of (file_view fb s)) a)) s"
    using walked_sound [OF _ _ ok, of "[]" 2] by (auto simp: wp_def file_scan_all_blobs_def)
qed

lemma hex_digit_no_slash: "d < 16 \<Longrightarrow> hex_digit d \<noteq> CHR ''/''"
proof -
  assume "d < 16"
  then have "hex_digit d \<in> set ''0123456789abcdef''" unfolding hex_digit_def by (intro nth_mem) simp
  then show ?thesis by auto
qed

lemma hex_no_slash: "CHR ''/'' \<notin> set (hex n) \<and> hex n \<noteq> []"
proof (induction n rule: hex.induct)
  case (1 n)
  then show ?case
    using hex_digit_no_slash [of n] hex_digit_no_slash [of "n mod 16"] by (subst (1 2) hex.simps) auto
qed

lemma hex2_no_slash: "CHR ''/'' \<notin> set (hex2 n) \<and> hex2 n \<noteq> []"
  using hex_no_slash [of n] by (simp add: hex2_def Let_def)

lemma sharded_walk:
  assumes fb: "fb_ok fb" and s: "paths_once s"
  shows "wp (file_scan_blobs_sharded fb shard) (look (walked (fb_root fb) [hex2 shard] 1 s) s) s"
proof -
  let ?p = "hex2 shard"
  have p: "CHR ''/'' \<notin> set ?p" "?p \<noteq> []" using hex2_no_slash [of shard] by auto
  have push: "path_push (fb_root fb) ?p = joined (fb_root fb) [?p]"
    using path_push_plain [OF _ p(1)] fb by (simp add: fb_ok_def joined_def)
  have ok: "root_ok (joined (fb_root fb) [?p])" using p last_neq [OF p(1)] by (simp add: joined_def)
  obtain items s' where w: "walk_blob_level 1 (joined (fb_root fb) [?p]) [?p] (tick s) = (items, s')" "looked (tick s) s'"
      "walked (fb_root fb) [?p] 1 (tick s) items"
    using walk_spec [OF ok, of "tick s" 1] s by auto
  have "looked s s'" "walked (fb_root fb) [?p] 1 s items"
    using looked_trans [OF looked_tick(1) w(2)] w(3) walked_looked [OF looked_tick(1)] by simp_all
  then show ?thesis
    using w(1) by (auto simp: wp_def file_scan_blobs_sharded_def Let_def push path_is_dir_def split: bool.splits)
qed

lemma file_scan_sharded_spec:
  assumes fb: "fb_ok fb" and ok: "disk_ok R s" "fb_root fb \<in> R"
  shows "wp (file_scan_blobs_sharded fb shard) (blob_read (disk_as s R) (file_view fb) s (scan_sound (blobs_of (file_view fb s)))) s"
proof (rule blob_readI [OF _ ok(1)])
  have "paths_once s" using ok by (simp add: disk_ok_def)
  from sharded_walk [OF fb this, of shard]
  show "wp (file_scan_blobs_sharded fb shard) (\<lambda>res s'. looked s s' \<and> (\<forall>a. res = Inr a \<longrightarrow> scan_sound (blobs_of (file_view fb s)) a)) s"
    by (rule wp_mono) (auto simp: look_def intro: walked_sound [OF _ _ ok])
qed

section \<open>The contract\<close>

text \<open>
  The stores of a disk by name: each well configured, no two with the same root, and the disk in
  order for their roots.
\<close>

definition stores_on :: "(string \<rightharpoonup> file_blob_store) \<Rightarrow> disk \<Rightarrow> bool" where
  "stores_on m s \<longleftrightarrow> (\<forall>st fb. m st = Some fb \<longrightarrow> fb_ok fb) \<and>
     (\<forall>st st' fb fb'. m st = Some fb \<longrightarrow> m st' = Some fb' \<longrightarrow> fb_root fb = fb_root fb' \<longrightarrow> st = st') \<and>
     disk_ok (fb_root ` ran m) s"

lemma stores_onD: "stores_on m s \<Longrightarrow> m st = Some fb \<Longrightarrow> fb_ok fb \<and> disk_ok (fb_root ` ran m) s \<and> fb_root fb \<in> fb_root ` ran m"
  unfolding stores_on_def by (auto intro: ranI)

lemma stores_on_state: "stores_on m s \<Longrightarrow> disk_ok (fb_root ` ran m) s' \<Longrightarrow> stores_on m s'"
  by (simp add: stores_on_def)

text \<open>
  The same on disks of which only a part of all failures is considered: \<open>F\<close> says which.
\<close>

definition stores_under ::
    "((nat \<Rightarrow> (os_error \<times> nat) option) \<times> (nat \<Rightarrow> bool) \<Rightarrow> bool) \<Rightarrow> (string \<rightharpoonup> file_blob_store) \<Rightarrow> disk \<Rightarrow> bool" where
  "stores_under F m s \<longleftrightarrow> stores_on m s \<and> F (conf s)"

lemma stores_under_all [simp]: "stores_under (\<lambda>_. True) m = stores_on m"
  by (simp add: stores_under_def fun_eq_iff)

lemma stores_underD: "stores_under F m s \<Longrightarrow> stores_on m s"
  by (simp add: stores_under_def)

lemma stores_under_as:
  "stores_under F m s \<Longrightarrow> disk_as s (fb_root ` ran m) s' \<Longrightarrow> stores_under F m s'"
  by (auto simp: stores_under_def disk_as_def intro: stores_on_state)

lemma stores_write:
  assumes "stores_under F m s" "m st = Some fb"
    and "\<And>R. fb_ok fb \<Longrightarrow> disk_ok R s \<Longrightarrow> fb_root fb \<in> R \<Longrightarrow> wp f (blob_write (disk_as s R) v s i Q) s"
  shows "wp f (blob_write (stores_under F m) v s i Q) s"
  using stores_onD [OF stores_underD [OF assms(1)] assms(2)]
  by (intro wp_mono [OF assms(3) [of "fb_root ` ran m"]]) (auto simp: blob_write_def intro: stores_under_as [OF assms(1)])

lemma stores_read:
  assumes "stores_under F m s" "m st = Some fb"
    and "\<And>R. fb_ok fb \<Longrightarrow> disk_ok R s \<Longrightarrow> fb_root fb \<in> R \<Longrightarrow> wp f (blob_read (disk_as s R) v s Q) s"
  shows "wp f (blob_read (stores_under F m) v s Q) s"
  using stores_onD [OF stores_underD [OF assms(1)] assms(2)]
  by (intro wp_mono [OF assms(3) [of "fb_root ` ran m"]]) (auto simp: blob_read_def intro: stores_under_as [OF assms(1)])

theorem file_store_under:
  assumes m: "m st = Some fb" and room: "0 < room"
  shows "blob_backend (file_blob_ops bufw room fb) (stores_under F m) (file_view fb) file_id_ok"
proof (unfold_locales, unfold file_blob_ops_def blob_store.simps file_scan_shard_count_def)
  fix b i d
  assume b: "stores_under F m b" and i: "file_id_ok i"
  show "wp (file_put fb i d) (blob_write (stores_under F m) (file_view fb) b i (\<lambda>n v. n = of_nat (length d) \<and> blobs_of v i = Some d)) b"
    by (rule stores_write [OF b m]) (rule file_put_spec [OF _ _ _ i])
  show "wp (file_get fb i) (blob_read (stores_under F m) (file_view fb) b (\<lambda>x. x = blobs_of (file_view fb b) i)) b"
    by (rule stores_read [OF b m]) (rule file_get_spec [OF _ _ i])
  show "wp (file_open_read fb room i)
      (blob_read (stores_under F m) (file_view fb) b (\<lambda>x. x = map_option (\<lambda>d. (d, of_nat (length d))) (blobs_of (file_view fb b) i))) b"
    by (rule stores_read [OF b m]) (rule file_open_read_spec [OF _ _ _ i room])
  show "wp (file_exists fb i) (blob_read (stores_under F m) (file_view fb) b (\<lambda>x. x = (blobs_of (file_view fb b) i \<noteq> None))) b"
    by (rule stores_read [OF b m]) (rule file_exists_spec [OF _ _ _ i])
  show "wp (file_delete fb i) (blob_write (stores_under F m) (file_view fb) b i (\<lambda>_ v. blobs_of v i = None)) b"
    by (rule stores_write [OF b m]) (rule file_delete_spec [OF _ _ _ i])
  show "wp (file_create_writer fb i hint) (blob_write (stores_under F m) (file_view fb) b i (\<lambda>_ v. writes_of v i = Some [])) b" for hint
    by (rule stores_write [OF b m]) (rule file_create_writer_spec [OF _ _ _ i])
  show "wp (file_abort fb i) (blob_write (stores_under F m) (file_view fb) b i (\<lambda>_ v. True)) b"
    by (rule stores_write [OF b m]) (rule file_abort_spec [OF _ _ _ i])
  show "wp (file_write_chunk bufw fb i chunk) (blob_write (stores_under F m) (file_view fb) b i (\<lambda>_ v. writes_of v i = Some (d @ chunk))) b"
    if "writes_of (file_view fb b) i = Some d" for chunk
    by (rule stores_write [OF b m]) (rule file_write_chunk_spec [OF _ _ _ i that])
  show "wp (file_finish fb i) (blob_write (stores_under F m) (file_view fb) b i (\<lambda>n v. n = of_nat (length d) \<and> blobs_of v i = Some d)) b"
    if "writes_of (file_view fb b) i = Some d"
    by (rule stores_write [OF b m]) (rule file_finish_spec [OF _ _ _ i that])
next
  fix b
  assume b: "stores_under F m b"
  show "wp (file_scan_all_blobs fb) (blob_read (stores_under F m) (file_view fb) b (scan_sound (blobs_of (file_view fb b)))) b"
    by (rule stores_read [OF b m]) (rule file_scan_all_spec)
  show "wp (file_scan_blobs_sharded fb shard) (blob_read (stores_under F m) (file_view fb) b (scan_sound (blobs_of (file_view fb b)))) b"
    if "shard < 256" for shard
    by (rule stores_read [OF b m]) (rule file_scan_sharded_spec)
qed (simp split: if_splits)

theorem file_store_lawful:
  assumes "m st = Some fb" "0 < room"
  shows "blob_backend (file_blob_ops bufw room fb) (stores_on m) (file_view fb) file_id_ok"
  using file_store_under [where F = "\<lambda>_. True" and m = m and st = st and fb = fb and room = room and bufw = bufw] assms
  by simp

text \<open>
  On a disk without failures a buffered store answers every read of a blob whose id it accepts.
\<close>

definition faultless :: "(nat \<Rightarrow> (os_error \<times> nat) option) \<times> (nat \<Rightarrow> bool) \<Rightarrow> bool" where
  "faultless c \<longleftrightarrow> (\<forall>n. fst c n = None \<and> \<not> snd c n)"

lemma buffered_get_answers:
  assumes "stores_under faultless m b" "m st = Some fb" "\<not> fb_direct fb" "file_id_ok i"
  shows "\<exists>x b'. file_get fb i b = Some (Inr x, b')"
proof -
  have ok: "fb_ok fb" "disk_ok (fb_root ` ran m) b" "fb_root fb \<in> fb_root ` ran m"
    using stores_onD [OF stores_underD [OF assms(1)] assms(2)] by blast+
  have c: "dk_fault s n = None" "\<not> dk_stat_fault s n" if "conf s = conf b" for s n
    using assms(1) that by (simp_all add: stores_under_def faultless_def conf_def)
  let ?p = "bpath (fb_root fb) i"
  have sh: "shaped i" by (rule id_ok_shaped [OF assms(4)])
  have e: "path_exists ?p b = (node_at b ?p \<noteq> None, tick b)" using c by (simp add: path_exists_def)
  have read: "fs_read ?p (tick b) = (case node_at b ?p of Some (Reg d) \<Rightarrow> (Inr d, tick (tick b)) | _ \<Rightarrow> fs_read ?p (tick b))"
    using c(1) [of "tick b"] by (simp add: fs_read_def os_call_def split: option.split node.split)
  have "wp (file_get fb i) (\<lambda>r s'. \<exists>x. r = Inr x) b"
    unfolding file_get_def wp_path [OF conjunct1 [OF ok(1) [unfolded fb_ok_def]] sh] if_not_P [OF assms(3)]
  proof (cases "node_at b ?p")
    case None
    then show "wp (\<lambda>s. case path_exists ?p s of (False, s1) \<Rightarrow> Some (Inr None, s1) | (True, s1) \<Rightarrow> read_some ?p s1)
        (\<lambda>r s'. \<exists>x. r = Inr x) b"
      unfolding wp_def e by simp
  next
    case (Some n)
    then obtain d where "n = Reg d" using disk_okD(2) [OF ok(2,3) sh] by (cases n) auto
    then show "wp (\<lambda>s. case path_exists ?p s of (False, s1) \<Rightarrow> Some (Inr None, s1) | (True, s1) \<Rightarrow> read_some ?p s1)
        (\<lambda>r s'. \<exists>x. r = Inr x) b"
      using read Some unfolding wp_def e by (simp add: read_some_def io_bind_def os_def io_return_def)
  qed
  then show ?thesis by (auto simp: wp_iff)
qed

text \<open>The interpretation: any store of the disk, with any buffering and any size of reads.\<close>

interpretation file_blobs: blob_backend "file_blob_ops bufw (Suc room) fb" "stores_on [name \<mapsto> fb]" "file_view fb" file_id_ok
  for bufw room fb name
  by (rule file_store_lawful [of _ name]) simp_all

text \<open>What the garbage collector asks of stores that live on one disk.\<close>

lemma looked_frame:
  assumes "wp f (look Q b) b" "stores_under F m b"
  shows "wp f (\<lambda>r b'. stores_under F m b' \<and> (\<forall>fb'. file_view fb' b' = file_view fb' b)) b"
proof (rule wp_mono [OF assms(1)])
  fix r b'
  assume "look Q b r b'"
  then have "looked b b'" by (simp add: look_def)
  moreover have "disk_ok (fb_root ` ran m) b" using assms(2) by (simp add: stores_under_def stores_on_def)
  ultimately have "disk_as b (fb_root ` ran m) b'" "file_view fb' b' = file_view fb' b" for fb'
    using looked_ok [of b b' "fb_root ` ran m"] by (simp_all add: disk_as_def looked_def)
  then show "stores_under F m b' \<and> (\<forall>fb'. file_view fb' b' = file_view fb' b)" using stores_under_as [OF assms(2)] by blast
qed

lemma file_get_frame:
  assumes b: "stores_under F m b" and m: "m st = Some fb"
  shows "wp (file_get fb i) (\<lambda>r b'. stores_under F m b' \<and> (\<forall>fb'. file_view fb' b' = file_view fb' b)) b"
proof -
  have "fb_ok fb" "fair b" using stores_onD [OF stores_underD [OF b] m] by (simp_all add: disk_ok_def)
  from looked_frame [OF file_get_look [OF this] b] show ?thesis .
qed

lemma file_scan_frame:
  assumes b: "stores_under F m b" and m: "m st = Some fb"
  shows "wp (file_scan_blobs_sharded fb shard) (\<lambda>r b'. stores_under F m b' \<and> (\<forall>fb'. file_view fb' b' = file_view fb' b)) b"
proof -
  have "fb_ok fb" "paths_once b" using stores_onD [OF stores_underD [OF b] m] by (simp_all add: disk_ok_def)
  from looked_frame [OF sharded_walk [OF this] b] show ?thesis .
qed

lemma file_delete_frame:
  assumes b: "stores_on m b" and m: "m st = Some fb" and i: "file_id_ok i"
  shows "wp (file_delete fb i) (\<lambda>r b'. \<forall>fb'. fb_root fb' \<noteq> fb_root fb \<longrightarrow> file_view fb' b' = file_view fb' b) b"
proof -
  have ok: "fb_ok fb" "disk_ok (fb_root ` ran m) b" using stores_onD [OF b m] by auto
  show ?thesis
    by (rule wp_mono [OF file_delete_touched [OF ok i]]) (use touched_view(2) [OF _ id_ok_shaped [OF i]] in blast)
qed

end
