(* ===== verification/Repo_Hosted.thy ===== *)
theory Repo_Hosted
  imports Service_Blob Service_Artifact Service_Repo Service_Directory Service_Pagination Blob_Store
begin

text \<open>
  Ingestion and hosted repositories (\<open>core/src/repo/mod.rs\<close>, \<open>core/src/repo/hosted.rs\<close>): the blob
  is written first, its hash is claimed, and the artifact record that names it is written last.

  A \<open>runtime\<close> bundles what the functions draw from outside: the hash functions, the codecs, the
  clock, fresh ids and, for the retry loop of \<open>put_artifact\<close>, what other tasks do in between.
\<close>

record 's runtime =
  rt_hasher :: hasher
  rt_codecs :: codecs
  rt_blake3 :: "bytes \<Rightarrow> string"
  rt_now :: datetime
  rt_uuid :: "nat \<Rightarrow> string"
  rt_dedup_env :: "'s \<Rightarrow> 's"
  rt_put_env :: "nat \<Rightarrow> 's \<Rightarrow> 's"

record ('s, 'b) ingestion_ctx =
  ic_kv :: "'s kv"
  ic_blobs :: "'b blob_store"
  ic_store :: string
  ic_repo :: string

record artifact_content =
  ac_data :: bytes
  ac_record :: artifact_record

record ingestion_result =
  in_record :: artifact_record
  in_old_record :: "artifact_record option"
  in_new_blob :: bool

definition open_artifact_blob :: "'b blob_store \<Rightarrow> artifact_record \<Rightarrow> (('s, 'b) world, artifact_content) io" where
  "open_artifact_blob blobs record =
    (let blob_id = (case ar_blob_id record of Some i \<Rightarrow> i | None \<Rightarrow> [])
     in io_bind (on_blobs (bs_open_read blobs blob_id)) (\<lambda>opened. case opened of
          Some (data, _) \<Rightarrow> io_return \<lparr>ac_data = data, ac_record = record\<rparr>
        | None \<Rightarrow> io_throw (DataIntegrity (''blob missing for hash '' @ blob_id))))"

section \<open>Ingestion\<close>

definition raw_record :: "datetime \<Rightarrow> string option \<Rightarrow> string option \<Rightarrow> string option \<Rightarrow> u64 \<Rightarrow> string \<Rightarrow> artifact_record" where
  "raw_record now blob_id content_hash etag sz content_type = \<lparr>
     ar_schema_version = CURRENT_RECORD_VERSION, ar_id = [], ar_size = sz, ar_content_type = content_type,
     ar_created_at = now, ar_updated_at = now, ar_last_accessed_at = now, ar_path = [], ar_kind = RawKind,
     ar_internal = False, ar_blob_id = blob_id, ar_content_hash = content_hash, ar_etag = etag\<rparr>"

definition commit_ingestion ::
    "'s runtime \<Rightarrow> ('s, 'b) ingestion_ctx \<Rightarrow> string \<Rightarrow> string \<Rightarrow> string \<Rightarrow> u64 \<Rightarrow> string \<Rightarrow>
     (('s, 'b) world, ingestion_result) io" where
  "commit_ingestion RT ctx path blob_id blake3_hash sz content_type =
    (let H = rt_hasher RT; C = rt_codecs RT; now = rt_now RT;
         blob_rec = \<lparr>br_schema_version = CURRENT_RECORD_VERSION, br_blob_id = blob_id, br_hash = blake3_hash,
           br_size = sz, br_created_at = now, br_store = ic_store ctx\<rparr>
     in io_bind (on_kv (put_dedup_record H (ic_kv ctx) C (rt_dedup_env RT) (ic_store ctx) blob_rec)) (\<lambda>existing.
        let (effective_blob_id, is_dedup) = (case existing of
              Some existing_blob_id \<Rightarrow> (existing_blob_id, True) | None \<Rightarrow> (blob_id, False));
            record = raw_record now (Some effective_blob_id) (Some blake3_hash) (Some blake3_hash) sz content_type;
            put = on_kv (put_artifact H (ic_kv ctx) C (rt_put_env RT) (rt_uuid RT) (ic_repo ctx) path record)
        in io_bind (if is_dedup
              then io_bind (io_try (on_blobs (bs_delete (ic_blobs ctx) blob_id))) (\<lambda>_. put)
              else put) (\<lambda>old_record.
            io_return \<lparr>in_record = record, in_old_record = old_record, in_new_blob = \<not> is_dedup\<rparr>)))"

text \<open>\<open>blob_id\<close> is the uuid that \<open>ingest_artifact\<close> draws.\<close>

definition ingest_artifact ::
    "'s runtime \<Rightarrow> ('s, 'b) ingestion_ctx \<Rightarrow> string \<Rightarrow> string \<Rightarrow> string \<Rightarrow> bytes \<Rightarrow>
     (('s, 'b) world, ingestion_result) io" where
  "ingest_artifact RT ctx blob_id path content_type data =
    io_bind (on_blobs (bs_put (ic_blobs ctx) blob_id data)) (\<lambda>_.
      commit_ingestion RT ctx path blob_id (rt_blake3 RT data) (of_nat (length data)) content_type)"

section \<open>Hosted repositories\<close>

record ('s, 'b) hosted_repo =
  ho_name :: string
  ho_kv :: "'s kv"
  ho_blobs :: "'b blob_store"
  ho_store :: string
  ho_format :: string

definition HELM_STALE :: string where
  "HELM_STALE = ''_helm/metadata_stale''"

definition set_helm_stale_flag :: "'s runtime \<Rightarrow> 's kv \<Rightarrow> string \<Rightarrow> ('s, unit) io" where
  "set_helm_stale_flag RT kv repo =
    (let flag = (raw_record (rt_now RT) None None None 0 ''text/plain'')
           \<lparr>ar_kind := HelmMetadata, ar_internal := True\<rparr>
     in io_bind (put_artifact_if_absent (rt_hasher RT) kv (rt_codecs RT) (rt_uuid RT 0) repo HELM_STALE flag)
          (\<lambda>_. io_return ()))"

definition ends_with_str :: "string \<Rightarrow> string \<Rightarrow> bool" where
  "ends_with_str s p \<longleftrightarrow> length p \<le> length s \<and> drop (length s - length p) s = p"

text \<open>Mark the metadata of a Helm repository and of the proxies above it stale; errors are ignored.\<close>

definition mark_helm_stale :: "'s runtime \<Rightarrow> ('s, 'b) hosted_repo \<Rightarrow> (string \<Rightarrow> string) \<Rightarrow> (('s, 'b) world, unit) io" where
  "mark_helm_stale RT repo flag_uuid =
    io_bind (io_try (on_kv (set_helm_stale_flag RT (ho_kv repo) (ho_name repo)))) (\<lambda>_.
    io_bind (io_try (on_kv (propagate_staleness (rt_hasher RT) (ho_kv repo) (rt_codecs RT) (rt_now RT) flag_uuid
        (ho_name repo) HelmF HELM_STALE))) (\<lambda>_. io_return ()))"

definition hosted_put ::
    "'s runtime \<Rightarrow> ('s, 'b) hosted_repo \<Rightarrow> (string \<Rightarrow> string) \<Rightarrow> string \<Rightarrow> string \<Rightarrow> string \<Rightarrow> bytes \<Rightarrow>
     (('s, 'b) world, artifact_record) io" where
  "hosted_put RT repo flag_uuid blob_id path content_type data =
    (let ctx = \<lparr>ic_kv = ho_kv repo, ic_blobs = ho_blobs repo, ic_store = ho_store repo, ic_repo = ho_name repo\<rparr>
     in io_bind (ingest_artifact RT ctx blob_id path content_type data) (\<lambda>res.
        let record = in_record res;
            (count_delta, bytes_delta) = (case in_old_record res of
                Some old \<Rightarrow> (0, ar_size record - ar_size old)
              | None \<Rightarrow> (1, ar_size record))
        in io_bind (dir_changed (rt_hasher RT) (rt_now RT) (ho_name repo) path count_delta bytes_delta) (\<lambda>_.
           io_bind (if in_new_blob res then store_changed (ho_store repo) 1 (ar_size record) else io_return ()) (\<lambda>_.
           io_bind (if ho_format repo = ''helm'' \<and> ends_with_str path ''.tgz''
              then mark_helm_stale RT repo flag_uuid else io_return ()) (\<lambda>_. io_return record)))))"

definition hosted_delete ::
    "'s runtime \<Rightarrow> ('s, 'b) hosted_repo \<Rightarrow> (string \<Rightarrow> string) \<Rightarrow> string \<Rightarrow> (('s, 'b) world, bool) io" where
  "hosted_delete RT repo flag_uuid path =
    io_bind (on_kv (delete_artifact (rt_hasher RT) (ho_kv repo) (rt_codecs RT) (ho_name repo) path)) (\<lambda>old_record.
    io_bind (case old_record of
        Some old \<Rightarrow> dir_changed (rt_hasher RT) (rt_now RT) (ho_name repo) path (- 1) (- ar_size old)
      | None \<Rightarrow> io_return ()) (\<lambda>_.
    io_bind (if old_record \<noteq> None \<and> ho_format repo = ''helm'' \<and> ends_with_str path ''.tgz''
        then mark_helm_stale RT repo flag_uuid else io_return ()) (\<lambda>_. io_return (old_record \<noteq> None))))"

definition hosted_head :: "'s runtime \<Rightarrow> ('s, 'b) hosted_repo \<Rightarrow> string \<Rightarrow> (('s, 'b) world, artifact_record option) io" where
  "hosted_head RT repo path = on_kv (get_artifact (rt_hasher RT) (ho_kv repo) (rt_codecs RT) (ho_name repo) path)"

definition hosted_get :: "'s runtime \<Rightarrow> ('s, 'b) hosted_repo \<Rightarrow> string \<Rightarrow> (('s, 'b) world, artifact_content option) io" where
  "hosted_get RT repo path =
    io_bind (on_kv (get_artifact (rt_hasher RT) (ho_kv repo) (rt_codecs RT) (ho_name repo) path)) (\<lambda>record. case record of
      None \<Rightarrow> io_return None
    | Some record \<Rightarrow>
        io_bind (touch (ho_name repo) path (rt_now RT)) (\<lambda>_.
        io_bind (open_artifact_blob (ho_blobs repo) record) (\<lambda>content. io_return (Some content))))"

definition hosted_list ::
    "text_ops \<Rightarrow> 's runtime \<Rightarrow> ('s, 'b) hosted_repo \<Rightarrow> string \<Rightarrow> pagination \<Rightarrow>
     (('s, 'b) world, (string \<times> artifact_record) paginated_result) io" where
  "hosted_list T RT repo prefix pagination =
    on_kv (list_artifacts T (ho_kv repo) (rt_codecs RT) (ho_name repo) prefix pagination)"

definition hosted_search ::
    "text_ops \<Rightarrow> 's runtime \<Rightarrow> ('s, 'b) hosted_repo \<Rightarrow> string \<Rightarrow> pagination \<Rightarrow>
     (('s, 'b) world, (string \<times> artifact_record) paginated_result) io" where
  "hosted_search T RT repo query pagination =
    on_kv (search_artifacts T (ho_kv repo) (rt_codecs RT) (ho_name repo) query pagination)"

definition hosted_list_children ::
    "'s runtime \<Rightarrow> ('s, 'b) hosted_repo \<Rightarrow> string \<Rightarrow>
     (('s, 'b) world, (string \<times> dir_entry) list \<times> (string \<times> tree_entry) list) io" where
  "hosted_list_children RT repo prefix =
    on_kv (list_children (rt_hasher RT) (ho_kv repo) (rt_codecs RT) (ho_name repo) prefix)"

section \<open>Write targets\<close>

definition resolve_write_target :: "repo_config \<Rightarrow> string result" where
  "resolve_write_target config = (case rp_kind config of
     Hosted \<Rightarrow> Inr (rp_name config)
   | Proxy _ write_member \<Rightarrow> (case write_member of
       Some wm \<Rightarrow> Inr wm
     | None \<Rightarrow> Inl (NotAllowed (''proxy repos require an explicit write_member for PUT uploads; '' @
         ''configure one in the repository settings'')))
   | Cache _ _ _ \<Rightarrow> Inl (NotAllowed ''only hosted and proxy repos accept uploads''))"

fun first_hosted_member :: "'s kv \<Rightarrow> codecs \<Rightarrow> artifact_format \<Rightarrow> string list \<Rightarrow> ('s, string \<times> repo_config) io" where
  "first_hosted_member kv C expected_format [] =
    io_throw (BadRequest (''no hosted '' @ artifact_format_display expected_format @ '' member in proxy repo''))"
| "first_hosted_member kv C expected_format (m # members) =
    io_bind (io_try (get_repo kv C m)) (\<lambda>r. case r of
      Inr (Some mc) \<Rightarrow>
        if rp_repo_type mc = HostedType \<and> rp_format mc = expected_format then io_return (m, mc)
        else first_hosted_member kv C expected_format members
    | _ \<Rightarrow> first_hosted_member kv C expected_format members)"

definition resolve_format_write_target ::
    "'s kv \<Rightarrow> codecs \<Rightarrow> repo_config \<Rightarrow> artifact_format \<Rightarrow> ('s, string \<times> repo_config) io" where
  "resolve_format_write_target kv C config expected_format = (case rp_kind config of
     Hosted \<Rightarrow> io_return (rp_name config, config)
   | Proxy members write_member \<Rightarrow> (case write_member of
       Some wm \<Rightarrow> io_bind (get_repo kv C wm) (\<lambda>r. case r of
           Some wm_config \<Rightarrow> io_return (wm, wm_config)
         | None \<Rightarrow> io_throw (NotAllowed ''write member repo config missing''))
     | None \<Rightarrow> first_hosted_member kv C expected_format members)
   | Cache _ _ _ \<Rightarrow> io_throw (BadRequest ''only hosted and proxy repos accept uploads''))"

section \<open>Content addressing\<close>

text \<open>
  What holds of a store and the repositories \<open>R\<close> kept on it: the blob that a dedup record or an
  artifact names is there, and it has the hash the record is filed under or carries.
\<close>

definition content_addressed ::
    "hasher \<Rightarrow> codecs \<Rightarrow> (bytes \<Rightarrow> string) \<Rightarrow> string \<Rightarrow> string set \<Rightarrow> kv_view \<Rightarrow> (string \<rightharpoonup> bytes) \<Rightarrow> bool" where
  "content_addressed H C B store R v bl \<longleftrightarrow>
     (\<forall>hash x. stored (cs_blob C) (blob_at H store hash v) (Some x) \<longrightarrow>
        (\<exists>d. bl (br_blob_id x) = Some d \<and> B d = hash)) \<and>
     (\<forall>repo \<in> R. \<forall>path x i. stored (cs_artifact C) (art_at H repo path v) (Some x) \<longrightarrow> ar_blob_id x = Some i \<longrightarrow>
        (\<exists>d. bl i = Some d \<and> (\<forall>h. ar_content_hash x = Some h \<longrightarrow> B d = h)))"

text \<open>The same but for the records at the keys \<open>K\<close>.\<close>

definition content_addressed_except ::
    "(string \<times> string \<times> string) set \<Rightarrow> hasher \<Rightarrow> codecs \<Rightarrow> (bytes \<Rightarrow> string) \<Rightarrow> string \<Rightarrow> string set \<Rightarrow> kv_view \<Rightarrow>
     (string \<rightharpoonup> bytes) \<Rightarrow> bool" where
  "content_addressed_except K H C B store R v bl \<longleftrightarrow> (\<exists>u. view_frame K u v \<and> content_addressed H C B store R u bl)"

lemma content_addressed_exceptI:
  "content_addressed H C B store R u bl \<Longrightarrow> view_frame K u v \<Longrightarrow> content_addressed_except K H C B store R v bl"
  unfolding content_addressed_except_def by blast

text \<open>Adding and removing a blob nothing refers to keeps it.\<close>

lemma content_addressed_blobs:
  assumes "content_addressed H C B store R v bl" "bl i = None" "\<forall>j. j \<noteq> i \<longrightarrow> bl' j = bl j"
  shows "content_addressed H C B store R v bl'"
proof -
  have keep: "bl' j = Some d" if "bl j = Some d" for j d using assms(2,3) that by (metis option.distinct(1))
  show ?thesis using assms(1) unfolding content_addressed_def by (blast intro: keep)
qed

lemma content_addressedD:
  assumes "content_addressed H C B store R v bl"
  shows "stored (cs_blob C) (blob_at H store hash v) (Some x) \<Longrightarrow> \<exists>d. bl (br_blob_id x) = Some d \<and> B d = hash"
    and "repo \<in> R \<Longrightarrow> stored (cs_artifact C) (art_at H repo path v) (Some y) \<Longrightarrow> ar_blob_id y = Some i \<Longrightarrow>
      \<exists>d. bl i = Some d \<and> (\<forall>h. ar_content_hash y = Some h \<longrightarrow> B d = h)"
  using assms unfolding content_addressed_def by blast+

lemma content_addressed_claim:
  assumes ca: "content_addressed H C B store R v bl" and codec: "codec_ok (cs_blob C)"
    and enc: "encode (cs_blob C) x = Inr b" and blob: "bl (br_blob_id x) = Some d" "B d = hash"
  shows "content_addressed H C B store R (view_put v TABLE_BLOBS (sharded_pk H store hash) hash b) bl"
proof -
  let ?v = "view_put v TABLE_BLOBS (sharded_pk H store hash) hash b"
  have "\<exists>d. bl (br_blob_id y) = Some d \<and> B d = h" if y: "stored (cs_blob C) (blob_at H store h ?v) (Some y)" for h y
  proof (cases "h = hash")
    case True
    then have "y = x" using y decode_encode(1) [OF codec enc] by simp
    then show ?thesis using blob True by blast
  next
    case False
    then have same: "blob_at H store h ?v = blob_at H store h v" by simp
    show ?thesis using y unfolding same by (rule content_addressedD(1) [OF ca])
  qed
  moreover have same: "art_at H repo path ?v = art_at H repo path v" for repo path by simp
  note content_addressedD(2) [OF ca, folded same]
  ultimately show ?thesis unfolding content_addressed_def by blast
qed

lemma content_addressed_artifact:
  assumes ca: "content_addressed H C B store R v bl" and codec: "codec_ok (cs_artifact C)"
    and enc: "encode (cs_artifact C) x = Inr b"
    and arts: "\<forall>pk sk. v' TABLE_ARTIFACTS pk sk = put_art H repo path b v TABLE_ARTIFACTS pk sk"
    and blobs: "\<forall>pk sk. v' TABLE_BLOBS pk sk = v TABLE_BLOBS pk sk"
    and blob: "\<And>i. ar_blob_id x = Some i \<Longrightarrow> \<exists>d. bl i = Some d \<and> (\<forall>h. ar_content_hash x = Some h \<longrightarrow> B d = h)"
  shows "content_addressed H C B store R v' bl"
proof -
  have "\<exists>d. bl i = Some d \<and> (\<forall>h. ar_content_hash y = Some h \<longrightarrow> B d = h)"
    if y: "r \<in> R" "stored (cs_artifact C) (art_at H r p v') (Some y)" "ar_blob_id y = Some i" for r p y i
  proof (cases "(sharded_pk H r (normalize_path p), normalize_path p) = (sharded_pk H repo (normalize_path path), normalize_path path)")
    case True
    then have keys: "sharded_pk H r (normalize_path p) = sharded_pk H repo (normalize_path path)"
      "normalize_path p = normalize_path path" by auto
    have "art_at H r p v' = Some (b, next_version (art_at H repo path v))"
      unfolding keys(1) unfolding keys(2) arts [rule_format] by simp
    then have "y = x" using y(2) decode_encode(1) [OF codec enc] by simp
    then show ?thesis using blob y(3) by blast
  next
    case False
    then have same: "art_at H r p v' = art_at H r p v"
      by (intro trans [OF arts [rule_format]]) (simp only: view_upd_apply prod.inject simp_thms if_False)
    show ?thesis using y unfolding same by (rule content_addressedD(2) [OF ca])
  qed
  then show ?thesis using content_addressedD(1) [OF ca] unfolding content_addressed_def blobs [rule_format] by blast
qed

text \<open>Both contracts together: what a repository is served from.\<close>

locale repo_stack = kv_store kv invar view + blob_backend bs binvar bview ok_id
  for kv :: "'s kv" and invar view and bs :: "'b blob_store" and binvar bview ok_id

lemma tree_upserted_other:
  "tree_upserted H kv C repo path record v v' \<Longrightarrow> t \<noteq> TABLE_DIR_ENTRIES \<Longrightarrow> v' t pk sk = v t pk sk"
  by (drule tree_upserted_frame) (simp add: view_frame_def tree_entry_key_def Let_def)

lemma prepare_artifact_blob [simp]:
  "ar_blob_id (prepare_artifact uuid path record) = ar_blob_id record"
  "ar_content_hash (prepare_artifact uuid path record) = ar_content_hash record"
  by (simp_all add: prepare_artifact_def Let_def)

text \<open>What an ingestion leaves: the invariant, the record at its path, and its blob.\<close>

definition ingested ::
    "'s runtime \<Rightarrow> string \<Rightarrow> string set \<Rightarrow> string \<Rightarrow> string \<Rightarrow> string \<Rightarrow> ingestion_result \<Rightarrow> kv_view \<Rightarrow> (string \<rightharpoonup> bytes) \<Rightarrow> bool" where
  "ingested RT store R repo path hash res v bl \<longleftrightarrow>
     content_addressed (rt_hasher RT) (rt_codecs RT) (rt_blake3 RT) store R v bl \<and>
     stored (cs_artifact (rt_codecs RT)) (art_at (rt_hasher RT) repo path v)
       (Some (prepare_artifact (rt_uuid RT 0) path (in_record res))) \<and>
     ar_content_hash (in_record res) = Some hash \<and>
     (\<exists>i d. ar_blob_id (in_record res) = Some i \<and> bl i = Some d \<and> rt_blake3 RT d = hash)"

text \<open>
  What a failed one leaves: if the claim of the dedup record was what failed, everything but that
  record is content addressed; else everything but the artifact at the path.
\<close>

definition upload_record :: "'s runtime \<Rightarrow> string \<Rightarrow> string \<Rightarrow> string \<Rightarrow> u64 \<Rightarrow> blob_record" where
  "upload_record RT store blob_id hash sz = \<lparr>br_schema_version = CURRENT_RECORD_VERSION, br_blob_id = blob_id,
     br_hash = hash, br_size = sz, br_created_at = rt_now RT, br_store = store\<rparr>"

definition claim_failed :: "'s runtime \<Rightarrow> 's kv \<Rightarrow> string \<Rightarrow> blob_record \<Rightarrow> 's \<Rightarrow> 's \<Rightarrow> bool" where
  "claim_failed RT kv store rec s s' \<longleftrightarrow>
     (\<exists>e. put_dedup_record (rt_hasher RT) kv (rt_codecs RT) (rt_dedup_env RT) store rec s = Some (Inl e, s'))"

definition unharmed ::
    "'s runtime \<Rightarrow> bool \<Rightarrow> string \<Rightarrow> string set \<Rightarrow> string \<Rightarrow> string \<Rightarrow> string \<Rightarrow> kv_view \<Rightarrow> (string \<rightharpoonup> bytes) \<Rightarrow> bool" where
  "unharmed RT unclaimed store R repo path hash = content_addressed_except
     (if unclaimed then {blob_key (rt_hasher RT) store hash}
      else {artifact_key (rt_hasher RT) repo path, tree_entry_key (rt_hasher RT) repo path})
     (rt_hasher RT) (rt_codecs RT) (rt_blake3 RT) store R"

lemma unharmedI:
  "content_addressed (rt_hasher RT) (rt_codecs RT) (rt_blake3 RT) store R v bl \<Longrightarrow> unharmed RT unclaimed store R repo path hash v bl"
  unfolding unharmed_def by (erule content_addressed_exceptI) simp

lemma ingestedI:
  assumes ca: "content_addressed (rt_hasher RT) (rt_codecs RT) (rt_blake3 RT) store R v bl"
    and codec: "codec_ok (cs_artifact (rt_codecs RT))"
    and enc: "encode (cs_artifact (rt_codecs RT)) (prepare_artifact (rt_uuid RT 0) path record) = Inr b"
    and up: "tree_upserted (rt_hasher RT) kv (rt_codecs RT) repo path (prepare_artifact (rt_uuid RT 0) path record)
      (put_art (rt_hasher RT) repo path b v) v'"
    and blob: "ar_blob_id record = Some i" "ar_content_hash record = Some hash" "bl i = Some d" "rt_blake3 RT d = hash"
    and res: "in_record res = record"
  shows "ingested RT store R repo path hash res v' bl"
proof -
  have arts: "v' TABLE_ARTIFACTS pk sk = put_art (rt_hasher RT) repo path b v TABLE_ARTIFACTS pk sk" for pk sk
    by (rule tree_upserted_art [OF up])
  have "v' TABLE_BLOBS pk sk = v TABLE_BLOBS pk sk" for pk sk
    using tree_upserted_other [OF up, of TABLE_BLOBS pk sk] by simp
  with arts blob have "content_addressed (rt_hasher RT) (rt_codecs RT) (rt_blake3 RT) store R v' bl"
    by (intro content_addressed_artifact [OF ca codec enc]) auto
  moreover have "stored (cs_artifact (rt_codecs RT)) (art_at (rt_hasher RT) repo path v')
      (Some (prepare_artifact (rt_uuid RT 0) path record))"
    unfolding arts by (simp add: decode_encode(1) [OF codec enc])
  ultimately show ?thesis using blob res by (simp add: ingested_def)
qed

text \<open>
  Serving: a read finds exactly the record at the path, and the bytes it delivers have the hash the
  record carries.
\<close>

definition served :: "'s runtime \<Rightarrow> string \<Rightarrow> string \<Rightarrow> kv_view \<Rightarrow> artifact_content option \<Rightarrow> bool" where
  "served RT repo path v content \<longleftrightarrow>
     stored (cs_artifact (rt_codecs RT)) (art_at (rt_hasher RT) repo path v) (map_option ac_record content) \<and>
     (\<forall>c h. content = Some c \<longrightarrow> ar_content_hash (ac_record c) = Some h \<longrightarrow> rt_blake3 RT (ac_data c) = h)"

definition quiet :: "'s runtime \<Rightarrow> bool" where
  "quiet RT \<longleftrightarrow> rt_dedup_env RT = (\<lambda>s. s) \<and> rt_put_env RT = (\<lambda>_ s. s) \<and>
     codec_ok (cs_blob (rt_codecs RT)) \<and> codec_ok (cs_artifact (rt_codecs RT))"

lemma wp_touch: "wp (touch repo path now) Q w \<longleftrightarrow> Q (Inr ()) (if w_open w \<and> length (w_atime w) < w_atime_capacity w
     then w\<lparr>w_atime := w_atime w @ [\<lparr>ae_repo = repo, ae_path = path, ae_timestamp = now\<rparr>]\<rparr> else w)"
  by (simp add: wp_def touch_def)

lemma io_bind_assoc: "io_bind (io_bind m f) g = io_bind m (\<lambda>x. io_bind (f x) g)"
  by (auto simp: io_bind_def fun_eq_iff split: option.splits sum.splits)

context repo_stack
begin

abbreviation world_ok :: "('s, 'b) world \<Rightarrow> bool" where
  "world_ok w \<equiv> invar (w_kv w) \<and> binvar (w_blobs w)"

abbreviation kv_of :: "('s, 'b) world \<Rightarrow> kv_view" where
  "kv_of w \<equiv> view (w_kv w)"

abbreviation blobs_in :: "('s, 'b) world \<Rightarrow> (string \<rightharpoonup> bytes)" where
  "blobs_in w \<equiv> blobs_of (bview (w_blobs w))"

text \<open>The dedup claim of a blob nothing refers to yet.\<close>

lemma claim_spec:
  assumes w: "world_ok w" and RT: "quiet RT" and ok: "pk_ok store" "sk_ok (br_hash rec)"
    and ca: "content_addressed (rt_hasher RT) (rt_codecs RT) B store R (kv_of w) ((blobs_in w)(br_blob_id rec := None))"
    and blob: "blobs_in w (br_blob_id rec) = Some d" "B d = br_hash rec"
  shows "wp (on_kv (put_dedup_record (rt_hasher RT) kv (rt_codecs RT) (rt_dedup_env RT) store rec))
    (\<lambda>r w'. world_ok w' \<and> w_blobs w' = w_blobs w \<and>
      put_dedup_record (rt_hasher RT) kv (rt_codecs RT) (rt_dedup_env RT) store rec (w_kv w) = Some (r, w_kv w') \<and>
      (\<forall>e. r = Inl e \<longrightarrow> view_frame {blob_key (rt_hasher RT) store (br_hash rec)} (kv_of w) (kv_of w')) \<and> (\<forall>ans. r = Inr ans \<longrightarrow>
      (case ans of
         None \<Rightarrow> content_addressed (rt_hasher RT) (rt_codecs RT) B store R (kv_of w') (blobs_in w)
       | Some i \<Rightarrow> i \<noteq> br_blob_id rec \<and> (\<exists>d'. blobs_in w i = Some d' \<and> B d' = br_hash rec) \<and>
           content_addressed (rt_hasher RT) (rt_codecs RT) B store R (kv_of w') ((blobs_in w)(br_blob_id rec := None))))) w"
proof -
  let ?H = "rt_hasher RT" and ?C = "rt_codecs RT" and ?bl' = "(blobs_in w)(br_blob_id rec := None)"
  have RT': "rt_dedup_env RT = (\<lambda>s. s)" "codec_ok (cs_blob ?C)" using RT by (auto simp: quiet_def)
  have full: "content_addressed ?H ?C B store R (kv_of w) (blobs_in w)"
    by (rule content_addressed_blobs [OF ca, of "br_blob_id rec"]) simp_all
  have inv: "invar (w_kv w)" using w by simp
  note both = wp_run [OF wp_det [OF put_dedup_record_spec [OF inv ok RT'(2), of "\<lambda>s. s" ?H]
      put_dedup_record_seq [OF inv ok, of ?H ?C]]]
  show ?thesis
    unfolding wp_on_kv RT'(1)
  proof (rule wp_mono [OF both], goal_cases)
    case 1 then show ?case by simp
  next
    case (2 r s')
    show ?case
    proof (cases r)
      case (Inr ans)
      have inv': "invar s'" using 2 by simp
      show ?thesis
      proof (cases ans)
        case None
        obtain b where b: "encode (cs_blob ?C) (rec\<lparr>br_store := store\<rparr>) = Inr b"
          and v: "view s' = view_put (kv_of w) TABLE_BLOBS (sharded_pk ?H store (br_hash rec)) (br_hash rec) b"
          using 2 Inr None by auto
        have "content_addressed ?H ?C B store R (view s') (blobs_in w)"
          unfolding v by (rule content_addressed_claim [OF full RT'(2) b]) (use blob in auto)
        then show ?thesis using Inr None inv' w 2 by simp
      next
        case (Some i)
        have v: "view s' = kv_of w" and "hash_claimed ?H ?C store (br_hash rec) i (view s')"
          using 2 Inr Some by (auto simp: answer_id_def)
        then obtain x where "stored (cs_blob ?C) (blob_at ?H store (br_hash rec) (kv_of w)) (Some x)" "br_blob_id x = i"
          by (auto simp: hash_claimed_def)
        then obtain d' where "?bl' i = Some d'" "B d' = br_hash rec"
          using ca unfolding content_addressed_def by blast
        then show ?thesis using Inr Some inv' w v ca 2 by (auto split: if_splits)
      qed
    qed (use 2 w in auto)
  qed
qed

text \<open>
  The commit, with nobody else at work: the artifact ends up at its path and names a blob with the
  hash that was computed, the one just written or an older one with the same hash.
\<close>

lemma put_record_spec:
  assumes w: "world_ok w" and RT: "quiet RT" and ok: "pk_ok repo" "sk_ok path" "path \<noteq> []"
    and ca: "content_addressed (rt_hasher RT) (rt_codecs RT) (rt_blake3 RT) store R (kv_of w) (blobs_in w)"
    and rec: "ar_blob_id record = Some i" "ar_content_hash record = Some hash" "blobs_in w i = Some d" "rt_blake3 RT d = hash"
  shows "wp (io_bind (on_kv (put_artifact (rt_hasher RT) kv (rt_codecs RT) (rt_put_env RT) (rt_uuid RT) repo path record))
      (\<lambda>old. io_return \<lparr>in_record = record, in_old_record = old, in_new_blob = new\<rparr>))
    (\<lambda>r w'. world_ok w' \<and> (\<forall>e. r = Inl e \<longrightarrow> unharmed RT False store R repo path hash (kv_of w') (blobs_in w')) \<and>
      (\<forall>res. r = Inr res \<longrightarrow> ingested RT store R repo path hash res (kv_of w') (blobs_in w'))) w"
proof -
  have RT': "rt_put_env RT = (\<lambda>_ s. s)" "codec_ok (cs_artifact (rt_codecs RT))" using RT by (auto simp: quiet_def)
  have inv: "invar (w_kv w)" using w by simp
  show ?thesis
    unfolding wp_bind wp_on_kv RT'(1)
  proof (rule wp_mono [OF put_artifact_spec [OF inv ok]], goal_cases)
    case (1 r s')
    show ?case
    proof (cases r)
      case (Inr old)
      obtain b where b: "encode (cs_artifact (rt_codecs RT)) (prepare_artifact (rt_uuid RT 0) path record) = Inr b"
        and up: "tree_upserted (rt_hasher RT) kv (rt_codecs RT) repo path (prepare_artifact (rt_uuid RT 0) path record)
          (put_art (rt_hasher RT) repo path b (kv_of w)) (view s')"
        using 1 Inr by auto
      have "ingested RT store R repo path hash \<lparr>in_record = record, in_old_record = old, in_new_blob = new\<rparr>
          (view s') (blobs_in w)"
        by (rule ingestedI [OF ca RT'(2) b up rec]) simp
      then show ?thesis using 1 Inr w by simp
    next
      case (Inl e)
      then show ?thesis using 1 w by (auto simp: unharmed_def intro: content_addressed_exceptI [OF ca])
    qed
  qed
qed

lemma commit_ingestion_spec:
  assumes w: "world_ok w" and RT: "quiet RT"
    and ok: "pk_ok store" "sk_ok hash" "pk_ok repo" "sk_ok path" "path \<noteq> []" "ok_id blob_id"
    and ca: "content_addressed (rt_hasher RT) (rt_codecs RT) (rt_blake3 RT) store R (kv_of w) ((blobs_in w)(blob_id := None))"
    and blob: "blobs_in w blob_id = Some d" "rt_blake3 RT d = hash"
  shows "wp (commit_ingestion RT \<lparr>ic_kv = kv, ic_blobs = bs, ic_store = store, ic_repo = repo\<rparr> path blob_id hash sz content_type)
    (\<lambda>r w'. world_ok w' \<and> (\<forall>e. r = Inl e \<longrightarrow>
      unharmed RT (claim_failed RT kv store (upload_record RT store blob_id hash sz) (w_kv w) (w_kv w')) store R repo path hash
        (kv_of w') (blobs_in w')) \<and> (\<forall>res. r = Inr res \<longrightarrow> ingested RT store R repo path hash res (kv_of w') (blobs_in w'))) w"
proof -
  let ?ca = "content_addressed (rt_hasher RT) (rt_codecs RT) (rt_blake3 RT) store R"
  let ?rec = "upload_record RT store blob_id hash sz"
  have rec: "br_hash ?rec = hash" "br_blob_id ?rec = blob_id" by (simp_all add: upload_record_def)
  have ok': "sk_ok (br_hash ?rec)" "?ca (kv_of w) ((blobs_in w)(br_blob_id ?rec := None))"
    "blobs_in w (br_blob_id ?rec) = Some d" "rt_blake3 RT d = br_hash ?rec" using ok ca blob by (simp_all add: rec)
  show ?thesis
    unfolding commit_ingestion_def Let_def ingestion_ctx.select_convs upload_record_def [symmetric]
  proof (rule wp_bindI [OF claim_spec [OF w RT ok(1) ok']], goal_cases)
    case (1 e w1)
    then have "claim_failed RT kv store ?rec (w_kv w) (w_kv w1)" "view_frame {blob_key (rt_hasher RT) store hash} (kv_of w) (kv_of w1)"
      by (auto simp: claim_failed_def rec)
    moreover have "?ca (kv_of w) (blobs_in w)"
      by (rule content_addressed_blobs [OF ca, of blob_id]) simp_all
    ultimately show ?case using 1 by (auto simp: unharmed_def intro: content_addressed_exceptI)
  next
    case (2 ans w1)
    note 2 = this [unfolded rec]
    have lift: "wp m (\<lambda>r w'. world_ok w' \<and> (\<forall>e. r = Inl e \<longrightarrow>
        unharmed RT (claim_failed RT kv store ?rec (w_kv w) (w_kv w')) store R repo path hash (kv_of w') (blobs_in w')) \<and>
        (\<forall>res. r = Inr res \<longrightarrow> ingested RT store R repo path hash res (kv_of w') (blobs_in w'))) w2"
      if "wp m (\<lambda>r w'. world_ok w' \<and> (\<forall>e. r = Inl e \<longrightarrow> unharmed RT False store R repo path hash (kv_of w') (blobs_in w')) \<and>
        (\<forall>res. r = Inr res \<longrightarrow> ingested RT store R repo path hash res (kv_of w') (blobs_in w'))) w2" for m w2
      by (rule wp_mono [OF that]) (use 2 in \<open>auto simp: claim_failed_def\<close>)
    show ?case
    proof (cases ans)
      case None
      then show ?thesis
        unfolding None option.case prod.case if_False
        by (intro lift put_record_spec [OF _ RT ok(3-5)]) (use None 2 blob in \<open>auto simp: raw_record_def\<close>)
    next
      case (Some i)
      with 2 obtain d' where w1: "world_ok w1" "w_blobs w1 = w_blobs w"
        and i: "i \<noteq> blob_id" "blobs_in w i = Some d'" "rt_blake3 RT d' = hash"
        and ca1: "?ca (kv_of w1) ((blobs_in w)(blob_id := None))" by auto
      have b1: "binvar (w_blobs w1)" using w1 by simp
      have del: "wp (io_try (on_blobs (bs_delete bs blob_id)))
          (\<lambda>r w'. isl r = False \<and> (\<exists>b'. w' = w1\<lparr>w_blobs := b'\<rparr> \<and> binvar b' \<and> blob_frame {blob_id} (bview (w_blobs w)) (bview b'))) w1"
        unfolding wp_try wp_on_blobs
        by (rule wp_mono [OF delete_spec [OF b1 ok(6)]]) (use w1 in \<open>auto simp: blob_write_def\<close>)
      show ?thesis
        unfolding Some option.case prod.case if_True io_bind_assoc
      proof (rule wp_bindI [OF del], goal_cases)
        case (2 u w2)
        then obtain b' where w2: "w2 = w1\<lparr>w_blobs := b'\<rparr>" "binvar b'"
          and fr: "blob_frame {blob_id} (bview (w_blobs w)) (bview b')" by auto
        have i': "blobs_in w2 i = Some d'" using blob_frameD [OF fr, of i] i w2 by simp
        have ca2: "?ca (kv_of w2) (blobs_in w2)"
          by (rule content_addressed_blobs [where bl = "(blobs_in w)(blob_id := None)" and i = blob_id])
            (use ca1 blob_frameD [OF fr] w2 in auto)
        show ?case
          by (rule lift, rule put_record_spec [OF _ RT ok(3-5) ca2 _ _ i' i(3)]) (use w2 w1 in \<open>auto simp: raw_record_def\<close>)
      qed simp
    qed
  qed
qed

lemma ingest_artifact_spec:
  assumes w: "world_ok w" and RT: "quiet RT"
    and ok: "pk_ok store" "sk_ok (rt_blake3 RT data)" "pk_ok repo" "sk_ok path" "path \<noteq> []" "ok_id blob_id"
    and ca: "content_addressed (rt_hasher RT) (rt_codecs RT) (rt_blake3 RT) store R (kv_of w) (blobs_in w)"
    and fresh: "blobs_in w blob_id = None"
  shows "wp (ingest_artifact RT \<lparr>ic_kv = kv, ic_blobs = bs, ic_store = store, ic_repo = repo\<rparr> blob_id path content_type data)
    (\<lambda>r w'. world_ok w' \<and> (\<forall>e. r = Inl e \<longrightarrow>
      unharmed RT (claim_failed RT kv store (upload_record RT store blob_id (rt_blake3 RT data) (of_nat (length data))) (w_kv w) (w_kv w'))
        store R repo path (rt_blake3 RT data) (kv_of w') (blobs_in w')) \<and> (\<forall>res. r = Inr res \<longrightarrow>
      ingested RT store R repo path (rt_blake3 RT data) res (kv_of w') (blobs_in w'))) w"
proof -
  have b: "binvar (w_blobs w)" using w by simp
  show ?thesis
    unfolding ingest_artifact_def ingestion_ctx.select_convs
    unfolding wp_bind [of "on_blobs _"] wp_on_blobs
  proof (rule wp_mono [OF put_spec [OF b ok(6)]], goal_cases)
    case (1 r b')
    show ?case
    proof (cases r)
      case (Inr n)
      let ?w1 = "w\<lparr>w_blobs := b'\<rparr>"
      have fr: "blob_frame {blob_id} (bview (w_blobs w)) (bview b')" and b': "binvar b'" "blobs_of (bview b') blob_id = Some data"
        using 1 Inr by (auto simp: blob_write_def)
      have same: "(blobs_in ?w1)(blob_id := None) = blobs_in w"
        using blob_frameD [OF fr] fresh by (auto simp: fun_eq_iff)
      show ?thesis
        unfolding Inr sum.case
        by (rule wp_mono [OF commit_ingestion_spec [OF _ RT ok]]) (use w b' same ca in auto)
    next
      case (Inl e)
      then have b': "binvar b'" "blob_frame {blob_id} (bview (w_blobs w)) (bview b')" using 1 by (auto simp: blob_write_def)
      have "content_addressed (rt_hasher RT) (rt_codecs RT) (rt_blake3 RT) store R (kv_of w) (blobs_of (bview b'))"
        by (rule content_addressed_blobs [OF ca fresh]) (use blob_frameD [OF b'(2)] in auto)
      then show ?thesis using Inl b' w by (simp add: unharmedI)
    qed
  qed
qed

lemma hosted_get_spec:
  assumes w: "world_ok w" and repo: "pk_ok (ho_name repo)" "ho_name repo \<in> R" "ho_kv repo = kv" "ho_blobs repo = bs"
    and ca: "content_addressed (rt_hasher RT) (rt_codecs RT) (rt_blake3 RT) store R (kv_of w) (blobs_in w)"
    and ids: "\<forall>x i. stored (cs_artifact (rt_codecs RT)) (art_at (rt_hasher RT) (ho_name repo) path (kv_of w)) (Some x) \<longrightarrow>
      ar_blob_id x = Some i \<longrightarrow> ok_id i"
    and raw: "\<forall>x. stored (cs_artifact (rt_codecs RT)) (art_at (rt_hasher RT) (ho_name repo) path (kv_of w)) (Some x) \<longrightarrow>
      ar_blob_id x \<noteq> None"
  shows "wp (hosted_get RT repo path)
    (\<lambda>r w'. world_ok w' \<and> kv_of w' = kv_of w \<and> blobs_in w' = blobs_in w \<and>
      (\<forall>content. r = Inr content \<longrightarrow> served RT (ho_name repo) path (kv_of w) content)) w"
proof -
  let ?H = "rt_hasher RT" and ?C = "rt_codecs RT"
  have inv: "invar (w_kv w)" using w by simp
  have get: "wp (on_kv (get_artifact ?H kv ?C (ho_name repo) path)) (\<lambda>r w'. world_ok w' \<and> kv_of w' = kv_of w \<and> w_blobs w' = w_blobs w \<and>
      (\<forall>x. r = Inr x \<longrightarrow> stored (cs_artifact ?C) (art_at ?H (ho_name repo) path (kv_of w)) x)) w"
    unfolding wp_on_kv by (rule wp_mono [OF get_artifact_spec [OF inv repo(1)]]) (use w in \<open>auto simp: kv_read_def\<close>)
  show ?thesis
    unfolding hosted_get_def repo(3,4)
  proof (rule wp_bindI [OF get], goal_cases)
    case (2 x w1)
    show ?case
    proof (cases x)
      case None
      with 2 show ?thesis by (auto simp: served_def)
    next
      case (Some rec)
      then have st: "stored (cs_artifact ?C) (art_at ?H (ho_name repo) path (kv_of w)) (Some rec)" using 2 by simp
      with raw ids obtain i where i: "ar_blob_id rec = Some i" "ok_id i" by blast
      obtain d where d: "blobs_in w i = Some d" "\<forall>h. ar_content_hash rec = Some h \<longrightarrow> rt_blake3 RT d = h"
        using ca st i(1) repo(2) unfolding content_addressed_def by blast
      have b: "binvar (w_blobs w1)" using 2 by auto
      have opened: "wp (on_blobs (bs_open_read bs i)) (\<lambda>r w'. world_ok w' \<and> kv_of w' = kv_of w \<and> blobs_in w' = blobs_in w \<and>
          (\<forall>x. r = Inr x \<longrightarrow> x = Some (d, of_nat (length d)))) w2" if "w_kv w2 = w_kv w1" "w_blobs w2 = w_blobs w1" for w2
        unfolding wp_on_blobs that(2)
        by (rule wp_mono [OF open_read_spec [OF b i(2)]]) (use 2 d that in \<open>auto simp: blob_read_def\<close>)
      have served: "served RT (ho_name repo) path (kv_of w) (Some \<lparr>ac_data = d, ac_record = rec\<rparr>)"
        using st d(2) by (simp add: served_def)
      show ?thesis
        unfolding Some option.case open_artifact_blob_def i(1) Let_def io_bind_assoc
        unfolding wp_bind [of "touch _ _ _"] wp_touch sum.case
        by (rule wp_bindI [OF opened]) (use served in \<open>auto simp: wp_simps\<close>)
    qed
  qed auto
qed

end

end
