(* ===== verification/Gc_Bloom.thy ===== *)
theory Gc_Bloom
  imports Depot_Io "HOL-Library.Word"
begin

text \<open>
  The Bloom filter helpers of the garbage collector
  (\<open>server/src/server/worker/blob_reaper/bloom.rs\<close>). The filter itself is the third-party crate
  \<open>bloomfilter\<close>: its methods are the record \<open>bloom_ops\<close> over the filter type \<open>'f\<close>, and the locale
  \<open>bloom_lib\<close> states what its documentation promises. The serialized form is a header followed by
  the bitmap.
\<close>

unbundle bit_operations_syntax

record 'f bloom_ops =
  bl_new_for_fp_rate :: "nat \<Rightarrow> string + 'f"
  bl_to_bytes :: "'f \<Rightarrow> bytes"
  bl_from_bytes :: "bytes \<Rightarrow> string + 'f"
  bl_len :: "'f \<Rightarrow> nat"
  bl_set :: "'f \<Rightarrow> bytes \<Rightarrow> 'f"
  bl_check :: "'f \<Rightarrow> bytes \<Rightarrow> bool"
  bl_clear :: "'f \<Rightarrow> 'f"

definition bloom_err :: "string \<Rightarrow> string \<Rightarrow> depot_error" where
  "bloom_err ctx e = Internal (''bloom filter '' @ ctx @ '': '' @ e)"

definition map_bloom_err :: "string \<Rightarrow> string + 'f \<Rightarrow> 'f result" where
  "map_bloom_err ctx r = (case r of Inl e \<Rightarrow> Inl (bloom_err ctx e) | Inr f \<Rightarrow> Inr f)"

definition header_len :: "'f bloom_ops \<Rightarrow> 'f \<Rightarrow> nat" where
  "header_len L flt = length (bl_to_bytes L flt) - bl_len L flt div 8"

definition byte_or :: "char \<Rightarrow> char \<Rightarrow> char" where
  "byte_or a b = char_of (of_char a OR of_char b :: nat)"

definition bloom_empty_like :: "'f bloom_ops \<Rightarrow> 'f \<Rightarrow> 'f result" where
  "bloom_empty_like L template =
    (case map_bloom_err ''clone'' (bl_from_bytes L (bl_to_bytes L template)) of
       Inl e \<Rightarrow> Inl e
     | Inr b \<Rightarrow> Inr (bl_clear L b))"

definition bloom_union :: "'f bloom_ops \<Rightarrow> 'f \<Rightarrow> 'f \<Rightarrow> 'f result" where
  "bloom_union L target source =
    (let h = header_len L target;
         merged = bl_to_bytes L target;
         src = bl_to_bytes L source
     in if length merged < h \<or> length src < h \<or> take h merged \<noteq> take h src \<or> length merged \<noteq> length src
        then Inl (bloom_err ''union'' ''filter parameter mismatch'')
        else map_bloom_err ''union''
          (bl_from_bytes L (take h merged @ map2 byte_or (drop h merged) (drop h src))))"

section \<open>The accumulator\<close>

record bloom_accumulator =
  ba_header :: bytes
  ba_bits :: bytes

definition accumulator_empty_like :: "'f bloom_ops \<Rightarrow> 'f \<Rightarrow> bloom_accumulator" where
  "accumulator_empty_like L template =
    (let h = header_len L template;
         serialized = bl_to_bytes L template
     in \<lparr>ba_header = take h serialized, ba_bits = replicate (length serialized - h) (CHR 0x00)\<rparr>)"

definition or_from :: "'f bloom_ops \<Rightarrow> bloom_accumulator \<Rightarrow> 'f \<Rightarrow> bloom_accumulator result" where
  "or_from L acc source =
    (let src = bl_to_bytes L source; h = length (ba_header acc)
     in if length src < h \<or> take h src \<noteq> ba_header acc \<or> length src \<noteq> h + length (ba_bits acc)
        then Inl (bloom_err ''accumulate'' ''filter parameter mismatch'')
        else Inr (acc\<lparr>ba_bits := map2 (\<lambda>dst s. if s \<noteq> CHR 0x00 then byte_or dst s else dst) (ba_bits acc) (drop h src)\<rparr>))"

definition accumulator_finalize :: "'f bloom_ops \<Rightarrow> bloom_accumulator \<Rightarrow> 'f result" where
  "accumulator_finalize L acc = map_bloom_err ''finalize'' (bl_from_bytes L (ba_header acc @ ba_bits acc))"

section \<open>What the crate promises\<close>

text \<open>Every bit of one bitmap is set in the other.\<close>

definition byte_le :: "char \<Rightarrow> char \<Rightarrow> bool" where
  "byte_le a b \<longleftrightarrow> byte_or a b = b"

abbreviation bits_le :: "bytes \<Rightarrow> bytes \<Rightarrow> bool" where
  "bits_le \<equiv> list_all2 byte_le"

lemma byte_or_nat: "of_char (byte_or a b) = (of_char a OR of_char b :: nat)"
proof -
  have tb: "take_bit 8 n = n mod 256" for n :: nat by (simp add: take_bit_eq_mod)
  have "(of_char c :: nat) mod 256 = of_char c" for c by simp
  then show ?thesis
    by (simp add: byte_or_def tb [symmetric])
qed

lemma byte_le_nat: "byte_le a b \<longleftrightarrow> (of_char a OR of_char b :: nat) = of_char b"
  unfolding byte_le_def byte_or_nat [symmetric] by simp

lemma byte_le_refl [simp]: "byte_le a a"
  by (simp add: byte_le_nat)

lemma byte_le_or [simp]: "byte_le a (byte_or a b)" "byte_le b (byte_or a b)"
  unfolding byte_le_nat byte_or_nat by (simp_all add: or.left_commute)

lemma byte_le_trans: "byte_le a b \<Longrightarrow> byte_le b c \<Longrightarrow> byte_le a c"
  unfolding byte_le_nat by (metis or.assoc)

lemma byte_or_zero [simp]: "byte_or a (CHR 0x00) = a"
  by (simp add: byte_or_def)

lemma bits_le_refl [simp]: "bits_le xs xs"
  by (simp add: list.rel_refl)

lemma bits_le_trans: "bits_le xs ys \<Longrightarrow> bits_le ys zs \<Longrightarrow> bits_le xs zs"
  by (rule list_all2_trans [OF byte_le_trans])

lemma bits_le_map2:
  assumes "length xs = length ys"
  shows "bits_le xs (map2 byte_or xs ys)" "bits_le ys (map2 byte_or xs ys)"
  using assms by (auto simp: list_all2_conv_all_nth)

lemma or_nonzero: "(if s \<noteq> CHR 0x00 then byte_or d s else d) = byte_or d s"
  by simp

locale bloom_lib =
  fixes L :: "'f bloom_ops"
  assumes from_to: "bl_from_bytes L (bl_to_bytes L f) = Inr f"
    and to_from: "bl_from_bytes L bs = Inr f \<Longrightarrow> bl_to_bytes L f = bs"
    and from_ok: "length bs = length (bl_to_bytes L f) \<Longrightarrow>
      take (header_len L f) bs = take (header_len L f) (bl_to_bytes L f) \<Longrightarrow> \<exists>g. bl_from_bytes L bs = Inr g"
    and header_fixed: "length (bl_to_bytes L f) = length (bl_to_bytes L g) \<Longrightarrow>
      take (header_len L f) (bl_to_bytes L f) = take (header_len L f) (bl_to_bytes L g) \<Longrightarrow> bl_len L g = bl_len L f"
    and clear: "bl_to_bytes L (bl_clear L f) = take (header_len L f) (bl_to_bytes L f) @
      replicate (length (bl_to_bytes L f) - header_len L f) (CHR 0x00)"
    and set_grows: "length (bl_to_bytes L (bl_set L f x)) = length (bl_to_bytes L f)"
      "take (header_len L f) (bl_to_bytes L (bl_set L f x)) = take (header_len L f) (bl_to_bytes L f)"
      "bits_le (drop (header_len L f) (bl_to_bytes L f)) (drop (header_len L f) (bl_to_bytes L (bl_set L f x)))"
    and check_set: "bl_check L (bl_set L f x) x"
    and check_mono: "length (bl_to_bytes L f) = length (bl_to_bytes L g) \<Longrightarrow>
      take (header_len L f) (bl_to_bytes L f) = take (header_len L f) (bl_to_bytes L g) \<Longrightarrow>
      bits_le (drop (header_len L f) (bl_to_bytes L f)) (drop (header_len L f) (bl_to_bytes L g)) \<Longrightarrow>
      bl_check L f x \<Longrightarrow> bl_check L g x"
    and check_clear: "bl_len L f \<ge> 8 \<Longrightarrow> \<not> bl_check L (bl_clear L f) x"

text \<open>Two filters hash alike: same header, same size.\<close>

definition same_params :: "'f bloom_ops \<Rightarrow> 'f \<Rightarrow> 'f \<Rightarrow> bool" where
  "same_params L f g \<longleftrightarrow> length (bl_to_bytes L f) = length (bl_to_bytes L g) \<and>
     take (header_len L f) (bl_to_bytes L f) = take (header_len L f) (bl_to_bytes L g)"

definition filter_bits :: "'f bloom_ops \<Rightarrow> 'f \<Rightarrow> bytes" where
  "filter_bits L f = drop (header_len L f) (bl_to_bytes L f)"

definition acc_like :: "'f bloom_ops \<Rightarrow> 'f \<Rightarrow> bloom_accumulator \<Rightarrow> bool" where
  "acc_like L t acc \<longleftrightarrow> ba_header acc = take (header_len L t) (bl_to_bytes L t) \<and>
     length (ba_bits acc) = length (bl_to_bytes L t) - header_len L t"

context bloom_lib
begin

lemma header_len_le [simp]: "header_len L f \<le> length (bl_to_bytes L f)"
  by (simp add: header_len_def)

lemma same_header: "same_params L f g \<Longrightarrow> header_len L g = header_len L f"
  using header_fixed [of f g] by (auto simp: same_params_def header_len_def)

lemma same_params_refl [simp]: "same_params L f f"
  by (simp add: same_params_def)

lemma same_params_sym: "same_params L f g \<Longrightarrow> same_params L g f"
  using same_header [of f g] by (simp add: same_params_def)

lemma same_params_trans: "same_params L f g \<Longrightarrow> same_params L g h \<Longrightarrow> same_params L f h"
  using same_header [of f g] by (simp add: same_params_def)

lemma same_params_set: "same_params L f (bl_set L f x)"
  using set_grows [of f x] by (simp add: same_params_def)

lemma filter_bits_set: "bits_le (filter_bits L f) (filter_bits L (bl_set L f x))"
  using set_grows(3) [of f x] same_header [OF same_params_set] by (simp add: filter_bits_def)

lemma check_payload:
  assumes "same_params L f g" "bits_le (filter_bits L f) (filter_bits L g)" "bl_check L f x"
  shows "bl_check L g x"
  using check_mono [of f g x] assms same_header [OF assms(1)] by (simp add: same_params_def filter_bits_def)

text \<open>Setting more items keeps every item found.\<close>

lemma check_set_other: "bl_check L f x \<Longrightarrow> bl_check L (bl_set L f y) x"
  by (rule check_payload [OF same_params_set filter_bits_set])

lemma empty_like_spec: "\<exists>b. bloom_empty_like L t = Inr b \<and> same_params L t b"
proof -
  have len: "length (bl_to_bytes L (bl_clear L t)) = length (bl_to_bytes L t)" by (simp add: clear)
  have "same_params L t (bl_clear L t)" unfolding same_params_def len by (simp add: clear min_def)
  then show ?thesis by (simp add: bloom_empty_like_def map_bloom_err_def from_to)
qed

lemma empty_accumulator: "acc_like L t (accumulator_empty_like L t)"
  by (simp add: acc_like_def accumulator_empty_like_def Let_def)

text \<open>A mismatch of parameters is an error; otherwise the bits of the source are added.\<close>

lemma or_from_spec:
  assumes acc: "acc_like L t acc"
  shows "same_params L t f \<Longrightarrow> \<exists>acc'. or_from L acc f = Inr acc' \<and> acc_like L t acc' \<and>
      bits_le (ba_bits acc) (ba_bits acc') \<and> bits_le (filter_bits L f) (ba_bits acc')"
    and "\<not> same_params L t f \<Longrightarrow> \<exists>e. or_from L acc f = Inl e"
proof -
  have h: "length (ba_header acc) = header_len L t" using acc by (simp add: acc_like_def)
  show "\<exists>acc'. or_from L acc f = Inr acc' \<and> acc_like L t acc' \<and>
      bits_le (ba_bits acc) (ba_bits acc') \<and> bits_le (filter_bits L f) (ba_bits acc')" if same: "same_params L t f"
  proof -
    have len: "length (ba_bits acc) = length (filter_bits L f)"
      using acc same same_header [OF same] by (simp add: acc_like_def same_params_def filter_bits_def)
    have hl: "header_len L t \<le> length (bl_to_bytes L f)"
      using header_len_le [of f] same_header [OF same] by simp
    have run: "or_from L acc f = Inr (acc\<lparr>ba_bits := map2 byte_or (ba_bits acc) (filter_bits L f)\<rparr>)"
      unfolding or_from_def Let_def or_nonzero
      using acc same hl same_header [OF same] by (auto simp: acc_like_def same_params_def filter_bits_def min_absorb2)
    show ?thesis
      unfolding run using acc len bits_le_map2 [OF len] by (simp add: acc_like_def)
  qed
  show "\<exists>e. or_from L acc f = Inl e" if "\<not> same_params L t f"
    using that acc by (auto simp: or_from_def Let_def same_params_def acc_like_def)
qed

lemma finalize_spec:
  assumes acc: "acc_like L t acc"
  shows "\<exists>g. accumulator_finalize L acc = Inr g \<and> same_params L t g \<and> filter_bits L g = ba_bits acc"
proof -
  let ?bs = "ba_header acc @ ba_bits acc"
  have len: "length ?bs = length (bl_to_bytes L t)" and hdr: "take (header_len L t) ?bs = take (header_len L t) (bl_to_bytes L t)"
    using acc by (simp_all add: acc_like_def)
  obtain g where g: "bl_from_bytes L ?bs = Inr g" using from_ok [OF len hdr] by blast
  have bs: "bl_to_bytes L g = ?bs" by (rule to_from [OF g])
  have same: "same_params L t g" unfolding same_params_def bs using len hdr by simp
  moreover have "filter_bits L g = ba_bits acc"
    unfolding filter_bits_def same_header [OF same] bs using acc by (simp add: acc_like_def)
  ultimately show ?thesis using g by (simp add: accumulator_finalize_def map_bloom_err_def)
qed

lemma union_spec:
  assumes same: "same_params L f g"
  shows "\<exists>u. bloom_union L f g = Inr u \<and> same_params L f u \<and> (\<forall>x. bl_check L f x \<or> bl_check L g x \<longrightarrow> bl_check L u x)"
proof -
  let ?h = "header_len L f"
  let ?pay = "map2 byte_or (filter_bits L f) (filter_bits L g)"
  let ?bs = "take ?h (bl_to_bytes L f) @ ?pay"
  have plen: "length (filter_bits L f) = length (filter_bits L g)"
    using same same_header [OF same] by (simp add: filter_bits_def same_params_def)
  have len: "length ?bs = length (bl_to_bytes L f)" using same plen header_len_le [of f] same_header [OF same] by (simp add: filter_bits_def same_params_def)
  have hdr: "take ?h ?bs = take ?h (bl_to_bytes L f)" by (simp add: min_def)
  obtain u where u: "bl_from_bytes L ?bs = Inr u" using from_ok [OF len hdr] by blast
  have bs: "bl_to_bytes L u = ?bs" by (rule to_from [OF u])
  have fu: "same_params L f u" unfolding same_params_def bs using len hdr by simp
  have pay: "filter_bits L u = ?pay" unfolding filter_bits_def [of L u] same_header [OF fu] bs by (simp add: min_def)
  have gu: "same_params L g u" using same_params_trans [OF same_params_sym [OF same] fu] .
  have "bl_check L u x" if "bl_check L f x \<or> bl_check L g x" for x
    using that check_payload [OF fu, of x] check_payload [OF gu, of x] bits_le_map2 [OF plen] unfolding pay by blast
  moreover have "bloom_union L f g = Inr u"
    using same u same_header [OF same] header_len_le [of g] by (simp add: bloom_union_def Let_def same_params_def filter_bits_def map_bloom_err_def)
  ultimately show ?thesis using fu by blast
qed

end

text \<open>
  A filter with one hash function and a bitmap of bytes after a header byte: the promises can be
  kept.
\<close>

definition byte_slot :: "bytes \<Rightarrow> bytes \<Rightarrow> nat" where
  "byte_slot f x = Suc (sum_list (map of_char x) mod (length f - 1))"

definition byte_filter :: "bytes bloom_ops" where
  "byte_filter = \<lparr>
     bl_new_for_fp_rate = (\<lambda>items. Inr (CHR ''B'' # replicate (items + 1) (CHR 0x00))),
     bl_to_bytes = (\<lambda>f. f),
     bl_from_bytes = Inr,
     bl_len = (\<lambda>f. 8 * (length f - 1)),
     bl_set = (\<lambda>f x. f[byte_slot f x := byte_or (f ! byte_slot f x) (CHR 0x01)]),
     bl_check = (\<lambda>f x. length f \<le> 1 \<or> byte_le (CHR 0x01) (f ! byte_slot f x)),
     bl_clear = (\<lambda>f. take 1 f @ replicate (length f - 1) (CHR 0x00))\<rparr>"

lemma byte_filter_simps [simp]:
  "bl_to_bytes byte_filter f = f"
  "bl_from_bytes byte_filter f = Inr f"
  "bl_len byte_filter f = 8 * (length f - 1)"
  "bl_set byte_filter f x = f[byte_slot f x := byte_or (f ! byte_slot f x) (CHR 0x01)]"
  "bl_check byte_filter f x \<longleftrightarrow> length f \<le> 1 \<or> byte_le (CHR 0x01) (f ! byte_slot f x)"
  "bl_clear byte_filter f = take 1 f @ replicate (length f - 1) (CHR 0x00)"
  by (simp_all add: byte_filter_def)

lemma byte_filter_header [simp]: "header_len byte_filter f = min 1 (length f)"
  by (cases f) (simp_all add: header_len_def)

lemma byte_slot_less: "1 < length f \<Longrightarrow> byte_slot f x < length f"
  unfolding byte_slot_def using mod_less_divisor [of "length f - 1" "sum_list (map of_char x)"] by linarith

lemma set_slot_grows: "i < length f \<Longrightarrow> byte_le (f ! i) (f[s := byte_or (f ! s) c] ! i)"
  by (cases "i = s") simp_all

interpretation byte_filter: bloom_lib byte_filter
proof
  fix f g x bs :: bytes
  let ?h = "\<lambda>f. header_len byte_filter f"
  show "bl_from_bytes byte_filter (bl_to_bytes byte_filter f) = Inr f" by simp
  show "bl_to_bytes byte_filter f = bs" if "bl_from_bytes byte_filter bs = Inr f"
    using that by simp
  show "\<exists>g. bl_from_bytes byte_filter bs = Inr g" by simp
  show "bl_len byte_filter g = bl_len byte_filter f" if "length (bl_to_bytes byte_filter f) = length (bl_to_bytes byte_filter g)"
    using that by simp
  show "bl_to_bytes byte_filter (bl_clear byte_filter f) = take (?h f) (bl_to_bytes byte_filter f) @
      replicate (length (bl_to_bytes byte_filter f) - ?h f) (CHR 0x00)"
    unfolding byte_filter_header by (cases f) simp_all
  show "length (bl_to_bytes byte_filter (bl_set byte_filter f x)) = length (bl_to_bytes byte_filter f)"
    by simp
  show "take (?h f) (bl_to_bytes byte_filter (bl_set byte_filter f x)) = take (?h f) (bl_to_bytes byte_filter f)"
    unfolding byte_filter_header by (simp add: byte_slot_def min_def)
  show "bits_le (drop (?h f) (bl_to_bytes byte_filter f)) (drop (?h f) (bl_to_bytes byte_filter (bl_set byte_filter f x)))"
    by (auto simp: list_all2_conv_all_nth intro!: set_slot_grows)
  show "bl_check byte_filter (bl_set byte_filter f x) x"
  proof -
    have "byte_slot (f[i := c]) x = byte_slot f x" for i c by (simp add: byte_slot_def)
    then show ?thesis using byte_slot_less [of f x] by (cases "1 < length f") simp_all
  qed
  show "bl_check byte_filter g x" if same: "length (bl_to_bytes byte_filter f) = length (bl_to_bytes byte_filter g)"
    and le: "bits_le (drop (?h f) (bl_to_bytes byte_filter f)) (drop (?h f) (bl_to_bytes byte_filter g))"
    and hit: "bl_check byte_filter f x"
  proof (cases "length f \<le> 1")
    case False
    have len: "length g = length f" using same by simp
    have slot: "byte_slot g x = byte_slot f x" "byte_slot f x = Suc (byte_slot f x - 1)" "byte_slot f x - 1 < length f - 1"
      using byte_slot_less [of f x] False len by (auto simp: byte_slot_def)
    have bits: "bits_le (drop 1 f) (drop 1 g)" using le False unfolding byte_filter_header by simp
    then have "byte_le (drop 1 f ! (byte_slot f x - 1)) (drop 1 g ! (byte_slot f x - 1))"
      by (rule list_all2_nthD) (use slot(3) in simp)
    then have "byte_le (f ! byte_slot f x) (g ! byte_slot f x)"
      using slot False len by (simp add: nth_drop)
    moreover have "byte_le (CHR 0x01) (f ! byte_slot f x)" using hit False by simp
    ultimately show ?thesis using byte_le_trans slot(1) by simp
  qed (use same in simp)
  show "\<not> bl_check byte_filter (bl_clear byte_filter f) x" if "8 \<le> bl_len byte_filter f"
  proof -
    have long: "1 < length f" using that by simp
    have "length (bl_clear byte_filter f) = length f" using long by simp
    moreover have "bl_clear byte_filter f ! byte_slot f x = CHR 0x00"
      using byte_slot_less [OF long, of x] long by (simp add: nth_append byte_slot_def)
    moreover have "\<not> byte_le (CHR 0x01) (CHR 0x00)" by (simp add: byte_le_def)
    ultimately show ?thesis using long by (simp add: byte_slot_def)
  qed
qed

end
