(* ===== verification/Gc_Expiry.thy ===== *)
theory Gc_Expiry
  imports Repo_Hosted Gc_Bloom
begin

text \<open>
  The state of the garbage collector and its per-repository expiry
  (\<open>server/src/server/worker/blob_reaper/{gc_pass,repo_cleanup}.rs\<close>).

  A computation of the collector runs on a \<open>gc_run\<close>: the world, the in-memory \<open>GcState\<close>, and the
  number of times the cancellation token was polled, which also serves as the logical time that the
  clock \<open>ge_now\<close> is read at. The token answers \<open>ge_cancel\<close>, any function of that time. The map of
  orphan candidates is an association list with distinct keys.

  The tasks of a \<open>JoinSet\<close> run one after the other, in an order given by the environment for the
  shards; the first error ends the function. Progress reports, metrics and log events are left out.
\<close>

record gc_state =
  gs_orphan_candidates :: "((string \<times> string) \<times> u64) list"
  gs_pass :: u64

definition gc_state_new :: gc_state where
  "gc_state_new = \<lparr>gs_orphan_candidates = [], gs_pass = 0\<rparr>"

record ('s, 'b) gc_run =
  gr_world :: "('s, 'b) world"
  gr_polls :: nat
  gr_gc :: gc_state

text \<open>The JSON values of \<open>serde_json\<close>, which parses the manifests.\<close>

datatype json = JNull | JBool bool | JNumber string | JString string | JArray "json list" | JObject "(string \<times> json) list"

record ('s, 'b, 'f) gc_env =
  ge_kv :: "'s kv"
  ge_hasher :: hasher
  ge_codecs :: codecs
  ge_registry :: "string \<Rightarrow> 'b blob_store option"
  ge_bloom :: "'f bloom_ops"
  ge_now :: "nat \<Rightarrow> datetime"
  ge_cancel :: "nat \<Rightarrow> bool"
  ge_shards :: "nat list"
  ge_from_str :: "string \<Rightarrow> string + json"

definition on_world :: "(('s, 'b) world, 'a) io \<Rightarrow> (('s, 'b) gc_run, 'a) io" where
  "on_world m = (\<lambda>g. case m (gr_world g) of None \<Rightarrow> None | Some (r, w) \<Rightarrow> Some (r, g\<lparr>gr_world := w\<rparr>))"

definition check_cancel :: "('s, 'b, 'f) gc_env \<Rightarrow> string \<Rightarrow> (('s, 'b) gc_run, unit) io" where
  "check_cancel E msg = (\<lambda>g. Some (if ge_cancel E (gr_polls g) then Inl (Internal msg) else Inr (),
     g\<lparr>gr_polls := gr_polls g + 1\<rparr>))"

definition read_clock :: "('s, 'b, 'f) gc_env \<Rightarrow> (('s, 'b) gc_run, datetime) io" where
  "read_clock E = (\<lambda>g. Some (Inr (ge_now E (gr_polls g)), g))"

text \<open>
  The cursor loop over a partition that the expiry, the Docker collection, the artifact scan and the
  sweep of the blob records share: poll the token, scan a batch, run the body on its items, go on
  after its last key.
\<close>

partial_function (option) batch_loop ::
    "('s, 'b, 'f) gc_env \<Rightarrow> string \<Rightarrow> string \<Rightarrow> string \<Rightarrow>
     ((string \<times> bytes) list \<Rightarrow> 'a \<Rightarrow> (('s, 'b) gc_run, 'a) io) \<Rightarrow> string option \<Rightarrow> 'a \<Rightarrow>
     ('s, 'b) gc_run \<Rightarrow> ('a result \<times> ('s, 'b) gc_run) option" where
  "batch_loop E msg table pk body cursor acc g =
    (case check_cancel E msg g of
       None \<Rightarrow> None
     | Some (Inl e, g1) \<Rightarrow> Some (Inl e, g1)
     | Some (Inr _, g1) \<Rightarrow>
    (case on_world (on_kv (kv_scan_range (ge_kv E) table pk (case cursor of Some c \<Rightarrow> c | None \<Rightarrow> []) None 1000)) g1 of
       None \<Rightarrow> None
     | Some (Inl e, g2) \<Rightarrow> Some (Inl e, g2)
     | Some (Inr result, g2) \<Rightarrow>
    (case body (sr_items result) acc g2 of
       None \<Rightarrow> None
     | Some (Inl e, g3) \<Rightarrow> Some (Inl e, g3)
     | Some (Inr acc', g3) \<Rightarrow>
        if sr_done result then Some (Inr acc', g3)
        else (case last_opt (sr_items result) of
            None \<Rightarrow> Some (Inr acc', g3)
          | Some (last_sk, _) \<Rightarrow>
              batch_loop E msg table pk body (Some (last_sk @ [CHR 0x00])) acc' g3))))"

section \<open>Expiry of artifact records\<close>

datatype expiry_reason = MaxAge | Unaccessed

fun expiry_reason_as_str :: "expiry_reason \<Rightarrow> string" where
  "expiry_reason_as_str MaxAge = ''max_age''"
| "expiry_reason_as_str Unaccessed = ''max_unaccessed''"

definition is_bookkeeping_path :: "string \<Rightarrow> bool" where
  "is_bookkeeping_path path \<longleftrightarrow> starts_with path ''_manifests/'' \<or> starts_with path ''_blobs/'' \<or>
     contains_str path ''/_manifests/'' \<or> contains_str path ''/_blobs/''"

definition tree_last_accessed_at :: "hasher \<Rightarrow> 's kv \<Rightarrow> codecs \<Rightarrow> string \<Rightarrow> string \<Rightarrow> ('s, datetime option) io" where
  "tree_last_accessed_at H kv C repo path = (case tree_entry_key H repo path of (table, pk, sk) \<Rightarrow>
     io_bind (io_try (kv_get_versioned kv table pk sk)) (\<lambda>r. io_return (case r of
       Inr (Some (bytes, _)) \<Rightarrow>
         (case decode (cs_tree C) bytes of Inr entry \<Rightarrow> Some (te_last_accessed_at entry) | Inl _ \<Rightarrow> None)
     | _ \<Rightarrow> None)))"

definition record_expired ::
    "hasher \<Rightarrow> 's kv \<Rightarrow> codecs \<Rightarrow> string \<Rightarrow> string \<Rightarrow> artifact_record \<Rightarrow> bool \<Rightarrow> datetime option \<Rightarrow> datetime option \<Rightarrow>
     ('s, expiry_reason option) io" where
  "record_expired H kv C repo sk record is_docker max_age_cutoff max_unaccessed_cutoff =
    (if ar_internal record \<or> (is_docker \<and> is_bookkeeping_path sk) then io_return None
     else if (case max_age_cutoff of Some c \<Rightarrow> ar_created_at record < c | None \<Rightarrow> False) then io_return (Some MaxAge)
     else (case max_unaccessed_cutoff of
         None \<Rightarrow> io_return None
       | Some c \<Rightarrow> io_bind (tree_last_accessed_at H kv C repo sk) (\<lambda>accessed.
           io_return (if (case accessed of Some t \<Rightarrow> t | None \<Rightarrow> ar_last_accessed_at record) < c
             then Some Unaccessed else None))))"

text \<open>
  \<open>now - Duration::days(d as i64)\<close>: the days are cast to a signed number, and both the duration and
  the difference panic outside the range of the \<open>chrono\<close> types.
\<close>

definition days_before :: "datetime \<Rightarrow> u64 \<Rightarrow> datetime option" where
  "days_before now d =
    (let secs = sint d * 86400; t = now - secs * 1000000000
     in if \<bar>secs\<bar> \<le> 9223372036854775 \<and> - 8334601228800 * 1000000000 \<le> t \<and> t < 8210266876800 * 1000000000
        then Some t else None)"

text \<open>The cutoffs of a repository; \<open>None\<close> is a panic.\<close>

definition expiry_cutoffs :: "datetime \<Rightarrow> repo_config \<Rightarrow> (datetime option \<times> datetime option) option" where
  "expiry_cutoffs now repo =
    (let cutoff = (\<lambda>days. case days of None \<Rightarrow> Some None | Some d \<Rightarrow> map_option Some (days_before now d))
     in case (cutoff (rp_cleanup_max_age_days repo), cutoff (rp_cleanup_max_unaccessed_days repo)) of
          (Some age, Some unaccessed) \<Rightarrow> Some (age, unaccessed)
        | _ \<Rightarrow> None)"

definition io_panic :: "('s, 'a) io" where
  "io_panic = (\<lambda>_. None)"

text \<open>What one batch of records adds to the counts, and the paths that expired with their sizes.\<close>

record expiry_count =
  ec_scanned :: u64
  ec_bytes :: u64
  ec_expired :: u64

fun expire_items ::
    "('s, 'b, 'f) gc_env \<Rightarrow> string \<Rightarrow> bool \<Rightarrow> datetime option \<Rightarrow> datetime option \<Rightarrow> (string \<times> bytes) list \<Rightarrow>
     expiry_count \<times> (string \<times> u64) list \<Rightarrow> (('s, 'b) gc_run, expiry_count \<times> (string \<times> u64) list) io" where
  "expire_items E repo_name is_docker age unaccessed [] acc = io_return acc"
| "expire_items E repo_name is_docker age unaccessed ((sk, value) # items) (c, expired_entries) =
    (case decode (cs_artifact (ge_codecs E)) value of
       Inl _ \<Rightarrow> expire_items E repo_name is_docker age unaccessed items (c, expired_entries)
     | Inr record \<Rightarrow>
        io_bind (on_world (on_kv (record_expired (ge_hasher E) (ge_kv E) (ge_codecs E) repo_name sk record is_docker age unaccessed)))
          (\<lambda>expired. let c = c\<lparr>ec_bytes := ec_bytes c + ar_size record\<rparr> in
            expire_items E repo_name is_docker age unaccessed items
              (case expired of
                 Some _ \<Rightarrow> (c, expired_entries @ [(sk, ar_size record)])
               | None \<Rightarrow> (c\<lparr>ec_scanned := ec_scanned c + 1\<rparr>, expired_entries))))"

text \<open>Delete records and queue a directory delta for each.\<close>

definition delete_and_report ::
    "('s, 'b, 'f) gc_env \<Rightarrow> string \<Rightarrow> (string \<times> u64) list \<Rightarrow> (('s, 'b) gc_run, unit) io" where
  "delete_and_report E repo_name entries =
    io_bind (on_world (on_kv (delete_artifacts_paired_batch (ge_hasher E) (ge_kv E) repo_name (map fst entries)))) (\<lambda>_.
    io_for entries (\<lambda>(sk, sz). io_bind (read_clock E) (\<lambda>now.
      on_world (dir_changed (ge_hasher E) now repo_name sk (- 1) (- sz)))))"

definition expire_batch ::
    "('s, 'b, 'f) gc_env \<Rightarrow> string \<Rightarrow> bool \<Rightarrow> datetime option \<Rightarrow> datetime option \<Rightarrow> (string \<times> bytes) list \<Rightarrow>
     expiry_count \<Rightarrow> (('s, 'b) gc_run, expiry_count) io" where
  "expire_batch E repo_name is_docker age unaccessed items c =
    io_bind (expire_items E repo_name is_docker age unaccessed items (c, [])) (\<lambda>(c, expired_entries).
      if expired_entries = [] then io_return c
      else io_bind (delete_and_report E repo_name expired_entries) (\<lambda>_.
        io_return (c\<lparr>ec_expired := ec_expired c + of_nat (length expired_entries)\<rparr>)))"

definition no_expiry :: expiry_count where
  "no_expiry = \<lparr>ec_scanned = 0, ec_bytes = 0, ec_expired = 0\<rparr>"

definition add_expiry :: "expiry_count \<Rightarrow> expiry_count \<Rightarrow> expiry_count" where
  "add_expiry a b = \<lparr>ec_scanned = ec_scanned a + ec_scanned b, ec_bytes = ec_bytes a + ec_bytes b,
     ec_expired = ec_expired a + ec_expired b\<rparr>"

text \<open>Returns the scanned artifacts and bytes and the expired artifacts.\<close>

definition expire_repo_artifacts ::
    "('s, 'b, 'f) gc_env \<Rightarrow> repo_config \<Rightarrow> (('s, 'b) gc_run, expiry_count) io" where
  "expire_repo_artifacts E repo =
    io_bind (read_clock E) (\<lambda>now. case expiry_cutoffs now repo of
      None \<Rightarrow> io_panic
    | Some (age, unaccessed) \<Rightarrow>
        if age = None \<and> unaccessed = None then io_return no_expiry
        else io_bind (io_map (\<lambda>shard.
            batch_loop E ''Repo clean cancelled'' TABLE_ARTIFACTS (artifact_shard_pk (rp_name repo) shard)
              (expire_batch E (rp_name repo) (rp_format repo = DockerF) age unaccessed) None no_expiry) (ge_shards E))
          (\<lambda>shard_results. io_return (foldl add_expiry no_expiry shard_results)))"

section \<open>The loop over a partition\<close>

lemma wp_on_world [wp_simps]: "wp (on_world m) Q g \<longleftrightarrow> wp m (\<lambda>r w. Q r (g\<lparr>gr_world := w\<rparr>)) (gr_world g)"
  by (auto simp: wp_def on_world_def split: option.splits)

lemma wp_read_clock [wp_simps]: "wp (read_clock E) Q g \<longleftrightarrow> Q (Inr (ge_now E (gr_polls g))) g"
  by (simp add: wp_def read_clock_def)

lemma wp_check_cancel [wp_simps]: "wp (check_cancel E msg) Q g \<longleftrightarrow>
    Q (if ge_cancel E (gr_polls g) then Inl (Internal msg) else Inr ()) (g\<lparr>gr_polls := gr_polls g + 1\<rparr>)"
  by (simp add: wp_def check_cancel_def)

lemma wp_dir_changed [wp_simps]: "wp (dir_changed H now repo path c b) Q w \<longleftrightarrow>
    Q (Inr ()) (snd (the (dir_changed H now repo path c b w)))"
  by (simp add: wp_def dir_changed_def Let_def)

lemma dir_changed_keeps [simp]:
  "w_kv (snd (the (dir_changed H now repo path c b w))) = w_kv w"
  "w_blobs (snd (the (dir_changed H now repo path c b w))) = w_blobs w"
  by (simp_all add: dir_changed_def Let_def)

text \<open>What the loops over the key-value store leave alone.\<close>

definition run_frame :: "('s, 'b) gc_run \<Rightarrow> ('s, 'b) gc_run \<Rightarrow> bool" where
  "run_frame g g' \<longleftrightarrow> w_blobs (gr_world g') = w_blobs (gr_world g) \<and> gr_gc g' = gr_gc g"

lemma run_frame_refl [simp]: "run_frame g g"
  by (simp add: run_frame_def)

lemma run_frame_trans: "run_frame g g1 \<Longrightarrow> run_frame g1 g2 \<Longrightarrow> run_frame g g2"
  by (simp add: run_frame_def)

text \<open>
  The records a policy may remove, and those it must. A record whose policy also has a cutoff for
  unaccessed artifacts may go by the access time that its tree entry or the record holds.
\<close>

definition exempt :: "bool \<Rightarrow> string \<Rightarrow> artifact_record \<Rightarrow> bool" where
  "exempt is_docker sk record \<longleftrightarrow> ar_internal record \<or> is_docker \<and> is_bookkeeping_path sk"

definition too_old :: "datetime option \<Rightarrow> artifact_record \<Rightarrow> bool" where
  "too_old age record \<longleftrightarrow> (\<exists>c. age = Some c \<and> ar_created_at record < c)"

definition may_expire :: "bool \<Rightarrow> datetime option \<Rightarrow> datetime option \<Rightarrow> string \<Rightarrow> artifact_record \<Rightarrow> bool" where
  "may_expire is_docker age unaccessed sk record \<longleftrightarrow>
     \<not> exempt is_docker sk record \<and> (too_old age record \<or> unaccessed \<noteq> None)"

definition must_expire :: "bool \<Rightarrow> datetime option \<Rightarrow> string \<Rightarrow> artifact_record \<Rightarrow> bool" where
  "must_expire is_docker age sk record \<longleftrightarrow> \<not> exempt is_docker sk record \<and> too_old age record"

text \<open>The keys \<open>ks\<close> picked among the decodable items: all that must be, none that may not.\<close>

definition picked ::
    "'r codec \<Rightarrow> (string \<Rightarrow> 'r \<Rightarrow> bool) \<Rightarrow> (string \<Rightarrow> 'r \<Rightarrow> bool) \<Rightarrow> (string \<times> bytes) list \<Rightarrow> string set \<Rightarrow> bool" where
  "picked c may must items ks \<longleftrightarrow>
     (\<forall>k \<in> ks. \<exists>b r. (k, b) \<in> set items \<and> decode c b = Inr r \<and> may k r) \<and>
     (\<forall>k b r. (k, b) \<in> set items \<longrightarrow> decode c b = Inr r \<longrightarrow> must k r \<longrightarrow> k \<in> ks)"

lemma picked_Nil [simp]: "picked c may must [] ks \<longleftrightarrow> ks = {}"
  by (auto simp: picked_def)

lemma picked_skip: "picked c may must items ks \<Longrightarrow> decode c b = Inl e \<Longrightarrow> picked c may must ((k, b) # items) ks"
  by (fastforce simp: picked_def)

lemma picked_keep:
  "picked c may must items ks \<Longrightarrow> decode c b = Inr r \<Longrightarrow> \<not> must k r \<Longrightarrow> picked c may must ((k, b) # items) ks"
  by (fastforce simp: picked_def)

lemma picked_take:
  "picked c may must items ks \<Longrightarrow> decode c b = Inr r \<Longrightarrow> may k r \<Longrightarrow> picked c may must ((k, b) # items) (insert k ks)"
  by (fastforce simp: picked_def)

lemma picked_append:
  "picked c may must items ks \<Longrightarrow> picked c may must items' ks' \<Longrightarrow> picked c may must (items @ items') (ks \<union> ks')"
  unfolding picked_def by (simp only: set_append Un_iff) blast

text \<open>Every artifact of the repository is filed under the key of its path.\<close>

definition placed :: "hasher \<Rightarrow> string \<Rightarrow> kv_view \<Rightarrow> bool" where
  "placed H repo v \<longleftrightarrow> (\<forall>shard sk. v TABLE_ARTIFACTS (artifact_shard_pk repo shard) sk \<noteq> None \<longrightarrow>
     artifact_key H repo sk = (TABLE_ARTIFACTS, artifact_shard_pk repo shard, sk))"

text \<open>Only artifacts of one partition and tree entries differ.\<close>

definition artifact_frame :: "string \<Rightarrow> string set \<Rightarrow> kv_view \<Rightarrow> kv_view \<Rightarrow> bool" where
  "artifact_frame pk S v v' \<longleftrightarrow>
     view_frame ({(TABLE_ARTIFACTS, pk, sk) | sk. sk \<in> S} \<union> {(TABLE_DIR_ENTRIES, pk', sk) | pk' sk. True}) v v'"

lemma artifact_frame_refl [simp]: "artifact_frame pk S v v"
  by (simp add: artifact_frame_def)

lemma artifact_frame_trans: "artifact_frame pk S u v \<Longrightarrow> artifact_frame pk S v w \<Longrightarrow> artifact_frame pk S u w"
  unfolding artifact_frame_def by (rule view_frame_trans)

lemma artifact_frame_mono: "artifact_frame pk S v w \<Longrightarrow> S \<subseteq> T \<Longrightarrow> artifact_frame pk T v w"
  unfolding artifact_frame_def by (erule view_frame_mono) auto

lemma artifact_frameD:
  "artifact_frame pk S v v' \<Longrightarrow> sk \<notin> S \<Longrightarrow> v' TABLE_ARTIFACTS pk sk = v TABLE_ARTIFACTS pk sk"
  "artifact_frame pk S v v' \<Longrightarrow> pk' \<noteq> pk \<Longrightarrow> v' TABLE_ARTIFACTS pk' sk = v TABLE_ARTIFACTS pk' sk"
  "artifact_frame pk S v v' \<Longrightarrow> t \<noteq> TABLE_ARTIFACTS \<Longrightarrow> t \<noteq> TABLE_DIR_ENTRIES \<Longrightarrow> v' t pk' sk = v t pk' sk"
  by (auto simp: artifact_frame_def view_frame_def)

text \<open>
  The record at a key satisfies a condition; what a removal of such records from the partitions
  \<open>pks\<close> leaves.
\<close>

definition record_sat ::
    "artifact_record codec \<Rightarrow> (string \<Rightarrow> artifact_record \<Rightarrow> bool) \<Rightarrow> kv_view \<Rightarrow> string \<Rightarrow> string \<Rightarrow> bool" where
  "record_sat c F v pk sk \<longleftrightarrow> (\<exists>b n r. v TABLE_ARTIFACTS pk sk = Some (b, n) \<and> decode c b = Inr r \<and> F sk r)"

definition removals ::
    "artifact_record codec \<Rightarrow> (string \<Rightarrow> artifact_record \<Rightarrow> bool) \<Rightarrow> string set \<Rightarrow> kv_view \<Rightarrow> kv_view \<Rightarrow> bool" where
  "removals c F pks v v' \<longleftrightarrow> (\<forall>t pk sk. t \<noteq> TABLE_DIR_ENTRIES \<longrightarrow> v' t pk sk \<noteq> v t pk sk \<longrightarrow>
     t = TABLE_ARTIFACTS \<and> pk \<in> pks \<and> record_sat c F v pk sk)"

definition artifacts_shrink :: "kv_view \<Rightarrow> kv_view \<Rightarrow> bool" where
  "artifacts_shrink v v' \<longleftrightarrow> (\<forall>pk sk. v' TABLE_ARTIFACTS pk sk = v TABLE_ARTIFACTS pk sk \<or> v' TABLE_ARTIFACTS pk sk = None)"

lemma artifacts_shrink_refl [simp]: "artifacts_shrink v v"
  by (simp add: artifacts_shrink_def)

lemma artifacts_shrink_trans: "artifacts_shrink u v \<Longrightarrow> artifacts_shrink v w \<Longrightarrow> artifacts_shrink u w"
  unfolding artifacts_shrink_def by metis

lemma placed_shrink: "placed H repo v \<Longrightarrow> artifacts_shrink v v' \<Longrightarrow> placed H repo v'"
  unfolding placed_def artifacts_shrink_def by metis

lemma artifact_shard_pk_inject [simp]: "artifact_shard_pk a i = artifact_shard_pk b j \<longleftrightarrow> a = b \<and> i = j"
  by (simp add: artifact_shard_pk_def)

text \<open>What the policy did to the partitions \<open>pks\<close>.\<close>

definition policy_applied ::
    "artifact_record codec \<Rightarrow> bool \<Rightarrow> datetime option \<Rightarrow> datetime option \<Rightarrow> string set \<Rightarrow> kv_view \<Rightarrow> kv_view \<Rightarrow> bool" where
  "policy_applied c is_docker age unaccessed pks v v' \<longleftrightarrow>
     removals c (may_expire is_docker age unaccessed) pks v v' \<and> artifacts_shrink v v' \<and>
     (\<forall>pk \<in> pks. \<forall>sk. record_sat c (must_expire is_docker age) v pk sk \<longrightarrow> v' TABLE_ARTIFACTS pk sk = None)"

lemma policy_applied_empty [simp]: "policy_applied c is_docker age unaccessed {} v v"
  by (simp add: policy_applied_def removals_def)

lemma removals_agree:
  assumes "removals c F pks v v'" "pk \<notin> pks"
  shows "v' TABLE_ARTIFACTS pk sk = v TABLE_ARTIFACTS pk sk"
  using assms(1) [unfolded removals_def, rule_format, of TABLE_ARTIFACTS pk sk] assms(2) by auto

lemma record_sat_cong: "v' TABLE_ARTIFACTS pk sk = v TABLE_ARTIFACTS pk sk \<Longrightarrow> record_sat c F v' pk sk = record_sat c F v pk sk"
  by (simp add: record_sat_def)

lemma removals_mono: "removals c F pks v w \<Longrightarrow> pks \<subseteq> pks' \<Longrightarrow> removals c F pks' v w"
  unfolding removals_def by blast

lemma removals_step:
  assumes "removals c F pks u v" "removals c F {pk} v w" "pk \<notin> pks"
  shows "removals c F (insert pk pks) u w"
  unfolding removals_def
proof (intro allI impI)
  fix t pk' sk assume t: "t \<noteq> TABLE_DIR_ENTRIES" and w: "w t pk' sk \<noteq> u t pk' sk"
  show "t = TABLE_ARTIFACTS \<and> pk' \<in> insert pk pks \<and> record_sat c F u pk' sk"
  proof (cases "v t pk' sk = u t pk' sk")
    case True
    then have "t = TABLE_ARTIFACTS \<and> pk' = pk \<and> record_sat c F v pk sk"
      using w t assms(2) unfolding removals_def by (metis singletonD)
    then show ?thesis using record_sat_cong [of v pk sk u] True by auto
  next
    case False
    then show ?thesis using t assms(1) unfolding removals_def by blast
  qed
qed

lemma policy_applied_step:
  assumes "policy_applied c d age un pks u v" "policy_applied c d age un {pk} v w" "pk \<notin> pks"
  shows "policy_applied c d age un (insert pk pks) u w"
proof -
  have rem: "removals c (may_expire d age un) pks u v" "removals c (may_expire d age un) {pk} v w"
    using assms unfolding policy_applied_def by auto
  have sh: "artifacts_shrink u v" "artifacts_shrink v w" using assms unfolding policy_applied_def by auto
  have must: "w TABLE_ARTIFACTS pk' sk = None" if pk': "pk' \<in> insert pk pks" and sat: "record_sat c (must_expire d age) u pk' sk" for pk' sk
  proof (cases "pk' = pk")
    case True
    have "record_sat c (must_expire d age) v pk sk"
      using sat True record_sat_cong [where v = u and v' = v and pk = pk and sk = sk] removals_agree [OF rem(1) assms(3), of sk] by simp
    then show ?thesis using assms(2) True unfolding policy_applied_def by auto
  next
    case False
    then have "v TABLE_ARTIFACTS pk' sk = None" using assms(1) pk' sat unfolding policy_applied_def by blast
    then show ?thesis using sh(2) unfolding artifacts_shrink_def by metis
  qed
  show ?thesis
    unfolding policy_applied_def
    by (intro conjI ballI allI impI removals_step [OF rem assms(3)] artifacts_shrink_trans [OF sh]) (rule must)
qed

abbreviation repo_pks :: "string \<Rightarrow> string set" where
  "repo_pks repo \<equiv> artifact_shard_pk repo ` {..<NUM_SHARDS}"

lemma policy_applied_idle: "policy_applied c d None None pks v v"
  by (simp add: policy_applied_def removals_def record_sat_def must_expire_def too_old_def)

locale gc_kv = kv_store "ge_kv E" invar view for E :: "('s, 'b, 'f) gc_env" and invar view
begin

abbreviation run_ok :: "('s, 'b) gc_run \<Rightarrow> bool" where
  "run_ok g \<equiv> invar (w_kv (gr_world g))"

abbreviation kvv :: "('s, 'b) gc_run \<Rightarrow> kv_view" where
  "kvv g \<equiv> view (w_kv (gr_world g))"

text \<open>
  The rule for the loop. \<open>Inv seen acc v\<close> holds after the entries \<open>seen\<close>; a body leaves the entries
  of the partition outside its batch alone.
\<close>

lemma batch_loop_spec:
  fixes t pk :: string
  assumes pk: "pk_ok pk" and err: "\<And>seen acc v. Inv seen acc v \<Longrightarrow> Err v"
    and body: "\<And>seen items acc g. run_ok g \<Longrightarrow> Inv seen acc (kvv g) \<Longrightarrow>
      (\<forall>(sk, b) \<in> set items. \<exists>n. kvv g t pk sk = Some (b, n)) \<Longrightarrow>
      wp (body items acc) (\<lambda>r g'. run_ok g' \<and> run_frame g g' \<and> (case r of Inl e \<Rightarrow> Err (kvv g')
        | Inr acc' \<Rightarrow> Inv (seen @ items) acc' (kvv g') \<and>
            (\<forall>k. k \<notin> fst ` set items \<longrightarrow> kvv g' t pk k = kvv g t pk k))) g"
  shows "run_ok g \<Longrightarrow> Inv seen acc (kvv g) \<Longrightarrow>
    R = entries_where (kvv g t pk) (in_range (case cursor of Some c \<Rightarrow> c | None \<Rightarrow> []) None) \<Longrightarrow>
    wp (batch_loop E msg t pk body cursor acc) (\<lambda>r g'. run_ok g' \<and> run_frame g g' \<and>
      (case r of Inl e \<Rightarrow> Err (kvv g') | Inr acc' \<Rightarrow> Inv (seen @ R) acc' (kvv g'))) g"
proof (induction "length R" arbitrary: R cursor seen acc g rule: less_induct)
  case less
  let ?lo = "case cursor of Some c \<Rightarrow> c | None \<Rightarrow> []"
  define g1 where "g1 = g\<lparr>gr_polls := gr_polls g + 1\<rparr>"
  note unfold = batch_loop.simps [of E msg t pk body cursor acc g]
  show ?case
  proof (cases "ge_cancel E (gr_polls g)")
    case True
    then show ?thesis using less.prems err by (auto simp: wp_iff unfold check_cancel_def run_frame_def)
  next
    case False
    then have cc: "check_cancel E msg g = Some (Inr (), g1)" by (simp add: check_cancel_def g1_def)
    obtain r s1 where scan: "kv_scan_range (ge_kv E) t pk ?lo None 1000 (w_kv (gr_world g)) = Some (r, s1)"
      and r: "kv_read invar view (w_kv (gr_world g)) (\<lambda>res. sr_items res = take 1000 R \<and>
        (sr_done res \<longrightarrow> length R \<le> 1000)) r s1"
      using scan_range_spec [OF less.prems(1) pk, of t ?lo None 1000] less.prems(3) by (auto simp: wp_iff)
    define g2 where "g2 = g1\<lparr>gr_world := (gr_world g)\<lparr>w_kv := s1\<rparr>\<rparr>"
    have sc: "on_world (on_kv (kv_scan_range (ge_kv E) t pk ?lo None 1000)) g1 = Some (r, g2)"
      using scan by (simp add: on_world_def on_kv_def g2_def) (simp add: g1_def)
    have g2: "run_ok g2" "kvv g2 = kvv g" "run_frame g g2"
      using r by (auto simp: kv_read_def run_frame_def g2_def g1_def)
    show ?thesis
    proof (cases r)
      case (Inl e)
      then show ?thesis using less.prems(2) err g2 by (auto simp: wp_iff unfold cc sc)
    next
      case (Inr res)
      have items: "sr_items res = take 1000 R" and fin: "sr_done res \<Longrightarrow> length R \<le> 1000" using r Inr by auto
      have findom: "finite (dom (kvv g t pk))" by (rule view_finite [OF less.prems(1)])
      have present: "\<forall>(sk, b) \<in> set (take 1000 R). \<exists>n. kvv g2 t pk sk = Some (b, n)"
        unfolding g2(2) less.prems(3) using set_entries_where [OF findom] by (auto dest!: in_set_takeD)
      obtain r3 g3 where b: "body (take 1000 R) acc g2 = Some (r3, g3)"
        and g3: "run_ok g3" "run_frame g2 g3" and res3: "case r3 of Inl e \<Rightarrow> Err (kvv g3)
          | Inr acc' \<Rightarrow> Inv (seen @ take 1000 R) acc' (kvv g3) \<and>
            (\<forall>k. k \<notin> fst ` set (take 1000 R) \<longrightarrow> kvv g3 t pk k = kvv g t pk k)"
        using body [OF g2(1), of seen acc "take 1000 R", unfolded g2(2), OF less.prems(2) present [unfolded g2(2)]]
        by (auto simp: wp_iff)
      have fr: "run_frame g g3" by (rule run_frame_trans [OF g2(3) g3(2)])
      show ?thesis
      proof (cases r3)
        case (Inl e)
        then show ?thesis using res3 g3 fr Inr items b by (auto simp: wp_iff unfold cc sc)
      next
        case acc': (Inr acc')
        consider "sr_done res" | "R = []" "\<not> sr_done res" | "R \<noteq> []" "\<not> sr_done res" by blast
        then show ?thesis
        proof cases
          case 1
          then have "take 1000 R = R" using fin by simp
          then show ?thesis using 1 res3 g3 fr Inr acc' items b by (auto simp: wp_iff unfold cc sc)
        next
          case 2
          then show ?thesis using res3 g3 fr Inr acc' items b by (auto simp: wp_iff unfold cc sc)
        next
          case 3
          let ?l = "fst (last (take 1000 R))"
          have ne: "take 1000 R \<noteq> []" using 3 by simp
          have sorted: "sorted_wrt (<) (map fst (take 1000 R))"
            unfolding less.prems(3) take_map [symmetric] by (rule sorted_wrt_take) simp
          have "kvv g3 t pk k = kvv g t pk k" if "in_range (?l @ [CHR 0x00]) None k" for k
          proof -
            have "k \<notin> fst ` set (take 1000 R)"
            proof
              assume "k \<in> fst ` set (take 1000 R)"
              then obtain b where "(k, b) \<in> set (take 1000 R)" by auto
              then have "k \<le> ?l" by (rule sorted_fst_le_last [OF sorted])
              then show False using that by (simp add: in_range_def snoc_NUL_le)
            qed
            then show ?thesis using res3 acc' by simp
          qed
          then have "{k \<in> dom (kvv g3 t pk). in_range (?l @ [CHR 0x00]) None k} = {k \<in> dom (kvv g t pk). in_range (?l @ [CHR 0x00]) None k}"
            by (auto simp: dom_def)
          then have "entries_where (kvv g3 t pk) (in_range (?l @ [CHR 0x00]) None) = entries_where (kvv g t pk) (in_range (?l @ [CHR 0x00]) None)"
            unfolding entries_where_def using view_finite [OF less.prems(1)]
            by (intro map_cong) (auto simp: \<open>\<And>k. in_range (?l @ [CHR 0x00]) None k \<Longrightarrow> kvv g3 t pk k = kvv g t pk k\<close>)
          also have "\<dots> = drop 1000 R"
            unfolding less.prems(3) by (rule entries_after_batch [OF findom]) (use ne less.prems(3) in simp)
          finally have rest: "drop 1000 R = entries_where (kvv g3 t pk) (in_range (case Some (?l @ [CHR 0x00]) of Some c \<Rightarrow> c | None \<Rightarrow> []) None)"
            by simp
          have len: "length (drop 1000 R) < length R" using 3 by (cases R) auto
          have inv3: "Inv (seen @ take 1000 R) acc' (kvv g3)" using res3 acc' by simp
          have whole: "(seen @ take 1000 R) @ drop 1000 R = seen @ R" by simp
          obtain lv where "last_opt (take 1000 R) = Some (?l, lv)"
            using ne by (metis last_opt_Some prod.collapse)
          then have run: "batch_loop E msg t pk body cursor acc g = batch_loop E msg t pk body (Some (?l @ [CHR 0x00])) acc' g3"
            using 3 Inr acc' items b by (simp add: unfold cc sc)
          show ?thesis
            unfolding wp_def run
            using less.hyps [OF len g3(1) inv3 rest] unfolding wp_def whole
            by (auto split: option.splits intro: run_frame_trans [OF fr])
        qed
      qed
    qed
  qed
qed

text \<open>Expiry reads the tree entry and decides; it changes nothing.\<close>

lemma record_expired_spec:
  assumes inv: "invar s" and repo: "pk_ok repo"
  shows "wp (record_expired H (ge_kv E) C repo sk record is_docker age unaccessed) (\<lambda>r s'. invar s' \<and> view s' = view s \<and>
    (\<exists>x. r = Inr x \<and> (x \<noteq> None \<longrightarrow> may_expire is_docker age unaccessed sk record) \<and>
      (must_expire is_docker age sk record \<longrightarrow> x \<noteq> None))) s"
proof -
  have tree: "wp (tree_last_accessed_at H (ge_kv E) C repo sk) (\<lambda>r s'. invar s' \<and> view s' = view s \<and> (\<exists>t. r = Inr t)) s"
  proof -
    obtain t pk k where key: "tree_entry_key H repo sk = (t, pk, k)" by (cases "tree_entry_key H repo sk")
    have pk: "pk_ok pk" using key repo by (auto simp: tree_entry_key_def Let_def)
    show ?thesis
      unfolding tree_last_accessed_at_def key prod.case
      by (rule wp_try_bindI [OF get_versioned_spec [OF inv pk]]) (simp add: kv_read_def)
  qed
  show ?thesis
  proof (cases "\<not> exempt is_docker sk record \<and> \<not> too_old age record \<and> unaccessed \<noteq> None")
    case True
    then obtain c where c: "unaccessed = Some c" by auto
    have run: "record_expired H (ge_kv E) C repo sk record is_docker age unaccessed =
      io_bind (tree_last_accessed_at H (ge_kv E) C repo sk) (\<lambda>accessed.
           io_return (if (case accessed of Some t \<Rightarrow> t | None \<Rightarrow> ar_last_accessed_at record) < c
             then Some Unaccessed else None))"
      using True c by (auto simp: record_expired_def exempt_def too_old_def split: option.splits)
    show ?thesis
      unfolding run by (rule wp_bindI [OF tree]) (use True c in \<open>auto simp: may_expire_def must_expire_def\<close>)
  next
    case False
    then show ?thesis
      using inv by (auto simp: record_expired_def exempt_def too_old_def may_expire_def must_expire_def split: option.splits)
  qed
qed

lemma expire_items_spec:
  assumes repo: "pk_ok repo"
  shows "run_ok g \<Longrightarrow> wp (expire_items E repo is_docker age unaccessed items (c, es)) (\<lambda>r g'.
    run_ok g' \<and> run_frame g g' \<and> kvv g' = kvv g \<and> (\<exists>c' new. r = Inr (c', es @ new) \<and>
      picked (cs_artifact (ge_codecs E)) (may_expire is_docker age unaccessed) (must_expire is_docker age) items (fst ` set new))) g"
proof (induction items arbitrary: c es g)
  case (Cons item items)
  obtain sk b0 where item: "item = (sk, b0)" by (cases item)
  show ?case
  proof (cases "decode (cs_artifact (ge_codecs E)) b0")
    case (Inl e)
    then show ?thesis
      using Cons.IH [OF Cons.prems, of c es] picked_skip unfolding item by (auto elim!: wp_mono) blast
  next
    case (Inr rec)
    show ?thesis
      unfolding item expire_items.simps Inr sum.case
    proof (rule wp_bindI [where P = "\<lambda>r g'. run_ok g' \<and> run_frame g g' \<and> kvv g' = kvv g \<and>
        (\<exists>x. r = Inr x \<and> (x \<noteq> None \<longrightarrow> may_expire is_docker age unaccessed sk rec) \<and>
          (must_expire is_docker age sk rec \<longrightarrow> x \<noteq> None))"], goal_cases)
      case 1
      show ?case
        unfolding wp_on_world wp_on_kv
        by (rule wp_mono [OF record_expired_spec [OF Cons.prems repo]]) (auto simp: run_frame_def)
    next
      case (3 x g1)
      then have g1: "run_ok g1" "run_frame g g1" "kvv g1 = kvv g"
        and x: "x \<noteq> None \<Longrightarrow> may_expire is_docker age unaccessed sk rec" "must_expire is_docker age sk rec \<Longrightarrow> x \<noteq> None"
        by auto
      define c1 where "c1 = c\<lparr>ec_bytes := ec_bytes c + ar_size rec\<rparr>"
      define c2 where "c2 = (case x of Some _ \<Rightarrow> c1 | None \<Rightarrow> c1\<lparr>ec_scanned := ec_scanned c1 + 1\<rparr>)"
      define add where "add = (case x of Some _ \<Rightarrow> [(sk, ar_size rec)] | None \<Rightarrow> [])"
      have acc: "(case x of Some _ \<Rightarrow> (c1, es @ [(sk, ar_size rec)]) | None \<Rightarrow> (c1\<lparr>ec_scanned := ec_scanned c1 + 1\<rparr>, es)) = (c2, es @ add)"
        by (simp add: c2_def add_def split: option.splits)
      show ?case
        unfolding Let_def c1_def [symmetric] acc
      proof (rule wp_mono [OF Cons.IH [OF g1(1), of c2 "es @ add"]], goal_cases)
        case (1 r g2)
        then obtain c' new where r: "r = Inr (c', (es @ add) @ new)"
          and new: "picked (cs_artifact (ge_codecs E)) (may_expire is_docker age unaccessed) (must_expire is_docker age) items (fst ` set new)"
          by blast
        have "picked (cs_artifact (ge_codecs E)) (may_expire is_docker age unaccessed) (must_expire is_docker age)
            ((sk, b0) # items) (fst ` set (add @ new))"
          using x picked_keep [OF new Inr, of sk] picked_take [OF new Inr, of sk] by (cases x) (auto simp: add_def)
        moreover have "r = Inr (c', es @ (add @ new))" using r by simp
        ultimately show ?case using 1 g1 run_frame_trans [OF g1(2)] by (auto simp: item)
      qed
    qed auto
  qed
qed auto

text \<open>Removing a list of artifacts, and a list of artifacts of one partition.\<close>

lemma delete_and_report_keys:
  assumes g: "run_ok g" and repo: "pk_ok repo"
  shows "wp (delete_and_report E repo es) (\<lambda>r g'. run_ok g' \<and> run_frame g g' \<and>
    view_frame (artifact_key (ge_hasher E) repo ` fst ` set es \<union> {(TABLE_DIR_ENTRIES, pk', sk) | pk' sk. True}) (kvv g) (kvv g') \<and>
    (r = Inr () \<longrightarrow> (\<forall>k \<in> fst ` set es. art_at (ge_hasher E) repo k (kvv g') = None))) g"
proof -
  let ?H = "ge_hasher E" and ?D = "{(TABLE_DIR_ENTRIES, pk', sk) | pk' sk. True}"
  have tree: "tree_entry_key ?H repo ` S \<subseteq> ?D" for S
    by (auto simp: tree_entry_key_def Let_def)
  show ?thesis
    unfolding delete_and_report_def
  proof (rule wp_bindI [where P = "\<lambda>r g'. run_ok g' \<and> run_frame g g' \<and>
      view_frame (artifact_key ?H repo ` fst ` set es \<union> ?D) (kvv g) (kvv g') \<and>
      (r = Inr () \<longrightarrow> (\<forall>k \<in> fst ` set es. art_at ?H repo k (kvv g') = None))"], goal_cases)
    case 1
    show ?case
      unfolding wp_on_world wp_on_kv
    proof (rule wp_mono [OF delete_artifacts_paired_batch_spec [OF g repo]], goal_cases)
      case (1 r s')
      have fr: "view_frame (artifact_key ?H repo ` fst ` set es \<union> ?D) (kvv g) (view s')"
      proof (cases r)
        case (Inl e)
        then have "view_frame (artifact_key ?H repo ` fst ` set es) (kvv g) (view s')" using 1 by simp
        then show ?thesis by (rule view_frame_mono) auto
      next
        case (Inr u)
        then have "view_frame (artifact_key ?H repo ` fst ` set es \<union> tree_entry_key ?H repo ` fst ` set es) (kvv g) (view s')"
          using 1 by simp
        then show ?thesis by (rule view_frame_mono) (use tree in blast)
      qed
      have "art_at ?H repo k (view s') = None" if "r = Inr ()" "k \<in> fst ` set es" for k
        using 1 that by auto
      with fr 1 show ?case by (simp add: run_frame_def)
    qed
  next
    case (3 u g1)
    show ?case
    proof (rule wp_mono [OF wp_for [where I = "\<lambda>_ g'. run_ok g' \<and> run_frame g g' \<and> kvv g' = kvv g1" and ?E = "\<lambda>_ _. False"]], goal_cases)
      case (2 dn x rest g2)
      then show ?case by (cases x) (auto simp: wp_simps run_frame_def)
    next
      case (3 r g2)
      then show ?case using \<open>run_ok g1 \<and> _\<close> by (cases r) auto
    qed (use 3 in auto)
  qed auto
qed

lemma delete_and_report_spec:
  assumes g: "run_ok g" and repo: "pk_ok repo"
    and keys: "\<forall>k \<in> fst ` set es. artifact_key (ge_hasher E) repo k = (TABLE_ARTIFACTS, pk, k)"
  shows "wp (delete_and_report E repo es) (\<lambda>r g'. run_ok g' \<and> run_frame g g' \<and>
    artifact_frame pk (fst ` set es) (kvv g) (kvv g') \<and>
    (r = Inr () \<longrightarrow> (\<forall>k \<in> fst ` set es. kvv g' TABLE_ARTIFACTS pk k = None))) g"
proof (rule wp_mono [OF delete_and_report_keys [OF g repo]], goal_cases)
  case (1 r g')
  have art: "artifact_key (ge_hasher E) repo ` fst ` set es = {(TABLE_ARTIFACTS, pk, k) | k. k \<in> fst ` set es}"
    using keys by force
  have gone: "kvv g' TABLE_ARTIFACTS pk k = None" if r: "r = Inr ()" and k: "k \<in> fst ` set es" for k
  proof -
    have "art_at (ge_hasher E) repo k (kvv g') = None" using 1 r k by auto
    moreover have "sharded_pk (ge_hasher E) repo (normalize_path k) = pk \<and> normalize_path k = k"
      using keys [rule_format, OF k] unfolding artifact_key_def Let_def prod.inject by blast
    ultimately show ?thesis by auto
  qed
  have "artifact_frame pk (fst ` set es) (kvv g) (kvv g')"
    unfolding artifact_frame_def art [symmetric] using 1 by (elim conjE)
  then show ?case using 1 gone by (intro conjI impI ballI) (elim conjE, assumption | simp)+
qed

text \<open>Expiring a partition, and a repository.\<close>

lemma expire_partition_spec:
  fixes repo :: string and shard :: nat
  defines "pk \<equiv> artifact_shard_pk repo shard"
  assumes g: "run_ok g" and repo: "pk_ok repo" and pl: "placed (ge_hasher E) repo (kvv g)"
  shows "wp (batch_loop E msg TABLE_ARTIFACTS pk (expire_batch E repo d age un) None c) (\<lambda>r g'. run_ok g' \<and> run_frame g g' \<and>
    removals (cs_artifact (ge_codecs E)) (may_expire d age un) {pk} (kvv g) (kvv g') \<and>
    (\<forall>c'. r = Inr c' \<longrightarrow> policy_applied (cs_artifact (ge_codecs E)) d age un {pk} (kvv g) (kvv g'))) g"
proof -
  let ?C = "cs_artifact (ge_codecs E)" and ?v0 = "kvv g"
  define Inv where "Inv seen (c' :: expiry_count) v \<longleftrightarrow> (\<exists>ks. picked ?C (may_expire d age un) (must_expire d age) seen ks \<and>
      (\<forall>k \<in> ks. record_sat ?C (may_expire d age un) ?v0 pk k) \<and> artifact_frame pk ks ?v0 v \<and>
      (\<forall>k \<in> ks. v TABLE_ARTIFACTS pk k = None))" for seen c' v
  define Err where "Err v \<longleftrightarrow> (\<exists>ks. (\<forall>k \<in> ks. record_sat ?C (may_expire d age un) ?v0 pk k) \<and> artifact_frame pk ks ?v0 v)" for v
  have pkok: "pk_ok pk" using repo by (simp add: pk_def artifact_shard_pk_def)
  have err: "Err v" if "Inv seen c' v" for seen c' v using that unfolding Inv_def Err_def by blast
  have step: "wp (expire_batch E repo d age un items c1) (\<lambda>r g'. run_ok g' \<and> run_frame g1 g' \<and>
      (case r of Inl e \<Rightarrow> Err (kvv g') | Inr c' \<Rightarrow> Inv (seen @ items) c' (kvv g') \<and>
        (\<forall>k. k \<notin> fst ` set items \<longrightarrow> kvv g' TABLE_ARTIFACTS pk k = kvv g1 TABLE_ARTIFACTS pk k))) g1"
    if g1: "run_ok g1" and inv: "Inv seen c1 (kvv g1)"
      and present: "\<forall>(sk, b) \<in> set items. \<exists>n. kvv g1 TABLE_ARTIFACTS pk sk = Some (b, n)" for seen items c1 g1
  proof -
    obtain ks where ks: "picked ?C (may_expire d age un) (must_expire d age) seen ks"
      "\<forall>k \<in> ks. record_sat ?C (may_expire d age un) ?v0 pk k" "artifact_frame pk ks ?v0 (kvv g1)"
      "\<forall>k \<in> ks. kvv g1 TABLE_ARTIFACTS pk k = None"
      using inv unfolding Inv_def by blast
    have old: "?v0 TABLE_ARTIFACTS pk sk = Some (b, n)" if "kvv g1 TABLE_ARTIFACTS pk sk = Some (b, n)" for sk b n
      using that ks(3,4) artifact_frameD(1) [OF ks(3), of sk] by (cases "sk \<in> ks") auto
    show ?thesis
      unfolding expire_batch_def
    proof (rule wp_bindI [OF expire_items_spec [OF repo g1]], goal_cases)
      case (2 x g2)
      then obtain c2 new where x: "x = (c2, new)" and g2: "run_ok g2" "run_frame g1 g2" "kvv g2 = kvv g1"
        and new: "picked ?C (may_expire d age un) (must_expire d age) items (fst ` set new)" by auto
      have sat: "record_sat ?C (may_expire d age un) ?v0 pk k" and filed: "artifact_key (ge_hasher E) repo k = (TABLE_ARTIFACTS, pk, k)"
        and item: "k \<in> fst ` set items"
        if k: "k \<in> fst ` set new" for k
      proof -
        obtain b r where br: "(k, b) \<in> set items" "decode ?C b = Inr r" "may_expire d age un k r"
          using new k unfolding picked_def by blast
        obtain n where "kvv g1 TABLE_ARTIFACTS pk k = Some (b, n)" using present br(1) by blast
        then have v0: "?v0 TABLE_ARTIFACTS pk k = Some (b, n)" by (rule old)
        show "record_sat ?C (may_expire d age un) ?v0 pk k" using v0 br unfolding record_sat_def by blast
        show "artifact_key (ge_hasher E) repo k = (TABLE_ARTIFACTS, pk, k)"
          using pl v0 unfolding placed_def pk_def by (metis option.distinct(1))
        show "k \<in> fst ` set items" using br(1) by force
      qed
      let ?ks = "ks \<union> fst ` set new"
      have whole: "picked ?C (may_expire d age un) (must_expire d age) (seen @ items) ?ks"
        "\<forall>k \<in> ?ks. record_sat ?C (may_expire d age un) ?v0 pk k"
        using picked_append [OF ks(1) new] ks(2) sat by auto
      have after: "run_frame g1 g' \<and> artifact_frame pk ?ks ?v0 (kvv g')"
        if "run_frame g2 g'" "artifact_frame pk (fst ` set new) (kvv g2) (kvv g')" for g'
        using that run_frame_trans [OF g2(2)] g2(3)
          artifact_frame_trans [OF artifact_frame_mono [OF ks(3)] artifact_frame_mono, of ?ks "fst ` set new" "kvv g'"] by auto
      show ?case
      proof (cases "new = []")
        case True
        then have "Inv (seen @ items) c2 (kvv g2)"
          using whole ks(3,4) g2(3) unfolding Inv_def by (intro exI [of _ ks]) auto
        then show ?thesis using True x g2 by simp
      next
        case False
        show ?thesis
          unfolding x prod.case if_not_P [OF False]
        proof (rule wp_bindI [OF delete_and_report_spec [OF g2(1) repo, of new pk]], goal_cases)
          case 1 then show ?case using filed by blast
        next
          case (2 e g3)
          then show ?case using after [of g3] whole(2) unfolding Err_def by (auto intro!: exI [of _ ?ks])
        next
          case (3 u g3)
          then have g3: "run_ok g3" "run_frame g2 g3" "artifact_frame pk (fst ` set new) (kvv g2) (kvv g3)"
            and gone: "\<forall>k \<in> fst ` set new. kvv g3 TABLE_ARTIFACTS pk k = None" by auto
          have "kvv g3 TABLE_ARTIFACTS pk k = None" if "k \<in> ks" for k
            using gone that ks(4) artifact_frameD(1) [OF g3(3), of k] g2(3) by (cases "k \<in> fst ` set new") auto
          then have "Inv (seen @ items) c' (kvv g3)" for c'
            unfolding Inv_def using whole after [OF g3(2,3)] gone by (intro exI [of _ ?ks]) auto
          moreover have "kvv g3 TABLE_ARTIFACTS pk k = kvv g1 TABLE_ARTIFACTS pk k" if "k \<notin> fst ` set items" for k
            using artifact_frameD(1) [OF g3(3), of k] that item g2(3) by metis
          ultimately show ?case using g3(1) after [OF g3(2,3)] by simp
        qed
      qed
    qed simp
  qed
  have start: "Inv [] c ?v0" unfolding Inv_def by (intro exI [of _ "{}"]) simp
  define R where "R = entries_where (?v0 TABLE_ARTIFACTS pk) (in_range [] None)"
  have R': "R = entries_where (?v0 TABLE_ARTIFACTS pk) (in_range (case None of Some c \<Rightarrow> c | None \<Rightarrow> []) None)"
    by (simp add: R_def)
  have loop: "wp (batch_loop E msg TABLE_ARTIFACTS pk (expire_batch E repo d age un) None c) (\<lambda>r g'. run_ok g' \<and> run_frame g g' \<and>
      (case r of Inl e \<Rightarrow> Err (kvv g') | Inr acc' \<Rightarrow> Inv ([] @ R) acc' (kvv g'))) g"
    by (rule batch_loop_spec [where Inv = Inv and Err = Err, OF pkok _ _ g start R']) (fact err, fact step)
  show ?thesis
  proof (rule wp_mono [OF loop], goal_cases)
    case (1 r g')
    have R: "(k, b) \<in> set R \<longleftrightarrow> (\<exists>n. ?v0 TABLE_ARTIFACTS pk k = Some (b, n))" for k b
      unfolding R_def by (simp add: set_entries_where [OF view_finite [OF g]] in_range_def)
    have rem: "removals ?C (may_expire d age un) {pk} ?v0 v"
      if "\<forall>k \<in> ks. record_sat ?C (may_expire d age un) ?v0 pk k" "artifact_frame pk ks ?v0 v" for ks v
      unfolding removals_def using that artifact_frameD [OF that(2)] by (metis singletonI)
    have "Err (kvv g')" using 1 err by (cases r) auto
    then have "removals ?C (may_expire d age un) {pk} ?v0 (kvv g')" using rem unfolding Err_def by blast
    moreover have "policy_applied ?C d age un {pk} ?v0 (kvv g')" if r: "r = Inr c'" for c'
    proof -
      obtain ks where ks: "picked ?C (may_expire d age un) (must_expire d age) R ks"
        "\<forall>k \<in> ks. record_sat ?C (may_expire d age un) ?v0 pk k" "artifact_frame pk ks ?v0 (kvv g')"
        "\<forall>k \<in> ks. kvv g' TABLE_ARTIFACTS pk k = None"
        using 1 r unfolding Inv_def by auto
      have "artifacts_shrink ?v0 (kvv g')"
        unfolding artifacts_shrink_def using ks(4) artifact_frameD(1,2) [OF ks(3)] by metis
      moreover have "kvv g' TABLE_ARTIFACTS pk sk = None" if "record_sat ?C (must_expire d age) ?v0 pk sk" for sk
        using that ks(1,4) R unfolding picked_def record_sat_def by blast
      ultimately show ?thesis unfolding policy_applied_def using rem [OF ks(2,3)] by simp
    qed
    ultimately show ?case using 1 by simp
  qed
qed

lemma expire_repo_artifacts_spec:
  assumes g: "run_ok g" and repo: "pk_ok (rp_name repo)" and pl: "placed (ge_hasher E) (rp_name repo) (kvv g)"
    and order: "shard_order (ge_shards E)" and cut: "expiry_cutoffs (ge_now E (gr_polls g)) repo = Some (age, un)"
  shows "wp (expire_repo_artifacts E repo) (\<lambda>r g'. run_ok g' \<and> run_frame g g' \<and>
    removals (cs_artifact (ge_codecs E)) (may_expire (rp_format repo = DockerF) age un) (repo_pks (rp_name repo)) (kvv g) (kvv g') \<and>
    (\<forall>c. r = Inr c \<longrightarrow> policy_applied (cs_artifact (ge_codecs E)) (rp_format repo = DockerF) age un
       (repo_pks (rp_name repo)) (kvv g) (kvv g'))) g"
proof (cases "age = None \<and> un = None")
  case True
  then show ?thesis
    using g cut by (simp add: expire_repo_artifacts_def wp_simps policy_applied_idle) (simp add: removals_def)
next
  case False
  let ?C = "cs_artifact (ge_codecs E)" and ?d = "rp_format repo = DockerF" and ?pk = "artifact_shard_pk (rp_name repo)"
  have loop: "wp (io_map (\<lambda>shard. batch_loop E ''Repo clean cancelled'' TABLE_ARTIFACTS (?pk shard)
      (expire_batch E (rp_name repo) ?d age un) None no_expiry) (ge_shards E))
    (\<lambda>r g'. case r of
       Inl e \<Rightarrow> run_ok g' \<and> run_frame g g' \<and> removals ?C (may_expire ?d age un) (repo_pks (rp_name repo)) (kvv g) (kvv g')
     | Inr ys \<Rightarrow> run_ok g' \<and> run_frame g g' \<and> policy_applied ?C ?d age un (?pk ` set (ge_shards E)) (kvv g) (kvv g')) g"
  proof (rule wp_map [where I = "\<lambda>dn ys g'. run_ok g' \<and> run_frame g g' \<and> policy_applied ?C ?d age un (?pk ` set dn) (kvv g) (kvv g')"],
      goal_cases)
    case (2 dn ys shard rest g1)
    then have g1: "run_ok g1" "run_frame g g1" "policy_applied ?C ?d age un (?pk ` set dn) (kvv g) (kvv g1)" by auto
    have sh: "artifacts_shrink (kvv g) (kvv g1)" and rem: "removals ?C (may_expire ?d age un) (?pk ` set dn) (kvv g) (kvv g1)"
      using g1(3) unfolding policy_applied_def by auto
    have new: "?pk shard \<notin> ?pk ` set dn" using order 2(1) unfolding shard_order_def by auto
    have bound: "insert (?pk shard) (?pk ` set dn) \<subseteq> repo_pks (rp_name repo)"
      using order 2(1) unfolding shard_order_def by auto
    show ?case
    proof (rule wp_mono [OF expire_partition_spec [OF g1(1) repo placed_shrink [OF pl sh]]], goal_cases)
      case (1 r g2)
      then show ?case
        using run_frame_trans [OF g1(2)] policy_applied_step [OF g1(3) _ new]
          removals_mono [OF removals_step [OF rem _ new] bound] by (cases r) auto
    qed
  qed (use g in simp)
  have all: "?pk ` set (ge_shards E) = repo_pks (rp_name repo)" using order by (simp add: shard_order_def)
  show ?thesis
    unfolding expire_repo_artifacts_def wp_bind [of "read_clock E"] wp_read_clock sum.case cut option.case prod.case if_not_P [OF False]
    by (rule wp_bindI [OF loop]) (auto simp: all policy_applied_def)
qed

text \<open>Without a cutoff for access times the outcome is determined.\<close>

lemma policy_applied_exact:
  assumes "policy_applied c d age None pks v v'" "pk \<in> pks"
  shows "v' TABLE_ARTIFACTS pk sk = (if record_sat c (must_expire d age) v pk sk then None else v TABLE_ARTIFACTS pk sk)"
proof (cases "record_sat c (must_expire d age) v pk sk")
  case True
  then show ?thesis using assms unfolding policy_applied_def by simp
next
  case False
  have "may_expire d age None = must_expire d age" by (simp add: fun_eq_iff may_expire_def must_expire_def)
  then have "removals c (must_expire d age) pks v v'" using assms(1) unfolding policy_applied_def by simp
  from this [unfolded removals_def, rule_format, of TABLE_ARTIFACTS pk sk] False show ?thesis by auto
qed

end

end
