(* ===== verification/Gc_Docker.thy ===== *)
theory Gc_Docker
  imports Gc_Expiry Store_Registry
begin

text \<open>
  The Docker collection (\<open>server/src/server/worker/blob_reaper/docker_gc.rs\<close>) and the expiry of one
  repository with it (\<open>clean_repo_artifacts\<close> in \<open>repo_cleanup.rs\<close>). A layer's record is removed when no
  manifest that could be read refers to it, a manifest's when no tag reaches it.
\<close>

definition DOCKER_GC_GRACE_SECS :: nat where
  "DOCKER_GC_GRACE_SECS = 3600"

section \<open>Manifests\<close>

text \<open>\<open>serde_json::Value\<close> accessors.\<close>

fun json_get :: "string \<Rightarrow> json \<Rightarrow> json option" where
  "json_get key (JObject kvs) = map_of kvs key"
| "json_get key _ = None"

fun json_as_str :: "json \<Rightarrow> string option" where
  "json_as_str (JString s) = Some s"
| "json_as_str _ = None"

fun json_as_array :: "json \<Rightarrow> json list option" where
  "json_as_array (JArray xs) = Some xs"
| "json_as_array _ = None"

definition digest_field :: "json \<Rightarrow> string option" where
  "digest_field j = Option.bind (json_get ''digest'' j) json_as_str"

definition extract_manifest_refs :: "(string \<Rightarrow> string + json) \<Rightarrow> string \<Rightarrow> string list" where
  "extract_manifest_refs from_str text = (case from_str text of
     Inl _ \<Rightarrow> []
   | Inr parsed \<Rightarrow>
      (let digests = (\<lambda>j. case digest_field j of Some d \<Rightarrow> [d] | None \<Rightarrow> []);
           all_of = (\<lambda>key. case Option.bind (json_get key parsed) json_as_array of
             Some js \<Rightarrow> concat (map digests js) | None \<Rightarrow> [])
       in (case json_get ''config'' parsed of Some config \<Rightarrow> digests config | None \<Rightarrow> []) @
          all_of ''layers'' @ all_of ''manifests''))"

definition read_manifest_json ::
    "'b blob_store result \<Rightarrow> artifact_record \<Rightarrow> (('s, 'b) gc_run, string option) io" where
  "read_manifest_json blobs record = (case blobs of
     Inl _ \<Rightarrow> io_return None
   | Inr bs \<Rightarrow> (case ar_blob_id record of
       None \<Rightarrow> io_return None
     | Some blob_id \<Rightarrow>
         if blob_id = [] then io_return None
         else io_bind (io_try (on_world (on_blobs (bs_get bs blob_id)))) (\<lambda>r. io_return (case r of
           Inr (Some data) \<Rightarrow> if utf8_valid data then Some data else None
         | _ \<Rightarrow> None))))"

section \<open>Collecting the records\<close>

record shard_result =
  sr_manifests :: "(string \<times> artifact_record) list"
  sr_blob_refs :: "(string \<times> datetime \<times> u64) list"
  sr_tag_digests :: "string list"

definition no_records :: shard_result where
  "no_records = \<lparr>sr_manifests = [], sr_blob_refs = [], sr_tag_digests = []\<rparr>"

definition under_dir :: "string \<Rightarrow> string \<Rightarrow> bool" where
  "under_dir dir path \<longleftrightarrow> contains_str path (CHR ''/'' # dir) \<or> starts_with path dir"

text \<open>One record: a layer, a manifest, a tag or something else, by its path.\<close>

definition classify :: "string \<Rightarrow> artifact_record \<Rightarrow> shard_result \<Rightarrow> shard_result" where
  "classify path record sr =
    (if under_dir ''_blobs/'' path
     then sr\<lparr>sr_blob_refs := sr_blob_refs sr @ [(path, ar_created_at record, ar_size record)]\<rparr>
     else if under_dir ''_manifests/'' path
     then sr\<lparr>sr_manifests := sr_manifests sr @ [(path, record)]\<rparr>
     else if under_dir ''_tags/'' path
     then (case ar_kind record of
         DockerTag digest _ \<Rightarrow> sr\<lparr>sr_tag_digests := sr_tag_digests sr @ [digest]\<rparr>
       | _ \<Rightarrow> sr)
     else sr)"

fun classify_items :: "artifact_record codec \<Rightarrow> (string \<times> bytes) list \<Rightarrow> shard_result \<Rightarrow> shard_result" where
  "classify_items c [] sr = sr"
| "classify_items c ((sk, value) # items) sr = classify_items c items
    (case decode c value of Inl _ \<Rightarrow> sr | Inr record \<Rightarrow> classify sk record sr)"

definition collect_shard :: "('s, 'b, 'f) gc_env \<Rightarrow> string \<Rightarrow> nat \<Rightarrow> (('s, 'b) gc_run, shard_result) io" where
  "collect_shard E repo_name shard =
    batch_loop E ''Docker GC cancelled'' TABLE_ARTIFACTS (artifact_shard_pk repo_name shard)
      (\<lambda>items sr. io_return (classify_items (cs_artifact (ge_codecs E)) items sr)) None no_records"

definition join_shards :: "shard_result list \<Rightarrow> shard_result" where
  "join_shards srs = \<lparr>sr_manifests = concat (map sr_manifests srs), sr_blob_refs = concat (map sr_blob_refs srs),
     sr_tag_digests = concat (map sr_tag_digests srs)\<rparr>"

section \<open>Layers\<close>

text \<open>\<open>rsplit_once\<close> with a string: split at its last occurrence.\<close>

definition rsplit_once_str :: "string \<Rightarrow> string \<Rightarrow> (string \<times> string) option" where
  "rsplit_once_str p s = (case filter (\<lambda>i. starts_with (drop i s) p) (rev [0..<Suc (length s)]) of
     [] \<Rightarrow> None | i # _ \<Rightarrow> Some (take i s, drop (i + length p) s))"

text \<open>The digest that a path under a directory ends in.\<close>

definition digest_of :: "string \<Rightarrow> string \<Rightarrow> string option" where
  "digest_of dir sk = (case rsplit_once_str (CHR ''/'' # dir) sk of
     Some (_, d) \<Rightarrow> Some d
   | None \<Rightarrow> strip_prefix sk dir)"

fun add_layer_refs ::
    "('s, 'b, 'f) gc_env \<Rightarrow> 'b blob_store result \<Rightarrow> (string \<times> artifact_record) list \<Rightarrow> 'f \<Rightarrow> (('s, 'b) gc_run, 'f) io" where
  "add_layer_refs E blobs [] layer_bf = io_return layer_bf"
| "add_layer_refs E blobs ((_, record) # manifests) layer_bf =
    io_bind (read_manifest_json blobs record) (\<lambda>json. case json of
      None \<Rightarrow> add_layer_refs E blobs manifests layer_bf
    | Some text \<Rightarrow> add_layer_refs E blobs manifests
        (foldl (bl_set (ge_bloom E)) layer_bf (extract_manifest_refs (ge_from_str E) text)))"

definition dead_layers ::
    "'f bloom_ops \<Rightarrow> 'f \<Rightarrow> datetime \<Rightarrow> (string \<times> datetime \<times> u64) list \<Rightarrow> (string \<times> u64) list" where
  "dead_layers L layer_bf grace_cutoff blob_refs = concat (map (\<lambda>(sk, created_at, sz).
     if grace_cutoff < created_at then []
     else (case digest_of ''_blobs/'' sk of
         None \<Rightarrow> []
       | Some digest \<Rightarrow> if bl_check L layer_bf digest then [] else [(sk, sz)])) blob_refs)"

section \<open>Manifests that no tag reaches\<close>

fun list_children_of ::
    "('s, 'b, 'f) gc_env \<Rightarrow> 'b blob_store result \<Rightarrow> (string \<times> artifact_record) list \<Rightarrow> (string \<rightharpoonup> string list) \<Rightarrow>
     (('s, 'b) gc_run, string \<rightharpoonup> string list) io" where
  "list_children_of E blobs [] children_of = io_return children_of"
| "list_children_of E blobs ((sk, record) # manifests) children_of =
    (if contains_str (ar_content_type record) ''manifest.list'' \<or> contains_str (ar_content_type record) ''image.index''
     then io_bind (read_manifest_json blobs record) (\<lambda>json.
       list_children_of E blobs manifests (case (digest_of ''_manifests/'' sk, json) of
           (Some digest, Some text) \<Rightarrow> children_of(digest \<mapsto> extract_manifest_refs (ge_from_str E) text)
         | _ \<Rightarrow> children_of))
     else list_children_of E blobs manifests children_of)"

text \<open>The search over a stack, popped from its end.\<close>

partial_function (option) reach_loop ::
    "(string \<rightharpoonup> string list) \<Rightarrow> string set \<Rightarrow> string list \<Rightarrow> string set option" where
  "reach_loop children_of reachable queue = (case last_opt queue of
     None \<Rightarrow> Some reachable
   | Some d \<Rightarrow>
      if d \<in> reachable then reach_loop children_of reachable (butlast queue)
      else reach_loop children_of (insert d reachable) (butlast queue @
        (case children_of d of None \<Rightarrow> []
         | Some children \<Rightarrow> filter (\<lambda>c. c \<notin> insert d reachable) children)))"

definition dead_manifests :: "string set \<Rightarrow> datetime \<Rightarrow> (string \<times> artifact_record) list \<Rightarrow> (string \<times> u64) list" where
  "dead_manifests reachable grace_cutoff manifests = concat (map (\<lambda>(sk, record).
     if grace_cutoff < ar_created_at record then []
     else (case digest_of ''_manifests/'' sk of
         None \<Rightarrow> []
       | Some digest \<Rightarrow> if digest \<in> reachable then [] else [(sk, ar_size record)])) manifests)"

definition io_of_option :: "'a option \<Rightarrow> ('s, 'a) io" where
  "io_of_option x = (\<lambda>s. map_option (\<lambda>a. (Inr a, s)) x)"

section \<open>The collection\<close>

definition delete_dead :: "('s, 'b, 'f) gc_env \<Rightarrow> string \<Rightarrow> bool \<Rightarrow> (string \<times> u64) list \<Rightarrow> (('s, 'b) gc_run, u64) io" where
  "delete_dead E repo_name dry_run dead =
    (if dead \<noteq> [] \<and> \<not> dry_run
     then io_bind (delete_and_report E repo_name dead) (\<lambda>_. io_return (of_nat (length dead)))
     else io_return 0)"

definition docker_gc :: "('s, 'b, 'f) gc_env \<Rightarrow> repo_config \<Rightarrow> bool \<Rightarrow> (('s, 'b) gc_run, u64) io" where
  "docker_gc E repo dry_run =
    io_bind (read_clock E) (\<lambda>now.
    let grace_cutoff = now - of_nat DOCKER_GC_GRACE_SECS * 1000000000; repo_name = rp_name repo in
    io_bind (io_map (collect_shard E repo_name) (ge_shards E)) (\<lambda>shard_results.
    let all_records = join_shards shard_results;
        blobs = resolve_blob_store (ge_registry E) (rp_store repo) in
    io_bind (io_of_result (case bl_new_for_fp_rate (ge_bloom E) (max (length (sr_manifests all_records)) 1 * 10) of
        Inl e \<Rightarrow> Inl (Internal (''bloom filter: '' @ e)) | Inr f \<Rightarrow> Inr f)) (\<lambda>empty_bf.
    io_bind (add_layer_refs E blobs (sr_manifests all_records) empty_bf) (\<lambda>layer_bf.
    io_bind (delete_dead E repo_name dry_run
        (dead_layers (ge_bloom E) layer_bf grace_cutoff (sr_blob_refs all_records))) (\<lambda>layers_deleted.
    if \<not> fc_cleanup_untagged_manifests (rp_format_config repo) then io_return layers_deleted
    else
      io_bind (list_children_of E blobs (sr_manifests all_records) Map.empty) (\<lambda>children_of.
      io_bind (io_of_option (reach_loop children_of {} (sr_tag_digests all_records))) (\<lambda>reachable.
      io_bind (delete_dead E repo_name dry_run (dead_manifests reachable grace_cutoff (sr_manifests all_records)))
        (\<lambda>manifests_deleted. io_return (layers_deleted + manifests_deleted)))))))))"

record repo_clean_stats =
  rc_scanned_artifacts :: u64
  rc_expired_artifacts :: u64
  rc_docker_deleted :: u64

definition clean_repo_artifacts :: "('s, 'b, 'f) gc_env \<Rightarrow> repo_config \<Rightarrow> (('s, 'b) gc_run, repo_clean_stats) io" where
  "clean_repo_artifacts E repo =
    io_bind (expire_repo_artifacts E repo) (\<lambda>c.
    io_bind (check_cancel E ''Repo clean cancelled'') (\<lambda>_.
    io_bind (if rp_format repo = DockerF then docker_gc E repo False else io_return 0) (\<lambda>docker_deleted.
    io_return \<lparr>rc_scanned_artifacts = ec_scanned c, rc_expired_artifacts = ec_expired c,
      rc_docker_deleted = docker_deleted\<rparr>)))"

section \<open>Reachability\<close>

definition child_rel :: "(string \<rightharpoonup> string list) \<Rightarrow> (string \<times> string) set" where
  "child_rel children_of = {(d, c). \<exists>cs. children_of d = Some cs \<and> c \<in> set cs}"

definition tag_reach :: "(string \<rightharpoonup> string list) \<Rightarrow> string list \<Rightarrow> string set" where
  "tag_reach children_of tags = (child_rel children_of)\<^sup>* `` set tags"

lemma tag_reach_child: "d \<in> tag_reach ch tags \<Longrightarrow> (d, c) \<in> child_rel ch \<Longrightarrow> c \<in> tag_reach ch tags"
  unfolding tag_reach_def by (auto intro: rtrancl_into_rtrancl)

lemma tag_reach_least:
  assumes "set tags \<subseteq> R" "\<And>d c. d \<in> R \<Longrightarrow> (d, c) \<in> child_rel ch \<Longrightarrow> c \<in> R"
  shows "tag_reach ch tags \<subseteq> R"
proof -
  have "c \<in> R" if "(d, c) \<in> (child_rel ch)\<^sup>*" "d \<in> R" for d c
    using that by (induction) (auto intro: assms(2))
  then show ?thesis unfolding tag_reach_def using assms(1) by blast
qed

lemma reach_loop_spec:
  assumes fin: "finite U" and step: "\<And>d c. (d, c) \<in> child_rel ch \<Longrightarrow> c \<in> U"
  shows "set queue \<subseteq> U \<Longrightarrow> reachable \<union> set queue \<subseteq> tag_reach ch tags \<Longrightarrow> set tags \<subseteq> reachable \<union> set queue \<Longrightarrow>
    (\<forall>d \<in> reachable. \<forall>c. (d, c) \<in> child_rel ch \<longrightarrow> c \<in> reachable \<union> set queue) \<Longrightarrow>
    reach_loop ch reachable queue = Some (tag_reach ch tags)"
proof (induction "(card (U - reachable), length queue)" arbitrary: reachable queue rule: wf_induct_rule [OF wf_lex_prod [OF wf_less_than wf_less_than]])
  case 1
  show ?case
  proof (cases "last_opt queue")
    case None
    then have q: "queue = []" by (cases queue rule: rev_cases) auto
    then have "tag_reach ch tags \<subseteq> reachable" using 1(4,5) by (intro tag_reach_least) auto
    then show ?thesis using None q 1(3) by (auto simp: reach_loop.simps)
  next
    case (Some d)
    then have q: "queue = butlast queue @ [d]" by (auto simp: last_opt_Some dest: append_butlast_last_id [symmetric])
    then have sq: "set queue = insert d (set (butlast queue))" by (metis list.set(1,2) set_append Un_insert_right sup_bot_right)
    show ?thesis
    proof (cases "d \<in> reachable")
      case True
      have "reach_loop ch reachable (butlast queue) = Some (tag_reach ch tags)"
      proof (rule 1(1))
        show "((card (U - reachable), length (butlast queue)), card (U - reachable), length queue) \<in> less_than <*lex*> less_than"
          using Some by (cases queue) auto
      qed (use 1(2-5) sq True in auto)
      then show ?thesis using Some True by (simp add: reach_loop.simps)
    next
      case False
      define new where "new = (case ch d of None \<Rightarrow> [] | Some children \<Rightarrow> filter (\<lambda>c. c \<notin> insert d reachable) children)"
      have new: "c \<in> set new \<longleftrightarrow> (d, c) \<in> child_rel ch \<and> c \<notin> insert d reachable" for c
        by (cases "ch d") (auto simp: new_def child_rel_def)
      have dU: "d \<in> U" and dr: "d \<in> tag_reach ch tags" using 1(2,3) sq by auto
      have "card (U - insert d reachable) < card (U - reachable)"
        by (rule psubset_card_mono) (use fin dU False in auto)
      moreover have "set new \<subseteq> U" "set new \<subseteq> tag_reach ch tags" using new step tag_reach_child [OF dr] by auto
      ultimately have "reach_loop ch (insert d reachable) (butlast queue @ new) = Some (tag_reach ch tags)"
        using 1(2-5) sq dr new by (intro 1(1)) auto
      then show ?thesis using Some False by (simp add: reach_loop.simps [of ch reachable queue] new_def)
    qed
  qed
qed

lemma reach_loop_total:
  assumes "finite (dom ch)"
  shows "reach_loop ch {} tags = Some (tag_reach ch tags)"
proof (rule reach_loop_spec)
  let ?U = "set tags \<union> (\<Union>d \<in> dom ch. set (the (ch d)))"
  show "finite ?U" using assms by simp
  show "\<And>d c. (d, c) \<in> child_rel ch \<Longrightarrow> c \<in> ?U" by (force simp: child_rel_def)
  show "{} \<union> set tags \<subseteq> tag_reach ch tags" by (auto simp: tag_reach_def)
qed auto

section \<open>What a repository's records say\<close>

definition is_layer :: "string \<Rightarrow> bool" where
  "is_layer sk \<longleftrightarrow> under_dir ''_blobs/'' sk"

definition is_manifest :: "string \<Rightarrow> bool" where
  "is_manifest sk \<longleftrightarrow> \<not> is_layer sk \<and> under_dir ''_manifests/'' sk"

definition is_tag :: "string \<Rightarrow> bool" where
  "is_tag sk \<longleftrightarrow> \<not> is_layer sk \<and> \<not> is_manifest sk \<and> under_dir ''_tags/'' sk"

text \<open>The decodable records of a repository in a view, and what the collection gathers of them.\<close>

definition repo_entry :: "artifact_record codec \<Rightarrow> string \<Rightarrow> kv_view \<Rightarrow> string \<Rightarrow> artifact_record \<Rightarrow> bool" where
  "repo_entry c repo v sk rec \<longleftrightarrow> (\<exists>shard < NUM_SHARDS. \<exists>b n.
     v TABLE_ARTIFACTS (artifact_shard_pk repo shard) sk = Some (b, n) \<and> decode c b = Inr rec)"

definition docker_records :: "artifact_record codec \<Rightarrow> nat list \<Rightarrow> string \<Rightarrow> kv_view \<Rightarrow> shard_result" where
  "docker_records c order repo v = join_shards (map (\<lambda>shard. classify_items c
     (entries_where (v TABLE_ARTIFACTS (artifact_shard_pk repo shard)) (in_range [] None)) no_records) order)"

lemma classify_items_append: "classify_items c (xs @ ys) sr = classify_items c ys (classify_items c xs sr)"
  by (induction xs arbitrary: sr) auto

lemma classify_parts:
  "set (sr_blob_refs (classify sk rec sr)) = set (sr_blob_refs sr) \<union> (if is_layer sk then {(sk, ar_created_at rec, ar_size rec)} else {})"
  "set (sr_manifests (classify sk rec sr)) = set (sr_manifests sr) \<union> (if is_manifest sk then {(sk, rec)} else {})"
  "set (sr_tag_digests (classify sk rec sr)) = set (sr_tag_digests sr) \<union> {d. is_tag sk \<and> (\<exists>t. ar_kind rec = DockerTag d t)}"
  by (auto simp: classify_def is_layer_def is_manifest_def is_tag_def split: artifact_kind.splits)

lemma classify_items_parts:
  "set (sr_blob_refs (classify_items c items sr)) = set (sr_blob_refs sr) \<union>
     {(sk, ar_created_at rec, ar_size rec) | sk b rec. (sk, b) \<in> set items \<and> decode c b = Inr rec \<and> is_layer sk}"
  "set (sr_manifests (classify_items c items sr)) = set (sr_manifests sr) \<union>
     {(sk, rec) | sk b rec. (sk, b) \<in> set items \<and> decode c b = Inr rec \<and> is_manifest sk}"
  "set (sr_tag_digests (classify_items c items sr)) = set (sr_tag_digests sr) \<union>
     {d | d sk b rec t. (sk, b) \<in> set items \<and> decode c b = Inr rec \<and> is_tag sk \<and> ar_kind rec = DockerTag d t}"
proof (induction items arbitrary: sr)
  case (Cons item items)
  obtain sk b where item: "item = (sk, b)" by (cases item)
  {
    case 1 show ?case
      unfolding item classify_items.simps Cons.IH(1)
      by (cases "decode c b") (simp_all only: sum.case classify_parts, auto)
  next
    case 2 show ?case
      unfolding item classify_items.simps Cons.IH(2)
      by (cases "decode c b") (simp_all only: sum.case classify_parts, auto)
  next
    case 3 show ?case
      unfolding item classify_items.simps Cons.IH(3)
      by (cases "decode c b") (simp_all only: sum.case classify_parts, auto)
  }
qed auto

lemma docker_records_parts:
  assumes fin: "\<And>pk. finite (dom (v TABLE_ARTIFACTS pk))" and order: "shard_order order"
  shows "(sk, t, z) \<in> set (sr_blob_refs (docker_records c order repo v)) \<longleftrightarrow>
      (\<exists>rec. repo_entry c repo v sk rec \<and> is_layer sk \<and> t = ar_created_at rec \<and> z = ar_size rec)"
    and "(sk, rec) \<in> set (sr_manifests (docker_records c order repo v)) \<longleftrightarrow> repo_entry c repo v sk rec \<and> is_manifest sk"
    and "d \<in> set (sr_tag_digests (docker_records c order repo v)) \<longleftrightarrow>
      (\<exists>sk rec t. repo_entry c repo v sk rec \<and> is_tag sk \<and> ar_kind rec = DockerTag d t)"
proof -
  have ent: "(sk, b) \<in> set (entries_where (v TABLE_ARTIFACTS pk) (in_range [] None)) \<longleftrightarrow> (\<exists>n. v TABLE_ARTIFACTS pk sk = Some (b, n))"
    for sk b pk by (simp add: set_entries_where [OF fin] in_range_def)
  have set: "set order = {..<NUM_SHARDS}" using order by (simp add: shard_order_def)
  have "(sk, t, z) \<in> set (sr_blob_refs (docker_records c order repo v)) \<longleftrightarrow>
      (\<exists>shard \<in> set order. \<exists>b rec. (sk, b) \<in> set (entries_where (v TABLE_ARTIFACTS (artifact_shard_pk repo shard)) (in_range [] None)) \<and>
         decode c b = Inr rec \<and> is_layer sk \<and> t = ar_created_at rec \<and> z = ar_size rec)"
    by (simp add: docker_records_def join_shards_def classify_items_parts no_records_def) blast
  then show "(sk, t, z) \<in> set (sr_blob_refs (docker_records c order repo v)) \<longleftrightarrow>
      (\<exists>rec. repo_entry c repo v sk rec \<and> is_layer sk \<and> t = ar_created_at rec \<and> z = ar_size rec)"
    unfolding ent set repo_entry_def by blast
  have "(sk, rec) \<in> set (sr_manifests (docker_records c order repo v)) \<longleftrightarrow>
      (\<exists>shard \<in> set order. \<exists>b. (sk, b) \<in> set (entries_where (v TABLE_ARTIFACTS (artifact_shard_pk repo shard)) (in_range [] None)) \<and>
         decode c b = Inr rec \<and> is_manifest sk)"
    by (simp add: docker_records_def join_shards_def classify_items_parts no_records_def)
  then show "(sk, rec) \<in> set (sr_manifests (docker_records c order repo v)) \<longleftrightarrow> repo_entry c repo v sk rec \<and> is_manifest sk"
    unfolding ent set repo_entry_def by blast
  have "d \<in> set (sr_tag_digests (docker_records c order repo v)) \<longleftrightarrow>
      (\<exists>shard \<in> set order. \<exists>sk b rec t. (sk, b) \<in> set (entries_where (v TABLE_ARTIFACTS (artifact_shard_pk repo shard)) (in_range [] None)) \<and>
         decode c b = Inr rec \<and> is_tag sk \<and> ar_kind rec = DockerTag d t)"
    by (simp add: docker_records_def join_shards_def classify_items_parts no_records_def)
  then show "d \<in> set (sr_tag_digests (docker_records c order repo v)) \<longleftrightarrow>
      (\<exists>sk rec t. repo_entry c repo v sk rec \<and> is_tag sk \<and> ar_kind rec = DockerTag d t)"
    unfolding ent set repo_entry_def by blast
qed

section \<open>Running it\<close>

text \<open>The artifacts at a set of paths go, and nothing else but tree entries changes.\<close>

definition removed_paths :: "hasher \<Rightarrow> string \<Rightarrow> string set \<Rightarrow> kv_view \<Rightarrow> kv_view \<Rightarrow> bool" where
  "removed_paths H repo ks v v' \<longleftrightarrow> (\<forall>t pk sk. t \<noteq> TABLE_DIR_ENTRIES \<longrightarrow>
     v' t pk sk = (if (t, pk, sk) \<in> artifact_key H repo ` ks then None else v t pk sk))"

lemma removed_paths_none: "removed_paths H repo {} v v"
  by (simp add: removed_paths_def)

lemma removed_paths_trans: "removed_paths H repo ks u v \<Longrightarrow> removed_paths H repo ks' v w \<Longrightarrow> removed_paths H repo (ks \<union> ks') u w"
  by (simp add: removed_paths_def image_Un)

lemma removed_paths_shrink: "removed_paths H repo ks v v' \<Longrightarrow> artifacts_shrink v v'"
  unfolding removed_paths_def artifacts_shrink_def by auto

text \<open>
  The stores behind the registry. Each keeps the blob contract; reading one leaves every store as it
  is, deleting in one leaves the others.
\<close>

locale gc_stack = gc_kv E invar view + bloom_lib "ge_bloom E"
  for E :: "('s, 'b, 'f) gc_env" and invar view +
  fixes binvar :: "'b \<Rightarrow> bool" and bview :: "string \<Rightarrow> 'b \<Rightarrow> blob_view" and ok_id :: "string \<Rightarrow> bool"
  assumes backend: "ge_registry E st = Some bs \<Longrightarrow> blob_backend bs binvar (bview st) ok_id"
    and get_frame: "ge_registry E st = Some bs \<Longrightarrow> binvar b \<Longrightarrow>
      wp (bs_get bs i) (\<lambda>r b'. binvar b' \<and> (\<forall>st'. bview st' b' = bview st' b)) b"
    and scan_frame: "ge_registry E st = Some bs \<Longrightarrow> binvar b \<Longrightarrow>
      wp (bs_scan_blobs_sharded bs shard) (\<lambda>r b'. binvar b' \<and> (\<forall>st'. bview st' b' = bview st' b)) b"
    and delete_frame: "ge_registry E st = Some bs \<Longrightarrow> binvar b \<Longrightarrow> ok_id i \<Longrightarrow>
      wp (bs_delete bs i) (\<lambda>r b'. \<forall>st'. st' \<noteq> st \<longrightarrow> bview st' b' = bview st' b) b"

text \<open>A store that reports no error on reading a blob with an id it accepts.\<close>

definition reliable_get :: "(string \<Rightarrow> bool) \<Rightarrow> ('b \<Rightarrow> bool) \<Rightarrow> 'b blob_store \<Rightarrow> bool" where
  "reliable_get ok binvar bs \<longleftrightarrow> (\<forall>b i. binvar b \<longrightarrow> ok i \<longrightarrow> (\<exists>x b'. bs_get bs i b = Some (Inr x, b')))"

text \<open>The text of a manifest, as the store holds it.\<close>

definition manifest_text :: "(string \<rightharpoonup> bytes) \<Rightarrow> artifact_record \<Rightarrow> string option" where
  "manifest_text bl rec = (case ar_blob_id rec of
     None \<Rightarrow> None
   | Some i \<Rightarrow> if i = [] then None
       else (case bl i of Some d \<Rightarrow> if utf8_valid d then Some d else None | None \<Rightarrow> None))"

definition blob_id_ok :: "(string \<Rightarrow> bool) \<Rightarrow> artifact_record \<Rightarrow> bool" where
  "blob_id_ok ok rec \<longleftrightarrow> (\<forall>i. ar_blob_id rec = Some i \<longrightarrow> i \<noteq> [] \<longrightarrow> ok i)"

text \<open>The digests a list of manifests refers to, and the children of the lists among them.\<close>

definition refs_of :: "(string \<Rightarrow> string + json) \<Rightarrow> (string \<rightharpoonup> bytes) \<Rightarrow> (string \<times> artifact_record) list \<Rightarrow> string set" where
  "refs_of fs bl mans = (\<Union>(sk, rec) \<in> set mans. case manifest_text bl rec of None \<Rightarrow> {} | Some t \<Rightarrow> set (extract_manifest_refs fs t))"

fun children_map ::
    "(string \<Rightarrow> string + json) \<Rightarrow> (string \<rightharpoonup> bytes) \<Rightarrow> (string \<times> artifact_record) list \<Rightarrow> (string \<rightharpoonup> string list) \<Rightarrow>
     (string \<rightharpoonup> string list)" where
  "children_map fs bl [] ch = ch"
| "children_map fs bl ((sk, rec) # mans) ch = children_map fs bl mans
    (if contains_str (ar_content_type rec) ''manifest.list'' \<or> contains_str (ar_content_type rec) ''image.index''
     then (case (digest_of ''_manifests/'' sk, manifest_text bl rec) of
         (Some digest, Some t) \<Rightarrow> ch(digest \<mapsto> extract_manifest_refs fs t) | _ \<Rightarrow> ch)
     else ch)"

context gc_stack
begin

abbreviation gc_ok :: "('s, 'b) gc_run \<Rightarrow> bool" where
  "gc_ok g \<equiv> run_ok g \<and> binvar (w_blobs (gr_world g))"

abbreviation blobs_at :: "string \<Rightarrow> ('s, 'b) gc_run \<Rightarrow> (string \<rightharpoonup> bytes)" where
  "blobs_at st g \<equiv> blobs_of (bview st (w_blobs (gr_world g)))"

text \<open>No store and no collector state changes.\<close>

definition stable :: "('s, 'b) gc_run \<Rightarrow> ('s, 'b) gc_run \<Rightarrow> bool" where
  "stable g g' \<longleftrightarrow> (\<forall>st. bview st (w_blobs (gr_world g')) = bview st (w_blobs (gr_world g))) \<and> gr_gc g' = gr_gc g"

lemma stable_refl [simp]: "stable g g"
  by (simp add: stable_def)

lemma stable_trans: "stable g g1 \<Longrightarrow> stable g1 g2 \<Longrightarrow> stable g g2"
  by (simp add: stable_def)

lemma stable_blobs: "stable g g' \<Longrightarrow> blobs_at st g' = blobs_at st g"
  by (simp add: stable_def)

lemma run_frame_stable: "run_frame g g' \<Longrightarrow> run_ok g' \<Longrightarrow> gc_ok g \<Longrightarrow> gc_ok g' \<and> stable g g'"
  by (simp add: run_frame_def stable_def)

lemma collect_shard_spec:
  assumes g: "run_ok g" and repo: "pk_ok repo"
  shows "wp (collect_shard E repo shard) (\<lambda>r g'. run_ok g' \<and> run_frame g g' \<and> kvv g' = kvv g \<and>
    (\<forall>sr. r = Inr sr \<longrightarrow> sr = classify_items (cs_artifact (ge_codecs E))
      (entries_where (kvv g TABLE_ARTIFACTS (artifact_shard_pk repo shard)) (in_range [] None)) no_records)) g"
proof -
  let ?C = "cs_artifact (ge_codecs E)" and ?pk = "artifact_shard_pk repo shard"
  define R where "R = entries_where (kvv g TABLE_ARTIFACTS ?pk) (in_range (case None of Some c \<Rightarrow> c | None \<Rightarrow> []) None)"
  define Inv where "Inv seen sr v \<longleftrightarrow> v = kvv g \<and> sr = classify_items ?C seen no_records" for seen sr v
  define Err where "Err v \<longleftrightarrow> v = kvv g" for v
  have pk: "pk_ok ?pk" using repo by (simp add: artifact_shard_pk_def)
  have "wp (collect_shard E repo shard) (\<lambda>r g'. run_ok g' \<and> run_frame g g' \<and>
      (case r of Inl e \<Rightarrow> Err (kvv g') | Inr sr \<Rightarrow> Inv ([] @ R) sr (kvv g'))) g"
    unfolding collect_shard_def
    by (rule batch_loop_spec [where Inv = Inv and Err = Err, OF pk _ _ g _ R_def])
      (auto simp: Inv_def Err_def classify_items_append)
  then show ?thesis
    by (rule wp_mono) (auto simp: Inv_def Err_def R_def split: sum.splits)
qed

lemma collect_spec:
  assumes g: "run_ok g" and repo: "pk_ok repo"
  shows "wp (io_map (collect_shard E repo) order) (\<lambda>r g'. run_ok g' \<and> run_frame g g' \<and> kvv g' = kvv g \<and>
    (\<forall>srs. r = Inr srs \<longrightarrow> join_shards srs = docker_records (cs_artifact (ge_codecs E)) order repo (kvv g))) g"
proof -
  let ?f = "\<lambda>shard. classify_items (cs_artifact (ge_codecs E))
      (entries_where (kvv g TABLE_ARTIFACTS (artifact_shard_pk repo shard)) (in_range [] None)) no_records"
  have "wp (io_map (collect_shard E repo) order) (\<lambda>r g'. case r of
      Inl e \<Rightarrow> run_ok g' \<and> run_frame g g' \<and> kvv g' = kvv g
    | Inr ys \<Rightarrow> run_ok g' \<and> run_frame g g' \<and> kvv g' = kvv g \<and> ys = map ?f order) g"
  proof (rule wp_map [where I = "\<lambda>dn ys g'. run_ok g' \<and> run_frame g g' \<and> kvv g' = kvv g \<and> ys = map ?f dn"], goal_cases)
    case (2 dn ys x rest g1)
    then have g1: "run_ok g1" "run_frame g g1" "kvv g1 = kvv g" by auto
    show ?case
      by (rule wp_mono [OF collect_shard_spec [OF g1(1) repo]])
        (use g1 2 run_frame_trans [OF g1(2)] in \<open>auto split: sum.splits\<close>)
  qed (use g in simp)
  then show ?thesis
    by (rule wp_mono) (auto simp: docker_records_def split: sum.splits)
qed

lemma read_manifest_json_spec:
  assumes g: "gc_ok g"
  shows "wp (read_manifest_json (resolve_blob_store (ge_registry E) st) rec) (\<lambda>r g'. gc_ok g' \<and> stable g g' \<and> kvv g' = kvv g \<and>
    (\<exists>x. r = Inr x \<and> ((\<exists>bs. ge_registry E st = Some bs \<and> reliable_get ok_id binvar bs) \<longrightarrow> blob_id_ok ok_id rec \<longrightarrow>
      x = manifest_text (blobs_at st g) rec))) g"
proof (cases "ge_registry E st")
  case None
  then show ?thesis using g by (simp add: read_manifest_json_def resolve_blob_store_def registry_get_def)
next
  case (Some bs)
  then have res: "resolve_blob_store (ge_registry E) st = Inr bs"
    by (simp add: resolve_blob_store_def registry_get_def)
  show ?thesis
  proof (cases "ar_blob_id rec = None \<or> ar_blob_id rec = Some []")
    case True
    then show ?thesis using g by (auto simp: read_manifest_json_def res manifest_text_def)
  next
    case False
    then obtain i where i: "ar_blob_id rec = Some i" "i \<noteq> []" by auto
    have ok: "ok_id i" if "blob_id_ok ok_id rec" using that i by (simp add: blob_id_ok_def)
    have "wp (bs_get bs i) (\<lambda>r b'. binvar b' \<and> (\<forall>st'. bview st' b' = bview st' (w_blobs (gr_world g))) \<and>
        (reliable_get ok_id binvar bs \<longrightarrow> blob_id_ok ok_id rec \<longrightarrow> r = Inr (blobs_at st g i))) (w_blobs (gr_world g))"
    proof (cases "reliable_get ok_id binvar bs \<and> blob_id_ok ok_id rec")
      case True
      have "wp (bs_get bs i) (blob_read binvar (bview st) (w_blobs (gr_world g)) (\<lambda>x. x = blobs_at st g i)) (w_blobs (gr_world g))"
        by (rule blob_backend.get_spec [OF backend [OF Some]]) (use g ok True in auto)
      moreover obtain x b' where "bs_get bs i (w_blobs (gr_world g)) = Some (Inr x, b')"
        using True g ok unfolding reliable_get_def by blast
      ultimately show ?thesis using get_frame [OF Some, of "w_blobs (gr_world g)" i] g by (auto simp: wp_def)
    next
      case False
      show ?thesis by (rule wp_mono [OF get_frame [OF Some]]) (use g False in auto)
    qed
    then show ?thesis
      unfolding read_manifest_json_def res sum.case i option.case if_not_P [OF i(2)] wp_bind wp_try wp_on_world wp_on_blobs
      by (rule wp_mono) (use g Some in \<open>auto simp: stable_def manifest_text_def i\<close>)
  qed
qed

lemma check_foldl_set: "bl_check (ge_bloom E) f x \<or> x \<in> set xs \<Longrightarrow> bl_check (ge_bloom E) (foldl (bl_set (ge_bloom E)) f xs) x"
proof (induction xs arbitrary: f)
  case (Cons y xs)
  show ?case
    unfolding foldl_Cons by (rule Cons.IH) (use Cons.prems check_set check_set_other in auto)
qed simp

lemma add_layer_refs_spec:
  shows "gc_ok g \<Longrightarrow> wp (add_layer_refs E (resolve_blob_store (ge_registry E) st) mans bf) (\<lambda>r g'.
    gc_ok g' \<and> stable g g' \<and> kvv g' = kvv g \<and> (\<exists>bf'. r = Inr bf' \<and>
      (\<forall>x. bl_check (ge_bloom E) bf x \<longrightarrow> bl_check (ge_bloom E) bf' x) \<and>
      ((\<exists>bs. ge_registry E st = Some bs \<and> reliable_get ok_id binvar bs) \<longrightarrow> (\<forall>(sk, rec) \<in> set mans. blob_id_ok ok_id rec) \<longrightarrow>
        (\<forall>x \<in> refs_of (ge_from_str E) (blobs_at st g) mans. bl_check (ge_bloom E) bf' x)))) g"
proof (induction mans arbitrary: bf g)
  case Nil
  then show ?case by (simp add: refs_of_def)
next
  case (Cons man mans)
  obtain sk rec where man: "man = (sk, rec)" by (cases man)
  show ?case
    unfolding man add_layer_refs.simps
  proof (rule wp_bindI [OF read_manifest_json_spec [OF Cons.prems, of st rec]], goal_cases)
    case (2 x g1)
    then have g1: "gc_ok g1" "stable g g1" "kvv g1 = kvv g"
      and x: "\<exists>bs. ge_registry E st = Some bs \<and> reliable_get ok_id binvar bs \<Longrightarrow> blob_id_ok ok_id rec \<Longrightarrow>
        x = manifest_text (blobs_at st g) rec" by auto
    define bf1 where "bf1 = (case x of None \<Rightarrow> bf | Some t \<Rightarrow>
      foldl (bl_set (ge_bloom E)) bf (extract_manifest_refs (ge_from_str E) t))"
    have run: "(case x of None \<Rightarrow> add_layer_refs E (resolve_blob_store (ge_registry E) st) mans bf
      | Some t \<Rightarrow> add_layer_refs E (resolve_blob_store (ge_registry E) st) mans
          (foldl (bl_set (ge_bloom E)) bf (extract_manifest_refs (ge_from_str E) t))) =
      add_layer_refs E (resolve_blob_store (ge_registry E) st) mans bf1"
      by (simp add: bf1_def split: option.splits)
    have keep: "bl_check (ge_bloom E) bf y \<Longrightarrow> bl_check (ge_bloom E) bf1 y" for y
      unfolding bf1_def by (cases x) (auto intro: check_foldl_set)
    have hit: "bl_check (ge_bloom E) bf1 y" if "x = Some t" "y \<in> set (extract_manifest_refs (ge_from_str E) t)" for y t
      using that by (auto simp: bf1_def intro: check_foldl_set)
    show ?case
      unfolding run
    proof (rule wp_mono [OF Cons.IH [OF g1(1), of bf1]], goal_cases)
      case (1 r g2)
      then obtain bf' where bf': "r = Inr bf'" "\<And>y. bl_check (ge_bloom E) bf1 y \<Longrightarrow> bl_check (ge_bloom E) bf' y"
        and rest: "\<exists>bs. ge_registry E st = Some bs \<and> reliable_get ok_id binvar bs \<Longrightarrow> \<forall>(sk, rec) \<in> set mans. blob_id_ok ok_id rec \<Longrightarrow>
          \<forall>x \<in> refs_of (ge_from_str E) (blobs_at st g) mans. bl_check (ge_bloom E) bf' x"
        using stable_blobs [OF g1(2)] by auto
      have "\<forall>y \<in> refs_of (ge_from_str E) (blobs_at st g) ((sk, rec) # mans). bl_check (ge_bloom E) bf' y"
        if rel: "\<exists>bs. ge_registry E st = Some bs \<and> reliable_get ok_id binvar bs" and ids: "\<forall>(sk, rec) \<in> set ((sk, rec) # mans). blob_id_ok ok_id rec"
      proof
        fix y assume "y \<in> refs_of (ge_from_str E) (blobs_at st g) ((sk, rec) # mans)"
        then consider t where "manifest_text (blobs_at st g) rec = Some t" "y \<in> set (extract_manifest_refs (ge_from_str E) t)"
          | "y \<in> refs_of (ge_from_str E) (blobs_at st g) mans"
          by (auto simp: refs_of_def split: option.splits)
        then show "bl_check (ge_bloom E) bf' y"
        proof cases
          case 1
          then show ?thesis using bf'(2) hit x [OF rel] ids by auto
        next
          case 2
          then show ?thesis using rest [OF rel] ids by auto
        qed
      qed
      then show ?case using 1 g1 bf' keep stable_trans [OF g1(2)] by auto
    qed
  qed auto
qed

lemma list_children_of_spec:
  shows "gc_ok g \<Longrightarrow> finite (dom ch) \<Longrightarrow> wp (list_children_of E (resolve_blob_store (ge_registry E) st) mans ch) (\<lambda>r g'.
    gc_ok g' \<and> stable g g' \<and> kvv g' = kvv g \<and> (\<exists>ch'. r = Inr ch' \<and> finite (dom ch') \<and>
      ((\<exists>bs. ge_registry E st = Some bs \<and> reliable_get ok_id binvar bs) \<longrightarrow> (\<forall>(sk, rec) \<in> set mans. blob_id_ok ok_id rec) \<longrightarrow>
        ch' = children_map (ge_from_str E) (blobs_at st g) mans ch))) g"
proof (induction mans arbitrary: ch g)
  case (Cons man mans)
  obtain sk rec where man: "man = (sk, rec)" by (cases man)
  let ?list = "contains_str (ar_content_type rec) ''manifest.list'' \<or> contains_str (ar_content_type rec) ''image.index''"
  show ?case
  proof (cases ?list)
    case False
    show ?thesis
      unfolding man list_children_of.simps children_map.simps if_not_P [OF False]
      by (rule wp_mono [OF Cons.IH [OF Cons.prems]]) auto
  next
    case True
    show ?thesis
      unfolding man list_children_of.simps children_map.simps if_P [OF True]
    proof (rule wp_bindI [OF read_manifest_json_spec [OF Cons.prems(1), of st rec]], goal_cases)
      case (2 x g1)
      then have g1: "gc_ok g1" "stable g g1" "kvv g1 = kvv g"
        and x: "\<exists>bs. ge_registry E st = Some bs \<and> reliable_get ok_id binvar bs \<Longrightarrow> blob_id_ok ok_id rec \<Longrightarrow>
          x = manifest_text (blobs_at st g) rec" by auto
      define ch1 where "ch1 = (case (digest_of ''_manifests/'' sk, x) of
           (Some digest, Some t) \<Rightarrow> ch(digest \<mapsto> extract_manifest_refs (ge_from_str E) t) | _ \<Rightarrow> ch)"
      have fin: "finite (dom ch1)" using Cons.prems(2) by (auto simp: ch1_def split: option.splits)
      show ?case
        unfolding ch1_def [symmetric]
        by (rule wp_mono [OF Cons.IH [OF g1(1) fin]])
          (use g1 x stable_trans [OF g1(2)] stable_blobs [OF g1(2)] in \<open>auto simp: ch1_def\<close>)
    qed auto
  qed
qed simp

lemma delete_dead_spec:
  assumes g: "gc_ok g" and repo: "pk_ok repo"
  shows "wp (delete_dead E repo dry dead) (\<lambda>r g'. gc_ok g' \<and> stable g g' \<and> (\<forall>n. r = Inr n \<longrightarrow>
    removed_paths (ge_hasher E) repo (if dry then {} else fst ` set dead) (kvv g) (kvv g'))) g"
proof (cases "dead \<noteq> [] \<and> \<not> dry")
  case False
  then show ?thesis using g by (auto simp: delete_dead_def removed_paths_none)
next
  case True
  show ?thesis
    unfolding delete_dead_def if_P [OF True]
  proof (rule wp_bindI [OF delete_and_report_keys [OF conjunct1 [OF g] repo, of dead]], goal_cases)
    case (1 e g')
    then show ?case using run_frame_stable [OF _ _ g, of g'] by simp
  next
    case (2 u g')
    then have g': "run_ok g'" "run_frame g g'"
      and fr: "view_frame (artifact_key (ge_hasher E) repo ` fst ` set dead \<union> {(TABLE_DIR_ENTRIES, pk', sk) | pk' sk. True}) (kvv g) (kvv g')"
      and gone: "\<And>k. k \<in> fst ` set dead \<Longrightarrow> art_at (ge_hasher E) repo k (kvv g') = None" by auto
    have "removed_paths (ge_hasher E) repo (fst ` set dead) (kvv g) (kvv g')"
      unfolding removed_paths_def
    proof (intro allI impI)
      fix t pk sk assume t: "t \<noteq> TABLE_DIR_ENTRIES"
      show "kvv g' t pk sk = (if (t, pk, sk) \<in> artifact_key (ge_hasher E) repo ` fst ` set dead then None else kvv g t pk sk)"
      proof (cases "(t, pk, sk) \<in> artifact_key (ge_hasher E) repo ` fst ` set dead")
        case True
        then obtain k where "k \<in> fst ` set dead" "(t, pk, sk) = artifact_key (ge_hasher E) repo k" by blast
        then show ?thesis using gone [of k] True by (simp add: artifact_key_def Let_def)
      next
        case False
        then show ?thesis using view_frameD [OF fr, of t pk sk] t by auto
      qed
    qed
    then show ?case using run_frame_stable [OF g'(2,1) g] True by simp
  qed
qed

text \<open>
  The whole collection of a repository. When the manifests could be read, no layer that one of them
  refers to is removed; the manifests removed are exactly the old ones that no tag reaches.
\<close>

lemma docker_gc_spec:
  assumes g: "gc_ok g" and repo: "pk_ok (rp_name repo)"
  defines "records \<equiv> docker_records (cs_artifact (ge_codecs E)) (ge_shards E) (rp_name repo) (kvv g)"
    and "cutoff \<equiv> ge_now E (gr_polls g) - of_nat DOCKER_GC_GRACE_SECS * 1000000000"
    and "bl \<equiv> blobs_at (rp_store repo) g"
  shows "wp (docker_gc E repo dry) (\<lambda>r g'. gc_ok g' \<and> stable g g' \<and> (\<forall>n. r = Inr n \<longrightarrow> (\<exists>bf ch.
    removed_paths (ge_hasher E) (rp_name repo)
      (if dry then {} else fst ` set (dead_layers (ge_bloom E) bf cutoff (sr_blob_refs records)) \<union>
         (if fc_cleanup_untagged_manifests (rp_format_config repo)
          then fst ` set (dead_manifests (tag_reach ch (sr_tag_digests records)) cutoff (sr_manifests records)) else {}))
      (kvv g) (kvv g') \<and>
    ((\<exists>bs. ge_registry E (rp_store repo) = Some bs \<and> reliable_get ok_id binvar bs) \<longrightarrow>
     (\<forall>(sk, rec) \<in> set (sr_manifests records). blob_id_ok ok_id rec) \<longrightarrow>
       (\<forall>x \<in> refs_of (ge_from_str E) bl (sr_manifests records). bl_check (ge_bloom E) bf x) \<and>
       ch = children_map (ge_from_str E) bl (sr_manifests records) Map.empty)))) g"
proof -
  let ?blobs = "resolve_blob_store (ge_registry E) (rp_store repo)"
  show ?thesis
    unfolding docker_gc_def wp_bind [of "read_clock E"] wp_read_clock sum.case Let_def cutoff_def [symmetric]
  proof (rule wp_bindI [OF collect_spec [OF conjunct1 [OF g] repo]], goal_cases)
    case (1 e g1)
    then show ?case using run_frame_stable [OF _ _ g, of g1] by simp
  next
    case (2 srs g1)
    then have v1: "kvv g1 = kvv g" and recs: "join_shards srs = records" and g1: "gc_ok g1" "stable g g1"
      using run_frame_stable [OF _ _ g, of g1] by (auto simp: records_def)
    show ?case
      unfolding recs
    proof (cases "bl_new_for_fp_rate (ge_bloom E) (max (length (sr_manifests records)) 1 * 10)", goal_cases)
      case (1 e)
      then show ?case using g1 by (simp add: wp_bind)
    next
      case (2 bf0)
      show ?case
        unfolding 2 sum.case wp_bind_ok [OF refl]
      proof (rule wp_bindI [OF add_layer_refs_spec [OF g1(1), of "rp_store repo" "sr_manifests records" bf0]], goal_cases)
        case (2 bf g2)
        then have g2: "gc_ok g2" "stable g g2" "kvv g2 = kvv g" and bf: "\<exists>bs. ge_registry E (rp_store repo) = Some bs \<and> reliable_get ok_id binvar bs \<Longrightarrow>
            \<forall>(sk, rec) \<in> set (sr_manifests records). blob_id_ok ok_id rec \<Longrightarrow>
            \<forall>x \<in> refs_of (ge_from_str E) bl (sr_manifests records). bl_check (ge_bloom E) bf x"
          using v1 stable_trans [OF g1(2)] stable_blobs [OF g1(2)] by (auto simp: bl_def)
        show ?case
        proof (rule wp_bindI [OF delete_dead_spec [OF g2(1) repo]], goal_cases)
          case (1 e g3)
          then show ?case using stable_trans [OF g2(2)] by simp
        next
          case (2 n1 g3)
          then have g3: "gc_ok g3" "stable g g3" and rem: "removed_paths (ge_hasher E) (rp_name repo)
              (if dry then {} else fst ` set (dead_layers (ge_bloom E) bf cutoff (sr_blob_refs records))) (kvv g) (kvv g3)"
            using stable_trans [OF g2(2)] g2(3) by auto
          show ?case
          proof (cases "fc_cleanup_untagged_manifests (rp_format_config repo)")
            case False
            then show ?thesis using g3 rem bf by (cases dry) (auto intro!: exI [of _ bf])
          next
            case True
            show ?thesis
              unfolding if_not_P [OF not_not [THEN iffD2, OF True]]
            proof (rule wp_bindI [OF list_children_of_spec [OF g3(1), of Map.empty "rp_store repo" "sr_manifests records"]], goal_cases)
              case (3 ch g4)
              then have g4: "gc_ok g4" "stable g g4" "kvv g4 = kvv g3" and fin: "finite (dom ch)"
                and ch: "\<exists>bs. ge_registry E (rp_store repo) = Some bs \<and> reliable_get ok_id binvar bs \<Longrightarrow>
                  \<forall>(sk, rec) \<in> set (sr_manifests records). blob_id_ok ok_id rec \<Longrightarrow>
                  ch = children_map (ge_from_str E) bl (sr_manifests records) Map.empty"
                using stable_trans [OF g3(2)] stable_blobs [OF g3(2)] by (auto simp: bl_def)
              have reach: "wp (io_bind (io_of_option (reach_loop ch {} (sr_tag_digests records))) f) Q g4 \<longleftrightarrow>
                  wp (f (tag_reach ch (sr_tag_digests records))) Q g4" for f Q
                by (simp add: reach_loop_total [OF fin] io_of_option_def wp_def io_bind_def)
              show ?case
                unfolding reach
              proof (rule wp_bindI [OF delete_dead_spec [OF g4(1) repo]], goal_cases)
                case (1 e g5)
                then show ?case using stable_trans [OF g4(2)] by simp
              next
                case (2 n2 g5)
                then have g5: "gc_ok g5" "stable g g5" and "removed_paths (ge_hasher E) (rp_name repo)
                    (if dry then {} else fst ` set (dead_manifests (tag_reach ch (sr_tag_digests records)) cutoff (sr_manifests records))) (kvv g3) (kvv g5)"
                  using stable_trans [OF g4(2)] g4(3) by auto
                from removed_paths_trans [OF rem this(3)] show ?case
                  using g5 True bf ch by (cases dry) (auto intro!: exI [of _ bf] exI [of _ ch])
              qed
            qed (use g3 in auto)
          qed
        qed
      qed auto
    qed
  qed
qed

end

end
