(* ===== verification/Gc_Pass.thy ===== *)
theory Gc_Pass
  imports Gc_Docker Cluster "HOL-Library.AList"
begin

text \<open>
  The garbage collection pass (\<open>server/src/server/worker/blob_reaper/gc_pass.rs\<close>) and the decisions
  of its loop (\<open>gc_loop.rs\<close>): drain the repositories marked for deletion, drop stale upload sessions,
  expire and collect Docker repositories, scan every artifact into a Bloom filter, then sweep the blob
  records and walk the files of every store.

  The reads that only feed the progress estimates are left out. The consumer of orphans handles them
  in the order of the shards of the walk; a delete happens when it is decided.
\<close>

record gc_stats =
  gt_drained_repos :: u64
  gt_cleaned_upload_sessions :: u64
  gt_scanned_artifacts :: u64
  gt_expired_artifacts :: u64
  gt_docker_deleted :: u64
  gt_scanned_blobs :: u64
  gt_deleted_dedup_refs :: u64
  gt_orphaned_blobs_deleted :: u64
  gt_orphaned_blob_bytes_deleted :: u64

section \<open>Draining\<close>

fun drain_repos :: "('s, 'b, 'f) gc_env \<Rightarrow> repo_config list \<Rightarrow> u64 \<Rightarrow> (('s, 'b) gc_run, u64) io" where
  "drain_repos E [] drained = io_return drained"
| "drain_repos E (repo # repos) drained =
    io_bind (io_try (on_world (on_kv (drain_deleting_repo (ge_kv E) (ge_shards E) (ge_shards E) (rp_name repo))))) (\<lambda>r.
      drain_repos E repos (case r of Inl _ \<Rightarrow> drained | Inr _ \<Rightarrow> drained + 1))"

partial_function (option) drain_until_none ::
    "('s, 'b, 'f) gc_env \<Rightarrow> u64 \<Rightarrow> ('s, 'b) gc_run \<Rightarrow> (u64 result \<times> ('s, 'b) gc_run) option" where
  "drain_until_none E drained g =
    (case io_bind (check_cancel E ''GC pass cancelled'') (\<lambda>_. on_world (on_kv (list_repos_raw (ge_kv E) (ge_codecs E)))) g of
       None \<Rightarrow> None
     | Some (Inl e, g1) \<Rightarrow> Some (Inl e, g1)
     | Some (Inr repos, g1) \<Rightarrow>
        (let deleting = filter rp_deleting repos
         in if deleting = [] then Some (Inr drained, g1)
            else (case drain_repos E deleting drained g1 of
                None \<Rightarrow> None
              | Some (Inl e, g2) \<Rightarrow> Some (Inl e, g2)
              | Some (Inr drained', g2) \<Rightarrow> drain_until_none E drained' g2)))"

section \<open>Docker repositories\<close>

text \<open>A task of a \<open>JoinSet\<close>: a panic of the task is the error of joining it.\<close>

definition pre_expire :: "('s, 'b, 'f) gc_env \<Rightarrow> repo_config \<Rightarrow> (('s, 'b) gc_run, u64) io" where
  "pre_expire E repo =
    io_bind (read_clock E) (\<lambda>now.
      if expiry_cutoffs now repo = None then io_throw (Storage ''task panicked'' Permanent)
      else io_bind (expire_repo_artifacts E repo) (\<lambda>c. io_return (ec_expired c)))"

definition has_policy :: "repo_config \<Rightarrow> bool" where
  "has_policy r \<longleftrightarrow> rp_cleanup_max_age_days r \<noteq> None \<or> rp_cleanup_max_unaccessed_days r \<noteq> None"

definition is_docker_repo :: "repo_config \<Rightarrow> bool" where
  "is_docker_repo r \<longleftrightarrow> rp_format r = DockerF"

section \<open>The artifact scan\<close>

definition is_proxy :: "repo_config \<Rightarrow> bool" where
  "is_proxy r \<longleftrightarrow> (case rp_kind r of Proxy _ _ \<Rightarrow> True | _ \<Rightarrow> False)"

fun estimate_total :: "('s, 'b, 'f) gc_env \<Rightarrow> repo_config list \<Rightarrow> u64 \<Rightarrow> (('s, 'b) gc_run, u64) io" where
  "estimate_total E [] n = io_return n"
| "estimate_total E (repo # repos) n =
    (if is_proxy repo then estimate_total E repos n
     else io_bind (io_try (on_world (on_kv (get_repo_stats (ge_hasher E) (ge_kv E) (ge_codecs E) repo)))) (\<lambda>r.
       estimate_total E repos (case r of Inl _ \<Rightarrow> n | Inr stats \<Rightarrow> n + rs_artifact_count stats)))"

record 'f scan_acc =
  sa_local_bf :: 'f
  sa_scanned :: u64
  sa_expired :: u64

fun scan_items ::
    "('s, 'b, 'f) gc_env \<Rightarrow> string \<Rightarrow> bool \<Rightarrow> datetime option \<Rightarrow> datetime option \<Rightarrow> (string \<times> bytes) list \<Rightarrow>
     'f scan_acc \<times> (string \<times> u64) list \<Rightarrow> (('s, 'b) gc_run, 'f scan_acc \<times> (string \<times> u64) list) io" where
  "scan_items E repo_name is_docker age unaccessed [] acc = io_return acc"
| "scan_items E repo_name is_docker age unaccessed ((sk, value) # items) (a, expired_entries) =
    (case decode (cs_artifact (ge_codecs E)) value of
       Inl _ \<Rightarrow> scan_items E repo_name is_docker age unaccessed items (a, expired_entries)
     | Inr record \<Rightarrow>
        io_bind (on_world (on_kv (record_expired (ge_hasher E) (ge_kv E) (ge_codecs E) repo_name sk record is_docker age unaccessed)))
          (\<lambda>expired. scan_items E repo_name is_docker age unaccessed items
            (case expired of
               Some _ \<Rightarrow> (a, expired_entries @ [(sk, ar_size record)])
             | None \<Rightarrow>
                (a\<lparr>sa_local_bf := (case ar_blob_id record of
                     Some blob_id \<Rightarrow> bl_set (ge_bloom E) (sa_local_bf a) blob_id
                   | None \<Rightarrow> sa_local_bf a),
                   sa_scanned := sa_scanned a + 1\<rparr>, expired_entries))))"

definition scan_batch ::
    "('s, 'b, 'f) gc_env \<Rightarrow> bool \<Rightarrow> string \<Rightarrow> bool \<Rightarrow> datetime option \<Rightarrow> datetime option \<Rightarrow> (string \<times> bytes) list \<Rightarrow>
     'f scan_acc \<Rightarrow> (('s, 'b) gc_run, 'f scan_acc) io" where
  "scan_batch E dry_run repo_name is_docker age unaccessed items a =
    io_bind (scan_items E repo_name is_docker age unaccessed items (a, [])) (\<lambda>(a, expired_entries).
      if expired_entries \<noteq> [] \<and> \<not> dry_run
      then io_bind (delete_and_report E repo_name expired_entries) (\<lambda>_.
        io_return (a\<lparr>sa_expired := sa_expired a + of_nat (length expired_entries)\<rparr>))
      else io_return a)"

text \<open>The task of one shard of one repository; it folds its filter into the accumulator at its end.\<close>

definition scan_task ::
    "('s, 'b, 'f) gc_env \<Rightarrow> bool \<Rightarrow> 'f \<Rightarrow> repo_config \<Rightarrow> datetime option \<times> datetime option \<Rightarrow> nat \<Rightarrow>
     bloom_accumulator \<times> u64 \<times> u64 \<Rightarrow> (('s, 'b) gc_run, bloom_accumulator \<times> u64 \<times> u64) io" where
  "scan_task E dry_run template repo cutoffs shard = (\<lambda>(acc, scanned, expired).
    io_bind (io_of_result (bloom_empty_like (ge_bloom E) template)) (\<lambda>local_bf.
    io_bind (batch_loop E ''GC pass cancelled'' TABLE_ARTIFACTS (artifact_shard_pk (rp_name repo) shard)
        (scan_batch E dry_run (rp_name repo) (is_docker_repo repo) (fst cutoffs) (snd cutoffs)) None
        \<lparr>sa_local_bf = local_bf, sa_scanned = 0, sa_expired = 0\<rparr>) (\<lambda>a.
    io_bind (io_of_result (or_from (ge_bloom E) acc (sa_local_bf a))) (\<lambda>acc'.
      io_return (acc', scanned + sa_scanned a, expired + sa_expired a)))))"

text \<open>Running the tasks of a list, each on the result of those before it.\<close>

fun io_fold :: "('x \<Rightarrow> 'a \<Rightarrow> ('s, 'a) io) \<Rightarrow> 'x list \<Rightarrow> 'a \<Rightarrow> ('s, 'a) io" where
  "io_fold f [] a = io_return a"
| "io_fold f (x # xs) a = io_bind (f x a) (io_fold f xs)"

text \<open>The cutoffs of every repository are computed before the tasks are joined.\<close>

fun all_cutoffs :: "datetime \<Rightarrow> repo_config list \<Rightarrow> (repo_config \<times> datetime option \<times> datetime option) list option" where
  "all_cutoffs now [] = Some []"
| "all_cutoffs now (repo # repos) = (case (expiry_cutoffs now repo, all_cutoffs now repos) of
     (Some c, Some cs) \<Rightarrow> Some ((repo, c) # cs) | _ \<Rightarrow> None)"

definition artifact_scan ::
    "('s, 'b, 'f) gc_env \<Rightarrow> bool \<Rightarrow> repo_config list \<Rightarrow> (('s, 'b) gc_run, 'f \<times> u64 \<times> u64) io" where
  "artifact_scan E dry_run repos =
    io_bind (estimate_total E repos 0) (\<lambda>estimated.
    io_bind (io_of_result (case bl_new_for_fp_rate (ge_bloom E) (max (unat estimated) 1000) of
        Inl e \<Rightarrow> Inl (Internal (''bloom filter: '' @ e)) | Inr f \<Rightarrow> Inr f)) (\<lambda>template.
    io_bind (read_clock E) (\<lambda>now.
    io_bind (io_of_option (all_cutoffs now repos)) (\<lambda>tasks.
    io_bind (io_fold (\<lambda>(repo, cutoffs). io_fold (scan_task E dry_run template repo cutoffs) (ge_shards E)) tasks
        (accumulator_empty_like (ge_bloom E) template, 0, 0)) (\<lambda>(acc, scanned, expired).
    io_bind (io_of_result (accumulator_finalize (ge_bloom E) acc)) (\<lambda>combined.
      io_return (combined, scanned, expired)))))))"

section \<open>The sweep\<close>

record sweep_count =
  sw_scanned :: u64
  sw_scanned_bytes :: u64
  sw_deleted :: u64
  sw_live_count :: u64
  sw_live_bytes :: u64

definition no_sweep :: sweep_count where
  "no_sweep = \<lparr>sw_scanned = 0, sw_scanned_bytes = 0, sw_deleted = 0, sw_live_count = 0, sw_live_bytes = 0\<rparr>"

fun sweep_items ::
    "codecs \<Rightarrow> (string \<Rightarrow> bool) \<Rightarrow> (string \<times> bytes) list \<Rightarrow> sweep_count \<times> string list \<Rightarrow> sweep_count \<times> string list" where
  "sweep_items C live [] acc = acc"
| "sweep_items C live ((sk, value) # items) (c, del_sks) =
    (let c = c\<lparr>sw_scanned := sw_scanned c + 1\<rparr>
     in case decode (cs_blob C) value of
          Inl _ \<Rightarrow> sweep_items C live items (c, del_sks)
        | Inr record \<Rightarrow>
           (let c = c\<lparr>sw_scanned_bytes := sw_scanned_bytes c + br_size record\<rparr>
            in sweep_items C live items
                 (if \<not> live (br_blob_id record) then (c, del_sks @ [sk])
                  else (c\<lparr>sw_live_count := sw_live_count c + 1, sw_live_bytes := sw_live_bytes c + br_size record\<rparr>, del_sks))))"

definition sweep_batch ::
    "('s, 'b, 'f) gc_env \<Rightarrow> bool \<Rightarrow> (string \<Rightarrow> bool) \<Rightarrow> string \<Rightarrow> (string \<times> bytes) list \<Rightarrow> sweep_count \<Rightarrow>
     (('s, 'b) gc_run, sweep_count) io" where
  "sweep_batch E dry_run live pk items c =
    (case sweep_items (ge_codecs E) live items (c, []) of (c, del_sks) \<Rightarrow>
      if del_sks \<noteq> [] \<and> \<not> dry_run
      then io_bind (on_world (on_kv (kv_delete_batch (ge_kv E) TABLE_BLOBS (map (\<lambda>sk. (pk, sk)) del_sks)))) (\<lambda>_.
        io_return (c\<lparr>sw_deleted := sw_deleted c + of_nat (length del_sks)\<rparr>))
      else io_return c)"

definition add_sweep :: "sweep_count \<Rightarrow> sweep_count \<Rightarrow> sweep_count" where
  "add_sweep a b = \<lparr>sw_scanned = sw_scanned a + sw_scanned b, sw_scanned_bytes = sw_scanned_bytes a + sw_scanned_bytes b,
     sw_deleted = sw_deleted a + sw_deleted b, sw_live_count = sw_live_count a + sw_live_count b,
     sw_live_bytes = sw_live_bytes a + sw_live_bytes b\<rparr>"

definition sweep_records ::
    "('s, 'b, 'f) gc_env \<Rightarrow> bool \<Rightarrow> (string \<Rightarrow> bool) \<Rightarrow> string \<Rightarrow> (('s, 'b) gc_run, sweep_count) io" where
  "sweep_records E dry_run live store_name =
    io_bind (io_map (\<lambda>shard. batch_loop E ''GC pass cancelled'' TABLE_BLOBS (blob_shard_pk store_name shard)
        (sweep_batch E dry_run live (blob_shard_pk store_name shard)) None no_sweep) (ge_shards E))
      (\<lambda>counts. io_return (foldl add_sweep no_sweep counts))"

section \<open>The walk\<close>

text \<open>The consumer's decision on one orphan.\<close>

definition set_candidates :: "((string \<times> string) \<times> u64) list \<Rightarrow> (('s, 'b) gc_run, unit) io" where
  "set_candidates cs = (\<lambda>g. Some (Inr (), g\<lparr>gr_gc := (gr_gc g)\<lparr>gs_orphan_candidates := cs\<rparr>\<rparr>))"

definition get_gc :: "(('s, 'b) gc_run, gc_state) io" where
  "get_gc = (\<lambda>g. Some (Inr (gr_gc g), g))"

definition consume_orphan ::
    "'b blob_store \<Rightarrow> string \<Rightarrow> bool \<Rightarrow> nat \<Rightarrow> string \<times> u64 \<Rightarrow> u64 \<times> u64 \<Rightarrow> (('s, 'b) gc_run, u64 \<times> u64) io" where
  "consume_orphan bs store_name dry_run max_orphan_candidates = (\<lambda>(blob_id, sz) (deleted, deleted_bytes).
    io_bind get_gc (\<lambda>state.
      let key = (store_name, blob_id); candidates = gs_orphan_candidates state; current_pass = gs_pass state
      in case map_of candidates key of
           Some first_seen_pass \<Rightarrow>
             if 1 \<le> current_pass - first_seen_pass
             then io_bind (if dry_run then io_return () else
                    io_bind (io_try (on_world (on_blobs (bs_delete bs blob_id)))) (\<lambda>_. io_return ())) (\<lambda>_.
                  io_bind (set_candidates (AList.delete key candidates)) (\<lambda>_.
                  io_return (deleted + 1, deleted_bytes + sz)))
             else io_return (deleted, deleted_bytes)
         | None \<Rightarrow>
             if max_orphan_candidates \<le> length candidates then io_return (deleted, deleted_bytes)
             else io_bind (set_candidates ((key, current_pass) # candidates)) (\<lambda>_. io_return (deleted, deleted_bytes))))"

text \<open>One shard of the walk: nothing once cancelled; errors of the scan are only logged.\<close>

definition is_cancelled :: "('s, 'b, 'f) gc_env \<Rightarrow> (('s, 'b) gc_run, bool) io" where
  "is_cancelled E = (\<lambda>g. Some (Inr (ge_cancel E (gr_polls g)), g\<lparr>gr_polls := gr_polls g + 1\<rparr>))"

definition walk_shard ::
    "('s, 'b, 'f) gc_env \<Rightarrow> 'b blob_store \<Rightarrow> string \<Rightarrow> bool \<Rightarrow> nat \<Rightarrow> (string \<Rightarrow> bool) \<Rightarrow> nat \<Rightarrow> u64 \<times> u64 \<Rightarrow>
     (('s, 'b) gc_run, u64 \<times> u64) io" where
  "walk_shard E bs store_name dry_run max_orphan_candidates live shard counts =
    io_bind (is_cancelled E) (\<lambda>cancelled.
      if cancelled then io_return counts
      else io_bind (io_try (on_world (on_blobs (bs_scan_blobs_sharded bs shard)))) (\<lambda>r. case r of
          Inl _ \<Rightarrow> io_return counts
        | Inr items \<Rightarrow>
            io_fold (consume_orphan bs store_name dry_run max_orphan_candidates)
              (filter (\<lambda>(blob_id, _). \<not> live blob_id) (scanned items)) counts))"

definition sweep_store ::
    "('s, 'b, 'f) gc_env \<Rightarrow> bool \<Rightarrow> nat \<Rightarrow> (string \<Rightarrow> bool) \<Rightarrow> store_record \<Rightarrow> sweep_count \<times> u64 \<times> u64 \<Rightarrow>
     (('s, 'b) gc_run, sweep_count \<times> u64 \<times> u64) io" where
  "sweep_store E dry_run max_orphan_candidates live store_rec = (\<lambda>(total, counts).
    let store_name = st_name store_rec in
    io_bind (sweep_records E dry_run live store_name) (\<lambda>c.
    io_bind (read_clock E) (\<lambda>now.
    io_bind (io_try (on_world (on_kv (put_store_stats (ge_kv E) (ge_codecs E) store_name
        \<lparr>ss_blob_count = sw_live_count c, ss_total_bytes = sw_live_bytes c, ss_updated_at = now\<rparr>)))) (\<lambda>_.
    case registry_get (ge_registry E) store_name of
      None \<Rightarrow> io_return (add_sweep total c, counts)
    | Some bs \<Rightarrow>
        io_bind (io_fold (walk_shard E bs store_name dry_run max_orphan_candidates live)
            [0..<bs_scan_shard_count bs] counts) (\<lambda>counts'.
          io_return (add_sweep total c, counts'))))))"

definition prune_candidates :: "(string \<Rightarrow> bool) \<Rightarrow> (('s, 'b) gc_run, unit) io" where
  "prune_candidates live = io_bind get_gc (\<lambda>state.
     set_candidates (filter (\<lambda>((_, blob_id), _). \<not> live blob_id) (gs_orphan_candidates state)))"

section \<open>The pass\<close>

definition next_pass :: "(('s, 'b) gc_run, unit) io" where
  "next_pass = (\<lambda>g. Some (Inr (), g\<lparr>gr_gc := (gr_gc g)\<lparr>gs_pass := gs_pass (gr_gc g) + 1\<rparr>\<rparr>))"

definition UPLOAD_SESSION_TTL :: int where
  "UPLOAD_SESSION_TTL = 3600 * 1000000000"

text \<open>From the list of repositories on: what decides which blobs go.\<close>

definition collect_repos ::
    "('s, 'b, 'f) gc_env \<Rightarrow> bool \<Rightarrow> repo_config list \<Rightarrow> (('s, 'b) gc_run, u64 \<times> u64 \<times> 'f \<times> u64 \<times> u64) io" where
  "collect_repos E dry_run repos =
    io_bind (io_map (pre_expire E) (filter (\<lambda>r. is_docker_repo r \<and> has_policy r) repos)) (\<lambda>pre_expired.
    io_bind (check_cancel E ''GC pass cancelled'') (\<lambda>_.
    io_bind (io_map (\<lambda>repo. docker_gc E repo dry_run) (filter is_docker_repo repos)) (\<lambda>docker_deleted.
    io_bind (check_cancel E ''GC pass cancelled'') (\<lambda>_.
    io_bind (artifact_scan E dry_run repos) (\<lambda>(combined, scanned, expired).
      io_return (sum_list pre_expired, sum_list docker_deleted, combined, scanned, expired))))))"

definition sweep_stores ::
    "('s, 'b, 'f) gc_env \<Rightarrow> bool \<Rightarrow> nat \<Rightarrow> (string \<Rightarrow> bool) \<Rightarrow> store_record list \<Rightarrow> (('s, 'b) gc_run, sweep_count \<times> u64 \<times> u64) io" where
  "sweep_stores E dry_run max_orphan_candidates live store_records =
    io_bind (check_cancel E ''GC pass cancelled'') (\<lambda>_.
    io_bind (prune_candidates live) (\<lambda>_.
    io_fold (sweep_store E dry_run max_orphan_candidates live) store_records (no_sweep, 0, 0)))"

definition gc_pass :: "('s, 'b, 'f) gc_env \<Rightarrow> nat \<Rightarrow> bool \<Rightarrow> (('s, 'b) gc_run, gc_stats) io" where
  "gc_pass E max_orphan_candidates dry_run =
    io_bind next_pass (\<lambda>_.
    io_bind (drain_until_none E 0) (\<lambda>drained_repos.
    io_bind (read_clock E) (\<lambda>now.
    io_bind (io_try (on_world (cleanup_upload_sessions (ge_kv E) (ge_codecs E)
        (\<lambda>name. map_option bs_delete (registry_get (ge_registry E) name)) now UPLOAD_SESSION_TTL))) (\<lambda>cleaned.
    io_bind (on_world (on_kv (list_repos (ge_kv E) (ge_codecs E)))) (\<lambda>repos.
    io_bind (on_world (on_kv (list_stores (ge_kv E) (ge_codecs E)))) (\<lambda>store_records.
    io_bind (collect_repos E dry_run repos) (\<lambda>(pre_expired, docker_deleted, combined, scanned, expired).
    io_bind (sweep_stores E dry_run max_orphan_candidates (bl_check (ge_bloom E) combined) store_records)
      (\<lambda>(c, orphans_deleted, orphan_bytes).
    io_return \<lparr>gt_drained_repos = drained_repos,
      gt_cleaned_upload_sessions = (case cleaned of Inl _ \<Rightarrow> 0 | Inr n \<Rightarrow> of_nat n),
      gt_scanned_artifacts = scanned, gt_expired_artifacts = expired + pre_expired,
      gt_docker_deleted = docker_deleted, gt_scanned_blobs = sw_scanned c,
      gt_deleted_dedup_refs = sw_deleted c, gt_orphaned_blobs_deleted = orphans_deleted,
      gt_orphaned_blob_bytes_deleted = orphan_bytes\<rparr>))))))))"

section \<open>The filter holds every blob that an artifact names\<close>

text \<open>Every blob that a decodable artifact of a partition names passes the check.\<close>

definition names_checked :: "artifact_record codec \<Rightarrow> (string \<Rightarrow> bool) \<Rightarrow> string \<Rightarrow> kv_view \<Rightarrow> bool" where
  "names_checked c live pk v \<longleftrightarrow> (\<forall>sk b n r i. v TABLE_ARTIFACTS pk sk = Some (b, n) \<longrightarrow> decode c b = Inr r \<longrightarrow>
     ar_blob_id r = Some i \<longrightarrow> live i)"

lemma names_checked_shrink: "names_checked c live pk v \<Longrightarrow> artifacts_shrink v v' \<Longrightarrow> names_checked c live pk v'"
  unfolding names_checked_def artifacts_shrink_def by (metis option.distinct(1))

lemma names_checked_mono: "names_checked c live pk v \<Longrightarrow> (\<And>i. live i \<Longrightarrow> live' i) \<Longrightarrow> names_checked c live' pk v"
  unfolding names_checked_def by blast

lemma wp_io_fold:
  assumes "I [] a s"
    and "\<And>dn x rest a s. xs = dn @ x # rest \<Longrightarrow> I dn a s \<Longrightarrow>
      wp (f x a) (\<lambda>r s'. case r of Inl e \<Rightarrow> X e s' | Inr a' \<Rightarrow> I (dn @ [x]) a' s') s"
  shows "wp (io_fold f xs a) (\<lambda>r s'. case r of Inl e \<Rightarrow> X e s' | Inr a' \<Rightarrow> I xs a' s') s"
proof -
  have "wp (io_fold f ys a) (\<lambda>r s'. case r of Inl e \<Rightarrow> X e s' | Inr a' \<Rightarrow> I xs a' s') s"
    if "xs = dn @ ys" "I dn a s" for ys dn a s
    using that
  proof (induction ys arbitrary: dn a s)
    case (Cons y ys)
    show ?case
      unfolding io_fold.simps
    proof (rule wp_bindI)
      show "wp (f y a) (\<lambda>r s'. case r of Inl e \<Rightarrow> X e s' | Inr a' \<Rightarrow> I (dn @ [y]) a' s') s"
        using assms(2) Cons.prems by blast
      fix a' s' assume "case Inr a' of Inl e \<Rightarrow> X e s' | Inr a' \<Rightarrow> I (dn @ [y]) a' s'"
      then show "wp (io_fold f ys a') (\<lambda>r s'. case r of Inl e \<Rightarrow> X e s' | Inr a' \<Rightarrow> I xs a' s') s'"
        using Cons.IH [of "dn @ [y]"] Cons.prems by simp
    qed simp
  qed simp
  from this [of "[]" xs] assms(1) show ?thesis by simp
qed

text \<open>
  What a scan expects of the repositories: no cutoff is out of range, and every artifact is filed
  under its own path.
\<close>

definition no_panic :: "('s, 'b, 'f) gc_env \<Rightarrow> repo_config list \<Rightarrow> bool" where
  "no_panic E repos \<longleftrightarrow> (\<forall>n. \<forall>r \<in> set repos. expiry_cutoffs (ge_now E n) r \<noteq> None)"

definition repos_ok :: "('s, 'b, 'f) gc_env \<Rightarrow> repo_config list \<Rightarrow> kv_view \<Rightarrow> bool" where
  "repos_ok E repos v \<longleftrightarrow> (\<forall>r \<in> set repos. pk_ok (rp_name r) \<and> placed (ge_hasher E) (rp_name r) v)"

context gc_stack
begin

abbreviation chk :: "'f \<Rightarrow> string \<Rightarrow> bool" where
  "chk \<equiv> bl_check (ge_bloom E)"

abbreviation art_codec :: "artifact_record codec" where
  "art_codec \<equiv> cs_artifact (ge_codecs E)"

lemma scan_items_spec:
  assumes repo: "pk_ok repo"
  shows "run_ok g \<Longrightarrow> wp (scan_items E repo d age un items (a, es)) (\<lambda>r g'.
    run_ok g' \<and> run_frame g g' \<and> kvv g' = kvv g \<and> (\<exists>a' new. r = Inr (a', es @ new) \<and>
      same_params (ge_bloom E) (sa_local_bf a) (sa_local_bf a') \<and> (\<forall>i. chk (sa_local_bf a) i \<longrightarrow> chk (sa_local_bf a') i) \<and>
      picked art_codec (may_expire d age un) (must_expire d age) items (fst ` set new) \<and>
      (\<forall>k b rec i. (k, b) \<in> set items \<longrightarrow> decode art_codec b = Inr rec \<longrightarrow> ar_blob_id rec = Some i \<longrightarrow>
        k \<in> fst ` set new \<or> chk (sa_local_bf a') i))) g"
proof (induction items arbitrary: a es g)
  case (Cons item items)
  obtain sk b0 where item: "item = (sk, b0)" by (cases item)
  show ?case
  proof (cases "decode art_codec b0")
    case (Inl e)
    show ?thesis
      unfolding item scan_items.simps Inl sum.case
      by (rule wp_mono [OF Cons.IH [OF Cons.prems]]) (use Inl picked_skip in auto)
  next
    case (Inr rec)
    show ?thesis
      unfolding item scan_items.simps Inr sum.case
    proof (rule wp_bindI [where P = "\<lambda>r g'. run_ok g' \<and> run_frame g g' \<and> kvv g' = kvv g \<and>
        (\<exists>x. r = Inr x \<and> (x \<noteq> None \<longrightarrow> may_expire d age un sk rec) \<and> (must_expire d age sk rec \<longrightarrow> x \<noteq> None))"], goal_cases)
      case 1
      show ?case
        unfolding wp_on_world wp_on_kv
        by (rule wp_mono [OF record_expired_spec [OF Cons.prems repo]]) (auto simp: run_frame_def)
    next
      case (3 x g1)
      then have g1: "run_ok g1" "run_frame g g1" "kvv g1 = kvv g"
        and x: "x \<noteq> None \<Longrightarrow> may_expire d age un sk rec" "must_expire d age sk rec \<Longrightarrow> x \<noteq> None"
        by auto
      define bf1 where "bf1 = (case ar_blob_id rec of Some i \<Rightarrow> bl_set (ge_bloom E) (sa_local_bf a) i | None \<Rightarrow> sa_local_bf a)"
      define a1 where "a1 = (case x of Some _ \<Rightarrow> a | None \<Rightarrow> a\<lparr>sa_local_bf := bf1, sa_scanned := sa_scanned a + 1\<rparr>)"
      define new1 where "new1 = (case x of Some _ \<Rightarrow> [(sk, ar_size rec)] | None \<Rightarrow> [])"
      have acc: "(case x of Some _ \<Rightarrow> (a, es @ [(sk, ar_size rec)])
          | None \<Rightarrow> (a\<lparr>sa_local_bf := bf1, sa_scanned := sa_scanned a + 1\<rparr>, es)) = (a1, es @ new1)"
        by (simp add: a1_def new1_def split: option.splits)
      have bf1: "same_params (ge_bloom E) (sa_local_bf a) bf1" "chk (sa_local_bf a) i \<Longrightarrow> chk bf1 i"
        "ar_blob_id rec = Some i \<Longrightarrow> chk bf1 i" for i
        unfolding bf1_def by (auto simp: same_params_set check_set check_set_other split: option.splits)
      have a1: "same_params (ge_bloom E) (sa_local_bf a) (sa_local_bf a1)" "chk (sa_local_bf a) i \<Longrightarrow> chk (sa_local_bf a1) i"
        "x = None \<Longrightarrow> ar_blob_id rec = Some i \<Longrightarrow> chk (sa_local_bf a1) i" for i
        using bf1 by (auto simp: a1_def split: option.splits)
      show ?case
        unfolding bf1_def [symmetric] acc
      proof (rule wp_mono [OF Cons.IH [OF g1(1), of a1 "es @ new1"]], goal_cases)
        case (1 r g2)
        then obtain a' new where r: "r = Inr (a', (es @ new1) @ new)"
          and sp: "same_params (ge_bloom E) (sa_local_bf a1) (sa_local_bf a')" "\<And>i. chk (sa_local_bf a1) i \<Longrightarrow> chk (sa_local_bf a') i"
          and new: "picked art_codec (may_expire d age un) (must_expire d age) items (fst ` set new)"
          and named: "\<And>k b rec i. (k, b) \<in> set items \<Longrightarrow> decode art_codec b = Inr rec \<Longrightarrow> ar_blob_id rec = Some i \<Longrightarrow>
              k \<in> fst ` set new \<or> chk (sa_local_bf a') i"
          by blast
        have "picked art_codec (may_expire d age un) (must_expire d age) ((sk, b0) # items) (fst ` set (new1 @ new))"
          using x picked_keep [OF new Inr, of sk] picked_take [OF new Inr, of sk] by (cases x) (auto simp: new1_def)
        moreover have "k \<in> fst ` set (new1 @ new) \<or> chk (sa_local_bf a') i"
          if kb: "(k, b) \<in> set ((sk, b0) # items)" and rec': "decode art_codec b = Inr rec'" "ar_blob_id rec' = Some i" for k b rec' i
        proof (cases "(k, b) \<in> set items")
          case True
          then show ?thesis using named [OF True rec'] by auto
        next
          case False
          then have "k = sk" "rec' = rec" using kb rec' Inr by auto
          then show ?thesis using a1(3) sp(2) rec'(2) by (cases x) (auto simp: new1_def)
        qed
        moreover have "r = Inr (a', es @ (new1 @ new))" using r by simp
        moreover have "same_params (ge_bloom E) (sa_local_bf a) (sa_local_bf a')" by (rule same_params_trans [OF a1(1) sp(1)])
        ultimately show ?case using 1 g1 a1(2) sp(2) run_frame_trans [OF g1(2)] by (auto simp: item) metis+
      qed
    qed auto
  qed
qed auto

text \<open>One partition: what is left of it is in the filter, and nothing but the policy removed records.\<close>

definition partition_scanned ::
    "bool \<Rightarrow> bool \<Rightarrow> datetime option \<Rightarrow> datetime option \<Rightarrow> (string \<Rightarrow> bool) \<Rightarrow> string \<Rightarrow> kv_view \<Rightarrow> kv_view \<Rightarrow> bool" where
  "partition_scanned dry d age un live pk v v' \<longleftrightarrow>
     (if dry then v' = v else policy_applied art_codec d age un {pk} v v' \<and> names_checked art_codec live pk v')"

lemma scan_partition_spec:
  fixes repo :: string and shard :: nat
  defines "pk \<equiv> artifact_shard_pk repo shard"
  assumes g: "run_ok g" and repo: "pk_ok repo" and pl: "placed (ge_hasher E) repo (kvv g)" and t: "same_params (ge_bloom E) t (sa_local_bf a)"
  shows "wp (batch_loop E msg TABLE_ARTIFACTS pk (scan_batch E dry repo d age un) None a) (\<lambda>r g'. run_ok g' \<and> run_frame g g' \<and>
    (\<forall>a'. r = Inr a' \<longrightarrow> same_params (ge_bloom E) t (sa_local_bf a') \<and>
      partition_scanned dry d age un (chk (sa_local_bf a')) pk (kvv g) (kvv g'))) g"
proof -
  let ?v0 = "kvv g"
  define Inv where "Inv seen (a' :: 'f scan_acc) v \<longleftrightarrow> same_params (ge_bloom E) t (sa_local_bf a') \<and>
      (\<exists>ks. picked art_codec (may_expire d age un) (must_expire d age) seen ks \<and>
        (\<forall>k \<in> ks. record_sat art_codec (may_expire d age un) ?v0 pk k) \<and>
        (if dry then v = ?v0 else artifact_frame pk ks ?v0 v \<and> (\<forall>k \<in> ks. v TABLE_ARTIFACTS pk k = None)) \<and>
        (\<forall>k b rec i. (k, b) \<in> set seen \<longrightarrow> decode art_codec b = Inr rec \<longrightarrow> ar_blob_id rec = Some i \<longrightarrow>
          k \<in> ks \<or> chk (sa_local_bf a') i))" for seen a' v
  define Err where "Err (v :: kv_view) \<longleftrightarrow> True" for v
  have pkok: "pk_ok pk" using repo by (simp add: pk_def artifact_shard_pk_def)
  have step: "wp (scan_batch E dry repo d age un items a1) (\<lambda>r g'. run_ok g' \<and> run_frame g1 g' \<and>
      (case r of Inl e \<Rightarrow> Err (kvv g') | Inr a' \<Rightarrow> Inv (seen @ items) a' (kvv g') \<and>
        (\<forall>k. k \<notin> fst ` set items \<longrightarrow> kvv g' TABLE_ARTIFACTS pk k = kvv g1 TABLE_ARTIFACTS pk k))) g1"
    if g1: "run_ok g1" and inv: "Inv seen a1 (kvv g1)"
      and present: "\<forall>(sk, b) \<in> set items. \<exists>n. kvv g1 TABLE_ARTIFACTS pk sk = Some (b, n)" for seen items a1 g1
  proof -
    obtain ks where sp1: "same_params (ge_bloom E) t (sa_local_bf a1)"
      and ks: "picked art_codec (may_expire d age un) (must_expire d age) seen ks"
      "\<forall>k \<in> ks. record_sat art_codec (may_expire d age un) ?v0 pk k"
      and v1: "if dry then kvv g1 = ?v0 else artifact_frame pk ks ?v0 (kvv g1) \<and> (\<forall>k \<in> ks. kvv g1 TABLE_ARTIFACTS pk k = None)"
      and named: "\<And>k b rec i. (k, b) \<in> set seen \<Longrightarrow> decode art_codec b = Inr rec \<Longrightarrow> ar_blob_id rec = Some i \<Longrightarrow>
          k \<in> ks \<or> chk (sa_local_bf a1) i"
      using inv unfolding Inv_def by blast
    have old: "?v0 TABLE_ARTIFACTS pk sk = Some (b, n)" if "kvv g1 TABLE_ARTIFACTS pk sk = Some (b, n)" for sk b n
      using that v1 artifact_frameD(1) [of pk ks ?v0 "kvv g1" sk] by (cases dry; cases "sk \<in> ks") auto
    show ?thesis
      unfolding scan_batch_def
    proof (rule wp_bindI [OF scan_items_spec [OF repo g1]], goal_cases)
      case (2 x g2)
      then obtain a2 new where x: "x = (a2, new)" and g2: "run_ok g2" "run_frame g1 g2" "kvv g2 = kvv g1"
        and sp2: "same_params (ge_bloom E) (sa_local_bf a1) (sa_local_bf a2)" "\<And>i. chk (sa_local_bf a1) i \<Longrightarrow> chk (sa_local_bf a2) i"
        and new: "picked art_codec (may_expire d age un) (must_expire d age) items (fst ` set new)"
        and named2: "\<And>k b rec i. (k, b) \<in> set items \<Longrightarrow> decode art_codec b = Inr rec \<Longrightarrow> ar_blob_id rec = Some i \<Longrightarrow>
          k \<in> fst ` set new \<or> chk (sa_local_bf a2) i" by auto
      have sat: "record_sat art_codec (may_expire d age un) ?v0 pk k" and filed: "artifact_key (ge_hasher E) repo k = (TABLE_ARTIFACTS, pk, k)"
        and item: "k \<in> fst ` set items"
        if k: "k \<in> fst ` set new" for k
      proof -
        obtain b r where br: "(k, b) \<in> set items" "decode art_codec b = Inr r" "may_expire d age un k r"
          using new k unfolding picked_def by blast
        obtain n where "kvv g1 TABLE_ARTIFACTS pk k = Some (b, n)" using present br(1) by blast
        then have v0: "?v0 TABLE_ARTIFACTS pk k = Some (b, n)" by (rule old)
        show "record_sat art_codec (may_expire d age un) ?v0 pk k" using v0 br unfolding record_sat_def by blast
        show "artifact_key (ge_hasher E) repo k = (TABLE_ARTIFACTS, pk, k)"
          using pl v0 unfolding placed_def pk_def by (metis option.distinct(1))
        show "k \<in> fst ` set items" using br(1) by force
      qed
      let ?ks = "ks \<union> fst ` set new"
      have sp: "same_params (ge_bloom E) t (sa_local_bf a2)" by (rule same_params_trans [OF sp1 sp2(1)])
      have whole: "picked art_codec (may_expire d age un) (must_expire d age) (seen @ items) ?ks"
        "\<forall>k \<in> ?ks. record_sat art_codec (may_expire d age un) ?v0 pk k"
        using picked_append [OF ks(1) new] ks(2) sat by auto
      have named': "\<forall>k b rec i. (k, b) \<in> set (seen @ items) \<longrightarrow> decode art_codec b = Inr rec \<longrightarrow> ar_blob_id rec = Some i \<longrightarrow>
          k \<in> ?ks \<or> chk (sa_local_bf a2) i"
        using named named2 sp2(2) by (simp only: set_append Un_iff) blast
      have InvI: "Inv (seen @ items) a3 v"
        if "sa_local_bf a3 = sa_local_bf a2"
          "if dry then v = ?v0 else artifact_frame pk ?ks ?v0 v \<and> (\<forall>k \<in> ?ks. v TABLE_ARTIFACTS pk k = None)" for a3 v
        unfolding Inv_def that(1) using sp whole that(2) named' by (intro conjI exI [of _ ?ks]) assumption+
      show ?case
      proof (cases "new \<noteq> [] \<and> \<not> dry")
        case False
        then have "Inv (seen @ items) a2 (kvv g2)"
          using v1 g2(3) by (intro InvI) auto
        then show ?thesis using False x g2 by auto
      next
        case True
        then have fr1: "artifact_frame pk ks ?v0 (kvv g1)" and gone1: "\<forall>k \<in> ks. kvv g1 TABLE_ARTIFACTS pk k = None"
          using v1 by auto
        show ?thesis
          unfolding x prod.case if_P [OF True]
        proof (rule wp_bindI [OF delete_and_report_spec [OF g2(1) repo, of new pk]], goal_cases)
          case 1 then show ?case using filed by blast
        next
          case (2 e g3)
          then show ?case using run_frame_trans [OF g2(2)] by (simp add: Err_def)
        next
          case (3 u g3)
          then have g3: "run_ok g3" "run_frame g2 g3" "artifact_frame pk (fst ` set new) (kvv g2) (kvv g3)"
            and gone: "\<forall>k \<in> fst ` set new. kvv g3 TABLE_ARTIFACTS pk k = None" by auto
          have gone': "kvv g3 TABLE_ARTIFACTS pk k = None" if "k \<in> ks" for k
            using gone that gone1 artifact_frameD(1) [OF g3(3), of k] g2(3) by (cases "k \<in> fst ` set new") auto
          have "artifact_frame pk ?ks ?v0 (kvv g3)"
            using artifact_frame_trans [OF artifact_frame_mono [OF fr1] artifact_frame_mono, of ?ks "fst ` set new" "kvv g3"] g3(3) g2(3)
            by simp
          then have "Inv (seen @ items) (a2\<lparr>sa_expired := e\<rparr>) (kvv g3)" for e
            using True gone gone' by (intro InvI) auto
          moreover have "kvv g3 TABLE_ARTIFACTS pk k = kvv g1 TABLE_ARTIFACTS pk k" if "k \<notin> fst ` set items" for k
            using artifact_frameD(1) [OF g3(3), of k] that item g2(3) by metis
          ultimately show ?case using g3(1) run_frame_trans [OF g2(2) g3(2)] by simp
        qed
      qed
    qed simp
  qed
  have start: "Inv [] a ?v0" using t unfolding Inv_def by (intro conjI exI [of _ "{}"]) simp_all
  define R where "R = entries_where (?v0 TABLE_ARTIFACTS pk) (in_range [] None)"
  have R': "R = entries_where (?v0 TABLE_ARTIFACTS pk) (in_range (case None of Some c \<Rightarrow> c | None \<Rightarrow> []) None)"
    by (simp add: R_def)
  have loop: "wp (batch_loop E msg TABLE_ARTIFACTS pk (scan_batch E dry repo d age un) None a) (\<lambda>r g'. run_ok g' \<and> run_frame g g' \<and>
      (case r of Inl e \<Rightarrow> Err (kvv g') | Inr acc' \<Rightarrow> Inv ([] @ R) acc' (kvv g'))) g"
    by (rule batch_loop_spec [where Inv = Inv and Err = Err, OF pkok _ _ g start R']) (simp add: Err_def, fact step)
  show ?thesis
  proof (rule wp_mono [OF loop], goal_cases)
    case (1 r g')
    have R: "(k, b) \<in> set R \<longleftrightarrow> (\<exists>n. ?v0 TABLE_ARTIFACTS pk k = Some (b, n))" for k b
      unfolding R_def by (simp add: set_entries_where [OF view_finite [OF g]] in_range_def)
    have "same_params (ge_bloom E) t (sa_local_bf a') \<and> partition_scanned dry d age un (chk (sa_local_bf a')) pk ?v0 (kvv g')"
      if r: "r = Inr a'" for a'
    proof -
      obtain ks where sp: "same_params (ge_bloom E) t (sa_local_bf a')"
        and ks: "picked art_codec (may_expire d age un) (must_expire d age) R ks"
        "\<forall>k \<in> ks. record_sat art_codec (may_expire d age un) ?v0 pk k"
        and v: "if dry then kvv g' = ?v0 else artifact_frame pk ks ?v0 (kvv g') \<and> (\<forall>k \<in> ks. kvv g' TABLE_ARTIFACTS pk k = None)"
        and named: "\<And>k b rec i. (k, b) \<in> set R \<Longrightarrow> decode art_codec b = Inr rec \<Longrightarrow> ar_blob_id rec = Some i \<Longrightarrow>
          k \<in> ks \<or> chk (sa_local_bf a') i"
        using 1 r unfolding Inv_def by auto
      show ?thesis
      proof (cases dry)
        case True
        then show ?thesis using sp v by (simp add: partition_scanned_def)
      next
        case False
        then have fr: "artifact_frame pk ks ?v0 (kvv g')" and gone: "\<forall>k \<in> ks. kvv g' TABLE_ARTIFACTS pk k = None"
          using v by auto
        have rem: "removals art_codec (may_expire d age un) {pk} ?v0 (kvv g')"
          unfolding removals_def using ks(2) artifact_frameD [OF fr] by (metis singletonI)
        have sh: "artifacts_shrink ?v0 (kvv g')"
          unfolding artifacts_shrink_def using gone artifact_frameD(1,2) [OF fr] by metis
        have must: "kvv g' TABLE_ARTIFACTS pk sk = None" if "record_sat art_codec (must_expire d age) ?v0 pk sk" for sk
          using that ks(1) gone R unfolding picked_def record_sat_def by blast
        have "names_checked art_codec (chk (sa_local_bf a')) pk (kvv g')"
          unfolding names_checked_def
        proof (intro allI impI)
          fix sk b n rec i
          assume sk: "kvv g' TABLE_ARTIFACTS pk sk = Some (b, n)" "decode art_codec b = Inr rec" "ar_blob_id rec = Some i"
          then have "sk \<notin> ks" using gone by auto
          moreover from this have "?v0 TABLE_ARTIFACTS pk sk = Some (b, n)" using sk(1) artifact_frameD(1) [OF fr, of sk] by simp
          then have "(sk, b) \<in> set R" using R by blast
          ultimately show "chk (sa_local_bf a') i" using named sk(2,3) by blast
        qed
        then show ?thesis using sp rem sh must False by (simp add: partition_scanned_def policy_applied_def)
      qed
    qed
    then show ?case using 1 by blast
  qed
qed

text \<open>An item the accumulator holds: some filter folded into it answers for the item.\<close>

definition acc_has :: "'f \<Rightarrow> bloom_accumulator \<Rightarrow> string \<Rightarrow> bool" where
  "acc_has t acc i \<longleftrightarrow> (\<exists>f. same_params (ge_bloom E) t f \<and> bits_le (filter_bits (ge_bloom E) f) (ba_bits acc) \<and> chk f i)"

lemma acc_has_finalize:
  assumes "acc_like (ge_bloom E) t acc"
  shows "\<exists>g. accumulator_finalize (ge_bloom E) acc = Inr g \<and> (\<forall>i. acc_has t acc i \<longrightarrow> chk g i)"
proof -
  obtain g where g: "accumulator_finalize (ge_bloom E) acc = Inr g" "same_params (ge_bloom E) t g"
    "filter_bits (ge_bloom E) g = ba_bits acc"
    using finalize_spec [OF assms] by blast
  have "chk g i" if has: "acc_has t acc i" for i
  proof -
    obtain f where f: "same_params (ge_bloom E) t f" "bits_le (filter_bits (ge_bloom E) f) (ba_bits acc)" "chk f i"
      using has unfolding acc_has_def by blast
    show ?thesis
      by (rule check_payload [OF same_params_trans [OF same_params_sym [OF f(1)] g(2)]]) (use f g in simp_all)
  qed
  with g(1) show ?thesis by blast
qed

text \<open>What a scan leaves: in a real run the artifacts shrink and those left are in the filter.\<close>

definition other_tables :: "kv_view \<Rightarrow> kv_view \<Rightarrow> bool" where
  "other_tables v v' \<longleftrightarrow> (\<forall>t pk sk. t \<noteq> TABLE_ARTIFACTS \<longrightarrow> t \<noteq> TABLE_DIR_ENTRIES \<longrightarrow> v' t pk sk = v t pk sk)"

definition scanned_ok :: "bool \<Rightarrow> (string \<Rightarrow> bool) \<Rightarrow> string set \<Rightarrow> kv_view \<Rightarrow> kv_view \<Rightarrow> bool" where
  "scanned_ok dry live pks v v' \<longleftrightarrow> (if dry then v' = v
     else artifacts_shrink v v' \<and> other_tables v v' \<and> (\<forall>pk \<in> pks. names_checked art_codec live pk v'))"

lemma scanned_ok_empty [simp]: "scanned_ok dry live {} v v"
  by (simp add: scanned_ok_def other_tables_def)

lemma scanned_ok_shrink: "scanned_ok dry live pks v v' \<Longrightarrow> artifacts_shrink v v'"
  by (auto simp: scanned_ok_def split: if_splits)

lemma scanned_ok_step:
  assumes "scanned_ok dry live pks u v" "partition_scanned dry d age un live' pk v w" "\<And>i. live i \<Longrightarrow> live' i"
  shows "scanned_ok dry live' (insert pk pks) u w"
proof (cases dry)
  case True
  then show ?thesis using assms by (simp add: scanned_ok_def partition_scanned_def)
next
  case False
  then have v: "artifacts_shrink u v" "other_tables u v" "\<forall>pk \<in> pks. names_checked art_codec live pk v"
    and w: "policy_applied art_codec d age un {pk} v w" "names_checked art_codec live' pk w"
    using assms by (simp_all add: scanned_ok_def partition_scanned_def)
  have sh: "artifacts_shrink v w" and rem: "removals art_codec (may_expire d age un) {pk} v w"
    using w(1) by (simp_all add: policy_applied_def)
  have "other_tables v w" unfolding other_tables_def using rem unfolding removals_def by metis
  then have "other_tables u w" using v(2) by (simp add: other_tables_def)
  moreover have "names_checked art_codec live' pk' w" if "pk' \<in> pks" for pk'
    by (rule names_checked_mono [OF names_checked_shrink [OF bspec [OF v(3) that] sh]]) (rule assms(3))
  ultimately show ?thesis using artifacts_shrink_trans [OF v(1) sh] w(2) False by (simp add: scanned_ok_def)
qed

lemma scan_task_spec:
  assumes g: "run_ok g" and repo: "pk_ok (rp_name repo)" and pl: "placed (ge_hasher E) (rp_name repo) (kvv g)"
    and acc: "acc_like (ge_bloom E) t acc"
  shows "wp (scan_task E dry t repo (age, un) shard (acc, n, m)) (\<lambda>r g'. run_ok g' \<and> run_frame g g' \<and>
    (\<forall>acc' n' m'. r = Inr (acc', n', m') \<longrightarrow> acc_like (ge_bloom E) t acc' \<and> (\<forall>i. acc_has t acc i \<longrightarrow> acc_has t acc' i) \<and>
      partition_scanned dry (is_docker_repo repo) age un (acc_has t acc') (artifact_shard_pk (rp_name repo) shard) (kvv g) (kvv g'))) g"
proof -
  obtain b where b: "bloom_empty_like (ge_bloom E) t = Inr b" "same_params (ge_bloom E) t b" using empty_like_spec by blast
  let ?a = "\<lparr>sa_local_bf = b, sa_scanned = 0, sa_expired = 0\<rparr>"
  have t: "same_params (ge_bloom E) t (sa_local_bf ?a)" using b by simp
  show ?thesis
    unfolding scan_task_def prod.case wp_bind_ok [OF b(1)] fst_conv snd_conv
  proof (rule wp_bindI [OF scan_partition_spec [OF g repo pl t]], goal_cases)
    case (2 a g1)
    then have g1: "run_ok g1" "run_frame g g1" and sp: "same_params (ge_bloom E) t (sa_local_bf a)"
      and sc: "partition_scanned dry (is_docker_repo repo) age un (chk (sa_local_bf a)) (artifact_shard_pk (rp_name repo) shard) (kvv g) (kvv g1)"
      by auto
    obtain acc' where acc': "or_from (ge_bloom E) acc (sa_local_bf a) = Inr acc'" "acc_like (ge_bloom E) t acc'"
      "bits_le (ba_bits acc) (ba_bits acc')" "bits_le (filter_bits (ge_bloom E) (sa_local_bf a)) (ba_bits acc')"
      using or_from_spec(1) [OF acc sp] by blast
    have "acc_has t acc' i" if "acc_has t acc i" for i
      using that acc'(3) bits_le_trans unfolding acc_has_def by blast
    moreover have "acc_has t acc' i" if "chk (sa_local_bf a) i" for i
      using that acc'(4) sp unfolding acc_has_def by blast
    then have "partition_scanned dry (is_docker_repo repo) age un (acc_has t acc') (artifact_shard_pk (rp_name repo) shard) (kvv g) (kvv g1)"
      using sc names_checked_mono [of art_codec "chk (sa_local_bf a)"] by (auto simp: partition_scanned_def split: if_splits)
    ultimately show ?case using g1 acc'(2) by (simp add: wp_bind_ok [OF acc'(1)])
  qed auto
qed

text \<open>All shards of all repositories.\<close>

lemma scan_repo_spec:
  assumes g: "run_ok g" and repo: "pk_ok (rp_name repo)" and pl: "placed (ge_hasher E) (rp_name repo) v0"
    and acc: "acc_like (ge_bloom E) t acc" and so: "scanned_ok dry (acc_has t acc) pks v0 (kvv g)"
  shows "wp (io_fold (scan_task E dry t repo cs) order (acc, n, m)) (\<lambda>r g'. run_ok g' \<and> run_frame g g' \<and>
    (\<forall>acc' n' m'. r = Inr (acc', n', m') \<longrightarrow> acc_like (ge_bloom E) t acc' \<and>
      scanned_ok dry (acc_has t acc') (artifact_shard_pk (rp_name repo) ` set order \<union> pks) v0 (kvv g'))) g"
proof -
  obtain age un where cs: "cs = (age, un)" by (cases cs)
  let ?pk = "artifact_shard_pk (rp_name repo)"
  define I where "I dn a g' \<longleftrightarrow> run_ok g' \<and> run_frame g g' \<and> acc_like (ge_bloom E) t (fst a) \<and>
        scanned_ok dry (acc_has t (fst a)) (?pk ` set dn \<union> pks) v0 (kvv g')" for dn :: "nat list" and a :: "bloom_accumulator \<times> u64 \<times> u64" and g'
  have "wp (io_fold (scan_task E dry t repo (age, un)) order (acc, n, m)) (\<lambda>r g'. case r of
      Inl e \<Rightarrow> run_ok g' \<and> run_frame g g' | Inr a \<Rightarrow> I order a g') g"
  proof (rule wp_io_fold [where I = I], goal_cases)
    case (2 dn shard rest a g1)
    obtain acc1 n1 m1 where a: "a = (acc1, n1, m1)" by (cases a)
    have g1: "run_ok g1" "run_frame g g1" "acc_like (ge_bloom E) t acc1"
      and so1: "scanned_ok dry (acc_has t acc1) (?pk ` set dn \<union> pks) v0 (kvv g1)" using 2 a by (auto simp: I_def)
    show ?case
      unfolding a
    proof (rule wp_mono [OF scan_task_spec [OF g1(1) repo placed_shrink [OF pl scanned_ok_shrink [OF so1]] g1(3)]], goal_cases)
      case (1 r g2)
      show ?case
      proof (cases r)
        case (Inr x)
        obtain acc2 n2 m2 where x: "x = (acc2, n2, m2)" by (cases x)
        have acc2: "acc_like (ge_bloom E) t acc2" "\<And>i. acc_has t acc1 i \<Longrightarrow> acc_has t acc2 i"
          "partition_scanned dry (is_docker_repo repo) age un (acc_has t acc2) (?pk shard) (kvv g1) (kvv g2)"
          using 1 Inr x by auto
        show ?thesis
          using scanned_ok_step [OF so1 acc2(3,2)] acc2(1) 1 Inr x run_frame_trans [OF g1(2)] by (simp add: I_def)
      qed (use 1 run_frame_trans [OF g1(2)] in auto)
    qed
  qed (use assms in \<open>simp add: I_def\<close>)
  then show ?thesis unfolding cs by (rule wp_mono) (auto simp: I_def split: sum.splits)
qed

lemma all_cutoffs_fst: "all_cutoffs now repos = Some tasks \<Longrightarrow> map fst tasks = repos"
  by (induction repos arbitrary: tasks) (auto split: option.splits)

lemma estimate_total_spec:
  assumes repos: "\<And>r. r \<in> set repos \<Longrightarrow> pk_ok (rp_name r)"
  shows "run_ok g \<Longrightarrow> wp (estimate_total E repos n) (\<lambda>r g'. run_ok g' \<and> run_frame g g' \<and> kvv g' = kvv g \<and> (\<exists>m. r = Inr m)) g"
  using assms
proof (induction repos arbitrary: n g)
  case (Cons repo repos)
  show ?case
  proof (cases "is_proxy repo")
    case True
    then show ?thesis using Cons by simp
  next
    case False
    have stats: "wp (on_world (on_kv (get_repo_stats (ge_hasher E) (ge_kv E) (ge_codecs E) repo)))
        (\<lambda>r g'. run_ok g' \<and> run_frame g g' \<and> kvv g' = kvv g) g"
    proof -
      have run: "get_repo_stats (ge_hasher E) (ge_kv E) (ge_codecs E) repo =
          io_bind (get_dir (ge_hasher E) (ge_kv E) (ge_codecs E) (rp_name repo) []) (\<lambda>d. case d of
            Some de \<Rightarrow> io_return \<lparr>rs_artifact_count = de_artifact_count de, rs_total_bytes = de_total_bytes de\<rparr>
          | None \<Rightarrow> io_return default_stats)"
        using False by (auto simp: get_repo_stats_def is_proxy_def split: repo_kind.splits)
      show ?thesis
        unfolding wp_on_world wp_on_kv run
        by (rule wp_bindI [OF get_dir_spec [OF Cons.prems(1)]])
          (use Cons.prems in \<open>auto simp: kv_read_def run_frame_def split: option.splits\<close>)
    qed
    show ?thesis
      unfolding estimate_total.simps if_not_P [OF False]
    proof (rule wp_try_bindI [OF stats], goal_cases)
      case (1 r g1)
      then show ?case
        by (intro wp_mono [OF Cons.IH [OF _ Cons.prems(2)]]) (auto intro: run_frame_trans)
    qed
  qed
qed simp

lemma all_cutoffs_total:
  "\<forall>r \<in> set repos. expiry_cutoffs now r \<noteq> None \<Longrightarrow> \<exists>tasks. all_cutoffs now repos = Some tasks"
  by (induction repos) (auto split: option.splits)

lemma repos_ok_shrink: "repos_ok E repos v \<Longrightarrow> artifacts_shrink v v' \<Longrightarrow> repos_ok E repos v'"
  unfolding repos_ok_def by (blast intro: placed_shrink)

abbreviation all_pks :: "repo_config list \<Rightarrow> string set" where
  "all_pks repos \<equiv> (\<Union>r \<in> set repos. repo_pks (rp_name r))"

lemma artifact_scan_spec:
  assumes g: "run_ok g" and repos: "repos_ok E repos (kvv g)" and np: "no_panic E repos" and order: "shard_order (ge_shards E)"
  shows "wp (artifact_scan E dry repos) (\<lambda>r g'. run_ok g' \<and> run_frame g g' \<and> (\<forall>bf n m. r = Inr (bf, n, m) \<longrightarrow>
    scanned_ok dry (chk bf) (all_pks repos) (kvv g) (kvv g'))) g"
proof -
  have pks: "pk_ok (rp_name r)" if "r \<in> set repos" for r using repos that unfolding repos_ok_def by blast
  have set_order: "set (ge_shards E) = {..<NUM_SHARDS}" using order by (simp add: shard_order_def)
  show ?thesis
    unfolding artifact_scan_def
  proof (rule wp_bindI [OF estimate_total_spec [OF pks g]], goal_cases)
    case (3 est g1)
    then have g1: "run_ok g1" "run_frame g g1" "kvv g1 = kvv g" by auto
    show ?case
    proof (cases "bl_new_for_fp_rate (ge_bloom E) (max (unat est) 1000)")
      case (Inl e)
      then show ?thesis using g1 by (simp add: wp_bind)
    next
      case (Inr t)
      obtain tasks where tasks: "all_cutoffs (ge_now E (gr_polls g1)) repos = Some tasks"
        using all_cutoffs_total [of repos "ge_now E (gr_polls g1)"] np unfolding no_panic_def by blast
      have opt: "wp (io_bind (io_of_option (Some tasks)) f) Q g' \<longleftrightarrow> wp (f tasks) Q g'" for f Q g'
        by (simp add: io_of_option_def wp_def io_bind_def)
      let ?acc0 = "accumulator_empty_like (ge_bloom E) t"
      define I where "I dn a g' \<longleftrightarrow> run_ok g' \<and> run_frame g1 g' \<and> acc_like (ge_bloom E) t (fst a) \<and>
        scanned_ok dry (acc_has t (fst a)) (all_pks (map fst dn)) (kvv g) (kvv g')"
        for dn :: "(repo_config \<times> datetime option \<times> datetime option) list" and a :: "bloom_accumulator \<times> u64 \<times> u64" and g'
      have "wp (io_fold (\<lambda>(repo, cutoffs). io_fold (scan_task E dry t repo cutoffs) (ge_shards E)) tasks (?acc0, 0, 0))
        (\<lambda>r g'. case r of Inl e \<Rightarrow> run_ok g' \<and> run_frame g1 g' | Inr a \<Rightarrow> I tasks a g') g1"
      proof (rule wp_io_fold [where I = I], goal_cases)
        case 1
        then show ?case using g1 empty_accumulator [of t] by (simp add: I_def)
      next
        case (2 dn x rest a g2)
        obtain repo cs where x: "x = (repo, cs)" by (cases x)
        obtain acc n m where a: "a = (acc, n, m)" by (cases a)
        have g2: "run_ok g2" "run_frame g1 g2" "acc_like (ge_bloom E) t acc"
          "scanned_ok dry (acc_has t acc) (all_pks (map fst dn)) (kvv g) (kvv g2)" using 2 a by (auto simp: I_def)
        have "repo \<in> set repos" using all_cutoffs_fst [OF tasks] 2(1) x by auto
        then have r: "pk_ok (rp_name repo)" "placed (ge_hasher E) (rp_name repo) (kvv g)"
          using repos unfolding repos_ok_def by auto
        show ?case
          unfolding x a prod.case
        proof (rule wp_mono [OF scan_repo_spec [OF g2(1) r g2(3,4)]], goal_cases)
          case (1 r g3)
          then show ?case using run_frame_trans [OF g2(2)]
            by (cases r) (auto simp: I_def set_order Un_commute)
        qed
      qed
      then show ?thesis
        unfolding Inr sum.case wp_bind_ok [OF refl] wp_bind [of "read_clock E"] wp_read_clock tasks opt
      proof (rule wp_bindI, goal_cases)
        case (1 e g2)
        then show ?case using run_frame_trans [OF g1(2)] by simp
      next
        case (2 a g2)
        obtain acc n m where a: "a = (acc, n, m)" by (cases a)
        have g2: "run_ok g2" "run_frame g g2" "acc_like (ge_bloom E) t acc"
          "scanned_ok dry (acc_has t acc) (all_pks repos) (kvv g) (kvv g2)"
          using 2 a all_cutoffs_fst [OF tasks] run_frame_trans [OF g1(2)] by (auto simp: I_def)
        obtain bf where bf: "accumulator_finalize (ge_bloom E) acc = Inr bf" "\<And>i. acc_has t acc i \<Longrightarrow> chk bf i"
          using acc_has_finalize [OF g2(3)] by blast
        have "scanned_ok dry (chk bf) (all_pks repos) (kvv g) (kvv g2)"
          using g2(4) names_checked_mono [of art_codec "acc_has t acc", OF _ bf(2)] by (auto simp: scanned_ok_def split: if_splits)
        then show ?case using g2 by (simp add: a wp_bind_ok [OF bf(1)])
      qed
    qed
  qed auto
qed

text \<open>The Docker phases and the scan together.\<close>

lemma removed_paths_other: "removed_paths H repo ks v v' \<Longrightarrow> other_tables v v'"
  unfolding removed_paths_def other_tables_def by (auto simp: artifact_key_def Let_def)

lemma other_tables_trans: "other_tables u v \<Longrightarrow> other_tables v w \<Longrightarrow> other_tables u w"
  by (simp add: other_tables_def)

lemma removals_other: "removals c F pks v v' \<Longrightarrow> other_tables v v'"
  unfolding removals_def other_tables_def by metis

definition shrunk :: "kv_view \<Rightarrow> kv_view \<Rightarrow> bool" where
  "shrunk v v' \<longleftrightarrow> artifacts_shrink v v' \<and> other_tables v v'"

lemma shrunk_refl [simp]: "shrunk v v"
  by (simp add: shrunk_def other_tables_def)

lemma shrunk_trans: "shrunk u v \<Longrightarrow> shrunk v w \<Longrightarrow> shrunk u w"
  using artifacts_shrink_trans other_tables_trans unfolding shrunk_def by metis

lemma shrink_map_spec:
  assumes step: "\<And>x g1. x \<in> set xs \<Longrightarrow> gc_ok g1 \<Longrightarrow> shrunk (kvv g) (kvv g1) \<Longrightarrow> wp (f x) (\<lambda>r g'. gc_ok g' \<and> stable g1 g' \<and>
      (\<forall>y. r = Inr y \<longrightarrow> shrunk (kvv g1) (kvv g'))) g1"
    and g: "gc_ok g"
  shows "wp (io_map f xs) (\<lambda>r g'. gc_ok g' \<and> stable g g' \<and> (\<forall>ys. r = Inr ys \<longrightarrow> shrunk (kvv g) (kvv g'))) g"
proof -
  have "wp (io_map f xs) (\<lambda>r g'. case r of Inl e \<Rightarrow> gc_ok g' \<and> stable g g'
      | Inr ys \<Rightarrow> gc_ok g' \<and> stable g g' \<and> shrunk (kvv g) (kvv g')) g"
  proof (rule wp_map [where I = "\<lambda>_ _ g'. gc_ok g' \<and> stable g g' \<and> shrunk (kvv g) (kvv g')"], goal_cases)
    case (2 dn ys x rest g1)
    then show ?case
      by (intro wp_mono [OF step [of x g1]]) (auto intro: stable_trans shrunk_trans split: sum.splits)
  qed (use g in simp)
  then show ?thesis by (rule wp_mono) (auto split: sum.splits)
qed

lemma pre_expire_spec:
  assumes g: "gc_ok g" and repo: "pk_ok (rp_name repo)" "placed (ge_hasher E) (rp_name repo) (kvv g)"
    and order: "shard_order (ge_shards E)"
  shows "wp (pre_expire E repo) (\<lambda>r g'. gc_ok g' \<and> stable g g' \<and> (\<forall>n. r = Inr n \<longrightarrow> shrunk (kvv g) (kvv g'))) g"
proof (cases "expiry_cutoffs (ge_now E (gr_polls g)) repo")
  case None
  then show ?thesis using g by (simp add: pre_expire_def wp_simps)
next
  case (Some c)
  obtain age un where c: "c = (age, un)" by (cases c)
  have ne: "expiry_cutoffs (ge_now E (gr_polls g)) repo \<noteq> None" using Some by simp
  show ?thesis
    unfolding pre_expire_def wp_bind [of "read_clock E"] wp_read_clock sum.case if_not_P [OF ne]
  proof (rule wp_bindI [OF expire_repo_artifacts_spec [OF conjunct1 [OF g] repo order Some [unfolded c]]], goal_cases)
    case (1 e g')
    then show ?case using run_frame_stable [OF _ _ g, of g'] by simp
  next
    case (2 x g')
    then have "policy_applied art_codec (rp_format repo = DockerF) age un (repo_pks (rp_name repo)) (kvv g) (kvv g')" by simp
    then have "shrunk (kvv g) (kvv g')" using removals_other unfolding policy_applied_def shrunk_def by blast
    then show ?case using 2 run_frame_stable [OF _ _ g, of g'] by simp
  qed
qed

lemma collect_repos_spec:
  assumes g: "gc_ok g" and repos: "repos_ok E repos (kvv g)" and np: "no_panic E repos" and order: "shard_order (ge_shards E)"
  shows "wp (collect_repos E dry repos) (\<lambda>r g'. gc_ok g' \<and> stable g g' \<and> (\<forall>a b bf n m. r = Inr (a, b, bf, n, m) \<longrightarrow>
    shrunk (kvv g) (kvv g') \<and> (\<not> dry \<longrightarrow> (\<forall>pk \<in> all_pks repos. names_checked art_codec (chk bf) pk (kvv g'))))) g"
proof -
  have rok: "pk_ok (rp_name r)" "placed (ge_hasher E) (rp_name r) v" if "r \<in> set repos" "shrunk (kvv g) v" for r v
    using repos_ok_shrink [OF repos] that unfolding shrunk_def repos_ok_def by auto
  let ?A = "filter (\<lambda>r. is_docker_repo r \<and> has_policy r) repos" and ?B = "filter is_docker_repo repos"
  have A: "wp (io_map (pre_expire E) ?A) (\<lambda>r g'. gc_ok g' \<and> stable g g' \<and> (\<forall>ys. r = Inr ys \<longrightarrow> shrunk (kvv g) (kvv g'))) g"
    by (rule shrink_map_spec [OF pre_expire_spec g]) (use rok order in auto)
  have docker: "wp (docker_gc E r dry) (\<lambda>x g'. gc_ok g' \<and> stable g1 g' \<and> (\<forall>n. x = Inr n \<longrightarrow> shrunk (kvv g1) (kvv g'))) g1"
    if g1: "gc_ok g1" and r: "r \<in> set repos" for r g1
    by (rule wp_mono [OF docker_gc_spec [OF g1 rok(1) [OF r shrunk_refl]]])
      (auto simp: shrunk_def intro: removed_paths_shrink removed_paths_other)
  show ?thesis
    unfolding collect_repos_def
  proof (rule wp_bindI [OF A], goal_cases)
    case (2 pre g1)
    then have g1: "gc_ok g1" "stable g g1" "shrunk (kvv g) (kvv g1)" by auto
    define g2 where "g2 = g1\<lparr>gr_polls := gr_polls g1 + 1\<rparr>"
    have g2: "gc_ok g2" "stable g g2" "shrunk (kvv g) (kvv g2)" using g1 by (simp_all add: g2_def stable_def)
    show ?case
    proof (cases "ge_cancel E (gr_polls g1)")
      case True
      then show ?thesis using g2 by (simp add: wp_simps g2_def)
    next
      case False
      have B: "wp (io_map (\<lambda>repo. docker_gc E repo dry) ?B) (\<lambda>r g'. gc_ok g' \<and> stable g2 g' \<and>
          (\<forall>ys. r = Inr ys \<longrightarrow> shrunk (kvv g2) (kvv g'))) g2"
        by (rule shrink_map_spec [OF docker g2(1)]) auto
      show ?thesis
        unfolding wp_bind [of "check_cancel _ _"] wp_check_cancel if_not_P [OF False] sum.case g2_def [symmetric]
      proof (rule wp_bindI [OF B], goal_cases)
        case (1 e g3)
        then show ?case using stable_trans [OF g2(2)] by simp
      next
        case (2 dd g3)
        then have g3: "gc_ok g3" "stable g g3" "shrunk (kvv g) (kvv g3)"
          using stable_trans [OF g2(2)] shrunk_trans [OF g2(3)] by auto
        define g4 where "g4 = g3\<lparr>gr_polls := gr_polls g3 + 1\<rparr>"
        have g4: "gc_ok g4" "stable g g4" "shrunk (kvv g) (kvv g4)" using g3 by (simp_all add: g4_def stable_def)
        show ?case
        proof (cases "ge_cancel E (gr_polls g3)")
          case True
          then show ?thesis using g4 by (simp add: wp_simps g4_def)
        next
          case False
          have ro: "repos_ok E repos (kvv g4)" using repos_ok_shrink [OF repos] g4(3) unfolding shrunk_def by blast
          show ?thesis
            unfolding wp_bind [of "check_cancel _ _"] wp_check_cancel if_not_P [OF False] sum.case g4_def [symmetric]
          proof (rule wp_bindI [OF artifact_scan_spec [OF conjunct1 [OF g4(1)] ro np order]], goal_cases)
            case (1 e g5)
            then show ?case using run_frame_stable [OF _ _ g4(1), of g5] stable_trans [OF g4(2)] by simp
          next
            case (2 x g5)
            obtain bf n m where x: "x = (bf, n, m)" by (cases x)
            have g5: "gc_ok g5" "stable g g5" and so: "scanned_ok dry (chk bf) (all_pks repos) (kvv g4) (kvv g5)"
              using 2 x run_frame_stable [OF _ _ g4(1), of g5] stable_trans [OF g4(2)] by auto
            have "shrunk (kvv g4) (kvv g5)" using so by (auto simp: scanned_ok_def shrunk_def other_tables_def split: if_splits)
            then show ?case using g5 so shrunk_trans [OF g4(3)] by (auto simp: x scanned_ok_def)
          qed
        qed
      qed
    qed
  qed auto
qed

end

end
