(* ===== verification/Gc_Sweep.thy ===== *)
theory Gc_Sweep
  imports Gc_Pass
begin

text \<open>
  The second half of the collection: the sweep of the blob records, the walk over the files of every
  store, and the safety of the whole pass.
\<close>

section \<open>The sweep of the blob records\<close>

text \<open>The blob records of a partition whose blob nothing refers to, and what sweeping them leaves.\<close>

definition dead_blob :: "blob_record codec \<Rightarrow> (string \<Rightarrow> bool) \<Rightarrow> kv_view \<Rightarrow> string \<Rightarrow> string \<Rightarrow> bool" where
  "dead_blob c live v pk sk \<longleftrightarrow> (\<exists>b n r. v TABLE_BLOBS pk sk = Some (b, n) \<and> decode c b = Inr r \<and> \<not> live (br_blob_id r))"

definition swept :: "blob_record codec \<Rightarrow> (string \<Rightarrow> bool) \<Rightarrow> string set \<Rightarrow> kv_view \<Rightarrow> kv_view \<Rightarrow> bool" where
  "swept c live pks v v' \<longleftrightarrow> (\<forall>t pk sk. v' t pk sk =
     (if t = TABLE_BLOBS \<and> pk \<in> pks \<and> dead_blob c live v pk sk then None else v t pk sk))"

lemma swept_empty [simp]: "swept c live {} v v"
  by (simp add: swept_def)

lemma swept_step:
  assumes "swept c live pks u v" "swept c live {pk} v w" "pk \<notin> pks"
  shows "swept c live (insert pk pks) u w"
proof -
  have "v TABLE_BLOBS pk sk = u TABLE_BLOBS pk sk" for sk using assms(1,3) unfolding swept_def by simp
  then have "dead_blob c live v pk sk = dead_blob c live u pk sk" for sk by (simp add: dead_blob_def)
  then show ?thesis using assms unfolding swept_def by auto
qed

definition live_entry :: "blob_record codec \<Rightarrow> (string \<Rightarrow> bool) \<Rightarrow> string \<times> bytes \<Rightarrow> bool" where
  "live_entry c live x \<longleftrightarrow> (case decode c (snd x) of Inl _ \<Rightarrow> False | Inr r \<Rightarrow> live (br_blob_id r))"

definition dead_entry :: "blob_record codec \<Rightarrow> (string \<Rightarrow> bool) \<Rightarrow> string \<times> bytes \<Rightarrow> bool" where
  "dead_entry c live x \<longleftrightarrow> (case decode c (snd x) of Inl _ \<Rightarrow> False | Inr r \<Rightarrow> \<not> live (br_blob_id r))"

lemma sweep_items_result:
  "\<exists>c'. sweep_items C live items (c, ds) = (c', ds @ map fst (filter (dead_entry (cs_blob C) live) items)) \<and>
     sw_live_count c' = sw_live_count c + of_nat (length (filter (live_entry (cs_blob C) live) items))"
proof (induction items arbitrary: c ds)
  case (Cons item items)
  obtain sk b where item: "item = (sk, b)" by (cases item)
  show ?case
  proof (cases "decode (cs_blob C) b")
    case (Inl e)
    then show ?thesis using Cons.IH [of "c\<lparr>sw_scanned := sw_scanned c + 1\<rparr>" ds]
      by (auto simp: item Let_def dead_entry_def live_entry_def)
  next
    case (Inr r)
    let ?c = "c\<lparr>sw_scanned := sw_scanned c + 1, sw_scanned_bytes := sw_scanned_bytes c + br_size r\<rparr>"
    show ?thesis
      using Cons.IH [of ?c "ds @ [sk]"] Inr
        Cons.IH [of "?c\<lparr>sw_live_count := sw_live_count c + 1, sw_live_bytes := sw_live_bytes c + br_size r\<rparr>" ds]
      by (auto simp: item Let_def dead_entry_def live_entry_def)
  qed
qed simp

text \<open>A candidate that an earlier pass entered.\<close>

definition earlier_candidate :: "((string \<times> string) \<times> u64) list \<Rightarrow> u64 \<Rightarrow> string \<times> string \<Rightarrow> bool" where
  "earlier_candidate cs pass key \<longleftrightarrow> (\<exists>p. map_of cs key = Some p \<and> p \<noteq> pass)"

text \<open>The blobs of an upload session, which the clean-up of stale sessions may delete.\<close>

definition session_blob :: "('s, 'b, 'f) gc_env \<Rightarrow> kv_view \<Rightarrow> string \<Rightarrow> string \<Rightarrow> bool" where
  "session_blob E v st i \<longleftrightarrow> (\<exists>k b n s. v TABLE_UPLOAD_SESSIONS SINGLE_PK k = Some (b, n) \<and>
     decode (cs_upload (ge_codecs E)) b = Inr s \<and> us_store s = st \<and> i \<in> set (us_chunk_blob_ids s @ [us_blob_id s]))"

text \<open>The repositories and stores a pass works on.\<close>

definition listed_repos :: "('s, 'b, 'f) gc_env \<Rightarrow> kv_view \<Rightarrow> repo_config list" where
  "listed_repos E v = (case decode_all (cs_repo (ge_codecs E))
     (take ADMIN_ENTITY_CAP (entries_where (v TABLE_REPOS SINGLE_PK) (\<lambda>_. True))) of Inl _ \<Rightarrow> [] | Inr rs \<Rightarrow> rs)"

definition listed_stores :: "('s, 'b, 'f) gc_env \<Rightarrow> kv_view \<Rightarrow> store_record list" where
  "listed_stores E v = (case decode_all (cs_store (ge_codecs E))
     (take ADMIN_ENTITY_CAP (entries_where (v TABLE_STORES SINGLE_PK) (\<lambda>_. True))) of Inl _ \<Rightarrow> [] | Inr rs \<Rightarrow> rs)"

definition stores_ok :: "store_record list \<Rightarrow> bool" where
  "stores_ok recs \<longleftrightarrow> (\<forall>r \<in> set recs. pk_ok (st_name r) \<and> sk_ok (st_name r))"

text \<open>An artifact of a listed repository names the blob.\<close>

definition blob_named :: "('s, 'b, 'f) gc_env \<Rightarrow> repo_config list \<Rightarrow> kv_view \<Rightarrow> string \<Rightarrow> bool" where
  "blob_named E repos v i \<longleftrightarrow> (\<exists>repo \<in> set repos. \<exists>sk rec. repo_entry (cs_artifact (ge_codecs E)) (rp_name repo) v sk rec \<and> ar_blob_id rec = Some i)"

context gc_stack
begin

abbreviation blob_codec :: "blob_record codec" where
  "blob_codec \<equiv> cs_blob (ge_codecs E)"

definition records_swept :: "bool \<Rightarrow> (string \<Rightarrow> bool) \<Rightarrow> string set \<Rightarrow> kv_view \<Rightarrow> kv_view \<Rightarrow> bool" where
  "records_swept dry live pks v v' \<longleftrightarrow> (if dry then v' = v else swept blob_codec live pks v v')"

definition only_blobs :: "kv_view \<Rightarrow> kv_view \<Rightarrow> bool" where
  "only_blobs v v' \<longleftrightarrow> (\<forall>t pk sk. t \<noteq> TABLE_BLOBS \<longrightarrow> v' t pk sk = v t pk sk)"

lemma sweep_partition_spec:
  assumes g: "run_ok g" and pk: "pk_ok pk"
  shows "wp (batch_loop E msg TABLE_BLOBS pk (sweep_batch E dry live pk) None c) (\<lambda>r g'. run_ok g' \<and> run_frame g g' \<and>
    only_blobs (kvv g) (kvv g') \<and> (\<forall>c'. r = Inr c' \<longrightarrow> records_swept dry live {pk} (kvv g) (kvv g'))) g"
proof -
  let ?v0 = "kvv g"
  define gone where "gone seen = fst ` set (filter (dead_entry blob_codec live) seen)" for seen :: "(string \<times> bytes) list"
  define Inv where "Inv seen (c' :: sweep_count) v \<longleftrightarrow> (\<forall>t pk' sk. v t pk' sk =
      (if \<not> dry \<and> t = TABLE_BLOBS \<and> pk' = pk \<and> sk \<in> gone seen then None else ?v0 t pk' sk))" for seen c' v
  define Err where "Err v \<longleftrightarrow> only_blobs ?v0 v" for v
  have err: "Err v" if "Inv seen c' v" for seen c' v using that unfolding Inv_def Err_def only_blobs_def by auto
  have step: "wp (sweep_batch E dry live pk items c1) (\<lambda>r g'. run_ok g' \<and> run_frame g1 g' \<and>
      (case r of Inl e \<Rightarrow> Err (kvv g') | Inr c' \<Rightarrow> Inv (seen @ items) c' (kvv g') \<and>
        (\<forall>k. k \<notin> fst ` set items \<longrightarrow> kvv g' TABLE_BLOBS pk k = kvv g1 TABLE_BLOBS pk k))) g1"
    if g1: "run_ok g1" and inv: "Inv seen c1 (kvv g1)" for seen items c1 g1
  proof -
    obtain c2 where items: "sweep_items (ge_codecs E) live items (c1, []) = (c2, map fst (filter (dead_entry blob_codec live) items))"
      using sweep_items_result [of "ge_codecs E" live items c1 "[]"] by auto
    let ?ds = "map fst (filter (dead_entry blob_codec live) items)"
    have ds: "set ?ds = gone items" by (simp add: gone_def)
    have more: "gone (seen @ items) = gone seen \<union> gone items" by (auto simp: gone_def)
    show ?thesis
    proof (cases "?ds \<noteq> [] \<and> \<not> dry")
      case False
      then have "dry \<or> gone items = {}" unfolding ds [symmetric] by (auto simp: filter_empty_conv)
      then have "Inv (seen @ items) c' (kvv g1)" for c' using inv more by (auto simp: Inv_def)
      then show ?thesis using False g1 by (auto simp: sweep_batch_def items)
    next
      case True
      let ?ks = "map (\<lambda>sk. (pk, sk)) ?ds"
      have oks: "\<forall>(pk', sk) \<in> set ?ks. pk_ok pk'" using pk by auto
      have mem: "(pk', sk) \<in> set ?ks \<longleftrightarrow> pk' = pk \<and> sk \<in> gone items" for pk' sk using ds by auto
      show ?thesis
        unfolding sweep_batch_def items prod.case if_P [OF True]
      proof (rule wp_bindI [where P = "\<lambda>r g'. run_ok g' \<and> run_frame g1 g' \<and> only_blobs (kvv g1) (kvv g') \<and>
          (\<forall>x. r = Inr x \<longrightarrow> kvv g' = view_del_all (kvv g1) TABLE_BLOBS ?ks)"], goal_cases)
        case 1
        show ?case
          unfolding wp_on_world wp_on_kv
          by (rule wp_mono [OF wp_det [OF delete_batch_spec [OF g1 oks, of TABLE_BLOBS] delete_batch_frame [OF g1 oks, of TABLE_BLOBS]]])
            (auto simp: run_frame_def only_blobs_def view_frame_def kv_write_def split: sum.splits)
      next
        case (2 e g2)
        then show ?case using err [OF inv] by (simp add: Err_def only_blobs_def)
      next
        case (3 x g2)
        then have g2: "run_ok g2" "run_frame g1 g2" "kvv g2 = view_del_all (kvv g1) TABLE_BLOBS ?ks" by auto
        have "Inv (seen @ items) c' (kvv g2)" for c'
          unfolding Inv_def g2(3) view_del_all_apply mem more
          using inv True unfolding Inv_def by auto
        moreover have "gone items \<subseteq> fst ` set items" by (auto simp: gone_def)
        then have "kvv g2 TABLE_BLOBS pk k = kvv g1 TABLE_BLOBS pk k" if "k \<notin> fst ` set items" for k
          unfolding g2(3) view_del_all_apply mem using that by auto
        ultimately show ?case using g2 by simp
      qed
    qed
  qed
  have start: "Inv [] c ?v0" unfolding Inv_def gone_def by simp
  define R where "R = entries_where (?v0 TABLE_BLOBS pk) (in_range [] None)"
  have R': "R = entries_where (?v0 TABLE_BLOBS pk) (in_range (case None of Some c \<Rightarrow> c | None \<Rightarrow> []) None)"
    by (simp add: R_def)
  have loop: "wp (batch_loop E msg TABLE_BLOBS pk (sweep_batch E dry live pk) None c) (\<lambda>r g'. run_ok g' \<and> run_frame g g' \<and>
      (case r of Inl e \<Rightarrow> Err (kvv g') | Inr acc' \<Rightarrow> Inv ([] @ R) acc' (kvv g'))) g"
    by (rule batch_loop_spec [where Inv = Inv and Err = Err, OF pk _ _ g start R']) (fact err, erule (1) step)
  have "sk \<in> gone R \<longleftrightarrow> (\<exists>b. (sk, b) \<in> set R \<and> dead_entry blob_codec live (sk, b))" for sk
    unfolding gone_def by force
  moreover have "(sk, b) \<in> set R \<longleftrightarrow> (\<exists>n. ?v0 TABLE_BLOBS pk sk = Some (b, n))" for sk b
    unfolding R_def by (simp add: set_entries_where [OF view_finite [OF g]] in_range_def)
  moreover have "dead_entry blob_codec live (sk, b) \<longleftrightarrow> (\<exists>r. decode blob_codec b = Inr r \<and> \<not> live (br_blob_id r))" for sk b
    by (simp add: dead_entry_def split: sum.splits)
  ultimately have gone_R: "sk \<in> gone R \<longleftrightarrow> dead_blob blob_codec live ?v0 pk sk" for sk
    unfolding dead_blob_def by blast
  show ?thesis
  proof (rule wp_mono [OF loop], goal_cases)
    case (1 r g')
    have "only_blobs ?v0 (kvv g')" using 1 err unfolding Err_def [symmetric] by (cases r) auto
    moreover have "records_swept dry live {pk} ?v0 (kvv g')" if "r = Inr c'" for c'
      using 1 that by (auto simp: Inv_def records_swept_def swept_def gone_R fun_eq_iff)
    ultimately show ?case using 1 by blast
  qed
qed

lemma records_swept_step:
  "records_swept dry live pks u v \<Longrightarrow> records_swept dry live {pk} v w \<Longrightarrow> pk \<notin> pks \<Longrightarrow> records_swept dry live (insert pk pks) u w"
  unfolding records_swept_def using swept_step by (auto split: if_splits)

abbreviation store_pks :: "string \<Rightarrow> string set" where
  "store_pks store \<equiv> blob_shard_pk store ` {..<NUM_SHARDS}"

lemma sweep_records_spec:
  assumes g: "run_ok g" and st: "pk_ok store" and order: "shard_order (ge_shards E)"
  shows "wp (sweep_records E dry live store) (\<lambda>r g'. run_ok g' \<and> run_frame g g' \<and> only_blobs (kvv g) (kvv g') \<and>
    (\<forall>c. r = Inr c \<longrightarrow> records_swept dry live (store_pks store) (kvv g) (kvv g'))) g"
proof -
  let ?pk = "blob_shard_pk store"
  have "wp (io_map (\<lambda>shard. batch_loop E ''GC pass cancelled'' TABLE_BLOBS (?pk shard) (sweep_batch E dry live (?pk shard)) None no_sweep) (ge_shards E))
    (\<lambda>r g'. case r of Inl e \<Rightarrow> run_ok g' \<and> run_frame g g' \<and> only_blobs (kvv g) (kvv g')
      | Inr ys \<Rightarrow> run_ok g' \<and> run_frame g g' \<and> only_blobs (kvv g) (kvv g') \<and> records_swept dry live (?pk ` set (ge_shards E)) (kvv g) (kvv g')) g"
  proof (rule wp_map [where I = "\<lambda>dn ys g'. run_ok g' \<and> run_frame g g' \<and> only_blobs (kvv g) (kvv g') \<and>
      records_swept dry live (?pk ` set dn) (kvv g) (kvv g')"], goal_cases)
    case 1
    then show ?case using g by (simp add: only_blobs_def records_swept_def)
  next
    case (2 dn ys shard rest g1)
    then have g1: "run_ok g1" "run_frame g g1" "only_blobs (kvv g) (kvv g1)" "records_swept dry live (?pk ` set dn) (kvv g) (kvv g1)" by auto
    have new: "?pk shard \<notin> ?pk ` set dn" using order 2(1) by (auto simp: shard_order_def blob_shard_pk_def)
    have ok: "pk_ok (?pk shard)" using st by (simp add: blob_shard_pk_def)
    show ?case
      by (rule wp_mono [OF sweep_partition_spec [OF g1(1) ok]])
        (use g1 run_frame_trans [OF g1(2)] records_swept_step [OF g1(4) _ new] in \<open>auto simp: only_blobs_def split: sum.splits\<close>)
  qed
  moreover have "?pk ` set (ge_shards E) = store_pks store" using order by (simp add: shard_order_def)
  ultimately show ?thesis
    unfolding sweep_records_def by (elim wp_bindI) auto
qed

section \<open>The walk\<close>

lemma wp_get_gc [wp_simps]: "wp get_gc Q g \<longleftrightarrow> Q (Inr (gr_gc g)) g"
  by (simp add: wp_def get_gc_def)

lemma wp_set_candidates [wp_simps]: "wp (set_candidates cs) Q g \<longleftrightarrow>
    Q (Inr ()) (g\<lparr>gr_gc := (gr_gc g)\<lparr>gs_orphan_candidates := cs\<rparr>\<rparr>)"
  by (simp add: wp_def set_candidates_def)

lemma wp_is_cancelled [wp_simps]: "wp (is_cancelled E) Q g \<longleftrightarrow>
    Q (Inr (ge_cancel E (gr_polls g))) (g\<lparr>gr_polls := gr_polls g + 1\<rparr>)"
  by (simp add: wp_def is_cancelled_def)

abbreviation cands :: "('s, 'b) gc_run \<Rightarrow> ((string \<times> string) \<times> u64) list" where
  "cands g \<equiv> gs_orphan_candidates (gr_gc g)"

abbreviation pass_of :: "('s, 'b) gc_run \<Rightarrow> u64" where
  "pass_of g \<equiv> gs_pass (gr_gc g)"

text \<open>
  What the sweep keeps true from its start \<open>g0\<close> on: the candidates are those it started with or new
  ones of this pass, and a blob that changed was an unreferenced candidate of an earlier pass.
\<close>

definition sweep_inv :: "bool \<Rightarrow> (string \<Rightarrow> bool) \<Rightarrow> ('s, 'b) gc_run \<Rightarrow> ('s, 'b) gc_run \<Rightarrow> bool" where
  "sweep_inv dry live g0 g \<longleftrightarrow> gc_ok g \<and> pass_of g = pass_of g0 \<and>
     (\<forall>key p. map_of (cands g) key = Some p \<longrightarrow> map_of (cands g0) key = Some p \<or> p = pass_of g0) \<and>
     (\<forall>st i. blobs_at st g i \<noteq> blobs_at st g0 i \<longrightarrow> \<not> dry \<and> \<not> live i \<and> earlier_candidate (cands g0) (pass_of g0) (st, i))"

lemma sweep_inv_refl: "gc_ok g \<Longrightarrow> sweep_inv dry live g g"
  by (simp add: sweep_inv_def)

lemma sweep_inv_stable: "sweep_inv dry live g0 g \<Longrightarrow> gc_ok g' \<Longrightarrow> stable g g' \<Longrightarrow> sweep_inv dry live g0 g'"
  by (simp add: sweep_inv_def stable_def)

lemma sweep_inv_run: "sweep_inv dry live g0 g \<Longrightarrow> run_ok g' \<Longrightarrow> run_frame g g' \<Longrightarrow> sweep_inv dry live g0 g'"
  by (rule sweep_inv_stable) (auto simp: sweep_inv_def run_frame_def stable_def)

lemma age_nonzero: "1 \<le> (a - b :: u64) \<longleftrightarrow> a \<noteq> b"
proof -
  have "1 \<le> (a - b :: u64) \<longleftrightarrow> a - b \<noteq> 0" by (simp add: word_le_nat_alt unat_gt_0 Suc_le_eq)
  then show ?thesis by simp
qed

lemma consume_orphan_spec:
  assumes inv: "sweep_inv dry live g0 g" and reg: "ge_registry E st = Some bs" and ok: "ok_id i" and dead: "\<not> live i"
  shows "wp (consume_orphan bs st dry cap (i, sz) (n, m)) (\<lambda>r g'. sweep_inv dry live g0 g' \<and> kvv g' = kvv g \<and> (\<exists>x. r = Inr x)) g"
proof (cases "map_of (cands g) (st, i)")
  case None
  then show ?thesis
    using inv by (auto simp: consume_orphan_def wp_simps sweep_inv_def Let_def split: if_splits)
next
  case (Some first)
  show ?thesis
  proof (cases "1 \<le> pass_of g - first")
    case False
    then show ?thesis using inv Some by (simp add: consume_orphan_def wp_simps)
  next
    case True
    then have first: "first \<noteq> pass_of g0" using inv age_nonzero by (auto simp: sweep_inv_def)
    then have early: "earlier_candidate (cands g0) (pass_of g0) (st, i)"
      using inv Some unfolding sweep_inv_def earlier_candidate_def by blast
    define g_del where "g_del g1 = g1\<lparr>gr_gc := (gr_gc g1)\<lparr>gs_orphan_candidates := AList.delete (st, i) (cands g)\<rparr>\<rparr>" for g1 :: "('s, 'b) gc_run"
    have drop: "sweep_inv dry live g0 (g_del g1)" if "sweep_inv dry live g0 g1" "gr_gc g1 = gr_gc g" for g1
      using that unfolding sweep_inv_def g_del_def
      by (auto simp: delete_conv' split: if_splits)
    have del: "wp (if dry then io_return () else io_bind (io_try (on_world (on_blobs (bs_delete bs i)))) (\<lambda>_. io_return ()))
        (\<lambda>r g1. sweep_inv dry live g0 g1 \<and> gr_gc g1 = gr_gc g \<and> kvv g1 = kvv g \<and> r = Inr ()) g"
    proof (cases dry)
      case True
      then show ?thesis using inv by simp
    next
      case False
      have b: "binvar (w_blobs (gr_world g))" using inv by (simp add: sweep_inv_def)
      note both = wp_det [OF blob_backend.delete_spec [OF backend [OF reg] b ok] delete_frame [OF reg b ok]]
      show ?thesis
        unfolding if_not_P [OF False]
      proof (rule wp_try_bindI [where P = "\<lambda>r g1. sweep_inv dry live g0 g1 \<and> gr_gc g1 = gr_gc g \<and> kvv g1 = kvv g"], goal_cases)
        case 1
        show ?case
          unfolding wp_on_world wp_on_blobs
        proof (rule wp_mono [OF both], goal_cases)
          case (1 r b')
          have frame: "blob_frame {i} (bview st (w_blobs (gr_world g))) (bview st b')" "binvar b'"
            using 1 by (simp_all add: blob_write_def)
          have "blobs_of (bview st' b') j \<noteq> blobs_at st' g0 j \<longrightarrow> \<not> dry \<and> \<not> live j \<and> earlier_candidate (cands g0) (pass_of g0) (st', j)" for st' j
          proof (cases "st' = st \<and> j = i")
            case True
            then show ?thesis using early dead False by simp
          next
            case diff: False
            then have "blobs_of (bview st' b') j = blobs_at st' g j"
              using 1 frame(1) by (cases "st' = st") (auto simp: blob_frame_def)
            then show ?thesis using inv by (simp add: sweep_inv_def)
          qed
          then show ?case using inv frame(2) by (simp add: sweep_inv_def)
        qed
      qed simp
    qed
    show ?thesis
      unfolding consume_orphan_def prod.case wp_bind [of get_gc] wp_get_gc sum.case Let_def Some option.case if_P [OF True]
    proof (rule wp_bindI [OF del], goal_cases)
      case (2 u g1)
      then show ?case using drop [of g1] by (simp add: wp_simps g_del_def)
    qed simp
  qed
qed

lemma scan_soundD: "scan_sound v items \<Longrightarrow> \<forall>(i, sz) \<in> set (scanned items). i \<in> dom v"
  by (auto simp: scan_sound_def)

lemma walk_shard_spec:
  assumes inv: "sweep_inv dry live g0 g" and reg: "ge_registry E st = Some bs" and shard: "shard < bs_scan_shard_count bs"
  shows "wp (walk_shard E bs st dry cap live shard counts) (\<lambda>r g'. sweep_inv dry live g0 g' \<and> kvv g' = kvv g \<and> (\<exists>x. r = Inr x)) g"
proof -
  define g1 where "g1 = g\<lparr>gr_polls := gr_polls g + 1\<rparr>"
  have g1: "sweep_inv dry live g0 g1" "kvv g1 = kvv g" using inv by (simp_all add: g1_def sweep_inv_def)
  have b: "binvar (w_blobs (gr_world g1))" using g1 by (simp add: sweep_inv_def)
  note scan = wp_det [OF blob_backend.scan_sharded_spec [OF backend [OF reg] b shard] scan_frame [OF reg b, of shard]]
  have present: "ok_id i" if "i \<in> dom (blobs_of (bview st (w_blobs (gr_world g1))))" for i
    by (rule blob_backend.present_ok [OF backend [OF reg] b]) (use that in auto)
  have ids: "\<forall>(i, sz) \<in> set (scanned items). ok_id i" if "scan_sound (blobs_at st g1) items" for items
    using scan_soundD [OF that] present by fast
  show ?thesis
  proof (cases "ge_cancel E (gr_polls g)")
    case True
    then show ?thesis using g1 by (simp add: walk_shard_def wp_simps g1_def)
  next
    case False
    show ?thesis
      unfolding walk_shard_def wp_bind [of "is_cancelled E"] wp_is_cancelled sum.case g1_def [symmetric] if_not_P [OF False]
    proof (rule wp_try_bindI [where P = "\<lambda>r g2. sweep_inv dry live g0 g2 \<and> kvv g2 = kvv g \<and>
        (\<forall>items. r = Inr items \<longrightarrow> (\<forall>(i, sz) \<in> set (scanned items). ok_id i))"], goal_cases)
      case 1
      show ?case
        unfolding wp_on_world wp_on_blobs
        by (rule wp_mono [OF scan])
          (use g1 in \<open>auto simp: sweep_inv_def blob_read_def dest!: ids\<close>)
    next
      case (2 r g2)
      show ?case
      proof (cases r)
        case (Inl e)
        then show ?thesis using 2 by simp
      next
        case (Inr items)
        define I where "I (dn :: (string \<times> u64) list) (a :: u64 \<times> u64) g' \<longleftrightarrow> sweep_inv dry live g0 g' \<and> kvv g' = kvv g" for dn a g'
        have "wp (io_fold (consume_orphan bs st dry cap) (filter (\<lambda>(i, _). \<not> live i) (scanned items)) counts)
          (\<lambda>r g'. case r of Inl e \<Rightarrow> False | Inr a \<Rightarrow> I (filter (\<lambda>(i, _). \<not> live i) (scanned items)) a g') g2"
        proof (rule wp_io_fold [where I = I], goal_cases)
          case (2 dn x rest a g3)
          obtain i sz where x: "x = (i, sz)" by (cases x)
          obtain n m where a: "a = (n, m)" by (cases a)
          have "x \<in> set (filter (\<lambda>(i, _). \<not> live i) (scanned items))" unfolding 2(1) by simp
          then have okd: "ok_id i" "\<not> live i" using \<open>_ \<and> _ \<and> (\<forall>items. r = Inr items \<longrightarrow> _)\<close> Inr x by auto
          show ?case
            unfolding x a
            by (rule wp_mono [OF consume_orphan_spec [where live = live, OF _ reg okd]]) (use 2 in \<open>auto simp: I_def\<close>)
        qed (use 2 in \<open>simp add: I_def\<close>)
        then show ?thesis unfolding Inr sum.case by (rule wp_mono) (auto simp: I_def split: sum.splits)
      qed
    qed
  qed
qed

text \<open>
  One store: its artifacts and the sweep's invariant are kept, and of its blob records exactly those
  that nothing refers to are removed.
\<close>

lemma sweep_store_spec:
  assumes inv: "sweep_inv dry live g0 g" and st: "pk_ok (st_name rec)" "sk_ok (st_name rec)" and order: "shard_order (ge_shards E)"
  shows "wp (sweep_store E dry cap live rec (tot, counts)) (\<lambda>r g'. sweep_inv dry live g0 g' \<and>
    (\<forall>t pk sk. t \<noteq> TABLE_BLOBS \<longrightarrow> t \<noteq> TABLE_META \<longrightarrow> kvv g' t pk sk = kvv g t pk sk) \<and>
    (\<forall>x. r = Inr x \<longrightarrow> (\<exists>v. records_swept dry live (store_pks (st_name rec)) (kvv g) v \<and>
       (\<forall>t pk sk. t \<noteq> TABLE_META \<longrightarrow> kvv g' t pk sk = v t pk sk)))) g"
proof -
  let ?n = "st_name rec"
  have g: "run_ok g" using inv by (simp add: sweep_inv_def)
  show ?thesis
    unfolding sweep_store_def prod.case Let_def
  proof (rule wp_bindI [OF sweep_records_spec [OF g st(1) order]], goal_cases)
    case (1 e g1)
    then show ?case using sweep_inv_run [OF inv, of g1] by (simp add: only_blobs_def)
  next
    case (2 c g1)
    then have g1: "run_ok g1" "sweep_inv dry live g0 g1" and v1: "only_blobs (kvv g) (kvv g1)"
      "records_swept dry live (store_pks ?n) (kvv g) (kvv g1)"
      using sweep_inv_run [OF inv, of g1] by auto
    define stats where "stats = \<lparr>ss_blob_count = sw_live_count c, ss_total_bytes = sw_live_bytes c, ss_updated_at = ge_now E (gr_polls g1)\<rparr>"
    have put: "wp (on_world (on_kv (put_store_stats (ge_kv E) (ge_codecs E) ?n stats))) (\<lambda>r g2. sweep_inv dry live g0 g2 \<and>
        (\<forall>t pk sk. t \<noteq> TABLE_META \<longrightarrow> kvv g2 t pk sk = kvv g1 t pk sk)) g1"
      unfolding wp_on_world wp_on_kv
      by (rule wp_mono [OF put_store_stats_spec [OF g1(1) st(2)]])
        (use g1(2) in \<open>auto simp: kv_write_def sweep_inv_def view_frame_def store_stats_key_def split: sum.splits\<close>)
    show ?case
      unfolding wp_bind [of "read_clock E"] wp_read_clock sum.case stats_def [symmetric]
    proof (rule wp_try_bindI [OF put], goal_cases)
      case (1 r g2)
      then have g2: "sweep_inv dry live g0 g2" and v2: "\<And>t pk sk. t \<noteq> TABLE_META \<Longrightarrow> kvv g2 t pk sk = kvv g1 t pk sk" by auto
      have fin: "(\<forall>t pk sk. t \<noteq> TABLE_BLOBS \<longrightarrow> t \<noteq> TABLE_META \<longrightarrow> kvv g2 t pk sk = kvv g t pk sk) \<and>
        (\<exists>v. records_swept dry live (store_pks ?n) (kvv g) v \<and> (\<forall>t pk sk. t \<noteq> TABLE_META \<longrightarrow> kvv g2 t pk sk = v t pk sk))"
        using v1 v2 unfolding only_blobs_def by auto
      show ?case
      proof (cases "registry_get (ge_registry E) ?n")
        case None
        then show ?thesis using g2 fin by simp
      next
        case (Some bs)
        then have reg: "ge_registry E ?n = Some bs" by (simp add: registry_get_def)
        define I where "I (dn :: nat list) (a :: u64 \<times> u64) g' \<longleftrightarrow> sweep_inv dry live g0 g' \<and> kvv g' = kvv g2" for dn a g'
        have "wp (io_fold (walk_shard E bs ?n dry cap live) [0..<bs_scan_shard_count bs] counts)
          (\<lambda>r g'. case r of Inl e \<Rightarrow> False | Inr a \<Rightarrow> I [0..<bs_scan_shard_count bs] a g') g2"
        proof (rule wp_io_fold [where I = I], goal_cases)
          case (2 dn x rest a g3)
          have "x \<in> set (dn @ x # rest)" by simp
          then have "x < bs_scan_shard_count bs" unfolding 2(1) [symmetric] by simp
          then show ?case
            by (intro wp_mono [OF walk_shard_spec [OF _ reg]]) (use 2 in \<open>auto simp: I_def\<close>)
        qed (use g2 in \<open>simp add: I_def\<close>)
        then show ?thesis
          unfolding Some option.case by (rule wp_bindI) (use fin in \<open>auto simp: I_def\<close>)
      qed
    qed
  qed
qed

section \<open>All stores\<close>

lemma map_of_filter_live:
  "map_of (filter (\<lambda>((_, i), _). \<not> live i) cs) (st, i) = (if live i then None else map_of cs (st, i))"
  by (induction cs) auto

lemma sweep_stores_spec:
  assumes g: "gc_ok g" and st: "stores_ok recs" and order: "shard_order (ge_shards E)"
  shows "wp (sweep_stores E dry cap live recs) (\<lambda>r g'. gc_ok g' \<and> pass_of g' = pass_of g \<and>
    (\<forall>t pk sk. t \<noteq> TABLE_BLOBS \<longrightarrow> t \<noteq> TABLE_META \<longrightarrow> kvv g' t pk sk = kvv g t pk sk) \<and>
    (\<forall>st i. blobs_at st g' i \<noteq> blobs_at st g i \<longrightarrow> \<not> dry \<and> \<not> live i \<and> earlier_candidate (cands g) (pass_of g) (st, i)) \<and>
    (\<forall>key p. map_of (cands g') key = Some p \<longrightarrow> map_of (cands g) key = Some p \<or> p = pass_of g)) g"
proof (cases "ge_cancel E (gr_polls g)")
  case True
  then show ?thesis using g by (simp add: sweep_stores_def wp_simps)
next
  case False
  define g0 where "g0 = g\<lparr>gr_polls := gr_polls g + 1, gr_gc := (gr_gc g)\<lparr>gs_orphan_candidates :=
    filter (\<lambda>((_, i), _). \<not> live i) (cands g)\<rparr>\<rparr>"
  have g0: "gc_ok g0" "pass_of g0 = pass_of g" "kvv g0 = kvv g" "blobs_at st g0 = blobs_at st g" for st
    using g by (simp_all add: g0_def)
  have c0: "map_of (cands g0) (st, i) = (if live i then None else map_of (cands g) (st, i))" for st i
    by (simp add: g0_def map_of_filter_live)
  have pr: "wp (prune_candidates live) Q (g\<lparr>gr_polls := gr_polls g + 1\<rparr>) \<longleftrightarrow> Q (Inr ()) g0" for Q
    by (simp add: prune_candidates_def wp_simps g0_def)
  define I where "I (dn :: store_record list) (a :: sweep_count \<times> u64 \<times> u64) g' \<longleftrightarrow> sweep_inv dry live g0 g' \<and>
    (\<forall>t pk sk. t \<noteq> TABLE_BLOBS \<longrightarrow> t \<noteq> TABLE_META \<longrightarrow> kvv g' t pk sk = kvv g t pk sk)" for dn a g'
  have fold: "wp (io_fold (sweep_store E dry cap live) recs (no_sweep, 0, 0))
    (\<lambda>r g'. case r of Inl e \<Rightarrow> I [] (no_sweep, 0, 0) g' | Inr a \<Rightarrow> I recs a g') g0"
  proof (rule wp_io_fold [where I = I], goal_cases)
    case 1
    then show ?case using g0 sweep_inv_refl [OF g0(1)] by (simp add: I_def)
  next
    case (2 dn x rest a g1)
    obtain tot counts where a: "a = (tot, counts)" by (cases a)
    have x: "pk_ok (st_name x)" "sk_ok (st_name x)" using st 2(1) by (auto simp: stores_ok_def)
    have inv: "sweep_inv dry live g0 g1" using 2 by (simp add: I_def)
    show ?case
      unfolding a by (rule wp_mono [OF sweep_store_spec [OF inv x order]]) (use 2 in \<open>auto simp: I_def split: sum.splits\<close>)
  qed
  have earlier: "earlier_candidate (cands g0) (pass_of g) (st, i) \<Longrightarrow> earlier_candidate (cands g) (pass_of g) (st, i)" for st i
    by (auto simp: earlier_candidate_def c0 split: if_splits)
  show ?thesis
    unfolding sweep_stores_def wp_bind [of "check_cancel _ _"] wp_check_cancel if_not_P [OF False] sum.case
      wp_bind [of "prune_candidates _"] pr
  proof (rule wp_mono [OF fold], goal_cases)
    case (1 r g')
    then have inv: "sweep_inv dry live g0 g'"
      and v: "\<forall>t pk sk. t \<noteq> TABLE_BLOBS \<longrightarrow> t \<noteq> TABLE_META \<longrightarrow> kvv g' t pk sk = kvv g t pk sk"
      by (auto simp: I_def split: sum.splits)
    have "map_of (cands g) key = Some p \<or> p = pass_of g" if "map_of (cands g') key = Some p" for key p
      using inv that c0 g0(2) unfolding sweep_inv_def by (cases key) (metis option.distinct(1))
    moreover have "\<not> dry \<and> \<not> live i \<and> earlier_candidate (cands g) (pass_of g) (st, i)" if "blobs_at st g' i \<noteq> blobs_at st g i" for st i
      using inv that g0 earlier unfolding sweep_inv_def by metis
    ultimately show ?case using inv v g0(2) by (simp add: sweep_inv_def)
  qed
qed

section \<open>The whole pass\<close>

lemma decode_all_mem: "decode_all c items = Inr rs \<Longrightarrow> r \<in> set rs \<Longrightarrow> \<exists>k b. (k, b) \<in> set items \<and> decode c b = Inr r"
proof (induction items arbitrary: rs)
  case (Cons item items)
  then show ?case by (cases item) (auto split: sum.splits; blast)
qed simp

lemma cleanup_spec:
  assumes g: "gc_ok g" and ids: "\<And>st i. session_blob E (kvv g) st i \<Longrightarrow> ok_id i"
  shows "wp (on_world (cleanup_upload_sessions (ge_kv E) (ge_codecs E)
        (\<lambda>name. map_option bs_delete (registry_get (ge_registry E) name)) now age)) (\<lambda>r g'. gc_ok g' \<and> gr_gc g' = gr_gc g \<and>
    (\<forall>t pk sk. t \<noteq> TABLE_UPLOAD_SESSIONS \<longrightarrow> kvv g' t pk sk = kvv g t pk sk) \<and>
    (\<forall>st i. blobs_at st g' i \<noteq> blobs_at st g i \<longrightarrow> session_blob E (kvv g) st i)) g"
proof -
  let ?reg = "\<lambda>name. map_option bs_delete (registry_get (ge_registry E) name)" and ?w = "gr_world g"
  define ok where "ok w \<longleftrightarrow> invar (w_kv w) \<and> binvar (w_blobs w) \<and>
      (\<forall>st i. blobs_of (bview st (w_blobs w)) i \<noteq> blobs_at st g i \<longrightarrow> session_blob E (kvv g) st i)" for w :: "('s, 'b) world"
  have del1: "wp (delete_session_blobs ?reg s) (\<lambda>r w'. ok w' \<and> view (w_kv w') = kvv g \<and> r = Inr ()) w"
    if w: "ok w" "view (w_kv w) = kvv g" and s: "\<And>i. i \<in> set (us_chunk_blob_ids s @ [us_blob_id s]) \<Longrightarrow> session_blob E (kvv g) (us_store s) i"
    for s w
  proof (cases "ge_registry E (us_store s)")
    case None
    then show ?thesis using w by (simp add: delete_session_blobs_def registry_get_def)
  next
    case (Some bs)
    let ?ids = "us_chunk_blob_ids s @ [us_blob_id s]"
    have "wp (io_for ?ids (\<lambda>blob. io_bind (io_try (on_blobs (bs_delete bs blob))) (\<lambda>_. io_return ())))
      (\<lambda>r w'. case r of Inl e \<Rightarrow> False | Inr _ \<Rightarrow> ok w' \<and> view (w_kv w') = kvv g) w"
    proof (rule wp_for [where I = "\<lambda>_ w'. ok w' \<and> view (w_kv w') = kvv g"], goal_cases)
      case (2 dn i rest w1)
      then have w1: "ok w1" "view (w_kv w1) = kvv g" and "i \<in> set ?ids" by auto
      then have sb: "session_blob E (kvv g) (us_store s) i" using s by blast
      have b: "binvar (w_blobs w1)" using w1 by (simp add: ok_def)
      note both = wp_det [OF blob_backend.delete_spec [OF backend [OF Some] b ids [OF sb]] delete_frame [OF Some b ids [OF sb]]]
      show ?case
      proof (rule wp_try_bindI [where P = "\<lambda>_ w'. ok w' \<and> view (w_kv w') = kvv g"], goal_cases)
        case 1
        show ?case
          unfolding wp_on_blobs
        proof (rule wp_mono [OF both], goal_cases)
          case (1 r b')
          have "blobs_of (bview st b') j \<noteq> blobs_at st g j \<longrightarrow> session_blob E (kvv g) st j" for st j
          proof (cases "st = us_store s \<and> j = i")
            case False
            then have "blobs_of (bview st b') j = blobs_of (bview st (w_blobs w1)) j"
              using 1 by (cases "st = us_store s") (auto simp: blob_write_def blob_frame_def)
            then show ?thesis using w1 by (simp add: ok_def)
          qed (use sb in simp)
          then show ?case using w1 1 by (simp add: ok_def blob_write_def)
        qed
      qed simp
    qed (use w in simp)
    then show ?thesis
      unfolding delete_session_blobs_def registry_get_def Some option.map option.case
      by (rule wp_mono) (auto split: sum.splits)
  qed
  have start: "ok ?w" using g by (simp add: ok_def)
  show ?thesis
    unfolding wp_on_world cleanup_upload_sessions_def list_upload_sessions_def
  proof (rule wp_bindI [where P = "\<lambda>r w. ok w \<and> view (w_kv w) = kvv g \<and> (\<forall>ss. r = Inr ss \<longrightarrow>
      (\<forall>s \<in> set ss. \<forall>i \<in> set (us_chunk_blob_ids s @ [us_blob_id s]). session_blob E (kvv g) (us_store s) i)) \<and>
      gr_gc (g\<lparr>gr_world := w\<rparr>) = gr_gc g"], goal_cases)
    case 1
    have mem: "session_blob E (kvv g) (us_store s) i"
      if dec: "decode_all (cs_upload (ge_codecs E)) (take ADMIN_ENTITY_CAP
          (entries_where (kvv g TABLE_UPLOAD_SESSIONS SINGLE_PK) (\<lambda>k. starts_with k []))) = Inr ss"
        and s: "s \<in> set ss" "i \<in> set (us_chunk_blob_ids s @ [us_blob_id s])" for ss s i
    proof -
      obtain k b where "(k, b) \<in> set (entries_where (kvv g TABLE_UPLOAD_SESSIONS SINGLE_PK) (\<lambda>k. starts_with k []))"
        "decode (cs_upload (ge_codecs E)) b = Inr s"
        using decode_all_mem [OF dec s(1)] by (auto dest!: in_set_takeD)
      then show ?thesis
        using s(2) view_finite [OF conjunct1 [OF g]] unfolding session_blob_def by (auto simp: set_entries_where)
    qed
    show ?case
      unfolding wp_on_kv
      by (rule wp_mono [OF typed_list_spec [OF conjunct1 [OF g] pk_ok_single]])
        (use start mem in \<open>auto simp: kv_read_def ok_def\<close>)
  next
    case (3 sessions w1)
    define expired where "expired = filter (\<lambda>s. us_updated_at s < now - age) sessions"
    have w1: "ok w1" "view (w_kv w1) = kvv g" and ss: "\<forall>s \<in> set expired. \<forall>i \<in> set (us_chunk_blob_ids s @ [us_blob_id s]). session_blob E (kvv g) (us_store s) i"
      using 3 by (auto simp: expired_def)
    have loop: "wp (io_for expired (delete_session_blobs ?reg)) (\<lambda>r w'. case r of Inl e \<Rightarrow> False | Inr _ \<Rightarrow> ok w' \<and> view (w_kv w') = kvv g) w1"
    proof (rule wp_for [where I = "\<lambda>_ w'. ok w' \<and> view (w_kv w') = kvv g"], goal_cases)
      case (2 dn s rest w2)
      have "s \<in> set expired" using 2(1) by simp
      then show ?case
        by (intro wp_mono [OF del1 [of w2 s]]) (use 2 ss in auto)
    qed (use w1 in simp)
    show ?case
      unfolding Let_def expired_def [symmetric]
    proof (rule wp_bindI [OF loop], goal_cases)
      case (2 u w2)
      then have w2: "ok w2" "view (w_kv w2) = kvv g" by auto
      let ?ks = "map (\<lambda>s. snd (upload_session_key (us_uuid s))) expired"
      have oks: "\<forall>(pk, sk) \<in> set ?ks. pk_ok pk" by (auto simp: upload_session_key_def)
      have inv2: "invar (w_kv w2)" using w2 by (simp add: ok_def)
      have del: "wp (on_kv (kv_delete_batch (ge_kv E) TABLE_UPLOAD_SESSIONS ?ks)) (\<lambda>r w'. ok w' \<and>
          (\<forall>t pk sk. t \<noteq> TABLE_UPLOAD_SESSIONS \<longrightarrow> view (w_kv w') t pk sk = kvv g t pk sk)) w2"
        unfolding wp_on_kv
        by (rule wp_mono [OF delete_batch_frame [OF inv2 oks, of TABLE_UPLOAD_SESSIONS]])
          (use w2 in \<open>auto simp: ok_def view_frame_def\<close>)
      show ?case
      proof (cases "?ks \<noteq> []")
        case True
        show ?thesis
          unfolding if_P [OF True] by (rule wp_bindI [OF del]) (auto simp: ok_def)
      next
        case False
        show ?thesis
          unfolding if_not_P [OF False] using w2 by (simp add: ok_def)
      qed
    qed simp
  qed (auto simp: ok_def)
qed

lemma not_named:
  assumes "\<forall>pk \<in> all_pks repos. names_checked art_codec live pk v" "\<not> live i"
  shows "\<not> blob_named E repos v i"
  using assms unfolding blob_named_def repo_entry_def names_checked_def by blast

text \<open>
  What a pass finds when it starts: nobody is deleting a repository, the artifacts are where their
  paths say, the blobs of upload sessions have proper ids.
\<close>

definition pass_ready :: "('s, 'b) gc_run \<Rightarrow> bool" where
  "pass_ready g \<longleftrightarrow> gc_ok g \<and> shard_order (ge_shards E) \<and> (\<forall>r \<in> set (listed_repos E (kvv g)). \<not> rp_deleting r) \<and>
     repos_ok E (listed_repos E (kvv g)) (kvv g) \<and> no_panic E (listed_repos E (kvv g)) \<and>
     stores_ok (listed_stores E (kvv g)) \<and> (\<forall>st i. session_blob E (kvv g) st i \<longrightarrow> ok_id i)"

lemma poll_world: "gr_world (g\<lparr>gr_polls := n\<rparr>) = gr_world g"
  by simp

lemma drain_nothing:
  assumes g: "run_ok g" and none: "\<forall>r \<in> set (listed_repos E (kvv g)). \<not> rp_deleting r"
  shows "wp (drain_until_none E n) (\<lambda>r g'. run_ok g' \<and> run_frame g g' \<and> kvv g' = kvv g) g"
proof -
  have list: "wp (io_bind (check_cancel E ''GC pass cancelled'') (\<lambda>_. on_world (on_kv (list_repos_raw (ge_kv E) (ge_codecs E)))))
      (\<lambda>r g'. run_ok g' \<and> run_frame g g' \<and> kvv g' = kvv g \<and> (\<forall>rs. r = Inr rs \<longrightarrow> filter rp_deleting rs = [])) g"
  proof (cases "ge_cancel E (gr_polls g)")
    case True
    then show ?thesis using g by (simp add: wp_simps run_frame_def)
  next
    case False
    have "wp (list_repos_raw (ge_kv E) (ge_codecs E)) (kv_read invar view (w_kv (gr_world g)) (\<lambda>rs.
        decode_all (cs_repo (ge_codecs E)) (take ADMIN_ENTITY_CAP (entries_where (kvv g TABLE_REPOS SINGLE_PK) (\<lambda>_. True))) = Inr rs))
        (w_kv (gr_world g))"
      using typed_list_spec [OF g pk_ok_single, of "cs_repo (ge_codecs E)" TABLE_REPOS "[]" ADMIN_ENTITY_CAP]
      by (simp add: list_repos_raw_def)
    then show ?thesis
      unfolding wp_bind wp_check_cancel if_not_P [OF False] sum.case wp_on_world wp_on_kv gc_run.select_convs gc_run.update_convs poll_world
      by (rule wp_mono) (use g none in \<open>auto simp: kv_read_def run_frame_def listed_repos_def filter_empty_conv\<close>)
  qed
  then show ?thesis
    unfolding wp_iff drain_until_none.simps [of E n g] by (auto simp: Let_def split: sum.splits)
qed

lemma gc_pass_spec:
  assumes ready: "pass_ready g"
  defines "repos \<equiv> listed_repos E (kvv g)"
  shows "wp (gc_pass E cap dry) (\<lambda>r g'. gc_ok g' \<and> pass_of g' = pass_of g + 1 \<and>
    (\<forall>key p. map_of (cands g') key = Some p \<longrightarrow> map_of (cands g) key = Some p \<or> p = pass_of g') \<and>
    (\<forall>st i. blobs_at st g' i \<noteq> blobs_at st g i \<longrightarrow> session_blob E (kvv g) st i \<or>
      \<not> dry \<and> earlier_candidate (cands g) (pass_of g') (st, i) \<and> \<not> blob_named E repos (kvv g') i \<and> artifacts_shrink (kvv g) (kvv g')) \<and>
    (\<forall>stats. r = Inr stats \<longrightarrow> artifacts_shrink (kvv g) (kvv g'))) g"
proof -
  have g: "gc_ok g" and order: "shard_order (ge_shards E)" and none: "\<forall>r \<in> set repos. \<not> rp_deleting r"
    and rok: "repos_ok E repos (kvv g)" and np: "no_panic E repos" and sok: "stores_ok (listed_stores E (kvv g))"
    and ids: "\<And>st i. session_blob E (kvv g) st i \<Longrightarrow> ok_id i"
    using ready unfolding pass_ready_def repos_def by auto
  define g1 where "g1 = g\<lparr>gr_gc := (gr_gc g)\<lparr>gs_pass := pass_of g + 1\<rparr>\<rparr>"
  have g1: "gc_ok g1" "kvv g1 = kvv g" "cands g1 = cands g" "pass_of g1 = pass_of g + 1" "blobs_at st g1 = blobs_at st g" for st
    using g by (simp_all add: g1_def)
  have np1: "wp (io_bind next_pass f) Q g \<longleftrightarrow> wp (f ()) Q g1" for f Q
    by (simp add: wp_def io_bind_def next_pass_def g1_def)
  note nn = none [unfolded repos_def, folded g1(2)]
  show ?thesis
    unfolding gc_pass_def np1
  proof (rule wp_bindI [OF drain_nothing [OF conjunct1 [OF g1(1)] nn]], goal_cases)
    case (1 e g2)
    then show ?case using g1 run_frame_stable [OF _ _ g1(1), of g2] by (simp add: run_frame_def)
  next
    case (2 drained g2)
    then have g2: "gc_ok g2" "gr_gc g2 = gr_gc g1" "kvv g2 = kvv g" "blobs_at st g2 = blobs_at st g" for st
      using g1 run_frame_stable [OF _ _ g1(1), of g2] by (simp_all add: run_frame_def)
    have ids2: "\<And>st i. session_blob E (kvv g2) st i \<Longrightarrow> ok_id i" using ids g2(3) by simp
    show ?case
      unfolding wp_bind [of "read_clock E"] wp_read_clock sum.case
    proof (rule wp_try_bindI [OF cleanup_spec [OF g2(1)]], goal_cases)
      case 1
      then show ?case by (rule ids2)
    next
      case (2 cleaned g3)
      then have g3: "gc_ok g3" "gr_gc g3 = gr_gc g1"
        and v3: "\<And>t pk sk. t \<noteq> TABLE_UPLOAD_SESSIONS \<Longrightarrow> kvv g3 t pk sk = kvv g t pk sk"
        and b3: "\<And>st i. blobs_at st g3 i \<noteq> blobs_at st g i \<Longrightarrow> session_blob E (kvv g) st i" using g2 by auto
      have tabs: "kvv g3 TABLE_REPOS = kvv g TABLE_REPOS" "kvv g3 TABLE_STORES = kvv g TABLE_STORES"
        "kvv g3 TABLE_ARTIFACTS = kvv g TABLE_ARTIFACTS"
        using v3 by (simp_all add: fun_eq_iff)
      have lists: "listed_repos E (kvv g3) = repos" "listed_stores E (kvv g3) = listed_stores E (kvv g)"
        by (simp_all add: listed_repos_def listed_stores_def repos_def tabs)
      have rok3: "repos_ok E repos (kvv g3)" using rok by (simp add: repos_ok_def placed_def tabs)
      have read: "wp (on_world (on_kv m)) (\<lambda>r g'. gc_ok g' \<and> kvv g' = kvv gx \<and> w_blobs (gr_world g') = w_blobs (gr_world gx) \<and>
          gr_gc g' = gr_gc gx \<and> (\<forall>a. r = Inr a \<longrightarrow> Q a)) gx"
        if "gc_ok gx" "wp m (kv_read invar view (w_kv (gr_world gx)) Q) (w_kv (gr_world gx))" for m Q gx
        unfolding wp_on_world wp_on_kv by (rule wp_mono [OF that(2)]) (use that(1) in \<open>auto simp: kv_read_def\<close>)
      show ?case
      proof (rule wp_bindI [OF read [OF g3(1) list_repos_spec [OF conjunct1 [OF g3(1)], of "ge_codecs E"]]], goal_cases)
        case (1 e g4)
        then show ?case using g1 g3 b3 by simp
      next
        case (2 rs g4)
        then have "rs = filter (\<lambda>r. \<not> rp_deleting r) repos" and g4: "gc_ok g4" "kvv g4 = kvv g3" "w_blobs (gr_world g4) = w_blobs (gr_world g3)"
          "gr_gc g4 = gr_gc g1"
          using g3 lists(1) by (auto simp: listed_repos_def)
        then have rs: "rs = repos" using none by (simp add: filter_id_conv)
        show ?case
          unfolding rs
        proof (rule wp_bindI [OF read [OF g4(1) list_stores_spec [OF conjunct1 [OF g4(1)], of "ge_codecs E"]]], goal_cases)
          case (1 e g5)
          then show ?case using g1 g3 g4 b3 by simp
        next
          case (2 recs g5)
          then have recs: "recs = listed_stores E (kvv g)" and g5: "gc_ok g5" "kvv g5 = kvv g3" "w_blobs (gr_world g5) = w_blobs (gr_world g3)"
            "gr_gc g5 = gr_gc g1"
            using g4 lists(2) by (auto simp: listed_stores_def)
          show ?case
          proof (rule wp_bindI [OF collect_repos_spec [OF g5(1) _ np order, of dry]], goal_cases)
            case 1 then show ?case using rok3 g5(2) by simp
          next
            case (2 e g6)
            then show ?case using g1 g3 g5 b3 by (simp add: stable_def)
          next
            case (3 x g6)
            obtain a b bf n m where x: "x = (a, b, bf, n, m)" by (cases x)
            have g6: "gc_ok g6" "gr_gc g6 = gr_gc g1" "blobs_at st g6 = blobs_at st g3" for st
              using 3 g5 by (simp_all add: stable_def)
            have sh: "artifacts_shrink (kvv g) (kvv g6)"
              using 3 g5(2) x by (auto simp: shrunk_def artifacts_shrink_def tabs)
            have nc: "\<forall>pk \<in> all_pks repos. names_checked art_codec (chk bf) pk (kvv g6)" if "\<not> dry" using 3 x that by blast
            define Done where "Done g' \<longleftrightarrow> gc_ok g' \<and> pass_of g' = pass_of g + 1 \<and>
                (\<forall>key p. map_of (cands g') key = Some p \<longrightarrow> map_of (cands g) key = Some p \<or> p = pass_of g') \<and>
                (\<forall>st i. blobs_at st g' i \<noteq> blobs_at st g i \<longrightarrow> session_blob E (kvv g) st i \<or>
                  \<not> dry \<and> earlier_candidate (cands g) (pass_of g') (st, i) \<and> \<not> blob_named E repos (kvv g') i) \<and>
                artifacts_shrink (kvv g) (kvv g')" for g'
            have post: "wp (sweep_stores E dry cap (chk bf) recs) (\<lambda>r. Done) g6"
            proof (rule wp_mono [OF sweep_stores_spec [OF g6(1) _ order]], goal_cases)
              case 1 then show ?case using sok recs by simp
            next
              case (2 r g')
              then have arts: "kvv g' TABLE_ARTIFACTS = kvv g6 TABLE_ARTIFACTS" by (simp add: fun_eq_iff)
              have "session_blob E (kvv g) st i \<or> \<not> dry \<and> earlier_candidate (cands g) (pass_of g') (st, i) \<and> \<not> blob_named E repos (kvv g') i"
                if diff: "blobs_at st g' i \<noteq> blobs_at st g i" for st i
              proof (cases "blobs_at st g' i = blobs_at st g6 i")
                case True
                then show ?thesis using diff g6(3) b3 by simp
              next
                case False
                then have nd: "\<not> dry" "\<not> chk bf i" and e: "earlier_candidate (cands g6) (pass_of g6) (st, i)" using 2 by auto
                have "\<not> blob_named E repos (kvv g6) i" by (rule not_named [OF nc [OF nd(1)] nd(2)])
                then have "\<not> blob_named E repos (kvv g') i" by (simp add: blob_named_def repo_entry_def arts)
                then show ?thesis using nd(1) e 2 g6(2) g1 by simp
              qed
              then show ?case using 2 g6(2) g1 sh by (simp add: Done_def artifacts_shrink_def arts)
            qed
            have fin: "wp (io_bind (sweep_stores E dry cap (chk bf) recs) (\<lambda>(c, d, o'). io_return (f c d o'))) (\<lambda>r. Done) g6" for f :: "_ \<Rightarrow> _ \<Rightarrow> _ \<Rightarrow> gc_stats"
              by (rule wp_bindI [OF post]) (simp_all split: prod.splits)
            show ?case
              unfolding x prod.case by (rule wp_mono [OF fin]) (unfold Done_def, blast)
          qed
        qed
      qed
    qed
  qed
qed

end

end
