(* ===== verification/Depot_Stack.thy ===== *)
theory Depot_Stack
  imports File_Scan Gc_Sweep Repo_Hosted Redb_Memory
begin

text \<open>
  The layers put together: the services, the hosted repositories and the garbage collector run over
  the redb backend and over the file blob stores of one disk. The contracts they were proved under
  are interpreted here on these models.
\<close>

definition file_registry :: "(nat \<Rightarrow> nat \<Rightarrow> bytes \<Rightarrow> nat) \<Rightarrow> nat \<Rightarrow> (string \<rightharpoonup> file_blob_store) \<Rightarrow> string \<Rightarrow> disk blob_store option" where
  "file_registry bufw room m st = map_option (file_blob_ops bufw (Suc room)) (m st)"

definition disk_view :: "(string \<rightharpoonup> file_blob_store) \<Rightarrow> string \<Rightarrow> disk \<Rightarrow> blob_view" where
  "disk_view m st = (case m st of Some fb \<Rightarrow> file_view fb | None \<Rightarrow> (\<lambda>_. (\<lambda>_. None, \<lambda>_. None)))"

interpretation hosted: repo_stack mem_kv "redb_invar mem_tab" "redb_view mem_tab" "file_blob_ops bufw (Suc room) fb"
    "stores_on [name \<mapsto> fb]" "file_view fb" file_id_ok
  for bufw room fb name
  by unfold_locales

text \<open>An environment of the collector over these layers, from its other parts.\<close>

definition stack_env ::
    "(nat \<Rightarrow> nat \<Rightarrow> bytes \<Rightarrow> nat) \<Rightarrow> nat \<Rightarrow> (string \<rightharpoonup> file_blob_store) \<Rightarrow> (mem_db redb_store, disk, bytes) gc_env \<Rightarrow>
     (mem_db redb_store, disk, bytes) gc_env" where
  "stack_env bufw room m E = E\<lparr>ge_kv := mem_kv, ge_registry := file_registry bufw room m, ge_bloom := byte_filter\<rparr>"

lemma stack_env_simps [simp]:
  "ge_kv (stack_env bufw room m E) = mem_kv" "ge_bloom (stack_env bufw room m E) = byte_filter"
  "ge_registry (stack_env bufw room m E) st = file_registry bufw room m st"
  by (simp_all add: stack_env_def)

lemma file_registry_Some:
  "file_registry bufw room m st = Some bs \<longleftrightarrow> (\<exists>fb. m st = Some fb \<and> bs = file_blob_ops bufw (Suc room) fb)"
  by (auto simp: file_registry_def)

lemma stack_gc_kv: "gc_kv (stack_env bufw room m E) (redb_invar mem_tab) (redb_view mem_tab)"
  unfolding gc_kv_def stack_env_simps(1) by (rule mem.kv_store_axioms)

interpretation stack_kv: gc_kv "stack_env bufw room m E" "redb_invar mem_tab" "redb_view mem_tab" for bufw room m E
  by (rule stack_gc_kv)

lemma stack_gc_under:
  "gc_stack (stack_env bufw room m E) (redb_invar mem_tab) (redb_view mem_tab) (stores_under F m) (disk_view m) file_id_ok"
proof (unfold gc_stack_def, intro conjI)
  show "gc_kv (stack_env bufw room m E) (redb_invar mem_tab) (redb_view mem_tab)" by (rule stack_gc_kv)
  show "bloom_lib (ge_bloom (stack_env bufw room m E))" by (simp add: byte_filter.bloom_lib_axioms)
  show "gc_stack_axioms (stack_env bufw room m E) (stores_under F m) (disk_view m) file_id_ok"
  proof (rule gc_stack_axioms.intro)
    fix st bs b i shard
    assume "ge_registry (stack_env bufw room m E) st = Some bs"
    then obtain fb where fb: "m st = Some fb" "bs = file_blob_ops bufw (Suc room) fb" by (auto simp: file_registry_Some)
    have v: "disk_view m st = file_view fb" by (simp add: disk_view_def fb(1))
    show "blob_backend bs (stores_under F m) (disk_view m st) file_id_ok"
      unfolding v fb(2) by (rule file_store_under [of _ st]) (simp_all add: fb(1))
    have all: "(\<forall>st'. disk_view m st' b' = disk_view m st' b)" if "\<forall>fb'. file_view fb' b' = file_view fb' b" for b'
      using that by (simp add: disk_view_def split: option.split)
    assume b: "stores_under F m b"
    show "wp (bs_get bs i) (\<lambda>r b'. stores_under F m b' \<and> (\<forall>st'. disk_view m st' b' = disk_view m st' b)) b"
      unfolding fb(2) file_blob_ops_def blob_store.simps by (rule wp_mono [OF file_get_frame [OF b fb(1)]]) (use all in blast)
    show "wp (bs_scan_blobs_sharded bs shard) (\<lambda>r b'. stores_under F m b' \<and> (\<forall>st'. disk_view m st' b' = disk_view m st' b)) b"
      unfolding fb(2) file_blob_ops_def blob_store.simps by (rule wp_mono [OF file_scan_frame [OF b fb(1)]]) (use all in blast)
    assume i: "file_id_ok i"
    show "wp (bs_delete bs i) (\<lambda>r b'. \<forall>st'. st' \<noteq> st \<longrightarrow> disk_view m st' b' = disk_view m st' b) b"
      unfolding fb(2) file_blob_ops_def blob_store.simps
    proof (rule wp_mono [OF file_delete_frame [OF stores_underD [OF b] fb(1) i]], intro allI impI)
      fix r b' st'
      assume fr: "\<forall>fb'. fb_root fb' \<noteq> fb_root fb \<longrightarrow> file_view fb' b' = file_view fb' b" and ne: "st' \<noteq> st"
      show "disk_view m st' b' = disk_view m st' b"
      proof (cases "m st'")
        case (Some fb')
        then have "fb_root fb' \<noteq> fb_root fb" using stores_underD [OF b] fb(1) ne unfolding stores_on_def by metis
        then show ?thesis using fr Some by (simp add: disk_view_def)
      qed (simp add: disk_view_def)
    qed
  qed
qed

lemma stack_gc_stack:
  "gc_stack (stack_env bufw room m E) (redb_invar mem_tab) (redb_view mem_tab) (stores_on m) (disk_view m) file_id_ok"
  using stack_gc_under [of bufw room m E "\<lambda>_. True"] by simp

interpretation stack: gc_stack "stack_env bufw room m E" "redb_invar mem_tab" "redb_view mem_tab" "stores_on m" "disk_view m" file_id_ok
  for bufw room m E
  by (rule stack_gc_stack)

section \<open>A concrete disk\<close>

text \<open>One store, \<open>default\<close>, at the root \<open>/d\<close>; an empty disk that does not fail.\<close>

definition sample_fb :: file_blob_store where
  "sample_fb = \<lparr>fb_root = ''/d'', fb_sync = True, fb_io_size = 4096, fb_direct = True\<rparr>"

definition sample_disk :: disk where
  "sample_disk = \<lparr>dk_nodes = [(''/d'', DirNode)], dk_calls = 0, dk_fault = (\<lambda>_. None), dk_stat_fault = (\<lambda>_. False),
     dk_short = (\<lambda>_. 4095), dk_junk = (\<lambda>_. CHR ''j''), dk_pools = (\<lambda>_. []), dk_writers = (\<lambda>_. None)\<rparr>"

definition sample_stores :: "string \<rightharpoonup> file_blob_store" where
  "sample_stores = [''default'' \<mapsto> sample_fb]"

lemma sample_stores_on: "stores_on sample_stores sample_disk"
proof -
  have "fb_ok sample_fb" by (simp add: fb_ok_def sample_fb_def root_ok_def)
  moreover have "path_ancestors ''/d'' = [''/d'']" by (simp add: path_ancestors_def upt_rec)
  moreover have "node_at sample_disk p = (if p = ''/d'' then Some DirNode else None)" for p
    by (simp add: node_at_def sample_disk_def)
  moreover have "bpath ''/d'' i \<noteq> ''/d''" for i by (simp add: bpath_def)
  ultimately show ?thesis
    by (simp add: stores_on_def sample_stores_def disk_ok_def paths_once_def fair_def sample_fb_def)
      (simp add: sample_disk_def)
qed

end
