(* ===== verification/Depot_Samples.thy ===== *)
theory Depot_Samples
  imports Service_Blob Sharded_Redb Service_Directory Service_Pagination Kv_Wrappers Cluster Inflight Auth Update_Worker Store_Registry Depot_Stack
begin

text \<open>
  Concrete inputs on which the witnesses of the development run: a hash function, records and codecs,
  in-memory redb databases with given entries, a disk with given blobs.
\<close>

definition sample_hasher :: hasher where
  "sample_hasher s = s @ replicate 32 CHR ''h''"

definition sample_artifact :: artifact_record where
  "sample_artifact = \<lparr>ar_schema_version = 5, ar_id = ''id'', ar_size = 3, ar_content_type = ''text/plain'',
     ar_created_at = 1, ar_updated_at = 1, ar_last_accessed_at = 1, ar_path = ''a/b'', ar_kind = RawKind,
     ar_internal = False, ar_blob_id = None, ar_content_hash = None, ar_etag = None\<rparr>"

definition sample_blob :: blob_record where
  "sample_blob = \<lparr>br_schema_version = 5, br_blob_id = ''b1'', br_hash = ''h1'', br_size = 7,
     br_created_at = 1, br_store = ''default''\<rparr>"

definition sample_event :: task_event_record where
  "sample_event = task_event 5 ''t1'' 0 ''started''"

definition sample_codecs :: codecs where
  "sample_codecs = \<lparr>cs_artifact = table_codec [(sample_artifact, ''A'')], cs_tree = table_codec [],
     cs_repo = table_codec [], cs_blob = table_codec [(sample_blob, ''B'')], cs_store = table_codec [],
     cs_store_stats = table_codec [], cs_upload = table_codec [], cs_user = table_codec [],
     cs_role = table_codec [], cs_task = table_codec [], cs_task_event = table_codec [(sample_event, ''E'')],
     cs_lease = table_codec [], cs_time = table_codec []\<rparr>"

lemma sample_codecs_ok [simp]:
  "codec_ok (cs_artifact sample_codecs)" "codec_ok (cs_blob sample_codecs)"
  "codec_ok (cs_task_event sample_codecs)"
  by (simp_all add: sample_codecs_def codec_ok_table)

lemma sample_keys_ok [simp]: "pk_ok ''r''" "pk_ok ''t1''" "sk_ok ''a/b''" "sk_ok ''h1''" "pk_ok ''default''"
  by (simp_all add: pk_ok_def sk_ok_def)

lemmas mem_lawful = mem.kv_store_axioms

lemma mem_invar_empty_eq: "redb_invar mem_tab (mem_store [])"
  by (rule mem_invar_empty)

section \<open>Databases with given entries\<close>

definition mem_of :: "(string \<times> string \<times> string \<times> bytes) list \<Rightarrow> mem_db redb_store" where
  "mem_of es = mem_store (map (\<lambda>(t, pk, sk, b). ((t, flat_key pk sk), wrap_envelope 1 b)) es)"

definition entry_at :: "(string \<times> string \<times> string \<times> bytes) list \<Rightarrow> string \<Rightarrow> string \<Rightarrow> string \<Rightarrow> (bytes \<times> u64) option" where
  "entry_at es t pk sk = map_option (\<lambda>(_, _, _, b). (b, 1)) (find (\<lambda>(t', pk', sk', _). t' = t \<and> pk' = pk \<and> sk' = sk) es)"

lemma mem_of_tables:
  assumes "\<forall>(t, pk, sk, b) \<in> set es. pk_ok pk" "pk_ok pk"
  shows "map_option unwrap_envelope (map_of (map (\<lambda>(t, pk, sk, b). ((t, flat_key pk sk), wrap_envelope 1 b)) es) (t, flat_key pk sk)) =
    entry_at es t pk sk"
  using assms by (induction es) (auto simp: entry_at_def)

lemma mem_of_ok:
  assumes "\<forall>(t, pk, sk, b) \<in> set es. pk_ok pk \<and> sk_ok sk"
  shows "redb_invar mem_tab (mem_of es)"
    and "redb_view mem_tab (mem_of es) t pk sk = entry_at es t pk sk"
proof -
  have ok: "\<forall>(t, pk, sk, b) \<in> set es. pk_ok pk" using assms by auto
  show "redb_invar mem_tab (mem_of es)"
    unfolding redb_invar_def keys_ok_def redb_tables_def mem_of_def mem_store_def mem_tab_def
    using assms by (fastforce dest!: map_of_SomeD)
  have "entry_at es t pk sk = None" if "\<not> pk_ok pk"
    using that ok by (auto simp: entry_at_def find_None_iff)
  then show "redb_view mem_tab (mem_of es) t pk sk = entry_at es t pk sk"
    using mem_of_tables [OF ok]
    by (auto simp: redb_view_def decode_view_def redb_tables_def mem_of_def mem_store_def mem_tab_def)
qed

text \<open>A repository with one artifact.\<close>

definition sample_held :: "mem_db redb_store" where
  "sample_held = mem_of [(TABLE_ARTIFACTS, sharded_pk sample_hasher ''r'' ''a/b'', ''a/b'', ''A'')]"

lemma sample_held_ok:
  "redb_invar mem_tab sample_held"
  "redb_view mem_tab sample_held = entry_at [(TABLE_ARTIFACTS, sharded_pk sample_hasher ''r'' ''a/b'', ''a/b'', ''A'')]"
proof -
  have ok: "\<forall>(t, pk, sk, b) \<in> set [(TABLE_ARTIFACTS, sharded_pk sample_hasher ''r'' ''a/b'', ''a/b'', ''A'')]. pk_ok pk \<and> sk_ok sk"
    by simp
  show "redb_invar mem_tab sample_held" using mem_of_ok(1) [OF ok] by (simp add: sample_held_def)
  show "redb_view mem_tab sample_held = entry_at [(TABLE_ARTIFACTS, sharded_pk sample_hasher ''r'' ''a/b'', ''a/b'', ''A'')]"
    using mem_of_ok(2) [OF ok] by (simp add: sample_held_def fun_eq_iff)
qed

section \<open>A disk with two blobs\<close>

definition sample_files :: disk where
  "sample_files = sample_disk\<lparr>dk_nodes := [(''/d'', DirNode), (''/d/aa'', DirNode), (''/d/aa/bb'', DirNode),
     (bpath ''/d'' ''aabb1'', Reg ''old''), (bpath ''/d'' ''aabb2'', Reg ''new'')]\<rparr>"

lemma sample_ids_ok [simp]: "file_id_ok ''aabb1''" "file_id_ok ''aabb2''"
  by (simp_all add: file_id_ok_def shaped_def char_boundary_def)

lemmas sample_ids_shaped [simp] = sample_ids_ok [THEN id_ok_shaped]

lemma sample_files_at:
  assumes "shaped i"
  shows "node_at sample_files (bpath ''/d'' i) =
    (if i = ''aabb1'' then Some (Reg ''old'') else if i = ''aabb2'' then Some (Reg ''new'') else None)"
proof -
  have "bpath ''/d'' i \<noteq> ''/d''" by (simp add: bpath_def)
  moreover have "bpath ''/d'' i \<noteq> d" if "d \<in> set (bdirs ''/d'' ''aabb1'')" for d
    using bdirs_not_bpath [OF that sample_ids_shaped(1) assms] by auto
  then have "bpath ''/d'' i \<noteq> ''/d/aa''" "bpath ''/d'' i \<noteq> ''/d/aa/bb''" by (simp_all add: bdirs_def)
  ultimately show ?thesis
    using bpath_inject [OF assms sample_ids_shaped(1), of "''/d''" "''/d''"]
      bpath_inject [OF assms sample_ids_shaped(2), of "''/d''" "''/d''"]
    by (auto simp: node_at_def sample_files_def)
qed

lemma sample_files_on: "stores_on sample_stores sample_files"
proof -
  have "fb_ok sample_fb" by (simp add: fb_ok_def sample_fb_def root_ok_def)
  moreover have "path_ancestors ''/d'' = [''/d'']" by (simp add: path_ancestors_def upt_rec)
  moreover have "node_at sample_files ''/d'' = Some DirNode" by (simp add: node_at_def sample_files_def)
  moreover have "paths_once sample_files" "fair sample_files"
    by (simp_all add: paths_once_def fair_def sample_files_def sample_disk_def bpath_def)
  ultimately show ?thesis
    by (simp add: stores_on_def sample_stores_def disk_ok_def sample_fb_def sample_files_at)
qed

lemma sample_files_blobs:
  "blobs_of (disk_view sample_stores ''default'' sample_files) i =
    (if i = ''aabb1'' then Some ''old'' else if i = ''aabb2'' then Some ''new'' else None)"
  by (auto simp: disk_view_def sample_stores_def file_at_def sample_files_at id_ok_shaped sample_fb_def)

end
