(* ===== verification/Blob_Properties.thy ===== *)
theory Blob_Properties
  imports Depot_Samples
begin

text \<open>
  The properties of the file blob store (\<open>blob/file/src/\<close>) and of the repositories served from it
  (\<open>core/src/repo/\<close>).
\<close>

section \<open>The file blob store\<close>



text \<open>A whole streamed upload: open a writer, write the chunks, finish.\<close>

definition upload :: "'b blob_store \<Rightarrow> string \<Rightarrow> u64 option \<Rightarrow> bytes list \<Rightarrow> ('b, u64) io" where
  "upload bs blob_id size_hint chunks = io_bind (bs_create_writer bs blob_id size_hint) (\<lambda>_.
     io_bind (io_for chunks (bs_write_chunk bs blob_id)) (\<lambda>_. bs_finish bs blob_id))"

context blob_backend
begin

lemma upload_spec:
  assumes b: "binvar b" and i: "ok_id i"
  shows "wp (upload bs i hint chunks) (blob_write binvar bview b i (\<lambda>n v.
    n = of_nat (length (concat chunks)) \<and> blobs_of v i = Some (concat chunks))) b"
  unfolding upload_def
proof (rule wp_bindI [OF create_writer_spec [OF b i]], goal_cases)
  case (2 u b1)
  have loop: "wp (io_for chunks (bs_write_chunk bs i)) (\<lambda>r b'. case r of
      Inl e \<Rightarrow> binvar b' \<and> blob_frame {i} (bview b) (bview b')
    | Inr _ \<Rightarrow> binvar b' \<and> blob_frame {i} (bview b) (bview b') \<and> writes_of (bview b') i = Some (concat chunks)) b1"
  proof (rule wp_for [where I = "\<lambda>dn b'. binvar b' \<and> blob_frame {i} (bview b) (bview b') \<and> writes_of (bview b') i = Some (concat dn)"], goal_cases)
    case (2 dn x rest b')
    then have b': "binvar b'" "writes_of (bview b') i = Some (concat dn)" "blob_frame {i} (bview b) (bview b')" by auto
    show ?case
      by (rule wp_mono [OF write_chunk_spec [OF b'(1) i b'(2)]])
        (auto simp: blob_write_def intro: blob_frame_trans [OF b'(3)] split: sum.split)
  qed (use 2 in simp)
  show ?case
  proof (rule wp_bindI [OF loop], goal_cases)
    case (2 u b2)
    then have b2: "binvar b2" "writes_of (bview b2) i = Some (concat chunks)" "blob_frame {i} (bview b) (bview b2)" by auto
    show ?case
      by (rule wp_mono [OF finish_spec [OF b2(1) i b2(2)]]) (auto simp: blob_write_def intro: blob_frame_trans [OF b2(3)])
  qed simp
qed simp

end

text \<open>
  C10: a streamed upload stores the concatenation of its chunks. Opening a writer, writing any chunks
  and finishing, then reading the blob: when nothing fails, the reported size and the bytes are those
  of the chunks joined, whatever their sizes are in relation to the buffers and blocks of direct I/O,
  and even when other writers of the same blob had been abandoned; no other blob has changed.
\<close>

theorem streamed_upload_round_trip:
  assumes "stores st = Some fb" "stores_on stores s" "file_id_ok i" "0 < room"
  shows "wp (io_bind (upload (file_blob_ops bufw room fb) i hint chunks) (\<lambda>n.
      io_bind (file_get fb i) (\<lambda>content. io_return (n, content))))
    (\<lambda>r s'. stores_on stores s' \<and> blob_frame {i} (file_view fb s) (file_view fb s') \<and>
      (\<forall>n content. r = Inr (n, content) \<longrightarrow>
        n = of_nat (length (concat chunks)) \<and> content = Some (concat chunks))) s"
proof -
  have lawful: "blob_backend (file_blob_ops bufw room fb) (stores_on stores) (file_view fb) file_id_ok"
    by (rule file_store_lawful [where m = stores and st = st]) (fact assms)+
  show ?thesis
  proof (rule wp_bindI [OF blob_backend.upload_spec [OF lawful assms(2,3)]], goal_cases)
    case (2 n s1)
    then have s1: "stores_on stores s1" by simp
    have "wp (file_get fb i) (blob_read (stores_on stores) (file_view fb) s1 (\<lambda>x. x = blobs_of (file_view fb s1) i)) s1"
      using blob_backend.get_spec [OF lawful s1 assms(3)] by (simp add: file_blob_ops_def)
    then show ?case by (rule wp_bindI) (use 2 in \<open>auto simp: wp_simps\<close>)
  qed simp
qed

theorem streamed_upload_round_trip_witness:
  "wp (io_bind (upload (file_blob_ops (\<lambda>_ _ _. 0) 1 sample_fb) ''aabb3'' None [''ab'', [], ''c'']) (\<lambda>n.
      io_bind (file_get sample_fb ''aabb3'') (\<lambda>content. io_return (n, content))))
    (\<lambda>r s'. stores_on sample_stores s' \<and> file_at s' (bpath ''/d'' ''aabb1'') = Some ''old'' \<and>
      (\<forall>n content. r = Inr (n, content) \<longrightarrow> content = Some ''abc'')) sample_files"
proof -
  have id: "file_id_ok ''aabb3''" by (simp add: file_id_ok_def shaped_def char_boundary_def)
  have old: "file_at sample_files (bpath ''/d'' ''aabb1'') = Some ''old''" by (simp add: file_at_def sample_files_at)
  have frame: "file_at s' (bpath ''/d'' ''aabb1'') = Some ''old''"
    if "blob_frame {''aabb3''} (file_view sample_fb sample_files) (file_view sample_fb s')" for s'
    using blob_frameD [OF that, of "''aabb1''"] old by (simp add: sample_fb_def)
  show ?thesis
    by (rule wp_mono [OF streamed_upload_round_trip [OF _ sample_files_on id]]) (auto simp: sample_stores_def frame)
qed

text \<open>
  C11: the streaming reader of direct I/O (\<^verbatim>\<open>DirectReader::poll_read\<close>) delivers the file, whole
  and once. Read to its end with buffers of any size, from a file of any length and over calls that
  return fewer bytes than asked for, it ends, and when no call fails the bytes are exactly those of
  the file, however dirty the pooled buffers are.
\<close>

theorem direct_reader_delivers_file:
  assumes "file_at s p = Some d" "0 < room" "0 < fb_io_size fb" "fb_io_size fb < 2 ^ 63"
  shows "wp (read_to_end fb room (direct_reader_new p (length d) buf) [])
    (\<lambda>r s'. file_at s' p = Some d \<and> (\<forall>x. r = Inr x \<longrightarrow> x = d)) s"
proof -
  have "wp (read_to_end fb room (direct_reader_new p (length d) buf) []) (look (\<lambda>x. x = d) s) s"
    by (rule read_to_end_spec [OF assms(2-4) reader_new_ok assms(1)]) (simp_all add: reader_at_def direct_reader_new_def)
  then show ?thesis by (rule wp_mono) (use assms(1) in \<open>auto simp: look_def file_at_looked\<close>)
qed

theorem direct_reader_delivers_file_witness:
  "wp (read_to_end sample_fb 2 (direct_reader_new (bpath ''/d'' ''aabb1'') (length ''old'') ''junk'') [])
    (\<lambda>r s'. \<forall>x. r = Inr x \<longrightarrow> x = ''old'') sample_files"
  by (rule wp_mono [OF direct_reader_delivers_file [where d = "''old''"]])
    (simp_all add: file_at_def sample_files_at sample_fb_def)

text \<open>
  Paths of blobs. An id the store accepts names a file two directories below the root, different
  ids and different roots never share a file, and none of the directories created for a blob is the
  file of another.
\<close>

theorem blob_paths_disjoint:
  assumes "root_ok root" "root_ok root'" "file_id_ok i" "file_id_ok j"
  shows "\<exists>p q. blob_id_to_path root i = Inr p \<and> blob_id_to_path root' j = Inr q \<and>
    starts_with p (root @ ''/'') \<and> (p = q \<longleftrightarrow> root = root' \<and> i = j) \<and>
    path_ancestors (last (bdirs root i)) = path_ancestors root @ bdirs root i \<and> q \<notin> set (bdirs root i)"
proof -
  note shaped = assms(3,4) [THEN id_ok_shaped]
  have "starts_with (bpath root i) (root @ ''/'')" by (simp add: starts_with_def bpath_def)
  then show ?thesis
    using path_of_id [OF assms(1) shaped(1)] path_of_id [OF assms(2) shaped(2)] bpath_inject [OF shaped, of root root']
      path_ancestors_bdirs [OF assms(1) shaped(1)] bdirs_not_bpath [OF _ shaped, of _ root root'] by auto
qed

theorem blob_paths_disjoint_witness: "blob_id_to_path ''/d'' ''aabb1'' \<noteq> blob_id_to_path ''/d'' ''aabb2''"
  using blob_paths_disjoint [of "''/d''" "''/d''" "''aabb1''" "''aabb2''"] by (auto simp: root_ok_def)

text \<open>The calls that the server makes on a store; an error is answered and the next call goes on.\<close>

datatype store_call =
    CallPut string bytes
  | CallGet string
  | CallOpenRead string
  | CallExists string
  | CallDelete string
  | CallUpload string "bytes list"
  | CallScanAll
  | CallScanShard nat

fun call_ok :: "(string \<Rightarrow> bool) \<Rightarrow> nat \<Rightarrow> store_call \<Rightarrow> bool" where
  "call_ok ok limit (CallPut i _) = ok i"
| "call_ok ok limit (CallGet i) = ok i"
| "call_ok ok limit (CallOpenRead i) = ok i"
| "call_ok ok limit (CallExists i) = ok i"
| "call_ok ok limit (CallDelete i) = ok i"
| "call_ok ok limit (CallUpload i _) = ok i"
| "call_ok ok limit CallScanAll = True"
| "call_ok ok limit (CallScanShard n) = (n < limit)"

definition attempt :: "('b, 'a) io \<Rightarrow> ('b, unit) io" where
  "attempt m = io_bind (io_try m) (\<lambda>_. io_return ())"

fun perform :: "'b blob_store \<Rightarrow> store_call \<Rightarrow> ('b, unit) io" where
  "perform bs (CallPut i d) = attempt (bs_put bs i d)"
| "perform bs (CallGet i) = attempt (bs_get bs i)"
| "perform bs (CallOpenRead i) = attempt (bs_open_read bs i)"
| "perform bs (CallExists i) = attempt (bs_exists bs i)"
| "perform bs (CallDelete i) = attempt (bs_delete bs i)"
| "perform bs (CallUpload i chunks) = attempt (upload bs i None chunks)"
| "perform bs CallScanAll = attempt (bs_scan_all_blobs bs)"
| "perform bs (CallScanShard n) = attempt (bs_scan_blobs_sharded bs n)"

lemma wp_attempt: "wp m (\<lambda>_. Q) s \<Longrightarrow> wp (attempt m) (\<lambda>r s'. r = Inr () \<and> Q s') s"
  unfolding attempt_def by (rule wp_try_bindI) (auto simp: wp_simps)

context blob_backend
begin

lemma writes_keep: "wp m (blob_write binvar bview b i Q) b \<Longrightarrow> wp (attempt m) (\<lambda>r b'. r = Inr () \<and> binvar b') b"
  by (rule wp_attempt, erule wp_mono) (simp add: blob_write_def)

lemma reads_keep: "wp m (blob_read binvar bview b Q) b \<Longrightarrow> wp (attempt m) (\<lambda>r b'. r = Inr () \<and> binvar b') b"
  by (rule wp_attempt, erule wp_mono) (simp add: blob_read_def)

lemma perform_keeps:
  assumes b: "binvar b" and c: "call_ok ok_id (bs_scan_shard_count bs) c"
  shows "wp (perform bs c) (\<lambda>r b'. r = Inr () \<and> binvar b') b"
proof (cases c)
  case (CallPut i d) with c show ?thesis using writes_keep [OF put_spec [OF b, of i d]] by simp
next
  case (CallGet i) with c show ?thesis using reads_keep [OF get_spec [OF b, of i]] by simp
next
  case (CallOpenRead i) with c show ?thesis using reads_keep [OF open_read_spec [OF b, of i]] by simp
next
  case (CallExists i) with c show ?thesis using reads_keep [OF exists_spec [OF b, of i]] by simp
next
  case (CallDelete i) with c show ?thesis using writes_keep [OF delete_spec [OF b, of i]] by simp
next
  case (CallUpload i chunks) with c show ?thesis using writes_keep [OF upload_spec [OF b, of i]] by simp
next
  case CallScanAll then show ?thesis using reads_keep [OF scan_all_spec [OF b]] by simp
next
  case (CallScanShard n) with c show ?thesis using reads_keep [OF scan_sharded_spec [OF b, of n]] by simp
qed

end

text \<open>
  C12: the disk stays well formed under every use. Whatever sequence of puts, reads, deletes, streamed
  uploads and scans a store is given, and whichever of them fail half way (on a disk whose nodes can
  be examined, \<open>fair\<close>), all calls return and the layout holds after each prefix: the roots are
  directories, a path of a blob holds a file, never a directory, and only under an id the store
  accepts.
\<close>

theorem disk_stays_well_formed:
  assumes "stores st = Some fb" "stores_on stores s" "0 < room"
    and "\<forall>c \<in> set calls. call_ok file_id_ok (bs_scan_shard_count (file_blob_ops bufw room fb)) c"
  shows "wp (io_for calls (perform (file_blob_ops bufw room fb))) (\<lambda>r s'. r = Inr () \<and> stores_on stores s') s"
proof -
  have lawful: "blob_backend (file_blob_ops bufw room fb) (stores_on stores) (file_view fb) file_id_ok"
    by (rule file_store_lawful [where m = stores and st = st]) (fact assms)+
  have "wp (io_for calls (perform (file_blob_ops bufw room fb)))
      (\<lambda>r s'. case r of Inl e \<Rightarrow> False | Inr _ \<Rightarrow> stores_on stores s') s"
  proof (rule wp_for [where I = "\<lambda>_. stores_on stores"], goal_cases)
    case (2 dn c rest s')
    then have "call_ok file_id_ok (bs_scan_shard_count (file_blob_ops bufw room fb)) c" using assms(4) by simp
    then show ?case
      by (rule wp_mono [OF blob_backend.perform_keeps [OF lawful 2(2)]]) simp
  qed (rule assms(2))
  then show ?thesis by (rule wp_mono) (auto split: sum.splits)
qed

theorem disk_stays_well_formed_witness:
  "wp (io_for [CallPut ''aabb3'' ''x'', CallDelete ''aabb1'', CallUpload ''aabb3'' [''y'', ''z''], CallScanShard 170]
      (perform (file_blob_ops (\<lambda>_ _ _. 0) 1 sample_fb))) (\<lambda>r s'. r = Inr () \<and> stores_on sample_stores s') sample_files"
proof -
  have "file_id_ok ''aabb3''" by (simp add: file_id_ok_def shaped_def char_boundary_def)
  then show ?thesis
    by (intro disk_stays_well_formed [of _ "''default''"])
      (auto simp: sample_stores_def sample_files_on [unfolded sample_stores_def] file_blob_ops_def file_scan_shard_count_def)
qed

section \<open>Hosted repositories\<close>

text \<open>
  C9: ingestion keeps the store content addressed. Suppose every dedup record and every artifact of
  the repositories on the store names a blob that is there and has the recorded hash. After a
  successful ingestion this still holds, and the record at the path carries the hash of the uploaded
  bytes and names a blob with that hash, the new one or the one that was there already. After a
  failed one it holds of every record but the one whose write failed: the dedup record of the hash
  when the claim itself was what failed, else the artifact at the path (with its tree entry). So a
  dedup record that was claimed never loses its blob, whatever fails later. Nobody else writes
  meanwhile.
\<close>

theorem ingestion_keeps_content_addressing:
  assumes "repo_stack kv invar view bs binvar bview ok_id" "invar (w_kv w)" "binvar (w_blobs w)" "quiet RT"
    and "pk_ok store" "sk_ok (rt_blake3 RT data)" "pk_ok repo" "sk_ok path" "path \<noteq> []" "ok_id blob_id"
    and "content_addressed (rt_hasher RT) (rt_codecs RT) (rt_blake3 RT) store R (view (w_kv w)) (blobs_of (bview (w_blobs w)))"
    and "blobs_of (bview (w_blobs w)) blob_id = None"
  shows "wp (ingest_artifact RT \<lparr>ic_kv = kv, ic_blobs = bs, ic_store = store, ic_repo = repo\<rparr> blob_id path content_type data)
    (\<lambda>r w'. invar (w_kv w') \<and> binvar (w_blobs w') \<and>
      (\<forall>e. r = Inl e \<longrightarrow> content_addressed_except
        (if claim_failed RT kv store (upload_record RT store blob_id (rt_blake3 RT data) (of_nat (length data))) (w_kv w) (w_kv w')
         then {blob_key (rt_hasher RT) store (rt_blake3 RT data)}
         else {artifact_key (rt_hasher RT) repo path, tree_entry_key (rt_hasher RT) repo path})
        (rt_hasher RT) (rt_codecs RT) (rt_blake3 RT) store R (view (w_kv w')) (blobs_of (bview (w_blobs w')))) \<and>
      (\<forall>res. r = Inr res \<longrightarrow>
      content_addressed (rt_hasher RT) (rt_codecs RT) (rt_blake3 RT) store R (view (w_kv w')) (blobs_of (bview (w_blobs w'))) \<and>
      stored (cs_artifact (rt_codecs RT)) (art_at (rt_hasher RT) repo path (view (w_kv w')))
        (Some (prepare_artifact (rt_uuid RT 0) path (in_record res))) \<and>
      ar_content_hash (in_record res) = Some (rt_blake3 RT data) \<and>
      (\<exists>i d. ar_blob_id (in_record res) = Some i \<and> blobs_of (bview (w_blobs w')) i = Some d \<and> rt_blake3 RT d = rt_blake3 RT data))) w"
  by (rule wp_mono [OF repo_stack.ingest_artifact_spec [OF assms(1) conjI [OF assms(2,3)] assms(4-12)]])
    (auto simp: ingested_def unharmed_def)

text \<open>
  C8: what is uploaded is what is served. Ingesting bytes at a path of a hosted repository and getting
  the path: when both succeed the answer carries bytes of the same content hash and the record of
  the upload; so, where the hash tells contents apart, the very bytes that were sent, deduplicated or
  not.
\<close>

theorem upload_then_serve:
  assumes "repo_stack kv invar view bs binvar bview ok_id" "invar (w_kv w)" "binvar (w_blobs w)" "quiet RT"
    and "pk_ok store" "sk_ok (rt_blake3 RT data)" "pk_ok repo" "sk_ok path" "path \<noteq> []" "ok_id blob_id"
    and "content_addressed (rt_hasher RT) (rt_codecs RT) (rt_blake3 RT) store {repo} (view (w_kv w)) (blobs_of (bview (w_blobs w)))"
    and "blobs_of (bview (w_blobs w)) blob_id = None"
    and "ho_name hosted = repo" "ho_kv hosted = kv" "ho_blobs hosted = bs"
  shows "wp (io_bind (ingest_artifact RT \<lparr>ic_kv = kv, ic_blobs = bs, ic_store = store, ic_repo = repo\<rparr> blob_id path content_type data)
      (\<lambda>res. io_bind (hosted_get RT hosted path) (\<lambda>content. io_return (res, content))))
    (\<lambda>r w'. \<forall>res content. r = Inr (res, content) \<longrightarrow> (\<exists>c. content = Some c \<and>
      rt_blake3 RT (ac_data c) = rt_blake3 RT data \<and>
      ac_record c = prepare_artifact (rt_uuid RT 0) path (in_record res))) w"
proof (rule wp_bindI [OF repo_stack.ingest_artifact_spec [OF assms(1) conjI [OF assms(2,3)] assms(4-12)]], goal_cases)
  case (2 res w1)
  let ?C = "cs_artifact (rt_codecs RT)" and ?at = "art_at (rt_hasher RT) repo path (view (w_kv w1))"
    and ?rec = "prepare_artifact (rt_uuid RT 0) path (in_record res)"
  have w1: "invar (w_kv w1)" "binvar (w_blobs w1)" and ing: "ingested RT store {repo} repo path (rt_blake3 RT data) res
      (view (w_kv w1)) (blobs_of (bview (w_blobs w1)))" using 2 by auto
  have st: "stored ?C ?at (Some ?rec)" and hash: "ar_content_hash ?rec = Some (rt_blake3 RT data)"
    using ing by (simp_all add: ingested_def)
  obtain i d where i: "ar_blob_id ?rec = Some i" "blobs_of (bview (w_blobs w1)) i = Some d" using ing by (auto simp: ingested_def)
  have ok: "ok_id i" using blob_backend.present_ok [of bs binvar bview ok_id] assms(1) w1(2) i(2) unfolding repo_stack_def by blast
  have uniq: "x = ?rec" if "stored ?C ?at (Some x)" for x using st that by (cases ?at) (auto simp: stored_def)
  have get: "wp (hosted_get RT hosted path) (\<lambda>r w'. \<forall>content. r = Inr content \<longrightarrow> served RT repo path (view (w_kv w1)) content) w1"
  proof (rule wp_mono [OF repo_stack.hosted_get_spec [OF assms(1) conjI [OF w1], where R = "{repo}" and RT = RT and store = store
        and repo = hosted and path = path]], goal_cases)
    case 5 show ?case using ing by (simp add: ingested_def)
  next
    case 6 show ?case
      unfolding assms(13)
    proof (intro allI impI)
      fix x j assume "stored ?C ?at (Some x)" "ar_blob_id x = Some j"
      then show "ok_id j" using uniq [of x] i(1) ok by simp
    qed
  next
    case 7 show ?case
      unfolding assms(13)
    proof (intro allI impI)
      fix x assume "stored ?C ?at (Some x)"
      then show "ar_blob_id x \<noteq> None" using uniq [of x] i(1) by simp
    qed
  qed (use assms in auto)
  show ?case
  proof (rule wp_bindI [OF get], goal_cases)
    case (2 content w2)
    then have sv: "stored ?C ?at (map_option ac_record content)"
      "\<And>c h. content = Some c \<Longrightarrow> ar_content_hash (ac_record c) = Some h \<Longrightarrow> rt_blake3 RT (ac_data c) = h"
      by (auto simp: served_def)
    obtain c where c: "content = Some c" "ac_record c = ?rec"
      using sv(1) st by (cases content; cases ?at) (auto simp: stored_def)
    then show ?case using sv(2) [of c] hash by (simp add: wp_simps)
  qed simp
qed simp

text \<open>An upload of four bytes to the path \<open>a/b\<close>, on the disk with two blobs and an empty database.\<close>

definition sample_upload :: artifact_record where
  "sample_upload = prepare_artifact ''u'' ''a/b'' (raw_record 1 (Some ''aabb3'') (Some ''hdata'') (Some ''hdata'') 4 ''text/plain'')"

definition sample_upload_blob :: blob_record where
  "sample_upload_blob = \<lparr>br_schema_version = CURRENT_RECORD_VERSION, br_blob_id = ''aabb3'', br_hash = ''hdata'', br_size = 4,
     br_created_at = 1, br_store = ''default''\<rparr>"

definition sample_runtime :: "mem_db redb_store runtime" where
  "sample_runtime = \<lparr>rt_hasher = sample_hasher,
     rt_codecs = sample_codecs\<lparr>cs_artifact := table_codec [(sample_upload, ''U'')], cs_blob := table_codec [(sample_upload_blob, ''V'')]\<rparr>,
     rt_blake3 = (\<lambda>d. CHR ''h'' # d), rt_now = 1, rt_uuid = (\<lambda>_. ''u''), rt_dedup_env = (\<lambda>s. s), rt_put_env = (\<lambda>_ s. s)\<rparr>"

definition sample_upload_world :: "(mem_db redb_store, disk) world" where
  "sample_upload_world = \<lparr>w_kv = mem_store [], w_blobs = sample_files, w_open = True, w_atime_capacity = 1,
     w_dir = [], w_store = [], w_atime = []\<rparr>"

abbreviation sample_blobs :: "disk blob_store" where
  "sample_blobs \<equiv> file_blob_ops (\<lambda>_ _ _. 0) (Suc 0) sample_fb"

lemma sample_quiet: "quiet sample_runtime"
  by (simp add: quiet_def sample_runtime_def codec_ok_table)

lemma sample_addressed:
  "content_addressed (rt_hasher sample_runtime) (rt_codecs sample_runtime) (rt_blake3 sample_runtime) ''default'' R
    (redb_view mem_tab (w_kv sample_upload_world)) (blobs_of (file_view sample_fb (w_blobs sample_upload_world)))"
  by (simp add: content_addressed_def sample_upload_world_def mem_view_empty stored_def)

lemma sample_upload_ok:
  "repo_stack mem_kv (redb_invar mem_tab) (redb_view mem_tab) sample_blobs (stores_on [''default'' \<mapsto> sample_fb]) (file_view sample_fb) file_id_ok"
  "redb_invar mem_tab (w_kv sample_upload_world)" "stores_on [''default'' \<mapsto> sample_fb] (w_blobs sample_upload_world)"
  "sk_ok (rt_blake3 sample_runtime ''data'')" "file_id_ok ''aabb3''"
  "blobs_of (file_view sample_fb (w_blobs sample_upload_world)) ''aabb3'' = None"
proof -
  show "repo_stack mem_kv (redb_invar mem_tab) (redb_view mem_tab) sample_blobs (stores_on [''default'' \<mapsto> sample_fb]) (file_view sample_fb) file_id_ok"
    by (rule hosted.repo_stack_axioms)
  show "redb_invar mem_tab (w_kv sample_upload_world)" by (simp add: sample_upload_world_def mem_invar_empty)
  show "stores_on [''default'' \<mapsto> sample_fb] (w_blobs sample_upload_world)"
    using sample_files_on by (simp add: sample_upload_world_def sample_stores_def)
  show "sk_ok (rt_blake3 sample_runtime ''data'')" by (simp add: sample_runtime_def sk_ok_def)
  show id: "file_id_ok ''aabb3''" by (simp add: file_id_ok_def shaped_def char_boundary_def)
  show "blobs_of (file_view sample_fb (w_blobs sample_upload_world)) ''aabb3'' = None"
    using sample_files_at [OF id_ok_shaped [OF id]] by (simp add: file_at_def sample_upload_world_def sample_fb_def)
qed

theorem ingestion_keeps_content_addressing_witness:
  "wp (ingest_artifact sample_runtime \<lparr>ic_kv = mem_kv, ic_blobs = sample_blobs, ic_store = ''default'', ic_repo = ''r''\<rparr>
      ''aabb3'' ''a/b'' ''text/plain'' ''data'')
    (\<lambda>r w'. \<forall>res. r = Inr res \<longrightarrow> ar_content_hash (in_record res) = Some ''hdata'') sample_upload_world"
  by (rule wp_mono [OF ingestion_keeps_content_addressing [OF sample_upload_ok(1-3) sample_quiet _ sample_upload_ok(4) _ _ _
        sample_upload_ok(5) sample_addressed sample_upload_ok(6)]])
    (auto simp: sample_runtime_def)

theorem upload_then_serve_witness:
  "wp (io_bind (ingest_artifact sample_runtime \<lparr>ic_kv = mem_kv, ic_blobs = sample_blobs, ic_store = ''default'', ic_repo = ''r''\<rparr>
        ''aabb3'' ''a/b'' ''text/plain'' ''data'')
      (\<lambda>res. io_bind (hosted_get sample_runtime \<lparr>ho_name = ''r'', ho_kv = mem_kv, ho_blobs = sample_blobs, ho_store = ''default'',
        ho_format = ''raw''\<rparr> ''a/b'') (\<lambda>content. io_return (res, content))))
    (\<lambda>r w'. \<forall>res content. r = Inr (res, content) \<longrightarrow> (\<exists>c. content = Some c \<and> ac_data c = ''data'')) sample_upload_world"
  by (rule wp_mono [OF upload_then_serve [OF sample_upload_ok(1-3) sample_quiet _ sample_upload_ok(4) _ _ _
        sample_upload_ok(5) sample_addressed sample_upload_ok(6)]])
    (auto simp: sample_runtime_def)

end
