(* ===== verification/Server_Settings.thy ===== *)
theory Server_Settings
  imports Service_Admin
begin

text \<open>
  The dynamic settings of a cluster (\<open>server/src/server/config/settings.rs\<close>, with the structures of
  \<open>config/mod.rs\<close> they hold): their defaults, their validation and their persistence, with the LDAP
  configuration kept beside them.

  What other crates decide about strings is a parameter, \<open>settings_lib\<close>: whether a string is an HTTP
  method and what a time of day \<open>HH:MM\<close> parses to, in seconds; \<open>sl_debug\<close> is the standard library's
  debug form of a string, which only occurs in messages.
\<close>

record settings_lib =
  sl_method_ok :: "string \<Rightarrow> bool"
  sl_parse_time :: "string \<Rightarrow> nat option"
  sl_debug :: "string \<Rightarrow> string"

record cors_config =
  co_allowed_origins :: "string list"
  co_allowed_methods :: "string list"
  co_allowed_headers :: "string list"
  co_max_age_secs :: u64

record rate_limit_config =
  rl_requests_per_second :: u64
  rl_burst_size :: u32

record settings =
  se_access_log :: bool
  se_max_artifact_bytes :: u64
  se_cleanup_interval_secs :: "u64 option"
  se_default_docker_repo :: "string option"
  se_cors :: "cors_config option"
  se_rate_limit :: "rate_limit_config option"
  se_gc_interval_secs :: "u64 option"
  se_max_docker_chunk_count :: u32
  se_jwt_expiry_secs :: u64
  se_jwt_rotation_interval_secs :: u64
  se_gc_max_orphan_candidates :: "nat option"
  se_gc_min_interval_secs :: "u64 option"
  se_gc_start_time :: "string option"
  se_state_scan_interval_ms :: u64
  se_task_retention_secs :: u64
  se_logging :: "string option option"
  se_tracing_endpoint :: "string option"
  se_base_url :: "string option"

definition default_settings :: settings where
  "default_settings = \<lparr>
     se_access_log = True,
     se_max_artifact_bytes = 32 * 1024 * 1024 * 1024,
     se_cleanup_interval_secs = None,
     se_default_docker_repo = None,
     se_cors = None,
     se_rate_limit = None,
     se_gc_interval_secs = Some 86400,
     se_max_docker_chunk_count = 10000,
     se_jwt_expiry_secs = 86400,
     se_jwt_rotation_interval_secs = 7 * 24 * 3600,
     se_gc_max_orphan_candidates = Some 1000000,
     se_gc_min_interval_secs = Some 3600,
     se_gc_start_time = None,
     se_state_scan_interval_ms = 1000,
     se_task_retention_secs = 86400,
     se_logging = None,
     se_tracing_endpoint = None,
     se_base_url = None\<rparr>"

section \<open>Validation\<close>

text \<open>
  \<open>str::trim\<close>: the characters with the Unicode property White\_Space, as the bytes that encode them.
\<close>

definition byte :: "nat \<Rightarrow> char" where
  "byte n = char_of n"

definition whitespace :: "string list" where
  "whitespace = map (\<lambda>n. [byte n]) [9, 10, 11, 12, 13, 32] @
     map (map byte) ([[194, 133], [194, 160], [225, 154, 128]] @ map (\<lambda>n. [226, 128, n]) [128..<139] @
       [[226, 128, 168], [226, 128, 169], [226, 128, 175], [226, 129, 159], [227, 128, 128]])"

function trim_start :: "string list \<Rightarrow> string \<Rightarrow> string" where
  "trim_start ws s = (case find (\<lambda>w. w \<noteq> [] \<and> starts_with s w) ws of
     None \<Rightarrow> s | Some w \<Rightarrow> trim_start ws (drop (length w) s))"
  by auto

termination
proof (relation "measure (\<lambda>(ws, s). length s)", goal_cases)
  case (2 ws s w)
  then have "w \<noteq> []" "starts_with s w" by (auto simp: find_Some_iff)
  then show ?case by (cases s) (auto simp: starts_with_def)
qed simp

declare trim_start.simps [simp del]

definition str_trim :: "string \<Rightarrow> string" where
  "str_trim s = rev (trim_start (map rev whitespace) (rev (trim_start whitespace s)))"

text \<open>\<open>split_once\<close> with a string: at its first occurrence.\<close>

fun split_once_str :: "string \<Rightarrow> string \<Rightarrow> (string \<times> string) option" where
  "split_once_str p [] = (if p = [] then Some ([], []) else None)"
| "split_once_str p (c # s) = (if starts_with (c # s) p then Some ([], drop (length p) (c # s))
     else map_option (\<lambda>(a, b). (c # a, b)) (split_once_str p s))"

definition base_url_ok :: "string \<Rightarrow> bool" where
  "base_url_ok base =
    (let trimmed = str_trim base;
         valid_scheme = starts_with trimmed ''http://'' \<or> starts_with trimmed ''https://'';
         host = (case split_once_str ''://'' trimmed of
           Some (_, rest) \<Rightarrow> trim_end_matches CHR ''/'' rest
         | None \<Rightarrow> [])
     in valid_scheme \<and> host \<noteq> [] \<and> CHR ''/'' \<notin> set host)"

definition check :: "bool \<Rightarrow> string \<Rightarrow> string list" where
  "check bad msg = (if bad then [msg] else [])"

definition validate_settings :: "settings_lib \<Rightarrow> settings \<Rightarrow> string list + unit" where
  "validate_settings L s =
    (let errors =
       (case se_rate_limit s of None \<Rightarrow> [] | Some rl \<Rightarrow>
          check (rl_requests_per_second rl = 0) ''rate_limit.requests_per_second must be > 0'' @
          check (rl_burst_size rl = 0) ''rate_limit.burst_size must be > 0'') @
       (case se_cors s of None \<Rightarrow> [] | Some cors \<Rightarrow>
          concat (map (\<lambda>m. check (\<not> sl_method_ok L m)
            (''cors.allowed_methods: '' @ sl_debug L m @ '' is not a valid HTTP method'')) (co_allowed_methods cors))) @
       check (se_jwt_expiry_secs s < 60) ''jwt_expiry_secs must be >= 60'' @
       check (se_jwt_rotation_interval_secs s < 3600) ''jwt_rotation_interval_secs must be >= 3600'' @
       check (se_jwt_rotation_interval_secs s < se_jwt_expiry_secs s)
         ''jwt_rotation_interval_secs should be >= jwt_expiry_secs'' @
       (case se_gc_min_interval_secs s of None \<Rightarrow> [] | Some m \<Rightarrow>
          check (m < 60) ''gc_min_interval_secs must be >= 60'') @
       (case (se_gc_interval_secs s, se_gc_min_interval_secs s) of (Some interval, Some m) \<Rightarrow>
          check (interval < m) ''gc_interval_secs must be >= gc_min_interval_secs'' | _ \<Rightarrow> []) @
       (case se_gc_start_time s of None \<Rightarrow> [] | Some t \<Rightarrow>
          check (sl_parse_time L t = None)
            (''gc_start_time must be a UTC time of day in HH:MM form (e.g. \"07:00\"), got '' @ sl_debug L t)) @
       (case se_base_url s of None \<Rightarrow> [] | Some base \<Rightarrow>
          check (\<not> base_url_ok base) (''base_url must be an absolute origin like https://depot.example.com '' @
            ''(scheme://host[:port], no path)''))
     in if errors = [] then Inr () else Inl errors)"

section \<open>Persistence\<close>

definition load_settings_from_kv :: "'s kv \<Rightarrow> settings codec \<Rightarrow> ('s, settings option) io" where
  "load_settings_from_kv kv c = (case meta_key ''settings'' of (table, pk, sk) \<Rightarrow> typed_get kv c table pk sk)"

definition save_settings_to_kv :: "'s kv \<Rightarrow> settings codec \<Rightarrow> settings \<Rightarrow> ('s, unit) io" where
  "save_settings_to_kv kv c s = (case meta_key ''settings'' of (table, pk, sk) \<Rightarrow> typed_put kv c table pk sk s)"

definition ensure_settings :: "'s kv \<Rightarrow> settings codec \<Rightarrow> ('s, settings) io" where
  "ensure_settings kv c = io_bind (load_settings_from_kv kv c) (\<lambda>found. case found of
     Some existing \<Rightarrow> io_bind (save_settings_to_kv kv c existing) (\<lambda>_. io_return existing)
   | None \<Rightarrow> io_bind (save_settings_to_kv kv c default_settings) (\<lambda>_. io_return default_settings))"

text \<open>One tick of the refresh: the handle keeps its settings when there is nothing readable to load.\<close>

definition refresh_settings :: "'s kv \<Rightarrow> settings codec \<Rightarrow> settings \<Rightarrow> ('s, settings) io" where
  "refresh_settings kv c current = io_bind (io_try (load_settings_from_kv kv c)) (\<lambda>r. io_return (case r of
     Inr (Some s) \<Rightarrow> s | _ \<Rightarrow> current))"

section \<open>LDAP\<close>

record ldap_config =
  ld_url :: string
  ld_bind_dn :: string
  ld_bind_password :: string
  ld_user_base_dn :: string
  ld_user_filter :: string
  ld_group_base_dn :: string
  ld_group_filter :: string
  ld_group_name_attr :: string
  ld_group_role_mapping :: "(string \<times> string) list"
  ld_starttls :: bool
  ld_tls_skip_verify :: bool
  ld_fallback_to_builtin :: bool

definition load_ldap_config :: "'s kv \<Rightarrow> ldap_config codec \<Rightarrow> ('s, ldap_config option) io" where
  "load_ldap_config kv c = (case meta_key ''ldap_config'' of (table, pk, sk) \<Rightarrow> typed_get kv c table pk sk)"

definition save_ldap_config :: "'s kv \<Rightarrow> ldap_config codec \<Rightarrow> ldap_config \<Rightarrow> ('s, unit) io" where
  "save_ldap_config kv c config = (case meta_key ''ldap_config'' of (table, pk, sk) \<Rightarrow> typed_put kv c table pk sk config)"

definition delete_ldap_config :: "'s kv \<Rightarrow> ('s, unit) io" where
  "delete_ldap_config kv = delete_meta kv ''ldap_config''"

definition validate_ldap_config :: "ldap_config \<Rightarrow> string list + unit" where
  "validate_ldap_config ldap =
    (let errors =
       check (ld_url ldap = []) ''url must not be empty'' @
       check (ld_bind_dn ldap = []) ''bind_dn must not be empty'' @
       check (ld_user_base_dn ldap = []) ''user_base_dn must not be empty'' @
       check (ld_group_base_dn ldap = []) ''group_base_dn must not be empty'' @
       check (\<not> contains_str (ld_user_filter ldap) ''{username}'') ''user_filter must contain {username} placeholder'' @
       check (\<not> contains_str (ld_group_filter ldap) ''{dn}'') ''group_filter must contain {dn} placeholder''
     in if errors = [] then Inr () else Inl errors)"

section \<open>What validated settings satisfy\<close>

lemma check_empty [simp]: "check bad msg = [] \<longleftrightarrow> \<not> bad"
  by (simp add: check_def)

lemma validated_intervals:
  assumes "validate_settings L s = Inr ()"
  shows "se_gc_min_interval_secs s = Some m \<Longrightarrow> 60 \<le> m"
    and "se_gc_interval_secs s = Some i \<Longrightarrow> se_gc_min_interval_secs s = Some m \<Longrightarrow> m \<le> i"
    and "se_gc_start_time s = Some t \<Longrightarrow> sl_parse_time L t \<noteq> None"
    and "60 \<le> se_jwt_expiry_secs s \<and> se_jwt_expiry_secs s \<le> se_jwt_rotation_interval_secs s"
  using assms unfolding validate_settings_def Let_def by (auto split: if_splits option.splits)

lemma default_settings_valid: "validate_settings L default_settings = Inr ()"
  by (simp add: validate_settings_def default_settings_def Let_def)

context kv_store
begin

text \<open>Starting up leaves what was stored, or the defaults on a first boot.\<close>

lemma ensure_settings_spec:
  assumes s: "invar s" and c: "codec_ok c"
  shows "wp (ensure_settings kv c) (kv_write invar view s {meta_key ''settings''} (\<lambda>x v.
    \<exists>found. (case meta_key ''settings'' of (t, pk, sk) \<Rightarrow> stored c (view s t pk sk) found \<and> stored c (v t pk sk) (Some x)) \<and>
      x = (case found of Some existing \<Rightarrow> existing | None \<Rightarrow> default_settings))) s"
proof -
  obtain t pk sk where k: "meta_key ''settings'' = (t, pk, sk)" by (cases "meta_key ''settings''")
  have ok: "pk_ok pk" "sk_ok sk" using k by (auto simp: meta_key_def sk_ok_def)
  have load: "wp (load_settings_from_kv kv c) (kv_read invar view s (stored c (view s t pk sk))) s"
    unfolding load_settings_from_kv_def k prod.case by (rule typed_get_spec [OF s ok(1)])
  have save: "wp (io_bind (save_settings_to_kv kv c x) (\<lambda>_. io_return x)) (kv_write invar view s {(t, pk, sk)} (\<lambda>y v. y = x \<and> stored c (v t pk sk) (Some x))) s'"
    if s': "invar s'" "view s' = view s" for s' x
  proof (unfold save_settings_to_kv_def k prod.case, rule wp_bindI [OF typed_put_spec [OF s'(1) ok]], goal_cases)
    case (2 u s2)
    then show ?case using s' decode_encode(2) [OF c] by (auto simp: kv_write_def wp_simps stored_def)
  qed (use s' in \<open>simp add: kv_write_def\<close>)
  show ?thesis
    unfolding ensure_settings_def k prod.case
  proof (rule wp_bindI [OF load], goal_cases)
    case (2 found s1)
    then have s1: "invar s1" "view s1 = view s" "stored c (view s t pk sk) found" by (auto simp: kv_read_def)
    show ?case
    proof (cases found)
      case None
      show ?thesis unfolding None option.case by (rule wp_mono [OF save [OF s1(1,2)]]) (use s1(3) None in \<open>auto simp: kv_write_def split: sum.splits\<close>)
    next
      case (Some x)
      show ?thesis unfolding Some option.case by (rule wp_mono [OF save [OF s1(1,2)]]) (use s1(3) Some in \<open>auto simp: kv_write_def split: sum.splits\<close>)
    qed
  qed (simp add: kv_read_def kv_write_def)
qed

end

end
