(* ===== verification/Gc_Loop.thy ===== *)
theory Gc_Loop
  imports Gc_Sweep Server_Settings
begin

text \<open>
  The loop of the garbage collector (\<open>server/src/server/worker/blob_reaper/gc_loop.rs\<close>): when a pass is
  due, the lease around it, and what the loop does with the outcome. One tick is a computation on the
  state of the loop; the ticks come from outside. The bookkeeping of the task manager, logs and
  metrics are left out, the cancellation of a pass is that of the environment.
\<close>

definition DAY :: int where
  "DAY = 86400 * 1000000000"

text \<open>The start time is a time of day in seconds. \<open>num_seconds\<close> cuts off fractions.\<close>

definition gc_due :: "datetime \<Rightarrow> datetime \<Rightarrow> u64 \<Rightarrow> u64 \<Rightarrow> nat option \<Rightarrow> bool" where
  "gc_due last_start now gc_interval gc_min_interval start_time =
    (let elapsed = (of_int (max 0 ((now - last_start) div 1000000000)) :: u64)
     in if elapsed < gc_min_interval then False
        else case start_time of
            Some t \<Rightarrow>
              (let today = now div DAY * DAY + int t * 1000000000;
                   sched = (if today \<le> now then today else today - DAY)
               in last_start < sched)
          | None \<Rightarrow> gc_interval \<le> elapsed)"

definition DEFAULT_GC_INTERVAL_SECS :: u64 where
  "DEFAULT_GC_INTERVAL_SECS = 86400"

definition DEFAULT_GC_MIN_INTERVAL_SECS :: u64 where
  "DEFAULT_GC_MIN_INTERVAL_SECS = 3600"

definition DEFAULT_GC_MAX_ORPHAN_CANDIDATES :: nat where
  "DEFAULT_GC_MAX_ORPHAN_CANDIDATES = 1000000"

definition MAX_TRANSIENT_RETRIES :: nat where
  "MAX_TRANSIENT_RETRIES = 3"

definition or_default :: "'a option \<Rightarrow> 'a \<Rightarrow> 'a" where
  "or_default x d = (case x of Some a \<Rightarrow> a | None \<Rightarrow> d)"

text \<open>The schedule in the settings: interval, minimal interval, start time and the lease's duration.\<close>

definition gc_interval_of :: "settings \<Rightarrow> u64" where
  "gc_interval_of s = or_default (se_gc_interval_secs s) DEFAULT_GC_INTERVAL_SECS"

definition gc_start_time_of :: "settings_lib \<Rightarrow> settings \<Rightarrow> nat option" where
  "gc_start_time_of L s = Option.bind (se_gc_start_time s) (sl_parse_time L)"

definition lease_ttl_of :: "settings_lib \<Rightarrow> settings \<Rightarrow> u64" where
  "lease_ttl_of L s = (if gc_start_time_of L s \<noteq> None then max (gc_interval_of s) DEFAULT_GC_INTERVAL_SECS else gc_interval_of s)"

definition due_now :: "settings_lib \<Rightarrow> settings \<Rightarrow> datetime option \<Rightarrow> datetime \<Rightarrow> bool" where
  "due_now L s last_gc now = (case last_gc of
     None \<Rightarrow> True
   | Some t \<Rightarrow> gc_due t now (gc_interval_of s) (or_default (se_gc_min_interval_secs s) DEFAULT_GC_MIN_INTERVAL_SECS)
       (gc_start_time_of L s))"

section \<open>A tick\<close>

record ('s, 'b) reaper =
  re_run :: "('s, 'b) gc_run"
  re_last_gc :: "datetime option"
  re_retries :: nat

definition on_run :: "(('s, 'b) gc_run, 'a) io \<Rightarrow> (('s, 'b) reaper, 'a) io" where
  "on_run m = (\<lambda>R. case m (re_run R) of None \<Rightarrow> None | Some (r, g) \<Rightarrow> Some (r, R\<lparr>re_run := g\<rparr>))"

abbreviation on_store :: "('s, 'a) io \<Rightarrow> (('s, 'b) reaper, 'a) io" where
  "on_store m \<equiv> on_run (on_world (on_kv m))"

definition set_loop :: "datetime option \<Rightarrow> nat \<Rightarrow> (('s, 'b) reaper, unit) io" where
  "set_loop last_gc retries = (\<lambda>R. Some (Inr (), R\<lparr>re_last_gc := last_gc, re_retries := retries\<rparr>))"

definition reset_gc_state :: "(('s, 'b) gc_run, unit) io" where
  "reset_gc_state = (\<lambda>g. Some (Inr (), g\<lparr>gr_gc := gc_state_new\<rparr>))"

text \<open>
  After a pass that started at \<open>start\<close>: a transient error is retried up to three times, by putting the
  last start back in time; any other error drops the orphan candidates.
\<close>

definition after_pass :: "('s, 'b, 'f) gc_env \<Rightarrow> settings \<Rightarrow> datetime \<Rightarrow> nat \<Rightarrow> gc_stats result \<Rightarrow> (('s, 'b) reaper, unit) io" where
  "after_pass E s start retries outcome = (case outcome of
     Inr stats \<Rightarrow> set_loop (Some start) 0
   | Inl e \<Rightarrow>
      if is_transient e \<and> retries < MAX_TRANSIENT_RETRIES
      then (let retry_at = start - seconds (sint (gc_interval_of s) - 5)
        in io_bind (io_try (on_store (set_gc_last_started_at (ge_kv E) (ge_codecs E) retry_at))) (\<lambda>_.
             set_loop (Some retry_at) (retries + 1)))
      else io_bind (set_loop (Some start) 0) (\<lambda>_. on_run reset_gc_state))"

text \<open>The pass under the lease, with what surrounds it.\<close>

definition leased_pass ::
    "('s, 'b, 'f) gc_env \<Rightarrow> settings \<Rightarrow> (nat \<Rightarrow> 's \<Rightarrow> 's) \<Rightarrow> string \<Rightarrow> nat \<Rightarrow> (('s, 'b) reaper, unit) io" where
  "leased_pass E s env lease_holder retries =
    io_bind (on_run (read_clock E)) (\<lambda>start.
    io_bind (io_try (on_store (set_gc_last_started_at (ge_kv E) (ge_codecs E) start))) (\<lambda>_.
    io_bind (set_loop (Some start) retries) (\<lambda>_.
    io_bind (io_try (on_run (gc_pass E (or_default (se_gc_max_orphan_candidates s) DEFAULT_GC_MAX_ORPHAN_CANDIDATES) False))) (\<lambda>outcome.
    io_bind (after_pass E s start retries outcome) (\<lambda>_.
    io_bind (io_try (on_store (release_lease (ge_kv E) (ge_codecs E) env LEASE_GC lease_holder))) (\<lambda>_.
    io_bind (io_try (on_store (kv_compact (ge_kv E)))) (\<lambda>_. io_return ())))))))"

definition get_loop :: "(('s, 'b) reaper, ('s, 'b) reaper) io" where
  "get_loop = (\<lambda>R. Some (Inr R, R))"

definition reaper_tick ::
    "('s, 'b, 'f) gc_env \<Rightarrow> settings_lib \<Rightarrow> settings \<Rightarrow> (nat \<Rightarrow> 's \<Rightarrow> 's) \<Rightarrow> string \<Rightarrow> (('s, 'b) reaper, unit) io" where
  "reaper_tick E L s env instance_id =
    (let lease_holder = instance_id @ '':gc'' in
    io_bind get_loop (\<lambda>R.
    io_bind (on_run (read_clock E)) (\<lambda>now.
      if \<not> due_now L s (re_last_gc R) now then io_return ()
      else io_bind (io_try (on_store (try_acquire_lease (ge_kv E) (ge_codecs E) env now LEASE_GC lease_holder (lease_ttl_of L s))))
        (\<lambda>acquired. if acquired = Inr True then leased_pass E s env lease_holder (re_retries R) else io_return ()))))"

text \<open>
  The loop over the ticks that the \<open>select!\<close> sees, until it is cancelled, and the worker: it takes up
  the schedule where the last start left it, or now.
\<close>

fun reaper_ticks ::
    "('s, 'b, 'f) gc_env \<Rightarrow> settings_lib \<Rightarrow> (nat \<Rightarrow> 's \<Rightarrow> 's) \<Rightarrow> string \<Rightarrow> settings list \<Rightarrow> (('s, 'b) reaper, unit) io" where
  "reaper_ticks E L env instance_id [] = io_return ()"
| "reaper_ticks E L env instance_id (s # ticks) =
    io_bind (reaper_tick E L s env instance_id) (\<lambda>_. reaper_ticks E L env instance_id ticks)"

definition run_blob_reaper ::
    "('s, 'b, 'f) gc_env \<Rightarrow> settings_lib \<Rightarrow> (nat \<Rightarrow> 's \<Rightarrow> 's) \<Rightarrow> string \<Rightarrow> settings list \<Rightarrow> (('s, 'b) reaper, unit) io" where
  "run_blob_reaper E L env instance_id ticks =
    io_bind (io_try (on_store (get_gc_last_started_at (ge_kv E) (ge_codecs E)))) (\<lambda>persisted.
    io_bind (on_run (read_clock E)) (\<lambda>now.
    io_bind (set_loop (case persisted of Inr (Some t) \<Rightarrow> Some t | _ \<Rightarrow> Some now) 0) (\<lambda>_.
      reaper_ticks E L env instance_id ticks)))"

section \<open>When a pass is due\<close>

text \<open>Elapsed whole seconds, as long as they fit.\<close>

lemma elapsed_secs:
  assumes "0 \<le> n" "n < 2 ^ 64"
  shows "uint (of_int n :: u64) = n"
  using assms by (simp add: uint_word_of_int_eq take_bit_int_eq_self)

lemma scheduled_occurrence:
  fixes now :: datetime
  assumes "int t * 1000000000 < DAY"
  defines "today \<equiv> now div DAY * DAY + int t * 1000000000"
  shows "(\<exists>d. last_start < d * DAY + int t * 1000000000 \<and> d * DAY + int t * 1000000000 \<le> now) \<longleftrightarrow>
    last_start < (if today \<le> now then today else today - DAY)"
proof -
  have D: "0 < DAY" by (simp add: DAY_def)
  have now: "now div DAY * DAY \<le> now" "now < now div DAY * DAY + DAY"
    using D by (simp_all add: minus_mod_eq_div_mult [symmetric])
  have le: "d \<le> now div DAY - (if today \<le> now then 0 else 1)" if "d * DAY + int t * 1000000000 \<le> now" for d
  proof (rule ccontr)
    assume "\<not> ?thesis"
    then have "now div DAY + (if today \<le> now then 1 else 0) \<le> d" by (simp split: if_splits)
    then have "(now div DAY + (if today \<le> now then 1 else 0)) * DAY \<le> d * DAY" using D by (intro mult_right_mono) simp_all
    then show False using that now unfolding today_def by (auto simp: distrib_right split: if_splits)
  qed
  have mono: "d * DAY \<le> e * DAY" if "d \<le> e" for d e using that D by simp
  show ?thesis
  proof
    assume "\<exists>d. last_start < d * DAY + int t * 1000000000 \<and> d * DAY + int t * 1000000000 \<le> now"
    then obtain d where d: "last_start < d * DAY + int t * 1000000000" "d * DAY + int t * 1000000000 \<le> now" by blast
    show "last_start < (if today \<le> now then today else today - DAY)"
      using d(1) mono [OF le [OF d(2)]] unfolding today_def by (auto simp: left_diff_distrib split: if_splits)
  next
    assume a: "last_start < (if today \<le> now then today else today - DAY)"
    show "\<exists>d. last_start < d * DAY + int t * 1000000000 \<and> d * DAY + int t * 1000000000 \<le> now"
    proof (cases "today \<le> now")
      case True
      then show ?thesis using a unfolding today_def by (intro exI [of _ "now div DAY"]) simp
    next
      case False
      have "(now div DAY - 1) * DAY + int t * 1000000000 \<le> now"
        using now(1) assms(1) by (simp add: left_diff_distrib)
      then show ?thesis using a False unfolding today_def by (intro exI [of _ "now div DAY - 1"]) (simp add: left_diff_distrib)
    qed
  qed
qed

text \<open>
  Due means: the minimal interval is over and, without a start time, the interval as well; with one,
  a scheduled occurrence lies between the last start and now.
\<close>

lemma gc_due_iff:
  assumes "now - last_start < 2 ^ 63 * 1000000000" "\<forall>t. start_time = Some t \<longrightarrow> t < 86400"
  defines "elapsed \<equiv> max 0 ((now - last_start) div 1000000000)"
  shows "gc_due last_start now gc_interval gc_min_interval start_time \<longleftrightarrow> uint gc_min_interval \<le> elapsed \<and>
    (case start_time of None \<Rightarrow> uint gc_interval \<le> elapsed
     | Some t \<Rightarrow> \<exists>d. last_start < d * DAY + int t * 1000000000 \<and> d * DAY + int t * 1000000000 \<le> now)"
proof -
  have "(now - last_start) div 1000000000 < 2 ^ 63" using assms(1) by (simp add: div_less_iff_less_mult)
  then have e: "uint (of_int elapsed :: u64) = elapsed" unfolding elapsed_def by (intro elapsed_secs) auto
  have less: "of_int elapsed < w \<longleftrightarrow> elapsed < uint w" "w \<le> of_int elapsed \<longleftrightarrow> uint w \<le> elapsed" for w :: u64
    by (simp_all add: word_less_alt word_le_def e)
  show ?thesis
  proof (cases start_time)
    case None
    then show ?thesis unfolding gc_due_def elapsed_def [symmetric] Let_def less by auto
  next
    case (Some t)
    then have "int t * 1000000000 < DAY" using assms(2) by (simp add: DAY_def)
    from scheduled_occurrence [OF this, of last_start now] show ?thesis
      unfolding gc_due_def elapsed_def [symmetric] Let_def less Some option.case by auto
  qed
qed

context kv_store
begin

text \<open>Acquiring or releasing a lease, left alone by others, changes nothing but the lease.\<close>

lemma acquire_frame:
  assumes s: "invar s" and name: "sk_ok name"
  shows "wp (try_acquire_lease kv C (\<lambda>_ s. s) now name i ttl) (\<lambda>r s'. invar s' \<and> view_frame {lease_key name} (view s) (view s')) s"
  unfolding try_acquire_lease_def
proof (rule wp_bindI [OF lease_read_spec [OF s]], goal_cases)
  case (2 plan s1)
  then have s1: "invar s1" "view s1 = view s" by auto
  show ?case
  proof (cases plan)
    case (Some p)
    obtain b exp where p: "p = (b, exp)" by (cases p)
    show ?thesis
      unfolding Some p option.case wp_bind [of "interfere _ _"] wp_interfere sum.case
      by (rule wp_mono [OF lease_write_spec [OF s1(1) name]])
        (use s1(2) in \<open>auto simp: kv_write_def lease_key_def split: sum.splits\<close>)
  qed (use s1 in simp)
qed (use s in auto)

end

section \<open>What a tick does\<close>

lemma wp_on_run [wp_simps]: "wp (on_run m) Q R \<longleftrightarrow> wp m (\<lambda>r g. Q r (R\<lparr>re_run := g\<rparr>)) (re_run R)"
  by (auto simp: wp_def on_run_def split: option.splits prod.splits)

lemma wp_read_now: "wp (on_run (read_clock E)) Q R \<longleftrightarrow> Q (Inr (ge_now E (gr_polls (re_run R)))) R"
  by (simp add: wp_on_run wp_read_clock)

lemma wp_set_loop [wp_simps]: "wp (set_loop l n) Q R \<longleftrightarrow> Q (Inr ()) (R\<lparr>re_last_gc := l, re_retries := n\<rparr>)"
  by (simp add: wp_def set_loop_def)

lemma wp_get_loop [wp_simps]: "wp get_loop Q R \<longleftrightarrow> Q (Inr R) R"
  by (simp add: wp_def get_loop_def)

lemma wp_reset [wp_simps]: "wp reset_gc_state Q g \<longleftrightarrow> Q (Inr ()) (g\<lparr>gr_gc := gc_state_new\<rparr>)"
  by (simp add: wp_def reset_gc_state_def)

text \<open>
  What a tick may do to the blobs: one that changes belonged to an upload session or was an orphan
  candidate from before and is named by no artifact of the listed repositories. New candidates carry
  the number of the next pass.
\<close>

definition collected ::
    "('s, 'b, 'f) gc_env \<Rightarrow> ('s \<Rightarrow> kv_view) \<Rightarrow> (string \<Rightarrow> 'b \<Rightarrow> blob_view) \<Rightarrow> ('s, 'b) gc_run \<Rightarrow> ('s, 'b) gc_run \<Rightarrow> bool" where
  "collected E view bview g g' \<longleftrightarrow> (let v = view (w_kv (gr_world g)) in
     (\<forall>st x. blobs_of (bview st (w_blobs (gr_world g'))) x \<noteq> blobs_of (bview st (w_blobs (gr_world g))) x \<longrightarrow>
        session_blob E v st x \<or>
        earlier_candidate (gs_orphan_candidates (gr_gc g)) (gs_pass (gr_gc g) + 1) (st, x) \<and>
        \<not> blob_named E (listed_repos E v) (view (w_kv (gr_world g'))) x) \<and>
     (\<forall>key p. map_of (gs_orphan_candidates (gr_gc g')) key = Some p \<longrightarrow>
        map_of (gs_orphan_candidates (gr_gc g)) key = Some p \<or> p = gs_pass (gr_gc g) + 1))"

text \<open>Two runs whose stores differ only in leases and metadata.\<close>

definition apart :: "('s \<Rightarrow> kv_view) \<Rightarrow> ('s, 'b) gc_run \<Rightarrow> ('s, 'b) gc_run \<Rightarrow> bool" where
  "apart view g g' \<longleftrightarrow> gr_gc g' = gr_gc g \<and> gr_polls g' = gr_polls g \<and> w_blobs (gr_world g') = w_blobs (gr_world g) \<and>
     (\<forall>t pk sk. t \<noteq> TABLE_LEASES \<longrightarrow> t \<noteq> TABLE_META \<longrightarrow> view (w_kv (gr_world g')) t pk sk = view (w_kv (gr_world g)) t pk sk)"

text \<open>
  What a tick must do. The lease is the one it asked for; \<open>pass_result\<close> is what the loop remembers
  of a pass that started at \<open>start\<close> after \<open>n\<close> retries: success counts from the start, a transient
  error while retries are left puts the start back by the interval, any other error counts from the
  start and forgets the orphan candidates. \<open>ran_pass\<close> says that a pass ran.
\<close>

definition lease_granted ::
    "('s, 'b, 'f) gc_env \<Rightarrow> settings_lib \<Rightarrow> settings \<Rightarrow> string \<Rightarrow> ('s, 'b) gc_run \<Rightarrow> bool" where
  "lease_granted E L s instance_id g \<longleftrightarrow> (\<exists>kv'. try_acquire_lease (ge_kv E) (ge_codecs E) (\<lambda>_ s. s)
     (ge_now E (gr_polls g)) LEASE_GC (instance_id @ '':gc'') (lease_ttl_of L s) (w_kv (gr_world g)) = Some (Inr True, kv'))"

definition pass_result :: "settings \<Rightarrow> datetime \<Rightarrow> nat \<Rightarrow> gc_stats result \<Rightarrow> gc_state \<Rightarrow> ('s, 'b) reaper \<Rightarrow> bool" where
  "pass_result s start n outcome gs R \<longleftrightarrow> (case outcome of
     Inr stats \<Rightarrow> re_last_gc R = Some start \<and> re_retries R = 0 \<and> gr_gc (re_run R) = gs
   | Inl e \<Rightarrow>
      if is_transient e \<and> n < MAX_TRANSIENT_RETRIES
      then re_last_gc R = Some (start - seconds (sint (gc_interval_of s) - 5)) \<and> re_retries R = n + 1 \<and> gr_gc (re_run R) = gs
      else re_last_gc R = Some start \<and> re_retries R = 0 \<and> gr_gc (re_run R) = gc_state_new)"

definition ran_pass ::
    "('s, 'b, 'f) gc_env \<Rightarrow> settings \<Rightarrow> ('s \<Rightarrow> kv_view) \<Rightarrow> nat \<Rightarrow> ('s, 'b) gc_run \<Rightarrow> ('s, 'b) reaper \<Rightarrow> bool" where
  "ran_pass E s view n g R \<longleftrightarrow> (\<exists>g1 outcome g2. apart view g g1 \<and>
     gc_pass E (or_default (se_gc_max_orphan_candidates s) DEFAULT_GC_MAX_ORPHAN_CANDIDATES) False g1 = Some (outcome, g2) \<and>
     pass_result s (ge_now E (gr_polls g)) n outcome (gr_gc g2) R \<and>
     apart view (g2\<lparr>gr_gc := gr_gc (re_run R)\<rparr>) (re_run R))"

definition ticked ::
    "('s, 'b, 'f) gc_env \<Rightarrow> settings_lib \<Rightarrow> settings \<Rightarrow> string \<Rightarrow> ('s \<Rightarrow> kv_view) \<Rightarrow> ('s, 'b) reaper \<Rightarrow> ('s, 'b) reaper \<Rightarrow> bool" where
  "ticked E L s instance_id view R R' \<longleftrightarrow>
     (if \<not> due_now L s (re_last_gc R) (ge_now E (gr_polls (re_run R))) then R' = R
      else if lease_granted E L s instance_id (re_run R) then ran_pass E s view (re_retries R) (re_run R) R'
      else re_last_gc R' = re_last_gc R \<and> re_retries R' = re_retries R \<and> apart view (re_run R) (re_run R'))"

context gc_stack
begin

text \<open>Only leases and metadata differ.\<close>

definition aside :: "('s, 'b) gc_run \<Rightarrow> ('s, 'b) gc_run \<Rightarrow> bool" where
  "aside g g' \<longleftrightarrow> gc_ok g' \<and> apart view g g'"

lemma aside_refl: "gc_ok g \<Longrightarrow> aside g g"
  by (simp add: aside_def apart_def)

lemma aside_ok: "aside g g' \<Longrightarrow> gc_ok g'"
  unfolding aside_def by (elim conjE, intro conjI)

lemma aside_trans: "aside g g1 \<Longrightarrow> aside g1 g2 \<Longrightarrow> aside g g2"
  unfolding aside_def apart_def by (elim conjE, intro conjI) simp_all

lemma aside_tables:
  assumes "aside g g'"
  shows "listed_repos E (kvv g') = listed_repos E (kvv g)" "listed_stores E (kvv g') = listed_stores E (kvv g)"
    "session_blob E (kvv g') = session_blob E (kvv g)" "placed H repo (kvv g') = placed H repo (kvv g)"
    "blob_named E rs (kvv g') = blob_named E rs (kvv g)" "blobs_at st g' = blobs_at st g"
proof -
  have eq: "kvv g' t = kvv g t" if "t \<noteq> TABLE_LEASES" "t \<noteq> TABLE_META" for t
    using assms that by (simp add: aside_def apart_def fun_eq_iff)
  have tabs: "kvv g' TABLE_REPOS = kvv g TABLE_REPOS" "kvv g' TABLE_STORES = kvv g TABLE_STORES"
    "kvv g' TABLE_UPLOAD_SESSIONS = kvv g TABLE_UPLOAD_SESSIONS" "kvv g' TABLE_ARTIFACTS = kvv g TABLE_ARTIFACTS"
    by (rule eq; simp)+
  show "listed_repos E (kvv g') = listed_repos E (kvv g)" "listed_stores E (kvv g') = listed_stores E (kvv g)"
    "session_blob E (kvv g') = session_blob E (kvv g)" "placed H repo (kvv g') = placed H repo (kvv g)"
    "blob_named E rs (kvv g') = blob_named E rs (kvv g)"
    unfolding listed_repos_def listed_stores_def session_blob_def placed_def blob_named_def repo_entry_def tabs by simp_all
  show "blobs_at st g' = blobs_at st g" using assms by (simp add: aside_def apart_def)
qed

lemma aside_ready: "pass_ready g \<Longrightarrow> aside g g' \<Longrightarrow> pass_ready g'"
  using aside_tables [of g g'] unfolding pass_ready_def repos_ok_def by (auto simp: aside_def apart_def)

lemma on_kv_aside:
  assumes g: "gc_ok g" and m: "wp m (\<lambda>r s'. invar s' \<and> view_frame {(t, pk, sk) | t pk sk. t = TABLE_LEASES \<or> t = TABLE_META} (kvv g) (view s')) (w_kv (gr_world g))"
  shows "wp (on_world (on_kv m)) (\<lambda>r. aside g) g"
  unfolding wp_on_world wp_on_kv
  by (rule wp_mono [OF m]) (use g in \<open>auto simp: aside_def apart_def view_frame_def\<close>)

lemma set_started_aside:
  assumes g: "gc_ok g"
  shows "wp (on_world (on_kv (set_gc_last_started_at (ge_kv E) (ge_codecs E) t))) (\<lambda>r. aside g) g"
proof (rule on_kv_aside [OF g])
  have k: "meta_key ''gc_last_started_at'' = (TABLE_META, SINGLE_PK, ''gc_last_started_at'')" "sk_ok ''gc_last_started_at''"
    by (simp_all add: meta_key_def sk_ok_def)
  show "wp (set_gc_last_started_at (ge_kv E) (ge_codecs E) t)
      (\<lambda>r s'. invar s' \<and> view_frame {(t, pk, sk) | t pk sk. t = TABLE_LEASES \<or> t = TABLE_META} (kvv g) (view s')) (w_kv (gr_world g))"
  proof (cases "cd_enc (cs_time (ge_codecs E)) t")
    case (Inr b)
    then show ?thesis
      unfolding set_gc_last_started_at_def put_meta_def k Inr sum.case prod.case
      by (intro wp_mono [OF put_spec [OF conjunct1 [OF g] pk_ok_single k(2)]])
        (auto simp: kv_write_def view_frame_def split: sum.splits)
  qed (use g in \<open>simp add: set_gc_last_started_at_def wp_simps\<close>)
qed

lemma acquire_aside:
  assumes g: "gc_ok g"
  shows "wp (on_world (on_kv (try_acquire_lease (ge_kv E) (ge_codecs E) (\<lambda>_ s. s) now LEASE_GC i ttl))) (\<lambda>r. aside g) g"
  by (rule on_kv_aside [OF g], rule wp_mono [OF acquire_frame [OF conjunct1 [OF g]]])
    (auto simp: LEASE_GC_def sk_ok_def lease_key_def view_frame_def)

lemma release_aside:
  assumes g: "gc_ok g"
  shows "wp (on_world (on_kv (release_lease (ge_kv E) (ge_codecs E) (\<lambda>_ s. s) LEASE_GC i))) (\<lambda>r. aside g) g"
  by (rule on_kv_aside [OF g], rule wp_mono [OF release_lease_spec [OF conjunct1 [OF g]]])
    (auto simp: kv_write_def lease_key_def view_frame_def split: sum.splits)

lemma compact_aside:
  assumes g: "gc_ok g"
  shows "wp (on_world (on_kv (kv_compact (ge_kv E)))) (\<lambda>r. aside g) g"
  by (rule on_kv_aside [OF g], rule wp_mono [OF compact_spec [OF conjunct1 [OF g]]]) (auto simp: kv_read_def)

lemma try_aside:
  assumes m: "wp m (\<lambda>r. aside (re_run R)) (re_run R)"
    and "\<And>r g. aside (re_run R) g \<Longrightarrow> m (re_run R) = Some (r, g) \<Longrightarrow> wp (f r) Q (R\<lparr>re_run := g\<rparr>)"
  shows "wp (io_bind (io_try (on_run m)) f) Q R"
proof (rule wp_try_bindI)
  show "wp (on_run m) (\<lambda>r R'. \<exists>g. R' = R\<lparr>re_run := g\<rparr> \<and> aside (re_run R) g \<and> m (re_run R) = Some (r, g)) R"
    unfolding wp_on_run by (rule wp_mono [OF wp_run [OF m]]) blast
qed (use assms(2) in blast)

lemma collected_aside: "collected E view bview g g1 \<Longrightarrow> aside g1 g2 \<Longrightarrow> collected E view bview g g2"
proof -
  assume c: "collected E view bview g g1" and a: "aside g1 g2"
  have same: "gr_gc g2 = gr_gc g1" "w_blobs (gr_world g2) = w_blobs (gr_world g1)" using a by (simp_all add: aside_def apart_def)
  show ?thesis using c unfolding collected_def Let_def same aside_tables(5) [OF a] .
qed

lemma collected_reset: "collected E view bview g g1 \<Longrightarrow> collected E view bview g (g1\<lparr>gr_gc := gc_state_new\<rparr>)"
  by (simp add: collected_def Let_def gc_state_new_def)

lemma pass_collected:
  assumes g: "pass_ready g" and a: "aside g g2"
  shows "wp (gc_pass E cap False) (\<lambda>r g'. gc_ok g' \<and> collected E view bview g g') g2"
proof (rule wp_mono [OF gc_pass_spec [OF aside_ready [OF g a]]], goal_cases)
  case (1 r g')
  have same: "gr_gc g2 = gr_gc g" using a by (simp add: aside_def apart_def)
  have p: "pass_of g' = pass_of g + 1" using 1 same by simp
  show ?case
    unfolding collected_def Let_def using 1 unfolding aside_tables(1,3,6) [OF a] same p by blast
qed

text \<open>The loop after a pass: the outcome, the lease, the compaction.\<close>

abbreviation wind_up :: "string \<Rightarrow> (('s, 'b) reaper, unit) io" where
  "wind_up i \<equiv> io_bind (io_try (on_store (release_lease (ge_kv E) (ge_codecs E) (\<lambda>_ s. s) LEASE_GC i))) (\<lambda>_.
     io_bind (io_try (on_store (kv_compact (ge_kv E)))) (\<lambda>_. io_return ()))"

lemma wind_up_spec:
  assumes R: "gc_ok (re_run R)"
  shows "wp (wind_up i) (\<lambda>r R'. r = Inr () \<and> aside (re_run R) (re_run R') \<and> re_last_gc R' = re_last_gc R \<and> re_retries R' = re_retries R) R"
proof (rule try_aside [OF release_aside [OF R]])
  fix r g1 assume g1: "aside (re_run R) g1"
  then have ok: "gc_ok (re_run (R\<lparr>re_run := g1\<rparr>))" using aside_ok by simp
  show "wp (io_bind (io_try (on_store (kv_compact (ge_kv E)))) (\<lambda>_. io_return ()))
      (\<lambda>r R'. r = Inr () \<and> aside (re_run R) (re_run R') \<and> re_last_gc R' = re_last_gc R \<and> re_retries R' = re_retries R)
      (R\<lparr>re_run := g1\<rparr>)"
  proof (rule try_aside [OF compact_aside [OF ok]])
    fix r g2 assume "aside (re_run (R\<lparr>re_run := g1\<rparr>)) g2"
    then have "aside (re_run R) g2" using aside_trans [OF g1] by simp
    then show "wp (io_return ()) (\<lambda>r R'. r = Inr () \<and> aside (re_run R) (re_run R') \<and> re_last_gc R' = re_last_gc R \<and>
        re_retries R' = re_retries R) (R\<lparr>re_run := g1\<rparr>\<lparr>re_run := g2\<rparr>)"
      by (simp add: wp_simps)
  qed
qed

lemma finish_tick:
  assumes R: "gc_ok (re_run R)"
  shows "wp (io_bind (after_pass E s start n outcome) (\<lambda>_. wind_up i))
    (\<lambda>r R'. r = Inr () \<and> gc_ok (re_run R') \<and> pass_result s start n outcome (gr_gc (re_run R)) R' \<and>
      apart view ((re_run R)\<lparr>gr_gc := gr_gc (re_run R')\<rparr>) (re_run R')) R"
proof -
  consider stats where "outcome = Inr stats" | e where "outcome = Inl e" "is_transient e \<and> n < MAX_TRANSIENT_RETRIES"
    | e where "outcome = Inl e" "\<not> (is_transient e \<and> n < MAX_TRANSIENT_RETRIES)" by (cases outcome) auto
  then show ?thesis
  proof cases
    case 1
    show ?thesis
      unfolding after_pass_def 1 sum.case wp_bind [of "set_loop _ _"] wp_set_loop
      by (rule wp_mono [OF wind_up_spec]) (use R in \<open>auto simp: pass_result_def aside_def apart_def\<close>)
  next
    case 2
    show ?thesis
      unfolding after_pass_def 2(1) sum.case if_P [OF 2(2)] Let_def io_bind_assoc
    proof (rule try_aside [OF set_started_aside [OF R]])
      fix r g1 assume g1: "aside (re_run R) g1"
      show "wp (io_bind (set_loop (Some (start - seconds (sint (gc_interval_of s) - 5))) (n + 1)) (\<lambda>_. wind_up i))
        (\<lambda>r R'. r = Inr () \<and> gc_ok (re_run R') \<and> pass_result s start n (Inl e) (gr_gc (re_run R)) R' \<and>
          apart view ((re_run R)\<lparr>gr_gc := gr_gc (re_run R')\<rparr>) (re_run R')) (R\<lparr>re_run := g1\<rparr>)"
        unfolding wp_bind [of "set_loop _ _"] wp_set_loop sum.case
      proof (rule wp_mono [OF wind_up_spec], goal_cases)
        case 1 then show ?case using aside_ok [OF g1] by simp
      next
        case (2 r R')
        then have a: "aside (re_run R) (re_run R')" using aside_trans [OF g1] by simp
        have "gr_gc (re_run R') = gr_gc (re_run R)" "gc_ok (re_run R')" using a aside_ok [OF a] by (simp_all add: aside_def apart_def)
        then show ?case using 2 a \<open>is_transient e \<and> n < MAX_TRANSIENT_RETRIES\<close> by (simp add: pass_result_def aside_def apart_def)
      qed
    qed
  next
    case 3
    show ?thesis
      unfolding after_pass_def 3(1) sum.case if_not_P [OF 3(2)] io_bind_assoc wp_bind [of "set_loop _ _"] wp_set_loop
        wp_bind [of "on_run reset_gc_state"] wp_on_run wp_reset
    proof (rule wp_mono [OF wind_up_spec], goal_cases)
      case (2 r R')
      then show ?case using 3(2) R by (simp add: pass_result_def aside_def apart_def)
    qed (use R in simp)
  qed
qed

lemma collected_end:
  assumes "collected E view bview g g2" "pass_result s start n outcome (gr_gc g2) R" "gc_ok (re_run R)"
    and "apart view (g2\<lparr>gr_gc := gr_gc (re_run R)\<rparr>) (re_run R)"
  shows "collected E view bview g (re_run R)"
proof -
  have "gr_gc (re_run R) = gr_gc g2 \<or> gr_gc (re_run R) = gc_state_new"
    using assms(2) by (auto simp: pass_result_def split: sum.splits if_splits)
  then have "collected E view bview g (g2\<lparr>gr_gc := gr_gc (re_run R)\<rparr>)"
    using assms(1) collected_reset [OF assms(1)] by auto
  then show ?thesis by (rule collected_aside) (use assms(3,4) in \<open>simp add: aside_def\<close>)
qed

lemma leased_pass_spec:
  assumes ready: "pass_ready g" and a: "aside g (re_run R)"
  shows "wp (leased_pass E s (\<lambda>_ s. s) i n) (\<lambda>r R'. r = Inr () \<and> gc_ok (re_run R') \<and> collected E view bview g (re_run R') \<and>
    ran_pass E s view n g R') R"
proof -
  let ?pass = "gc_pass E (or_default (se_gc_max_orphan_candidates s) DEFAULT_GC_MAX_ORPHAN_CANDIDATES) False"
    and ?start = "ge_now E (gr_polls g)"
  have polls: "gr_polls (re_run R) = gr_polls g" using a by (simp add: aside_def apart_def)
  show ?thesis
    unfolding leased_pass_def wp_bind [of "on_run (read_clock E)"] wp_read_now sum.case polls
  proof (rule try_aside [OF set_started_aside [OF aside_ok [OF a]]])
    fix r g1 assume g1: "aside (re_run R) g1"
    have g1': "aside g g1" by (rule aside_trans [OF a g1])
    have pass: "wp (on_run ?pass) (\<lambda>r R'. gc_ok (re_run R') \<and> collected E view bview g (re_run R') \<and> ?pass g1 = Some (r, re_run R'))
        (R\<lparr>re_run := g1, re_last_gc := Some ?start, re_retries := n\<rparr>)"
      unfolding wp_on_run by (rule wp_mono, simp, rule wp_run [OF pass_collected [OF ready g1']]) simp
    show "wp (io_bind (set_loop (Some ?start) n) (\<lambda>_. io_bind (io_try (on_run ?pass)) (\<lambda>outcome.
        io_bind (after_pass E s ?start n outcome) (\<lambda>_. wind_up i))))
      (\<lambda>r R'. r = Inr () \<and> gc_ok (re_run R') \<and> collected E view bview g (re_run R') \<and> ran_pass E s view n g R') (R\<lparr>re_run := g1\<rparr>)"
      unfolding wp_bind [of "set_loop _ _"] wp_set_loop sum.case
    proof (rule wp_try_bindI [OF pass], goal_cases)
      case (1 outcome R2)
      then have R2: "gc_ok (re_run R2)" "collected E view bview g (re_run R2)" "?pass g1 = Some (outcome, re_run R2)" by auto
      show ?case
      proof (rule wp_mono [OF finish_tick [OF R2(1)]], goal_cases)
        case (1 r R')
        then have res: "pass_result s ?start n outcome (gr_gc (re_run R2)) R'" "gc_ok (re_run R')"
          "apart view ((re_run R2)\<lparr>gr_gc := gr_gc (re_run R')\<rparr>) (re_run R')" by auto
        have "ran_pass E s view n g R'"
          unfolding ran_pass_def using g1' R2(3) res(1,3) by (auto simp: aside_def)
        then show ?case using 1 collected_end [OF R2(2) res] by simp
      qed
    qed
  qed
qed

lemma acquire_run:
  "on_world (on_kv m) g = Some (r, g') \<Longrightarrow> \<exists>s'. m (w_kv (gr_world g)) = Some (r, s')"
  by (auto simp: on_world_def on_kv_def split: option.splits prod.splits)

lemma reaper_tick_spec:
  assumes ready: "pass_ready (re_run R)"
  shows "wp (reaper_tick E L s (\<lambda>_ s. s) i) (\<lambda>r R'. r = Inr () \<and> gc_ok (re_run R') \<and>
    collected E view bview (re_run R) (re_run R') \<and> ticked E L s i view R R') R"
proof -
  let ?g = "re_run R" and ?now = "ge_now E (gr_polls (re_run R))"
  have g: "gc_ok ?g" using ready unfolding pass_ready_def by blast
  have same: "collected E view bview ?g ?g" by (simp add: collected_def Let_def)
  note start = reaper_tick_def Let_def wp_bind [of get_loop] wp_get_loop wp_bind [of "on_run (read_clock E)"] wp_read_now sum.case
  show ?thesis
  proof (cases "due_now L s (re_last_gc R) ?now")
    case False
    then show ?thesis unfolding start using g same by (simp add: wp_simps ticked_def)
  next
    case True
    then have due: "\<not> \<not> due_now L s (re_last_gc R) ?now" by simp
    show ?thesis
      unfolding start if_not_P [OF due]
    proof (rule try_aside [OF acquire_aside [OF g]], drule acquire_run)
      fix acquired g1 assume g1: "aside ?g g1"
        and "\<exists>kv'. try_acquire_lease (ge_kv E) (ge_codecs E) (\<lambda>_ s. s) ?now LEASE_GC (i @ '':gc'') (lease_ttl_of L s)
          (w_kv (gr_world ?g)) = Some (acquired, kv')"
      then have granted: "lease_granted E L s i ?g \<longleftrightarrow> acquired = Inr True" by (auto simp: lease_granted_def)
      let ?R1 = "R\<lparr>re_run := g1\<rparr>"
      show "wp (if acquired = Inr True then leased_pass E s (\<lambda>_ s. s) (i @ '':gc'') (re_retries R) else io_return ())
          (\<lambda>r R'. r = Inr () \<and> gc_ok (re_run R') \<and> collected E view bview ?g (re_run R') \<and> ticked E L s i view R R') ?R1"
      proof (cases "acquired = Inr True")
        case acq: True
        show ?thesis
          unfolding if_P [OF acq]
          by (rule wp_mono [OF leased_pass_spec [OF ready]]) (use g1 True granted acq in \<open>auto simp: ticked_def\<close>)
      next
        case False
        then show ?thesis
          using granted True g1 aside_ok [OF g1] collected_aside [OF same g1] by (simp add: wp_simps ticked_def aside_def)
      qed
    qed
  qed
qed

end

end
