(* ===== verification/Gc_Properties.thy ===== *)
theory Gc_Properties
  imports Depot_Samples Gc_Loop
begin

text \<open>
  The properties of the garbage collector (\<open>server/src/server/worker/blob_reaper/\<close>), over every key
  value backend, every set of blob stores and every filter that keep their contracts, with concrete
  instances as witnesses.
\<close>

section \<open>Concrete inputs\<close>

text \<open>
  A repository \<open>r\<close> with one artifact that names the blob \<open>aabb2\<close>; the blob \<open>aabb1\<close> has no name and
  was seen as an orphan by the first pass.
\<close>

definition sample_named :: artifact_record where
  "sample_named = sample_artifact\<lparr>ar_blob_id := Some ''aabb2''\<rparr>"

definition sample_hosted :: repo_config where
  "sample_hosted = \<lparr>rp_schema_version = 5, rp_name = ''r'', rp_kind = Hosted,
     rp_format_config = RawConfig None, rp_store = ''default'', rp_created_at = 1,
     rp_cleanup_max_unaccessed_days = None, rp_cleanup_max_age_days = None, rp_deleting = False\<rparr>"

definition sample_store :: store_record where
  "sample_store = \<lparr>st_schema_version = 5, st_name = ''default'', st_kind = FileStore \<lparr>fs_root = ''/d'', fs_sync = True, fs_io_size = 4096, fs_direct_io = True\<rparr>, st_created_at = 1\<rparr>"

definition sample_gc_codecs :: codecs where
  "sample_gc_codecs = sample_codecs\<lparr>cs_artifact := table_codec [(sample_named, ''N'')],
     cs_repo := table_codec [(sample_hosted, ''R'')], cs_store := table_codec [(sample_store, ''S'')]\<rparr>"

definition sample_gc_env :: "(mem_db redb_store, disk, bytes) gc_env" where
  "sample_gc_env = stack_env (\<lambda>_ _ _. 0) 0 sample_stores
     \<lparr>ge_kv = mem_kv, ge_hasher = sample_hasher, ge_codecs = sample_gc_codecs, ge_registry = (\<lambda>_. None),
       ge_bloom = byte_filter, ge_now = (\<lambda>_. 10), ge_cancel = (\<lambda>_. False), ge_shards = [0..<NUM_SHARDS],
       ge_from_str = (\<lambda>_. Inr JNull)\<rparr>"

definition sample_gc_run :: "(mem_db redb_store, disk) gc_run" where
  "sample_gc_run = \<lparr>gr_world = \<lparr>w_kv = mem_of [(TABLE_REPOS, SINGLE_PK, ''r'', ''R''), (TABLE_STORES, SINGLE_PK, ''default'', ''S''),
         (TABLE_ARTIFACTS, sharded_pk sample_hasher ''r'' ''a/b'', ''a/b'', ''N'')],
       w_blobs = sample_files, w_open = True, w_atime_capacity = 1, w_dir = [], w_store = [], w_atime = []\<rparr>,
     gr_polls = 0, gr_gc = \<lparr>gs_orphan_candidates = [((''default'', ''aabb1''), 1)], gs_pass = 1\<rparr>\<rparr>"

lemma entries_where_single: "m = [k \<mapsto> (b, n)] \<Longrightarrow> entries_where m (\<lambda>_. True) = [(k, b)]"
  by (simp add: entries_where_def)

lemma sample_gc_view:
  "redb_invar mem_tab (w_kv (gr_world sample_gc_run))"
  "redb_view mem_tab (w_kv (gr_world sample_gc_run)) = entry_at [(TABLE_REPOS, SINGLE_PK, ''r'', ''R''),
     (TABLE_STORES, SINGLE_PK, ''default'', ''S''),
     (TABLE_ARTIFACTS, sharded_pk sample_hasher ''r'' ''a/b'', ''a/b'', ''N'')]"
proof -
  have "pk_ok (sharded_pk sample_hasher ''r'' ''a/b'')" by simp
  then have ok: "\<forall>(t, pk, sk, b) \<in> set [(TABLE_REPOS, SINGLE_PK, ''r'', ''R''), (TABLE_STORES, SINGLE_PK, ''default'', ''S''),
     (TABLE_ARTIFACTS, sharded_pk sample_hasher ''r'' ''a/b'', ''a/b'', ''N'')]. pk_ok pk \<and> sk_ok sk"
    by (simp add: sk_ok_def)
  show "redb_invar mem_tab (w_kv (gr_world sample_gc_run))"
    using mem_of_ok(1) [OF ok] by (simp add: sample_gc_run_def)
  show "redb_view mem_tab (w_kv (gr_world sample_gc_run)) = entry_at [(TABLE_REPOS, SINGLE_PK, ''r'', ''R''),
     (TABLE_STORES, SINGLE_PK, ''default'', ''S''),
     (TABLE_ARTIFACTS, sharded_pk sample_hasher ''r'' ''a/b'', ''a/b'', ''N'')]"
    using mem_of_ok(2) [OF ok] by (simp add: sample_gc_run_def fun_eq_iff)
qed

lemma sample_placed: "placed sample_hasher ''r'' (redb_view mem_tab (w_kv (gr_world sample_gc_run)))"
proof -
  have key: "artifact_key sample_hasher ''r'' ''a/b'' = (TABLE_ARTIFACTS, sharded_pk sample_hasher ''r'' ''a/b'', ''a/b'')"
    by (simp add: artifact_key_def Let_def normalize_path_def trim_matches_def trim_start_matches_def trim_end_matches_def)
  show ?thesis unfolding placed_def sample_gc_view(2) entry_at_def using key by auto
qed

lemma decode_table_single: "decode (table_codec [(r, b)]) b' = (if b' = b then Inr r else Inl (error_of_serde ''undecodable''))"
  by (simp add: decode_def serde_def table_codec_def Let_def)

lemma sample_codecs_at [simp]:
  "cs_repo (ge_codecs sample_gc_env) = table_codec [(sample_hosted, ''R'')]"
  "cs_store (ge_codecs sample_gc_env) = table_codec [(sample_store, ''S'')]"
  "cs_artifact (ge_codecs sample_gc_env) = table_codec [(sample_named, ''N'')]"
  "ge_hasher sample_gc_env = sample_hasher" "ge_shards sample_gc_env = [0..<NUM_SHARDS]" "ge_now sample_gc_env n = 10"
  by (simp_all add: sample_gc_env_def stack_env_def sample_gc_codecs_def)

lemma sample_listed:
  "listed_repos sample_gc_env (redb_view mem_tab (w_kv (gr_world sample_gc_run))) = [sample_hosted]"
  "listed_stores sample_gc_env (redb_view mem_tab (w_kv (gr_world sample_gc_run))) = [sample_store]"
proof -
  have "entries_where (redb_view mem_tab (w_kv (gr_world sample_gc_run)) TABLE_REPOS SINGLE_PK) (\<lambda>_. True) = [(''r'', ''R'')]"
    "entries_where (redb_view mem_tab (w_kv (gr_world sample_gc_run)) TABLE_STORES SINGLE_PK) (\<lambda>_. True) = [(''default'', ''S'')]"
    by (rule entries_where_single, auto simp: sample_gc_view entry_at_def fun_eq_iff)+
  then show "listed_repos sample_gc_env (redb_view mem_tab (w_kv (gr_world sample_gc_run))) = [sample_hosted]"
  "listed_stores sample_gc_env (redb_view mem_tab (w_kv (gr_world sample_gc_run))) = [sample_store]"
    by (simp_all add: listed_repos_def listed_stores_def ADMIN_ENTITY_CAP_def decode_table_single)
qed

lemma sample_ready:
  "gc_stack sample_gc_env (redb_invar mem_tab) (redb_view mem_tab) (stores_on sample_stores) (disk_view sample_stores) file_id_ok"
  "stores_on sample_stores (w_blobs (gr_world sample_gc_run))"
  "repos_ok sample_gc_env [sample_hosted] (redb_view mem_tab (w_kv (gr_world sample_gc_run)))"
  "no_panic sample_gc_env [sample_hosted]" "stores_ok [sample_store]" "\<not> rp_deleting sample_hosted"
  "\<not> session_blob sample_gc_env (redb_view mem_tab (w_kv (gr_world sample_gc_run))) st i"
proof -
  show "gc_stack sample_gc_env (redb_invar mem_tab) (redb_view mem_tab) (stores_on sample_stores) (disk_view sample_stores) file_id_ok"
    unfolding sample_gc_env_def by (rule stack_gc_stack)
  show "stores_on sample_stores (w_blobs (gr_world sample_gc_run))" using sample_files_on by (simp add: sample_gc_run_def)
  show "repos_ok sample_gc_env [sample_hosted] (redb_view mem_tab (w_kv (gr_world sample_gc_run)))"
    using sample_placed by (simp add: repos_ok_def sample_hosted_def)
  show "no_panic sample_gc_env [sample_hosted]" by (simp add: no_panic_def expiry_cutoffs_def sample_hosted_def)
  show "stores_ok [sample_store]" by (simp add: stores_ok_def sample_store_def sk_ok_def)
  show "\<not> rp_deleting sample_hosted" by (simp add: sample_hosted_def)
  show "\<not> session_blob sample_gc_env (redb_view mem_tab (w_kv (gr_world sample_gc_run))) st i"
    unfolding session_blob_def sample_gc_view(2) entry_at_def by simp
qed

section \<open>The pass\<close>

text \<open>
  C6: a collection pass deletes no blob that is in use. Whatever a pass does, succeed, fail or be
  cancelled half way: a blob of a store that changed either belonged to an upload session, or was
  entered as an orphan candidate by an earlier pass and is named by no artifact of the repositories
  the pass listed; in the latter case the pass has done nothing to the artifact records but remove
  some, so that a record which still names a blob protects it. The same holds of the artifact
  records of every successful pass. A dry run touches only blobs of upload sessions. New candidates
  carry the number of this pass, so none of them is deleted before the next one. The pass finds no
  repository marked for deletion, artifacts filed under their own paths and retention policies in
  the range of the clock. Of the artifact records after a pass that failed before it deleted any
  orphan nothing is said.
\<close>

theorem gc_pass_deletes_only_orphans:
  assumes "gc_stack E invar view binvar bview ok_id" "shard_order (ge_shards E)"
    and "invar (w_kv (gr_world g))" "binvar (w_blobs (gr_world g))"
  defines "v \<equiv> view (w_kv (gr_world g))"
  assumes "\<forall>repo \<in> set (listed_repos E v). \<not> rp_deleting repo"
    and "repos_ok E (listed_repos E v) v" "no_panic E (listed_repos E v)" "stores_ok (listed_stores E v)"
    and "\<forall>store i. session_blob E v store i \<longrightarrow> ok_id i"
  shows "wp (gc_pass E max_candidates dry_run) (\<lambda>r g'.
    gs_pass (gr_gc g') = gs_pass (gr_gc g) + 1 \<and>
    (\<forall>store i. blobs_of (bview store (w_blobs (gr_world g'))) i \<noteq> blobs_of (bview store (w_blobs (gr_world g))) i \<longrightarrow>
      session_blob E v store i \<or>
      \<not> dry_run \<and> earlier_candidate (gs_orphan_candidates (gr_gc g)) (gs_pass (gr_gc g')) (store, i) \<and>
        \<not> blob_named E (listed_repos E v) (view (w_kv (gr_world g'))) i \<and> artifacts_shrink v (view (w_kv (gr_world g')))) \<and>
    (\<forall>key p. map_of (gs_orphan_candidates (gr_gc g')) key = Some p \<longrightarrow>
      map_of (gs_orphan_candidates (gr_gc g)) key = Some p \<or> p = gs_pass (gr_gc g')) \<and>
    (\<forall>stats. r = Inr stats \<longrightarrow> artifacts_shrink v (view (w_kv (gr_world g'))))) g"
proof -
  have "gc_stack.pass_ready E invar view binvar ok_id g"
    using assms by (simp add: gc_stack.pass_ready_def [OF assms(1)])
  from gc_stack.gc_pass_spec [OF assms(1) this]
  show ?thesis unfolding v_def by (rule wp_mono) blast
qed

theorem gc_pass_deletes_only_orphans_witness:
  "wp (gc_pass sample_gc_env 100 False) (\<lambda>r g'.
     blobs_of (disk_view sample_stores ''default'' (w_blobs (gr_world g'))) ''aabb2'' = Some ''new'') sample_gc_run"
proof -
  have blobs: "w_blobs (gr_world sample_gc_run) = sample_files" by (simp add: sample_gc_run_def)
  have *: "wp (gc_pass sample_gc_env 100 False) (\<lambda>r g'. gs_pass (gr_gc g') = gs_pass (gr_gc sample_gc_run) + 1 \<and>
     (\<forall>store i. blobs_of (disk_view sample_stores store (w_blobs (gr_world g'))) i \<noteq>
        blobs_of (disk_view sample_stores store sample_files) i \<longrightarrow>
        earlier_candidate (gs_orphan_candidates (gr_gc sample_gc_run)) (gs_pass (gr_gc g')) (store, i))) sample_gc_run"
    using gc_pass_deletes_only_orphans [OF sample_ready(1) _ sample_gc_view(1), unfolded sample_listed, of 100 False] sample_ready shard_order_upt
    by (auto simp: blobs elim!: wp_mono)
  show ?thesis
  proof (rule wp_mono [OF *], elim conjE)
    fix r g'
    assume "\<forall>store i. blobs_of (disk_view sample_stores store (w_blobs (gr_world g'))) i \<noteq>
        blobs_of (disk_view sample_stores store sample_files) i \<longrightarrow>
        earlier_candidate (gs_orphan_candidates (gr_gc sample_gc_run)) (gs_pass (gr_gc g')) (store, i)"
    from this [rule_format, of "''default''" "''aabb2''"]
    show "blobs_of (disk_view sample_stores ''default'' (w_blobs (gr_world g'))) ''aabb2'' = Some ''new''"
      by (auto simp: earlier_candidate_def sample_gc_run_def sample_files_blobs)
  qed
qed

section \<open>Docker repositories\<close>

text \<open>
  What may go from a repository in a state of its records (\<open>v\<close>) and blobs (\<open>bl\<close>): old layers that no
  manifest refers to, and old manifests that no tag reaches over the image indexes.
\<close>

definition layer_garbage ::
    "('s, 'b, 'f) gc_env \<Rightarrow> string \<Rightarrow> datetime \<Rightarrow> kv_view \<Rightarrow> (string \<rightharpoonup> bytes) \<Rightarrow> string \<Rightarrow> bool" where
  "layer_garbage E repo cutoff v bl sk \<longleftrightarrow> is_layer sk \<and> (\<exists>rec digest.
     repo_entry (cs_artifact (ge_codecs E)) repo v sk rec \<and> ar_created_at rec \<le> cutoff \<and>
     digest_of ''_blobs/'' sk = Some digest \<and>
     digest \<notin> refs_of (ge_from_str E) bl (sr_manifests (docker_records (cs_artifact (ge_codecs E)) (ge_shards E) repo v)))"

definition manifest_garbage ::
    "('s, 'b, 'f) gc_env \<Rightarrow> string \<Rightarrow> datetime \<Rightarrow> kv_view \<Rightarrow> (string \<rightharpoonup> bytes) \<Rightarrow> string \<Rightarrow> bool" where
  "manifest_garbage E repo cutoff v bl sk \<longleftrightarrow> is_manifest sk \<and> (\<exists>rec digest.
     repo_entry (cs_artifact (ge_codecs E)) repo v sk rec \<and> ar_created_at rec \<le> cutoff \<and>
     digest_of ''_manifests/'' sk = Some digest \<and>
     (let records = docker_records (cs_artifact (ge_codecs E)) (ge_shards E) repo v
      in digest \<notin> tag_reach (children_map (ge_from_str E) bl (sr_manifests records) Map.empty) (sr_tag_digests records)))"

lemma dead_layers_garbage:
  assumes fin: "\<And>pk. finite (dom (v TABLE_ARTIFACTS pk))" and order: "shard_order (ge_shards E)"
    and refs: "\<forall>x \<in> refs_of (ge_from_str E) bl (sr_manifests (docker_records (cs_artifact (ge_codecs E)) (ge_shards E) repo v)). bl_check L bf x"
    and dead: "sk \<in> fst ` set (dead_layers L bf cutoff (sr_blob_refs (docker_records (cs_artifact (ge_codecs E)) (ge_shards E) repo v)))"
  shows "layer_garbage E repo cutoff v bl sk"
proof -
  from dead obtain z' where "(sk, z') \<in> set (dead_layers L bf cutoff (sr_blob_refs (docker_records (cs_artifact (ge_codecs E)) (ge_shards E) repo v)))"
    by auto
  then obtain t z d where m: "(sk, t, z) \<in> set (sr_blob_refs (docker_records (cs_artifact (ge_codecs E)) (ge_shards E) repo v))"
      "t \<le> cutoff" "digest_of ''_blobs/'' sk = Some d" "\<not> bl_check L bf d"
    by (auto simp: dead_layers_def split: if_splits option.splits) (metis not_less)
  moreover from m(1) obtain rec where "repo_entry (cs_artifact (ge_codecs E)) repo v sk rec" "is_layer sk" "t = ar_created_at rec"
    using docker_records_parts(1) [of v, OF fin order] by blast
  ultimately show ?thesis using refs unfolding layer_garbage_def by blast
qed

lemma dead_manifests_garbage:
  fixes repo :: string
  assumes fin: "\<And>pk. finite (dom (v TABLE_ARTIFACTS pk))" and order: "shard_order (ge_shards E)"
  defines "records \<equiv> docker_records (cs_artifact (ge_codecs E)) (ge_shards E) repo v"
  shows "fst ` set (dead_manifests (tag_reach (children_map (ge_from_str E) bl (sr_manifests records) Map.empty) (sr_tag_digests records))
      cutoff (sr_manifests records)) = {sk. manifest_garbage E repo cutoff v bl sk}"
proof -
  have dead: "sk \<in> fst ` set (dead_manifests R cutoff ms) \<longleftrightarrow>
      (\<exists>rec d. (sk, rec) \<in> set ms \<and> ar_created_at rec \<le> cutoff \<and> digest_of ''_manifests/'' sk = Some d \<and> d \<notin> R)" for sk R ms
    by (force simp: dead_manifests_def split: if_splits option.splits)
  have mem: "(sk, rec) \<in> set (sr_manifests records) \<longleftrightarrow> repo_entry (cs_artifact (ge_codecs E)) repo v sk rec \<and> is_manifest sk" for sk rec
    unfolding records_def by (rule docker_records_parts(2) [of v, OF fin order])
  show ?thesis
  proof (rule set_eqI)
    fix sk
    show "sk \<in> fst ` set (dead_manifests (tag_reach (children_map (ge_from_str E) bl (sr_manifests records) Map.empty)
        (sr_tag_digests records)) cutoff (sr_manifests records)) \<longleftrightarrow> sk \<in> {sk. manifest_garbage E repo cutoff v bl sk}"
      unfolding dead mem manifest_garbage_def Let_def records_def [symmetric] mem_Collect_eq by (simp only: conj_ac ex_simps)
  qed
qed

text \<open>
  C7: the Docker collection removes no layer that is still referred to and no manifest that a tag
  reaches. Provided the store of the repository answers every read of an id it accepts (as the
  buffered file store does on a disk without failures) and the manifests name accepted ids, a
  successful collection removes old layers that no manifest refers to and, if the repository wants
  untagged manifests cleaned, exactly the old manifests that no tag reaches over the image indexes;
  the records and blobs meant are those at its start. A dry run removes nothing, and nothing but
  directory entries changes besides. (A manifest that cannot be read contributes no references:
  without the proviso its layers may go.)
\<close>

theorem docker_gc_keeps_referenced:
  assumes "gc_stack E invar view binvar bview ok_id" "invar (w_kv (gr_world g))" "binvar (w_blobs (gr_world g))"
    and "pk_ok (rp_name repo)" "shard_order (ge_shards E)" "ge_registry E (rp_store repo) = Some bs" "reliable_get ok_id binvar bs"
  defines "v \<equiv> view (w_kv (gr_world g))"
    and "bl \<equiv> blobs_of (bview (rp_store repo) (w_blobs (gr_world g)))"
    and "cutoff \<equiv> ge_now E (gr_polls g) - of_nat DOCKER_GC_GRACE_SECS * 1000000000"
  assumes "\<forall>sk rec. repo_entry (cs_artifact (ge_codecs E)) (rp_name repo) v sk rec \<longrightarrow> is_manifest sk \<longrightarrow> blob_id_ok ok_id rec"
  shows "wp (docker_gc E repo dry_run) (\<lambda>r g'. \<forall>n. r = Inr n \<longrightarrow> (\<exists>layers.
    (\<forall>sk \<in> layers. layer_garbage E (rp_name repo) cutoff v bl sk) \<and>
    removed_paths (ge_hasher E) (rp_name repo)
      (if dry_run then {}
       else layers \<union> {sk. fc_cleanup_untagged_manifests (rp_format_config repo) \<and> manifest_garbage E (rp_name repo) cutoff v bl sk})
      v (view (w_kv (gr_world g'))))) g"
proof -
  let ?recs = "docker_records (cs_artifact (ge_codecs E)) (ge_shards E) (rp_name repo) v"
  have kv: "kv_store (ge_kv E) invar view" using assms(1) by (simp add: gc_stack_def gc_kv_def)
  have fin: "finite (dom (v TABLE_ARTIFACTS pk))" for pk
    unfolding v_def by (rule kv_store.view_finite [OF kv assms(2)])
  note order = \<open>shard_order (ge_shards E)\<close>
  have ids: "\<forall>(sk, rec) \<in> set (sr_manifests ?recs). blob_id_ok ok_id rec"
    using assms(11) docker_records_parts(2) [of v, OF fin order] by auto
  have g: "invar (w_kv (gr_world g)) \<and> binvar (w_blobs (gr_world g))" using assms(2,3) by simp
  show ?thesis
  proof (rule wp_mono [OF gc_stack.docker_gc_spec [OF assms(1) g assms(4), of dry_run]], intro allI impI, goal_cases)
    case (1 r g' n)
    note this [folded v_def, folded bl_def cutoff_def]
    then obtain bf ch where removed: "removed_paths (ge_hasher E) (rp_name repo)
        (if dry_run then {} else fst ` set (dead_layers (ge_bloom E) bf cutoff (sr_blob_refs ?recs)) \<union>
          (if fc_cleanup_untagged_manifests (rp_format_config repo)
           then fst ` set (dead_manifests (tag_reach ch (sr_tag_digests ?recs)) cutoff (sr_manifests ?recs)) else {}))
        v (view (w_kv (gr_world g')))"
      and refs: "\<forall>x \<in> refs_of (ge_from_str E) bl (sr_manifests ?recs). bl_check (ge_bloom E) bf x"
      and ch: "ch = children_map (ge_from_str E) bl (sr_manifests ?recs) Map.empty"
      using assms(6,7) ids by blast
    have if_set: "(if c then {sk. P sk} else {}) = {sk. c \<and> P sk}" for c and P :: "string \<Rightarrow> bool" by simp
    show "\<exists>layers. (\<forall>sk \<in> layers. layer_garbage E (rp_name repo) cutoff v bl sk) \<and>
        removed_paths (ge_hasher E) (rp_name repo) (if dry_run then {}
          else layers \<union> {sk. fc_cleanup_untagged_manifests (rp_format_config repo) \<and> manifest_garbage E (rp_name repo) cutoff v bl sk})
          v (view (w_kv (gr_world g')))"
    proof (intro exI conjI ballI)
      show "layer_garbage E (rp_name repo) cutoff v bl sk"
        if "sk \<in> fst ` set (dead_layers (ge_bloom E) bf cutoff (sr_blob_refs ?recs))" for sk
        by (rule dead_layers_garbage [OF fin order refs that])
    qed (rule removed [unfolded ch dead_manifests_garbage [where v = v and repo = "rp_name repo" and E = E, OF fin order] if_set])
  qed
qed

text \<open>
  An image \<open>i\<close> on the disk with two blobs, kept by a buffered store: the manifest \<open>m1\<close>, in the blob
  \<open>aabb1\<close>, refers to the layer \<open>d1\<close>; nothing refers to \<open>d2\<close>.
\<close>

definition sample_manifest :: artifact_record where
  "sample_manifest = sample_artifact\<lparr>ar_blob_id := Some ''aabb1''\<rparr>"

definition sample_docker :: repo_config where
  "sample_docker = sample_hosted\<lparr>rp_format_config := DockerConfig None (Some True)\<rparr>"

definition sample_docker_entries :: "(string \<times> string \<times> string \<times> bytes) list" where
  "sample_docker_entries = map (\<lambda>(path, b). (TABLE_ARTIFACTS, sharded_pk sample_hasher ''r'' path, path, b))
     [(''i/_manifests/m1'', ''M''), (''i/_blobs/d1'', ''A''), (''i/_blobs/d2'', ''A'')]"

definition buffered_fb :: file_blob_store where
  "buffered_fb = sample_fb\<lparr>fb_direct := False\<rparr>"

abbreviation buffered_stores :: "string \<rightharpoonup> file_blob_store" where
  "buffered_stores \<equiv> [''default'' \<mapsto> buffered_fb]"

definition sample_docker_env :: "(mem_db redb_store, disk, bytes) gc_env" where
  "sample_docker_env = stack_env (\<lambda>_ _ _. 0) 0 buffered_stores
    \<lparr>ge_kv = mem_kv, ge_hasher = sample_hasher,
     ge_codecs = sample_codecs\<lparr>cs_artifact := table_codec [(sample_manifest, ''M''), (sample_artifact, ''A'')]\<rparr>,
     ge_registry = (\<lambda>_. None), ge_bloom = byte_filter, ge_now = (\<lambda>_. 10000 * 1000000000),
     ge_cancel = (\<lambda>_. False), ge_shards = [0..<NUM_SHARDS],
     ge_from_str = (\<lambda>_. Inr (JObject [(''layers'', JArray [JObject [(''digest'', JString ''d1'')]])]))\<rparr>"

definition sample_docker_run :: "(mem_db redb_store, disk) gc_run" where
  "sample_docker_run = \<lparr>gr_world = \<lparr>w_kv = mem_of sample_docker_entries, w_blobs = sample_files,
       w_open = True, w_atime_capacity = 1, w_dir = [], w_store = [], w_atime = []\<rparr>,
     gr_polls = 0, gr_gc = gc_state_new\<rparr>"

lemma buffered_simps [simp]: "fb_root buffered_fb = ''/d''" "\<not> fb_direct buffered_fb"
  by (simp_all add: buffered_fb_def sample_fb_def)

lemma buffered_stack:
  "gc_stack sample_docker_env (redb_invar mem_tab) (redb_view mem_tab) (stores_under faultless buffered_stores)
    (disk_view buffered_stores) file_id_ok"
  unfolding sample_docker_env_def by (rule stack_gc_under)

lemma buffered_reliable:
  "reliable_get file_id_ok (stores_under faultless buffered_stores) (file_blob_ops (\<lambda>_ _ _. 0) (Suc 0) buffered_fb)"
  using buffered_get_answers [of buffered_stores _ "''default''" buffered_fb]
  by (simp add: reliable_get_def file_blob_ops_def)

lemma one_store_on: "stores_on [n \<mapsto> fb] s \<longleftrightarrow> fb_ok fb \<and> disk_ok {fb_root fb} s"
  unfolding stores_on_def by (auto split: if_splits)

lemma buffered_files: "stores_under faultless buffered_stores sample_files"
proof -
  have root: "fb_root sample_fb = ''/d''" "fb_ok buffered_fb = fb_ok sample_fb"
    by (simp_all add: sample_fb_def fb_ok_def buffered_fb_def)
  have "stores_on buffered_stores sample_files"
    using sample_files_on unfolding sample_stores_def one_store_on root buffered_simps .
  then show ?thesis by (simp add: stores_under_def faultless_def conf_def sample_files_def sample_disk_def)
qed

lemma buffered_blobs:
  "blobs_of (disk_view buffered_stores ''default'' sample_files) i =
    (if i = ''aabb1'' then Some ''old'' else if i = ''aabb2'' then Some ''new'' else None)"
  by (auto simp: disk_view_def file_at_def sample_files_at id_ok_shaped)

text \<open>Evaluating paths.\<close>

lemma sample_paths:
  "is_manifest ''i/_manifests/m1''" "\<not> is_manifest ''i/_blobs/d1''" "is_layer ''i/_blobs/d1''" "\<not> is_layer ''i/_manifests/m1''"
  "digest_of ''_blobs/'' ''i/_blobs/d1'' = Some ''d1''" "digest_of ''_blobs/'' ''i/_blobs/d2'' = Some ''d2''"
  "normalize_path ''i/_blobs/d1'' = ''i/_blobs/d1''" "normalize_path ''i/_blobs/d2'' = ''i/_blobs/d2''"
  "normalize_path ''i/_manifests/m1'' = ''i/_manifests/m1''"
  by code_simp+

lemma sample_docker_view:
  "redb_invar mem_tab (w_kv (gr_world sample_docker_run))"
  "redb_view mem_tab (w_kv (gr_world sample_docker_run)) = entry_at sample_docker_entries"
proof -
  have ok: "\<forall>(t, pk, sk, b) \<in> set sample_docker_entries. pk_ok pk \<and> sk_ok sk"
    by (simp add: sample_docker_entries_def sk_ok_def)
  show "redb_invar mem_tab (w_kv (gr_world sample_docker_run))"
    using mem_of_ok(1) [OF ok] by (simp add: sample_docker_run_def)
  show "redb_view mem_tab (w_kv (gr_world sample_docker_run)) = entry_at sample_docker_entries"
    using mem_of_ok(2) [OF ok] by (simp add: sample_docker_run_def fun_eq_iff)
qed

lemma sample_docker_at:
  "entry_at sample_docker_entries TABLE_ARTIFACTS pk sk = Some (b, n) \<longleftrightarrow> n = 1 \<and> sharded_pk sample_hasher ''r'' sk = pk \<and>
    (sk = ''i/_manifests/m1'' \<and> b = ''M'' \<or> sk \<in> {''i/_blobs/d1'', ''i/_blobs/d2''} \<and> b = ''A'')"
proof (cases "sharded_pk sample_hasher ''r'' sk = pk")
  case True
  then show ?thesis by (auto simp: entry_at_def sample_docker_entries_def)
next
  case False
  then have "entry_at sample_docker_entries TABLE_ARTIFACTS pk sk = None"
    by (auto simp: entry_at_def sample_docker_entries_def)
  then show ?thesis using False by simp
qed

lemma sample_docker_entry:
  "repo_entry (cs_artifact (ge_codecs sample_docker_env)) ''r'' (entry_at sample_docker_entries) sk rec \<longleftrightarrow>
    sk = ''i/_manifests/m1'' \<and> rec = sample_manifest \<or> sk \<in> {''i/_blobs/d1'', ''i/_blobs/d2''} \<and> rec = sample_artifact"
proof -
  have dec: "decode (cs_artifact (ge_codecs sample_docker_env)) b = Inr rec \<longleftrightarrow>
      b = ''M'' \<and> rec = sample_manifest \<or> b = ''A'' \<and> rec = sample_artifact" for b rec
    by (auto simp: decode_def serde_def table_codec_def Let_def sample_docker_env_def stack_env_def)
  have shard: "(\<exists>shard < NUM_SHARDS. sharded_pk sample_hasher ''r'' p = artifact_shard_pk ''r'' shard)" for p
    by (auto simp: sharded_pk_def artifact_shard_pk_def NUM_SHARDS_def)
  show ?thesis
    unfolding repo_entry_def dec sample_docker_at using shard by blast
qed

theorem docker_gc_keeps_referenced_witness:
  "wp (docker_gc sample_docker_env sample_docker False) (\<lambda>r g'. \<forall>n. r = Inr n \<longrightarrow>
     redb_view mem_tab (w_kv (gr_world g')) TABLE_ARTIFACTS (sharded_pk sample_hasher ''r'' ''i/_blobs/d1'') ''i/_blobs/d1'' =
       Some (''A'', 1)) sample_docker_run"
proof -
  let ?E = sample_docker_env and ?v = "entry_at sample_docker_entries" and ?bl = "blobs_of (disk_view buffered_stores ''default'' sample_files)"
  have reg: "ge_registry ?E (rp_store sample_docker) = Some (file_blob_ops (\<lambda>_ _ _. 0) (Suc 0) buffered_fb)"
    "rp_name sample_docker = ''r''"
    by (simp_all add: sample_docker_env_def sample_docker_def sample_hosted_def file_registry_def)
  have bl: "blobs_of (disk_view buffered_stores (rp_store sample_docker) (w_blobs (gr_world sample_docker_run))) = ?bl"
    by (simp add: sample_docker_def sample_hosted_def sample_docker_run_def)
  have order: "shard_order (ge_shards ?E)" by (simp add: sample_docker_env_def stack_env_def shard_order_upt)
  have fin: "finite (dom (?v TABLE_ARTIFACTS pk))" for pk
    unfolding sample_docker_view(2) [symmetric] by (rule kv_store.view_finite [OF mem_lawful sample_docker_view(1)])
  have m: "(''i/_manifests/m1'', sample_manifest) \<in> set (sr_manifests (docker_records (cs_artifact (ge_codecs ?E)) (ge_shards ?E) ''r'' ?v))"
    using docker_records_parts(2) [of ?v, OF fin order] sample_docker_entry sample_paths(1) by blast
  have t: "manifest_text ?bl sample_manifest = Some ''old''"
    by (simp add: manifest_text_def sample_manifest_def buffered_blobs del: fst_conv)
  have e: "set (extract_manifest_refs (ge_from_str ?E) ''old'') = {''d1''}"
    by (simp add: extract_manifest_refs_def sample_docker_env_def stack_env_def digest_field_def)
  have ref: "''d1'' \<in> refs_of (ge_from_str ?E) ?bl (sr_manifests (docker_records (cs_artifact (ge_codecs ?E)) (ge_shards ?E) ''r'' ?v))"
    unfolding refs_of_def by (rule UN_I [OF m]) (simp add: t e del: map_of.simps)
  have keep: "sk \<in> {''i/_blobs/d2'', ''i/_manifests/m1''}"
    if "layer_garbage ?E ''r'' c ?v ?bl sk \<or> manifest_garbage ?E ''r'' c ?v ?bl sk" for sk c
  proof -
    from that have "sk = ''i/_manifests/m1'' \<or> sk \<in> {''i/_blobs/d1'', ''i/_blobs/d2''}"
      unfolding layer_garbage_def manifest_garbage_def sample_docker_entry by blast
    moreover have "sk \<noteq> ''i/_blobs/d1''"
    proof
      assume sk: "sk = ''i/_blobs/d1''"
      then have "layer_garbage ?E ''r'' c ?v ?bl ''i/_blobs/d1''"
        using that sample_paths(2) unfolding manifest_garbage_def by blast
      then obtain digest where "digest_of ''_blobs/'' ''i/_blobs/d1'' = Some digest"
        "digest \<notin> refs_of (ge_from_str ?E) ?bl (sr_manifests (docker_records (cs_artifact (ge_codecs ?E)) (ge_shards ?E) ''r'' ?v))"
        unfolding layer_garbage_def by (elim conjE exE)
      then show False using ref unfolding sample_paths(5) option.inject by simp
    qed
    ultimately show ?thesis by blast
  qed
  have key: "(TABLE_ARTIFACTS, sharded_pk sample_hasher ''r'' ''i/_blobs/d1'', ''i/_blobs/d1'') \<notin> artifact_key sample_hasher ''r'' ` D"
    if "D \<subseteq> {''i/_blobs/d2'', ''i/_manifests/m1''}" for D
    using that by (auto simp: artifact_key_def Let_def sample_paths)
  have at: "?v TABLE_ARTIFACTS (sharded_pk sample_hasher ''r'' ''i/_blobs/d1'') ''i/_blobs/d1'' = Some (''A'', 1)"
    by (simp add: entry_at_def sample_docker_entries_def)
  have H: "ge_hasher ?E = sample_hasher" by (simp add: sample_docker_env_def stack_env_def)
  show ?thesis
  proof (rule wp_mono [OF docker_gc_keeps_referenced [OF buffered_stack sample_docker_view(1) _ _ order reg(1) buffered_reliable,
        unfolded sample_docker_view(2) reg(2) bl H]], goal_cases)
    case (4 r g')
    show ?case
    proof (intro allI impI)
      fix n assume "r = Inr n"
      with 4 obtain layers where "\<forall>sk \<in> layers. layer_garbage ?E ''r'' (ge_now ?E (gr_polls sample_docker_run) - of_nat DOCKER_GC_GRACE_SECS * 1000000000) ?v ?bl sk"
        and rem: "removed_paths sample_hasher ''r'' (layers \<union> {sk. fc_cleanup_untagged_manifests (rp_format_config sample_docker) \<and>
            manifest_garbage ?E ''r'' (ge_now ?E (gr_polls sample_docker_run) - of_nat DOCKER_GC_GRACE_SECS * 1000000000) ?v ?bl sk})
            ?v (redb_view mem_tab (w_kv (gr_world g')))" by auto
      with keep have "layers \<union> {sk. fc_cleanup_untagged_manifests (rp_format_config sample_docker) \<and>
          manifest_garbage ?E ''r'' (ge_now ?E (gr_polls sample_docker_run) - of_nat DOCKER_GC_GRACE_SECS * 1000000000) ?v ?bl sk}
            \<subseteq> {''i/_blobs/d2'', ''i/_manifests/m1''}" by blast
      from key [OF this] rem show "redb_view mem_tab (w_kv (gr_world g')) TABLE_ARTIFACTS
          (sharded_pk sample_hasher ''r'' ''i/_blobs/d1'') ''i/_blobs/d1'' = Some (''A'', 1)"
        unfolding removed_paths_def by (simp add: at)
    qed
  qed (use buffered_files in \<open>auto simp: blob_id_ok_def sample_docker_entry sample_manifest_def sample_artifact_def sample_docker_run_def\<close>)
qed

text \<open>
  The search for the manifests that tags reach ends on every set of image indexes, cyclic ones
  included, and finds exactly the digests reachable from the tags.
\<close>

theorem reachability_search_ends:
  assumes "finite (dom children_of)"
  shows "reach_loop children_of {} tags = Some (tag_reach children_of tags)"
  using assms by (rule reach_loop_total)

theorem reachability_search_ends_witness:
  "reach_loop [''a'' \<mapsto> [''b''], ''b'' \<mapsto> [''a'', ''c'']] {} [''a''] =
    Some (tag_reach [''a'' \<mapsto> [''b''], ''b'' \<mapsto> [''a'', ''c'']] [''a''])"
  by (rule reachability_search_ends) simp

section \<open>Expiry\<close>

text \<open>
  C15: expiry removes what the policy says and nothing else. With a retention age and no limit on
  unaccessed artifacts, a successful run has removed exactly the records of the repository that were
  created before the cutoff, internal records and, in a Docker repository, manifests and layers
  excepted; every other record of the store is as it was, directory entries aside. The artifacts of
  the repository are filed under the keys of their paths, as the writes leave them.
\<close>

theorem expiry_removes_exactly:
  assumes "gc_kv E invar view" "invar (w_kv (gr_world g))" "pk_ok (rp_name repo)" "shard_order (ge_shards E)"
  defines "v \<equiv> view (w_kv (gr_world g))"
  assumes "placed (ge_hasher E) (rp_name repo) v" "expiry_cutoffs (ge_now E (gr_polls g)) repo = Some (Some cutoff, None)"
  shows "wp (expire_repo_artifacts E repo) (\<lambda>r g'. \<forall>c t pk sk. r = Inr c \<longrightarrow> t \<noteq> TABLE_DIR_ENTRIES \<longrightarrow>
    view (w_kv (gr_world g')) t pk sk =
      (if t = TABLE_ARTIFACTS \<and> pk \<in> artifact_shard_pk (rp_name repo) ` {..<NUM_SHARDS} \<and>
          (\<exists>b n rec. v t pk sk = Some (b, n) \<and> decode (cs_artifact (ge_codecs E)) b = Inr rec \<and>
             ar_created_at rec < cutoff \<and> \<not> exempt (rp_format repo = DockerF) sk rec)
       then None else v t pk sk)) g"
proof (rule wp_mono [OF gc_kv.expire_repo_artifacts_spec [OF assms(1-3) assms(6) [unfolded v_def] assms(4) assms(7)]],
    intro allI impI, elim conjE)
  fix r g' c t pk sk
  let ?C = "cs_artifact (ge_codecs E)" and ?d = "rp_format repo = DockerF" and ?pks = "artifact_shard_pk (rp_name repo) ` {..<NUM_SHARDS}"
  assume rem: "removals ?C (may_expire ?d (Some cutoff) None) ?pks (view (w_kv (gr_world g))) (view (w_kv (gr_world g')))"
    and pol: "\<forall>c. r = Inr c \<longrightarrow> policy_applied ?C ?d (Some cutoff) None ?pks (view (w_kv (gr_world g))) (view (w_kv (gr_world g')))"
    and r: "r = Inr c" and t: "t \<noteq> TABLE_DIR_ENTRIES"
  have sat: "record_sat ?C (must_expire ?d (Some cutoff)) v pk sk \<longleftrightarrow>
      (\<exists>b n rec. v TABLE_ARTIFACTS pk sk = Some (b, n) \<and> decode ?C b = Inr rec \<and> ar_created_at rec < cutoff \<and> \<not> exempt ?d sk rec)"
    by (auto simp: record_sat_def must_expire_def too_old_def)
  show "view (w_kv (gr_world g')) t pk sk =
      (if t = TABLE_ARTIFACTS \<and> pk \<in> ?pks \<and> (\<exists>b n rec. v t pk sk = Some (b, n) \<and> decode ?C b = Inr rec \<and>
             ar_created_at rec < cutoff \<and> \<not> exempt ?d sk rec) then None else v t pk sk)"
  proof (cases "t = TABLE_ARTIFACTS \<and> pk \<in> ?pks")
    case True
    then have "view (w_kv (gr_world g')) TABLE_ARTIFACTS pk sk =
        (if record_sat ?C (must_expire ?d (Some cutoff)) v pk sk then None else v TABLE_ARTIFACTS pk sk)"
      unfolding v_def by (intro gc_kv.policy_applied_exact [OF assms(1) pol [rule_format, OF r]]) simp
    note eq = this [unfolded sat]
    from True have t: "t = TABLE_ARTIFACTS" and pk: "pk \<in> ?pks" by auto
    show ?thesis unfolding t by (simp only: pk eq simp_thms)
  next
    case False
    have "view (w_kv (gr_world g')) t pk sk = v t pk sk"
      using rem t False unfolding removals_def v_def by blast
    then show ?thesis using False by auto
  qed
qed

theorem expiry_removes_exactly_witness:
  "wp (expire_repo_artifacts (sample_gc_env\<lparr>ge_now := (\<lambda>_. 2 * 86400 * 1000000000)\<rparr>) (sample_hosted\<lparr>rp_cleanup_max_age_days := Some 1\<rparr>))
    (\<lambda>r g'. \<forall>c. r = Inr c \<longrightarrow>
      redb_view mem_tab (w_kv (gr_world g')) TABLE_ARTIFACTS (sharded_pk sample_hasher ''r'' ''a/b'') ''a/b'' = None) sample_gc_run"
proof -
  let ?E = "sample_gc_env\<lparr>ge_now := (\<lambda>_. 2 * 86400 * 1000000000)\<rparr>" and ?R = "sample_hosted\<lparr>rp_cleanup_max_age_days := Some 1\<rparr>"
  let ?pk = "sharded_pk sample_hasher ''r'' ''a/b''"
  have kv: "gc_kv ?E (redb_invar mem_tab) (redb_view mem_tab)"
    unfolding gc_kv_def by (simp add: sample_gc_env_def mem.kv_store_axioms)
  have R: "rp_name ?R = ''r''" "rp_format ?R \<noteq> DockerF" by (simp_all add: sample_hosted_def rp_format_def)
  have cut: "expiry_cutoffs (ge_now ?E (gr_polls sample_gc_run)) ?R = Some (Some (86400 * 1000000000), None)"
    by (simp add: expiry_cutoffs_def days_before_def sample_hosted_def)
  have at: "redb_view mem_tab (w_kv (gr_world sample_gc_run)) TABLE_ARTIFACTS ?pk ''a/b'' = Some (''N'', 1)"
    by (simp add: sample_gc_view(2) entry_at_def)
  have dec: "decode (cs_artifact (ge_codecs ?E)) ''N'' = Inr sample_named" by (simp add: decode_table_single)
  have old: "ar_created_at sample_named < 86400 * 1000000000" "\<not> exempt False ''a/b'' sample_named"
    by (simp_all add: sample_named_def sample_artifact_def exempt_def)
  have pk: "?pk \<in> artifact_shard_pk ''r'' ` {..<NUM_SHARDS}"
    by (auto simp: sharded_pk_def artifact_shard_pk_def NUM_SHARDS_def)
  show ?thesis
  proof (rule wp_mono [OF expiry_removes_exactly [OF kv sample_gc_view(1) _ _ _ cut, unfolded R(1)]], goal_cases)
    case (4 r g')
    have d: "(rp_format ?R = DockerF) = False" using R(2) by simp
    show ?case
    proof (intro allI impI)
      fix c assume "r = Inr c"
      from 4 [rule_format, OF this, of TABLE_ARTIFACTS ?pk "''a/b''"] pk at dec old
      show "redb_view mem_tab (w_kv (gr_world g')) TABLE_ARTIFACTS ?pk ''a/b'' = None"
        unfolding d by (auto split: if_splits)
    qed
  qed (use sample_placed in \<open>simp_all add: shard_order_upt\<close>)
qed

text \<open>
  C18: a retention age is a count of days in 64 unsigned bits, cast to a signed number. Up to
  \<open>2 ^ 63 - 1\<close> days the cutoff, when it is in the range of the clock, lies that many days back; from
  \<open>2 ^ 63\<close> on it lies in the future, so that every record there is counts as expired.
\<close>

theorem retention_days_wrap:
  assumes "days_before now days = Some cutoff"
  shows "(unat days < 2 ^ 63 \<longrightarrow> cutoff = now - int (unat days) * 86400 * 1000000000) \<and>
    (2 ^ 63 \<le> unat days \<longrightarrow> now < cutoff)"
proof -
  have cutoff: "cutoff = now - sint days * 86400 * 1000000000"
    using assms by (simp add: days_before_def Let_def split: if_splits)
  define u where "u = uint days"
  have u: "0 \<le> u" "u < 18446744073709551616" "int (unat days) = u" using uint_lt2p [of days] by (simp_all add: u_def)
  have sint: "sint days = signed_take_bit 63 u" by (simp add: sint_uint u_def)
  have "sint days = int (unat days)" if "unat days < 2 ^ 63"
  proof -
    have "int (unat days) < int (2 ^ 63)" using that by (simp only: of_nat_less_iff)
    then have "u < 2 ^ 63" using u(3) by simp
    then show ?thesis unfolding sint u(3) by (intro signed_take_bit_int_eq_self) (use u(1) in simp_all)
  qed
  moreover have "sint days < 0" if "2 ^ 63 \<le> unat days"
  proof -
    have "int (2 ^ 63) \<le> int (unat days)" using that by (simp only: of_nat_le_iff)
    then have "2 ^ 63 \<le> u" using u(3) by simp
    from signed_take_bit_int_less_eq [OF this] have "signed_take_bit 63 u \<le> u - 18446744073709551616" by simp
    then show ?thesis unfolding sint using u(2) by linarith
  qed
  ultimately show ?thesis unfolding cutoff by (smt (verit))
qed

theorem retention_days_wrap_witness: "(0 :: int) < 86400 * 1000000000 \<and> days_before 0 (- 1) = Some (86400 * 1000000000)"
proof -
  have *: "days_before 0 (- 1) = Some (86400 * 1000000000)" by (simp add: days_before_def)
  then show ?thesis using retention_days_wrap [OF *] by simp
qed

section \<open>The filter\<close>

text \<open>The tasks fold their filters into the accumulator, in the order in which they finish.\<close>

fun accumulate :: "'f bloom_ops \<Rightarrow> bloom_accumulator \<Rightarrow> 'f list \<Rightarrow> bloom_accumulator result" where
  "accumulate L acc [] = Inr acc"
| "accumulate L acc (f # fs) = (case or_from L acc f of Inl e \<Rightarrow> Inl e | Inr acc' \<Rightarrow> accumulate L acc' fs)"

lemma accumulate_spec:
  assumes "bloom_lib L" "acc_like L t acc"
  shows "(\<forall>f \<in> set fs. same_params L t f) \<Longrightarrow> \<exists>acc'. accumulate L acc fs = Inr acc' \<and> acc_like L t acc' \<and>
      bits_le (ba_bits acc) (ba_bits acc') \<and> (\<forall>f \<in> set fs. bits_le (filter_bits L f) (ba_bits acc'))"
    and "\<not> (\<forall>f \<in> set fs. same_params L t f) \<Longrightarrow> \<exists>e. accumulate L acc fs = Inl e"
  using assms(2)
proof (induction fs arbitrary: acc)
  case (Cons f fs)
  note step = bloom_lib.or_from_spec [OF assms(1)]
  {
    case 1
    then obtain acc1 where acc1: "or_from L acc f = Inr acc1" "acc_like L t acc1" "bits_le (ba_bits acc) (ba_bits acc1)"
        "bits_le (filter_bits L f) (ba_bits acc1)" using step(1) [OF 1(2)] by auto
    from Cons.IH(1) [OF _ acc1(2)] 1 obtain acc2 where "accumulate L acc1 fs = Inr acc2" "acc_like L t acc2"
        "bits_le (ba_bits acc1) (ba_bits acc2)" "\<forall>f \<in> set fs. bits_le (filter_bits L f) (ba_bits acc2)" by auto
    then show ?case using acc1 by (auto intro: bits_le_trans)
  next
    case 2
    show ?case
    proof (cases "same_params L t f")
      case True
      then obtain acc1 where "or_from L acc f = Inr acc1" "acc_like L t acc1" using step(1) [OF 2(2)] by blast
      then show ?thesis using Cons.IH(2) [of acc1] True 2(1) by auto
    next
      case False
      then obtain e where "or_from L acc f = Inl e" using step(2) [OF 2(2)] by blast
      then show ?thesis by simp
    qed
  }
qed auto

text \<open>
  C16: no blob is lost when the filters of the scan tasks are merged. Whatever their order, filters
  built from the template are all accepted and the merged filter finds every item that one of them
  finds; a filter with other parameters is refused, so its bits never enter.
\<close>

theorem merged_filter_complete:
  assumes "bloom_lib L"
  shows "(if \<forall>f \<in> set fs. same_params L template f
     then \<exists>acc merged. accumulate L (accumulator_empty_like L template) fs = Inr acc \<and>
       accumulator_finalize L acc = Inr merged \<and> (\<forall>f \<in> set fs. \<forall>x. bl_check L f x \<longrightarrow> bl_check L merged x)
     else \<exists>e. accumulate L (accumulator_empty_like L template) fs = Inl e)"
proof (cases "\<forall>f \<in> set fs. same_params L template f")
  case True
  note empty = bloom_lib.empty_accumulator [OF assms, of template]
  from accumulate_spec(1) [OF assms empty True] obtain acc where acc: "accumulate L (accumulator_empty_like L template) fs = Inr acc"
    "acc_like L template acc" "\<forall>f \<in> set fs. bits_le (filter_bits L f) (ba_bits acc)" by blast
  from bloom_lib.finalize_spec [OF assms acc(2)] obtain merged where merged: "accumulator_finalize L acc = Inr merged"
    "same_params L template merged" "filter_bits L merged = ba_bits acc" by blast
  have "bl_check L merged x" if "f \<in> set fs" "bl_check L f x" for f x
  proof (rule bloom_lib.check_payload [OF assms _ _ that(2)])
    show "same_params L f merged"
      using bloom_lib.same_params_trans [OF assms bloom_lib.same_params_sym [OF assms] merged(2)] True that(1) by blast
    show "bits_le (filter_bits L f) (filter_bits L merged)" using acc(3) that(1) merged(3) by simp
  qed
  then show ?thesis using True acc(1) merged(1) by auto
qed (use accumulate_spec(2) [OF assms bloom_lib.empty_accumulator [OF assms]] in auto)

theorem merged_filter_complete_witness:
  "\<exists>acc merged. accumulate byte_filter (accumulator_empty_like byte_filter [CHR ''B'', CHR 0x00, CHR 0x00])
       [[CHR ''B'', CHR 0x01, CHR 0x00], [CHR ''B'', CHR 0x00, CHR 0x02]] = Inr acc \<and>
     accumulator_finalize byte_filter acc = Inr merged"
  using merged_filter_complete [OF byte_filter.bloom_lib_axioms, of
      "[[CHR ''B'', CHR 0x01, CHR 0x00], [CHR ''B'', CHR 0x00, CHR 0x02]]" "[CHR ''B'', CHR 0x00, CHR 0x00]"]
  by (auto simp: same_params_def)

section \<open>The loop\<close>

text \<open>
  C17: the schedule of the collector. A pass is due exactly when the minimal interval has passed in
  whole seconds since the last start and, without a fixed start time, so has the interval; with one,
  when some day's occurrence of that time lies after the last start and not after now. So passes with
  a start time do not drift, and a clock that went backwards starts nothing.
\<close>

theorem gc_schedule:
  assumes "now - last_start < 2 ^ 63 * 1000000000" "\<forall>t. start_time = Some t \<longrightarrow> t < 86400"
  shows "gc_due last_start now gc_interval gc_min_interval start_time \<longleftrightarrow>
    uint gc_min_interval \<le> max 0 ((now - last_start) div 1000000000) \<and>
    (case start_time of
       None \<Rightarrow> uint gc_interval \<le> max 0 ((now - last_start) div 1000000000)
     | Some t \<Rightarrow> \<exists>d. last_start < d * DAY + int t * 1000000000 \<and> d * DAY + int t * 1000000000 \<le> now)"
  using assms by (rule gc_due_iff)

theorem gc_schedule_witness:
  "gc_due (11 * 3600 * 1000000000) (11 * 3600 * 1000000000 + DAY) 60 3600 (Some (10 * 3600))"
proof -
  have "(\<exists>d. 11 * 3600 * 1000000000 < d * DAY + int (10 * 3600) * 1000000000 \<and>
      d * DAY + int (10 * 3600) * 1000000000 \<le> 11 * 3600 * 1000000000 + DAY)"
    by (rule exI [of _ 1]) (simp add: DAY_def)
  then show ?thesis
    by (subst gc_schedule) (simp_all add: DAY_def)
qed

text \<open>
  C14: one tick of the collector's loop, with its lease, the recorded start and the compaction around
  the pass, when nobody else writes meanwhile. It always returns. If no pass is due it changes
  nothing; if one is due but \<open>try_acquire_lease\<close> does not answer Ok(true), the loop, the candidates
  and all stores stay as they were and only leases and metadata may differ. Otherwise it runs the
  pass on a store in which only leases and metadata differ, and goes by its outcome: after a success
  the next start is counted from this one; after a transient error with fewer than three retries
  behind it the start is put back by the interval and the retry counted; after any other error the
  start counts, the retries begin anew and the orphan candidates are forgotten. What remains of the
  store is what the pass left, leases and metadata apart. In every case the only blobs that change
  are those of upload sessions and orphans seen by an earlier pass that no artifact names.
\<close>

theorem reaper_tick_safe:
  assumes "gc_stack E invar view binvar bview ok_id" "shard_order (ge_shards E)"
    and "invar (w_kv (gr_world (re_run R)))" "binvar (w_blobs (gr_world (re_run R)))"
  defines "v \<equiv> view (w_kv (gr_world (re_run R)))"
  assumes "\<forall>repo \<in> set (listed_repos E v). \<not> rp_deleting repo"
    and "repos_ok E (listed_repos E v) v" "no_panic E (listed_repos E v)" "stores_ok (listed_stores E v)"
    and "\<forall>store i. session_blob E v store i \<longrightarrow> ok_id i"
  shows "wp (reaper_tick E L s (\<lambda>_ s. s) instance_id) (\<lambda>r R'. r = Inr () \<and>
    collected E view bview (re_run R) (re_run R') \<and> ticked E L s instance_id view R R') R"
proof -
  have "gc_stack.pass_ready E invar view binvar ok_id (re_run R)"
    using assms by (simp add: gc_stack.pass_ready_def [OF assms(1)])
  from gc_stack.reaper_tick_spec [OF assms(1) this] show ?thesis by (rule wp_mono) simp
qed

theorem reaper_tick_safe_witness:
  "wp (reaper_tick sample_gc_env (\<lparr>sl_method_ok = (\<lambda>_. True), sl_parse_time = (\<lambda>_. None), sl_debug = (\<lambda>s. s)\<rparr>) default_settings
      (\<lambda>_ s. s) ''i'') (\<lambda>r R'. r = Inr () \<and>
      blobs_of (disk_view sample_stores ''default'' (w_blobs (gr_world (re_run R')))) ''aabb2'' = Some ''new'')
    \<lparr>re_run = sample_gc_run, re_last_gc = None, re_retries = 0\<rparr>"
proof (rule wp_mono [OF reaper_tick_safe [OF sample_ready(1)]], goal_cases)
  case (9 r R')
  then have *: "collected sample_gc_env (redb_view mem_tab) (disk_view sample_stores) sample_gc_run (re_run R')" by simp
  have "\<not> earlier_candidate (gs_orphan_candidates (gr_gc sample_gc_run)) (gs_pass (gr_gc sample_gc_run) + 1) (''default'', ''aabb2'')"
    by (simp add: earlier_candidate_def sample_gc_run_def)
  then have "blobs_of (disk_view sample_stores ''default'' (w_blobs (gr_world (re_run R')))) ''aabb2'' =
      blobs_of (disk_view sample_stores ''default'' (w_blobs (gr_world sample_gc_run))) ''aabb2''"
    using * sample_ready(7) unfolding collected_def Let_def by blast
  also have "\<dots> = Some ''new''" using sample_files_blobs [of "''aabb2''"] by (simp add: sample_gc_run_def)
  finally show ?case using 9 by simp
qed (use sample_ready sample_gc_view(1) in \<open>simp_all add: sample_listed shard_order_upt\<close>)

text \<open>
  The retry of a transient error. The start put back by the interval makes the next tick due when
  passes run by interval; with a fixed start time it is due only if the time of day occurred within
  the last interval, so a pass that failed later than that waits for the next day.
\<close>

theorem retry_schedule:
  assumes "or_default (se_gc_min_interval_secs s) DEFAULT_GC_MIN_INTERVAL_SECS \<le> gc_interval_of s"
    and "gc_interval_of s < 2 ^ 62" "start + 5 * 1000000000 \<le> now" "now < start + 2 ^ 62 * 1000000000"
    and "\<forall>t. gc_start_time_of L s = Some t \<longrightarrow> t < 86400"
  shows "due_now L s (Some (start - seconds (sint (gc_interval_of s) - 5))) now \<longleftrightarrow>
    (case gc_start_time_of L s of None \<Rightarrow> True
     | Some t \<Rightarrow> \<exists>d. start - seconds (sint (gc_interval_of s) - 5) < d * DAY + int t * 1000000000 \<and> d * DAY + int t * 1000000000 \<le> now)"
proof -
  let ?i = "gc_interval_of s" and ?m = "or_default (se_gc_min_interval_secs s) DEFAULT_GC_MIN_INTERVAL_SECS"
  have small: "uint ?i < 2 ^ 62" using assms(2) by (simp add: word_less_alt)
  have "- (2 ^ 63) \<le> uint ?i" by (rule order_trans [where y = 0]) simp_all
  moreover have "uint ?i < 2 ^ 63" using small by simp
  ultimately have si: "sint ?i = uint ?i" unfolding sint_uint by (intro signed_take_bit_int_eq_self) simp_all
  define e where "e = now - (start - seconds (sint ?i - 5))"
  have e: "uint ?i * 1000000000 \<le> e" "e < 2 ^ 63 * 1000000000"
    using assms(3,4) small unfolding e_def seconds_def si by simp_all
  have "uint ?i \<le> e div 1000000000" using e(1) by simp
  moreover have "uint ?m \<le> uint ?i" using assms(1) by (simp add: word_le_def)
  ultimately have el: "uint ?i \<le> max 0 (e div 1000000000)" "uint ?m \<le> max 0 (e div 1000000000)" by linarith+
  show ?thesis
    using gc_due_iff [OF e(2) [unfolded e_def] assms(5), of ?i ?m] el unfolding e_def [symmetric]
    by (auto simp: due_now_def split: option.splits)
qed

theorem retry_schedule_witness:
  "let L = \<lparr>sl_method_ok = (\<lambda>_. True), sl_parse_time = (\<lambda>_. Some 36000), sl_debug = (\<lambda>s. s)\<rparr>;
       s = default_settings\<lparr>se_gc_interval_secs := Some 3600, se_gc_start_time := Some ''10:00''\<rparr>;
       start = 12 * 3600 * 1000000000
   in validate_settings L s = Inr () \<and> \<not> due_now L s (Some (start - seconds (sint (gc_interval_of s) - 5))) (start + 60 * 1000000000)"
proof -
  let ?L = "\<lparr>sl_method_ok = (\<lambda>_ :: string. True), sl_parse_time = (\<lambda>_ :: string. Some 36000), sl_debug = (\<lambda>s :: string. s)\<rparr>"
    and ?s = "default_settings\<lparr>se_gc_interval_secs := Some 3600, se_gc_start_time := Some ''10:00''\<rparr>"
  have i: "gc_interval_of ?s = 3600" "gc_start_time_of ?L ?s = Some 36000" "or_default (se_gc_min_interval_secs default_settings) DEFAULT_GC_MIN_INTERVAL_SECS = 3600"
    by (simp_all add: gc_interval_of_def gc_start_time_of_def or_default_def default_settings_def)
  have no: "\<not> (12 * 3600 * 1000000000 - seconds (sint (3600 :: u64) - 5) < d * DAY + int 36000 * 1000000000 \<and>
      d * DAY + int 36000 * 1000000000 \<le> 12 * 3600 * 1000000000 + 60 * 1000000000)" for d
  proof -
    consider "d \<le> 0" | "1 \<le> d" by linarith
    then show ?thesis by cases (simp_all add: DAY_def seconds_def)
  qed
  have "\<not> due_now ?L ?s (Some (12 * 3600 * 1000000000 - seconds (sint (gc_interval_of ?s) - 5))) (12 * 3600 * 1000000000 + 60 * 1000000000)"
    by (subst retry_schedule) (use no in \<open>simp_all add: i\<close>)
  moreover have "validate_settings ?L ?s = Inr ()" by (simp add: validate_settings_def default_settings_def Let_def)
  ultimately show ?thesis by (simp add: Let_def)
qed

end
