(* ===== verification/Tree_Rebuild.thy ===== *)
theory Tree_Rebuild
  imports Update_Worker Service_Repo Service_Blob
begin

text \<open>
  The rebuild of the browse tree (\<open>full_scan\<close> of \<open>server/src/server/worker/update.rs\<close>): the artifacts
  of every repository are read again, the directory and file entries they call for are compared with
  those there are, and the differences are written in batches. The progress display and the task log
  are left out.

  A \<open>HashMap\<close> is an association list, \<open>ord\<close> the order in which its keys are visited, \<open>shards\<close> the
  order in which the tasks of the shards finish.
\<close>

section \<open>Directory statistics\<close>

text \<open>Artifacts, bytes, last change and last access; \<open>0\<close> is the epoch.\<close>

type_synonym dir_stat = "u64 \<times> u64 \<times> datetime \<times> datetime"

type_synonym dir_stats = "(string \<times> dir_stat) list"

definition no_stat :: dir_stat where
  "no_stat = (0, 0, 0, 0)"

definition add_stat :: "dir_stat \<Rightarrow> dir_stat \<Rightarrow> dir_stat" where
  "add_stat = (\<lambda>(n, b, m, a) (artifacts, bytes, modified, accessed).
     (n + artifacts, b + bytes, if m < modified then modified else m, if a < accessed then accessed else a))"

definition add_dir :: "string \<Rightarrow> dir_stat \<Rightarrow> dir_stats \<Rightarrow> dir_stats" where
  "add_dir dir st stats =
     AList.update dir (add_stat (case map_of stats dir of Some entry \<Rightarrow> entry | None \<Rightarrow> no_stat) st) stats"

function strip_dirs :: "string \<Rightarrow> string list" where
  "strip_dirs remaining = (case rfind CHR ''/'' remaining of
     None \<Rightarrow> []
   | Some pos \<Rightarrow> take pos remaining # strip_dirs (take pos remaining))"
  by auto
termination by (relation "measure length") (auto elim: rfind_SomeE)

declare strip_dirs.simps [simp del]

definition ancestor_dirs :: "string \<Rightarrow> string list" where
  "ancestor_dirs path = strip_dirs path @ [[]]"

definition artifact_stat :: "artifact_record \<Rightarrow> dir_stat" where
  "artifact_stat record = (1, ar_size record, ar_updated_at record, ar_last_accessed_at record)"

section \<open>The scans of a shard\<close>

type_synonym shard_scan = "dir_stats \<times> (string \<times> tree_entry) list"

definition scan_artifact :: "artifact_record codec \<Rightarrow> shard_scan callback" where
  "scan_artifact c raw_sk value = (\<lambda>(dir_stats, file_entries). case decode c value of
     Inl e \<Rightarrow> Inl e
   | Inr record \<Rightarrow>
      let sk = normalize_path raw_sk
      in Inr (True, fold (\<lambda>dir. add_dir dir (artifact_stat record)) (ancestor_dirs sk) dir_stats,
           file_entries @ [(sk, tree_entry_of record)]))"

definition scan_artifact_shard :: "'s kv \<Rightarrow> codecs \<Rightarrow> string \<Rightarrow> nat \<Rightarrow> ('s, shard_scan) io" where
  "scan_artifact_shard kv C repo shard =
     for_each_in_partition kv TABLE_ARTIFACTS (artifact_shard_pk repo shard) [] 1000 (scan_artifact (cs_artifact C)) ([], [])"

definition scan_tree_shard :: "'s kv \<Rightarrow> string \<Rightarrow> nat \<Rightarrow> ('s, ((string \<times> string) \<times> bytes) list) io" where
  "scan_tree_shard kv repo shard =
     (let tree_pk = tree_shard_pk repo shard
      in for_each_in_partition kv TABLE_DIR_ENTRIES tree_pk [] 1000
           (\<lambda>sk value entries. Inr (True, entries @ [((tree_pk, sk), value)])) [])"

section \<open>The rebuild of a repository\<close>

definition merge_shards :: "shard_scan list \<Rightarrow> shard_scan" where
  "merge_shards results = fold (\<lambda>(ds, fs) (dir_stats, file_entries).
     (fold (\<lambda>(dir_path, st). add_dir dir_path st) ds dir_stats, file_entries @ fs)) results ([], [])"

definition dir_tree_entry :: "dir_stat \<Rightarrow> tree_entry" where
  "dir_tree_entry = (\<lambda>(artifacts, bytes, modified, accessed).
     \<lparr>te_kind = Dir artifacts bytes, te_last_modified_at = modified, te_last_accessed_at = accessed\<rparr>)"

definition tree_key :: "hasher \<Rightarrow> string \<Rightarrow> string \<Rightarrow> string \<times> string" where
  "tree_key H repo path = (sharded_pk H repo (tree_parent path), tree_sort_key path)"

fun expect_entries ::
    "hasher \<Rightarrow> tree_entry codec \<Rightarrow> string \<Rightarrow> (string \<times> tree_entry) list \<Rightarrow> ((string \<times> string) \<times> bytes) list \<Rightarrow>
     ((string \<times> string) \<times> bytes) list result" where
  "expect_entries H c repo [] expected = Inr expected"
| "expect_entries H c repo ((path, te) # entries) expected = (case encode c te of
     Inl e \<Rightarrow> Inl e
   | Inr te_bytes \<Rightarrow> expect_entries H c repo entries (AList.update (tree_key H repo path) te_bytes expected))"

definition REBUILD_BATCH_SIZE :: nat where
  "REBUILD_BATCH_SIZE = 500"

function chunks_of :: "nat \<Rightarrow> 'a list \<Rightarrow> 'a list list" where
  "chunks_of n xs = (if n = 0 \<or> xs = [] then [] else take n xs # chunks_of n (drop n xs))"
  by auto
termination by (relation "measure (length \<circ> snd)") auto

declare chunks_of.simps [simp del]

text \<open>What is there and not expected, and what is expected and not there.\<close>

definition stale_keys ::
    "((string \<times> string) list \<Rightarrow> (string \<times> string) list) \<Rightarrow> ((string \<times> string) \<times> bytes) list \<Rightarrow>
     ((string \<times> string) \<times> bytes) list \<Rightarrow> (string \<times> string) list" where
  "stale_keys ord existing expected = filter (\<lambda>k. map_of expected k = None) (ord (map fst existing))"

definition changed_entries ::
    "((string \<times> string) list \<Rightarrow> (string \<times> string) list) \<Rightarrow> ((string \<times> string) \<times> bytes) list \<Rightarrow>
     ((string \<times> string) \<times> bytes) list \<Rightarrow> (string \<times> string \<times> bytes) list" where
  "changed_entries ord existing expected =
     map (\<lambda>k. (fst k, snd k, the (map_of expected k)))
       (filter (\<lambda>k. map_of existing k \<noteq> map_of expected k) (ord (map fst expected)))"

definition write_differences ::
    "'s kv \<Rightarrow> ((string \<times> string) list \<Rightarrow> (string \<times> string) list) \<Rightarrow> ((string \<times> string) \<times> bytes) list \<Rightarrow>
     ((string \<times> string) \<times> bytes) list \<Rightarrow> ('s, u64) io" where
  "write_differences kv ord existing expected =
    (let to_delete = stale_keys ord existing expected; to_write = changed_entries ord existing expected in
    io_bind (io_for (chunks_of REBUILD_BATCH_SIZE to_delete) (\<lambda>chunk.
      io_bind (kv_delete_batch kv TABLE_DIR_ENTRIES chunk) (\<lambda>_. io_return ()))) (\<lambda>_.
    io_bind (io_for (chunks_of REBUILD_BATCH_SIZE to_write) (kv_put_batch kv TABLE_DIR_ENTRIES)) (\<lambda>_.
      io_return (of_nat (length to_delete + length to_write)))))"

definition full_scan_repo ::
    "hasher \<Rightarrow> 's kv \<Rightarrow> codecs \<Rightarrow> ((string \<times> string) list \<Rightarrow> (string \<times> string) list) \<Rightarrow> nat list \<Rightarrow> string \<Rightarrow>
     ('s, u64 \<times> u64 \<times> u64) io" where
  "full_scan_repo H kv C ord shards repo =
    io_bind (io_map (scan_artifact_shard kv C repo) shards) (\<lambda>results.
      let (dir_stats, file_entries) = merge_shards results in
    io_bind (io_of_result (expect_entries H (cs_tree C) repo (map (\<lambda>(d, st). (d, dir_tree_entry st)) dir_stats) [])) (\<lambda>dirs.
    io_bind (io_of_result (expect_entries H (cs_tree C) repo file_entries dirs)) (\<lambda>expected.
    io_bind (io_map (scan_tree_shard kv repo) shards) (\<lambda>existing_shards.
      let existing = fold (\<lambda>(k, value). AList.update k value) (concat existing_shards) [] in
    io_bind (write_differences kv ord existing expected) (\<lambda>updates.
      let (repo_count, repo_bytes, _) = (case map_of dir_stats [] of Some st \<Rightarrow> st | None \<Rightarrow> no_stat) in
      io_return (updates, repo_count, repo_bytes))))))"

section \<open>All repositories\<close>

definition add_store_total :: "string \<Rightarrow> u64 \<Rightarrow> u64 \<Rightarrow> (string \<times> u64 \<times> u64) list \<Rightarrow> (string \<times> u64 \<times> u64) list" where
  "add_store_total store artifacts bytes totals =
     (let (n, b) = (case map_of totals store of Some x \<Rightarrow> x | None \<Rightarrow> (0, 0))
      in AList.update store (n + artifacts, b + bytes) totals)"

fun scan_repos ::
    "hasher \<Rightarrow> 's kv \<Rightarrow> codecs \<Rightarrow> ((string \<times> string) list \<Rightarrow> (string \<times> string) list) \<Rightarrow> nat list \<Rightarrow> repo_config list \<Rightarrow>
     u64 \<Rightarrow> (string \<times> u64 \<times> u64) list \<Rightarrow> ('s, u64 \<times> (string \<times> u64 \<times> u64) list) io" where
  "scan_repos H kv C ord shards [] total_updated store_totals = io_return (total_updated, store_totals)"
| "scan_repos H kv C ord shards (repo # repos) total_updated store_totals =
    io_bind (full_scan_repo H kv C ord shards (rp_name repo)) (\<lambda>(repo_entries, repo_artifacts, repo_bytes).
      scan_repos H kv C ord shards repos (total_updated + repo_entries)
        (add_store_total (rp_store repo) repo_artifacts repo_bytes store_totals))"

definition full_scan ::
    "hasher \<Rightarrow> 's kv \<Rightarrow> codecs \<Rightarrow> datetime \<Rightarrow> ((string \<times> string) list \<Rightarrow> (string \<times> string) list) \<Rightarrow> nat list \<Rightarrow>
     ('s, nat \<times> u64 \<times> nat) io" where
  "full_scan H kv C now ord shards =
    io_bind (list_repos kv C) (\<lambda>repos.
    io_bind (scan_repos H kv C ord shards repos 0 []) (\<lambda>(total_updated, store_totals).
    io_bind (io_for store_totals (\<lambda>(store_name, artifact_count, total_bytes).
      io_bind (io_try (put_store_stats kv C store_name
        \<lparr>ss_blob_count = artifact_count, ss_total_bytes = total_bytes, ss_updated_at = now\<rparr>)) (\<lambda>_. io_return ()))) (\<lambda>_.
      io_return (length repos, total_updated, length store_totals))))"

section \<open>Ancestors\<close>

lemma strip_dirs_simps [simp]:
  "CHR ''/'' \<notin> set p \<Longrightarrow> strip_dirs p = []"
  "CHR ''/'' \<notin> set b \<Longrightarrow> strip_dirs (a @ CHR ''/'' # b) = a # strip_dirs a"
  by (simp_all add: strip_dirs.simps [of p] rfind_None [THEN iffD2] strip_dirs.simps [of "a @ CHR ''/'' # b"])

lemma strip_dirs_induct [case_names flat nested]:
  assumes "\<And>p. CHR ''/'' \<notin> set p \<Longrightarrow> P p" "\<And>a b. CHR ''/'' \<notin> set b \<Longrightarrow> P a \<Longrightarrow> P (a @ CHR ''/'' # b)"
  shows "P p"
proof (induction p rule: strip_dirs.induct)
  case (1 p)
  show ?case
  proof (cases "rfind CHR ''/'' p")
    case (Some pos)
    then obtain a b where p: "p = a @ CHR ''/'' # b" "CHR ''/'' \<notin> set b" "length a = pos" by (auto elim: rfind_SomeE)
    then show ?thesis using assms(2) 1 [OF Some] by simp
  qed (use assms(1) in simp)
qed

lemma strip_dirs_shorter: "q \<in> set (strip_dirs p) \<Longrightarrow> length q < length p"
  by (induction p rule: strip_dirs_induct) auto

lemma strip_dirs_prefix: "q \<in> set (strip_dirs p) \<Longrightarrow> \<exists>b. p = q @ CHR ''/'' # b"
  by (induction p rule: strip_dirs_induct) auto

lemma distinct_strip_dirs [simp]: "distinct (strip_dirs p)"
  by (induction p rule: strip_dirs_induct) (auto dest: strip_dirs_shorter)

lemma strip_dirs_sk_ok: "q \<in> set (strip_dirs p) \<Longrightarrow> sk_ok p \<Longrightarrow> sk_ok q"
proof (induction p rule: strip_dirs_induct)
  case (nested a b)
  have "parent_dir (a @ CHR ''/'' # b) = a" using nested(1) by (simp add: parent_dir_def)
  then have "sk_ok a" using sk_ok_parent_dir [OF nested(4)] by simp
  then show ?case using nested by auto
qed simp

lemma ancestor_dirs_ok:
  assumes "q \<in> set (ancestor_dirs p)"
  shows "canonical p \<Longrightarrow> canonical q" "CHR 0x00 \<notin> set p \<Longrightarrow> CHR 0x00 \<notin> set q" "sk_ok p \<Longrightarrow> sk_ok q"
  using assms strip_dirs_sk_ok [of q p] strip_dirs_prefix [of q p] by (auto simp: ancestor_dirs_def dest: canonical_split)

lemma distinct_ancestor_dirs: "canonical p \<Longrightarrow> distinct (ancestor_dirs p)"
  by (auto simp: ancestor_dirs_def canonical_def dest!: strip_dirs_prefix)

lemma root_ancestor [simp]: "[] \<in> set (ancestor_dirs p)"
  by (simp add: ancestor_dirs_def)

section \<open>What the statistics add up to\<close>

text \<open>The records below a directory, and their totals.\<close>

definition below :: "(string \<times> artifact_record) list \<Rightarrow> string \<Rightarrow> artifact_record list" where
  "below arts d = map snd (filter (\<lambda>(p, _). d \<in> set (ancestor_dirs p)) arts)"

definition stat_of :: "artifact_record list \<Rightarrow> dir_stat" where
  "stat_of rs = (of_nat (length rs), sum_list (map ar_size rs),
     Max (insert 0 (ar_updated_at ` set rs)), Max (insert 0 (ar_last_accessed_at ` set rs)))"

lemma stat_of_Nil [simp]: "stat_of [] = no_stat"
  by (simp add: stat_of_def no_stat_def)

lemma Max_insert_Un:
  "finite A \<Longrightarrow> finite B \<Longrightarrow> Max (insert (0 :: int) (A \<union> B)) = max (Max (insert 0 A)) (Max (insert 0 B))"
  using Max_Un [of "insert (0 :: int) A" "insert 0 B"] by simp

lemma add_stat_max: "add_stat (n, b, m, a) (n', b', m', a') = (n + n', b + b', max m m', max a a')"
  by (auto simp: add_stat_def max_def)

lemma add_stat_stat_of: "add_stat (stat_of xs) (stat_of ys) = stat_of (xs @ ys)"
  by (simp add: add_stat_max stat_of_def image_Un Max_insert_Un)

lemma add_artifact_stat: "add_stat (stat_of xs) (artifact_stat r) = stat_of (xs @ [r])"
proof -
  have "max (Max (insert (0 :: int) A)) a = Max (insert 0 (insert a A))" if "finite A" for a A
    using Max_insert [of "insert 0 A" a] that by (simp add: insert_commute [of a] max.commute)
  then show ?thesis by (simp add: add_stat_max stat_of_def artifact_stat_def)
qed

lemma stat_of_mset: "mset xs = mset ys \<Longrightarrow> stat_of xs = stat_of ys"
proof -
  assume m: "mset xs = mset ys"
  have "sum_list (map ar_size xs) = sum_list (map ar_size ys)"
    by (rule sum_list_perm) (use m in \<open>metis mset_map\<close>)
  then show ?thesis using mset_eq_length [OF m] mset_eq_setD [OF m] by (simp add: stat_of_def)
qed

lemma below_simps [simp]:
  "below [] d = []" "below (xs @ ys) d = below xs d @ below ys d"
  "below ((p, r) # xs) d = (if d \<in> set (ancestor_dirs p) then [r] else []) @ below xs d"
  by (simp_all add: below_def)

lemma below_mset: "mset xs = mset ys \<Longrightarrow> mset (below xs d) = mset (below ys d)"
  by (simp add: below_def)

definition stats_for :: "(string \<times> artifact_record) list \<Rightarrow> dir_stats \<Rightarrow> bool" where
  "stats_for arts stats \<longleftrightarrow> distinct (map fst stats) \<and>
     (\<forall>d. map_of stats d = (if below arts d = [] then None else Some (stat_of (below arts d))))"

lemma stats_for_Nil [simp]: "stats_for [] []"
  by (simp add: stats_for_def)

lemma distinct_add_dir: "distinct (map fst stats) \<Longrightarrow> distinct (map fst (add_dir d st stats))"
  by (simp add: add_dir_def distinct_update)

lemma map_of_add_dir:
  "map_of (add_dir d st stats) e = (if e = d then Some (add_stat (case map_of stats d of Some x \<Rightarrow> x | None \<Rightarrow> no_stat) st)
     else map_of stats e)"
  by (simp add: add_dir_def update_conv')

lemma fold_add_dir:
  assumes "distinct (map fst ds)"
  shows "map_of (fold (\<lambda>(d, st). add_dir d st) ds stats) d = (case map_of ds d of
    None \<Rightarrow> map_of stats d
  | Some st \<Rightarrow> Some (add_stat (case map_of stats d of Some x \<Rightarrow> x | None \<Rightarrow> no_stat) st))"
    and "distinct (map fst stats) \<Longrightarrow> distinct (map fst (fold (\<lambda>(d, st). add_dir d st) ds stats))"
  using assms
proof (induction ds arbitrary: stats)
  case (Cons x ds)
  {
    case 1
    obtain e st where x: "x = (e, st)" by (cases x)
    with 1 have "map_of ds e = None" by (auto simp: map_of_eq_None_iff)
    with 1 Cons.IH(1) [of "add_dir e st stats"] show ?case by (auto simp: x map_of_add_dir cong: option.case_cong)
  next
    case 2
    then show ?case using Cons.IH(2) by (auto simp: distinct_add_dir split: prod.split)
  }
qed simp_all

lemma fold_dirs_pairs: "fold (\<lambda>d. add_dir d st) ds stats = fold (\<lambda>(d, st). add_dir d st) (map (\<lambda>d. (d, st)) ds) stats"
  by (simp add: fold_map comp_def)

lemma map_of_const: "map_of (map (\<lambda>d. (d, st)) ds) d = (if d \<in> set ds then Some st else None)"
  by (induction ds) auto

lemma stats_for_snoc:
  assumes "stats_for xs stats" "canonical p"
  shows "stats_for (xs @ [(p, r)]) (fold (\<lambda>d. add_dir d (artifact_stat r)) (ancestor_dirs p) stats)"
proof -
  have d: "distinct (map fst (map (\<lambda>d. (d, artifact_stat r)) (ancestor_dirs p)))"
    using distinct_ancestor_dirs [OF assms(2)] by (simp add: comp_def)
  show ?thesis
    using assms(1) fold_add_dir(2) [OF d] add_artifact_stat [of "[]" r]
    unfolding stats_for_def fold_dirs_pairs
    by (auto simp: fold_add_dir(1) [OF d] map_of_const add_artifact_stat)
qed

lemma stats_for_merge:
  assumes "stats_for xs a" "stats_for ys b"
  shows "stats_for (xs @ ys) (fold (\<lambda>(d, st). add_dir d st) b a)"
proof -
  have d: "distinct (map fst b)" using assms(2) by (simp add: stats_for_def)
  show ?thesis
    using assms fold_add_dir(2) [OF d] add_stat_stat_of [of "[]"]
    unfolding stats_for_def by (auto simp: fold_add_dir(1) [OF d] add_stat_stat_of)
qed

section \<open>What the scans find\<close>

text \<open>The artifacts of some entries, and those of a repository in the order its shards are scanned.\<close>

definition arts_of :: "artifact_record codec \<Rightarrow> (string \<times> bytes) list \<Rightarrow> (string \<times> artifact_record) list" where
  "arts_of c items = concat (map (\<lambda>(sk, b). case decode c b of Inl _ \<Rightarrow> [] | Inr r \<Rightarrow> [(normalize_path sk, r)]) items)"

definition repo_arts :: "artifact_record codec \<Rightarrow> kv_view \<Rightarrow> string \<Rightarrow> nat list \<Rightarrow> (string \<times> artifact_record) list" where
  "repo_arts c v repo shards =
     concat (map (\<lambda>i. arts_of c (entries_where (v TABLE_ARTIFACTS (artifact_shard_pk repo i)) (\<lambda>_. True))) shards)"

definition file_entries_of :: "(string \<times> artifact_record) list \<Rightarrow> (string \<times> tree_entry) list" where
  "file_entries_of = map (\<lambda>(p, r). (p, tree_entry_of r))"

definition scan_for :: "(string \<times> artifact_record) list \<Rightarrow> shard_scan \<Rightarrow> bool" where
  "scan_for arts res \<longleftrightarrow> stats_for arts (fst res) \<and> snd res = file_entries_of arts"

lemma arts_of_simps [simp]:
  "arts_of c [] = []"
  "arts_of c ((sk, b) # items) = (case decode c b of Inl _ \<Rightarrow> [] | Inr r \<Rightarrow> [(normalize_path sk, r)]) @ arts_of c items"
  by (simp_all add: arts_of_def)

lemma scan_artifacts_fold:
  assumes "scan_for xs acc" "scan_fold (scan_artifact c) items acc = Inr res"
  shows "scan_for (xs @ arts_of c items) res \<and> (\<forall>(sk, b) \<in> set items. \<exists>r. decode c b = Inr r)"
  using assms
proof (induction items arbitrary: xs acc)
  case (Cons x items)
  obtain sk b where x: "x = (sk, b)" by (cases x)
  obtain r where r: "decode c b = Inr r" using Cons.prems(2) by (auto simp: x scan_artifact_def split: sum.splits prod.splits)
  let ?p = "normalize_path sk"
  obtain ds fs where acc: "acc = (ds, fs)" by (cases acc)
  have "scan_for (xs @ [(?p, r)]) (fold (\<lambda>d. add_dir d (artifact_stat r)) (ancestor_dirs ?p) ds, fs @ [(?p, tree_entry_of r)])"
    using Cons.prems(1) stats_for_snoc [OF _ canonical_normalize_path] by (simp add: scan_for_def acc file_entries_of_def)
  from Cons.IH [OF this] Cons.prems(2) show ?case by (simp add: x r scan_artifact_def acc Let_def)
qed simp

lemma merge_shards_for:
  assumes "list_all2 scan_for artss results"
  shows "scan_for (concat artss) (merge_shards results)"
proof -
  have "scan_for (xs @ concat artss) (fold (\<lambda>(ds, fs) (dir_stats, file_entries).
      (fold (\<lambda>(dir_path, st). add_dir dir_path st) ds dir_stats, file_entries @ fs)) results acc)" if "scan_for xs acc" for xs acc
    using assms that
  proof (induction artss results arbitrary: xs acc rule: list_all2_induct)
    case (Cons arts artss r results)
    have "scan_for (xs @ arts) (fold (\<lambda>(dir_path, st). add_dir dir_path st) (fst r) (fst acc), snd acc @ snd r)"
      using Cons.hyps(1) Cons.prems stats_for_merge by (simp add: scan_for_def file_entries_of_def)
    from Cons.IH [OF this] show ?case by (simp add: case_prod_unfold)
  qed simp
  from this [of "[]" "([], [])"] show ?thesis by (simp add: merge_shards_def scan_for_def file_entries_of_def)
qed

lemma mset_concat_map: "mset (concat (map f xs)) = \<Sum>\<^sub># (image_mset (\<lambda>x. mset (f x)) (mset xs))"
  by (induction xs) simp_all

lemma mset_repo_arts:
  assumes "shard_order shards"
  shows "mset (repo_arts c v repo shards) = mset (repo_arts c v repo [0..<NUM_SHARDS])"
proof -
  have "distinct shards" "set shards = set [0..<NUM_SHARDS]"
    using assms shard_order_upt by (simp_all only: shard_order_def)
  then have "mset shards = mset [0..<NUM_SHARDS]"
    using set_eq_iff_mset_eq_distinct [of shards "[0..<NUM_SHARDS]"] by simp
  then show ?thesis unfolding repo_arts_def mset_concat_map by (rule arg_cong)
qed

section \<open>What is expected and what is there\<close>

lemma expect_entries_spec:
  assumes "expect_entries H c repo entries acc = Inr m" "distinct (map (tree_key H repo \<circ> fst) entries)"
  shows "(p, te) \<in> set entries \<Longrightarrow> \<exists>b. encode c te = Inr b \<and> map_of m (tree_key H repo p) = Some b"
    and "k \<notin> tree_key H repo ` fst ` set entries \<Longrightarrow> map_of m k = map_of acc k"
    and "distinct (map fst acc) \<Longrightarrow> distinct (map fst m)"
proof -
  have "((p, te) \<in> set entries \<longrightarrow> (\<exists>b. encode c te = Inr b \<and> map_of m (tree_key H repo p) = Some b)) \<and>
    (k \<notin> tree_key H repo ` fst ` set entries \<longrightarrow> map_of m k = map_of acc k) \<and>
    (distinct (map fst acc) \<longrightarrow> distinct (map fst m))" for p te k
    using assms
  proof (induction entries arbitrary: acc p te k)
    case (Cons x entries)
    obtain q e where x: "x = (q, e)" by (cases x)
    obtain b where b: "encode c e = Inr b" using Cons.prems(1) by (auto simp: x split: sum.splits)
    let ?acc = "AList.update (tree_key H repo q) b acc"
    have step: "expect_entries H c repo entries ?acc = Inr m" "distinct (map (tree_key H repo \<circ> fst) entries)"
      using Cons.prems by (simp_all add: x b comp_def)
    have new: "tree_key H repo q \<notin> tree_key H repo ` fst ` set entries" using Cons.prems(2) by (auto simp: x)
    note IH = Cons.IH [OF step]
    show ?case
      using IH [of p te k] IH [of p te "tree_key H repo q"] new b by (auto simp: x update_conv' distinct_update)
  qed simp
  then show "(p, te) \<in> set entries \<Longrightarrow> \<exists>b. encode c te = Inr b \<and> map_of m (tree_key H repo p) = Some b"
    and "k \<notin> tree_key H repo ` fst ` set entries \<Longrightarrow> map_of m k = map_of acc k"
    and "distinct (map fst acc) \<Longrightarrow> distinct (map fst m)" by blast+
qed

lemma fold_update_map_of:
  "distinct (map fst xs) \<Longrightarrow> map_of (fold (\<lambda>(k, b). AList.update k b) xs acc) k =
    (case map_of xs k of Some b \<Rightarrow> Some b | None \<Rightarrow> map_of acc k)"
proof (induction xs arbitrary: acc)
  case (Cons x xs)
  obtain j b where x: "x = (j, b)" by (cases x)
  then have "map_of xs j = None" using Cons.prems by (auto simp: map_of_eq_None_iff)
  then show ?case using Cons by (auto simp: x update_conv' split: option.splits)
qed simp

lemma distinct_fold_update:
  "distinct (map fst acc) \<Longrightarrow> distinct (map fst (fold (\<lambda>(k, b). AList.update k b) xs acc))"
  by (induction xs arbitrary: acc) (auto simp: distinct_update)

lemma concat_chunks_of [simp]: "0 < n \<Longrightarrow> concat (chunks_of n xs) = xs"
  by (induction n xs rule: chunks_of.induct) (subst chunks_of.simps, simp)

section \<open>The rebuilt tree\<close>

text \<open>
  The tree has a file entry for every artifact, a directory entry with the totals of what is below it
  for every ancestor that is not itself an artifact, and nothing else.
\<close>

definition tree_holds :: "hasher \<Rightarrow> codecs \<Rightarrow> string \<Rightarrow> kv_view \<Rightarrow> string \<Rightarrow> tree_entry \<Rightarrow> bool" where
  "tree_holds H C repo v path te \<longleftrightarrow> (case tree_key H repo path of (pk, sk) \<Rightarrow>
     \<exists>b n. encode (cs_tree C) te = Inr b \<and> v TABLE_DIR_ENTRIES pk sk = Some (b, n))"

definition rebuilt :: "hasher \<Rightarrow> codecs \<Rightarrow> string \<Rightarrow> (string \<times> artifact_record) list \<Rightarrow> kv_view \<Rightarrow> bool" where
  "rebuilt H C repo arts v \<longleftrightarrow>
     (\<forall>(p, r) \<in> set arts. tree_holds H C repo v p (tree_entry_of r)) \<and>
     (\<forall>d. below arts d \<noteq> [] \<longrightarrow> d \<notin> fst ` set arts \<longrightarrow>
        tree_holds H C repo v d (dir_tree_entry (stat_of (below arts d)))) \<and>
     (\<forall>i < NUM_SHARDS. \<forall>sk. v TABLE_DIR_ENTRIES (tree_shard_pk repo i) sk \<noteq> None \<longrightarrow>
        (\<exists>q. tree_key H repo q = (tree_shard_pk repo i, sk) \<and> (q \<in> fst ` set arts \<or> below arts q \<noteq> [])))"

lemma rebuilt_mset: "mset xs = mset ys \<Longrightarrow> rebuilt H C repo xs v \<Longrightarrow> rebuilt H C repo ys v"
proof -
  assume m: "mset xs = mset ys"
  have "length (below xs d) = length (below ys d)" for d by (rule mset_eq_length [OF below_mset [OF m]])
  then have "below xs d = [] \<longleftrightarrow> below ys d = []" for d by (metis length_0_conv)
  moreover have "stat_of (below xs d) = stat_of (below ys d)" for d by (rule stat_of_mset [OF below_mset [OF m]])
  ultimately show "rebuilt H C repo xs v \<Longrightarrow> rebuilt H C repo ys v"
    unfolding rebuilt_def mset_eq_setD [OF m] by simp
qed

definition paths_ok :: "string set \<Rightarrow> bool" where
  "paths_ok P \<longleftrightarrow> (\<forall>p \<in> P. canonical p \<and> CHR 0x00 \<notin> set p)"

lemma tree_key_inject: "paths_ok P \<Longrightarrow> p \<in> P \<Longrightarrow> q \<in> P \<Longrightarrow> tree_key H repo p = tree_key H repo q \<longleftrightarrow> p = q"
  by (auto simp: paths_ok_def tree_key_def tree_sort_key_inject)

lemma paths_ok_below:
  assumes "paths_ok (fst ` set arts)"
  shows "paths_ok (fst ` set arts \<union> {d. below arts d \<noteq> []})"
  using assms ancestor_dirs_ok(1,2) unfolding paths_ok_def below_def by (fastforce simp: filter_empty_conv)

lemma distinct_keys:
  assumes "paths_ok P" "set ps \<subseteq> P" "distinct ps"
  shows "distinct (map (tree_key H repo) ps)"
  unfolding distinct_map inj_on_def using assms(2,3) tree_key_inject [OF assms(1)] by (metis subsetD)

lemma expected_tree:
  assumes scan: "scan_for arts (ds, fs)" and ok: "paths_ok (fst ` set arts)" "distinct (map fst arts)"
    and dirs: "expect_entries H (cs_tree C) repo (map (\<lambda>(d, st). (d, dir_tree_entry st)) ds) [] = Inr dirs"
    and files: "expect_entries H (cs_tree C) repo fs dirs = Inr expected"
  shows "(p, r) \<in> set arts \<Longrightarrow> \<exists>b. encode (cs_tree C) (tree_entry_of r) = Inr b \<and> map_of expected (tree_key H repo p) = Some b"
    and "below arts d \<noteq> [] \<Longrightarrow> d \<notin> fst ` set arts \<Longrightarrow>
      \<exists>b. encode (cs_tree C) (dir_tree_entry (stat_of (below arts d))) = Inr b \<and> map_of expected (tree_key H repo d) = Some b"
    and "map_of expected k \<noteq> None \<Longrightarrow> \<exists>q. k = tree_key H repo q \<and> (q \<in> fst ` set arts \<or> below arts q \<noteq> [])"
    and "distinct (map fst expected)"
proof -
  let ?es = "map (\<lambda>(d, st). (d, dir_tree_entry st)) ds"
  have fs: "fs = file_entries_of arts" and st: "stats_for arts ds" using scan by (simp_all add: scan_for_def)
  note ok' = paths_ok_below [OF ok(1)]
  have names: "map fst ?es = map fst ds" "map fst fs = map fst arts" by (simp_all add: fs file_entries_of_def case_prod_unfold comp_def)
  from this [THEN arg_cong [where f = set]] have names': "fst ` set ?es = fst ` set ds" "fst ` set fs = fst ` set arts"
    by (simp_all add: image_image)
  have ds: "d \<in> fst ` set ds \<longleftrightarrow> below arts d \<noteq> []" for d
    using st unfolding stats_for_def by (metis map_of_eq_None_iff option.distinct(1))
  have "set (map fst ds) \<subseteq> fst ` set arts \<union> {d. below arts d \<noteq> []}" "distinct (map fst ds)"
    using ds st by (auto simp: stats_for_def)
  from distinct_keys [OF ok' this] have d1: "distinct (map (tree_key H repo \<circ> fst) ?es)"
    unfolding map_map [symmetric] names(1) .
  have "set (map fst arts) \<subseteq> fst ` set arts \<union> {d. below arts d \<noteq> []}" by auto
  from distinct_keys [OF ok' this ok(2)] have d2: "distinct (map (tree_key H repo \<circ> fst) fs)"
    unfolding map_map [symmetric] names(2) .
  note D = expect_entries_spec [OF dirs d1] and F = expect_entries_spec [OF files d2]
  show "\<exists>b. encode (cs_tree C) (tree_entry_of r) = Inr b \<and> map_of expected (tree_key H repo p) = Some b" if "(p, r) \<in> set arts"
    by (rule F(1)) (use that in \<open>force simp: fs file_entries_of_def\<close>)
  show "\<exists>b. encode (cs_tree C) (dir_tree_entry (stat_of (below arts d))) = Inr b \<and> map_of expected (tree_key H repo d) = Some b"
    if d: "below arts d \<noteq> []" "d \<notin> fst ` set arts" for d
  proof -
    have "map_of ds d = Some (stat_of (below arts d))" using st d(1) by (simp add: stats_for_def)
    then have "(d, dir_tree_entry (stat_of (below arts d))) \<in> set ?es" by (force dest: map_of_SomeD)
    moreover have "tree_key H repo d \<notin> tree_key H repo ` fst ` set fs"
    proof
      assume "tree_key H repo d \<in> tree_key H repo ` fst ` set fs"
      then obtain q where q: "q \<in> fst ` set arts" "tree_key H repo d = tree_key H repo q" unfolding names'(2) by blast
      then have "d = q" using tree_key_inject [OF ok', of d q] d(1) by simp
      then show False using q(1) d(2) by simp
    qed
    ultimately show ?thesis using D(1) F(2) by metis
  qed
  show "\<exists>q. k = tree_key H repo q \<and> (q \<in> fst ` set arts \<or> below arts q \<noteq> [])" if "map_of expected k \<noteq> None"
  proof (cases "k \<in> tree_key H repo ` fst ` set fs")
    case False
    then have "k \<in> tree_key H repo ` fst ` set ?es" using D(2) [of k] F(2) [OF False] that by fastforce
    then show ?thesis unfolding names'(1) using ds by auto
  qed (unfold names'(2), auto)
  show "distinct (map fst expected)" using D(3) F(3) by simp
qed

lemma rebuilt_expected:
  assumes "\<And>p r. (p, r) \<in> set arts \<Longrightarrow>
      \<exists>b. encode (cs_tree C) (tree_entry_of r) = Inr b \<and> map_of expected (tree_key H repo p) = Some b"
    and "\<And>d. below arts d \<noteq> [] \<Longrightarrow> d \<notin> fst ` set arts \<Longrightarrow>
      \<exists>b. encode (cs_tree C) (dir_tree_entry (stat_of (below arts d))) = Inr b \<and> map_of expected (tree_key H repo d) = Some b"
    and "\<And>k. map_of expected k \<noteq> None \<Longrightarrow> \<exists>q. k = tree_key H repo q \<and> (q \<in> fst ` set arts \<or> below arts q \<noteq> [])"
    and v: "\<And>pk sk. pk \<in> tree_shard_pk repo ` {..<NUM_SHARDS} \<Longrightarrow>
      map_option fst (v TABLE_DIR_ENTRIES pk sk) = map_of expected (pk, sk)"
  shows "rebuilt H C repo arts v"
proof -
  have "tree_holds H C repo v p te" if "encode (cs_tree C) te = Inr b" "map_of expected (tree_key H repo p) = Some b" for p te b
  proof -
    have "fst (tree_key H repo p) \<in> tree_shard_pk repo ` {..<NUM_SHARDS}"
      by (simp add: tree_key_def sharded_pk_def tree_shard_pk_def NUM_SHARDS_def)
    from v [OF this, of "snd (tree_key H repo p)"] that show ?thesis by (auto simp: tree_holds_def split: prod.split)
  qed
  moreover have "\<exists>q. tree_key H repo q = (tree_shard_pk repo i, sk) \<and> (q \<in> fst ` set arts \<or> below arts q \<noteq> [])"
    if "i < NUM_SHARDS" "v TABLE_DIR_ENTRIES (tree_shard_pk repo i) sk \<noteq> None" for i sk
  proof -
    have "map_of expected (tree_shard_pk repo i, sk) \<noteq> None" 
      using v [of "tree_shard_pk repo i" sk] that by (cases "map_of expected (tree_shard_pk repo i, sk)") auto
    from assms(3) [OF this] show ?thesis by metis
  qed
  ultimately show ?thesis unfolding rebuilt_def using assms(1,2) by blast
qed

text \<open>Applying the differences makes the tables what is expected.\<close>

lemma differences_applied:
  assumes existing: "\<And>pk sk. map_of existing (pk, sk) = (if pk \<in> P then map_option fst (v t pk sk) else None)"
    and expected: "\<And>k. map_of expected k \<noteq> None \<Longrightarrow> fst k \<in> P" "distinct (map fst expected)"
    and ord: "\<And>ks. mset (ord ks) = mset ks"
  defines "v' \<equiv> view_put_all (view_del_all v t (stale_keys ord existing expected)) t (changed_entries ord existing expected)"
  shows "map_option fst (v' t pk sk) = (if pk \<in> P then map_of expected (pk, sk) else map_option fst (v t pk sk))"
    and "pk \<notin> P \<or> t' \<noteq> t \<Longrightarrow> v' t' pk sk = v t' pk sk"
proof -
  let ?dels = "stale_keys ord existing expected" and ?puts = "changed_entries ord existing expected"
  have set_ord: "set (ord ks) = set ks" for ks by (rule mset_eq_setD [OF ord])
  have dels: "(pk, sk) \<in> set ?dels \<longleftrightarrow> map_of existing (pk, sk) \<noteq> None \<and> map_of expected (pk, sk) = None" for pk sk
    unfolding stale_keys_def by (auto simp: set_ord map_of_eq_None_iff)
  have puts: "(pk, sk, b) \<in> set ?puts \<longleftrightarrow> map_of expected (pk, sk) = Some b \<and> map_of existing (pk, sk) \<noteq> Some b" for pk sk b
    unfolding changed_entries_def using expected(2) by (auto simp: set_ord image_iff dest: map_of_SomeD intro!: bexI [of _ "((pk, sk), b)"])
  have dist: "distinct (map (\<lambda>(pk, sk, b). (pk, sk)) ?puts)"
    unfolding changed_entries_def map_map using expected(2) ord [THEN mset_eq_imp_distinct_iff, of "map fst expected"]
    by (simp add: comp_def)
  have put: "v' t pk sk = Some (b, next_version (view_del_all v t ?dels t pk sk))" if "(pk, sk, b) \<in> set ?puts" for pk sk b
    unfolding v'_def by (rule view_put_all_in [OF dist that])
  have keep: "v' t' pk sk = view_del_all v t ?dels t' pk sk" if "(\<forall>b. (pk, sk, b) \<notin> set ?puts) \<or> t' \<noteq> t" for t' pk sk
    unfolding v'_def by (rule view_put_all_notin [OF that])
  show "v' t' pk sk = v t' pk sk" if "pk \<notin> P \<or> t' \<noteq> t"
  proof -
    have none: "pk \<notin> P \<Longrightarrow> map_of expected (pk, sk) = None" using expected(1) [of "(pk, sk)"] by fastforce
    then have "v' t' pk sk = view_del_all v t ?dels t' pk sk" by (intro keep) (use that in \<open>auto simp: puts\<close>)
    then show ?thesis using that none by (auto simp: dels view_del_all_apply existing)
  qed
  show "map_option fst (v' t pk sk) = (if pk \<in> P then map_of expected (pk, sk) else map_option fst (v t pk sk))"
  proof (cases "\<exists>b. (pk, sk, b) \<in> set ?puts")
    case True
    then show ?thesis using put expected(1) [of "(pk, sk)"] by (auto simp: puts)
  next
    case False
    then have "v' t pk sk = view_del_all v t ?dels t pk sk" using keep by blast
    then show ?thesis using False expected(1) [of "(pk, sk)"] by (auto simp: puts dels view_del_all_apply existing split: if_splits)
  qed
qed

text \<open>The repositories of a full scan, and what it asks of the paths in them.\<close>

definition live_repos :: "codecs \<Rightarrow> kv_view \<Rightarrow> repo_config list" where
  "live_repos C v = (case decode_all (cs_repo C) (take ADMIN_ENTITY_CAP (entries_where (v TABLE_REPOS SINGLE_PK) (\<lambda>_. True))) of
     Inl _ \<Rightarrow> [] | Inr repos \<Rightarrow> filter (\<lambda>r. \<not> rp_deleting r) repos)"

definition paths_distinct :: "artifact_record codec \<Rightarrow> kv_view \<Rightarrow> string \<Rightarrow> bool" where
  "paths_distinct c v repo \<longleftrightarrow> (let arts = repo_arts c v repo [0..<NUM_SHARDS] in
     distinct (map fst arts) \<and> (\<forall>p \<in> fst ` set arts. CHR 0x00 \<notin> set p))"

lemma repo_arts_cong:
  "(\<And>pk sk. v' TABLE_ARTIFACTS pk sk = v TABLE_ARTIFACTS pk sk) \<Longrightarrow> repo_arts c v' repo shards = repo_arts c v repo shards"
proof -
  assume "\<And>pk sk. v' TABLE_ARTIFACTS pk sk = v TABLE_ARTIFACTS pk sk"
  then have "v' TABLE_ARTIFACTS = v TABLE_ARTIFACTS" by (intro ext)
  then show ?thesis by (simp add: repo_arts_def)
qed

lemma rebuilt_cong:
  assumes "rebuilt H C repo arts v"
    and "\<And>i sk. i < NUM_SHARDS \<Longrightarrow> v' TABLE_DIR_ENTRIES (tree_shard_pk repo i) sk = v TABLE_DIR_ENTRIES (tree_shard_pk repo i) sk"
  shows "rebuilt H C repo arts v'"
proof -
  have "v' TABLE_DIR_ENTRIES (sharded_pk H repo q) sk = v TABLE_DIR_ENTRIES (sharded_pk H repo q) sk" for q sk
    using assms(2) [of "shard_of H q" sk] by (simp add: sharded_pk_def tree_shard_pk_def NUM_SHARDS_def)
  then have "tree_holds H C repo v' p te \<longleftrightarrow> tree_holds H C repo v p te" for p te
    by (simp add: tree_holds_def tree_key_def)
  then show ?thesis using assms by (simp add: rebuilt_def)
qed

section \<open>The rebuild does what it says\<close>

lemma scan_fold_collect: "scan_fold (\<lambda>sk b es. Inr (True, es @ [(f sk, b)])) items acc = Inr (acc @ map (\<lambda>(sk, b). (f sk, b)) items)"
  by (induction items arbitrary: acc) auto

definition tree_items :: "kv_view \<Rightarrow> string \<Rightarrow> nat \<Rightarrow> ((string \<times> string) \<times> bytes) list" where
  "tree_items v repo i = map (\<lambda>(sk, b). ((tree_shard_pk repo i, sk), b))
     (entries_where (v TABLE_DIR_ENTRIES (tree_shard_pk repo i)) (\<lambda>_. True))"

lemma distinct_tree_items:
  assumes "distinct shards"
  shows "distinct (map fst (concat (map (tree_items v repo) shards)))"
  using assms
proof (induction shards)
  case (Cons i shards)
  have "map fst (tree_items v repo i) = map (Pair (tree_shard_pk repo i))
      (map fst (entries_where (v TABLE_DIR_ENTRIES (tree_shard_pk repo i)) (\<lambda>_. True)))"
    by (simp add: tree_items_def case_prod_unfold comp_def)
  then have "distinct (map fst (tree_items v repo i))" 
    by (simp only:) (rule distinct_map [THEN iffD2], simp only: distinct_entries_where, simp add: inj_on_def)
  moreover have pk: "fst k = tree_shard_pk repo j" if "k \<in> set (map fst (tree_items v repo j))" for k j
    using that by (auto simp: tree_items_def)
  have "False" if "k \<in> set (map fst (tree_items v repo i))" "k \<in> set (map fst (concat (map (tree_items v repo) shards)))" for k
  proof -
    from that(2) obtain j where "j \<in> set shards" "k \<in> set (map fst (tree_items v repo j))" by auto
    then show False using pk [OF that(1)] pk [of k j] Cons.prems by (auto simp: tree_shard_pk_def)
  qed
  then have "set (map fst (tree_items v repo i)) \<inter> set (map fst (concat (map (tree_items v repo) shards))) = {}" by blast
  ultimately show ?case using Cons by (simp only: list.map concat.simps map_append distinct_append distinct.simps)
qed simp

context kv_store
begin

lemma map_read_spec:
  assumes "\<And>x s'. x \<in> set xs \<Longrightarrow> invar s' \<Longrightarrow> view s' = view s \<Longrightarrow> wp (f x) (kv_read invar view s' (Q x)) s'" "invar s"
  shows "wp (io_map f xs) (kv_read invar view s (\<lambda>ys. list_all2 Q xs ys)) s"
proof -
  have "wp (io_map f xs) (\<lambda>r s'. case r of Inl e \<Rightarrow> invar s' \<and> view s' = view s
      | Inr ys \<Rightarrow> list_all2 Q xs ys \<and> invar s' \<and> view s' = view s) s"
  proof (rule wp_map [where I = "\<lambda>dn ys s'. list_all2 Q dn ys \<and> invar s' \<and> view s' = view s"], goal_cases)
    case (2 dn ys x rest s')
    then have "wp (f x) (kv_read invar view s' (Q x)) s'" by (intro assms(1)) simp_all
    then show ?case by (rule wp_mono) (use 2 in \<open>auto split: sum.split intro: list_all2_appendI\<close>)
  qed (use assms(2) in simp)
  then show ?thesis by (rule wp_mono) (auto split: sum.splits simp: kv_read_def)
qed

lemma existing_entries:
  assumes "invar s" "shard_order shards"
  shows "map_of (fold (\<lambda>(k, b). AList.update k b) (concat (map (tree_items (view s) repo) shards)) []) (pk, sk) =
    (if pk \<in> tree_shard_pk repo ` {..<NUM_SHARDS} then map_option fst (view s TABLE_DIR_ENTRIES pk sk) else None)"
proof -
  let ?items = "concat (map (tree_items (view s) repo) shards)"
  have d: "distinct (map fst ?items)" using assms(2) by (intro distinct_tree_items) (simp add: shard_order_def)
  have set: "((pk, sk), b) \<in> set ?items \<longleftrightarrow>
      pk \<in> tree_shard_pk repo ` {..<NUM_SHARDS} \<and> (\<exists>n. view s TABLE_DIR_ENTRIES pk sk = Some (b, n))" for b
    using assms(2) by (auto simp: tree_items_def set_entries_where [OF view_finite [OF assms(1)]] shard_order_def image_iff)
  have "map_of ?items (pk, sk) = (if pk \<in> tree_shard_pk repo ` {..<NUM_SHARDS} then map_option fst (view s TABLE_DIR_ENTRIES pk sk) else None)"
  proof (cases "map_of ?items (pk, sk)")
    case None
    then have "\<forall>b. ((pk, sk), b) \<notin> set ?items" by (force simp: map_of_eq_None_iff)
    then show ?thesis using None unfolding set by (cases "view s TABLE_DIR_ENTRIES pk sk") auto
  next
    case (Some b)
    then have "((pk, sk), b) \<in> set ?items" by (rule map_of_SomeD)
    then show ?thesis using Some unfolding set by auto
  qed
  then show ?thesis by (simp add: fold_update_map_of [OF d] split: option.split)
qed

lemma del_chunks_spec:
  assumes "invar s" "\<forall>(pk, sk) \<in> set ks. pk_ok pk" "0 < n"
  shows "wp (io_for (chunks_of n ks) (\<lambda>chunk. io_bind (kv_delete_batch kv t chunk) (\<lambda>_. io_return ())))
    (kv_write invar view s {(t, pk, sk) | pk sk. (pk, sk) \<in> set ks} (\<lambda>_ v. v = view_del_all (view s) t ks)) s"
proof -
  let ?K = "{(t, pk, sk) | pk sk. (pk, sk) \<in> set ks}"
  have "wp (io_for (chunks_of n ks) (\<lambda>chunk. io_bind (kv_delete_batch kv t chunk) (\<lambda>_. io_return ())))
    (\<lambda>r s'. case r of Inl e \<Rightarrow> invar s' \<and> view_frame ?K (view s) (view s')
      | Inr _ \<Rightarrow> invar s' \<and> view s' = view_del_all (view s) t (concat (chunks_of n ks))) s"
  proof (rule wp_for [where I = "\<lambda>dn s'. invar s' \<and> view s' = view_del_all (view s) t (concat dn)"], goal_cases)
    case (2 dn chunk rest s')
    have "ks = concat dn @ chunk @ concat rest" using concat_chunks_of [OF assms(3), of ks] 2(1) by simp
    then have sub: "set (concat dn) \<subseteq> set ks" "set chunk \<subseteq> set ks" by auto
    have "view_frame ?K (view s) (view s')" using sub 2(2) by (auto simp: view_frame_def view_del_all_apply)
    moreover have "view_frame {(t, pk, sk) | pk sk. (pk, sk) \<in> set chunk} u v \<Longrightarrow> view_frame ?K u v" for u v
      by (erule view_frame_mono) (use sub in auto)
    ultimately have frame: "view_frame {(t, pk, sk) | pk sk. (pk, sk) \<in> set chunk} (view s') v \<Longrightarrow> view_frame ?K (view s) v" for v
      by (blast intro: view_frame_trans)
    have "wp (kv_delete_batch kv t chunk) (kv_write invar view s' {(t, pk, sk) | pk sk. (pk, sk) \<in> set chunk} (\<lambda>hits v.
        hits = view_del_hits (view s') t chunk \<and> v = view_del_all (view s') t chunk)) s'"
      using assms(2) sub(2) 2(2) by (intro delete_batch_spec) blast+
    then show ?case
      by (rule wp_bindI) (use frame 2(2) in \<open>auto intro!: ext simp: view_del_all_apply\<close>)
  qed (use assms(1) in simp)
  then show ?thesis by (rule wp_mono) (use assms(3) in \<open>auto split: sum.splits\<close>)
qed

lemma put_chunks_spec:
  assumes "invar s" "\<forall>(pk, sk, b) \<in> set es. pk_ok pk \<and> sk_ok sk" "0 < n"
  shows "wp (io_for (chunks_of n es) (kv_put_batch kv t))
    (kv_write invar view s {(t, pk, sk) | pk sk b. (pk, sk, b) \<in> set es} (\<lambda>_ v. v = view_put_all (view s) t es)) s"
proof -
  let ?K = "{(t, pk, sk) | pk sk b. (pk, sk, b) \<in> set es}"
  have "wp (io_for (chunks_of n es) (kv_put_batch kv t))
    (\<lambda>r s'. case r of Inl e \<Rightarrow> invar s' \<and> view_frame ?K (view s) (view s')
      | Inr _ \<Rightarrow> invar s' \<and> view s' = view_put_all (view s) t (concat (chunks_of n es))) s"
  proof (rule wp_for [where I = "\<lambda>dn s'. invar s' \<and> view s' = view_put_all (view s) t (concat dn)"], goal_cases)
    case (2 dn chunk rest s')
    have "es = concat dn @ chunk @ concat rest" using concat_chunks_of [OF assms(3), of es] 2(1) by simp
    then have sub: "set (concat dn) \<subseteq> set es" "set chunk \<subseteq> set es" by auto
    have "view_frame ?K (view s) (view s')" unfolding view_frame_def
    proof (intro allI impI)
      fix t' pk sk assume "(t', pk, sk) \<notin> ?K"
      then have "(\<forall>b. (pk, sk, b) \<notin> set (concat dn)) \<or> t' \<noteq> t" using sub(1) by blast
      then show "view s' t' pk sk = view s t' pk sk" using 2(2) view_put_all_notin by simp
    qed
    moreover have "view_frame {(t, pk, sk) | pk sk b. (pk, sk, b) \<in> set chunk} u v \<Longrightarrow> view_frame ?K u v" for u v
      by (erule view_frame_mono) (use sub(2) in blast)
    ultimately have frame: "view_frame {(t, pk, sk) | pk sk b. (pk, sk, b) \<in> set chunk} (view s') v \<Longrightarrow> view_frame ?K (view s) v" for v
      by (blast intro: view_frame_trans)
    have "wp (kv_put_batch kv t chunk) (kv_write invar view s' {(t, pk, sk) | pk sk b. (pk, sk, b) \<in> set chunk} (\<lambda>_ v.
        v = view_put_all (view s') t chunk)) s'"
      using assms(2) sub(2) 2(2) by (intro put_batch_spec) blast+
    then show ?case
      by (rule wp_mono) (use frame 2(2) in \<open>auto simp: view_put_all_append split: sum.split\<close>)
  qed (use assms(1) in simp)
  then show ?thesis by (rule wp_mono) (use assms(3) in \<open>auto split: sum.splits\<close>)
qed

lemma scan_shards_spec:
  assumes "invar s" "pk_ok repo"
  shows "wp (io_map (scan_artifact_shard kv C repo) shards) (kv_read invar view s (\<lambda>results.
      scan_for (repo_arts (cs_artifact C) (view s) repo shards) (merge_shards results))) s"
    and "wp (io_map (scan_tree_shard kv repo) shards) (kv_read invar view s (\<lambda>items.
      concat items = concat (map (tree_items (view s) repo) shards))) s"
proof -
  let ?entries = "\<lambda>i. entries_where (view s TABLE_ARTIFACTS (artifact_shard_pk repo i)) (\<lambda>_. True)"
  have "wp (io_map (scan_artifact_shard kv C repo) shards)
      (kv_read invar view s (\<lambda>results. list_all2 (\<lambda>i. scan_for (arts_of (cs_artifact C) (?entries i))) shards results)) s"
  proof (rule map_read_spec [OF _ assms(1)])
    fix i s' assume s': "invar s'" "view s' = view s"
    have "wp (for_each_in_partition kv TABLE_ARTIFACTS (artifact_shard_pk repo i) [] 1000 (scan_artifact (cs_artifact C)) ([], []))
      (kv_read invar view s' (\<lambda>a. scan_fold (scan_artifact (cs_artifact C)) (?entries i) ([], []) = Inr a)) s'"
      using for_each_spec [OF s'(1), of "artifact_shard_pk repo i" 1000 TABLE_ARTIFACTS "[]"] assms(2) s'(2)
      by (simp add: artifact_shard_pk_def starts_with_def)
    moreover have "scan_for [] ([], [])" by (simp add: scan_for_def file_entries_of_def)
    note scan_artifacts_fold [OF this, of "cs_artifact C" "?entries i"]
    ultimately show "wp (scan_artifact_shard kv C repo i)
        (kv_read invar view s' (\<lambda>res. scan_for (arts_of (cs_artifact C) (?entries i)) res)) s'"
      unfolding scan_artifact_shard_def by (elim wp_mono) (auto simp: kv_read_def)
  qed
  then show "wp (io_map (scan_artifact_shard kv C repo) shards) (kv_read invar view s (\<lambda>results.
      scan_for (repo_arts (cs_artifact C) (view s) repo shards) (merge_shards results))) s"
  proof (rule wp_mono)
    fix r s'
    assume r: "kv_read invar view s (\<lambda>results. list_all2 (\<lambda>i. scan_for (arts_of (cs_artifact C) (?entries i))) shards results) r s'"
    then show "kv_read invar view s (\<lambda>results. scan_for (repo_arts (cs_artifact C) (view s) repo shards) (merge_shards results)) r s'"
      unfolding repo_arts_def by (auto simp: kv_read_def list.rel_map intro!: merge_shards_for)
  qed
  have "wp (io_map (scan_tree_shard kv repo) shards)
      (kv_read invar view s (\<lambda>items. list_all2 (\<lambda>i es. es = tree_items (view s) repo i) shards items)) s"
  proof (rule map_read_spec [OF _ assms(1)])
    fix i s' assume s': "invar s'" "view s' = view s"
    show "wp (scan_tree_shard kv repo i) (kv_read invar view s' (\<lambda>es. es = tree_items (view s) repo i)) s'"
      unfolding scan_tree_shard_def Let_def
      by (rule wp_mono [OF for_each_spec [OF s'(1)]])
        (use assms(2) s' in \<open>auto simp: tree_shard_pk_def kv_read_def scan_fold_collect tree_items_def starts_with_def\<close>)
  qed
  then show "wp (io_map (scan_tree_shard kv repo) shards) (kv_read invar view s (\<lambda>items.
      concat items = concat (map (tree_items (view s) repo) shards))) s"
    by (rule wp_mono) (auto simp: kv_read_def list_all2_conv_all_nth intro!: arg_cong [where f = concat] nth_equalityI)
qed

lemma repo_arts_ok:
  assumes "invar s" "(p, r) \<in> set (repo_arts c (view s) repo shards)"
  shows "canonical p" "sk_ok p"
proof -
  obtain i sk b where "(sk, b) \<in> set (entries_where (view s TABLE_ARTIFACTS (artifact_shard_pk repo i)) (\<lambda>_. True))"
    and p: "p = normalize_path sk"
    using assms(2) by (auto simp: repo_arts_def arts_of_def split: sum.splits)
  then obtain n where "view s TABLE_ARTIFACTS (artifact_shard_pk repo i) sk = Some (b, n)"
    by (auto simp: set_entries_where [OF view_finite [OF assms(1)]])
  then have "sk_ok sk" using view_ok [OF assms(1), of TABLE_ARTIFACTS "artifact_shard_pk repo i" sk] by simp
  then show "canonical p" "sk_ok p" by (simp_all add: p canonical_normalize_path)
qed

lemma write_differences_spec:
  assumes s: "invar s"
    and existing: "\<And>pk sk. map_of existing (pk, sk) = (if pk \<in> P then map_option fst (view s TABLE_DIR_ENTRIES pk sk) else None)"
    and expected: "\<And>k. map_of expected k \<noteq> None \<Longrightarrow> fst k \<in> P \<and> sk_ok (snd k)" "distinct (map fst expected)"
    and ord: "\<And>ks. mset (ord ks) = mset ks" and P: "\<And>pk. pk \<in> P \<Longrightarrow> pk_ok pk"
  shows "wp (write_differences kv ord existing expected) (\<lambda>r s'. invar s' \<and>
    view_frame {(TABLE_DIR_ENTRIES, pk, sk) | pk sk. pk \<in> P} (view s) (view s') \<and>
    (\<forall>n. r = Inr n \<longrightarrow> (\<forall>pk \<in> P. \<forall>sk. map_option fst (view s' TABLE_DIR_ENTRIES pk sk) = map_of expected (pk, sk)))) s"
proof -
  let ?t = TABLE_DIR_ENTRIES and ?dels = "stale_keys ord existing expected" and ?puts = "changed_entries ord existing expected"
  let ?F = "{(TABLE_DIR_ENTRIES, pk, sk) | pk sk. pk \<in> P}"
  have set_ord: "set (ord ks) = set ks" for ks by (rule mset_eq_setD [OF ord])
  have "map_of existing k \<noteq> None \<Longrightarrow> fst k \<in> P" for k using existing [of "fst k" "snd k"] by (auto split: if_splits)
  then have dels: "\<forall>(pk, sk) \<in> set ?dels. pk \<in> P" by (fastforce simp: stale_keys_def set_ord map_of_eq_None_iff)
  have puts: "\<forall>(pk, sk, b) \<in> set ?puts. pk \<in> P \<and> sk_ok sk"
    using expected(1) by (fastforce simp: changed_entries_def set_ord map_of_eq_None_iff)
  have D: "wp (io_for (chunks_of REBUILD_BATCH_SIZE ?dels) (\<lambda>chunk. io_bind (kv_delete_batch kv ?t chunk) (\<lambda>_. io_return ())))
    (kv_write invar view s {(?t, pk, sk) | pk sk. (pk, sk) \<in> set ?dels} (\<lambda>_ v. v = view_del_all (view s) ?t ?dels)) s"
    by (rule del_chunks_spec [OF s]) (use dels P in \<open>auto simp: REBUILD_BATCH_SIZE_def\<close>)
  have mono: "view_frame {(?t, pk, sk) | pk sk. (pk, sk) \<in> set ?dels} u v \<Longrightarrow> view_frame ?F u v"
    "view_frame {(?t, pk, sk) | pk sk b. (pk, sk, b) \<in> set ?puts} u v \<Longrightarrow> view_frame ?F u v" for u v
    by (erule view_frame_mono, use dels puts in blast)+
  show ?thesis
    unfolding write_differences_def Let_def
  proof (rule wp_bindI [OF D], goal_cases)
    case (2 x s1)
    then have s1: "invar s1" "view s1 = view_del_all (view s) ?t ?dels" by simp_all
    have f1: "view_frame ?F (view s) (view s1)" using dels by (auto simp: s1(2) view_frame_def view_del_all_apply)
    show ?case
    proof (rule wp_bindI [OF put_chunks_spec [OF s1(1)]], goal_cases)
      case 1
      then show ?case using puts P by auto
    next
      case 2
      then show ?case by (simp add: REBUILD_BATCH_SIZE_def)
    next
      case (3 e s2)
      then show ?case using f1 mono(2) by (auto intro: view_frame_trans)
    next
      case (4 y s2)
      then have s2: "invar s2" "view s2 = view_put_all (view_del_all (view s) ?t ?dels) ?t ?puts" by (simp_all add: s1(2))
      note A = differences_applied [where v = "view s" and t = ?t and existing = existing and P = P and expected = expected and ord = ord,
        OF existing, folded s2(2)]
      have "view_frame ?F (view s) (view s2)"
        unfolding view_frame_def using A(2) expected ord by blast
      moreover have "map_option fst (view s2 ?t pk sk) = map_of expected (pk, sk)" if "pk \<in> P" for pk sk
        using A(1) [of pk sk] expected ord that by simp
      ultimately show ?case using s2(1) by simp
    qed
  qed (use mono(1) in auto)
qed

lemma keys_ok:
  fixes c :: "artifact_record codec" and repo :: string and shards :: "nat list"
  assumes s: "invar s"
  defines "as \<equiv> repo_arts c (view s) repo shards"
  assumes "k = tree_key H repo q" "q \<in> fst ` set as \<or> below as q \<noteq> []"
  shows "fst k \<in> tree_shard_pk repo ` {..<NUM_SHARDS}" "sk_ok (snd k)"
proof -
  show "fst k \<in> tree_shard_pk repo ` {..<NUM_SHARDS}"
    by (simp add: assms(3) tree_key_def sharded_pk_def tree_shard_pk_def NUM_SHARDS_def)
  obtain p r where p: "(p, r) \<in> set as" "q = p \<or> q \<in> set (ancestor_dirs p)"
    using assms(4) by (auto simp: below_def filter_empty_conv)
  then have "sk_ok q" using repo_arts_ok(2) [OF s] ancestor_dirs_ok(3) unfolding as_def by blast
  then show "sk_ok (snd k)" by (simp add: assms(3) tree_key_def)
qed

text \<open>
  The artifacts of the repository have different paths without NUL bytes. On success the tree is the
  rebuilt one and the counts are those of all artifacts; nothing but tree entries of the repository
  changes in any case.
\<close>

lemma full_scan_repo_spec:
  fixes C :: codecs
  assumes s: "invar s" "pk_ok repo" and sh: "shard_order shards" and ord: "\<And>ks. mset (ord ks) = mset ks"
  defines "arts \<equiv> repo_arts (cs_artifact C) (view s) repo [0..<NUM_SHARDS]"
  assumes paths: "distinct (map fst arts)" "\<forall>p \<in> fst ` set arts. CHR 0x00 \<notin> set p"
  shows "wp (full_scan_repo H kv C ord shards repo) (\<lambda>r s'. invar s' \<and>
      view_frame {(TABLE_DIR_ENTRIES, tree_shard_pk repo i, sk) | i sk. i < NUM_SHARDS} (view s) (view s') \<and>
      (\<forall>n artifacts bytes. r = Inr (n, artifacts, bytes) \<longrightarrow> rebuilt H C repo arts (view s') \<and>
        artifacts = of_nat (length arts) \<and> bytes = sum_list (map (ar_size \<circ> snd) arts))) s"
proof -
  let ?P = "tree_shard_pk repo ` {..<NUM_SHARDS}"
  let ?F = "{(TABLE_DIR_ENTRIES, tree_shard_pk repo i, sk) | i sk. i < NUM_SHARDS}"
  define as where "as = repo_arts (cs_artifact C) (view s) repo shards"
  have m: "mset as = mset arts" unfolding as_def arts_def by (rule mset_repo_arts [OF sh])
  have set_as: "set as = set arts" by (rule mset_eq_setD [OF m])
  have dist: "distinct (map fst as)"
    using paths(1) mset_eq_imp_distinct_iff [of "map fst as" "map fst arts"] m by simp
  have ok: "paths_ok (fst ` set as)"
    using paths(2) repo_arts_ok(1) [OF s(1)] unfolding paths_ok_def set_as arts_def by auto
  have F: "view_frame {(TABLE_DIR_ENTRIES, pk, sk) | pk sk. pk \<in> ?P} u v \<Longrightarrow> view_frame ?F u v" for u v
    by (erule view_frame_mono) blast
  have "mset (map (ar_size \<circ> snd) as) = mset (map (ar_size \<circ> snd) arts)" unfolding mset_map m ..
  then have counts: "length as = length arts" "sum_list (map (ar_size \<circ> snd) as) = sum_list (map (ar_size \<circ> snd) arts)"
    using mset_eq_length [OF m] by (auto simp: sum_mset_sum_list [symmetric])
  show ?thesis
    unfolding full_scan_repo_def
  proof (rule wp_bindI [OF scan_shards_spec(1) [OF s]], goal_cases)
    case (2 results s1)
    obtain ds fs where res: "merge_shards results = (ds, fs)" by (cases "merge_shards results")
    have s1: "invar s1" "view s1 = view s" and scan: "scan_for as (ds, fs)" using 2 by (simp_all add: as_def res)
    have root: "(case map_of ds [] of Some st \<Rightarrow> st | None \<Rightarrow> no_stat) = stat_of (map snd as)"
      using scan by (auto simp: scan_for_def stats_for_def below_def)
    show ?case
    proof (cases "expect_entries H (cs_tree C) repo (map (\<lambda>(d, st). (d, dir_tree_entry st)) ds) []")
      case (Inr dirs)
      note dirs = this
      show ?thesis
      proof (cases "expect_entries H (cs_tree C) repo fs dirs")
        case (Inr expected)
        note X = expected_tree [OF scan ok dist dirs Inr]
        show ?thesis
          unfolding res prod.case Let_def wp_bind_ok [OF dirs] wp_bind_ok [OF Inr]
        proof (rule wp_bindI [OF scan_shards_spec(2) [OF s1(1) s(2)]], goal_cases)
          case 1
          then show ?case by (simp add: s1)
        next
          case (2 items s2)
          then have s2: "invar s2" "view s2 = view s" and items: "concat items = concat (map (tree_items (view s2) repo) shards)"
            by (simp_all add: s1)
          have keys: "fst k \<in> ?P \<and> sk_ok (snd k)" if "map_of expected k \<noteq> None" for k
            
            using X(3) [OF that] keys_ok [OF s(1), where c = "cs_artifact C" and repo = repo and shards = shards and H = H and k = k, folded as_def]
            by blast
          have W: "wp (write_differences kv ord (fold (\<lambda>(k, b). AList.update k b) (concat items) []) expected) (\<lambda>r s'. invar s' \<and>
              view_frame {(TABLE_DIR_ENTRIES, pk, sk) | pk sk. pk \<in> ?P} (view s2) (view s') \<and>
              (\<forall>n. r = Inr n \<longrightarrow> (\<forall>pk \<in> ?P. \<forall>sk. map_option fst (view s' TABLE_DIR_ENTRIES pk sk) = map_of expected (pk, sk)))) s2"
          proof (rule write_differences_spec [OF s2(1)])
            show "map_of (fold (\<lambda>(k, b). AList.update k b) (concat items) []) (pk, sk) =
                (if pk \<in> ?P then map_option fst (view s2 TABLE_DIR_ENTRIES pk sk) else None)" for pk sk
              unfolding items by (rule existing_entries [OF s2(1) sh])
            show "pk_ok pk" if "pk \<in> ?P" for pk using that s(2) by (auto simp: tree_shard_pk_def)
          qed (fact keys X(4) ord)+
          show ?case
          proof (rule wp_bindI [OF W], goal_cases)
            case (1 e s3)
            then show ?case using F by (simp add: s2(2))
          next
            case (2 n s3)
            then have s3: "invar s3" "view_frame ?F (view s) (view s3)"
              and tree: "\<forall>pk \<in> ?P. \<forall>sk. map_option fst (view s3 TABLE_DIR_ENTRIES pk sk) = map_of expected (pk, sk)"
              using F unfolding s2(2) by blast+
            have "rebuilt H C repo as (view s3)"
              by (rule rebuilt_expected [OF X(1-3)]) (use tree in blast)+
            then have "rebuilt H C repo arts (view s3)" by (rule rebuilt_mset [OF m])
            then show ?case using s3(1,2) counts unfolding root by (simp add: stat_of_def)
          qed
        qed
      qed (use s1 dirs in \<open>simp add: res wp_bind\<close>)
    qed (use s1 in \<open>simp add: res wp_bind\<close>)
  qed simp
qed

lemma scan_repos_spec:
  fixes C :: codecs
  assumes sh: "shard_order shards" and ord: "\<And>ks. mset (ord ks) = mset ks"
  shows "invar s \<Longrightarrow> \<forall>repo \<in> set repos. pk_ok (rp_name repo) \<and> paths_distinct (cs_artifact C) (view s) (rp_name repo) \<Longrightarrow>
    wp (scan_repos H kv C ord shards repos total_updated totals) (\<lambda>r s'. invar s' \<and>
      view_frame {(TABLE_DIR_ENTRIES, tree_shard_pk name i, sk) | name i sk. name \<in> rp_name ` set repos} (view s) (view s') \<and>
      (\<forall>n totals'. r = Inr (n, totals') \<longrightarrow> fst ` set totals' \<subseteq> fst ` set totals \<union> rp_store ` set repos \<and>
        (\<forall>repo \<in> set repos. rebuilt H C (rp_name repo) (repo_arts (cs_artifact C) (view s) (rp_name repo) [0..<NUM_SHARDS]) (view s')))) s"
proof (induction repos arbitrary: s total_updated totals)
  case (Cons repo repos)
  let ?name = "rp_name repo"
  let ?arts = "\<lambda>s name. repo_arts (cs_artifact C) (view s) name [0..<NUM_SHARDS]"
  let ?F = "\<lambda>names. {(TABLE_DIR_ENTRIES, tree_shard_pk name i, sk) | name i sk. name \<in> names}"
  have here: "pk_ok ?name" "distinct (map fst (?arts s ?name))" "\<forall>p \<in> fst ` set (?arts s ?name). CHR 0x00 \<notin> set p"
    using Cons.prems(2) by (auto simp: paths_distinct_def Let_def)
  have wide: "view_frame (?F A) u v \<Longrightarrow> A \<subseteq> B \<Longrightarrow> view_frame (?F B) u v" for A B u v
    by (erule view_frame_mono) blast
  have one: "view_frame {(TABLE_DIR_ENTRIES, tree_shard_pk ?name i, sk) | i sk. i < NUM_SHARDS} u v \<Longrightarrow>
      view_frame (?F (rp_name ` set (repo # repos))) u v" for u v
    by (erule view_frame_mono) auto
  show ?case
    unfolding scan_repos.simps
  proof (rule wp_bindI [OF full_scan_repo_spec [OF Cons.prems(1) here(1) sh ord here(2,3)]], goal_cases)
    case (1 e s1)
    then show ?case using one by blast
  next
    case (2 x s1)
    obtain n c b where x: "x = (n, c, b)" by (cases x)
    have s1: "invar s1" and f1: "view_frame (?F (rp_name ` set (repo # repos))) (view s) (view s1)"
      and done1: "rebuilt H C ?name (?arts s ?name) (view s1)" using 2 one x by blast+
    have "view s1 TABLE_ARTIFACTS pk sk = view s TABLE_ARTIFACTS pk sk" for pk sk using f1 by (simp add: view_frame_def)
    then have arts: "?arts s1 name = ?arts s name" for name by (rule repo_arts_cong)
    have ok: "\<forall>repo \<in> set repos. pk_ok (rp_name repo) \<and> paths_distinct (cs_artifact C) (view s1) (rp_name repo)"
      using Cons.prems(2) unfolding paths_distinct_def arts by simp
    have totals: "fst ` set (add_store_total (rp_store repo) c b totals) \<subseteq> insert (rp_store repo) (fst ` set totals)"
      by (simp add: add_store_total_def dom_update case_prod_unfold Let_def)
    show ?case
      unfolding x prod.case
    proof (rule wp_mono [OF Cons.IH [OF s1 ok]], goal_cases)
      case (1 r s2)
      then have s2: "invar s2" and f2: "view_frame (?F (rp_name ` set repos)) (view s1) (view s2)" by blast+
      have "view_frame (?F (rp_name ` set (repo # repos))) (view s1) (view s2)" by (rule wide [OF f2]) auto
      with f1 have f: "view_frame (?F (rp_name ` set (repo # repos))) (view s) (view s2)" by (rule view_frame_trans)
      have "rebuilt H C ?name (?arts s ?name) (view s2)" if "?name \<notin> rp_name ` set repos"
        by (rule rebuilt_cong [OF done1], rule view_frameD [OF f2]) (use that in \<open>auto simp: tree_shard_pk_def\<close>)
      moreover have tail: "fst ` set t' \<subseteq> fst ` set (add_store_total (rp_store repo) c b totals) \<union> rp_store ` set repos"
        "\<And>p. p \<in> set repos \<Longrightarrow> rebuilt H C (rp_name p) (?arts s (rp_name p)) (view s2)" if "r = Inr (n', t')" for n' t'
        using 1 that unfolding arts by blast+
      ultimately have "rebuilt H C (rp_name p) (?arts s (rp_name p)) (view s2)" if "r = Inr (n', t')" "p \<in> set (repo # repos)" for n' t' p
        using that by (cases "rp_name p \<in> rp_name ` set repos") auto
      moreover have "fst ` set t' \<subseteq> fst ` set totals \<union> rp_store ` set (repo # repos)" if "r = Inr (n', t')" for n' t'
        using tail(1) [OF that] totals by auto
      ultimately show ?case using s2 f by blast
    qed
  qed
qed simp

text \<open>
  A full scan that succeeds has rebuilt the tree of every listed repository; it changes directory
  entries and metadata only.
\<close>

lemma full_scan_spec:
  fixes C :: codecs
  assumes s: "invar s" and sh: "shard_order shards" and ord: "\<And>ks. mset (ord ks) = mset ks"
    and ok: "\<forall>repo \<in> set (live_repos C (view s)). pk_ok (rp_name repo) \<and> sk_ok (rp_store repo) \<and>
      paths_distinct (cs_artifact C) (view s) (rp_name repo)"
  shows "wp (full_scan H kv C now ord shards) (\<lambda>r s'. invar s' \<and>
      (\<forall>t pk sk. t \<noteq> TABLE_DIR_ENTRIES \<longrightarrow> t \<noteq> TABLE_META \<longrightarrow> view s' t pk sk = view s t pk sk) \<and>
      (\<forall>n updated stores. r = Inr (n, updated, stores) \<longrightarrow> n = length (live_repos C (view s)) \<and>
        (\<forall>repo \<in> set (live_repos C (view s)).
          rebuilt H C (rp_name repo) (repo_arts (cs_artifact C) (view s) (rp_name repo) [0..<NUM_SHARDS]) (view s')))) s"
  unfolding full_scan_def
proof (rule wp_bindI [OF list_repos_spec [OF s, of C]], goal_cases)
  case (2 repos s1)
  then have s1: "invar s1" "view s1 = view s" and repos: "repos = live_repos C (view s)" by (auto simp: live_repos_def)
  have ok1: "\<forall>repo \<in> set repos. pk_ok (rp_name repo) \<and> paths_distinct (cs_artifact C) (view s1) (rp_name repo)"
    using ok by (simp add: repos s1(2))
  show ?case
  proof (rule wp_bindI [OF scan_repos_spec [OF sh ord s1(1) ok1]], goal_cases)
    case (1 e s2)
    then show ?case by (auto simp: s1(2) view_frame_def)
  next
    case (2 x s2)
    obtain n totals where x: "x = (n, totals)" by (cases x)
    have s2: "invar s2" and f2: "\<And>t pk sk. t \<noteq> TABLE_DIR_ENTRIES \<Longrightarrow> view s2 t pk sk = view s t pk sk"
      using 2 by (auto simp: s1(2) view_frame_def)
    have names: "fst ` set totals \<subseteq> rp_store ` set repos"
      and built: "\<forall>repo \<in> set repos. rebuilt H C (rp_name repo) (repo_arts (cs_artifact C) (view s) (rp_name repo) [0..<NUM_SHARDS]) (view s2)"
      using 2 by (auto simp: x s1(2))
    have stats: "wp (io_for totals (\<lambda>(store_name, artifact_count, total_bytes).
        io_bind (io_try (put_store_stats kv C store_name
          \<lparr>ss_blob_count = artifact_count, ss_total_bytes = total_bytes, ss_updated_at = now\<rparr>)) (\<lambda>_. io_return ())))
      (\<lambda>r s'. case r of Inl e \<Rightarrow> False | Inr _ \<Rightarrow> invar s' \<and>
        (\<forall>t pk sk. t \<noteq> TABLE_META \<longrightarrow> view s' t pk sk = view s2 t pk sk)) s2"
    proof (rule wp_for [where I = "\<lambda>_ s'. invar s' \<and> (\<forall>t pk sk. t \<noteq> TABLE_META \<longrightarrow> view s' t pk sk = view s2 t pk sk)"], goal_cases)
      case (2 dn y rest s3)
      obtain store_name a b where y: "y = (store_name, a, b)" by (cases y)
      have "store_name \<in> rp_store ` set repos" using names 2(1) by (force simp: y)
      then have sk: "sk_ok store_name" using ok by (auto simp: repos)
      show ?case
        unfolding y prod.case
        by (rule wp_try_bindI [OF put_store_stats_spec [OF conjunct1 [OF 2(2)] sk]])
          (use 2(2) in \<open>auto simp: kv_write_def store_stats_key_def view_frame_def split: sum.splits\<close>)
    qed (use s2 in simp)
    show ?case
      unfolding x prod.case
    proof (rule wp_bindI [OF stats], goal_cases)
      case (2 y s3)
      then have s3: "invar s3" "\<And>t pk sk. t \<noteq> TABLE_META \<Longrightarrow> view s3 t pk sk = view s2 t pk sk" by auto
      have "rebuilt H C (rp_name repo) (repo_arts (cs_artifact C) (view s) (rp_name repo) [0..<NUM_SHARDS]) (view s3)"
        if "repo \<in> set repos" for repo
        by (rule rebuilt_cong [OF bspec [OF built that]]) (simp add: s3(2))
      then show ?case using s3 f2 by (simp add: repos)
    qed simp
  qed
qed (use s in auto)

end

end
