(* ===== verification/Spec2Isabelle.thy ===== *)
theory Spec2Isabelle
  imports Depot_Samples Blob_Properties Gc_Properties Tree_Rebuild
begin

text \<open>
  A verification development for the artifact depot (\<^verbatim>\<open>src/\<close>), an artifact repository server in
  Rust. It models the storage stack and the services, repositories and background workers above it,
  and proves what makes them correct.

  The program. Metadata lives in a key-value store (tables, partition keys, sort keys, one version
  per key), artifact contents in blob stores. The crate \<^verbatim>\<open>core\<close> defines the keys, the persisted
  records, the traits \<^verbatim>\<open>KvStore\<close> and \<^verbatim>\<open>BlobStore\<close> and the services that read and write records;
  \<^verbatim>\<open>kv/redb\<close> and \<^verbatim>\<open>blob/file\<close> implement the traits; \<^verbatim>\<open>server\<close> wraps the backends, answers requests
  and runs the workers: update worker, garbage collector, cluster leases. Services send events
  to the update worker, the repositories upload through the blob and artifact services, and the
  collector walks what both have written.

  How code is modelled. An async function is a value of \<^verbatim>\<open>('s, 'a) io\<close> (\<^verbatim>\<open>Depot_Io\<close>): from a state
  to an error or a result and the next state, or to \<^verbatim>\<open>None\<close> when it does not return. An error is a
  value of \<^verbatim>\<open>depot_error\<close>, \<^verbatim>\<open>?\<close> is \<^verbatim>\<open>io_bind\<close>, a caught error \<^verbatim>\<open>io_try\<close>. Integers have their
  width (\<^verbatim>\<open>u64\<close> is a word of 64 bits), strings are byte strings, times are nanoseconds. Trait objects
  are records of methods. Statements about computations are weakest preconditions: \<^verbatim>\<open>wp m Q s\<close> says
  that \<^verbatim>\<open>m\<close> returns from \<^verbatim>\<open>s\<close> and \<^verbatim>\<open>Q\<close> holds of its result and state, so each of them includes
  termination. What other tasks or instances do between two calls, where the code looks again for
  that reason, is a parameter \<^verbatim>\<open>env\<close> that changes the state at that place. Where the code throws
  the answers of its calls away, \<^verbatim>\<open>logged\<close> records the calls of a run, so that a property can speak
  of them.

  Theories, in the order of the layers.
  \<^item> \<^verbatim>\<open>Depot_Prelude\<close>, \<^verbatim>\<open>Depot_Error\<close>, \<^verbatim>\<open>Depot_Io\<close>: strings and words, \<^verbatim>\<open>core/src/error.rs\<close>, effects and
    their rules.
  \<^item> \<^verbatim>\<open>Depot_Keys\<close>, \<^verbatim>\<open>Depot_Records\<close>: \<^verbatim>\<open>core/src/store/keys.rs\<close>; \<^verbatim>\<open>kv/records.rs\<close>, \<^verbatim>\<open>kv/metadata.rs\<close>,
    \<^verbatim>\<open>core/src/task.rs\<close>. Their lemmas: normal paths, injective keys, prefix ranges, sharding.
  \<^item> \<^verbatim>\<open>Kv_Interface\<close>: \<^verbatim>\<open>trait_def.rs\<close> as the record \<^verbatim>\<open>kv\<close> and its contract as the locale \<^verbatim>\<open>kv_store\<close>,
    over an abstract view: from table, partition and sort key to value and version.
  \<^item> \<^verbatim>\<open>Redb_Kv\<close>, \<^verbatim>\<open>Redb_Contract\<close>, \<^verbatim>\<open>Redb_Memory\<close>, \<^verbatim>\<open>Sharded_Redb\<close>, \<^verbatim>\<open>Kv_Wrappers\<close>: \<^verbatim>\<open>redb_kv.rs\<close>,
    \<^verbatim>\<open>sharded_redb.rs\<close>, \<^verbatim>\<open>encrypted.rs\<close>, \<^verbatim>\<open>instrumented.rs\<close>, each shown to keep the contract; redb's own
    tables are the locale \<^verbatim>\<open>redb_db\<close>, which an in-memory database satisfies.
  \<^item> \<^verbatim>\<open>Service_Scan\<close>, \<^verbatim>\<open>Service_Artifact\<close>, \<^verbatim>\<open>Service_Pagination\<close>, \<^verbatim>\<open>Service_Directory\<close>, \<^verbatim>\<open>Service_Repo\<close>,
    \<^verbatim>\<open>Service_Blob\<close>, \<^verbatim>\<open>Service_Admin\<close>: \<^verbatim>\<open>core/src/service/\<close>, one operation per function, with their
    specifications proved inside \<^verbatim>\<open>kv_store\<close>.
  \<^item> \<^verbatim>\<open>Update_Channel\<close>, \<^verbatim>\<open>Update_Worker\<close>, \<^verbatim>\<open>Tree_Rebuild\<close>: \<^verbatim>\<open>core/src/update.rs\<close>, \<^verbatim>\<open>worker/update.rs\<close>, the last
    its rebuild of the browse tree.
  \<^item> \<^verbatim>\<open>Cluster\<close>, \<^verbatim>\<open>Inflight\<close>, \<^verbatim>\<open>Auth\<close>, \<^verbatim>\<open>Store_Registry\<close>, \<^verbatim>\<open>Server_Settings\<close>: \<^verbatim>\<open>worker/cluster.rs\<close>,
    \<^verbatim>\<open>core/src/inflight.rs\<close>, \<^verbatim>\<open>auth.rs\<close>, \<^verbatim>\<open>store_registry.rs\<close>, \<^verbatim>\<open>config/settings.rs\<close>. Leases and the in-flight
    map have step relations for the interleaving of many instances or tasks.
  \<^item> \<^verbatim>\<open>Blob_Store\<close>, \<^verbatim>\<open>Disk\<close>, \<^verbatim>\<open>File_Blob\<close>, \<^verbatim>\<open>File_Layout\<close>, \<^verbatim>\<open>File_Contract\<close>, \<^verbatim>\<open>File_Writers\<close>, \<^verbatim>\<open>File_Scan\<close>:
    \<^verbatim>\<open>core/src/store/blob.rs\<close> with its contract \<^verbatim>\<open>blob_backend\<close>, a file system whose calls may fail or
    come back short, \<^verbatim>\<open>file_blob.rs\<close> and \<^verbatim>\<open>direct_io.rs\<close>, and the proof that they keep the contract.
  \<^item> \<^verbatim>\<open>Repo_Hosted\<close>: \<^verbatim>\<open>core/src/repo/{mod,hosted}.rs\<close>, under both contracts (\<^verbatim>\<open>repo_stack\<close>).
  \<^item> \<^verbatim>\<open>Gc_Bloom\<close>, \<^verbatim>\<open>Gc_Expiry\<close>, \<^verbatim>\<open>Gc_Docker\<close>, \<^verbatim>\<open>Gc_Pass\<close>, \<^verbatim>\<open>Gc_Sweep\<close>, \<^verbatim>\<open>Gc_Loop\<close>: \<^verbatim>\<open>worker/blob_reaper/\<close>,
    under both contracts and that of a Bloom filter (\<^verbatim>\<open>gc_stack\<close>).
  \<^item> \<^verbatim>\<open>Depot_Stack\<close>, \<^verbatim>\<open>Depot_Samples\<close>: the contracts interpreted on the redb and file backends, and the
    concrete inputs of the witnesses.
  \<^item> \<^verbatim>\<open>Blob_Properties\<close>, \<^verbatim>\<open>Gc_Properties\<close> and this theory: the properties, numbered C1, C2 and so on.

  Bounds and fuel. Loops over a store (scans, drains, listings, the lease and put retries) are
  \<^verbatim>\<open>partial_function\<close>s: that they return is part of each specification, and where they need not, the
  theorem \<^verbatim>\<open>stuck_delta_livelock\<close> says so. The only fuel is the code's own
  depth limit of the staleness search (\<^verbatim>\<open>MAX_STALE_DEPTH\<close>). Batch sizes and caps are the code's constants.

  Hypotheses. redb, msgpack, AES-GCM, the hash functions, the Bloom filter, the clock and the file
  system are not part of the sources; they are parameters with their documented laws (a codec
  decodes what it encoded, a filter reports what was inserted). Theorems about one operation assume
  no interference but at the named places; keys are free of the NUL byte that redb's flat keys use as
  a separator.

  Not modelled: the HTTP handlers and the package formats, which parse requests and call the
  services; the DynamoDB and S3 backends, which are clients of an SDK; cache and
  proxy repositories beyond their write target; the integrity check; the static configuration; key
  derivation; the task manager, metrics and logging; the load generator. Opening and upgrading the
  database files is left out as well.
\<close>

section \<open>The storage layers\<close>

text \<open>
  C3: over every redb database that keeps what redb documents, the backend of
  \<^verbatim>\<open>redb_kv.rs\<close> implements the \<open>KvStore\<close> contract: reads return what the view holds,
  versions count the writes of a key, conditional writes and deletes act exactly when the version
  matches, scans return the smallest keys of a partition in order, and a failed call has touched
  nothing but its own keys.
\<close>

theorem redb_implements_kv_store:
  assumes "redb_db D tab"
  shows "kv_store (redb_kv D) (redb_invar tab) (redb_view tab)"
  using assms by (rule redb_db.redb_kv_lawful)

theorem redb_implements_kv_store_witness:
  "kv_store (redb_kv mem_redb) (redb_invar mem_tab) (redb_view mem_tab)"
  by (rule redb_implements_kv_store [OF mem.redb_db_axioms])

text \<open>
  C4: distributing partitions over \<open>2 ^ b\<close> lawful backends by the hash of the partition key
  (\<^verbatim>\<open>sharded_redb.rs\<close>) is again a lawful backend: the batches, split by shard and run
  shard by shard, have the effect of the whole batch, and the answers of a batched delete come back
  in the order of the request.
\<close>

theorem sharded_implements_kv_store:
  assumes "kv_store shard invar view"
  shows "kv_store (sharded_kv H (2 ^ b - 1) shard) (sharded_invar (2 ^ b) invar)
    (sharded_view (shard_index H (2 ^ b - 1)) view)"
proof -
  from assms have "shards shard invar view b (2 ^ b - 1)"
    by (intro shards.intro shards_axioms.intro) simp_all
  then show ?thesis by (rule shards.sharded_kv_lawful)
qed

theorem sharded_implements_kv_store_witness:
  "kv_store (sharded_kv sample_hasher (2 ^ 2 - 1) mem_kv) (sharded_invar (2 ^ 2) (redb_invar mem_tab))
    (sharded_view (shard_index sample_hasher (2 ^ 2 - 1)) (redb_view mem_tab))"
  by (rule sharded_implements_kv_store [OF mem_lawful])

text \<open>
  C19: the writer task executes queued operations in transactions of up to 64. When none of the
  replies it has sent is an error, the replies are those of executing the operations one after the
  other in queue order, each exactly once, and the tables are what that leaves, however the queue
  was cut into batches.
\<close>

theorem writer_task_serializes:
  assumes "redb_db D tab" "writer_task D avail db queue = (reps, db')"
    and "\<forall>x \<in> set reps. \<exists>rep. x = Some rep \<and> \<not> reply_failed rep"
  shows "length reps \<le> length queue \<and>
    reps = map2 reply_of (take (length reps) queue) (fst (spec_ops (tab db) (take (length reps) queue))) \<and>
    tab db' = snd (spec_ops (tab db) (take (length reps) queue))"
  using assms by (rule redb_db.writer_task_sequential)

lemma mem_write_ops [simp]:
  "rd_begin_write mem_redb = (\<lambda>d. Inr d)" "rd_open_write mem_redb = (\<lambda>d t. Inr d)"
  "rd_get mem_redb = (\<lambda>d t k. Inr (map_of d (t, k)))"
  "rd_insert mem_redb = (\<lambda>d t k v. (Inr (map_of d (t, k)), AList.update (t, k) v d))"
  "rd_remove mem_redb = (\<lambda>d t k. (Inr (map_of d (t, k)), AList.delete (t, k) d))"
  "rd_commit mem_redb = (\<lambda>d w. (Inr (), w))"
  by (simp_all add: mem_redb_def)

theorem writer_task_serializes_witness:
  "mem_tab [((''t'', ''k''), wrap_envelope 1 ''v'')] =
    snd (spec_ops (mem_tab []) [PutOp ''t'' ''k'' ''v''])"
  using writer_task_serializes [OF mem.redb_db_axioms, of "[0]" "[]" "[PutOp ''t'' ''k'' ''v'', DeleteOp ''t'' ''k'']"
      "[Some (UnitReply (Inr ()))]" "[((''t'', ''k''), wrap_envelope 1 ''v'')]"]
  by (simp add: execute_batch_def with_table_def put_one_def map_err_def)

section \<open>Keys\<close>

text \<open>
  C23: path normalization keeps the non-empty segments and nothing else: the result is the segments
  joined by single slashes, it is canonical, normalizing again changes nothing, and two paths
  normalize alike exactly when they have the same segments.
\<close>

theorem normalize_path_segments:
  "normalize_path p = join_with CHR ''/'' (segments p) \<and> canonical (normalize_path p) \<and>
    normalize_path (normalize_path p) = normalize_path p \<and>
    (normalize_path p = normalize_path q \<longleftrightarrow> segments p = segments q)"
proof -
  have "normalize_path p = normalize_path q \<longleftrightarrow> segments p = segments q"
    using canonical_segments_inject [OF canonical_normalize_path canonical_normalize_path, of p q]
    by simp
  moreover have "normalize_path p = join_with CHR ''/'' (segments p)"
    using canonical_eq_join [OF canonical_normalize_path, of p] by simp
  moreover have "canonical (normalize_path p)" by (rule canonical_normalize_path)
  ultimately show ?thesis by (metis normalize_path_canonical)
qed

text \<open>
  A prefix scan as a range scan is exact: the byte strings from the prefix up to
  \<open>prefix_end\<close> (unbounded when there is none) are those that start with the prefix.
\<close>

theorem prefix_end_exact:
  "starts_with k p \<longleftrightarrow> p \<le> k \<and> (case prefix_end p of None \<Rightarrow> True | Some e \<Rightarrow> k < e)"
  by (rule prefix_end_range)

text \<open>
  C24: the browse-tree sort keys. For paths without NUL bytes, distinct artifact paths have distinct
  tree entries, the name is recovered from the key, and the children prefix of a directory selects
  exactly the entries whose parent is that directory.
\<close>

theorem tree_keys_faithful:
  assumes "CHR 0x00 \<notin> set p" "CHR 0x00 \<notin> set q" "CHR 0x00 \<notin> set d" "canonical p" "canonical q"
  shows "(tree_sort_key p = tree_sort_key q \<longleftrightarrow> p = q) \<and>
    tree_sk_name (tree_sort_key p) = tree_name p \<and>
    (starts_with (tree_sort_key p) (tree_children_sk_prefix d) \<longleftrightarrow> tree_parent p = d)"
  using assms by (simp add: tree_sort_key_inject tree_sk_name_sort_key tree_children_prefix_iff)

theorem tree_keys_faithful_witness:
  "tree_sk_name (tree_sort_key ''a/b'') = tree_name ''a/b''"
  using tree_keys_faithful [of "''a/b''" "''c''" "''a''"] by (simp add: canonical_def)

text \<open>
  C25: the shard partitions of a scope are 256 distinct keys, every sort key of the scope is in
  exactly one of them, and partitions of different scopes never coincide, whatever bytes the scopes
  hold.
\<close>

theorem sharding_partitions_scopes:
  "distinct (all_sharded_pks scope) \<and> length (all_sharded_pks scope) = 256 \<and>
    (\<exists>!shard. shard < 256 \<and> sharded_pk H scope sk = all_sharded_pks scope ! shard) \<and>
    (scope \<noteq> scope' \<longrightarrow> set (all_sharded_pks scope) \<inter> set (all_sharded_pks scope') = {})"
proof -
  have nth: "all_sharded_pks a ! i = shard_pk a i" if "i < 256" for a i
    using that by (simp add: all_sharded_pks_def NUM_SHARDS_def)
  have "\<exists>!shard. shard < 256 \<and> sharded_pk H scope sk = all_sharded_pks scope ! shard"
    by (rule ex1I [of _ "shard_of H sk"]) (auto simp: nth sharded_pk_def)
  then show ?thesis
    using distinct_all_sharded_pks [of scope] by (auto simp: all_sharded_pks_def NUM_SHARDS_def)
qed

theorem sharding_partitions_scopes_witness:
  "set (all_sharded_pks ''a'') \<inter> set (all_sharded_pks ''a/1'') = {}"
  using sharding_partitions_scopes [of "''a''" sample_hasher "''x''" "''a/1''"] by blast

text \<open>
  The envelope around a stored value is lossless: reading back a wrapped value gives the payload
  and the 64-bit version, whatever they are.
\<close>

theorem envelope_round_trip:
  "unwrap_envelope (wrap_envelope version payload) = (payload, version) \<and>
    read_version (wrap_envelope version payload) = version"
  by simp

section \<open>Artifacts\<close>

text \<open>
  C1: what is put is what is got. On any lawful backend, when storing an artifact and reading it
  back both succeed, the reader sees the prepared record, also under another spelling of the path
  that normalizes alike; nothing outside the artifact's record and its tree entry has changed.
\<close>

theorem put_get_artifact:
  assumes "kv_store kv invar view" "codec_ok (cs_artifact C)"
    and "invar s" "pk_ok repo" "sk_ok path" "path \<noteq> []" "normalize_path path' = normalize_path path"
  shows "wp (io_bind (put_artifact H kv C (\<lambda>_ s. s) uuid repo path record)
      (\<lambda>_. get_artifact H kv C repo path'))
    (\<lambda>r s'. invar s' \<and> view_frame {artifact_key H repo path, tree_entry_key H repo path} (view s) (view s') \<and>
      (\<forall>x. r = Inr x \<longrightarrow> x = Some (prepare_artifact (uuid 0) path record))) s"
proof (rule wp_bindI [OF kv_store.put_artifact_spec [OF assms(1,3-6)]], goal_cases)
  case (2 old s1)
  then obtain b where b: "encode (cs_artifact C) (prepare_artifact (uuid 0) path record) = Inr b"
    and inv: "invar s1" and up: "tree_upserted H kv C repo path (prepare_artifact (uuid 0) path record)
      (put_art H repo path b (view s)) (view s1)" by auto
  let ?K = "{artifact_key H repo path, tree_entry_key H repo path}"
  have "view_frame ?K (put_art H repo path b (view s)) (view s1)"
    using tree_upserted_frame [OF up] by (rule view_frame_mono) simp
  moreover have "view_frame ?K (view s) (put_art H repo path b (view s))"
    by (rule view_frame_upd) (simp add: artifact_key_def Let_def)
  ultimately have fr: "view_frame ?K (view s) (view s1)" by (rule view_frame_trans [rotated])
  have "art_at H repo path' (view s1) = Some (b, next_version (art_at H repo path (view s)))"
    using tree_upserted_art [OF up] assms(7) by simp
  then show ?case
    using kv_store.get_artifact_spec [OF assms(1) inv assms(4), of H C path'] fr decode_encode(1) [OF assms(2) b]
    by (auto simp: kv_read_def elim!: wp_mono)
qed simp

theorem put_get_artifact_witness:
  "wp (io_bind (put_artifact sample_hasher mem_kv sample_codecs (\<lambda>_ s. s) (\<lambda>_. ''u'') ''r'' ''a/b'' sample_artifact)
      (\<lambda>_. get_artifact sample_hasher mem_kv sample_codecs ''r'' ''/a//b/''))
    (\<lambda>r s'. redb_invar mem_tab s' \<and>
      view_frame {artifact_key sample_hasher ''r'' ''a/b'', tree_entry_key sample_hasher ''r'' ''a/b''}
        (redb_view mem_tab (mem_store [])) (redb_view mem_tab s') \<and>
      (\<forall>x. r = Inr x \<longrightarrow> x = Some (prepare_artifact ''u'' ''a/b'' sample_artifact))) (mem_store [])"
proof -
  have "normalize_path ''/a//b/'' = normalize_path ''a/b''"
    by (simp add: normalize_path_def trim_matches_def trim_start_matches_def trim_end_matches_def)
  then show ?thesis
    using put_get_artifact [OF mem_lawful, of sample_codecs "mem_store []" "''r''" "''a/b''" "''/a//b/''"
        sample_hasher "\<lambda>_. ''u''" sample_artifact] mem_invar_empty by simp
qed

text \<open>
  C2: an artifact write is a compare-and-swap under interference. Whatever other tasks do between
  the read and the conditional write of each attempt, as long as they do not bring a version back
  under which another record was stored, a successful write went on top of the record that the
  winning attempt of this very call had read, still in place at the moment of the write, and the
  call reports that record; every attempt before it was refused by the conditional write. An empty
  path is refused.
\<close>

theorem put_artifact_compare_and_swap:
  assumes "kv_store kv invar view" "invar s" "pk_ok repo" "sk_ok path"
    and "\<forall>i s. invar s \<longrightarrow> invar (env i s)" "versions_fresh H invar view env repo path"
  shows "wp (put_artifact H kv C env uuid repo path record) (\<lambda>r s'. invar s' \<and>
    (path = [] \<longrightarrow> r = Inl (BadRequest ''empty artifact path'') \<and> s' = s) \<and>
    (\<forall>old. r = Inr old \<longrightarrow> (\<exists>i < PUT_ARTIFACT_MAX_RETRIES.
      replaced_in_attempt H kv C view env uuid repo path record s i old s'))) s"
proof (cases "path = []")
  case False
  have env: "\<And>i s. invar s \<Longrightarrow> invar (env i s)" using assms(5) by blast
  show ?thesis
    unfolding put_artifact_def if_not_P [OF False]
    by (rule wp_mono [OF kv_store.put_artifact_loop_cas [OF assms(1,3,4) env assms(6,2) attempt_first]])
      (use False in auto)
qed (use assms in \<open>simp add: put_artifact_def\<close>)

theorem put_artifact_compare_and_swap_witness:
  "wp (put_artifact sample_hasher mem_kv sample_codecs (\<lambda>i s. if i = 0 then mem_store [] else s) (\<lambda>_. ''u'')
      ''r'' ''a/b'' sample_artifact) (\<lambda>r s'. redb_invar mem_tab s' \<and>
    (\<forall>old. r = Inr old \<longrightarrow> (\<exists>i < PUT_ARTIFACT_MAX_RETRIES.
      replaced_in_attempt sample_hasher mem_kv sample_codecs (redb_view mem_tab)
        (\<lambda>i s. if i = 0 then mem_store [] else s) (\<lambda>_. ''u'') ''r'' ''a/b'' sample_artifact sample_held i old s'))) sample_held"
proof -
  have fresh: "versions_fresh sample_hasher (redb_invar mem_tab) (redb_view mem_tab)
      (\<lambda>i s. if i = 0 then mem_store [] else s) ''r'' ''a/b''"
    by (simp add: versions_fresh_def mem_view_empty)
  show ?thesis
    by (rule wp_mono [OF put_artifact_compare_and_swap [OF mem_lawful _ _ _ _ fresh]])
      (auto simp: mem_invar_empty sample_held_ok)
qed

text \<open>
  The insert-only write never overwrites: it writes exactly when the artifact had no record,
  and otherwise leaves the whole store as it was.
\<close>

theorem put_artifact_if_absent_no_overwrite:
  assumes "kv_store kv invar view" "invar s" "pk_ok repo" "sk_ok path"
  shows "wp (put_artifact_if_absent H kv C uuid repo path record)
    (kv_write invar view s {artifact_key H repo path, tree_entry_key H repo path} (\<lambda>written v.
      \<exists>b. encode (cs_artifact C) (prepare_artifact uuid path record) = Inr b \<and>
        written = (art_at H repo path (view s) = None) \<and>
        (if written then tree_upserted H kv C repo path (prepare_artifact uuid path record)
          (put_art H repo path b (view s)) v else v = view s))) s"
  using assms by (rule kv_store.put_artifact_if_absent_spec)

theorem put_artifact_if_absent_no_overwrite_witness:
  "wp (put_artifact_if_absent sample_hasher mem_kv sample_codecs ''u'' ''r'' ''a/b'' sample_artifact)
    (\<lambda>r s'. r = Inr False \<longrightarrow> redb_view mem_tab s' = redb_view mem_tab (mem_store [])) (mem_store [])"
  by (rule wp_mono [OF put_artifact_if_absent_no_overwrite [OF mem_lawful]])
    (auto simp: mem_invar_empty kv_write_def)

text \<open>
  Deleting an artifact returns the record that was there and leaves none; only its record and
  its tree entry may change.
\<close>

theorem delete_artifact_removes:
  assumes "kv_store kv invar view" "invar s" "pk_ok repo" "sk_ok path"
  shows "wp (delete_artifact H kv C repo path)
    (\<lambda>r s'. invar s' \<and> view_frame {artifact_key H repo path, tree_entry_key H repo path} (view s) (view s') \<and>
      (\<forall>old. r = Inr old \<longrightarrow> stored (cs_artifact C) (art_at H repo path (view s)) old \<and>
        art_at H repo path (view s') = None)) s"
  using assms by (rule kv_store.delete_artifact_spec)

theorem delete_artifact_removes_witness:
  "wp (delete_artifact sample_hasher mem_kv sample_codecs ''r'' ''a/b'')
    (\<lambda>r s'. \<forall>old. r = Inr old \<longrightarrow> old = None) (mem_store [])"
  by (rule wp_mono [OF delete_artifact_removes [OF mem_lawful]]) (auto simp: mem_invar_empty mem_view_empty)

text \<open>
  C26: the paired bulk delete never removes a tree entry whose record it failed to remove: when the
  batch on the records fails, no tree entry is touched; when it succeeds every record is gone, and
  nothing but the records and tree entries of the given paths has changed.
\<close>

theorem paired_delete_safe:
  assumes "kv_store kv invar view" "invar s" "pk_ok repo"
  shows "wp (delete_artifacts_paired_batch H kv repo paths) (\<lambda>r s'. invar s' \<and>
    (case r of
       Inl e \<Rightarrow> view_frame (artifact_key H repo ` set paths) (view s) (view s')
     | Inr _ \<Rightarrow> (\<forall>path \<in> set paths. art_at H repo path (view s') = None) \<and>
         view_frame (artifact_key H repo ` set paths \<union> tree_entry_key H repo ` set paths)
           (view s) (view s'))) s"
  using assms by (rule kv_store.delete_artifacts_paired_batch_spec)

theorem paired_delete_safe_witness:
  "wp (delete_artifacts_paired_batch sample_hasher mem_kv ''r'' [''a/b'', ''c''])
    (\<lambda>r s'. r = Inr () \<longrightarrow> art_at sample_hasher ''r'' ''c'' (redb_view mem_tab s') = None) (mem_store [])"
  by (rule wp_mono [OF paired_delete_safe [OF mem_lawful]]) (auto simp: mem_invar_empty)

section \<open>Scans\<close>

text \<open>
  C22: the batched partition scan returns, for every positive batch size, and a successful scan has
  given the callback exactly the entries of the partition whose sort key has the prefix, each once
  and in key order, up to the point where the callback stops it.
\<close>

theorem for_each_visits_prefix:
  assumes "kv_store kv invar view" "invar s" "pk_ok pk" "0 < batch"
  shows "wp (for_each_in_partition kv t pk p batch cb acc) (kv_read invar view s (\<lambda>a.
    scan_fold cb (entries_where (view s t pk) (\<lambda>k. starts_with k p)) acc = Inr a)) s"
  using assms by (rule kv_store.for_each_spec)

theorem for_each_visits_prefix_witness:
  "wp (for_each_in_partition mem_kv ''t'' ''r'' ''a'' 2 (\<lambda>sk v acc. Inr (True, acc @ [sk])) [])
    (\<lambda>r s'. redb_invar mem_tab s') (mem_store [])"
  by (rule wp_mono [OF for_each_visits_prefix [OF mem_lawful]]) (auto simp: mem_invar_empty kv_read_def)

text \<open>
  Draining the events of a task ends, whatever the number of batches it takes; when it reports
  success the log is empty, and it has touched no other partition.
\<close>

theorem drain_task_events_empties:
  assumes "kv_store kv invar view" "invar s" "pk_ok task_id"
  shows "wp (drain_task_events kv task_id) (\<lambda>r s'. invar s' \<and>
    view_frame {(TABLE_TASK_EVENTS, task_id, sk) | sk. True} (view s) (view s') \<and>
    (r = Inr () \<longrightarrow> event_log C task_id (view s') (\<lambda>_. None))) s"
  using assms by (rule kv_store.drain_task_events_spec)

theorem drain_task_events_empties_witness:
  "wp (drain_task_events mem_kv ''t1'') (\<lambda>r s'. r = Inr () \<longrightarrow>
    event_log sample_codecs ''t1'' (redb_view mem_tab s') (\<lambda>_. None)) (mem_store [])"
  by (rule wp_mono [OF drain_task_events_empties [OF mem_lawful]]) (auto simp: mem_invar_empty)

text \<open>
  Appending to a task's event log inserts the event under its sequence number and never
  replaces one: the answer says whether the number was free.
\<close>

theorem append_task_event_insert_only:
  assumes "kv_store kv invar view" "invar s" "pk_ok task_id" "codec_ok (cs_task_event C)"
    and "event_log C task_id (view s) log"
  shows "wp (append_task_event kv C now task_id seq message)
    (kv_write invar view s {task_event_key task_id seq} (\<lambda>ok v.
      ok = (log seq = None) \<and>
      event_log C task_id v (if ok then log(seq \<mapsto> task_event now task_id seq message) else log))) s"
  using assms by (rule kv_store.append_task_event_spec)

lemma mem_event_log_empty: "event_log C t (redb_view mem_tab (mem_store [])) (\<lambda>_. None)"
  by (simp add: event_log_def mem_view_empty)

theorem append_task_event_insert_only_witness:
  "wp (append_task_event mem_kv sample_codecs 5 ''t1'' 0 ''started'') (\<lambda>r s'. \<forall>ok. r = Inr ok \<longrightarrow> ok \<and>
    event_log sample_codecs ''t1'' (redb_view mem_tab s') [0 \<mapsto> task_event 5 ''t1'' 0 ''started'']) (mem_store [])"
  by (rule wp_mono [OF append_task_event_insert_only [OF mem_lawful]])
    (auto simp: mem_invar_empty mem_event_log_empty kv_write_def intro: mem_event_log_empty)

text \<open>
  Listing a task's events from a sequence number gives the logged events with that or a later
  number, in numeric order, at most as many as asked for; the zero-padded sort keys order like the
  numbers.
\<close>

theorem list_task_events_in_order:
  assumes "kv_store kv invar view" "invar s" "pk_ok task_id" "event_log C task_id (view s) log"
  shows "wp (list_task_events_since kv C task_id from_seq limit) (kv_read invar view s (\<lambda>evs.
    evs = map (\<lambda>n. the (log n)) (take limit (sorted_list_of_set {n. from_seq \<le> n \<and> log n \<noteq> None})))) s"
  using assms by (rule kv_store.list_task_events_since_spec)

theorem list_task_events_in_order_witness:
  "wp (list_task_events_since mem_kv sample_codecs ''t1'' 0 10) (\<lambda>r s'. \<forall>evs. r = Inr evs \<longrightarrow> evs = []) (mem_store [])"
  by (rule wp_mono [OF list_task_events_in_order [OF mem_lawful mem_invar_empty _ mem_event_log_empty]])
    (auto simp: kv_read_def)

text \<open>
  C27: a fold over all artifacts of a repository. For a callback that adds a quantity per record and
  a merge that adds the quantities of two states, the result is the total over the 256 shards,
  whatever the order in which the concurrent shard scans finish.
\<close>

theorem fold_all_artifacts_order_independent:
  assumes "kv_store kv invar view" "invar s" "pk_ok repo" "shard_order order" "adds h f g" "merges h init merge"
  shows "wp (fold_all_artifacts kv C order repo p init f merge) (kv_read invar view s (\<lambda>a.
    h a = (\<Sum>shard<NUM_SHARDS. decoded_sum (cs_artifact C) g
      (entries_where (view s TABLE_ARTIFACTS (artifact_shard_pk repo shard)) (\<lambda>k. starts_with k p))))) s"
  using assms by (rule kv_store.fold_all_artifacts_spec)

theorem fold_all_artifacts_order_independent_witness:
  "wp (fold_all_artifacts mem_kv sample_codecs [0..<NUM_SHARDS] ''r'' ''a'' (0 :: nat) (\<lambda>n _ _. Inr (n + 1)) (+))
    (\<lambda>r s'. \<forall>n. r = Inr n \<longrightarrow> n = 0) (mem_store [])"
  by (rule wp_mono [OF fold_all_artifacts_order_independent [OF mem_lawful mem_invar_empty _ shard_order_upt,
        where h = "\<lambda>n. n" and g = "\<lambda>_ _. 1"]])
    (auto simp: adds_def merges_def kv_read_def entries_where_def mem_view_empty dom_def decoded_sum_def)

section \<open>Blobs, stores and users\<close>

text \<open>
  C20: content deduplication. Whatever other tasks do between the losing insert and the read, when
  \<open>put_dedup_record\<close> succeeds the store maps the content hash to a blob, and to the very blob the
  caller is told to use: its own, or the one that was already there.
\<close>

theorem dedup_claims_hash:
  assumes "kv_store kv invar view" "invar s" "pk_ok store" "sk_ok (br_hash record)" "codec_ok (cs_blob C)"
    and "\<forall>s. invar s \<longrightarrow> invar (env s)"
  shows "wp (put_dedup_record H kv C env store record) (\<lambda>r s'. invar s' \<and>
    (\<forall>ans. r = Inr ans \<longrightarrow> hash_claimed H C store (br_hash record) (answer_id record ans) (view s'))) s"
proof -
  have env: "\<And>s. invar s \<Longrightarrow> invar (env s)" using assms(6) by blast
  show ?thesis by (rule kv_store.put_dedup_record_spec [OF assms(1-5) env])
qed

theorem dedup_claims_hash_witness:
  "wp (put_dedup_record sample_hasher mem_kv sample_codecs (\<lambda>_. mem_store []) ''default'' sample_blob)
    (\<lambda>r s'. \<forall>ans. r = Inr ans \<longrightarrow>
      hash_claimed sample_hasher sample_codecs ''default'' ''h1'' (answer_id sample_blob ans) (redb_view mem_tab s'))
    (mem_store [])"
  using dedup_claims_hash [OF mem_lawful mem_invar_empty, of "''default''" sample_blob sample_codecs
      "\<lambda>_. mem_store []" sample_hasher]
  by (auto simp: mem_invar_empty sample_blob_def elim!: wp_mono)

text \<open>
  The counted claim credits a store exactly for the blobs it newly records: without
  interference, the counters' channel receives one blob and its size when the hash was new, and
  nothing when the content was already there.
\<close>

theorem counted_claim_credits_once:
  fixes w :: "('s, 'b) world"
  assumes "kv_store kv invar view" "invar (w_kv w)" "pk_ok store" "sk_ok (br_hash record)"
    and "codec_ok (cs_blob C)" "w_open w"
  shows "wp (put_dedup_record_counted H kv C (\<lambda>s. s) store record) (\<lambda>r w'. invar (w_kv w') \<and>
    w_blobs w' = w_blobs w \<and>
    (case r of Inl _ \<Rightarrow> w_store w' = w_store w
     | Inr ans \<Rightarrow> hash_claimed H C store (br_hash record) (answer_id record ans) (view (w_kv w')) \<and>
        w_store w' = w_store w @ (if blob_at H store (br_hash record) (view (w_kv w)) = None
          then [\<lparr>sd_store = store, sd_count_delta = 1, sd_bytes_delta = br_size record\<rparr>] else []))) w"
  using assms by (rule kv_store.put_dedup_record_counted_spec)

definition sample_world :: "(mem_db redb_store, unit) world" where
  "sample_world = \<lparr>w_kv = mem_store [], w_blobs = (), w_open = True, w_atime_capacity = 1,
     w_dir = [], w_store = [], w_atime = []\<rparr>"

theorem counted_claim_credits_once_witness:
  "wp (put_dedup_record_counted sample_hasher mem_kv sample_codecs (\<lambda>s. s) ''default'' sample_blob)
    (\<lambda>r w'. \<forall>ans. r = Inr ans \<longrightarrow>
      w_store w' = [\<lparr>sd_store = ''default'', sd_count_delta = 1, sd_bytes_delta = 7\<rparr>]) sample_world"
  using counted_claim_credits_once [OF mem_lawful, of sample_world "''default''" sample_blob sample_codecs sample_hasher]
  by (auto simp: mem_invar_empty mem_view_empty sample_blob_def sample_world_def elim!: wp_mono split: sum.splits)

text \<open>
  C21: recomputing the store counters gives, for every listed store, the number and the total size
  of the blob records that name it, counted once each over all shards of all stores; the counters are
  stored and nothing else changes, whatever the order in which the concurrent scans finish.
\<close>

theorem reconcile_counts_blobs:
  assumes "kv_store kv invar view" "invar s" "\<forall>xs. mset (perm xs) = mset xs"
    and "\<forall>stores r. stored_stores C (view s) = Inr stores \<longrightarrow> r \<in> set stores \<longrightarrow>
      pk_ok (st_name r) \<and> sk_ok (st_name r)"
  shows "wp (reconcile_store_stats kv C perm now) (\<lambda>r s'. invar s' \<and>
    (\<forall>out. r = Inr out \<longrightarrow> (\<exists>stores. stored_stores C (view s) = Inr stores \<and>
      out = map (\<lambda>st. (st_name st, counted_stats C (view s) now stores (st_name st))) stores \<and>
      view_frame (store_stats_key ` st_name ` set stores) (view s) (view s') \<and>
      (\<forall>st \<in> set stores. stats_written C (view s') (st_name st)
         (counted_stats C (view s) now stores (st_name st)))))) s"
  by (rule kv_store.reconcile_store_stats_spec [OF assms(1,2)]) (use assms(3,4) in blast)+

theorem reconcile_counts_blobs_witness:
  "wp (reconcile_store_stats mem_kv sample_codecs rev 9) (\<lambda>r s'. \<forall>out. r = Inr out \<longrightarrow> out = []) (mem_store [])"
  by (rule wp_mono [OF reconcile_counts_blobs [OF mem_lawful mem_invar_empty]])
    (auto simp: stored_stores_def entries_where_def mem_view_empty dom_def)

text \<open>
  Resolving a user never invents rights: the roles returned are records stored under names the
  user record lists; a listed role that does not exist is left out.
\<close>

theorem user_roles_are_granted:
  assumes "kv_store kv invar view" "invar s"
  shows "wp (get_user_with_roles kv C username) (kv_read invar view s (\<lambda>r. case r of
      None \<Rightarrow> view s TABLE_USERS SINGLE_PK username = None
    | Some (user, roles) \<Rightarrow> stored (cs_user C) (view s TABLE_USERS SINGLE_PK username) (Some user) \<and>
        (\<forall>role \<in> set roles. \<exists>name \<in> set (ur_roles user).
          stored (cs_role C) (view s TABLE_ROLES SINGLE_PK name) (Some role)))) s"
  using assms by (rule kv_store.get_user_with_roles_spec)

theorem user_roles_are_granted_witness:
  "wp (get_user_with_roles mem_kv sample_codecs ''alice'') (\<lambda>r s'. \<forall>u. r = Inr u \<longrightarrow> u = None) (mem_store [])"
proof (rule wp_mono [OF user_roles_are_granted [OF mem_lawful mem_invar_empty]], goal_cases)
  case (1 r s')
  then show ?case by (cases r) (auto simp: mem_view_empty split: option.split_asm)
qed

section \<open>Repositories and directories\<close>

text \<open>
  C29: cloning a repository. A successful clone has stored the configuration under the new name, copied
  every artifact of all 256 shards byte for byte and counted them, and copied the directory entries
  of every shard whose copy was not cancelled; a clone onto an existing name changes nothing; whatever
  happens, only keys of the new repository are touched.
\<close>

theorem clone_repo_complete:
  assumes "kv_store kv invar view" "invar s" "pk_ok (rp_name source)" "pk_ok new_name" "sk_ok new_name"
    and "rp_name source \<noteq> new_name" "shard_order order1" "shard_order order2" "\<forall>i. cancelled1 i \<longrightarrow> cancelled"
  shows "wp (clone_repo kv C now order1 order2 cancelled1 cancelled cancelled2 progress source new_name total_artifacts)
    (\<lambda>r s'. invar s' \<and> view_frame (repo_keys new_name) (view s) (view s') \<and>
      (\<forall>res prog. r = Inr (res, prog) \<longrightarrow> (case res of
         None \<Rightarrow> view s TABLE_REPOS SINGLE_PK new_name \<noteq> None \<and> view s' = view s
       | Some stats \<Rightarrow> view s TABLE_REPOS SINGLE_PK new_name = None \<and> \<not> cancelled \<and>
           repo_cloned C now cancelled2 source new_name stats (view s) (view s')))) s"
  by (rule kv_store.clone_repo_spec [OF assms(1-8)]) (use assms(9) in blast)

definition sample_repo :: repo_config where
  "sample_repo = \<lparr>rp_schema_version = 5, rp_name = ''r'', rp_kind = Proxy [''r'', ''h''] None,
     rp_format_config = RawConfig None, rp_store = ''default'', rp_created_at = 1,
     rp_cleanup_max_unaccessed_days = None, rp_cleanup_max_age_days = None, rp_deleting = False\<rparr>"

theorem clone_repo_complete_witness:
  "wp (clone_repo mem_kv sample_codecs 9 [0..<NUM_SHARDS] [0..<NUM_SHARDS] (\<lambda>_. False) False (\<lambda>_. False)
      None sample_repo ''t1'' 0)
    (\<lambda>r s'. \<forall>res prog. r = Inr (res, prog) \<longrightarrow> res \<noteq> None) (mem_store [])"
  by (rule wp_mono [OF clone_repo_complete [OF mem_lawful mem_invar_empty]])
    (auto simp: sample_repo_def mem_view_empty sk_ok_def shard_order_upt split: option.split_asm)

text \<open>
  C30: emptying a repository marked for deletion ends, whatever its size; on success every artifact,
  every directory entry and the configuration are gone, and no key of another repository was touched.
\<close>

theorem drain_deleting_repo_empties:
  assumes "kv_store kv invar view" "invar s" "pk_ok name" "shard_order order1" "shard_order order2"
  shows "wp (drain_deleting_repo kv order1 order2 name) (\<lambda>r s'. invar s' \<and>
    view_frame (repo_keys name) (view s) (view s') \<and>
    (r = Inr () \<longrightarrow> view s' TABLE_REPOS SINGLE_PK name = None \<and> (\<forall>shard < NUM_SHARDS. \<forall>sk.
      view s' TABLE_ARTIFACTS (artifact_shard_pk name shard) sk = None \<and>
      view s' TABLE_DIR_ENTRIES (tree_shard_pk name shard) sk = None))) s"
  using assms by (rule kv_store.drain_deleting_repo_spec)

theorem drain_deleting_repo_empties_witness:
  "wp (drain_deleting_repo mem_kv [0..<NUM_SHARDS] [0..<NUM_SHARDS] ''r'')
    (\<lambda>r s'. r = Inr () \<longrightarrow> redb_view mem_tab s' TABLE_REPOS SINGLE_PK ''r'' = None) (mem_store [])"
  by (rule wp_mono [OF drain_deleting_repo_empties [OF mem_lawful mem_invar_empty]])
    (auto simp: shard_order_upt)








text \<open>
  Deleting a repository marks it: the stored configuration is kept but for the mark, a second
  delete changes nothing, and a missing repository is reported.
\<close>

theorem delete_repo_marks:
  assumes "kv_store kv invar view" "invar s" "sk_ok name"
  shows "wp (delete_repo kv C (\<lambda>_ s. s) name) (kv_write invar view s {repo_key name} (\<lambda>ok v.
    case view s TABLE_REPOS SINGLE_PK name of
      None \<Rightarrow> \<not> ok \<and> v = view s
    | Some (b, n) \<Rightarrow> ok \<and> (\<exists>config. decode (cs_repo C) b = Inr config \<and>
        (if rp_deleting config then v = view s
         else \<exists>b'. encode (cs_repo C) (config\<lparr>rp_deleting := True\<rparr>) = Inr b' \<and>
           v = view_put (view s) TABLE_REPOS SINGLE_PK name b')))) s"
  using assms by (rule kv_store.delete_repo_spec)

theorem delete_repo_marks_witness:
  "wp (delete_repo mem_kv sample_codecs (\<lambda>_ s. s) ''a/b'') (\<lambda>r s'. \<forall>ok. r = Inr ok \<longrightarrow> \<not> ok) (mem_store [])"
  by (rule wp_mono [OF delete_repo_marks [OF mem_lawful mem_invar_empty]]) (auto simp: mem_view_empty kv_write_def)

text \<open>
  C31: the statistics of a proxy. The recursion over its members ends also on cyclic proxies, and
  adds the counters of every repository reachable through membership exactly once, modulo \<open>2 ^ 64\<close>.
\<close>

theorem proxy_stats_count_once:
  assumes "kv_store kv invar view" "invar s" "\<forall>n. view s TABLE_REPOS SINGLE_PK n \<noteq> None \<longrightarrow> pk_ok n"
    and "rp_kind config = Proxy members w"
  shows "wp (get_repo_stats H kv C config) (kv_read invar view s (\<lambda>stats.
    finite (proxy_reach C (view s) members) \<and>
    rs_artifact_count stats = leaf_sum H C (view s) de_artifact_count (proxy_reach C (view s) members) \<and>
    rs_total_bytes stats = leaf_sum H C (view s) de_total_bytes (proxy_reach C (view s) members))) s"
  by (rule kv_store.get_repo_stats_spec [OF assms(1,2) _ assms(4)]) (use assms(3) in blast)

theorem proxy_stats_count_once_witness:
  "wp (get_repo_stats sample_hasher mem_kv sample_codecs sample_repo) (\<lambda>r s'.
    \<forall>stats. r = Inr stats \<longrightarrow> rs_artifact_count stats = 0) (mem_store [])"
  by (rule wp_mono [OF proxy_stats_count_once [OF mem_lawful mem_invar_empty, where members = "[''r'', ''h'']"]])
    (auto simp: mem_view_empty sample_repo_def kv_read_def leaf_sum_def leaf_dir_def repo_at_def)

text \<open>
  Listing a directory returns its entries and no others: the stored entries whose key has the
  directory's children prefix, split into directories and files, each sorted by name.
\<close>

theorem list_children_complete:
  assumes "kv_store kv invar view" "invar s" "pk_ok repo"
  shows "wp (list_children H kv C repo prefix) (kv_read invar view s (\<lambda>(dirs, files). \<exists>tes.
    let dir = trim_end_matches CHR ''/'' prefix;
        items = entries_where (view s TABLE_DIR_ENTRIES (tree_children_pk H repo dir))
          (\<lambda>k. starts_with k (tree_children_sk_prefix dir))
    in decode_all (cs_tree C) items = Inr tes \<and>
      dirs = sort_key fst (child_dirs items tes) \<and> files = sort_key fst (child_files items tes))) s"
  using kv_store.list_children_spec [OF assms] by (simp add: Let_def)

theorem list_children_complete_witness:
  "wp (list_children sample_hasher mem_kv sample_codecs ''r'' ''a/'') (\<lambda>r s'. redb_invar mem_tab s') (mem_store [])"
  by (rule wp_mono [OF list_children_complete [OF mem_lawful mem_invar_empty]]) (auto simp: kv_read_def split: sum.splits)

section \<open>Listings\<close>

text \<open>
  C28: paging through the artifacts of a repository, for a limit of at least one. A page holds the
  first \<open>limit\<close> records, in path order over all shards, of those under the prefix and after the
  cursor; the cursor it returns is absent exactly when nothing is left, and with it the next request
  lists exactly what this page left over: nothing is skipped and nothing is listed twice. Every
  artifact lies in the shard of its path, as the writes leave it, and Base64 and UTF-8 decoding
  recover the stored paths. (The API also accepts a limit of zero, for which the cursor of the empty
  page makes the next one skip a record.)
\<close>

theorem list_artifacts_pages:
  assumes "kv_store kv invar view" "invar s" "pk_ok repo" "0 < pg_limit pg" "well_sharded H (view s) repo"
    and "\<forall>shard k. view s TABLE_ARTIFACTS (artifact_shard_pk repo shard) k \<noteq> None \<longrightarrow>
      tx_b64_decode T (tx_b64_encode T k) = Some k \<and> tx_utf8_lossy T k = k"
  shows "wp (list_artifacts T kv C repo prefix pg) (kv_read invar view s (\<lambda>pr.
    let A = drop (if pg_cursor pg \<noteq> None then 0 else pg_offset pg) (listing (view s) repo
          (\<lambda>k. starts_with k prefix \<and> past_cursor (decode_cursor T (pg_cursor pg)) k))
    in is_page T (cs_artifact C) A (pg_limit pg) pr \<and> sorted_wrt (<) (map fst A) \<and>
      (\<forall>nc. pr_next_cursor pr = Some nc \<longrightarrow> listing (view s) repo
          (\<lambda>k. starts_with k prefix \<and> past_cursor (decode_cursor T (Some nc)) k) = drop (pg_limit pg) A))) s"
proof (rule wp_mono [OF kv_store.list_artifacts_spec [OF assms(1-4) refl]], goal_cases)
  case (1 r s')
  show ?case
  proof (cases r)
    case (Inr pr)
    let ?skip = "if pg_cursor pg \<noteq> None then 0 else pg_offset pg"
    have fin: "finite (dom (view s TABLE_ARTIFACTS (artifact_shard_pk repo shard)))" for shard
      by (rule kv_store.view_finite [OF assms(1,2)])
    have page: "is_page T (cs_artifact C) (drop ?skip (listing (view s) repo
        (\<lambda>k. starts_with k prefix \<and> past_cursor (decode_cursor T (pg_cursor pg)) k))) (pg_limit pg) pr"
      using 1 Inr by simp
    have "listing (view s) repo (\<lambda>k. starts_with k prefix \<and> past_cursor (decode_cursor T (Some nc)) k) =
        drop (pg_limit pg) (drop ?skip (listing (view s) repo
          (\<lambda>k. starts_with k prefix \<and> past_cursor (decode_cursor T (pg_cursor pg)) k)))"
      if "pr_next_cursor pr = Some nc" for nc
      unfolding drop_drop add.commute [of "pg_limit pg"]
      by (rule next_page [OF page assms(4) that assms(5) fin]) (use assms(6) in blast)+
    moreover have "sorted_wrt (<) (map fst (drop n (listing (view s) repo P)))" for n P
      unfolding drop_map [symmetric] by (rule sorted_wrt_drop [OF sorted_listing [OF assms(5) fin]])
    ultimately show ?thesis using 1 page Inr by (simp add: Let_def)
  qed (use 1 in simp)
qed

definition sample_text :: text_ops where
  "sample_text = \<lparr>tx_lower = (\<lambda>s. s), tx_b64_encode = (\<lambda>s. s), tx_b64_decode = Some, tx_utf8_lossy = (\<lambda>s. s)\<rparr>"

definition sample_page :: pagination where
  "sample_page = \<lparr>pg_cursor = None, pg_offset = 0, pg_limit = 10\<rparr>"

lemma mem_listing_empty: "listing (redb_view mem_tab (mem_store [])) repo P = []"
proof -
  have "x \<notin> set (listing (redb_view mem_tab (mem_store [])) repo P)" for x
    by (cases x) (simp add: set_listing dom_def mem_view_empty)
  then show ?thesis by (metis list.set_intros(1) neq_Nil_conv)
qed

text \<open>Two artifacts, one to a page.\<close>

definition sample_pair :: "mem_db redb_store" where
  "sample_pair = mem_of [(TABLE_ARTIFACTS, sharded_pk sample_hasher ''r'' ''a/b'', ''a/b'', ''A''),
     (TABLE_ARTIFACTS, sharded_pk sample_hasher ''r'' ''a/c'', ''a/c'', ''A'')]"

lemma sample_pair_ok:
  "redb_invar mem_tab sample_pair"
  "redb_view mem_tab sample_pair TABLE_ARTIFACTS (artifact_shard_pk ''r'' shard) k =
    (if k \<in> {''a/b'', ''a/c''} \<and> shard = shard_of sample_hasher k then Some (''A'', 1) else None)"
proof -
  have ok: "\<forall>(t, pk, sk, b) \<in> set [(TABLE_ARTIFACTS, sharded_pk sample_hasher ''r'' ''a/b'', ''a/b'', ''A''),
     (TABLE_ARTIFACTS, sharded_pk sample_hasher ''r'' ''a/c'', ''a/c'', ''A'')]. pk_ok pk \<and> sk_ok sk"
    by (simp add: sk_ok_def)
  show "redb_invar mem_tab sample_pair" using mem_of_ok(1) [OF ok] by (simp add: sample_pair_def)
  show "redb_view mem_tab sample_pair TABLE_ARTIFACTS (artifact_shard_pk ''r'' shard) k =
      (if k \<in> {''a/b'', ''a/c''} \<and> shard = shard_of sample_hasher k then Some (''A'', 1) else None)"
    unfolding sample_pair_def mem_of_ok(2) [OF ok] by (auto simp: entry_at_def sharded_pk_def artifact_shard_pk_def)
qed

lemma sample_pair_sharded: "well_sharded sample_hasher (redb_view mem_tab sample_pair) ''r''"
  by (simp add: well_sharded_def sample_pair_ok(2))

lemma sample_pair_listing:
  "listing (redb_view mem_tab sample_pair) ''r'' (\<lambda>k. starts_with k ''a'') = [(''a/b'', ''A''), (''a/c'', ''A'')]"
proof (rule strict_sorted_assoc_eq)
  have fin: "finite (dom (redb_view mem_tab sample_pair TABLE_ARTIFACTS (artifact_shard_pk ''r'' shard)))" for shard
    by (rule kv_store.view_finite [OF mem_lawful sample_pair_ok(1)])
  show "sorted_wrt (<) (map fst (listing (redb_view mem_tab sample_pair) ''r'' (\<lambda>k. starts_with k ''a'')))"
    by (rule sorted_listing [OF sample_pair_sharded]) (rule fin)
  have lt: "shard_of sample_hasher k < NUM_SHARDS" for k by (simp add: NUM_SHARDS_def)
  have "(k, b) \<in> set (listing (redb_view mem_tab sample_pair) ''r'' (\<lambda>k. starts_with k ''a'')) \<longleftrightarrow>
      (k, b) \<in> {(''a/b'', ''A''), (''a/c'', ''A'')}" for k b
  proof -
    have "(k, b) \<in> set (listing (redb_view mem_tab sample_pair) ''r'' (\<lambda>k. starts_with k ''a'')) \<longleftrightarrow>
        (\<exists>shard < NUM_SHARDS. starts_with k ''a'' \<and> (\<exists>n. redb_view mem_tab sample_pair TABLE_ARTIFACTS (artifact_shard_pk ''r'' shard) k = Some (b, n)))"
      by (subst set_listing) (auto intro: fin)
    then show ?thesis unfolding sample_pair_ok(2) using lt by (auto simp: starts_with_def)
  qed
  then show "set (listing (redb_view mem_tab sample_pair) ''r'' (\<lambda>k. starts_with k ''a'')) = set [(''a/b'', ''A''), (''a/c'', ''A'')]"
    by (intro set_eqI) (metis list.simps(15) prod.collapse set_empty2)
qed simp

theorem list_artifacts_pages_witness:
  "wp (list_artifacts sample_text mem_kv sample_codecs ''r'' ''a'' (sample_page\<lparr>pg_limit := 1\<rparr>)) (\<lambda>r s'.
    \<forall>pr. r = Inr pr \<longrightarrow> pr_next_cursor pr = Some ''a/b'' \<and> map fst (pr_items pr) = [''a/b''] \<and>
      map fst (listing (redb_view mem_tab sample_pair) ''r'' (\<lambda>k. starts_with k ''a'' \<and> ''a/b'' < k)) = [''a/c'']) sample_pair"
proof (rule wp_mono [OF list_artifacts_pages [OF mem_lawful sample_pair_ok(1) _ _ sample_pair_sharded]], goal_cases)
  case (4 r s')
  show ?case
  proof (intro allI impI)
    fix pr assume "r = Inr pr"
    with 4 have page: "is_page sample_text (cs_artifact sample_codecs) [(''a/b'', ''A''), (''a/c'', ''A'')] 1 pr"
      and left: "pr_next_cursor pr = Some nc \<Longrightarrow> listing (redb_view mem_tab sample_pair) ''r''
          (\<lambda>k. starts_with k ''a'' \<and> past_cursor (decode_cursor sample_text (Some nc)) k) = [(''a/c'', ''A'')]" for nc
      by (simp_all add: Let_def sample_page_def past_cursor_def decode_cursor_def sample_pair_listing)
    have nc: "pr_next_cursor pr = Some ''a/b''" using page by (simp add: is_page_def sample_text_def)
    have "map fst (pr_items pr) = [''a/b'']"
      using page by (auto simp: is_page_def decoded_page_def list_all2_Cons1)
    with nc left [OF nc] show "pr_next_cursor pr = Some ''a/b'' \<and> map fst (pr_items pr) = [''a/b''] \<and>
        map fst (listing (redb_view mem_tab sample_pair) ''r'' (\<lambda>k. starts_with k ''a'' \<and> ''a/b'' < k)) = [''a/c'']"
      by (simp add: past_cursor_def decode_cursor_def sample_text_def)
  qed
qed (simp_all add: sample_page_def sample_pair_ok(2) sample_text_def)

text \<open>
  Searching the artifacts of a repository pages through the records whose lower-cased path
  contains the lower-cased query, in path order over all shards, \<open>limit\<close> at a time.
\<close>

theorem search_artifacts_finds:
  assumes "kv_store kv invar view" "invar s" "pk_ok repo" "0 < pg_limit pg"
  shows "wp (search_artifacts T kv C repo query pg) (kv_read invar view s (
    is_page T (cs_artifact C) (drop (if pg_cursor pg \<noteq> None then 0 else pg_offset pg)
      (listing (view s) repo (\<lambda>k. query_matches T query k \<and> past_cursor (decode_cursor T (pg_cursor pg)) k)))
      (pg_limit pg))) s"
  using assms by (rule kv_store.search_artifacts_spec) simp

theorem search_artifacts_finds_witness:
  "wp (search_artifacts sample_text mem_kv sample_codecs ''r'' ''b'' sample_page) (\<lambda>r s'.
    \<forall>pr. r = Inr pr \<longrightarrow> pr_items pr = []) (mem_store [])"
  by (rule wp_mono [OF search_artifacts_finds [OF mem_lawful mem_invar_empty]])
    (auto simp: sample_page_def mem_listing_empty is_page_def kv_read_def)

section \<open>Wrappers, leases, deduplication and access\<close>

text \<open>
  C33: the store the server builds at start. Over any lawful backend it runs metrics and, when a
  server secret is configured, encryption over the metrics. Both stacks keep the \<open>KvStore\<close> contract: what
  a client of the encrypted store reads is the plaintext that was written, and versions, conditional
  writes, batches and scans are those of the backend, provided decryption inverts encryption and
  nonces have 12 bytes; without a secret the contents are those of the backend as they are.
\<close>

theorem encrypted_implements_kv_store:
  assumes "kv_store kv invar view" "cipher_ok E"
  shows "kv_store (encrypted_kv E (instrumented_kv kv)) (\<lambda>x. invar (fst (snd x))) (\<lambda>x. dec_view E (view (fst (snd x)))) \<and>
    kv_store (instrumented_kv kv) (\<lambda>x. invar (fst x)) (\<lambda>x. view (fst x))"
  using kv_store.encrypted_kv_lawful [OF kv_store.instrumented_kv_lawful [OF assms(1)] assms(2)]
    kv_store.instrumented_kv_lawful [OF assms(1)] by blast

definition sample_cipher :: cipher where
  "sample_cipher = \<lparr>ci_encrypt = (\<lambda>n p. Some (rev p)), ci_decrypt = (\<lambda>n c. Some (rev c)),
     ci_nonce = (\<lambda>i. replicate 12 CHR ''n'')\<rparr>"

theorem encrypted_implements_kv_store_witness:
  "kv_store (encrypted_kv sample_cipher (instrumented_kv mem_kv)) (\<lambda>x. redb_invar mem_tab (fst (snd x)))
    (\<lambda>x. dec_view sample_cipher (redb_view mem_tab (fst (snd x))))"
  by (rule conjunct1 [OF encrypted_implements_kv_store [OF mem_lawful]]) (simp add: cipher_ok_def sample_cipher_def)

text \<open>
  C34: leases exclude each other. However the two halves of \<^verbatim>\<open>try_acquire_lease\<close> (up to its
  conditional write, and that write) of any number of instances interleave, with each other, with
  releases, with crashes, with other writes to the store and with time passing, at no moment do two
  instances hold an unexpired lease. An instance holds the lease when its last call answered yes and
  it has not released since. This is under three conditions: a release runs while no acquisition is
  between its halves (without it the guarantee is lost, see \<open>lease_release_breaks_exclusion\<close> below); a
  write that reports an error has been made or not at all; versions do not wrap around.
\<close>

theorem lease_mutual_exclusion:
  assumes "kv_store kv invar view" "invar s" "codec_ok (cs_lease C)" "sk_ok name"
    and "(lease_step False kv invar view C name)\<^sup>*\<^sup>* (lease_init s now) L" "holds_lease L i" "holds_lease L j"
  shows "i = j"
  by (rule kv_store.lease_exclusive [OF assms(1,5,2,3,4,6,7)])

definition sample_lease_codecs :: codecs where
  "sample_lease_codecs = sample_codecs\<lparr>cs_lease := table_codec
     [(lease_of ''x'' 0 1, ''X''), (lease_of ''b'' 2000000000 9, ''B''), (lease_of ''d'' 2000000000 9, ''D'')]\<rparr>"

abbreviation mem_lease :: "bytes \<Rightarrow> u64 \<Rightarrow> mem_db redb_store" where
  "mem_lease b n \<equiv> mem_store [((TABLE_LEASES, flat_key SINGLE_PK ''gc''), wrap_envelope n b)]"

lemma mem_read_ops [simp]:
  "rd_begin_read mem_redb = (\<lambda>d. Inr d)" "rd_open_read mem_redb = (\<lambda>d t. Inr ())"
  by (simp_all add: mem_redb_def)

lemma mem_lease_ops:
  "redb_get_versioned mem_redb TABLE_LEASES SINGLE_PK ''gc'' (mem_store []) = Some (Inr None, mem_store [])"
  "redb_get_versioned mem_redb TABLE_LEASES SINGLE_PK ''gc'' (mem_lease b n) = Some (Inr (Some (b, n)), mem_lease b n)"
  "redb_put_if_version mem_redb TABLE_LEASES SINGLE_PK ''gc'' b None (mem_store []) = Some (Inr True, mem_lease b 1)"
  "redb_put_if_version mem_redb TABLE_LEASES SINGLE_PK ''gc'' b' (Some n) (mem_lease b n) = Some (Inr True, mem_lease b' (n + 1))"
  "redb_delete mem_redb TABLE_LEASES SINGLE_PK ''gc'' (mem_lease b n) = Some (Inr True, mem_store [])"
  by (simp_all add: redb_get_versioned_def redb_read_def mem_store_def
    redb_put_if_version_def redb_delete_def send_write_def execute_batch_def with_table_def put_if_version_one_def
    delete_one_def map_err_def Let_def)

lemma sample_lease_codec: "codec_ok (cs_lease sample_lease_codecs)"
  by (simp add: sample_lease_codecs_def codec_ok_table)

lemma sample_lease_codes [simp]:
  "encode (cs_lease sample_lease_codecs) (lease_of ''x'' 0 1) = Inr ''X''"
  "encode (cs_lease sample_lease_codecs) (lease_of ''b'' 2000000000 9) = Inr ''B''"
  "encode (cs_lease sample_lease_codecs) (lease_of ''d'' 2000000000 9) = Inr ''D''"
  "decode (cs_lease sample_lease_codecs) ''X'' = Inr (lease_of ''x'' 0 1)"
  by (simp_all add: sample_lease_codecs_def encode_def decode_def serde_def table_codec_def Let_def)

lemma sample_lease_calls:
  "lease_read mem_kv sample_lease_codecs 0 ''gc'' ''x'' 1 (mem_store []) = Some (Inr (Some (''X'', None)), mem_store [])"
  "lease_read mem_kv sample_lease_codecs 2000000000 ''gc'' ''d'' 9 (mem_store []) = Some (Inr (Some (''D'', None)), mem_store [])"
  "lease_read mem_kv sample_lease_codecs 2000000000 ''gc'' ''b'' 9 (mem_lease ''X'' 1) =
    Some (Inr (Some (''B'', Some 1)), mem_lease ''X'' 1)"
  "lease_write mem_kv ''gc'' (''X'', None) (mem_store []) = Some (Inr True, mem_lease ''X'' 1)"
  "lease_write mem_kv ''gc'' (''D'', None) (mem_store []) = Some (Inr True, mem_lease ''D'' 1)"
  "lease_write mem_kv ''gc'' (''B'', Some 1) (mem_lease ''D'' 1) = Some (Inr True, mem_lease ''B'' 2)"
  "release_lease mem_kv sample_lease_codecs (\<lambda>_ s. s) ''gc'' ''x'' (mem_lease ''X'' 1) = Some (Inr True, mem_store [])"
  by (simp_all add: lease_read_def lease_write_def release_lease_def lease_key_def io_bind_def io_return_def
    io_of_result_def interfere_def redb_kv_def default_put_if_absent_def mem_lease_ops lease_expired_def seconds_def)

abbreviation sample_lease_step :: "bool \<Rightarrow> mem_db redb_store lease_sys \<Rightarrow> mem_db redb_store lease_sys \<Rightarrow> bool" where
  "sample_lease_step overlap \<equiv> lease_step overlap mem_kv (redb_invar mem_tab) (redb_view mem_tab) sample_lease_codecs ''gc''"

abbreviation lease_sys_of ::
    "'s \<Rightarrow> datetime \<Rightarrow> (string \<Rightarrow> (datetime \<times> u64 \<times> bytes \<times> u64 option) option) \<Rightarrow> (string \<Rightarrow> lease_record option) \<Rightarrow> 's lease_sys" where
  "lease_sys_of s now p h \<equiv> \<lparr>ls_store = s, ls_now = now, ls_pending = p, ls_held = h\<rparr>"

lemma sample_lease_first:
  "(sample_lease_step overlap)\<^sup>*\<^sup>* (lease_init (mem_store []) 0)
     (lease_sys_of (mem_lease ''X'' 1) 0 (\<lambda>_. None) ((\<lambda>_. None)(''x'' \<mapsto> lease_of ''x'' 0 1)))"
proof -
  let ?n = "\<lambda>_. None"
  have 1: "sample_lease_step overlap (lease_init (mem_store []) 0) (lease_sys_of (mem_store []) 0 (?n(''x'' \<mapsto> (0, 1, ''X'', None))) ?n)"
    using acquire_read [of "lease_init (mem_store []) 0" "''x''" 0 mem_kv sample_lease_codecs "''gc''" 1 "Inr (Some (''X'', None))" "mem_store []"]
    by (simp add: lease_init_def after_read_def sample_lease_calls)
  have 2: "sample_lease_step overlap (lease_sys_of (mem_store []) 0 (?n(''x'' \<mapsto> (0, 1, ''X'', None))) ?n)
      (lease_sys_of (mem_lease ''X'' 1) 0 ?n (?n(''x'' \<mapsto> lease_of ''x'' 0 1)))"
    using acquire_write [of "lease_sys_of (mem_store []) 0 (?n(''x'' \<mapsto> (0, 1, ''X'', None))) ?n" "''x''" 0 1 "''X''" None mem_kv "''gc''"
        "Inr True" "mem_lease ''X'' 1"]
    by (simp add: after_write_def sample_lease_calls fun_upd_idem)
  show ?thesis using 1 2 by (meson rtranclp.rtrancl_into_rtrancl rtranclp.rtrancl_refl)
qed

theorem lease_mutual_exclusion_witness:
  "\<exists>L. (sample_lease_step False)\<^sup>*\<^sup>* (lease_init (mem_store []) 0) L \<and> holds_lease L ''x'' \<and>
    (\<forall>j. holds_lease L j \<longrightarrow> j = ''x'')"
proof -
  let ?L = "lease_sys_of (mem_lease ''X'' 1) 0 (\<lambda>_. None) ((\<lambda>_. None)(''x'' \<mapsto> lease_of ''x'' 0 1))"
  have "holds_lease ?L ''x''" by (simp add: holds_lease_def lease_expired_def seconds_def)
  moreover have "sk_ok ''gc''" by (simp add: sk_ok_def)
  ultimately show ?thesis
    using lease_mutual_exclusion [OF mem_lawful mem_invar_empty sample_lease_codec _ sample_lease_first]
      sample_lease_first by blast
qed

text \<open>
  A release between the halves of an acquisition breaks the exclusion. The lease of \<open>x\<close> has expired
  and \<open>b\<close> has read it with version 1; \<open>x\<close> releases, \<open>d\<close> creates the lease anew, again with version 1,
  and the write of \<open>b\<close> succeeds: both hold it.
\<close>

lemma lease_release_breaks_exclusion:
  "\<exists>L. (sample_lease_step True)\<^sup>*\<^sup>* (lease_init (mem_store []) 0) L \<and> holds_lease L ''b'' \<and> holds_lease L ''d''"
proof -
  let ?n = "\<lambda>_. None" and ?t = "2000000000 :: int" and ?pb = "(2000000000 :: int, 9 :: u64, ''B'', Some (1 :: u64))"
  let ?x = "(\<lambda>_. None)(''x'' \<mapsto> lease_of ''x'' 0 1)"
  have 0: "sample_lease_step True (lease_sys_of (mem_lease ''X'' 1) 0 ?n ?x)
      (lease_sys_of (mem_lease ''X'' 1) ?t ?n ?x)"
    using tick [of 2000000000 True mem_kv "redb_invar mem_tab" "redb_view mem_tab" sample_lease_codecs "''gc''"
        "lease_sys_of (mem_lease ''X'' 1) 0 ?n ?x"] by simp
  have 1: "sample_lease_step True (lease_sys_of (mem_lease ''X'' 1) ?t ?n ?x) (lease_sys_of (mem_lease ''X'' 1) ?t (?n(''b'' \<mapsto> ?pb)) ?x)"
    using acquire_read [of "lease_sys_of (mem_lease ''X'' 1) ?t ?n ?x" "''b''" ?t mem_kv sample_lease_codecs "''gc''" 9 "Inr (Some (''B'', Some 1))" "mem_lease ''X'' 1"]
    by (simp add: after_read_def sample_lease_calls)
  have 2: "sample_lease_step True (lease_sys_of (mem_lease ''X'' 1) ?t (?n(''b'' \<mapsto> ?pb)) ?x) (lease_sys_of (mem_store []) ?t (?n(''b'' \<mapsto> ?pb)) ?n)"
    using release [of True "lease_sys_of (mem_lease ''X'' 1) ?t (?n(''b'' \<mapsto> ?pb)) ?x" mem_kv sample_lease_codecs "''gc''" "''x''"]
    by (simp add: after_release_def sample_lease_calls fun_upd_idem)
  have 3: "sample_lease_step True (lease_sys_of (mem_store []) ?t (?n(''b'' \<mapsto> ?pb)) ?n)
      (lease_sys_of (mem_store []) ?t (?n(''b'' \<mapsto> ?pb, ''d'' \<mapsto> (?t, 9, ''D'', None))) ?n)"
    using acquire_read [of "lease_sys_of (mem_store []) ?t (?n(''b'' \<mapsto> ?pb)) ?n" "''d''" ?t mem_kv sample_lease_codecs "''gc''" 9 "Inr (Some (''D'', None))" "mem_store []"]
    by (simp add: after_read_def fun_upd_idem sample_lease_calls)
  have 4: "sample_lease_step True (lease_sys_of (mem_store []) ?t (?n(''b'' \<mapsto> ?pb, ''d'' \<mapsto> (?t, 9, ''D'', None))) ?n)
      (lease_sys_of (mem_lease ''D'' 1) ?t (?n(''b'' \<mapsto> ?pb)) (?n(''d'' \<mapsto> lease_of ''d'' ?t 9)))"
    using acquire_write [of "lease_sys_of (mem_store []) ?t (?n(''b'' \<mapsto> ?pb, ''d'' \<mapsto> (?t, 9, ''D'', None))) ?n" "''d''" ?t 9 "''D''" None mem_kv "''gc''"
        "Inr True" "mem_lease ''D'' 1"]
    by (simp add: after_write_def sample_lease_calls fun_upd_idem)
  have 5: "sample_lease_step True (lease_sys_of (mem_lease ''D'' 1) ?t (?n(''b'' \<mapsto> ?pb)) (?n(''d'' \<mapsto> lease_of ''d'' ?t 9)))
      (lease_sys_of (mem_lease ''B'' 2) ?t ?n (?n(''d'' \<mapsto> lease_of ''d'' ?t 9, ''b'' \<mapsto> lease_of ''b'' ?t 9)))"
    using acquire_write [of "lease_sys_of (mem_lease ''D'' 1) ?t (?n(''b'' \<mapsto> ?pb)) (?n(''d'' \<mapsto> lease_of ''d'' ?t 9))" "''b''" ?t 9 "''B''" "Some 1" mem_kv "''gc''"
        "Inr True" "mem_lease ''B'' 2"]
    by (simp add: after_write_def sample_lease_calls fun_upd_idem)
  have "holds_lease (lease_sys_of (mem_lease ''B'' 2) ?t ?n (?n(''d'' \<mapsto> lease_of ''d'' ?t 9, ''b'' \<mapsto> lease_of ''b'' ?t 9))) i"
    if "i \<in> {''b'', ''d''}" for i
    using that by (auto simp: holds_lease_def lease_expired_def seconds_def)
  moreover have "(sample_lease_step True)\<^sup>*\<^sup>* (lease_init (mem_store []) 0)
      (lease_sys_of (mem_lease ''B'' 2) ?t ?n (?n(''d'' \<mapsto> lease_of ''d'' ?t 9, ''b'' \<mapsto> lease_of ''b'' ?t 9)))"
    using sample_lease_first [of True] 0 1 2 3 4 5 by (meson rtranclp.rtrancl_into_rtrancl)
  ultimately show ?thesis by blast
qed


text \<open>
  Acquiring a lease implements the protocol's step. Whatever others do between the read and the
  write, a successful call answers from the lease it read: a valid lease of another instance refuses
  without writing; otherwise the new record is written, and the answer is yes, exactly when the
  version is still the one it read.
\<close>

theorem lease_acquisition_is_cas:
  assumes "kv_store kv invar view" "invar s" "sk_ok name" "\<forall>i s. invar s \<longrightarrow> invar (env i s)"
  shows "wp (try_acquire_lease kv C env now name instance_id ttl) (\<lambda>r s'. invar s' \<and>
    (\<forall>ok. r = Inr ok \<longrightarrow> lease_attempt C invar view env now name instance_id ttl (view s) ok (view s'))) s"
  by (rule kv_store.try_acquire_lease_spec [OF assms(1-3)]) (use assms(4) in blast)

theorem lease_acquisition_is_cas_witness:
  "wp (try_acquire_lease mem_kv sample_codecs (\<lambda>_ s. s) 5 ''a/b'' ''i'' 9) (\<lambda>r s'. \<forall>ok. r = Inr ok \<longrightarrow> ok) (mem_store [])"
proof (rule wp_mono [OF lease_acquisition_is_cas [OF mem_lawful mem_invar_empty]], goal_cases)
  case (3 r s')
  show ?case
  proof (intro allI impI)
    fix ok assume "r = Inr ok"
    with 3 have "lease_attempt sample_codecs (redb_invar mem_tab) (redb_view mem_tab) (\<lambda>_ s. s) 5 ''a/b'' ''i'' 9
        (redb_view mem_tab (mem_store [])) ok (redb_view mem_tab s')" by blast
    moreover have "lease_at ''a/b'' (redb_view mem_tab (mem_store [])) = None" by (simp add: lease_at_def mem_view_empty)
    ultimately show ok by (auto simp: lease_attempt_def lease_found_def lease_plan_def lease_written_def)
  qed
qed simp_all

text \<open>
  C35: at most one task fetches a resource. However the lock-free reads, the locked claims and the
  drops of any number of tasks interleave, two tasks that lead the fetch of one key are the same
  task, and the shared map holds the notify of that task.
\<close>

theorem inflight_single_leader:
  assumes "(inflight_step hash)\<^sup>*\<^sup>* inflight_init S" "is_tasks S t = Leading key n" "is_tasks S u = Leading key m"
  shows "t = u \<and> claim_lookup hash (is_map S) key = Some n"
  using assms by (rule inflight_one_leader)

theorem inflight_single_leader_witness:
  "\<exists>S. (inflight_step (\<lambda>_. 0))\<^sup>*\<^sup>* inflight_init S \<and> is_tasks S 0 = Leading ''k'' 0 \<and>
    claim_lookup (\<lambda>_. 0) (is_map S) ''k'' = Some 0"
proof -
  let ?S1 = "inflight_init\<lparr>is_tasks := (\<lambda>_. Idle)(0 := Claiming ''k'')\<rparr>"
  let ?r = "claim_locked (\<lambda>_. 0) inflight_new ''k''"
  let ?S2 = "\<lparr>is_map = snd ?r, is_tasks = (\<lambda>_. Idle)(0 := Leading ''k'' 0)\<rparr>"
  have r: "?r = (Inr 0, snd ?r)"
    by (simp add: claim_locked_def claim_lookup_def inflight_new_def Let_def)
  have "inflight_step (\<lambda>_. 0) inflight_init ?S1"
    using fast_miss [of inflight_init 0 "\<lambda>_. 0" "''k''"] by (simp add: inflight_init_def claim_lookup_def inflight_new_def)
  moreover have "inflight_step (\<lambda>_. 0) ?S1 ?S2"
    using slow_win [of ?S1 0 "''k''" "\<lambda>_. 0" 0 "snd ?r"] r by (simp add: inflight_init_def)
  ultimately have run: "(inflight_step (\<lambda>_. 0))\<^sup>*\<^sup>* inflight_init ?S2" by (meson rtranclp.rtrancl_into_rtrancl rtranclp.rtrancl_refl)
  show ?thesis using run inflight_single_leader [OF run, of 0 "''k''" 0 0 0] by (intro exI [of _ ?S2]) simp
qed

text \<open>
  C36: access is granted exactly by a grant of one of the roles: for that capability, and for that
  repository or for all of them; otherwise the check fails with the error that becomes a 403, or a
  401 with a challenge for the anonymous user.
\<close>

theorem access_granted_iff:
  "(check_grants roles repo required = Inr () \<longleftrightarrow>
      (\<exists>role \<in> set roles. \<exists>g \<in> set (ro_capabilities role).
        cg_capability g = required \<and> (cg_repo g = ''*'' \<or> cg_repo g = repo))) \<and>
    (\<forall>e. check_grants roles repo required = Inl e \<longrightarrow>
      rsp_status (map_permission_error e user) = (if user = ''anonymous'' then 401 else 403) \<and>
      (rsp_www_authenticate (map_permission_error e user) \<noteq> None \<longleftrightarrow> user = ''anonymous''))"
  by (simp add: check_grants_iff map_permission_error_def unauthorized_response_def error_into_response_def)

theorem access_granted_iff_witness:
  "check_grants [] ''r'' Read = Inl (Forbidden ''access denied'') \<and>
    rsp_status (map_permission_error (Forbidden ''access denied'') ''anonymous'') = 401"
  using access_granted_iff [of "[]" "''r''" Read "''anonymous''"] by simp

section \<open>The update worker\<close>

text \<open>
  Draining the channel coalesces: the map holds an entry for exactly the directories that were
  named by a queued delta, with the wrapped sums of their counts and bytes and the latest of their
  times, in whatever order the deltas were queued.
\<close>

theorem dir_deltas_coalesce:
  "coalesced queue k (map_of (drain_dir_deltas queue) k) \<and>
    (mset queue' = mset queue \<longrightarrow> coalesced queue k (map_of (drain_dir_deltas queue') k))"
proof (intro conjI impI)
  assume "mset queue' = mset queue"
  then show "coalesced queue k (map_of (drain_dir_deltas queue') k)"
    using coalesced_perm [of queue' queue k] drain_coalesces [of queue' k] by simp
qed (rule drain_coalesces)

theorem dir_deltas_coalesce_witness:
  "coalesced [\<lparr>dd_repo = ''r'', dd_pk = ''p'', dd_dir_path = ''a'', dd_count_delta = 1, dd_bytes_delta = 5, dd_timestamp = 3\<rparr>,
      \<lparr>dd_repo = ''r'', dd_pk = ''p'', dd_dir_path = ''a'', dd_count_delta = 1, dd_bytes_delta = 7, dd_timestamp = 2\<rparr>] (''p'', ''a'')
    (Some \<lparr>dd_repo = ''r'', dd_pk = ''p'', dd_dir_path = ''a'', dd_count_delta = 2, dd_bytes_delta = 12, dd_timestamp = 3\<rparr>)"
  using dir_deltas_coalesce [of
      "[\<lparr>dd_repo = ''r'', dd_pk = ''p'', dd_dir_path = ''a'', dd_count_delta = 1, dd_bytes_delta = 5, dd_timestamp = 3\<rparr>,
        \<lparr>dd_repo = ''r'', dd_pk = ''p'', dd_dir_path = ''a'', dd_count_delta = 1, dd_bytes_delta = 7, dd_timestamp = 2\<rparr>]"
      "(''p'', ''a'')"
      "[\<lparr>dd_repo = ''r'', dd_pk = ''p'', dd_dir_path = ''a'', dd_count_delta = 1, dd_bytes_delta = 7, dd_timestamp = 2\<rparr>,
        \<lparr>dd_repo = ''r'', dd_pk = ''p'', dd_dir_path = ''a'', dd_count_delta = 1, dd_bytes_delta = 5, dd_timestamp = 3\<rparr>]"]
  by (simp add: drain_dir_deltas_def merge_all_def merge_dir_delta_def Let_def)

text \<open>
  C38: one delta against the store (\<^verbatim>\<open>apply_dir_delta\<close>): a directory whose count falls to
  zero or below is removed, any other is rewritten with both counters clamped at zero and the later
  times; a missing directory is created by a positive delta only; nothing but the key of that
  directory changes.
\<close>

theorem dir_delta_saturates:
  assumes "kv_store kv invar view" "invar s" "pk_ok (dd_pk d)" "sk_ok (dd_dir_path d)"
  shows "wp (apply_dir_delta kv C d) (kv_write invar view s {delta_cell_key d} (delta_applied C d (view s))) s"
  using assms by (rule kv_store.apply_dir_delta_spec)

definition sample_delta :: dir_delta where
  "sample_delta = \<lparr>dd_repo = ''r'', dd_pk = ''p'', dd_dir_path = ''a'', dd_count_delta = - 1, dd_bytes_delta = - 5, dd_timestamp = 3\<rparr>"

lemma sample_delta_ok [simp]: "pk_ok (dd_pk sample_delta)" "sk_ok (dd_dir_path sample_delta)"
  by (simp_all add: sample_delta_def pk_ok_def sk_ok_def)

definition filed_delta :: dir_delta where
  "filed_delta = sample_delta\<lparr>dd_pk := sharded_pk sample_hasher ''r'' (tree_parent ''a'')\<rparr>"

lemma filed_delta_ok: "delta_ok sample_hasher filed_delta"
  by (simp add: filed_delta_def sample_delta_def delta_ok_def)


lemma sample_delta_missing: "dir_after sample_delta None = None"
  by (simp add: dir_after_def sample_delta_def)

theorem dir_delta_saturates_witness:
  "wp (apply_dir_delta mem_kv sample_codecs sample_delta) (\<lambda>r s. \<forall>ok. r = Inr ok \<longrightarrow> \<not> ok) (mem_store [])"
  by (rule wp_mono [OF dir_delta_saturates [OF mem_lawful mem_invar_empty sample_delta_ok, of sample_codecs]])
    (auto simp: delta_applied_def mem_view_empty sample_delta_missing)





text \<open>
  C39: the propagation at shutdown always ends, on every lawful backend and whatever the store
  answers: errors and conflicts included, each level is one directory closer to the root.
\<close>

theorem shutdown_propagation_ends:
  assumes "kv_store kv invar view" "invar s" "deltas_all (delta_wf H) m" "\<forall>xs. mset (ord xs) = mset xs"
  shows "\<exists>s'. flush_levels (apply_dir_delta kv C) H ord m s = Some s' \<and> invar s'"
  using assms by (rule kv_store.propagation_returns)

theorem shutdown_propagation_ends_witness:
  "\<exists>s'. flush_levels (apply_dir_delta mem_kv sample_codecs) sample_hasher (\<lambda>xs. xs)
      (drain_dir_deltas [filed_delta]) (mem_store []) = Some s'"
proof -
  have "delta_wf sample_hasher filed_delta"
    using filed_delta_ok by (simp add: delta_wf_def filed_delta_def sample_delta_def sk_ok_def)
  then have "deltas_all (delta_wf sample_hasher) (drain_dir_deltas [filed_delta])"
    by (simp add: deltas_all_def drain_dir_deltas_def merge_all_def merge_dir_delta_def)
  then show ?thesis
    using shutdown_propagation_ends [OF mem_lawful mem_invar_empty, of sample_hasher _ "\<lambda>xs. xs" sample_codecs] by auto
qed

text \<open>
  C40: a delta that cannot be applied (its directory is missing and it adds no file, or an artifact
  sits at its key) goes back into the buffer on every pass. With such a delta in the buffer and the
  queues empty, for as long as nothing else arrives or touches that key, every pass of the drain
  loop counts as work: the loop does not return, and the worker never reaches the select behind it,
  whatever is to be seen there, a cancellation and the timer included. (Events that arrive meanwhile
  would still be taken up by the passes, and a later delta that adds files to the directory ends the
  loop.)
\<close>

theorem stuck_delta_livelock:
  assumes "kv_store kv invar view" "stuck_worker invar view C d w" "\<forall>xs. mset (ord xs) = mset xs"
  shows "worker_drain H kv C env now ord w = None \<and> run_update_worker H kv C env now ord events w = None"
  using kv_store.stuck_worker_never_returns [OF assms, of H env now] by (cases events) simp_all

theorem stuck_delta_livelock_witness:
  "worker_drain sample_hasher mem_kv sample_codecs (\<lambda>_ s. s) 0 (\<lambda>xs. xs)
     \<lparr>wk_world = sample_world, wk_stashed_dir = None, wk_stashed_atime = None,
      wk_propagation = [(delta_key sample_delta, sample_delta)], wk_pending_store = []\<rparr> = None \<and>
   run_update_worker sample_hasher mem_kv sample_codecs (\<lambda>_ s. s) 0 (\<lambda>xs. xs) [CancelEvent]
     \<lparr>wk_world = sample_world, wk_stashed_dir = None, wk_stashed_atime = None,
      wk_propagation = [(delta_key sample_delta, sample_delta)], wk_pending_store = []\<rparr> = None"
  by (rule stuck_delta_livelock [OF mem_lawful _, of sample_codecs sample_delta])
    (simp_all add: stuck_worker_def stuck_delta_def sample_world_def
      mem_view_empty sample_delta_missing mem_invar_empty_eq)

text \<open>
  C13: the rebuild of the browse tree (\<^verbatim>\<open>full_scan\<close>). Whatever the tree looked like, in whatever order
  shards and hash maps are visited: a scan that succeeds leaves every listed repository with a file
  entry for each of its artifacts; with a directory entry, holding the number, the bytes and the
  latest times of the artifacts below, for each directory above an artifact whose own path is not
  that of an artifact (with artifacts \<^verbatim>\<open>a\<close> and \<^verbatim>\<open>a/b\<close> the
  key of \<^verbatim>\<open>a\<close> holds the file entry, which the code inserts over the directory entry);
  and with no other entry. Nothing but directory entries and metadata changes. The paths in a
  repository are different and free of NUL bytes.
\<close>

theorem full_scan_rebuilds_tree:
  assumes "kv_store kv invar view" "invar s" "shard_order arrival" "\<And>ks. mset (ord ks) = mset ks"
    and "\<forall>repo \<in> set (live_repos C (view s)). pk_ok (rp_name repo) \<and> sk_ok (rp_store repo) \<and>
      paths_distinct (cs_artifact C) (view s) (rp_name repo)"
  shows "wp (full_scan H kv C now ord arrival) (\<lambda>r s'. invar s' \<and>
      (\<forall>t pk sk. t \<noteq> TABLE_DIR_ENTRIES \<longrightarrow> t \<noteq> TABLE_META \<longrightarrow> view s' t pk sk = view s t pk sk) \<and>
      (\<forall>n updated stores. r = Inr (n, updated, stores) \<longrightarrow> n = length (live_repos C (view s)) \<and>
        (\<forall>repo \<in> set (live_repos C (view s)).
          rebuilt H C (rp_name repo) (repo_arts (cs_artifact C) (view s) (rp_name repo) [0..<NUM_SHARDS]) (view s')))) s"
  using assms by (rule kv_store.full_scan_spec)

definition sample_tree_codecs :: codecs where
  "sample_tree_codecs = sample_gc_codecs\<lparr>cs_tree := table_codec [(tree_entry_of sample_named, ''F''), (dir_tree_entry (1, 3, 1, 1), ''D'')]\<rparr>"

lemma sample_tree_arts:
  "repo_arts (cs_artifact sample_tree_codecs) (redb_view mem_tab (w_kv (gr_world sample_gc_run))) ''r'' [0..<NUM_SHARDS] = [(''a/b'', sample_named)]"
proof -
  let ?v = "redb_view mem_tab (w_kv (gr_world sample_gc_run))" and ?i = "shard_of sample_hasher ''a/b''"
  have norm: "normalize_path ''a/b'' = ''a/b''"
    by (simp add: normalize_path_def trim_matches_def trim_start_matches_def trim_end_matches_def)
  have v: "?v TABLE_ARTIFACTS (artifact_shard_pk ''r'' i) = (if i = ?i then [''a/b'' \<mapsto> (''N'', 1)] else Map.empty)" for i
    by (auto simp: sample_gc_view(2) entry_at_def fun_eq_iff sharded_pk_def artifact_shard_pk_def)
  have "arts_of (cs_artifact sample_tree_codecs) (entries_where (?v TABLE_ARTIFACTS (artifact_shard_pk ''r'' i)) (\<lambda>_. True)) =
      (if i = ?i then [(''a/b'', sample_named)] else [])" for i
    unfolding v by (simp add: entries_where_def sample_tree_codecs_def sample_gc_codecs_def decode_table_single norm)
  moreover have "concat (map (\<lambda>i. if i = j then [x] else []) is) = (if j \<in> set is then [x] else [])"
    if "distinct is" for j :: nat and "is" and x :: "string \<times> artifact_record"
    using that by (induction "is") auto
  ultimately show ?thesis unfolding repo_arts_def by (simp add: NUM_SHARDS_def)
qed

lemma sample_live: "live_repos sample_tree_codecs (redb_view mem_tab (w_kv (gr_world sample_gc_run))) = [sample_hosted]"
  using sample_listed(1) sample_ready(6)
  by (simp add: live_repos_def listed_repos_def sample_tree_codecs_def sample_gc_env_def stack_env_def split: sum.splits)

lemma sample_tree_below: "ancestor_dirs ''a/b'' = [''a'', []]"
  using strip_dirs_simps(2) [of "''b''" "''a''"] by (simp add: ancestor_dirs_def)

theorem full_scan_rebuilds_tree_witness:
  "wp (full_scan sample_hasher mem_kv sample_tree_codecs 10 rev [0..<NUM_SHARDS]) (\<lambda>r s'. \<forall>n updated stores. r = Inr (n, updated, stores) \<longrightarrow>
      n = 1 \<and> tree_holds sample_hasher sample_tree_codecs ''r'' (redb_view mem_tab s') ''a/b'' (tree_entry_of sample_named) \<and>
      tree_holds sample_hasher sample_tree_codecs ''r'' (redb_view mem_tab s') ''a'' (dir_tree_entry (1, 3, 1, 1)) \<and>
      tree_holds sample_hasher sample_tree_codecs ''r'' (redb_view mem_tab s') [] (dir_tree_entry (1, 3, 1, 1)))
    (w_kv (gr_world sample_gc_run))"
proof -
  let ?s = "w_kv (gr_world sample_gc_run)"
  have name: "rp_name sample_hosted = ''r''" "rp_store sample_hosted = ''default''" by (simp_all add: sample_hosted_def)
  have ok: "\<forall>repo \<in> set (live_repos sample_tree_codecs (redb_view mem_tab ?s)). pk_ok (rp_name repo) \<and> sk_ok (rp_store repo) \<and>
      paths_distinct (cs_artifact sample_tree_codecs) (redb_view mem_tab ?s) (rp_name repo)"
    by (simp add: sample_live name paths_distinct_def sample_tree_arts sk_ok_def)
  have stats: "below [(''a/b'', sample_named)] d = [sample_named]" "stat_of [sample_named] = (1, 3, 1, 1)" if "d \<in> {[], ''a''}" for d
    using that by (auto simp: sample_tree_below stat_of_def sample_named_def sample_artifact_def)
  show ?thesis
  proof (rule wp_mono [OF full_scan_rebuilds_tree [OF mem_lawful sample_gc_view(1) shard_order_upt mset_rev ok]], goal_cases)
    case (1 r s')
    show ?case
    proof (intro allI impI)
      fix n updated stores assume "r = Inr (n, updated, stores)"
      then have "n = 1" and tree: "rebuilt sample_hasher sample_tree_codecs ''r'' [(''a/b'', sample_named)] (redb_view mem_tab s')"
        using 1 by (auto simp: sample_live name sample_tree_arts)
      have "tree_holds sample_hasher sample_tree_codecs ''r'' (redb_view mem_tab s') ''a/b'' (tree_entry_of sample_named)"
        using tree by (simp add: rebuilt_def)
      moreover have "tree_holds sample_hasher sample_tree_codecs ''r'' (redb_view mem_tab s') d (dir_tree_entry (1, 3, 1, 1))"
        if d: "d \<in> {[], ''a''}" for d
      proof -
        have "below [(''a/b'', sample_named)] d \<noteq> []" "d \<notin> fst ` set [(''a/b'', sample_named)]" using d stats(1) [OF d] by auto
        then have "tree_holds sample_hasher sample_tree_codecs ''r'' (redb_view mem_tab s') d
            (dir_tree_entry (stat_of (below [(''a/b'', sample_named)] d)))" using tree unfolding rebuilt_def by blast
        then show ?thesis unfolding stats(1) [OF d] stats(2) [OF d] .
      qed
      ultimately show "n = 1 \<and> tree_holds sample_hasher sample_tree_codecs ''r'' (redb_view mem_tab s') ''a/b'' (tree_entry_of sample_named) \<and>
          tree_holds sample_hasher sample_tree_codecs ''r'' (redb_view mem_tab s') ''a'' (dir_tree_entry (1, 3, 1, 1)) \<and>
          tree_holds sample_hasher sample_tree_codecs ''r'' (redb_view mem_tab s') [] (dir_tree_entry (1, 3, 1, 1))"
        using \<open>n = 1\<close> by simp
    qed
  qed
qed

end
